(* ===== verification/Prelude.thy ===== *)
theory Prelude
  imports Main "HOL-Library.Word"
begin

text \<open>
  Shared vocabulary of the development: the machine integer types of the C++ code, the
  result type of \<^verbatim>\<open>include/signet/error.hpp\<close>, little-endian byte access, and the bit-level
  and list lemmas that the component theories use.  A byte buffer is a \<open>u8 list\<close>, an index
  or a \<^verbatim>\<open>size_t\<close> length is a \<open>nat\<close> (the code's buffers fit in memory, so no length
  reaches \<open>2^64\<close>; where the code guards a size, the guard is kept), a value of a w-bit integer
  type is a \<open>w word\<close>.
\<close>

unbundle bit_operations_syntax

section \<open>Types\<close>

type_synonym u8 = "8 word"
type_synonym u16 = "16 word"
type_synonym u32 = "32 word"
type_synonym u64 = "64 word"
type_synonym bytes = "u8 list"

text \<open>\<^verbatim>\<open>ErrorCode\<close> of \<^verbatim>\<open>error.hpp\<close>, in its order.\<close>

datatype error_code =
    OK | IO_ERROR | INVALID_FILE | CORRUPT_FOOTER | CORRUPT_PAGE | CORRUPT_DATA
  | INVALID_ARGUMENT | UNSUPPORTED_ENCODING | UNSUPPORTED_COMPRESSION | UNSUPPORTED_TYPE
  | SCHEMA_MISMATCH | OUT_OF_RANGE | THRIFT_DECODE_ERROR | ENCRYPTION_ERROR
  | HASH_CHAIN_BROKEN | LICENSE_ERROR | LICENSE_LIMIT_EXCEEDED | INTERNAL_ERROR

text \<open>
  \<^verbatim>\<open>expected<T>\<close>: an error or a value.  The human-readable message of an
  \<^verbatim>\<open>Error\<close> is not modelled; its code is.
\<close>

type_synonym 'a expected = "error_code + 'a"

named_theorems bit_access \<open>bit-level readings of the packing and byte-order operations\<close>
named_theorems size_facts \<open>lengths of the buffers the operations produce\<close>

section \<open>Lists\<close>

lemma nth_append_mid [simp]: "(xs @ y # ys) ! length xs = y"
  by simp

lemma nth_append_off [simp]: "(xs @ ys) ! (length xs + i) = ys ! i"
  by (simp add: nth_append)

lemma take_append_len [simp]: "take (length xs) (xs @ ys) = xs"
  by simp

lemma drop_append_len [simp]: "drop (length xs) (xs @ ys) = ys"
  by simp

lemma drop_append_off [simp]: "drop (length xs + n) (xs @ ys) = drop n ys"
  by simp

lemma list_eq_upt_map: "length xs = n \<Longrightarrow> (\<And>i. i < n \<Longrightarrow> xs ! i = f i) \<Longrightarrow> xs = map f [0..<n]"
  by (rule nth_equalityI) auto

text \<open>An in-place write of one element behind a prefix.\<close>

lemma list_update_append_len [simp]: "(xs @ y # ys)[length xs := z] = xs @ z # ys"
  by simp

section \<open>Words\<close>

lemma bit_word_eqI:
  fixes v w :: "'a::len word"
  assumes "\<And>i. i < LENGTH('a) \<Longrightarrow> bit v i = bit w i"
  shows "v = w"
  using assms by (intro bit_eqI) (auto simp: bit_imp_le_length dest: bit_imp_le_length)

lemma bit_ucast_iff [bit_access]:
  "bit (ucast (w :: 'a::len word) :: 'b::len word) i \<longleftrightarrow> i < LENGTH('b) \<and> bit w i"
  by (simp add: bit_unsigned_iff)

lemma bit_mask_word [bit_access]:
  "bit (mask n :: 'a::len word) i \<longleftrightarrow> i < n \<and> i < LENGTH('a)"
  by (auto simp: bit_mask_iff)

lemma mask_word_minus_one: "push_bit n 1 - 1 = (mask n :: 'a::len word)"
  by (simp add: mask_eq_exp_minus_1 push_bit_eq_mult)

lemma bit_exp_minus_one [bit_access]:
  "bit (2 ^ n - 1 :: 'a::len word) i \<longleftrightarrow> i < n \<and> i < LENGTH('a)"
  using bit_mask_word[of n i, where 'a = 'a] by (simp add: mask_eq_exp_minus_1)

lemma unat_lt_exp: "unat (v :: 'a::len word) < 2 ^ LENGTH('a)"
  by simp

lemma bit_less_exp_word:
  fixes w :: "'a::len word"
  assumes "unat w < 2 ^ n" "n \<le> i"
  shows "\<not> bit w i"
proof -
  have "take_bit n (unat w) = unat w" using assms(1) by (rule take_bit_nat_eq_self)
  then have "take_bit n w = w"
    by (metis unsigned_take_bit_eq word_unat_eq_iff)
  then have "bit w i \<longleftrightarrow> bit (take_bit n w) i" by simp
  then show ?thesis using assms(2) by (simp add: bit_take_bit_iff)
qed

lemma unat_drop_bit: "unat (drop_bit n w) = unat w div 2 ^ n"
  for w :: "'a::len word"
  by (subst unat_drop_bit_eq) (rule drop_bit_eq_div)

lemma ucast_low_byte: "(ucast (w AND 0xFF) :: u8) = ucast (w :: 'a::len word)"
proof -
  have m: "mask 8 = (0xFF :: 'a word)" by (simp add: mask_eq_exp_minus_1)
  show ?thesis unfolding m[symmetric] by (rule bit_word_eqI) (auto simp: bit_access bit_and_iff dest: bit_imp_le_length)
qed

lemma bit_word_of_nat [bit_access]: "bit (of_nat n :: 'a::len word) i \<longleftrightarrow> i < LENGTH('a) \<and> bit n i"
  by (simp add: bit_of_nat_iff possible_bit_def)

lemma ucast_of_nat_down:
  "LENGTH('b) \<le> LENGTH('a) \<Longrightarrow> ucast (of_nat n :: 'a::len word) = (of_nat n :: 'b::len word)"
  by (rule bit_word_eqI) (auto simp: bit_access)

section \<open>Little-endian bytes\<close>

definition to_le :: "nat \<Rightarrow> 'a::len word \<Rightarrow> bytes" where
  "to_le n w = map (\<lambda>i. ucast (drop_bit (8 * i) w)) [0..<n]"

fun of_le :: "bytes \<Rightarrow> 'a::len word" where
  "of_le [] = 0"
| "of_le (b # bs) = ucast b OR push_bit 8 (of_le bs)"

text \<open>Bit \<open>k\<close> of a buffer read LSB first.\<close>

definition byte_bit :: "bytes \<Rightarrow> nat \<Rightarrow> bool" where
  "byte_bit bs k \<longleftrightarrow> k div 8 < length bs \<and> bit (bs ! (k div 8)) (k mod 8)"

lemma length_to_le [simp, size_facts]: "length (to_le n w) = n"
  by (simp add: to_le_def)

lemma nth_to_le: "i < n \<Longrightarrow> to_le n w ! i = ucast (drop_bit (8 * i) w)"
  by (simp add: to_le_def)

lemma bit_of_le [bit_access]:
  "bit (of_le bs :: 'a::len word) i \<longleftrightarrow> i < LENGTH('a) \<and> byte_bit bs i"
proof (induction bs arbitrary: i)
  case Nil
  then show ?case by (simp add: byte_bit_def)
next
  case (Cons b bs)
  show ?case
  proof (cases "i < 8")
    case True
    then show ?thesis
      by (auto simp: bit_or_iff bit_ucast_iff bit_push_bit_iff byte_bit_def)
  next
    case False
    then have i: "i div 8 = Suc ((i - 8) div 8)" "(i - 8) mod 8 = i mod 8"
      by (simp_all add: le_div_geq mod_if)
    have "\<not> bit b i" using False by (auto dest: bit_imp_le_length)
    then show ?thesis using False Cons.IH[of "i - 8"] i
      by (auto simp: bit_or_iff bit_ucast_iff bit_push_bit_iff byte_bit_def)
  qed
qed

lemma byte_bit_to_le [bit_access]:
  "byte_bit (to_le n w) i \<longleftrightarrow> i < 8 * n \<and> bit w i"
  for w :: "'a::len word"
proof -
  have "i div 8 < n \<longleftrightarrow> i < 8 * n" by auto
  then show ?thesis
    by (auto simp: byte_bit_def nth_to_le bit_ucast_iff bit_drop_bit_eq mult.commute add.commute)
qed

lemma of_le_to_le:
  fixes w :: "'a::len word"
  assumes "LENGTH('a) \<le> 8 * n"
  shows "(of_le (to_le n w) :: 'a word) = w"
  by (rule bit_word_eqI) (use assms in \<open>auto simp: bit_access\<close>)

lemma to_le_of_le:
  assumes "length bs = n" "8 * n \<le> LENGTH('a)"
  shows "to_le n (of_le bs :: 'a::len word) = bs"
proof (rule nth_equalityI)
  show "length (to_le n (of_le bs :: 'a word)) = length bs" using assms by simp
next
  fix i assume i: "i < length (to_le n (of_le bs :: 'a word))"
  show "to_le n (of_le bs :: 'a word) ! i = bs ! i"
  proof (rule bit_word_eqI)
    fix j assume "j < LENGTH(8)"
    then have "8 * i + j < 8 * n" "(8 * i + j) div 8 = i" "(8 * i + j) mod 8 = j"
      using i by auto
    then show "bit (to_le n (of_le bs :: 'a word) ! i) j = bit (bs ! i) j"
      using i assms \<open>j < LENGTH(8)\<close>
      by (auto simp: nth_to_le bit_ucast_iff bit_drop_bit_eq bit_of_le byte_bit_def add.commute)
  qed
qed

lemma fold_or_zero:
  fixes f :: "nat \<Rightarrow> 'a::len word"
  shows "fold (\<lambda>i d. d OR f i) xs a = 0 \<longleftrightarrow> a = 0 \<and> (\<forall>i\<in>set xs. f i = 0)"
proof (induction xs arbitrary: a)
  case Nil
  then show ?case by simp
next
  case (Cons x xs)
  have "a OR f x = 0 \<longleftrightarrow> a = 0 \<and> f x = 0" by (auto simp: bit_eq_iff bit_or_iff)
  then show ?case using Cons by auto
qed

end
