(* ===== verification/Codec.thy ===== *)
theory Codec
  imports Prelude
begin

text \<open>
  The interface between a component that writes self-delimiting fields into a byte buffer and
  the component that reads them back.  The varints, the PLAIN values of dictionary pages and
  the little-endian record fields are interpretations; what follows for any such field (a
  sequence of fields reads back in order, fields cannot be confused with one another) is proved
  here once.
\<close>

text \<open>Read \<open>n\<close> consecutive fields; a failing field read fails the sequence.\<close>

fun read_seq :: "(bytes \<Rightarrow> nat \<Rightarrow> ('v \<times> nat) option) \<Rightarrow> nat \<Rightarrow> bytes \<Rightarrow> nat \<Rightarrow> ('v list \<times> nat) option" where
  "read_seq dec 0 data pos = Some ([], pos)"
| "read_seq dec (Suc n) data pos =
     (case dec data pos of None \<Rightarrow> None
      | Some (v, pos') \<Rightarrow>
          (case read_seq dec n data pos' of None \<Rightarrow> None
           | Some (vs, pos'') \<Rightarrow> Some (v # vs, pos'')))"

locale field_codec =
  fixes valid :: "'v \<Rightarrow> bool"
    and enc :: "'v \<Rightarrow> bytes"
    and dec :: "bytes \<Rightarrow> nat \<Rightarrow> ('v \<times> nat) option"
  assumes dec_enc:
    "valid v \<Longrightarrow> dec (pre @ enc v @ post) (length pre) = Some (v, length pre + length (enc v))"
begin

lemma dec_enc_0: "valid v \<Longrightarrow> dec (enc v @ post) 0 = Some (v, length (enc v))"
  using dec_enc[of v "[]" post] by simp

lemma dec_enc_at:
  "valid v \<Longrightarrow> data = pre @ enc v @ post \<Longrightarrow> pos = length pre \<Longrightarrow>
   dec data pos = Some (v, pos + length (enc v))"
  using dec_enc by simp

text \<open>No field is a prefix of another field's encoding.\<close>

lemma enc_unambiguous:
  assumes "valid v" "valid w" "enc v @ r = enc w @ s"
  shows "v = w \<and> r = s"
proof -
  have "Some (v, length (enc v)) = Some (w, length (enc w))"
    using dec_enc_0[OF assms(1), of r] dec_enc_0[OF assms(2), of s] assms(3) by simp
  then show ?thesis using assms(3) by simp
qed

lemma enc_inj: "valid v \<Longrightarrow> valid w \<Longrightarrow> enc v = enc w \<Longrightarrow> v = w"
  using enc_unambiguous[of v w "[]" "[]"] by simp

text \<open>A sequence of fields reads back in order, wherever it stands in the buffer.\<close>

lemma read_seq_enc:
  assumes "\<And>v. v \<in> set vs \<Longrightarrow> valid v"
  shows "read_seq dec (length vs) (pre @ concat (map enc vs) @ post) (length pre)
         = Some (vs, length pre + length (concat (map enc vs)))"
  using assms
proof (induction vs arbitrary: pre)
  case Nil
  then show ?case by simp
next
  case (Cons v vs)
  have hd: "dec (pre @ enc v @ concat (map enc vs) @ post) (length pre)
            = Some (v, length pre + length (enc v))"
    using Cons.prems by (intro dec_enc) simp
  have "read_seq dec (length vs) ((pre @ enc v) @ concat (map enc vs) @ post) (length (pre @ enc v))
        = Some (vs, length (pre @ enc v) + length (concat (map enc vs)))"
    using Cons.prems by (intro Cons.IH) simp
  with hd show ?case by (simp add: add.assoc)
qed

end

end
