(* ===== verification/Varint.thy ===== *)
theory Varint
  imports Codec
begin

text \<open>
  Unsigned LEB128 and zigzag integers.  The code has the same varint loop in four places; each
  copy is modelled as it is written, over its own width and with its own failure behaviour:
  \<open>encode_varint\<close>/\<open>decode_varint\<close> (\<^verbatim>\<open>encoding/rle.hpp\<close>), \<open>encode_uvarint\<close>/\<open>decode_uvarint\<close>
  (\<^verbatim>\<open>encoding/delta.hpp\<close>), \<open>encode_varint32\<close>/\<open>decode_varint32\<close> (\<^verbatim>\<open>compression/snappy.hpp\<close>).
  \<open>leb\<close> is the reference encoding; every encoder appends it and every decoder inverts it.
\<close>

section \<open>The reference encoding\<close>

text \<open>A byte that carries seven payload bits and announces another byte.\<close>

definition cont_byte :: "nat \<Rightarrow> u8" where
  "cont_byte n = of_nat (n mod 128 + 128)"

fun leb :: "nat \<Rightarrow> bytes" where
  "leb n = (if n < 128 then [of_nat n] else cont_byte n # leb (n div 128))"

declare leb.simps [simp del]

lemma leb_small: "n < 128 \<Longrightarrow> leb n = [of_nat n]"
  by (subst leb.simps) simp

lemma leb_large: "\<not> n < 128 \<Longrightarrow> leb n = cont_byte n # leb (n div 128)"
  by (subst leb.simps) simp

lemma leb_nonempty [simp]: "leb n \<noteq> []"
  by (subst leb.simps) simp

lemma length_leb_le: "n < 2 ^ (7 * k) \<Longrightarrow> 0 < k \<Longrightarrow> length (leb n) \<le> k"
proof (induction n arbitrary: k rule: leb.induct)
  case (1 n)
  show ?case
  proof (cases "n < 128")
    case True
    then show ?thesis using 1 by (simp add: leb_small)
  next
    case False
    with 1 have "k \<noteq> 1" by auto
    with 1 obtain k' where k: "k = Suc k'" "0 < k'" by (cases k) auto
    have "n < 128 * 2 ^ (7 * k')" using 1 k by (simp add: power_add)
    then have "n div 128 < 2 ^ (7 * k')" by (simp add: less_mult_imp_div_less mult.commute)
    then show ?thesis using 1(1)[OF False, of k'] k False by (simp add: leb_large)
  qed
qed

text \<open>The two readings a decoder makes of a byte: its payload and its continuation bit.\<close>

lemma cont_bit_iff: "(b :: u8) AND 128 = 0 \<longleftrightarrow> \<not> bit b 7"
  using and_exp_eq_0_iff_not_bit[of b 7] by simp

lemma payload_take_bit: "(b :: u8) AND 127 = take_bit 7 b"
  by (simp add: take_bit_eq_mask mask_eq_exp_minus_1)

lemma bit_of_nat_word: "bit (of_nat n :: 'a::len word) i \<longleftrightarrow> i < LENGTH('a) \<and> bit n i"
  by (simp add: bit_of_nat_iff possible_bit_def)

lemma last_byte:
  assumes "n < 128"
  shows "\<not> bit (of_nat n :: u8) 7" "ucast ((of_nat n :: u8) AND 127) = (of_nat n :: 'a::len word)"
proof -
  have t: "take_bit 7 n = n" using assms by (intro take_bit_nat_eq_self) simp
  have b: "bit n i \<Longrightarrow> i < 7" for i using t by (metis bit_take_bit_iff)
  show "\<not> bit (of_nat n :: u8) 7" using b by (auto simp: bit_of_nat_word)
  show "ucast ((of_nat n :: u8) AND 127) = (of_nat n :: 'a word)"
    by (rule bit_word_eqI) (auto simp: payload_take_bit bit_access bit_of_nat_word bit_take_bit_iff dest: b)
qed

lemma bit_low7: "bit (n mod 128 :: nat) i \<longleftrightarrow> i < 7 \<and> bit n i"
  using bit_take_bit_iff[of 7 n i] by (simp add: take_bit_eq_mod)

lemma bit_low_plus_128: "bit (n mod 128 + 128 :: nat) i \<longleftrightarrow> i < 7 \<and> bit n i \<or> i = 7"
proof -
  have b128: "bit (128 :: nat) j \<longleftrightarrow> j = 7" for j
    using bit_exp_iff[of 7 j, where 'a = nat] by simp
  have "take_bit 7 n + 2 ^ 7 = or (take_bit 7 n) (2 ^ 7)"
    by (rule disjunctive_add) (auto simp: bit_take_bit_iff b128)
  then have "n mod 128 + 128 = or (n mod 128) 128" by (simp add: take_bit_eq_mod)
  then show ?thesis by (auto simp: bit_or_iff bit_low7 b128 simp del: or_numerals)
qed

lemma bit_cont_byte: "bit (cont_byte n) i \<longleftrightarrow> i < 7 \<and> bit n i \<or> i = 7"
  unfolding cont_byte_def bit_of_nat_word bit_low_plus_128 by auto

lemma more_byte:
  "bit (cont_byte n) 7"
  "ucast (cont_byte n AND 127) = (of_nat (n mod 128) :: 'a::len word)"
proof -
  show "bit (cont_byte n) 7" by (simp add: bit_cont_byte)
  show "ucast (cont_byte n AND 127) = (of_nat (n mod 128) :: 'a word)"
    by (rule bit_word_eqI)
      (auto simp: payload_take_bit bit_access bit_of_nat_word bit_take_bit_iff bit_cont_byte bit_low7)
qed

lemma bit_127_int: "bit (127 :: int) i \<longleftrightarrow> i < 7"
  using bit_mask_iff[of 7 i, where 'a = int] by (simp add: mask_eq_exp_minus_1)

lemma bit_128_int: "bit (128 :: int) i \<longleftrightarrow> i = 7"
  using bit_exp_iff[of 7 i, where 'a = int] by auto

text \<open>Accumulating the next seven bits.\<close>

lemma accumulate:
  fixes r :: "'a::len word"
  shows "(r OR push_bit s (of_nat (n mod 128))) OR push_bit (s + 7) (of_nat (n div 128))
         = r OR push_bit s (of_nat n)"
proof (rule bit_word_eqI)
  fix i assume "i < LENGTH('a)"
  have d: "bit (n div 128) j \<longleftrightarrow> bit n (7 + j)" for j
    using bit_drop_bit_eq[of 7 n] by (simp add: drop_bit_eq_div fun_eq_iff)
  show "bit ((r OR push_bit s (of_nat (n mod 128))) OR push_bit (s + 7) (of_nat (n div 128))) i
        = bit (r OR push_bit s (of_nat n)) i"
  proof (cases "i < s + 7")
    case True
    then show ?thesis by (auto simp: bit_or_iff bit_push_bit_iff bit_of_nat_word bit_low7)
  next
    case False
    then have "7 + (i - (s + 7)) = i - s" by simp
    with False show ?thesis by (auto simp: bit_or_iff bit_push_bit_iff bit_of_nat_word bit_low7 d)
  qed
qed

lemma leb_last [simp]: "n < 128 \<Longrightarrow> (of_nat n :: u8) AND 128 = 0"
  by (simp add: cont_bit_iff last_byte)

lemma leb_more [simp]: "cont_byte n AND 128 \<noteq> 0"
  unfolding cont_bit_iff using more_byte(1) by simp

section \<open>Encoders\<close>

text \<open>\<^verbatim>\<open>encode_varint\<close> (rle.hpp): append to the buffer.\<close>

function encode_varint :: "bytes \<Rightarrow> u64 \<Rightarrow> bytes" where
  "encode_varint buf value =
     (if value \<ge> 0x80 then encode_varint (buf @ [ucast (value AND 0x7F) OR 0x80]) (drop_bit 7 value)
      else buf @ [ucast value])"
  by pat_completeness auto
termination
  by (relation "measure (\<lambda>(buf, v). unat v)")
    (auto simp: word_le_nat_alt unat_drop_bit)

text \<open>\<^verbatim>\<open>encode_uvarint\<close> (delta.hpp): the same loop.\<close>

function encode_uvarint :: "bytes \<Rightarrow> u64 \<Rightarrow> bytes" where
  "encode_uvarint buf value =
     (if value \<ge> 0x80 then encode_uvarint (buf @ [ucast (value AND 0x7F) OR 0x80]) (drop_bit 7 value)
      else buf @ [ucast value])"
  by pat_completeness auto
termination
  by (relation "measure (\<lambda>(buf, v). unat v)")
    (auto simp: word_le_nat_alt unat_drop_bit)

text \<open>\<^verbatim>\<open>encode_varint32\<close> (snappy.hpp): 32-bit, and \<open>value | 0x80\<close> truncated to a byte.\<close>

function encode_varint32 :: "bytes \<Rightarrow> u32 \<Rightarrow> bytes" where
  "encode_varint32 dst value =
     (if value \<ge> 0x80 then encode_varint32 (dst @ [ucast (value OR 0x80)]) (drop_bit 7 value)
      else dst @ [ucast value])"
  by pat_completeness auto
termination
  by (relation "measure (\<lambda>(buf, v). unat v)")
    (auto simp: word_le_nat_alt unat_drop_bit)

declare encode_varint.simps [simp del] encode_uvarint.simps [simp del] encode_varint32.simps [simp del]

text \<open>The byte each loop writes for the low seven bits.\<close>

lemma low_byte:
  fixes v :: "'a::len word"
  assumes "8 \<le> LENGTH('a)"
  shows "ucast (v AND 0x7F) OR 0x80 = cont_byte (unat v)"
    and "ucast (v OR 0x80) = cont_byte (unat v)"
proof -
  note facts = bit_access bit_or_iff bit_and_iff bit_cont_byte bit_127_int bit_128_int bit_unsigned_iff
  show "ucast (v AND 0x7F) OR 0x80 = cont_byte (unat v)"
    by (rule bit_word_eqI) (use assms in \<open>auto simp: facts\<close>)
  show "ucast (v OR 0x80) = cont_byte (unat v)"
    by (rule bit_word_eqI) (use assms in \<open>auto simp: facts\<close>)
qed

text \<open>Every encoder appends the reference encoding.\<close>

lemma encode_varint_leb: "encode_varint buf v = buf @ leb (unat v)"
proof (induction buf v rule: encode_varint.induct)
  case (1 buf v)
  then show ?case
    by (cases "v \<ge> 0x80")
      (auto simp: encode_varint.simps[of buf v] word_le_nat_alt leb_small leb_large low_byte unat_drop_bit)
qed

lemma encode_uvarint_leb: "encode_uvarint buf v = buf @ leb (unat v)"
proof (induction buf v rule: encode_uvarint.induct)
  case (1 buf v)
  then show ?case
    by (cases "v \<ge> 0x80")
      (auto simp: encode_uvarint.simps[of buf v] word_le_nat_alt leb_small leb_large low_byte unat_drop_bit)
qed

lemma encode_varint32_leb: "encode_varint32 buf v = buf @ leb (unat v)"
proof (induction buf v rule: encode_varint32.induct)
  case (1 buf v)
  then show ?case
    by (cases "v \<ge> 0x80")
      (auto simp: encode_varint32.simps[of buf v] word_le_nat_alt leb_small leb_large low_byte unat_drop_bit)
qed

section \<open>Decoders\<close>

text \<open>
  The 64-bit decoding loop.  The two copies differ in what they return when the shift reaches
  64 bits: \<open>decode_varint\<close> returns 0, \<open>decode_uvarint\<close> breaks out and returns the bits collected so
  far.  In both the position goes back to the start, and in both a buffer that ends inside the
  varint yields the bits collected so far with the position unmoved.
\<close>

function varint_loop :: "(u64 \<Rightarrow> u64) \<Rightarrow> bytes \<Rightarrow> nat \<Rightarrow> nat \<Rightarrow> u64 \<Rightarrow> nat \<Rightarrow> u64 \<times> nat" where
  "varint_loop ovf data start_pos pos result shift =
     (if pos < length data then
        let byte = data ! pos;
            result' = result OR push_bit shift (ucast (byte AND 0x7F))
        in if byte AND 0x80 = 0 then (result', pos + 1)
           else if shift + 7 \<ge> 64 then (ovf result', start_pos)
           else varint_loop ovf data start_pos (pos + 1) result' (shift + 7)
      else (result, start_pos))"
  by pat_completeness auto
termination
  by (relation "measure (\<lambda>(ovf, data, start, pos, r, s). length data - pos)") auto

declare varint_loop.simps [simp del]

text \<open>\<^verbatim>\<open>decode_varint\<close> of rle.hpp: value and new position.\<close>

definition decode_varint :: "bytes \<Rightarrow> nat \<Rightarrow> u64 \<times> nat" where
  "decode_varint data pos = varint_loop (\<lambda>_. 0) data pos pos 0 0"

text \<open>\<^verbatim>\<open>decode_uvarint\<close> of delta.hpp.\<close>

definition decode_uvarint :: "bytes \<Rightarrow> nat \<Rightarrow> u64 \<times> nat" where
  "decode_uvarint data pos = varint_loop (\<lambda>r. r) data pos pos 0 0"

text \<open>\<^verbatim>\<open>decode_varint32\<close> of snappy.hpp: at most five bytes, \<open>None\<close> for \<^verbatim>\<open>false\<close>.\<close>

fun varint32_loop :: "nat \<Rightarrow> bytes \<Rightarrow> nat \<Rightarrow> u32 \<Rightarrow> nat \<Rightarrow> (u32 \<times> nat) option" where
  "varint32_loop 0 data pos result shift = None"
| "varint32_loop (Suc k) data pos result shift =
     (if pos \<ge> length data then None
      else let byte = data ! pos;
               result' = result OR push_bit shift (ucast (byte AND 0x7F))
           in if byte AND 0x80 = 0 then Some (result', pos + 1)
              else varint32_loop k data (pos + 1) result' (shift + 7))"

definition decode_varint32 :: "bytes \<Rightarrow> nat \<Rightarrow> (u32 \<times> nat) option" where
  "decode_varint32 data pos = varint32_loop 5 data pos 0 0"

lemma varint_loop_leb:
  assumes "n < 2 ^ (64 - shift)" "shift < 64"
  shows "varint_loop ovf (pre @ leb n @ post) st (length pre) r shift
         = (r OR push_bit shift (of_nat n), length pre + length (leb n))"
  using assms
proof (induction n arbitrary: pre r shift rule: leb.induct)
  case (1 n)
  show ?case
  proof (cases "n < 128")
    case True
    then show ?thesis
      by (simp add: varint_loop.simps[of _ _ _ "length pre"] leb_small last_byte)
  next
    case False
    have s: "shift + 7 < 64"
    proof (rule ccontr)
      assume "\<not> shift + 7 < 64"
      then have "(2::nat) ^ (64 - shift) \<le> 2 ^ 7" using 1(3) by (intro power_increasing) auto
      with 1(2) False show False by simp
    qed
    then have "64 - shift = 7 + (64 - (shift + 7))" by simp
    then have "(2::nat) ^ (64 - shift) = 128 * 2 ^ (64 - (shift + 7))"
      by (simp only: power_add) simp
    with 1(2) have "n div 128 < 2 ^ (64 - (shift + 7))" by (simp add: less_mult_imp_div_less mult.commute)
    from 1(1)[OF False this s, of "pre @ [cont_byte n]" "r OR push_bit shift (of_nat (n mod 128))"]
    show ?thesis using False s
      by (subst varint_loop.simps) (simp add: leb_large more_byte accumulate)
  qed
qed

lemma varint32_loop_leb:
  assumes "n < 2 ^ (7 * k)" "0 < k"
  shows "varint32_loop k (pre @ leb n @ post) (length pre) r shift
         = Some (r OR push_bit shift (of_nat n), length pre + length (leb n))"
  using assms
proof (induction n arbitrary: pre r shift k rule: leb.induct)
  case (1 n)
  from 1(3) obtain k' where k: "k = Suc k'" by (cases k) auto
  show ?case
  proof (cases "n < 128")
    case True
    then show ?thesis by (simp add: k leb_small last_byte)
  next
    case False
    with 1(2) k have "0 < k'" by (cases k') auto
    moreover have "n div 128 < 2 ^ (7 * k')"
      using 1(2) by (simp add: k power_add less_mult_imp_div_less mult.commute)
    ultimately show ?thesis
      using False 1(1)[OF False, of k' "pre @ [cont_byte n]" "r OR push_bit shift (of_nat (n mod 128))" "shift + 7"]
      by (simp add: k leb_large more_byte accumulate)
  qed
qed

lemma decode_varint_leb:
  "decode_varint (pre @ leb (unat v) @ post) (length pre) = (v, length pre + length (leb (unat v)))"
  using varint_loop_leb[of "unat v" 0 _ pre post "length pre" 0] unat_lt_exp[of v]
  by (simp add: decode_varint_def)

lemma decode_uvarint_leb:
  "decode_uvarint (pre @ leb (unat v) @ post) (length pre) = (v, length pre + length (leb (unat v)))"
  using varint_loop_leb[of "unat v" 0 _ pre post "length pre" 0] unat_lt_exp[of v]
  by (simp add: decode_uvarint_def)

lemma decode_varint32_leb:
  "decode_varint32 (pre @ leb (unat v) @ post) (length pre)
   = Some (v, length pre + length (leb (unat v)))"
proof -
  have "unat v < 2 ^ (7 * 5)" using unat_lt_exp[of v] by simp
  then show ?thesis
    using varint32_loop_leb[of "unat v" 5 pre post 0 0] by (simp add: decode_varint32_def)
qed

text \<open>The three varint formats as fields: whatever stands around them, they read back.\<close>

interpretation varint: field_codec "\<lambda>_. True" "encode_varint []" "\<lambda>d p. Some (decode_varint d p)"
  by unfold_locales (simp add: encode_varint_leb decode_varint_leb)

interpretation uvarint: field_codec "\<lambda>_. True" "encode_uvarint []" "\<lambda>d p. Some (decode_uvarint d p)"
  by unfold_locales (simp add: encode_uvarint_leb decode_uvarint_leb)

interpretation varint32: field_codec "\<lambda>_. True" "encode_varint32 []" decode_varint32
  by unfold_locales (simp add: encode_varint32_leb decode_varint32_leb)

text \<open>Bounds: a 64-bit varint takes at most ten bytes, a 32-bit one at most five.\<close>

lemma length_encode_varint: "length (encode_varint buf v) \<le> length buf + 10"
  using length_leb_le[of "unat v" 10] unat_lt_exp[of v] by (simp add: encode_varint_leb)

lemma length_leb32: "length (leb (unat (v :: u32))) \<le> 5"
  using length_leb_le[of "unat v" 5] unat_lt_exp[of v] by simp

text \<open>The decoder never reads past the buffer, and it either keeps its position or advances.\<close>

lemma varint_loop_pos:
  assumes "st \<le> pos" "pos \<le> length data"
  shows "st \<le> snd (varint_loop ovf data st pos r s) \<and> snd (varint_loop ovf data st pos r s) \<le> length data"
  using assms
proof (induction ovf data st pos r s rule: varint_loop.induct)
  case (1 ovf data st pos r s)
  then show ?case by (simp add: varint_loop.simps[of ovf data st pos] Let_def)
qed

lemma decode_varint_pos:
  "pos \<le> length data \<Longrightarrow> pos \<le> snd (decode_varint data pos) \<and> snd (decode_varint data pos) \<le> length data"
  unfolding decode_varint_def by (rule varint_loop_pos) simp_all

text \<open>A buffer that ends inside the varint: the bits read so far, at the old position.\<close>

lemma leb_shift_bound:
  fixes n :: nat
  assumes "n < 2 ^ (64 - shift)" "\<not> n < 128" "shift < 64"
  shows "shift + 7 < 64" "n div 128 < 2 ^ (64 - (shift + 7))"
proof -
  show s: "shift + 7 < 64"
  proof (rule ccontr)
    assume "\<not> shift + 7 < 64"
    then have "(2::nat) ^ (64 - shift) \<le> 2 ^ 7" using assms(3) by (intro power_increasing) auto
    with assms(1,2) show False by simp
  qed
  then have "64 - shift = 7 + (64 - (shift + 7))" by simp
  then have "(2::nat) ^ (64 - shift) = 128 * 2 ^ (64 - (shift + 7))"
    by (simp only: power_add) simp
  with assms(1) show "n div 128 < 2 ^ (64 - (shift + 7))"
    by (simp add: less_mult_imp_div_less mult.commute)
qed

lemma mod_split_128: "(n :: nat) mod 2 ^ (7 * Suc k) = n mod 128 + 128 * (n div 128 mod 2 ^ (7 * k))"
  using mod_mult2_eq[of n 128 "2 ^ (7 * k)"] by (simp add: power_add add.commute)

lemma varint_loop_truncated:
  assumes "k < length (leb n)" "n < 2 ^ (64 - shift)" "shift < 64"
  shows "varint_loop ovf (pre @ take k (leb n)) st (length pre) r shift
         = (r OR push_bit shift (of_nat (n mod 2 ^ (7 * k))), st)"
  using assms
proof (induction n arbitrary: pre r shift k rule: leb.induct)
  case (1 n)
  show ?case
  proof (cases k)
    case 0
    then show ?thesis by (subst varint_loop.simps) simp
  next
    case (Suc k')
    with 1(2) have n: "\<not> n < 128" by (cases "n < 128") (auto simp: leb_small)
    note b = leb_shift_bound[OF 1(3) n 1(4)]
    let ?m = "n mod 2 ^ (7 * k)"
    have m: "?m mod 128 = n mod 128" "?m div 128 = n div 128 mod 2 ^ (7 * k')"
      unfolding Suc mod_split_128 by simp_all
    have "varint_loop ovf ((pre @ [cont_byte n]) @ take k' (leb (n div 128))) st (length (pre @ [cont_byte n]))
        (r OR push_bit shift (of_nat (n mod 128))) (shift + 7)
      = ((r OR push_bit shift (of_nat (n mod 128))) OR push_bit (shift + 7) (of_nat (?m div 128)), st)"
      unfolding m(2) using 1(2) n Suc by (intro 1(1) b) (simp_all add: leb_large)
    also have "\<dots> = (r OR push_bit shift (of_nat ?m), st)"
      unfolding m(1)[symmetric] accumulate by (rule refl)
    finally show ?thesis using n Suc b
      by (subst varint_loop.simps) (simp add: leb_large more_byte)
  qed
qed

lemma decode_varint_cut:
  fixes v :: u64
  assumes "k < length (leb (unat v))"
  shows "decode_varint (pre @ take k (leb (unat v))) (length pre) = (of_nat (unat v mod 2 ^ (7 * k)), length pre)"
proof -
  have "unat v < 2 ^ (64 - 0)" using unat_lt_exp[of v] by simp
  from varint_loop_truncated[OF assms this, of "\<lambda>_. 0" pre "length pre" 0] show ?thesis
    by (simp add: decode_varint_def)
qed

section \<open>Zigzag\<close>

text \<open>
  Signed integers are words; \<^verbatim>\<open>n >> 63\<close> on \<^verbatim>\<open>int64_t\<close> is the arithmetic shift.
\<close>

definition zigzag_encode :: "u64 \<Rightarrow> u64" where
  "zigzag_encode n = push_bit 1 n XOR signed_drop_bit 63 n"

definition zigzag_encode32 :: "u32 \<Rightarrow> u32" where
  "zigzag_encode32 n = push_bit 1 n XOR signed_drop_bit 31 n"

definition zigzag_decode :: "u64 \<Rightarrow> u64" where
  "zigzag_decode v = drop_bit 1 v XOR (NOT (v AND 1) + 1)"

definition zigzag_decode32 :: "u32 \<Rightarrow> u32" where
  "zigzag_decode32 v = drop_bit 1 v XOR (NOT (v AND 1) + 1)"

lemma neg_low_bit: "NOT (v AND 1) + 1 = (if bit v 0 then - 1 else 0 :: 'a::len word)"
  by (simp only: minus_eq_not_plus_1[symmetric] and_one_eq bit_0 odd_iff_mod_2_eq_one)
    (auto simp: mod2_eq_if)

lemma bit_neg_low_bit: "bit (NOT (v AND 1) + 1 :: 'a::len word) i \<longleftrightarrow> i < LENGTH('a) \<and> bit v 0"
  by (subst neg_low_bit) simp

lemma bit_zigzag_encode:
  "bit (zigzag_encode n) i \<longleftrightarrow> i < 64 \<and> (0 < i \<and> bit n (i - 1)) \<noteq> bit n 63"
  unfolding zigzag_encode_def bit_xor_iff bit_push_bit_iff bit_signed_drop_bit_iff
  by (cases "i = 0") (auto dest: bit_imp_le_length)

lemma bit_zigzag_decode:
  "bit (zigzag_decode v) i \<longleftrightarrow> i < 64 \<and> bit v (Suc i) \<noteq> bit v 0"
  unfolding zigzag_decode_def bit_xor_iff bit_neg_low_bit bit_drop_bit_eq
  by (auto dest: bit_imp_le_length)

lemma bit_zigzag_encode32:
  "bit (zigzag_encode32 n) i \<longleftrightarrow> i < 32 \<and> (0 < i \<and> bit n (i - 1)) \<noteq> bit n 31"
  unfolding zigzag_encode32_def bit_xor_iff bit_push_bit_iff bit_signed_drop_bit_iff
  by (cases "i = 0") (auto dest: bit_imp_le_length)

lemma bit_zigzag_decode32:
  "bit (zigzag_decode32 v) i \<longleftrightarrow> i < 32 \<and> bit v (Suc i) \<noteq> bit v 0"
  unfolding zigzag_decode32_def bit_xor_iff bit_neg_low_bit bit_drop_bit_eq
  by (auto dest: bit_imp_le_length)

lemma zigzag_decode_encode [simp]: "zigzag_decode (zigzag_encode n) = n"
proof (rule bit_word_eqI)
  fix i assume "i < LENGTH(64)"
  then show "bit (zigzag_decode (zigzag_encode n)) i = bit n i"
    by (cases "i = 63") (auto simp: bit_zigzag_decode bit_zigzag_encode)
qed

lemma zigzag_encode_decode [simp]: "zigzag_encode (zigzag_decode v) = v"
proof (rule bit_word_eqI)
  fix i assume "i < LENGTH(64)"
  moreover have "\<not> bit v 64" by (auto dest: bit_imp_le_length)
  ultimately show "bit (zigzag_encode (zigzag_decode v)) i = bit v i"
    by (cases "i = 0") (auto simp: bit_zigzag_decode bit_zigzag_encode)
qed

lemma zigzag_decode32_encode32 [simp]: "zigzag_decode32 (zigzag_encode32 n) = n"
proof (rule bit_word_eqI)
  fix i assume "i < LENGTH(32)"
  then show "bit (zigzag_decode32 (zigzag_encode32 n)) i = bit n i"
    by (cases "i = 31") (auto simp: bit_zigzag_decode32 bit_zigzag_encode32)
qed

lemma sign_fill: "signed_drop_bit 63 (n :: u64) = (if sint n < 0 then - 1 else 0)"
proof (rule bit_word_eqI)
  fix i assume "i < LENGTH(64)"
  show "bit (signed_drop_bit 63 n) i = bit (if sint n < 0 then - 1 else 0 :: u64) i"
    using bit_last_iff[of n] \<open>i < LENGTH(64)\<close>
    by (cases "i = 0") (auto simp: bit_signed_drop_bit_iff)
qed

lemma uint_zigzag_encode:
  "uint (zigzag_encode n) = (if sint n < 0 then - 2 * sint n - 1 else 2 * sint n)"
proof -
  have r: "- (2 ^ 63) \<le> sint n" "sint n < 2 ^ 63"
    using sint_ge[of n] sint_lt[of n] by simp_all
  have n: "word_of_int (sint n) = n" by simp
  show ?thesis
  proof (cases "sint n < 0")
    case True
    have "zigzag_encode n = word_of_int (- 2 * sint n - 1)"
      using True n by (simp add: zigzag_encode_def sign_fill push_bit_eq_mult not_eq_complement mult.commute)
    then have "uint (zigzag_encode n) = (- 2 * sint n - 1) mod 2 ^ 64"
      by (simp only: uint_word_of_int) simp
    also have "\<dots> = - 2 * sint n - 1" using True r by (intro mod_pos_pos_trivial) auto
    finally show ?thesis using True by simp
  next
    case False
    have "zigzag_encode n = word_of_int (2 * sint n)"
      using False n by (simp add: zigzag_encode_def sign_fill push_bit_eq_mult mult.commute)
    then have "uint (zigzag_encode n) = (2 * sint n) mod 2 ^ 64"
      by (simp only: uint_word_of_int) simp
    also have "\<dots> = 2 * sint n" using False r by (intro mod_pos_pos_trivial) auto
    finally show ?thesis using False by simp
  qed
qed

section \<open>Properties\<close>

text \<open>
  A 64-bit varint written by \<open>encode_varint\<close> behind any bytes is read back by
  \<open>decode_varint\<close> from its position, whatever follows, and the position moves past exactly the
  bytes written, at least one and at most ten.
\<close>

theorem varint_roundtrip:
  "decode_varint (encode_varint pre v @ post) (length pre) = (v, length (encode_varint pre v))
   \<and> length pre < length (encode_varint pre v) \<and> length (encode_varint pre v) \<le> length pre + 10"
  using decode_varint_leb[of pre v post] length_encode_varint[of pre v] by (simp add: encode_varint_leb)

text \<open>
  On a buffer cut inside the varint \<open>decode_varint\<close> leaves the position where it was
  and returns the low 7-bit groups it has read (its comment promises 0), so a caller can tell the
  failure from the position only.
\<close>

theorem varint_truncated:
  assumes "length pre \<le> k" "k < length (encode_varint pre v)"
  shows "decode_varint (take k (encode_varint pre v)) (length pre)
    = (of_nat (unat v mod 2 ^ (7 * (k - length pre))), length pre)"
  using decode_varint_cut[of "k - length pre" v pre] assms by (simp add: encode_varint_leb)

theorem varint_truncated_witness:
  "decode_varint [0x83] 0 = (3, 0)"
proof -
  have e: "encode_varint [] 0x83 = [0x83, 1]" by code_simp
  show ?thesis using varint_truncated[of "[]" 1 "0x83"] unfolding e by simp
qed

text \<open>
  Zigzag is a bijection between signed and unsigned words, in both widths, and it
  maps small magnitudes to small codes: the code of \<open>n\<close> is \<open>2n\<close>, or \<open>-2n - 1\<close> for a negative \<open>n\<close>.
\<close>

theorem zigzag_bijection:
  "zigzag_decode (zigzag_encode n) = n \<and> zigzag_encode (zigzag_decode u) = u
   \<and> zigzag_decode32 (zigzag_encode32 m) = m
   \<and> uint (zigzag_encode n) = (if sint n < 0 then - 2 * sint n - 1 else 2 * sint n)"
  by (simp add: uint_zigzag_encode)

end
