(* ===== verification/BitPack.thy ===== *)
theory BitPack
  imports Codec
begin

text \<open>
  Bit packing: \<^verbatim>\<open>bit_pack_8\<close>/\<^verbatim>\<open>bit_unpack_8\<close> of \<^verbatim>\<open>encoding/rle.hpp\<close> and
  \<^verbatim>\<open>bit_pack_values\<close>/\<^verbatim>\<open>bit_unpack_values\<close> of \<^verbatim>\<open>encoding/delta.hpp\<close>, whose inner loops
  are the same.  Each value occupies \<open>bit_width\<close> bits, LSB first; the loops move at most one
  byte's worth of bits at a time.  The lemmas read the packed buffer bit by bit: bit \<open>j\<close> of
  value \<open>i\<close> is bit \<open>i * bit_width + j\<close> of the buffer.
\<close>

section \<open>Packing\<close>

text \<open>The inner \<^verbatim>\<open>while (bits_remaining > 0)\<close> loop: \<open>OR\<close> the bits of one value into \<open>dst\<close>.\<close>

function write_bits :: "bytes \<Rightarrow> nat \<Rightarrow> nat \<Rightarrow> u64 \<Rightarrow> bytes" where
  "write_bits dst cur_bit bits_remaining val =
     (if bits_remaining > 0 then
        let byte_idx = cur_bit div 8;
            bit_idx = cur_bit mod 8;
            bits_to_write = min bits_remaining (8 - bit_idx);
            m = ucast (push_bit bit_idx (val AND (push_bit bits_to_write 1 - 1)))
        in write_bits (dst[byte_idx := (dst ! byte_idx) OR m]) (cur_bit + bits_to_write)
             (bits_remaining - bits_to_write) (drop_bit bits_to_write val)
      else dst)"
  by pat_completeness auto
termination
  by (relation "measure (\<lambda>(dst, cur, rem, val). rem)") auto

declare write_bits.simps [simp del]

text \<open>The outer loop over the values.\<close>

fun pack_loop :: "bytes \<Rightarrow> nat \<Rightarrow> nat \<Rightarrow> u64 list \<Rightarrow> bytes" where
  "pack_loop dst bit_width bit_offset [] = dst"
| "pack_loop dst bit_width bit_offset (v # vs) =
     pack_loop (write_bits dst bit_offset bit_width v) bit_width (bit_offset + bit_width) vs"

definition bit_pack_8 :: "bytes \<Rightarrow> u64 list \<Rightarrow> nat \<Rightarrow> bytes" where
  "bit_pack_8 out values bit_width =
     (if bit_width = 0 then out
      else out @ pack_loop (replicate ((8 * bit_width + 7) div 8) 0) bit_width 0 (take 8 values))"

definition bit_pack_values :: "bytes \<Rightarrow> u64 list \<Rightarrow> nat \<Rightarrow> bytes" where
  "bit_pack_values out values bit_width =
     (if bit_width = 0 then out
      else out @ pack_loop (replicate ((length values * bit_width + 7) div 8) 0) bit_width 0 values)"

lemma same_byte:
  fixes cur j :: nat
  assumes "cur mod 8 + j < 8"
  shows "(cur + j) div 8 = cur div 8" "(cur + j) mod 8 = cur mod 8 + j"
proof -
  have e: "cur + j = (cur mod 8 + j) + 8 * (cur div 8)" by simp
  have gen: "a < 8 \<Longrightarrow> (a + 8 * q) div 8 = q \<and> (a + 8 * q) mod 8 = a" for a q :: nat by simp
  show "(cur + j) div 8 = cur div 8" "(cur + j) mod 8 = cur mod 8 + j"
    using gen[OF assms, of "cur div 8"] by (simp_all only: e[symmetric] simp_thms)
qed

lemma same_byte_order:
  fixes k cur :: nat
  assumes "k div 8 = cur div 8"
  shows "cur \<le> k \<longleftrightarrow> cur mod 8 \<le> k mod 8" "k - cur = k mod 8 - cur mod 8"
    "k < cur + w \<longleftrightarrow> k mod 8 < cur mod 8 + w"
proof -
  have "k = 8 * (cur div 8) + k mod 8" "cur = 8 * (cur div 8) + cur mod 8"
    using assms by (metis mult_div_mod_eq)+
  then show "cur \<le> k \<longleftrightarrow> cur mod 8 \<le> k mod 8" "k - cur = k mod 8 - cur mod 8"
    "k < cur + w \<longleftrightarrow> k mod 8 < cur mod 8 + w" by linarith+
qed

lemma byte_bit_step:
  assumes "cur div 8 < length dst" "w \<le> 8 - cur mod 8" "w \<le> 8"
  shows "byte_bit (dst[cur div 8 := (dst ! (cur div 8)) OR
            ucast (push_bit (cur mod 8) ((val :: u64) AND (push_bit w 1 - 1)))]) k
         \<longleftrightarrow> byte_bit dst k \<or> cur \<le> k \<and> k < cur + w \<and> bit val (k - cur)"
proof (cases "k div 8 = cur div 8")
  case False
  have "\<not> (cur \<le> k \<and> k < cur + w)"
  proof
    assume "cur \<le> k \<and> k < cur + w"
    then have "cur mod 8 + (k - cur) < 8" using assms(2) by linarith
    then have "(cur + (k - cur)) div 8 = cur div 8" by (rule same_byte)
    with False \<open>cur \<le> k \<and> k < cur + w\<close> show False by simp
  qed
  with False show ?thesis by (auto simp: byte_bit_def)
next
  case True
  note k = same_byte_order[OF True]
  have m: "bit (ucast (push_bit (cur mod 8) (val AND (push_bit w 1 - 1))) :: u8) (k mod 8)
    \<longleftrightarrow> cur mod 8 \<le> k mod 8 \<and> k mod 8 < cur mod 8 + w \<and> bit val (k mod 8 - cur mod 8)"
    unfolding mask_word_minus_one bit_ucast_iff bit_push_bit_iff bit_and_iff bit_mask_word
    using assms(3) by auto
  show ?thesis using assms(1)
    by (simp only: byte_bit_def True k m length_list_update nth_list_update_eq bit_or_iff simp_thms)
qed

lemma length_write_bits [simp, size_facts]: "length (write_bits dst cur rem val) = length dst"
  by (induction dst cur rem val rule: write_bits.induct)
    (subst write_bits.simps, simp add: Let_def)

lemma byte_bit_write_bits [bit_access]:
  assumes "cur + rem \<le> 8 * length dst"
  shows "byte_bit (write_bits dst cur rem val) k
         \<longleftrightarrow> byte_bit dst k \<or> cur \<le> k \<and> k < cur + rem \<and> bit val (k - cur)"
  using assms
proof (induction dst cur rem val rule: write_bits.induct)
  case (1 dst cur rem val)
  show ?case
  proof (cases "rem > 0")
    case False
    then show ?thesis by (subst write_bits.simps) auto
  next
    case True
    define w where "w = min rem (8 - cur mod 8)"
    define dst' where "dst' = dst[cur div 8 := (dst ! (cur div 8)) OR
       ucast (push_bit (cur mod 8) (val AND (push_bit w 1 - 1)))]"
    have w: "w \<le> rem" "w \<le> 8 - cur mod 8" "w \<le> 8" by (auto simp: w_def)
    have c: "cur div 8 < length dst" using 1(2) True by (simp add: less_mult_imp_div_less)
    have IH: "byte_bit (write_bits dst' (cur + w) (rem - w) (drop_bit w val)) k
      \<longleftrightarrow> byte_bit dst' k \<or> cur + w \<le> k \<and> k < cur + w + (rem - w) \<and> bit (drop_bit w val) (k - (cur + w))"
      using 1(1)[OF True refl refl w_def refl] 1(2) w(1) by (simp add: dst'_def)
    have step: "write_bits dst cur rem val = write_bits dst' (cur + w) (rem - w) (drop_bit w val)"
      using True by (subst write_bits.simps) (simp add: w_def dst'_def Let_def)
    have b: "byte_bit dst' k \<longleftrightarrow> byte_bit dst k \<or> cur \<le> k \<and> k < cur + w \<and> bit val (k - cur)"
      unfolding dst'_def by (rule byte_bit_step[OF c w(2,3)])
    have d: "cur + w \<le> k \<Longrightarrow> w + (k - (cur + w)) = k - cur" by simp
    show ?thesis
    proof (cases "cur + w \<le> k")
      case True
      with d w(1) show ?thesis unfolding step IH b by (auto simp: bit_drop_bit_eq)
    next
      case False
      with w(1) show ?thesis unfolding step IH b by auto
    qed
  qed
qed

lemma length_pack_loop [simp, size_facts]: "length (pack_loop dst bw off vs) = length dst"
  by (induction dst bw off vs rule: pack_loop.induct) simp_all

lemma byte_bit_pack_loop_low:
  assumes "off + length vs * bw \<le> 8 * length dst" "k < off"
  shows "byte_bit (pack_loop dst bw off vs) k = byte_bit dst k"
  using assms by (induction dst bw off vs rule: pack_loop.induct) (auto simp: byte_bit_write_bits)

lemma byte_bit_pack_loop:
  assumes "off + length vs * bw \<le> 8 * length dst" "i < length vs" "j < bw"
  shows "byte_bit (pack_loop dst bw off vs) (off + i * bw + j)
         \<longleftrightarrow> byte_bit dst (off + i * bw + j) \<or> bit (vs ! i) j"
  using assms
proof (induction dst bw off vs arbitrary: i rule: pack_loop.induct)
  case (1 dst bw off)
  then show ?case by simp
next
  case (2 dst bw off v vs)
  show ?case
  proof (cases i)
    case 0
    with 2(2,4) show ?thesis
      by (simp add: byte_bit_pack_loop_low byte_bit_write_bits)
  next
    case (Suc i')
    have "off + bw + i' * bw + j = off + i * bw + j" using Suc by simp
    moreover have "\<not> off + i * bw + j < off + bw" using Suc by simp
    ultimately show ?thesis
      using 2(1)[of i'] 2(2-4) Suc by (auto simp: byte_bit_write_bits add.assoc)
  qed
qed

section \<open>Unpacking\<close>

text \<open>The inner loop: collect the bits of one value.\<close>

function read_bits :: "bytes \<Rightarrow> nat \<Rightarrow> nat \<Rightarrow> u64 \<Rightarrow> nat \<Rightarrow> u64" where
  "read_bits src cur_bit bits_remaining val val_bit =
     (if bits_remaining > 0 then
        let byte_idx = cur_bit div 8;
            bit_idx = cur_bit mod 8;
            bits_to_read = min bits_remaining (8 - bit_idx);
            chunk = ucast (drop_bit bit_idx (src ! byte_idx)) AND (push_bit bits_to_read 1 - 1)
        in read_bits src (cur_bit + bits_to_read) (bits_remaining - bits_to_read)
             (val OR push_bit val_bit chunk) (val_bit + bits_to_read)
      else val)"
  by pat_completeness auto
termination
  by (relation "measure (\<lambda>(src, cur, rem, val, vb). rem)") auto

declare read_bits.simps [simp del]

definition value_mask :: "nat \<Rightarrow> u64" where
  "value_mask bit_width = (if bit_width \<ge> 64 then NOT 0 else push_bit bit_width 1 - 1)"

fun unpack_loop :: "bytes \<Rightarrow> nat \<Rightarrow> nat \<Rightarrow> nat \<Rightarrow> u64 list" where
  "unpack_loop src bit_width bit_offset 0 = []"
| "unpack_loop src bit_width bit_offset (Suc n) =
     (read_bits src bit_offset bit_width 0 0 AND value_mask bit_width)
     # unpack_loop src bit_width (bit_offset + bit_width) n"

definition bit_unpack_8 :: "bytes \<Rightarrow> nat \<Rightarrow> u64 list" where
  "bit_unpack_8 src bit_width =
     (if bit_width = 0 then replicate 8 0 else unpack_loop src bit_width 0 8)"

definition bit_unpack_values :: "bytes \<Rightarrow> nat \<Rightarrow> nat \<Rightarrow> u64 list" where
  "bit_unpack_values src count bit_width =
     (if bit_width = 0 then replicate count 0 else unpack_loop src bit_width 0 count)"

lemma bit_read_bits [bit_access]:
  assumes "cur + rem \<le> 8 * length src" "vb + rem \<le> 64"
  shows "bit (read_bits src cur rem val vb) k
         \<longleftrightarrow> bit val k \<or> vb \<le> k \<and> k < vb + rem \<and> byte_bit src (cur + (k - vb))"
  using assms
proof (induction src cur rem val vb rule: read_bits.induct)
  case (1 src cur rem val vb)
  show ?case
  proof (cases "rem > 0")
    case False
    then show ?thesis by (subst read_bits.simps) auto
  next
    case True
    define w where "w = min rem (8 - cur mod 8)"
    define c :: u64 where "c = ucast (drop_bit (cur mod 8) (src ! (cur div 8))) AND (push_bit w 1 - 1)"
    have w: "w \<le> rem" "w \<le> 8 - cur mod 8" by (auto simp: w_def)
    have s: "cur div 8 < length src" using 1(2) True by (simp add: less_mult_imp_div_less)
    have step: "read_bits src cur rem val vb
      = read_bits src (cur + w) (rem - w) (val OR push_bit vb c) (vb + w)"
      using True by (subst read_bits.simps) (simp add: w_def c_def Let_def)
    have IH: "bit (read_bits src (cur + w) (rem - w) (val OR push_bit vb c) (vb + w)) k
      \<longleftrightarrow> bit (val OR push_bit vb c) k \<or>
         vb + w \<le> k \<and> k < vb + w + (rem - w) \<and> byte_bit src (cur + w + (k - (vb + w)))"
      using 1(1)[OF True refl refl w_def c_def] 1(2,3) w(1) by simp
    have cb: "j < w \<Longrightarrow> bit c j \<longleftrightarrow> byte_bit src (cur + j)" for j
    proof -
      assume "j < w"
      then have "cur mod 8 + j < 8" using w(2) by linarith
      note sb = same_byte[OF this]
      show ?thesis using \<open>j < w\<close> w 1(3) s sb
        by (auto simp: c_def mask_word_minus_one bit_and_iff bit_access bit_drop_bit_eq byte_bit_def)
    qed
    have cb': "bit c j \<Longrightarrow> j < w" for j
      by (auto simp: c_def mask_word_minus_one bit_and_iff bit_access)
    show ?thesis
    proof (cases "vb \<le> k \<and> k < vb + w")
      case True
      then have "k - vb < w" by linarith
      from cb[OF this] True w(1) 1(3) show ?thesis unfolding step IH
        by (auto simp: bit_or_iff bit_push_bit_iff)
    next
      case False
      then have "\<not> bit (push_bit vb c) k"
        using cb'[of "k - vb"] by (auto simp: bit_push_bit_iff)
      moreover have "vb + w \<le> k \<Longrightarrow> cur + w + (k - (vb + w)) = cur + (k - vb)" by simp
      ultimately show ?thesis unfolding step IH using False w(1) by (auto simp: bit_or_iff)
    qed
  qed
qed

lemma bit_value_mask [bit_access]: "bit (value_mask bw) i \<longleftrightarrow> i < bw \<and> i < 64"
  unfolding value_mask_def mask_word_minus_one
  by (cases "bw \<ge> 64") (auto simp: bit_access bit_not_iff)

lemma length_unpack_loop [simp, size_facts]: "length (unpack_loop src bw off n) = n"
  by (induction src bw off n rule: unpack_loop.induct) simp_all

lemma nth_unpack_loop:
  "i < n \<Longrightarrow> unpack_loop src bw off n ! i = read_bits src (off + i * bw) bw 0 0 AND value_mask bw"
  by (induction src bw off n arbitrary: i rule: unpack_loop.induct)
    (auto simp: nth_Cons add.assoc split: nat.splits)

lemma bit_unpack_loop:
  assumes "i < n" "off + n * bw \<le> 8 * length src" "bw \<le> 64"
  shows "bit (unpack_loop src bw off n ! i) j \<longleftrightarrow> j < bw \<and> byte_bit src (off + i * bw + j)"
proof -
  have "(i + 1) * bw \<le> n * bw" using assms(1) by (intro mult_le_mono1) simp
  then have "off + i * bw + bw \<le> 8 * length src" using assms(2) by (simp add: add.assoc add.commute)
  then show ?thesis using assms
    by (auto simp: nth_unpack_loop bit_and_iff bit_access)
qed

section \<open>Round trip\<close>

text \<open>A value survives packing when it fits the width.\<close>

lemma fits_bits: "unat (v :: u64) < 2 ^ bw \<Longrightarrow> bit v j \<Longrightarrow> j < bw"
  using bit_less_exp_word[of v bw j] by (meson not_le)

lemma unpack_pack_loop:
  assumes len: "length vs * bw \<le> 8 * m" and bw: "bw \<le> 64"
    and fit: "\<And>v. v \<in> set vs \<Longrightarrow> unat v < 2 ^ bw"
  shows "unpack_loop (pack_loop (replicate m 0) bw 0 vs @ post) bw 0 (length vs) = vs"
proof (rule nth_equalityI)
  fix i assume "i < length (unpack_loop (pack_loop (replicate m 0) bw 0 vs @ post) bw 0 (length vs))"
  then have i: "i < length vs" by simp
  show "unpack_loop (pack_loop (replicate m 0) bw 0 vs @ post) bw 0 (length vs) ! i = vs ! i"
  proof (rule bit_word_eqI)
    fix j assume "j < LENGTH(64)"
    show "bit (unpack_loop (pack_loop (replicate m 0) bw 0 vs @ post) bw 0 (length vs) ! i) j = bit (vs ! i) j"
    proof (cases "j < bw")
      case False
      then show ?thesis using i bw len fit[of "vs ! i"] fits_bits[of "vs ! i" bw j]
        by (auto simp: bit_unpack_loop)
    next
      case True
      have "(i + 1) * bw \<le> length vs * bw" using i by (intro mult_le_mono1) simp
      then have k: "i * bw + j < 8 * m" using True len by simp
      then have in_dst: "byte_bit (pack_loop (replicate m 0) bw 0 vs @ post) (i * bw + j)
          = byte_bit (pack_loop (replicate m 0) bw 0 vs) (i * bw + j)"
        by (auto simp: byte_bit_def nth_append)
      have "\<not> byte_bit (replicate m 0) (i * bw + j)" using k by (simp add: byte_bit_def)
      then have "byte_bit (pack_loop (replicate m 0) bw 0 vs) (i * bw + j) = bit (vs ! i) j"
        using byte_bit_pack_loop[of 0 vs bw "replicate m 0" i j] len i True by simp
      then show ?thesis using True i len bw by (simp add: bit_unpack_loop in_dst)
    qed
  qed
qed simp

lemma replicate_0_eqI:
  "bw = 0 \<Longrightarrow> (\<And>v. v \<in> set vs \<Longrightarrow> unat (v :: u64) < 2 ^ bw) \<Longrightarrow> length vs = n \<Longrightarrow> replicate n 0 = vs"
  by (rule nth_equalityI) (auto simp: unat_eq_0 dest!: nth_mem)

text \<open>
  What RLE and DELTA rely on: a packer writes a fixed number of bytes for a fixed number of
  values of a width, and unpacks them again whatever follows.
\<close>

locale packer =
  fixes count :: nat
    and pack :: "u64 list \<Rightarrow> nat \<Rightarrow> bytes"
    and unpack :: "bytes \<Rightarrow> nat \<Rightarrow> u64 list"
  assumes length_pack: "length vs = count \<Longrightarrow> length (pack vs bw) = (count * bw + 7) div 8"
    and unpack_pack: "length vs = count \<Longrightarrow> bw \<le> 64 \<Longrightarrow>
      (\<And>v. v \<in> set vs \<Longrightarrow> unat v < 2 ^ bw) \<Longrightarrow> unpack (pack vs bw @ post) bw = vs"
begin

lemma length_groups:
  "(\<And>g. g \<in> set gs \<Longrightarrow> length g = count) \<Longrightarrow>
   length (concat (map (\<lambda>g. pack g bw) gs)) = length gs * ((count * bw + 7) div 8)"
  by (induction gs) (auto simp: length_pack)

text \<open>Group \<open>i\<close> of a sequence of groups of one width.\<close>

lemma unpack_group:
  assumes "bw \<le> 64" "i < length gs"
    and "\<And>g. g \<in> set gs \<Longrightarrow> length g = count"
    and "\<And>g v. g \<in> set gs \<Longrightarrow> v \<in> set g \<Longrightarrow> unat v < 2 ^ bw"
  shows "unpack (drop (i * ((count * bw + 7) div 8)) (concat (map (\<lambda>g. pack g bw) gs) @ post)) bw = gs ! i"
proof -
  let ?f = "\<lambda>gs. concat (map (\<lambda>g. pack g bw) gs)"
  have split: "gs = take i gs @ (gs ! i) # drop (Suc i) gs"
    using assms(2) by (simp add: id_take_nth_drop)
  have "?f gs = ?f (take i gs) @ pack (gs ! i) bw @ ?f (drop (Suc i) gs)"
    by (subst split) simp
  moreover have "length (?f (take i gs)) = i * ((count * bw + 7) div 8)"
    using assms(2,3) by (subst length_groups) (auto dest: in_set_takeD)
  ultimately have "drop (i * ((count * bw + 7) div 8)) (?f gs @ post)
      = pack (gs ! i) bw @ (?f (drop (Suc i) gs) @ post)"
    by (metis append.assoc drop_append_len)
  moreover have "unpack (pack (gs ! i) bw @ (?f (drop (Suc i) gs) @ post)) bw = gs ! i"
    using assms(2) by (intro unpack_pack assms(1,3) assms(4)[of "gs ! i"]) auto
  ultimately show ?thesis by simp
qed

end

lemma packed_length: "length (bit_pack_8 [] vs bw) = bw" "length vs = 8 \<Longrightarrow> length (bit_pack_values [] vs bw) = bw"
  by (simp_all add: bit_pack_8_def bit_pack_values_def)

interpretation pack8: packer 8 "\<lambda>vs bw. bit_pack_8 [] vs bw" bit_unpack_8
proof unfold_locales
  fix vs :: "u64 list" and bw :: nat
  show "length (bit_pack_8 [] vs bw) = (8 * bw + 7) div 8" by (simp add: bit_pack_8_def)
next
  fix vs :: "u64 list" and bw :: nat and post :: bytes
  assume "length vs = 8" "bw \<le> 64" "\<And>v. v \<in> set vs \<Longrightarrow> unat v < 2 ^ bw"
  then show "bit_unpack_8 (bit_pack_8 [] vs bw @ post) bw = vs"
    using unpack_pack_loop[of vs bw bw post] replicate_0_eqI[of bw vs 8]
    by (cases "bw = 0") (auto simp: bit_pack_8_def bit_unpack_8_def)
qed

interpretation pack_n: packer n "\<lambda>vs bw. bit_pack_values [] vs bw" "\<lambda>src bw. bit_unpack_values src n bw"
  for n
proof unfold_locales
  fix vs :: "u64 list" and bw :: nat
  assume "length vs = n"
  then show "length (bit_pack_values [] vs bw) = (n * bw + 7) div 8"
    by (simp add: bit_pack_values_def)
next
  fix vs :: "u64 list" and bw :: nat and post :: bytes
  assume a: "length vs = n" "bw \<le> 64" "\<And>v. v \<in> set vs \<Longrightarrow> unat v < 2 ^ bw"
  have "n * bw \<le> 8 * ((n * bw + 7) div 8)" by presburger
  then show "bit_unpack_values (bit_pack_values [] vs bw @ post) n bw = vs"
    using a unpack_pack_loop[of vs bw "(n * bw + 7) div 8" post] replicate_0_eqI[of bw vs n]
    by (cases "bw = 0") (auto simp: bit_pack_values_def bit_unpack_values_def)
qed

section \<open>Properties\<close>

text \<open>
  Bit packing loses nothing and has the size the format states.  For any width up to
  64 and any values that fit it, \<open>bit_pack_values\<close> appends exactly \<open>\<lceil>n * width / 8\<rceil>\<close> bytes
  and \<open>bit_unpack_values\<close> recovers the values from them whatever bytes follow.
\<close>

theorem bit_pack_values_roundtrip:
  assumes "bw \<le> 64" "\<forall>v \<in> set vs. unat v < 2 ^ bw"
  shows "\<exists>packed. bit_pack_values out vs bw = out @ packed
    \<and> length packed = (length vs * bw + 7) div 8
    \<and> (\<forall>post. bit_unpack_values (packed @ post) (length vs) bw = vs)"
proof (intro exI conjI allI)
  show "bit_pack_values out vs bw = out @ bit_pack_values [] vs bw" by (simp add: bit_pack_values_def)
  show "length (bit_pack_values [] vs bw) = (length vs * bw + 7) div 8" by (rule pack_n.length_pack) simp
  show "bit_unpack_values (bit_pack_values [] vs bw @ post) (length vs) bw = vs" for post
    using assms by (intro pack_n.unpack_pack) auto
qed

theorem bit_pack_values_roundtrip_witness:
  "\<exists>packed. bit_pack_values [7] [5, 2, 7, 0, 6] 3 = [7] @ packed \<and> length packed = 2
    \<and> (\<forall>post. bit_unpack_values (packed @ post) 5 3 = [5, 2, 7, 0, 6])"
proof -
  have "length [5, 2, 7, 0, 6 :: u64] = 5" by simp
  from bit_pack_values_roundtrip[of 3 "[5, 2, 7, 0, 6]" "[7]", unfolded this] show ?thesis by simp
qed

end
