(* ===== verification/Rle.thy ===== *)
theory Rle
  imports Varint BitPack
begin

text \<open>
  The RLE / bit-packing hybrid of \<^verbatim>\<open>encoding/rle.hpp\<close>: \<^verbatim>\<open>RleEncoder\<close> and
  \<^verbatim>\<open>RleDecoder\<close> as records with one function per method, the static \<^verbatim>\<open>encode\<close>,
  \<^verbatim>\<open>encode_with_length\<close>, \<^verbatim>\<open>decode\<close> and \<^verbatim>\<open>decode_with_length\<close>.  The encoder is related
  to a list of runs (\<open>run\<close>) whose expansion is the sequence of values put so far; the decoder
  walks the same runs.
\<close>

section \<open>The encoder\<close>

record rle_encoder =
  enc_bit_width :: nat
  enc_byte_width :: nat
  enc_buffer :: bytes
  enc_rle_value :: u64
  enc_rle_count :: nat
  enc_bp_buffer :: "u64 list"
  enc_bp_count :: nat
  enc_bp_groups :: bytes
  enc_bp_group_count :: nat

definition clamp_width :: "int \<Rightarrow> nat" where
  "clamp_width bit_width = (if bit_width < 0 then 0 else if bit_width > 64 then 0 else nat bit_width)"

definition byte_width_of :: "nat \<Rightarrow> nat" where
  "byte_width_of bw = (if bw > 0 then (bw + 7) div 8 else 0)"

definition rle_encoder_new :: "int \<Rightarrow> rle_encoder" where
  "rle_encoder_new bit_width =
     \<lparr>enc_bit_width = clamp_width bit_width, enc_byte_width = byte_width_of (clamp_width bit_width),
      enc_buffer = [], enc_rle_value = 0, enc_rle_count = 0, enc_bp_buffer = replicate 8 0,
      enc_bp_count = 0, enc_bp_groups = [], enc_bp_group_count = 0\<rparr>"

text \<open>\<^verbatim>\<open>write_rle_value\<close>: the value in \<open>byte_width\<close> little-endian bytes.\<close>

fun write_rle_value :: "nat \<Rightarrow> u64 \<Rightarrow> bytes \<Rightarrow> bytes" where
  "write_rle_value 0 value buf = buf"
| "write_rle_value (Suc n) value buf =
     write_rle_value n (drop_bit 8 value) (buf @ [ucast (value AND 0xFF)])"

definition flush_bp_groups :: "rle_encoder \<Rightarrow> rle_encoder" where
  "flush_bp_groups e =
     (if enc_bp_group_count e = 0 then e
      else e\<lparr>enc_buffer := encode_varint (enc_buffer e) (push_bit 1 (of_nat (enc_bp_group_count e)) OR 1)
                             @ enc_bp_groups e,
             enc_bp_groups := [], enc_bp_group_count := 0\<rparr>)"

text \<open>\<^verbatim>\<open>SIZE_MAX >> 1\<close>, the cap before the count is shifted left.\<close>

definition max_run_count :: nat where
  "max_run_count = 2 ^ 63 - 1"

definition flush_rle_run :: "rle_encoder \<Rightarrow> rle_encoder" where
  "flush_rle_run e0 =
     (let e = flush_bp_groups e0;
          n = (if enc_rle_count e > max_run_count then max_run_count else enc_rle_count e)
      in e\<lparr>enc_buffer := write_rle_value (enc_byte_width e) (enc_rle_value e)
                           (encode_varint (enc_buffer e) (push_bit 1 (of_nat n))),
           enc_rle_count := 0\<rparr>)"

definition flush_bp_group :: "rle_encoder \<Rightarrow> rle_encoder" where
  "flush_bp_group e =
     e\<lparr>enc_bp_groups := bit_pack_8 (enc_bp_groups e) (enc_bp_buffer e) (enc_bit_width e),
       enc_bp_group_count := enc_bp_group_count e + 1,
       enc_bp_count := 0,
       enc_bp_buffer := replicate 8 0\<rparr>"

text \<open>The repeated step \<^verbatim>\<open>bp_buffer_[bp_count_++] = v; if (bp_count_ == 8) flush_bp_group()\<close>.\<close>

definition push_bp :: "u64 \<Rightarrow> rle_encoder \<Rightarrow> rle_encoder" where
  "push_bp v e =
     (let e' = e\<lparr>enc_bp_buffer := (enc_bp_buffer e)[enc_bp_count e := v],
                 enc_bp_count := enc_bp_count e + 1\<rparr>
      in if enc_bp_count e' = 8 then flush_bp_group e' else e')"

text \<open>\<^verbatim>\<open>while (rle_count_ > 0)\<close>: move the pending run into the bit-pack buffer.\<close>

fun drain_loop :: "nat \<Rightarrow> rle_encoder \<Rightarrow> rle_encoder" where
  "drain_loop 0 e = e"
| "drain_loop (Suc n) e = drain_loop n (push_bp (enc_rle_value e) (e\<lparr>enc_rle_count := n\<rparr>))"

definition drain_rle :: "rle_encoder \<Rightarrow> rle_encoder" where
  "drain_rle e = drain_loop (enc_rle_count e) e"

definition put :: "rle_encoder \<Rightarrow> u64 \<Rightarrow> rle_encoder" where
  "put e value =
     (if enc_bit_width e = 0 then e
      else if enc_rle_count e = 0 then e\<lparr>enc_rle_value := value, enc_rle_count := 1\<rparr>
      else if value = enc_rle_value e \<and> enc_bp_count e = 0 then
        e\<lparr>enc_rle_count := enc_rle_count e + 1\<rparr>
      else if enc_bp_count e = 0 \<and> enc_rle_count e \<ge> 8 then
        (flush_rle_run e)\<lparr>enc_rle_value := value, enc_rle_count := 1\<rparr>
      else push_bp value (drain_rle e))"

text \<open>\<^verbatim>\<open>while (bp_count_ < 8)\<close>: zero-pad the last group.\<close>

definition pad_bp :: "rle_encoder \<Rightarrow> rle_encoder" where
  "pad_bp e = e\<lparr>enc_bp_buffer := take (enc_bp_count e) (enc_bp_buffer e) @ replicate (8 - enc_bp_count e) 0,
                enc_bp_count := 8\<rparr>"

definition flush :: "rle_encoder \<Rightarrow> rle_encoder" where
  "flush e0 =
     (let e1 = (if enc_bp_count e0 > 0 \<and> enc_rle_count e0 > 0 then drain_rle e0 else e0);
          e2 = (if enc_rle_count e1 > 0 then flush_rle_run e1 else e1);
          e3 = (if enc_bp_count e2 > 0 then flush_bp_group (pad_bp e2) else e2)
      in flush_bp_groups e3)"

definition reset :: "rle_encoder \<Rightarrow> rle_encoder" where
  "reset e = e\<lparr>enc_buffer := [], enc_rle_count := 0, enc_rle_value := 0, enc_bp_count := 0,
               enc_bp_groups := [], enc_bp_group_count := 0\<rparr>"

definition rle_encode :: "u32 list \<Rightarrow> int \<Rightarrow> bytes" where
  "rle_encode values bit_width =
     (if bit_width = 0 then []
      else if bit_width < 1 \<or> bit_width > 64 then []
      else enc_buffer (flush (fold (\<lambda>v e. put e (ucast v)) values (rle_encoder_new bit_width))))"

definition encode_with_length :: "u32 list \<Rightarrow> int \<Rightarrow> bytes" where
  "encode_with_length values bit_width =
     (let payload = rle_encode values bit_width
      in if length payload > 2 ^ 32 - 1 then []
         else let len = (of_nat (length payload) :: u32)
              in [ucast len, ucast (drop_bit 8 len), ucast (drop_bit 16 len), ucast (drop_bit 24 len)]
                 @ payload)"

section \<open>The decoder\<close>

record rle_decoder =
  dec_data :: bytes
  dec_pos :: nat
  dec_bit_width :: nat
  dec_byte_width :: nat
  dec_rle_remaining :: nat
  dec_rle_value :: u64
  dec_bp_remaining :: nat
  dec_bp_index :: nat
  dec_bp_decoded :: "u64 list"

definition rle_decoder_new :: "bytes \<Rightarrow> int \<Rightarrow> rle_decoder" where
  "rle_decoder_new data bit_width =
     \<lparr>dec_data = data, dec_pos = 0, dec_bit_width = clamp_width bit_width,
      dec_byte_width = byte_width_of (clamp_width bit_width), dec_rle_remaining = 0, dec_rle_value = 0,
      dec_bp_remaining = 0, dec_bp_index = 0, dec_bp_decoded = []\<rparr>"

definition MAX_RLE_RUN :: nat where "MAX_RLE_RUN = 256 * 1024 * 1024"
definition MAX_BP_VALUES :: nat where "MAX_BP_VALUES = 32 * 1024 * 1024"
definition MAX_BP_BYTES :: nat where "MAX_BP_BYTES = 256 * 1024 * 1024"

text \<open>\<^verbatim>\<open>for (i < byte_width_ && pos_ < size_)\<close>: value, new position, bytes read.\<close>

fun read_rle_value :: "nat \<Rightarrow> bytes \<Rightarrow> nat \<Rightarrow> nat \<Rightarrow> u64 \<Rightarrow> u64 \<times> nat \<times> nat" where
  "read_rle_value 0 data pos i val = (val, pos, i)"
| "read_rle_value (Suc n) data pos i val =
     (if pos < length data
      then read_rle_value n data (pos + 1) (i + 1) (val OR push_bit (8 * i) (ucast (data ! pos)))
      else (val, pos, i))"

definition get_rle_run :: "rle_decoder \<Rightarrow> nat \<Rightarrow> u64 option \<times> rle_decoder" where
  "get_rle_run d run_length =
     (if run_length = 0 then (None, d)
      else if run_length > MAX_RLE_RUN then (None, d)
      else case read_rle_value (dec_byte_width d) (dec_data d) (dec_pos d) 0 0 of
        (val, pos', bytes_read) \<Rightarrow>
          if bytes_read < dec_byte_width d then (None, d\<lparr>dec_pos := pos'\<rparr>)
          else (Some val, d\<lparr>dec_pos := pos', dec_rle_value := val, dec_rle_remaining := run_length - 1\<rparr>))"

text \<open>The loop over the groups; \<open>bp_decoded\<close> holds what it writes (nothing past it is read).\<close>

fun decode_groups :: "nat \<Rightarrow> bytes \<Rightarrow> nat \<Rightarrow> nat \<Rightarrow> nat \<Rightarrow> u64 list" where
  "decode_groups 0 src bw total_bytes src_offset = []"
| "decode_groups (Suc g) src bw total_bytes src_offset =
     (if src_offset + bw > total_bytes then []
      else bit_unpack_8 (drop src_offset src) bw @ decode_groups g src bw total_bytes (src_offset + bw))"

definition get_bp_run :: "rle_decoder \<Rightarrow> nat \<Rightarrow> u64 option \<times> rle_decoder" where
  "get_bp_run d group_count0 =
     (if group_count0 = 0 then (None, d)
      else let size = length (dec_data d); pos = dec_pos d; bw = dec_bit_width d;
               avail = (if pos < size then size - pos else 0);
               max_groups = (if bw > 0 then avail div bw + 1 else avail + 1);
               group_count = (if group_count0 > max_groups then max_groups else group_count0);
               total_values = group_count * 8;
               total_bytes0 = group_count * bw
           in if group_count = 0 then (None, d)
              else if total_values > MAX_BP_VALUES then (None, d)
              else if total_bytes0 > MAX_BP_BYTES then (None, d)
              else let total_bytes = (if pos + total_bytes0 > size then size - pos else total_bytes0);
                       decoded = decode_groups group_count (drop pos (dec_data d)) bw total_bytes 0;
                       d' = d\<lparr>dec_pos := pos + total_bytes\<rparr>
                   in if decoded = [] then (None, d')
                      else (Some (decoded ! 0),
                            d'\<lparr>dec_bp_decoded := decoded, dec_bp_index := 1,
                               dec_bp_remaining := length decoded - 1\<rparr>))"

definition get :: "rle_decoder \<Rightarrow> u64 option \<times> rle_decoder" where
  "get d =
     (if dec_rle_remaining d > 0 then
        (Some (dec_rle_value d), d\<lparr>dec_rle_remaining := dec_rle_remaining d - 1\<rparr>)
      else if dec_bp_remaining d > 0 then
        (Some (dec_bp_decoded d ! dec_bp_index d),
         d\<lparr>dec_bp_index := dec_bp_index d + 1, dec_bp_remaining := dec_bp_remaining d - 1\<rparr>)
      else if dec_pos d \<ge> length (dec_data d) then (None, d)
      else case decode_varint (dec_data d) (dec_pos d) of
        (header, pos') \<Rightarrow>
          let d' = d\<lparr>dec_pos := pos'\<rparr>
          in if header AND 1 = 0 then get_rle_run d' (unat (drop_bit 1 header))
             else get_bp_run d' (unat (drop_bit 1 header)))"

text \<open>\<^verbatim>\<open>get_batch\<close>: the values written before it stopped, and whether it got them all.\<close>

fun get_batch :: "nat \<Rightarrow> rle_decoder \<Rightarrow> bool \<times> u64 list \<times> rle_decoder" where
  "get_batch 0 d = (True, [], d)"
| "get_batch (Suc n) d =
     (case get d of
        (None, d') \<Rightarrow> (False, [], d')
      | (Some v, d') \<Rightarrow> (case get_batch n d' of (ok, vs, d'') \<Rightarrow> (ok, v # vs, d'')))"

fun decode_loop :: "nat \<Rightarrow> rle_decoder \<Rightarrow> u32 list" where
  "decode_loop 0 d = []"
| "decode_loop (Suc n) d =
     (case get d of (None, d') \<Rightarrow> [] | (Some v, d') \<Rightarrow> ucast v # decode_loop n d')"

definition rle_decode :: "bytes \<Rightarrow> int \<Rightarrow> nat \<Rightarrow> u32 list" where
  "rle_decode data bit_width num_values =
     (if bit_width = 0 then (if length data \<noteq> 0 then [] else replicate num_values 0)
      else if bit_width < 1 \<or> bit_width > 64 then []
      else decode_loop num_values (rle_decoder_new data bit_width))"

definition decode_with_length :: "bytes \<Rightarrow> int \<Rightarrow> nat \<Rightarrow> u32 list" where
  "decode_with_length data bit_width num_values =
     (if length data < 4 then []
      else let payload_len = (ucast (data ! 0) :: u32) OR push_bit 8 (ucast (data ! 1))
                 OR push_bit 16 (ucast (data ! 2)) OR push_bit 24 (ucast (data ! 3));
               available = min (unat payload_len) (length data - 4)
           in rle_decode (take available (drop 4 data)) bit_width num_values)"

section \<open>Runs: what the encoder writes and the decoder reads\<close>

datatype run = Run nat u64 | Packed "u64 list list"

fun expand :: "run \<Rightarrow> u64 list" where
  "expand (Run n v) = replicate n v"
| "expand (Packed gs) = concat gs"

fun run_bytes :: "nat \<Rightarrow> run \<Rightarrow> bytes" where
  "run_bytes bw (Run n v) = leb (2 * n) @ to_le (byte_width_of bw) v"
| "run_bytes bw (Packed gs) = leb (2 * length gs + 1) @ concat (map (\<lambda>g. bit_pack_8 [] g bw) gs)"

definition fits :: "nat \<Rightarrow> u64 \<Rightarrow> bool" where
  "fits bw v \<longleftrightarrow> unat v < 2 ^ bw"

definition group_ok :: "nat \<Rightarrow> u64 list \<Rightarrow> bool" where
  "group_ok bw g \<longleftrightarrow> length g = 8 \<and> (\<forall>v \<in> set g. fits bw v)"

text \<open>The runs the decoder's caps admit.\<close>

fun run_ok :: "nat \<Rightarrow> run \<Rightarrow> bool" where
  "run_ok bw (Run n v) \<longleftrightarrow> 0 < n \<and> n \<le> MAX_RLE_RUN \<and> fits bw v"
| "run_ok bw (Packed gs) \<longleftrightarrow> gs \<noteq> [] \<and> 8 * length gs \<le> MAX_BP_VALUES \<and> (\<forall>g \<in> set gs. group_ok bw g)"

lemma length_concat_groups: "(\<forall>g \<in> set gs. group_ok bw g) \<Longrightarrow> length (concat gs) = 8 * length gs"
  by (induction gs) (auto simp: group_ok_def)

lemma fits_0 [simp]: "fits bw 0"
  by (simp add: fits_def)

lemma mask_8: "mask 8 = (0xFF :: u64)"
  by (simp add: mask_eq_exp_minus_1)

lemma write_rle_value_le: "write_rle_value n v buf = buf @ to_le n v"
proof (induction n arbitrary: v buf)
  case 0
  then show ?case by (simp add: to_le_def)
next
  case (Suc n)
  have "ucast (v AND 0xFF) = (ucast v :: u8)"
    unfolding mask_8[symmetric] by (rule bit_word_eqI) (auto simp: bit_access bit_and_iff)
  moreover have "to_le (Suc n) v = ucast v # to_le n (drop_bit 8 v)"
    by (simp add: to_le_def upt_conv_Cons map_Suc_upt[symmetric] del: upt_Suc) (simp add: comp_def add.commute)
  ultimately show ?case using Suc by simp
qed

section \<open>The encoder's state and its runs\<close>

text \<open>
  \<open>enc_core bw e vals\<close>: leaving the pending RLE run aside, the encoder holds \<open>vals\<close>: flushed runs,
  accumulated bit-packed groups, and a partial group.
\<close>

definition enc_core :: "nat \<Rightarrow> rle_encoder \<Rightarrow> u64 list \<Rightarrow> bool" where
  "enc_core bw e vals \<longleftrightarrow>
     enc_bit_width e = bw \<and> enc_byte_width e = byte_width_of bw \<and>
     length (enc_bp_buffer e) = 8 \<and> enc_bp_count e < 8 \<and>
     (\<forall>v \<in> set (take (enc_bp_count e) (enc_bp_buffer e)). fits bw v) \<and>
     (\<exists>rs gs. enc_buffer e = concat (map (run_bytes bw) rs) \<and> (\<forall>r \<in> set rs. run_ok bw r) \<and>
        enc_bp_groups e = concat (map (\<lambda>g. bit_pack_8 [] g bw) gs) \<and>
        enc_bp_group_count e = length gs \<and> (\<forall>g \<in> set gs. group_ok bw g) \<and>
        vals = concat (map expand rs) @ concat gs @ take (enc_bp_count e) (enc_bp_buffer e))"

text \<open>With the pending run, the encoder holds everything that was put.\<close>

definition enc_inv :: "nat \<Rightarrow> rle_encoder \<Rightarrow> u64 list \<Rightarrow> bool" where
  "enc_inv bw e vals \<longleftrightarrow>
     (\<exists>vals0. enc_core bw e vals0 \<and> vals = vals0 @ replicate (enc_rle_count e) (enc_rle_value e)) \<and>
     (enc_rle_count e > 0 \<longrightarrow> fits bw (enc_rle_value e))"

lemma enc_core_rle [simp]:
  "enc_core bw (e\<lparr>enc_rle_value := v\<rparr>) vals = enc_core bw e vals"
  "enc_core bw (e\<lparr>enc_rle_count := n\<rparr>) vals = enc_core bw e vals"
  by (simp_all add: enc_core_def)

lemma enc_core_groups_bound:
  "enc_core bw e vals \<Longrightarrow> 8 * enc_bp_group_count e + enc_bp_count e \<le> length vals"
  by (auto simp: enc_core_def length_concat_groups)

lemma enc_core_new: "enc_core (clamp_width bw) (rle_encoder_new bw) []"
  unfolding enc_core_def by (auto simp: rle_encoder_new_def intro!: exI[of _ "[]"])

lemma varint_header:
  assumes "n < 2 ^ 63"
  shows "unat (push_bit 1 (of_nat n) :: u64) = 2 * n"
    "unat (push_bit 1 (of_nat n) OR 1 :: u64) = 2 * n + 1"
proof -
  have e: "unat (of_nat (2 * n) :: u64) = 2 * n" "unat (of_nat (2 * n + 1) :: u64) = 2 * n + 1"
    using assms unfolding unat_of_nat by simp_all
  have p: "push_bit 1 (of_nat n) = (of_nat (2 * n) :: u64)"
    by (simp add: push_bit_eq_mult mult.commute)
  show "unat (push_bit 1 (of_nat n) :: u64) = 2 * n" unfolding p by (rule e)
  have "push_bit 1 (of_nat n) OR 1 = push_bit 1 (of_nat n) + (1 :: u64)"
    by (rule disjunctive_add[symmetric]) (auto simp only: bit_push_bit_iff bit_1_iff)
  also have "\<dots> = of_nat (2 * n + 1)" unfolding p by simp
  finally show "unat (push_bit 1 (of_nat n) OR 1 :: u64) = 2 * n + 1" using e(2) by argo
qed

lemma flush_bp_groups_core:
  assumes "enc_core bw e vals" "8 * enc_bp_group_count e \<le> MAX_BP_VALUES"
  shows "enc_core bw (flush_bp_groups e) vals" "enc_bp_group_count (flush_bp_groups e) = 0"
    "enc_bp_groups (flush_bp_groups e) = []"
proof -
  from assms(1) obtain rs gs where c:
    "enc_bit_width e = bw" "enc_byte_width e = byte_width_of bw" "length (enc_bp_buffer e) = 8"
    "enc_bp_count e < 8" "\<forall>v \<in> set (take (enc_bp_count e) (enc_bp_buffer e)). fits bw v"
    "enc_buffer e = concat (map (run_bytes bw) rs)" "\<forall>r \<in> set rs. run_ok bw r"
    "enc_bp_groups e = concat (map (\<lambda>g. bit_pack_8 [] g bw) gs)"
    "enc_bp_group_count e = length gs" "\<forall>g \<in> set gs. group_ok bw g"
    "vals = concat (map expand rs) @ concat gs @ take (enc_bp_count e) (enc_bp_buffer e)"
    unfolding enc_core_def by blast
  have n: "8 * length gs \<le> MAX_BP_VALUES"
    using assms(2) c by simp
  then have n': "length gs < 2 ^ 63" by (simp add: MAX_BP_VALUES_def)
  have r: "concat (map (\<lambda>g. bit_pack_8 [] g bw) gs) = [] \<and> concat gs = []" if "gs = []" using that by simp
  show "enc_core bw (flush_bp_groups e) vals"
  proof (cases "gs = []")
    case True
    then show ?thesis using assms(1) c by (simp add: flush_bp_groups_def)
  next
    case False
    have "run_ok bw (Packed gs)" using False n c by simp
    then show ?thesis
      unfolding enc_core_def using False c
      by (auto simp: flush_bp_groups_def encode_varint_leb varint_header(2)[OF n', simplified]
            intro!: exI[of _ "rs @ [Packed gs]"] exI[of _ "[] :: u64 list list"] simp del: run_ok.simps)
  qed
  show "enc_bp_group_count (flush_bp_groups e) = 0" by (simp add: flush_bp_groups_def)
  show "enc_bp_groups (flush_bp_groups e) = []"
    using c by (auto simp: flush_bp_groups_def)
qed

lemma flush_bp_groups_fields [simp]:
  "enc_rle_count (flush_bp_groups e) = enc_rle_count e"
  "enc_rle_value (flush_bp_groups e) = enc_rle_value e"
  "enc_bp_count (flush_bp_groups e) = enc_bp_count e"
  by (simp_all add: flush_bp_groups_def)

lemma flush_bp_group_core:
  assumes "enc_core bw e vals" "enc_bp_count e = 7" "fits bw v"
  shows "enc_core bw (flush_bp_group (e\<lparr>enc_bp_buffer := (enc_bp_buffer e)[7 := v], enc_bp_count := 8\<rparr>)) (vals @ [v])"
proof -
  obtain rs gs where c:
    "enc_bit_width e = bw" "enc_byte_width e = byte_width_of bw" "length (enc_bp_buffer e) = 8"
    "\<forall>v \<in> set (take 7 (enc_bp_buffer e)). fits bw v"
    "enc_buffer e = concat (map (run_bytes bw) rs)" "\<forall>r \<in> set rs. run_ok bw r"
    "enc_bp_groups e = concat (map (\<lambda>g. bit_pack_8 [] g bw) gs)"
    "enc_bp_group_count e = length gs" "\<forall>g \<in> set gs. group_ok bw g"
    "vals = concat (map expand rs) @ concat gs @ take 7 (enc_bp_buffer e)"
    using assms(1,2) unfolding enc_core_def by auto
  have b: "(enc_bp_buffer e)[7 := v] = take 7 (enc_bp_buffer e) @ [v]"
    using c(3) by (simp add: upd_conv_take_nth_drop)
  have g: "group_ok bw (take 7 (enc_bp_buffer e) @ [v])"
    using c assms(3) by (auto simp: group_ok_def)
  show ?thesis unfolding enc_core_def using c g
    by (auto simp: flush_bp_group_def b bit_pack_8_def group_ok_def
        intro!: exI[of _ rs] exI[of _ "gs @ [take 7 (enc_bp_buffer e) @ [v]]"])
qed

lemma push_bp_core:
  assumes "enc_core bw e vals" "fits bw v"
  shows "enc_core bw (push_bp v e) (vals @ [v])"
proof (cases "enc_bp_count e = 7")
  case True
  then show ?thesis using flush_bp_group_core[OF assms(1) True assms(2)] by (simp add: push_bp_def)
next
  case False
  have t: "take (Suc (enc_bp_count e)) ((enc_bp_buffer e)[enc_bp_count e := v])
      = take (enc_bp_count e) (enc_bp_buffer e) @ [v]"
    using assms(1) by (auto simp: enc_core_def take_Suc_conv_app_nth)
  have "push_bp v e = e\<lparr>enc_bp_buffer := (enc_bp_buffer e)[enc_bp_count e := v],
      enc_bp_count := Suc (enc_bp_count e)\<rparr>"
    using False by (simp add: push_bp_def)
  then show ?thesis using assms False t unfolding enc_core_def by auto
qed

lemma push_bp_rle [simp]:
  "enc_rle_count (push_bp v e) = enc_rle_count e" "enc_rle_value (push_bp v e) = enc_rle_value e"
  by (simp_all add: push_bp_def flush_bp_group_def Let_def)

lemma drain_loop_core:
  "enc_core bw e vals \<Longrightarrow> fits bw (enc_rle_value e) \<Longrightarrow>
   enc_core bw (drain_loop n e) (vals @ replicate n (enc_rle_value e))"
proof (induction n arbitrary: e vals)
  case (Suc n)
  have "enc_core bw (push_bp (enc_rle_value e) (e\<lparr>enc_rle_count := n\<rparr>)) (vals @ [enc_rle_value e])"
    using Suc.prems by (intro push_bp_core) simp_all
  from Suc.IH[OF this] Suc.prems(2) show ?case by simp
qed simp

lemma drain_loop_rle_count [simp]:
  "enc_rle_count (drain_loop n e) = (if n = 0 then enc_rle_count e else 0)"
  by (induction n arbitrary: e) simp_all

lemma drain_rle_inv:
  assumes "enc_inv bw e vals"
  shows "enc_core bw (drain_rle e) vals" "enc_rle_count (drain_rle e) = 0"
  using assms drain_loop_core[of bw e _ "enc_rle_count e"]
  by (auto simp: enc_inv_def drain_rle_def)

lemma flush_rle_run_core:
  assumes "enc_core bw e vals" "enc_bp_count e = 0" "length vals \<le> MAX_BP_VALUES"
    and "0 < enc_rle_count e" "enc_rle_count e \<le> MAX_RLE_RUN" "fits bw (enc_rle_value e)"
  shows "enc_core bw (flush_rle_run e) (vals @ replicate (enc_rle_count e) (enc_rle_value e))"
    "enc_rle_count (flush_rle_run e) = 0" "enc_bp_count (flush_rle_run e) = 0"
proof -
  let ?f = "flush_bp_groups e" and ?n = "enc_rle_count e"
  have f: "enc_core bw ?f vals" "enc_bp_group_count ?f = 0" "enc_bp_groups ?f = []"
    using flush_bp_groups_core[OF assms(1)] enc_core_groups_bound[OF assms(1)] assms(3) by simp_all
  then obtain rs where c:
    "enc_bit_width ?f = bw" "enc_byte_width ?f = byte_width_of bw" "length (enc_bp_buffer ?f) = 8"
    "enc_buffer ?f = concat (map (run_bytes bw) rs)" "\<forall>r \<in> set rs. run_ok bw r"
    "vals = concat (map expand rs)"
    using assms(2) unfolding enc_core_def by auto
  have n: "?n < 2 ^ 63" "\<not> ?n > max_run_count"
    using assms(5) by (auto simp: MAX_RLE_RUN_def max_run_count_def)
  show "enc_core bw (flush_rle_run e) (vals @ replicate ?n (enc_rle_value e))"
    unfolding enc_core_def using c f(2,3) assms(2,4,5,6) n(2)
    by (auto simp: flush_rle_run_def Let_def encode_varint_leb varint_header(1)[OF n(1), simplified]
        write_rle_value_le intro!: exI[of _ "rs @ [Run ?n (enc_rle_value e)]"] exI[of _ "[] :: u64 list list"])
  show "enc_rle_count (flush_rle_run e) = 0" "enc_bp_count (flush_rle_run e) = 0"
    using assms(2) by (simp_all add: flush_rle_run_def Let_def)
qed

lemma enc_inv_bit_width: "enc_inv bw e vals \<Longrightarrow> enc_bit_width e = bw"
  by (auto simp: enc_inv_def enc_core_def)

lemma enc_inv_new: "enc_inv (clamp_width bw) (rle_encoder_new bw) []"
  unfolding enc_inv_def using enc_core_new[of bw] by (auto simp: rle_encoder_new_def)

lemma enc_inv_start_run:
  "enc_core bw e vals \<Longrightarrow> fits bw v \<Longrightarrow> enc_inv bw (e\<lparr>enc_rle_value := v, enc_rle_count := 1\<rparr>) (vals @ [v])"
  unfolding enc_inv_def by (auto intro: exI[of _ vals])

lemma enc_inv_no_run: "enc_core bw e vals \<Longrightarrow> enc_rle_count e = 0 \<Longrightarrow> enc_inv bw e vals"
  unfolding enc_inv_def by (auto intro: exI[of _ vals])

lemma put_inv:
  assumes inv: "enc_inv bw e vals" and v: "fits bw v" and bw: "0 < bw"
    and n: "length vals \<le> MAX_BP_VALUES"
  shows "enc_inv bw (put e v) (vals @ [v])"
proof -
  from inv obtain vals0 where c: "enc_core bw e vals0"
    and vals: "vals = vals0 @ replicate (enc_rle_count e) (enc_rle_value e)"
    and f: "enc_rle_count e > 0 \<longrightarrow> fits bw (enc_rle_value e)" unfolding enc_inv_def by auto
  have b: "enc_bit_width e \<noteq> 0" using bw enc_inv_bit_width[OF inv] by simp
  consider (start) "enc_rle_count e = 0"
    | (extend) "enc_rle_count e \<noteq> 0" "v = enc_rle_value e \<and> enc_bp_count e = 0"
    | (run) "enc_rle_count e \<noteq> 0" "\<not> (v = enc_rle_value e \<and> enc_bp_count e = 0)"
        "enc_bp_count e = 0 \<and> 8 \<le> enc_rle_count e"
    | (pack) "enc_rle_count e \<noteq> 0" "\<not> (v = enc_rle_value e \<and> enc_bp_count e = 0)"
        "\<not> (enc_bp_count e = 0 \<and> 8 \<le> enc_rle_count e)"
    by blast
  then show ?thesis
  proof cases
    case start
    then show ?thesis using enc_inv_start_run[OF c v] b vals by (simp add: put_def)
  next
    case extend
    have "enc_inv bw (e\<lparr>enc_rle_count := enc_rle_count e + 1\<rparr>) (vals @ [v])"
      unfolding enc_inv_def using c v vals extend
      by (auto intro!: exI[of _ vals0] simp: replicate_append_same[symmetric])
    with extend b show ?thesis by (simp add: put_def)
  next
    case run
    have "enc_rle_count e \<le> MAX_RLE_RUN" "length vals0 \<le> MAX_BP_VALUES"
      using n vals by (auto simp: MAX_BP_VALUES_def MAX_RLE_RUN_def)
    then have "enc_core bw (flush_rle_run e) vals"
      unfolding vals using run f by (intro flush_rle_run_core c) auto
    from enc_inv_start_run[OF this v] show ?thesis using run b by (auto simp: put_def)
  next
    case pack
    have "enc_core bw (push_bp v (drain_rle e)) (vals @ [v])"
      using drain_rle_inv(1)[OF inv] v by (rule push_bp_core)
    then have "enc_inv bw (push_bp v (drain_rle e)) (vals @ [v])"
      using drain_rle_inv(2)[OF inv] by (intro enc_inv_no_run) simp_all
    then show ?thesis using pack b by (auto simp: put_def)
  qed
qed

lemma pad_bp_core:
  assumes c: "enc_core bw e vals" and "0 < enc_bp_count e"
  shows "enc_core bw (flush_bp_group (pad_bp e)) (vals @ replicate (8 - enc_bp_count e) 0)"
proof -
  obtain rs gs where c:
    "enc_bit_width e = bw" "enc_byte_width e = byte_width_of bw" "length (enc_bp_buffer e) = 8"
    "enc_bp_count e < 8" "\<forall>v \<in> set (take (enc_bp_count e) (enc_bp_buffer e)). fits bw v"
    "enc_buffer e = concat (map (run_bytes bw) rs)" "\<forall>r \<in> set rs. run_ok bw r"
    "enc_bp_groups e = concat (map (\<lambda>g. bit_pack_8 [] g bw) gs)"
    "enc_bp_group_count e = length gs" "\<forall>g \<in> set gs. group_ok bw g"
    "vals = concat (map expand rs) @ concat gs @ take (enc_bp_count e) (enc_bp_buffer e)"
    using c unfolding enc_core_def by blast
  define g where "g = take (enc_bp_count e) (enc_bp_buffer e) @ replicate (8 - enc_bp_count e) 0"
  have "group_ok bw g" using c by (auto simp: group_ok_def g_def)
  moreover have "enc_bp_buffer (pad_bp e) = g" by (simp add: pad_bp_def g_def)
  moreover have "vals @ replicate (8 - enc_bp_count e) 0 = concat (map expand rs) @ concat gs @ g"
    using c by (simp add: g_def)
  ultimately show ?thesis unfolding enc_core_def using c
    by (auto simp: flush_bp_group_def bit_pack_8_def pad_bp_def intro!: exI[of _ rs] exI[of _ "gs @ [g]"])
qed

text \<open>After \<open>flush\<close> the buffer is a sequence of runs that expands to the values, zero-padded.\<close>

lemma flush_runs:
  assumes inv: "enc_inv bw e vals" and n: "length vals \<le> MAX_BP_VALUES"
  shows "\<exists>rs pad. enc_buffer (flush e) = concat (map (run_bytes bw) rs) \<and> (\<forall>r \<in> set rs. run_ok bw r) \<and>
           concat (map expand rs) = vals @ replicate pad 0 \<and> pad < 8"
proof -
  define e1 where "e1 = (if enc_bp_count e > 0 \<and> enc_rle_count e > 0 then drain_rle e else e)"
  define e2 where "e2 = (if enc_rle_count e1 > 0 then flush_rle_run e1 else e1)"
  define e3 where "e3 = (if enc_bp_count e2 > 0 then flush_bp_group (pad_bp e2) else e2)"
  have fl: "flush e = flush_bp_groups e3"
    by (simp add: flush_def Let_def e1_def e2_def e3_def)
  have i1: "enc_inv bw e1 vals" "enc_rle_count e1 > 0 \<Longrightarrow> enc_bp_count e1 = 0"
    using inv drain_rle_inv[OF inv] by (auto simp: e1_def intro: enc_inv_no_run)
  have c2: "enc_core bw e2 vals"
  proof -
    obtain vals0 where c: "enc_core bw e1 vals0"
      and vals: "vals = vals0 @ replicate (enc_rle_count e1) (enc_rle_value e1)"
      and f: "enc_rle_count e1 > 0 \<longrightarrow> fits bw (enc_rle_value e1)"
      using i1(1) unfolding enc_inv_def by auto
    have "enc_rle_count e1 \<le> MAX_RLE_RUN" "length vals0 \<le> MAX_BP_VALUES"
      using n vals by (auto simp: MAX_BP_VALUES_def MAX_RLE_RUN_def)
    then show ?thesis using c f i1(2) flush_rle_run_core(1)[OF c] by (auto simp: e2_def vals)
  qed
  obtain pad where c3: "enc_core bw e3 (vals @ replicate pad 0)" "pad < 8" "enc_bp_count e3 = 0"
    "length (vals @ replicate pad 0) \<le> MAX_BP_VALUES + 7"
  proof (cases "enc_bp_count e2 > 0")
    case True
    then show ?thesis using pad_bp_core[OF c2 True] n
      by (intro that[of "8 - enc_bp_count e2"]) (auto simp: e3_def flush_bp_group_def)
  next
    case False
    then show ?thesis using c2 n by (intro that[of 0]) (auto simp: e3_def)
  qed
  have "8 * enc_bp_group_count e3 \<le> MAX_BP_VALUES"
    using enc_core_groups_bound[OF c3(1)] c3(4) by (simp add: MAX_BP_VALUES_def)
  then have "enc_core bw (flush_bp_groups e3) (vals @ replicate pad 0)"
    "enc_bp_group_count (flush_bp_groups e3) = 0"
    using flush_bp_groups_core[OF c3(1)] by auto
  then obtain rs where "enc_buffer (flush e) = concat (map (run_bytes bw) rs)" "\<forall>r \<in> set rs. run_ok bw r"
    "vals @ replicate pad 0 = concat (map expand rs)"
    using c3(3) unfolding enc_core_def fl by auto
  then show ?thesis using c3(2) by metis
qed

section \<open>The decoder follows the runs\<close>

text \<open>The values the decoder already holds.\<close>

definition pend :: "rle_decoder \<Rightarrow> u64 list" where
  "pend d = replicate (dec_rle_remaining d) (dec_rle_value d)
            @ take (dec_bp_remaining d) (drop (dec_bp_index d) (dec_bp_decoded d))"

definition dec_ok :: "nat \<Rightarrow> rle_decoder \<Rightarrow> run list \<Rightarrow> bool" where
  "dec_ok bw d rs \<longleftrightarrow>
     dec_bit_width d = bw \<and> dec_byte_width d = byte_width_of bw \<and>
     dec_bp_index d + dec_bp_remaining d \<le> length (dec_bp_decoded d) \<and>
     (\<forall>r \<in> set rs. run_ok bw r) \<and>
     (\<exists>pre. dec_data d = pre @ concat (map (run_bytes bw) rs) \<and> dec_pos d = length pre)"

lemma decode_groups_concat:
  assumes "0 < bw" "bw \<le> 64" "\<forall>g \<in> set gs. group_ok bw g" "k \<le> length gs"
  shows "decode_groups (length gs - k) (concat (map (\<lambda>g. bit_pack_8 [] g bw) gs) @ post) bw
           (length gs * bw) (k * bw) = concat (drop k gs)"
  using assms(4)
proof (induction "length gs - k" arbitrary: k)
  case 0
  then show ?case by simp
next
  case (Suc n)
  then have k: "k < length gs" "length gs - k = Suc n" "length gs - Suc k = n" by auto
  have "Suc k * bw \<le> length gs * bw" using k(1) by (intro mult_le_mono1) simp
  moreover have "(8 * bw + 7) div 8 = bw" by simp
  then have "bit_unpack_8 (drop (k * bw) (concat (map (\<lambda>g. bit_pack_8 [] g bw) gs) @ post)) bw = gs ! k"
    using pack8.unpack_group[of bw k gs post] assms k(1) by (auto simp: group_ok_def fits_def)
  moreover have "decode_groups n (concat (map (\<lambda>g. bit_pack_8 [] g bw) gs) @ post) bw
           (length gs * bw) (Suc k * bw) = concat (drop (Suc k) gs)"
    using Suc(1)[of "Suc k"] k by simp
  ultimately show ?case using k by (simp add: Cons_nth_drop_Suc[symmetric] add.commute)
qed

lemma read_rle_value_le:
  assumes "n \<le> 8" "k \<le> n"
  shows "read_rle_value (n - k) (pre @ to_le n v @ post) (length pre + k) k acc
         = (acc OR push_bit (8 * k) (of_le (drop k (to_le n v))), length pre + n, n)"
  using assms(2)
proof (induction "n - k" arbitrary: k acc)
  case 0
  then show ?case by simp
next
  case (Suc m)
  then have k: "k < n" "n - k = Suc m" "n - Suc k = m" by auto
  have d: "drop k (to_le n v) = to_le n v ! k # drop (Suc k) (to_le n v)"
    using k(1) by (simp add: Cons_nth_drop_Suc)
  have "(pre @ to_le n v @ post) ! (length pre + k) = to_le n v ! k" using k(1) by (simp add: nth_append)
  moreover have "push_bit (8 * k) (of_le (drop k (to_le n v)) :: u64)
      = push_bit (8 * k) (ucast (to_le n v ! k)) OR push_bit (8 * Suc k) (of_le (drop (Suc k) (to_le n v)))"
    unfolding d of_le.simps push_bit_or push_bit_push_bit by (simp add: add.commute)
  ultimately show ?case using k Suc(1)[of "Suc k"] by (simp add: or.assoc del: push_bit_of_nat)
qed

lemma decode_header:
  assumes "n < 2 ^ 64"
  obtains h where "decode_varint (pre @ leb n @ post) (length pre) = (h, length pre + length (leb n))"
    "h AND 1 = 0 \<longleftrightarrow> even n" "unat (drop_bit 1 h) = n div 2"
proof -
  have u: "unat (of_nat n :: u64) = n" using assms unfolding unat_of_nat by simp
  have "decode_varint (pre @ leb n @ post) (length pre) = (of_nat n, length pre + length (leb n))"
    using decode_varint_leb[of pre "of_nat n :: u64" post] unfolding u .
  moreover have "(of_nat n :: u64) AND 1 = 0 \<longleftrightarrow> even n"
    using and_exp_eq_0_iff_not_bit[of "of_nat n :: u64" 0]
    by (simp add: bit_of_nat_word bit_0)
  moreover have "unat (drop_bit 1 (of_nat n :: u64)) = n div 2"
    unfolding unat_drop_bit u by simp
  ultimately show ?thesis by (rule that)
qed

lemma rle_value_roundtrip:
  assumes "bw \<le> 64" "fits bw v"
  shows "read_rle_value (byte_width_of bw) (pre @ to_le (byte_width_of bw) v @ post) (length pre) 0 0
         = (v, length pre + byte_width_of bw, byte_width_of bw)"
proof -
  have w: "byte_width_of bw \<le> 8" "bw \<le> 8 * byte_width_of bw"
    using assms(1) by (auto simp: byte_width_of_def)
  have "of_le (to_le (byte_width_of bw) v) = v"
    using fits_bits[of v bw] assms w(2)
    by (intro bit_word_eqI) (auto simp: bit_access fits_def dest: less_le_trans)
  then show ?thesis using read_rle_value_le[OF w(1), of 0 pre v post 0] by simp
qed

text \<open>One \<open>get\<close> takes the first of the values that remain.\<close>

lemma get_next:
  assumes ok: "dec_ok bw d rs" and bw: "0 < bw" "bw \<le> 64"
    and eq: "pend d @ concat (map expand rs) = v # vs"
  obtains d' rs' where "get d = (Some v, d')" "dec_ok bw d' rs'" "pend d' @ concat (map expand rs') = vs"
proof (cases "dec_rle_remaining d > 0")
  case True
  then have "pend d = dec_rle_value d # pend (d\<lparr>dec_rle_remaining := dec_rle_remaining d - 1\<rparr>)"
    by (cases "dec_rle_remaining d") (simp_all add: pend_def)
  with True ok eq show thesis
    by (intro that[of "d\<lparr>dec_rle_remaining := dec_rle_remaining d - 1\<rparr>" rs])
      (auto simp: get_def dec_ok_def)
next
  case rle: False
  show thesis
  proof (cases "dec_bp_remaining d > 0")
    case True
    let ?d = "d\<lparr>dec_bp_index := dec_bp_index d + 1, dec_bp_remaining := dec_bp_remaining d - 1\<rparr>"
    have "dec_bp_index d < length (dec_bp_decoded d)" using ok True by (auto simp: dec_ok_def)
    then have "pend d = dec_bp_decoded d ! dec_bp_index d # pend ?d"
      using rle True by (cases "dec_bp_remaining d") (simp_all add: pend_def Cons_nth_drop_Suc[symmetric])
    with True rle ok eq show thesis
      by (intro that[of ?d rs]) (auto simp: get_def dec_ok_def)
  next
    case False
    have e: "concat (map expand rs) = v # vs" using rle False eq by (simp add: pend_def)
    then obtain r rs' where rs: "rs = r # rs'" by (cases rs) auto
    obtain pre where pre: "dec_data d = pre @ run_bytes bw r @ concat (map (run_bytes bw) rs')"
      "dec_pos d = length pre" and dims: "dec_bit_width d = bw" "dec_byte_width d = byte_width_of bw"
      and oks: "run_ok bw r" "\<forall>r \<in> set rs'. run_ok bw r"
      using ok by (auto simp: dec_ok_def rs)
    let ?post = "concat (map (run_bytes bw) rs')"
    have g: "get d = (case decode_varint (dec_data d) (dec_pos d) of (header, pos') \<Rightarrow>
        if header AND 1 = 0 then get_rle_run (d\<lparr>dec_pos := pos'\<rparr>) (unat (drop_bit 1 header))
        else get_bp_run (d\<lparr>dec_pos := pos'\<rparr>) (unat (drop_bit 1 header)))"
      using rle False pre by (cases r) (simp_all add: get_def Let_def)
    show thesis
    proof (cases r)
      case (Run n x)
      have n: "0 < n" "n \<le> MAX_RLE_RUN" "fits bw x" "2 * n < 2 ^ 64"
        using oks(1) by (auto simp: Run MAX_RLE_RUN_def)
      obtain h where h: "decode_varint (dec_data d) (dec_pos d) = (h, length pre + length (leb (2 * n)))"
        "h AND 1 = 0" "unat (drop_bit 1 h) = n"
        using decode_header[OF n(4), of pre "to_le (byte_width_of bw) x @ ?post"] by (auto simp: pre Run)
      let ?d = "d\<lparr>dec_pos := length (pre @ leb (2 * n)) + byte_width_of bw, dec_rle_value := x,
                  dec_rle_remaining := n - 1\<rparr>"
      have "get d = get_rle_run (d\<lparr>dec_pos := length pre + length (leb (2 * n))\<rparr>) n"
        using g h by simp
      also have "\<dots> = (Some x, ?d)"
        using rle_value_roundtrip[OF bw(2) n(3), of "pre @ leb (2 * n)" ?post] n
        by (simp add: get_rle_run_def dims pre Run)
      finally have "get d = (Some x, ?d)" .
      moreover have "dec_ok bw ?d rs'"
        using ok oks(2) by (auto simp: dec_ok_def pre Run
            intro!: exI[of _ "pre @ leb (2 * n) @ to_le (byte_width_of bw) x"])
      moreover have "x = v" "pend ?d @ concat (map expand rs') = vs"
        using e n(1) False by (cases n; simp add: rs Run pend_def)+
      ultimately show thesis by (auto intro: that)
    next
      case (Packed gs)
      have gs: "gs \<noteq> []" "8 * length gs \<le> MAX_BP_VALUES" "\<forall>g \<in> set gs. group_ok bw g"
        using oks(1) by (auto simp: Packed)
      let ?packs = "concat (map (\<lambda>g. bit_pack_8 [] g bw) gs)"
      have len: "length ?packs = length gs * bw"
        using pack8.length_groups[of gs bw] gs(3) by (auto simp: group_ok_def)
      have lt: "2 * length gs + 1 < 2 ^ 64" using gs(2) by (simp add: MAX_BP_VALUES_def)
      obtain h where h: "decode_varint (dec_data d) (dec_pos d)
          = (h, length pre + length (leb (2 * length gs + 1)))"
        "h AND 1 \<noteq> 0" "unat (drop_bit 1 h) = length gs"
        using decode_header[OF lt, of pre "?packs @ ?post"] by (auto simp: pre Packed)
      have bytes: "length gs * bw \<le> MAX_BP_BYTES"
      proof -
        have "length gs * bw \<le> (MAX_BP_VALUES div 8) * 64"
          using gs(2) bw(2) by (intro mult_mono) (auto simp: MAX_BP_VALUES_def)
        then show ?thesis by (simp add: MAX_BP_VALUES_def MAX_BP_BYTES_def)
      qed
      have groups: "length gs \<le> (length gs * bw + length ?post) div bw + 1" using bw(1) by simp
      have dec: "decode_groups (length gs) (?packs @ ?post) bw (length gs * bw) 0 = concat gs"
        using decode_groups_concat[OF bw gs(3), of 0 ?post] by simp
      have ne: "concat gs \<noteq> []" using gs by (cases gs) (auto simp: group_ok_def)
      let ?d = "d\<lparr>dec_pos := length (pre @ leb (2 * length gs + 1)) + length gs * bw,
                  dec_bp_decoded := concat gs, dec_bp_index := 1,
                  dec_bp_remaining := length (concat gs) - 1\<rparr>"
      have "get d = get_bp_run (d\<lparr>dec_pos := length pre + length (leb (2 * length gs + 1))\<rparr>) (length gs)"
        using g h by simp
      also have "\<dots> = (Some (concat gs ! 0), ?d)"
        using groups gs bytes ne bw(1)
        by (simp add: get_bp_run_def Let_def dims pre Packed len dec not_less[symmetric])
      finally have "get d = (Some (concat gs ! 0), ?d)" .
      moreover have "dec_ok bw ?d rs'"
        using ok oks(2) ne by (auto simp: dec_ok_def pre Packed len
            intro!: exI[of _ "pre @ leb (2 * length gs + 1) @ ?packs"])
      moreover have "concat gs ! 0 = v" "pend ?d @ concat (map expand rs') = vs"
        using e ne rle by (cases "concat gs"; simp add: rs Packed pend_def)+
      ultimately show thesis by (auto intro: that)
    qed
  qed
qed

lemma decode_loop_take:
  "dec_ok bw d rs \<Longrightarrow> 0 < bw \<Longrightarrow> bw \<le> 64 \<Longrightarrow> n \<le> length (pend d @ concat (map expand rs)) \<Longrightarrow>
   decode_loop n d = map ucast (take n (pend d @ concat (map expand rs)))"
proof (induction n arbitrary: d rs)
  case (Suc n)
  then obtain v vs where vs: "pend d @ concat (map expand rs) = v # vs"
    by (cases "pend d @ concat (map expand rs)") auto
  from get_next[OF Suc.prems(1-3) vs] obtain d' rs' where d':
    "get d = (Some v, d')" "dec_ok bw d' rs'" "pend d' @ concat (map expand rs') = vs" .
  from Suc.IH[OF d'(2) Suc.prems(2,3)] Suc.prems(4) show ?case by (simp add: d' vs)
qed simp

section \<open>Bounds of the decoder on any input\<close>

text \<open>What holds of a decoder whatever bytes it reads.\<close>

definition dec_safe :: "rle_decoder \<Rightarrow> bool" where
  "dec_safe d \<longleftrightarrow> dec_pos d \<le> length (dec_data d) \<and> dec_bit_width d \<le> 64 \<and>
     dec_bp_index d + dec_bp_remaining d \<le> length (dec_bp_decoded d) \<and>
     length (dec_bp_decoded d) \<le> MAX_BP_VALUES \<and> dec_rle_remaining d \<le> MAX_RLE_RUN"

lemma read_rle_value_pos:
  "pos \<le> length data \<Longrightarrow> read_rle_value n data pos i val = (v, pos', k) \<Longrightarrow> pos' \<le> length data"
  by (induction n data pos i val rule: read_rle_value.induct) (auto split: if_splits)

lemma length_bit_unpack_8 [simp]: "length (bit_unpack_8 src bw) = 8"
  by (simp add: bit_unpack_8_def)

lemma length_decode_groups: "length (decode_groups g src bw tot off) \<le> 8 * g"
  by (induction g src bw tot off rule: decode_groups.induct) auto

lemma get_rle_run_safe: "dec_safe d \<Longrightarrow> dec_safe (snd (get_rle_run d n))"
  by (auto simp: get_rle_run_def dec_safe_def split: prod.splits dest: read_rle_value_pos)

text \<open>The part of \<open>get_bp_run\<close> behind the cap on the group count.\<close>

definition bp_run_tail :: "rle_decoder \<Rightarrow> nat \<Rightarrow> u64 option \<times> rle_decoder" where
  "bp_run_tail d group_count =
     (let size = length (dec_data d); pos = dec_pos d; bw = dec_bit_width d;
          total_bytes0 = group_count * bw
      in if group_count = 0 then (None, d)
         else if group_count * 8 > MAX_BP_VALUES then (None, d)
         else if total_bytes0 > MAX_BP_BYTES then (None, d)
         else let total_bytes = (if pos + total_bytes0 > size then size - pos else total_bytes0);
                  decoded = decode_groups group_count (drop pos (dec_data d)) bw total_bytes 0;
                  d' = d\<lparr>dec_pos := pos + total_bytes\<rparr>
              in if decoded = [] then (None, d')
                 else (Some (decoded ! 0),
                       d'\<lparr>dec_bp_decoded := decoded, dec_bp_index := 1,
                          dec_bp_remaining := length decoded - 1\<rparr>))"

lemma bp_run_tail_safe:
  assumes "dec_safe d"
  shows "dec_safe (snd (bp_run_tail d gc))"
proof (cases "gc = 0 \<or> MAX_BP_VALUES < gc * 8 \<or> MAX_BP_BYTES < gc * dec_bit_width d")
  case True
  then show ?thesis using assms by (auto simp: bp_run_tail_def Let_def)
next
  case False
  define tot where "tot = (if dec_pos d + gc * dec_bit_width d > length (dec_data d)
    then length (dec_data d) - dec_pos d else gc * dec_bit_width d)"
  define vs where "vs = decode_groups gc (drop (dec_pos d) (dec_data d)) (dec_bit_width d) tot 0"
  have t: "bp_run_tail d gc = (if vs = [] then (None, d\<lparr>dec_pos := dec_pos d + tot\<rparr>)
      else (Some (vs ! 0), d\<lparr>dec_pos := dec_pos d + tot, dec_bp_decoded := vs, dec_bp_index := 1,
                             dec_bp_remaining := length vs - 1\<rparr>))"
    using False by (simp add: bp_run_tail_def Let_def tot_def vs_def)
  have "length vs \<le> 8 * gc" unfolding vs_def by (rule length_decode_groups)
  with False have "length vs \<le> MAX_BP_VALUES" by linarith
  moreover have "dec_pos d + tot \<le> length (dec_data d)" using assms by (auto simp: tot_def dec_safe_def)
  ultimately show ?thesis using assms unfolding t by (cases vs) (simp_all add: dec_safe_def)
qed

lemma get_bp_run_tail:
  "get_bp_run d n = (if n = 0 then (None, d)
     else bp_run_tail d (let size = length (dec_data d); pos = dec_pos d; bw = dec_bit_width d;
               avail = (if pos < size then size - pos else 0);
               max_groups = (if bw > 0 then avail div bw + 1 else avail + 1)
           in if n > max_groups then max_groups else n))"
  unfolding get_bp_run_def bp_run_tail_def Let_def by (rule refl)

lemma get_bp_run_safe: "dec_safe d \<Longrightarrow> dec_safe (snd (get_bp_run d n))"
  unfolding get_bp_run_tail using bp_run_tail_safe by (cases "n = 0") simp_all

lemma get_safe:
  assumes "dec_safe d"
  shows "dec_safe (snd (get d))"
proof -
  obtain h p where hp: "decode_varint (dec_data d) (dec_pos d) = (h, p)" by fastforce
  have "p \<le> length (dec_data d)"
    using decode_varint_pos[of "dec_pos d" "dec_data d"] assms hp by (simp add: dec_safe_def)
  then have "dec_safe (d\<lparr>dec_pos := p\<rparr>)" using assms by (simp add: dec_safe_def)
  from get_rle_run_safe[OF this] get_bp_run_safe[OF this] show ?thesis
    using assms by (auto simp: get_def hp Let_def) (auto simp: dec_safe_def)
qed

lemma get_batch_safe: "dec_safe d \<Longrightarrow> get_batch n d = (ok, vs, d') \<Longrightarrow> dec_safe d'"
proof (induction n arbitrary: d vs)
  case (Suc n)
  obtain r d1 where g: "get d = (r, d1)" by fastforce
  with get_safe[OF Suc.prems(1)] have "dec_safe d1" by simp
  with Suc g show ?case by (auto split: option.splits prod.splits)
qed simp

lemma dec_safe_new: "dec_safe (rle_decoder_new data bw)"
  by (auto simp: dec_safe_def rle_decoder_new_def clamp_width_def)

section \<open>Encode and decode\<close>

lemma fold_put_inv:
  assumes "enc_inv bw e vals" "0 < bw" "\<forall>v \<in> set vs. fits bw (f v)"
    and "length vals + length vs \<le> MAX_BP_VALUES"
  shows "enc_inv bw (fold (\<lambda>v e. put e (f v)) vs e) (vals @ map f vs)"
  using assms
proof (induction vs arbitrary: e vals)
  case (Cons v vs)
  have "enc_inv bw (put e (f v)) (vals @ [f v])"
    using Cons.prems by (intro put_inv) auto
  from Cons.IH[OF this] Cons.prems show ?case by simp
qed simp

lemma unat_ucast_32_64: "unat (ucast (v :: u32) :: u64) = unat v"
  using unat_lt_exp[of v] by (simp add: unsigned_ucast_eq take_bit_nat_eq_self)

lemma rle_encode_runs:
  assumes "1 \<le> bw" "bw \<le> 64" "\<forall>v \<in> set values. unat v < 2 ^ nat bw" "length values \<le> MAX_BP_VALUES"
  obtains rs pad where "rle_encode values bw = concat (map (run_bytes (nat bw)) rs)"
    "\<forall>r \<in> set rs. run_ok (nat bw) r" "concat (map expand rs) = map ucast values @ replicate pad 0" "pad < 8"
proof -
  have cw: "clamp_width bw = nat bw" using assms by (simp add: clamp_width_def)
  have "enc_inv (nat bw) (fold (\<lambda>v e. put e (ucast v)) values (rle_encoder_new bw)) ([] @ map ucast values)"
    using assms enc_inv_new[of bw] by (intro fold_put_inv) (auto simp: cw fits_def unat_ucast_32_64)
  from flush_runs[OF this] assms(1,2,4) show ?thesis by (auto simp: rle_encode_def intro: that)
qed

lemma ucast_down_up: "ucast (ucast (v :: u32) :: u64) = v"
  by (rule bit_word_eqI) (simp add: bit_access)

lemma rle_encode_decode:
  assumes "0 \<le> bw" "bw \<le> 64" "\<forall>v \<in> set values. unat v < 2 ^ nat bw" "length values \<le> MAX_BP_VALUES"
    and "n \<le> length values"
  shows "rle_decode (rle_encode values bw) bw n = take n values"
proof (cases "bw = 0")
  case True
  have "take n values = replicate n 0"
    by (rule nth_equalityI) (use assms True in \<open>auto simp: unat_eq_0 dest!: nth_mem\<close>)
  with True show ?thesis by (simp add: rle_encode_def rle_decode_def)
next
  case False
  then have bw: "1 \<le> bw" using assms by simp
  obtain rs pad where rs: "rle_encode values bw = concat (map (run_bytes (nat bw)) rs)"
    "\<forall>r \<in> set rs. run_ok (nat bw) r" "concat (map expand rs) = map ucast values @ replicate pad 0"
    using rle_encode_runs[OF bw assms(2-4)] by metis
  let ?d = "rle_decoder_new (rle_encode values bw) bw"
  have "dec_ok (nat bw) ?d rs"
    using bw assms(2) rs by (auto simp: dec_ok_def rle_decoder_new_def clamp_width_def)
  moreover have "pend ?d = []" by (simp add: pend_def rle_decoder_new_def)
  ultimately have "decode_loop n ?d = map ucast (take n (map ucast values @ replicate pad 0 :: u64 list))"
    using decode_loop_take[of "nat bw" ?d rs n] bw assms(2,5) rs(3) by simp
  also have "\<dots> = take n values"
    using assms(5) by (simp add: take_map comp_def ucast_down_up)
  finally show ?thesis using bw assms(2) by (simp add: rle_decode_def)
qed

lemma length_run_bytes:
  assumes "run_ok bw r" "bw \<le> 64"
  shows "length (run_bytes bw r) \<le> 18 * length (expand r)"
proof (cases r)
  case (Run n v)
  then have "0 < n" "2 * n < 2 ^ (7 * 10)" using assms by (auto simp: MAX_RLE_RUN_def)
  then show ?thesis using length_leb_le[of "2 * n" 10] assms(2)
    by (auto simp: Run byte_width_of_def)
next
  case (Packed gs)
  then have gs: "0 < length gs" "8 * length gs \<le> MAX_BP_VALUES" "\<forall>g \<in> set gs. group_ok bw g"
    using assms by auto
  have "length (leb (2 * length gs + 1)) \<le> 10"
    using gs by (intro length_leb_le) (auto simp: MAX_BP_VALUES_def)
  moreover have "length (concat (map (\<lambda>g. bit_pack_8 [] g bw) gs)) = length gs * bw"
    using pack8.length_groups[of gs bw] gs(3) by (auto simp: group_ok_def)
  moreover have "length gs * bw \<le> length gs * 64" using assms(2) by simp
  ultimately have "length (run_bytes bw r) \<le> 10 + length gs * 64"
    unfolding Packed run_bytes.simps length_append by linarith
  also have "\<dots> \<le> 18 * (8 * length gs)" using gs(1) by linarith
  finally show ?thesis using length_concat_groups[OF gs(3)] by (simp add: Packed)
qed

lemma length_runs:
  "\<forall>r \<in> set rs. run_ok bw r \<Longrightarrow> bw \<le> 64 \<Longrightarrow>
   length (concat (map (run_bytes bw) rs)) \<le> 18 * length (concat (map expand rs))"
proof (induction rs)
  case (Cons r rs)
  then show ?case using length_run_bytes[of bw r] by simp
qed simp

lemma length_rle_encode:
  assumes "0 \<le> bw" "bw \<le> 64" "\<forall>v \<in> set values. unat v < 2 ^ nat bw" "length values \<le> MAX_BP_VALUES"
  shows "length (rle_encode values bw) \<le> 18 * (length values + 7)"
proof (cases "bw = 0")
  case False
  then have bw: "1 \<le> bw" using assms by simp
  obtain rs pad where rs: "rle_encode values bw = concat (map (run_bytes (nat bw)) rs)"
    "\<forall>r \<in> set rs. run_ok (nat bw) r" "concat (map expand rs) = map ucast values @ replicate pad 0" "pad < 8"
    using rle_encode_runs[OF bw assms(2-4)] by metis
  have "nat bw \<le> 64" using assms(2) by simp
  from length_runs[OF rs(2) this] have "length (rle_encode values bw) \<le> 18 * (length values + pad)"
    by (simp only: rs(1,3) length_append length_map length_replicate)
  moreover have "18 * (length values + pad) \<le> 18 * (length values + 7)" using rs(4) by simp
  ultimately show ?thesis by (rule order_trans)
qed (simp add: rle_encode_def)

lemma le_prefix:
  fixes len :: u32
  shows "[ucast len, ucast (drop_bit 8 len), ucast (drop_bit 16 len), ucast (drop_bit 24 len)] = to_le 4 len"
  by (simp add: to_le_def upt_conv_Cons)

lemma le_prefix_read:
  assumes "data = to_le 4 (len :: u32) @ rest"
  shows "(ucast (data ! 0) :: u32) OR push_bit 8 (ucast (data ! 1))
                 OR push_bit 16 (ucast (data ! 2)) OR push_bit 24 (ucast (data ! 3)) = len"
proof -
  have t: "to_le 4 len = [data ! 0, data ! 1, data ! 2, data ! 3]"
    unfolding assms by (simp add: to_le_def upt_conv_Cons)
  have "of_le (to_le 4 len) = len" by (rule of_le_to_le) simp
  then show ?thesis unfolding t of_le.simps push_bit_or push_bit_push_bit by simp
qed

lemma encode_decode_with_length:
  assumes "0 \<le> bw" "bw \<le> 64" "\<forall>v \<in> set values. unat v < 2 ^ nat bw" "length values \<le> MAX_BP_VALUES"
    and "n \<le> length values"
  shows "decode_with_length (encode_with_length values bw @ post) bw n = take n values"
proof -
  let ?p = "rle_encode values bw"
  have "length ?p < 2 ^ 32"
    using length_rle_encode[OF assms(1-4)] assms(4) by (simp add: MAX_BP_VALUES_def)
  then have u: "unat (of_nat (length ?p) :: u32) = length ?p" "\<not> 2 ^ 32 - 1 < length ?p"
    unfolding unat_of_nat by simp_all
  have e: "encode_with_length values bw = to_le 4 (of_nat (length ?p) :: u32) @ ?p"
    using u(2) by (simp add: encode_with_length_def Let_def le_prefix[symmetric] del: drop_bit_of_nat)
  have d: "decode_with_length (to_le 4 (of_nat (length ?p) :: u32) @ ?p @ post) bw n = rle_decode ?p bw n"
    unfolding decode_with_length_def Let_def le_prefix_read[OF refl] u(1) by simp
  show ?thesis unfolding e append_assoc d by (rule rle_encode_decode[OF assms])
qed

section \<open>What does not round-trip\<close>

text \<open>The encoder has no cap on a run that matches the decoder's 256M.\<close>

lemma put_same:
  assumes "enc_bit_width e \<noteq> 0" "enc_bp_count e = 0" "enc_rle_count e \<noteq> 0" "enc_rle_value e = f v"
  shows "fold (\<lambda>v e. put e (f v)) (replicate n v) e = e\<lparr>enc_rle_count := enc_rle_count e + n\<rparr>"
  using assms
proof (induction n arbitrary: e)
  case (Suc n)
  from Suc.prems have "put e (f v) = e\<lparr>enc_rle_count := enc_rle_count e + 1\<rparr>" by (simp add: put_def)
  then have "fold (\<lambda>v e. put e (f v)) (replicate (Suc n) v) e
      = fold (\<lambda>v e. put e (f v)) (replicate n v) (e\<lparr>enc_rle_count := enc_rle_count e + 1\<rparr>)"
    by (simp only: replicate.simps fold.simps comp_apply)
  also have "\<dots> = e\<lparr>enc_rle_count := enc_rle_count e + Suc n\<rparr>"
    using Suc.prems by (subst Suc.IH) simp_all
  finally show ?case .
qed simp

lemma encode_replicate:
  fixes v :: u32
  assumes "1 \<le> bw" "bw \<le> 64" "0 < n" "n < 2 ^ 63"
  shows "rle_encode (replicate n v) bw = leb (2 * n) @ to_le (byte_width_of (nat bw)) (ucast v :: u64)"
proof -
  let ?e = "rle_encoder_new bw"
  let ?e1 = "?e\<lparr>enc_rle_value := ucast v, enc_rle_count := 1\<rparr>"
  obtain m where n: "n = Suc m" using assms(3) by (cases n) auto
  have cw: "clamp_width bw = nat bw" using assms by (simp add: clamp_width_def)
  have "put ?e (ucast v) = ?e1"
    using assms(1) by (simp add: put_def rle_encoder_new_def cw)
  then have "fold (\<lambda>v e. put e (ucast v)) (replicate n v) ?e = fold (\<lambda>v e. put e (ucast v)) (replicate m v) ?e1"
    by (simp only: n replicate.simps fold.simps comp_apply)
  also have "\<dots> = ?e1\<lparr>enc_rle_count := enc_rle_count ?e1 + m\<rparr>"
    using assms(1) by (intro put_same) (simp_all add: rle_encoder_new_def cw)
  finally have "fold (\<lambda>v e. put e (ucast v)) (replicate n v) ?e
      = ?e\<lparr>enc_rle_value := ucast v, enc_rle_count := n\<rparr>" by (simp add: n)
  then show ?thesis using assms
    by (simp add: rle_encode_def flush_def Let_def flush_rle_run_def flush_bp_groups_def encode_varint_leb
        varint_header(1)[OF assms(4), simplified] write_rle_value_le rle_encoder_new_def cw max_run_count_def)
qed

section \<open>Properties\<close>

text \<open>
  Property C17: the RLE / bit-packing hybrid loses nothing.  For any width 0..64 and up to 32M
  values that fit it, decoding the encoder's output yields the values, in order; asking for fewer
  yields a prefix.
\<close>

theorem rle_roundtrip:
  assumes "0 \<le> bw" "bw \<le> 64" "\<forall>v \<in> set values. unat v < 2 ^ nat bw"
    and "length values \<le> MAX_BP_VALUES" "n \<le> length values"
  shows "rle_decode (rle_encode values bw) bw n = take n values"
  using assms by (rule rle_encode_decode)

theorem rle_roundtrip_witness:
  "rle_decode (rle_encode [3, 3, 1, 0, 2, 2, 2, 2, 2, 2, 2, 2, 2] 2) 2 12
   = [3, 3, 1, 0, 2, 2, 2, 2, 2, 2, 2, 2]"
  using rle_roundtrip[of 2 "[3, 3, 1, 0, 2, 2, 2, 2, 2, 2, 2, 2, 2]" 12] by (simp add: MAX_BP_VALUES_def)

text \<open>
  The length-prefixed form used for definition and repetition levels is
  self-delimiting: \<open>decode_with_length\<close> recovers the levels whatever follows them in the page.
\<close>

theorem rle_with_length_roundtrip:
  assumes "0 \<le> bw" "bw \<le> 64" "\<forall>v \<in> set values. unat v < 2 ^ nat bw"
    and "length values \<le> MAX_BP_VALUES" "n \<le> length values"
  shows "decode_with_length (encode_with_length values bw @ post) bw n = take n values"
  using assms by (rule encode_decode_with_length)

theorem rle_with_length_roundtrip_witness:
  "decode_with_length (encode_with_length [1, 1, 0, 1] 1 @ [9, 9]) 1 4 = [1, 1, 0, 1]"
  using rle_with_length_roundtrip[of 1 "[1, 1, 0, 1]" 4 "[9, 9]"] by (simp add: MAX_BP_VALUES_def)

text \<open>
  Property C40: on any bytes whatever, a decoder stays within its bounds: after any number of reads
  the position is inside the buffer, the group cursor is inside the decoded groups, and what was
  allocated for them is at most 32M values.
\<close>

theorem rle_decoder_bounds:
  assumes "get_batch n (rle_decoder_new data bw) = (ok, vs, d)"
  shows "dec_pos d \<le> length (dec_data d)
    \<and> dec_bp_index d + dec_bp_remaining d \<le> length (dec_bp_decoded d)
    \<and> length (dec_bp_decoded d) \<le> MAX_BP_VALUES \<and> dec_rle_remaining d \<le> MAX_RLE_RUN"
  using get_batch_safe[OF dec_safe_new assms] by (simp add: dec_safe_def)

theorem rle_decoder_bounds_witness:
  "\<exists>ok vs d. get_batch 3 (rle_decoder_new [0x06, 0x05] 3) = (ok, vs, d) \<and> dec_pos d \<le> length (dec_data d)"
proof -
  obtain ok vs d where g: "get_batch 3 (rle_decoder_new [0x06, 0x05] 3) = (ok, vs, d)"
    by (metis prod_cases3)
  then show ?thesis using rle_decoder_bounds[OF g] by blast
qed

text \<open>
  The encoder writes runs its own decoder refuses.  More than 256M copies of one value
  become a single run, and decoding it yields nothing at all, without an error.
\<close>

theorem rle_long_run_lost:
  fixes v :: u32
  assumes "1 \<le> bw" "bw \<le> 64" "MAX_RLE_RUN < n" "n < 2 ^ 63"
  shows "rle_decode (rle_encode (replicate n v) bw) bw k = []"
proof -
  have n: "0 < n" "2 * n < 2 ^ 64" using assms by auto
  let ?tail = "to_le (byte_width_of (nat bw)) (ucast v :: u64)"
  let ?data = "leb (2 * n) @ ?tail"
  obtain h where h: "decode_varint ([] @ ?data) (length ([] :: bytes)) = (h, length ([] :: bytes) + length (leb (2 * n)))"
    "h AND 1 = 0" "unat (drop_bit 1 h) = n"
    using decode_header[OF n(2), of "[]" ?tail] by auto
  have "fst (get (rle_decoder_new ?data bw)) = None"
    using h assms(3) n(1) by (simp add: get_def rle_decoder_new_def get_rle_run_def)
  then obtain d where g: "get (rle_decoder_new ?data bw) = (None, d)" by (metis prod.collapse)
  have "rle_decode ?data bw k = []"
    using assms(1,2) g by (cases k) (simp_all add: rle_decode_def)
  then show ?thesis using encode_replicate[OF assms(1,2) n(1) assms(4)] by simp
qed

theorem rle_long_run_lost_witness:
  "rle_decode (rle_encode (replicate 300000000 1) 1) 1 300000000 = []"
  using rle_long_run_lost[of 1 300000000 1 300000000] by (simp add: MAX_RLE_RUN_def)

text \<open>
  A header varint cut off by the end of the buffer is not an error for \<open>get\<close>: it is read
  as a bit-packed header and then, as its own data byte, decoded into values.
\<close>

theorem rle_truncated_header:
  "rle_decode [0x83] 1 8 = [1, 1, 0, 0, 0, 0, 0, 1]"
proof -
  have v: "decode_varint [0x83] 0 = (3, 0)" by code_simp
  have h: "(3 :: u64) AND 1 \<noteq> 0" "unat (drop_bit 1 (3 :: u64)) = 1" by code_simp+
  have u: "bit_unpack_8 [0x83] 1 = [1, 1, 0, 0, 0, 0, 0, 1]" by code_simp
  let ?d = "rle_decoder_new [0x83] 1"
  have "get ?d = get_bp_run ?d 1"
    using v h by (simp add: get_def rle_decoder_new_def)
  also have "\<dots> = (Some 1, ?d\<lparr>dec_pos := 1, dec_bp_decoded := [1, 1, 0, 0, 0, 0, 0, 1],
      dec_bp_index := 1, dec_bp_remaining := 7\<rparr>)"
    using u by (simp add: get_bp_run_def Let_def rle_decoder_new_def clamp_width_def MAX_BP_VALUES_def MAX_BP_BYTES_def)
  finally show ?thesis
    by (simp add: rle_decode_def numeral_eq_Suc) (simp add: get_def rle_decoder_new_def numeral_eq_Suc)
qed

end
