(* ===== verification/Delta.thy ===== *)
theory Delta
  imports Varint BitPack
begin

text \<open>
  DELTA_BINARY_PACKED of \<^verbatim>\<open>encoding/delta.hpp\<close>.  An \<^verbatim>\<open>int64_t\<close> is a 64-bit word read with
  \<open>sint\<close>; the encoder's differences wrap as the code's unsigned subtractions do, and the decoder's
  \<^verbatim>\<open>__builtin_add_overflow\<close> test is written out over the integers.  The block loops are
  recursions over the remaining differences (encoder) and over the remaining bytes (decoder).
\<close>

section \<open>The encoder\<close>

definition DEFAULT_BLOCK_SIZE :: nat where "DEFAULT_BLOCK_SIZE = 128"
definition DEFAULT_MINIBLOCK_COUNT :: nat where "DEFAULT_MINIBLOCK_COUNT = 4"
definition VALUES_PER_MINIBLOCK :: nat where
  "VALUES_PER_MINIBLOCK = DEFAULT_BLOCK_SIZE div DEFAULT_MINIBLOCK_COUNT"

lemmas delta_sizes = DEFAULT_BLOCK_SIZE_def DEFAULT_MINIBLOCK_COUNT_def VALUES_PER_MINIBLOCK_def

function bit_width_loop :: "u64 \<Rightarrow> nat \<Rightarrow> nat" where
  "bit_width_loop value width = (if value > 0 then bit_width_loop (drop_bit 1 value) (width + 1) else width)"
  by pat_completeness auto
termination
  by (relation "measure (\<lambda>(v, w). unat v)")
    (auto simp: unat_drop_bit word_neq_0_conv[symmetric] unat_eq_0 intro!: div_less_dividend gr0I)

declare bit_width_loop.simps [simp del]

definition bit_width_for :: "u64 \<Rightarrow> nat" where
  "bit_width_for value = (if value = 0 then 0 else bit_width_loop value 0)"

text \<open>\<^verbatim>\<open>if (block_deltas[i] < min_delta)\<close> over the block, a signed comparison.\<close>

definition min_delta_of :: "u64 list \<Rightarrow> u64" where
  "min_delta_of ds = fold (\<lambda>d m. if sint d < sint m then d else m) (tl ds) (hd ds)"

definition max_of :: "u64 list \<Rightarrow> u64" where
  "max_of vs = fold (\<lambda>v m. if v > m then v else m) vs 0"

definition adjusted :: "u64 list \<Rightarrow> u64 list" where
  "adjusted ds = map (\<lambda>d. d - min_delta_of ds) ds @ replicate (DEFAULT_BLOCK_SIZE - length ds) 0"

definition miniblock :: "u64 list \<Rightarrow> nat \<Rightarrow> u64 list" where
  "miniblock adj mb = take VALUES_PER_MINIBLOCK (drop (mb * VALUES_PER_MINIBLOCK) adj)"

definition miniblock_width :: "u64 list \<Rightarrow> nat \<Rightarrow> u8" where
  "miniblock_width adj mb = of_nat (bit_width_for (max_of (miniblock adj mb)))"

text \<open>One block: \<^verbatim>\<open>min_delta\<close>, the widths, the packed miniblocks.\<close>

definition encode_block :: "bytes \<Rightarrow> u64 list \<Rightarrow> bytes" where
  "encode_block out ds =
     (let out1 = encode_uvarint out (zigzag_encode (min_delta_of ds));
          adj = adjusted ds;
          out2 = out1 @ map (miniblock_width adj) [0..<DEFAULT_MINIBLOCK_COUNT]
      in fold (\<lambda>mb buf. bit_pack_values buf (miniblock adj mb) (unat (miniblock_width adj mb)))
           [0..<DEFAULT_MINIBLOCK_COUNT] out2)"

function encode_blocks :: "bytes \<Rightarrow> u64 list \<Rightarrow> bytes" where
  "encode_blocks out deltas =
     (if deltas = [] then out
      else encode_blocks (encode_block out (take DEFAULT_BLOCK_SIZE deltas)) (drop DEFAULT_BLOCK_SIZE deltas))"
  by pat_completeness auto
termination
  by (relation "measure (\<lambda>(out, ds). length ds)") (auto simp: DEFAULT_BLOCK_SIZE_def)

declare encode_blocks.simps [simp del]

definition deltas_of :: "u64 list \<Rightarrow> u64 list" where
  "deltas_of values = map (\<lambda>i. values ! (i + 1) - values ! i) [0..<length values - 1]"

definition encode_int64 :: "u64 list \<Rightarrow> bytes" where
  "encode_int64 values =
     (if values = [] then
        encode_uvarint (encode_uvarint (encode_uvarint (encode_uvarint [] (of_nat DEFAULT_BLOCK_SIZE))
          (of_nat DEFAULT_MINIBLOCK_COUNT)) 0) (zigzag_encode 0)
      else
        let out = encode_uvarint (encode_uvarint (encode_uvarint (encode_uvarint [] (of_nat DEFAULT_BLOCK_SIZE))
                    (of_nat DEFAULT_MINIBLOCK_COUNT)) (of_nat (length values))) (zigzag_encode (values ! 0))
        in if length values = 1 then out else encode_blocks out (deltas_of values))"

definition encode_int32 :: "u32 list \<Rightarrow> bytes" where
  "encode_int32 values = encode_int64 (map scast values)"

section \<open>The decoder\<close>

text \<open>\<^verbatim>\<open>__builtin_add_overflow(prev, delta, ...)\<close> on \<^verbatim>\<open>int64_t\<close>.\<close>

definition add_overflow :: "u64 \<Rightarrow> u64 \<Rightarrow> bool" where
  "add_overflow a b \<longleftrightarrow> sint a + sint b < - (2 ^ 63) \<or> sint a + sint b \<ge> 2 ^ 63"

text \<open>Emit one miniblock's values: what was pushed, and the last value unless it overflowed.\<close>

fun emit :: "u64 list \<Rightarrow> u64 \<Rightarrow> u64 \<Rightarrow> u64 list \<times> u64 option" where
  "emit [] min_delta prev = ([], Some prev)"
| "emit (u # us) min_delta prev =
     (let delta = u + min_delta
      in if add_overflow prev delta then ([], None)
         else case emit us min_delta (prev + delta) of (vs, r) \<Rightarrow> ((prev + delta) # vs, r))"

text \<open>The bytes of one miniblock, zero-padded when the buffer is cut: values and new position.\<close>

definition unpack_miniblock :: "bytes \<Rightarrow> nat \<Rightarrow> nat \<Rightarrow> nat \<Rightarrow> u64 list \<times> nat" where
  "unpack_miniblock data pos vpm bw =
     (if bw = 0 then (replicate vpm 0, pos)
      else let miniblock_bytes = (vpm * bw + 7) div 8
           in if pos + miniblock_bytes > length data
              then (bit_unpack_values (drop pos data @ replicate (miniblock_bytes - (length data - pos)) 0) vpm bw,
                    length data)
              else (bit_unpack_values (drop pos data) vpm bw, pos + miniblock_bytes))"

text \<open>The miniblocks of a block; \<open>None\<close> when the decoder returns the partial result.\<close>

fun decode_miniblocks :: "u8 list \<Rightarrow> nat \<Rightarrow> u64 \<Rightarrow> bytes \<Rightarrow> nat \<Rightarrow> u64 \<Rightarrow> nat
    \<Rightarrow> u64 list \<times> (nat \<times> u64 \<times> nat) option" where
  "decode_miniblocks [] vpm min_delta data pos prev remaining = ([], Some (pos, prev, remaining))"
| "decode_miniblocks (w # ws) vpm min_delta data pos prev remaining =
     (if remaining = 0 then ([], Some (pos, prev, remaining))
      else if unat w > 64 then ([], None)
      else case unpack_miniblock data pos vpm (unat w) of (unpacked, pos') \<Rightarrow>
        let to_emit = min vpm remaining
        in case emit (take to_emit unpacked) min_delta prev of
             (vs, None) \<Rightarrow> (vs, None)
           | (vs, Some prev') \<Rightarrow>
               (case decode_miniblocks ws vpm min_delta data pos' prev' (remaining - to_emit) of
                  (vs', r) \<Rightarrow> (vs @ vs', r)))"

fun read_widths :: "nat \<Rightarrow> bytes \<Rightarrow> nat \<Rightarrow> u8 list \<times> nat" where
  "read_widths 0 data pos = ([], pos)"
| "read_widths (Suc n) data pos =
     (if pos < length data
      then (case read_widths n data (pos + 1) of (ws, p) \<Rightarrow> (data ! pos # ws, p))
      else (case read_widths n data pos of (ws, p) \<Rightarrow> (0 # ws, p)))"

lemma read_widths_pos:
  "pos \<le> length data \<Longrightarrow> pos \<le> snd (read_widths n data pos) \<and> snd (read_widths n data pos) \<le> length data
     \<and> (0 < n \<and> pos < length data \<longrightarrow> pos < snd (read_widths n data pos))"
  by (induction n data pos rule: read_widths.induct) (auto split: prod.splits)

lemma decode_uvarint_pos:
  "pos \<le> length data \<Longrightarrow> pos \<le> snd (decode_uvarint data pos) \<and> snd (decode_uvarint data pos) \<le> length data"
  unfolding decode_uvarint_def by (rule varint_loop_pos) simp_all

lemma unpack_miniblock_pos:
  "pos \<le> length data \<Longrightarrow> pos \<le> snd (unpack_miniblock data pos vpm bw)
     \<and> snd (unpack_miniblock data pos vpm bw) \<le> length data"
  by (auto simp: unpack_miniblock_def Let_def)

lemma decode_miniblocks_pos:
  "pos \<le> length data \<Longrightarrow> decode_miniblocks ws vpm md data pos prev rem = (vs, Some (p, pr, rm)) \<Longrightarrow>
   pos \<le> p \<and> p \<le> length data"
proof (induction ws arbitrary: pos prev rem vs)
  case (Cons w ws)
  obtain un pos' where u: "unpack_miniblock data pos vpm (unat w) = (un, pos')" by fastforce
  have p: "pos \<le> pos'" "pos' \<le> length data"
    using unpack_miniblock_pos[OF Cons.prems(1), of vpm "unat w"] u by simp_all
  obtain es r where e: "emit (take (min vpm rem) un) md prev = (es, r)" by fastforce
  show ?case using Cons.prems(2) Cons.IH[OF p(2)] p u e
    by (auto simp: Let_def split: if_splits prod.splits option.splits) (meson le_trans)+
qed simp

text \<open>
  The outer \<^verbatim>\<open>while (values_remaining > 0 && pos < size)\<close>.  \<open>miniblock_count = 0\<close> never gets here
  (it is rejected first); the guard on it only makes the recursion total.
\<close>

function decode_blocks :: "nat \<Rightarrow> nat \<Rightarrow> bytes \<Rightarrow> nat \<Rightarrow> u64 \<Rightarrow> nat \<Rightarrow> u64 list" where
  "decode_blocks miniblock_count vpm data pos prev remaining =
     (if remaining > 0 \<and> pos < length data \<and> miniblock_count > 0 then
        case decode_uvarint data pos of (min_delta_zz, p1) \<Rightarrow>
        case read_widths miniblock_count data p1 of (ws, p2) \<Rightarrow>
        case decode_miniblocks ws vpm (zigzag_decode min_delta_zz) data p2 prev remaining of
          (vs, None) \<Rightarrow> vs
        | (vs, Some (p3, prev', remaining')) \<Rightarrow> vs @ decode_blocks miniblock_count vpm data p3 prev' remaining'
      else [])"
  by pat_completeness auto
termination
proof (relation "measure (\<lambda>(n, vpm, data, pos, prev, rem). length data - pos)")
  fix n vpm data pos prev rem zz p1 x ws p2 vs r z p3 q prev' rem'
  assume a: "0 < rem \<and> pos < length data \<and> 0 < n"
    "(zz, p1) = decode_uvarint data pos" "(ws, p2) = read_widths n data p1"
    "(vs, r) = decode_miniblocks ws vpm (zigzag_decode zz) data p2 prev rem"
    "r = Some z" "(p3, q) = z" "(prev', rem') = q"
  have p1: "pos \<le> p1" "p1 \<le> length data" using decode_uvarint_pos[of pos data] a(1,2) by (auto dest: sym)
  have p2: "p1 \<le> p2" "p2 \<le> length data" "p1 < length data \<Longrightarrow> p1 < p2"
    using read_widths_pos[of p1 data n] p1 a(1,3) by (auto dest: sym)
  have "p2 \<le> p3" using decode_miniblocks_pos[of p2 data ws vpm "zigzag_decode zz" prev rem vs p3 prev' rem']
      p2 a(4-7) by auto
  then show "((n, vpm, data, p3, prev', rem'), n, vpm, data, pos, prev, rem)
      \<in> measure (\<lambda>(n, vpm, data, pos, prev, rem). length data - pos)"
    using a(1) p1 p2 by (cases "p1 < length data") auto
qed simp

declare decode_blocks.simps [simp del]

definition MAX_DELTA_BLOCK_SIZE :: nat where "MAX_DELTA_BLOCK_SIZE = 65536"
definition MAX_MINIBLOCK_COUNT :: nat where "MAX_MINIBLOCK_COUNT = 256"
definition MAX_DELTA_VALUES :: nat where "MAX_DELTA_VALUES = 256 * 1024 * 1024"

definition decode_int64 :: "bytes \<Rightarrow> nat \<Rightarrow> u64 list" where
  "decode_int64 data num_values =
     (if num_values = 0 \<or> length data = 0 then []
      else if num_values > MAX_DELTA_VALUES then []
      else case decode_uvarint data 0 of (block_size_w, p1) \<Rightarrow>
           case decode_uvarint data p1 of (miniblock_count_w, p2) \<Rightarrow>
           case decode_uvarint data p2 of (total_count, p3) \<Rightarrow>
           case decode_uvarint data p3 of (first_value_zz, p4) \<Rightarrow>
             let block_size = unat block_size_w; miniblock_count = unat miniblock_count_w
             in if miniblock_count = 0 \<or> block_size = 0 then []
                else if block_size > MAX_DELTA_BLOCK_SIZE then []
                else if miniblock_count > MAX_MINIBLOCK_COUNT then []
                else if block_size mod miniblock_count \<noteq> 0 then []
                else let vpm = block_size div miniblock_count
                     in if vpm = 0 then []
                        else let prev = zigzag_decode first_value_zz
                             in if num_values = 1 then [prev]
                                else prev # decode_blocks miniblock_count vpm data p4 prev (num_values - 1))"

definition decode_int32 :: "bytes \<Rightarrow> nat \<Rightarrow> u32 list" where
  "decode_int32 data num_values =
     (let wide = decode_int64 data num_values
      in if \<exists>v \<in> set wide. sint v < - (2 ^ 31) \<or> sint v > 2 ^ 31 - 1 then []
         else map ucast wide)"

section \<open>Widths\<close>

lemma bit_width_loop_step:
  "bit_width_loop v w = (if v = 0 then w else bit_width_loop (drop_bit 1 v) (w + 1))"
  by (subst bit_width_loop.simps) (simp add: word_neq_0_conv[symmetric])

lemma bit_width_loop_le: "unat v < 2 ^ k \<Longrightarrow> bit_width_loop v w \<le> w + k"
proof (induction k arbitrary: v w)
  case 0
  then show ?case by (subst bit_width_loop_step) (simp add: unat_eq_0)
next
  case (Suc k)
  have "unat (drop_bit 1 v) < 2 ^ k" using Suc.prems unfolding unat_drop_bit by auto
  from Suc.IH[OF this, of "w + 1"] show ?case by (subst bit_width_loop_step) simp
qed

lemma bit_width_loop_fits: "w \<le> bit_width_loop v w \<and> unat v < 2 ^ (bit_width_loop v w - w)"
proof (induction v w rule: bit_width_loop.induct)
  case (1 v w)
  show ?case
  proof (cases "v = 0")
    case True
    then show ?thesis by (subst (1 2) bit_width_loop_step) simp
  next
    case False
    let ?r = "bit_width_loop (drop_bit 1 v) (w + 1)"
    have IH: "w + 1 \<le> ?r" "unat (drop_bit 1 v) < 2 ^ (?r - (w + 1))"
      using 1 False by (auto simp: word_neq_0_conv[symmetric])
    have "?r - w = Suc (?r - (w + 1))" using IH(1) by simp
    then have "unat v < 2 ^ (?r - w)" using IH(2) unfolding unat_drop_bit by auto
    with IH(1) False show ?thesis by (subst (1 2) bit_width_loop_step) simp
  qed
qed

lemma bit_width_for_le: "bit_width_for v \<le> 64"
  using bit_width_loop_le[of v 64 0] unat_lt_exp[of v] by (simp add: bit_width_for_def)

lemma bit_width_for_fits: "unat v < 2 ^ bit_width_for v"
  using bit_width_loop_fits[of 0 v] by (simp add: bit_width_for_def)

lemma fold_max_ge: "m \<le> fold (\<lambda>v m. if v > m then v else m) vs (m :: u64)"
  by (induction vs arbitrary: m) (auto intro: order_trans less_imp_le)

lemma max_of_ge: "v \<in> set vs \<Longrightarrow> v \<le> max_of vs"
proof -
  have "v \<in> set vs \<Longrightarrow> v \<le> fold (\<lambda>v m. if v > m then v else m) vs m" for m :: u64
    by (induction vs arbitrary: m) (use fold_max_ge in \<open>auto simp: not_less intro: order_trans\<close>)
  then show "v \<in> set vs \<Longrightarrow> v \<le> max_of vs" by (simp add: max_of_def)
qed

lemma miniblock_width_ok:
  "unat (miniblock_width adj mb) \<le> 64"
  "v \<in> set (miniblock adj mb) \<Longrightarrow> unat v < 2 ^ unat (miniblock_width adj mb)"
proof -
  have w: "unat (miniblock_width adj mb) = bit_width_for (max_of (miniblock adj mb))"
    using bit_width_for_le[of "max_of (miniblock adj mb)"]
    unfolding miniblock_width_def unat_of_nat by simp
  show "unat (miniblock_width adj mb) \<le> 64" unfolding w by (rule bit_width_for_le)
  assume "v \<in> set (miniblock adj mb)"
  then have "unat v \<le> unat (max_of (miniblock adj mb))"
    using max_of_ge by (simp add: word_le_nat_alt)
  then show "unat v < 2 ^ unat (miniblock_width adj mb)"
    unfolding w using bit_width_for_fits le_less_trans by blast
qed

section \<open>The bytes of a block\<close>

text \<open>A block as a value: the widths and packings of its miniblocks.\<close>

definition packs :: "u64 list \<Rightarrow> nat list \<Rightarrow> bytes" where
  "packs adj mbs = concat (map (\<lambda>mb. bit_pack_values [] (miniblock adj mb) (unat (miniblock_width adj mb))) mbs)"

definition block_bytes :: "u64 list \<Rightarrow> bytes" where
  "block_bytes ds = leb (unat (zigzag_encode (min_delta_of ds)))
     @ map (miniblock_width (adjusted ds)) [0..<4] @ packs (adjusted ds) [0..<4]"

lemma bit_pack_values_app: "bit_pack_values out vs bw = out @ bit_pack_values [] vs bw"
  by (simp add: bit_pack_values_def)

lemma fold_packs:
  "fold (\<lambda>mb buf. bit_pack_values buf (miniblock adj mb) (unat (miniblock_width adj mb))) mbs out
   = out @ packs adj mbs"
proof (induction mbs arbitrary: out)
  case (Cons mb mbs)
  show ?case
    by (subst (1) fold_simps(2), subst bit_pack_values_app, subst Cons) (simp add: packs_def)
qed (simp add: packs_def)

lemma encode_block_bytes: "encode_block out ds = out @ block_bytes ds"
  by (simp add: encode_block_def Let_def fold_packs encode_uvarint_leb block_bytes_def delta_sizes)

lemma encode_blocks_unfold:
  "encode_blocks out ds = (if ds = [] then out
     else encode_blocks (out @ block_bytes (take 128 ds)) (drop 128 ds))"
  by (subst encode_blocks.simps) (simp add: encode_block_bytes DEFAULT_BLOCK_SIZE_def)

lemma encode_blocks_app: "encode_blocks out ds = out @ encode_blocks [] ds"
proof (induction "length ds" arbitrary: out ds rule: less_induct)
  case less
  show ?case
  proof (cases "ds = []")
    case True
    then show ?thesis by (simp add: encode_blocks_unfold)
  next
    case False
    then have l: "length (drop 128 ds) < length ds" by simp
    let ?b = "block_bytes (take 128 ds)"
    have "encode_blocks out ds = (out @ ?b) @ encode_blocks [] (drop 128 ds)"
      using False less[OF l, of "out @ ?b"] by (subst encode_blocks_unfold) simp
    moreover have "encode_blocks [] ds = ?b @ encode_blocks [] (drop 128 ds)"
      using False less[OF l, of ?b] by (subst encode_blocks_unfold) simp
    ultimately show ?thesis by simp
  qed
qed

lemma encode_blocks_step:
  "ds \<noteq> [] \<Longrightarrow> encode_blocks [] ds = block_bytes (take 128 ds) @ encode_blocks [] (drop 128 ds)"
  using encode_blocks_app[of "block_bytes (take 128 ds)" "drop 128 ds"]
  by (subst encode_blocks_unfold) simp

lemma length_adjusted: "length ds \<le> 128 \<Longrightarrow> length (adjusted ds) = 128"
  by (simp add: adjusted_def DEFAULT_BLOCK_SIZE_def)

lemma length_miniblock: "length adj = 128 \<Longrightarrow> mb < 4 \<Longrightarrow> length (miniblock adj mb) = 32"
  by (simp add: miniblock_def delta_sizes)

lemma concat_miniblocks: "length adj = 128 \<Longrightarrow> concat (map (miniblock adj) [0..<4]) = adj"
proof -
  assume l: "length adj = 128"
  have t: "take (a + b) xs = take a xs @ take b (drop a xs)" for a b and xs :: "u64 list" by (rule take_add)
  have "adj = take 128 adj" using l by simp
  also have "\<dots> = take 32 adj @ take 32 (drop 32 adj) @ take 32 (drop 64 adj) @ take 32 (drop 96 adj)"
    using t[of 32 96 adj] t[of 32 64 "drop 32 adj"] t[of 32 32 "drop 64 adj"] by simp
  finally show ?thesis by (simp add: upt_rec miniblock_def delta_sizes)
qed

section \<open>Decoding what was encoded\<close>

text \<open>The running sums of the differences, and the condition that none of them overflows.\<close>

fun sums :: "u64 \<Rightarrow> u64 list \<Rightarrow> u64 list" where
  "sums prev [] = []"
| "sums prev (d # ds) = (prev + d) # sums (prev + d) ds"

fun no_overflow :: "u64 \<Rightarrow> u64 list \<Rightarrow> bool" where
  "no_overflow prev [] \<longleftrightarrow> True"
| "no_overflow prev (d # ds) \<longleftrightarrow> \<not> add_overflow prev d \<and> no_overflow (prev + d) ds"

lemma sums_append: "sums prev (a @ b) = sums prev a @ sums (prev + sum_list a) b"
  by (induction a arbitrary: prev) (simp_all add: add.assoc)

lemma no_overflow_append:
  "no_overflow prev (a @ b) \<longleftrightarrow> no_overflow prev a \<and> no_overflow (prev + sum_list a) b"
  by (induction a arbitrary: prev) (simp_all add: add.assoc)

lemma emit_sums:
  "no_overflow prev (map (\<lambda>u. u + md) us) \<Longrightarrow>
   emit us md prev = (sums prev (map (\<lambda>u. u + md) us), Some (prev + sum_list (map (\<lambda>u. u + md) us)))"
  by (induction us arbitrary: prev) (simp_all add: add.assoc Let_def)

lemma unpack_miniblock_pack:
  assumes "length vs = n" "w \<le> 64" "\<And>v. v \<in> set vs \<Longrightarrow> unat v < 2 ^ w"
  shows "unpack_miniblock (pre @ bit_pack_values [] vs w @ post) (length pre) n w
         = (vs, length pre + length (bit_pack_values [] vs w))"
proof (cases "w = 0")
  case True
  then show ?thesis using replicate_0_eqI[OF True] assms
    by (simp add: unpack_miniblock_def bit_pack_values_def)
next
  case False
  then show ?thesis
    using pack_n.length_pack[OF assms(1)] pack_n.unpack_pack[OF assms]
    by (simp add: unpack_miniblock_def Let_def)
qed

lemma decode_packs:
  assumes "length adj = 128" "\<forall>mb \<in> set mbs. mb < 4"
    and "no_overflow prev (map (\<lambda>u. u + md) (take rem (concat (map (miniblock adj) mbs))))"
  shows "\<exists>p. decode_miniblocks (map (miniblock_width adj) mbs) 32 md (pre @ packs adj mbs @ post) (length pre) prev rem
     = (sums prev (map (\<lambda>u. u + md) (take rem (concat (map (miniblock adj) mbs)))),
        Some (p, prev + sum_list (map (\<lambda>u. u + md) (take rem (concat (map (miniblock adj) mbs)))),
              rem - length (concat (map (miniblock adj) mbs)))) \<and>
     (rem > length (concat (map (miniblock adj) mbs)) \<longrightarrow> p = length pre + length (packs adj mbs))"
  using assms(2,3)
proof (induction mbs arbitrary: pre prev rem)
  case Nil
  then show ?case by (simp add: packs_def)
next
  case (Cons mb mbs)
  let ?rest = "concat (map (miniblock adj) mbs)"
  define m where "m = miniblock adj mb"
  define w where "w = unat (miniblock_width adj mb)"
  have m: "length m = 32" using Cons.prems assms(1) by (simp add: m_def length_miniblock)
  have p: "packs adj (mb # mbs) = bit_pack_values [] m w @ packs adj mbs" by (simp add: packs_def m_def w_def)
  show ?case
  proof (cases "rem = 0")
    case True
    then show ?thesis by simp
  next
    case False
    have w: "\<not> 64 < w" using miniblock_width_ok(1)[of adj mb] by (simp add: w_def)
    have u: "unpack_miniblock (pre @ bit_pack_values [] m w @ (packs adj mbs @ post)) (length pre) 32 w
        = (m, length pre + length (bit_pack_values [] m w))"
      using m w miniblock_width_ok(2)[of _ adj mb] unfolding m_def w_def
      by (intro unpack_miniblock_pack) simp_all
    let ?d1 = "map (\<lambda>u. u + md) (take rem m)"
    let ?d2 = "map (\<lambda>u. u + md) (take (rem - 32) ?rest)"
    have t: "take (min 32 rem) m = take rem m" using m by (simp add: min_def)
    have split: "map (\<lambda>u. u + md) (take rem (concat (map (miniblock adj) (mb # mbs)))) = ?d1 @ ?d2"
      using m by (simp add: m_def)
    have no: "no_overflow prev ?d1" "no_overflow (prev + sum_list ?d1) ?d2"
      using Cons.prems(2) unfolding split no_overflow_append by simp_all
    note e = emit_sums[OF no(1)]
    have "\<forall>mb \<in> set mbs. mb < 4" using Cons.prems(1) by simp
    from Cons.IH[OF this no(2), of "pre @ bit_pack_values [] m w"] obtain q where q:
      "decode_miniblocks (map (miniblock_width adj) mbs) 32 md
         ((pre @ bit_pack_values [] m w) @ packs adj mbs @ post) (length (pre @ bit_pack_values [] m w))
         (prev + sum_list ?d1) (rem - 32)
       = (sums (prev + sum_list ?d1) ?d2, Some (q, prev + sum_list ?d1 + sum_list ?d2, rem - 32 - length ?rest))"
      "rem - 32 > length ?rest \<longrightarrow> q = length (pre @ bit_pack_values [] m w) + length (packs adj mbs)" by blast
    have mn: "rem - min 32 rem = rem - 32" by simp
    have "decode_miniblocks (map (miniblock_width adj) (mb # mbs)) 32 md (pre @ packs adj (mb # mbs) @ post)
        (length pre) prev rem
      = (sums prev (?d1 @ ?d2), Some (q, prev + sum_list (?d1 @ ?d2), rem - (32 + length ?rest)))"
      using False w u q(1) unfolding p
      by (simp add: w_def[symmetric] Let_def t e mn sums_append add.assoc)
    then show ?thesis unfolding split p using q(2) m by (auto simp: m_def)
  qed
qed

lemma read_widths_bytes:
  "read_widths (length ws) (pre @ ws @ post) (length pre) = (ws, length pre + length ws)"
proof (induction ws arbitrary: pre)
  case (Cons w ws)
  from Cons[of "pre @ [w]"] show ?case by simp
qed simp

text \<open>What a block's adjusted values give back.\<close>

lemma adjusted_back:
  assumes "length b \<le> 128" "rem \<le> length b \<or> length b = 128"
  shows "map (\<lambda>u. u + min_delta_of b) (take rem (adjusted b)) = take rem b"
proof -
  have "take rem (adjusted b) = take rem (map (\<lambda>d. d - min_delta_of b) b)"
    using assms by (auto simp: adjusted_def DEFAULT_BLOCK_SIZE_def)
  then show ?thesis by (simp add: take_map[symmetric] comp_def)
qed

lemma decode_blocks_encode:
  assumes "rem \<le> length ds" "no_overflow prev (take rem ds)"
  shows "decode_blocks 4 32 (pre @ encode_blocks [] ds) (length pre) prev rem = sums prev (take rem ds)"
  using assms
proof (induction "length ds" arbitrary: pre prev rem ds rule: less_induct)
  case less
  show ?case
  proof (cases "rem = 0")
    case True
    then show ?thesis by (subst decode_blocks.simps) simp
  next
    case False
    then have ds: "ds \<noteq> []" using less.prems by auto
    define b where "b = take 128 ds"
    let ?more = "encode_blocks [] (drop 128 ds)"
    define mdz where "mdz = zigzag_encode (min_delta_of b)"
    define ws where "ws = map (miniblock_width (adjusted b)) [0..<4]"
    have data: "encode_blocks [] ds = leb (unat mdz) @ ws @ packs (adjusted b) [0..<4] @ ?more"
      using encode_blocks_step[OF ds] by (simp add: block_bytes_def b_def mdz_def ws_def)
    let ?data = "pre @ leb (unat mdz) @ ws @ packs (adjusted b) [0..<4] @ ?more"
    have d1: "decode_uvarint ?data (length pre) = (mdz, length pre + length (leb (unat mdz)))"
      by (rule decode_uvarint_leb)
    have lw: "length ws = 4" by (simp add: ws_def)
    have d2: "read_widths 4 ?data (length pre + length (leb (unat mdz)))
        = (ws, length (pre @ leb (unat mdz) @ ws))"
      using read_widths_bytes[of ws "pre @ leb (unat mdz)" "packs (adjusted b) [0..<4] @ ?more"] lw by simp
    have lb: "length b \<le> 128" "rem \<le> length b \<or> length b = 128" using less.prems by (auto simp: b_def)
    note la = length_adjusted[OF lb(1)]
    have D: "map (\<lambda>u. u + zigzag_decode mdz) (take rem (adjusted b)) = take rem b"
      unfolding mdz_def zigzag_decode_encode by (rule adjusted_back[OF lb])
    have split: "take rem ds = take rem b @ take (rem - 128) (drop 128 ds)"
      using lb take_add[of 128 "rem - 128" ds] by (cases "rem \<le> 128") (auto simp: b_def min_def)
    have no: "no_overflow prev (take rem b)" "no_overflow (prev + sum_list (take rem b)) (take (rem - 128) (drop 128 ds))"
      using less.prems(2) unfolding split no_overflow_append by simp_all
    obtain p where p: "decode_miniblocks ws 32 (zigzag_decode mdz) ?data (length (pre @ leb (unat mdz) @ ws)) prev rem
        = (sums prev (take rem b), Some (p, prev + sum_list (take rem b), rem - 128))"
      "rem > 128 \<longrightarrow> p = length (pre @ leb (unat mdz) @ ws) + length (packs (adjusted b) [0..<4])"
      using decode_packs[OF la, of "[0..<4]" prev "zigzag_decode mdz" rem "pre @ leb (unat mdz) @ ws" ?more] no(1)
      unfolding concat_miniblocks[OF la] la D by (auto simp: ws_def)
    have step: "decode_blocks 4 32 ?data (length pre) prev rem
        = sums prev (take rem b) @ decode_blocks 4 32 ?data p (prev + sum_list (take rem b)) (rem - 128)"
      using False d1 d2 p(1) by (subst decode_blocks.simps) (simp add: not_less)
    have "decode_blocks 4 32 ?data p (prev + sum_list (take rem b)) (rem - 128)
        = sums (prev + sum_list (take rem b)) (take (rem - 128) (drop 128 ds))"
    proof (cases "rem > 128")
      case True
      let ?pre = "pre @ leb (unat mdz) @ ws @ packs (adjusted b) [0..<4]"
      have "decode_blocks 4 32 (?pre @ ?more) (length ?pre) (prev + sum_list (take rem b)) (rem - 128)
          = sums (prev + sum_list (take rem b)) (take (rem - 128) (drop 128 ds))"
        using less.prems ds no(2) by (intro less.hyps) auto
      then show ?thesis using p(2) True by (simp add: add.assoc)
    next
      case False
      then show ?thesis by (subst decode_blocks.simps) simp
    qed
    then show ?thesis unfolding data step split sums_append by simp
  qed
qed

section \<open>Signed differences\<close>

definition fits64 :: "int \<Rightarrow> bool" where
  "fits64 d \<longleftrightarrow> - (2 ^ 63) \<le> d \<and> d < 2 ^ 63"

lemma sint_bounds64: "- (2 ^ 63) \<le> sint (a :: u64)" "sint (a :: u64) < 2 ^ 63"
  using sint_ge[of a] sint_lt[of a] by simp_all

lemma sint_of_int64: "fits64 k \<Longrightarrow> sint (word_of_int k :: u64) = k"
  by (simp add: fits64_def signed_of_int signed_take_bit_int_eq_self)

lemma word_diff_of_int: "b - a = (word_of_int (sint b - sint a) :: u64)"
  by simp

lemma sint_diff: "fits64 (sint b - sint a) \<Longrightarrow> sint (b - a) = sint b - sint (a :: u64)"
  unfolding word_diff_of_int[of b a] by (rule sint_of_int64)

lemma sint_diff_wrap:
  assumes "\<not> fits64 (sint b - sint (a :: u64))"
  shows "sint (b - a) = sint b - sint a - 2 ^ 64 \<or> sint (b - a) = sint b - sint a + 2 ^ 64"
proof -
  have w: "word_of_int (k - 2 ^ 64) = (word_of_int k :: u64)" "word_of_int (k + 2 ^ 64) = (word_of_int k :: u64)" for k
    by simp_all
  show ?thesis
  proof (cases "sint b - sint a \<ge> 2 ^ 63")
    case True
    then have "fits64 (sint b - sint a - 2 ^ 64)"
      using sint_bounds64(2)[of b] sint_bounds64(1)[of a] by (simp add: fits64_def)
    then show ?thesis using sint_of_int64 w(1) unfolding word_diff_of_int[of b a] by metis
  next
    case False
    then have "fits64 (sint b - sint a + 2 ^ 64)"
      using assms sint_bounds64(1)[of b] sint_bounds64(2)[of a] by (simp add: fits64_def)
    then show ?thesis using sint_of_int64 w(2) unfolding word_diff_of_int[of b a] by metis
  qed
qed

lemma add_overflow_diff: "add_overflow a (b - a) \<longleftrightarrow> \<not> fits64 (sint b - sint a)"
proof
  assume "\<not> fits64 (sint b - sint a)"
  from sint_diff_wrap[OF this] show "add_overflow a (b - a)"
    using sint_bounds64[of b] by (auto simp: add_overflow_def)
next
  assume "add_overflow a (b - a)"
  then show "\<not> fits64 (sint b - sint a)"
    using sint_diff[of b a] sint_bounds64[of b] by (auto simp: add_overflow_def)
qed

definition diffs_fit :: "u64 list \<Rightarrow> bool" where
  "diffs_fit values \<longleftrightarrow> (\<forall>i < length values - 1. fits64 (sint (values ! (i + 1)) - sint (values ! i)))"

lemma deltas_of_Cons: "deltas_of (a # b # vs) = (b - a) # deltas_of (b # vs)"
  by (simp add: deltas_of_def upt_conv_Cons map_Suc_upt[symmetric] del: upt_Suc)

lemma diffs_fit_Cons: "diffs_fit (a # b # vs) \<longleftrightarrow> fits64 (sint b - sint a) \<and> diffs_fit (b # vs)"
  unfolding diffs_fit_def by (auto simp: less_Suc_eq_0_disj)

lemma sums_deltas: "sums a (deltas_of (a # vs)) = vs"
  by (induction vs arbitrary: a) (simp_all add: deltas_of_Cons, simp add: deltas_of_def)

lemma no_overflow_deltas: "diffs_fit (a # vs) \<Longrightarrow> no_overflow a (deltas_of (a # vs))"
  by (induction vs arbitrary: a)
    (simp_all add: deltas_of_Cons diffs_fit_Cons add_overflow_diff, simp add: deltas_of_def)

lemma no_overflow_take: "no_overflow a ds \<Longrightarrow> no_overflow a (take n ds)"
  using no_overflow_append[of a "take n ds" "drop n ds"] by simp

lemma sums_take: "sums a (take n ds) = take n (sums a ds)"
  by (induction ds arbitrary: a n) (simp_all add: take_Cons split: nat.splits)

section \<open>The header\<close>

lemma length_deltas_of [simp]: "length (deltas_of vs) = length vs - 1"
  by (simp add: deltas_of_def)

definition header :: "u64 list \<Rightarrow> bytes" where
  "header vs = leb 128 @ leb 4 @ leb (unat (of_nat (length vs) :: u64)) @ leb (unat (zigzag_encode (vs ! 0)))"

lemma encode_int64_bytes:
  "vs \<noteq> [] \<Longrightarrow> encode_int64 vs = header vs @ encode_blocks [] (deltas_of vs)"
proof -
  assume ne: "vs \<noteq> []"
  have one: "length vs = 1 \<Longrightarrow> encode_blocks [] (deltas_of vs) = []"
    by (subst encode_blocks_unfold) (simp add: deltas_of_def)
  have "encode_int64 vs = (if length vs = 1 then header vs else encode_blocks (header vs) (deltas_of vs))"
    using ne by (simp add: encode_int64_def Let_def encode_uvarint_leb header_def delta_sizes)
  then show ?thesis using one encode_blocks_app[of "header vs"] by auto
qed

lemma decode_header_fields:
  assumes "vs \<noteq> []" "data = header vs @ rest"
  obtains p1 p2 p3 where "decode_uvarint data 0 = (128, p1)" "decode_uvarint data p1 = (4, p2)"
    "decode_uvarint data p2 = (of_nat (length vs), p3)"
    "decode_uvarint data p3 = (zigzag_encode (vs ! 0), length (header vs))"
proof -
  let ?l = "\<lambda>w :: u64. leb (unat w)"
  let ?n = "of_nat (length vs) :: u64" and ?z = "zigzag_encode (vs ! 0)"
  have d: "data = [] @ ?l 128 @ (?l 4 @ ?l ?n @ ?l ?z @ rest)" "data = ?l 128 @ ?l 4 @ (?l ?n @ ?l ?z @ rest)"
    "data = (?l 128 @ ?l 4) @ ?l ?n @ (?l ?z @ rest)" "data = (?l 128 @ ?l 4 @ ?l ?n) @ ?l ?z @ rest"
    using assms(2) by (simp_all add: header_def)
  show ?thesis
    using decode_uvarint_leb[of "[]" 128 "?l 4 @ ?l ?n @ ?l ?z @ rest", folded d(1)]
      decode_uvarint_leb[of "?l 128" 4 "?l ?n @ ?l ?z @ rest", folded d(2)]
      decode_uvarint_leb[of "?l 128 @ ?l 4" ?n "?l ?z @ rest", folded d(3)]
      decode_uvarint_leb[of "?l 128 @ ?l 4 @ ?l ?n" ?z rest, folded d(4)]
    by (intro that) (auto simp: header_def add.assoc)
qed

lemma header_nonempty [simp]: "header vs \<noteq> []"
  by (simp add: header_def)

lemma decode_int64_header:
  assumes "vs \<noteq> []" "0 < n" "n \<le> MAX_DELTA_VALUES" "data = header vs @ rest"
  shows "decode_int64 data n
    = (if n = 1 then [vs ! 0] else vs ! 0 # decode_blocks 4 32 data (length (header vs)) (vs ! 0) (n - 1))"
proof -
  obtain p1 p2 p3 where "decode_uvarint data 0 = (128, p1)" "decode_uvarint data p1 = (4, p2)"
    "decode_uvarint data p2 = (of_nat (length vs), p3)"
    "decode_uvarint data p3 = (zigzag_encode (vs ! 0), length (header vs))"
    using decode_header_fields[OF assms(1,4)] .
  moreover have "length data \<noteq> 0" using assms(4) by simp
  ultimately show ?thesis using assms(2,3)
    by (simp add: decode_int64_def MAX_DELTA_BLOCK_SIZE_def MAX_MINIBLOCK_COUNT_def Let_def)
qed

lemma delta_decode_encode:
  assumes "diffs_fit values" "n \<le> length values" "n \<le> MAX_DELTA_VALUES"
  shows "decode_int64 (encode_int64 values) n = take n values"
proof (cases "n = 0")
  case True
  then show ?thesis by (simp add: decode_int64_def)
next
  case False
  then obtain a vs where v: "values = a # vs" using assms(2) by (cases "values") auto
  have "decode_blocks 4 32 (header values @ encode_blocks [] (deltas_of values)) (length (header values)) a (n - 1)
      = sums a (take (n - 1) (deltas_of values))"
    using assms no_overflow_deltas[of a vs] v
    by (intro decode_blocks_encode no_overflow_take) auto
  also have "\<dots> = take (n - 1) vs" unfolding sums_take v sums_deltas by (rule refl)
  finally have b: "decode_blocks 4 32 (encode_int64 values) (length (header values)) a (n - 1) = take (n - 1) vs"
    using encode_int64_bytes[of "values"] v by simp
  have "decode_int64 (encode_int64 values) n
      = (if n = 1 then [a] else a # decode_blocks 4 32 (encode_int64 values) (length (header values)) a (n - 1))"
    using decode_int64_header[of "values" n "encode_int64 values" "encode_blocks [] (deltas_of values)"]
      encode_int64_bytes[of "values"] False assms(3) v by simp
  then show ?thesis using b False v by (cases n) auto
qed

text \<open>A pair whose difference does not fit.\<close>

lemma block_of_one: "length (adjusted [d]) = 128" "take 1 (miniblock (adjusted [d]) 0) = [0]"
  by (simp_all add: adjusted_def delta_sizes miniblock_def min_delta_of_def)

lemma delta_pair_lost:
  assumes "\<not> fits64 (sint b - sint a)"
  shows "decode_int64 (encode_int64 [a, b]) 2 = [a]"
proof -
  let ?d = "b - a"
  define adj where "adj = adjusted [?d]"
  define mdz where "mdz = zigzag_encode ?d"
  define ws where "ws = map (miniblock_width adj) [0..<4]"
  let ?h = "header [a, b]"
  have bytes: "encode_int64 [a, b] = ?h @ leb (unat mdz) @ ws @ packs adj [0..<4]"
    by (simp add: encode_int64_bytes deltas_of_def encode_blocks_step block_bytes_def adj_def mdz_def ws_def
        min_delta_of_def) (simp add: encode_blocks_unfold)
  let ?data = "?h @ leb (unat mdz) @ ws @ packs adj [0..<4]"
  have d1: "decode_uvarint ?data (length ?h) = (mdz, length ?h + length (leb (unat mdz)))"
    by (rule decode_uvarint_leb)
  have lw: "length ws = 4" by (simp add: ws_def)
  have d2: "read_widths 4 ?data (length ?h + length (leb (unat mdz))) = (ws, length (?h @ leb (unat mdz) @ ws))"
    using read_widths_bytes[of ws "?h @ leb (unat mdz)" "packs adj [0..<4]"] lw by simp
  have la: "length adj = 128" by (simp add: adj_def block_of_one)
  have w: "\<not> 64 < unat (miniblock_width adj 0)" using miniblock_width_ok(1)[of adj 0] by simp
  define m where "m = miniblock adj 0"
  have m: "length m = 32" "take 1 m = [0]"
    using la block_of_one[of ?d] by (simp_all add: m_def length_miniblock adj_def)
  have pk: "packs adj [0..<4] = bit_pack_values [] m (unat (miniblock_width adj 0)) @ packs adj [1..<4]"
    by (simp add: packs_def m_def upt_conv_Cons)
  have u: "unpack_miniblock ?data (length (?h @ leb (unat mdz) @ ws)) 32 (unat (miniblock_width adj 0))
      = (m, length (?h @ leb (unat mdz) @ ws) + length (bit_pack_values [] m (unat (miniblock_width adj 0))))"
    using unpack_miniblock_pack[OF m(1), of "unat (miniblock_width adj 0)" "?h @ leb (unat mdz) @ ws" "packs adj [1..<4]"]
      miniblock_width_ok(1)[of adj 0] miniblock_width_ok(2)[of _ adj 0] unfolding pk m_def by auto
  have ws0: "ws = miniblock_width adj 0 # map (miniblock_width adj) [1..<4]"
    by (simp add: ws_def upt_conv_Cons)
  have "decode_miniblocks ws 32 (zigzag_decode mdz) ?data (length (?h @ leb (unat mdz) @ ws)) a 1 = ([], None)"
  proof -
    have gen: "decode_miniblocks (miniblock_width adj 0 # wss) 32 ?d dat pos a 1 = ([], None)"
      if "unpack_miniblock dat pos 32 (unat (miniblock_width adj 0)) = (m, p)" for wss dat pos p
      using that w m(2) assms by (simp add: add_overflow_diff)
    have z: "zigzag_decode mdz = ?d" by (simp add: mdz_def)
    show ?thesis unfolding z by (subst (1) ws0) (rule gen[OF u])
  qed
  then have "decode_blocks 4 32 ?data (length ?h) a 1 = []"
    using d1 d2 by (subst decode_blocks.simps) simp
  then show ?thesis
    using decode_int64_header[of "[a, b]" 2 ?data "leb (unat mdz) @ ws @ packs adj [0..<4]"] bytes
    by (simp add: MAX_DELTA_VALUES_def)
qed

section \<open>32-bit columns\<close>

lemma sint_scast32: "sint (scast (v :: u32) :: u64) = sint v"
  by (simp add: sint_up_scast is_up)

lemma ucast_scast32: "ucast (scast (v :: u32) :: u64) = v"
  by (rule bit_word_eqI) (simp add: bit_access bit_signed_iff)

lemma sint_bounds32: "- (2 ^ 31) \<le> sint (a :: u32)" "sint (a :: u32) < 2 ^ 31"
  using sint_ge[of a] sint_lt[of a] by simp_all

lemma diffs_fit_scast: "diffs_fit (map scast (values :: u32 list))"
proof -
  have "fits64 (sint b - sint a)" for a b :: u32
    using sint_bounds32[of a] sint_bounds32[of b] by (simp add: fits64_def)
  then show ?thesis by (simp add: diffs_fit_def sint_scast32)
qed

section \<open>Properties\<close>

text \<open>
  Property C26: DELTA_BINARY_PACKED loses nothing as long as no two neighbours differ by more than
  an \<^verbatim>\<open>int64_t\<close> can hold: decoding the encoder's output yields the values in order, over any
  number of blocks; asking for fewer yields a prefix.
\<close>

theorem delta_roundtrip:
  assumes "diffs_fit values" "n \<le> length values" "n \<le> MAX_DELTA_VALUES"
  shows "decode_int64 (encode_int64 values) n = take n values"
  using assms by (rule delta_decode_encode)

theorem delta_roundtrip_witness:
  "decode_int64 (encode_int64 [1700000000, 1700000001, - 5, 7]) 3 = [1700000000, 1700000001, - 5]"
  using delta_roundtrip[of "[1700000000, 1700000001, - 5, 7]" 3]
  by (simp add: MAX_DELTA_VALUES_def diffs_fit_Cons fits64_def) (simp add: diffs_fit_def)

text \<open>
  For \<^verbatim>\<open>int32_t\<close> columns the round trip is unconditional (32-bit values widened to 64
  bits cannot differ by too much, and the decoder's range check never fires on encoder output).
\<close>

theorem delta32_roundtrip:
  assumes "n \<le> length values" "n \<le> MAX_DELTA_VALUES"
  shows "decode_int32 (encode_int32 values) n = take n values"
proof -
  have "decode_int64 (encode_int32 values) n = take n (map scast values)"
    unfolding encode_int32_def using assms diffs_fit_scast by (intro delta_decode_encode) auto
  moreover have "\<not> (\<exists>v \<in> set (take n (map scast values :: u64 list)). sint v < - (2 ^ 31) \<or> sint v > 2 ^ 31 - 1)"
  proof -
    have "\<not> (sint (scast v :: u64) < - (2 ^ 31) \<or> sint (scast v :: u64) > 2 ^ 31 - 1)" for v :: u32
      using sint_bounds32[of v] by (simp add: sint_scast32)
    then show ?thesis by (auto dest!: in_set_takeD)
  qed
  ultimately show ?thesis
    by (simp only: decode_int32_def Let_def if_False take_map[symmetric] map_map comp_def ucast_scast32)
      (simp add: take_map)
qed

theorem delta32_roundtrip_witness:
  "decode_int32 (encode_int32 [- 2147483648, 2147483647, 0]) 3 = [- 2147483648, 2147483647, 0]"
  using delta32_roundtrip[of 3 "[- 2147483648, 2147483647, 0]"] by (simp add: MAX_DELTA_VALUES_def)

text \<open>
  The encoder accepts, and its own decoder cuts short, values whose difference wraps.
  A pair of values with a difference outside \<^verbatim>\<open>int64_t\<close> decodes to its first value alone.
\<close>

theorem delta_wrapped_difference_lost:
  assumes "sint b - sint a \<ge> 2 ^ 63 \<or> sint b - sint a < - (2 ^ 63)"
  shows "decode_int64 (encode_int64 [a, b]) 2 = [a]"
  using assms by (intro delta_pair_lost) (auto simp: fits64_def)

theorem delta_wrapped_difference_lost_witness:
  "decode_int64 (encode_int64 [0x8000000000000000, 0x7FFFFFFFFFFFFFFF]) 2 = [0x8000000000000000]"
  by (rule delta_wrapped_difference_lost) simp

end
