(* ===== verification/Dictionary.thy ===== *)
theory Dictionary
  imports Rle
begin

text \<open>
  Dictionary encoding (\<^verbatim>\<open>encoding/dictionary.hpp\<close>): the PLAIN value codecs of a dictionary page,
  \<^verbatim>\<open>DictionaryEncoder<T>\<close> and \<^verbatim>\<open>DictionaryDecoder<T>\<close>.  The template parameter becomes three
  arguments: the PLAIN writer, the PLAIN reader and the key equality \<open>eqv\<close> the
  \<^verbatim>\<open>std::unordered_map\<close> compares with (\<open>=\<close> on integers and strings, IEEE equality on
  \<^verbatim>\<open>float\<close> and \<^verbatim>\<open>double\<close>, which are represented by their bit patterns).  The map is an
  association list, searched by \<open>eqv\<close>.
\<close>

section \<open>PLAIN values\<close>

text \<open>\<^verbatim>\<open>None\<close> is the \<^verbatim>\<open>std::length_error\<close> of a string over 4 GB.\<close>

definition plain_encode_string :: "bytes \<Rightarrow> bytes \<Rightarrow> bytes option" where
  "plain_encode_string buf val =
     (if length val > 2 ^ 32 - 1 then None
      else let len = (of_nat (length val) :: u32)
           in Some (buf @ [ucast (len AND 0xFF), ucast (drop_bit 8 len AND 0xFF),
                           ucast (drop_bit 16 len AND 0xFF), ucast (drop_bit 24 len AND 0xFF)] @ val))"

definition plain_encode_int32 :: "bytes \<Rightarrow> u32 \<Rightarrow> bytes option" where
  "plain_encode_int32 buf bits =
     Some (buf @ [ucast (bits AND 0xFF), ucast (drop_bit 8 bits AND 0xFF),
                  ucast (drop_bit 16 bits AND 0xFF), ucast (drop_bit 24 bits AND 0xFF)])"

fun push_le :: "nat \<Rightarrow> bytes \<Rightarrow> u64 \<Rightarrow> bytes" where
  "push_le 0 buf bits = buf"
| "push_le (Suc n) buf bits = push_le n (buf @ [ucast (bits AND 0xFF)]) (drop_bit 8 bits)"

definition plain_encode_int64 :: "bytes \<Rightarrow> u64 \<Rightarrow> bytes option" where
  "plain_encode_int64 buf bits = Some (push_le 8 buf bits)"

definition plain_encode_float :: "bytes \<Rightarrow> u32 \<Rightarrow> bytes option" where
  "plain_encode_float buf bits =
     Some (buf @ [ucast (bits AND 0xFF), ucast (drop_bit 8 bits AND 0xFF),
                  ucast (drop_bit 16 bits AND 0xFF), ucast (drop_bit 24 bits AND 0xFF)])"

definition plain_encode_double :: "bytes \<Rightarrow> u64 \<Rightarrow> bytes option" where
  "plain_encode_double buf bits = Some (push_le 8 buf bits)"

text \<open>The readers: a value and the new position; a short buffer yields the default value.\<close>

definition plain_decode_string :: "bytes \<Rightarrow> nat \<Rightarrow> bytes \<times> nat" where
  "plain_decode_string data pos =
     (if pos + 4 > length data then ([], pos)
      else let len = unat (of_le (take 4 (drop pos data)) :: u32); pos = pos + 4
           in if pos + len > length data then ([], pos)
              else (take len (drop pos data), pos + len))"

definition plain_decode_int32 :: "bytes \<Rightarrow> nat \<Rightarrow> u32 \<times> nat" where
  "plain_decode_int32 data pos =
     (if pos + 4 > length data then (0, pos) else (of_le (take 4 (drop pos data)), pos + 4))"

definition plain_decode_int64 :: "bytes \<Rightarrow> nat \<Rightarrow> u64 \<times> nat" where
  "plain_decode_int64 data pos =
     (if pos + 8 > length data then (0, pos) else (of_le (take 8 (drop pos data)), pos + 8))"

definition plain_decode_float :: "bytes \<Rightarrow> nat \<Rightarrow> u32 \<times> nat" where
  "plain_decode_float data pos =
     (if pos + 4 > length data then (0, pos) else (of_le (take 4 (drop pos data)), pos + 4))"

definition plain_decode_double :: "bytes \<Rightarrow> nat \<Rightarrow> u64 \<times> nat" where
  "plain_decode_double data pos =
     (if pos + 8 > length data then (0, pos) else (of_le (take 8 (drop pos data)), pos + 8))"

text \<open>\<^verbatim>\<open>==\<close> on \<^verbatim>\<open>double\<close>, over bit patterns: a NaN equals nothing, the two zeros are equal.\<close>

definition double_nan :: "u64 \<Rightarrow> bool" where
  "double_nan x \<longleftrightarrow> drop_bit 52 x AND 0x7FF = 0x7FF \<and> x AND 0xFFFFFFFFFFFFF \<noteq> 0"

definition double_eq :: "u64 \<Rightarrow> u64 \<Rightarrow> bool" where
  "double_eq x y \<longleftrightarrow> \<not> double_nan x \<and> \<not> double_nan y \<and> (x = y \<or> push_bit 1 x = 0 \<and> push_bit 1 y = 0)"

section \<open>The encoder\<close>

record 'v dict_encoder =
  dict_map :: "('v \<times> u32) list"
  dict_values :: "'v list"
  indices :: "u32 list"

definition MAX_DICTIONARY_ENTRIES :: nat where
  "MAX_DICTIONARY_ENTRIES = 2 ^ 20"

definition dict_encoder_new :: "'v dict_encoder" where
  "dict_encoder_new = \<lparr>dict_map = [], dict_values = [], indices = []\<rparr>"

definition is_full :: "'v dict_encoder \<Rightarrow> bool" where
  "is_full e \<longleftrightarrow> length (dict_values e) \<ge> MAX_DICTIONARY_ENTRIES"

definition dict_put :: "('v \<Rightarrow> 'v \<Rightarrow> bool) \<Rightarrow> 'v dict_encoder \<Rightarrow> 'v \<Rightarrow> bool \<times> 'v dict_encoder" where
  "dict_put eqv e value =
     (case find (\<lambda>(k, i). eqv k value) (dict_map e) of
        None \<Rightarrow>
          if length (dict_values e) \<ge> MAX_DICTIONARY_ENTRIES then (False, e)
          else let index = of_nat (length (dict_values e))
               in (True, e\<lparr>dict_map := dict_map e @ [(value, index)],
                          dict_values := dict_values e @ [value],
                          indices := indices e @ [index]\<rparr>)
      | Some (k, index) \<Rightarrow> (True, e\<lparr>indices := indices e @ [index]\<rparr>))"

function bits_loop :: "nat \<Rightarrow> nat \<Rightarrow> nat" where
  "bits_loop bits n = (if n > 0 then bits_loop (bits + 1) (n div 2) else bits)"
  by pat_completeness auto
termination
  by (relation "measure snd") auto

declare bits_loop.simps [simp del]

definition dict_bit_width :: "nat \<Rightarrow> nat" where
  "dict_bit_width dict_size = (if dict_size \<le> 1 then 0 else bits_loop 0 (dict_size - 1))"

definition bit_width :: "'v dict_encoder \<Rightarrow> nat" where
  "bit_width e = dict_bit_width (length (dict_values e))"

text \<open>The page builders; \<open>None\<close> when a value's writer throws.\<close>

fun plain_encode_all :: "(bytes \<Rightarrow> 'v \<Rightarrow> bytes option) \<Rightarrow> bytes \<Rightarrow> 'v list \<Rightarrow> bytes option" where
  "plain_encode_all enc buf [] = Some buf"
| "plain_encode_all enc buf (v # vs) =
     (case enc buf v of None \<Rightarrow> None | Some buf' \<Rightarrow> plain_encode_all enc buf' vs)"

definition dictionary_page :: "(bytes \<Rightarrow> 'v \<Rightarrow> bytes option) \<Rightarrow> 'v dict_encoder \<Rightarrow> bytes option" where
  "dictionary_page enc e = plain_encode_all enc [] (dict_values e)"

definition indices_page :: "'v dict_encoder \<Rightarrow> bytes" where
  "indices_page e =
     (let bw = bit_width e in [of_nat bw] @ rle_encode (indices e) (int bw))"

definition dict_reset :: "'v dict_encoder \<Rightarrow> 'v dict_encoder" where
  "dict_reset e = e\<lparr>dict_map := [], dict_values := [], indices := []\<rparr>"

definition is_worthwhile :: "'v dict_encoder \<Rightarrow> bool" where
  "is_worthwhile e =
     (if indices e = [] then False else length (dict_values e) < length (indices e) * 4 div 10)"

text \<open>A column: every value is put, in order; the results of the calls are collected.\<close>

fun put_all :: "('v \<Rightarrow> 'v \<Rightarrow> bool) \<Rightarrow> 'v dict_encoder \<Rightarrow> 'v list \<Rightarrow> bool \<times> 'v dict_encoder" where
  "put_all eqv e [] = (True, e)"
| "put_all eqv e (v # vs) =
     (case dict_put eqv e v of (ok, e') \<Rightarrow> case put_all eqv e' vs of (ok', e'') \<Rightarrow> (ok \<and> ok', e''))"

section \<open>The decoder\<close>

text \<open>The constructor's loop: the decoded dictionary entries.\<close>

fun dict_decoder_new :: "(bytes \<Rightarrow> nat \<Rightarrow> 'v \<times> nat) \<Rightarrow> bytes \<Rightarrow> nat \<Rightarrow> nat \<Rightarrow> 'v list" where
  "dict_decoder_new dec data pos 0 = []"
| "dict_decoder_new dec data pos (Suc n) =
     (case dec data pos of (v, pos') \<Rightarrow> v # dict_decoder_new dec data pos' n)"

fun lookup_all :: "'v list \<Rightarrow> u32 list \<Rightarrow> 'v list expected" where
  "lookup_all dict [] = Inr []"
| "lookup_all dict (idx # is) =
     (if unat idx \<ge> length dict then Inl CORRUPT_DATA
      else case lookup_all dict is of Inl e \<Rightarrow> Inl e | Inr vs \<Rightarrow> Inr (dict ! unat idx # vs))"

definition dict_decode :: "'v list \<Rightarrow> bytes \<Rightarrow> nat \<Rightarrow> 'v list expected" where
  "dict_decode dict indices_data num_values =
     (if length indices_data = 0 \<or> num_values = 0 then Inr []
      else let bw = unat (indices_data ! 0)
           in lookup_all dict (rle_decode (drop 1 indices_data) (int bw) num_values))"

section \<open>PLAIN values read back\<close>

text \<open>
  The interface the dictionary relies on: a writer that appends and does not throw on a valid
  value, and a reader that inverts it.
\<close>

locale plain_codec = field_codec valid "\<lambda>v. the (enc [] v)" "\<lambda>data pos. Some (dec data pos)"
  for valid :: "'v \<Rightarrow> bool" and enc :: "bytes \<Rightarrow> 'v \<Rightarrow> bytes option" and dec :: "bytes \<Rightarrow> nat \<Rightarrow> 'v \<times> nat" +
  assumes enc_app: "valid v \<Longrightarrow> enc buf v = Some (buf @ the (enc [] v))"
begin

lemma encode_all: "(\<forall>v \<in> set vs. valid v) \<Longrightarrow>
   plain_encode_all enc buf vs = Some (buf @ concat (map (\<lambda>v. the (enc [] v)) vs))"
proof (induction vs arbitrary: buf)
  case (Cons v vs)
  then have "enc buf v = Some (buf @ the (enc [] v))" by (intro enc_app) simp
  with Cons.IH[of "buf @ the (enc [] v)"] Cons.prems show ?case by simp
qed simp

lemma decode_all: "(\<forall>v \<in> set vs. valid v) \<Longrightarrow>
   dict_decoder_new dec (pre @ concat (map (\<lambda>v. the (enc [] v)) vs) @ post) (length pre) (length vs) = vs"
proof (induction vs arbitrary: pre)
  case (Cons v vs)
  have "Some (dec (pre @ the (enc [] v) @ concat (map (\<lambda>v. the (enc [] v)) vs) @ post) (length pre))
      = Some (v, length pre + length (the (enc [] v)))"
    using Cons.prems by (intro dec_enc) simp
  moreover have "dict_decoder_new dec ((pre @ the (enc [] v)) @ concat (map (\<lambda>v. the (enc [] v)) vs) @ post)
      (length (pre @ the (enc [] v))) (length vs) = vs"
    using Cons.prems by (intro Cons.IH) simp
  ultimately show ?case by simp
qed simp

text \<open>The dictionary page as a whole.\<close>

lemma page_roundtrip:
  assumes "\<forall>v \<in> set (dict_values e). valid v"
  shows "\<exists>page. dictionary_page enc e = Some page
    \<and> dict_decoder_new dec page 0 (length (dict_values e)) = dict_values e"
  using encode_all[OF assms, of "[]"] decode_all[OF assms, of "[]" "[]"]
  by (simp add: dictionary_page_def)

end

lemma push_le_to_le: "push_le n buf v = buf @ to_le n v"
proof -
  have "push_le n buf v = write_rle_value n v buf" for n buf v
    by (induction n arbitrary: buf v) simp_all
  then show ?thesis by (simp add: write_rle_value_le)
qed

lemma four_bytes: "[ucast (w AND 0xFF), ucast (drop_bit 8 w AND 0xFF), ucast (drop_bit 16 w AND 0xFF),
    ucast (drop_bit 24 w AND 0xFF)] = to_le 4 w" for w :: u32
  unfolding ucast_low_byte by (rule le_prefix)

lemma plain_encode_le:
  "plain_encode_int32 buf a = Some (buf @ to_le 4 a)" "plain_encode_float buf a = Some (buf @ to_le 4 a)"
  "plain_encode_int64 buf b = Some (buf @ to_le 8 b)" "plain_encode_double buf b = Some (buf @ to_le 8 b)"
  unfolding plain_encode_int32_def plain_encode_float_def plain_encode_int64_def plain_encode_double_def
    four_bytes push_le_to_le by (rule refl)+

lemma plain_encode_string_le:
  "length s \<le> 2 ^ 32 - 1 \<Longrightarrow> plain_encode_string buf s = Some (buf @ to_le 4 (of_nat (length s) :: u32) @ s)"
  unfolding plain_encode_string_def Let_def four_bytes by simp

lemma of_le_to_le4 [simp]: "of_le (to_le 4 (w :: u32)) = w" and of_le_to_le8 [simp]: "of_le (to_le 8 (v :: u64)) = v"
  by (rule of_le_to_le; simp)+

interpretation plain_int32: plain_codec "\<lambda>_. True" plain_encode_int32 plain_decode_int32
  by unfold_locales (simp_all add: plain_encode_le plain_decode_int32_def)

interpretation plain_int64: plain_codec "\<lambda>_. True" plain_encode_int64 plain_decode_int64
  by unfold_locales (simp_all add: plain_encode_le plain_decode_int64_def)

interpretation plain_float: plain_codec "\<lambda>_. True" plain_encode_float plain_decode_float
  by unfold_locales (simp_all add: plain_encode_le plain_decode_float_def)

interpretation plain_double: plain_codec "\<lambda>_. True" plain_encode_double plain_decode_double
  by unfold_locales (simp_all add: plain_encode_le plain_decode_double_def)

definition short_string :: "bytes \<Rightarrow> bool" where
  "short_string s \<longleftrightarrow> length s < 2 ^ 32"

interpretation plain_string: plain_codec short_string plain_encode_string plain_decode_string
proof unfold_locales
  fix v pre post :: bytes and buf :: bytes
  assume v: "short_string v"
  then have u: "unat (of_nat (length v) :: u32) = length v"
    unfolding short_string_def unat_of_nat by simp
  have l: "length v \<le> 2 ^ 32 - 1" using v by (simp add: short_string_def)
  note e = plain_encode_string_le[OF l]
  show "Some (plain_decode_string (pre @ the (plain_encode_string [] v) @ post) (length pre))
        = Some (v, length pre + length (the (plain_encode_string [] v)))"
    unfolding e plain_decode_string_def by (simp add: u)
  show "plain_encode_string buf v = Some (buf @ the (plain_encode_string [] v))"
    unfolding e by simp
qed

section \<open>The encoder's invariant\<close>

text \<open>
  \<open>dict_inv eqv e vals\<close>: the map numbers the dictionary entries in order, every index is in range,
  and index by index the dictionary holds the value that was put, up to \<open>eqv\<close>.
\<close>

definition dict_inv :: "('v \<Rightarrow> 'v \<Rightarrow> bool) \<Rightarrow> 'v dict_encoder \<Rightarrow> 'v list \<Rightarrow> bool" where
  "dict_inv eqv e vals \<longleftrightarrow>
     length (dict_values e) \<le> MAX_DICTIONARY_ENTRIES \<and>
     dict_map e = zip (dict_values e) (map of_nat [0..<length (dict_values e)]) \<and>
     length (indices e) = length vals \<and>
     (\<forall>i < length vals. unat (indices e ! i) < length (dict_values e) \<and>
        (dict_values e ! unat (indices e ! i) = vals ! i \<or> eqv (dict_values e ! unat (indices e ! i)) (vals ! i)))"

lemma dict_inv_new: "dict_inv eqv dict_encoder_new []"
  by (simp add: dict_inv_def dict_encoder_new_def)

lemma find_zip:
  assumes "find (\<lambda>(k, i). P k) (zip vs (map f [0..<length vs])) = Some (k, i)"
  shows "\<exists>j < length vs. i = f j \<and> k = vs ! j \<and> P (vs ! j)"
  using assms by (auto simp: find_Some_iff)

lemma unat_index: "j \<le> MAX_DICTIONARY_ENTRIES \<Longrightarrow> unat (of_nat j :: u32) = j"
  unfolding unat_of_nat MAX_DICTIONARY_ENTRIES_def by simp

lemma dict_put_inv:
  assumes inv: "dict_inv eqv e vals" and put: "dict_put eqv e v = (True, e')"
  shows "dict_inv eqv e' (vals @ [v])"
proof (cases "find (\<lambda>(k, i). eqv k v) (dict_map e)")
  case None
  then have n: "length (dict_values e) < MAX_DICTIONARY_ENTRIES"
    and e': "e' = e\<lparr>dict_map := dict_map e @ [(v, of_nat (length (dict_values e)))],
        dict_values := dict_values e @ [v], indices := indices e @ [of_nat (length (dict_values e))]\<rparr>"
    using put by (auto simp: dict_put_def Let_def split: if_splits)
  then show ?thesis using inv n unat_index[of "length (dict_values e)"]
    by (auto simp: dict_inv_def nth_append less_Suc_eq)
next
  case (Some ki)
  obtain k i where ki: "ki = (k, i)" by fastforce
  from find_zip[of "\<lambda>k. eqv k v" "dict_values e" of_nat k i] Some inv ki
  obtain j where j: "j < length (dict_values e)" "i = of_nat j" "eqv (dict_values e ! j) v"
    by (auto simp: dict_inv_def)
  have "unat i = j" using j inv unat_index[of j] by (simp add: dict_inv_def)
  moreover have "e' = e\<lparr>indices := indices e @ [i]\<rparr>" using put Some ki by (simp add: dict_put_def)
  ultimately show ?thesis using inv j by (auto simp: dict_inv_def nth_append less_Suc_eq)
qed

lemma put_all_inv:
  "dict_inv eqv e vals \<Longrightarrow> put_all eqv e vs = (True, e') \<Longrightarrow> dict_inv eqv e' (vals @ vs)"
proof (induction vs arbitrary: e vals)
  case (Cons v vs)
  from Cons.prems(2) obtain e1 where e1: "dict_put eqv e v = (True, e1)" "put_all eqv e1 vs = (True, e')"
    by (auto split: prod.splits)
  from Cons.IH[OF dict_put_inv[OF Cons.prems(1) e1(1)] e1(2)] show ?case by simp
qed simp

section \<open>The index width\<close>

lemma bits_loop_spec: "n < 2 ^ (bits_loop b n - b) \<and> b \<le> bits_loop b n"
proof (induction b n rule: bits_loop.induct)
  case (1 b n)
  show ?case
  proof (cases "n > 0")
    case True
    let ?r = "bits_loop (b + 1) (n div 2)"
    have IH: "n div 2 < 2 ^ (?r - (b + 1))" "b + 1 \<le> ?r" using 1 True by auto
    then have r: "?r - b = Suc (?r - (b + 1))" by simp
    have k: "n div 2 < k \<Longrightarrow> n < 2 * k" for k by linarith
    have "n < 2 ^ (?r - b)" unfolding r power_Suc by (rule k[OF IH(1)])
    with IH(2) True show ?thesis by (subst (1 2) bits_loop.simps) simp
  qed (simp add: bits_loop.simps)
qed

lemma bits_loop_le: "n < 2 ^ k \<Longrightarrow> bits_loop b n \<le> b + k"
proof (induction k arbitrary: b n)
  case 0
  then show ?case by (subst bits_loop.simps) simp
next
  case (Suc k)
  then have "n div 2 < 2 ^ k" by auto
  from Suc.IH[OF this, of "b + 1"] show ?case by (subst bits_loop.simps) simp
qed

lemma dict_bit_width_fits: "i < n \<Longrightarrow> i < 2 ^ dict_bit_width n"
  using bits_loop_spec[of "n - 1" 0] by (cases "n \<le> 1") (auto simp: dict_bit_width_def)

lemma dict_bit_width_le: "n \<le> 2 ^ k \<Longrightarrow> dict_bit_width n \<le> k"
  using bits_loop_le[of "n - 1" k 0] by (auto simp: dict_bit_width_def)

section \<open>The column round trip\<close>

lemma lookup_all_Inr:
  "(\<forall>i \<in> set is. unat i < length dict) \<Longrightarrow> lookup_all dict is = Inr (map (\<lambda>i. dict ! unat i) is)"
  by (induction "is") auto

lemma lookup_all_cases:
  "lookup_all dict is = (if \<forall>i \<in> set is. unat i < length dict
     then Inr (map (\<lambda>i. dict ! unat i) is) else Inl CORRUPT_DATA)"
  by (induction "is") auto

lemma indices_page_decode:
  assumes inv: "dict_inv eqv e vals" and len: "length vals \<le> MAX_BP_VALUES" and n: "n \<le> length vals"
  shows "dict_decode (dict_values e) (indices_page e) n = Inr (map (\<lambda>i. dict_values e ! unat i) (take n (indices e)))"
proof -
  let ?bw = "bit_width e"
  have li: "length (indices e) = length vals" using inv by (simp add: dict_inv_def)
  have range: "\<forall>i \<in> set (indices e). unat i < length (dict_values e)"
    using inv by (auto simp: dict_inv_def in_set_conv_nth)
  have bw: "?bw \<le> 20"
    using inv dict_bit_width_le[of "length (dict_values e)" 20]
    by (simp add: dict_inv_def bit_width_def MAX_DICTIONARY_ENTRIES_def)
  then have u: "unat (of_nat ?bw :: u8) = ?bw" unfolding unat_of_nat by simp
  have fit: "\<forall>i \<in> set (indices e). unat i < 2 ^ nat (int ?bw)"
    using range dict_bit_width_fits by (auto simp: bit_width_def)
  have "rle_decode (rle_encode (indices e) (int ?bw)) (int ?bw) n = take n (indices e)"
    using bw li len n fit by (intro rle_encode_decode) auto
  moreover have "lookup_all (dict_values e) (take n (indices e)) = Inr (map (\<lambda>i. dict_values e ! unat i) (take n (indices e)))"
    using range by (intro lookup_all_Inr) (auto dest: in_set_takeD)
  ultimately show ?thesis
    by (simp add: dict_decode_def indices_page_def Let_def u)
qed

text \<open>What comes back is what was put, up to the key equality.\<close>

lemma dict_column:
  assumes "put_all eqv dict_encoder_new vals = (True, e)" "length vals \<le> MAX_BP_VALUES"
  shows "\<exists>out. dict_decode (dict_values e) (indices_page e) (length vals) = Inr out
    \<and> list_all2 (\<lambda>a b. a = b \<or> eqv a b) out vals"
proof -
  have inv: "dict_inv eqv e vals" using put_all_inv[OF dict_inv_new assms(1)] by simp
  have li: "length (indices e) = length vals" using inv by (simp add: dict_inv_def)
  have "list_all2 (\<lambda>a b. a = b \<or> eqv a b) (map (\<lambda>i. dict_values e ! unat i) (indices e)) vals"
    using inv by (auto simp: dict_inv_def list_all2_conv_all_nth)
  then show ?thesis using indices_page_decode[OF inv assms(2) order_refl] li by simp
qed

lemma put_values: "dict_put eqv e v = (ok, e') \<Longrightarrow> set (dict_values e') \<subseteq> insert v (set (dict_values e))"
  by (auto simp: dict_put_def Let_def split: option.splits prod.splits if_splits)

lemma put_all_values: "put_all eqv e vs = (ok, e') \<Longrightarrow> set (dict_values e') \<subseteq> set vs \<union> set (dict_values e)"
proof (induction vs arbitrary: e ok)
  case (Cons v vs)
  then obtain ok1 e1 ok2 where e1: "dict_put eqv e v = (ok1, e1)" "put_all eqv e1 vs = (ok2, e')"
    by (auto split: prod.splits)
  from put_values[OF e1(1)] Cons.IH[OF e1(2)] show ?case by auto
qed simp

section \<open>The dictionary holds each value once\<close>

lemma find_key:
  "find (\<lambda>(k, i). k = v) (zip vs (map f [0..<length vs])) = None \<longleftrightarrow> v \<notin> set vs"
proof -
  have "set (zip vs (map f [0..<length vs])) = {(vs ! i, f i) | i. i < length vs}"
    by (auto simp: set_zip)
  then show ?thesis by (auto simp: find_None_iff in_set_conv_nth)
qed

lemma put_distinct:
  assumes "dict_inv (=) e vals" "distinct (dict_values e)" "set (dict_values e) = set vals"
    and "dict_put (=) e v = (True, e')"
  shows "distinct (dict_values e') \<and> set (dict_values e') = set (vals @ [v])"
  using assms find_key[of v "dict_values e" "of_nat :: nat \<Rightarrow> u32"]
  by (cases "v \<in> set (dict_values e)")
    (auto simp: dict_put_def dict_inv_def Let_def split: option.splits if_splits)

lemma put_all_distinct:
  "dict_inv (=) e vals \<Longrightarrow> distinct (dict_values e) \<Longrightarrow> set (dict_values e) = set vals \<Longrightarrow>
   put_all (=) e vs = (True, e') \<Longrightarrow> distinct (dict_values e') \<and> set (dict_values e') = set (vals @ vs)"
proof (induction vs arbitrary: e vals)
  case (Cons v vs)
  from Cons.prems(4) obtain e1 where e1: "dict_put (=) e v = (True, e1)" "put_all (=) e1 vs = (True, e')"
    by (auto split: prod.splits)
  note d = put_distinct[OF Cons.prems(1-3) e1(1)]
  from Cons.IH[OF dict_put_inv[OF Cons.prems(1) e1(1)] _ _ e1(2)] d show ?case by simp
qed simp

text \<open>It refuses a value only when it is full and the value is new; it is then unchanged.\<close>

lemma put_refused:
  assumes "dict_inv (=) e vals"
  shows "fst (dict_put (=) e v) = (v \<in> set (dict_values e) \<or> \<not> is_full e)"
    "\<not> fst (dict_put (=) e v) \<Longrightarrow> snd (dict_put (=) e v) = e"
  using assms find_key[of v "dict_values e" "of_nat :: nat \<Rightarrow> u32"]
  by (auto simp: dict_put_def dict_inv_def is_full_def Let_def split: option.splits)

section \<open>Properties\<close>

text \<open>
  Property C27: a dictionary-encoded string column survives: the dictionary page and the indices
  page that the encoder emits after accepting every value decode to exactly those values, in order.
\<close>

theorem dictionary_string_roundtrip:
  assumes "put_all (=) dict_encoder_new vals = (True, e)"
    and "\<forall>s \<in> set vals. length s < 2 ^ 32" "length vals \<le> MAX_BP_VALUES"
  shows "\<exists>page. dictionary_page plain_encode_string e = Some page
    \<and> dict_decode (dict_decoder_new plain_decode_string page 0 (length (dict_values e)))
        (indices_page e) (length vals) = Inr vals"
proof -
  have "\<forall>s \<in> set (dict_values e). short_string s"
    using put_all_values[OF assms(1)] assms(2) by (auto simp: dict_encoder_new_def short_string_def)
  from plain_string.page_roundtrip[OF this] obtain page where
    "dictionary_page plain_encode_string e = Some page"
    "dict_decoder_new plain_decode_string page 0 (length (dict_values e)) = dict_values e" by blast
  moreover have "dict_decode (dict_values e) (indices_page e) (length vals) = Inr vals"
    using dict_column[OF assms(1,3)] by (auto simp: list_all2_eq[symmetric])
  ultimately show ?thesis by simp
qed

theorem dictionary_string_roundtrip_witness:
  "\<exists>e page. put_all (=) dict_encoder_new [[65], [], [65], [66, 67]] = (True, e)
    \<and> dictionary_page plain_encode_string e = Some page
    \<and> dict_decode (dict_decoder_new plain_decode_string page 0 (length (dict_values e)))
        (indices_page e) 4 = Inr [[65], [], [65], [66, 67]]"
proof -
  have "fst (put_all (=) dict_encoder_new [[65], [], [65], [66, 67 :: u8]])"
    by (simp add: dict_put_def dict_encoder_new_def MAX_DICTIONARY_ENTRIES_def)
  then obtain e where e: "put_all (=) dict_encoder_new [[65], [], [65], [66, 67 :: u8]] = (True, e)"
    by (metis (full_types) prod.collapse)
  have l: "length [[65], [], [65], [66, 67 :: u8]] = 4" by simp
  have h: "\<forall>s \<in> set [[65], [], [65], [66, 67 :: u8]]. length s < 2 ^ 32"
    "length [[65], [], [65], [66, 67 :: u8]] \<le> MAX_BP_VALUES" by (simp_all add: MAX_BP_VALUES_def)
  from dictionary_string_roundtrip[OF e h, unfolded l] e show ?thesis by blast
qed

text \<open>
  A \<^verbatim>\<open>double\<close> column survives up to \<^verbatim>\<open>==\<close>: every decoded value is bit for bit the
  value put (NaNs included) or an \<^verbatim>\<open>==\<close>-equal one.
\<close>

theorem dictionary_double_column:
  assumes "put_all double_eq dict_encoder_new vals = (True, e)" "length vals \<le> MAX_BP_VALUES"
  shows "\<exists>page out. dictionary_page plain_encode_double e = Some page
    \<and> dict_decode (dict_decoder_new plain_decode_double page 0 (length (dict_values e)))
        (indices_page e) (length vals) = Inr out
    \<and> list_all2 (\<lambda>a b. a = b \<or> double_eq a b) out vals"
proof -
  from plain_double.page_roundtrip[of e] obtain page where
    "dictionary_page plain_encode_double e = Some page"
    "dict_decoder_new plain_decode_double page 0 (length (dict_values e)) = dict_values e" by auto
  moreover obtain out where "dict_decode (dict_values e) (indices_page e) (length vals) = Inr out"
    "list_all2 (\<lambda>a b. a = b \<or> double_eq a b) out vals"
    using dict_column[OF assms] by blast
  ultimately show ?thesis by auto
qed

definition neg_zero :: u64 where
  "neg_zero = 0x8000000000000000"

lemma two_zeros:
  "put_all double_eq dict_encoder_new [0, neg_zero]
   = (True, \<lparr>dict_map = [(0, 0)], dict_values = [0], indices = [0, 0]\<rparr>)"
proof -
  have "double_eq 0 neg_zero" by (simp add: double_eq_def double_nan_def neg_zero_def)
  then show ?thesis by (simp add: dict_put_def dict_encoder_new_def MAX_DICTIONARY_ENTRIES_def)
qed

theorem dictionary_double_column_witness:
  "\<exists>e page out. put_all double_eq dict_encoder_new [0, neg_zero] = (True, e)
    \<and> dictionary_page plain_encode_double e = Some page
    \<and> dict_decode (dict_decoder_new plain_decode_double page 0 (length (dict_values e)))
        (indices_page e) 2 = Inr out"
proof -
  have l: "length [0, neg_zero] = 2" by simp
  have h: "length [0, neg_zero] \<le> MAX_BP_VALUES" by (simp add: MAX_BP_VALUES_def)
  from dictionary_double_column[OF two_zeros h, unfolded l] two_zeros show ?thesis by blast
qed

text \<open>
  The \<^verbatim>\<open>==\<close> key comparison loses the sign of zero.  A \<^verbatim>\<open>double\<close> column
  \<open>[0.0, -0.0]\<close> is accepted and decodes to \<open>[0.0, 0.0]\<close>, a different bit pattern.
\<close>

theorem dictionary_loses_negative_zero:
  "\<exists>e. put_all double_eq dict_encoder_new [0, neg_zero] = (True, e)
    \<and> dict_decode (dict_values e) (indices_page e) 2 = Inr [0, 0] \<and> [0, 0] \<noteq> [0, neg_zero]"
proof -
  let ?e = "\<lparr>dict_map = [(0, 0)], dict_values = [0], indices = [0, 0]\<rparr> :: u64 dict_encoder"
  have "dict_inv double_eq ?e [0, neg_zero]" using put_all_inv[OF dict_inv_new two_zeros] by simp
  from indices_page_decode[OF this, of 2]
  have "dict_decode (dict_values ?e) (indices_page ?e) 2 = Inr [0, 0]"
    by (simp add: MAX_BP_VALUES_def)
  moreover have "neg_zero \<noteq> 0" by (simp add: neg_zero_def)
  ultimately show ?thesis using two_zeros by (auto simp del: put_all.simps)
qed

text \<open>
  With an exact key comparison the dictionary holds each distinct value of the column
  exactly once and nothing else, and numbers at most a million entries.
\<close>

theorem dictionary_minimal:
  assumes "put_all (=) dict_encoder_new vals = (True, e)"
  shows "distinct (dict_values e) \<and> set (dict_values e) = set vals
    \<and> length (dict_values e) \<le> MAX_DICTIONARY_ENTRIES \<and> length (indices e) = length vals"
  using put_all_distinct[OF dict_inv_new _ _ assms] put_all_inv[OF dict_inv_new assms]
  by (simp add: dict_encoder_new_def dict_inv_def)

theorem dictionary_minimal_witness:
  "\<exists>e. put_all (=) dict_encoder_new [3, 3, 4 :: u32] = (True, e) \<and> set (dict_values e) = {3, 4}"
proof -
  have "fst (put_all (=) dict_encoder_new [3, 3, 4 :: u32])"
    by (simp add: dict_put_def dict_encoder_new_def MAX_DICTIONARY_ENTRIES_def)
  then obtain e where e: "put_all (=) dict_encoder_new [3, 3, 4 :: u32] = (True, e)"
    by (metis (full_types) prod.collapse)
  with dictionary_minimal[OF e] show ?thesis by auto
qed

text \<open>
  The decoder never returns a value that is not in the dictionary: on any indices page
  it either reports \<open>CORRUPT_DATA\<close>, exactly when one of the decoded indices is out of range, or
  returns dictionary entries, at most as many as were asked for.
\<close>

theorem dict_decode_checked:
  "dict_decode dict page n = Inl CORRUPT_DATA \<and>
     (\<exists>i \<in> set (rle_decode (drop 1 page) (int (unat (page ! 0))) n). unat i \<ge> length dict)
   \<or> (\<exists>out. dict_decode dict page n = Inr out \<and> set out \<subseteq> set dict)"
proof (cases "length page = 0 \<or> n = 0")
  case True
  then show ?thesis by (auto simp: dict_decode_def)
next
  case False
  then show ?thesis by (auto simp: dict_decode_def Let_def lookup_all_cases not_less)
qed

end
