(* ===== verification/ByteStreamSplit.thy ===== *)
theory ByteStreamSplit
  imports Prelude
begin

text \<open>
  BYTE_STREAM_SPLIT (\<^verbatim>\<open>encoding/byte_stream_split.hpp\<close>).  A \<^verbatim>\<open>float\<close> or \<^verbatim>\<open>double\<close> is its bit
  pattern; reinterpreting an array of them as bytes is the concatenation of their little-endian
  bytes (the header asserts a little-endian platform).  The nested loops are folds of single-byte
  writes into the output buffer, in the order of the code.
\<close>

definition SIZE_MAX :: nat where "SIZE_MAX = 2 ^ 64 - 1"

text \<open>\<^verbatim>\<open>reinterpret_cast<const uint8_t*>(values)\<close> and back.\<close>

definition raw_bytes :: "nat \<Rightarrow> 'a::len word list \<Rightarrow> bytes" where
  "raw_bytes width values = concat (map (to_le width) values)"

definition from_raw :: "nat \<Rightarrow> nat \<Rightarrow> bytes \<Rightarrow> 'a::len word list" where
  "from_raw width count bs = map (\<lambda>i. of_le (take width (drop (i * width) bs))) [0..<count]"

text \<open>The encoder's loops: \<^verbatim>\<open>dst[i] = src[i * WIDTH + b]\<close> with \<^verbatim>\<open>dst = out + b * count\<close>.\<close>

definition split_loop :: "nat \<Rightarrow> nat \<Rightarrow> bytes \<Rightarrow> bytes \<Rightarrow> bytes" where
  "split_loop width count src out =
     fold (\<lambda>b out. fold (\<lambda>i out. out[b * count + i := src ! (i * width + b)]) [0..<count] out) [0..<width] out"

text \<open>The decoder's loops: \<^verbatim>\<open>dst[i * WIDTH + b] = src[i]\<close> with \<^verbatim>\<open>src = data + b * count\<close>.\<close>

definition merge_loop :: "nat \<Rightarrow> nat \<Rightarrow> bytes \<Rightarrow> bytes \<Rightarrow> bytes" where
  "merge_loop width count data dst =
     fold (\<lambda>b dst. fold (\<lambda>i dst. dst[i * width + b := data ! (b * count + i)]) [0..<count] dst) [0..<width] dst"

definition encode_float :: "u32 list \<Rightarrow> bytes" where
  "encode_float values =
     (let count = length values in
      if count > SIZE_MAX div 4 then []
      else let out = replicate (count * 4) 0
           in if count = 0 then out else split_loop 4 count (raw_bytes 4 values) out)"

definition encode_double :: "u64 list \<Rightarrow> bytes" where
  "encode_double values =
     (let count = length values in
      if count > SIZE_MAX div 8 then []
      else let out = replicate (count * 8) 0
           in if count = 0 then out else split_loop 8 count (raw_bytes 8 values) out)"

definition decode_float :: "bytes \<Rightarrow> nat \<Rightarrow> u32 list" where
  "decode_float data count =
     (if count > SIZE_MAX div 4 \<or> count * 4 > length data then []
      else if count = 0 then []
      else from_raw 4 count (merge_loop 4 count data (replicate (count * 4) 0)))"

definition decode_double :: "bytes \<Rightarrow> nat \<Rightarrow> u64 list" where
  "decode_double data count =
     (if count > SIZE_MAX div 8 \<or> count * 8 > length data then []
      else if count = 0 then []
      else from_raw 8 count (merge_loop 8 count data (replicate (count * 8) 0)))"

section \<open>Folds of writes to distinct places\<close>

lemma length_fold_writes [simp]: "length (fold (\<lambda>i d. d[f i := g i]) is d) = length d"
  by (induction "is" arbitrary: d) simp_all

lemma nth_fold_other: "k \<notin> f ` set is \<Longrightarrow> fold (\<lambda>i d. d[f i := g i]) is d ! k = d ! k"
  by (induction "is" arbitrary: d) auto

lemma nth_fold_writes:
  "inj_on f (set is) \<Longrightarrow> j \<in> set is \<Longrightarrow> f j < length d \<Longrightarrow> fold (\<lambda>i d. d[f i := g i]) is d ! f j = g j"
proof (induction "is" arbitrary: d)
  case (Cons i "is")
  show ?case
  proof (cases "j \<in> set is")
    case True
    then show ?thesis using Cons by (simp add: inj_on_insert)
  next
    case False
    then have "j = i" "f j \<notin> f ` set is" using Cons.prems by (auto simp: inj_on_def)
    then show ?thesis using Cons.prems by (simp add: nth_fold_other)
  qed
qed simp

lemma fold_product:
  "fold (\<lambda>b. fold (\<lambda>i. h b i) xs) ys s = fold (\<lambda>x. h (fst x) (snd x)) (List.product ys xs) s"
  by (induction ys arbitrary: s) (simp_all add: fold_map comp_def)

text \<open>Positions of the split and of the interleaved layout.\<close>

lemma inj_split: "inj_on (\<lambda>x. fst x * n + snd x) ({0..<w} \<times> {0..<n})" for n w :: nat
proof (rule inj_onI)
  fix x y assume "x \<in> {0..<w} \<times> {0..<n}" "y \<in> {0..<w} \<times> {0..<n}" "fst x * n + snd x = fst y * n + snd y"
  then have s: "snd x < n" "snd y < n" "(fst x * n + snd x) div n = (fst y * n + snd y) div n"
    "(fst x * n + snd x) mod n = (fst y * n + snd y) mod n" by auto
  then show "x = y" by (intro prod_eqI) simp_all
qed

lemma inj_merge: "inj_on (\<lambda>x. snd x * w + fst x) ({0..<w} \<times> {0..<n})" for n w :: nat
proof (rule inj_onI)
  fix x y assume "x \<in> {0..<w} \<times> {0..<n}" "y \<in> {0..<w} \<times> {0..<n}" "snd x * w + fst x = snd y * w + fst y"
  then have "fst x < w" "fst y < w" "(snd x * w + fst x) div w = (snd y * w + fst y) div w"
    "(snd x * w + fst x) mod w = (snd y * w + fst y) mod w" by auto
  then show "x = y" by (intro prod_eqI) simp_all
qed

lemma pos_bound: "i < n \<Longrightarrow> b < w \<Longrightarrow> i * w + b < n * w" for n w :: nat
proof -
  assume "i < n" "b < w"
  then have "i * w + b < (i + 1) * w" by simp
  also have "\<dots> \<le> n * w" using \<open>i < n\<close> by (intro mult_le_mono1) simp
  finally show ?thesis .
qed

lemma length_split_loop [simp]: "length (split_loop w n src out) = length out"
  unfolding split_loop_def fold_product by (rule length_fold_writes)

lemma length_merge_loop [simp]: "length (merge_loop w n data dst) = length dst"
  unfolding merge_loop_def fold_product by (rule length_fold_writes)

lemma nth_split_loop:
  assumes "b < w" "i < n" "length out = n * w"
  shows "split_loop w n src out ! (b * n + i) = src ! (i * w + b)"
proof -
  have "b * n + i < length out" using pos_bound[of b w i n] assms by (simp add: mult.commute)
  then show ?thesis
    unfolding split_loop_def fold_product
    using nth_fold_writes[of "\<lambda>x. fst x * n + snd x" "List.product [0..<w] [0..<n]" "(b, i)" out
        "\<lambda>x. src ! (snd x * w + fst x)"] assms inj_split[of n w]
    by simp
qed

lemma nth_merge_loop:
  assumes "b < w" "i < n" "length dst = n * w"
  shows "merge_loop w n data dst ! (i * w + b) = data ! (b * n + i)"
proof -
  have "i * w + b < length dst" using pos_bound[of i n b w] assms by simp
  then show ?thesis
    unfolding merge_loop_def fold_product
    using nth_fold_writes[of "\<lambda>x. snd x * w + fst x" "List.product [0..<w] [0..<n]" "(b, i)" dst
        "\<lambda>x. data ! (fst x * n + snd x)"] assms inj_merge[of w n]
    by simp
qed

lemma merge_split:
  assumes "length src = n * w" "length out = n * w" "length dst = n * w"
  shows "merge_loop w n (split_loop w n src out @ post) dst = src"
proof (rule nth_equalityI)
  fix k assume "k < length (merge_loop w n (split_loop w n src out @ post) dst)"
  then have k: "k < n * w" using assms by simp
  then have w: "w > 0" by (cases w) auto
  define i b where "i = k div w" and "b = k mod w"
  have ib: "i < n" "b < w" "k = i * w + b"
    using k w by (simp_all add: i_def b_def less_mult_imp_div_less)
  have "b * n + i < length (split_loop w n src out)"
    using pos_bound[OF ib(2,1)] assms by (simp add: mult.commute)
  then show "merge_loop w n (split_loop w n src out @ post) dst ! k = src ! k"
    unfolding ib(3) nth_merge_loop[OF ib(2,1) assms(3)]
    by (simp add: nth_append nth_split_loop[OF ib(2,1) assms(2)])
qed (use assms in simp)

section \<open>Reinterpreting arrays\<close>

lemma length_raw_bytes [simp]: "length (raw_bytes w vs) = length vs * w"
  by (induction vs) (simp_all add: raw_bytes_def)

lemma from_raw_bytes:
  fixes vs :: "'a::len word list"
  assumes "LENGTH('a) \<le> 8 * w"
  shows "from_raw w (length vs) (raw_bytes w vs) = vs"
proof -
  have "take w (drop (i * w) (raw_bytes w vs)) = to_le w (vs ! i)" if "i < length vs" for i
    using that
  proof (induction vs arbitrary: i)
    case (Cons v vs)
    then show ?case by (cases i) (simp_all add: raw_bytes_def)
  qed simp
  then show ?thesis unfolding from_raw_def
    by (intro nth_equalityI) (simp_all add: of_le_to_le[OF assms])
qed

section \<open>Properties\<close>

lemma split_decode_encode:
  "length ds \<le> SIZE_MAX div 8 \<Longrightarrow> decode_double (encode_double ds @ post) (length ds) = ds"
  "length fs \<le> SIZE_MAX div 4 \<Longrightarrow> decode_float (encode_float fs @ post) (length fs) = fs"
proof -
  show "decode_double (encode_double ds @ post) (length ds) = ds" if "length ds \<le> SIZE_MAX div 8"
    using that merge_split[of "raw_bytes 8 ds" "length ds" 8 "replicate (length ds * 8) 0"] from_raw_bytes[of 8 ds]
    by (cases "ds = []") (simp_all add: encode_double_def decode_double_def Let_def)
  show "decode_float (encode_float fs @ post) (length fs) = fs" if "length fs \<le> SIZE_MAX div 4"
    using that merge_split[of "raw_bytes 4 fs" "length fs" 4 "replicate (length fs * 4) 0"] from_raw_bytes[of 4 fs]
    by (cases "fs = []") (simp_all add: encode_float_def decode_float_def Let_def)
qed

text \<open>
  BYTE_STREAM_SPLIT is a rearrangement that loses nothing: the encoding of \<open>n\<close>
  \<^verbatim>\<open>double\<close>s or \<^verbatim>\<open>float\<close>s has exactly their size, byte \<open>b\<close> of value \<open>i\<close> stands at \<open>b * n + i\<close>, and
  decoding it (whatever follows in the page) gives back every bit pattern, NaN payloads included.
\<close>

theorem byte_stream_split_roundtrip:
  assumes "length ds \<le> SIZE_MAX div 8" "length fs \<le> SIZE_MAX div 4"
  shows "length (encode_double ds) = 8 * length ds
    \<and> decode_double (encode_double ds @ post) (length ds) = ds
    \<and> (\<forall>i < length ds. \<forall>b < 8. encode_double ds ! (b * length ds + i) = to_le 8 (ds ! i) ! b)
    \<and> length (encode_float fs) = 4 * length fs
    \<and> decode_float (encode_float fs @ post) (length fs) = fs"
proof -
  have raw: "raw_bytes 8 ds ! (i * 8 + b) = to_le 8 (ds ! i) ! b" if "i < length ds" "b < 8" for i b
    using that
  proof (induction ds arbitrary: i)
    case (Cons d ds)
    then show ?case by (cases i) (simp_all add: raw_bytes_def nth_append)
  qed simp
  have "encode_double ds ! (b * length ds + i) = to_le 8 (ds ! i) ! b" if "i < length ds" "b < 8" for i b
    using that assms(1) raw[OF that] nth_split_loop[of b 8 i "length ds" "replicate (length ds * 8) 0" "raw_bytes 8 ds"]
    by (cases "ds = []") (simp_all add: encode_double_def Let_def)
  then show ?thesis using assms split_decode_encode by (simp add: encode_double_def encode_float_def Let_def)
qed

theorem byte_stream_split_roundtrip_witness:
  "decode_double (encode_double [0x3FF0000000000000, 7] @ [1, 2]) 2 = [0x3FF0000000000000, 7]"
proof -
  have l: "length [0x3FF0000000000000, 7 :: u64] = 2" by simp
  from byte_stream_split_roundtrip[of "[0x3FF0000000000000, 7]" "[]" "[1, 2]", unfolded l]
  show ?thesis by (simp add: SIZE_MAX_def)
qed

end
