(* ===== verification/Compression.thy ===== *)
theory Compression
  imports Prelude
begin

text \<open>
  The codec interface and the registry of \<^verbatim>\<open>compression/codec.hpp\<close>.  A \<^verbatim>\<open>CompressionCodec\<close> is a
  record of its two virtual functions; the registry is the finite map from the \<^verbatim>\<open>Compression\<close>
  enumeration of \<^verbatim>\<open>types.hpp\<close> to the registered codec (the mutex that guards it is not modelled:
  every operation is one atomic step).  The locale states what a codec promises, and the
  round trip through \<^verbatim>\<open>compress\<close>/\<^verbatim>\<open>decompress\<close> with all their guards is proved in it once.
\<close>

datatype compression = UNCOMPRESSED | SNAPPY | GZIP | LZO | BROTLI | LZ4 | ZSTD | LZ4_RAW

record codec =
  codec_compress :: "bytes \<Rightarrow> bytes expected"
  codec_decompress :: "bytes \<Rightarrow> nat \<Rightarrow> bytes expected"

type_synonym registry = "compression \<Rightarrow> codec option"

text \<open>\<^verbatim>\<open>register_codec\<close>; \<open>None\<close> is a null \<^verbatim>\<open>unique_ptr\<close>.\<close>

definition register_codec :: "registry \<Rightarrow> (compression \<times> codec) option \<Rightarrow> registry" where
  "register_codec r c = (case c of None \<Rightarrow> r | Some (type, impl) \<Rightarrow> r(type \<mapsto> impl))"

definition get_codec :: "registry \<Rightarrow> compression \<Rightarrow> codec option" where
  "get_codec r type = (case r type of Some c \<Rightarrow> Some c | None \<Rightarrow> None)"

definition has_codec :: "registry \<Rightarrow> compression \<Rightarrow> bool" where
  "has_codec r type = (if type = UNCOMPRESSED then True else r type \<noteq> None)"

definition compress :: "registry \<Rightarrow> compression \<Rightarrow> bytes \<Rightarrow> bytes expected" where
  "compress r codec data =
     (if codec = UNCOMPRESSED then Inr data
      else case get_codec r codec of
        None \<Rightarrow> Inl UNSUPPORTED_COMPRESSION
      | Some impl \<Rightarrow> codec_compress impl data)"

definition MAX_DECOMPRESS_SIZE :: nat where "MAX_DECOMPRESS_SIZE = 256 * 1024 * 1024"
definition MAX_DECOMPRESSION_RATIO :: nat where "MAX_DECOMPRESSION_RATIO = 1024"

definition decompress :: "registry \<Rightarrow> compression \<Rightarrow> bytes \<Rightarrow> nat \<Rightarrow> bytes expected" where
  "decompress r codec data uncompressed_size =
     (if codec = UNCOMPRESSED then Inr data
      else if uncompressed_size > MAX_DECOMPRESS_SIZE then Inl CORRUPT_PAGE
      else if length data = 0 \<and> uncompressed_size > 0 then Inl CORRUPT_PAGE
      else if length data > 0 \<and> uncompressed_size div length data \<ge> MAX_DECOMPRESSION_RATIO then Inl CORRUPT_PAGE
      else case get_codec r codec of
        None \<Rightarrow> Inl UNSUPPORTED_COMPRESSION
      | Some impl \<Rightarrow> codec_decompress impl data uncompressed_size)"

definition auto_select_compression :: "registry \<Rightarrow> compression" where
  "auto_select_compression r =
     (if has_codec r ZSTD then ZSTD
      else if has_codec r SNAPPY then SNAPPY
      else if has_codec r LZ4_RAW then LZ4_RAW
      else if has_codec r LZ4 then LZ4
      else UNCOMPRESSED)"

section \<open>What a codec promises\<close>

locale compression_codec =
  fixes comp :: "bytes \<Rightarrow> bytes expected"
    and decomp :: "bytes \<Rightarrow> nat \<Rightarrow> bytes expected"
    and ratio :: nat
  assumes roundtrip: "comp d = Inr c \<Longrightarrow> length d \<le> MAX_DECOMPRESS_SIZE \<Longrightarrow> decomp c (length d) = Inr d"
    and expansion: "comp d = Inr c \<Longrightarrow> length d \<le> ratio * length c"
begin

text \<open>Through the registry the guards never fire on the codec's own output, if it expands by less than 1024.\<close>

lemma registry_roundtrip:
  assumes reg: "r type = Some \<lparr>codec_compress = comp, codec_decompress = decomp\<rparr>"
    and c: "compress r type d = Inr c" and len: "length d \<le> MAX_DECOMPRESS_SIZE"
    and ratio: "ratio < MAX_DECOMPRESSION_RATIO"
  shows "decompress r type c (length d) = Inr d"
proof (cases "type = UNCOMPRESSED")
  case True
  then show ?thesis using c by (simp add: compress_def decompress_def)
next
  case False
  then have cd: "comp d = Inr c" using c reg by (simp add: compress_def get_codec_def)
  have "length d div length c \<le> ratio" if "0 < length c"
    using expansion[OF cd] that by (metis div_le_mono nonzero_mult_div_cancel_right gr_implies_not0)
  then show ?thesis
    using False reg roundtrip[OF cd len] expansion[OF cd] len ratio
    by (auto simp: decompress_def get_codec_def not_less)
qed

end

text \<open>
  The ratio guard does not ask the codec: a registered codec whose output is 1024 times smaller than
  its input (all that ZSTD or GZIP need is a long constant page) is refused on reading.
\<close>

lemma decompress_ratio_refused:
  assumes "type \<noteq> UNCOMPRESSED" "c \<noteq> []" "1024 * length c \<le> n"
  shows "decompress r type c n = Inl CORRUPT_PAGE"
proof -
  have "1024 \<le> n div length c"
    using assms(2,3) by (metis div_le_mono length_greater_0_conv nonzero_mult_div_cancel_right gr_implies_not0)
  then show ?thesis using assms(1,2) by (simp add: decompress_def MAX_DECOMPRESSION_RATIO_def)
qed

text \<open>\<^verbatim>\<open>auto_select_compression\<close> picks a codec that is there.\<close>

lemma auto_select_available: "has_codec r (auto_select_compression r)"
  by (simp add: auto_select_compression_def has_codec_def)

end
