(* ===== verification/Snappy.thy ===== *)
theory Snappy
  imports Varint Compression
begin

text \<open>
  The bundled Snappy codec (\<^verbatim>\<open>compression/snappy.hpp\<close>): the element emitters, the greedy
  hash-table compressor and the decompressor.  The output vector of the decompressor is modelled
  by the prefix written so far (\<^verbatim>\<open>out_pos\<close> is its length; the code writes it front to back and
  only reads behind \<^verbatim>\<open>out_pos\<close>); an entry \<open>None\<close> of the hash table is the sentinel
  \<^verbatim>\<open>UINT64_MAX\<close>.
\<close>

section \<open>Byte access and hashing\<close>

definition load_le32 :: "bytes \<Rightarrow> nat \<Rightarrow> u32" where
  "load_le32 p i = of_le (take 4 (drop i p))"

definition load_le16 :: "bytes \<Rightarrow> nat \<Rightarrow> u16" where
  "load_le16 p i = of_le (take 2 (drop i p))"

definition hash4 :: "bytes \<Rightarrow> nat \<Rightarrow> u32" where
  "hash4 p i = drop_bit 18 (load_le32 p i * 0x1e35a7bd)"

definition kHashTableSize :: nat where "kHashTableSize = 16384"

section \<open>The emitters\<close>

definition emit_literal :: "bytes \<Rightarrow> bytes \<Rightarrow> bytes" where
  "emit_literal out data =
     (let len = length data; len_minus_1 = (of_nat (len - 1) :: u32) in
      (if len \<le> 60 then out @ [ucast (push_bit 2 len_minus_1)]
       else if len \<le> 256 then out @ [push_bit 2 60, ucast len_minus_1]
       else if len \<le> 65536 then
         out @ [push_bit 2 61, ucast (len_minus_1 AND 0xFF), ucast (drop_bit 8 len_minus_1 AND 0xFF)]
       else if len \<le> 16777216 then
         out @ [push_bit 2 62, ucast (len_minus_1 AND 0xFF), ucast (drop_bit 8 len_minus_1 AND 0xFF),
                ucast (drop_bit 16 len_minus_1 AND 0xFF)]
       else
         out @ [push_bit 2 63, ucast (len_minus_1 AND 0xFF), ucast (drop_bit 8 len_minus_1 AND 0xFF),
                ucast (drop_bit 16 len_minus_1 AND 0xFF), ucast (drop_bit 24 len_minus_1 AND 0xFF)])
      @ data)"

lemma chunk_less:
  fixes n :: u32
  assumes "0 < n"
  shows "unat (n - (if 64 < n then 64 else n)) < unat n"
proof (cases "64 < n")
  case True
  then have "64 \<le> n" by simp
  then have "unat (n - 64) = unat n - 64" by (subst unat_sub) auto
  moreover have "0 < unat n" using assms by (simp add: word_less_nat_alt)
  ultimately show ?thesis using True by simp
next
  case False
  then show ?thesis using assms by (simp add: word_less_nat_alt)
qed

function emit_copy :: "bytes \<Rightarrow> u32 \<Rightarrow> u32 \<Rightarrow> bytes" where
  "emit_copy out offset len =
     (if len > 0 then
        if len \<ge> 4 \<and> len \<le> 11 \<and> offset \<le> 2047 then
          out @ [ucast (push_bit 5 (drop_bit 8 offset) OR push_bit 2 (len - 4) OR 1),
                 ucast (offset AND 0xFF)]
        else if offset \<le> 65535 then
          let chunk = (if len > 64 then 64 else len)
          in emit_copy (out @ [ucast (push_bit 2 (chunk - 1) OR 2), ucast (offset AND 0xFF),
                               ucast (drop_bit 8 offset AND 0xFF)]) offset (len - chunk)
        else
          let chunk = (if len > 64 then 64 else len)
          in emit_copy (out @ [ucast (push_bit 2 (chunk - 1) OR 3), ucast (offset AND 0xFF),
                               ucast (drop_bit 8 offset AND 0xFF), ucast (drop_bit 16 offset AND 0xFF),
                               ucast (drop_bit 24 offset AND 0xFF)]) offset (len - chunk)
      else out)"
  by pat_completeness auto
termination
  by (relation "measure (\<lambda>(out, off, len). unat len)") (use chunk_less in \<open>auto simp: Let_def\<close>)

declare emit_copy.simps [simp del]

text \<open>\<^verbatim>\<open>while (len < limit && src[s1 + len] == src[s2 + len])\<close>, over what is left of the limit.\<close>

fun match_loop :: "nat \<Rightarrow> bytes \<Rightarrow> nat \<Rightarrow> nat \<Rightarrow> nat \<Rightarrow> nat" where
  "match_loop 0 src s1 s2 len = len"
| "match_loop (Suc n) src s1 s2 len =
     (if src ! (s1 + len) = src ! (s2 + len) then match_loop n src s1 s2 (len + 1) else len)"

definition match_length :: "bytes \<Rightarrow> nat \<Rightarrow> nat \<Rightarrow> nat \<Rightarrow> u32" where
  "match_length src s1 s2 src_end =
     (if s1 \<ge> src_end \<or> s2 \<ge> src_end then 0
      else let limit = src_end - (if s1 > s2 then s1 else s2);
               limit = (if limit > 65535 then 65535 else limit)
           in of_nat (match_loop limit src s1 s2 0))"

section \<open>The compressor\<close>

text \<open>\<^verbatim>\<open>while (pos < match_end && pos + 4 <= size)\<close>: hash the positions inside a match.\<close>

function insert_loop :: "bytes \<Rightarrow> nat option list \<Rightarrow> nat \<Rightarrow> nat \<Rightarrow> nat option list" where
  "insert_loop data table pos match_end =
     (if pos < match_end \<and> pos + 4 \<le> length data
      then insert_loop data (table[unat (hash4 data pos) := Some pos]) (pos + 1) match_end
      else table)"
  by pat_completeness auto
termination
  by (relation "measure (\<lambda>(data, t, pos, e). e - pos)") auto

declare insert_loop.simps [simp del]

text \<open>The scan; \<open>ml\<close> is the match length with the code's floor of 4.\<close>

function scan_loop :: "bytes \<Rightarrow> nat option list \<Rightarrow> nat \<Rightarrow> nat \<Rightarrow> bytes \<Rightarrow> nat \<times> bytes" where
  "scan_loop data table pos literal_start out =
     (if pos + 4 \<le> length data then
        let h = unat (hash4 data pos);
            candidate = table ! h;
            table' = table[h := Some pos]
        in case candidate of
             None \<Rightarrow> scan_loop data table' (pos + 1) literal_start out
           | Some c \<Rightarrow>
               if pos - c \<le> 65535 \<and> load_le32 data pos = load_le32 data c then
                 let out1 = (if pos > literal_start
                             then emit_literal out (take (pos - literal_start) (drop literal_start data))
                             else out);
                     ml0 = match_length data pos c (length data);
                     ml = (if ml0 < 4 then 4 else ml0);
                     out2 = emit_copy out1 (of_nat (pos - c)) ml;
                     match_end = pos + unat ml
                 in scan_loop data (insert_loop data table' (pos + 1) match_end) match_end match_end out2
               else scan_loop data table' (pos + 1) literal_start out
      else (literal_start, out))"
  by pat_completeness auto
termination
  by (relation "measure (\<lambda>(data, t, pos, l, out). length data - pos)")
    (auto simp: Let_def word_less_nat_alt split: if_splits)

declare scan_loop.simps [simp del]

definition snappy_compress :: "bytes \<Rightarrow> bytes expected" where
  "snappy_compress data =
     (if length data > 2 ^ 32 - 1 then Inl INTERNAL_ERROR
      else let out = encode_varint32 [] (of_nat (length data))
           in if length data = 0 then Inr out
              else if length data < 4 then Inr (emit_literal out data)
              else case scan_loop data (replicate kHashTableSize None) 0 0 out of
                     (literal_start, out) \<Rightarrow>
                       if literal_start < length data then Inr (emit_literal out (drop literal_start data))
                       else Inr out)"

section \<open>The decompressor\<close>

text \<open>\<^verbatim>\<open>for (i < length) out[out_pos++] = out[src + i]\<close>.\<close>

fun copy_bytes :: "nat \<Rightarrow> nat \<Rightarrow> bytes \<Rightarrow> bytes" where
  "copy_bytes 0 src out = out"
| "copy_bytes (Suc n) src out = copy_bytes n (src + 1) (out @ [out ! src])"

text \<open>The extra length bytes: \<^verbatim>\<open>literal_len |= data[pos++] << (8 * i)\<close>.\<close>

fun read_len :: "nat \<Rightarrow> bytes \<Rightarrow> nat \<Rightarrow> nat \<Rightarrow> u32 \<Rightarrow> u32" where
  "read_len 0 data pos i acc = acc"
| "read_len (Suc n) data pos i acc = read_len n data (pos + 1) (i + 1) (acc OR push_bit (8 * i) (ucast (data ! pos)))"

definition decode_literal :: "bytes \<Rightarrow> nat \<Rightarrow> u8 \<Rightarrow> nat \<Rightarrow> bytes \<Rightarrow> (nat \<times> bytes) expected" where
  "decode_literal data usize tag pos out =
     (let encoded_len_minus_1 = unat (drop_bit 2 tag);
          extra = (if encoded_len_minus_1 \<ge> 60 then encoded_len_minus_1 - 59 else 0)
      in if pos + extra > length data then Inl CORRUPT_PAGE
         else let literal_len = (if encoded_len_minus_1 \<ge> 60 then unat (read_len extra data pos 0 0 + 1)
                                 else encoded_len_minus_1 + 1);
                  pos' = pos + extra
              in if pos' + literal_len > length data then Inl CORRUPT_PAGE
                 else if length out + literal_len > usize then Inl CORRUPT_PAGE
                 else Inr (pos' + literal_len, out @ take literal_len (drop pos' data)))"

text \<open>The checks and the copy that the three copy elements share, after offset and length are read.\<close>

definition do_copy :: "nat \<Rightarrow> u32 \<Rightarrow> u32 \<Rightarrow> nat \<Rightarrow> bytes \<Rightarrow> (nat \<times> bytes) expected" where
  "do_copy usize len offset pos out =
     (if offset = 0 then Inl CORRUPT_PAGE
      else if unat offset > length out then Inl CORRUPT_PAGE
      else if length out + unat len > usize then Inl CORRUPT_PAGE
      else Inr (pos, copy_bytes (unat len) (length out - unat offset) out))"

definition decode_copy1 :: "bytes \<Rightarrow> nat \<Rightarrow> u8 \<Rightarrow> nat \<Rightarrow> bytes \<Rightarrow> (nat \<times> bytes) expected" where
  "decode_copy1 data usize tag pos out =
     (if pos \<ge> length data then Inl CORRUPT_PAGE
      else let len = (ucast (drop_bit 2 tag) AND 0x07) + 4;
               offset = push_bit 8 (ucast (drop_bit 5 tag)) OR ucast (data ! pos)
           in do_copy usize len offset (pos + 1) out)"

definition decode_copy2 :: "bytes \<Rightarrow> nat \<Rightarrow> u8 \<Rightarrow> nat \<Rightarrow> bytes \<Rightarrow> (nat \<times> bytes) expected" where
  "decode_copy2 data usize tag pos out =
     (if pos + 2 > length data then Inl CORRUPT_PAGE
      else do_copy usize (ucast (drop_bit 2 tag) + 1) (ucast (load_le16 data pos)) (pos + 2) out)"

definition decode_copy4 :: "bytes \<Rightarrow> nat \<Rightarrow> u8 \<Rightarrow> nat \<Rightarrow> bytes \<Rightarrow> (nat \<times> bytes) expected" where
  "decode_copy4 data usize tag pos out =
     (if pos + 4 > length data then Inl CORRUPT_PAGE
      else do_copy usize (ucast (drop_bit 2 tag) + 1) (load_le32 data pos) (pos + 4) out)"

text \<open>The \<^verbatim>\<open>switch\<close> on the low two bits of the tag.\<close>

definition decode_element :: "bytes \<Rightarrow> nat \<Rightarrow> nat \<Rightarrow> bytes \<Rightarrow> (nat \<times> bytes) expected" where
  "decode_element data usize pos out =
     (let tag = data ! pos; element_type = tag AND 0x03
      in if element_type = 0 then decode_literal data usize tag (pos + 1) out
         else if element_type = 1 then decode_copy1 data usize tag (pos + 1) out
         else if element_type = 2 then decode_copy2 data usize tag (pos + 1) out
         else decode_copy4 data usize tag (pos + 1) out)"

lemma decode_element_pos: "decode_element data usize pos out = Inr (p, out') \<Longrightarrow> pos < p"
  by (auto simp: decode_element_def decode_literal_def decode_copy1_def decode_copy2_def decode_copy4_def
      do_copy_def Let_def split: if_splits)

function decode_elements :: "bytes \<Rightarrow> nat \<Rightarrow> nat \<Rightarrow> bytes \<Rightarrow> bytes expected" where
  "decode_elements data usize pos out =
     (if pos < length data then
        case decode_element data usize pos out of
          Inl e \<Rightarrow> Inl e
        | Inr (pos', out') \<Rightarrow> decode_elements data usize pos' out'
      else Inr out)"
  by pat_completeness auto
termination
  by (relation "measure (\<lambda>(data, u, pos, out). length data - pos)") (auto dest!: decode_element_pos)

declare decode_elements.simps [simp del]

definition MAX_SNAPPY_DECOMPRESS :: nat where
  "MAX_SNAPPY_DECOMPRESS = 256 * 1024 * 1024"

definition snappy_decompress :: "bytes \<Rightarrow> nat \<Rightarrow> bytes expected" where
  "snappy_decompress data uncompressed_size =
     (if length data = 0 then (if uncompressed_size = 0 then Inr [] else Inl CORRUPT_PAGE)
      else case decode_varint32 data 0 of
        None \<Rightarrow> Inl CORRUPT_PAGE
      | Some (declared_len, pos) \<Rightarrow>
          if unat declared_len \<noteq> uncompressed_size then Inl CORRUPT_PAGE
          else if uncompressed_size > MAX_SNAPPY_DECOMPRESS then Inl CORRUPT_PAGE
          else case decode_elements data uncompressed_size pos [] of
                 Inl e \<Rightarrow> Inl e
               | Inr out \<Rightarrow> if length out \<noteq> uncompressed_size then Inl CORRUPT_PAGE else Inr out)"

section \<open>What one element decodes to\<close>

text \<open>
  \<open>decodes bs out out'\<close>: wherever the bytes \<open>bs\<close> stand in a stream, the decoder that reaches them
  with \<open>out\<close> written leaves them with \<open>out'\<close> written (if \<open>out'\<close> fits the declared size), and they
  expand by less than 22 times.
\<close>

definition decodes :: "bytes \<Rightarrow> bytes \<Rightarrow> bytes \<Rightarrow> bool" where
  "decodes bs out out' \<longleftrightarrow>
     (\<forall>pre post usize. length out' \<le> usize \<longrightarrow>
        decode_elements (pre @ bs @ post) usize (length pre) out
        = decode_elements (pre @ bs @ post) usize (length pre + length bs) out')
     \<and> length out \<le> length out' \<and> length out' - length out \<le> 22 * length bs \<and> length bs \<le> 6 * (length out' - length out)"

lemma decodes_Nil [simp]: "decodes [] out out"
  by (simp add: decodes_def)

lemma decodes_append:
  assumes "decodes a o1 o2" "decodes b o2 o3"
  shows "decodes (a @ b) o1 o3"
proof -
  have l: "length o1 \<le> length o2" "length o2 \<le> length o3" "length o2 - length o1 \<le> 22 * length a"
    "length o3 - length o2 \<le> 22 * length b" "length a \<le> 6 * (length o2 - length o1)" "length b \<le> 6 * (length o3 - length o2)"
    using assms by (simp_all add: decodes_def)
  have "decode_elements (pre @ (a @ b) @ post) usize (length pre) o1
      = decode_elements (pre @ (a @ b) @ post) usize (length pre + length (a @ b)) o3"
    if u: "length o3 \<le> usize" for pre post usize
  proof -
    have "decode_elements (pre @ a @ (b @ post)) usize (length pre) o1
        = decode_elements (pre @ a @ (b @ post)) usize (length pre + length a) o2"
      using assms(1) u l(2) unfolding decodes_def by (metis le_trans)
    moreover have "decode_elements ((pre @ a) @ b @ post) usize (length (pre @ a)) o2
        = decode_elements ((pre @ a) @ b @ post) usize (length (pre @ a) + length b) o3"
      using assms(2) u unfolding decodes_def by blast
    ultimately show ?thesis by (simp add: add.assoc)
  qed
  moreover from l(1,2) obtain m n where "length o2 = length o1 + m" "length o3 = length o1 + m + n"
    by (metis le_Suc_ex)
  then have "length o3 - length o1 \<le> 22 * length (a @ b)" "length (a @ b) \<le> 6 * (length o3 - length o1)"
    using l by simp_all
  ultimately show ?thesis using l by (simp add: decodes_def)
qed

text \<open>An element is known by one step of the decoder.\<close>

lemma decodesI:
  assumes "bs \<noteq> []" "length out \<le> length out'" "length out' - length out \<le> 22 * length bs" "length bs \<le> 6 * (length out' - length out)"
    and "\<And>pre post usize. length out' \<le> usize \<Longrightarrow>
      decode_element (pre @ bs @ post) usize (length pre) out = Inr (length pre + length bs, out')"
  shows "decodes bs out out'"
  unfolding decodes_def using assms(2-4) assms(5)
  by (auto simp: decode_elements.simps[of "_ @ bs @ _" _ "length _" out] assms(1))

section \<open>Literals\<close>

lemma tag_parts:
  assumes "m < 64" "t < 4"
  shows "unat (drop_bit 2 (of_nat (4 * m + t) :: u8)) = m" "unat ((of_nat (4 * m + t) :: u8) AND 3) = t"
proof -
  have u: "unat (of_nat (4 * m + t) :: u8) = 4 * m + t" using assms unfolding unat_of_nat by simp
  show "unat (drop_bit 2 (of_nat (4 * m + t) :: u8)) = m" unfolding unat_drop_bit u using assms by simp
  have "(of_nat (4 * m + t) :: u8) AND 3 = take_bit 2 (of_nat (4 * m + t))"
    by (simp add: take_bit_eq_mask mask_eq_exp_minus_1)
  also have "unat \<dots> = (4 * m + t) mod 4" by (simp only: unsigned_take_bit_eq u) (simp add: take_bit_eq_mod)
  finally show "unat ((of_nat (4 * m + t) :: u8) AND 3) = t" using assms by simp
qed

lemma read_len_of_le:
  "pos + n \<le> length data \<Longrightarrow> read_len n data pos i acc = acc OR push_bit (8 * i) (of_le (take n (drop pos data)))"
proof (induction n data pos i acc rule: read_len.induct)
  case (2 n data pos i acc)
  have d: "drop pos data = data ! pos # drop (Suc pos) data" using 2(2) by (simp add: Cons_nth_drop_Suc)
  have e: "push_bit (8 * i) (of_le (take (Suc n) (drop pos data)) :: u32)
      = push_bit (8 * i) (ucast (data ! pos)) OR push_bit (8 * (i + 1)) (of_le (take n (drop (pos + 1) data)))"
    unfolding d take_Suc_Cons of_le.simps push_bit_or push_bit_push_bit by (simp add: add.commute)
  show ?case using 2 unfolding e by (simp add: or.assoc del: push_bit_of_nat)
qed simp

text \<open>The header of a literal: a tag, and the little-endian length when it does not fit in it.\<close>

definition lit_header :: "nat \<Rightarrow> bytes" where
  "lit_header n =
     (let k = (if n \<le> 60 then 0 else if n \<le> 256 then 1 else if n \<le> 65536 then 2 else if n \<le> 16777216 then 3 else 4)
      in if k = 0 then [of_nat (4 * (n - 1))]
         else of_nat (4 * (59 + k)) # to_le k (of_nat (n - 1) :: u32))"

lemma emit_literal_header: "emit_literal out l = out @ lit_header (length l) @ l"
proof -
  have p: "(ucast (push_bit 2 (of_nat (length l - 1)) :: u32) :: u8) = of_nat (4 * (length l - 1))"
  proof -
    have "push_bit 2 (of_nat k) = (of_nat (4 * k) :: u32)" for k :: nat
      by (simp add: push_bit_eq_mult mult.commute)
    then show ?thesis by (simp only: ucast_of_nat_down[where 'a = 32 and 'b = 8, simplified])
  qed
  have t: "to_le (Suc 0) w = [ucast w]" "to_le 2 w = [ucast w, ucast (drop_bit 8 w)]"
    "to_le 3 w = [ucast w, ucast (drop_bit 8 w), ucast (drop_bit 16 w)]"
    "to_le 4 w = [ucast w, ucast (drop_bit 8 w), ucast (drop_bit 16 w), ucast (drop_bit 24 w)]" for w :: u32
    by (simp_all add: to_le_def upt_conv_Cons)
  show ?thesis
    unfolding emit_literal_def lit_header_def Let_def p ucast_low_byte
    by (auto simp: t del: drop_bit_of_nat)
qed

lemma decodes_literal:
  assumes "l \<noteq> []" "length l \<le> 2 ^ 32 - 1"
  shows "decodes (lit_header (length l) @ l) out (out @ l)"
proof (rule decodesI)
  show "length (out @ l) - length out \<le> 22 * length (lit_header (length l) @ l)" by simp
  have "length (lit_header (length l)) \<le> 5" by (simp add: lit_header_def Let_def)
  then show "length (lit_header (length l) @ l) \<le> 6 * (length (out @ l) - length out)"
    using assms(1) by (cases l) simp_all
  fix pre post usize assume u: "length (out @ l) \<le> usize"
  let ?n = "length l"
  have n: "0 < ?n" using assms(1) by simp
  show "decode_element (pre @ (lit_header ?n @ l) @ post) usize (length pre) out
        = Inr (length pre + length (lit_header ?n @ l), out @ l)"
  proof (cases "?n \<le> 60")
    case True
    then have m: "?n - 1 < 64" by simp
    have nm: "\<not> 60 \<le> ?n - 1" "?n - 1 + 1 = ?n" using True n by linarith+
    have h: "lit_header ?n = [of_nat (4 * (?n - 1) + 0)]" using True by (simp add: lit_header_def)
    have t: "(of_nat (4 * (?n - 1) + 0) :: u8) AND 3 = 0"
      using tag_parts(2)[OF m, of 0] by (simp add: unat_eq_0 del: of_nat_mult of_nat_add)
    show ?thesis
      unfolding h decode_element_def Let_def decode_literal_def
      using t tag_parts(1)[OF m, of 0] nm n u by (simp del: of_nat_mult of_nat_add)
  next
    case False
    obtain k where k: "1 \<le> k" "k \<le> 4" "?n - 1 < 2 ^ (8 * k)"
      and h: "lit_header ?n = of_nat (4 * (59 + k) + 0) # to_le k (of_nat (?n - 1) :: u32)"
    proof -
      consider "?n \<le> 256" | "\<not> ?n \<le> 256" "?n \<le> 65536" | "\<not> ?n \<le> 65536" "?n \<le> 16777216" | "\<not> ?n \<le> 16777216" by linarith
      then show thesis
      proof cases
        case 1 then show thesis using False by (intro that[of 1]) (auto simp: lit_header_def)
      next
        case 2 then show thesis using False by (intro that[of 2]) (auto simp: lit_header_def)
      next
        case 3 then show thesis using False by (intro that[of 3]) (auto simp: lit_header_def)
      next
        case 4 then show thesis using False assms(2) by (intro that[of 4]) (auto simp: lit_header_def)
      qed
    qed
    have m: "59 + k < 64" using k by simp
    have t: "(of_nat (4 * (59 + k) + 0) :: u8) AND 3 = 0"
      using tag_parts(2)[OF m, of 0] by (simp add: unat_eq_0 del: of_nat_mult of_nat_add)
    define w where "w = (of_nat (?n - 1) :: u32)"
    have uw: "unat w = ?n - 1" using assms(2) unfolding w_def unat_of_nat by simp
    have "of_le (to_le k w) = w"
      using k uw bit_less_exp_word[of w "8 * k"] by (intro bit_word_eqI) (auto simp: bit_access intro: ccontr)
    then have r: "read_len k (pre @ (of_nat (4 * (59 + k) + 0) # to_le k w @ l) @ post) (Suc (length pre)) 0 0 = w"
      using read_len_of_le[of "Suc (length pre)" k "pre @ (of_nat (4 * (59 + k) + 0) # to_le k w @ l) @ post" 0 0]
      by simp
    have l: "unat (w + 1) = ?n" using uw n assms(2) by (simp add: unat_word_ariths)
    show ?thesis
      unfolding h w_def[symmetric] decode_element_def Let_def decode_literal_def
      using t tag_parts(1)[OF m, of 0] k r l n u by (simp del: of_nat_mult of_nat_add)
  qed
qed (use assms in auto)

section \<open>Copies\<close>

lemma length_copy_bytes [simp]: "length (copy_bytes n src out) = length out + n"
  by (induction n src out rule: copy_bytes.induct) simp_all

lemma copy_bytes_add: "copy_bytes (a + b) src out = copy_bytes b (src + a) (copy_bytes a src out)"
  by (induction a src out rule: copy_bytes.induct) simp_all

lemma small_masks: "(3 :: 'a::len word) = mask 2" "(7 :: 'a::len word) = mask 3"
  by (simp_all add: mask_eq_exp_minus_1)

text \<open>The low bits of an offset or a length below a power of two.\<close>

lemma high_clear: "unat (w :: 'a::len word) < 2 ^ n \<Longrightarrow> bit w i \<Longrightarrow> i < n"
  using bit_less_exp_word[of w n i] by (meson not_le)

text \<open>Copy-1: the tag carries three offset bits, three length bits and the type.\<close>

definition tag1 :: "u32 \<Rightarrow> u32 \<Rightarrow> u8" where
  "tag1 offset m = ucast (push_bit 5 (drop_bit 8 offset) OR push_bit 2 m OR 1)"

lemma bit_tag1:
  "bit (tag1 offset m) i \<longleftrightarrow> i < 8 \<and> (5 \<le> i \<and> bit offset (i + 3) \<or> 2 \<le> i \<and> bit m (i - 2) \<or> i = 0)"
  unfolding tag1_def bit_ucast_iff bit_or_iff bit_push_bit_iff bit_drop_bit_eq bit_1_iff comp_apply
  by (auto simp: add.commute)

lemma tag1_parts:
  assumes m: "unat m < 2 ^ 3" and off: "unat offset < 2 ^ 11"
  shows "tag1 offset m AND 3 = 1" "ucast (drop_bit 2 (tag1 offset m)) AND 7 = m"
    "push_bit 8 (ucast (drop_bit 5 (tag1 offset m))) OR ucast (ucast offset :: u8) = offset"
proof -
  note hm = high_clear[OF m] and ho = high_clear[OF off]
  show "tag1 offset m AND 3 = 1"
    unfolding small_masks by (rule bit_word_eqI) (auto simp: bit_and_iff bit_mask_word bit_tag1 bit_1_iff less_2_cases_iff)
  show "ucast (drop_bit 2 (tag1 offset m)) AND 7 = m"
    unfolding small_masks
    by (rule bit_word_eqI) (auto simp: bit_and_iff bit_ucast_iff bit_drop_bit_eq bit_mask_word bit_tag1 dest: hm ho)
  show "push_bit 8 (ucast (drop_bit 5 (tag1 offset m))) OR ucast (ucast offset :: u8) = offset"
  proof (rule bit_word_eqI)
    fix i assume "i < LENGTH(32)"
    then show "bit (push_bit 8 (ucast (drop_bit 5 (tag1 offset m))) OR ucast (ucast offset :: u8) :: u32) i = bit offset i"
      by (cases "i < 8")
        (auto simp: bit_or_iff bit_push_bit_iff bit_ucast_iff bit_drop_bit_eq bit_tag1 dest: hm ho)
  qed
qed

text \<open>Copy-2 and copy-4: six length bits and the type.\<close>

definition tag2 :: "u32 \<Rightarrow> u32 \<Rightarrow> u8" where
  "tag2 t m = ucast (push_bit 2 m OR t)"

lemma bit_tag2: "bit (tag2 t m) i \<longleftrightarrow> i < 8 \<and> (2 \<le> i \<and> bit m (i - 2) \<or> bit t i)"
  unfolding tag2_def bit_ucast_iff bit_or_iff bit_push_bit_iff by (auto dest: bit_imp_le_length)

lemma tag2_parts:
  assumes m: "unat m < 2 ^ 6" and t: "unat t < 2 ^ 2"
  shows "tag2 t m AND 3 = ucast t" "ucast (drop_bit 2 (tag2 t m)) = m"
proof -
  note hm = high_clear[OF m] and ht = high_clear[OF t]
  show "tag2 t m AND 3 = ucast t"
    unfolding small_masks
    by (rule bit_word_eqI) (auto simp: bit_and_iff bit_mask_word bit_tag2 bit_ucast_iff dest: ht)
  show "ucast (drop_bit 2 (tag2 t m)) = m"
    by (rule bit_word_eqI) (auto simp: bit_ucast_iff bit_drop_bit_eq bit_tag2 dest: ht hm)
qed

lemma load_le_to_le:
  "load_le32 (pre @ to_le 4 w @ post) (length pre) = w"
  "unat w < 2 ^ 16 \<Longrightarrow> ucast (load_le16 (pre @ to_le 2 w @ post) (length pre)) = w"
  for w :: u32
proof -
  show "load_le32 (pre @ to_le 4 w @ post) (length pre) = w"
    by (simp add: load_le32_def of_le_to_le)
  assume "unat w < 2 ^ 16"
  from high_clear[OF this] show "ucast (load_le16 (pre @ to_le 2 w @ post) (length pre)) = w"
    by (intro bit_word_eqI) (auto simp: load_le16_def bit_access)
qed

text \<open>One copy element of each kind.\<close>

lemma decodes_copy_element:
  assumes "0 < unat off" "unat off \<le> length out" "0 < unat len"
    and step: "\<And>pre post usize. decode_element (pre @ bs @ post) usize (length pre) out
           = do_copy usize len off (length pre + length bs) out"
    and "unat len \<le> 22 * length bs" "length bs \<le> 5"
  shows "decodes bs out (copy_bytes (unat len) (length out - unat off) out)"
proof (rule decodesI)
  show "bs \<noteq> []" using assms(3,5) by auto
  fix pre post usize assume "length (copy_bytes (unat len) (length out - unat off) out) \<le> usize"
  then show "decode_element (pre @ bs @ post) usize (length pre) out
      = Inr (length pre + length bs, copy_bytes (unat len) (length out - unat off) out)"
    using assms(1,2) unfolding step by (auto simp: do_copy_def)
qed (use assms(3,5,6) in simp_all)

lemma word_small_cases:
  "(1 :: u8) \<noteq> 0" "(2 :: u8) \<noteq> 0" "(2 :: u8) \<noteq> 1" "(3 :: u8) \<noteq> 0" "(3 :: u8) \<noteq> 1" "(3 :: u8) \<noteq> 2"
  by simp_all

lemma decodes_copy1:
  assumes off: "0 < unat off" "unat off \<le> length out" "unat off < 2 ^ 11"
    and len: "4 \<le> unat len" "unat len \<le> 11"
  shows "decodes [tag1 off (len - 4), ucast off] out (copy_bytes (unat len) (length out - unat off) out)"
proof (rule decodes_copy_element)
  have l: "4 \<le> len" using len(1) by (simp add: word_le_nat_alt)
  then have "unat (len - 4) < 2 ^ 3" using len(2) by (subst unat_sub) simp_all
  note t = tag1_parts[OF this off(3)]
  fix pre post usize
  show "decode_element (pre @ [tag1 off (len - 4), ucast off] @ post) usize (length pre) out
        = do_copy usize len off (length pre + length [tag1 off (len - 4), ucast off]) out"
    using t by (simp add: decode_element_def decode_copy1_def nth_append)
qed (use assms in simp_all)

lemma chunk_minus_one: "0 < unat len \<Longrightarrow> unat len \<le> 64 \<Longrightarrow> unat (len - 1) < 2 ^ 6" for len :: u32
  by (subst unat_sub) (simp_all add: word_le_nat_alt)

lemma decodes_copy2:
  fixes off :: u32
  assumes off: "0 < unat off" "unat off \<le> length out" "unat off < 2 ^ 16"
    and len: "0 < unat len" "unat len \<le> 64"
  shows "decodes (tag2 2 (len - 1) # to_le 2 off) out (copy_bytes (unat len) (length out - unat off) out)"
proof (rule decodes_copy_element)
  have "unat (2 :: u32) < 2 ^ 2" by simp
  note t = tag2_parts[OF chunk_minus_one[OF len] this]
  fix pre post usize
  have "ucast (load_le16 ((pre @ [tag2 2 (len - 1)]) @ to_le 2 off @ post) (length (pre @ [tag2 2 (len - 1)]))) = off"
    by (rule load_le_to_le(2)[OF off(3)])
  then show "decode_element (pre @ (tag2 2 (len - 1) # to_le 2 off) @ post) usize (length pre) out
        = do_copy usize len off (length pre + length (tag2 2 (len - 1) # to_le 2 off)) out"
    using t by (simp add: decode_element_def decode_copy2_def numeral_3_eq_3)
qed (use assms in simp_all)

lemma decodes_copy4:
  fixes off :: u32
  assumes off: "0 < unat off" "unat off \<le> length out" and len: "0 < unat len" "unat len \<le> 64"
  shows "decodes (tag2 3 (len - 1) # to_le 4 off) out (copy_bytes (unat len) (length out - unat off) out)"
proof (rule decodes_copy_element)
  have "unat (3 :: u32) < 2 ^ 2" by simp
  note t = tag2_parts[OF chunk_minus_one[OF len] this]
  fix pre post usize
  have "load_le32 ((pre @ [tag2 3 (len - 1)]) @ to_le 4 off @ post) (length (pre @ [tag2 3 (len - 1)])) = off"
    by (rule load_le_to_le(1))
  then show "decode_element (pre @ (tag2 3 (len - 1) # to_le 4 off) @ post) usize (length pre) out
        = do_copy usize len off (length pre + length (tag2 3 (len - 1) # to_le 4 off)) out"
    using t by (simp add: decode_element_def decode_copy4_def add.commute[of "length pre" 5])
qed (use assms in simp_all)

text \<open>A whole match, in as many elements as the emitter splits it into.\<close>

lemma emit_copy_unfold:
  "emit_copy out off len =
     (if len = 0 then out
      else if 4 \<le> len \<and> len \<le> 11 \<and> off \<le> 2047 then out @ [tag1 off (len - 4), ucast off]
      else let chunk = (if len > 64 then 64 else len)
           in if off \<le> 65535 then emit_copy (out @ tag2 2 (chunk - 1) # to_le 2 off) off (len - chunk)
              else emit_copy (out @ tag2 3 (chunk - 1) # to_le 4 off) off (len - chunk))"
proof -
  have t: "to_le 2 off = [ucast off, ucast (drop_bit 8 off)]"
    "to_le 4 off = [ucast off, ucast (drop_bit 8 off), ucast (drop_bit 16 off), ucast (drop_bit 24 off)]"
    by (simp_all add: to_le_def upt_conv_Cons)
  show ?thesis
    by (subst emit_copy.simps) (simp add: Let_def tag1_def tag2_def ucast_low_byte t word_neq_0_conv[symmetric])
qed

lemma decodes_emit_copy:
  assumes "0 < unat off" "unat off \<le> length out"
  shows "\<exists>bs. (\<forall>o0. emit_copy o0 off len = o0 @ bs) \<and> decodes bs out (copy_bytes (unat len) (length out - unat off) out)"
  using assms
proof (induction "unat len" arbitrary: len out rule: less_induct)
  case less
  show ?case
  proof (cases "len = 0")
    case True
    then show ?thesis by (intro exI[of _ "[]"]) (simp add: emit_copy_unfold)
  next
    case ne: False
    then have pos: "0 < unat len" by (simp add: unat_gt_0)
    show ?thesis
    proof (cases "4 \<le> len \<and> len \<le> 11 \<and> off \<le> 2047")
      case True
      then have "decodes [tag1 off (len - 4), ucast off] out (copy_bytes (unat len) (length out - unat off) out)"
        using less.prems by (intro decodes_copy1) (auto simp: word_le_nat_alt)
      then show ?thesis using True ne by (intro exI[of _ "[tag1 off (len - 4), ucast off]"]) (simp add: emit_copy_unfold)
    next
      case False
      define chunk where "chunk = (if len > 64 then 64 else len)"
      have c: "0 < unat chunk" "unat chunk \<le> 64" "chunk \<le> len"
        using pos by (auto simp: chunk_def word_less_nat_alt word_le_nat_alt)
      have split: "unat len = unat chunk + unat (len - chunk)"
        using c(3) by (subst unat_sub) (auto simp: word_le_nat_alt)
      define hd where "hd = (if off \<le> 65535 then tag2 2 (chunk - 1) # to_le 2 off else tag2 3 (chunk - 1) # to_le 4 off)"
      define out' where "out' = copy_bytes (unat chunk) (length out - unat off) out"
      have "off \<le> 65535 \<Longrightarrow> unat off < 2 ^ 16" by (simp add: word_le_nat_alt)
      then have d1: "decodes hd out out'"
        using decodes_copy2[OF less.prems _ c(1,2)] decodes_copy4[OF less.prems c(1,2)]
        by (auto simp: hd_def out'_def)
      have "unat (len - chunk) < unat len" using split c(1) by linarith
      moreover have "unat off \<le> length out'" using less.prems(2) by (simp add: out'_def)
      ultimately obtain bs where bs: "\<forall>o0. emit_copy o0 off (len - chunk) = o0 @ bs"
        "decodes bs out' (copy_bytes (unat (len - chunk)) (length out' - unat off) out')"
        using less.hyps[of "len - chunk" out'] less.prems(1) by blast
      have src: "length out' - unat off = length out - unat off + unat chunk"
        using less.prems(2) by (simp add: out'_def)
      have "copy_bytes (unat (len - chunk)) (length out' - unat off) out'
          = copy_bytes (unat len) (length out - unat off) out"
        unfolding src split copy_bytes_add by (simp add: out'_def)
      with decodes_append[OF d1 bs(2)]
      have "decodes (hd @ bs) out (copy_bytes (unat len) (length out - unat off) out)" by simp
      moreover have "emit_copy o0 off len = o0 @ hd @ bs" for o0
        unfolding emit_copy_unfold[of o0] if_not_P[OF ne] if_not_P[OF False] Let_def chunk_def[symmetric]
        using bs(1) by (simp add: hd_def)
      ultimately show ?thesis by blast
    qed
  qed
qed

section \<open>The scan\<close>

lemma match_loop_spec:
  "len \<le> match_loop n src s1 s2 len \<and> match_loop n src s1 s2 len \<le> len + n \<and>
   (\<forall>i. len \<le> i \<and> i < match_loop n src s1 s2 len \<longrightarrow> src ! (s1 + i) = src ! (s2 + i))"
proof (induction n src s1 s2 len rule: match_loop.induct)
  case (2 n src s1 s2 len)
  show ?case
  proof (cases "src ! (s1 + len) = src ! (s2 + len)")
    case True
    note IH = 2[OF True]
    have "src ! (s1 + i) = src ! (s2 + i)" if "len \<le> i" "i < match_loop n src s1 s2 (len + 1)" for i
      using IH True that by (cases "i = len") auto
    then show ?thesis using IH True by auto
  qed auto
qed auto

lemma match_length_spec:
  assumes "c < pos" "pos < length src"
  shows "pos + unat (match_length src pos c (length src)) \<le> length src"
    "i < unat (match_length src pos c (length src)) \<Longrightarrow> src ! (pos + i) = src ! (c + i)"
proof -
  define lim where "lim = (if length src - pos > 65535 then 65535 else length src - pos)"
  have m: "match_length src pos c (length src) = of_nat (match_loop lim src pos c 0)"
    using assms by (simp add: match_length_def Let_def lim_def)
  have b: "match_loop lim src pos c 0 \<le> lim" using match_loop_spec[of 0 lim src pos c] by simp
  then have u: "unat (match_length src pos c (length src)) = match_loop lim src pos c 0"
    unfolding m unat_of_nat by (simp add: lim_def split: if_splits)
  show "pos + unat (match_length src pos c (length src)) \<le> length src"
    using b assms unfolding u by (auto simp: lim_def split: if_splits)
  show "i < unat (match_length src pos c (length src)) \<Longrightarrow> src ! (pos + i) = src ! (c + i)"
    using match_loop_spec[of 0 lim src pos c] unfolding u by simp
qed

text \<open>Equal 32-bit loads are four equal bytes.\<close>

lemma load_le32_eq:
  assumes "load_le32 data p = load_le32 data c" "p + 4 \<le> length data" "c + 4 \<le> length data" "i < 4"
  shows "data ! (p + i) = data ! (c + i)"
proof -
  have "to_le 4 (load_le32 data p) = take 4 (drop p data)" "to_le 4 (load_le32 data c) = take 4 (drop c data)"
    unfolding load_le32_def using assms by (simp_all add: to_le_of_le)
  then have "take 4 (drop p data) = take 4 (drop c data)" using assms(1) by simp
  then have "take 4 (drop p data) ! i = take 4 (drop c data) ! i" by simp
  then show ?thesis using assms by simp
qed

text \<open>Copying a match from the already decoded prefix extends the prefix.\<close>

lemma copy_bytes_match:
  assumes "c < pos" "pos + n \<le> length data" "\<And>i. i < n \<Longrightarrow> data ! (pos + i) = data ! (c + i)"
  shows "copy_bytes n c (take pos data) = take (pos + n) data"
  using assms
proof (induction n arbitrary: c pos)
  case (Suc n)
  have "take pos data ! c = data ! pos" using Suc.prems(1) Suc.prems(3)[of 0] by simp
  then have "take pos data @ [take pos data ! c] = take (pos + 1) data"
    using Suc.prems(2) by (simp add: take_Suc_conv_app_nth)
  moreover have "copy_bytes n (c + 1) (take (pos + 1) data) = take (pos + 1 + n) data"
    using Suc.prems(1,2) Suc.prems(3)[of "Suc _"] by (intro Suc.IH) auto
  ultimately show ?case by simp
qed simp

definition table_ok :: "nat option list \<Rightarrow> nat \<Rightarrow> bool" where
  "table_ok table pos \<longleftrightarrow> length table = kHashTableSize \<and> (\<forall>h c. h < kHashTableSize \<longrightarrow> table ! h = Some c \<longrightarrow> c < pos)"

lemma hash4_bound: "unat (hash4 data pos) < kHashTableSize"
proof -
  have "unat (hash4 data pos) = unat (load_le32 data pos * 0x1e35a7bd) div 2 ^ 18"
    unfolding hash4_def by (rule unat_drop_bit)
  moreover have "unat (load_le32 data pos * 0x1e35a7bd) < 2 ^ 18 * 2 ^ 14"
    using unat_lt_exp[of "load_le32 data pos * 0x1e35a7bd"] by simp
  ultimately show ?thesis by (simp add: kHashTableSize_def less_mult_imp_div_less)
qed

lemma table_ok_set: "table_ok table pos \<Longrightarrow> pos < q \<Longrightarrow> table_ok (table[unat (hash4 data p) := Some pos]) q"
  using hash4_bound[of data p] by (auto simp: table_ok_def nth_list_update)

lemma insert_loop_ok: "table_ok table pos \<Longrightarrow> pos \<le> e \<Longrightarrow> table_ok (insert_loop data table pos e) e"
proof (induction data table pos e rule: insert_loop.induct)
  case (1 data table pos e)
  have mono: "table_ok table e" using 1(2,3) by (auto simp: table_ok_def)
  show ?case
  proof (cases "pos < e \<and> pos + 4 \<le> length data")
    case True
    have "table_ok (table[unat (hash4 data pos) := Some pos]) (pos + 1)" using 1(2) by (intro table_ok_set) simp_all
    from 1(1)[OF True this] True show ?thesis by (subst insert_loop.simps) simp
  next
    case False
    then show ?thesis using mono by (subst insert_loop.simps) auto
  qed
qed

text \<open>
  What the scan has emitted decodes from the prefix before the pending literal to the prefix before
  the next pending literal.
\<close>

definition pending :: "bytes \<Rightarrow> nat \<Rightarrow> nat \<Rightarrow> bytes" where
  "pending data l pos = take (pos - l) (drop l data)"

lemma decodes_pending:
  assumes "l \<le> pos" "pos \<le> length data" "length data \<le> 2 ^ 32 - 1"
  shows "\<exists>bs. (\<forall>o0. (if pos > l then emit_literal o0 (pending data l pos) else o0) = o0 @ bs)
    \<and> decodes bs (take l data) (take pos data)"
proof (cases "pos > l")
  case True
  have t: "take l data @ pending data l pos = take pos data"
    using assms take_add[of l "pos - l" data] by (simp add: pending_def)
  have "decodes (lit_header (length (pending data l pos)) @ pending data l pos) (take l data) (take pos data)"
    using decodes_literal[of "pending data l pos" "take l data"] True assms unfolding t
    by (auto simp: pending_def)
  then show ?thesis using True by (auto simp: emit_literal_header)
next
  case False
  then show ?thesis using assms(1) by (intro exI[of _ "[]"]) simp
qed

lemma scan_loop_decodes:
  assumes "table_ok table pos" "l \<le> pos" "pos \<le> length data" "length data \<le> 2 ^ 32 - 1"
    and "scan_loop data table pos l o0 = (l', o1)"
  shows "\<exists>bs. o1 = o0 @ bs \<and> decodes bs (take l data) (take l' data) \<and> l' \<le> length data"
  using assms
proof (induction "length data - pos" arbitrary: table pos l o0 rule: less_induct)
  case less
  show ?case
  proof (cases "pos + 4 \<le> length data")
    case False
    then have "l' = l" "o1 = o0" using less.prems(5) by (simp_all add: scan_loop.simps)
    then show ?thesis using less.prems by (intro exI[of _ "[]"]) simp
  next
    case True
    define h where "h = unat (hash4 data pos)"
    define table' where "table' = table[h := Some pos]"
    have t': "table_ok table' (pos + 1)"
      unfolding table'_def h_def using less.prems(1) by (intro table_ok_set) simp_all
    have dec: "length data - (pos + 1) < length data - pos" using True by simp
    show ?thesis
    proof (cases "\<exists>c. table ! h = Some c \<and> pos - c \<le> 65535 \<and> load_le32 data pos = load_le32 data c")
      case False
      have "scan_loop data table pos l o0 = scan_loop data table' (pos + 1) l o0"
        using True False by (subst scan_loop.simps) (auto simp: Let_def h_def table'_def split: option.splits)
      then show ?thesis using less.hyps[OF dec t'] less.prems True by simp
    next
      case match: True
      then obtain c where c: "table ! h = Some c" "pos - c \<le> 65535" "load_le32 data pos = load_le32 data c" by blast
      have cp: "c < pos" using less.prems(1) c(1) hash4_bound[of data pos] by (auto simp: table_ok_def h_def)
      define ml0 where "ml0 = match_length data pos c (length data)"
      define ml where "ml = (if ml0 < 4 then 4 else ml0)"
      define off where "off = (of_nat (pos - c) :: u32)"
      define e where "e = pos + unat ml"
      have uo: "unat off = pos - c" using c(2) unfolding off_def unat_of_nat by simp
      have "pos < length data" using True by simp
      note ms = match_length_spec[OF cp this]
      have ml: "e \<le> length data" "\<And>i. i < unat ml \<Longrightarrow> data ! (pos + i) = data ! (c + i)" "0 < unat ml"
        using ms load_le32_eq[OF c(3)] True cp
        by (auto simp: ml_def e_def ml0_def word_less_nat_alt split: if_splits)
      obtain b1 where b1: "\<forall>o0. (if pos > l then emit_literal o0 (pending data l pos) else o0) = o0 @ b1"
        "decodes b1 (take l data) (take pos data)"
        using decodes_pending[of l pos data] less.prems by blast
      have src: "length (take pos data) - unat off = c" using less.prems(3) cp uo by simp
      have "0 < unat off" "unat off \<le> length (take pos data)" using cp uo less.prems(3) by simp_all
      from decodes_emit_copy[OF this, of ml] obtain b2 where b2: "\<forall>o0. emit_copy o0 off ml = o0 @ b2"
        "decodes b2 (take pos data) (take e data)"
        unfolding src using copy_bytes_match[OF cp _ ml(2)] ml(1) by (auto simp: e_def)
      have step: "scan_loop data table pos l o0 = scan_loop data (insert_loop data table' (pos + 1) e) e e (o0 @ b1 @ b2)"
        using True c b1(1)[rule_format, of o0] b2(1)
        by (subst scan_loop.simps)
          (auto simp: Let_def h_def[symmetric] table'_def[symmetric] pending_def[symmetric] ml0_def[symmetric]
            ml_def[symmetric] off_def[symmetric] e_def[symmetric] split: if_splits)
      have "table_ok (insert_loop data table' (pos + 1) e) e"
        using t' ml(3) by (intro insert_loop_ok) (simp_all add: e_def)
      moreover have "length data - e < length data - pos" using ml(3) True by (simp add: e_def)
      ultimately obtain b3 where "o1 = (o0 @ b1 @ b2) @ b3" "decodes b3 (take e data) (take l' data)" "l' \<le> length data"
        using less.hyps[of e "insert_loop data table' (pos + 1) e" e "o0 @ b1 @ b2"] ml(1) less.prems(4,5) step by auto
      then show ?thesis using decodes_append[OF decodes_append[OF b1(2) b2(2)]]
        by (intro exI[of _ "b1 @ b2 @ b3"]) simp
    qed
  qed
qed

section \<open>Compress and decompress\<close>

lemma compress_decodes:
  assumes "length data \<le> 2 ^ 32 - 1"
  shows "\<exists>bs. snappy_compress data = Inr (leb (length data) @ bs) \<and> decodes bs [] data"
proof -
  have u: "unat (of_nat (length data) :: u32) = length data" using assms unfolding unat_of_nat by simp
  have v: "encode_varint32 [] (of_nat (length data)) = leb (length data)"
    by (simp add: encode_varint32_leb u)
  consider "length data = 0" | "0 < length data" "length data < 4" | "4 \<le> length data" by linarith
  then show ?thesis
  proof cases
    case 1
    then show ?thesis using v by (intro exI[of _ "[]"]) (simp add: snappy_compress_def)
  next
    case 2
    then show ?thesis using v decodes_literal[of data "[]"]
      by (intro exI[of _ "lit_header (length data) @ data"])
        (auto simp: snappy_compress_def Let_def emit_literal_header)
  next
    case 3
    obtain l' o1 where s: "scan_loop data (replicate kHashTableSize None) 0 0 (leb (length data)) = (l', o1)" by fastforce
    have "table_ok (replicate kHashTableSize None) 0" by (simp add: table_ok_def)
    from scan_loop_decodes[OF this _ _ assms s] obtain bs where bs: "o1 = leb (length data) @ bs"
      "decodes bs [] (take l' data)" "l' \<le> length data" by auto
    obtain b2 where b2: "\<forall>o0. (if length data > l' then emit_literal o0 (drop l' data) else o0) = o0 @ b2"
      "decodes b2 (take l' data) data"
    proof -
      have "pending data l' (length data) = drop l' data" by (simp add: pending_def)
      from decodes_pending[of l' "length data" data, unfolded this] bs(3) assms that show thesis
        by (simp add: assms) blast
    qed
    have "snappy_compress data = Inr (leb (length data) @ bs @ b2)"
      using 3 assms s v bs(1) b2(1)[rule_format, of o1] by (auto simp: snappy_compress_def Let_def split: if_splits)
    then show ?thesis using decodes_append[OF bs(2) b2(2)] by blast
  qed
qed

lemma decompress_decodes:
  assumes "decodes bs [] data" "length data \<le> MAX_SNAPPY_DECOMPRESS"
  shows "snappy_decompress (leb (length data) @ bs) (length data) = Inr data"
proof -
  have u: "unat (of_nat (length data) :: u32) = length data"
    using assms(2) unfolding unat_of_nat MAX_SNAPPY_DECOMPRESS_def by simp
  have v: "decode_varint32 (leb (length data) @ bs) 0 = Some (of_nat (length data), length (leb (length data)))"
    using decode_varint32_leb[of "[]" "of_nat (length data) :: u32" bs] unfolding u by simp
  have "decode_elements (leb (length data) @ bs) (length data) (length (leb (length data))) []
      = decode_elements (leb (length data) @ bs) (length data) (length (leb (length data) @ bs)) data"
    using assms(1) unfolding decodes_def by (metis append_Nil2 length_append order_refl)
  also have "\<dots> = Inr data" by (subst decode_elements.simps) simp
  finally show ?thesis using v assms(2) by (simp add: snappy_decompress_def u)
qed

lemma decodes_expansion: "decodes bs [] data \<Longrightarrow> length data \<le> 22 * length bs"
  by (simp add: decodes_def)

lemma snappy_compress_length:
  assumes "snappy_compress d = Inr c"
  shows "length c \<le> 6 * length d + 5"
proof -
  have d: "length d \<le> 2 ^ 32 - 1" using assms by (auto simp: snappy_compress_def split: if_splits)
  from compress_decodes[OF this] assms obtain bs where bs: "c = leb (length d) @ bs" "decodes bs [] d" by auto
  have "length (leb (length d)) \<le> 5" using d by (intro length_leb_le) simp_all
  then show ?thesis using bs by (simp add: decodes_def)
qed

interpretation snappy: compression_codec snappy_compress snappy_decompress 22
proof unfold_locales
  fix d c :: bytes
  assume c: "snappy_compress d = Inr c"
  then have "length d \<le> 2 ^ 32 - 1" by (auto simp: snappy_compress_def split: if_splits)
  from compress_decodes[OF this] c obtain bs where bs: "c = leb (length d) @ bs" "decodes bs [] d" by auto
  show "length d \<le> MAX_DECOMPRESS_SIZE \<Longrightarrow> snappy_decompress c (length d) = Inr d"
    using decompress_decodes[OF bs(2)] bs(1) by (simp add: MAX_DECOMPRESS_SIZE_def MAX_SNAPPY_DECOMPRESS_def)
  show "length d \<le> 22 * length c" using decodes_expansion[OF bs(2)] bs(1) by simp
qed

section \<open>Properties\<close>

text \<open>
  Property C25: Snappy is lossless and total on everything the decompressor may accept: any input of
  at most 256 MB compresses, and decompressing the result with the input's size gives it back.
\<close>

theorem snappy_roundtrip:
  assumes "length data \<le> MAX_SNAPPY_DECOMPRESS"
  shows "\<exists>c. snappy_compress data = Inr c \<and> snappy_decompress c (length data) = Inr data"
proof -
  have "length data \<le> 2 ^ 32 - 1" using assms by (simp add: MAX_SNAPPY_DECOMPRESS_def)
  from compress_decodes[OF this] decompress_decodes[OF _ assms] show ?thesis by blast
qed

theorem snappy_roundtrip_witness:
  "\<exists>c. snappy_compress [1, 2, 3, 4, 1, 2, 3, 4, 1] = Inr c
     \<and> snappy_decompress c 9 = Inr [1, 2, 3, 4, 1, 2, 3, 4, 1]"
proof -
  have l: "length [1, 2, 3, 4, 1, 2, 3, 4, 1 :: u8] = 9" by simp
  from snappy_roundtrip[of "[1, 2, 3, 4, 1, 2, 3, 4, 1]", unfolded l] show ?thesis
    by (simp add: MAX_SNAPPY_DECOMPRESS_def)
qed

text \<open>
  A page compressed with Snappy through the registry reads back through the registry:
  none of the size, emptiness and ratio guards of \<^verbatim>\<open>decompress\<close> ever fires on Snappy's own output
  of a page of at most 256 MB.
\<close>

theorem registry_snappy_roundtrip:
  assumes "r SNAPPY = Some \<lparr>codec_compress = snappy_compress, codec_decompress = snappy_decompress\<rparr>"
    and "compress r SNAPPY data = Inr c" "length data \<le> MAX_DECOMPRESS_SIZE"
  shows "decompress r SNAPPY c (length data) = Inr data"
  using snappy.registry_roundtrip[OF assms] by (simp add: MAX_DECOMPRESSION_RATIO_def)

theorem registry_snappy_roundtrip_witness:
  "\<exists>r c. compress r SNAPPY [7, 7, 7] = Inr c \<and> decompress r SNAPPY c 3 = Inr [7, 7, 7]"
proof -
  define r :: registry where
    "r = register_codec (\<lambda>_. None) (Some (SNAPPY, \<lparr>codec_compress = snappy_compress, codec_decompress = snappy_decompress\<rparr>))"
  have reg: "r SNAPPY = Some \<lparr>codec_compress = snappy_compress, codec_decompress = snappy_decompress\<rparr>"
    by (simp add: r_def register_codec_def)
  obtain c where "compress r SNAPPY [7, 7, 7] = Inr c"
    using compress_decodes[of "[7, 7, 7]"] reg by (auto simp: compress_def get_codec_def)
  moreover have l: "length [7, 7, 7 :: u8] = 3" by simp
  from registry_snappy_roundtrip[OF reg calculation, unfolded l] have "decompress r SNAPPY c 3 = Inr [7, 7, 7]"
    by (simp add: MAX_DECOMPRESS_SIZE_def)
  ultimately show ?thesis by blast
qed

text \<open>
  The two sides disagree on the largest page.  Inputs between 256 MB and 4 GB compress
  without an error into a stream that the decompressor always refuses.
\<close>

theorem snappy_large_page_refused:
  assumes "MAX_SNAPPY_DECOMPRESS < length data" "length data \<le> 2 ^ 32 - 1"
  shows "\<exists>c. snappy_compress data = Inr c \<and> snappy_decompress c (length data) = Inl CORRUPT_PAGE"
proof -
  obtain bs where bs: "snappy_compress data = Inr (leb (length data) @ bs)"
    using compress_decodes[OF assms(2)] by blast
  have u: "unat (of_nat (length data) :: u32) = length data" using assms(2) unfolding unat_of_nat by simp
  have "decode_varint32 (leb (length data) @ bs) 0 = Some (of_nat (length data), length (leb (length data)))"
    using decode_varint32_leb[of "[]" "of_nat (length data) :: u32" bs] unfolding u by simp
  then have "snappy_decompress (leb (length data) @ bs) (length data) = Inl CORRUPT_PAGE"
    using assms(1) by (simp add: snappy_decompress_def)
  with bs show ?thesis by blast
qed

theorem snappy_large_page_refused_witness:
  "\<exists>c. snappy_compress (replicate 300000000 0) = Inr c \<and> snappy_decompress c 300000000 = Inl CORRUPT_PAGE"
  using snappy_large_page_refused[of "replicate 300000000 0"] by (simp add: MAX_SNAPPY_DECOMPRESS_def)

end
