(* ===== verification/Xxhash.thy ===== *)
theory Xxhash
  imports Prelude
begin

text \<open>
  xxHash64 (\<^verbatim>\<open>bloom/xxhash.hpp\<close>), the hash of the bloom filters.  The read pointer is the list of
  the bytes that remain; the stripe loop, the 8-byte, the 4-byte and the 1-byte steps are separate
  recursions over it.
\<close>

definition PRIME1 :: u64 where "PRIME1 = 0x9E3779B185EBCA87"
definition PRIME2 :: u64 where "PRIME2 = 0xC2B2AE3D27D4EB4F"
definition PRIME3 :: u64 where "PRIME3 = 0x165667B19E3779F9"
definition PRIME4 :: u64 where "PRIME4 = 0x85EBCA77C2B2AE63"
definition PRIME5 :: u64 where "PRIME5 = 0x27D4EB2F165667C5"

definition rotl64 :: "u64 \<Rightarrow> nat \<Rightarrow> u64" where
  "rotl64 v r0 = (let r = r0 mod 64 in push_bit r v OR drop_bit ((64 - r) mod 64) v)"

definition read_u64_le :: "bytes \<Rightarrow> u64" where
  "read_u64_le p = of_le (take 8 p)"

definition read_u32_le :: "bytes \<Rightarrow> u32" where
  "read_u32_le p = of_le (take 4 p)"

definition xxround :: "u64 \<Rightarrow> u64 \<Rightarrow> u64" where
  "xxround acc lane = rotl64 (acc + lane * PRIME2) 31 * PRIME1"

definition merge_accumulator :: "u64 \<Rightarrow> u64 \<Rightarrow> u64" where
  "merge_accumulator acc v = (acc XOR xxround 0 v) * PRIME1 + PRIME4"

definition avalanche :: "u64 \<Rightarrow> u64" where
  "avalanche h0 =
     (let h1 = h0 XOR drop_bit 33 h0; h2 = h1 * PRIME2;
          h3 = h2 XOR drop_bit 29 h2; h4 = h3 * PRIME3
      in h4 XOR drop_bit 32 h4)"

text \<open>The do-while over 32-byte stripes: the accumulators and what remains.\<close>

function stripes :: "bytes \<Rightarrow> u64 \<Rightarrow> u64 \<Rightarrow> u64 \<Rightarrow> u64 \<Rightarrow> (u64 \<times> u64 \<times> u64 \<times> u64) \<times> bytes" where
  "stripes p v1 v2 v3 v4 =
     (let v1 = xxround v1 (read_u64_le p);
          v2 = xxround v2 (read_u64_le (drop 8 p));
          v3 = xxround v3 (read_u64_le (drop 16 p));
          v4 = xxround v4 (read_u64_le (drop 24 p));
          p' = drop 32 p
      in if length p' > 31 then stripes p' v1 v2 v3 v4 else ((v1, v2, v3, v4), p'))"
  by pat_completeness auto
termination
  by (relation "measure (\<lambda>(p, v1, v2, v3, v4). length p)") auto

function tail8 :: "bytes \<Rightarrow> u64 \<Rightarrow> u64 \<times> bytes" where
  "tail8 p h =
     (if length p \<ge> 8
      then tail8 (drop 8 p) (rotl64 (h XOR xxround 0 (read_u64_le p)) 27 * PRIME1 + PRIME4)
      else (h, p))"
  by pat_completeness auto
termination
  by (relation "measure (\<lambda>(p, h). length p)") auto

definition tail4 :: "bytes \<Rightarrow> u64 \<Rightarrow> u64 \<times> bytes" where
  "tail4 p h =
     (if length p \<ge> 4
      then (rotl64 (h XOR (ucast (read_u32_le p) * PRIME1)) 23 * PRIME2 + PRIME3, drop 4 p)
      else (h, p))"

fun tail1 :: "bytes \<Rightarrow> u64 \<Rightarrow> u64" where
  "tail1 [] h = h"
| "tail1 (b # p) h = tail1 p (rotl64 (h XOR (ucast b * PRIME5)) 11 * PRIME1)"

definition hash64 :: "bytes \<Rightarrow> u64 \<Rightarrow> u64" where
  "hash64 data seed =
     (let (h0, p0) =
            (if length data \<ge> 32 then
               (case stripes data (seed + PRIME1 + PRIME2) (seed + PRIME2) seed (seed - PRIME1) of
                  ((v1, v2, v3, v4), p) \<Rightarrow>
                    let h = rotl64 v1 1 + rotl64 v2 7 + rotl64 v3 12 + rotl64 v4 18
                    in (merge_accumulator (merge_accumulator (merge_accumulator (merge_accumulator h v1) v2) v3) v4, p))
             else (seed + PRIME5, data));
          h1 = h0 + of_nat (length data);
          (h2, p2) = tail8 p0 h1;
          (h3, p3) = tail4 p2 h2
      in avalanche (tail1 p3 h3))"

text \<open>\<^verbatim>\<open>hash64_value\<close>: the object representation of a little-endian integer.\<close>

definition hash64_value :: "nat \<Rightarrow> 'a::len word \<Rightarrow> u64 \<Rightarrow> u64" where
  "hash64_value n val seed = hash64 (to_le n val) seed"

section \<open>Properties\<close>

text \<open>
  The hash is XXH64: on the published vectors for seed 0 (the empty string,
  \<^verbatim>\<open>a\<close>, \<^verbatim>\<open>abc\<close> and the 39-byte \<^verbatim>\<open>Nobody inspects the spammish repetition\<close>, which
  takes the stripe loop and every tail step) it gives the published digests.
\<close>

theorem xxhash_vectors:
  "hash64 [] 0 = 0xEF46DB3751D8E999
   \<and> hash64 [0x61] 0 = 0xD24EC4F1A98C6E5B
   \<and> hash64 [0x61, 0x62, 0x63] 0 = 0x44BC2CF5AD770999
   \<and> hash64 [0x4E, 0x6F, 0x62, 0x6F, 0x64, 0x79, 0x20, 0x69, 0x6E, 0x73, 0x70, 0x65, 0x63, 0x74, 0x73, 0x20,
              0x74, 0x68, 0x65, 0x20, 0x73, 0x70, 0x61, 0x6D, 0x6D, 0x69, 0x73, 0x68, 0x20, 0x72, 0x65, 0x70,
              0x65, 0x74, 0x69, 0x74, 0x69, 0x6F, 0x6E] 0 = 0xFBCEA83C8A378BF1"
  by (intro conjI; code_simp)

end
