(* ===== verification/Bloom.thy ===== *)
theory Bloom
  imports Xxhash
begin

text \<open>
  The split-block bloom filter (\<^verbatim>\<open>bloom/split_block.hpp\<close>).  The filter is its byte vector; a
  \<^verbatim>\<open>std::invalid_argument\<close> is \<open>None\<close>.  The constructor that computes a size from a
  false-positive rate works in floating point and is not modelled (\<open>with_size\<close> and \<open>from_data\<close> are
  the constructors here).  The abstraction is the set of set bits: \<open>insert\<close> adds eight bits,
  \<open>merge\<close> is union, \<open>might_contain\<close> is inclusion.
\<close>

definition kBytesPerBlock :: nat where "kBytesPerBlock = 32"
definition kWordsPerBlock :: nat where "kWordsPerBlock = 8"
definition kMaxBytes :: nat where "kMaxBytes = 128 * 1024 * 1024"

definition kSalt :: "u32 list" where
  "kSalt = [0x47b6137b, 0x44974d91, 0x8824ad5b, 0xa2b7289d, 0x705495c7, 0x2df1424b, 0x9efc4947, 0x5c6bfb31]"

definition round_up_to_block :: "nat \<Rightarrow> nat" where
  "round_up_to_block n = (n + kBytesPerBlock - 1) div kBytesPerBlock * kBytesPerBlock"

definition with_size :: "nat \<Rightarrow> bytes option" where
  "with_size num_bytes =
     (if num_bytes = 0 \<or> num_bytes mod kBytesPerBlock \<noteq> 0 then None
      else Some (replicate (min num_bytes kMaxBytes) 0))"

definition from_data :: "bytes \<Rightarrow> bytes option" where
  "from_data src =
     (if length src = 0 \<or> length src mod kBytesPerBlock \<noteq> 0 then None
      else if length src > kMaxBytes then None
      else Some src)"

definition num_blocks :: "bytes \<Rightarrow> nat" where
  "num_blocks data = length data div kBytesPerBlock"

definition block_read :: "bytes \<Rightarrow> nat \<Rightarrow> nat \<Rightarrow> u32" where
  "block_read data block_idx word_idx = of_le (take 4 (drop (block_idx * kBytesPerBlock + word_idx * 4) data))"

definition block_write :: "bytes \<Rightarrow> nat \<Rightarrow> nat \<Rightarrow> u32 \<Rightarrow> bytes" where
  "block_write data block_idx word_idx val =
     (let at = block_idx * kBytesPerBlock + word_idx * 4
      in take at data @ to_le 4 val @ drop (at + 4) data)"

definition block_index :: "bytes \<Rightarrow> u64 \<Rightarrow> nat" where
  "block_index data hash = unat (drop_bit 32 (drop_bit 32 hash * of_nat (num_blocks data)))"

definition bit_pos :: "u64 \<Rightarrow> nat \<Rightarrow> nat" where
  "bit_pos hash i = unat (drop_bit 27 ((ucast hash :: u32) * kSalt ! i))"

definition insert :: "bytes \<Rightarrow> u64 \<Rightarrow> bytes" where
  "insert data hash =
     (let block_idx = block_index data hash
      in fold (\<lambda>i d. block_write d block_idx i (block_read d block_idx i OR push_bit (bit_pos hash i) 1))
           [0..<kWordsPerBlock] data)"

text \<open>The loop of \<^verbatim>\<open>might_contain\<close> with its early \<^verbatim>\<open>return false\<close>.\<close>

fun contain_loop :: "bytes \<Rightarrow> nat \<Rightarrow> u64 \<Rightarrow> nat list \<Rightarrow> bool" where
  "contain_loop data block_idx hash [] = True"
| "contain_loop data block_idx hash (i # is) =
     (if block_read data block_idx i AND push_bit (bit_pos hash i) 1 = 0 then False
      else contain_loop data block_idx hash is)"

definition might_contain :: "bytes \<Rightarrow> u64 \<Rightarrow> bool" where
  "might_contain data hash = contain_loop data (block_index data hash) hash [0..<kWordsPerBlock]"

definition merge :: "bytes \<Rightarrow> bytes \<Rightarrow> bytes option" where
  "merge data other = (if length data \<noteq> length other then None else Some (map2 (OR) data other))"

definition bloom_reset :: "bytes \<Rightarrow> bytes" where
  "bloom_reset data = map (\<lambda>_. 0) data"

text \<open>The typed front ends: a string, an \<^verbatim>\<open>int32_t\<close> or \<^verbatim>\<open>float\<close>, an \<^verbatim>\<open>int64_t\<close> or \<^verbatim>\<open>double\<close>.\<close>

definition insert_string :: "bytes \<Rightarrow> bytes \<Rightarrow> bytes" where
  "insert_string data val = insert data (hash64 val 0)"
definition insert_int32 :: "bytes \<Rightarrow> u32 \<Rightarrow> bytes" where
  "insert_int32 data val = insert data (hash64_value 4 val 0)"
definition insert_int64 :: "bytes \<Rightarrow> u64 \<Rightarrow> bytes" where
  "insert_int64 data val = insert data (hash64_value 8 val 0)"
definition might_contain_string :: "bytes \<Rightarrow> bytes \<Rightarrow> bool" where
  "might_contain_string data val = might_contain data (hash64 val 0)"
definition might_contain_int32 :: "bytes \<Rightarrow> u32 \<Rightarrow> bool" where
  "might_contain_int32 data val = might_contain data (hash64_value 4 val 0)"
definition might_contain_int64 :: "bytes \<Rightarrow> u64 \<Rightarrow> bool" where
  "might_contain_int64 data val = might_contain data (hash64_value 8 val 0)"

section \<open>The filter as a set of bits\<close>

definition filter_ok :: "bytes \<Rightarrow> bool" where
  "filter_ok data \<longleftrightarrow> 0 < length data \<and> length data mod 32 = 0 \<and> length data \<le> kMaxBytes"

definition bits_of :: "bytes \<Rightarrow> nat set" where
  "bits_of data = {k. byte_bit data k}"

text \<open>The eight bits of a hash in a filter of a given number of blocks.\<close>

definition probe :: "bytes \<Rightarrow> u64 \<Rightarrow> nat set" where
  "probe data hash = {256 * block_index data hash + 32 * i + bit_pos hash i | i. i < 8}"

lemma block_index_less: "filter_ok data \<Longrightarrow> block_index data hash < num_blocks data"
proof -
  assume ok: "filter_ok data"
  let ?n = "num_blocks data" and ?hi = "unat (drop_bit 32 hash)"
  have "32 \<le> length data" using ok by (auto simp: filter_ok_def dest: dvd_imp_le)
  then have n: "0 < ?n" "?n \<le> 2 ^ 22"
    using ok by (auto simp: filter_ok_def num_blocks_def kBytesPerBlock_def kMaxBytes_def)
  have hi: "?hi < 2 ^ 32" unfolding unat_drop_bit using unat_lt_exp[of hash] by simp
  have un: "unat (of_nat ?n :: u64) = ?n" unfolding unat_of_nat using n(2) by simp
  have lt: "?hi * ?n < 2 ^ 32 * ?n" using hi n(1) by simp
  also have "\<dots> \<le> 2 ^ 32 * 2 ^ 22" using n(2) by simp
  finally have "unat (drop_bit 32 hash * of_nat ?n) = ?hi * ?n"
    unfolding unat_word_ariths un by simp
  then have "block_index data hash = ?hi * ?n div 2 ^ 32" unfolding block_index_def unat_drop_bit by simp
  then show ?thesis using lt by (simp add: less_mult_imp_div_less mult.commute)
qed

lemma bit_pos_less: "bit_pos hash i < 32"
proof -
  have "unat ((ucast hash :: u32) * kSalt ! i) < 2 ^ 27 * 32"
    using unat_lt_exp[of "(ucast hash :: u32) * kSalt ! i"] by simp
  then show ?thesis unfolding bit_pos_def unat_drop_bit by (simp add: less_mult_imp_div_less)
qed

lemma word_offset:
  assumes "filter_ok data" "b < num_blocks data" "i < 8"
  shows "b * 32 + i * 4 + 4 \<le> length data"
proof -
  have "(b + 1) * 32 \<le> num_blocks data * 32" using assms(2) by (intro mult_le_mono1) simp
  also have "\<dots> \<le> length data" by (simp add: num_blocks_def kBytesPerBlock_def)
  finally show ?thesis using assms(3) by simp
qed

lemma byte_bit_slice:
  assumes "n + m \<le> length bs"
  shows "byte_bit (take m (drop n bs)) k \<longleftrightarrow> k < 8 * m \<and> byte_bit bs (8 * n + k)"
proof -
  have k: "k div 8 < m \<longleftrightarrow> k < 8 * m" by auto
  have "(8 * n + k) div 8 = n + k div 8" "(8 * n + k) mod 8 = k mod 8" by simp_all
  then show ?thesis using assms k by (auto simp: byte_bit_def)
qed

lemma bit_block_read:
  assumes "filter_ok data" "b < num_blocks data" "i < 8"
  shows "bit (block_read data b i) j \<longleftrightarrow> j < 32 \<and> byte_bit data (256 * b + 32 * i + j)"
  using word_offset[OF assms]
  by (auto simp: block_read_def kBytesPerBlock_def bit_of_le byte_bit_slice algebra_simps)

lemma length_block_write:
  "b * 32 + i * 4 + 4 \<le> length data \<Longrightarrow> length (block_write data b i v) = length data"
  by (simp add: block_write_def Let_def kBytesPerBlock_def)

lemma byte_bit_append:
  "byte_bit (xs @ ys) k \<longleftrightarrow> (if k < 8 * length xs then byte_bit xs k else byte_bit ys (k - 8 * length xs))"
proof (cases "k < 8 * length xs")
  case True
  then have "k div 8 < length xs" by auto
  then show ?thesis using True by (auto simp: byte_bit_def nth_append)
next
  case False
  then have "\<not> k div 8 < length xs" by auto
  moreover have "(k - 8 * length xs) div 8 = k div 8 - length xs" "(k - 8 * length xs) mod 8 = k mod 8"
    using False by (auto simp: not_less mod_eq_0_iff_dvd) (metis mod_mult_self2 le_add_diff_inverse2 add.commute mult.commute)+
  moreover have "\<not> q < m \<Longrightarrow> q < m + n \<longleftrightarrow> q - m < n" for q m n :: nat by linarith
  ultimately show ?thesis using False by (simp add: byte_bit_def nth_append)
qed

lemma byte_bit_block_write:
  assumes "b * 32 + i * 4 + 4 \<le> length data"
  shows "byte_bit (block_write data b i v) k \<longleftrightarrow>
    (if 256 * b + 32 * i \<le> k \<and> k < 256 * b + 32 * i + 32 then bit v (k - (256 * b + 32 * i)) else byte_bit data k)"
proof -
  let ?at = "b * 32 + i * 4"
  have d: "byte_bit (drop (?at + 4) data) j \<longleftrightarrow> byte_bit data (8 * (?at + 4) + j)" for j
  proof -
    have "(8 * q + j) div 8 = q + j div 8" "(8 * q + j) mod 8 = j mod 8" for q by simp_all
    note this[of "?at + 4"]
    then show ?thesis using assms by (auto simp: byte_bit_def)
  qed
  have t: "byte_bit (take ?at data) j \<longleftrightarrow> byte_bit data j" if "j < 8 * ?at" for j
    using that assms by (auto simp: byte_bit_def)
  consider "k < 8 * ?at" | "8 * ?at \<le> k" "k < 8 * ?at + 32" | "8 * ?at + 32 \<le> k" by linarith
  then show ?thesis
  proof cases
    case 1
    then show ?thesis using assms t[OF 1]
      by (simp add: block_write_def Let_def kBytesPerBlock_def byte_bit_append)
  next
    case 2
    then have "k < 32 + (i * 32 + b * 256)" "i * 32 + b * 256 \<le> k" by (simp_all add: algebra_simps)
    then have "k - (i * 32 + b * 256) < 32" by linarith
    then show ?thesis using 2 assms
      by (simp add: block_write_def Let_def kBytesPerBlock_def byte_bit_append byte_bit_to_le algebra_simps)
  next
    case 3
    then have "32 + (i * 32 + b * 256) \<le> k" by (simp add: algebra_simps)
    then have "\<not> k - (i * 32 + b * 256) < 32" by linarith
    then show ?thesis using 3 assms d[of "k - 8 * (?at + 4)"]
      by (simp add: block_write_def Let_def kBytesPerBlock_def byte_bit_append algebra_simps)
  qed
qed

section \<open>Insertion, membership and merging on the set of bits\<close>

text \<open>One round of the insertion loop.\<close>

definition insert_step :: "u64 \<Rightarrow> nat \<Rightarrow> nat \<Rightarrow> bytes \<Rightarrow> bytes" where
  "insert_step h b i d = block_write d b i (block_read d b i OR push_bit (bit_pos h i) 1)"

lemma insert_step_bits:
  assumes "filter_ok d" "b < num_blocks d" "i < 8"
  shows "length (insert_step h b i d) = length d"
    "byte_bit (insert_step h b i d) k \<longleftrightarrow> byte_bit d k \<or> k = 256 * b + 32 * i + bit_pos h i"
proof -
  note w = word_offset[OF assms]
  show "length (insert_step h b i d) = length d" unfolding insert_step_def by (rule length_block_write[OF w])
  have v: "bit (block_read d b i OR push_bit (bit_pos h i) 1) j
      \<longleftrightarrow> j < 32 \<and> byte_bit d (256 * b + 32 * i + j) \<or> j = bit_pos h i" for j
    unfolding bit_or_iff bit_push_bit_iff bit_block_read[OF assms] bit_1_iff using bit_pos_less[of h i] by auto
  show "byte_bit (insert_step h b i d) k \<longleftrightarrow> byte_bit d k \<or> k = 256 * b + 32 * i + bit_pos h i"
  proof (cases "256 * b + 32 * i \<le> k \<and> k < 256 * b + 32 * i + 32")
    case True
    then have lt: "k - (256 * b + 32 * i) < 32" and eq: "256 * b + 32 * i + (k - (256 * b + 32 * i)) = k"
      and iff: "k - (256 * b + 32 * i) = bit_pos h i \<longleftrightarrow> k = 256 * b + 32 * i + bit_pos h i" by linarith+
    show ?thesis unfolding insert_step_def byte_bit_block_write[OF w] v eq iff using True lt by simp
  next
    case False
    then have "k \<noteq> 256 * b + 32 * i + bit_pos h i" using bit_pos_less[of h i] by linarith
    then show ?thesis unfolding insert_step_def byte_bit_block_write[OF w] if_not_P[OF False] by simp
  qed
qed

lemma insert_fold:
  assumes "filter_ok data" "b < num_blocks data" "m \<le> 8"
  shows "length (fold (insert_step h b) [0..<m] data) = length data
    \<and> (\<forall>k. byte_bit (fold (insert_step h b) [0..<m] data) k
           \<longleftrightarrow> byte_bit data k \<or> (\<exists>i < m. k = 256 * b + 32 * i + bit_pos h i))"
  using assms(3)
proof (induction m)
  case (Suc m)
  let ?d = "fold (insert_step h b) [0..<m] data"
  have IH: "length ?d = length data"
    "\<And>k. byte_bit ?d k \<longleftrightarrow> byte_bit data k \<or> (\<exists>i < m. k = 256 * b + 32 * i + bit_pos h i)"
    using Suc by simp_all
  have "filter_ok ?d" "b < num_blocks ?d" "m < 8"
    using assms IH(1) Suc.prems by (simp_all add: filter_ok_def num_blocks_def)
  from insert_step_bits[OF this, of h] IH show ?case by (auto simp: less_Suc_eq)
qed simp

lemma insert_bits:
  assumes "filter_ok data"
  shows "length (insert data h) = length data" "bits_of (insert data h) = bits_of data \<union> probe data h"
  using insert_fold[OF assms block_index_less[OF assms], of 8 h h]
  by (auto simp: insert_def Let_def kWordsPerBlock_def bits_of_def probe_def insert_step_def[abs_def])

lemma insert_ok: "filter_ok data \<Longrightarrow> filter_ok (insert data h)"
  using insert_bits(1)[of data h] by (simp add: filter_ok_def)

lemma probe_length: "length data = length data' \<Longrightarrow> probe data h = probe data' h"
  by (simp add: probe_def block_index_def num_blocks_def)

lemma contain_loop_all:
  "contain_loop data b h is \<longleftrightarrow> (\<forall>i \<in> set is. bit (block_read data b i) (bit_pos h i))"
proof -
  have "block_read data b i AND push_bit (bit_pos h i) 1 = 0 \<longleftrightarrow> \<not> bit (block_read data b i) (bit_pos h i)" for i
    using and_exp_eq_0_iff_not_bit[of "block_read data b i" "bit_pos h i"]
    by (simp add: push_bit_eq_mult)
  then show ?thesis by (induction "is") simp_all
qed

lemma might_contain_bits:
  assumes "filter_ok data"
  shows "might_contain data h \<longleftrightarrow> probe data h \<subseteq> bits_of data"
proof -
  have "probe data h \<subseteq> bits_of data
      \<longleftrightarrow> (\<forall>i < 8. byte_bit data (256 * block_index data h + 32 * i + bit_pos h i))"
    by (auto simp: probe_def bits_of_def subset_eq)
  then show ?thesis
    using bit_block_read[OF assms block_index_less[OF assms]] bit_pos_less[of h]
    by (auto simp: might_contain_def contain_loop_all kWordsPerBlock_def)
qed

lemma merge_bits:
  assumes "merge a b = Some c"
  shows "length c = length a" "bits_of c = bits_of a \<union> bits_of b"
  using assms by (auto simp: merge_def bits_of_def byte_bit_def bit_or_iff split: if_splits)

section \<open>Sequences of operations\<close>

text \<open>What a writer does to one filter: insert hashes and merge other filters of its size.\<close>

datatype bloom_op = Insert u64 | Merge bytes

fun bloom_step :: "bytes \<Rightarrow> bloom_op \<Rightarrow> bytes option" where
  "bloom_step data (Insert h) = Some (insert data h)"
| "bloom_step data (Merge other) = merge data other"

fun bloom_run :: "bytes \<Rightarrow> bloom_op list \<Rightarrow> bytes option" where
  "bloom_run data [] = Some data"
| "bloom_run data (op # ops) =
     (case bloom_step data op of None \<Rightarrow> None | Some data' \<Rightarrow> bloom_run data' ops)"

text \<open>The bits an operation contributes.\<close>

fun op_bits :: "bytes \<Rightarrow> bloom_op \<Rightarrow> nat set" where
  "op_bits data (Insert h) = probe data h"
| "op_bits data (Merge other) = bits_of other"

lemma bloom_step_bits:
  assumes "filter_ok data" "bloom_step data op = Some data'"
  shows "length data' = length data" "bits_of data' = bits_of data \<union> op_bits data op"
  using assms insert_bits[OF assms(1)] merge_bits by (cases op; auto)+

lemma bloom_run_bits:
  "filter_ok data \<Longrightarrow> bloom_run data ops = Some data' \<Longrightarrow>
   length data' = length data \<and> bits_of data' = bits_of data \<union> (\<Union>op \<in> set ops. op_bits data op)"
proof (induction ops arbitrary: data)
  case (Cons op ops)
  then obtain d1 where d1: "bloom_step data op = Some d1" "bloom_run d1 ops = Some data'"
    by (auto split: option.splits)
  note s = bloom_step_bits[OF Cons.prems(1) d1(1)]
  have "filter_ok d1" using Cons.prems(1) s(1) by (simp add: filter_ok_def)
  note IH = Cons.IH[OF this d1(2)]
  have "op_bits d1 op' = op_bits data op'" for op'
    by (cases op') (simp_all add: probe_length[OF s(1)])
  then show ?case using IH s by auto
qed simp

lemma with_size_ok: "with_size n = Some data \<Longrightarrow> filter_ok data \<and> bits_of data = {}"
  by (auto simp: with_size_def filter_ok_def kBytesPerBlock_def kMaxBytes_def bits_of_def byte_bit_def min_def
      split: if_splits)

lemma from_data_ok: "from_data src = Some data \<Longrightarrow> filter_ok data \<and> data = src"
  by (auto simp: from_data_def filter_ok_def kBytesPerBlock_def split: if_splits)

section \<open>Properties\<close>

text \<open>
  No false negatives.  Whatever is inserted and merged into a filter before and after
  it, a hash that was inserted, or that a merged filter contained, is reported as possibly present.
\<close>

theorem bloom_no_false_negatives:
  assumes "filter_ok data" "bloom_run data ops = Some data'"
    and "Insert h \<in> set ops \<or> might_contain data h
         \<or> (\<exists>other. Merge other \<in> set ops \<and> length other = length data \<and> might_contain other h)"
  shows "might_contain data' h"
proof -
  note r = bloom_run_bits[OF assms(1,2), THEN conjunct1] bloom_run_bits[OF assms(1,2), THEN conjunct2]
  have ok: "filter_ok data'" using assms(1) r(1) by (simp add: filter_ok_def)
  have "probe data h \<subseteq> bits_of data'"
    using assms(3)
  proof (elim disjE exE conjE)
    assume "Insert h \<in> set ops"
    then show ?thesis unfolding r(2) by force
  next
    assume "might_contain data h"
    then show ?thesis unfolding r(2) might_contain_bits[OF assms(1)] by blast
  next
    fix other assume o: "Merge other \<in> set ops" "length other = length data" "might_contain other h"
    have "filter_ok other" using o(2) assms(1) by (simp add: filter_ok_def)
    then have "probe data h \<subseteq> bits_of other"
      using o(3) might_contain_bits probe_length[OF o(2)] by simp
    then show ?thesis unfolding r(2) using o(1) by force
  qed
  then show ?thesis unfolding might_contain_bits[OF ok] probe_length[OF r(1)] .
qed

theorem bloom_no_false_negatives_witness:
  "\<exists>data'. bloom_run (replicate 64 0) [Insert 0xABCDEF0123456789, Insert 5] = Some data'
     \<and> might_contain data' 0xABCDEF0123456789"
proof -
  have ok: "filter_ok (replicate 64 0)" by (simp add: filter_ok_def kMaxBytes_def)
  obtain d where d: "bloom_run (replicate 64 0) [Insert 0xABCDEF0123456789, Insert 5] = Some d" by simp
  have "might_contain d 0xABCDEF0123456789"
    by (rule bloom_no_false_negatives[OF ok d]) simp
  with d show ?thesis by blast
qed

text \<open>
  Property C29: the filter refines a set of bits.  On a filter of any admissible size, \<open>insert\<close> adds
  exactly the hash's eight bits (one in each word of the block its upper half selects, always inside
  the filter), \<open>might_contain\<close> tests exactly those bits, \<open>merge\<close> of equal sizes is union.
\<close>

theorem bloom_refines_bit_set:
  assumes "filter_ok data" "length other = length data"
  shows "bits_of (insert data h) = bits_of data \<union> probe data h \<and> filter_ok (insert data h)
    \<and> (might_contain data h \<longleftrightarrow> probe data h \<subseteq> bits_of data)
    \<and> (\<exists>c. merge data other = Some c \<and> bits_of c = bits_of data \<union> bits_of other)
    \<and> probe data h \<subseteq> {..< 8 * length data}"
proof -
  have "probe data h \<subseteq> {..< 8 * length data}"
  proof
    fix k assume "k \<in> probe data h"
    then obtain i where i: "i < 8" "k = 256 * block_index data h + 32 * i + bit_pos h i" by (auto simp: probe_def)
    have "block_index data h * 32 + i * 4 + 4 \<le> length data"
      by (rule word_offset[OF assms(1) block_index_less[OF assms(1)] i(1)])
    then show "k \<in> {..< 8 * length data}" using i(2) bit_pos_less[of h i] by simp
  qed
  moreover have "\<exists>c. merge data other = Some c \<and> bits_of c = bits_of data \<union> bits_of other"
  proof -
    have "merge data other = Some (map2 (OR) data other)" using assms(2) by (simp add: merge_def)
    then show ?thesis using merge_bits(2) by blast
  qed
  ultimately show ?thesis using insert_bits[OF assms(1)] insert_ok[OF assms(1)] might_contain_bits[OF assms(1)]
    by simp
qed

theorem bloom_refines_bit_set_witness:
  "might_contain (replicate 32 0) 7 \<longleftrightarrow> probe (replicate 32 0) 7 \<subseteq> bits_of (replicate 32 0)"
  using bloom_refines_bit_set[of "replicate 32 0" "replicate 32 0" 7]
  by (simp add: filter_ok_def kMaxBytes_def)

end
