(* ===== verification/Sha256.thy ===== *)
theory Sha256
  imports Prelude
begin

text \<open>
  SHA-256 (\<^verbatim>\<open>crypto/sha256.hpp\<close>): the schedule, the rounds, and the driver that hashes the full
  blocks in place and builds the last one or two blocks in a 128-byte buffer.  The reference is
  FIPS 180-4 padding: the digest is the fold of the compression function over the 64-byte blocks of
  the padded message.
\<close>

definition H0 :: "u32 list" where
  "H0 = [0x6a09e667, 0xbb67ae85, 0x3c6ef372, 0xa54ff53a, 0x510e527f, 0x9b05688c, 0x1f83d9ab, 0x5be0cd19]"

definition K :: "u32 list" where
  "K = concat
    [[0x428a2f98, 0x71374491, 0xb5c0fbcf, 0xe9b5dba5], [0x3956c25b, 0x59f111f1, 0x923f82a4, 0xab1c5ed5],
     [0xd807aa98, 0x12835b01, 0x243185be, 0x550c7dc3], [0x72be5d74, 0x80deb1fe, 0x9bdc06a7, 0xc19bf174],
     [0xe49b69c1, 0xefbe4786, 0x0fc19dc6, 0x240ca1cc], [0x2de92c6f, 0x4a7484aa, 0x5cb0a9dc, 0x76f988da],
     [0x983e5152, 0xa831c66d, 0xb00327c8, 0xbf597fc7], [0xc6e00bf3, 0xd5a79147, 0x06ca6351, 0x14292967],
     [0x27b70a85, 0x2e1b2138, 0x4d2c6dfc, 0x53380d13], [0x650a7354, 0x766a0abb, 0x81c2c92e, 0x92722c85],
     [0xa2bfe8a1, 0xa81a664b, 0xc24b8b70, 0xc76c51a3], [0xd192e819, 0xd6990624, 0xf40e3585, 0x106aa070],
     [0x19a4c116, 0x1e376c08, 0x2748774c, 0x34b0bcb5], [0x391c0cb3, 0x4ed8aa4a, 0x5b9cca4f, 0x682e6ff3],
     [0x748f82ee, 0x78a5636f, 0x84c87814, 0x8cc70208], [0x90befffa, 0xa4506ceb, 0xbef9a3f7, 0xc67178f2]]"

definition rotr :: "u32 \<Rightarrow> nat \<Rightarrow> u32" where
  "rotr x n = (if n = 0 then x else drop_bit n x OR push_bit (32 - n) x)"

definition Ch :: "u32 \<Rightarrow> u32 \<Rightarrow> u32 \<Rightarrow> u32" where "Ch x y z = (x AND y) XOR (NOT x AND z)"
definition Maj :: "u32 \<Rightarrow> u32 \<Rightarrow> u32 \<Rightarrow> u32" where "Maj x y z = (x AND y) XOR (x AND z) XOR (y AND z)"
definition Sigma0 :: "u32 \<Rightarrow> u32" where "Sigma0 x = rotr x 2 XOR rotr x 13 XOR rotr x 22"
definition Sigma1 :: "u32 \<Rightarrow> u32" where "Sigma1 x = rotr x 6 XOR rotr x 11 XOR rotr x 25"
definition sigma0 :: "u32 \<Rightarrow> u32" where "sigma0 x = rotr x 7 XOR rotr x 18 XOR drop_bit 3 x"
definition sigma1 :: "u32 \<Rightarrow> u32" where "sigma1 x = rotr x 17 XOR rotr x 19 XOR drop_bit 10 x"

definition load_be32 :: "bytes \<Rightarrow> nat \<Rightarrow> u32" where
  "load_be32 p i = push_bit 24 (ucast (p ! i)) OR push_bit 16 (ucast (p ! (i + 1)))
                   OR push_bit 8 (ucast (p ! (i + 2))) OR ucast (p ! (i + 3))"

definition store_be32 :: "u32 \<Rightarrow> bytes" where
  "store_be32 v = [ucast (drop_bit 24 v), ucast (drop_bit 16 v), ucast (drop_bit 8 v), ucast v]"

definition store_be64 :: "u64 \<Rightarrow> bytes" where
  "store_be64 v = [ucast (drop_bit 56 v), ucast (drop_bit 48 v), ucast (drop_bit 40 v), ucast (drop_bit 32 v),
                   ucast (drop_bit 24 v), ucast (drop_bit 16 v), ucast (drop_bit 8 v), ucast v]"

text \<open>The message schedule \<^verbatim>\<open>W\<close>.\<close>

definition schedule :: "bytes \<Rightarrow> u32 list" where
  "schedule block =
     fold (\<lambda>t W. W @ [sigma1 (W ! (t - 2)) + W ! (t - 7) + sigma0 (W ! (t - 15)) + W ! (t - 16)])
       [16..<64] (map (\<lambda>t. load_be32 block (t * 4)) [0..<16])"

type_synonym work = "u32 \<times> u32 \<times> u32 \<times> u32 \<times> u32 \<times> u32 \<times> u32 \<times> u32"

definition sha_round :: "u32 list \<Rightarrow> nat \<Rightarrow> work \<Rightarrow> work" where
  "sha_round W t s =
     (case s of (a, b, c, d, e, f, g, hh) \<Rightarrow>
        let T1 = hh + Sigma1 e + Ch e f g + K ! t + W ! t;
            T2 = Sigma0 a + Maj a b c
        in (T1 + T2, a, b, c, d + T1, e, f, g))"

definition sha_compress :: "u32 list \<Rightarrow> bytes \<Rightarrow> u32 list" where
  "sha_compress h block =
     (let W = schedule block
      in case fold (sha_round W) [0..<64] (h ! 0, h ! 1, h ! 2, h ! 3, h ! 4, h ! 5, h ! 6, h ! 7) of
           (a, b, c, d, e, f, g, hh) \<Rightarrow>
             [h ! 0 + a, h ! 1 + b, h ! 2 + c, h ! 3 + d, h ! 4 + e, h ! 5 + f, h ! 6 + g, h ! 7 + hh])"

text \<open>\<^verbatim>\<open>std::memcpy(buf + at, src, n)\<close>.\<close>

definition blit :: "bytes \<Rightarrow> nat \<Rightarrow> bytes \<Rightarrow> bytes" where
  "blit buf at src = take at buf @ src @ drop (at + length src) buf"

text \<open>The last one or two blocks: remainder, \<^verbatim>\<open>0x80\<close>, length.\<close>

definition final_block :: "bytes \<Rightarrow> bytes" where
  "final_block data =
     (let size = length data;
          remainder = size mod 64;
          buf0 = replicate 128 0;
          buf1 = (if remainder > 0 then blit buf0 0 (drop (size div 64 * 64) data) else buf0);
          buf2 = buf1[remainder := 0x80]
      in if remainder < 56 then blit buf2 56 (store_be64 (of_nat size * 8))
         else blit buf2 120 (store_be64 (of_nat size * 8)))"

definition sha256 :: "bytes \<Rightarrow> bytes" where
  "sha256 data =
     (let size = length data;
          h1 = fold (\<lambda>i h. sha_compress h (take 64 (drop (i * 64) data))) [0..<size div 64] H0;
          final_blocks = (if size mod 64 < 56 then 1 else 2);
          fb = final_block data;
          h2 = fold (\<lambda>i h. sha_compress h (take 64 (drop (i * 64) fb))) [0..<final_blocks] h1
      in concat (map (\<lambda>i. store_be32 (h2 ! i)) [0..<8]))"

definition LABEL :: bytes where
  "LABEL = [0x73, 0x69, 0x67, 0x6E, 0x65, 0x74, 0x2D, 0x66, 0x6F, 0x72, 0x67, 0x65, 0x2D, 0x68, 0x79, 0x62,
            0x72, 0x69, 0x64, 0x2D, 0x6B, 0x65, 0x6D, 0x2D, 0x76, 0x31]"

definition sha256_concat :: "bytes \<Rightarrow> bytes \<Rightarrow> bytes" where
  "sha256_concat a b = sha256 (LABEL @ a @ b)"

section \<open>FIPS 180-4 padding\<close>

text \<open>The number of zero bytes between \<^verbatim>\<open>0x80\<close> and the length.\<close>

definition zero_pad :: "nat \<Rightarrow> nat" where
  "zero_pad n = (if n mod 64 < 56 then 55 - n mod 64 else 119 - n mod 64)"

definition pad :: "bytes \<Rightarrow> bytes" where
  "pad m = m @ 0x80 # replicate (zero_pad (length m)) 0 @ store_be64 (of_nat (length m) * 8)"

definition block_of :: "bytes \<Rightarrow> nat \<Rightarrow> bytes" where
  "block_of m i = take 64 (drop (i * 64) m)"

definition digest :: "u32 list \<Rightarrow> bytes" where
  "digest h = concat (map (\<lambda>i. store_be32 (h ! i)) [0..<8])"

lemma length_store_be64 [simp]: "length (store_be64 v) = 8"
  by (simp add: store_be64_def)

lemma length_digest [simp]: "length (digest h) = 32"
  by (simp add: digest_def store_be32_def sum_list_triv comp_def length_concat)

lemma length_sha256 [simp, size_facts]: "length (sha256 data) = 32"
  unfolding sha256_def Let_def digest_def[symmetric] by simp

lemma div_mod_64: "(n :: nat) = 64 * q + r \<Longrightarrow> r < 64 \<Longrightarrow> n div 64 = q \<and> n mod 64 = r"
  by simp

lemma length_pad: "length (pad m) = 64 * (length m div 64 + (if length m mod 64 < 56 then 1 else 2))"
proof -
  obtain q r where n: "length m = 64 * q + r" "r < 64"
    by (metis mult_div_mod_eq mod_less_divisor zero_less_numeral)
  have "length (pad m) = 64 * q + r + 9 + (if r < 56 then 55 - r else 119 - r)"
    using n div_mod_64[OF n] by (simp add: pad_def zero_pad_def)
  also have "\<dots> = 64 * (q + (if r < 56 then 1 else 2))" using n(2) by (simp split: if_splits)
  finally show ?thesis using div_mod_64[OF n] by simp
qed

text \<open>The buffer of the last blocks is the tail of the padded message.\<close>

lemma final_block_buffer:
  assumes "length t = r" "r < n" "n \<le> 128"
  shows "take n ((t @ replicate (128 - r) 0)[r := 0x80]) = t @ 0x80 # replicate (n - 1 - r) (0 :: u8)"
proof -
  have z: "replicate (128 - r) (0 :: u8) = 0 # replicate (127 - r) 0"
    using assms(2,3) by (simp add: replicate_Suc[symmetric] del: replicate_Suc)
  have "(t @ 0 # replicate (127 - r) 0)[r := 0x80] = t @ 0x80 # replicate (127 - r) (0 :: u8)"
    unfolding assms(1)[symmetric] by (rule list_update_append_len)
  moreover have "n - r = Suc (n - 1 - r)" "min (n - 1 - r) (127 - r) = n - 1 - r" using assms(2,3) by auto
  ultimately show ?thesis unfolding z using assms(1,2) by (simp add: take_Cons')
qed

lemma final_block_pad:
  "take (64 * (if length m mod 64 < 56 then 1 else 2)) (final_block m) = drop (64 * (length m div 64)) (pad m)"
proof -
  obtain q r where n: "length m = 64 * q + r" "r < 64"
    by (metis mult_div_mod_eq mod_less_divisor zero_less_numeral)
  note dm = div_mod_64[OF n]
  define t where "t = drop (q * 64) m"
  define len where "len = store_be64 (of_nat (length m) * 8)"
  have t: "length t = r" using n by (simp add: t_def)
  have b1: "(if r > 0 then blit (replicate 128 0) 0 t else replicate 128 0) = t @ replicate (128 - r) 0"
    using t by (auto simp: blit_def)
  have p: "drop (64 * q) (pad m) = t @ 0x80 # replicate (zero_pad (length m)) 0 @ len"
    using n by (simp add: pad_def t_def len_def mult.commute)
  have f: "final_block m = (if r < 56 then blit ((t @ replicate (128 - r) 0)[r := 0x80]) 56 len
      else blit ((t @ replicate (128 - r) 0)[r := 0x80]) 120 len)"
    unfolding final_block_def Let_def dm[THEN conjunct1] dm[THEN conjunct2] t_def[symmetric] b1 len_def by (rule refl)
  have l: "length len = 8" by (simp add: len_def)
  let ?X = "(t @ replicate (128 - r) 0)[r := 0x80]"
  have blit: "take (n + 8) (blit ?X n len) = take n ?X @ len" if "n \<le> 128" for n
    using that t l n(2) by (simp add: blit_def)
  show ?thesis
  proof (cases "r < 56")
    case True
    have z: "zero_pad (length m) = 55 - r" using True dm by (simp add: zero_pad_def)
    have "take 64 (blit ?X 56 len) = t @ 0x80 # replicate (55 - r) 0 @ len"
      using blit[of 56] final_block_buffer[OF t True] by simp
    then show ?thesis using True dm by (simp add: p f z)
  next
    case False
    have z: "zero_pad (length m) = 119 - r" using False dm by (simp add: zero_pad_def)
    have "take 128 (blit ?X 120 len) = t @ 0x80 # replicate (119 - r) 0 @ len"
      using blit[of 120] final_block_buffer[OF t, of 120] n(2) by simp
    then show ?thesis using False dm by (simp add: p f z)
  qed
qed

section \<open>Properties\<close>

lemma fold_upt_shift: "fold (\<lambda>i. f (i + q)) [0..<n] h = fold f [q..<q + n] h"
  by (induction n) (simp_all add: add.commute)

text \<open>
  Property C28: \<open>sha256\<close> is FIPS 180-4: for every message its digest is the fold of the compression
  function over the 64-byte blocks of the padded message (a whole number of blocks, message first),
  although the code hashes the full blocks in place and assembles only the last one or two.
\<close>

theorem sha256_is_padded_fold:
  "sha256 m = digest (fold (\<lambda>i h. sha_compress h (block_of (pad m) i)) [0..<length (pad m) div 64] H0)
   \<and> length (pad m) mod 64 = 0 \<and> take (length m) (pad m) = m \<and> length (sha256 m) = 32"
proof -
  define q where "q = length m div 64"
  define k where "k = (if length m mod 64 < 56 then 1 else 2 :: nat)"
  have len: "length (pad m) = 64 * (q + k)" unfolding length_pad q_def k_def ..
  have "64 * q \<le> length m" by (simp add: q_def)
  then have full: "block_of (pad m) i = take 64 (drop (i * 64) m)" if "i < q" for i
    using that by (simp add: block_of_def pad_def)
  have fin: "take (64 * k) (final_block m) = drop (64 * q) (pad m)"
    unfolding q_def k_def by (rule final_block_pad)
  have last: "take 64 (drop (i * 64) (final_block m)) = block_of (pad m) (i + q)" if "i < k" for i
  proof -
    have "(i + 1) * 64 \<le> 64 * k" using that by simp
    then have "take 64 (drop (i * 64) (final_block m)) = take 64 (drop (i * 64) (take (64 * k) (final_block m)))"
      by (simp add: drop_take min_def)
    also have "\<dots> = block_of (pad m) (i + q)"
      unfolding fin block_of_def by (simp add: add.commute mult.commute distrib_left)
    finally show ?thesis .
  qed
  have f1: "fold (\<lambda>i h. sha_compress h (take 64 (drop (i * 64) m))) [0..<q] H0
      = fold (\<lambda>i h. sha_compress h (block_of (pad m) i)) [0..<q] H0"
    using full by (intro fold_cong) simp_all
  have f2: "fold (\<lambda>i h. sha_compress h (take 64 (drop (i * 64) (final_block m)))) [0..<k] h
      = fold (\<lambda>i h. sha_compress h (block_of (pad m) i)) [q..<q + k] h" for h
  proof -
    have "fold (\<lambda>i h. sha_compress h (take 64 (drop (i * 64) (final_block m)))) [0..<k] h
        = fold (\<lambda>i h. sha_compress h (block_of (pad m) (i + q))) [0..<k] h"
      using last by (intro fold_cong) simp_all
    then show ?thesis by (simp add: fold_upt_shift[of "\<lambda>i h. sha_compress h (block_of (pad m) i)"])
  qed
  have "sha256 m = digest (fold (\<lambda>i h. sha_compress h (block_of (pad m) i)) ([0..<q] @ [q..<q + k]) H0)"
    unfolding sha256_def Let_def digest_def[symmetric] q_def[symmetric] k_def[symmetric] f1 f2 fold_append comp_apply
    by (rule refl)
  also have "[0..<q] @ [q..<q + k] = [0..<length (pad m) div 64]"
    by (simp add: len upt_add_eq_append[symmetric])
  finally show ?thesis by (simp add: len) (simp add: pad_def)
qed

text \<open>
  The padding is injective on messages below 2 exabytes, so no two of them present the
  compression function with the same blocks.
\<close>

theorem sha256_padding_injective:
  assumes "pad a = pad b" "length a < 2 ^ 61" "length b < 2 ^ 61"
  shows "a = b"
proof -
  have be: "of_le (rev (store_be64 v)) = v" for v :: u64
  proof -
    have "rev (store_be64 v) = to_le 8 v" by (simp add: store_be64_def to_le_def upt_conv_Cons)
    then show ?thesis by (simp add: of_le_to_le)
  qed
  have "rev (pad a) = rev (pad b)" using assms(1) by simp
  then have "take 8 (rev (pad a)) = take 8 (rev (pad b))" by simp
  then have "rev (store_be64 (of_nat (length a) * 8)) = rev (store_be64 (of_nat (length b) * 8))"
    by (simp add: pad_def)
  then have "of_nat (length a) * 8 = (of_nat (length b) * 8 :: u64)" using be by metis
  then have w: "(of_nat (length a * 8) :: u64) = of_nat (length b * 8)" by simp
  have "unat (of_nat (length x * 8) :: u64) = length x * 8" if "length x < 2 ^ 61" for x :: bytes
    unfolding unat_of_nat using that by simp
  from this[OF assms(2)] this[OF assms(3)] have "length a * 8 = length b * 8" unfolding w by argo
  then have l: "length a = length b" by simp
  have "take (length a) (pad a) = a" "take (length b) (pad b) = b" by (simp_all add: pad_def)
  then show ?thesis using assms(1) l by metis
qed

theorem sha256_padding_injective_witness: "pad [1, 2] = pad [1, 2] \<and> [1, 2] = ([1, 2] :: bytes)"
  using sha256_padding_injective[of "[1, 2]" "[1, 2]"] by simp

section \<open>A published vector\<close>

text \<open>The schedule of the one padded block of \<^verbatim>\<open>abc\<close>, and the working variables after each sixteen rounds.\<close>

definition abc_schedule :: "u32 list" where
  "abc_schedule =
    [0x61626380, 0x0, 0x0, 0x0, 0x0, 0x0, 0x0, 0x0,
     0x0, 0x0, 0x0, 0x0, 0x0, 0x0, 0x0, 0x18,
     0x61626380, 0xf0000, 0x7da86405, 0x600003c6, 0x3e9d7b78, 0x183fc00, 0x12dcbfdb, 0xe2e2c38e,
     0xc8215c1a, 0xb73679a2, 0xe5bc3909, 0x32663c5b, 0x9d209d67, 0xec8726cb, 0x702138a4, 0xd3b7973b,
     0x93f5997f, 0x3b68ba73, 0xaff4ffc1, 0xf10a5c62, 0xa8b3996, 0x72af830a, 0x9409e33e, 0x24641522,
     0x9f47bf94, 0xf0a64f5a, 0x3e246a79, 0x27333ba3, 0xc4763f2, 0x840abf27, 0x7a290d5d, 0x65c43da,
     0xfb3e89cb, 0xcc7617db, 0xb9e66c34, 0xa9993667, 0x84badedd, 0xc21462bc, 0x1487472c, 0xb20f7a99,
     0xef57b9cd, 0xebe6b238, 0x9fe3095e, 0x78bc8d4b, 0xa43fcf15, 0x668b2ff8, 0xeeaba2cc, 0x12b1edeb]"

lemma abc_schedule: "schedule (take 64 (final_block [0x61, 0x62, 0x63])) = abc_schedule"
  by code_simp

lemma abc_rounds_0:
  "fold (sha_round abc_schedule) [0..<16]
     (0x6a09e667, 0xbb67ae85, 0x3c6ef372, 0xa54ff53a, 0x510e527f, 0x9b05688c, 0x1f83d9ab, 0x5be0cd19)
   = (0xb0fa238e, 0xc0645fde, 0xd932eb16, 0x87912990, 0x7590dcd, 0xb92f20c, 0x745a48de, 0x1e578218)"
  by code_simp

lemma abc_rounds_16:
  "fold (sha_round abc_schedule) [16..<32]
     (0xb0fa238e, 0xc0645fde, 0xd932eb16, 0x87912990, 0x7590dcd, 0xb92f20c, 0x745a48de, 0x1e578218)
   = (0x73b33bf5, 0xea992a22, 0xa0060b30, 0x363482c9, 0xba591112, 0x109ab3a, 0xade79437, 0x6112a3b7)"
  by code_simp

lemma abc_rounds_32:
  "fold (sha_round abc_schedule) [32..<48]
     (0x73b33bf5, 0xea992a22, 0xa0060b30, 0x363482c9, 0xba591112, 0x109ab3a, 0xade79437, 0x6112a3b7)
   = (0x4172328d, 0xa14c14b0, 0x72ab4b91, 0x26628815, 0xfecf0bc6, 0xd57b94a9, 0xb7755da1, 0xa80f11f0)"
  by code_simp

lemma abc_rounds_48:
  "fold (sha_round abc_schedule) [48..<64]
     (0x4172328d, 0xa14c14b0, 0x72ab4b91, 0x26628815, 0xfecf0bc6, 0xd57b94a9, 0xb7755da1, 0xa80f11f0)
   = (0x506e3058, 0xd39a2165, 0x4d24d6c, 0xb85e2ce9, 0x5ef50f24, 0xfb121210, 0x948d25b6, 0x961f4894)"
  by code_simp

lemma abc_rounds_split: "[0..<64 :: nat] = [0..<16] @ [16..<32] @ [32..<48] @ [48..<64]"
  by (simp add: upt_conv_Cons)

lemma H0_nth:
  "H0 ! 0 = 0x6a09e667" "H0 ! 1 = 0xbb67ae85" "H0 ! 2 = 0x3c6ef372" "H0 ! 3 = 0xa54ff53a"
  "H0 ! 4 = 0x510e527f" "H0 ! 5 = 0x9b05688c" "H0 ! 6 = 0x1f83d9ab" "H0 ! 7 = 0x5be0cd19"
  by (simp_all add: H0_def)

text \<open>
  On the FIPS 180 example message \<^verbatim>\<open>abc\<close> the code gives the published digest; every round
  constant, initial word and rotation amount enters it.
\<close>

theorem sha256_abc:
  "sha256 [0x61, 0x62, 0x63] =
     [0xba, 0x78, 0x16, 0xbf, 0x8f, 0x01, 0xcf, 0xea, 0x41, 0x41, 0x40, 0xde, 0x5d, 0xae, 0x22, 0x23,
      0xb0, 0x03, 0x61, 0xa3, 0x96, 0x17, 0x7a, 0x9c, 0xb4, 0x10, 0xff, 0x61, 0xf2, 0x00, 0x15, 0xad]"
proof -
  have "sha_compress H0 (take 64 (final_block [0x61, 0x62, 0x63])) =
      [0xba7816bf, 0x8f01cfea, 0x414140de, 0x5dae2223, 0xb00361a3, 0x96177a9c, 0xb410ff61, 0xf20015ad]"
    unfolding sha_compress_def Let_def abc_schedule abc_rounds_split fold_append comp_apply H0_nth
      abc_rounds_0 abc_rounds_16 abc_rounds_32 abc_rounds_48 prod.case
    by simp
  then have "sha256 [0x61, 0x62, 0x63] = digest
      [0xba7816bf, 0x8f01cfea, 0x414140de, 0x5dae2223, 0xb00361a3, 0x96177a9c, 0xb410ff61, 0xf20015ad]"
    unfolding sha256_def Let_def digest_def by simp
  also have "\<dots> = [0xba, 0x78, 0x16, 0xbf, 0x8f, 0x01, 0xcf, 0xea, 0x41, 0x41, 0x40, 0xde, 0x5d, 0xae, 0x22, 0x23,
      0xb0, 0x03, 0x61, 0xa3, 0x96, 0x17, 0x7a, 0x9c, 0xb4, 0x10, 0xff, 0x61, 0xf2, 0x00, 0x15, 0xad]"
    by code_simp
  finally show ?thesis .
qed

end
