(* ===== verification/Hkdf.thy ===== *)
theory Hkdf
  imports Sha256
begin

text \<open>
  HMAC-SHA256 and HKDF (\<^verbatim>\<open>crypto/hkdf.hpp\<close>).  The output buffer is passed in and returned, since
  \<open>hkdf_expand\<close> fills it block by block and leaves it untouched when it refuses.  The expansion
  loop is proved over any keyed function with 32-byte values (locale \<open>keyed_hash\<close>), which
  \<open>hmac_sha256\<close> provides; the reference is the block sequence T(1), T(2), ... of RFC 5869.
\<close>

definition SHA256_BLOCK_SIZE :: nat where "SHA256_BLOCK_SIZE = 64"
definition SHA256_HASH_SIZE :: nat where "SHA256_HASH_SIZE = 32"
definition HASH_LEN :: nat where "HASH_LEN = 32"

definition hmac_sha256 :: "bytes \<Rightarrow> bytes \<Rightarrow> bytes" where
  "hmac_sha256 key data =
     (let actual_key = (if length key > SHA256_BLOCK_SIZE then sha256 key else key);
          k_pad = blit (replicate SHA256_BLOCK_SIZE 0) 0 actual_key;
          inner_buf = map (\<lambda>i. k_pad ! i XOR 0x36) [0..<SHA256_BLOCK_SIZE];
          inner_hash = sha256 (inner_buf @ data);
          outer_buf = map (\<lambda>i. k_pad ! i XOR 0x5c) [0..<SHA256_BLOCK_SIZE]
      in sha256 (outer_buf @ inner_hash))"

definition hkdf_extract :: "bytes \<Rightarrow> bytes \<Rightarrow> bytes" where
  "hkdf_extract salt ikm =
     (if salt = [] then hmac_sha256 (replicate 32 0) ikm else hmac_sha256 salt ikm)"

text \<open>One turn of the expansion loop: the state is \<^verbatim>\<open>t_prev\<close>, \<^verbatim>\<open>offset\<close> and the output buffer.\<close>

definition expand_step ::
  "(bytes \<Rightarrow> bytes \<Rightarrow> bytes) \<Rightarrow> bytes \<Rightarrow> bytes \<Rightarrow> nat \<Rightarrow> nat \<Rightarrow> bytes \<times> nat \<times> bytes \<Rightarrow> bytes \<times> nat \<times> bytes" where
  "expand_step mac prk info output_size i s =
     (case s of (t_prev, offset, output) \<Rightarrow>
        let msg = t_prev @ info @ [of_nat i];
            t_i = mac prk msg;
            copy_len = min HASH_LEN (output_size - offset)
        in (t_i, offset + copy_len, blit output offset (take copy_len t_i)))"

definition expand_loop ::
  "(bytes \<Rightarrow> bytes \<Rightarrow> bytes) \<Rightarrow> bytes \<Rightarrow> bytes \<Rightarrow> bytes \<Rightarrow> nat \<Rightarrow> bool \<times> bytes" where
  "expand_loop mac prk info output output_size =
     (if output_size > 255 * HASH_LEN then (False, output)
      else let n = (output_size + HASH_LEN - 1) div HASH_LEN
           in (True, snd (snd (fold (expand_step mac prk info output_size) [1..<n + 1] ([], 0, output)))))"

definition hkdf_expand :: "bytes \<Rightarrow> bytes \<Rightarrow> bytes \<Rightarrow> nat \<Rightarrow> bool \<times> bytes" where
  "hkdf_expand prk info output output_size = expand_loop hmac_sha256 prk info output output_size"

definition hkdf :: "bytes \<Rightarrow> bytes \<Rightarrow> bytes \<Rightarrow> bytes \<Rightarrow> nat \<Rightarrow> bool \<times> bytes" where
  "hkdf salt ikm info output output_size =
     (let prk = hkdf_extract salt ikm in hkdf_expand prk info output output_size)"

section \<open>HMAC\<close>

lemma length_hmac [simp, size_facts]: "length (hmac_sha256 key data) = 32"
  by (simp add: hmac_sha256_def Let_def)

text \<open>
  What the HMAC key means.  A key longer than the hash block acts as its digest, a
  shorter one as itself followed by zeros: two keys of at most 64 bytes that differ in trailing zeros
  authenticate alike, and a missing HKDF salt is every all-zero salt of up to 64 bytes.
\<close>

theorem hmac_key_classes:
  "(length key > 64 \<longrightarrow> hmac_sha256 key data = hmac_sha256 (sha256 key) data)
   \<and> (length key + n \<le> 64 \<longrightarrow> hmac_sha256 (key @ replicate n 0) data = hmac_sha256 key data)
   \<and> (n \<le> 64 \<longrightarrow> hkdf_extract (replicate n 0) ikm = hkdf_extract [] ikm)"
proof -
  have "hmac_sha256 key data = hmac_sha256 (sha256 key) data" if "length key > 64"
    using that by (simp add: hmac_sha256_def Let_def SHA256_BLOCK_SIZE_def)
  moreover have pad: "hmac_sha256 (k @ replicate m 0) d = hmac_sha256 k d" if "length k + m \<le> 64" for k m d
  proof -
    have "replicate (64 - length k) (0 :: u8) = replicate m 0 @ replicate (64 - (length k + m)) 0"
      using that by (simp add: replicate_add[symmetric])
    then show ?thesis
      using that by (simp add: hmac_sha256_def Let_def SHA256_BLOCK_SIZE_def blit_def)
  qed
  moreover have "hkdf_extract (replicate n 0) ikm = hkdf_extract [] ikm" if "n \<le> 64"
    using pad[of "[]" n ikm] pad[of "[]" 32 ikm] that by (simp add: hkdf_extract_def)
  ultimately show ?thesis by blast
qed

theorem hmac_key_classes_witness:
  "hmac_sha256 [7, 0, 0] [1] = hmac_sha256 [7] [1] \<and> hkdf_extract [0, 0] [1] = hkdf_extract [] [1]
   \<and> hmac_sha256 (replicate 65 1) [1] = hmac_sha256 (sha256 (replicate 65 1)) [1]"
  using hmac_key_classes[of "replicate 65 1" "[1]" 2 "[1]"] hmac_key_classes[of "[7]" "[1]" 2 "[1]"]
  by (simp add: numeral_2_eq_2)

section \<open>Expansion\<close>

text \<open>RFC 5869: T(0) is empty, T(i) = HMAC(PRK, T(i-1) | info | i).\<close>

fun T :: "(bytes \<Rightarrow> bytes \<Rightarrow> bytes) \<Rightarrow> bytes \<Rightarrow> bytes \<Rightarrow> nat \<Rightarrow> bytes" where
  "T mac prk info 0 = []"
| "T mac prk info (Suc i) = mac prk (T mac prk info i @ info @ [of_nat (Suc i)])"

definition okm :: "(bytes \<Rightarrow> bytes \<Rightarrow> bytes) \<Rightarrow> bytes \<Rightarrow> bytes \<Rightarrow> nat \<Rightarrow> bytes" where
  "okm mac prk info n = concat (map (T mac prk info) [1..<n + 1])"

locale keyed_hash =
  fixes mac :: "bytes \<Rightarrow> bytes \<Rightarrow> bytes"
  assumes mac_length [simp]: "length (mac key data) = 32"
begin

lemma length_T: "length (T mac prk info (Suc i)) = 32"
  by simp

lemma length_okm: "length (okm mac prk info n) = 32 * n"
  by (induction n) (simp_all add: okm_def)

lemma okm_Suc: "okm mac prk info (Suc n) = okm mac prk info n @ T mac prk info (Suc n)"
  by (simp add: okm_def)

text \<open>After \<open>k\<close> turns the buffer holds the first \<open>min (32 * k) L\<close> bytes of the key stream.\<close>

lemma expand_turns:
  assumes "L \<le> length out" "32 * k < L + 32"
  shows "fold (expand_step mac prk info L) [1..<k + 1] ([], 0, out)
    = (T mac prk info k, min (32 * k) L, take L (okm mac prk info k) @ drop (min (32 * k) L) out)"
  using assms(2)
proof (induction k)
  case 0
  then show ?case by (simp add: okm_def)
next
  case (Suc k)
  then have k: "32 * k < L" by simp
  have l: "length (okm mac prk info k) = 32 * k" "length (T mac prk info (Suc k)) = 32"
    by (simp_all add: length_okm)
  let ?c = "min 32 (L - 32 * k)"
  have c: "32 * k + ?c = min (32 * Suc k) L" using k by simp
  have "fold (expand_step mac prk info L) [1..<Suc k + 1] ([], 0, out)
      = expand_step mac prk info L (Suc k) (T mac prk info k, 32 * k, okm mac prk info k @ drop (32 * k) out)"
    using Suc.IH k l by simp
  also have "\<dots> = (T mac prk info (Suc k), 32 * k + ?c,
      okm mac prk info k @ take ?c (T mac prk info (Suc k)) @ drop (32 * k + ?c) out)"
    using l k assms(1) by (simp add: expand_step_def Let_def HASH_LEN_def blit_def add.commute)
  moreover have "take L (okm mac prk info (Suc k)) = okm mac prk info k @ take ?c (T mac prk info (Suc k))"
    using l k by (simp add: okm_Suc min_def)
  ultimately show ?case unfolding c by (metis append.assoc)
qed

lemma expand_loop_okm:
  assumes "length out = L"
  shows "expand_loop mac prk info out L
    = (if L \<le> 8160 then (True, take L (okm mac prk info 255)) else (False, out))"
proof (cases "L \<le> 8160")
  case True
  define n where "n = (L + 31) div 32"
  have n: "32 * n < L + 32" "L \<le> 32 * n" "n \<le> 255" using True by (simp_all add: n_def)
  have split: "okm mac prk info (n + m) = okm mac prk info n @ concat (map (T mac prk info) [n + 1..<n + m + 1])" for m
    by (induction m) (simp_all add: okm_def)
  from split[of "255 - n"] n(3) obtain r where "okm mac prk info 255 = okm mac prk info n @ r" by simp
  then have "take L (okm mac prk info 255) = take L (okm mac prk info n)"
    using n(2) by (simp add: length_okm)
  moreover have "fold (expand_step mac prk info L) [1..<n + 1] ([], 0, out)
      = (T mac prk info n, L, take L (okm mac prk info n))"
    using expand_turns[of L out n prk info] n(1,2) assms by (simp add: min_def del: upt_Suc)
  moreover have "(L + HASH_LEN - 1) div HASH_LEN = n" by (simp add: n_def HASH_LEN_def)
  ultimately show ?thesis using True by (simp add: expand_loop_def HASH_LEN_def Let_def del: upt_Suc)
qed (simp add: expand_loop_def HASH_LEN_def)

end

interpretation hmac: keyed_hash hmac_sha256
  by unfold_locales simp

text \<open>
  \<open>hkdf\<close> is RFC 5869.  For every salt, key, info and output size up to 8160 bytes it
  succeeds and writes exactly the first bytes of T(1) | T(2) | ..., with no byte of the buffer left
  over; above 8160 it reports failure and leaves the buffer as it was.
\<close>

theorem hkdf_rfc5869:
  assumes "length out = L"
  shows "hkdf salt ikm info out L
    = (if L \<le> 8160 then (True, take L (okm hmac_sha256 (hkdf_extract salt ikm) info 255)) else (False, out))"
  using hmac.expand_loop_okm[OF assms] by (simp add: hkdf_def hkdf_expand_def Let_def)

theorem hkdf_rfc5869_witness:
  "hkdf [] [1] [2] (replicate 40 0) 40 = (True, take 40 (okm hmac_sha256 (hkdf_extract [] [1]) [2] 255))
   \<and> hkdf [] [1] [2] (replicate 8161 0) 8161 = (False, replicate 8161 0)"
  using hkdf_rfc5869[of "replicate 40 0" 40 "[]" "[1]" "[2]"]
    hkdf_rfc5869[of "replicate 8161 0" 8161 "[]" "[1]" "[2]"] by simp

text \<open>
  Longer outputs extend shorter ones: asking for fewer bytes under the same inputs
  gives a prefix, so keys of different lengths drawn with one \<^verbatim>\<open>info\<close> are not independent.
\<close>

theorem hkdf_prefix:
  assumes "L \<le> M" "M \<le> 8160" "length out = L" "length out' = M"
  shows "snd (hkdf salt ikm info out L) = take L (snd (hkdf salt ikm info out' M))"
  using assms hmac.expand_loop_okm[OF assms(3)] hmac.expand_loop_okm[OF assms(4)]
  by (simp add: hkdf_def hkdf_expand_def Let_def min_def)

theorem hkdf_prefix_witness:
  "snd (hkdf [] [1] [2] (replicate 3 0) 3) = take 3 (snd (hkdf [] [1] [2] (replicate 40 0) 40))"
  using hkdf_prefix[of 3 40 "replicate 3 0" "replicate 40 0" "[]" "[1]" "[2]"] by simp

end
