(* ===== verification/Aes.thy ===== *)
theory Aes
  imports Prelude
begin

text \<open>
  The AES-256 block cipher (\<^verbatim>\<open>crypto/aes_core.hpp\<close>): tables, the field multiplication, the key
  expansion and the two block operations.  The object is its 240-byte round-key array.  The prefetch
  loops, \<^verbatim>\<open>secure_zero\<close> and the hardware detection have no effect on a result and are left out.
  \<open>block_cipher\<close> is the interface the modes of operation use.
\<close>

definition SBOX :: bytes where
  "SBOX =
    [0x63, 0x7c, 0x77, 0x7b, 0xf2, 0x6b, 0x6f, 0xc5, 0x30, 0x01, 0x67, 0x2b, 0xfe, 0xd7, 0xab, 0x76,
     0xca, 0x82, 0xc9, 0x7d, 0xfa, 0x59, 0x47, 0xf0, 0xad, 0xd4, 0xa2, 0xaf, 0x9c, 0xa4, 0x72, 0xc0,
     0xb7, 0xfd, 0x93, 0x26, 0x36, 0x3f, 0xf7, 0xcc, 0x34, 0xa5, 0xe5, 0xf1, 0x71, 0xd8, 0x31, 0x15,
     0x04, 0xc7, 0x23, 0xc3, 0x18, 0x96, 0x05, 0x9a, 0x07, 0x12, 0x80, 0xe2, 0xeb, 0x27, 0xb2, 0x75,
     0x09, 0x83, 0x2c, 0x1a, 0x1b, 0x6e, 0x5a, 0xa0, 0x52, 0x3b, 0xd6, 0xb3, 0x29, 0xe3, 0x2f, 0x84,
     0x53, 0xd1, 0x00, 0xed, 0x20, 0xfc, 0xb1, 0x5b, 0x6a, 0xcb, 0xbe, 0x39, 0x4a, 0x4c, 0x58, 0xcf,
     0xd0, 0xef, 0xaa, 0xfb, 0x43, 0x4d, 0x33, 0x85, 0x45, 0xf9, 0x02, 0x7f, 0x50, 0x3c, 0x9f, 0xa8,
     0x51, 0xa3, 0x40, 0x8f, 0x92, 0x9d, 0x38, 0xf5, 0xbc, 0xb6, 0xda, 0x21, 0x10, 0xff, 0xf3, 0xd2,
     0xcd, 0x0c, 0x13, 0xec, 0x5f, 0x97, 0x44, 0x17, 0xc4, 0xa7, 0x7e, 0x3d, 0x64, 0x5d, 0x19, 0x73,
     0x60, 0x81, 0x4f, 0xdc, 0x22, 0x2a, 0x90, 0x88, 0x46, 0xee, 0xb8, 0x14, 0xde, 0x5e, 0x0b, 0xdb,
     0xe0, 0x32, 0x3a, 0x0a, 0x49, 0x06, 0x24, 0x5c, 0xc2, 0xd3, 0xac, 0x62, 0x91, 0x95, 0xe4, 0x79,
     0xe7, 0xc8, 0x37, 0x6d, 0x8d, 0xd5, 0x4e, 0xa9, 0x6c, 0x56, 0xf4, 0xea, 0x65, 0x7a, 0xae, 0x08,
     0xba, 0x78, 0x25, 0x2e, 0x1c, 0xa6, 0xb4, 0xc6, 0xe8, 0xdd, 0x74, 0x1f, 0x4b, 0xbd, 0x8b, 0x8a,
     0x70, 0x3e, 0xb5, 0x66, 0x48, 0x03, 0xf6, 0x0e, 0x61, 0x35, 0x57, 0xb9, 0x86, 0xc1, 0x1d, 0x9e,
     0xe1, 0xf8, 0x98, 0x11, 0x69, 0xd9, 0x8e, 0x94, 0x9b, 0x1e, 0x87, 0xe9, 0xce, 0x55, 0x28, 0xdf,
     0x8c, 0xa1, 0x89, 0x0d, 0xbf, 0xe6, 0x42, 0x68, 0x41, 0x99, 0x2d, 0x0f, 0xb0, 0x54, 0xbb, 0x16]"

definition INV_SBOX :: bytes where
  "INV_SBOX =
    [0x52, 0x09, 0x6a, 0xd5, 0x30, 0x36, 0xa5, 0x38, 0xbf, 0x40, 0xa3, 0x9e, 0x81, 0xf3, 0xd7, 0xfb,
     0x7c, 0xe3, 0x39, 0x82, 0x9b, 0x2f, 0xff, 0x87, 0x34, 0x8e, 0x43, 0x44, 0xc4, 0xde, 0xe9, 0xcb,
     0x54, 0x7b, 0x94, 0x32, 0xa6, 0xc2, 0x23, 0x3d, 0xee, 0x4c, 0x95, 0x0b, 0x42, 0xfa, 0xc3, 0x4e,
     0x08, 0x2e, 0xa1, 0x66, 0x28, 0xd9, 0x24, 0xb2, 0x76, 0x5b, 0xa2, 0x49, 0x6d, 0x8b, 0xd1, 0x25,
     0x72, 0xf8, 0xf6, 0x64, 0x86, 0x68, 0x98, 0x16, 0xd4, 0xa4, 0x5c, 0xcc, 0x5d, 0x65, 0xb6, 0x92,
     0x6c, 0x70, 0x48, 0x50, 0xfd, 0xed, 0xb9, 0xda, 0x5e, 0x15, 0x46, 0x57, 0xa7, 0x8d, 0x9d, 0x84,
     0x90, 0xd8, 0xab, 0x00, 0x8c, 0xbc, 0xd3, 0x0a, 0xf7, 0xe4, 0x58, 0x05, 0xb8, 0xb3, 0x45, 0x06,
     0xd0, 0x2c, 0x1e, 0x8f, 0xca, 0x3f, 0x0f, 0x02, 0xc1, 0xaf, 0xbd, 0x03, 0x01, 0x13, 0x8a, 0x6b,
     0x3a, 0x91, 0x11, 0x41, 0x4f, 0x67, 0xdc, 0xea, 0x97, 0xf2, 0xcf, 0xce, 0xf0, 0xb4, 0xe6, 0x73,
     0x96, 0xac, 0x74, 0x22, 0xe7, 0xad, 0x35, 0x85, 0xe2, 0xf9, 0x37, 0xe8, 0x1c, 0x75, 0xdf, 0x6e,
     0x47, 0xf1, 0x1a, 0x71, 0x1d, 0x29, 0xc5, 0x89, 0x6f, 0xb7, 0x62, 0x0e, 0xaa, 0x18, 0xbe, 0x1b,
     0xfc, 0x56, 0x3e, 0x4b, 0xc6, 0xd2, 0x79, 0x20, 0x9a, 0xdb, 0xc0, 0xfe, 0x78, 0xcd, 0x5a, 0xf4,
     0x1f, 0xdd, 0xa8, 0x33, 0x88, 0x07, 0xc7, 0x31, 0xb1, 0x12, 0x10, 0x59, 0x27, 0x80, 0xec, 0x5f,
     0x60, 0x51, 0x7f, 0xa9, 0x19, 0xb5, 0x4a, 0x0d, 0x2d, 0xe5, 0x7a, 0x9f, 0x93, 0xc9, 0x9c, 0xef,
     0xa0, 0xe0, 0x3b, 0x4d, 0xae, 0x2a, 0xf5, 0xb0, 0xc8, 0xeb, 0xbb, 0x3c, 0x83, 0x53, 0x99, 0x61,
     0x17, 0x2b, 0x04, 0x7e, 0xba, 0x77, 0xd6, 0x26, 0xe1, 0x69, 0x14, 0x63, 0x55, 0x21, 0x0c, 0x7d]"

definition RCON :: bytes where
  "RCON = [0x01, 0x02, 0x04, 0x08, 0x10, 0x20, 0x40, 0x80, 0x1b, 0x36]"

definition xtime :: "u8 \<Rightarrow> u8" where
  "xtime a = push_bit 1 a XOR (if a AND 0x80 \<noteq> 0 then 0x1b else 0)"

text \<open>The loop of \<open>gf_mul\<close>: \<open>n\<close> turns left.\<close>

fun gf_loop :: "nat \<Rightarrow> u8 \<Rightarrow> u8 \<Rightarrow> u8 \<Rightarrow> u8" where
  "gf_loop 0 result a b = result"
| "gf_loop (Suc n) result a b =
     gf_loop n (result XOR (a AND (0 - (b AND 1))))
       (push_bit 1 a XOR (0x1b AND (0 - drop_bit 7 a))) (drop_bit 1 b)"

definition gf_mul :: "u8 \<Rightarrow> u8 \<Rightarrow> u8" where
  "gf_mul a b = gf_loop 8 0 a b"

definition sub_word :: "bytes \<Rightarrow> bytes" where
  "sub_word w = map (\<lambda>b. SBOX ! unat b) w"

definition rot_word :: "bytes \<Rightarrow> bytes" where
  "rot_word w = [w ! 1, w ! 2, w ! 3, w ! 0]"

definition NK :: nat where "NK = 8"
definition NUM_ROUNDS :: nat where "NUM_ROUNDS = 14"
definition TOTAL_WORDS :: nat where "TOTAL_WORDS = 4 * (NUM_ROUNDS + 1)"

text \<open>One turn of the key expansion: \<open>rk\<close> holds the first \<open>i\<close> words.\<close>

definition expansion_step :: "nat \<Rightarrow> bytes \<Rightarrow> bytes" where
  "expansion_step i rk =
     (let temp0 = take 4 (drop ((i - 1) * 4) rk);
          temp = (if i mod NK = 0 then
                    (let s = sub_word (rot_word temp0) in s[0 := s ! 0 XOR RCON ! (i div NK - 1)])
                  else if i mod NK = 4 then sub_word temp0
                  else temp0)
      in rk @ map (\<lambda>j. rk ! ((i - NK) * 4 + j) XOR temp ! j) [0..<4])"

definition key_expansion :: "bytes \<Rightarrow> bytes" where
  "key_expansion key = fold expansion_step [NK..<TOTAL_WORDS] key"

definition add_round_key :: "bytes \<Rightarrow> nat \<Rightarrow> bytes \<Rightarrow> bytes" where
  "add_round_key rk round block = map (\<lambda>i. block ! i XOR rk ! (round * 16 + i)) [0..<16]"

definition sub_bytes :: "bytes \<Rightarrow> bytes" where
  "sub_bytes block = map (\<lambda>i. SBOX ! unat (block ! i)) [0..<16]"

definition inv_sub_bytes :: "bytes \<Rightarrow> bytes" where
  "inv_sub_bytes block = map (\<lambda>i. INV_SBOX ! unat (block ! i)) [0..<16]"

text \<open>The cyclic assignments of the two row shifts, as the block they leave.\<close>

definition shift_rows :: "bytes \<Rightarrow> bytes" where
  "shift_rows b =
     [b ! 0, b ! 5, b ! 10, b ! 15, b ! 4, b ! 9, b ! 14, b ! 3,
      b ! 8, b ! 13, b ! 2, b ! 7, b ! 12, b ! 1, b ! 6, b ! 11]"

definition inv_shift_rows :: "bytes \<Rightarrow> bytes" where
  "inv_shift_rows b =
     [b ! 0, b ! 13, b ! 10, b ! 7, b ! 4, b ! 1, b ! 14, b ! 11,
      b ! 8, b ! 5, b ! 2, b ! 15, b ! 12, b ! 9, b ! 6, b ! 3]"

definition mix_column :: "u8 \<Rightarrow> u8 \<Rightarrow> u8 \<Rightarrow> u8 \<Rightarrow> bytes" where
  "mix_column s0 s1 s2 s3 =
     [gf_mul 2 s0 XOR gf_mul 3 s1 XOR s2 XOR s3,
      s0 XOR gf_mul 2 s1 XOR gf_mul 3 s2 XOR s3,
      s0 XOR s1 XOR gf_mul 2 s2 XOR gf_mul 3 s3,
      gf_mul 3 s0 XOR s1 XOR s2 XOR gf_mul 2 s3]"

definition mix_columns :: "bytes \<Rightarrow> bytes" where
  "mix_columns block =
     concat (map (\<lambda>col. let i = col * 4 in mix_column (block ! i) (block ! (i + 1)) (block ! (i + 2)) (block ! (i + 3)))
       [0..<4])"

definition inv_mix_column :: "u8 \<Rightarrow> u8 \<Rightarrow> u8 \<Rightarrow> u8 \<Rightarrow> bytes" where
  "inv_mix_column s0 s1 s2 s3 =
     [gf_mul 14 s0 XOR gf_mul 11 s1 XOR gf_mul 13 s2 XOR gf_mul 9 s3,
      gf_mul 9 s0 XOR gf_mul 14 s1 XOR gf_mul 11 s2 XOR gf_mul 13 s3,
      gf_mul 13 s0 XOR gf_mul 9 s1 XOR gf_mul 14 s2 XOR gf_mul 11 s3,
      gf_mul 11 s0 XOR gf_mul 13 s1 XOR gf_mul 9 s2 XOR gf_mul 14 s3]"

definition inv_mix_columns :: "bytes \<Rightarrow> bytes" where
  "inv_mix_columns block =
     concat (map (\<lambda>col. let i = col * 4 in inv_mix_column (block ! i) (block ! (i + 1)) (block ! (i + 2)) (block ! (i + 3)))
       [0..<4])"

definition encrypt_block :: "bytes \<Rightarrow> bytes \<Rightarrow> bytes" where
  "encrypt_block rk block =
     (let b0 = add_round_key rk 0 block;
          b13 = fold (\<lambda>round b. add_round_key rk round (mix_columns (shift_rows (sub_bytes b)))) [1..<NUM_ROUNDS] b0
      in add_round_key rk NUM_ROUNDS (shift_rows (sub_bytes b13)))"

definition decrypt_block :: "bytes \<Rightarrow> bytes \<Rightarrow> bytes" where
  "decrypt_block rk block =
     (let b14 = add_round_key rk NUM_ROUNDS block;
          b1 = fold (\<lambda>round b. inv_mix_columns (add_round_key rk round (inv_sub_bytes (inv_shift_rows b))))
                 (rev [1..<NUM_ROUNDS]) b14
      in add_round_key rk 0 (inv_sub_bytes (inv_shift_rows b1)))"

section \<open>The field multiplication is linear\<close>

text \<open>Two XOR-linear functions that agree on the powers of two are equal.\<close>

definition xor_linear :: "('a::len word \<Rightarrow> 'b::len word) \<Rightarrow> bool" where
  "xor_linear f \<longleftrightarrow> (\<forall>v w. f (v XOR w) = f v XOR f w)"

lemma xor_linear_zero: "xor_linear f \<Longrightarrow> f 0 = 0"
  by (metis xor_linear_def xor_self_eq)

lemma xor_linear_eqI:
  fixes f g :: "'a::len word \<Rightarrow> 'b::len word"
  assumes "xor_linear f" "xor_linear g" "\<And>i. i < LENGTH('a) \<Longrightarrow> f (push_bit i 1) = g (push_bit i 1)"
  shows "f w = g w"
proof -
  have "f (take_bit n w) = g (take_bit n w)" if "n \<le> LENGTH('a)" for n
    using that
  proof (induction n)
    case 0
    then show ?case using assms(1,2) by (simp add: xor_linear_zero)
  next
    case (Suc n)
    have e: "take_bit (Suc n) w = take_bit n w XOR (if bit w n then push_bit n 1 else 0)"
      using Suc.prems
      by (intro bit_word_eqI) (auto simp: bit_take_bit_iff bit_xor_iff bit_exp_iff possible_bit_word less_Suc_eq)
    show ?case unfolding e
      using Suc assms by (auto simp: xor_linear_def xor_linear_zero[OF assms(1)] xor_linear_zero[OF assms(2)])
  qed
  from this[of "LENGTH('a)"] show ?thesis by simp
qed

lemma mask_low_bit: "(0 :: 'a::len word) - (b AND 1) = (if bit b 0 then - 1 else 0)"
  by (simp add: and_one_eq bit_0 mod_2_eq_odd)

lemma gf_loop_linear:
  "gf_loop n (r XOR r') a (b XOR b') = gf_loop n r a b XOR gf_loop n r' a b'"
proof (induction n arbitrary: r r' a b b')
  case (Suc n)
  have m: "a AND (0 - ((b XOR b') AND 1)) = (a AND (0 - (b AND 1))) XOR (a AND (0 - (b' AND 1)))"
    unfolding mask_low_bit by (auto simp: bit_xor_iff)
  have e: "(r XOR r') XOR (a AND (0 - ((b XOR b') AND 1)))
      = (r XOR (a AND (0 - (b AND 1)))) XOR (r' XOR (a AND (0 - (b' AND 1))))"
    unfolding m by (simp add: xor.assoc xor.left_commute)
  show ?case unfolding gf_loop.simps drop_bit_xor e by (rule Suc.IH)
qed simp

lemma gf_mul_linear: "gf_mul a (b XOR b') = gf_mul a b XOR gf_mul a b'"
  using gf_loop_linear[of 8 0 0 a b b'] by (simp add: gf_mul_def)

lemma gf_mul_zero [simp]: "gf_mul a 0 = 0"
  using gf_mul_linear[of a 0 0] by simp

lemma xor_linear_gf_mul [intro]: "xor_linear f \<Longrightarrow> xor_linear (\<lambda>s. gf_mul a (f s))"
  by (simp add: xor_linear_def gf_mul_linear)

lemma xor_linear_id [intro]: "xor_linear (\<lambda>s. s)"
  by (simp add: xor_linear_def)

lemma xor_linear_const0 [intro]: "xor_linear (\<lambda>s. 0)"
  by (simp add: xor_linear_def)

lemma xor_linear_xor [intro]: "xor_linear f \<Longrightarrow> xor_linear g \<Longrightarrow> xor_linear (\<lambda>s. f s XOR g s)"
  by (auto simp: xor_linear_def xor.assoc xor.left_commute)

lemma less_8_cases: "i < (8 :: nat) \<Longrightarrow> i = 0 \<or> i = 1 \<or> i = 2 \<or> i = 3 \<or> i = 4 \<or> i = 5 \<or> i = 6 \<or> i = 7"
  by auto

text \<open>The products of the two circulant matrices: the identity, entry by entry.\<close>

lemma gf_products:
  "\<forall>i \<in> set [0..<8]. let s = push_bit i 1 in
     gf_mul 14 (gf_mul 2 s) XOR gf_mul 11 s XOR gf_mul 13 s XOR gf_mul 9 (gf_mul 3 s) = s
     \<and> gf_mul 14 (gf_mul 3 s) XOR gf_mul 11 (gf_mul 2 s) XOR gf_mul 13 s XOR gf_mul 9 s = 0
     \<and> gf_mul 14 s XOR gf_mul 11 (gf_mul 3 s) XOR gf_mul 13 (gf_mul 2 s) XOR gf_mul 9 s = 0
     \<and> gf_mul 14 s XOR gf_mul 11 s XOR gf_mul 13 (gf_mul 3 s) XOR gf_mul 9 (gf_mul 2 s) = 0"
  by code_simp

lemma inv_mix_entries:
  "gf_mul 14 (gf_mul 2 s) XOR gf_mul 11 s XOR gf_mul 13 s XOR gf_mul 9 (gf_mul 3 s) = s"
  "gf_mul 14 (gf_mul 3 s) XOR gf_mul 11 (gf_mul 2 s) XOR gf_mul 13 s XOR gf_mul 9 s = 0"
  "gf_mul 14 s XOR gf_mul 11 (gf_mul 3 s) XOR gf_mul 13 (gf_mul 2 s) XOR gf_mul 9 s = 0"
  "gf_mul 14 s XOR gf_mul 11 s XOR gf_mul 13 (gf_mul 3 s) XOR gf_mul 9 (gf_mul 2 s) = 0"
proof -
  note at = gf_products[unfolded Let_def, THEN bspec]
  note lin = xor_linear_xor xor_linear_gf_mul xor_linear_id xor_linear_const0
  show "gf_mul 14 (gf_mul 2 s) XOR gf_mul 11 s XOR gf_mul 13 s XOR gf_mul 9 (gf_mul 3 s) = s"
    by (rule xor_linear_eqI[where g = "\<lambda>s. s"], (intro lin)+) (use at in simp)
  show "gf_mul 14 (gf_mul 3 s) XOR gf_mul 11 (gf_mul 2 s) XOR gf_mul 13 s XOR gf_mul 9 s = 0"
    by (rule xor_linear_eqI[where g = "\<lambda>s. 0"], (intro lin)+) (use at in simp)
  show "gf_mul 14 s XOR gf_mul 11 (gf_mul 3 s) XOR gf_mul 13 (gf_mul 2 s) XOR gf_mul 9 s = 0"
    by (rule xor_linear_eqI[where g = "\<lambda>s. 0"], (intro lin)+) (use at in simp)
  show "gf_mul 14 s XOR gf_mul 11 s XOR gf_mul 13 (gf_mul 3 s) XOR gf_mul 9 (gf_mul 2 s) = 0"
    by (rule xor_linear_eqI[where g = "\<lambda>s. 0"], (intro lin)+) (use at in simp)
qed

lemmas xor_ac = xor.assoc xor.commute xor.left_commute

lemma inv_mix_mix_column:
  fixes s0 s1 s2 s3 :: u8
  defines "m \<equiv> mix_column s0 s1 s2 s3"
  shows "inv_mix_column (m ! 0) (m ! 1) (m ! 2) (m ! 3) = [s0, s1, s2, s3]"
proof -
  have "gf_mul 14 (m ! 0) XOR gf_mul 11 (m ! 1) XOR gf_mul 13 (m ! 2) XOR gf_mul 9 (m ! 3)
      = (gf_mul 14 (gf_mul 2 s0) XOR gf_mul 11 s0 XOR gf_mul 13 s0 XOR gf_mul 9 (gf_mul 3 s0))
        XOR (gf_mul 14 (gf_mul 3 s1) XOR gf_mul 11 (gf_mul 2 s1) XOR gf_mul 13 s1 XOR gf_mul 9 s1)
        XOR (gf_mul 14 s2 XOR gf_mul 11 (gf_mul 3 s2) XOR gf_mul 13 (gf_mul 2 s2) XOR gf_mul 9 s2)
        XOR (gf_mul 14 s3 XOR gf_mul 11 s3 XOR gf_mul 13 (gf_mul 3 s3) XOR gf_mul 9 (gf_mul 2 s3))"
    by (simp add: m_def mix_column_def gf_mul_linear xor_ac)
  then have r0: "gf_mul 14 (m ! 0) XOR gf_mul 11 (m ! 1) XOR gf_mul 13 (m ! 2) XOR gf_mul 9 (m ! 3) = s0"
    unfolding inv_mix_entries by simp
  have "gf_mul 9 (m ! 0) XOR gf_mul 14 (m ! 1) XOR gf_mul 11 (m ! 2) XOR gf_mul 13 (m ! 3)
      = (gf_mul 14 s0 XOR gf_mul 11 s0 XOR gf_mul 13 (gf_mul 3 s0) XOR gf_mul 9 (gf_mul 2 s0))
        XOR (gf_mul 14 (gf_mul 2 s1) XOR gf_mul 11 s1 XOR gf_mul 13 s1 XOR gf_mul 9 (gf_mul 3 s1))
        XOR (gf_mul 14 (gf_mul 3 s2) XOR gf_mul 11 (gf_mul 2 s2) XOR gf_mul 13 s2 XOR gf_mul 9 s2)
        XOR (gf_mul 14 s3 XOR gf_mul 11 (gf_mul 3 s3) XOR gf_mul 13 (gf_mul 2 s3) XOR gf_mul 9 s3)"
    by (simp add: m_def mix_column_def gf_mul_linear xor_ac)
  then have r1: "gf_mul 9 (m ! 0) XOR gf_mul 14 (m ! 1) XOR gf_mul 11 (m ! 2) XOR gf_mul 13 (m ! 3) = s1"
    unfolding inv_mix_entries by simp
  have "gf_mul 13 (m ! 0) XOR gf_mul 9 (m ! 1) XOR gf_mul 14 (m ! 2) XOR gf_mul 11 (m ! 3)
      = (gf_mul 14 s0 XOR gf_mul 11 (gf_mul 3 s0) XOR gf_mul 13 (gf_mul 2 s0) XOR gf_mul 9 s0)
        XOR (gf_mul 14 s1 XOR gf_mul 11 s1 XOR gf_mul 13 (gf_mul 3 s1) XOR gf_mul 9 (gf_mul 2 s1))
        XOR (gf_mul 14 (gf_mul 2 s2) XOR gf_mul 11 s2 XOR gf_mul 13 s2 XOR gf_mul 9 (gf_mul 3 s2))
        XOR (gf_mul 14 (gf_mul 3 s3) XOR gf_mul 11 (gf_mul 2 s3) XOR gf_mul 13 s3 XOR gf_mul 9 s3)"
    by (simp add: m_def mix_column_def gf_mul_linear xor_ac)
  then have r2: "gf_mul 13 (m ! 0) XOR gf_mul 9 (m ! 1) XOR gf_mul 14 (m ! 2) XOR gf_mul 11 (m ! 3) = s2"
    unfolding inv_mix_entries by simp
  have "gf_mul 11 (m ! 0) XOR gf_mul 13 (m ! 1) XOR gf_mul 9 (m ! 2) XOR gf_mul 14 (m ! 3)
      = (gf_mul 14 (gf_mul 3 s0) XOR gf_mul 11 (gf_mul 2 s0) XOR gf_mul 13 s0 XOR gf_mul 9 s0)
        XOR (gf_mul 14 s1 XOR gf_mul 11 (gf_mul 3 s1) XOR gf_mul 13 (gf_mul 2 s1) XOR gf_mul 9 s1)
        XOR (gf_mul 14 s2 XOR gf_mul 11 s2 XOR gf_mul 13 (gf_mul 3 s2) XOR gf_mul 9 (gf_mul 2 s2))
        XOR (gf_mul 14 (gf_mul 2 s3) XOR gf_mul 11 s3 XOR gf_mul 13 s3 XOR gf_mul 9 (gf_mul 3 s3))"
    by (simp add: m_def mix_column_def gf_mul_linear xor_ac)
  then have r3: "gf_mul 11 (m ! 0) XOR gf_mul 13 (m ! 1) XOR gf_mul 9 (m ! 2) XOR gf_mul 14 (m ! 3) = s3"
    unfolding inv_mix_entries by simp
  show ?thesis unfolding inv_mix_column_def r0 r1 r2 r3 by (rule refl)
qed

lemma list_16:
  assumes "length b = 16"
  obtains b0 b1 b2 b3 b4 b5 b6 b7 b8 b9 b10 b11 b12 b13 b14 b15
  where "b = [b0, b1, b2, b3, b4, b5, b6, b7, b8, b9, b10, b11, b12, b13, b14, b15]"
proof -
  have "b = map (\<lambda>i. b ! i) [0..<16]" using assms by (intro list_eq_upt_map) auto
  also have "[0..<16] = [0, 1, 2, 3, 4, 5, 6, 7, 8, 9, 10, 11, 12, 13, 14, 15 :: nat]" by (simp add: upt_conv_Cons)
  finally show thesis using that by simp
qed

lemma upt_4: "[0..<4] = [0, 1, 2, 3 :: nat]"
  by (simp add: upt_conv_Cons)

lemma length_mix_columns [simp, size_facts]: "length (mix_columns b) = 16"
  by (simp add: mix_columns_def upt_4 mix_column_def Let_def)

lemma inv_mix_mix_columns: "length b = 16 \<Longrightarrow> inv_mix_columns (mix_columns b) = b"
proof (elim list_16)
  fix b0 b1 b2 b3 b4 b5 b6 b7 b8 b9 b10 b11 b12 b13 b14 b15
  assume b: "b = [b0, b1, b2, b3, b4, b5, b6, b7, b8, b9, b10, b11, b12, b13, b14, b15]"
  have e: "mix_column w x y z = [mix_column w x y z ! 0, mix_column w x y z ! 1, mix_column w x y z ! 2, mix_column w x y z ! 3]"
    for w x y z by (simp add: mix_column_def)
  have "mix_columns b = mix_column b0 b1 b2 b3 @ mix_column b4 b5 b6 b7 @ mix_column b8 b9 b10 b11 @ mix_column b12 b13 b14 b15"
    by (simp add: mix_columns_def upt_4 b Let_def)
  also have "\<dots> = [mix_column b0 b1 b2 b3 ! 0, mix_column b0 b1 b2 b3 ! 1, mix_column b0 b1 b2 b3 ! 2, mix_column b0 b1 b2 b3 ! 3,
      mix_column b4 b5 b6 b7 ! 0, mix_column b4 b5 b6 b7 ! 1, mix_column b4 b5 b6 b7 ! 2, mix_column b4 b5 b6 b7 ! 3,
      mix_column b8 b9 b10 b11 ! 0, mix_column b8 b9 b10 b11 ! 1, mix_column b8 b9 b10 b11 ! 2, mix_column b8 b9 b10 b11 ! 3,
      mix_column b12 b13 b14 b15 ! 0, mix_column b12 b13 b14 b15 ! 1, mix_column b12 b13 b14 b15 ! 2, mix_column b12 b13 b14 b15 ! 3]"
    by (subst (1 2 3 4) e) simp
  finally show "inv_mix_columns (mix_columns b) = b"
    by (simp add: inv_mix_columns_def upt_4 Let_def inv_mix_mix_column[simplified] b)
qed

section \<open>Decryption inverts encryption\<close>

lemma sbox_table: "map (\<lambda>s. INV_SBOX ! unat s) SBOX = map of_nat [0..<256]"
  by code_simp

lemma length_SBOX [simp]: "length SBOX = 256"
  by (simp add: SBOX_def)

lemma inv_sbox_sbox: "INV_SBOX ! unat (SBOX ! unat b) = b"
proof -
  have b: "unat b < 256" using unat_lt_exp[of b] by simp
  then have "INV_SBOX ! unat (SBOX ! unat b) = map (\<lambda>s. INV_SBOX ! unat s) SBOX ! unat b" by simp
  also have "\<dots> = b" using b unfolding sbox_table by simp
  finally show ?thesis .
qed

lemma round_lengths [simp, size_facts]:
  "length (add_round_key rk r b) = 16" "length (sub_bytes b) = 16" "length (inv_sub_bytes b) = 16"
  "length (shift_rows b) = 16" "length (inv_shift_rows b) = 16"
  by (simp_all add: add_round_key_def sub_bytes_def inv_sub_bytes_def shift_rows_def inv_shift_rows_def)

lemma add_round_key_twice: "length b = 16 \<Longrightarrow> add_round_key rk r (add_round_key rk r b) = b"
  by (rule nth_equalityI) (simp_all add: add_round_key_def xor.assoc)

lemma inv_sub_sub_bytes: "length b = 16 \<Longrightarrow> inv_sub_bytes (sub_bytes b) = b"
  by (rule nth_equalityI) (simp_all add: inv_sub_bytes_def sub_bytes_def inv_sbox_sbox)

lemma inv_shift_shift_rows: "length b = 16 \<Longrightarrow> inv_shift_rows (shift_rows b) = b"
  by (elim list_16) (simp add: inv_shift_rows_def shift_rows_def)

text \<open>A fold of invertible steps is undone by the reversed fold of their inverses.\<close>

lemma fold_rev_inverse:
  assumes "\<And>x b. P b \<Longrightarrow> P (f x b) \<and> g x (f x b) = b" "P b"
  shows "fold g (rev xs) (fold f xs b) = b"
  using assms(2)
proof (induction xs arbitrary: b)
  case (Cons x xs)
  then show ?case using assms(1)[OF Cons.prems, of x] by simp
qed simp

lemma fold_invariant: "(\<And>x b. P b \<Longrightarrow> P (f x b)) \<Longrightarrow> P b \<Longrightarrow> P (fold f xs b)"
  by (induction xs arbitrary: b) auto

text \<open>
  The rounds regrouped: one turn of the decryption loop undoes the shift and substitution that the
  next encryption round starts with.
\<close>

definition whiten :: "bytes \<Rightarrow> bytes" where "whiten b = shift_rows (sub_bytes b)"
definition unwhiten :: "bytes \<Rightarrow> bytes" where "unwhiten b = inv_sub_bytes (inv_shift_rows b)"

lemma length_whiten [simp, size_facts]: "length (whiten b) = 16"
  by (simp add: whiten_def)

lemma unwhiten_whiten: "length b = 16 \<Longrightarrow> unwhiten (whiten b) = b"
  by (simp add: whiten_def unwhiten_def inv_shift_shift_rows inv_sub_sub_bytes)

lemma decrypt_rounds:
  assumes "length b = 16"
  shows "unwhiten (fold (\<lambda>r b. inv_mix_columns (add_round_key rk r (unwhiten b))) (rev xs)
     (whiten (fold (\<lambda>r b. add_round_key rk r (mix_columns (whiten b))) xs b))) = b"
  using assms
proof (induction xs arbitrary: b)
  case Nil
  then show ?case by (simp add: unwhiten_whiten)
next
  case (Cons r xs)
  let ?c = "add_round_key rk r (mix_columns (whiten b))"
  let ?D = "\<lambda>r b. inv_mix_columns (add_round_key rk r (unwhiten b))"
  let ?E = "\<lambda>r b. add_round_key rk r (mix_columns (whiten b))"
  have "fold ?D (rev (r # xs)) (whiten (fold ?E (r # xs) b))
      = inv_mix_columns (add_round_key rk r (unwhiten (fold ?D (rev xs) (whiten (fold ?E xs ?c)))))"
    by simp
  also have "\<dots> = whiten b"
    using Cons.IH[of ?c] by (simp add: add_round_key_twice inv_mix_mix_columns)
  finally show ?case using Cons.prems by (simp add: unwhiten_whiten)
qed

lemma decrypt_encrypt_block:
  assumes "length block = 16"
  shows "decrypt_block rk (encrypt_block rk block) = block"
proof -
  define b0 where "b0 = add_round_key rk 0 block"
  have "length (fold (\<lambda>r b. add_round_key rk r (mix_columns (whiten b))) [1..<NUM_ROUNDS] b0) = 16"
    by (rule fold_invariant) (simp_all add: b0_def)
  then have "decrypt_block rk (encrypt_block rk block) = add_round_key rk 0 b0"
    using decrypt_rounds[of b0 rk "[1..<NUM_ROUNDS]"]
    by (simp add: decrypt_block_def encrypt_block_def Let_def whiten_def[symmetric] unwhiten_def[symmetric]
        add_round_key_twice b0_def[symmetric] del: upt_Suc) (simp add: b0_def)
  then show ?thesis using assms by (simp add: b0_def add_round_key_twice)
qed

text \<open>
  For any round keys, \<open>decrypt_block\<close> inverts \<open>encrypt_block\<close> on every 16-byte block
  and both return 16 bytes.
\<close>

theorem aes_block_roundtrip:
  assumes "length block = 16"
  shows "decrypt_block rk (encrypt_block rk block) = block \<and> length (encrypt_block rk block) = 16"
  using assms decrypt_encrypt_block[OF assms, of rk] by (simp add: encrypt_block_def Let_def)

theorem aes_block_roundtrip_witness:
  "decrypt_block (key_expansion (replicate 32 1)) (encrypt_block (key_expansion (replicate 32 1)) (replicate 16 7))
     = (replicate 16 7)"
  using aes_block_roundtrip[of "(replicate 16 7)" "key_expansion (replicate 32 1)"] by simp

section \<open>The interface of the modes of operation\<close>

locale block_cipher =
  fixes enc dec :: "bytes \<Rightarrow> bytes"
  assumes enc_length: "length b = 16 \<Longrightarrow> length (enc b) = 16"
    and dec_enc: "length b = 16 \<Longrightarrow> dec (enc b) = b"
begin

lemma enc_inj: "length a = 16 \<Longrightarrow> length b = 16 \<Longrightarrow> enc a = enc b \<Longrightarrow> a = b"
  using dec_enc by metis

end

interpretation aes: block_cipher "encrypt_block rk" "decrypt_block rk" for rk
  by unfold_locales (simp_all only: decrypt_encrypt_block, simp add: encrypt_block_def Let_def)

end
