(* ===== verification/AesVector.thy ===== *)
theory AesVector
  imports Aes
begin

text \<open>
  A known answer for \<^verbatim>\<open>crypto/aes_core.hpp\<close>: the FIPS-197 appendix C.3 key, evaluated in slices, with
  MixColumns computed by \<open>xtime\<close>.
\<close>

section \<open>A published vector\<close>

lemma gf_mul_2_3: "gf_mul 2 s = xtime s" "gf_mul 3 s = xtime s XOR s"
proof -
  have x: "xtime a = push_bit 1 a XOR (if bit a 7 then 0x1b else 0)" for a
  proof -
    have "a AND 0x80 \<noteq> 0 \<longleftrightarrow> bit a 7" using bit_iff_and_push_bit_not_eq_0[of a 7] by simp
    then show ?thesis by (simp add: xtime_def)
  qed
  have l: "xor_linear xtime"
    unfolding xor_linear_def x push_bit_xor bit_xor_iff by (auto simp: xor_ac)
  have e: "\<forall>i \<in> set [0..<8]. let s = push_bit i 1 in gf_mul 2 s = xtime s \<and> gf_mul 3 s = xtime s XOR s"
    by code_simp
  note at = e[unfolded Let_def, THEN bspec]
  show "gf_mul 2 s = xtime s"
    by (rule xor_linear_eqI[where g = xtime], rule xor_linear_gf_mul[OF xor_linear_id], rule l) (use at in simp)
  show "gf_mul 3 s = xtime s XOR s"
    by (rule xor_linear_eqI[where g = "\<lambda>s. xtime s XOR s"], rule xor_linear_gf_mul[OF xor_linear_id],
        rule xor_linear_xor[OF l xor_linear_id]) (use at in simp)
qed

lemma mix_column_xtime [code]:
  "mix_column s0 s1 s2 s3 =
     [xtime s0 XOR xtime s1 XOR s1 XOR s2 XOR s3,
      s0 XOR xtime s1 XOR xtime s2 XOR s2 XOR s3,
      s0 XOR s1 XOR xtime s2 XOR xtime s3 XOR s3,
      xtime s0 XOR s0 XOR s1 XOR s2 XOR xtime s3]"
  by (simp add: mix_column_def gf_mul_2_3 xor_ac)

text \<open>The FIPS-197 appendix C.3 key and its 60 expanded words.\<close>

definition fips_key :: bytes where
  "fips_key = map of_nat [0..<32]"

definition fips_round_keys :: bytes where
  "fips_round_keys =
    [0x00, 0x01, 0x02, 0x03, 0x04, 0x05, 0x06, 0x07, 0x08, 0x09, 0x0a, 0x0b, 0x0c, 0x0d, 0x0e, 0x0f,
      0x10, 0x11, 0x12, 0x13, 0x14, 0x15, 0x16, 0x17, 0x18, 0x19, 0x1a, 0x1b, 0x1c, 0x1d, 0x1e, 0x1f,
      0xa5, 0x73, 0xc2, 0x9f, 0xa1, 0x76, 0xc4, 0x98, 0xa9, 0x7f, 0xce, 0x93, 0xa5, 0x72, 0xc0, 0x9c,
      0x16, 0x51, 0xa8, 0xcd, 0x02, 0x44, 0xbe, 0xda, 0x1a, 0x5d, 0xa4, 0xc1, 0x06, 0x40, 0xba, 0xde,
      0xae, 0x87, 0xdf, 0xf0, 0x0f, 0xf1, 0x1b, 0x68, 0xa6, 0x8e, 0xd5, 0xfb, 0x03, 0xfc, 0x15, 0x67,
      0x6d, 0xe1, 0xf1, 0x48, 0x6f, 0xa5, 0x4f, 0x92, 0x75, 0xf8, 0xeb, 0x53, 0x73, 0xb8, 0x51, 0x8d,
      0xc6, 0x56, 0x82, 0x7f, 0xc9, 0xa7, 0x99, 0x17, 0x6f, 0x29, 0x4c, 0xec, 0x6c, 0xd5, 0x59, 0x8b,
      0x3d, 0xe2, 0x3a, 0x75, 0x52, 0x47, 0x75, 0xe7, 0x27, 0xbf, 0x9e, 0xb4, 0x54, 0x07, 0xcf, 0x39,
      0x0b, 0xdc, 0x90, 0x5f, 0xc2, 0x7b, 0x09, 0x48, 0xad, 0x52, 0x45, 0xa4, 0xc1, 0x87, 0x1c, 0x2f,
      0x45, 0xf5, 0xa6, 0x60, 0x17, 0xb2, 0xd3, 0x87, 0x30, 0x0d, 0x4d, 0x33, 0x64, 0x0a, 0x82, 0x0a,
      0x7c, 0xcf, 0xf7, 0x1c, 0xbe, 0xb4, 0xfe, 0x54, 0x13, 0xe6, 0xbb, 0xf0, 0xd2, 0x61, 0xa7, 0xdf,
      0xf0, 0x1a, 0xfa, 0xfe, 0xe7, 0xa8, 0x29, 0x79, 0xd7, 0xa5, 0x64, 0x4a, 0xb3, 0xaf, 0xe6, 0x40,
      0x25, 0x41, 0xfe, 0x71, 0x9b, 0xf5, 0x00, 0x25, 0x88, 0x13, 0xbb, 0xd5, 0x5a, 0x72, 0x1c, 0x0a,
      0x4e, 0x5a, 0x66, 0x99, 0xa9, 0xf2, 0x4f, 0xe0, 0x7e, 0x57, 0x2b, 0xaa, 0xcd, 0xf8, 0xcd, 0xea,
      0x24, 0xfc, 0x79, 0xcc, 0xbf, 0x09, 0x79, 0xe9, 0x37, 0x1a, 0xc2, 0x3c, 0x6d, 0x68, 0xde, 0x36]"

lemma fips_expansion_1:
  "fold expansion_step [8..<18] fips_key = take 72 fips_round_keys"
  by code_simp

lemma fips_expansion_2:
  "fold expansion_step [18..<26] (take 72 fips_round_keys) = take 104 fips_round_keys"
  by code_simp

lemma fips_expansion_3:
  "fold expansion_step [26..<34] (take 104 fips_round_keys) = take 136 fips_round_keys"
  by code_simp

lemma fips_expansion_4:
  "fold expansion_step [34..<42] (take 136 fips_round_keys) = take 168 fips_round_keys"
  by code_simp

lemma fips_expansion_5:
  "fold expansion_step [42..<50] (take 168 fips_round_keys) = take 200 fips_round_keys"
  by code_simp

lemma fips_expansion_6:
  "fold expansion_step [50..<55] (take 200 fips_round_keys) = take 220 fips_round_keys"
  by code_simp

lemma fips_expansion_7:
  "fold expansion_step [55..<60] (take 220 fips_round_keys) = fips_round_keys"
  by code_simp

lemma fips_key_expansion: "key_expansion fips_key = fips_round_keys"
proof -
  have "[NK..<TOTAL_WORDS] = [8..<18] @ [18..<26] @ [26..<34] @ [34..<42] @ [42..<50] @ [50..<55] @ [55..<60 :: nat]"
    by (simp add: NK_def TOTAL_WORDS_def NUM_ROUNDS_def upt_conv_Cons)
  then show ?thesis unfolding key_expansion_def by (simp only: fold_append comp_apply
        fips_expansion_1 fips_expansion_2 fips_expansion_3 fips_expansion_4 fips_expansion_5 fips_expansion_6 fips_expansion_7)
qed

definition aes_round :: "bytes \<Rightarrow> nat \<Rightarrow> bytes \<Rightarrow> bytes" where
  "aes_round rk round b = add_round_key rk round (mix_columns (shift_rows (sub_bytes b)))"

lemma fips_rounds_1:
  "fold (aes_round fips_round_keys) [1..<5]
    [0x00, 0x10, 0x20, 0x30, 0x40, 0x50, 0x60, 0x70, 0x80, 0x90, 0xa0, 0xb0, 0xc0, 0xd0, 0xe0, 0xf0]
   = [0x1c, 0x05, 0xf2, 0x71, 0xa4, 0x17, 0xe0, 0x4f, 0xf9, 0x21, 0xc5, 0xc1, 0x04, 0x70, 0x15, 0x54]"
  by code_simp

lemma fips_rounds_5:
  "fold (aes_round fips_round_keys) [5..<10]
    [0x1c, 0x05, 0xf2, 0x71, 0xa4, 0x17, 0xe0, 0x4f, 0xf9, 0x21, 0xc5, 0xc1, 0x04, 0x70, 0x15, 0x54]
   = [0x4a, 0x82, 0x48, 0x51, 0xc5, 0x7e, 0x7e, 0x47, 0x64, 0x3d, 0xe5, 0x0c, 0x2a, 0xf3, 0xe8, 0xc9]"
  by code_simp

lemma fips_rounds_10:
  "fold (aes_round fips_round_keys) [10..<14]
    [0x4a, 0x82, 0x48, 0x51, 0xc5, 0x7e, 0x7e, 0x47, 0x64, 0x3d, 0xe5, 0x0c, 0x2a, 0xf3, 0xe8, 0xc9]
   = [0x62, 0x7b, 0xce, 0xb9, 0x99, 0x9d, 0x5a, 0xaa, 0xc9, 0x45, 0xec, 0xf4, 0x23, 0xf5, 0x6d, 0xa5]"
  by code_simp

text \<open>
  On the FIPS-197 appendix C.3 key and block the key expansion and \<open>encrypt_block\<close> give
  the published ciphertext, and \<open>decrypt_block\<close> takes it back.
\<close>

theorem aes_fips197:
  "encrypt_block (key_expansion fips_key)
    [0x00, 0x11, 0x22, 0x33, 0x44, 0x55, 0x66, 0x77, 0x88, 0x99, 0xaa, 0xbb, 0xcc, 0xdd, 0xee, 0xff]
   = [0x8e, 0xa2, 0xb7, 0xca, 0x51, 0x67, 0x45, 0xbf, 0xea, 0xfc, 0x49, 0x90, 0x4b, 0x49, 0x60, 0x89]
   \<and> decrypt_block (key_expansion fips_key)
    [0x8e, 0xa2, 0xb7, 0xca, 0x51, 0x67, 0x45, 0xbf, 0xea, 0xfc, 0x49, 0x90, 0x4b, 0x49, 0x60, 0x89]
   = [0x00, 0x11, 0x22, 0x33, 0x44, 0x55, 0x66, 0x77, 0x88, 0x99, 0xaa, 0xbb, 0xcc, 0xdd, 0xee, 0xff]"
proof -
  let ?p = "[0x00, 0x11, 0x22, 0x33, 0x44, 0x55, 0x66, 0x77, 0x88, 0x99, 0xaa, 0xbb, 0xcc, 0xdd, 0xee, 0xff] :: bytes"
  have first: "add_round_key fips_round_keys 0 ?p = [0x00, 0x10, 0x20, 0x30, 0x40, 0x50, 0x60, 0x70, 0x80, 0x90, 0xa0, 0xb0, 0xc0, 0xd0, 0xe0, 0xf0]"
    by code_simp
  have split: "[1..<NUM_ROUNDS] = [1..<5] @ [5..<10] @ [10..<14 :: nat]"
    by (simp add: NUM_ROUNDS_def upt_conv_Cons)
  have last: "add_round_key fips_round_keys NUM_ROUNDS (shift_rows (sub_bytes
      [0x62, 0x7b, 0xce, 0xb9, 0x99, 0x9d, 0x5a, 0xaa, 0xc9, 0x45, 0xec, 0xf4, 0x23, 0xf5, 0x6d, 0xa5]))
    = [0x8e, 0xa2, 0xb7, 0xca, 0x51, 0x67, 0x45, 0xbf, 0xea, 0xfc, 0x49, 0x90, 0x4b, 0x49, 0x60, 0x89]"
    by code_simp
  have enc: "encrypt_block fips_round_keys ?p = [0x8e, 0xa2, 0xb7, 0xca, 0x51, 0x67, 0x45, 0xbf, 0xea, 0xfc, 0x49, 0x90, 0x4b, 0x49, 0x60, 0x89]"
    unfolding encrypt_block_def Let_def first split fold_append comp_apply aes_round_def[symmetric, abs_def]
      fips_rounds_1 fips_rounds_5 fips_rounds_10 last by (rule refl)
  have "decrypt_block fips_round_keys (encrypt_block fips_round_keys ?p) = ?p"
    by (rule decrypt_encrypt_block) simp
  then show ?thesis unfolding fips_key_expansion enc by blast
qed

end
