(* ===== verification/AesCtr.thy ===== *)
theory AesCtr
  imports Aes
begin

text \<open>
  AES-256 in counter mode (\<^verbatim>\<open>crypto/aes_ctr.hpp\<close>).  The cipher object is the round-key array of its
  \<^verbatim>\<open>Aes256\<close>; the loop of \<^verbatim>\<open>process\<close> is written over any block function and instantiated with
  \<open>encrypt_block\<close>.  The reference is the key stream: block \<open>j\<close> is the encryption of the nonce with the
  32-bit counter advanced by \<open>j\<close>.
\<close>

text \<open>\<^verbatim>\<open>inc_counter\<close>: the loop over the byte positions 15 down to 12, left at the first non-zero byte.\<close>

fun inc_loop :: "nat list \<Rightarrow> bytes \<Rightarrow> bytes" where
  "inc_loop [] counter = counter"
| "inc_loop (i # is) counter =
     (let counter' = counter[i := counter ! i + 1]
      in if counter' ! i \<noteq> 0 then counter' else inc_loop is counter')"

definition inc_counter :: "bytes \<Rightarrow> bytes" where
  "inc_counter counter = inc_loop [15, 14, 13, 12] counter"

definition initial_counter :: "bytes \<Rightarrow> u32" where
  "initial_counter iv =
     push_bit 24 (ucast (iv ! 12)) OR push_bit 16 (ucast (iv ! 13)) OR push_bit 8 (ucast (iv ! 14)) OR ucast (iv ! 15)"

definition max_bytes :: "bytes \<Rightarrow> u64" where
  "max_bytes iv = (let max_blocks = 0xFFFFFFFF - ucast (initial_counter iv) + 1 in max_blocks * 16)"

definition xor_block :: "bytes \<Rightarrow> bytes \<Rightarrow> nat \<Rightarrow> nat \<Rightarrow> bytes \<Rightarrow> bytes" where
  "xor_block data keystream offset block_len output =
     fold (\<lambda>j out. out[offset + j := data ! (offset + j) XOR keystream ! j]) [0..<block_len] output"

function process_loop :: "(bytes \<Rightarrow> bytes) \<Rightarrow> bytes \<Rightarrow> nat \<Rightarrow> bytes \<Rightarrow> bytes \<Rightarrow> bytes" where
  "process_loop enc data offset counter output =
     (if offset < length data then
        let keystream = enc counter;
            block_len = (if length data - offset > 16 then 16 else length data - offset);
            output' = xor_block data keystream offset block_len output
        in process_loop enc data (offset + block_len) (inc_counter counter) output'
      else output)"
  by pat_completeness auto
termination
  by (relation "measure (\<lambda>(enc, data, offset, counter, output). length data - offset)")
    (auto simp: Let_def split: if_splits)

declare process_loop.simps [simp del]

definition process :: "bytes \<Rightarrow> bytes \<Rightarrow> bytes \<Rightarrow> bytes expected" where
  "process rk data iv =
     (let output = replicate (length data) 0
      in if length data = 0 then Inr output
         else if length data > unat (max_bytes iv) then Inl ENCRYPTION_ERROR
         else Inr (process_loop (encrypt_block rk) data 0 iv output))"

definition ctr_encrypt :: "bytes \<Rightarrow> bytes \<Rightarrow> bytes \<Rightarrow> bytes expected" where
  "ctr_encrypt rk data iv = process rk data iv"

definition ctr_decrypt :: "bytes \<Rightarrow> bytes \<Rightarrow> bytes \<Rightarrow> bytes expected" where
  "ctr_decrypt rk data iv = process rk data iv"

definition ctr_new :: "bytes \<Rightarrow> bytes" where
  "ctr_new key = key_expansion key"

section \<open>The counter as a number\<close>

fun le_nat :: "bytes \<Rightarrow> nat" where
  "le_nat [] = 0"
| "le_nat (b # bs) = unat b + 256 * le_nat bs"

fun inc_le :: "bytes \<Rightarrow> bytes" where
  "inc_le [] = []"
| "inc_le (b # bs) = (if b + 1 \<noteq> 0 then (b + 1) # bs else 0 # inc_le bs)"

lemma le_nat_less: "le_nat bs < 256 ^ length bs"
proof (induction bs)
  case (Cons b bs)
  have "unat b < 256" using unat_lt_exp[of b] by simp
  then show ?case using Cons by simp
qed simp

lemma length_inc_le [simp]: "length (inc_le bs) = length bs"
  by (induction bs) auto

lemma le_nat_inc_le: "le_nat (inc_le bs) = (le_nat bs + 1) mod 256 ^ length bs"
proof (induction bs)
  case (Cons b bs)
  show ?case
  proof (cases "b + 1 = 0")
    case True
    then have "b = - 1" by (simp add: eq_neg_iff_add_eq_0)
    moreover have "unat (- 1 :: u8) = 255" by code_simp
    ultimately have "unat b = 255" by simp
    then show ?thesis using True Cons by (simp add: mult_mod_right)
  next
    case False
    then have "unat (b + 1) = unat b + 1" using unatSuc[of b] by (simp add: add.commute)
    then show ?thesis using False le_nat_less[of "(b + 1) # bs"] by simp
  qed
qed simp

lemma le_nat_inj: "length a = length b \<Longrightarrow> le_nat a = le_nat b \<Longrightarrow> a = b"
proof (induction a b rule: list_induct2)
  case (Cons x xs y ys)
  have "unat x < 256" "unat y < 256" using unat_lt_exp[of x] unat_lt_exp[of y] by simp_all
  then have "(unat x + 256 * le_nat xs) mod 256 = unat x" "(unat x + 256 * le_nat xs) div 256 = le_nat xs"
    "(unat y + 256 * le_nat ys) mod 256 = unat y" "(unat y + 256 * le_nat ys) div 256 = le_nat ys" by simp_all
  then have "unat x = unat y \<and> le_nat xs = le_nat ys" using Cons.prems by (metis le_nat.simps(2))
  then show ?case using Cons.IH by (simp add: word_unat_eq_iff)
qed simp

lemma to_le_Suc: "to_le (Suc n) w = ucast w # to_le n (drop_bit 8 w)"
  by (simp add: to_le_def map_upt_Suc add.commute del: upt_Suc)

lemma le_nat_to_le: "le_nat (to_le n w) = unat w mod 256 ^ n"
proof (induction n arbitrary: w)
  case 0
  then show ?case by (simp add: to_le_def)
next
  case (Suc n)
  have "unat (ucast w :: u8) = unat w mod 256"
    by (simp add: unsigned_ucast_eq take_bit_eq_mod)
  then show ?case
    using Suc[of "drop_bit 8 w"] by (simp add: to_le_Suc unat_drop_bit mod_mult2_eq)
qed

lemma to_le_inc: "to_le 4 (w + 1) = inc_le (to_le 4 (w :: u32))"
proof (rule le_nat_inj)
  have "unat (w + 1) = (unat w + 1) mod 2 ^ 32" by (simp add: unat_word_ariths)
  then show "le_nat (to_le 4 (w + 1)) = le_nat (inc_le (to_le 4 w))"
    by (simp add: le_nat_inc_le le_nat_to_le mod_Suc_eq)
qed simp

section \<open>The key stream\<close>

definition counter_block :: "bytes \<Rightarrow> nat \<Rightarrow> bytes" where
  "counter_block iv j = take 12 iv @ rev (to_le 4 (initial_counter iv + of_nat j))"

definition ctr_stream :: "(bytes \<Rightarrow> bytes) \<Rightarrow> bytes \<Rightarrow> bytes \<Rightarrow> bytes" where
  "ctr_stream enc iv data = map (\<lambda>i. data ! i XOR enc (counter_block iv (i div 16)) ! (i mod 16)) [0..<length data]"

lemma initial_counter_of_le: "length iv = 16 \<Longrightarrow> initial_counter iv = of_le (rev (drop 12 iv))"
  by (elim list_16) (simp add: initial_counter_def push_bit_or or.assoc or.commute or.left_commute)

lemma counter_block_0: "length iv = 16 \<Longrightarrow> counter_block iv 0 = iv"
  by (simp add: counter_block_def initial_counter_of_le to_le_of_le)

lemma length_counter_block [simp]: "length iv = 16 \<Longrightarrow> length (counter_block iv j) = 16"
  by (simp add: counter_block_def)

lemma inc_counter_le:
  "length c = 16 \<Longrightarrow> inc_counter c = take 12 c @ rev (inc_le (rev (drop 12 c)))"
  by (elim list_16) (simp add: inc_counter_def Let_def)

lemma counter_block_Suc: "length iv = 16 \<Longrightarrow> counter_block iv (Suc j) = inc_counter (counter_block iv j)"
  using to_le_inc[of "initial_counter iv + of_nat j"]
  by (simp add: inc_counter_le counter_block_def add.commute add.left_commute)

lemma counter_block_inj:
  assumes "length iv = 16" "length iv' = 16" "counter_block iv i = counter_block iv' j"
  shows "take 12 iv = take 12 iv' \<and> initial_counter iv + of_nat i = initial_counter iv' + of_nat j"
proof -
  from assms have "take 12 iv = take 12 iv'" "to_le 4 (initial_counter iv + of_nat i) = to_le 4 (initial_counter iv' + of_nat j)"
    by (simp_all add: counter_block_def)
  moreover have "of_le (to_le 4 w) = w" for w :: u32 by (rule of_le_to_le) simp
  ultimately show ?thesis by metis
qed

lemma length_xor_block [simp]: "length (xor_block data ks offset n out) = length out"
  by (induction n) (simp_all add: xor_block_def)

lemma nth_xor_block:
  "offset + n \<le> length out \<Longrightarrow> i < length out \<Longrightarrow> xor_block data ks offset n out ! i
     = (if offset \<le> i \<and> i < offset + n then data ! i XOR ks ! (i - offset) else out ! i)"
proof (induction n)
  case (Suc n)
  have "xor_block data ks offset (Suc n) out
      = (xor_block data ks offset n out)[offset + n := data ! (offset + n) XOR ks ! n]"
    by (simp add: xor_block_def)
  then show ?case using Suc by (auto simp: nth_list_update)
qed (auto simp: xor_block_def)

lemma process_loop_stream:
  assumes "length iv = 16" "length out0 = length data" "16 * k \<le> length data"
  shows "process_loop enc data (16 * k) (counter_block iv k) out0
    = take (16 * k) out0 @ drop (16 * k) (ctr_stream enc iv data)"
  using assms(2,3)
proof (induction "length data - 16 * k" arbitrary: k out0 rule: less_induct)
  case less
  show ?case
  proof (cases "16 * k < length data")
    case False
    then show ?thesis using less.prems by (subst process_loop.simps) (simp add: ctr_stream_def)
  next
    case True
    define n where "n = (if length data - 16 * k > 16 then 16 else length data - 16 * k)"
    define out where "out = xor_block data (enc (counter_block iv k)) (16 * k) n out0"
    have n: "16 * k + n \<le> length out0" "n \<le> 16" using True less.prems by (auto simp: n_def)
    have head: "take (16 * k + n) out = take (16 * k) out0 @ take n (drop (16 * k) (ctr_stream enc iv data))"
    proof (rule nth_equalityI)
      fix i assume "i < length (take (16 * k + n) out)"
      then have i: "i < 16 * k + n" "i < length out0" by (simp_all add: out_def)
      have d: "i div 16 = k \<and> i mod 16 = i - 16 * k" if "16 * k \<le> i"
        using that i(1) n(2) by (cases "i = 16 * k + 16") (auto simp: div_nat_eqI intro!: div_nat_eqI mod_nat_eqI)
      show "take (16 * k + n) out ! i = (take (16 * k) out0 @ take n (drop (16 * k) (ctr_stream enc iv data))) ! i"
        using i n less.prems d by (auto simp: out_def nth_xor_block nth_append ctr_stream_def)
    qed (use n less.prems in \<open>simp add: out_def ctr_stream_def\<close>)
    have step: "process_loop enc data (16 * k) (counter_block iv k) out0
        = process_loop enc data (16 * k + n) (counter_block iv (Suc k)) out"
      using True by (subst process_loop.simps) (simp add: Let_def n_def out_def counter_block_Suc assms(1))
    show ?thesis
    proof (cases "n = 16")
      case True
      have "process_loop enc data (16 * Suc k) (counter_block iv (Suc k)) out
          = take (16 * Suc k) out @ drop (16 * Suc k) (ctr_stream enc iv data)"
        using n True less.prems by (intro less.hyps) (auto simp: out_def)
      then show ?thesis using step head True
        by (simp add: add.commute) (metis append_take_drop_id drop_drop append.assoc)
    next
      case False
      then have e: "16 * k + n = length data" using True less.prems by (simp add: n_def split: if_splits)
      have "process_loop enc data (16 * k + n) (counter_block iv (Suc k)) out = out"
        by (subst process_loop.simps) (simp add: e)
      then show ?thesis using step head e less.prems by (simp add: out_def ctr_stream_def)
    qed
  qed
qed

lemma process_loop_ctr: "length iv = 16 \<Longrightarrow> process_loop enc data 0 iv (replicate (length data) 0) = ctr_stream enc iv data"
  using process_loop_stream[of iv "replicate (length data) 0" data 0 enc] by (simp add: counter_block_0)

lemma unat_max_bytes: "unat (max_bytes iv) = (2 ^ 32 - unat (initial_counter iv)) * 16"
proof -
  define x where "x = unat (initial_counter iv)"
  have x: "x < 2 ^ 32" unfolding x_def using unat_lt_exp[of "initial_counter iv"] by simp
  have "ucast (initial_counter iv) = (of_nat x :: u64)" by (simp add: x_def)
  then have "max_bytes iv = (0xFFFFFFFF - of_nat x + 1) * 16" by (simp add: max_bytes_def)
  also have "0xFFFFFFFF - of_nat x + 1 = (of_nat (2 ^ 32 - x) :: u64)" using x by (simp add: of_nat_diff)
  finally have "max_bytes iv = of_nat ((2 ^ 32 - x) * 16)" by simp
  then show ?thesis unfolding x_def[symmetric] by (simp only: unat_of_nat) simp
qed

lemma process_stream:
  assumes "length iv = 16"
  shows "process rk data iv =
    (if length data \<le> (2 ^ 32 - unat (initial_counter iv)) * 16 then Inr (ctr_stream (encrypt_block rk) iv data)
     else Inl ENCRYPTION_ERROR)"
  using process_loop_ctr[OF assms]
  by (auto simp: process_def Let_def unat_max_bytes ctr_stream_def not_less)

lemma ctr_stream_twice: "ctr_stream enc iv (ctr_stream enc iv data) = data"
  by (rule nth_equalityI) (simp_all add: ctr_stream_def xor.assoc)

context block_cipher
begin

lemma keystream_distinct:
  assumes "length iv = 16" "length iv' = 16" "enc (counter_block iv i) = enc (counter_block iv' j)"
  shows "take 12 iv = take 12 iv' \<and> initial_counter iv + of_nat i = initial_counter iv' + of_nat j"
  using counter_block_inj[OF assms(1,2)] enc_inj[OF _ _ assms(3)] assms(1,2) by simp

end

section \<open>Properties\<close>

text \<open>
  Property C38: \<open>process\<close> XORs byte \<open>i\<close> of the data with byte \<open>i mod 16\<close> of the encryption of counter
  block \<open>i div 16\<close>, the last block partial, and fails exactly when the data needs more blocks than
  the 32-bit counter has left, before any counter value could repeat.
\<close>

theorem ctr_process_spec:
  assumes "length iv = 16"
  shows "process rk data iv =
    (if length data \<le> (2 ^ 32 - unat (initial_counter iv)) * 16
     then Inr (map (\<lambda>i. data ! i XOR encrypt_block rk (counter_block iv (i div 16)) ! (i mod 16)) [0..<length data])
     else Inl ENCRYPTION_ERROR)"
  using process_stream[OF assms] by (simp add: ctr_stream_def)

theorem ctr_process_spec_witness:
  "\<exists>b. process (key_expansion (replicate 32 3)) [5] (replicate 15 0 @ [1]) = Inr [b]"
  using ctr_process_spec[of "replicate 15 0 @ [1]" "key_expansion (replicate 32 3)" "[5]"]
  by (simp add: nth_append initial_counter_def)

text \<open>
  \<open>process\<close> is its own inverse: what \<open>encrypt\<close> returns has the length of the plaintext,
  and \<open>decrypt\<close> under the same key and IV returns the plaintext.
\<close>

theorem ctr_roundtrip:
  assumes "length iv = 16" "ctr_encrypt (ctr_new key) plain iv = Inr cipher"
  shows "ctr_decrypt (ctr_new key) cipher iv = Inr plain \<and> length cipher = length plain"
  using assms by (auto simp: ctr_encrypt_def ctr_decrypt_def process_stream ctr_stream_twice split: if_splits)
    (simp_all add: ctr_stream_def)

theorem ctr_roundtrip_witness:
  "\<exists>cipher. ctr_decrypt (ctr_new (replicate 32 3)) cipher (replicate 16 0) = Inr [1, 2, 3]"
proof -
  have "\<exists>cipher. ctr_encrypt (ctr_new (replicate 32 3)) [1, 2, 3] (replicate 16 0) = Inr cipher"
    by (simp add: ctr_encrypt_def process_stream initial_counter_def)
  then show ?thesis using ctr_roundtrip[of "replicate 16 0" "replicate 32 3" "[1, 2, 3]"] by auto
qed

text \<open>
  No key-stream block is used twice.  Within a call that \<open>process\<close> accepts all blocks of
  key stream differ, and none of them occurs, at any position, in a call whose IV differs in its first 12 bytes.
\<close>

theorem ctr_no_keystream_reuse:
  assumes "length iv = 16" "length iv' = 16" "take 12 iv' \<noteq> take 12 iv"
    and "process rk data iv = Inr out" "16 * i < length data" "16 * j < length data" "i \<noteq> j"
  shows "encrypt_block rk (counter_block iv i) \<noteq> encrypt_block rk (counter_block iv j)
    \<and> encrypt_block rk (counter_block iv i) \<noteq> encrypt_block rk (counter_block iv' k)"
proof (intro conjI notI)
  assume "encrypt_block rk (counter_block iv i) = encrypt_block rk (counter_block iv j)"
  from aes.keystream_distinct[OF assms(1,1) this] have e: "(of_nat i :: u32) = of_nat j" by simp
  have "length data \<le> (2 ^ 32 - unat (initial_counter iv)) * 16"
    using assms(4) by (simp add: process_stream[OF assms(1)] split: if_splits)
  then have "i < 2 ^ 32" "j < 2 ^ 32" using assms(5,6) by linarith+
  then have "unat (of_nat i :: u32) = i" "unat (of_nat j :: u32) = j" unfolding unat_of_nat by simp_all
  then have "i = j" using e by metis
  then show False using assms(7) by simp
next
  assume "encrypt_block rk (counter_block iv i) = encrypt_block rk (counter_block iv' k)"
  from aes.keystream_distinct[OF assms(1,2) this] show False using assms(3) by simp
qed

theorem ctr_no_keystream_reuse_witness:
  "encrypt_block (key_expansion (replicate 32 3)) (counter_block (replicate 16 0) 0)
   \<noteq> encrypt_block (key_expansion (replicate 32 3)) (counter_block (replicate 16 0) 1)"
proof -
  define rk iv iv' data where "rk = key_expansion (replicate 32 3)" and "iv = replicate 16 (0 :: u8)"
    and "iv' = replicate 16 (1 :: u8)" and "data = replicate 20 (1 :: u8)"
  have l: "length iv = 16" "length iv' = 16" "length data = 20" by (simp_all add: iv_def iv'_def data_def)
  have d: "take 12 iv' \<noteq> take 12 iv" by (simp add: iv_def iv'_def)
  have c: "initial_counter iv = 0" by (simp add: iv_def initial_counter_def)
  have p: "process rk data iv = Inr (ctr_stream (encrypt_block rk) iv data)" by (simp add: process_stream l c)
  have i: "16 * 0 < length data" "16 * 1 < length data" unfolding l by simp_all
  show ?thesis unfolding rk_def[symmetric] iv_def[symmetric]
    using ctr_no_keystream_reuse[OF l(1,2) d p i, of "0"] by simp
qed

end
