(* ===== verification/Ghash.thy ===== *)
theory Ghash
  imports Aes
begin

text \<open>
  The GF(2^128) arithmetic of GCM (\<^verbatim>\<open>crypto/aes_gcm.hpp\<close>, namespace \<^verbatim>\<open>detail::gcm\<close>): the schoolbook
  multiplication, which is the reference, and the constant-time nibble-by-nibble multiplication with
  its precomputed tables, which the cipher uses.  Both are shown to be the sum of the doublings
  \<open>D^i H\<close> over the set bits \<open>i\<close> of the other factor.
\<close>

record block128 =
  hi :: u64
  lo :: u64

abbreviation zero_block :: block128 where "zero_block \<equiv> \<lparr>hi = 0, lo = 0\<rparr>"

definition load_block :: "bytes \<Rightarrow> block128" where
  "load_block src =
     \<lparr>hi = fold (\<lambda>i h. push_bit 8 h OR ucast (src ! i)) [0..<8] 0,
      lo = fold (\<lambda>i l. push_bit 8 l OR ucast (src ! i)) [8..<16] 0\<rparr>"

definition store_block :: "block128 \<Rightarrow> bytes" where
  "store_block b = map (\<lambda>i. ucast (drop_bit (8 * (7 - i)) (hi b))) [0..<8]
                 @ map (\<lambda>i. ucast (drop_bit (8 * (7 - i)) (lo b))) [0..<8]"

definition xor_blocks :: "block128 \<Rightarrow> block128 \<Rightarrow> block128" where
  "xor_blocks a b = \<lparr>hi = hi a XOR hi b, lo = lo a XOR lo b\<rparr>"

text \<open>The reducing constant \<^verbatim>\<open>uint64_t(0xe1) << 56\<close>.\<close>

definition poly_R :: u64 where "poly_R = 0xe100000000000000"

definition gf128_double :: "block128 \<Rightarrow> block128" where
  "gf128_double V =
     (let lsb = lo V AND 1
      in \<lparr>hi = drop_bit 1 (hi V) XOR (poly_R AND (0 - lsb)),
          lo = drop_bit 1 (lo V) OR push_bit 63 (hi V AND 1)\<rparr>)"

text \<open>\<^verbatim>\<open>GHashTable::init\<close>: the doublings at 1, 2, 4, 8, sums elsewhere.\<close>

definition table_init :: "block128 \<Rightarrow> block128 list" where
  "table_init H =
     (let e1 = H; e2 = gf128_double H; e4 = gf128_double e2; e8 = gf128_double e4;
          e3 = xor_blocks e2 e1; e5 = xor_blocks e4 e1; e6 = xor_blocks e4 e2; e7 = xor_blocks e4 e3
      in [zero_block, e1, e2, e3, e4, e5, e6, e7, e8, xor_blocks e8 e1, xor_blocks e8 e2, xor_blocks e8 e3,
          xor_blocks e8 e4, xor_blocks e8 e5, xor_blocks e8 e6, xor_blocks e8 e7])"

text \<open>The branchless equality mask: all ones where \<open>i\<close> is the index, else zero.\<close>

definition ct_mask :: "u8 \<Rightarrow> u8 \<Rightarrow> u64" where
  "ct_mask i index =
     (let eq = ucast i XOR ucast index;
          mask = drop_bit 63 (eq OR (NOT eq + 1)) XOR 1
      in 0 - mask)"

definition ct_table_lookup :: "block128 list \<Rightarrow> u8 \<Rightarrow> block128" where
  "ct_table_lookup table index =
     fold (\<lambda>i r. \<lparr>hi = hi r OR (hi (table ! i) AND ct_mask (of_nat i) index),
                 lo = lo r OR (lo (table ! i) AND ct_mask (of_nat i) index)\<rparr>) [0..<16] zero_block"

definition R4 :: "u64 list" where
  "R4 = [0x0000000000000000, 0xe100000000000000, 0x7080000000000000, 0x9180000000000000,
         0x3840000000000000, 0xd940000000000000, 0x48c0000000000000, 0xa9c0000000000000,
         0x1c20000000000000, 0xfd20000000000000, 0x6ca0000000000000, 0x8da0000000000000,
         0x2460000000000000, 0xc560000000000000, 0x54e0000000000000, 0xb5e0000000000000]"

definition ct_reduce4 :: "u8 \<Rightarrow> u64" where
  "ct_reduce4 index = fold (\<lambda>i result. result OR (R4 ! i AND ct_mask (of_nat i) index)) [0..<16] 0"

definition rev4 :: "u8 \<Rightarrow> u8" where
  "rev4 n = push_bit 3 (n AND 1) OR push_bit 1 (n AND 2) OR drop_bit 1 (n AND 4) OR drop_bit 3 (n AND 8)"

text \<open>One nibble of the constant-time multiplication.\<close>

definition nibble_step :: "block128 list \<Rightarrow> u8 \<Rightarrow> block128 \<Rightarrow> block128" where
  "nibble_step table nib Z =
     (let rem = ucast (lo Z AND 0x0F);
          lo' = drop_bit 4 (lo Z) OR push_bit 60 (hi Z);
          hi' = drop_bit 4 (hi Z) XOR ct_reduce4 (rev4 rem);
          entry = ct_table_lookup table (rev4 nib)
      in xor_blocks \<lparr>hi = hi', lo = lo'\<rparr> entry)"

definition gf128_mul_ct :: "block128 list \<Rightarrow> block128 \<Rightarrow> block128" where
  "gf128_mul_ct table X =
     (let x_bytes = store_block X
      in fold (\<lambda>byte_idx Z. let b = x_bytes ! byte_idx
                in nibble_step table (drop_bit 4 b AND 0x0F) (nibble_step table (b AND 0x0F) Z))
           (rev [0..<16]) zero_block)"

text \<open>The schoolbook loop: accumulator and working copy.\<close>

definition mul_step :: "block128 \<Rightarrow> nat \<Rightarrow> block128 \<times> block128 \<Rightarrow> block128 \<times> block128" where
  "mul_step X i s =
     (case s of (Z, V) \<Rightarrow>
        let word = (if i < 64 then hi X else lo X);
            bit_pos = (if i < 64 then 63 - i else 63 - (i - 64));
            Z' = (if word AND push_bit bit_pos 1 \<noteq> 0 then xor_blocks Z V else Z);
            lsb = (lo V AND 1 \<noteq> 0);
            V' = \<lparr>hi = drop_bit 1 (hi V), lo = drop_bit 1 (lo V) OR push_bit 63 (hi V AND 1)\<rparr>
        in (Z', if lsb then V'\<lparr>hi := hi V' XOR poly_R\<rparr> else V'))"

definition gf128_mul :: "block128 \<Rightarrow> block128 \<Rightarrow> block128" where
  "gf128_mul X Y = fst (fold (mul_step X) [0..<128] (zero_block, Y))"

section \<open>Sums of doublings\<close>

lemma xor_blocks_ac:
  "xor_blocks a b = xor_blocks b a"
  "xor_blocks (xor_blocks a b) c = xor_blocks a (xor_blocks b c)"
  "xor_blocks a (xor_blocks b c) = xor_blocks b (xor_blocks a c)"
  by (simp_all add: xor_blocks_def xor_ac)

lemma xor_blocks_zero [simp]:
  fixes a :: block128
  shows "xor_blocks a zero_block = a" "xor_blocks zero_block a = a"
  by (simp_all add: xor_blocks_def)

lemma gf128_double_alt:
  "gf128_double V = \<lparr>hi = drop_bit 1 (hi V) XOR (if bit (lo V) 0 then poly_R else 0),
                     lo = drop_bit 1 (lo V) OR push_bit 63 (hi V AND 1)\<rparr>"
  unfolding gf128_double_def Let_def mask_low_bit by simp

lemma push_low_bit: "push_bit 63 (v AND 1) = (if bit v 0 then push_bit 63 1 else (0 :: u64))"
  by (simp add: and_one_eq bit_0 mod_2_eq_odd)

lemma gf128_double_xor: "gf128_double (xor_blocks a b) = xor_blocks (gf128_double a) (gf128_double b)"
proof -
  have "drop_bit 1 (lo a XOR lo b) OR push_bit 63 ((hi a XOR hi b) AND 1)
      = (drop_bit 1 (lo a) OR push_bit 63 (hi a AND 1)) XOR (drop_bit 1 (lo b) OR push_bit 63 (hi b AND 1))"
    by (rule bit_word_eqI)
      (auto simp: bit_or_iff bit_xor_iff bit_and_iff bit_push_bit_iff bit_drop_bit_eq bit_1_iff dest: bit_imp_le_length)
  moreover have "drop_bit 1 (hi a XOR hi b) XOR (if bit (lo a XOR lo b) 0 then poly_R else 0)
      = (drop_bit 1 (hi a) XOR (if bit (lo a) 0 then poly_R else 0))
        XOR (drop_bit 1 (hi b) XOR (if bit (lo b) 0 then poly_R else 0))"
    unfolding drop_bit_xor bit_xor_iff by (auto simp: xor_ac)
  ultimately show ?thesis by (simp add: gf128_double_alt xor_blocks_def)
qed

lemma gf128_double_zero [simp]: "gf128_double zero_block = zero_block"
  by (simp add: gf128_double_alt)

text \<open>\<open>dsum n f V\<close>: the sum of \<open>D^i V\<close> over the \<open>i < n\<close> with \<open>f i\<close>.\<close>

fun dsum :: "nat \<Rightarrow> (nat \<Rightarrow> bool) \<Rightarrow> block128 \<Rightarrow> block128" where
  "dsum 0 f V = zero_block"
| "dsum (Suc n) f V = xor_blocks (if f 0 then V else zero_block) (dsum n (\<lambda>i. f (Suc i)) (gf128_double V))"

lemma dsum_double: "dsum n f (gf128_double V) = gf128_double (dsum n f V)"
  by (induction n arbitrary: f V) (simp_all add: gf128_double_xor)

definition double4 :: "block128 \<Rightarrow> block128" where
  "double4 V = gf128_double (gf128_double (gf128_double (gf128_double V)))"

lemma dsum_add4: "dsum (4 + n) f V = xor_blocks (dsum 4 f V) (double4 (dsum n (\<lambda>i. f (4 + i)) V))"
  by (simp add: numeral_eq_Suc dsum_double double4_def gf128_double_xor xor_blocks_ac)

text \<open>Bit \<open>i\<close> of a block in the order of GCM, most significant first.\<close>

definition gbit :: "block128 \<Rightarrow> nat \<Rightarrow> bool" where
  "gbit X i = (if i < 64 then bit (hi X) (63 - i) else bit (lo X) (127 - i))"

lemma and_bit_test: "(w AND push_bit n 1 \<noteq> 0) = bit (w :: u64) n"
  using bit_iff_and_push_bit_not_eq_0[of w n] by simp

lemma mul_step_dsum: "i < 128 \<Longrightarrow> mul_step X i (Z, V) = (if gbit X i then xor_blocks Z V else Z, gf128_double V)"
  using and_bit_test[of "hi X" "63 - i"] and_bit_test[of "lo X" "127 - i"] and_bit_test[of "lo V" 0]
  by (auto simp: mul_step_def gf128_double_alt gbit_def Let_def)

lemma mul_fold_dsum:
  "k + n \<le> 128 \<Longrightarrow> fst (fold (mul_step X) [k..<k + n] (Z, V)) = xor_blocks Z (dsum n (\<lambda>i. gbit X (k + i)) V)"
proof (induction n arbitrary: k Z V)
  case (Suc n)
  have "[k..<k + Suc n] = k # [Suc k..<Suc k + n]" by (simp add: upt_conv_Cons)
  then show ?case
    using Suc.prems Suc.IH[of "Suc k" "if gbit X k then xor_blocks Z V else Z" "gf128_double V"]
    by (simp add: mul_step_dsum xor_blocks_ac del: upt_Suc)
qed simp

lemma gf128_mul_dsum: "gf128_mul X H = dsum 128 (gbit X) H"
  using mul_fold_dsum[of 0 128 X zero_block H] by (simp add: gf128_mul_def)

section \<open>The constant-time lookups\<close>

lemma ct_mask_table:
  "\<forall>i \<in> set [0..<16]. \<forall>j \<in> set [0..<16]. ct_mask (of_nat i) (of_nat j) = (if i = j then - 1 else 0)"
  by code_simp

lemma ct_mask_eq: "i < 16 \<Longrightarrow> j < 16 \<Longrightarrow> ct_mask (of_nat i) (of_nat j) = (if i = j then - 1 else 0)"
  using ct_mask_table by simp

lemma fold_or_select:
  fixes f :: "nat \<Rightarrow> u64"
  assumes "\<And>i. i \<in> set xs \<Longrightarrow> m i = (if i = j then - 1 else 0)"
  shows "fold (\<lambda>i r. r OR (f i AND m i)) xs r = r OR (if j \<in> set xs then f j else 0)"
  using assms
proof (induction xs arbitrary: r)
  case (Cons x xs)
  have "m x = (if x = j then - 1 else 0)" using Cons.prems by simp
  then show ?case using Cons by (auto simp: or.assoc)
qed simp

lemma ct_reduce4_nth: "j < 16 \<Longrightarrow> ct_reduce4 (of_nat j) = R4 ! j"
  unfolding ct_reduce4_def by (subst fold_or_select[where j = j]) (auto simp: ct_mask_eq simp del: of_nat_numeral)

lemma fold_or_pair:
  "fold (\<lambda>i r. \<lparr>hi = hi r OR f i, lo = lo r OR g i\<rparr>) xs r
     = \<lparr>hi = fold (\<lambda>i h. h OR f i) xs (hi r), lo = fold (\<lambda>i l. l OR g i) xs (lo r)\<rparr>"
  by (induction xs arbitrary: r) simp_all

lemma ct_table_lookup_nth: "j < 16 \<Longrightarrow> ct_table_lookup table (of_nat j) = table ! j"
  unfolding ct_table_lookup_def fold_or_pair
  by (subst (1 2) fold_or_select[where j = j]) (auto simp: ct_mask_eq)

text \<open>What a reversed nibble selects: its bits from the most significant, evaluated for the 16 nibbles.\<close>

definition nibble_bits :: "u8 \<Rightarrow> nat \<Rightarrow> bool" where
  "nibble_bits n k = bit n (3 - k)"

lemma rev4_values:
  "rev4 0 = of_nat 0"
  "rev4 1 = of_nat 8"
  "rev4 2 = of_nat 4"
  "rev4 3 = of_nat 12"
  "rev4 4 = of_nat 2"
  "rev4 5 = of_nat 10"
  "rev4 6 = of_nat 6"
  "rev4 7 = of_nat 14"
  "rev4 8 = of_nat 1"
  "rev4 9 = of_nat 9"
  "rev4 10 = of_nat 5"
  "rev4 11 = of_nat 13"
  "rev4 12 = of_nat 3"
  "rev4 13 = of_nat 11"
  "rev4 14 = of_nat 7"
  "rev4 15 = of_nat 15"
  by code_simp+

lemma nibble_bits_values:
  "nibble_bits 0 0 = False" "nibble_bits 0 (Suc 0) = False" "nibble_bits 0 (Suc (Suc 0)) = False" "nibble_bits 0 (Suc (Suc (Suc 0))) = False"
  "nibble_bits 1 0 = False" "nibble_bits 1 (Suc 0) = False" "nibble_bits 1 (Suc (Suc 0)) = False" "nibble_bits 1 (Suc (Suc (Suc 0))) = True"
  "nibble_bits 2 0 = False" "nibble_bits 2 (Suc 0) = False" "nibble_bits 2 (Suc (Suc 0)) = True" "nibble_bits 2 (Suc (Suc (Suc 0))) = False"
  "nibble_bits 3 0 = False" "nibble_bits 3 (Suc 0) = False" "nibble_bits 3 (Suc (Suc 0)) = True" "nibble_bits 3 (Suc (Suc (Suc 0))) = True"
  "nibble_bits 4 0 = False" "nibble_bits 4 (Suc 0) = True" "nibble_bits 4 (Suc (Suc 0)) = False" "nibble_bits 4 (Suc (Suc (Suc 0))) = False"
  "nibble_bits 5 0 = False" "nibble_bits 5 (Suc 0) = True" "nibble_bits 5 (Suc (Suc 0)) = False" "nibble_bits 5 (Suc (Suc (Suc 0))) = True"
  "nibble_bits 6 0 = False" "nibble_bits 6 (Suc 0) = True" "nibble_bits 6 (Suc (Suc 0)) = True" "nibble_bits 6 (Suc (Suc (Suc 0))) = False"
  "nibble_bits 7 0 = False" "nibble_bits 7 (Suc 0) = True" "nibble_bits 7 (Suc (Suc 0)) = True" "nibble_bits 7 (Suc (Suc (Suc 0))) = True"
  "nibble_bits 8 0 = True" "nibble_bits 8 (Suc 0) = False" "nibble_bits 8 (Suc (Suc 0)) = False" "nibble_bits 8 (Suc (Suc (Suc 0))) = False"
  "nibble_bits 9 0 = True" "nibble_bits 9 (Suc 0) = False" "nibble_bits 9 (Suc (Suc 0)) = False" "nibble_bits 9 (Suc (Suc (Suc 0))) = True"
  "nibble_bits 10 0 = True" "nibble_bits 10 (Suc 0) = False" "nibble_bits 10 (Suc (Suc 0)) = True" "nibble_bits 10 (Suc (Suc (Suc 0))) = False"
  "nibble_bits 11 0 = True" "nibble_bits 11 (Suc 0) = False" "nibble_bits 11 (Suc (Suc 0)) = True" "nibble_bits 11 (Suc (Suc (Suc 0))) = True"
  "nibble_bits 12 0 = True" "nibble_bits 12 (Suc 0) = True" "nibble_bits 12 (Suc (Suc 0)) = False" "nibble_bits 12 (Suc (Suc (Suc 0))) = False"
  "nibble_bits 13 0 = True" "nibble_bits 13 (Suc 0) = True" "nibble_bits 13 (Suc (Suc 0)) = False" "nibble_bits 13 (Suc (Suc (Suc 0))) = True"
  "nibble_bits 14 0 = True" "nibble_bits 14 (Suc 0) = True" "nibble_bits 14 (Suc (Suc 0)) = True" "nibble_bits 14 (Suc (Suc (Suc 0))) = False"
  "nibble_bits 15 0 = True" "nibble_bits 15 (Suc 0) = True" "nibble_bits 15 (Suc (Suc 0)) = True" "nibble_bits 15 (Suc (Suc (Suc 0))) = True"
  unfolding nibble_bits_def by code_simp+

lemma nibble_cases:
  assumes "unat (n :: u8) < 16"
  obtains "n = 0" | "n = 1" | "n = 2" | "n = 3" | "n = 4" | "n = 5" | "n = 6" | "n = 7" | "n = 8" | "n = 9" | "n = 10" | "n = 11" | "n = 12" | "n = 13" | "n = 14" | "n = 15"
proof -
  have "unat n \<in> set [0..<16]" using assms by simp
  also have "[0..<16] = [0, 1, 2, 3, 4, 5, 6, 7, 8, 9, 10, 11, 12, 13, 14, 15 :: nat]" by (simp add: upt_conv_Cons)
  finally have "of_nat (unat n) \<in> set (map of_nat [0, 1, 2, 3, 4, 5, 6, 7, 8, 9, 10, 11, 12, 13, 14, 15] :: u8 list)" unfolding set_map by (rule imageI)
  then show thesis using that by simp blast
qed

text \<open>The table entry of a nibble, as the sum over its bits.\<close>

lemma dsum_4:
  "dsum 4 f H = xor_blocks (if f 0 then H else zero_block)
    (xor_blocks (if f (Suc 0) then gf128_double H else zero_block)
    (xor_blocks (if f (Suc (Suc 0)) then gf128_double (gf128_double H) else zero_block)
      (if f (Suc (Suc (Suc 0))) then gf128_double (gf128_double (gf128_double H)) else zero_block)))"
  by (simp add: numeral_eq_Suc)

lemma lookup_nibble:
  assumes "unat n < 16"
  shows "ct_table_lookup (table_init H) (rev4 n) = dsum 4 (nibble_bits n) H"
proof -
  note v = rev4_values nibble_bits_values
  show ?thesis
    using assms
    by (rule nibble_cases; simp only: v ct_table_lookup_nth dsum_4 if_True if_False xor_blocks_zero;
        simp add: ct_table_lookup_nth table_init_def Let_def xor_blocks_ac del: of_nat_numeral)
qed

lemma poly_R_shifts:
  "drop_bit 1 poly_R = 0x7080000000000000" "drop_bit 2 poly_R = 0x3840000000000000"
  "drop_bit 3 poly_R = 0x1c20000000000000"
  by code_simp+

lemma reduce_nibble:
  assumes "unat n < 16"
  shows "ct_reduce4 (rev4 n) =
    (if nibble_bits n (Suc (Suc (Suc 0))) then drop_bit 3 poly_R else 0)
    XOR (if nibble_bits n (Suc (Suc 0)) then drop_bit 2 poly_R else 0)
    XOR (if nibble_bits n (Suc 0) then drop_bit 1 poly_R else 0)
    XOR (if nibble_bits n 0 then poly_R else 0)"
  using assms
  by (rule nibble_cases; simp only: rev4_values nibble_bits_values ct_reduce4_nth if_True if_False poly_R_shifts;
      simp add: ct_reduce4_nth R4_def poly_R_def del: of_nat_numeral)

section \<open>Four doublings at once\<close>

lemma bit_double_lo: "j < 64 \<Longrightarrow> bit (lo (gf128_double V)) j = (if j = 63 then bit (hi V) 0 else bit (lo V) (Suc j))"
  unfolding gf128_double_alt block128.simps bit_or_iff bit_drop_bit_eq bit_push_bit_iff bit_and_iff bit_1_iff comp_apply
  by (auto dest: bit_imp_le_length)

lemma low_bits_poly_R: "j < 56 \<Longrightarrow> \<not> bit poly_R j"
proof -
  have e: "poly_R = push_bit 56 0xe1" by (simp add: poly_R_def)
  show "j < 56 \<Longrightarrow> \<not> bit poly_R j" unfolding e bit_push_bit_iff by simp
qed

lemma bit_double_hi: "j < 56 \<Longrightarrow> bit (hi (gf128_double V)) j = bit (hi V) (Suc j)"
  unfolding gf128_double_alt by (auto simp: bit_xor_iff bit_drop_bit_eq low_bits_poly_R)

lemma hi_double: "hi (gf128_double V) = drop_bit 1 (hi V) XOR (if bit (lo V) 0 then poly_R else 0)"
  by (simp add: gf128_double_alt)

lemma mask_4: "(0x0F :: 'a::len word) = mask 4"
  by (simp add: mask_eq_exp_minus_1)

lemma nibble_bits_low: "k < 4 \<Longrightarrow> nibble_bits (ucast (w AND 0x0F)) k = bit (w :: u64) (3 - k)"
proof -
  assume "k < 4"
  then show ?thesis unfolding mask_4 nibble_bits_def bit_ucast_iff bit_and_iff bit_mask_word by auto
qed

lemma nibble_small: "unat (ucast ((w :: 'a::len word) AND mask 4) :: u8) < 16"
proof -
  have "ucast (w AND mask 4) AND mask 4 = (ucast (w AND mask 4) :: u8)"
    by (rule bit_word_eqI) (auto simp: bit_and_iff bit_ucast_iff bit_mask_word)
  then have "take_bit 4 (unat (ucast (w AND mask 4) :: u8)) = unat (ucast (w AND mask 4) :: u8)"
    by (metis take_bit_eq_mask unsigned_take_bit_eq)
  moreover have "take_bit 4 (unat (ucast (w AND mask 4) :: u8)) < 2 ^ 4" by (rule take_bit_nat_less_exp)
  ultimately show ?thesis by simp
qed

lemma bit_doubles:
  "t \<le> 8 \<Longrightarrow> j < 64 \<Longrightarrow> bit (lo ((gf128_double ^^ t) Z)) j
     = (if j + t < 64 then bit (lo Z) (j + t) else bit (hi Z) (j + t - 64))"
  "t \<le> 8 \<Longrightarrow> j + t < 56 \<Longrightarrow> bit (hi ((gf128_double ^^ t) Z)) j = bit (hi Z) (j + t)"
proof (induction t arbitrary: j)
  case (Suc t)
  {
    case 1
    show ?case
    proof (cases "j = 63")
      case True
      then show ?thesis using 1 Suc.IH(2)[of 0] by (simp add: bit_double_lo)
    next
      case False
      then show ?thesis using 1 Suc.IH(1)[of "Suc j"] by (simp add: bit_double_lo)
    qed
  next
    case 2
    then show ?case using Suc.IH(2)[of "Suc j"] by (simp add: bit_double_hi)
  }
qed simp_all

lemma double4_pow: "double4 Z = (gf128_double ^^ 4) Z"
  by (simp add: double4_def numeral_eq_Suc)

lemma double4_nibble:
  "double4 Z = \<lparr>hi = drop_bit 4 (hi Z) XOR ct_reduce4 (rev4 (ucast (lo Z AND 0x0F))),
               lo = drop_bit 4 (lo Z) OR push_bit 60 (hi Z)\<rparr>"
proof -
  have "lo (double4 Z) = drop_bit 4 (lo Z) OR push_bit 60 (hi Z)"
  proof (rule bit_word_eqI)
    fix j assume "j < LENGTH(64)"
    then show "bit (lo (double4 Z)) j = bit (drop_bit 4 (lo Z) OR push_bit 60 (hi Z)) j"
      unfolding double4_pow bit_or_iff bit_drop_bit_eq bit_push_bit_iff comp_apply
      by (auto simp: bit_doubles add.commute dest: bit_imp_le_length)
  qed
  moreover have "hi (double4 Z) = drop_bit 4 (hi Z) XOR ct_reduce4 (rev4 (ucast (lo Z AND 0x0F)))"
  proof -
    have b: "bit (lo (gf128_double Z)) 0 = bit (lo Z) 1" "bit (lo (gf128_double (gf128_double Z))) 0 = bit (lo Z) 2"
      "bit (lo (gf128_double (gf128_double (gf128_double Z)))) 0 = bit (lo Z) 3"
      by (simp_all add: bit_double_lo numeral_eq_Suc)
    have n: "unat (ucast (lo Z AND 0x0F) :: u8) < 16" unfolding mask_4 by (rule nibble_small)
    have k: "nibble_bits (ucast (lo Z AND 0x0F)) 0 = bit (lo Z) 3"
      "nibble_bits (ucast (lo Z AND 0x0F)) (Suc 0) = bit (lo Z) 2"
      "nibble_bits (ucast (lo Z AND 0x0F)) (Suc (Suc 0)) = bit (lo Z) 1"
      "nibble_bits (ucast (lo Z AND 0x0F)) (Suc (Suc (Suc 0))) = bit (lo Z) 0"
      by (simp_all add: nibble_bits_low numeral_eq_Suc)
    have d: "drop_bit k (if c then w else 0) = (if c then drop_bit k w else (0 :: u64))" for k c w by simp
    show ?thesis
      unfolding double4_def hi_double b reduce_nibble[OF n] k drop_bit_xor d drop_bit_drop_bit
      by (simp add: xor_ac numeral_eq_Suc)
  qed
  ultimately show ?thesis by simp
qed

lemma nibble_step_dsum:
  "unat nib < 16 \<Longrightarrow> nibble_step (table_init H) nib Z = xor_blocks (dsum 4 (nibble_bits nib) H) (double4 Z)"
  by (simp add: nibble_step_def Let_def lookup_nibble double4_nibble xor_blocks_ac)

section \<open>The two multiplications agree\<close>

lemma dsum_cong: "(\<And>i. i < n \<Longrightarrow> f i = g i) \<Longrightarrow> dsum n f V = dsum n g V"
proof (induction n arbitrary: f g V)
  case (Suc n)
  have "f 0 = g 0" by (rule Suc.prems) simp
  moreover have "dsum n (\<lambda>i. f (Suc i)) V' = dsum n (\<lambda>i. g (Suc i)) V'" for V'
    by (rule Suc.IH) (simp add: Suc.prems)
  ultimately show ?case by (simp only: dsum.simps)
qed simp

lemma bit_store_block:
  assumes "j < 16" "p < 8"
  shows "bit (store_block X ! j) p = gbit X (8 * j + (7 - p))"
proof (cases "j < 8")
  case True
  then have "store_block X ! j = ucast (drop_bit (8 * (7 - j)) (hi X))" by (simp add: store_block_def nth_append)
  moreover have "8 * (7 - j) + p = 63 - (8 * j + (7 - p))" using True assms(2) by simp
  moreover have "8 * j + (7 - p) < 64" using True by simp
  ultimately show ?thesis using assms(2) by (simp add: bit_ucast_iff bit_drop_bit_eq gbit_def)
next
  case False
  obtain i where i: "j = 8 + i" "i < 8" using False assms(1) by (metis add_diff_inverse_nat nat_add_left_cancel_less numeral_Bit0)
  then have "store_block X ! j = ucast (drop_bit (8 * (15 - j)) (lo X))"
    by (simp add: store_block_def nth_append)
  moreover have "8 * (15 - j) + p = 127 - (8 * j + (7 - p))" "\<not> 8 * j + (7 - p) < 64" using False assms by simp_all
  ultimately show ?thesis using assms(2) by (simp add: bit_ucast_iff bit_drop_bit_eq gbit_def)
qed

lemma nibbles_of_byte:
  assumes "j < 16" "k < 4"
  shows "nibble_bits (store_block X ! j AND 0x0F) k = gbit X (8 * j + (4 + k))"
    and "nibble_bits (drop_bit 4 (store_block X ! j) AND 0x0F) k = gbit X (8 * j + k)"
proof -
  have "7 - (3 - k) = 4 + k" "7 - (4 + (3 - k)) = k" using assms(2) by simp_all
  then show "nibble_bits (store_block X ! j AND 0x0F) k = gbit X (8 * j + (4 + k))"
    "nibble_bits (drop_bit 4 (store_block X ! j) AND 0x0F) k = gbit X (8 * j + k)"
    unfolding mask_4 nibble_bits_def bit_and_iff bit_mask_word bit_drop_bit_eq comp_apply
    using assms bit_store_block[of j "3 - k" X] bit_store_block[of j "4 + (3 - k)" X] by auto
qed

lemma nibble_less: "unat ((w :: u8) AND 0x0F) < 16"
  using nibble_small[of w] unfolding mask_4 by simp

lemma byte_step_dsum:
  assumes "j < 16"
  shows "nibble_step (table_init H) (drop_bit 4 (store_block X ! j) AND 0x0F)
      (nibble_step (table_init H) (store_block X ! j AND 0x0F) (dsum n (\<lambda>i. gbit X (8 * Suc j + i)) H))
    = dsum (8 + n) (\<lambda>i. gbit X (8 * j + i)) H"
proof -
  have "nibble_step (table_init H) (store_block X ! j AND 0x0F) (dsum n (\<lambda>i. gbit X (8 * Suc j + i)) H)
      = dsum (4 + n) (\<lambda>i. gbit X (8 * j + (4 + i))) H"
    unfolding nibble_step_dsum[OF nibble_less] dsum_add4
  proof (rule arg_cong2[where f = xor_blocks])
    show "dsum 4 (nibble_bits (store_block X ! j AND 0x0F)) H = dsum 4 (\<lambda>i. gbit X (8 * j + (4 + i))) H"
      by (rule dsum_cong) (rule nibbles_of_byte(1)[OF assms])
    have "8 * Suc j + i = 8 * j + (4 + (4 + i))" for i by simp
    then show "double4 (dsum n (\<lambda>i. gbit X (8 * Suc j + i)) H) = double4 (dsum n (\<lambda>i. gbit X (8 * j + (4 + (4 + i)))) H)"
      by (simp only:)
  qed
  moreover have "dsum (8 + n) f V = xor_blocks (dsum 4 f V) (double4 (dsum (4 + n) (\<lambda>i. f (4 + i)) V))" for f V
  proof -
    have "8 + n = 4 + (4 + n)" by simp
    then show ?thesis by (simp only: dsum_add4)
  qed
  moreover have "dsum 4 (nibble_bits (drop_bit 4 (store_block X ! j) AND 0x0F)) H = dsum 4 (\<lambda>i. gbit X (8 * j + i)) H"
    by (rule dsum_cong) (rule nibbles_of_byte(2)[OF assms])
  ultimately show ?thesis unfolding nibble_step_dsum[OF nibble_less] by (simp only:)
qed

lemma mul_ct_fold:
  "n \<le> 16 \<Longrightarrow> fold (\<lambda>j Z. nibble_step (table_init H) (drop_bit 4 (store_block X ! j) AND 0x0F)
        (nibble_step (table_init H) (store_block X ! j AND 0x0F) Z)) (rev [16 - n..<16]) zero_block
    = dsum (8 * n) (\<lambda>i. gbit X (8 * (16 - n) + i)) H"
proof (induction n)
  case (Suc n)
  define j where "j = 16 - Suc n"
  have j: "16 - n = Suc j" "j < 16" using Suc.prems by (simp_all add: j_def)
  have "fold (\<lambda>j Z. nibble_step (table_init H) (drop_bit 4 (store_block X ! j) AND 0x0F)
        (nibble_step (table_init H) (store_block X ! j AND 0x0F) Z)) (rev [Suc j..<16]) zero_block
      = dsum (8 * n) (\<lambda>i. gbit X (8 * Suc j + i)) H"
    using Suc.IH Suc.prems unfolding j(1) by simp
  moreover have "rev [j..<16] = rev [Suc j..<16] @ [j]" using j(2) by (simp add: upt_conv_Cons)
  moreover have "8 * Suc n = 8 + 8 * n" by simp
  ultimately show ?case
    unfolding j_def[symmetric] using byte_step_dsum[OF j(2), of H X "8 * n"] by (simp only: fold_append comp_apply fold.simps id_apply)
qed simp

lemma gf128_mul_ct_dsum: "gf128_mul_ct (table_init H) X = dsum 128 (gbit X) H"
  using mul_ct_fold[of 16 H X] by (simp add: gf128_mul_ct_def Let_def)

lemma mul_ct_mul: "gf128_mul_ct (table_init H) X = gf128_mul X H"
  unfolding gf128_mul_ct_dsum gf128_mul_dsum by (rule refl)

text \<open>
  Property C32: the constant-time multiplication with its precomputed table, its nibble-wise Horner
  scheme, its bit-reversed lookups and its four-bit reduction table computes the same field product as
  the schoolbook loop, for every subkey and every block.
\<close>

theorem gf128_mul_ct_correct: "gf128_mul_ct (table_init H) X = gf128_mul X H"
  by (simp add: gf128_mul_ct_dsum gf128_mul_dsum)

end
