(* ===== verification/AesGcm.thy ===== *)
theory AesGcm
  imports Ghash AesCtr
begin

text \<open>
  AES-256-GCM (\<^verbatim>\<open>crypto/aes_gcm.hpp\<close>): GHASH, the counter mode with its own loop, and the two
  authenticated operations of \<^verbatim>\<open>AesGcm\<close>, written over the cipher object as a record.  A pointer with
  its size is a list; \<^verbatim>\<open>std::invalid_argument\<close> is \<open>None\<close>.
\<close>

text \<open>\<^verbatim>\<open>AesGcm\<close>: its \<^verbatim>\<open>Aes256\<close> as round keys, the GHASH table, the configured IV size.\<close>

record aes_gcm =
  cipher :: bytes
  H_table :: "block128 list"
  iv_size :: nat

definition TAG_SIZE :: nat where "TAG_SIZE = 16"
definition MAX_GCM_PLAINTEXT :: nat where "MAX_GCM_PLAINTEXT = (0xFFFFFFFF - 1) * 16"
definition MAX_AAD_BYTES :: nat where "MAX_AAD_BYTES = 0xFFFFFFFFFFFFFFFF div 8"

definition gcm_new :: "bytes \<Rightarrow> aes_gcm" where
  "gcm_new key =
     (let rk = key_expansion key; H = load_block (encrypt_block rk (replicate 16 0))
      in \<lparr>cipher = rk, H_table = table_init H, iv_size = 12\<rparr>)"

definition set_iv_size :: "aes_gcm \<Rightarrow> nat \<Rightarrow> aes_gcm option" where
  "set_iv_size g n = (if n \<noteq> 12 \<and> n \<noteq> 16 then None else Some (g\<lparr>iv_size := n\<rparr>))"

definition inc32 :: "bytes \<Rightarrow> bytes" where
  "inc32 counter = inc_loop [15, 14, 13, 12] counter"

text \<open>\<^verbatim>\<open>gctr\<close>: the loop over the full blocks, then the partial block.\<close>

definition gctr :: "(bytes \<Rightarrow> bytes) \<Rightarrow> bytes \<Rightarrow> bytes \<Rightarrow> bytes \<Rightarrow> bytes" where
  "gctr enc icb input out0 =
     (let input_size = length input in
      if input_size = 0 then out0
      else let num_blocks = (input_size + 15) div 16 in
        if num_blocks > 0xFFFFFFFE then out0
        else let full_blocks = input_size div 16;
                 (counter, out1) = fold (\<lambda>i (counter, out). (inc32 counter, xor_block input (enc counter) (i * 16) 16 out))
                                     [0..<full_blocks] (icb, out0);
                 remainder = input_size mod 16
             in if remainder > 0 then xor_block input (enc counter) (full_blocks * 16) remainder out1 else out1)"

text \<open>The zero-padded last block of \<^verbatim>\<open>ghash\<close> and \<^verbatim>\<open>ghash_update\<close>.\<close>

definition padded_block :: "bytes \<Rightarrow> block128" where
  "padded_block data =
     load_block (drop (length data div 16 * 16) data @ replicate (16 - length data mod 16) 0)"

definition ghash :: "block128 \<Rightarrow> bytes \<Rightarrow> block128" where
  "ghash H data =
     (let X = fold (\<lambda>i X. gf128_mul (xor_blocks X (load_block (drop (i * 16) data))) H) [0..<length data div 16] zero_block
      in if length data mod 16 > 0 then gf128_mul (xor_blocks X (padded_block data)) H else X)"

definition ghash_update :: "block128 list \<Rightarrow> block128 \<Rightarrow> bytes \<Rightarrow> block128" where
  "ghash_update table X0 data =
     (let X = fold (\<lambda>i X. gf128_mul_ct table (xor_blocks X (load_block (drop (i * 16) data)))) [0..<length data div 16] X0
      in if length data mod 16 > 0 then gf128_mul_ct table (xor_blocks X (padded_block data)) else X)"

definition derive_j0 :: "aes_gcm \<Rightarrow> bytes \<Rightarrow> bytes" where
  "derive_j0 g iv =
     (if iv_size g = 12 then take 12 iv @ [0x00, 0x00, 0x00, 0x01]
      else let X1 = gf128_mul_ct (H_table g) (xor_blocks zero_block (load_block iv));
               iv_bits = of_nat (iv_size g) * 8 :: u64;
               lb = load_block (replicate 8 0 @ map (\<lambda>i. ucast (drop_bit (8 * (7 - i)) iv_bits)) [0..<8])
           in store_block (gf128_mul_ct (H_table g) (xor_blocks X1 lb)))"

text \<open>The 16-byte block \<^verbatim>\<open>[len(A)]_64 || [len(C)]_64\<close>, in bits, and the tag computation that
  \<^verbatim>\<open>encrypt\<close> and \<^verbatim>\<open>decrypt\<close> both contain.\<close>

definition len_block :: "nat \<Rightarrow> nat \<Rightarrow> bytes" where
  "len_block aad_size ct_size =
     (let aad_bits = of_nat aad_size * 8 :: u64; ct_bits = of_nat ct_size * 8 :: u64
      in map (\<lambda>i. ucast (drop_bit (8 * (7 - i)) aad_bits)) [0..<8] @ map (\<lambda>i. ucast (drop_bit (8 * (7 - i)) ct_bits)) [0..<8])"

definition compute_tag :: "aes_gcm \<Rightarrow> bytes \<Rightarrow> bytes \<Rightarrow> bytes \<Rightarrow> bytes" where
  "compute_tag g J0 aad ct =
     (let X0 = zero_block;
          X1 = (if aad \<noteq> [] then ghash_update (H_table g) X0 aad else X0);
          X2 = (if ct \<noteq> [] then ghash_update (H_table g) X1 ct else X1);
          len_b = load_block (len_block (length aad) (length ct));
          X3 = gf128_mul_ct (H_table g) (xor_blocks X2 len_b)
      in gctr (encrypt_block (cipher g)) J0 (store_block X3) (replicate 16 0))"

definition gcm_encrypt :: "aes_gcm \<Rightarrow> bytes \<Rightarrow> bytes \<Rightarrow> bytes \<Rightarrow> bytes expected" where
  "gcm_encrypt g plaintext iv aad =
     (if length plaintext > MAX_GCM_PLAINTEXT then Inl ENCRYPTION_ERROR
      else if length aad > MAX_AAD_BYTES then Inl ENCRYPTION_ERROR
      else let J0 = derive_j0 g iv;
               ICB = inc32 J0;
               out = gctr (encrypt_block (cipher g)) ICB plaintext (replicate (length plaintext + TAG_SIZE) 0);
               tag = compute_tag g J0 aad (take (length plaintext) out)
           in Inr (take (length plaintext) out @ tag))"

definition gcm_decrypt :: "aes_gcm \<Rightarrow> bytes \<Rightarrow> bytes \<Rightarrow> bytes \<Rightarrow> bytes expected" where
  "gcm_decrypt g ciphertext_with_tag iv aad =
     (let total_size = length ciphertext_with_tag in
      if total_size < TAG_SIZE then Inl ENCRYPTION_ERROR
      else if total_size - TAG_SIZE > MAX_GCM_PLAINTEXT then Inl ENCRYPTION_ERROR
      else if length aad > MAX_AAD_BYTES then Inl ENCRYPTION_ERROR
      else let ciphertext_size = total_size - TAG_SIZE;
               ciphertext = take ciphertext_size ciphertext_with_tag;
               received_tag = drop ciphertext_size ciphertext_with_tag;
               J0 = derive_j0 g iv;
               expected_tag = compute_tag g J0 aad ciphertext;
               diff = fold (\<lambda>i d. d OR (received_tag ! i XOR expected_tag ! i)) [0..<TAG_SIZE] 0
           in if diff \<noteq> 0 then Inl ENCRYPTION_ERROR
              else Inr (gctr (encrypt_block (cipher g)) (inc32 J0) ciphertext (replicate ciphertext_size 0)))"

section \<open>The counter mode\<close>

lemma inc32_inc_counter: "inc32 = inc_counter"
  by (rule ext) (simp add: inc32_def inc_counter_def)

lemma length_ctr_stream [simp]: "length (ctr_stream enc iv data) = length data"
  by (simp add: ctr_stream_def)

lemma xor_block_stream:
  assumes "16 * k + n \<le> length data" "n \<le> 16" "length data \<le> length out"
  shows "xor_block data (enc (counter_block iv k)) (16 * k) n (take (16 * k) (ctr_stream enc iv data) @ drop (16 * k) out)
    = take (16 * k + n) (ctr_stream enc iv data) @ drop (16 * k + n) out"
proof (rule nth_equalityI)
  fix i
  assume "i < length (xor_block data (enc (counter_block iv k)) (16 * k) n (take (16 * k) (ctr_stream enc iv data) @ drop (16 * k) out))"
  then have i: "i < length out" using assms by (simp add: min_def split: if_splits)
  have l: "length (take (16 * k) (ctr_stream enc iv data)) = 16 * k"
    "length (take (16 * k + n) (ctr_stream enc iv data)) = 16 * k + n" using assms(1) by simp_all
  note nth = nth_xor_block[of "16 * k" n "take (16 * k) (ctr_stream enc iv data) @ drop (16 * k) out" i data]
  consider "i < 16 * k" | r where "i = 16 * k + r" "r < n" | "16 * k + n \<le> i"
    by (metis le_Suc_ex nat_add_left_cancel_less not_le)
  then show "xor_block data (enc (counter_block iv k)) (16 * k) n (take (16 * k) (ctr_stream enc iv data) @ drop (16 * k) out) ! i
      = (take (16 * k + n) (ctr_stream enc iv data) @ drop (16 * k + n) out) ! i"
  proof cases
    case 1
    then show ?thesis using nth i assms l by (simp add: nth_append)
  next
    case 2
    have "(16 * k + r) div 16 = k" "(16 * k + r) mod 16 = r" using 2(2) assms(2) by simp_all
    then show ?thesis using nth i 2 assms l by (simp add: nth_append ctr_stream_def)
  next
    case 3
    then show ?thesis using nth i assms l by (simp add: nth_append)
  qed
qed (use assms in simp)

lemma gctr_stream:
  assumes "length icb = 16" "length data \<le> length out" "length data \<le> MAX_GCM_PLAINTEXT"
  shows "gctr enc icb data out = ctr_stream enc icb data @ drop (length data) out"
proof -
  let ?f = "\<lambda>i (counter, out). (inc32 counter, xor_block data (enc counter) (i * 16) 16 out)"
  have turns: "fold ?f [0..<k] (icb, out) = (counter_block icb k, take (16 * k) (ctr_stream enc icb data) @ drop (16 * k) out)"
    if "16 * k \<le> length data" for k
    using that
  proof (induction k)
    case 0
    then show ?case using assms(1) by (simp add: counter_block_0)
  next
    case (Suc k)
    then show ?case
      using xor_block_stream[of k 16 data out enc icb] assms(1,2)
      by (simp add: inc32_inc_counter counter_block_Suc mult.commute add.commute)
  qed
  define q r where "q = length data div 16" and "r = length data mod 16"
  have l: "length data = 16 * q + r" "r < 16" by (simp_all add: q_def r_def)
  have n: "\<not> (length data + 15) div 16 > 0xFFFFFFFE" using assms(3) by (simp add: MAX_GCM_PLAINTEXT_def)
  have "16 * q \<le> length data" by (simp add: l)
  note turns = turns[OF this]
  show ?thesis
  proof (cases "length data = 0")
    case True
    then show ?thesis by (simp add: gctr_def ctr_stream_def)
  next
    case False
    then have "gctr enc icb data out = (if r > 0 then xor_block data (enc (counter_block icb q)) (16 * q) r
        (take (16 * q) (ctr_stream enc icb data) @ drop (16 * q) out)
        else take (16 * q) (ctr_stream enc icb data) @ drop (16 * q) out)"
      using n turns by (simp add: gctr_def Let_def q_def[symmetric] r_def[symmetric] mult.commute)
    also have "\<dots> = take (16 * q + r) (ctr_stream enc icb data) @ drop (16 * q + r) out"
      using xor_block_stream[of q r data out enc icb] l assms(2) by simp
    finally show ?thesis unfolding l(1)[symmetric] by simp
  qed
qed

section \<open>GHASH over the padded concatenation\<close>

definition pad16 :: "bytes \<Rightarrow> bytes" where
  "pad16 d = (if length d mod 16 = 0 then d else d @ replicate (16 - length d mod 16) 0)"

text \<open>The Horner scheme of SP 800-38D over the whole blocks of a buffer.\<close>

definition ghash_blocks :: "block128 \<Rightarrow> block128 \<Rightarrow> bytes \<Rightarrow> block128" where
  "ghash_blocks H X d =
     fold (\<lambda>i X. gf128_mul (xor_blocks X (load_block (take 16 (drop (16 * i) d)))) H) [0..<length d div 16] X"

lemma load_block_take: "load_block (take 16 d) = load_block d"
  by (simp add: load_block_def upt_conv_Cons)

lemma ghash_blocks_append:
  assumes "16 dvd length a"
  shows "ghash_blocks H X (a @ b) = ghash_blocks H (ghash_blocks H X a) b"
proof -
  obtain n where n: "length a = 16 * n" using assms by blast
  have s: "[0..<length (a @ b) div 16] = [0..<n] @ map (\<lambda>i. i + n) [0..<length b div 16]"
    by (simp add: n map_add_upt upt_add_eq_append[symmetric] add.commute)
  have "fold (\<lambda>i X. gf128_mul (xor_blocks X (load_block (take 16 (drop (16 * i) (a @ b))))) H) [0..<n] X = ghash_blocks H X a"
    unfolding ghash_blocks_def n by (rule fold_cong) (auto simp: n)
  moreover have "fold (\<lambda>i X. gf128_mul (xor_blocks X (load_block (take 16 (drop (16 * i) (a @ b))))) H)
      (map (\<lambda>i. i + n) [0..<length b div 16]) Y = ghash_blocks H Y b" for Y
    unfolding ghash_blocks_def fold_map by (rule fold_cong) (simp_all add: n distrib_left add.commute)
  ultimately show ?thesis unfolding ghash_blocks_def[of H X "a @ b"] s fold_append by simp
qed

lemma pad16_div: "d = a @ r \<Longrightarrow> length a = 16 * q \<Longrightarrow> length r < 16 \<Longrightarrow>
   length d div 16 = q \<and> length d mod 16 = length r"
  by simp

lemma ghash_update_blocks: "ghash_update (table_init H) X d = ghash_blocks H X (pad16 d)"
proof -
  define q where "q = length d div 16"
  define a r where "a = take (16 * q) d" and "r = drop (16 * q) d"
  have d: "d = a @ r" by (simp add: a_def r_def)
  have l: "length a = 16 * q" "length r = length d mod 16" by (simp_all add: a_def r_def q_def minus_mult_div_eq_mod)
  have r: "length r < 16" unfolding l(2) by simp
  note dm = pad16_div[OF d l(1) r]
  have step: "fold (\<lambda>i X. gf128_mul_ct (table_init H) (xor_blocks X (load_block (drop (i * 16) d)))) [0..<q] X = ghash_blocks H X a"
    unfolding ghash_blocks_def l(1) mul_ct_mul
  proof (rule fold_cong)
    fix i assume "i \<in> set [0..<q]"
    then have "take 16 (drop (16 * i) a) = take 16 (drop (i * 16) d)" by (simp add: d l mult.commute)
    then show "(\<lambda>X. gf128_mul (xor_blocks X (load_block (drop (i * 16) d))) H)
        = (\<lambda>X. gf128_mul (xor_blocks X (load_block (take 16 (drop (16 * i) a)))) H)"
      by (simp only: load_block_take)
  qed simp_all
  show ?thesis
  proof (cases "r = []")
    case True
    then show ?thesis using dm step by (simp add: ghash_update_def Let_def pad16_def d)
  next
    case False
    let ?b = "r @ replicate (16 - length r) 0"
    have b: "ghash_blocks H Y ?b = gf128_mul (xor_blocks Y (load_block ?b)) H" for Y
      using r by (simp add: ghash_blocks_def load_block_take)
    have "ghash_update (table_init H) X d = gf128_mul (xor_blocks (ghash_blocks H X a) (load_block ?b)) H"
    proof -
      have "drop (q * 16) d = r" by (simp add: r_def mult.commute)
      then have "padded_block d = load_block ?b" using dm by (simp add: padded_block_def)
      moreover have "length d div 16 = q" "length d mod 16 > 0" using dm False by simp_all
      ultimately show ?thesis unfolding ghash_update_def Let_def using step by (simp add: mul_ct_mul)
    qed
    also have "\<dots> = ghash_blocks H X (a @ ?b)"
      using ghash_blocks_append[of a H X ?b] l(1) unfolding b by simp
    also have "a @ ?b = pad16 d" using False dm by (simp add: pad16_def d)
    finally show ?thesis .
  qed
qed

lemma ghash_eq_blocks: "ghash H d = ghash_blocks H zero_block (pad16 d)"
proof -
  have "ghash H d = ghash_update (table_init H) zero_block d"
    unfolding ghash_def ghash_update_def Let_def mul_ct_mul by (rule refl)
  then show ?thesis by (simp add: ghash_update_blocks)
qed

lemma length_pad16 [simp]: "16 dvd length (pad16 d)"
proof -
  have "length d + (16 - length d mod 16) = 16 * (length d div 16 + 1)"
  proof -
    have "m < 16 \<Longrightarrow> 16 * q + m = n \<Longrightarrow> n + (16 - m) = 16 * (q + 1)" for m n q :: nat by simp
    from this[OF _ mult_div_mod_eq] show ?thesis by simp
  qed
  then show ?thesis by (simp add: pad16_def mod_eq_0_iff_dvd)
qed

lemma length_len_block [simp]: "length (len_block m n) = 16"
  by (simp add: len_block_def Let_def)

lemma pad16_whole: "16 dvd length d \<Longrightarrow> pad16 d = d"
  by (simp add: pad16_def)

lemma compute_tag_ghash:
  assumes "H_table g = table_init H" "length J0 = 16"
  shows "compute_tag g J0 aad ct = ctr_stream (encrypt_block (cipher g)) J0
     (store_block (ghash H (pad16 aad @ pad16 ct @ len_block (length aad) (length ct))))"
proof -
  let ?L = "len_block (length aad) (length ct)"
  have e: "ghash_blocks H X [] = X" for X by (simp add: ghash_blocks_def)
  have L: "ghash_blocks H X ?L = gf128_mul (xor_blocks X (load_block ?L)) H" for X
    by (simp add: ghash_blocks_def load_block_take)
  have "16 dvd length (pad16 aad @ pad16 ct @ ?L)" by simp
  then have "ghash H (pad16 aad @ pad16 ct @ ?L) = gf128_mul (xor_blocks
      (ghash_blocks H (ghash_blocks H zero_block (pad16 aad)) (pad16 ct)) (load_block ?L)) H"
    by (simp only: ghash_eq_blocks pad16_whole) (simp add: ghash_blocks_append L)
  moreover have u: "(if d \<noteq> [] then ghash_update (table_init H) X d else X) = ghash_blocks H X (pad16 d)" for d X
    by (simp add: ghash_update_blocks pad16_def e)
  moreover have "length (store_block b) = 16" for b by (simp add: store_block_def)
  ultimately show ?thesis
    unfolding compute_tag_def Let_def assms(1) u mul_ct_mul
    using assms(2) by (simp add: gctr_stream MAX_GCM_PLAINTEXT_def)
qed

section \<open>Properties\<close>

definition gcm_ok :: "aes_gcm \<Rightarrow> bool" where
  "gcm_ok g \<longleftrightarrow> (\<exists>rk n. g = \<lparr>cipher = rk, H_table = table_init (load_block (encrypt_block rk (replicate 16 0))), iv_size = n\<rparr>
     \<and> n \<in> {12, 16})"

lemma gcm_ok_new: "gcm_ok (gcm_new key)" "gcm_ok g \<Longrightarrow> set_iv_size g n = Some g' \<Longrightarrow> gcm_ok g'"
  by (auto simp: gcm_ok_def gcm_new_def Let_def set_iv_size_def split: if_splits)

lemma length_derive_j0: "gcm_ok g \<Longrightarrow> length iv = iv_size g \<Longrightarrow> length (derive_j0 g iv) = 16"
  by (auto simp: gcm_ok_def derive_j0_def Let_def store_block_def)

lemma length_inc32 [simp]: "length c = 16 \<Longrightarrow> length (inc32 c) = 16"
  by (simp add: inc32_inc_counter inc_counter_le)

lemma gcm_cases:
  assumes "gcm_ok g" "length iv = iv_size g"
  shows "gcm_encrypt g p iv aad =
      (if length p \<le> MAX_GCM_PLAINTEXT \<and> length aad \<le> MAX_AAD_BYTES
       then let c = ctr_stream (encrypt_block (cipher g)) (inc32 (derive_j0 g iv)) p
            in Inr (c @ compute_tag g (derive_j0 g iv) aad c)
       else Inl ENCRYPTION_ERROR)"
  using gctr_stream[of "inc32 (derive_j0 g iv)" p "replicate (length p + TAG_SIZE) 0" "encrypt_block (cipher g)"]
    length_derive_j0[OF assms]
  by (auto simp: gcm_encrypt_def Let_def not_less)

lemma length_compute_tag: "gcm_ok g \<Longrightarrow> length iv = iv_size g \<Longrightarrow> length (compute_tag g (derive_j0 g iv) aad ct) = 16"
  using length_derive_j0[of g iv] by (auto simp: gcm_ok_def compute_tag_ghash store_block_def)

lemma tag_diff:
  fixes a b :: bytes
  assumes "length a = 16" "length b = 16"
  shows "fold (\<lambda>i d. d OR (a ! i XOR b ! i)) [0..<TAG_SIZE] 0 = 0 \<longleftrightarrow> a = b"
proof -
  have "x XOR y = 0 \<longleftrightarrow> x = y" for x y :: u8
    by (metis xor.assoc xor_self_eq xor.left_neutral)
  then show ?thesis using assms by (auto simp: fold_or_zero TAG_SIZE_def list_eq_iff_nth_eq)
qed

text \<open>
  Property C33: \<open>encrypt\<close> is GCM of SP 800-38D.  For a fresh cipher object, a 12-byte IV and sizes within
  the limits, the ciphertext is the plaintext under the key stream from the second counter block on,
  and the tag is GHASH (by the schoolbook product, over the padded AAD, the padded ciphertext and the
  length block) under the first counter block.
\<close>

theorem gcm_refines_sp800_38d:
  assumes "length iv = 12" "length p \<le> MAX_GCM_PLAINTEXT" "length aad \<le> MAX_AAD_BYTES"
  shows "gcm_encrypt (gcm_new key) p iv aad =
    (let enc = encrypt_block (key_expansion key);
         H = load_block (enc (replicate 16 0));
         J0 = iv @ [0, 0, 0, 1];
         c = map (\<lambda>i. p ! i XOR enc (counter_block J0 (i div 16 + 1)) ! (i mod 16)) [0..<length p];
         S = store_block (ghash H (pad16 aad @ pad16 c @ len_block (length aad) (length c)))
     in Inr (c @ map (\<lambda>i. S ! i XOR enc J0 ! i) [0..<16]))"
proof -
  define g where "g = gcm_new key"
  define J0 where "J0 = iv @ [0, 0, 0, 1]"
  define H where "H = load_block (encrypt_block (key_expansion key) (replicate 16 0))"
  have g: "cipher g = key_expansion key" "H_table g = table_init H" "iv_size g = 12" "gcm_ok g"
    by (simp_all add: g_def gcm_new_def Let_def H_def gcm_ok_new[unfolded gcm_new_def Let_def])
  have J: "derive_j0 g iv = J0" "length J0 = 16" using assms(1) g by (simp_all add: derive_j0_def J0_def)
  have inc: "counter_block (inc32 J0) j = counter_block J0 (j + 1)" for j
  proof (induction j)
    case 0
    then show ?case using counter_block_Suc[OF J(2), of 0] by (simp add: inc32_inc_counter counter_block_0 J(2) inc_counter_le)
  next
    case (Suc j)
    then show ?case using J(2) by (simp add: counter_block_Suc)
  qed
  have c: "ctr_stream enc (inc32 J0) p = map (\<lambda>i. p ! i XOR enc (counter_block J0 (i div 16 + 1)) ! (i mod 16)) [0..<length p]" for enc
    by (simp only: ctr_stream_def inc)
  have t: "ctr_stream enc J0 (store_block b) = map (\<lambda>i. store_block b ! i XOR enc J0 ! i) [0..<16]" for enc b
    by (auto simp: ctr_stream_def store_block_def counter_block_0 J(2))
  show ?thesis
    unfolding g_def[symmetric] gcm_cases[OF g(4), of iv, unfolded g(3), OF assms(1)] J compute_tag_ghash[OF g(2) J(2)] t g(1) c
    using assms(2,3) by (simp add: Let_def J0_def[symmetric] H_def[symmetric])
qed

theorem gcm_refines_sp800_38d_witness:
  "\<exists>c. gcm_encrypt (gcm_new (replicate 32 7)) [1, 2, 3] (replicate 12 9) [4] = Inr c"
  using gcm_refines_sp800_38d[of "replicate 12 9" "[1, 2, 3]" "[4]" "replicate 32 7"]
  by (simp add: MAX_GCM_PLAINTEXT_def MAX_AAD_BYTES_def Let_def)

lemma gcm_accepts:
  assumes "gcm_ok g" "length iv = iv_size g"
  shows "gcm_decrypt g c iv aad = Inr p \<longleftrightarrow> gcm_encrypt g p iv aad = Inr c"
proof -
  define J0 enc where "J0 = derive_j0 g iv" and "enc = encrypt_block (cipher g)"
  define n ct where "n = length c - 16" and "ct = take n c"
  have J: "length (inc32 J0) = 16" using length_derive_j0[OF assms] by (simp add: J0_def)
  have E: "gcm_encrypt g p iv aad = Inr c \<longleftrightarrow> length p \<le> MAX_GCM_PLAINTEXT \<and> length aad \<le> MAX_AAD_BYTES
      \<and> ctr_stream enc (inc32 J0) p @ compute_tag g J0 aad (ctr_stream enc (inc32 J0) p) = c" for p
    unfolding gcm_cases[OF assms] J0_def enc_def by (auto simp: Let_def)
  show ?thesis
  proof (cases "16 \<le> length c \<and> n \<le> MAX_GCM_PLAINTEXT \<and> length aad \<le> MAX_AAD_BYTES")
    case False
    then have "gcm_decrypt g c iv aad = Inl ENCRYPTION_ERROR"
      by (auto simp: gcm_decrypt_def Let_def TAG_SIZE_def n_def)
    moreover have "gcm_encrypt g p iv aad \<noteq> Inr c"
      using False length_compute_tag[OF assms] unfolding E by (auto simp: n_def J0_def)
    ultimately show ?thesis by simp
  next
    case True
    have t: "length (drop n c) = 16" "length (compute_tag g J0 aad ct) = 16"
      using True length_compute_tag[OF assms] by (simp_all add: n_def J0_def)
    have ct: "length ct = n" using True by (simp add: ct_def n_def)
    have "gctr enc (inc32 J0) ct (replicate n 0) = ctr_stream enc (inc32 J0) ct"
      using gctr_stream[OF J, of ct "replicate n 0" enc] True ct by simp
    then have D: "gcm_decrypt g c iv aad = (if drop n c = compute_tag g J0 aad ct then Inr (ctr_stream enc (inc32 J0) ct)
        else Inl ENCRYPTION_ERROR)"
      using True tag_diff[OF t]
      by (simp add: gcm_decrypt_def Let_def TAG_SIZE_def[symmetric] not_less) (simp add: TAG_SIZE_def n_def ct_def J0_def enc_def)
    have "gcm_encrypt g p iv aad = Inr c \<longleftrightarrow> drop n c = compute_tag g J0 aad ct \<and> p = ctr_stream enc (inc32 J0) ct"
    proof
      assume "gcm_encrypt g p iv aad = Inr c"
      then have c: "c = ctr_stream enc (inc32 J0) p @ compute_tag g J0 aad (ctr_stream enc (inc32 J0) p)" unfolding E by simp
      then have "n = length p" using length_compute_tag[OF assms] by (simp add: n_def J0_def)
      then have "ct = ctr_stream enc (inc32 J0) p" using c by (simp add: ct_def)
      then show "drop n c = compute_tag g J0 aad ct \<and> p = ctr_stream enc (inc32 J0) ct"
        using c \<open>n = length p\<close> by (simp add: ctr_stream_twice)
    next
      assume a: "drop n c = compute_tag g J0 aad ct \<and> p = ctr_stream enc (inc32 J0) ct"
      then have "ctr_stream enc (inc32 J0) p = ct" by (simp add: ctr_stream_twice)
      moreover have "ct @ drop n c = c" by (simp add: ct_def)
      ultimately show "gcm_encrypt g p iv aad = Inr c" using a True ct unfolding E by simp
    qed
    then show ?thesis unfolding D by auto
  qed
qed

text \<open>
  Property C31: \<open>decrypt\<close> accepts a message exactly when it is what \<open>encrypt\<close> produces, under the same
  key, IV and AAD, from the plaintext it returns: every genuine ciphertext opens to its plaintext, and
  nothing with a different tag, ciphertext or AAD than a genuine one is accepted.
\<close>

theorem gcm_accepts_exactly:
  assumes "gcm_ok g" "length iv = iv_size g"
  shows "gcm_decrypt g c iv aad = Inr p \<longleftrightarrow> gcm_encrypt g p iv aad = Inr c"
  using assms by (rule gcm_accepts)

theorem gcm_accepts_exactly_witness:
  "\<exists>c. gcm_decrypt (gcm_new (replicate 32 7)) c (replicate 12 9) [4] = Inr [1, 2, 3]"
proof -
  have ok: "gcm_ok (gcm_new (replicate 32 7))" "length (replicate 12 9) = iv_size (gcm_new (replicate 32 7))"
    by (simp_all only: gcm_ok_new) (simp add: gcm_new_def Let_def)
  obtain c where "gcm_encrypt (gcm_new (replicate 32 7)) [1, 2, 3] (replicate 12 9) [4] = Inr c"
    using gcm_cases[OF ok, of "[1, 2, 3]" "[4]"] by (simp add: MAX_GCM_PLAINTEXT_def MAX_AAD_BYTES_def Let_def)
  then show ?thesis using gcm_accepts_exactly[OF ok, of c "[4]" "[1, 2, 3]"] by blast
qed

text \<open>
  A genuine message with any part of its tag changed, and nothing else, is answered with
  an encryption error under the same key, IV and AAD.
\<close>

theorem gcm_rejects_changed_tag:
  assumes "gcm_ok g" "length iv = iv_size g" "gcm_encrypt g p iv aad = Inr c"
    and "take (length p) c' = take (length p) c" "length c' = length c" "c' \<noteq> c"
  shows "gcm_decrypt g c' iv aad = Inl ENCRYPTION_ERROR"
proof (rule ccontr)
  assume "gcm_decrypt g c' iv aad \<noteq> Inl ENCRYPTION_ERROR"
  then obtain p' where "gcm_decrypt g c' iv aad = Inr p'"
    by (auto simp: gcm_decrypt_def Let_def split: if_splits)
  then have e: "gcm_encrypt g p' iv aad = Inr c'" by (simp only: gcm_accepts[OF assms(1,2)])
  have l: "length q + 16 = length d" "take (length q) d = ctr_stream (encrypt_block (cipher g)) (inc32 (derive_j0 g iv)) q"
    if "gcm_encrypt g q iv aad = Inr d" for q d
    using that length_compute_tag[OF assms(1,2)] by (auto simp: gcm_cases[OF assms(1,2)] Let_def split: if_splits)
  have "length p' = length p" using l(1)[OF e] l(1)[OF assms(3)] assms(5) by simp
  then have "p' = p" using l(2)[OF e] l(2)[OF assms(3)] assms(4) ctr_stream_twice by metis
  then show False using e assms(3,6) by simp
qed

theorem gcm_rejects_changed_tag_witness:
  "\<exists>c. gcm_decrypt (gcm_new (replicate 32 7)) c (replicate 12 9) [] = Inl ENCRYPTION_ERROR \<and> length c = 16"
proof -
  have ok: "gcm_ok (gcm_new (replicate 32 7))" "length (replicate 12 9) = iv_size (gcm_new (replicate 32 7))"
    by (simp_all only: gcm_ok_new) (simp add: gcm_new_def Let_def)
  obtain c where c: "gcm_encrypt (gcm_new (replicate 32 7)) [] (replicate 12 9) [] = Inr c" "length c = 16"
    using gcm_cases[OF ok, of "[]" "[]"] length_compute_tag[OF ok]
    by (simp add: MAX_GCM_PLAINTEXT_def MAX_AAD_BYTES_def Let_def ctr_stream_def)
  have "map (\<lambda>b. b + 1) c \<noteq> c" using c(2) by (cases c) auto
  then show ?thesis using gcm_rejects_changed_tag[OF ok c(1), of "map (\<lambda>b. b + 1) c"] c(2) by fastforce
qed

end
