(* ===== verification/MpmcRing.thy ===== *)
theory MpmcRing
  imports Prelude
begin

text \<open>
  The bounded lock-free queue of \<^verbatim>\<open>ai/mpmc_ring.hpp\<close> under any number of threads.  A thread's local
  state is its position in the code of \<^verbatim>\<open>push\<close> or \<^verbatim>\<open>pop\<close>, one step of it is one access to a shared
  variable, and the steps of the threads interleave freely.  A weak exchange may fail
  spuriously at any step.  The cursors and sequence numbers are natural numbers: a \<^verbatim>\<open>size_t\<close> that wraps and a weak memory order are outside the model.
\<close>

section \<open>The ring\<close>

record 'a ring =
  seqs :: "nat list"
  datas :: "'a list"
  enqueue :: nat
  dequeue :: nat
  capacity :: nat
  ring_mask :: nat

text \<open>\<^verbatim>\<open>while (cap < capacity) cap <<= 1\<close>.\<close>

function round_cap :: "nat \<Rightarrow> nat \<Rightarrow> nat" where
  "round_cap cap n = (if 0 < cap \<and> cap < n then round_cap (2 * cap) n else cap)"
  by pat_completeness auto
termination by (relation "measure (\<lambda>(cap, n). n - cap)") auto

declare round_cap.simps [simp del]

definition ring_new :: "'a \<Rightarrow> nat \<Rightarrow> 'a ring option" where
  "ring_new d n =
     (if n = 0 then None
      else let cap = round_cap 2 n
           in Some \<lparr>seqs = [0..<cap], datas = replicate cap d, enqueue = 0, dequeue = 0,
                    capacity = cap, ring_mask = cap - 1\<rparr>)"

definition ring_size :: "'a ring \<Rightarrow> nat" where
  "ring_size r = (let head = enqueue r; tail = dequeue r in if head \<ge> tail then head - tail else 0)"

definition ring_empty :: "'a ring \<Rightarrow> bool" where
  "ring_empty r = (ring_size r = 0)"

definition slot_of :: "'a ring \<Rightarrow> nat \<Rightarrow> nat" where
  "slot_of r pos = pos AND ring_mask r"

section \<open>The two operations, one shared access at a time\<close>

datatype 'a pc =
    Idle
  | PushLoad 'a | PushSeq 'a nat | PushCas 'a nat | PushData 'a nat | PushStore 'a nat | PushDone bool
  | PopLoad | PopSeq nat | PopCas nat | PopData nat | PopStore 'a nat | PopDone "'a option"

text \<open>
  \<open>weak\<close> is the spurious failure that \<^verbatim>\<open>compare_exchange_weak\<close> allows; a failed exchange
  leaves the cursor's current value in \<^verbatim>\<open>pos\<close> and goes round the loop.
\<close>

fun thread_step :: "bool \<Rightarrow> 'a ring \<Rightarrow> 'a pc \<Rightarrow> 'a ring \<times> 'a pc" where
  "thread_step weak r (PushLoad v) = (r, PushSeq v (enqueue r))"
| "thread_step weak r (PushSeq v pos) =
     (let diff = int (seqs r ! slot_of r pos) - int pos
      in (r, if diff = 0 then PushCas v pos else if diff < 0 then PushDone False else PushLoad v))"
| "thread_step weak r (PushCas v pos) =
     (if enqueue r = pos \<and> \<not> weak then (r\<lparr>enqueue := pos + 1\<rparr>, PushData v pos) else (r, PushSeq v (enqueue r)))"
| "thread_step weak r (PushData v pos) = (r\<lparr>datas := (datas r)[slot_of r pos := v]\<rparr>, PushStore v pos)"
| "thread_step weak r (PushStore v pos) = (r\<lparr>seqs := (seqs r)[slot_of r pos := pos + 1]\<rparr>, PushDone True)"
| "thread_step weak r PopLoad = (r, PopSeq (dequeue r))"
| "thread_step weak r (PopSeq pos) =
     (let diff = int (seqs r ! slot_of r pos) - int (pos + 1)
      in (r, if diff = 0 then PopCas pos else if diff < 0 then PopDone None else PopLoad))"
| "thread_step weak r (PopCas pos) =
     (if dequeue r = pos \<and> \<not> weak then (r\<lparr>dequeue := pos + 1\<rparr>, PopData pos) else (r, PopSeq (dequeue r)))"
| "thread_step weak r (PopData pos) = (r, PopStore (datas r ! slot_of r pos) pos)"
| "thread_step weak r (PopStore v pos) =
     (r\<lparr>seqs := (seqs r)[slot_of r pos := pos + ring_mask r + 1]\<rparr>, PopDone (Some v))"
| "thread_step weak r pc = (r, pc)"

fun finished :: "'a pc \<Rightarrow> bool" where
  "finished Idle = True"
| "finished (PushDone b) = True"
| "finished (PopDone x) = True"
| "finished _ = False"

text \<open>
  The system: the ring, the threads, and two ghosts that no step reads: the values in the order in
  which pushes claimed their positions, and the (position, value) pairs that pops have returned.
\<close>

record 'a sys =
  ring :: "'a ring"
  pcs :: "nat \<Rightarrow> 'a pc"
  hist :: "'a list"
  got :: "(nat \<times> 'a) list"

fun claimed :: "'a pc \<Rightarrow> 'a pc \<Rightarrow> 'a list" where
  "claimed (PushCas v pos) (PushData v' pos') = [v]"
| "claimed _ _ = []"

fun returned :: "'a pc \<Rightarrow> (nat \<times> 'a) list" where
  "returned (PopStore v pos) = [(pos, v)]"
| "returned _ = []"

inductive sys_step :: "'a sys \<Rightarrow> 'a sys \<Rightarrow> bool" where
  call_push: "finished (pcs s i) \<Longrightarrow> sys_step s (s\<lparr>pcs := (pcs s)(i := PushLoad v)\<rparr>)"
| call_pop: "finished (pcs s i) \<Longrightarrow> sys_step s (s\<lparr>pcs := (pcs s)(i := PopLoad)\<rparr>)"
| run: "\<not> finished (pcs s i) \<Longrightarrow> thread_step weak (ring s) (pcs s i) = (r, pc) \<Longrightarrow>
    sys_step s \<lparr>ring = r, pcs = (pcs s)(i := pc), hist = hist s @ claimed (pcs s i) pc,
                got = got s @ returned (pcs s i)\<rparr>"

inductive_cases sys_stepE: "sys_step s t"

inductive reachable :: "'a ring \<Rightarrow> 'a sys \<Rightarrow> bool" for r0 where
  start: "reachable r0 \<lparr>ring = r0, pcs = (\<lambda>_. Idle), hist = [], got = []\<rparr>"
| step: "reachable r0 s \<Longrightarrow> sys_step s t \<Longrightarrow> reachable r0 t"

section \<open>The invariant\<close>

fun writing :: "'a pc \<Rightarrow> nat \<Rightarrow> bool" where
  "writing (PushData v p) q = (p = q)"
| "writing (PushStore v p) q = (p = q)"
| "writing _ q = False"

fun popping :: "'a pc \<Rightarrow> nat \<Rightarrow> bool" where
  "popping (PopData p) q = (p = q)"
| "popping (PopStore v p) q = (p = q)"
| "popping _ q = False"

definition ring_wf :: "'a ring \<Rightarrow> bool" where
  "ring_wf r \<longleftrightarrow> (\<exists>k. capacity r = 2 ^ Suc k) \<and> ring_mask r = capacity r - 1
     \<and> length (seqs r) = capacity r \<and> length (datas r) = capacity r"

text \<open>A slot waits for position \<open>p\<close>, or holds its published element.\<close>

definition free_slot :: "'a ring \<Rightarrow> (nat \<Rightarrow> 'a pc) \<Rightarrow> nat \<Rightarrow> nat \<Rightarrow> bool" where
  "free_slot r ps j p \<longleftrightarrow> seqs r ! j = p \<and> p mod capacity r = j \<and> dequeue r \<le> p \<and> p < dequeue r + capacity r
     \<and> (p < enqueue r \<longrightarrow> (\<exists>i. writing (ps i) p))"

definition full_slot :: "'a ring \<Rightarrow> (nat \<Rightarrow> 'a pc) \<Rightarrow> 'a list \<Rightarrow> nat \<Rightarrow> nat \<Rightarrow> bool" where
  "full_slot r ps h j p \<longleftrightarrow> seqs r ! j = Suc p \<and> p mod capacity r = j \<and> p < enqueue r \<and> enqueue r \<le> p + capacity r
     \<and> datas r ! j = h ! p \<and> (p < dequeue r \<longrightarrow> (\<exists>i. popping (ps i) p))"

fun pc_ok :: "'a ring \<Rightarrow> 'a list \<Rightarrow> 'a pc \<Rightarrow> bool" where
  "pc_ok r h (PushSeq v p) = (p \<le> enqueue r)"
| "pc_ok r h (PushCas v p) = (p \<le> enqueue r \<and> (p = enqueue r \<longrightarrow> seqs r ! (p mod capacity r) = p))"
| "pc_ok r h (PushData v p) = (p < enqueue r \<and> seqs r ! (p mod capacity r) = p \<and> h ! p = v)"
| "pc_ok r h (PushStore v p) = (p < enqueue r \<and> seqs r ! (p mod capacity r) = p \<and> h ! p = v
      \<and> datas r ! (p mod capacity r) = v)"
| "pc_ok r h (PopSeq p) = (p \<le> dequeue r)"
| "pc_ok r h (PopCas p) = (p \<le> dequeue r \<and> (p = dequeue r \<longrightarrow> seqs r ! (p mod capacity r) = Suc p))"
| "pc_ok r h (PopData p) = (p < dequeue r \<and> seqs r ! (p mod capacity r) = Suc p)"
| "pc_ok r h (PopStore v p) = (p < dequeue r \<and> seqs r ! (p mod capacity r) = Suc p \<and> v = h ! p)"
| "pc_ok r h pc = True"

definition threads_ok :: "'a ring \<Rightarrow> (nat \<Rightarrow> 'a pc) \<Rightarrow> 'a list \<Rightarrow> bool" where
  "threads_ok r ps h \<longleftrightarrow> (\<forall>i. pc_ok r h (ps i))
     \<and> (\<forall>i k p. writing (ps i) p \<longrightarrow> writing (ps k) p \<longrightarrow> i = k)
     \<and> (\<forall>i k p. popping (ps i) p \<longrightarrow> popping (ps k) p \<longrightarrow> i = k)"

definition slots_ok :: "'a ring \<Rightarrow> (nat \<Rightarrow> 'a pc) \<Rightarrow> 'a list \<Rightarrow> bool" where
  "slots_ok r ps h \<longleftrightarrow> (\<forall>j < capacity r. \<exists>p. free_slot r ps j p \<or> full_slot r ps h j p)"

definition cursors_ok :: "'a ring \<Rightarrow> 'a list \<Rightarrow> bool" where
  "cursors_ok r h \<longleftrightarrow> length h = enqueue r \<and> dequeue r \<le> enqueue r \<and> enqueue r \<le> dequeue r + capacity r"

definition got_ok :: "'a ring \<Rightarrow> (nat \<Rightarrow> 'a pc) \<Rightarrow> 'a list \<Rightarrow> (nat \<times> 'a) list \<Rightarrow> bool" where
  "got_ok r ps h g \<longleftrightarrow> distinct (map fst g) \<and> (\<forall>(p, v) \<in> set g. p < dequeue r \<and> v = h ! p)
     \<and> (\<forall>i p. popping (ps i) p \<longrightarrow> p \<notin> fst ` set g)"

definition sys_inv :: "'a ring \<Rightarrow> (nat \<Rightarrow> 'a pc) \<Rightarrow> 'a list \<Rightarrow> (nat \<times> 'a) list \<Rightarrow> bool" where
  "sys_inv r ps h g \<longleftrightarrow> ring_wf r \<and> cursors_ok r h \<and> slots_ok r ps h \<and> threads_ok r ps h \<and> got_ok r ps h g"

lemmas inv_defs = sys_inv_def cursors_ok_def slots_ok_def threads_ok_def got_ok_def

lemma slot_of_mod: "ring_wf r \<Longrightarrow> slot_of r p = p mod capacity r"
proof -
  assume "ring_wf r"
  then obtain k where "capacity r = 2 ^ Suc k" "ring_mask r = 2 ^ Suc k - 1" by (auto simp: ring_wf_def)
  then show ?thesis
    unfolding slot_of_def by (metis mask_nat_def take_bit_eq_mask take_bit_eq_mod)
qed

lemma ring_wf_cap: "ring_wf r \<Longrightarrow> 2 \<le> capacity r"
  by (auto simp: ring_wf_def)

lemma mod_Suc_differs: "2 \<le> c \<Longrightarrow> p mod c = j \<Longrightarrow> Suc p mod c \<noteq> j"
  by (auto simp: mod_Suc)

lemma free_not_full:
  assumes "ring_wf r" "free_slot r ps j p"
  shows "\<not> full_slot r ps' h j q"
proof
  assume f: "full_slot r ps' h j q"
  then have "p = Suc q" "q mod capacity r = j" "p mod capacity r = j" using assms(2) by (auto simp: free_slot_def full_slot_def)
  then show False using mod_Suc_differs[OF ring_wf_cap[OF assms(1)]] by blast
qed

text \<open>A step that only moves one thread, without a change of role, keeps the invariant.\<close>

lemma inv_local:
  assumes "sys_inv r ps h g" "pc_ok r h pc" "writing pc = writing (ps i)" "popping pc = popping (ps i)"
  shows "sys_inv r (ps(i := pc)) h g"
proof -
  have w: "writing ((ps(i := pc)) k) = writing (ps k)" "popping ((ps(i := pc)) k) = popping (ps k)" for k
    using assms(3,4) by auto
  have "slots_ok r (ps(i := pc)) h"
    using assms(1) unfolding sys_inv_def slots_ok_def free_slot_def full_slot_def w by blast
  moreover have "threads_ok r (ps(i := pc)) h"
    using assms(1,2) unfolding sys_inv_def threads_ok_def w by auto
  moreover have "got_ok r (ps(i := pc)) h g"
    using assms(1) unfolding sys_inv_def got_ok_def w by blast
  ultimately show ?thesis using assms(1) by (simp add: sys_inv_def)
qed

lemma slot_free_at:
  assumes "sys_inv r ps h g" "seqs r ! (p mod capacity r) = p"
  shows "free_slot r ps (p mod capacity r) p"
proof -
  have wf: "ring_wf r" using assms(1) by (simp add: sys_inv_def)
  then have "p mod capacity r < capacity r" using ring_wf_cap by fastforce
  then obtain q where "free_slot r ps (p mod capacity r) q \<or> full_slot r ps h (p mod capacity r) q"
    using assms(1) by (auto simp: sys_inv_def slots_ok_def)
  then show ?thesis
    using assms(2) mod_Suc_differs[OF ring_wf_cap[OF wf], of q] by (auto simp: free_slot_def full_slot_def)
qed

lemma slot_full_at:
  assumes "sys_inv r ps h g" "seqs r ! (p mod capacity r) = Suc p"
  shows "full_slot r ps h (p mod capacity r) p"
proof -
  have wf: "ring_wf r" using assms(1) by (simp add: sys_inv_def)
  then have "p mod capacity r < capacity r" using ring_wf_cap by fastforce
  then obtain q where "free_slot r ps (p mod capacity r) q \<or> full_slot r ps h (p mod capacity r) q"
    using assms(1) by (auto simp: sys_inv_def slots_ok_def)
  then show ?thesis
    using assms(2) mod_Suc_differs[OF ring_wf_cap[OF wf], of p] by (auto simp: free_slot_def full_slot_def)
qed

lemma pc_ok_cases:
  assumes "pc_ok r h pc" "writing pc = (\<lambda>_. False)" "popping pc = (\<lambda>_. False)"
  shows "(\<exists>v p. pc = PushSeq v p \<or> pc = PushCas v p) \<or> (\<exists>p. pc = PopSeq p \<or> pc = PopCas p) \<or> pc_ok r' h' pc"
  using assms by (cases pc) (auto simp: fun_eq_iff)

lemma slot_cases:
  assumes "sys_inv r ps h g" "j < capacity r"
  obtains q where "free_slot r ps j q" | q where "full_slot r ps h j q"
  using assms unfolding sys_inv_def slots_ok_def by blast

text \<open>What a step leaves alone: slots it does not touch, roles it only gives up.\<close>

lemma slot_frame:
  assumes "free_slot r ps j q \<or> full_slot r ps h j q"
    and "seqs r' ! j = seqs r ! j" "datas r' ! j = datas r ! j" "enqueue r' = enqueue r" "dequeue r' = dequeue r"
      "capacity r' = capacity r"
    and "\<And>k. q mod capacity r = j \<Longrightarrow> writing (ps k) q \<Longrightarrow> writing (ps' k) q"
    and "\<And>k. q mod capacity r = j \<Longrightarrow> popping (ps k) q \<Longrightarrow> popping (ps' k) q"
  shows "\<exists>q. free_slot r' ps' j q \<or> full_slot r' ps' h j q"
  using assms unfolding free_slot_def full_slot_def by metis

lemma threads_frame:
  assumes "threads_ok r ps h" "\<And>k. pc_ok r' h' (ps' k)"
    and "\<And>k q. writing (ps' k) q \<Longrightarrow> writing (ps k) q" "\<And>k q. popping (ps' k) q \<Longrightarrow> popping (ps k) q"
  shows "threads_ok r' ps' h'"
  using assms unfolding threads_ok_def by blast

lemma got_frame:
  "got_ok r ps h g \<Longrightarrow> dequeue r' = dequeue r \<Longrightarrow> (\<And>k q. popping (ps' k) q \<Longrightarrow> popping (ps k) q) \<Longrightarrow> got_ok r' ps' h g"
  unfolding got_ok_def by metis

lemma pc_ok_seqs:
  assumes "pc_ok r h pc"
    and "\<And>q. writing pc q \<Longrightarrow> seqs r ! (q mod capacity r) = q \<Longrightarrow> q mod capacity r \<noteq> m"
    and "\<And>q. popping pc q \<Longrightarrow> seqs r ! (q mod capacity r) = Suc q \<Longrightarrow> q mod capacity r \<noteq> m"
    and "seqs r ! (enqueue r mod capacity r) = enqueue r \<Longrightarrow> enqueue r mod capacity r \<noteq> m"
    and "seqs r ! (dequeue r mod capacity r) = Suc (dequeue r) \<Longrightarrow> dequeue r mod capacity r \<noteq> m"
  shows "pc_ok (r\<lparr>seqs := (seqs r)[m := x]\<rparr>) h pc"
  using assms by (cases pc) auto

text \<open>A successful claim of a push.\<close>

lemma inv_push_claim:
  assumes inv: "sys_inv r ps h g" and pc: "ps i = PushCas v p" and e: "enqueue r = p"
  shows "sys_inv (r\<lparr>enqueue := Suc p\<rparr>) (ps(i := PushData v p)) (h @ [v]) g"
proof -
  let ?r = "r\<lparr>enqueue := Suc p\<rparr>" and ?ps = "ps(i := PushData v p)"
  have pcs: "pc_ok r h (ps k)" for k using inv by (simp add: inv_defs)
  have s: "seqs r ! (p mod capacity r) = p" using pcs[of i] pc e by simp
  note free = slot_free_at[OF inv s]
  have wf: "ring_wf r" and len: "length h = p" and D: "dequeue r \<le> p" using inv e by (auto simp: inv_defs)
  have "cursors_ok ?r (h @ [v])" using free len D by (simp add: cursors_ok_def free_slot_def)
  moreover have "slots_ok ?r ?ps (h @ [v])"
    unfolding slots_ok_def
  proof (intro allI impI)
    fix j assume "j < capacity ?r"
    then obtain q where "free_slot r ps j q \<or> full_slot r ps h j q" using slot_cases[OF inv, of j] by auto
    then show "\<exists>q. free_slot ?r ?ps j q \<or> full_slot ?r ?ps (h @ [v]) j q"
    proof
      assume f: "free_slot r ps j q"
      have w: "\<exists>k. writing (?ps k) q" if A: "q < Suc p"
      proof (cases "q = p")
        case False
        then have "q < enqueue r" using A e by simp
        then obtain k where "writing (ps k) q" using f by (auto simp: free_slot_def)
        then show ?thesis using pc by (intro exI[of _ k]) auto
      qed (auto intro: exI[of _ i])
      have "free_slot ?r ?ps j q" using f w unfolding free_slot_def by (simp del: fun_upd_apply)
      then show ?thesis by blast
    next
      assume f: "full_slot r ps h j q"
      have "q + capacity r \<noteq> p"
      proof
        assume "q + capacity r = p"
        then have "p mod capacity r = j" using f by (auto simp: full_slot_def)
        then show False using free f free_not_full[OF wf, of ps j p] by (simp add: \<open>p mod capacity r = j\<close>)
      qed
      moreover have w: "\<exists>k. popping (?ps k) q" if A: "q < dequeue r"
      proof -
        obtain k where "popping (ps k) q" using f A by (auto simp: full_slot_def)
        then show ?thesis using pc by (intro exI[of _ k]) auto
      qed
      ultimately have "full_slot ?r ?ps (h @ [v]) j q"
        using f e len unfolding full_slot_def by (simp add: nth_append del: fun_upd_apply)
      then show ?thesis by blast
    qed
  qed
  moreover have "threads_ok ?r ?ps (h @ [v])"
  proof -
    have "pc_ok ?r (h @ [v]) (ps k)" for k
      using pcs[of k] e len by (cases "ps k") (auto simp: nth_append D order_less_le_trans[OF _ D])
    moreover have "\<not> writing (ps k) p" for k using pcs[of k] e by (cases "ps k") auto
    ultimately show ?thesis using inv s len by (auto simp: inv_defs nth_append)
  qed
  moreover have "got_ok ?r ?ps (h @ [v]) g"
    using inv D len by (fastforce simp: inv_defs nth_append)
  ultimately show ?thesis using wf by (simp add: sys_inv_def ring_wf_def)
qed

text \<open>Writing the element into the claimed slot.\<close>

lemma inv_push_data:
  assumes inv: "sys_inv r ps h g" and pc: "ps i = PushData v p"
  shows "sys_inv (r\<lparr>datas := (datas r)[p mod capacity r := v]\<rparr>) (ps(i := PushStore v p)) h g"
proof -
  let ?r = "r\<lparr>datas := (datas r)[p mod capacity r := v]\<rparr>" and ?ps = "ps(i := PushStore v p)"
  have pcs: "pc_ok r h (ps k)" for k using inv by (simp add: inv_defs)
  have own: "p < enqueue r" "seqs r ! (p mod capacity r) = p" "h ! p = v" using pcs[of i] pc by simp_all
  note free = slot_free_at[OF inv own(2)]
  have wf: "ring_wf r" and th: "threads_ok r ps h" and got: "got_ok r ps h g" using inv by (simp_all add: sys_inv_def)
  have w: "\<And>k. writing (ps k) p \<Longrightarrow> k = i" using th pc by (auto simp: threads_ok_def)
  have roles: "writing (?ps k) = writing (ps k)" "popping (?ps k) = popping (ps k)" for k using pc by auto
  have "slots_ok ?r ?ps h"
    unfolding slots_ok_def
  proof (intro allI impI)
    fix j assume "j < capacity ?r"
    then obtain q where q: "free_slot r ps j q \<or> full_slot r ps h j q" using slot_cases[OF inv, of j] by auto
    show "\<exists>q. free_slot ?r ?ps j q \<or> full_slot ?r ?ps h j q"
    proof (cases "j = p mod capacity r")
      case True
      then have "free_slot ?r ?ps j p" using free unfolding free_slot_def roles by simp
      then show ?thesis by blast
    next
      case False
      then show ?thesis by (intro slot_frame[OF q]) (simp_all add: roles del: fun_upd_apply)
    qed
  qed
  moreover have "threads_ok ?r ?ps h"
  proof -
    have "pc_ok ?r h (?ps k)" for k
    proof (cases "k = i")
      case True
      have "p mod capacity r < length (datas r)" using wf ring_wf_cap[OF wf] by (auto simp: ring_wf_def)
      then show ?thesis using True own by simp
    next
      case False
      show ?thesis
      proof (cases "ps k")
        case (PushStore w q)
        then have "q \<noteq> p" using w[of k] False by auto
        then have "q mod capacity r \<noteq> p mod capacity r" using pcs[of k] own(2) PushStore by auto
        then show ?thesis using pcs[of k] False PushStore by simp
      qed (use pcs[of k] False in auto)
    qed
    then show ?thesis by (rule threads_frame[OF th]) (simp_all only: roles)
  qed
  moreover have "got_ok ?r ?ps h g" by (rule got_frame[OF got]) (simp, simp only: roles)
  ultimately show ?thesis using wf inv by (simp add: sys_inv_def ring_wf_def cursors_ok_def)
qed

text \<open>Publishing the element.\<close>

lemma inv_push_store:
  assumes inv: "sys_inv r ps h g" and pc: "ps i = PushStore v p"
  shows "sys_inv (r\<lparr>seqs := (seqs r)[p mod capacity r := p + 1]\<rparr>) (ps(i := PushDone True)) h g"
proof -
  let ?r = "r\<lparr>seqs := (seqs r)[p mod capacity r := p + 1]\<rparr>" and ?ps = "ps(i := PushDone True)"
  have pcs: "pc_ok r h (ps k)" for k using inv by (simp add: inv_defs)
  have own: "p < enqueue r" "seqs r ! (p mod capacity r) = p" "h ! p = v" "datas r ! (p mod capacity r) = v"
    using pcs[of i] pc by simp_all
  note free = slot_free_at[OF inv own(2)]
  have th: "threads_ok r ps h" and got: "got_ok r ps h g" using inv by (simp_all add: sys_inv_def)
  have wf: "ring_wf r" and w: "\<And>k. writing (ps k) p \<Longrightarrow> k = i" using inv pc by (auto simp: inv_defs)
  have lt: "p mod capacity r < length (seqs r)" using wf ring_wf_cap[OF wf] by (auto simp: ring_wf_def)
  have roles: "writing (?ps k) q \<Longrightarrow> writing (ps k) q" "popping (?ps k) q \<Longrightarrow> popping (ps k) q" for k q
    by (cases "k = i"; simp)+
  have "slots_ok ?r ?ps h"
    unfolding slots_ok_def
  proof (intro allI impI)
    fix j assume "j < capacity ?r"
    then obtain q where q: "free_slot r ps j q \<or> full_slot r ps h j q" using slot_cases[OF inv, of j] by auto
    show "\<exists>q. free_slot ?r ?ps j q \<or> full_slot ?r ?ps h j q"
    proof (cases "j = p mod capacity r")
      case True
      have "enqueue r \<le> p + capacity r" using free inv by (auto simp: free_slot_def inv_defs)
      then have "full_slot ?r ?ps h j p" using True free own lt by (auto simp: full_slot_def free_slot_def)
      then show ?thesis by blast
    next
      case False
      have "q mod capacity r = j \<Longrightarrow> writing (ps k) q \<Longrightarrow> writing (?ps k) q"
        "q mod capacity r = j \<Longrightarrow> popping (ps k) q \<Longrightarrow> popping (?ps k) q" for k
        using pc False by (cases "k = i"; simp)+
      then show ?thesis using False by (intro slot_frame[OF q]) (simp_all del: fun_upd_apply)
    qed
  qed
  moreover have "threads_ok ?r ?ps h"
  proof -
    have other: "pc_ok ?r h (ps k)" if "k \<noteq> i" for k
    proof (rule pc_ok_seqs[OF pcs])
      show "q mod capacity r \<noteq> p mod capacity r" if "writing (ps k) q" "seqs r ! (q mod capacity r) = q" for q
      proof
        assume "q mod capacity r = p mod capacity r"
        then have "q = p" using that(2) own(2) by (metis nat.inject)
        then show False using that(1) w[of k] \<open>k \<noteq> i\<close> by simp
      qed
      show "q mod capacity r \<noteq> p mod capacity r" if "seqs r ! (q mod capacity r) = Suc q" for q
        using that own(2) mod_Suc_differs[OF ring_wf_cap[OF wf], of q] by metis
      then show "seqs r ! (dequeue r mod capacity r) = Suc (dequeue r) \<Longrightarrow> dequeue r mod capacity r \<noteq> p mod capacity r" .
      show "seqs r ! (enqueue r mod capacity r) = enqueue r \<Longrightarrow> enqueue r mod capacity r \<noteq> p mod capacity r"
        using own(1,2) by (metis less_irrefl nat.inject)
    qed
    have "pc_ok ?r h (?ps k)" for k
    proof (cases "k = i")
      case False
      then show ?thesis using other[of k] by (metis fun_upd_other)
    qed simp
    then show ?thesis by (rule threads_frame[OF th]) (simp_all only: roles)
  qed
  moreover have "got_ok ?r ?ps h g" by (rule got_frame[OF got]) (simp_all add: roles del: fun_upd_apply)
  ultimately show ?thesis using wf inv by (simp add: sys_inv_def ring_wf_def cursors_ok_def)
qed

text \<open>A successful claim of a pop.\<close>

lemma inv_pop_claim:
  assumes inv: "sys_inv r ps h g" and pc: "ps i = PopCas p" and e: "dequeue r = p"
  shows "sys_inv (r\<lparr>dequeue := Suc p\<rparr>) (ps(i := PopData p)) h g"
proof -
  let ?r = "r\<lparr>dequeue := Suc p\<rparr>" and ?ps = "ps(i := PopData p)"
  have pcs: "pc_ok r h (ps k)" for k using inv by (simp add: inv_defs)
  have s: "seqs r ! (p mod capacity r) = Suc p" using pcs[of i] pc e by simp
  note full = slot_full_at[OF inv s]
  have wf: "ring_wf r" using inv by (simp add: inv_defs)
  have "cursors_ok ?r h" using full inv e by (simp add: inv_defs full_slot_def)
  moreover have "slots_ok ?r ?ps h"
    unfolding slots_ok_def
  proof (intro allI impI)
    fix j assume "j < capacity ?r"
    then show "\<exists>q. free_slot ?r ?ps j q \<or> full_slot ?r ?ps h j q"
    proof (cases rule: slot_cases[OF inv, of j, case_names lt free full])
      case (free q)
      have "q \<noteq> p"
      proof
        assume "q = p"
        then have "j = p mod capacity r" using free by (auto simp: free_slot_def)
        then show False using free_not_full[OF wf free] full by blast
      qed
      moreover have "\<exists>k. writing (?ps k) q" if A: "q < enqueue r"
      proof -
        obtain k where "writing (ps k) q" using free A by (auto simp: free_slot_def)
        then show ?thesis using pc by (intro exI[of _ k]) auto
      qed
      ultimately have "free_slot ?r ?ps j q" using free e unfolding free_slot_def by (simp del: fun_upd_apply)
      then show ?thesis by blast
    next
      case f: (full q)
      have w: "\<exists>k. popping (?ps k) q" if A: "q < Suc p"
      proof (cases "q = p")
        case False
        then have "q < dequeue r" using A e by simp
        then obtain k where "popping (ps k) q" using f by (auto simp: full_slot_def)
        then show ?thesis using pc by (intro exI[of _ k]) auto
      qed (auto intro: exI[of _ i])
      have "full_slot ?r ?ps h j q" using f w unfolding full_slot_def by (simp del: fun_upd_apply)
      then show ?thesis by blast
    qed simp
  qed
  moreover have "threads_ok ?r ?ps h"
  proof -
    have "pc_ok ?r h (ps k)" for k using pcs[of k] e by (cases "ps k") auto
    moreover have "\<not> popping (ps k) p" for k using pcs[of k] e by (cases "ps k") auto
    ultimately show ?thesis using inv s by (auto simp: inv_defs)
  qed
  moreover have "got_ok ?r ?ps h g"
    using inv e by (fastforce simp: inv_defs)
  ultimately show ?thesis using wf by (simp add: sys_inv_def ring_wf_def)
qed

text \<open>Handing the slot to the next cycle; the pop returns its element.\<close>

lemma inv_pop_store:
  assumes inv: "sys_inv r ps h g" and pc: "ps i = PopStore v p"
  shows "sys_inv (r\<lparr>seqs := (seqs r)[p mod capacity r := p + capacity r]\<rparr>) (ps(i := PopDone (Some v))) h (g @ [(p, v)])"
proof -
  let ?r = "r\<lparr>seqs := (seqs r)[p mod capacity r := p + capacity r]\<rparr>" and ?ps = "ps(i := PopDone (Some v))"
  have pcs: "pc_ok r h (ps k)" for k using inv by (simp add: inv_defs)
  have own: "p < dequeue r" "seqs r ! (p mod capacity r) = Suc p" "v = h ! p" using pcs[of i] pc by simp_all
  note full = slot_full_at[OF inv own(2)]
  have th: "threads_ok r ps h" and got: "got_ok r ps h g" using inv by (simp_all add: sys_inv_def)
  have wf: "ring_wf r" and w: "\<And>k. popping (ps k) p \<Longrightarrow> k = i" and DE: "dequeue r \<le> enqueue r"
    using inv pc by (auto simp: inv_defs)
  have lt: "p mod capacity r < length (seqs r)" using wf ring_wf_cap[OF wf] by (auto simp: ring_wf_def)
  have roles: "writing (?ps k) q \<Longrightarrow> writing (ps k) q" "popping (?ps k) q \<Longrightarrow> popping (ps k) q" for k q
    by (cases "k = i"; simp)+
  have "slots_ok ?r ?ps h"
    unfolding slots_ok_def
  proof (intro allI impI)
    fix j assume "j < capacity ?r"
    then obtain q where q: "free_slot r ps j q \<or> full_slot r ps h j q" using slot_cases[OF inv, of j] by auto
    show "\<exists>q. free_slot ?r ?ps j q \<or> full_slot ?r ?ps h j q"
    proof (cases "j = p mod capacity r")
      case True
      then have "free_slot ?r ?ps j (p + capacity r)" using full own lt DE by (auto simp: full_slot_def free_slot_def)
      then show ?thesis by blast
    next
      case False
      have "q mod capacity r = j \<Longrightarrow> writing (ps k) q \<Longrightarrow> writing (?ps k) q"
        "q mod capacity r = j \<Longrightarrow> popping (ps k) q \<Longrightarrow> popping (?ps k) q" for k
        using pc False by (cases "k = i"; simp)+
      then show ?thesis using False by (intro slot_frame[OF q]) (simp_all del: fun_upd_apply)
    qed
  qed
  moreover have "threads_ok ?r ?ps h"
  proof -
    have other: "pc_ok ?r h (ps k)" if "k \<noteq> i" for k
    proof (rule pc_ok_seqs[OF pcs])
      show "q mod capacity r \<noteq> p mod capacity r" if "popping (ps k) q" "seqs r ! (q mod capacity r) = Suc q" for q
      proof
        assume "q mod capacity r = p mod capacity r"
        then have "q = p" using that(2) own(2) by (metis nat.inject)
        then show False using that(1) w[of k] \<open>k \<noteq> i\<close> by simp
      qed
      show "q mod capacity r \<noteq> p mod capacity r" if "seqs r ! (q mod capacity r) = q" for q
        using that own(2) mod_Suc_differs[OF ring_wf_cap[OF wf], of p] by metis
      then show "seqs r ! (enqueue r mod capacity r) = enqueue r \<Longrightarrow> enqueue r mod capacity r \<noteq> p mod capacity r" .
      show "seqs r ! (dequeue r mod capacity r) = Suc (dequeue r) \<Longrightarrow> dequeue r mod capacity r \<noteq> p mod capacity r"
        using own(1,2) by (metis less_irrefl nat.inject)
    qed
    have "pc_ok ?r h (?ps k)" for k
    proof (cases "k = i")
      case False
      then show ?thesis using other[of k] by (metis fun_upd_other)
    qed simp
    then show ?thesis by (rule threads_frame[OF th]) (simp_all only: roles)
  qed
  moreover have "got_ok ?r ?ps h (g @ [(p, v)])"
  proof -
    have "p \<notin> fst ` set g" using got pc unfolding got_ok_def by (metis popping.simps(2))
    moreover have "popping (?ps k) q \<Longrightarrow> q \<noteq> p" for k q
      using w[of k] by (cases "k = i") auto
    moreover have "popping (?ps k) q \<Longrightarrow> q \<notin> fst ` set g" for k q
      using roles(2) got unfolding got_ok_def by blast
    ultimately show ?thesis using got own unfolding got_ok_def by (auto simp del: fun_upd_apply)
  qed
  ultimately show ?thesis using wf inv by (simp add: sys_inv_def ring_wf_def cursors_ok_def)
qed

section \<open>Every reachable state\<close>

lemma inv_step:
  assumes "sys_step s t" "sys_inv (ring s) (pcs s) (hist s) (got s)"
  shows "sys_inv (ring t) (pcs t) (hist t) (got t)"
  using assms
proof (cases rule: sys_step.cases)
  case (call_push i v)
  then show ?thesis
    using inv_local[OF assms(2), of "PushLoad v" i] by (cases "pcs s i") (simp_all add: fun_eq_iff)
next
  case (call_pop i)
  then show ?thesis
    using inv_local[OF assms(2), of PopLoad i] by (cases "pcs s i") (simp_all add: fun_eq_iff)
next
  case (run i weak r pc)
  note loc = inv_local[OF assms(2), where i = i]
  have wf: "ring_wf (ring s)" and ok: "pc_ok (ring s) (hist s) (pcs s i)"
    and DE: "dequeue (ring s) \<le> enqueue (ring s)" using assms(2) by (simp_all add: inv_defs)
  note sl = slot_of_mod[OF wf]
  have top: "capacity (ring s) = Suc (ring_mask (ring s))"
    using wf ring_wf_cap[OF wf] by (simp add: ring_wf_def)
  show ?thesis
  proof (cases "pcs s i")
    case (PushLoad v)
    then show ?thesis using run loc[of "PushSeq v (enqueue (ring s))"] by (auto simp: fun_eq_iff)
  next
    case (PushSeq v p)
    then show ?thesis using run ok loc[of "PushCas v p"] loc[of "PushDone False"] loc[of "PushLoad v"]
      by (auto simp: fun_eq_iff sl Let_def split: if_splits)
  next
    case (PushCas v p)
    show ?thesis
    proof (cases "enqueue (ring s) = p \<and> \<not> weak")
      case True
      then show ?thesis using run PushCas inv_push_claim[OF assms(2) PushCas] by auto
    next
      case False
      then show ?thesis using run PushCas loc[of "PushSeq v (enqueue (ring s))"] by (auto simp: fun_eq_iff)
    qed
  next
    case (PushData v p)
    then show ?thesis using run inv_push_data[OF assms(2) PushData] by (auto simp: sl)
  next
    case (PushStore v p)
    then show ?thesis using run inv_push_store[OF assms(2) PushStore] by (auto simp: sl)
  next
    case PopLoad
    then show ?thesis using run loc[of "PopSeq (dequeue (ring s))"] by (auto simp: fun_eq_iff)
  next
    case (PopSeq p)
    have "int x = 1 + int p \<longleftrightarrow> x = Suc p" for x by auto
    then show ?thesis using PopSeq run ok loc[of "PopCas p"] loc[of "PopDone None"] loc[of PopLoad]
      by (auto simp: fun_eq_iff sl Let_def split: if_splits)
  next
    case (PopCas p)
    show ?thesis
    proof (cases "dequeue (ring s) = p \<and> \<not> weak")
      case True
      then show ?thesis using run PopCas inv_pop_claim[OF assms(2) PopCas] by auto
    next
      case False
      then show ?thesis using run PopCas loc[of "PopSeq (dequeue (ring s))"] by (auto simp: fun_eq_iff)
    qed
  next
    case (PopData p)
    have "full_slot (ring s) (pcs s) (hist s) (p mod capacity (ring s)) p"
      using slot_full_at[OF assms(2)] ok PopData by simp
    then show ?thesis using run PopData ok loc[of "PopStore (datas (ring s) ! (p mod capacity (ring s))) p"]
      by (auto simp: fun_eq_iff sl full_slot_def)
  next
    case (PopStore v p)
    then show ?thesis using run inv_pop_store[OF assms(2) PopStore] top by (auto simp: sl)
  qed (use run in auto)
qed

lemma round_cap_pow: "\<exists>k'. round_cap (2 ^ Suc k) n = 2 ^ Suc k'"
proof (induction "n - 2 ^ Suc k" arbitrary: k rule: less_induct)
  case less
  show ?case
  proof (cases "2 ^ Suc k < n")
    case True
    moreover have "(0 :: nat) < 2 ^ k" by simp
    ultimately have "n - 2 ^ Suc (Suc k) < n - 2 ^ Suc k" unfolding power_Suc by linarith
    from less[OF this] show ?thesis using True by (subst round_cap.simps) simp
  qed (subst round_cap.simps, auto)
qed

lemma round_cap_ge: "0 < cap \<Longrightarrow> n \<le> round_cap cap n"
proof (induction cap n rule: round_cap.induct)
  case (1 cap n)
  then show ?case by (subst round_cap.simps) auto
qed

lemma round_cap_bound: "round_cap cap n = cap \<or> round_cap cap n < 2 * n"
proof (induction cap n rule: round_cap.induct)
  case (1 cap n)
  then show ?case by (subst (1 2) round_cap.simps) auto
qed

lemma ring_new_wf: "ring_new d n = Some r \<Longrightarrow> ring_wf r \<and> n \<le> capacity r"
  using round_cap_pow[of 0 n] round_cap_ge[of 2 n] by (auto simp: ring_new_def ring_wf_def Let_def split: if_splits)

lemma inv_start:
  assumes "ring_new d n = Some r"
  shows "sys_inv r (\<lambda>_. Idle) [] []"
proof -
  have r: "enqueue r = 0" "dequeue r = 0" "seqs r = [0..<capacity r]" using assms by (auto simp: ring_new_def Let_def split: if_splits)
  have "slots_ok r (\<lambda>_. Idle) []"
    unfolding slots_ok_def by (auto simp: free_slot_def r intro!: exI)
  then show ?thesis using ring_new_wf[OF assms] r by (simp add: inv_defs)
qed

lemma reachable_inv:
  assumes "ring_new d n = Some r0" "reachable r0 s"
  shows "sys_inv (ring s) (pcs s) (hist s) (got s)"
  using assms(2) by (induction rule: reachable.induct) (simp_all add: inv_start[OF assms(1)] inv_step)

text \<open>Every claimed pop has returned or is on its way.\<close>

definition delivered :: "'a sys \<Rightarrow> bool" where
  "delivered s \<longleftrightarrow> (\<forall>p < dequeue (ring s). p \<in> fst ` set (got s) \<or> (\<exists>i. popping (pcs s i) p))"

lemma delivered_frame:
  assumes "delivered s" "dequeue (ring t) = dequeue (ring s)" "fst ` set (got s) \<subseteq> fst ` set (got t)"
    and "\<And>k p. popping (pcs s k) p \<Longrightarrow> popping (pcs t k) p \<or> p \<in> fst ` set (got t)"
  shows "delivered t"
  using assms unfolding delivered_def by (metis subsetD)

lemma delivered_step:
  assumes "sys_step s t" "delivered s"
  shows "delivered t"
  using assms(1)
proof (cases rule: sys_step.cases)
  case (call_push i v)
  then have "\<not> popping (pcs s i) p" for p by (cases "pcs s i") auto
  then show ?thesis using call_push by (intro delivered_frame[OF assms(2)]) auto
next
  case (call_pop i)
  then have "\<not> popping (pcs s i) p" for p by (cases "pcs s i") auto
  then show ?thesis using call_pop by (intro delivered_frame[OF assms(2)]) auto
next
  case (run i weak r pc)
  show ?thesis
  proof (cases "\<exists>p. pcs s i = PopCas p \<and> pc = PopData p")
    case True
    then obtain p where p: "pcs s i = PopCas p" "pc = PopData p" by blast
    then have d: "dequeue (ring s) = p" "dequeue r = Suc p" using run by (auto split: if_splits)
    show ?thesis unfolding delivered_def
    proof (intro allI impI)
      fix q assume "q < dequeue (ring t)"
      then have "q < Suc p" using run d by simp
      show "q \<in> fst ` set (got t) \<or> (\<exists>k. popping (pcs t k) q)"
      proof (cases "q = p")
        case True
        then have "popping (pcs t i) q" using run p by simp
        then show ?thesis by blast
      next
        case False
        then have "q \<in> fst ` set (got s) \<or> (\<exists>k. popping (pcs s k) q)"
          using \<open>q < Suc p\<close> assms(2) d by (simp add: delivered_def)
        moreover have "k \<noteq> i" if "popping (pcs s k) q" for k using that p by auto
        ultimately show ?thesis using run by (auto simp: image_Un)
      qed
    qed
  next
    case False
    then have "dequeue r = dequeue (ring s)" using run by (cases "pcs s i") (auto simp: Let_def split: if_splits)
    moreover have "popping pc p \<or> p \<in> fst ` set (returned (pcs s i))" if "popping (pcs s i) p" for p
      using that run by (cases "pcs s i") auto
    ultimately show ?thesis using run by (intro delivered_frame[OF assms(2)]) (auto simp: image_Un)
  qed
qed

lemma reachable_delivered: "reachable r0 s \<Longrightarrow> dequeue r0 = 0 \<Longrightarrow> delivered s"
proof (induction rule: reachable.induct)
  case start
  then show ?case by (simp add: delivered_def)
next
  case (step s t)
  then show ?case using delivered_step by blast
qed

section \<open>A thread that runs alone\<close>

text \<open>Accesses of which no exchange fails spuriously.\<close>

fun solo :: "nat \<Rightarrow> 'a ring \<Rightarrow> 'a pc \<Rightarrow> 'a ring \<times> 'a pc" where
  "solo 0 r pc = (r, pc)"
| "solo (Suc n) r pc = (case thread_step False r pc of (r', pc') \<Rightarrow> solo n r' pc')"

lemma congruent_apart:
  fixes x y c :: nat
  assumes "x < y" "x mod c = y mod c"
  shows "x + c \<le> y"
proof -
  have "c dvd y - x" using assms mod_eq_dvd_iff_nat[of x y c] by simp
  then have "c \<le> y - x" using assms(1) by (simp add: dvd_imp_le)
  then show ?thesis using assms(1) by linarith
qed

lemma slot_ahead:
  assumes "sys_inv r ps h g"
  shows "seqs r ! (enqueue r mod capacity r) \<le> enqueue r" "seqs r ! (dequeue r mod capacity r) \<le> Suc (dequeue r)"
proof -
  have wf: "ring_wf r" and DE: "dequeue r \<le> enqueue r" "enqueue r \<le> dequeue r + capacity r" using assms by (auto simp: inv_defs)
  have c: "p mod capacity r < capacity r" for p using ring_wf_cap[OF wf] by simp
  have le: "q \<le> x" if "q mod capacity r = x mod capacity r" "q < x + capacity r" for q x
    using congruent_apart[OF _ that(1)[symmetric]] that(2) by (meson linorder_not_less)
  show "seqs r ! (enqueue r mod capacity r) \<le> enqueue r"
    using c[of "enqueue r"]
  proof (cases rule: slot_cases[OF assms, of "enqueue r mod capacity r", case_names lt free full])
    case (free q)
    then show ?thesis using le[of q "enqueue r"] DE unfolding free_slot_def by linarith
  qed (auto simp: full_slot_def)
  show "seqs r ! (dequeue r mod capacity r) \<le> Suc (dequeue r)"
    using c[of "dequeue r"]
  proof (cases rule: slot_cases[OF assms, of "dequeue r mod capacity r", case_names lt free full])
    case (free q)
    then show ?thesis using le[of q "dequeue r"] unfolding free_slot_def by linarith
  next
    case (full q)
    then show ?thesis using le[of q "dequeue r"] DE unfolding full_slot_def by linarith
  qed simp
qed

lemma solo_push:
  assumes "sys_inv r ps h g"
  shows "solo 5 r (PushLoad v) =
    (if seqs r ! (enqueue r mod capacity r) = enqueue r
     then (r\<lparr>enqueue := Suc (enqueue r), datas := (datas r)[enqueue r mod capacity r := v],
             seqs := (seqs r)[enqueue r mod capacity r := Suc (enqueue r)]\<rparr>, PushDone True)
     else (r, PushDone False))"
proof -
  have wf: "ring_wf r" using assms by (simp add: inv_defs)
  moreover have "ring_wf (r\<lparr>enqueue := x\<rparr>)" "ring_wf (r\<lparr>enqueue := x, datas := (datas r)[y := v]\<rparr>)" for x y
    using wf by (simp_all add: ring_wf_def)
  moreover have "\<not> enqueue r < seqs r ! (enqueue r mod capacity r)" using slot_ahead(1)[OF assms] by simp
  ultimately show ?thesis by (auto simp: numeral_eq_Suc slot_of_mod Let_def)
qed

lemma solo_pop:
  assumes "sys_inv r ps h g"
  shows "solo 5 r PopLoad =
    (if seqs r ! (dequeue r mod capacity r) = Suc (dequeue r)
     then (r\<lparr>dequeue := Suc (dequeue r),
             seqs := (seqs r)[dequeue r mod capacity r := dequeue r + capacity r]\<rparr>,
           PopDone (Some (datas r ! (dequeue r mod capacity r))))
     else (r, PopDone None))"
proof -
  have wf: "ring_wf r" using assms by (simp add: inv_defs)
  moreover have "ring_wf (r\<lparr>dequeue := x\<rparr>)" for x using wf by (simp add: ring_wf_def)
  moreover have "capacity r = Suc (ring_mask r)" using wf ring_wf_cap[OF wf] by (simp add: ring_wf_def)
  moreover have "\<not> Suc (dequeue r) < seqs r ! (dequeue r mod capacity r)" using slot_ahead(2)[OF assms] by simp
  moreover have "int x = 1 + int p \<longleftrightarrow> x = Suc p" for x p by auto
  ultimately show ?thesis by (auto simp: numeral_eq_Suc slot_of_mod Let_def)
qed

text \<open>
  A thread that runs alone while the exchanges it tries fail spuriously where the list says so: one entry per access, which
  matters only at an exchange.
\<close>

fun alone :: "bool list \<Rightarrow> 'a ring \<Rightarrow> 'a pc \<Rightarrow> 'a ring \<times> 'a pc" where
  "alone [] r pc = (r, pc)"
| "alone (weak # ws) r pc = (case thread_step weak r pc of (r', pc') \<Rightarrow> alone ws r' pc')"

text \<open>The accesses that a thread still makes if no exchange fails spuriously; a stale position costs another round.\<close>

fun accesses_left :: "'a ring \<Rightarrow> 'a pc \<Rightarrow> nat" where
  "accesses_left r (PushLoad v) = 5"
| "accesses_left r (PushSeq v p) = (if p = enqueue r then 4 else 6)"
| "accesses_left r (PushCas v p) = (if p = enqueue r then 3 else 5)"
| "accesses_left r (PushData v p) = 2"
| "accesses_left r (PushStore v p) = 1"
| "accesses_left r PopLoad = 5"
| "accesses_left r (PopSeq p) = (if p = dequeue r then 4 else 6)"
| "accesses_left r (PopCas p) = (if p = dequeue r then 3 else 5)"
| "accesses_left r (PopData p) = 2"
| "accesses_left r (PopStore v p) = 1"
| "accesses_left r pc = 0"

lemma accesses_left_bounds: "accesses_left r pc \<le> 6" "accesses_left r pc = 0 \<longleftrightarrow> finished pc"
  by (cases pc; simp)+

lemma finished_stays: "finished pc \<Longrightarrow> thread_step weak r pc = (r, pc)"
  by (cases pc) simp_all

lemma finished_alone: "finished pc \<Longrightarrow> alone ws r pc = (r, pc)"
  by (induction ws) (simp_all add: finished_stays)

lemma access_made:
  assumes inv: "sys_inv r ps h g" and st: "thread_step weak r pc = (r', pc')" and run: "\<not> finished pc"
  shows "Suc (accesses_left r' pc') \<le> accesses_left r pc + (if weak then 2 else 0)"
proof -
  have wf: "ring_wf r" using inv by (simp add: inv_defs)
  have "\<not> enqueue r < seqs r ! (enqueue r mod capacity r)" "\<not> Suc (dequeue r) < seqs r ! (dequeue r mod capacity r)"
    using slot_ahead[OF inv] by simp_all
  then show ?thesis using st run by (cases pc) (auto simp: Let_def slot_of_mod[OF wf] split: if_splits)
qed

lemma alone_finishes:
  assumes new: "ring_new d n = Some r0"
  shows "reachable r0 s \<Longrightarrow> accesses_left (ring s) (pcs s i) + 2 * count_list ws True \<le> length ws
    \<Longrightarrow> finished (snd (alone ws (ring s) (pcs s i)))"
proof (induction ws arbitrary: s)
  case Nil
  then show ?case by (simp add: accesses_left_bounds)
next
  case (Cons weak ws)
  show ?case
  proof (cases "finished (pcs s i)")
    case True
    then show ?thesis by (simp add: finished_alone[OF True] del: alone.simps)
  next
    case False
    obtain r pc where st: "thread_step weak (ring s) (pcs s i) = (r, pc)" by fastforce
    define t where "t = \<lparr>ring = r, pcs = (pcs s)(i := pc), hist = hist s @ claimed (pcs s i) pc, got = got s @ returned (pcs s i)\<rparr>"
    have "reachable r0 t" unfolding t_def by (rule reachable.step[OF Cons.prems(1) sys_step.run[OF False st]])
    moreover have "Suc (accesses_left r pc) \<le> accesses_left (ring s) (pcs s i) + (if weak then 2 else 0)"
      by (rule access_made[OF reachable_inv[OF new Cons.prems(1)] st False])
    then have "accesses_left (ring t) (pcs t i) + 2 * count_list ws True \<le> length ws"
      using Cons.prems(2) by (cases weak) (simp_all add: t_def)
    ultimately have "finished (snd (alone ws (ring t) (pcs t i)))" by (rule Cons.IH)
    then show ?thesis by (simp add: st t_def)
  qed
qed

section \<open>The ring at rest\<close>

definition content :: "'a ring \<Rightarrow> 'a list" where
  "content r = map (\<lambda>p. datas r ! (p mod capacity r)) [dequeue r..<enqueue r]"

definition at_rest :: "'a sys \<Rightarrow> bool" where
  "at_rest s \<longleftrightarrow> (\<forall>i. finished (pcs s i))"

lemma rest_roles: "at_rest s \<Longrightarrow> \<not> writing (pcs s i) p \<and> \<not> popping (pcs s i) p"
proof -
  assume "at_rest s"
  then have "finished (pcs s i)" by (simp add: at_rest_def)
  then show ?thesis by (cases "pcs s i") auto
qed

lemma rest_slots:
  assumes "sys_inv (ring s) (pcs s) (hist s) (got s)" "at_rest s" "dequeue (ring s) \<le> p"
    "p < dequeue (ring s) + capacity (ring s)"
  shows "if p < enqueue (ring s) then seqs (ring s) ! (p mod capacity (ring s)) = Suc p
           \<and> datas (ring s) ! (p mod capacity (ring s)) = hist s ! p
         else seqs (ring s) ! (p mod capacity (ring s)) = p"
proof -
  let ?r = "ring s"
  have wf: "ring_wf ?r" and DE: "dequeue ?r \<le> enqueue ?r" "enqueue ?r \<le> dequeue ?r + capacity ?r"
    using assms(1) by (auto simp: inv_defs)
  have c: "p mod capacity ?r < capacity ?r" using ring_wf_cap[OF wf] by simp
  have same: "q = p" if "q mod capacity ?r = p mod capacity ?r" "dequeue ?r \<le> q" "q < dequeue ?r + capacity ?r" for q
    using congruent_apart[of p q "capacity ?r"] congruent_apart[of q p "capacity ?r"] that assms(3,4) by linarith
  show ?thesis
    using c
  proof (cases rule: slot_cases[OF assms(1), of "p mod capacity ?r", case_names lt free full])
    case (free q)
    then have "q = p" using same by (auto simp: free_slot_def)
    then show ?thesis using free rest_roles[OF assms(2)] by (auto simp: free_slot_def)
  next
    case (full q)
    then have q: "dequeue ?r \<le> q" "q < enqueue ?r" using rest_roles[OF assms(2)] by (auto simp: full_slot_def not_less)
    then have "q = p" using same full DE by (auto simp: full_slot_def)
    then show ?thesis using full by (auto simp: full_slot_def)
  qed simp
qed

lemma rest_content:
  assumes "sys_inv (ring s) (pcs s) (hist s) (got s)" "at_rest s"
  shows "content (ring s) = drop (dequeue (ring s)) (hist s)"
proof (rule nth_equalityI)
  have l: "length (hist s) = enqueue (ring s)" "enqueue (ring s) \<le> dequeue (ring s) + capacity (ring s)"
    using assms(1) by (auto simp: inv_defs)
  then show "length (content (ring s)) = length (drop (dequeue (ring s)) (hist s))" by (simp add: content_def)
  fix k assume "k < length (content (ring s))"
  then have k: "dequeue (ring s) + k < enqueue (ring s)" by (simp add: content_def)
  then have "[dequeue (ring s)..<enqueue (ring s)] ! k = dequeue (ring s) + k" by (rule nth_upt)
  then show "content (ring s) ! k = drop (dequeue (ring s)) (hist s) ! k"
    using k rest_slots[OF assms, of "dequeue (ring s) + k"] l by (simp add: content_def)
qed

section \<open>Runs\<close>

text \<open>Executable schedules, which reach states of the system.\<close>

definition start_push :: "nat \<Rightarrow> 'a \<Rightarrow> 'a sys \<Rightarrow> 'a sys" where
  "start_push i v s = (if finished (pcs s i) then s\<lparr>pcs := (pcs s)(i := PushLoad v)\<rparr> else s)"

definition start_pop :: "nat \<Rightarrow> 'a sys \<Rightarrow> 'a sys" where
  "start_pop i s = (if finished (pcs s i) then s\<lparr>pcs := (pcs s)(i := PopLoad)\<rparr> else s)"

definition run_thread :: "nat \<Rightarrow> 'a sys \<Rightarrow> 'a sys" where
  "run_thread i s =
     (if finished (pcs s i) then s
      else case thread_step False (ring s) (pcs s i) of (r, pc) \<Rightarrow>
        \<lparr>ring = r, pcs = (pcs s)(i := pc), hist = hist s @ claimed (pcs s i) pc, got = got s @ returned (pcs s i)\<rparr>)"

definition sys_start :: "'a ring \<Rightarrow> 'a sys" where
  "sys_start r = \<lparr>ring = r, pcs = (\<lambda>_. Idle), hist = [], got = []\<rparr>"

lemma reachable_schedule:
  "reachable r (sys_start r)"
  "reachable r s \<Longrightarrow> reachable r (start_push i v s)"
  "reachable r s \<Longrightarrow> reachable r (start_pop i s)"
  "reachable r s \<Longrightarrow> reachable r (run_thread i s)"
  by (auto simp: sys_start_def start_push_def start_pop_def run_thread_def reachable.start
      intro: reachable.step sys_step.intros split: prod.split)

text \<open>Thread 0 pushes 7, thread 1 pops it while thread 0 pushes 8.\<close>

definition demo_ring :: "nat ring" where
  "demo_ring = \<lparr>seqs = [0, 1], datas = [0, 0], enqueue = 0, dequeue = 0, capacity = 2, ring_mask = 1\<rparr>"

definition demo_run :: "nat sys" where
  "demo_run = fold run_thread [1, 1, 0, 1, 0, 0, 1, 0, 1, 0] (start_pop 1 (start_push 0 8
     (fold run_thread [0, 0, 0, 0, 0] (start_push 0 7 (sys_start demo_ring)))))"

lemma demo_ring: "ring_new 0 2 = Some demo_ring"
  by (simp add: ring_new_def demo_ring_def round_cap.simps numeral_2_eq_2)

lemma demo_reachable: "reachable demo_ring demo_run"
  unfolding demo_run_def by (simp add: reachable_schedule)

lemma demo_values: "hist demo_run = [7, 8]" "got demo_run = [(0, 7)]" "at_rest demo_run"
  "dequeue (ring demo_run) = 1"
  by (simp_all add: demo_run_def demo_ring_def sys_start_def start_push_def start_pop_def run_thread_def
      at_rest_def slot_of_def)

text \<open>Thread 1 has claimed the position that thread 0 read, which is at its exchange with a stale value.\<close>

definition demo_mid :: "nat sys" where
  "demo_mid = fold run_thread [0, 0, 1, 1, 1] (start_push 1 8 (start_push 0 7 (sys_start demo_ring)))"

lemma demo_mid: "reachable demo_ring demo_mid" "pcs demo_mid 0 = PushCas 7 0" "pcs demo_mid 1 = PushData 8 0"
  "enqueue (ring demo_mid) = 1"
  unfolding demo_mid_def by (simp_all add: reachable_schedule)
    (simp_all add: demo_ring_def sys_start_def start_push_def run_thread_def slot_of_def)

section \<open>Properties\<close>

text \<open>
  Property C30: the ring is a FIFO under every interleaving of any number of pushing and popping
  threads.  Pushes take positions in their order of claiming; a pop returns the value that was pushed at
  its own position, no position is returned twice, and between the cursors there are never more than
  \<^verbatim>\<open>capacity\<close> elements.
\<close>

theorem mpmc_fifo:
  assumes "ring_new d n = Some r0" "reachable r0 s"
  shows "(\<forall>(p, v) \<in> set (got s). p < length (hist s) \<and> v = hist s ! p) \<and> distinct (map fst (got s))
    \<and> enqueue (ring s) = length (hist s) \<and> dequeue (ring s) \<le> enqueue (ring s)
    \<and> enqueue (ring s) \<le> dequeue (ring s) + capacity (ring s)"
  using reachable_inv[OF assms] by (auto simp: inv_defs)

theorem mpmc_fifo_witness: "got demo_run = [(0, 7)] \<and> hist demo_run ! 0 = 7"
  using mpmc_fifo[OF demo_ring demo_reachable] by (simp add: demo_values)

text \<open>
  Nothing is lost.  When no operation is under way, every position the consumers took has
  been returned, exactly once, and the slots between the cursors hold exactly the pushed values that
  were not returned, in order.
\<close>

theorem mpmc_nothing_lost:
  assumes "ring_new d n = Some r0" "reachable r0 s" "\<forall>i. finished (pcs s i)"
  shows "fst ` set (got s) = {..< dequeue (ring s)} \<and> length (got s) = dequeue (ring s)
    \<and> content (ring s) = drop (dequeue (ring s)) (hist s)"
proof -
  note inv = reachable_inv[OF assms(1,2)]
  have rest: "at_rest s" using assms(3) by (simp add: at_rest_def)
  have "dequeue r0 = 0" using assms(1) by (auto simp: ring_new_def Let_def split: if_splits)
  then have "delivered s" using reachable_delivered[OF assms(2)] by simp
  then have "{..< dequeue (ring s)} \<subseteq> fst ` set (got s)" using rest_roles[OF rest] by (auto simp: delivered_def)
  moreover have "fst ` set (got s) \<subseteq> {..< dequeue (ring s)}" using inv by (auto simp: inv_defs)
  ultimately have e: "fst ` set (got s) = {..< dequeue (ring s)}" by blast
  have "distinct (map fst (got s))" using inv by (simp add: inv_defs)
  then have "length (got s) = card (fst ` set (got s))" by (metis distinct_card length_map list.set_map)
  then show ?thesis using e rest_content[OF inv rest] by simp
qed

theorem mpmc_nothing_lost_witness: "content (ring demo_run) = [8]"
  using mpmc_nothing_lost[OF demo_ring demo_reachable] demo_values by (simp add: at_rest_def)

text \<open>
  Property C34: from every state with no operation under way, a single \<open>push\<close> or \<open>pop\<close>, none of whose weak
  exchanges fails spuriously, is the operation of a bounded queue: a push succeeds and appends exactly when fewer than \<^verbatim>\<open>capacity\<close> elements are
  stored, and changes nothing otherwise; a pop takes the oldest element, or reports empty.
\<close>

theorem mpmc_bounded_queue:
  assumes "ring_new d n = Some r0" "reachable r0 s" "\<forall>i. finished (pcs s i)"
  shows "(case solo 5 (ring s) (PushLoad v) of (r', pc) \<Rightarrow>
      if length (content (ring s)) < capacity (ring s) then pc = PushDone True \<and> content r' = content (ring s) @ [v]
      else pc = PushDone False \<and> r' = ring s)
    \<and> (case solo 5 (ring s) PopLoad of (r', pc) \<Rightarrow>
      case content (ring s) of [] \<Rightarrow> pc = PopDone None \<and> r' = ring s
      | x # xs \<Rightarrow> pc = PopDone (Some x) \<and> content r' = xs)"
proof -
  let ?r = "ring s"
  note inv = reachable_inv[OF assms(1,2)]
  have rest: "at_rest s" using assms(3) by (simp add: at_rest_def)
  have wf: "ring_wf ?r" and DE: "dequeue ?r \<le> enqueue ?r" "enqueue ?r \<le> dequeue ?r + capacity ?r"
    using inv by (auto simp: inv_defs)
  have cap: "0 < capacity ?r" using ring_wf_cap[OF wf] by simp
  have len: "length (content ?r) = enqueue ?r - dequeue ?r" by (simp add: content_def)
  have push: "seqs ?r ! (enqueue ?r mod capacity ?r) = enqueue ?r \<longleftrightarrow> enqueue ?r < dequeue ?r + capacity ?r"
  proof
    show "seqs ?r ! (enqueue ?r mod capacity ?r) = enqueue ?r" if "enqueue ?r < dequeue ?r + capacity ?r"
      using rest_slots[OF inv rest, of "enqueue ?r"] that DE by simp
    show "enqueue ?r < dequeue ?r + capacity ?r" if "seqs ?r ! (enqueue ?r mod capacity ?r) = enqueue ?r"
      using slot_free_at[OF inv that] by (simp add: free_slot_def)
  qed
  have keep: "enqueue ?r mod capacity ?r \<noteq> p mod capacity ?r"
    if "p < enqueue ?r" "dequeue ?r \<le> p" "enqueue ?r < dequeue ?r + capacity ?r" for p
    using congruent_apart[of p "enqueue ?r" "capacity ?r"] that by fastforce
  have added: "content (?r\<lparr>enqueue := Suc (enqueue ?r), datas := (datas ?r)[enqueue ?r mod capacity ?r := v], seqs := q\<rparr>)
      = content ?r @ [v]" if "enqueue ?r < dequeue ?r + capacity ?r" for q
  proof -
    have "enqueue ?r mod capacity ?r < length (datas ?r)" using wf cap by (simp add: ring_wf_def)
    then show ?thesis using DE(1) keep that by (simp add: content_def)
  qed
  have pop: "seqs ?r ! (dequeue ?r mod capacity ?r) = Suc (dequeue ?r) \<longleftrightarrow> dequeue ?r < enqueue ?r"
    using rest_slots[OF inv rest, of "dequeue ?r"] DE cap by (auto split: if_splits)
  have taken: "content ?r = datas ?r ! (dequeue ?r mod capacity ?r) # content (?r\<lparr>dequeue := Suc (dequeue ?r), seqs := q\<rparr>)"
    if "dequeue ?r < enqueue ?r" for q
    using that by (simp add: content_def upt_conv_Cons)
  have "case solo 5 ?r (PushLoad v) of (r', pc) \<Rightarrow>
      if length (content ?r) < capacity ?r then pc = PushDone True \<and> content r' = content ?r @ [v]
      else pc = PushDone False \<and> r' = ?r"
  proof (cases "enqueue ?r < dequeue ?r + capacity ?r")
    case True
    then show ?thesis using solo_push[OF inv, of v] push added len DE by simp
  next
    case False
    then show ?thesis using solo_push[OF inv, of v] push len DE by simp
  qed
  moreover have "case solo 5 ?r PopLoad of (r', pc) \<Rightarrow>
      case content ?r of [] \<Rightarrow> pc = PopDone None \<and> r' = ?r
      | x # xs \<Rightarrow> pc = PopDone (Some x) \<and> content r' = xs"
  proof (cases "dequeue ?r < enqueue ?r")
    case True
    then show ?thesis using solo_pop[OF inv] pop taken[OF True, of "(seqs ?r)[dequeue ?r mod capacity ?r := dequeue ?r + capacity ?r]"]
      by simp
  next
    case False
    then have "content ?r = []" by (simp add: content_def)
    then show ?thesis using solo_pop[OF inv] pop False by simp
  qed
  ultimately show ?thesis by blast
qed

theorem mpmc_bounded_queue_witness:
  "case solo 5 (ring demo_run) (PushLoad 9) of (r', pc) \<Rightarrow> pc = PushDone True \<and> content r' = [8, 9]"
proof -
  have c: "content (ring demo_run) = [8]" "capacity (ring demo_run) = 2"
    by (simp_all add: content_def demo_run_def demo_ring_def sys_start_def start_push_def start_pop_def run_thread_def slot_of_def)
  show ?thesis
    using mpmc_bounded_queue[OF demo_ring demo_reachable, of 9] demo_values(3) c
    by (simp add: at_rest_def split: prod.splits)
qed

text \<open>
  Property C39: the operations are obstruction-free.  In every reachable state, wherever a thread is in its call and whatever
  the other threads were doing when they stopped, the thread finishes its operation within six accesses of its own, and two
  more for every spurious failure of its weak exchanges.
\<close>

theorem mpmc_obstruction_free:
  assumes "ring_new d n = Some r0" "reachable r0 s" "6 + 2 * count_list ws True \<le> length ws"
  shows "finished (snd (alone ws (ring s) (pcs s i)))"
proof (rule alone_finishes[OF assms(1,2)])
  have "accesses_left (ring s) (pcs s i) \<le> 6" by (rule accesses_left_bounds(1))
  then show "accesses_left (ring s) (pcs s i) + 2 * count_list ws True \<le> length ws" using assms(3) by linarith
qed

theorem mpmc_obstruction_free_witness:
  "\<not> finished (pcs demo_mid 0) \<and> finished (snd (alone [False, False, True, False, False, False, False, False] (ring demo_mid) (pcs demo_mid 0)))"
proof -
  have "6 + 2 * count_list [False, False, True, False, False, False, False, False] True \<le> length [False, False, True, False, False, False, False, False]" by simp
  from mpmc_obstruction_free[OF demo_ring demo_mid(1) this, of 0] show ?thesis by (simp only: demo_mid(2)) simp
qed

end
