(* ===== verification/Crc32.thy ===== *)
theory Crc32
  imports Prelude
begin

text \<open>
  The checksum of the write-ahead log, \<^verbatim>\<open>detail::crc32\<close> of \<^verbatim>\<open>include/signet/ai/wal.hpp\<close>: the
  table built bit by bit, the table-driven loop over the bytes, and the little-endian accessors
  of the same file.  The lemmas relate the table-driven loop to the plain bit-serial shift register
  and show which damage the checksum always notices.
\<close>

section \<open>The code\<close>

definition crc_poly :: u32 where "crc_poly = 0xEDB88320"

text \<open>One round of the inner loop of \<^verbatim>\<open>make_table\<close>.\<close>

definition crc_bit_step :: "u32 \<Rightarrow> u32" where
  "crc_bit_step c = (if c AND 1 \<noteq> 0 then crc_poly XOR drop_bit 1 c else drop_bit 1 c)"

definition crc_table :: "u32 list" where
  "crc_table = map (\<lambda>i. (crc_bit_step ^^ 8) (of_nat i)) [0..<256]"

definition crc_update :: "u32 \<Rightarrow> u8 \<Rightarrow> u32" where
  "crc_update crc b = crc_table ! unat ((crc XOR ucast b) AND 0xFF) XOR drop_bit 8 crc"

definition crc32 :: "bytes \<Rightarrow> u32" where
  "crc32 data = foldl crc_update 0xFFFFFFFF data XOR 0xFFFFFFFF"

definition write_le32 :: "u32 \<Rightarrow> bytes" where
  "write_le32 v = [ucast v, ucast (drop_bit 8 v), ucast (drop_bit 16 v), ucast (drop_bit 24 v)]"

definition write_le64 :: "u64 \<Rightarrow> bytes" where
  "write_le64 v = [ucast v, ucast (drop_bit 8 v), ucast (drop_bit 16 v), ucast (drop_bit 24 v),
     ucast (drop_bit 32 v), ucast (drop_bit 40 v), ucast (drop_bit 48 v), ucast (drop_bit 56 v)]"

definition read_le32 :: "bytes \<Rightarrow> u32" where
  "read_le32 src = ucast (src ! 0) OR push_bit 8 (ucast (src ! 1)) OR push_bit 16 (ucast (src ! 2))
     OR push_bit 24 (ucast (src ! 3))"

definition read_le64 :: "bytes \<Rightarrow> u64" where
  "read_le64 src = ucast (src ! 0) OR push_bit 8 (ucast (src ! 1)) OR push_bit 16 (ucast (src ! 2))
     OR push_bit 24 (ucast (src ! 3)) OR push_bit 32 (ucast (src ! 4)) OR push_bit 40 (ucast (src ! 5))
     OR push_bit 48 (ucast (src ! 6)) OR push_bit 56 (ucast (src ! 7))"

section \<open>The accessors\<close>

lemma length_write_le [simp]: "length (write_le32 v) = 4" "length (write_le64 w) = 8"
  by (simp_all add: write_le32_def write_le64_def)

lemma write_le32_to_le: "write_le32 v = to_le 4 v" and write_le64_to_le: "write_le64 w = to_le 8 w"
  by (simp_all add: write_le32_def write_le64_def to_le_def upt_rec)

lemma take_eq_nths: "n \<le> length xs \<Longrightarrow> take n xs = map ((!) xs) [0..<n]"
  by (rule nth_equalityI) auto

lemma read_le_of_le:
  "4 \<le> length src \<Longrightarrow> read_le32 src = of_le (take 4 src)"
  "8 \<le> length src \<Longrightarrow> read_le64 src = of_le (take 8 src)"
  by (simp_all only: take_eq_nths read_le32_def read_le64_def)
    (simp_all add: upt_rec push_bit_or push_bit_push_bit or.assoc numeral_eq_Suc)

lemma read_write_le [simp]:
  "read_le32 (write_le32 v @ r) = v" "read_le64 (write_le64 w @ r) = w"
  by (simp_all add: read_le_of_le, simp_all add: write_le32_to_le write_le64_to_le of_le_to_le)

section \<open>The register\<close>

lemma xor_cancel: "p XOR (p XOR q) = q" for p :: "'a::len word"
  by (simp only: xor.assoc[symmetric] xor_self_eq xor.left_neutral)

lemma xor_left_eq: "p XOR q = p XOR r \<Longrightarrow> q = r" for p :: "'a::len word"
  by (metis xor_cancel)

lemma xor_left_iff: "p XOR q = p XOR r \<longleftrightarrow> q = r" for p :: "'a::len word"
  using xor_left_eq by blast

lemma crc_bit_step_alt: "crc_bit_step c = (if bit c 0 then crc_poly else 0) XOR drop_bit 1 c"
  by (simp add: crc_bit_step_def and_one_eq mod_2_eq_odd bit_0)

lemma bit_crc_step_high: "bit (crc_bit_step c) 31 \<longleftrightarrow> bit c 0"
proof -
  have "bit crc_poly 31" by (simp add: crc_poly_def)
  moreover have "\<not> bit c 32" using bit_imp_le_length[of c 32] by auto
  ultimately show ?thesis by (simp add: crc_bit_step_alt bit_xor_iff bit_drop_bit_eq del: bit_0)
qed

lemma crc_bit_step_xor: "crc_bit_step (a XOR b) = crc_bit_step a XOR crc_bit_step b"
proof -
  have d: "drop_bit 1 (a XOR b) = drop_bit 1 a XOR drop_bit 1 b"
    by (rule bit_word_eqI) (simp add: bit_xor_iff bit_drop_bit_eq)
  show ?thesis
    by (cases "bit a 0"; cases "bit b 0")
      (simp_all only: crc_bit_step_alt bit_xor_iff d if_True if_False xor.assoc xor.left_commute xor.commute
        xor_self_eq xor.right_neutral xor.left_neutral xor_cancel simp_thms)
qed

lemma inj_crc_bit_step: "inj crc_bit_step"
proof (rule injI)
  fix a b assume e: "crc_bit_step a = crc_bit_step b"
  then have z: "bit a 0 = bit b 0" using bit_crc_step_high[of a] bit_crc_step_high[of b] by simp
  then have "drop_bit 1 a = drop_bit 1 b" using e
    unfolding crc_bit_step_alt by (simp only: xor_left_eq)
  then have s: "bit a (Suc i) = bit b (Suc i)" for i
    using bit_drop_bit_eq[of 1 a] bit_drop_bit_eq[of 1 b] by (simp add: fun_eq_iff)
  show "a = b"
  proof (rule bit_word_eqI)
    fix i show "bit a i = bit b i" using z s by (cases i) simp_all
  qed
qed

definition crc_shift :: "nat \<Rightarrow> u32 \<Rightarrow> u32" where
  "crc_shift n = crc_bit_step ^^ n"

lemma crc_shift_0 [simp]: "crc_shift 0 c = c" and crc_shift_Suc: "crc_shift (Suc n) c = crc_shift n (crc_bit_step c)"
  by (simp_all add: crc_shift_def funpow_swap1)

lemma crc_shift_add: "crc_shift m (crc_shift n c) = crc_shift (m + n) c"
  by (simp add: crc_shift_def funpow_add)

lemma crc_shift_xor: "crc_shift n (a XOR b) = crc_shift n a XOR crc_shift n b"
  by (induction n arbitrary: a b) (simp_all add: crc_shift_Suc crc_bit_step_xor)

lemma crc_shift_inj [simp]: "crc_shift n a = crc_shift n b \<longleftrightarrow> a = b"
  by (induction n arbitrary: a b) (simp_all add: crc_shift_Suc inj_eq[OF inj_crc_bit_step])

text \<open>Zeroes in the low bits only move the register.\<close>

lemma crc_shift_low_zero:
  "n \<le> 32 \<Longrightarrow> (\<And>i. i < n \<Longrightarrow> \<not> bit c i) \<Longrightarrow> crc_shift n c = drop_bit n c"
proof (induction n arbitrary: c)
  case 0
  then show ?case by simp
next
  case (Suc n)
  have step: "crc_bit_step c = drop_bit 1 c" using Suc.prems(2)[of 0] by (simp add: crc_bit_step_alt)
  have "crc_shift n (drop_bit 1 c) = drop_bit n (drop_bit 1 c)"
    using Suc.prems by (intro Suc.IH) (auto simp: bit_drop_bit_eq)
  then show ?case by (simp only: crc_shift_Suc step) simp
qed

lemma crc_shift_push: "n \<le> 32 \<Longrightarrow> crc_shift n (push_bit n c) = take_bit (32 - n) c"
  by (subst crc_shift_low_zero)
    (auto intro!: bit_word_eqI simp: bit_push_bit_iff bit_drop_bit_eq bit_take_bit_iff)

text \<open>One step of the table-driven loop is eight steps of the register fed with the byte.\<close>

lemma crc_update_shift: "crc_update crc b = crc_shift 8 (crc XOR ucast b)"
proof -
  let ?x = "crc XOR ucast b :: u32"
  let ?l = "?x AND mask 8"
  let ?h = "?x AND NOT (mask 8)"
  have m: "(0xFF :: u32) = mask 8" by (simp add: mask_eq_exp_minus_1)
  have split: "?x = ?l XOR ?h" by (rule bit_word_eqI) (auto simp: bit_and_iff bit_xor_iff bit_not_iff)
  have "unat ?l < 256" using and_mask_less'[of 8 ?x] by (simp add: word_less_nat_alt)
  then have "crc_table ! unat ?l = crc_shift 8 ?l" by (simp add: crc_table_def crc_shift_def)
  moreover have "crc_shift 8 ?h = drop_bit 8 ?h" by (rule crc_shift_low_zero) (auto simp: bit_and_iff bit_not_iff bit_access)
  moreover have "drop_bit 8 ?h = drop_bit 8 crc"
    by (rule bit_word_eqI) (auto simp: bit_drop_bit_eq bit_and_iff bit_not_iff bit_xor_iff bit_access dest: bit_imp_le_length)
  ultimately show ?thesis by (subst split) (simp only: crc_shift_xor crc_update_def m)
qed

section \<open>The bit-serial reference\<close>

text \<open>
  The textbook CRC-32: the message bits, least significant bit of each byte first, are shifted one
  by one through the register.
\<close>

definition message_bits :: "bytes \<Rightarrow> bool list" where
  "message_bits data = concat (map (\<lambda>b. map (bit b) [0..<8]) data)"

definition crc_serial :: "u32 \<Rightarrow> bool list \<Rightarrow> u32" where
  "crc_serial c bs = foldl (\<lambda>c b. crc_bit_step (c XOR of_bool b)) c bs"

definition crc_bit_serial :: "bytes \<Rightarrow> u32" where
  "crc_bit_serial data = crc_serial 0xFFFFFFFF (message_bits data) XOR 0xFFFFFFFF"

lemma crc_serial_append: "crc_serial c (xs @ ys) = crc_serial (crc_serial c xs) ys"
  by (simp add: crc_serial_def)

lemma message_bits_append [simp]: "message_bits (a @ b) = message_bits a @ message_bits b"
  and message_bits_Nil [simp]: "message_bits [] = []"
  and message_bits_Cons: "message_bits (c # a) = map (bit c) [0..<8] @ message_bits a"
  by (simp_all add: message_bits_def)

lemma length_message_bits [simp]: "length (message_bits data) = 8 * length data"
  by (induction data) (simp_all add: message_bits_Cons)

lemma message_bits_inj: "length a = length b \<Longrightarrow> message_bits a = message_bits b \<Longrightarrow> a = b"
proof (induction a b rule: list_induct2)
  case Nil
  then show ?case by simp
next
  case (Cons x xs y ys)
  then have "map (bit x) [0..<8] = map (bit y) [0..<8]" "message_bits xs = message_bits ys"
    by (simp_all only: message_bits_Cons) (simp_all add: append_eq_append_conv)
  moreover from this(1) have "x = y" by (intro bit_word_eqI) (auto simp: map_eq_conv)
  ultimately show ?case using Cons.IH by simp
qed

text \<open>A window of at most 32 bits enters the register as one word.\<close>

definition bits_word :: "bool list \<Rightarrow> u32" where
  "bits_word bs = horner_sum of_bool 2 bs"

lemma bit_bits_word: "bit (bits_word bs) i \<longleftrightarrow> i < 32 \<and> i < length bs \<and> bs ! i"
  by (auto simp: bits_word_def bit_horner_sum_bit_word_iff)

lemma crc_serial_window:
  "length bs \<le> 32 \<Longrightarrow> crc_serial c bs = crc_shift (length bs) (c XOR bits_word bs)"
proof (induction bs rule: rev_induct)
  case Nil
  then show ?case by (simp add: crc_serial_def bits_word_def)
next
  case (snoc b bs)
  let ?n = "length bs"
  let ?b = "of_bool b :: u32"
  have "crc_shift ?n (push_bit ?n ?b) = ?b"
    using snoc.prems by (subst crc_shift_push) (auto intro!: bit_word_eqI simp: bit_take_bit_iff bit_1_iff)
  then have "crc_shift ?n (c XOR bits_word bs) XOR ?b = crc_shift ?n ((c XOR bits_word bs) XOR push_bit ?n ?b)"
    by (simp only: crc_shift_xor)
  moreover have "bits_word (bs @ [b]) = bits_word bs XOR push_bit ?n ?b"
    using snoc.prems
    by (intro bit_word_eqI) (auto simp: bit_bits_word bit_xor_iff bit_push_bit_iff bit_1_iff nth_append)
  moreover have "crc_serial c (bs @ [b]) = crc_bit_step (crc_serial c bs XOR ?b)" by (simp add: crc_serial_def)
  ultimately show ?case
    using snoc by (simp add: crc_shift_def xor.assoc)
qed

lemma bits_word_byte: "bits_word (map (bit (b :: u8)) [0..<8]) = ucast b"
proof (rule bit_word_eqI)
  fix i assume "i < LENGTH(32)"
  then show "bit (bits_word (map (bit b) [0..<8])) i = bit (ucast b :: u32) i"
    by (cases "i < 8") (auto simp: bit_bits_word bit_access dest: bit_imp_le_length)
qed

lemma crc_feed_serial: "foldl crc_update c data = crc_serial c (message_bits data)"
proof (induction data arbitrary: c)
  case Nil
  then show ?case by (simp add: crc_serial_def)
next
  case (Cons b data)
  have "crc_update c b = crc_serial c (map (bit b) [0..<8])"
    by (simp add: crc_serial_window crc_update_shift bits_word_byte)
  then show ?case using Cons by (simp add: message_bits_Cons crc_serial_append)
qed

text \<open>
  The table-driven checksum is the bit-serial CRC-32 with the reflected polynomial
  0xEDB88320, for every message.
\<close>

theorem crc32_table_correct: "crc32 data = crc_bit_serial data"
  by (simp add: crc32_def crc_bit_serial_def crc_feed_serial)

section \<open>Damage that is always noticed\<close>

lemma crc_serial_inj: "crc_serial c bs = crc_serial d bs \<longleftrightarrow> c = d"
  by (induction bs arbitrary: c d)
    (simp_all add: crc_serial_def inj_eq[OF inj_crc_bit_step] xor.commute[of _ "of_bool _"] xor_left_iff)

lemma bits_word_inj: "length x = length y \<Longrightarrow> length x \<le> 32 \<Longrightarrow> bits_word x = bits_word y \<Longrightarrow> x = y"
  by (rule nth_equalityI) (simp, metis bit_bits_word order_less_le_trans)

lemma crc_burst_bits:
  assumes "message_bits a = p @ x @ q" "message_bits b = p @ y @ q"
    and "length x = length y" "length x \<le> 32" "crc32 a = crc32 b"
  shows "x = y"
proof -
  have "crc_serial 0xFFFFFFFF (message_bits a) = crc_serial 0xFFFFFFFF (message_bits b)"
    using assms(5) by (simp add: crc32_def crc_feed_serial xor.commute[of _ "0xFFFFFFFF"] xor_left_iff)
  then have "crc_serial (crc_serial 0xFFFFFFFF p) x = crc_serial (crc_serial 0xFFFFFFFF p) y"
    by (simp only: assms(1,2) crc_serial_append crc_serial_inj)
  then have "bits_word x = bits_word y"
    using assms(3,4) by (simp add: crc_serial_window xor_left_iff)
  then show ?thesis by (rule bits_word_inj[OF assms(3,4)])
qed

lemma crc_burst_bytes:
  assumes "length x = length y" "length x \<le> 4" "crc32 (p @ x @ q) = crc32 (p @ y @ q)"
  shows "x = y"
proof -
  have "message_bits x = message_bits y"
    by (rule crc_burst_bits[OF _ _ _ _ assms(3), of "message_bits p" _ "message_bits q"])
      (use assms(1,2) in simp_all)
  then show ?thesis by (rule message_bits_inj[OF assms(1)])
qed

text \<open>
  Property C36: the checksum notices every burst error.  If two messages differ, and only within 32
  consecutive bits, at any bit offset, then their checksums differ.
\<close>

theorem crc32_detects_burst:
  assumes "message_bits a = p @ x @ q" "message_bits b = p @ y @ q"
    and "length x = length y" "length x \<le> 32" "a \<noteq> b"
  shows "crc32 a \<noteq> crc32 b"
proof
  assume "crc32 a = crc32 b"
  from crc_burst_bits[OF assms(1-4) this] have "message_bits a = message_bits b" using assms(1,2) by simp
  moreover then have "length a = length b" by (metis length_message_bits mult_cancel1 zero_neq_numeral)
  ultimately show False using message_bits_inj assms(5) by blast
qed

theorem crc32_detects_burst_witness: "crc32 [1, 2, 3, 4, 5] \<noteq> crc32 [1, 7, 3, 9, 5]"
  by (rule crc32_detects_burst[of _ "message_bits [1]" "message_bits [2, 3, 4]" "message_bits [5]"
        _ "message_bits [7, 3, 9]"])
    (simp_all only: message_bits_append[symmetric] append_Cons append_Nil length_message_bits, simp_all)

end
