(* ===== verification/Decimal.thy ===== *)
theory Decimal
  imports Prelude
begin

text \<open>
  Numbers as text, as the standard library prints and parses them: \<^verbatim>\<open>std::to_string\<close> and the stream
  output of an \<^verbatim>\<open>int64_t\<close>, and \<^verbatim>\<open>std::stoll\<close>.
\<close>

section \<open>Printing and parsing\<close>

definition int64 :: "int \<Rightarrow> bool" where
  "int64 i \<longleftrightarrow> - (2 ^ 63) \<le> i \<and> i < 2 ^ 63"

definition digit_char :: "nat \<Rightarrow> char" where "digit_char d = char_of (48 + d)"

definition is_digit :: "char \<Rightarrow> bool" where "is_digit c \<longleftrightarrow> 48 \<le> (of_char c :: nat) \<and> (of_char c :: nat) \<le> 57"

fun nat_to_string :: "nat \<Rightarrow> string" where
  "nat_to_string n = (if n < 10 then [digit_char n] else nat_to_string (n div 10) @ [digit_char (n mod 10)])"

declare nat_to_string.simps [simp del]

definition int_to_string :: "int \<Rightarrow> string" where
  "int_to_string i = (if i < 0 then CHR ''-'' # nat_to_string (nat (- i)) else nat_to_string (nat i))"

definition digits_value :: "string \<Rightarrow> nat" where
  "digits_value s = foldl (\<lambda>v c. 10 * v + (of_char c - 48)) 0 s"

text \<open>\<^verbatim>\<open>std::stoll\<close>: leading white space, a sign, the longest run of digits; an exception when there is no
  digit or the value does not fit.\<close>

definition is_space :: "char \<Rightarrow> bool" where
  "is_space c \<longleftrightarrow> (of_char c :: nat) \<in> {9, 10, 11, 12, 13, 32}"

definition stoll :: "string \<Rightarrow> int option" where
  "stoll s =
     (let t = dropWhile is_space s;
          neg = (t \<noteq> [] \<and> hd t = CHR ''-'');
          u = (if t \<noteq> [] \<and> (hd t = CHR ''-'' \<or> hd t = CHR ''+'') then tl t else t);
          ds = takeWhile is_digit u;
          v = (if neg then - int (digits_value ds) else int (digits_value ds))
      in if ds = [] \<or> \<not> int64 v then None else Some v)"

section \<open>They are inverse\<close>

lemma sint_int64: "int64 i \<Longrightarrow> sint (word_of_int i :: u64) = i"
  by (simp add: int64_def sint_sbintrunc' signed_take_bit_int_eq_self)

lemma digit_char_value [simp]: "d < 10 \<Longrightarrow> (of_char (digit_char d) :: nat) = 48 + d"
  by (simp add: digit_char_def)

lemma nat_to_string_digits: "c \<in> set (nat_to_string n) \<Longrightarrow> is_digit c"
proof (induction n rule: nat_to_string.induct)
  case (1 n)
  then show ?case
    by (cases "n < 10") (auto simp: nat_to_string.simps[of n] is_digit_def digit_char_value)
qed

lemma digits_value_snoc: "digits_value (s @ [c]) = 10 * digits_value s + (of_char c - 48)"
  by (simp add: digits_value_def)

lemma digits_value_nat: "digits_value (nat_to_string n) = n"
proof (induction n rule: nat_to_string.induct)
  case (1 n)
  show ?case
  proof (cases "n < 10")
    case True
    then show ?thesis by (simp add: nat_to_string.simps[of n] digits_value_def)
  next
    case False
    then show ?thesis using 1 by (simp add: nat_to_string.simps[of n] digits_value_snoc)
  qed
qed

lemma nat_to_string_nonempty [simp]: "nat_to_string n \<noteq> []"
  by (simp add: nat_to_string.simps[of n])

lemma takeWhile_digits:
  "(\<And>c. c \<in> set s \<Longrightarrow> is_digit c) \<Longrightarrow> takeWhile (\<lambda>c. c \<noteq> CHR ''_'') (s @ CHR ''_'' # r) = s"
proof -
  assume "\<And>c. c \<in> set s \<Longrightarrow> is_digit c"
  moreover have "\<not> is_digit (CHR ''_'')" by (simp add: is_digit_def)
  ultimately show ?thesis by (subst takeWhile_append2) auto
qed

lemma stoll_nat: "int n < 2 ^ 63 \<Longrightarrow> stoll (nat_to_string n) = Some (int n)"
proof -
  assume n: "int n < 2 ^ 63"
  obtain c cs where s: "nat_to_string n = c # cs" by (cases "nat_to_string n") simp_all
  have d: "is_digit c" "takeWhile is_digit (c # cs) = c # cs"
    using nat_to_string_digits[of _ n] by (auto simp: s takeWhile_eq_all_conv)
  have "\<not> is_space c" "c \<noteq> CHR ''-''" "c \<noteq> CHR ''+''" using d(1) by (auto simp: is_digit_def is_space_def)
  then show ?thesis
    using n d(2) digits_value_nat[of n] unfolding s by (simp add: stoll_def int64_def)
qed

lemma int_to_string_nat: "0 \<le> i \<Longrightarrow> int_to_string i = nat_to_string (nat i)"
  by (simp add: int_to_string_def)

lemma stoll_int: "int64 i \<Longrightarrow> stoll (int_to_string i) = Some i"
proof (cases "0 \<le> i")
  case True
  assume "int64 i"
  then show ?thesis using True stoll_nat[of "nat i"] by (simp add: int_to_string_def int64_def)
next
  case False
  assume i: "int64 i"
  let ?ds = "nat_to_string (nat (- i))"
  have tw: "takeWhile is_digit ?ds = ?ds" using nat_to_string_digits[of _ "nat (- i)"] by (auto simp: takeWhile_eq_all_conv)
  have "\<not> is_space (CHR ''-'')" by (simp add: is_space_def)
  then show ?thesis using i False digits_value_nat[of "nat (- i)"] by (simp add: stoll_def int_to_string_def Let_def tw)
qed

lemma int_to_string_chars: "c \<in> set (int_to_string i) \<Longrightarrow> is_digit c \<or> c = CHR ''-''"
  using nat_to_string_digits by (auto simp: int_to_string_def split: if_splits)

end
