(* ===== verification/Wal.thy ===== *)
theory Wal
  imports Crc32 Decimal
begin

text \<open>
  One write-ahead log file: \<^verbatim>\<open>WalWriter\<close> and \<^verbatim>\<open>WalReader\<close> of \<^verbatim>\<open>include/signet/ai/wal.hpp\<close>.
  The file is the byte list behind the stdio stream; what the operating system answers (a write that
  is cut short, a flush, a sync or an open that fails, a read fault) is an argument of each operation,
  and the clock is the timestamp passed to \<open>wal_append\<close>.  \<^verbatim>\<open>int64_t\<close> counters are integers that
  are cut to 64 bits where they are stored.  The mutex makes each operation one step.
\<close>

section \<open>Format\<close>

definition WAL_RECORD_MAGIC :: u32 where "WAL_RECORD_MAGIC = 0x57414C31"
definition WAL_FILE_HDR_SIZE :: nat where "WAL_FILE_HDR_SIZE = 16"
definition WAL_FILE_MAGIC :: bytes where
  "WAL_FILE_MAGIC = [83, 73, 71, 78, 69, 84, 87, 65, 76, 49, 0, 0, 0, 0, 0, 0]"
definition WAL_MAX_RECORD_SIZE :: nat where "WAL_MAX_RECORD_SIZE = 64 * 1024 * 1024"

record wal_entry =
  entry_seq :: int
  timestamp_ns :: int
  payload :: bytes

text \<open>The 24 header bytes: magic, sequence number, timestamp, size.\<close>

definition record_header :: "int \<Rightarrow> int \<Rightarrow> u32 \<Rightarrow> bytes" where
  "record_header seq ts dsz =
     write_le32 WAL_RECORD_MAGIC @ write_le64 (word_of_int seq) @ write_le64 (word_of_int ts) @ write_le32 dsz"

section \<open>WalWriter\<close>

record wal_options =
  sync_on_append :: bool
  sync_on_flush :: bool
  start_seq :: int

definition default_wal_options :: wal_options where
  "default_wal_options = \<lparr>sync_on_append = False, sync_on_flush = True, start_seq = 0\<rparr>"

record wal_writer =
  wfile :: bytes
  next_seq :: int
  bytes_written :: int
  rejected_empty_count :: nat
  opts :: wal_options
  closed :: bool

text \<open>What the operating system does during a call: how many bytes it still accepts
  (\<open>None\<close>: all of them), and whether each further request succeeds.\<close>

record io =
  accepts :: "nat option"
  flush_ok :: bool
  sync_ok :: bool
  open_ok :: bool
  reopen_ok :: bool
  rescan_ok :: bool

definition io_fine :: io where
  "io_fine = \<lparr>accepts = None, flush_ok = True, sync_ok = True, open_ok = True, reopen_ok = True, rescan_ok = True\<rparr>"

text \<open>A sequence of \<^verbatim>\<open>fwrite\<close> calls that stops at the first short one.\<close>

fun fwrite_all :: "nat option \<Rightarrow> bytes list \<Rightarrow> bytes \<times> bool" where
  "fwrite_all cap [] = ([], True)"
| "fwrite_all None (p # ps) = (let (out, ok) = fwrite_all None ps in (p @ out, ok))"
| "fwrite_all (Some k) (p # ps) =
     (if k < length p then (take k p, False)
      else let (out, ok) = fwrite_all (Some (k - length p)) ps in (p @ out, ok))"

text \<open>The scan of \<^verbatim>\<open>open\<close> over the records of an existing file, from behind the file header.\<close>

function wal_scan :: "bytes \<Rightarrow> int \<Rightarrow> int" where
  "wal_scan rest last_seq =
     (if length rest < 24 then last_seq
      else let hdr = take 24 rest in
        if read_le32 hdr \<noteq> WAL_RECORD_MAGIC then last_seq
        else let seq = sint (read_le64 (drop 4 hdr));
                 data_sz = unat (read_le32 (drop 20 hdr)) in
          if data_sz > WAL_MAX_RECORD_SIZE then last_seq
          else let body = drop 24 rest in
            if length body < data_sz then last_seq
            else let record_data = take data_sz body; tail = drop data_sz body in
              if length tail < 4 then last_seq
              else if crc32 (hdr @ record_data) \<noteq> read_le32 (take 4 tail) then last_seq
              else wal_scan (drop 4 tail) seq)"
  by auto
termination by (relation "measure (length \<circ> fst)") (auto simp: Let_def)

declare wal_scan.simps [simp del]

text \<open>The file before the call (\<open>None\<close>: it does not exist) and after it, and the result.\<close>

definition wal_open :: "bytes option \<Rightarrow> wal_options \<Rightarrow> io \<Rightarrow> bytes option \<times> wal_writer expected" where
  "wal_open old os i =
     (if \<not> open_ok i then (old, Inl IO_ERROR)
      else let data = (case old of None \<Rightarrow> [] | Some d \<Rightarrow> d) in
        if data = [] then
          (case fwrite_all (accepts i) [WAL_FILE_MAGIC] of
             (out, False) \<Rightarrow> (Some out, Inl IO_ERROR)
           | (out, True) \<Rightarrow>
               (Some out, Inr \<lparr>wfile = out, next_seq = start_seq os, bytes_written = 0, rejected_empty_count = 0,
                 opts = os, closed = False\<rparr>))
        else let last_seq = (if rescan_ok i then wal_scan (drop WAL_FILE_HDR_SIZE data) (- 1) else - 1);
                 next = (if last_seq \<ge> 0 then last_seq + 1 else 0)
             in if \<not> reopen_ok i then (Some data, Inl IO_ERROR)
                else (Some data, Inr \<lparr>wfile = data, next_seq = next, bytes_written = 0, rejected_empty_count = 0,
                  opts = os, closed = False\<rparr>))"

definition wal_append :: "wal_writer \<Rightarrow> bytes \<Rightarrow> int \<Rightarrow> io \<Rightarrow> wal_writer \<times> int expected" where
  "wal_append w data ts i =
     (if closed w then (w, Inl IO_ERROR)
      else if length data = 0 then (w\<lparr>rejected_empty_count := rejected_empty_count w + 1\<rparr>, Inl IO_ERROR)
      else if length data > WAL_MAX_RECORD_SIZE then (w, Inl INVALID_ARGUMENT)
      else if length data > 0xFFFFFFFF then (w, Inl IO_ERROR)
      else let seq = next_seq w;
               hdr = record_header seq ts (of_nat (length data));
               crc = foldl crc_update (foldl crc_update 0xFFFFFFFF hdr) data XOR 0xFFFFFFFF;
               crc_buf = write_le32 crc
           in case fwrite_all (accepts i) [hdr, data, crc_buf] of
                (out, False) \<Rightarrow> (w\<lparr>wfile := wfile w @ out\<rparr>, Inl IO_ERROR)
              | (out, True) \<Rightarrow>
                  let w' = w\<lparr>wfile := wfile w @ out, bytes_written := bytes_written w + int (28 + length data),
                             next_seq := next_seq w + 1\<rparr>
                  in if sync_on_append (opts w) \<and> (\<not> flush_ok i \<or> \<not> sync_ok i) then (w', Inl IO_ERROR)
                     else (w', Inr seq))"

definition wal_flush :: "wal_writer \<Rightarrow> bool \<Rightarrow> io \<Rightarrow> unit expected" where
  "wal_flush w do_fsync i =
     (if closed w then Inl IO_ERROR
      else if \<not> flush_ok i then Inl IO_ERROR
      else if (do_fsync \<or> sync_on_flush (opts w)) \<and> \<not> sync_ok i then Inl IO_ERROR
      else Inr ())"

definition wal_close :: "wal_writer \<Rightarrow> io \<Rightarrow> wal_writer \<times> unit expected" where
  "wal_close w i =
     (if closed w then (w, Inr ())
      else (w\<lparr>closed := True\<rparr>, if \<not> flush_ok i then Inl IO_ERROR else if \<not> sync_ok i then Inl IO_ERROR else Inr ()))"

section \<open>WalReader\<close>

datatype validation_mode = BestEffort | Strict

text \<open>\<open>rpos\<close> is the stream position; \<open>fault\<close> is the offset from which the device fails, if any, and
  \<open>ferror\<close> the stream's error indicator.\<close>

record wal_reader =
  rfile :: "bytes option"
  rpos :: nat
  fault :: "nat option"
  ferror :: bool
  last_seq :: int
  rcount :: int
  offset :: nat
  mode :: validation_mode

definition fread :: "wal_reader \<Rightarrow> nat \<Rightarrow> bytes \<times> wal_reader" where
  "fread r n =
     (let data = (case rfile r of None \<Rightarrow> [] | Some d \<Rightarrow> d);
          limit = (case fault r of None \<Rightarrow> length data | Some k \<Rightarrow> min k (length data));
          got = take n (drop (rpos r) (take limit data))
      in (got, r\<lparr>rpos := rpos r + length got,
                 ferror := (ferror r \<or> (length got < n \<and> limit < length data))\<rparr>))"

definition soft_stop_or_error :: "wal_reader \<Rightarrow> wal_entry option expected" where
  "soft_stop_or_error r = (if mode r = Strict then Inl CORRUPT_DATA else Inr None)"

text \<open>The move constructor: every member is carried over except the validation mode, which gets its
  default.\<close>

definition wal_reader_move :: "wal_reader \<Rightarrow> wal_reader" where
  "wal_reader_move r = r\<lparr>mode := BestEffort\<rparr>"

text \<open>\<^verbatim>\<open>open\<close> builds the reader and moves it into the \<^verbatim>\<open>expected\<close> it returns.\<close>

definition wal_reader_open :: "bytes option \<Rightarrow> validation_mode \<Rightarrow> nat option \<Rightarrow> wal_reader expected" where
  "wal_reader_open old m bad =
     (case old of None \<Rightarrow> Inl IO_ERROR
      | Some data \<Rightarrow>
          let r0 = \<lparr>rfile = Some data, rpos = 0, fault = bad, ferror = False, last_seq = - 1, rcount = 0,
                    offset = WAL_FILE_HDR_SIZE, mode = m\<rparr>;
              (hdr, r) = fread r0 WAL_FILE_HDR_SIZE
          in if length hdr \<noteq> WAL_FILE_HDR_SIZE then Inl INVALID_FILE
             else if hdr \<noteq> WAL_FILE_MAGIC then Inl INVALID_FILE
             else Inr (wal_reader_move r))"

definition wal_next :: "wal_reader \<Rightarrow> wal_reader \<times> wal_entry option expected" where
  "wal_next r0 =
     (if rfile r0 = None then (r0, Inr None)
      else let (hdr, r1) = fread r0 24; n = length hdr in
        if n = 0 then (r1, if ferror r1 then Inl IO_ERROR else Inr None)
        else if n < 24 then (r1, soft_stop_or_error r1)
        else if read_le32 hdr \<noteq> WAL_RECORD_MAGIC then (r1, soft_stop_or_error r1)
        else let seq = sint (read_le64 (drop 4 hdr));
                 ts = sint (read_le64 (drop 12 hdr));
                 data_sz = unat (read_le32 (drop 20 hdr)) in
          if data_sz > WAL_MAX_RECORD_SIZE then (r1, soft_stop_or_error r1)
          else let (raw_buf, r2) = (if data_sz > 0 then fread r1 data_sz else ([], r1)) in
            if length raw_buf < data_sz then
              (r2, if ferror r2 then Inl IO_ERROR else soft_stop_or_error r2)
            else let (crc_buf, r3) = fread r2 4 in
              if length crc_buf \<noteq> 4 then (r3, soft_stop_or_error r3)
              else let stored_crc = read_le32 crc_buf;
                       crc = foldl crc_update (foldl crc_update 0xFFFFFFFF hdr) raw_buf XOR 0xFFFFFFFF in
                if crc \<noteq> stored_crc then (r3, soft_stop_or_error r3)
                else (r3\<lparr>offset := offset r3 + 24 + data_sz + 4, last_seq := seq, rcount := rcount r3 + 1\<rparr>,
                      Inr (Some \<lparr>entry_seq = seq, timestamp_ns = ts, payload = raw_buf\<rparr>)))"

text \<open>A read never leaves the file, so the loop of \<^verbatim>\<open>read_all\<close> gets shorter input in each round.\<close>

definition unread :: "wal_reader \<Rightarrow> nat" where
  "unread r = (case rfile r of None \<Rightarrow> 0 | Some d \<Rightarrow> length d - rpos r)"

lemma unread_update [simp]: "unread (r\<lparr>offset := a, last_seq := b, rcount := c\<rparr>) = unread r"
  by (simp add: unread_def split: option.split)

lemma fread_keeps:
  "fread r n = (got, r') \<Longrightarrow> rfile r' = rfile r \<and> mode r' = mode r \<and> fault r' = fault r \<and> rcount r' = rcount r
    \<and> offset r' = offset r \<and> last_seq r' = last_seq r \<and> unread r' = unread r - length got \<and> length got \<le> unread r
    \<and> length got \<le> n"
  by (auto simp: fread_def Let_def unread_def split: option.splits)

lemma wal_next_shorter: "wal_next r = (r', Inr (Some e)) \<Longrightarrow> unread r' < unread r"
proof -
  assume a: "wal_next r = (r', Inr (Some e))"
  obtain hdr r1 where h: "fread r 24 = (hdr, r1)" by fastforce
  let ?sz = "unat (read_le32 (drop 20 hdr))"
  obtain raw r2 where b: "(if ?sz > 0 then fread r1 ?sz else ([], r1)) = (raw, r2)" by fastforce
  obtain crc_buf r3 where c: "fread r2 4 = (crc_buf, r3)" by fastforce
  have l: "length hdr = 24" "r' = r3\<lparr>offset := offset r3 + 24 + ?sz + 4, last_seq := sint (read_le64 (drop 4 hdr)), rcount := rcount r3 + 1\<rparr>"
    using a h b c fread_keeps[OF h]
    by (auto simp: wal_next_def Let_def soft_stop_or_error_def split: if_splits)
  have "unread r2 \<le> unread r1" using b fread_keeps[of r1 ?sz raw r2] by (auto split: if_splits)
  then have "unread r3 < unread r" using fread_keeps[OF h] fread_keeps[OF c] l(1) by auto
  then show ?thesis by (simp add: l(2))
qed

function read_all_from :: "wal_reader \<Rightarrow> wal_entry list \<Rightarrow> wal_reader \<times> wal_entry list expected" where
  "read_all_from r results =
     (case wal_next r of
        (r', Inl e) \<Rightarrow> (r', Inl e)
      | (r', Inr None) \<Rightarrow> (r', Inr results)
      | (r', Inr (Some e)) \<Rightarrow> read_all_from r' (results @ [e]))"
  by auto
termination by (relation "measure (unread \<circ> fst)") (auto intro: wal_next_shorter dest: sym)

declare read_all_from.simps [simp del]

definition wal_read_all :: "wal_reader \<Rightarrow> wal_reader \<times> wal_entry list expected" where
  "wal_read_all r = read_all_from r []"

definition wal_reader_close :: "wal_reader \<Rightarrow> wal_reader" where
  "wal_reader_close r = r\<lparr>rfile := None\<rparr>"

text \<open>Opening a file and reading it to the end, as recovery does.\<close>

definition recover :: "bytes option \<Rightarrow> validation_mode \<Rightarrow> wal_entry list expected" where
  "recover file m = (case wal_reader_open file m None of Inl e \<Rightarrow> Inl e | Inr r \<Rightarrow> snd (wal_read_all r))"

section \<open>Records\<close>

definition wal_record :: "wal_entry \<Rightarrow> bytes" where
  "wal_record e =
     (let hdr = record_header (entry_seq e) (timestamp_ns e) (of_nat (length (payload e)))
      in hdr @ payload e @ write_le32 (crc32 (hdr @ payload e)))"

definition wal_entry_ok :: "wal_entry \<Rightarrow> bool" where
  "wal_entry_ok e \<longleftrightarrow> int64 (entry_seq e) \<and> int64 (timestamp_ns e) \<and> payload e \<noteq> [] \<and> length (payload e) \<le> WAL_MAX_RECORD_SIZE"

lemma length_record_header [simp]: "length (record_header s t n) = 24"
  by (simp add: record_header_def)

lemma record_header_fields:
  "read_le32 (record_header s t n @ r) = WAL_RECORD_MAGIC"
  "read_le64 (drop 4 (record_header s t n @ r)) = word_of_int s"
  "read_le64 (drop 12 (record_header s t n @ r)) = word_of_int t"
  "read_le32 (drop 20 (record_header s t n @ r)) = n"
  by (simp_all add: record_header_def)

section \<open>What the reader does with the rest of a file\<close>

definition stands :: "wal_reader \<Rightarrow> bytes \<Rightarrow> bool" where
  "stands r rest \<longleftrightarrow> (\<exists>d. rfile r = Some d \<and> drop (rpos r) d = rest) \<and> fault r = None \<and> \<not> ferror r"

lemma fread_stands:
  "stands r rest \<Longrightarrow> fread r n = (got, r') \<Longrightarrow> got = take n rest \<and> stands r' (drop n rest) \<and> mode r' = mode r"
  by (auto simp: stands_def fread_def Let_def drop_drop[symmetric] simp del: drop_drop)
    (simp add: drop_drop add.commute min_def)

text \<open>The size field, the decoded entry, and the reasons for which a record is refused.\<close>

definition rec_size :: "bytes \<Rightarrow> nat" where
  "rec_size rest = unat (read_le32 (drop 20 rest))"

definition rec_entry :: "bytes \<Rightarrow> wal_entry" where
  "rec_entry rest = \<lparr>entry_seq = sint (read_le64 (drop 4 rest)), timestamp_ns = sint (read_le64 (drop 12 rest)),
     payload = take (rec_size rest) (drop 24 rest)\<rparr>"

definition refused :: "bytes \<Rightarrow> bool" where
  "refused rest \<longleftrightarrow> rest \<noteq> [] \<and> (length rest < 24 \<or> read_le32 rest \<noteq> WAL_RECORD_MAGIC \<or> rec_size rest > WAL_MAX_RECORD_SIZE
     \<or> length rest < 28 + rec_size rest
     \<or> crc32 (take (24 + rec_size rest) rest) \<noteq> read_le32 (drop (24 + rec_size rest) rest))"

lemma read_le_take:
  "4 \<le> n \<Longrightarrow> read_le32 (take n xs) = read_le32 xs" "8 \<le> n \<Longrightarrow> read_le64 (take n xs) = read_le64 xs"
  by (simp_all add: read_le32_def read_le64_def)

lemma crc_feed_append: "foldl crc_update (foldl crc_update 0xFFFFFFFF a) b XOR 0xFFFFFFFF = crc32 (a @ b)"
  by (simp add: crc32_def)

lemma take_split: "take (m + n) xs = take m xs @ take n (drop m xs)"
  by (rule take_add)

lemma header_reads:
  assumes "24 \<le> length rest"
  shows "read_le32 (take 24 rest) = read_le32 rest" "read_le32 (drop 20 (take 24 rest)) = read_le32 (drop 20 rest)"
    "read_le64 (drop 4 (take 24 rest)) = read_le64 (drop 4 rest)" "read_le64 (drop 12 (take 24 rest)) = read_le64 (drop 12 rest)"
  by (simp_all add: read_le_take drop_take)

lemma wal_next_cases:
  assumes "stands r rest"
  shows "\<exists>r'. wal_next r = (r', if rest = [] then Inr None else if refused rest then soft_stop_or_error r else Inr (Some (rec_entry rest)))
    \<and> (rest \<noteq> [] \<and> \<not> refused rest \<longrightarrow> stands r' (drop (28 + rec_size rest) rest) \<and> mode r' = mode r)"
proof -
  obtain hdr r1 where h: "fread r 24 = (hdr, r1)" by fastforce
  note h' = fread_stands[OF assms h]
  have f: "rfile r \<noteq> None" "\<not> ferror r1" using assms h' by (auto simp: stands_def)
  show ?thesis
  proof (cases "length rest < 24 \<or> read_le32 rest \<noteq> WAL_RECORD_MAGIC \<or> rec_size rest > WAL_MAX_RECORD_SIZE")
    case True
    then show ?thesis
      using h h' f header_reads[of rest]
      by (cases "length rest < 24")
        (auto simp: wal_next_def refused_def rec_size_def soft_stop_or_error_def Let_def)
  next
    case False
    let ?sz = "rec_size rest"
    have hdr: "hdr = take 24 rest" "length hdr = 24" using h' False by auto
    have long: "24 \<le> length rest" using False by simp
    have reads: "read_le32 hdr = read_le32 rest" "rec_size hdr = ?sz" "read_le64 (drop 4 hdr) = read_le64 (drop 4 rest)"
      "read_le64 (drop 12 hdr) = read_le64 (drop 12 rest)"
      by (simp_all only: hdr(1) rec_size_def header_reads[OF long])
    obtain raw r2 where b: "(if ?sz > 0 then fread r1 ?sz else ([], r1)) = (raw, r2)" by fastforce
    have b': "raw = take ?sz (drop 24 rest) \<and> stands r2 (drop (24 + ?sz) rest) \<and> mode r2 = mode r"
      using b h' fread_stands[of r1 "drop 24 rest" ?sz raw r2] by (auto simp: add.commute split: if_splits)
    obtain crc_buf r3 where c: "fread r2 4 = (crc_buf, r3)" by fastforce
    note c' = fread_stands[OF _ c, of "drop (24 + ?sz) rest"]
    have f2: "\<not> ferror r2" using b' by (auto simp: stands_def)
    have crc: "foldl crc_update (foldl crc_update 0xFFFFFFFF hdr) raw XOR 0xFFFFFFFF = crc32 (take (24 + ?sz) rest)"
      by (simp only: crc_feed_append take_split hdr b')
    have soft: "soft_stop_or_error r2 = soft_stop_or_error r" "soft_stop_or_error r3 = soft_stop_or_error r"
      using b' c' by (auto simp: soft_stop_or_error_def)
    have nf: "(rfile r = None) = False" "(length hdr = 0) = False" "(length hdr < 24) = False"
      "(read_le32 rest \<noteq> WAL_RECORD_MAGIC) = False" "(?sz > WAL_MAX_RECORD_SIZE) = False"
      using False f(1) hdr(2) by auto
    note eq = wal_next_def h reads rec_size_def[symmetric] b c crc nf
    have e: "wal_next r =
      (if length raw < ?sz then (r2, if ferror r2 then Inl IO_ERROR else soft_stop_or_error r2)
       else if length crc_buf \<noteq> 4 then (r3, soft_stop_or_error r3)
       else if crc32 (take (24 + ?sz) rest) \<noteq> read_le32 crc_buf then (r3, soft_stop_or_error r3)
       else (r3\<lparr>offset := offset r3 + 24 + ?sz + 4, last_seq := sint (read_le64 (drop 4 rest)), rcount := rcount r3 + 1\<rparr>,
         Inr (Some \<lparr>entry_seq = sint (read_le64 (drop 4 rest)), timestamp_ns = sint (read_le64 (drop 12 rest)), payload = raw\<rparr>)))"
      by (simp only: eq Let_def prod.case if_False)
    show ?thesis
    proof (cases "length rest < 28 + ?sz")
      case True
      then have "refused rest" "rest \<noteq> []" using False by (auto simp: refused_def)
      moreover have "length raw < ?sz \<or> length crc_buf \<noteq> 4" using True b' c' by auto
      ultimately show ?thesis using e soft f2 by auto
    next
      case long: False
      then have l: "\<not> length raw < ?sz" "length crc_buf = 4" "rest \<noteq> []" using b' c' by auto
      have "read_le32 crc_buf = read_le32 (drop (24 + ?sz) rest)" using b' c' by (simp add: read_le_take)
      moreover have "stands (r3\<lparr>offset := i, last_seq := j, rcount := k\<rparr>) (drop (28 + ?sz) rest)" for i j k
        using b' c' by (simp add: stands_def add.commute)
      moreover have "mode r3 = mode r" using b' c' by simp
      ultimately show ?thesis
        using e soft l b' long False by (auto simp: refused_def rec_entry_def)
    qed
  qed
qed

lemma length_wal_record [simp]: "length (wal_record e) = 28 + length (payload e)"
  by (simp add: wal_record_def Let_def)

lemma wal_record_nonempty [simp]: "wal_record e \<noteq> []"
  by (simp add: wal_record_def Let_def record_header_def write_le32_def)

lemma wal_record_parse:
  assumes "wal_entry_ok e"
  shows "\<not> refused (wal_record e @ r)" "rec_size (wal_record e @ r) = length (payload e)" "rec_entry (wal_record e @ r) = e"
    "drop (28 + length (payload e)) (wal_record e @ r) = r"
proof -
  let ?n = "length (payload e)" let ?h = "record_header (entry_seq e) (timestamp_ns e) (of_nat ?n)"
  have rec: "wal_record e @ r = ?h @ payload e @ write_le32 (crc32 (?h @ payload e)) @ r" by (simp add: wal_record_def Let_def)
  have n: "unat (of_nat ?n :: u32) = ?n"
    using assms by (simp add: wal_entry_ok_def WAL_MAX_RECORD_SIZE_def unat_of_nat)
  show sz: "rec_size (wal_record e @ r) = ?n" by (simp only: rec rec_size_def record_header_fields n)
  show "drop (28 + ?n) (wal_record e @ r) = r" by simp
  have t: "take (24 + ?n) (wal_record e @ r) = ?h @ payload e" "drop (24 + ?n) (wal_record e @ r) = write_le32 (crc32 (?h @ payload e)) @ r"
    by (simp_all only: rec) simp_all
  have "read_le32 (wal_record e @ r) = WAL_RECORD_MAGIC" by (simp only: rec record_header_fields)
  then show "\<not> refused (wal_record e @ r)"
    unfolding refused_def sz t using assms by (simp add: wal_entry_ok_def)
  show "rec_entry (wal_record e @ r) = e"
    unfolding rec_entry_def sz
    by (simp only: rec record_header_fields)
      (use assms in \<open>simp add: wal_entry_ok_def sint_int64\<close>)
qed

definition log_bytes :: "wal_entry list \<Rightarrow> bytes" where
  "log_bytes es = concat (map wal_record es)"

lemma log_bytes_simps [simp]:
  "log_bytes [] = []" "log_bytes (e # es) = wal_record e @ log_bytes es" "log_bytes (es @ fs) = log_bytes es @ log_bytes fs"
  by (simp_all add: log_bytes_def)

lemma read_all_log:
  assumes "stands r (log_bytes es @ tail)" "\<And>e. e \<in> set es \<Longrightarrow> wal_entry_ok e" "tail = [] \<or> refused tail"
  shows "snd (read_all_from r acc) = (if tail = [] \<or> mode r = BestEffort then Inr (acc @ es) else Inl CORRUPT_DATA)"
  using assms
proof (induction es arbitrary: r acc)
  case Nil
  then obtain r' where "wal_next r = (r', if tail = [] then Inr None else soft_stop_or_error r)"
    using wal_next_cases[of r tail] by (cases "tail = []") auto
  then show ?case by (cases "mode r") (auto simp: read_all_from.simps[of r] soft_stop_or_error_def)
next
  case (Cons e es)
  note p = wal_record_parse[of e "log_bytes es @ tail"]
  from Cons.prems obtain r' where "wal_next r = (r', Inr (Some e))" "stands r' (log_bytes es @ tail)" "mode r' = mode r"
    using wal_next_cases[of r "wal_record e @ log_bytes es @ tail"] p by auto
  then show ?case using Cons by (simp add: read_all_from.simps[of r])
qed

lemma recover_log:
  assumes "\<And>e. e \<in> set es \<Longrightarrow> wal_entry_ok e" "tail = [] \<or> refused tail"
  shows "recover (Some (WAL_FILE_MAGIC @ log_bytes es @ tail)) m = Inr es"
proof -
  have l: "length WAL_FILE_MAGIC = WAL_FILE_HDR_SIZE" by (simp add: WAL_FILE_MAGIC_def WAL_FILE_HDR_SIZE_def)
  let ?d = "WAL_FILE_MAGIC @ log_bytes es @ tail"
  obtain r where r: "wal_reader_open (Some ?d) m None = Inr r" "stands r (log_bytes es @ tail)" "mode r = BestEffort"
    by (auto simp: wal_reader_open_def fread_def Let_def l[symmetric] wal_reader_move_def stands_def)
  then show ?thesis
    using read_all_log[of r es tail "[]"] assms by (simp add: recover_def wal_read_all_def)
qed

lemma wal_scan_step:
  "wal_scan rest l = (if rest = [] \<or> refused rest then l else wal_scan (drop (28 + rec_size rest) rest) (sint (read_le64 (drop 4 rest))))"
proof (cases "length rest < 24")
  case True
  then show ?thesis by (simp add: wal_scan.simps[of rest] refused_def)
next
  case False
  then have long: "24 \<le> length rest" by simp
  let ?sz = "rec_size rest"
  have sz: "unat (read_le32 (drop 20 rest)) = ?sz" by (simp add: rec_size_def)
  have crc: "take 24 rest @ take ?sz (drop 24 rest) = take (24 + ?sz) rest" by (rule take_split[symmetric])
  have rd: "read_le32 (take 4 (drop ?sz (drop 24 rest))) = read_le32 (drop (24 + ?sz) rest)"
    by (simp add: read_le_take add.commute)
  have d: "drop 4 (drop ?sz (drop 24 rest)) = drop (28 + ?sz) rest" by (simp add: add.commute add.left_commute)
  have l: "length (drop 24 rest) < ?sz \<longleftrightarrow> length rest < 24 + ?sz"
    "length (drop ?sz (drop 24 rest)) < 4 \<longleftrightarrow> length rest < 28 + ?sz" using long by auto
  have ne: "rest \<noteq> []" using long by auto
  show ?thesis
    unfolding wal_scan.simps[of rest] Let_def header_reads[OF long] sz crc rd d l refused_def
    using False ne by simp
qed

lemma scan_log:
  assumes "\<And>e. e \<in> set es \<Longrightarrow> wal_entry_ok e" "tail = [] \<or> refused tail"
  shows "wal_scan (log_bytes es @ tail) l = (if es = [] then l else entry_seq (last es))"
  using assms
proof (induction es arbitrary: l)
  case Nil
  then show ?case by (subst wal_scan_step) simp
next
  case (Cons e es)
  note p = wal_record_parse[of e "log_bytes es @ tail"]
  have "sint (read_le64 (drop 4 (wal_record e @ log_bytes es @ tail))) = entry_seq e"
    using p(3) Cons.prems(1)[of e] by (metis list.set_intros(1) rec_entry_def wal_entry.select_convs(1))
  then have "wal_scan (log_bytes (e # es) @ tail) l = wal_scan (log_bytes es @ tail) (entry_seq e)"
    using p Cons.prems(1)[of e] by (subst wal_scan_step) simp
  then show ?case using Cons by simp
qed

section \<open>Writing, closing, reopening, reading back\<close>

definition acceptable :: "bytes \<times> int \<Rightarrow> bool" where
  "acceptable p \<longleftrightarrow> fst p \<noteq> [] \<and> length (fst p) \<le> WAL_MAX_RECORD_SIZE"

fun numbered :: "int \<Rightarrow> (bytes \<times> int) list \<Rightarrow> wal_entry list" where
  "numbered n [] = []"
| "numbered n ((d, t) # ps) = \<lparr>entry_seq = n, timestamp_ns = t, payload = d\<rparr> # numbered (n + 1) ps"

fun append_all :: "wal_writer \<Rightarrow> (bytes \<times> int) list \<Rightarrow> wal_writer" where
  "append_all w [] = w"
| "append_all w ((d, t) # ps) = append_all (fst (wal_append w d t io_fine)) ps"

text \<open>A session opens the file, appends a batch of (record, clock) pairs and closes it.\<close>

definition session :: "bytes option \<Rightarrow> (bytes \<times> int) list \<Rightarrow> bytes option" where
  "session old ps =
     (case wal_open old default_wal_options io_fine of
        (f, Inl e) \<Rightarrow> f
      | (f, Inr w) \<Rightarrow> Some (wfile (fst (wal_close (append_all w ps) io_fine))))"

lemma fwrite_all_None [simp]: "fwrite_all None ps = (concat ps, True)"
  by (induction ps) simp_all

lemma wal_append_fine:
  assumes "\<not> closed w" "acceptable (d, t)"
  shows "wal_append w d t io_fine =
    (w\<lparr>wfile := wfile w @ wal_record \<lparr>entry_seq = next_seq w, timestamp_ns = t, payload = d\<rparr>,
       bytes_written := bytes_written w + int (28 + length d), next_seq := next_seq w + 1\<rparr>, Inr (next_seq w))"
  using assms
  by (simp add: wal_append_def acceptable_def io_fine_def crc_feed_append wal_record_def Let_def WAL_MAX_RECORD_SIZE_def)

lemma wal_append_refused:
  "\<not> acceptable (d, t) \<Longrightarrow> \<exists>k e. wal_append w d t i = (w\<lparr>rejected_empty_count := k\<rparr>, Inl e)"
  by (auto simp: wal_append_def acceptable_def intro: exI[of _ "rejected_empty_count w"])

lemma append_all_spec:
  "\<not> closed w \<Longrightarrow> wfile (append_all w ps) = wfile w @ log_bytes (numbered (next_seq w) (filter acceptable ps))
    \<and> \<not> closed (append_all w ps)"
proof (induction ps arbitrary: w)
  case Nil
  then show ?case by simp
next
  case (Cons p ps)
  obtain d t where p: "p = (d, t)" by (cases p)
  show ?case
  proof (cases "acceptable p")
    case True
    then show ?thesis using Cons by (simp add: p wal_append_fine)
  next
    case False
    then obtain k e where "wal_append w d t io_fine = (w\<lparr>rejected_empty_count := k\<rparr>, Inl e)"
      using wal_append_refused p by blast
    then show ?thesis using Cons False by (simp add: p)
  qed
qed

lemma numbered_append: "numbered n (ps @ qs) = numbered n ps @ numbered (n + int (length ps)) qs"
  by (induction n ps rule: numbered.induct) (simp_all add: algebra_simps)

lemma length_numbered [simp]: "length (numbered n ps) = length ps"
  by (induction n ps rule: numbered.induct) simp_all

lemma last_numbered: "ps \<noteq> [] \<Longrightarrow> entry_seq (last (numbered n ps)) = n + int (length ps) - 1"
proof (induction n ps rule: numbered.induct)
  case (2 n d t ps)
  then show ?case by (cases ps) auto
qed simp

lemma numbered_ok:
  assumes "\<And>p. p \<in> set ps \<Longrightarrow> acceptable p \<and> int64 (snd p)" "0 \<le> n" "n + int (length ps) \<le> 2 ^ 63" "e \<in> set (numbered n ps)"
  shows "wal_entry_ok e"
  using assms
proof (induction n ps rule: numbered.induct)
  case (1 n)
  then show ?case by simp
next
  case (2 n d t ps)
  show ?case
  proof (cases "e \<in> set (numbered (n + 1) ps)")
    case True
    then show ?thesis using 2(2-4) by (intro 2(1)) auto
  next
    case False
    then have "e = \<lparr>entry_seq = n, timestamp_ns = t, payload = d\<rparr>" using 2(5) by simp
    moreover have "int64 n" using 2(3,4) by (simp add: int64_def)
    ultimately show ?thesis using 2(2)[of "(d, t)"] by (simp add: wal_entry_ok_def acceptable_def)
  qed
qed

lemma wal_open_log:
  assumes "\<And>e. e \<in> set es \<Longrightarrow> wal_entry_ok e" "tail = [] \<or> refused tail" "es = [] \<or> 0 \<le> entry_seq (last es)"
  shows "wal_open (Some (WAL_FILE_MAGIC @ log_bytes es @ tail)) os io_fine =
    (Some (WAL_FILE_MAGIC @ log_bytes es @ tail),
     Inr \<lparr>wfile = WAL_FILE_MAGIC @ log_bytes es @ tail, next_seq = (if es = [] then 0 else entry_seq (last es) + 1),
       bytes_written = 0, rejected_empty_count = 0, opts = os, closed = False\<rparr>)"
proof -
  define f where "f = WAL_FILE_MAGIC @ log_bytes es @ tail"
  have "drop WAL_FILE_HDR_SIZE f = log_bytes es @ tail"
    by (simp add: f_def WAL_FILE_MAGIC_def WAL_FILE_HDR_SIZE_def)
  then have "wal_scan (drop WAL_FILE_HDR_SIZE f) (- 1) = (if es = [] then - 1 else entry_seq (last es))"
    by (simp only: scan_log[OF assms(1,2)])
  moreover have "f \<noteq> []" by (simp add: f_def WAL_FILE_MAGIC_def)
  ultimately show ?thesis
    unfolding f_def[symmetric] using assms(3) by (auto simp: wal_open_def io_fine_def Let_def)
qed

lemma wal_open_new:
  "wal_open None os io_fine =
    (Some WAL_FILE_MAGIC, Inr \<lparr>wfile = WAL_FILE_MAGIC, next_seq = start_seq os, bytes_written = 0,
       rejected_empty_count = 0, opts = os, closed = False\<rparr>)"
  by (simp add: wal_open_def io_fine_def Let_def)

lemma session_log:
  assumes "\<And>p. p \<in> set ps \<Longrightarrow> acceptable p \<and> int64 (snd p)" "int (length ps) \<le> 2 ^ 63"
  shows "session (Some (WAL_FILE_MAGIC @ log_bytes (numbered 0 ps))) qs
    = Some (WAL_FILE_MAGIC @ log_bytes (numbered 0 (ps @ filter acceptable qs)))"
proof -
  have ok: "wal_entry_ok e" if "e \<in> set (numbered 0 ps)" for e by (rule numbered_ok[OF assms(1) _ _ that]) (use assms(2) in simp_all)
  have ne: "numbered 0 ps = [] \<longleftrightarrow> ps = []" by (metis length_0_conv length_numbered)
  have pos: "numbered 0 ps = [] \<or> 0 \<le> entry_seq (last (numbered 0 ps))"
    by (cases "ps = []") (simp_all add: last_numbered Suc_leI)
  have nx: "(if numbered 0 ps = [] then 0 else entry_seq (last (numbered 0 ps)) + 1) = int (length ps)"
    by (cases "ps = []") (simp_all add: last_numbered ne)
  let ?f = "WAL_FILE_MAGIC @ log_bytes (numbered 0 ps)"
  have o: "wal_open (Some ?f) default_wal_options io_fine = (Some ?f, Inr \<lparr>wfile = ?f, next_seq = int (length ps),
      bytes_written = 0, rejected_empty_count = 0, opts = default_wal_options, closed = False\<rparr>)"
    using wal_open_log[of "numbered 0 ps" "[]" default_wal_options] ok pos unfolding nx by simp
  have "wfile (fst (wal_close w io_fine)) = wfile w" for w by (simp add: wal_close_def)
  then show ?thesis
    unfolding session_def o by (simp add: append_all_spec numbered_append)
qed

lemma session_new:
  "session None qs = Some (WAL_FILE_MAGIC @ log_bytes (numbered 0 (filter acceptable qs)))"
  by (simp add: session_def wal_open_new wal_close_def append_all_spec default_wal_options_def)

lemma sessions_log:
  assumes "\<forall>p \<in> set (concat batches). int64 (snd p)" "int (length (concat batches)) \<le> 2 ^ 63" "batches \<noteq> []"
  shows "foldl session None batches = Some (WAL_FILE_MAGIC @ log_bytes (numbered 0 (filter acceptable (concat batches))))"
  using assms
proof (induction batches rule: rev_induct)
  case Nil
  then show ?case by simp
next
  case (snoc b bs)
  show ?case
  proof (cases "bs = []")
    case True
    then show ?thesis by (simp add: session_new)
  next
    case False
    have "length (filter acceptable (concat bs)) \<le> length (concat (bs @ [b]))"
      using length_filter_le[of acceptable "concat bs"] by (simp add: trans_le_add1)
    then have "int (length (filter acceptable (concat bs))) \<le> 2 ^ 63" using snoc.prems(2) by linarith
    then show ?thesis using snoc False session_log[of "filter acceptable (concat bs)" b] by simp
  qed
qed

lemma written_ok:
  assumes "\<forall>p \<in> set (concat batches). int64 (snd p)" "int (length (concat batches)) \<le> 2 ^ 63"
    and "e \<in> set (numbered 0 (filter acceptable (concat batches)))"
  shows "wal_entry_ok e"
proof (rule numbered_ok[OF _ _ _ assms(3)])
  have "length (filter acceptable (concat batches)) \<le> length (concat batches)" by (rule length_filter_le)
  then show "0 + int (length (filter acceptable (concat batches))) \<le> 2 ^ 63" using assms(2) by linarith
qed (use assms(1) in auto)

text \<open>
  Property C23: what is written is what recovery reads.  Over any number of sessions that each open the
  file, append a batch and close it, recovery returns exactly the records that were acceptable (not
  empty, not over the size limit), in order, with their payloads and timestamps, and the sequence
  numbers run on from session to session without a gap or a repeat.
\<close>

theorem wal_sessions_roundtrip:
  assumes "\<forall>p \<in> set (concat batches). int64 (snd p)" "int (length (concat batches)) \<le> 2 ^ 63" "batches \<noteq> []"
  shows "recover (foldl session None batches) m = Inr (numbered 0 (filter acceptable (concat batches)))"
proof -
  let ?es = "numbered 0 (filter acceptable (concat batches))"
  have "wal_entry_ok e" if "e \<in> set ?es" for e using written_ok[OF assms(1,2) that] .
  then show ?thesis
    using recover_log[of ?es "[]" m] sessions_log[of batches] assms by auto
qed

theorem wal_sessions_roundtrip_witness:
  "recover (foldl session None [[([1, 2], 5), ([], 6)], [([3], 7)]]) Strict
    = Inr [\<lparr>entry_seq = 0, timestamp_ns = 5, payload = [1, 2]\<rparr>, \<lparr>entry_seq = 1, timestamp_ns = 7, payload = [3]\<rparr>]"
  using wal_sessions_roundtrip[of "[[([1, 2], 5), ([], 6)], [([3], 7)]]" Strict]
  by (simp add: int64_def acceptable_def WAL_MAX_RECORD_SIZE_def)

section \<open>A crash\<close>

text \<open>The leading records that lie within the first \<open>n\<close> bytes.\<close>

fun whole :: "nat \<Rightarrow> wal_entry list \<Rightarrow> wal_entry list" where
  "whole n [] = []"
| "whole n (e # es) = (if length (wal_record e) \<le> n then e # whole (n - length (wal_record e)) es else [])"

lemma torn_refused:
  assumes "wal_entry_ok e" "0 < n" "n < length (wal_record e)"
  shows "refused (take n (wal_record e))"
proof (cases "n < 24")
  case True
  then show ?thesis using assms by (auto simp: refused_def)
next
  case False
  then have "rec_size (take n (wal_record e)) = length (payload e)"
    using wal_record_parse(2)[OF assms(1), of "[]"] by (simp add: rec_size_def drop_take read_le_take)
  then show ?thesis using assms by (auto simp: refused_def)
qed

lemma take_log:
  assumes "\<And>e. e \<in> set es \<Longrightarrow> wal_entry_ok e"
  shows "\<exists>torn. take n (log_bytes es) = log_bytes (whole n es) @ torn \<and> (torn = [] \<or> refused torn)"
  using assms
proof (induction es arbitrary: n)
  case Nil
  then show ?case by simp
next
  case (Cons e es)
  show ?case
  proof (cases "length (wal_record e) \<le> n")
    case True
    obtain torn where "take (n - length (wal_record e)) (log_bytes es) = log_bytes (whole (n - length (wal_record e)) es) @ torn"
      "torn = [] \<or> refused torn"
      using Cons.IH[of "n - length (wal_record e)"] Cons.prems by auto
    then show ?thesis using True by auto
  next
    case False
    then show ?thesis using torn_refused[of e n] Cons.prems[of e] by (cases "n = 0") auto
  qed
qed

lemma whole_subset: "set (whole n es) \<subseteq> set es"
  by (induction n es rule: whole.induct) auto

text \<open>
  Property C7: recovery after a crash.  If only the first \<open>n\<close> bytes of the file reached the disk,
  recovery returns exactly the records that are complete within them: none of these is lost, and
  the torn record behind them is never mistaken for a record.  A file cut within its own header is
  refused as invalid.
\<close>

theorem wal_crash_recovery:
  assumes "\<forall>p \<in> set (concat batches). int64 (snd p)" "int (length (concat batches)) \<le> 2 ^ 63"
    and "foldl session None batches = Some file"
  shows "recover (Some (take n file)) m =
    (if n < 16 then Inl INVALID_FILE else Inr (whole (n - 16) (numbered 0 (filter acceptable (concat batches)))))"
proof -
  let ?es = "numbered 0 (filter acceptable (concat batches))"
  have ok: "wal_entry_ok e" if "e \<in> set ?es" for e using written_ok[OF assms(1,2) that] .
  have "batches \<noteq> []" using assms(3) by auto
  then have f: "file = WAL_FILE_MAGIC @ log_bytes ?es" using sessions_log[OF assms(1,2)] assms by auto
  have l: "length WAL_FILE_MAGIC = 16" by (simp add: WAL_FILE_MAGIC_def)
  show ?thesis
  proof (cases "n < 16")
    case True
    then show ?thesis
      by (simp add: recover_def wal_reader_open_def fread_def WAL_FILE_HDR_SIZE_def Let_def f l)
  next
    case False
    obtain torn where t: "take (n - 16) (log_bytes ?es) = log_bytes (whole (n - 16) ?es) @ torn" "torn = [] \<or> refused torn"
      using take_log[of ?es "n - 16", OF ok] by blast
    have "take n file = WAL_FILE_MAGIC @ log_bytes (whole (n - 16) ?es) @ torn"
      using False by (simp add: f l t(1))
    then show ?thesis
      using False recover_log[of "whole (n - 16) ?es" torn m, OF ok t(2)] whole_subset by auto
  qed
qed

theorem wal_crash_recovery_witness:
  "\<exists>file. length file = 76 \<and> recover (Some (take 75 file)) BestEffort = Inr [\<lparr>entry_seq = 0, timestamp_ns = 5, payload = [1, 2]\<rparr>]"
proof -
  let ?b = "[[([1, 2], 5)], [([3, 4], 7 :: int)]] :: (bytes \<times> int) list list"
  have v: "\<forall>p \<in> set (concat ?b). int64 (snd p)" "int (length (concat ?b)) \<le> 2 ^ 63" by (simp_all add: int64_def)
  have s: "foldl session None ?b = Some (WAL_FILE_MAGIC @ log_bytes (numbered 0 (concat ?b)))"
    using sessions_log[OF v] by (simp add: acceptable_def WAL_MAX_RECORD_SIZE_def)
  show ?thesis
    using wal_crash_recovery[OF v s, of 75 BestEffort]
    by (intro exI[of _ "WAL_FILE_MAGIC @ log_bytes (numbered 0 (concat ?b))"])
      (simp add: WAL_FILE_MAGIC_def acceptable_def WAL_MAX_RECORD_SIZE_def)
qed

section \<open>Damage\<close>

lemma read_le32_inj:
  assumes "length a = 4" "length b = 4" "read_le32 (a @ r) = read_le32 (b @ r)"
  shows "a = b"
proof -
  have "(of_le a :: u32) = of_le b" using assms by (simp add: read_le_of_le)
  then have "to_le 4 (of_le a :: u32) = to_le 4 (of_le b :: u32)" by simp
  then show ?thesis using assms(1,2) by (simp add: to_le_of_le)
qed

lemma read_le32_cong:
  assumes "k + 4 \<le> length xs" "k + 4 \<le> length ys" "\<And>i. k \<le> i \<Longrightarrow> i < k + 4 \<Longrightarrow> xs ! i = ys ! i"
  shows "read_le32 (drop k xs) = read_le32 (drop k ys)"
  using assms by (simp add: read_le32_def nth_drop)

text \<open>
  A window of at most four damaged bytes, wherever it lies, as long as it leaves the size field alone
  and does not run from the payload into the checksum.
\<close>

lemma damaged_refused:
  assumes "wal_entry_ok e" "wal_record e = p @ y @ q" "length x = length y" "length x \<le> 4" "x \<noteq> y"
    and "length p + length x \<le> 20 \<or> 24 \<le> length p"
    and "length p + length x \<le> 24 + length (payload e) \<or> 24 + length (payload e) \<le> length p"
  shows "refused (p @ x @ q @ rest)"
proof (rule ccontr)
  assume accepted: "\<not> refused (p @ x @ q @ rest)"
  define d where "d = p @ x @ q @ rest"
  define r where "r = wal_record e @ rest"
  let ?n = "24 + length (payload e)"
  have len: "length p + length y + length q = 28 + length (payload e)" using arg_cong[OF assms(2), of length] by simp
  then have l: "length d = 28 + length (payload e) + length rest" "length r = 28 + length (payload e) + length rest"
    using assms(3) by (simp_all add: d_def r_def)
  have r: "r = p @ y @ q @ rest" by (simp add: r_def assms(2))
  have same: "d ! i = r ! i" if "i < length p \<or> length p + length x \<le> i" for i
    using that assms(3) by (auto simp: r d_def nth_append)
  have "rec_size d = rec_size r"
    unfolding rec_size_def by (rule arg_cong[where f = unat], rule read_le32_cong) (use assms(6) same l in auto)
  then have size: "rec_size d = length (payload e)" using wal_record_parse(2)[OF assms(1), of rest] by (simp add: r_def)
  have "refused d = False" using accepted by (simp add: d_def)
  then have crc: "crc32 (take ?n d) = read_le32 (drop ?n d)" using l by (auto simp: refused_def size)
  have "\<not> refused r" "rec_size r = length (payload e)" using wal_record_parse[OF assms(1), of rest] by (simp_all add: r_def)
  then have crc': "crc32 (take ?n r) = read_le32 (drop ?n r)" using l by (auto simp: refused_def)
  show False
  proof (cases "?n \<le> length p")
    case True
    then have "take ?n d = take ?n r" by (simp add: d_def r)
    moreover have "drop ?n d = drop ?n (p @ x @ q) @ rest" "drop ?n r = drop ?n (p @ y @ q) @ rest"
      using len assms(3) by (simp_all add: d_def r)
    ultimately have "drop ?n (p @ x @ q) = drop ?n (p @ y @ q)"
      using crc crc' len assms(3) by (intro read_le32_inj[of _ _ rest]) simp_all
    then show False using True assms(3,5) by simp
  next
    case False
    then have "length p + length x \<le> ?n" using assms(7) by auto
    then have t: "take ?n d = p @ x @ take (?n - length p - length x) (q @ rest)" "take ?n r = p @ y @ take (?n - length p - length x) (q @ rest)"
      using assms(3) by (simp_all add: d_def r)
    have "read_le32 (drop ?n d) = read_le32 (drop ?n r)"
      by (rule read_le32_cong) (use l same \<open>length p + length x \<le> ?n\<close> in auto)
    then have "crc32 (take ?n d) = crc32 (take ?n r)" using crc crc' by simp
    then have "x = y" unfolding t by (rule crc_burst_bytes[OF assms(3,4)])
    then show False using assms(5) by simp
  qed
qed

text \<open>
  Property C35: damage is noticed.  When up to four neighbouring bytes of one record have changed (not its
  size field, and not across the border of payload and checksum), recovery returns every record in
  front of it and nothing else; a reader that is in strict mode reports corrupt data.  \<^verbatim>\<open>open\<close> never
  hands out such a reader: the strict mode it was asked for is lost when the reader is moved into the
  result.
\<close>

theorem wal_damage_detected:
  assumes "\<forall>f \<in> set es. wal_entry_ok f" "wal_entry_ok e" "wal_record e = p @ y @ q"
    and "length x = length y" "length x \<le> 4" "x \<noteq> y"
    and "length p + length x \<le> 20 \<or> 24 \<le> length p"
    and "length p + length x \<le> 24 + length (payload e) \<or> 24 + length (payload e) \<le> length p"
  shows "recover (Some (WAL_FILE_MAGIC @ log_bytes es @ p @ x @ q @ rest)) m = Inr es
    \<and> (\<forall>r. stands r (log_bytes es @ p @ x @ q @ rest) \<and> mode r = Strict \<longrightarrow> snd (wal_read_all r) = Inl CORRUPT_DATA)"
proof -
  have ref: "refused (p @ x @ q @ rest)" by (rule damaged_refused[OF assms(2-8)])
  then have "p @ x @ q @ rest \<noteq> []" by (auto simp: refused_def)
  then show ?thesis
    using recover_log[of es "p @ x @ q @ rest" m] read_all_log[of _ es "p @ x @ q @ rest" "[]"] assms(1) ref
    by (auto simp: wal_read_all_def)
qed

theorem wal_damage_detected_witness:
  "\<exists>p q. wal_record \<lparr>entry_seq = 3, timestamp_ns = 9, payload = [7, 8]\<rparr> = p @ [7, 8] @ q
    \<and> recover (Some (WAL_FILE_MAGIC @ p @ [7, 9] @ q)) Strict = Inr []"
proof -
  let ?e = "\<lparr>entry_seq = 3, timestamp_ns = 9, payload = [7, 8]\<rparr>"
  obtain p q where s: "wal_record ?e = p @ [7, 8] @ q" "length p = 24"
    by (simp add: wal_record_def Let_def)
  show ?thesis
    using wal_damage_detected[of "[]" ?e p "[7, 8]" q "[7, 9]" "[]" Strict] s
    by (auto simp: wal_entry_ok_def int64_def WAL_MAX_RECORD_SIZE_def)
qed

section \<open>Appending behind a torn record\<close>

lemma magic_after_torn:
  assumes "0 < k" "k < 4"
  shows "read_le32 (take k (wal_record e) @ wal_record f @ r) \<noteq> WAL_RECORD_MAGIC"
proof -
  have h: "\<exists>s. wal_record g = [0x31, 0x4C, 0x41, 0x57] @ s" for g
    by (simp add: wal_record_def record_header_def write_le32_def WAL_RECORD_MAGIC_def Let_def)
  obtain s t where "wal_record e = [0x31, 0x4C, 0x41, 0x57] @ s" "wal_record f = [0x31, 0x4C, 0x41, 0x57] @ t"
    using h[of e] h[of f] by auto
  moreover have "k = 1 \<or> k = 2 \<or> k = 3" using assms by auto
  ultimately show ?thesis by (auto simp: read_le32_def WAL_RECORD_MAGIC_def)
qed

text \<open>
  \<open>open\<close> does not cut a torn record off.  After a crash that left one to three bytes of a
  record behind, the writer opens the file without complaint and hands out sequence numbers, but no
  record it ever appends can be recovered.
\<close>

theorem wal_torn_tail_hides_appends:
  assumes "\<forall>f \<in> set es. wal_entry_ok f" "es = [] \<or> 0 \<le> entry_seq (last es)" "wal_entry_ok e" "0 < k" "k < 4"
    and "file = WAL_FILE_MAGIC @ log_bytes es @ take k (wal_record e)"
  shows "\<exists>w. wal_open (Some file) default_wal_options io_fine = (Some file, Inr w)
    \<and> (\<forall>d t. acceptable (d, t) \<longrightarrow> snd (wal_append w d t io_fine) = Inr (next_seq w))
    \<and> (\<forall>ps. recover (Some (wfile (append_all w ps))) m = Inr es)"
proof -
  have ref: "refused (take k (wal_record e))" by (rule torn_refused) (use assms in auto)
  obtain w where w: "wal_open (Some file) default_wal_options io_fine = (Some file, Inr w)" "\<not> closed w" "wfile w = file"
    using wal_open_log[of es "take k (wal_record e)" default_wal_options] assms(1,2,6) ref by auto
  have "recover (Some (wfile (append_all w ps))) m = Inr es" for ps
  proof -
    obtain ns where a: "wfile (append_all w ps) = WAL_FILE_MAGIC @ log_bytes es @ take k (wal_record e) @ log_bytes ns"
      using append_all_spec[OF w(2), of ps] by (auto simp: w(3) assms(6))
    have "refused (take k (wal_record e) @ log_bytes ns)"
      using ref magic_after_torn[OF assms(4,5), of e] by (cases ns) (auto simp: refused_def)
    then show ?thesis unfolding a using recover_log[of es _ m] assms(1) by blast
  qed
  then show ?thesis using w(1,2) by (auto simp: wal_append_fine)
qed

theorem wal_torn_tail_hides_appends_witness:
  "\<exists>w. wal_open (Some (WAL_FILE_MAGIC @ [0x31, 0x4C])) default_wal_options io_fine = (Some (WAL_FILE_MAGIC @ [0x31, 0x4C]), Inr w)
    \<and> snd (wal_append w [1] 5 io_fine) = Inr 0 \<and> recover (Some (wfile (append_all w [([1], 5)]))) Strict = Inr []"
proof -
  let ?e = "\<lparr>entry_seq = 0, timestamp_ns = 5, payload = [1]\<rparr>" let ?f = "WAL_FILE_MAGIC @ [0x31, 0x4C]"
  have f: "?f = WAL_FILE_MAGIC @ log_bytes [] @ take 2 (wal_record ?e)"
    by (simp add: wal_record_def record_header_def write_le32_def WAL_RECORD_MAGIC_def Let_def)
  have v: "wal_entry_ok ?e" by (simp add: wal_entry_ok_def int64_def WAL_MAX_RECORD_SIZE_def)
  have "acceptable ([1], 5)" by (simp add: acceptable_def WAL_MAX_RECORD_SIZE_def)
  moreover have "next_seq w = 0" if "wal_open (Some ?f) default_wal_options io_fine = (Some ?f, Inr w)" for w
    using that wal_open_log[of "[]" "take 2 (wal_record ?e)" default_wal_options] torn_refused[OF v, of 2] f by auto
  ultimately show ?thesis
    using wal_torn_tail_hides_appends[of "[]" ?e 2 ?f Strict, OF _ _ v _ _ f] by (auto simp del: append_all.simps)
qed

end
