(* ===== verification/WalManager.thy ===== *)
theory WalManager
  imports Wal "HOL-Library.AList" "HOL-Library.Multiset"
begin

text \<open>
  \<^verbatim>\<open>WalManager\<close> of \<^verbatim>\<open>include/signet/ai/wal.hpp\<close>: the directory of rolling segments.  The
  directory is an association list from file names to contents, in the order in which the directory
  iterator lists it; a segment is known by its file name.  The clock in milliseconds that goes into
  the name of a new segment, and what the file system answers, are arguments.
\<close>

section \<open>The manager\<close>

datatype lifecycle_mode = Development | Benchmark | Production

record manager_options =
  max_segment_bytes :: nat
  max_records :: nat
  msync_on_append :: bool
  sync_on_roll :: bool
  strict_replay :: bool
  segment_prefix :: string
  segment_ext :: string
  lifecycle_mode :: lifecycle_mode
  reset_on_open :: bool
  require_checkpoint_before_prune :: bool
  checkpoint_manifest_path :: string

definition default_manager_options :: manager_options where
  "default_manager_options = \<lparr>max_segment_bytes = 64 * 1024 * 1024, max_records = 1000000, msync_on_append = False,
     sync_on_roll = True, strict_replay = True, segment_prefix = ''wal'', segment_ext = ''.wal'', lifecycle_mode = Development,
     reset_on_open = False, require_checkpoint_before_prune = False, checkpoint_manifest_path = ''''\<rparr>"

record manager =
  mopts :: manager_options
  segments :: "string list"
  writer :: wal_writer
  active :: string
  global_seq :: int
  segment_record_count :: int
  total_records :: int
  prune_checkpoint_ready :: bool
  mclosed :: bool

type_synonym directory = "(string \<times> bytes) list"

text \<open>Whether creating the directory, removing a file and writing the manifest succeed.\<close>

record dir_io =
  mkdir_ok :: bool
  remove_ok :: bool
  manifest_ok :: bool

definition dir_fine :: dir_io where
  "dir_fine = \<lparr>mkdir_ok = True, remove_ok = True, manifest_ok = True\<rparr>"

definition make_segment_path :: "manager_options \<Rightarrow> int \<Rightarrow> int \<Rightarrow> string" where
  "make_segment_path os seq_start ts_ms =
     segment_prefix os @ ''_'' @ int_to_string seq_start @ ''_'' @ int_to_string ts_ms @ segment_ext os"

text \<open>The sequence number in a file name, or \<open>None\<close> when the name is not a segment's.\<close>

definition segment_seq :: "manager_options \<Rightarrow> string \<Rightarrow> int option" where
  "segment_seq os fname =
     (let pfx = segment_prefix os @ ''_''; ext = segment_ext os in
      if length fname \<le> length pfx + length ext then None
      else if take (length pfx) fname \<noteq> pfx then None
      else if drop (length fname - length ext) fname \<noteq> ext then None
      else let p1 = length pfx;
               ext_pos = length fname - length ext;
               p2 = p1 + length (takeWhile (\<lambda>c. c \<noteq> CHR ''_'') (drop p1 fname))
           in if p2 = length fname \<or> p2 > ext_pos then stoll (take (ext_pos - p1) (drop p1 fname))
              else stoll (take (p2 - p1) (drop p1 fname)))"

definition scan_segments :: "directory \<Rightarrow> manager_options \<Rightarrow> string list" where
  "scan_segments dir os =
     map snd (sort_key fst (List.map_filter (\<lambda>(fname, _). map_option (\<lambda>s. (s, fname)) (segment_seq os fname)) dir))"

definition bad_prefix :: "string \<Rightarrow> bool" where
  "bad_prefix pfx \<longleftrightarrow> CHR ''/'' \<in> set pfx \<or> CHR 0x5C \<in> set pfx \<or> (\<exists>i < length pfx. take 2 (drop i pfx) = ''..'') \<or> CHR 0x00 \<in> set pfx"

definition replay_mode :: "manager_options \<Rightarrow> validation_mode" where
  "replay_mode os = (if strict_replay os then Strict else BestEffort)"

text \<open>The loop of \<^verbatim>\<open>read_all\<close> over the segments; \<^verbatim>\<open>open\<close> counts the records with the same loop.\<close>

fun read_segments :: "manager_options \<Rightarrow> directory \<Rightarrow> string list \<Rightarrow> wal_entry list \<Rightarrow> wal_entry list expected" where
  "read_segments os dir [] result = Inr result"
| "read_segments os dir (seg # segs) result =
     (case recover (map_of dir seg) (replay_mode os) of
        Inl e \<Rightarrow> if strict_replay os then Inl e else read_segments os dir segs result
      | Inr entries \<Rightarrow> read_segments os dir segs (result @ entries))"

definition writer_options :: "manager_options \<Rightarrow> int \<Rightarrow> wal_options" where
  "writer_options os seq = \<lparr>sync_on_append = msync_on_append os, sync_on_flush = sync_on_roll os, start_seq = seq\<rparr>"

text \<open>The removals of \<^verbatim>\<open>reset_on_open\<close>, where a failing removal fails at the first file.\<close>

definition reset_segments :: "directory \<Rightarrow> manager_options \<Rightarrow> directory" where
  "reset_segments dir os = filter (\<lambda>(n, _). n \<notin> set (scan_segments dir os)) dir"

text \<open>The next sequence number, from the last segment only.\<close>

definition next_global_seq :: "manager_options \<Rightarrow> directory \<Rightarrow> string list \<Rightarrow> int expected" where
  "next_global_seq os dir existing =
     (if existing = [] then Inr 0
      else case recover (map_of dir (last existing)) (replay_mode os) of
          Inl e \<Rightarrow> if strict_replay os then Inl e else Inr 0
        | Inr entries \<Rightarrow> Inr (if entries \<noteq> [] \<and> entry_seq (last entries) \<ge> 0 then entry_seq (last entries) + 1 else 0))"

definition manager_open :: "directory \<Rightarrow> manager_options \<Rightarrow> int \<Rightarrow> io \<Rightarrow> dir_io \<Rightarrow> directory \<times> manager expected" where
  "manager_open dir0 os ts_ms i di =
     (if \<not> mkdir_ok di then (dir0, Inl IO_ERROR)
      else if bad_prefix (segment_prefix os) then (dir0, Inl IO_ERROR)
      else if reset_on_open os \<and> lifecycle_mode os = Production then (dir0, Inl IO_ERROR)
      else if reset_on_open os \<and> scan_segments dir0 os \<noteq> [] \<and> \<not> remove_ok di then (dir0, Inl IO_ERROR)
      else let dir = (if reset_on_open os then reset_segments dir0 os else dir0);
               existing = scan_segments dir os
           in case next_global_seq os dir existing of
                Inl e \<Rightarrow> (dir, Inl e)
              | Inr gseq \<Rightarrow>
                  (case read_segments os dir existing [] of
                     Inl e \<Rightarrow> (dir, Inl e)
                   | Inr entries \<Rightarrow>
                       let seg_path = make_segment_path os gseq ts_ms in
                       case wal_open (map_of dir seg_path) (writer_options os gseq) i of
                         (f, Inl e) \<Rightarrow> (case f of None \<Rightarrow> dir | Some d \<Rightarrow> AList.update seg_path d dir, Inl e)
                       | (f, Inr w) \<Rightarrow>
                           (AList.update seg_path (wfile w) dir,
                            Inr \<lparr>mopts = os, segments = existing @ [seg_path], writer = w, active = seg_path, global_seq = gseq,
                              segment_record_count = 0, total_records = int (length entries),
                              prune_checkpoint_ready = (\<not> require_checkpoint_before_prune os), mclosed = False\<rparr>)))"

definition roll :: "directory \<times> manager \<Rightarrow> int \<Rightarrow> io \<Rightarrow> (directory \<times> manager) \<times> unit expected" where
  "roll s ts_ms i =
     (case s of (dir, m) \<Rightarrow>
        let m1 = m\<lparr>writer := fst (wal_close (writer m) i)\<rparr>;
            seg_path = make_segment_path (mopts m) (global_seq m) ts_ms
        in case wal_open (map_of dir seg_path) (writer_options (mopts m) (global_seq m)) i of
             (f, Inl e) \<Rightarrow> ((case f of None \<Rightarrow> dir | Some d \<Rightarrow> AList.update seg_path d dir, m1), Inl e)
           | (f, Inr w) \<Rightarrow>
               ((AList.update seg_path (wfile w) dir,
                 m1\<lparr>writer := w, active := seg_path, segments := segments m @ [seg_path], segment_record_count := 0\<rparr>), Inr ()))"

definition need_roll :: "manager \<Rightarrow> nat \<Rightarrow> bool" where
  "need_roll m n \<longleftrightarrow>
     max_records (mopts m) > 0 \<and> segment_record_count m \<ge> int (max_records (mopts m))
     \<or> max_segment_bytes (mopts m) > 0 \<and> bytes_written (writer m) + 28 + int n > int (max_segment_bytes (mopts m))"

definition manager_append :: "directory \<times> manager \<Rightarrow> bytes \<Rightarrow> int \<Rightarrow> int \<Rightarrow> io \<Rightarrow> (directory \<times> manager) \<times> int expected" where
  "manager_append s data ts ts_ms i =
     (if mclosed (snd s) then (s, Inl IO_ERROR)
      else case (if need_roll (snd s) (length data) then roll s ts_ms i else (s, Inr ())) of
          (s1, Inl e) \<Rightarrow> (s1, Inl e)
        | ((dir, m), Inr _) \<Rightarrow>
            (case wal_append (writer m) data ts i of
               (w, res) \<Rightarrow>
                 let dir' = AList.update (active m) (wfile w) dir; m' = m\<lparr>writer := w\<rparr>
                 in case res of
                      Inl e \<Rightarrow> ((dir', m'), Inl e)
                    | Inr seq \<Rightarrow>
                        ((dir', m'\<lparr>segment_record_count := segment_record_count m + 1, total_records := total_records m + 1,
                                   global_seq := global_seq m + 1\<rparr>), Inr seq)))"

definition commit_compaction_checkpoint :: "manager \<Rightarrow> dir_io \<Rightarrow> manager \<times> unit expected" where
  "commit_compaction_checkpoint m di =
     (if \<not> require_checkpoint_before_prune (mopts m) then (m\<lparr>prune_checkpoint_ready := True\<rparr>, Inr ())
      else if checkpoint_manifest_path (mopts m) = '''' then (m\<lparr>prune_checkpoint_ready := True\<rparr>, Inr ())
      else if \<not> manifest_ok di then (m, Inl IO_ERROR)
      else (m\<lparr>prune_checkpoint_ready := True\<rparr>, Inr ()))"

definition clear_compaction_checkpoint :: "manager \<Rightarrow> manager" where
  "clear_compaction_checkpoint m = m\<lparr>prune_checkpoint_ready := \<not> require_checkpoint_before_prune (mopts m)\<rparr>"

definition remove_segment :: "directory \<times> manager \<Rightarrow> string \<Rightarrow> dir_io \<Rightarrow> (directory \<times> manager) \<times> unit expected" where
  "remove_segment s path di =
     (case s of (dir, m) \<Rightarrow>
        if require_checkpoint_before_prune (mopts m) \<and> \<not> prune_checkpoint_ready m then (s, Inl IO_ERROR)
        else if segments m \<noteq> [] \<and> last (segments m) = path then (s, Inl IO_ERROR)
        else if \<not> remove_ok di then (s, Inl IO_ERROR)
        else ((AList.delete path dir, m\<lparr>segments := remove1 path (segments m)\<rparr>), Inr ()))"

definition manager_close :: "manager \<Rightarrow> io \<Rightarrow> manager \<times> unit expected" where
  "manager_close m i =
     (if mclosed m then (m, Inr ())
      else let (w, r) = wal_close (writer m) i in (m\<lparr>mclosed := True, writer := w\<rparr>, r))"

definition manager_read_all :: "directory \<times> manager \<Rightarrow> io \<Rightarrow> wal_entry list expected" where
  "manager_read_all s i =
     (case s of (dir, m) \<Rightarrow>
        case (if \<not> mclosed m then wal_flush (writer m) False i else Inr ()) of
          Inl e \<Rightarrow> Inl e
        | Inr _ \<Rightarrow> read_segments (mopts m) dir (segments m) [])"

section \<open>Names\<close>

lemma segment_path_inj:
  assumes "make_segment_path os s t = make_segment_path os s' t'" "0 \<le> s" "0 \<le> s'"
  shows "s = s'"
proof -
  have "int_to_string s @ CHR ''_'' # int_to_string t @ segment_ext os = int_to_string s' @ CHR ''_'' # int_to_string t' @ segment_ext os"
    using assms(1) by (simp add: make_segment_path_def)
  from arg_cong[OF this, of "takeWhile (\<lambda>c. c \<noteq> CHR ''_'')"] have "nat_to_string (nat s) = nat_to_string (nat s')"
    using assms(2,3) nat_to_string_digits by (simp add: int_to_string_def takeWhile_digits)
  then have "nat s = nat s'" by (metis digits_value_nat)
  then show ?thesis using assms(2,3) by simp
qed

lemma segment_seq_path:
  assumes "0 \<le> s" "s < 2 ^ 63"
  shows "segment_seq os (make_segment_path os s t) = Some s"
proof -
  let ?n = "make_segment_path os s t"
  have s: "int_to_string s = nat_to_string (nat s)" using assms by (simp add: int_to_string_def)
  have tw: "takeWhile (\<lambda>c. c \<noteq> CHR ''_'') (nat_to_string (nat s) @ CHR ''_'' # r) = nat_to_string (nat s)" for r
    by (rule takeWhile_digits) (rule nat_to_string_digits)
  have "0 < length (nat_to_string (nat s))" by simp
  then show ?thesis
    using assms by (simp add: segment_seq_def make_segment_path_def Let_def s tw stoll_nat)
qed

section \<open>The state of a manager\<close>

definition path :: "manager_options \<Rightarrow> int \<times> int \<Rightarrow> string" where
  "path os p = make_segment_path os (fst p) (snd p)"

definition within :: "manager_options \<Rightarrow> wal_entry list \<Rightarrow> bool" where
  "within os c \<longleftrightarrow> (max_records os > 0 \<longrightarrow> length c \<le> max_records os)
     \<and> (max_segment_bytes os > 0 \<longrightarrow> length (log_bytes c) \<le> max_segment_bytes os)"

definition fits :: "manager_options \<Rightarrow> bytes \<Rightarrow> int \<Rightarrow> bool" where
  "fits os d t \<longleftrightarrow> acceptable (d, t) \<and> int64 t \<and> (max_segment_bytes os > 0 \<longrightarrow> 28 + length d \<le> max_segment_bytes os)"

text \<open>The segments with the numbers and times in their names, the sealed chunks of records and the
  chunk of the active segment.\<close>

definition dir_inv :: "manager_options \<Rightarrow> directory \<Rightarrow> (int \<times> int) list \<Rightarrow> wal_entry list list \<Rightarrow> bool" where
  "dir_inv os dir sts cs \<longleftrightarrow> sorted_wrt (<) (map fst sts) \<and> (\<forall>p \<in> set sts. 0 \<le> fst p) \<and> distinct (map fst dir)
     \<and> fst ` set dir = path os ` set sts \<and> length cs = length sts
     \<and> (\<forall>i < length sts. map_of dir (path os (sts ! i)) = Some (WAL_FILE_MAGIC @ log_bytes (cs ! i)))
     \<and> (\<forall>c \<in> set cs. \<forall>e \<in> set c. wal_entry_ok e)"

definition mgr_inv :: "manager_options \<Rightarrow> directory \<times> manager \<Rightarrow> (int \<times> int) list \<Rightarrow> wal_entry list list \<Rightarrow> bool" where
  "mgr_inv os s sts cs \<longleftrightarrow> (case s of (dir, m) \<Rightarrow>
     dir_inv os dir sts cs \<and> sts \<noteq> [] \<and> mopts m = os \<and> \<not> mclosed m \<and> \<not> closed (writer m) \<and> segments m = map (path os) sts
     \<and> active m = path os (last sts) \<and> wfile (writer m) = WAL_FILE_MAGIC @ log_bytes (last cs)
     \<and> next_seq (writer m) = global_seq m \<and> global_seq m = fst (last sts) + int (length (last cs))
     \<and> segment_record_count m = int (length (last cs)) \<and> bytes_written (writer m) = int (length (log_bytes (last cs)))
     \<and> total_records m = int (length (concat cs))
     \<and> (last cs \<noteq> [] \<longrightarrow> entry_seq (last (last cs)) + 1 = global_seq m)
     \<and> sync_on_append (opts (writer m)) = msync_on_append os)"

lemma path_inj: "path os p = path os q \<Longrightarrow> 0 \<le> fst p \<Longrightarrow> 0 \<le> fst q \<Longrightarrow> fst p = fst q"
  by (auto simp: path_def dest: segment_path_inj)

lemma sorted_fst_nth: "sorted_wrt (<) (map fst sts) \<Longrightarrow> i < j \<Longrightarrow> j < length sts \<Longrightarrow> fst (sts ! i) < fst (sts ! j)"
  for sts :: "(int \<times> 'a) list"
  by (auto simp: sorted_wrt_iff_nth_less)

lemma dir_inv_last_distinct:
  assumes "dir_inv os dir sts cs" "i < length sts" "j < length sts" "path os (sts ! i) = path os (sts ! j)"
  shows "i = j"
proof -
  have "fst (sts ! i) = fst (sts ! j)" using assms by (intro path_inj[OF assms(4)]) (auto simp: dir_inv_def)
  then show ?thesis using sorted_fst_nth[of sts i j] sorted_fst_nth[of sts j i] assms
    by (cases i j rule: linorder_cases) (auto simp: dir_inv_def)
qed

text \<open>Writing to the active file changes the last chunk only.\<close>

lemma dir_inv_update:
  assumes "dir_inv os dir sts cs" "sts \<noteq> []" "\<And>e. e \<in> set c \<Longrightarrow> wal_entry_ok e"
  shows "dir_inv os (AList.update (path os (last sts)) (WAL_FILE_MAGIC @ log_bytes c) dir) sts (butlast cs @ [c])"
proof -
  have l: "length cs = length sts" using assms(1) by (simp add: dir_inv_def)
  have last: "last sts = sts ! (length sts - 1)" using assms(2) by (simp add: last_conv_nth)
  have "map_of (AList.update (path os (last sts)) (WAL_FILE_MAGIC @ log_bytes c) dir) (path os (sts ! i))
      = Some (WAL_FILE_MAGIC @ log_bytes ((butlast cs @ [c]) ! i))" if "i < length sts" for i
  proof (cases "i = length sts - 1")
    case True
    then show ?thesis using l assms(2) by (simp add: update_conv' last nth_append)
  next
    case False
    then have "path os (sts ! i) \<noteq> path os (last sts)" "i < length cs - 1"
      using dir_inv_last_distinct[OF assms(1) that, of "length sts - 1"] that l assms(2)
      by (auto simp: last length_greater_0_conv[symmetric] simp del: length_greater_0_conv)
    then show ?thesis using assms(1) that l by (simp add: update_conv' nth_append nth_butlast dir_inv_def)
  qed
  moreover have "path os (last sts) \<in> path os ` set sts" using assms(2) by simp
  ultimately show ?thesis
    using assms l by (auto simp: dir_inv_def distinct_update dom_update dest: in_set_butlastD)
qed

text \<open>A new segment whose number is beyond all others.\<close>

lemma dir_inv_new:
  assumes "dir_inv os dir sts cs" "\<And>p. p \<in> set sts \<Longrightarrow> fst p < s" "0 \<le> s"
  shows "map_of dir (path os (s, t)) = None"
    and "dir_inv os (AList.update (path os (s, t)) WAL_FILE_MAGIC dir) (sts @ [(s, t)]) (cs @ [[]])"
proof -
  have fresh: "path os (s, t) \<notin> path os ` set sts"
    using assms path_inj[of os "(s, t)"] by (fastforce simp: dir_inv_def)
  then show "map_of dir (path os (s, t)) = None" using assms(1) by (simp add: dir_inv_def map_of_eq_None_iff)
  have "path os (sts ! i) \<noteq> path os (s, t)" if "i < length sts" for i using fresh that by (metis imageI nth_mem)
  then show "dir_inv os (AList.update (path os (s, t)) WAL_FILE_MAGIC dir) (sts @ [(s, t)]) (cs @ [[]])"
    using assms
    by (auto simp: dir_inv_def distinct_update dom_update sorted_wrt_append update_conv' nth_append less_Suc_eq)
qed

lemma dir_inv_facts:
  assumes "dir_inv os dir sts cs"
  shows "p \<in> set sts \<Longrightarrow> 0 \<le> fst p" "length cs = length sts" "sorted_wrt (<) (map fst sts)"
    "c \<in> set cs \<Longrightarrow> e \<in> set c \<Longrightarrow> wal_entry_ok e"
  using assms by (simp_all add: dir_inv_def)

lemma sorted_last_max: "sorted_wrt (<) (map fst sts) \<Longrightarrow> p \<in> set sts \<Longrightarrow> fst p \<le> (fst (last sts) :: int)"
  by (induction sts rule: rev_induct) (auto simp: sorted_wrt_append)

lemma roll_inv:
  assumes "mgr_inv os (dir, m) sts cs" "last cs \<noteq> []"
  shows "\<exists>s'. roll (dir, m) ts_ms io_fine = (s', Inr ()) \<and> mgr_inv os s' (sts @ [(global_seq m, ts_ms)]) (cs @ [[]])
    \<and> global_seq (snd s') = global_seq m"
proof -
  have d: "dir_inv os dir sts cs" "sts \<noteq> []" "mopts m = os" "global_seq m = fst (last sts) + int (length (last cs))"
    using assms(1) by (simp_all add: mgr_inv_def)
  have pos: "0 \<le> fst (last sts)" by (rule dir_inv_facts(1)[OF d(1)]) (use d(2) in simp)
  have less: "fst p < global_seq m" if "p \<in> set sts" for p
  proof -
    have "fst p \<le> fst (last sts)" by (rule sorted_last_max[OF dir_inv_facts(3)[OF d(1)] that])
    moreover have "0 < length (last cs)" using assms(2) by simp
    ultimately show ?thesis using d(4) by linarith
  qed
  note n = dir_inv_new[OF d(1), of "global_seq m" ts_ms, OF less, unfolded path_def fst_conv snd_conv]
  have g: "0 \<le> global_seq m" using pos by (simp add: d(4))
  let ?p = "make_segment_path os (global_seq m) ts_ms"
  let ?w = "\<lparr>wfile = WAL_FILE_MAGIC, next_seq = global_seq m, bytes_written = 0, rejected_empty_count = 0,
    opts = writer_options os (global_seq m), closed = False\<rparr>"
  let ?m = "m\<lparr>writer := ?w, active := ?p, segments := segments m @ [?p], segment_record_count := 0\<rparr>"
  have "map_of dir ?p = None" by (rule n(1)[OF _ g])
  then have "roll (dir, m) ts_ms io_fine = ((AList.update ?p WAL_FILE_MAGIC dir, ?m), Inr ())"
    by (simp add: roll_def d(3) wal_open_new Let_def writer_options_def)
  moreover have "dir_inv os (AList.update ?p WAL_FILE_MAGIC dir) (sts @ [(global_seq m, ts_ms)]) (cs @ [[]])"
    by (rule n(2)[OF _ g])
  then have "mgr_inv os (AList.update ?p WAL_FILE_MAGIC dir, ?m) (sts @ [(global_seq m, ts_ms)]) (cs @ [[]])"
    using assms(1) by (simp add: mgr_inv_def path_def writer_options_def)
  ultimately show ?thesis by (intro exI[of _ "(AList.update ?p WAL_FILE_MAGIC dir, ?m)"]) simp
qed

lemma append_here_inv:
  assumes "mgr_inv os (dir, m) sts cs" "acceptable (d, t)" "int64 t" "global_seq m < 2 ^ 63" "\<not> need_roll m (length d)"
  shows "\<exists>s'. manager_append (dir, m) d t ts_ms io_fine = (s', Inr (global_seq m))
    \<and> mgr_inv os s' sts (butlast cs @ [last cs @ [\<lparr>entry_seq = global_seq m, timestamp_ns = t, payload = d\<rparr>]])
    \<and> global_seq (snd s') = global_seq m + 1"
proof -
  let ?e = "\<lparr>entry_seq = global_seq m, timestamp_ns = t, payload = d\<rparr>"
  have i: "dir_inv os dir sts cs" "sts \<noteq> []" "global_seq m = fst (last sts) + int (length (last cs))" "\<not> closed (writer m)"
    "wfile (writer m) = WAL_FILE_MAGIC @ log_bytes (last cs)" "active m = path os (last sts)" "next_seq (writer m) = global_seq m"
    "\<not> mclosed m"
    using assms(1) by (simp_all add: mgr_inv_def)
  have cs: "length cs = length sts" "cs \<noteq> []" using i(2) dir_inv_facts(2)[OF i(1)] by auto
  have "0 \<le> fst (last sts)" by (rule dir_inv_facts(1)[OF i(1)]) (use i(2) in simp)
  then have "0 \<le> global_seq m" using i(3) by linarith
  then have "wal_entry_ok ?e" using assms(2-4) by (simp add: wal_entry_ok_def acceptable_def int64_def)
  then have ok: "wal_entry_ok e" if "e \<in> set (last cs @ [?e])" for e
    using that dir_inv_facts(4)[OF i(1), of "last cs"] cs(2) by auto
  have up: "dir_inv os (AList.update (path os (last sts)) (WAL_FILE_MAGIC @ log_bytes (last cs @ [?e])) dir) sts (butlast cs @ [last cs @ [?e]])"
    by (rule dir_inv_update[OF i(1,2) ok])
  have tot: "length (concat (butlast cs @ [last cs @ [?e]])) = length (concat cs) + 1"
    using cs(2) by (metis append_butlast_last_id concat_append length_append concat.simps append_Nil2 length_Cons list.size(3) add.assoc One_nat_def)
  let ?d = "AList.update (active m) (wfile (writer m) @ wal_record ?e) dir"
  let ?w = "(writer m)\<lparr>wfile := wfile (writer m) @ wal_record ?e, bytes_written := bytes_written (writer m) + int (28 + length d),
    next_seq := next_seq (writer m) + 1\<rparr>"
  let ?m = "m\<lparr>writer := ?w, segment_record_count := segment_record_count m + 1, total_records := total_records m + 1,
    global_seq := global_seq m + 1\<rparr>"
  have "manager_append (dir, m) d t ts_ms io_fine = ((?d, ?m), Inr (global_seq m))"
    using assms(5) i(8) by (simp add: manager_append_def wal_append_fine[OF i(4) assms(2)] i(7) Let_def)
  moreover have "mgr_inv os (?d, ?m) sts (butlast cs @ [last cs @ [?e]])"
    using assms(1) up tot by (simp add: mgr_inv_def)
  ultimately show ?thesis by (intro exI[of _ "(?d, ?m)"]) simp
qed

lemma append_after_roll:
  assumes "roll s ts_ms i = (s1, Inr ())" "need_roll (snd s) (length d)" "\<not> need_roll (snd s1) (length d)"
    and "\<not> mclosed (snd s)" "\<not> mclosed (snd s1)"
  shows "manager_append s d t ts_ms i = manager_append s1 d t ts_ms i"
  using assms by (cases s1) (simp add: manager_append_def)

lemma append_inv:
  assumes "mgr_inv os (dir, m) sts cs" "fits os d t" "global_seq m < 2 ^ 63" "\<forall>c \<in> set cs. within os c"
  shows "\<exists>s' sts' cs'. manager_append (dir, m) d t ts_ms io_fine = (s', Inr (global_seq m)) \<and> mgr_inv os s' sts' cs'
    \<and> concat cs' = concat cs @ [\<lparr>entry_seq = global_seq m, timestamp_ns = t, payload = d\<rparr>]
    \<and> global_seq (snd s') = global_seq m + 1 \<and> (\<forall>c \<in> set cs'. within os c) \<and> last cs' \<noteq> []"
proof -
  let ?e = "\<lparr>entry_seq = global_seq m, timestamp_ns = t, payload = d\<rparr>"
  have fit: "acceptable (d, t)" "int64 t" using assms(2) by (simp_all add: fits_def)
  have m: "mopts m = os" "\<not> mclosed m" "segment_record_count m = int (length (last cs))"
    "bytes_written (writer m) = int (length (log_bytes (last cs)))" "sts \<noteq> []" "dir_inv os dir sts cs"
    using assms(1) by (simp_all add: mgr_inv_def)
  have ne: "cs \<noteq> []" using m(5) dir_inv_facts(2)[OF m(6)] by auto
  show ?thesis
  proof (cases "need_roll m (length d)")
    case False
    obtain s' where s': "manager_append (dir, m) d t ts_ms io_fine = (s', Inr (global_seq m))"
      "mgr_inv os s' sts (butlast cs @ [last cs @ [?e]])" "global_seq (snd s') = global_seq m + 1"
      using append_here_inv[OF assms(1) fit assms(3) False] by blast
    have "within os (last cs @ [?e])"
      using False assms(4) ne by (auto simp: need_roll_def within_def m(1,3,4))
    then have w: "\<forall>c \<in> set (butlast cs @ [last cs @ [?e]]). within os c"
      using assms(4) by (auto dest: in_set_butlastD)
    have "concat (butlast cs @ [last cs @ [?e]]) = concat (butlast cs @ [last cs]) @ [?e]" by simp
    then have c: "concat (butlast cs @ [last cs @ [?e]]) = concat cs @ [?e]" using arg_cong[OF append_butlast_last_id[OF ne], of concat] by simp
    show ?thesis
      by (rule exI[of _ s'], rule exI[of _ sts], rule exI[of _ "butlast cs @ [last cs @ [?e]]"]) (use s' w c in simp)
  next
    case True
    have full: "last cs \<noteq> []"
      using True assms(2) by (auto simp: need_roll_def m(1,3,4) fits_def)
    obtain s1 where s1: "roll (dir, m) ts_ms io_fine = (s1, Inr ())" "mgr_inv os s1 (sts @ [(global_seq m, ts_ms)]) (cs @ [[]])"
      "global_seq (snd s1) = global_seq m" using roll_inv[OF assms(1) full] by blast
    obtain dir1 m1 where d1: "s1 = (dir1, m1)" by (cases s1)
    have m1: "mopts m1 = os" "\<not> mclosed m1" "segment_record_count m1 = 0" "bytes_written (writer m1) = 0"
      using s1(2) by (simp_all add: mgr_inv_def d1)
    then have nr: "\<not> need_roll m1 (length d)" using assms(2) by (auto simp: need_roll_def fits_def)
    have "manager_append (dir, m) d t ts_ms io_fine = manager_append s1 d t ts_ms io_fine"
      by (rule append_after_roll[OF s1(1)]) (use True nr m(2) m1(2) d1 in simp_all)
    moreover obtain s' where s': "manager_append s1 d t ts_ms io_fine = (s', Inr (global_seq m))"
      "mgr_inv os s' (sts @ [(global_seq m, ts_ms)]) (cs @ [[?e]])" "global_seq (snd s') = global_seq m + 1"
      using append_here_inv[OF s1(2)[unfolded d1] fit _ nr, of ts_ms] assms(3) s1(3) by (auto simp: d1)
    moreover have "within os [?e]" using assms(2) by (auto simp: within_def fits_def)
    ultimately show ?thesis using assms(4)
      by (intro exI[of _ s'] exI[of _ "sts @ [(global_seq m, ts_ms)]"] exI[of _ "cs @ [[?e]]"]) simp
  qed
qed

section \<open>Scanning and reading a directory\<close>

lemma recover_segment:
  assumes "dir_inv os dir sts cs" "i < length sts"
  shows "recover (map_of dir (path os (sts ! i))) md = Inr (cs ! i)"
proof -
  have "cs ! i \<in> set cs" using assms(2) dir_inv_facts(2)[OF assms(1)] by simp
  then show ?thesis
    using assms recover_log[of "cs ! i" "[]" md] dir_inv_facts(4)[OF assms(1)] by (simp add: dir_inv_def)
qed

lemma read_segments_dir:
  assumes "length xs = length cs" "\<And>i. i < length xs \<Longrightarrow> recover (map_of dir (xs ! i)) (replay_mode os) = Inr (cs ! i)"
  shows "read_segments os dir xs acc = Inr (acc @ concat cs)"
  using assms
proof (induction xs cs arbitrary: acc rule: list_induct2)
  case Nil
  then show ?case by simp
next
  case (Cons x xs c cs)
  have "recover (map_of dir x) (replay_mode os) = Inr c" using Cons.prems[of 0] by simp
  moreover have "read_segments os dir xs (acc @ c) = Inr ((acc @ c) @ concat cs)"
    using Cons.prems[of "Suc _"] by (intro Cons.IH) auto
  ultimately show ?case by simp
qed

lemma map_filter_total:
  "(\<And>x. x \<in> set dir \<Longrightarrow> g (fst x) \<noteq> None) \<Longrightarrow>
    List.map_filter (\<lambda>(f, _). map_option (\<lambda>s. (s, f)) (g f)) dir = map (\<lambda>f. (the (g f), f)) (map fst dir)"
proof (induction dir)
  case Nil
  then show ?case by (simp add: List.map_filter_simps)
next
  case (Cons x dir)
  obtain y where "g (fst x) = Some y" using Cons.prems[of x] by auto
  then show ?case using Cons by (cases x) (simp add: List.map_filter_simps)
qed

lemma scan_dir:
  assumes "dir_inv os dir sts cs" "\<And>p. p \<in> set sts \<Longrightarrow> fst p < 2 ^ 63"
  shows "scan_segments dir os = map (path os) sts"
proof -
  let ?found = "List.map_filter (\<lambda>(fname, _). map_option (\<lambda>s. (s, fname)) (segment_seq os fname)) dir"
  let ?ys = "map (\<lambda>p. (fst p, path os p)) sts"
  have seq: "segment_seq os (path os p) = Some (fst p)" if "p \<in> set sts" for p
    unfolding path_def by (rule segment_seq_path) (use dir_inv_facts(1)[OF assms(1) that] assms(2)[OF that] in auto)
  have names: "fst ` set dir = path os ` set sts" "distinct (map fst dir)" using assms(1) by (simp_all add: dir_inv_def)
  have "segment_seq os (fst x) \<noteq> None" if "x \<in> set dir" for x
  proof -
    from that have "fst x \<in> path os ` set sts" using names(1) by auto
    then show ?thesis using seq by auto
  qed
  then have found: "?found = map (\<lambda>f. (the (segment_seq os f), f)) (map fst dir)" by (rule map_filter_total)
  have fs: "set ?found = (\<lambda>f. (the (segment_seq os f), f)) ` path os ` set sts" by (simp only: found set_map names(1))
  also have "\<dots> = set ?ys" using seq by (auto simp: image_image)
  finally have set_eq: "set ?found = set ?ys" .
  have "sort_key fst ?found = ?ys"
  proof (rule sort_key_inj_key_eq)
    have "distinct ?found" unfolding found using names(2) by (simp add: distinct_map inj_on_def)
    moreover have "distinct (map (path os) sts)"
      using dir_inv_last_distinct[OF assms(1)] by (auto simp: distinct_conv_nth)
    then have "distinct ?ys" by (simp add: distinct_map inj_on_def)
    ultimately show "mset ?found = mset ?ys" using set_eq by (simp only: set_eq_iff_mset_eq_distinct)
    have "inj_on fst (set ?ys)" using dir_inv_facts(3)[OF assms(1)]
      by (simp add: distinct_map[symmetric] strict_sorted_iff comp_def inj_on_def) (metis distinct_map inj_onD)
    then show "inj_on fst (set ?found)" by (simp only: set_eq)
    show "sorted (map fst ?ys)" using dir_inv_facts(3)[OF assms(1)] by (simp add: comp_def strict_sorted_iff)
  qed
  then show ?thesis by (simp add: scan_segments_def comp_def)
qed

text \<open>Opening a directory continues behind the last segment, when that one holds a record.\<close>

lemma manager_open_inv:
  assumes "dir_inv os dir sts cs" "\<And>p. p \<in> set sts \<Longrightarrow> fst p < g" "0 \<le> g" "g < 2 ^ 63"
    and "if sts = [] then g = 0 else last cs \<noteq> [] \<and> entry_seq (last (last cs)) + 1 = g"
    and "\<not> reset_on_open os" "\<not> bad_prefix (segment_prefix os)"
  shows "\<exists>dir' m. manager_open dir os ts_ms io_fine dir_fine = (dir', Inr m) \<and> mgr_inv os (dir', m) (sts @ [(g, ts_ms)]) (cs @ [[]])
    \<and> global_seq m = g \<and> dir' = AList.update (make_segment_path os g ts_ms) WAL_FILE_MAGIC dir"
proof -
  let ?p = "make_segment_path os g ts_ms"
  have scan: "scan_segments dir os = map (path os) sts"
    by (rule scan_dir[OF assms(1)]) (use assms(2,4) in force)
  have l: "length cs = length sts" by (rule dir_inv_facts(2)[OF assms(1)])
  have seq: "next_global_seq os dir (map (path os) sts) = Inr g"
  proof (cases "sts = []")
    case True
    then show ?thesis using assms(5) by (simp add: next_global_seq_def)
  next
    case False
    moreover from False have "cs \<noteq> []" using l by auto
    ultimately have "last sts = sts ! (length sts - 1)" "last cs = cs ! (length sts - 1)" "length sts - 1 < length sts"
      using l by (auto simp: last_conv_nth)
    then have "recover (map_of dir (path os (last sts))) (replay_mode os) = Inr (last cs)"
      using recover_segment[OF assms(1), of "length sts - 1"] by (simp only:)
    then show ?thesis using False assms(3,5) by (auto simp: next_global_seq_def last_map)
  qed
  have count: "read_segments os dir (map (path os) sts) [] = Inr (concat cs)"
    using read_segments_dir[of "map (path os) sts" cs dir os "[]"] recover_segment[OF assms(1)] l by simp
  note n = dir_inv_new[OF assms(1), of g ts_ms, OF assms(2) assms(3), unfolded path_def fst_conv snd_conv]
  let ?w = "\<lparr>wfile = WAL_FILE_MAGIC, next_seq = g, bytes_written = 0, rejected_empty_count = 0,
    opts = writer_options os g, closed = False\<rparr>"
  let ?m = "\<lparr>mopts = os, segments = map (path os) sts @ [?p], writer = ?w, active = ?p, global_seq = g,
    segment_record_count = 0, total_records = int (length (concat cs)),
    prune_checkpoint_ready = (\<not> require_checkpoint_before_prune os), mclosed = False\<rparr>"
  have "map_of dir ?p = None" by (rule n(1))
  then have "manager_open dir os ts_ms io_fine dir_fine = (AList.update ?p WAL_FILE_MAGIC dir, Inr ?m)"
    using assms(6,7) seq
    by (simp add: manager_open_def dir_fine_def scan Let_def count wal_open_new writer_options_def)
  moreover have "dir_inv os (AList.update ?p WAL_FILE_MAGIC dir) (sts @ [(g, ts_ms)]) (cs @ [[]])" by (rule n(2))
  then have "mgr_inv os (AList.update ?p WAL_FILE_MAGIC dir, ?m) (sts @ [(g, ts_ms)]) (cs @ [[]])"
    by (simp add: mgr_inv_def path_def writer_options_def)
  ultimately show ?thesis by (intro exI[of _ "AList.update ?p WAL_FILE_MAGIC dir"] exI[of _ ?m]) simp
qed

lemma read_all_inv:
  assumes "mgr_inv os s sts cs"
  shows "manager_read_all s io_fine = Inr (concat cs)"
proof -
  obtain dir m where s: "s = (dir, m)" by (cases s)
  have i: "dir_inv os dir sts cs" "segments m = map (path os) sts" "mopts m = os" "\<not> closed (writer m)"
    using assms by (simp_all add: mgr_inv_def s)
  have "read_segments os dir (map (path os) sts) [] = Inr (concat cs)"
    using read_segments_dir[of "map (path os) sts" cs dir os "[]"] recover_segment[OF i(1)] dir_inv_facts(2)[OF i(1)] by simp
  then show ?thesis using i(2-4) by (simp add: manager_read_all_def s wal_flush_def io_fine_def)
qed

section \<open>Sessions of a manager\<close>

text \<open>Appends a list of records, each with the clock of its timestamp and the clock of a new
  segment's name; the results are collected.\<close>

fun append_each :: "directory \<times> manager \<Rightarrow> (bytes \<times> int \<times> int) list \<Rightarrow> (directory \<times> manager) \<times> int expected list" where
  "append_each s [] = (s, [])"
| "append_each s ((d, t, ts_ms) # ps) =
     (let (s1, r) = manager_append s d t ts_ms io_fine; (s2, rs) = append_each s1 ps in (s2, r # rs))"

definition manager_session :: "manager_options \<Rightarrow> directory \<Rightarrow> int \<times> (bytes \<times> int \<times> int) list \<Rightarrow> directory" where
  "manager_session os dir job =
     (case manager_open dir os (fst job) io_fine dir_fine of
        (dir', Inl e) \<Rightarrow> dir'
      | (dir', Inr m) \<Rightarrow>
          let ((dir'', m'), rs) = append_each (dir', m) (snd job); (m'', r) = manager_close m' io_fine in dir'')"

definition stamped :: "(bytes \<times> int \<times> int) list \<Rightarrow> (bytes \<times> int) list" where
  "stamped ps = map (\<lambda>(d, t, _). (d, t)) ps"

lemma stamped_simps [simp]: "stamped [] = []" "stamped ((d, t, u) # ps) = (d, t) # stamped ps"
  "stamped (ps @ qs) = stamped ps @ stamped qs" "length (stamped ps) = length ps"
  by (simp_all add: stamped_def)

definition live :: "manager_options \<Rightarrow> directory \<times> manager \<Rightarrow> (bytes \<times> int) list \<Rightarrow> bool \<Rightarrow> bool" where
  "live os s hist dirty \<longleftrightarrow> (\<exists>sts cs. mgr_inv os s sts cs \<and> concat cs = numbered 0 hist \<and> global_seq (snd s) = int (length hist)
     \<and> (\<forall>c \<in> set cs. within os c) \<and> (dirty \<longrightarrow> last cs \<noteq> []))"

definition at_rest :: "manager_options \<Rightarrow> directory \<Rightarrow> (bytes \<times> int) list \<Rightarrow> bool" where
  "at_rest os dir hist \<longleftrightarrow> (\<exists>sts cs. dir_inv os dir sts cs \<and> concat cs = numbered 0 hist \<and> (\<forall>c \<in> set cs. within os c)
     \<and> (\<forall>p \<in> set sts. fst p < int (length hist)) \<and> (if sts = [] then hist = [] else last cs \<noteq> []))"

lemma append_each_live:
  assumes "live os s hist dirty" "\<forall>(d, t, u) \<in> set ps. fits os d t" "int (length hist + length ps) < 2 ^ 63"
  shows "\<exists>s'. append_each s ps = (s', map (\<lambda>i. Inr (int (length hist + i))) [0..<length ps])
    \<and> live os s' (hist @ stamped ps) (dirty \<or> ps \<noteq> [])"
  using assms
proof (induction ps arbitrary: s hist dirty)
  case Nil
  then show ?case by simp
next
  case (Cons p ps)
  obtain d t u where p: "p = (d, t, u)" by (cases p)
  obtain dir m where s: "s = (dir, m)" by (cases s)
  obtain sts cs where l: "mgr_inv os (dir, m) sts cs" "concat cs = numbered 0 hist" "global_seq m = int (length hist)"
    "\<forall>c \<in> set cs. within os c" using Cons.prems(1) by (auto simp: live_def s)
  have g: "global_seq m < 2 ^ 63" using Cons.prems(3) l(3) by simp
  have f: "fits os d t" using Cons.prems(2) p by simp
  obtain s1 sts1 cs1 where a: "manager_append s d t u io_fine = (s1, Inr (int (length hist)))" "mgr_inv os s1 sts1 cs1"
    "concat cs1 = numbered 0 hist @ [\<lparr>entry_seq = int (length hist), timestamp_ns = t, payload = d\<rparr>]"
    "global_seq (snd s1) = int (length hist) + 1" "\<forall>c \<in> set cs1. within os c" "last cs1 \<noteq> []"
    using append_inv[OF l(1) f g l(4), of u] l(2,3) by (auto simp: s)
  then have l1: "live os s1 (hist @ [(d, t)]) True"
    unfolding live_def by (intro exI[of _ sts1] exI[of _ cs1]) (simp add: numbered_append)
  have v: "\<forall>(d, t, u) \<in> set ps. fits os d t" "int (length (hist @ [(d, t)]) + length ps) < 2 ^ 63" using Cons.prems(2,3) by simp_all
  obtain s' where e: "append_each s1 ps = (s', map (\<lambda>i. Inr (int (length (hist @ [(d, t)]) + i))) [0..<length ps])"
    "live os s' ((hist @ [(d, t)]) @ stamped ps) (True \<or> ps \<noteq> [])"
    using Cons.IH[OF l1 v] by blast
  show ?case
    using e a(1) by (simp add: p map_upt_Suc del: upt_Suc)
qed

lemma live_rest:
  assumes "live os (dir, m) hist True"
  shows "at_rest os dir hist"
proof -
  obtain sts cs where l: "mgr_inv os (dir, m) sts cs" "concat cs = numbered 0 hist" "global_seq m = int (length hist)"
    "\<forall>c \<in> set cs. within os c" "last cs \<noteq> []" using assms by (auto simp: live_def)
  have i: "dir_inv os dir sts cs" "sts \<noteq> []" "global_seq m = fst (last sts) + int (length (last cs))"
    using l(1) by (simp_all add: mgr_inv_def)
  have "0 < length (last cs)" using l(5) by simp
  then have less: "fst (last sts) < int (length hist)" using i(3) l(3) by linarith
  have "fst p < int (length hist)" if "p \<in> set sts" for p
    using sorted_last_max[OF dir_inv_facts(3)[OF i(1)] that] less by linarith
  then show ?thesis unfolding at_rest_def using i l by (intro exI[of _ sts] exI[of _ cs]) simp
qed

lemma last_concat: "last xs \<noteq> [] \<Longrightarrow> xs \<noteq> [] \<Longrightarrow> last (concat xs) = last (last xs)"
  by (induction xs rule: rev_induct) simp_all

lemma concat_last_nonempty: "last xs \<noteq> [] \<Longrightarrow> xs \<noteq> [] \<Longrightarrow> concat xs \<noteq> []"
  by (induction xs rule: rev_induct) simp_all

lemma rest_next:
  assumes "dir_inv os dir sts cs" "concat cs = numbered 0 hist" "if sts = [] then hist = [] else last cs \<noteq> []"
  shows "if sts = [] then int (length hist) = 0 else last cs \<noteq> [] \<and> entry_seq (last (last cs)) + 1 = int (length hist)"
proof (cases "sts = []")
  case True
  then show ?thesis using assms(3) by simp
next
  case False
  then have cs: "last cs \<noteq> []" "cs \<noteq> []" using assms(3) dir_inv_facts(2)[OF assms(1)] by auto
  then have "numbered 0 hist \<noteq> []" using concat_last_nonempty assms(2) by metis
  then have "hist \<noteq> []" by auto
  then have "entry_seq (last (concat cs)) + 1 = int (length hist)" using assms(2) by (simp add: last_numbered)
  then show ?thesis using cs False by (simp add: last_concat)
qed

lemma open_rest:
  assumes "at_rest os dir hist" "int (length hist) < 2 ^ 63" "\<not> reset_on_open os" "\<not> bad_prefix (segment_prefix os)"
  shows "\<exists>dir' m sts cs. manager_open dir os ts_ms io_fine dir_fine = (dir', Inr m) \<and> mgr_inv os (dir', m) (sts @ [(int (length hist), ts_ms)]) (cs @ [[]])
    \<and> global_seq m = int (length hist) \<and> concat cs = numbered 0 hist \<and> (\<forall>c \<in> set cs. within os c) \<and> (\<forall>p \<in> set sts. fst p < int (length hist))
    \<and> dir' = AList.update (make_segment_path os (int (length hist)) ts_ms) WAL_FILE_MAGIC dir"
proof -
  obtain sts cs where r: "dir_inv os dir sts cs" "concat cs = numbered 0 hist" "\<forall>c \<in> set cs. within os c"
    "\<forall>p \<in> set sts. fst p < int (length hist)" "if sts = [] then hist = [] else last cs \<noteq> []"
    using assms(1) by (auto simp: at_rest_def)
  from manager_open_inv[OF r(1) _ _ assms(2) rest_next[OF r(1,2,5)] assms(3,4), of ts_ms] r(2-4)
  show ?thesis by (metis of_nat_0_le_iff)
qed

lemma open_live:
  assumes "at_rest os dir hist" "int (length hist) < 2 ^ 63" "\<not> reset_on_open os" "\<not> bad_prefix (segment_prefix os)"
  shows "\<exists>dir' m. manager_open dir os ts_ms io_fine dir_fine = (dir', Inr m) \<and> live os (dir', m) hist False"
proof -
  obtain dir' m sts cs where "manager_open dir os ts_ms io_fine dir_fine = (dir', Inr m)"
    "mgr_inv os (dir', m) (sts @ [(int (length hist), ts_ms)]) (cs @ [[]])" "global_seq m = int (length hist)"
    "concat cs = numbered 0 hist" "\<forall>c \<in> set cs. within os c"
    using open_rest[OF assms] by blast
  moreover have "within os []" by (simp add: within_def)
  ultimately show ?thesis
    unfolding live_def
    by (intro exI[of _ dir'] exI[of _ m] conjI exI[of _ "sts @ [(int (length hist), ts_ms)]"] exI[of _ "cs @ [[]]"]) auto
qed

lemma at_rest_empty: "at_rest os [] []"
  unfolding at_rest_def dir_inv_def by (intro exI[of _ "[]"]) simp

lemma session_rest:
  assumes "at_rest os dir hist" "snd job \<noteq> []" "\<forall>(d, t, u) \<in> set (snd job). fits os d t"
    and "int (length hist + length (snd job)) < 2 ^ 63" "\<not> reset_on_open os" "\<not> bad_prefix (segment_prefix os)"
  shows "at_rest os (manager_session os dir job) (hist @ stamped (snd job))"
proof -
  obtain dir' m where o: "manager_open dir os (fst job) io_fine dir_fine = (dir', Inr m)" "live os (dir', m) hist False"
    using open_live[OF assms(1) _ assms(5,6), of "fst job"] assms(4) by auto
  obtain s' where a: "append_each (dir', m) (snd job) = (s', map (\<lambda>i. Inr (int (length hist + i))) [0..<length (snd job)])"
    "live os s' (hist @ stamped (snd job)) (False \<or> snd job \<noteq> [])"
    using append_each_live[OF o(2) assms(3,4)] by blast
  obtain dir'' m' where s': "s' = (dir'', m')" by (cases s')
  have "manager_session os dir job = dir''" by (simp add: manager_session_def o(1) a(1) s' case_prod_beta)
  then show ?thesis using live_rest a(2) assms(2) s' by simp
qed

lemma sessions_rest:
  assumes "\<not> reset_on_open os" "\<not> bad_prefix (segment_prefix os)" "\<forall>job \<in> set jobs. snd job \<noteq> [] \<and> (\<forall>(d, t, u) \<in> set (snd job). fits os d t)"
    and "int (length (concat (map snd jobs))) < 2 ^ 63"
  shows "at_rest os (foldl (manager_session os) [] jobs) (stamped (concat (map snd jobs)))"
  using assms(3,4)
proof (induction jobs rule: rev_induct)
  case Nil
  then show ?case by (simp add: at_rest_empty)
next
  case (snoc job jobs)
  have "at_rest os (foldl (manager_session os) [] jobs) (stamped (concat (map snd jobs)))" by (rule snoc.IH) (use snoc.prems in auto)
  from session_rest[OF this _ _ _ assms(1,2), of job] snoc.prems show ?case by simp
qed

lemma log_within: "live os s hist dirty \<Longrightarrow> max_segment_bytes os > 0 \<Longrightarrow> (n, f) \<in> set (fst s) \<Longrightarrow> length f \<le> 16 + max_segment_bytes os"
proof -
  assume l: "live os s hist dirty" "max_segment_bytes os > 0" "(n, f) \<in> set (fst s)"
  obtain dir m where s: "s = (dir, m)" by (cases s)
  obtain sts cs where i: "dir_inv os dir sts cs" "\<forall>c \<in> set cs. within os c" using l(1) by (auto simp: live_def mgr_inv_def s)
  have names: "fst ` set dir = path os ` set sts" "distinct (map fst dir)" using i(1) by (simp_all add: dir_inv_def)
  have "n \<in> path os ` set sts" using l(3) names(1) by (force simp: s)
  then obtain k where k: "k < length sts" "n = path os (sts ! k)" by (auto simp: in_set_conv_nth)
  have "map_of dir n = Some f" using l(3) names(2) by (simp add: s)
  then have "f = WAL_FILE_MAGIC @ log_bytes (cs ! k)" using i(1) k by (simp add: dir_inv_def)
  moreover have "within os (cs ! k)" using i k(1) by (simp add: dir_inv_def)
  ultimately show ?thesis using l(2) by (simp add: within_def WAL_FILE_MAGIC_def)
qed

lemma wal_prefix: "\<not> bad_prefix ''wal''"
proof -
  have "take 2 (drop i ''wal'') \<noteq> ''..''" if "i < 3" for i
  proof -
    have "i = 0 \<or> i = 1 \<or> i = 2" using that by auto
    then show ?thesis by (elim disjE) (simp_all add: numeral_2_eq_2)
  qed
  then show ?thesis by (auto simp: bad_prefix_def)
qed

text \<open>
  Property C24: rolling loses nothing.  Over any number of sessions of a manager, each appending at least
  one record that fits a segment, whatever the limits on records and bytes per segment and whatever
  the clock: the next \<open>open\<close> succeeds, \<open>read_all\<close> returns every record of every session in order with gapless
  sequence numbers, further appends are numbered from there, and no segment exceeds its size limit.
\<close>

theorem manager_rolling_roundtrip:
  assumes "\<not> reset_on_open os" "\<not> bad_prefix (segment_prefix os)"
    and "\<forall>job \<in> set jobs. snd job \<noteq> [] \<and> (\<forall>(d, t, u) \<in> set (snd job). fits os d t)"
    and "int (length (concat (map snd jobs)) + length extra) < 2 ^ 63" "\<forall>(d, t, u) \<in> set extra. fits os d t"
  shows "\<exists>dir m. manager_open (foldl (manager_session os) [] jobs) os ts_ms io_fine dir_fine = (dir, Inr m)
    \<and> manager_read_all (dir, m) io_fine = Inr (numbered 0 (stamped (concat (map snd jobs))))
    \<and> snd (append_each (dir, m) extra) = map (\<lambda>i. Inr (int (length (concat (map snd jobs)) + i))) [0..<length extra]
    \<and> manager_read_all (fst (append_each (dir, m) extra)) io_fine = Inr (numbered 0 (stamped (concat (map snd jobs) @ extra)))
    \<and> (max_segment_bytes os > 0 \<longrightarrow> (\<forall>(n, f) \<in> set (fst (fst (append_each (dir, m) extra))). length f \<le> 16 + max_segment_bytes os))"
proof -
  let ?h = "stamped (concat (map snd jobs))"
  have n: "int (length ?h) < 2 ^ 63" "int (length ?h + length extra) < 2 ^ 63" using assms(4) by simp_all
  have "at_rest os (foldl (manager_session os) [] jobs) ?h" using sessions_rest[OF assms(1-3)] assms(4) by simp
  from open_live[OF this n(1) assms(1,2), of ts_ms] obtain dir m where
    o: "manager_open (foldl (manager_session os) [] jobs) os ts_ms io_fine dir_fine = (dir, Inr m)" "live os (dir, m) ?h False" by blast
  obtain s' where a: "append_each (dir, m) extra = (s', map (\<lambda>i. Inr (int (length ?h + i))) [0..<length extra])"
    "live os s' (?h @ stamped extra) (False \<or> extra \<noteq> [])"
    using append_each_live[OF o(2) assms(5) n(2)] by blast
  have rd: "manager_read_all s io_fine = Inr (numbered 0 h)" if "live os s h b" for s h b
  proof -
    obtain sts cs where "mgr_inv os s sts cs" "concat cs = numbered 0 h" using \<open>live os s h b\<close> by (auto simp: live_def)
    then show ?thesis using read_all_inv[of os s sts cs] by simp
  qed
  show ?thesis
    using o(1) a rd[OF o(2)] rd[OF a(2)] log_within[OF a(2)]
    by (intro exI[of _ dir] exI[of _ m]) auto
qed

theorem manager_rolling_roundtrip_witness:
  "\<exists>dir m. manager_open (foldl (manager_session (default_manager_options\<lparr>max_records := 1\<rparr>)) [] [(5, [([1], 6, 7), ([2, 3], 8, 7)])])
      (default_manager_options\<lparr>max_records := 1\<rparr>) 9 io_fine dir_fine = (dir, Inr m)
    \<and> manager_read_all (dir, m) io_fine = Inr (numbered 0 [([1], 6), ([2, 3], 8)])"
proof -
  let ?os = "default_manager_options\<lparr>max_records := 1\<rparr>" let ?jobs = "[(5 :: int, [([1], 6, 7), ([2, 3], 8, 7)])] :: (int \<times> (bytes \<times> int \<times> int) list) list"
  have "\<not> reset_on_open ?os" "\<not> bad_prefix (segment_prefix ?os)"
    using wal_prefix by (simp_all add: default_manager_options_def)
  moreover have "fits ?os [1] 6" "fits ?os [2, 3] 8"
    by (simp_all add: fits_def acceptable_def int64_def WAL_MAX_RECORD_SIZE_def default_manager_options_def)
  ultimately show ?thesis
    using manager_rolling_roundtrip[of ?os ?jobs "[]" 9] by (simp del: foldl_Cons) blast
qed

text \<open>
  A session that appends nothing makes the numbering restart.  After any history of
  appending sessions, one session that only opens and closes leaves an empty segment behind; the next
  \<open>open\<close> looks at that segment only, begins again at sequence number 0, and the first record it takes
  gets the number 0 a second time.
\<close>

theorem manager_sequence_restarts:
  assumes "\<not> reset_on_open os" "\<not> bad_prefix (segment_prefix os)" "jobs \<noteq> []"
    and "\<forall>job \<in> set jobs. snd job \<noteq> [] \<and> (\<forall>(d, t, u) \<in> set (snd job). fits os d t)"
    and "int (length (concat (map snd jobs))) < 2 ^ 63"
    and "idle = manager_session os (foldl (manager_session os) [] jobs) (t1, [])"
    and "map_of idle (make_segment_path os 0 t2) = None" "fits os d t"
  shows "\<exists>dir m. manager_open idle os t2 io_fine dir_fine = (dir, Inr m) \<and> global_seq m = 0
    \<and> total_records m = int (length (concat (map snd jobs))) \<and> 0 < total_records m
    \<and> snd (manager_append (dir, m) d t u io_fine) = Inr 0"
proof -
  let ?h = "stamped (concat (map snd jobs))"
  have n: "int (length ?h) < 2 ^ 63" using assms(5) by simp
  have "at_rest os (foldl (manager_session os) [] jobs) ?h" by (rule sessions_rest) (use assms in simp_all)
  from open_rest[OF this n assms(1,2), of t1] obtain dir1 m1 sts cs where
    o: "manager_open (foldl (manager_session os) [] jobs) os t1 io_fine dir_fine = (dir1, Inr m1)"
    and inv: "mgr_inv os (dir1, m1) (sts @ [(int (length ?h), t1)]) (cs @ [[]])" and all: "concat cs = numbered 0 ?h"
    and less: "\<forall>p \<in> set sts. fst p < int (length ?h)" by blast
  let ?sts = "sts @ [(int (length ?h), t1)]"
  have idle: "idle = dir1" by (simp add: assms(6) manager_session_def o case_prod_beta)
  have d: "dir_inv os dir1 ?sts (cs @ [[]])" using inv by (simp add: mgr_inv_def)
  have l: "length cs = length sts" using dir_inv_facts(2)[OF d] by simp
  have scan: "scan_segments dir1 os = map (path os) ?sts" by (rule scan_dir[OF d]) (use less n in force)
  have rec: "recover (map_of dir1 (path os (?sts ! i))) md = Inr ((cs @ [[]]) ! i)" if "i < length ?sts" for i md
    by (rule recover_segment[OF d that])
  have "next_global_seq os dir1 (map (path os) ?sts) = Inr 0"
    using rec[of "length sts"] l by (simp add: next_global_seq_def nth_append)
  moreover have "read_segments os dir1 (map (path os) ?sts) [] = Inr (numbered 0 ?h)"
    using read_segments_dir[of "map (path os) ?sts" "cs @ [[]]" dir1 os "[]"] rec l all by (simp del: map_append)
  moreover have none: "map_of dir1 (make_segment_path os 0 t2) = None" using assms(7) by (simp add: idle)
  ultimately obtain dir m where m: "manager_open idle os t2 io_fine dir_fine = (dir, Inr m)" "global_seq m = 0"
    "total_records m = int (length ?h)" "mopts m = os" "\<not> mclosed m" "\<not> closed (writer m)" "next_seq (writer m) = 0"
    "segment_record_count m = 0" "bytes_written (writer m) = 0"
    using assms(1,2) by (simp add: manager_open_def dir_fine_def scan Let_def idle wal_open_new writer_options_def del: map_append)
  then have "\<not> need_roll m (length d)" using assms(8) by (auto simp: need_roll_def fits_def)
  moreover have "acceptable (d, t)" using assms(8) by (simp add: fits_def)
  ultimately have "snd (manager_append (dir, m) d t u io_fine) = Inr 0"
    using m by (simp add: manager_append_def wal_append_fine Let_def)
  moreover have "0 < length ?h" using assms(3,4) by (cases jobs) auto
  ultimately show ?thesis using m(1-3) by auto
qed

theorem manager_sequence_restarts_witness:
  "\<exists>dir m. manager_open (manager_session default_manager_options (manager_session default_manager_options [] (5, [([1], 6, 7)])) (8, []))
      default_manager_options 9 io_fine dir_fine = (dir, Inr m)
    \<and> total_records m = 1 \<and> snd (manager_append (dir, m) [2] 10 9 io_fine) = Inr 0"
proof -
  let ?os = default_manager_options let ?jobs = "[(5 :: int, [([1], 6, 7)])] :: (int \<times> (bytes \<times> int \<times> int) list) list"
  have "\<not> reset_on_open ?os" "\<not> bad_prefix (segment_prefix ?os)"
    using wal_prefix by (simp_all add: default_manager_options_def)
  moreover have f: "fits ?os [1] 6" "fits ?os [2] 10"
    by (simp_all add: fits_def acceptable_def int64_def WAL_MAX_RECORD_SIZE_def default_manager_options_def)
  moreover have "map_of (manager_session ?os (foldl (manager_session ?os) [] ?jobs) (8, [])) (make_segment_path ?os 0 9) = None"
  proof -
    obtain F where one: "manager_session ?os [] (5, [([1], 6, 7)]) = [(make_segment_path ?os 0 5, F)]"
      using wal_prefix
      by (simp add: manager_session_def manager_open_def dir_fine_def scan_segments_def List.map_filter_simps next_global_seq_def
          wal_open_new manager_append_def need_roll_def wal_append_fine acceptable_def WAL_MAX_RECORD_SIZE_def writer_options_def
          case_prod_beta Let_def default_manager_options_def manager_close_def)
    have "at_rest ?os (manager_session ?os [] (5, [([1], 6, 7)])) (stamped [([1], 6, 7)])"
      using session_rest[OF at_rest_empty, of "(5, [([1], 6, 7)])" ?os] f(1) wal_prefix by (simp add: default_manager_options_def)
    from open_rest[OF this, of 8] wal_prefix obtain m where
      "manager_open (manager_session ?os [] (5, [([1], 6, 7)])) ?os 8 io_fine dir_fine
        = (AList.update (make_segment_path ?os 1 8) WAL_FILE_MAGIC (manager_session ?os [] (5, [([1], 6, 7)])), Inr m)"
      by (auto simp: default_manager_options_def)
    note second = this[unfolded one]
    then have two: "manager_session ?os [(make_segment_path ?os 0 5, F)] (8, []) =
        AList.update (make_segment_path ?os 1 8) WAL_FILE_MAGIC [(make_segment_path ?os 0 5, F)]"
      by (simp add: manager_session_def[of _ "[(make_segment_path ?os 0 5, F)]"] second case_prod_beta)
    have "make_segment_path ?os 0 9 \<noteq> make_segment_path ?os 0 5" "make_segment_path ?os 0 9 \<noteq> make_segment_path ?os 1 8"
      using segment_path_inj[of ?os 0 9 1 8]
      by (auto simp: make_segment_path_def int_to_string_def nat_to_string.simps digit_char_def)
    then show ?thesis by (simp add: one two update_conv')
  qed
  ultimately show ?thesis
    using manager_sequence_restarts[of ?os ?jobs _ 8 9 "[2]" 10 9] by simp blast
qed

section \<open>Pruning\<close>

lemma remove1_nth: "distinct xs \<Longrightarrow> i < length xs \<Longrightarrow> remove1 (xs ! i) xs = take i xs @ drop (Suc i) xs"
proof -
  assume a: "distinct xs" "i < length xs"
  then have "xs = take i xs @ xs ! i # drop (Suc i) xs" by (simp add: id_take_nth_drop)
  moreover from a have "xs ! i \<notin> set (take i xs)" by (auto simp: in_set_conv_nth distinct_conv_nth)
  ultimately show ?thesis by (metis remove1.simps(2) remove1_append)
qed

text \<open>
  Property C37: pruning is guarded.  A segment is removed only when a required checkpoint has been
  committed, and never when it is the active one; a refused removal changes nothing.  After a removal,
  \<open>read_all\<close> returns the records of all the other segments, in order.
\<close>

theorem manager_prune_guarded:
  assumes "mgr_inv os (dir, m) sts cs" "i < length sts"
  shows "(case remove_segment (dir, m) (path os (sts ! i)) dir_fine of (s', r) \<Rightarrow>
    if require_checkpoint_before_prune os \<and> \<not> prune_checkpoint_ready m \<or> i = length sts - 1
    then s' = (dir, m) \<and> r = Inl IO_ERROR
    else r = Inr () \<and> map_of (fst s') (path os (sts ! i)) = None
      \<and> manager_read_all s' io_fine = Inr (concat (take i cs @ drop (Suc i) cs)))"
proof -
  let ?p = "path os (sts ! i)"
  have m: "dir_inv os dir sts cs" "sts \<noteq> []" "mopts m = os" "segments m = map (path os) sts" "\<not> closed (writer m)"
    using assms(1) by (simp_all add: mgr_inv_def)
  note inj = dir_inv_last_distinct[OF m(1)]
  have l: "length cs = length sts" by (rule dir_inv_facts(2)[OF m(1)])
  have d: "distinct (map (path os) sts)" using inj by (auto simp: distinct_conv_nth)
  have "last (segments m) = path os (sts ! (length sts - 1))" using m(2) by (simp add: m(4) last_map last_conv_nth)
  then have last: "last (segments m) = ?p \<longleftrightarrow> i = length sts - 1" using inj[of "length sts - 1" i] assms(2) by auto
  have rem: "remove1 ?p (map (path os) sts) = map (path os) (take i sts @ drop (Suc i) sts)"
    using remove1_nth[OF d, of i] assms(2) by (simp add: take_map drop_map)
  have "read_segments os (AList.delete ?p dir) (map (path os) (take i sts @ drop (Suc i) sts)) [] = Inr ([] @ concat (take i cs @ drop (Suc i) cs))"
  proof (rule read_segments_dir)
    show "length (map (path os) (take i sts @ drop (Suc i) sts)) = length (take i cs @ drop (Suc i) cs)" by (simp add: l)
    fix j assume j: "j < length (map (path os) (take i sts @ drop (Suc i) sts))"
    define k where "k = (if j < i then j else Suc j)"
    have k: "k < length sts" "k \<noteq> i" using j assms(2) by (auto simp: k_def)
    have n: "map (path os) (take i sts @ drop (Suc i) sts) ! j = path os (sts ! k)" "(take i cs @ drop (Suc i) cs) ! j = cs ! k"
      using j assms(2) l by (auto simp: k_def nth_append)
    have "path os (sts ! k) \<noteq> ?p" using inj[of k i] k assms(2) by auto
    then show "recover (map_of (AList.delete ?p dir) (map (path os) (take i sts @ drop (Suc i) sts) ! j)) (replay_mode os)
        = Inr ((take i cs @ drop (Suc i) cs) ! j)"
      using recover_segment[OF m(1) k(1)] by (simp only: n) (simp add: delete_conv')
  qed
  then have "manager_read_all (AList.delete ?p dir, m\<lparr>segments := remove1 ?p (map (path os) sts)\<rparr>) io_fine
      = Inr (concat (take i cs @ drop (Suc i) cs))"
    using m(3,5) by (simp add: manager_read_all_def wal_flush_def io_fine_def rem)
  then show ?thesis
    using last m(2) by (auto simp: remove_segment_def dir_fine_def m(3,4) delete_conv')
qed

theorem manager_prune_guarded_witness:
  "\<exists>dir m. mgr_inv default_manager_options (dir, m) [(0, 5)] [[]]
    \<and> snd (remove_segment (dir, m) (path default_manager_options (0, 5)) dir_fine) = Inl IO_ERROR"
proof -
  have "dir_inv default_manager_options [] [] []" by (simp add: dir_inv_def)
  from manager_open_inv[OF this, of 0 5] wal_prefix obtain dir m where
    i: "mgr_inv default_manager_options (dir, m) ([] @ [(0, 5)]) ([] @ [[]])"
    by (auto simp: default_manager_options_def)
  then show ?thesis using manager_prune_guarded[of default_manager_options dir m "[(0, 5)]" "[[]]" 0]
    by (auto simp: case_prod_beta)
qed

end
