(* ===== verification/AuditChain.thy ===== *)
theory AuditChain
  imports Sha256 Crc32 Decimal
begin

text \<open>
  The tamper-evident hash chain of \<^verbatim>\<open>include/signet/ai/audit_chain.hpp\<close>: entries, the writer, the
  verifier and the chain summary in text form.  A hash is a list of 32 bytes, an \<^verbatim>\<open>int64_t\<close> an integer
  that is cut to 64 bits where it is stored; the byte order functions of \<^verbatim>\<open>detail::audit\<close> are those of
  \<^verbatim>\<open>Crc32\<close>.  The clock is an argument.
\<close>

section \<open>Clock and hexadecimal text\<close>

text \<open>\<^verbatim>\<open>now_ns\<close>: the compare-exchange loop stores a value above the last one handed out; given the last
  value and the clock, the result and the new last value.\<close>

definition now_ns :: "int \<Rightarrow> int \<Rightarrow> int \<times> int" where
  "now_ns last_ns clock = (let ns = (if clock \<le> last_ns then last_ns + 1 else clock) in (ns, ns))"

record clock_sync_status =
  is_synchronized :: bool
  max_error_ns :: int

definition meets_rts25_hft :: "clock_sync_status \<Rightarrow> bool" where
  "meets_rts25_hft s \<longleftrightarrow> is_synchronized s \<and> max_error_ns s \<le> 100000"

definition meets_rts25_standard :: "clock_sync_status \<Rightarrow> bool" where
  "meets_rts25_standard s \<longleftrightarrow> is_synchronized s \<and> max_error_ns s \<le> 1000000"

definition hex_char :: "nat \<Rightarrow> char" where
  "hex_char n = ''0123456789abcdef'' ! n"

definition hash_to_hex :: "bytes \<Rightarrow> string" where
  "hash_to_hex h = concat (map (\<lambda>b. [hex_char (unat (drop_bit 4 b AND 0x0F)), hex_char (unat (b AND 0x0F))]) h)"

definition hex_val :: "char \<Rightarrow> int" where
  "hex_val c = (let n = of_char c :: int in
     if 48 \<le> n \<and> n \<le> 57 then n - 48
     else if 97 \<le> n \<and> n \<le> 102 then 10 + (n - 97)
     else if 65 \<le> n \<and> n \<le> 70 then 10 + (n - 65)
     else -1)"

fun hex_pairs :: "string \<Rightarrow> bytes expected" where
  "hex_pairs (hi # lo # s) =
     (if hex_val hi < 0 \<or> hex_val lo < 0 then Inl INVALID_FILE
      else case hex_pairs s of Inl e \<Rightarrow> Inl e
        | Inr bs \<Rightarrow> Inr ((push_bit 4 (word_of_int (hex_val hi)) OR word_of_int (hex_val lo)) # bs))"
| "hex_pairs _ = Inr []"

definition hex_to_hash :: "string \<Rightarrow> bytes expected" where
  "hex_to_hash hex = (if length hex \<noteq> 64 then Inl INVALID_FILE else hex_pairs hex)"

fun hex_digits :: "nat \<Rightarrow> nat \<Rightarrow> string" where
  "hex_digits 0 n = ''''"
| "hex_digits (Suc k) n = hex_digits k (n div 16) @ [hex_char (n mod 16)]"

definition generate_chain_id :: "int \<Rightarrow> string" where
  "generate_chain_id ts = ''chain-'' @ hex_digits 16 (unat (word_of_int ts :: u64))"

section \<open>Entries\<close>

definition HASH_CHAIN_ENTRY_SIZE :: nat where "HASH_CHAIN_ENTRY_SIZE = 112"

definition zero_hash :: bytes where "zero_hash = replicate 32 0"

record chain_entry =
  he_sequence_number :: int
  he_timestamp_ns :: int
  he_prev_hash :: bytes
  he_data_hash :: bytes
  he_entry_hash :: bytes

definition preimage :: "chain_entry \<Rightarrow> bytes" where
  "preimage e = write_le64 (word_of_int (he_sequence_number e)) @ write_le64 (word_of_int (he_timestamp_ns e))
     @ he_prev_hash e @ he_data_hash e"

definition compute_entry_hash :: "chain_entry \<Rightarrow> chain_entry" where
  "compute_entry_hash e = e\<lparr>he_entry_hash := sha256 (preimage e)\<rparr>"

text \<open>The comparison accumulates the differences of all 32 bytes.\<close>

definition entry_verify :: "chain_entry \<Rightarrow> bool" where
  "entry_verify e =
     (let expected = sha256 (preimage e);
          diff = fold (\<lambda>i diff. diff OR (he_entry_hash e ! i XOR expected ! i)) [0..<32] 0
      in diff = 0)"

definition serialize_entry :: "chain_entry \<Rightarrow> bytes" where
  "serialize_entry e = write_le64 (word_of_int (he_sequence_number e)) @ write_le64 (word_of_int (he_timestamp_ns e))
     @ he_prev_hash e @ he_data_hash e @ he_entry_hash e"

definition deserialize_entry :: "bytes \<Rightarrow> chain_entry expected" where
  "deserialize_entry data =
     (if length data < HASH_CHAIN_ENTRY_SIZE then Inl CORRUPT_PAGE
      else Inr \<lparr>he_sequence_number = sint (read_le64 data), he_timestamp_ns = sint (read_le64 (drop 8 data)),
        he_prev_hash = take 32 (drop 16 data), he_data_hash = take 32 (drop 48 data), he_entry_hash = take 32 (drop 80 data)\<rparr>)"

section \<open>AuditChainWriter\<close>

record chain_writer =
  cw_entries :: "chain_entry list"
  cw_last_hash :: bytes
  cw_next_seq :: int

definition chain_writer_new :: chain_writer where
  "chain_writer_new = \<lparr>cw_entries = [], cw_last_hash = zero_hash, cw_next_seq = 0\<rparr>"

definition chain_append :: "chain_writer \<Rightarrow> bytes \<Rightarrow> int \<Rightarrow> chain_entry \<times> chain_writer" where
  "chain_append w record_data ts =
     (let entry = compute_entry_hash \<lparr>he_sequence_number = cw_next_seq w, he_timestamp_ns = ts, he_prev_hash = cw_last_hash w,
                    he_data_hash = sha256 record_data, he_entry_hash = zero_hash\<rparr>
      in (entry, w\<lparr>cw_last_hash := he_entry_hash entry, cw_next_seq := cw_next_seq w + 1, cw_entries := cw_entries w @ [entry]\<rparr>))"

definition chain_length :: "chain_writer \<Rightarrow> int" where "chain_length w = int (length (cw_entries w))"

definition chain_reset :: "chain_writer \<Rightarrow> bytes \<Rightarrow> int \<Rightarrow> chain_writer" where
  "chain_reset w initial_prev_hash initial_seq =
     w\<lparr>cw_entries := [], cw_last_hash := initial_prev_hash, cw_next_seq := initial_seq\<rparr>"

text \<open>\<open>None\<close> is the exception for a chain of more than \<open>2^32 - 1\<close> entries.\<close>

definition serialize_chain :: "chain_writer \<Rightarrow> bytes option" where
  "serialize_chain w =
     (if length (cw_entries w) > 0xFFFFFFFF then None
      else Some (write_le32 (of_nat (length (cw_entries w))) @ concat (map serialize_entry (cw_entries w))))"

section \<open>AuditChainVerifier\<close>

record verification_result =
  vr_valid :: bool
  vr_entries_checked :: int
  vr_first_bad_index :: int

definition bad_at :: "nat \<Rightarrow> verification_result" where
  "bad_at i = \<lparr>vr_valid = False, vr_entries_checked = int i, vr_first_bad_index = int i\<rparr>"

fun verify_loop :: "nat \<Rightarrow> bytes \<Rightarrow> int option \<Rightarrow> chain_entry list \<Rightarrow> verification_result" where
  "verify_loop i expected_prev last_ts [] = \<lparr>vr_valid = True, vr_entries_checked = int i, vr_first_bad_index = -1\<rparr>"
| "verify_loop i expected_prev last_ts (entry # entries) =
     (if he_sequence_number entry \<noteq> int i then bad_at i
      else if he_prev_hash entry \<noteq> expected_prev then bad_at i
      else if \<not> entry_verify entry then bad_at i
      else if (case last_ts of None \<Rightarrow> False | Some t \<Rightarrow> he_timestamp_ns entry < t) then bad_at i
      else verify_loop (Suc i) (he_entry_hash entry) (Some (he_timestamp_ns entry)) entries)"

definition verify_entries :: "chain_entry list \<Rightarrow> verification_result" where
  "verify_entries entries =
     (if entries = [] then \<lparr>vr_valid = True, vr_entries_checked = 0, vr_first_bad_index = -1\<rparr>
      else verify_loop 0 zero_hash None entries)"

text \<open>The loop over the serialised entries; the index of a failing entry comes with the error.\<close>

fun read_entries :: "nat \<Rightarrow> nat \<Rightarrow> bytes \<Rightarrow> (error_code \<times> nat) + chain_entry list" where
  "read_entries i 0 ptr = Inr []"
| "read_entries i (Suc n) ptr =
     (case deserialize_entry (take HASH_CHAIN_ENTRY_SIZE ptr) of
        Inl e \<Rightarrow> Inl (e, i)
      | Inr entry \<Rightarrow> (case read_entries (Suc i) n (drop HASH_CHAIN_ENTRY_SIZE ptr) of
            Inl e \<Rightarrow> Inl e | Inr es \<Rightarrow> Inr (entry # es)))"

definition verify_bytes :: "bytes \<Rightarrow> verification_result" where
  "verify_bytes data =
     (if length data < 4 then \<lparr>vr_valid = False, vr_entries_checked = 0, vr_first_bad_index = -1\<rparr>
      else let count = unat (read_le32 data); expected_size = 4 + count * HASH_CHAIN_ENTRY_SIZE in
        if length data < expected_size then \<lparr>vr_valid = False, vr_entries_checked = 0, vr_first_bad_index = -1\<rparr>
        else case read_entries 0 count (drop 4 data) of
            Inl (_, i) \<Rightarrow> \<lparr>vr_valid = False, vr_entries_checked = 0, vr_first_bad_index = int i\<rparr>
          | Inr entries \<Rightarrow> verify_entries entries)"

definition verify_continuity :: "bytes \<Rightarrow> chain_entry list \<Rightarrow> bool" where
  "verify_continuity file1_last_hash file2_entries =
     (case file2_entries of [] \<Rightarrow> True | e # _ \<Rightarrow> he_prev_hash e = file1_last_hash)"

definition verify_entry :: "chain_entry \<Rightarrow> bytes \<Rightarrow> bool" where
  "verify_entry entry expected_prev_hash = (if he_prev_hash entry \<noteq> expected_prev_hash then False else entry_verify entry)"

definition deserialize_and_verify_chain :: "bytes \<Rightarrow> chain_entry list expected" where
  "deserialize_and_verify_chain data =
     (if length data < 4 then Inl HASH_CHAIN_BROKEN
      else let count = unat (read_le32 data); expected_size = 4 + count * HASH_CHAIN_ENTRY_SIZE in
        if length data < expected_size then Inl HASH_CHAIN_BROKEN
        else case read_entries 0 count (drop 4 data) of
            Inl _ \<Rightarrow> Inl HASH_CHAIN_BROKEN
          | Inr entries \<Rightarrow> if \<not> vr_valid (verify_entries entries) then Inl HASH_CHAIN_BROKEN else Inr entries)"

section \<open>AuditMetadata\<close>

definition SIGNET_CREATED_BY :: string where "SIGNET_CREATED_BY = ''SignetStack signet-forge version 0.1.0''"

record audit_metadata =
  am_chain_id :: string
  am_start_sequence :: int
  am_end_sequence :: int
  am_first_prev_hash :: bytes
  am_last_entry_hash :: bytes
  am_created_by :: string
  am_first_hash :: string
  am_last_hash :: string
  am_prev_file_hash :: string
  am_record_count :: int
  am_record_type :: string

definition default_metadata :: audit_metadata where
  "default_metadata = \<lparr>am_chain_id = '''', am_start_sequence = 0, am_end_sequence = 0, am_first_prev_hash = zero_hash,
     am_last_entry_hash = zero_hash, am_created_by = SIGNET_CREATED_BY, am_first_hash = '''', am_last_hash = '''',
     am_prev_file_hash = '''', am_record_count = 0, am_record_type = ''''\<rparr>"

definition to_key_values :: "audit_metadata \<Rightarrow> (string \<times> string) list" where
  "to_key_values m =
     [(''signetstack.audit.chain_id'', am_chain_id m),
      (''signetstack.audit.first_seq'', int_to_string (am_start_sequence m)),
      (''signetstack.audit.last_seq'', int_to_string (am_end_sequence m)),
      (''signetstack.audit.first_hash'', am_first_hash m),
      (''signetstack.audit.last_hash'', am_last_hash m),
      (''signetstack.audit.prev_file_hash'', am_prev_file_hash m),
      (''signetstack.audit.record_count'', int_to_string (am_record_count m))]
     @ (if am_record_type m = '''' then [] else [(''signetstack.audit.record_type'', am_record_type m)])"

definition serialize_metadata :: "audit_metadata \<Rightarrow> string" where
  "serialize_metadata m =
     ''chain_id='' @ am_chain_id m @ '';start_seq='' @ int_to_string (am_start_sequence m)
     @ '';end_seq='' @ int_to_string (am_end_sequence m) @ '';first_prev='' @ hash_to_hex (am_first_prev_hash m)
     @ '';last_hash='' @ hash_to_hex (am_last_entry_hash m) @ '';created_by='' @ am_created_by m"

text \<open>The pieces between semicolons, split at their first equals sign.\<close>

definition split_token :: "string \<Rightarrow> (string \<times> string) list" where
  "split_token token =
     (if CHR ''='' \<in> set token
      then [(takeWhile (\<lambda>c. c \<noteq> CHR ''='') token, drop (length (takeWhile (\<lambda>c. c \<noteq> CHR ''='') token) + 1) token)] else [])"

fun parse_pairs :: "string \<Rightarrow> (string \<times> string) list" where
  "parse_pairs input =
     (if input = [] then []
      else let token = takeWhile (\<lambda>c. c \<noteq> CHR '';'') input
           in split_token token @ parse_pairs (drop (length token + 1) input))"

declare parse_pairs.simps [simp del]

definition deserialize_metadata :: "string \<Rightarrow> audit_metadata expected" where
  "deserialize_metadata s =
     (let find_key = map_of (parse_pairs s) in
      case find_key ''chain_id'' of None \<Rightarrow> Inl INVALID_FILE | Some chain_id \<Rightarrow>
      case find_key ''start_seq'' of None \<Rightarrow> Inl INVALID_FILE | Some start_val \<Rightarrow>
      case stoll start_val of None \<Rightarrow> Inl INVALID_FILE | Some start_seq \<Rightarrow>
      case find_key ''end_seq'' of None \<Rightarrow> Inl INVALID_FILE | Some end_val \<Rightarrow>
      case stoll end_val of None \<Rightarrow> Inl INVALID_FILE | Some end_seq \<Rightarrow>
      case find_key ''first_prev'' of None \<Rightarrow> Inl INVALID_FILE | Some first_prev_val \<Rightarrow>
      case hex_to_hash first_prev_val of Inl _ \<Rightarrow> Inl INVALID_FILE | Inr first_prev \<Rightarrow>
      case find_key ''last_hash'' of None \<Rightarrow> Inl INVALID_FILE | Some last_hash_val \<Rightarrow>
      case hex_to_hash last_hash_val of Inl _ \<Rightarrow> Inl INVALID_FILE | Inr last_hash \<Rightarrow>
      Inr (default_metadata\<lparr>am_chain_id := chain_id, am_start_sequence := start_seq, am_end_sequence := end_seq,
        am_first_prev_hash := first_prev, am_last_entry_hash := last_hash,
        am_created_by := (case find_key ''created_by'' of None \<Rightarrow> SIGNET_CREATED_BY | Some v \<Rightarrow> v)\<rparr>))"

definition build_audit_metadata :: "chain_writer \<Rightarrow> string \<Rightarrow> audit_metadata expected" where
  "build_audit_metadata w chain_id =
     (if chain_length w = 0 then Inl INTERNAL_ERROR
      else let entries = cw_entries w in
        Inr (default_metadata\<lparr>am_chain_id := chain_id, am_start_sequence := he_sequence_number (hd entries),
          am_end_sequence := he_sequence_number (last entries), am_first_prev_hash := he_prev_hash (hd entries),
          am_last_entry_hash := he_entry_hash (last entries), am_created_by := SIGNET_CREATED_BY\<rparr>))"

section \<open>Entries: comparison and bytes\<close>

lemma xor_zero_iff: "a XOR b = 0 \<longleftrightarrow> a = b" for a b :: "'a::len word"
  by (auto simp: bit_eq_iff bit_xor_iff)

lemma entry_verify_iff: "length (he_entry_hash e) = 32 \<Longrightarrow> entry_verify e \<longleftrightarrow> he_entry_hash e = sha256 (preimage e)"
  by (auto simp: entry_verify_def Let_def fold_or_zero xor_zero_iff intro: nth_equalityI)

definition entry_ok :: "chain_entry \<Rightarrow> bool" where
  "entry_ok e \<longleftrightarrow> int64 (he_sequence_number e) \<and> int64 (he_timestamp_ns e) \<and> length (he_prev_hash e) = 32
     \<and> length (he_data_hash e) = 32 \<and> length (he_entry_hash e) = 32"

lemma length_serialize_entry: "entry_ok e \<Longrightarrow> length (serialize_entry e) = HASH_CHAIN_ENTRY_SIZE"
  by (simp add: entry_ok_def serialize_entry_def HASH_CHAIN_ENTRY_SIZE_def)

lemma deserialize_serialize_entry:
  assumes "entry_ok e"
  shows "deserialize_entry (serialize_entry e @ r) = Inr e"
proof -
  have d: "drop 8 (serialize_entry e @ r) = write_le64 (word_of_int (he_timestamp_ns e)) @ he_prev_hash e @ he_data_hash e @ he_entry_hash e @ r"
    "drop 16 (serialize_entry e @ r) = he_prev_hash e @ he_data_hash e @ he_entry_hash e @ r"
    "drop 48 (serialize_entry e @ r) = he_data_hash e @ he_entry_hash e @ r"
    "drop 80 (serialize_entry e @ r) = he_entry_hash e @ r"
    using assms by (simp_all add: serialize_entry_def entry_ok_def)
  have "read_le64 (serialize_entry e @ r) = word_of_int (he_sequence_number e)" by (simp add: serialize_entry_def)
  then show ?thesis using assms length_serialize_entry[OF assms]
    unfolding deserialize_entry_def d by (simp add: HASH_CHAIN_ENTRY_SIZE_def entry_ok_def sint_int64)
qed

lemma int64_sint: "int64 (sint (w :: u64))"
  using sint_range_size[of w] by (simp add: int64_def word_size)

lemma deserialize_entry_ok: "deserialize_entry data = Inr e \<Longrightarrow> entry_ok e"
  by (auto simp: deserialize_entry_def entry_ok_def HASH_CHAIN_ENTRY_SIZE_def int64_sint split: if_splits)

lemma word_of_int64_eq: "int64 i \<Longrightarrow> int64 j \<Longrightarrow> word_of_int i = (word_of_int j :: u64) \<Longrightarrow> i = j"
  by (metis sint_int64)

lemma preimage_inj:
  assumes "entry_ok e" "entry_ok f" "preimage e = preimage f" "he_entry_hash e = he_entry_hash f"
  shows "e = f"
proof -
  have "write_le64 (word_of_int (he_sequence_number e)) = write_le64 (word_of_int (he_sequence_number f))"
    "write_le64 (word_of_int (he_timestamp_ns e)) = write_le64 (word_of_int (he_timestamp_ns f))"
    and h: "he_prev_hash e = he_prev_hash f" "he_data_hash e = he_data_hash f"
    using assms(1-3) by (simp_all add: preimage_def entry_ok_def)
  then have "word_of_int (he_sequence_number e) = (word_of_int (he_sequence_number f) :: u64)"
    "word_of_int (he_timestamp_ns e) = (word_of_int (he_timestamp_ns f) :: u64)"
    using read_write_le(2)[where r = "[]"] by metis+
  then show ?thesis using assms h word_of_int64_eq by (cases e; cases f) (auto simp: entry_ok_def)
qed

section \<open>What the verifier accepts\<close>

fun linked :: "nat \<Rightarrow> bytes \<Rightarrow> int option \<Rightarrow> chain_entry list \<Rightarrow> bool" where
  "linked i p t [] = True"
| "linked i p t (e # es) \<longleftrightarrow> he_sequence_number e = int i \<and> he_prev_hash e = p \<and> entry_verify e
     \<and> (case t of None \<Rightarrow> True | Some t \<Rightarrow> t \<le> he_timestamp_ns e) \<and> linked (Suc i) (he_entry_hash e) (Some (he_timestamp_ns e)) es"

lemma verify_loop_linked: "vr_valid (verify_loop i p t es) \<longleftrightarrow> linked i p t es"
  by (induction i p t es rule: verify_loop.induct) (auto simp: bad_at_def split: option.splits)

lemma verify_loop_accepts:
  "linked i p t es \<Longrightarrow> verify_loop i p t es = \<lparr>vr_valid = True, vr_entries_checked = int (i + length es), vr_first_bad_index = -1\<rparr>"
  by (induction i p t es rule: verify_loop.induct) (auto split: option.splits)

lemma verify_entries_linked: "vr_valid (verify_entries es) \<longleftrightarrow> linked 0 zero_hash None es"
  by (cases es) (simp_all add: verify_entries_def verify_loop_linked del: verify_loop.simps)

lemma linked_nth:
  "linked i p t es \<Longrightarrow> k < length es \<Longrightarrow> he_sequence_number (es ! k) = int (i + k) \<and> entry_verify (es ! k)
    \<and> he_prev_hash (es ! k) = (if k = 0 then p else he_entry_hash (es ! (k - 1)))"
proof (induction i p t es arbitrary: k rule: linked.induct)
  case (2 i p t e es)
  then show ?case by (cases k) auto
qed simp

lemma read_entries_ok: "read_entries i n data = Inr es \<Longrightarrow> list_all entry_ok es \<and> length es = n"
proof (induction n arbitrary: i data es)
  case (Suc n)
  then show ?case by (auto split: sum.splits dest: deserialize_entry_ok)
qed simp

lemma read_entries_serialized:
  "list_all entry_ok es \<Longrightarrow> read_entries i (length es) (concat (map serialize_entry es) @ r) = Inr es"
proof (induction es arbitrary: i)
  case (Cons e es)
  then have e: "entry_ok e" by simp
  have "take HASH_CHAIN_ENTRY_SIZE (concat (map serialize_entry (e # es)) @ r) = serialize_entry e"
    "drop HASH_CHAIN_ENTRY_SIZE (concat (map serialize_entry (e # es)) @ r) = concat (map serialize_entry es) @ r"
    using length_serialize_entry[OF e] by simp_all
  then show ?case using Cons deserialize_serialize_entry[OF e, of "[]"] by simp
qed simp

lemma chain_accepted:
  "deserialize_and_verify_chain data = Inr es \<Longrightarrow> list_all entry_ok es \<and> linked 0 zero_hash None es"
  by (auto simp: deserialize_and_verify_chain_def Let_def verify_entries_linked dest: read_entries_ok split: if_splits sum.splits)

section \<open>Writing and verifying\<close>

fun append_all :: "chain_writer \<Rightarrow> (bytes \<times> int) list \<Rightarrow> chain_writer" where
  "append_all w [] = w"
| "append_all w ((data, ts) # recs) = append_all (snd (chain_append w data ts)) recs"

definition next_entry :: "chain_writer \<Rightarrow> bytes \<Rightarrow> int \<Rightarrow> chain_entry" where
  "next_entry w data ts = fst (chain_append w data ts)"

lemma next_entry_facts:
  "he_sequence_number (next_entry w data ts) = cw_next_seq w" "he_timestamp_ns (next_entry w data ts) = ts"
  "he_prev_hash (next_entry w data ts) = cw_last_hash w" "he_data_hash (next_entry w data ts) = sha256 data"
  "he_entry_hash (next_entry w data ts) = sha256 (preimage (next_entry w data ts))"
  by (simp_all add: next_entry_def chain_append_def compute_entry_hash_def Let_def preimage_def)

lemma chain_append_next:
  "snd (chain_append w data ts) = w\<lparr>cw_last_hash := he_entry_hash (next_entry w data ts), cw_next_seq := cw_next_seq w + 1,
     cw_entries := cw_entries w @ [next_entry w data ts]\<rparr>"
  by (simp add: chain_append_def next_entry_def Let_def)

fun entries_from :: "chain_writer \<Rightarrow> (bytes \<times> int) list \<Rightarrow> chain_entry list" where
  "entries_from w [] = []"
| "entries_from w ((data, ts) # recs) = next_entry w data ts # entries_from (snd (chain_append w data ts)) recs"

lemma append_all_entries: "cw_entries (append_all w recs) = cw_entries w @ entries_from w recs"
  by (induction w recs rule: append_all.induct) (simp_all add: chain_append_next)

lemma length_entries_from [simp]: "length (entries_from w recs) = length recs"
  by (induction w recs rule: entries_from.induct) simp_all

lemma entries_from_data: "map he_data_hash (entries_from w recs) = map (\<lambda>(data, ts). sha256 data) recs"
  by (induction w recs rule: entries_from.induct) (simp_all add: next_entry_facts)

lemma entries_from_ok:
  "length (cw_last_hash w) = 32 \<Longrightarrow> 0 \<le> cw_next_seq w \<Longrightarrow> cw_next_seq w + int (length recs) < 2 ^ 63
    \<Longrightarrow> list_all (\<lambda>(data, ts). int64 ts) recs \<Longrightarrow> list_all entry_ok (entries_from w recs)"
proof (induction w recs rule: entries_from.induct)
  case (2 w data ts recs)
  have "entry_ok (next_entry w data ts)"
    using 2(2-) by (simp add: entry_ok_def next_entry_facts int64_def)
  then show ?case using 2 by (simp add: chain_append_next next_entry_facts)
qed simp

lemma entries_from_linked:
  "cw_next_seq w = int i \<Longrightarrow> sorted_wrt (\<le>) ((case t of None \<Rightarrow> [] | Some u \<Rightarrow> [u]) @ map snd recs)
    \<Longrightarrow> linked i (cw_last_hash w) t (entries_from w recs)"
proof (induction w recs arbitrary: i t rule: entries_from.induct)
  case (2 w data ts recs)
  have v: "entry_verify (next_entry w data ts)"
    by (subst entry_verify_iff) (simp_all add: next_entry_facts(5))
  have "linked (Suc i) (he_entry_hash (next_entry w data ts)) (Some ts) (entries_from (snd (chain_append w data ts)) recs)"
    using 2(1)[of "Suc i" "Some ts"] 2(2,3) by (simp add: chain_append_next split: option.splits)
  then show ?case using 2(2,3) v by (auto simp: next_entry_facts split: option.splits)
qed simp

lemma written_chain_accepted:
  assumes "length recs \<le> 0xFFFFFFFF" "sorted (map snd recs)" "list_all (\<lambda>(data, ts). int64 ts) recs"
  shows "\<exists>bs. serialize_chain (append_all chain_writer_new recs) = Some bs
    \<and> deserialize_and_verify_chain (bs @ rest) = Inr (cw_entries (append_all chain_writer_new recs))
    \<and> verify_bytes (bs @ rest) = \<lparr>vr_valid = True, vr_entries_checked = int (length recs), vr_first_bad_index = -1\<rparr>
    \<and> map he_data_hash (cw_entries (append_all chain_writer_new recs)) = map (\<lambda>(data, ts). sha256 data) recs"
proof -
  let ?es = "entries_from chain_writer_new recs"
  let ?bs = "write_le32 (of_nat (length recs)) @ concat (map serialize_entry ?es)"
  have e: "cw_entries (append_all chain_writer_new recs) = ?es" by (simp add: append_all_entries chain_writer_new_def)
  have ok: "list_all entry_ok ?es"
    using entries_from_ok[of chain_writer_new recs] assms by (simp add: chain_writer_new_def zero_hash_def)
  have lk: "linked 0 zero_hash None ?es"
    using entries_from_linked[of chain_writer_new 0 None recs] assms(2) by (simp add: chain_writer_new_def)
  have n: "unat (of_nat (length recs) :: u32) = length recs" using assms(1) by (simp add: unat_of_nat)
  have len: "length (concat (map serialize_entry ?es)) = length recs * HASH_CHAIN_ENTRY_SIZE"
    using ok length_serialize_entry by (simp add: length_concat list_all_iff sum_list_triv cong: map_cong)
  have rd: "read_entries 0 (length recs) (concat (map serialize_entry ?es) @ rest) = Inr ?es"
    using read_entries_serialized[OF ok] by simp
  have v: "verify_entries ?es = \<lparr>vr_valid = True, vr_entries_checked = int (length recs), vr_first_bad_index = -1\<rparr>"
    using verify_loop_accepts[OF lk] by (cases "?es = []") (simp_all add: verify_entries_def del: verify_loop.simps, metis length_0_conv length_entries_from)
  have "serialize_chain (append_all chain_writer_new recs) = Some ?bs" using assms(1) by (simp add: serialize_chain_def e)
  moreover have "deserialize_and_verify_chain (?bs @ rest) = Inr ?es" "verify_bytes (?bs @ rest) = verify_entries ?es"
    using v by (simp_all add: deserialize_and_verify_chain_def verify_bytes_def n len rd Let_def)
  ultimately show ?thesis using e v entries_from_data by auto
qed

text \<open>
  Property C19: a chain built by the writer from records with non-decreasing timestamps is serialised,
  and its bytes are accepted and give back exactly the entries, one per record with the hash of the
  record, whatever follows the bytes.
\<close>
theorem audit_chain_roundtrip:
  assumes "length recs \<le> 0xFFFFFFFF" "sorted (map snd recs)" "list_all (\<lambda>(data, ts). int64 ts) recs"
  shows "\<exists>bs. serialize_chain (append_all chain_writer_new recs) = Some bs
    \<and> deserialize_and_verify_chain (bs @ rest) = Inr (cw_entries (append_all chain_writer_new recs))
    \<and> verify_bytes (bs @ rest) = \<lparr>vr_valid = True, vr_entries_checked = int (length recs), vr_first_bad_index = -1\<rparr>
    \<and> map he_data_hash (cw_entries (append_all chain_writer_new recs)) = map (\<lambda>(data, ts). sha256 data) recs"
  by (rule written_chain_accepted[OF assms])

theorem audit_chain_roundtrip_witness:
  "\<exists>bs. serialize_chain (append_all chain_writer_new [([1, 2], 5), ([3], 5), ([], 9)]) = Some bs
    \<and> deserialize_and_verify_chain (bs @ [0]) = Inr (cw_entries (append_all chain_writer_new [([1, 2], 5), ([3], 5), ([], 9)]))"
proof -
  have "length [([1, 2], 5), ([3], 5), ([], 9)] \<le> 0xFFFFFFFF" "sorted (map snd [([1, 2 :: u8], 5), ([3], 5), ([], 9 :: int)])"
    "list_all (\<lambda>(data, ts). int64 ts) [([1, 2 :: u8], 5), ([3], 5), ([], 9)]"
    by (simp_all add: int64_def)
  from audit_chain_roundtrip[OF this] show ?thesis by blast
qed

text \<open>
  Property C18: two accepted chains of the same length that end with the same entry hash are equal, or
  they contain, at the same position, two different 80-byte strings with the same SHA-256 value.
\<close>
theorem audit_chain_tamper_evident:
  assumes "deserialize_and_verify_chain data = Inr es" "deserialize_and_verify_chain data' = Inr fs"
    and "length es = length fs" "map he_entry_hash (drop (length es - 1) es) = map he_entry_hash (drop (length fs - 1) fs)"
  shows "es = fs \<or> (\<exists>i < length es. preimage (es ! i) \<noteq> preimage (fs ! i) \<and> sha256 (preimage (es ! i)) = sha256 (preimage (fs ! i)))"
proof (rule ccontr)
  assume contra: "\<not> (es = fs \<or> (\<exists>i < length es. preimage (es ! i) \<noteq> preimage (fs ! i) \<and> sha256 (preimage (es ! i)) = sha256 (preimage (fs ! i))))"
  note 1 = chain_accepted[OF assms(1)] and 2 = chain_accepted[OF assms(2)]
  let ?D = "{i. i < length es \<and> es ! i \<noteq> fs ! i}"
  have fin: "finite ?D" and ne: "?D \<noteq> {}" using contra nth_equalityI[OF assms(3)] by simp_all blast
  obtain i where i: "i \<in> ?D" "\<And>j. j \<in> ?D \<Longrightarrow> j \<le> i" using Max_in[OF fin ne] Max_ge[OF fin] by blast
  have il: "i < length es" "i < length fs" using i(1) assms(3) by auto
  have h: "he_entry_hash (es ! i) = he_entry_hash (fs ! i)"
  proof (cases "Suc i < length es")
    case True
    then have "es ! Suc i = fs ! Suc i" using i(2)[of "Suc i"] by auto
    then show ?thesis using True linked_nth[of 0 zero_hash None es "Suc i"] linked_nth[of 0 zero_hash None fs "Suc i"] 1 2 assms(3) by auto
  next
    case False
    then have "i = length es - 1" using il by simp
    then show ?thesis using assms(3,4) il by (simp add: Cons_nth_drop_Suc[symmetric])
  qed
  have ok: "entry_ok (es ! i)" "entry_ok (fs ! i)" using 1 2 il by (simp_all add: list_all_length)
  have v: "entry_verify (es ! i)" "entry_verify (fs ! i)" using linked_nth 1 2 il by blast+
  have "sha256 (preimage (es ! i)) = sha256 (preimage (fs ! i))"
    using v h entry_verify_iff ok by (simp add: entry_ok_def)
  then have "preimage (es ! i) = preimage (fs ! i)" using contra il by blast
  then show False using preimage_inj[OF ok] h i(1) by auto
qed

lemma sample_chain:
  "\<exists>bs. deserialize_and_verify_chain bs = Inr (cw_entries (append_all chain_writer_new [([1, 2], 5), ([3], 6)]))"
proof -
  have "length [([1, 2], 5), ([3], 6)] \<le> 0xFFFFFFFF" "sorted (map snd [([1, 2 :: u8], 5), ([3], 6 :: int)])"
    "list_all (\<lambda>(data, ts). int64 ts) [([1, 2 :: u8], 5), ([3], 6)]"
    by (simp_all add: int64_def)
  from written_chain_accepted[OF this] show ?thesis by blast
qed

theorem audit_chain_tamper_evident_witness:
  "\<exists>bs es. deserialize_and_verify_chain bs = Inr es \<and> length es = 2 \<and>
    (es = es \<or> (\<exists>i < length es. preimage (es ! i) \<noteq> preimage (es ! i) \<and> sha256 (preimage (es ! i)) = sha256 (preimage (es ! i))))"
proof -
  obtain bs where bs: "deserialize_and_verify_chain bs = Inr (cw_entries (append_all chain_writer_new [([1, 2], 5), ([3], 6)]))"
    using sample_chain by blast
  have "length (cw_entries (append_all chain_writer_new [([1, 2], 5), ([3], 6)])) = 2"
    by (simp only: append_all_entries) (simp add: chain_writer_new_def)
  then show ?thesis using audit_chain_tamper_evident[OF bs bs refl refl] bs by blast
qed

text \<open>
  Property C20: whatever list is made from the entries of an accepted chain (by deleting, repeating or
  reordering them), it is accepted only when it is a prefix of the chain; so only truncation at the end
  needs the summary in the file metadata.
\<close>
theorem audit_chain_order:
  assumes "vr_valid (verify_entries es)" "set fs \<subseteq> set es"
  shows "vr_valid (verify_entries fs) \<longleftrightarrow> fs = take (length fs) es"
proof
  assume "vr_valid (verify_entries fs)"
  then have f: "linked 0 zero_hash None fs" by (simp add: verify_entries_linked)
  have e: "linked 0 zero_hash None es" using assms(1) by (simp add: verify_entries_linked)
  have at: "i < length es \<and> fs ! i = es ! i" if i: "i < length fs" for i
  proof -
    obtain j where j: "j < length es" "fs ! i = es ! j" using assms(2) i by (metis in_mono in_set_conv_nth)
    then have "i = j" using linked_nth[OF f i] linked_nth[OF e j(1)] by simp
    then show ?thesis using j by simp
  qed
  then have "length fs \<le> length es" by (metis not_le order_refl less_irrefl)
  then show "fs = take (length fs) es" using at by (intro nth_equalityI) simp_all
next
  assume "fs = take (length fs) es"
  moreover have "linked i p t es \<Longrightarrow> linked i p t (take n es)" for i p t es n
  proof (induction i p t es arbitrary: n rule: linked.induct)
    case (2 i p t e es)
    then show ?case by (cases n) auto
  qed simp
  ultimately show "vr_valid (verify_entries fs)" using assms(1) by (metis verify_entries_linked)
qed

theorem audit_chain_order_witness:
  "\<not> vr_valid (verify_entries (tl (cw_entries (append_all chain_writer_new [([1, 2], 5), ([3], 6)]))))"
proof -
  let ?es = "cw_entries (append_all chain_writer_new [([1, 2], 5), ([3], 6)])"
  have es: "length ?es = 2" by (simp only: append_all_entries) (simp add: chain_writer_new_def)
  have v: "vr_valid (verify_entries ?es)" using sample_chain chain_accepted by (auto simp: verify_entries_linked)
  obtain a b where ab: "?es = [a, b]" using es by (auto simp: length_Suc_conv eval_nat_numeral)
  have "set (tl ?es) \<subseteq> set ?es" unfolding ab by simp
  from audit_chain_order[OF v this] have "vr_valid (verify_entries (tl ?es)) \<longleftrightarrow> tl ?es = take 1 ?es" using es by simp
  moreover have "he_sequence_number a \<noteq> he_sequence_number b"
    using linked_nth[of 0 zero_hash None ?es 0] linked_nth[of 0 zero_hash None ?es 1] v unfolding verify_entries_linked ab by simp
  ultimately show ?thesis unfolding ab by auto
qed

text \<open>
  A chain continued from another file with \<^verbatim>\<open>reset\<close> satisfies \<^verbatim>\<open>verify_continuity\<close>, and both
  \<^verbatim>\<open>verify\<close> and \<^verbatim>\<open>deserialize_and_verify_chain\<close> refuse it at its first entry.
\<close>
theorem continued_chain_refused:
  assumes "recs \<noteq> []" "h \<noteq> zero_hash \<or> sq \<noteq> 0" "length h = 32" "int64 sq"
  shows "verify_entries (cw_entries (append_all (chain_reset w h sq) recs)) = bad_at 0
    \<and> verify_continuity h (cw_entries (append_all (chain_reset w h sq) recs))
    \<and> (\<forall>bs. deserialize_and_verify_chain bs \<noteq> Inr (cw_entries (append_all (chain_reset w h sq) recs)))"
proof -
  obtain data ts recs' where r: "recs = (data, ts) # recs'" using assms(1) by (cases recs) auto
  let ?w = "chain_reset w h sq"
  have e: "cw_entries (append_all ?w recs) = next_entry ?w data ts # entries_from (snd (chain_append ?w data ts)) recs'"
    by (simp only: append_all_entries) (simp add: r chain_reset_def)
  have f: "he_sequence_number (next_entry ?w data ts) = sq" "he_prev_hash (next_entry ?w data ts) = h"
    by (simp_all add: next_entry_facts chain_reset_def)
  have b: "verify_entries (cw_entries (append_all ?w recs)) = bad_at 0"
    unfolding e verify_entries_def using assms(2) f by auto
  then have "\<not> vr_valid (verify_entries (cw_entries (append_all ?w recs)))" by (simp add: bad_at_def)
  then have "deserialize_and_verify_chain bs \<noteq> Inr (cw_entries (append_all ?w recs))" for bs
    using chain_accepted verify_entries_linked by blast
  moreover have "verify_continuity h (cw_entries (append_all ?w recs))" unfolding e verify_continuity_def using f by simp
  ultimately show ?thesis using b by blast
qed

theorem continued_chain_refused_witness:
  "verify_entries (cw_entries (append_all (chain_reset chain_writer_new (sha256 []) 3) [([7], 1)])) = bad_at 0"
  using continued_chain_refused[of "[([7], 1)]" "sha256 []" 3 chain_writer_new] by (simp add: int64_def)

section \<open>The summary in the file metadata\<close>

lemma hex_char_cases: "n < 16 \<Longrightarrow> n \<in> {0, 1, 2, 3, 4, 5, 6, 7, 8, 9, 10, 11, 12, 13, 14, 15 :: nat}"
  by (auto simp: eval_nat_numeral less_Suc_eq)

lemma hex_char_val: "n < 16 \<Longrightarrow> hex_val (hex_char n) = int n" "n < 16 \<Longrightarrow> hex_char n \<noteq> CHR '';''"
  using hex_char_cases[of n] by (auto simp: hex_char_def hex_val_def)

lemma nibble_bounds: "unat (b AND 0x0F) < 16" "unat (drop_bit 4 b AND 0x0F) < 16" for b :: u8
proof -
  have m: "w AND 0x0F = take_bit 4 w" for w :: u8 by (simp add: take_bit_eq_mask mask_eq_exp_minus_1)
  have "unat (take_bit 4 w) < 2 ^ 4" for w :: u8 by (simp only: unsigned_take_bit_eq take_bit_nat_less_exp)
  then show "unat (b AND 0x0F) < 16" "unat (drop_bit 4 b AND 0x0F) < 16" unfolding m by simp_all
qed

lemma nibbles_join: "push_bit 4 (drop_bit 4 b AND 0x0F) OR (b AND 0x0F) = b" for b :: u8
proof -
  have m: "(0x0F :: u8) = mask 4" by (simp add: mask_eq_exp_minus_1)
  show ?thesis unfolding m
    by (rule bit_word_eqI) (auto simp: bit_or_iff bit_push_bit_iff bit_and_iff bit_drop_bit_eq bit_access)
qed

lemma hex_pairs_hash: "hex_pairs (hash_to_hex h) = Inr h"
proof (induction h)
  case (Cons b h)
  have w: "word_of_int (int (unat x)) = (x :: u8)" for x by simp
  have "hash_to_hex (b # h) = hex_char (unat (drop_bit 4 b AND 0x0F)) # hex_char (unat (b AND 0x0F)) # hash_to_hex h"
    by (simp add: hash_to_hex_def)
  then show ?case using Cons nibble_bounds[of b]
    by (simp only: hex_pairs.simps hex_char_val(1) w nibbles_join) simp
qed (simp add: hash_to_hex_def)

lemma length_hash_to_hex: "length (hash_to_hex h) = 2 * length h"
  by (induction h) (simp_all add: hash_to_hex_def)

lemma hex_hash: "length h = 32 \<Longrightarrow> hex_to_hash (hash_to_hex h) = Inr h"
  by (simp add: hex_to_hash_def length_hash_to_hex hex_pairs_hash)

lemma hash_to_hex_chars: "CHR '';'' \<notin> set (hash_to_hex h)"
  using hex_char_val(2)[OF nibble_bounds(1)] hex_char_val(2)[OF nibble_bounds(2)] by (fastforce simp: hash_to_hex_def)

lemma int_to_string_no_semicolon: "CHR '';'' \<notin> set (int_to_string i)"
  using int_to_string_chars[of "CHR '';''" i] by (auto simp: is_digit_def)

lemma parse_pairs_step:
  assumes "CHR '';'' \<notin> set k" "CHR ''='' \<notin> set k" "CHR '';'' \<notin> set v"
  shows "parse_pairs (k @ CHR ''='' # v @ CHR '';'' # r) = (k, v) # parse_pairs r"
    and "parse_pairs (k @ CHR ''='' # v) = [(k, v)]"
proof -
  let ?t = "k @ CHR ''='' # v"
  have t: "takeWhile (\<lambda>c. c \<noteq> CHR '';'') (?t @ CHR '';'' # r) = ?t" "takeWhile (\<lambda>c. c \<noteq> CHR '';'') ?t = ?t"
    using assms by (auto simp: takeWhile_eq_all_conv takeWhile_append)
  have k: "takeWhile (\<lambda>c. c \<noteq> CHR ''='') ?t = k" using assms(2) by (auto simp: takeWhile_append takeWhile_eq_all_conv)
  have "split_token ?t = [(k, v)]" by (simp add: split_token_def k)
  then show "parse_pairs (k @ CHR ''='' # v @ CHR '';'' # r) = (k, v) # parse_pairs r" "parse_pairs ?t = [(k, v)]"
    using parse_pairs.simps[of "?t @ CHR '';'' # r"] parse_pairs.simps[of ?t] parse_pairs.simps[of "[]"] t by simp_all
qed

lemma parse_rest:
  assumes "CHR '';'' \<notin> set (am_created_by m)"
  shows "parse_pairs (''start_seq'' @ CHR ''='' # int_to_string (am_start_sequence m) @ CHR '';''
       # ''end_seq'' @ CHR ''='' # int_to_string (am_end_sequence m) @ CHR '';''
       # ''first_prev'' @ CHR ''='' # hash_to_hex (am_first_prev_hash m) @ CHR '';''
       # ''last_hash'' @ CHR ''='' # hash_to_hex (am_last_entry_hash m) @ CHR '';''
       # ''created_by'' @ CHR ''='' # am_created_by m)
     = [(''start_seq'', int_to_string (am_start_sequence m)), (''end_seq'', int_to_string (am_end_sequence m)),
        (''first_prev'', hash_to_hex (am_first_prev_hash m)), (''last_hash'', hash_to_hex (am_last_entry_hash m)),
        (''created_by'', am_created_by m)]"
proof -
  have k: "CHR '';'' \<notin> set ''start_seq''" "CHR ''='' \<notin> set ''start_seq''" "CHR '';'' \<notin> set ''end_seq''" "CHR ''='' \<notin> set ''end_seq''"
    "CHR '';'' \<notin> set ''first_prev''" "CHR ''='' \<notin> set ''first_prev''" "CHR '';'' \<notin> set ''last_hash''" "CHR ''='' \<notin> set ''last_hash''"
    "CHR '';'' \<notin> set ''created_by''" "CHR ''='' \<notin> set ''created_by''" by simp_all
  show ?thesis
    by (simp only: parse_pairs_step(1)[OF k(1,2) int_to_string_no_semicolon] parse_pairs_step(1)[OF k(3,4) int_to_string_no_semicolon]
        parse_pairs_step(1)[OF k(5,6) hash_to_hex_chars] parse_pairs_step(1)[OF k(7,8) hash_to_hex_chars]
        parse_pairs_step(2)[OF k(9,10) assms])
qed

lemma serialize_metadata_tokens:
  "serialize_metadata m = ''chain_id'' @ CHR ''='' # am_chain_id m @ CHR '';''
       # ''start_seq'' @ CHR ''='' # int_to_string (am_start_sequence m) @ CHR '';''
       # ''end_seq'' @ CHR ''='' # int_to_string (am_end_sequence m) @ CHR '';''
       # ''first_prev'' @ CHR ''='' # hash_to_hex (am_first_prev_hash m) @ CHR '';''
       # ''last_hash'' @ CHR ''='' # hash_to_hex (am_last_entry_hash m) @ CHR '';''
       # ''created_by'' @ CHR ''='' # am_created_by m"
  by (simp add: serialize_metadata_def)

definition metadata_ok :: "audit_metadata \<Rightarrow> bool" where
  "metadata_ok m \<longleftrightarrow> CHR '';'' \<notin> set (am_created_by m) \<and> int64 (am_start_sequence m) \<and> int64 (am_end_sequence m)
     \<and> length (am_first_prev_hash m) = 32 \<and> length (am_last_entry_hash m) = 32"

text \<open>
  The summary in text form is read back (the six fields that it holds) when the chain
  identifier has no semicolon; an identifier that has one is cut there, and what follows it overrides the
  real fields: an identifier ending in \<^verbatim>\<open>;last_hash=\<close> and a hash makes the reader report that hash.
\<close>
theorem audit_metadata_roundtrip:
  assumes "metadata_ok m" "CHR '';'' \<notin> set c" "length h = 32"
  shows "deserialize_metadata (serialize_metadata (m\<lparr>am_chain_id := c\<rparr>)) = Inr (default_metadata\<lparr>am_chain_id := c,
      am_start_sequence := am_start_sequence m, am_end_sequence := am_end_sequence m,
      am_first_prev_hash := am_first_prev_hash m, am_last_entry_hash := am_last_entry_hash m, am_created_by := am_created_by m\<rparr>)
    \<and> deserialize_metadata (serialize_metadata (m\<lparr>am_chain_id := c @ '';last_hash='' @ hash_to_hex h\<rparr>)) = Inr (default_metadata\<lparr>am_chain_id := c,
      am_start_sequence := am_start_sequence m, am_end_sequence := am_end_sequence m,
      am_first_prev_hash := am_first_prev_hash m, am_last_entry_hash := h, am_created_by := am_created_by m\<rparr>)"
proof -
  have k: "CHR '';'' \<notin> set ''chain_id''" "CHR ''='' \<notin> set ''chain_id''" "CHR '';'' \<notin> set ''last_hash''" "CHR ''='' \<notin> set ''last_hash''"
    by simp_all
  note m = assms(1)[unfolded metadata_ok_def]
  let ?m = "m\<lparr>am_chain_id := c\<rparr>" and ?n = "m\<lparr>am_chain_id := c @ '';last_hash='' @ hash_to_hex h\<rparr>"
  have r: "CHR '';'' \<notin> set (am_created_by ?m)" "CHR '';'' \<notin> set (am_created_by ?n)" using m by simp_all
  have 1: "parse_pairs (serialize_metadata ?m) = (''chain_id'', c) # [(''start_seq'', int_to_string (am_start_sequence m)),
        (''end_seq'', int_to_string (am_end_sequence m)), (''first_prev'', hash_to_hex (am_first_prev_hash m)),
        (''last_hash'', hash_to_hex (am_last_entry_hash m)), (''created_by'', am_created_by m)]"
    unfolding serialize_metadata_tokens using parse_pairs_step(1)[OF k(1,2) assms(2)] parse_rest[OF r(1)] by simp
  have a: "am_chain_id ?n @ CHR '';'' # x = c @ CHR '';'' # ''last_hash'' @ CHR ''='' # hash_to_hex h @ CHR '';'' # x" for x by simp
  have 2: "parse_pairs (serialize_metadata ?n) = (''chain_id'', c) # (''last_hash'', hash_to_hex h) # [(''start_seq'', int_to_string (am_start_sequence m)),
        (''end_seq'', int_to_string (am_end_sequence m)), (''first_prev'', hash_to_hex (am_first_prev_hash m)),
        (''last_hash'', hash_to_hex (am_last_entry_hash m)), (''created_by'', am_created_by m)]"
    unfolding serialize_metadata_tokens a
      parse_pairs_step(1)[OF k(1,2) assms(2)] parse_pairs_step(1)[OF k(3,4) hash_to_hex_chars] parse_rest[OF r(2)] by simp
  have s: "stoll (int_to_string (am_start_sequence m)) = Some (am_start_sequence m)" "stoll (int_to_string (am_end_sequence m)) = Some (am_end_sequence m)"
    "hex_to_hash (hash_to_hex (am_first_prev_hash m)) = Inr (am_first_prev_hash m)"
    "hex_to_hash (hash_to_hex (am_last_entry_hash m)) = Inr (am_last_entry_hash m)" "hex_to_hash (hash_to_hex h) = Inr h"
    using m assms(3) by (simp_all add: stoll_int hex_hash)
  show ?thesis unfolding deserialize_metadata_def 1 2 by (simp add: s)
qed

theorem audit_metadata_roundtrip_witness:
  "deserialize_metadata (serialize_metadata (default_metadata\<lparr>am_chain_id := ''c1;last_hash='' @ hash_to_hex (replicate 32 0xAB)\<rparr>))
    = Inr (default_metadata\<lparr>am_chain_id := ''c1'', am_last_entry_hash := replicate 32 0xAB\<rparr>)"
proof -
  have ok: "metadata_ok default_metadata"
    by (simp add: metadata_ok_def default_metadata_def SIGNET_CREATED_BY_def int64_def zero_hash_def)
  have c: "CHR '';'' \<notin> set ''c1''" "length (replicate 32 (0xAB :: u8)) = 32" by simp_all
  show ?thesis using audit_metadata_roundtrip[OF ok c] by (simp add: default_metadata_def)
qed

end
