(* ===== verification/Thrift.thy ===== *)
theory Thrift
  imports Varint
begin

text \<open>
  The Thrift Compact Protocol of \<^verbatim>\<open>include/signet/thrift/compact.hpp\<close>: the encoder and the decoder
  with their stacks of field numbers, the decoder's sticky error flag, its limits and the skipping of
  unknown fields.  A 16-bit field number is a \<open>16 word\<close>, 32- and 64-bit values are words (a
  \<^verbatim>\<open>double\<close> is its IEEE bit pattern).  An encoder operation gives \<open>None\<close> where the code throws.
\<close>

type_synonym i16 = "16 word"

section \<open>Wire types\<close>

definition T_STOP :: u8 where "T_STOP = 0"
definition T_TRUE :: u8 where "T_TRUE = 1"
definition T_FALSE :: u8 where "T_FALSE = 2"
definition T_I8 :: u8 where "T_I8 = 3"
definition T_I16 :: u8 where "T_I16 = 4"
definition T_I32 :: u8 where "T_I32 = 5"
definition T_I64 :: u8 where "T_I64 = 6"
definition T_DOUBLE :: u8 where "T_DOUBLE = 7"
definition T_BINARY :: u8 where "T_BINARY = 8"
definition T_LIST :: u8 where "T_LIST = 9"
definition T_SET :: u8 where "T_SET = 10"
definition T_MAP :: u8 where "T_MAP = 11"
definition T_STRUCT :: u8 where "T_STRUCT = 12"

lemmas wire_types = T_STOP_def T_TRUE_def T_FALSE_def T_I8_def T_I16_def T_I32_def T_I64_def T_DOUBLE_def
  T_BINARY_def T_LIST_def T_SET_def T_MAP_def T_STRUCT_def

definition MAX_STRING_BYTES :: nat where "MAX_STRING_BYTES = 64 * 1024 * 1024"
definition MAX_NESTING_DEPTH :: nat where "MAX_NESTING_DEPTH = 64"
definition MAX_FIELD_COUNT :: nat where "MAX_FIELD_COUNT = 65536"
definition MAX_TOTAL_FIELDS :: nat where "MAX_TOTAL_FIELDS = 1000000"
definition MAX_COLLECTION_SIZE :: nat where "MAX_COLLECTION_SIZE = 1000000"

section \<open>CompactEncoder\<close>

record compact_encoder =
  ebuf :: bytes
  eids :: "i16 list"

type_synonym writer = "compact_encoder \<Rightarrow> compact_encoder option"

definition encoder_new :: compact_encoder where
  "encoder_new = \<lparr>ebuf = [], eids = [0]\<rparr>"

definition append_bytes :: "bytes \<Rightarrow> compact_encoder \<Rightarrow> compact_encoder" where
  "append_bytes bs e = e\<lparr>ebuf := ebuf e @ bs\<rparr>"

function write_varint :: "'a::len word \<Rightarrow> compact_encoder \<Rightarrow> compact_encoder" where
  "write_varint val e =
     (if unat val > 0x7F then write_varint (drop_bit 7 val) (append_bytes [ucast (val AND 0x7F) OR 0x80] e)
      else append_bytes [ucast val] e)"
  by pat_completeness auto
termination
  by (relation "measure (\<lambda>(v, e). unat v)") (auto simp: unat_drop_bit)

declare write_varint.simps [simp del]

definition zigzag_encode_i32 :: "u32 \<Rightarrow> u32" where
  "zigzag_encode_i32 val = push_bit 1 val XOR signed_drop_bit 31 val"

definition zigzag_encode_i64 :: "u64 \<Rightarrow> u64" where
  "zigzag_encode_i64 val = push_bit 1 val XOR signed_drop_bit 63 val"

definition write_zigzag_i16 :: "i16 \<Rightarrow> compact_encoder \<Rightarrow> compact_encoder" where
  "write_zigzag_i16 val e = write_varint (zigzag_encode_i32 (scast val)) e"

definition write_field :: "i16 \<Rightarrow> u8 \<Rightarrow> writer" where
  "write_field field_id thrift_type e =
     (let delta = field_id - hd (eids e);
          e' = (if 0 < sint delta \<and> sint delta \<le> 15 then append_bytes [push_bit 4 (ucast delta) OR thrift_type] e
                else write_zigzag_i16 field_id (append_bytes [thrift_type] e))
      in Some (e'\<lparr>eids := field_id # tl (eids e)\<rparr>))"

definition write_field_bool :: "i16 \<Rightarrow> bool \<Rightarrow> writer" where
  "write_field_bool field_id val e =
     (let thrift_type = (if val then T_TRUE else T_FALSE);
          delta = field_id - hd (eids e);
          e' = (if 0 < sint delta \<and> sint delta \<le> 15 then append_bytes [push_bit 4 (ucast delta) OR thrift_type] e
                else write_zigzag_i16 field_id (append_bytes [thrift_type] e))
      in Some (e'\<lparr>eids := field_id # tl (eids e)\<rparr>))"

definition write_stop :: writer where "write_stop e = Some (append_bytes [0] e)"
definition enc_begin_struct :: writer where "enc_begin_struct e = Some (e\<lparr>eids := 0 # eids e\<rparr>)"
definition enc_end_struct :: writer where "enc_end_struct e = Some (e\<lparr>eids := tl (eids e)\<rparr>)"

definition write_bool :: "bool \<Rightarrow> writer" where "write_bool val e = Some (append_bytes [if val then 1 else 0] e)"
definition write_i8 :: "u8 \<Rightarrow> writer" where "write_i8 val e = Some (append_bytes [val] e)"
definition write_i32 :: "u32 \<Rightarrow> writer" where "write_i32 val e = Some (write_varint (zigzag_encode_i32 val) e)"
definition write_i64 :: "u64 \<Rightarrow> writer" where "write_i64 val e = Some (write_varint (zigzag_encode_i64 val) e)"

definition write_double :: "u64 \<Rightarrow> writer" where
  "write_double v e = Some (append_bytes (map (\<lambda>i. ucast (drop_bit (i * 8) v AND 0xFF)) [0..<8]) e)"

definition write_float :: "u32 \<Rightarrow> writer" where
  "write_float v e = Some (append_bytes (map (\<lambda>i. ucast (drop_bit (i * 8) v AND 0xFF)) [0..<4]) e)"

definition write_string :: "bytes \<Rightarrow> writer" where
  "write_string val e =
     (if length val > MAX_STRING_BYTES then None
      else Some (append_bytes val (write_varint (of_nat (length val) :: u32) e)))"

definition write_binary :: "bytes \<Rightarrow> writer" where
  "write_binary val e =
     (if length val > MAX_STRING_BYTES then None
      else Some (append_bytes val (write_varint (of_nat (length val) :: u32) e)))"

definition write_list_header :: "u8 \<Rightarrow> u32 \<Rightarrow> writer" where
  "write_list_header elem_type n e =
     (if sint n < 0 then None
      else if sint n \<le> 14 then Some (append_bytes [ucast (push_bit 4 n) OR elem_type] e)
      else Some (write_varint n (append_bytes [0xF0 OR elem_type] e)))"

definition encoder_clear :: "compact_encoder \<Rightarrow> compact_encoder" where
  "encoder_clear e = e\<lparr>ebuf := [], eids := [0]\<rparr>"

text \<open>Calls on one encoder, one after the other.\<close>

fun run :: "writer list \<Rightarrow> writer" where
  "run [] e = Some e"
| "run (w # ws) e = (case w e of None \<Rightarrow> None | Some e' \<Rightarrow> run ws e')"

section \<open>CompactDecoder\<close>

record compact_decoder =
  dbuf :: bytes
  dpos :: nat
  derr :: bool
  dbool :: bool
  dbool_valid :: bool
  dids :: "i16 list"
  dcount :: nat
  dtotal :: nat

definition decoder_new :: "bytes \<Rightarrow> compact_decoder" where
  "decoder_new bs = \<lparr>dbuf = bs, dpos = 0, derr = False, dbool = False, dbool_valid = False, dids = [0], dcount = 0, dtotal = 0\<rparr>"

definition fail :: "compact_decoder \<Rightarrow> compact_decoder" where "fail d = d\<lparr>derr := True\<rparr>"
definition good :: "compact_decoder \<Rightarrow> bool" where "good d \<longleftrightarrow> \<not> derr d"
definition advance :: "nat \<Rightarrow> compact_decoder \<Rightarrow> compact_decoder" where "advance n d = d\<lparr>dpos := dpos d + n\<rparr>"

definition remaining :: "compact_decoder \<Rightarrow> nat" where
  "remaining d = (if dpos d \<le> length (dbuf d) then length (dbuf d) - dpos d else 0)"

text \<open>The test of \<^verbatim>\<open>ensure\<close>; every caller sets the error flag when it fails.\<close>

definition ensure :: "compact_decoder \<Rightarrow> nat \<Rightarrow> bool" where
  "ensure d n \<longleftrightarrow> \<not> (derr d \<or> n > length (dbuf d) \<or> dpos d > length (dbuf d) - n)"

fun read_varint :: "nat \<Rightarrow> nat \<Rightarrow> 'a::len word \<Rightarrow> compact_decoder \<Rightarrow> 'a word \<times> compact_decoder" where
  "read_varint 0 shift result d = (0, fail d)"
| "read_varint (Suc k) shift result d =
     (if \<not> ensure d 1 then (0, fail d)
      else let byte = dbuf d ! dpos d;
               result' = result OR push_bit shift (ucast (byte AND 0x7F))
           in if byte AND 0x80 = 0 then (result', advance 1 d)
              else read_varint k (shift + 7) result' (advance 1 d))"

definition read_varint32 :: "compact_decoder \<Rightarrow> u32 \<times> compact_decoder" where
  "read_varint32 d = read_varint 5 0 0 d"

definition read_varint64 :: "compact_decoder \<Rightarrow> u64 \<times> compact_decoder" where
  "read_varint64 d = read_varint 10 0 0 d"

definition read_zigzag_i32 :: "compact_decoder \<Rightarrow> u32 \<times> compact_decoder" where
  "read_zigzag_i32 d = (let (raw, d') = read_varint32 d in (drop_bit 1 raw XOR (- (raw AND 1)), d'))"

definition read_zigzag_i64 :: "compact_decoder \<Rightarrow> u64 \<times> compact_decoder" where
  "read_zigzag_i64 d = (let (raw, d') = read_varint64 d in (drop_bit 1 raw XOR (- (raw AND 1)), d'))"

definition read_field_header :: "compact_decoder \<Rightarrow> (i16 \<times> u8) \<times> compact_decoder" where
  "read_field_header d =
     (if \<not> ensure d 1 then ((0, 0), fail d)
      else let byte = dbuf d ! dpos d; d1 = advance 1 d in
        if byte = 0 then ((0, 0), d1)
        else let typ = byte AND 0x0F;
                 delta = drop_bit 4 byte AND 0x0F;
                 (field_id, d2) = (if delta \<noteq> 0 then (hd (dids d1) + ucast delta, d1)
                                   else let (id32, d') = read_zigzag_i32 d1 in (ucast id32, d'));
                 d3 = d2\<lparr>dids := field_id # tl (dids d2)\<rparr>;
                 d4 = (if typ = T_TRUE then d3\<lparr>dbool := True, dbool_valid := True\<rparr>
                       else if typ = T_FALSE then d3\<lparr>dbool := False, dbool_valid := True\<rparr> else d3);
                 d5 = d4\<lparr>dcount := dcount d4 + 1\<rparr>
             in if dcount d5 > MAX_FIELD_COUNT then ((0, 0), fail d5)
                else let d6 = d5\<lparr>dtotal := dtotal d5 + 1\<rparr> in
                  if dtotal d6 > MAX_TOTAL_FIELDS then ((0, 0), fail d6) else ((field_id, typ), d6))"

definition is_stop :: "i16 \<times> u8 \<Rightarrow> bool" where
  "is_stop h \<longleftrightarrow> fst h = 0 \<and> snd h = 0"

definition read_bool :: "compact_decoder \<Rightarrow> bool \<times> compact_decoder" where
  "read_bool d =
     (if dbool_valid d then (dbool d, d\<lparr>dbool_valid := False\<rparr>)
      else if \<not> ensure d 1 then (False, fail d)
      else (dbuf d ! dpos d \<noteq> 0, advance 1 d))"

definition read_i8 :: "compact_decoder \<Rightarrow> u8 \<times> compact_decoder" where
  "read_i8 d = (if \<not> ensure d 1 then (0, fail d) else (dbuf d ! dpos d, advance 1 d))"

definition read_i32 :: "compact_decoder \<Rightarrow> u32 \<times> compact_decoder" where "read_i32 = read_zigzag_i32"
definition read_i64 :: "compact_decoder \<Rightarrow> u64 \<times> compact_decoder" where "read_i64 = read_zigzag_i64"

definition read_double :: "compact_decoder \<Rightarrow> u64 \<times> compact_decoder" where
  "read_double d =
     (if \<not> ensure d 8 then (0, fail d)
      else (fold (\<lambda>i v. v OR push_bit (i * 8) (ucast (dbuf d ! (dpos d + i)))) [0..<8] 0, advance 8 d))"

definition read_float :: "compact_decoder \<Rightarrow> u32 \<times> compact_decoder" where
  "read_float d =
     (if \<not> ensure d 4 then (0, fail d)
      else (fold (\<lambda>i v. v OR push_bit (i * 8) (ucast (dbuf d ! (dpos d + i)))) [0..<4] 0, advance 4 d))"

definition read_string :: "compact_decoder \<Rightarrow> bytes \<times> compact_decoder" where
  "read_string d =
     (let (len, d1) = read_varint32 d; n = unat len in
      if n > MAX_STRING_BYTES then ([], fail d1)
      else if \<not> ensure d1 n then ([], fail d1)
      else (take n (drop (dpos d1) (dbuf d1)), advance n d1))"

definition read_binary :: "compact_decoder \<Rightarrow> bytes \<times> compact_decoder" where
  "read_binary d =
     (let (len, d1) = read_varint32 d; n = unat len in
      if n > MAX_STRING_BYTES then ([], fail d1)
      else if \<not> ensure d1 n then ([], fail d1)
      else (take n (drop (dpos d1) (dbuf d1)), advance n d1))"

definition read_list_header :: "compact_decoder \<Rightarrow> (u8 \<times> nat) \<times> compact_decoder" where
  "read_list_header d =
     (if \<not> ensure d 1 then ((0, 0), fail d)
      else let byte = dbuf d ! dpos d; d1 = advance 1 d;
               elem_type = byte AND 0x0F;
               n = unat (drop_bit 4 byte AND 0x0F)
           in if n = 15 then
                let (raw, d2) = read_varint32 d1 in
                  if unat raw > 0x7FFFFFFF then ((0, 0), fail d2)
                  else if unat raw > MAX_COLLECTION_SIZE then ((0, 0), fail d2)
                  else ((elem_type, unat raw), d2)
              else ((elem_type, n), d1))"

definition begin_struct :: "compact_decoder \<Rightarrow> compact_decoder" where
  "begin_struct d =
     (if length (dids d) \<ge> MAX_NESTING_DEPTH then fail d else d\<lparr>dids := 0 # dids d, dcount := 0\<rparr>)"

definition end_struct :: "compact_decoder \<Rightarrow> compact_decoder" where
  "end_struct d = (if dids d = [] then fail d else d\<lparr>dids := tl (dids d)\<rparr>)"

definition skip_bytes :: "nat \<Rightarrow> compact_decoder \<Rightarrow> compact_decoder" where
  "skip_bytes n d = (if ensure d n then advance n d else fail d)"

text \<open>A counted loop that stops when the decoder has failed.\<close>

fun repeat_while_good :: "nat \<Rightarrow> (compact_decoder \<Rightarrow> compact_decoder option) \<Rightarrow> compact_decoder \<Rightarrow> compact_decoder option" where
  "repeat_while_good 0 f d = Some d"
| "repeat_while_good (Suc k) f d =
     (if \<not> good d then Some d else case f d of None \<Rightarrow> None | Some d' \<Rightarrow> repeat_while_good k f d')"

text \<open>
  \<^verbatim>\<open>skip_field\<close> calls itself for the elements of containers.  The first argument bounds the number of
  calls in progress; \<open>None\<close> is running out of it.
\<close>

fun skip_field :: "nat \<Rightarrow> u8 \<Rightarrow> compact_decoder \<Rightarrow> compact_decoder option"
  and skip_fields :: "nat \<Rightarrow> compact_decoder \<Rightarrow> compact_decoder option" where
  "skip_field 0 t d = None"
| "skip_fields 0 d = None"
| "skip_field (Suc f) t d =
     (if t = T_TRUE \<or> t = T_FALSE then Some d
      else if t = T_I8 then Some (skip_bytes 1 d)
      else if t = T_I16 \<or> t = T_I32 then Some (snd (read_varint32 d))
      else if t = T_I64 then Some (snd (read_varint64 d))
      else if t = T_DOUBLE then Some (skip_bytes 8 d)
      else if t = T_BINARY then (let (len, d1) = read_varint32 d in Some (skip_bytes (unat len) d1))
      else if t = T_LIST \<or> t = T_SET then
        (let ((elem_type, n), d1) = read_list_header d
         in repeat_while_good n (\<lambda>d. skip_field f elem_type d) d1)
      else if t = T_MAP then
        (let (map_size, d1) = read_varint32 d in
         if map_size = 0 then Some d1
         else if unat map_size > MAX_COLLECTION_SIZE then Some (fail d1)
         else if \<not> ensure d1 1 then Some (fail d1)
         else let kv_types = dbuf d1 ! dpos d1; d2 = advance 1 d1;
                  key_type = drop_bit 4 kv_types AND 0x0F; val_type = kv_types AND 0x0F
              in repeat_while_good (unat map_size)
                   (\<lambda>d. case skip_field f key_type d of None \<Rightarrow> None | Some d' \<Rightarrow> skip_field f val_type d') d2)
      else if t = T_STRUCT then
        (case skip_fields f (begin_struct d) of None \<Rightarrow> None | Some d1 \<Rightarrow> Some (end_struct d1))
      else Some (fail d))"
| "skip_fields (Suc f) d =
     (if \<not> good d then Some d
      else let (fh, d1) = read_field_header d in
        if is_stop fh then Some d1
        else case skip_field f (snd fh) d1 of None \<Rightarrow> None | Some d2 \<Rightarrow> skip_fields f d2)"

text \<open>With this much fuel the recursion always ends (\<open>skip_terminates\<close>).\<close>

definition skip :: "u8 \<Rightarrow> compact_decoder \<Rightarrow> compact_decoder" where
  "skip t d = (case skip_field (2 * remaining d + 2) t d of Some d' \<Rightarrow> d' | None \<Rightarrow> fail d)"

section \<open>What the encoder appends\<close>

lemma append_bytes_emit [simp]: "append_bytes bs (append_bytes as e) = append_bytes (as @ bs) e" and append_bytes_Nil [simp]: "append_bytes [] e = e"
  by (simp_all add: append_bytes_def)

lemma append_bytes_facts [simp]: "eids (append_bytes bs e) = eids e" "ebuf (append_bytes bs e) = ebuf e @ bs"
  by (simp_all add: append_bytes_def)

lemma write_varint_leb: "8 \<le> LENGTH('a::len) \<Longrightarrow> write_varint (v :: 'a word) e = append_bytes (leb (unat v)) e"
proof (induction v e rule: write_varint.induct)
  case (1 v e)
  then show ?case
    by (cases "unat v > 0x7F")
      (simp_all add: write_varint.simps[of v e] leb_small leb_large low_byte unat_drop_bit)
qed

lemma zigzag_i32 [simp]: "zigzag_encode_i32 = zigzag_encode32" and zigzag_i64 [simp]: "zigzag_encode_i64 = zigzag_encode"
  by (simp_all add: fun_eq_iff zigzag_encode_i32_def zigzag_encode32_def zigzag_encode_i64_def zigzag_encode_def)

lemma neg_eq_not_plus: "- w = NOT w + 1" for w :: "'a::len word"
  by (simp add: minus_eq_not_plus_1)

text \<open>A field header behind the field number \<open>prev\<close>.\<close>

definition header_bytes :: "i16 \<Rightarrow> i16 \<Rightarrow> u8 \<Rightarrow> bytes" where
  "header_bytes prev fid t =
     (if 0 < sint (fid - prev) \<and> sint (fid - prev) \<le> 15 then [push_bit 4 (ucast (fid - prev)) OR t]
      else t # leb (unat (zigzag_encode32 (scast fid))))"

lemma write_field_bytes:
  "eids e = prev # ids \<Longrightarrow> write_field fid t e = Some ((append_bytes (header_bytes prev fid t) e)\<lparr>eids := fid # ids\<rparr>)"
  "eids e = prev # ids \<Longrightarrow> write_field_bool fid b e
    = Some ((append_bytes (header_bytes prev fid (if b then T_TRUE else T_FALSE)) e)\<lparr>eids := fid # ids\<rparr>)"
  by (simp_all add: write_field_def write_field_bool_def header_bytes_def write_zigzag_i16_def write_varint_leb Let_def)

section \<open>What the decoder reads\<close>

definition at :: "compact_decoder \<Rightarrow> bytes \<Rightarrow> bool" where
  "at d rest \<longleftrightarrow> \<not> derr d \<and> dpos d \<le> length (dbuf d) \<and> drop (dpos d) (dbuf d) = rest"

lemma at_length: "at d rest \<Longrightarrow> dpos d + length rest = length (dbuf d)"
  by (auto simp: at_def)

lemma at_advance: "at d (bs @ rest) \<Longrightarrow> at (advance (length bs) d) rest"
  using at_length[of d "bs @ rest"] by (auto simp: at_def advance_def drop_drop[symmetric] add.commute simp del: drop_drop)

lemma at_byte: "at d (b # rest) \<Longrightarrow> dbuf d ! dpos d = b"
  by (auto simp: at_def nth_via_drop)

lemma at_ensure: "at d (bs @ rest) \<Longrightarrow> ensure d (length bs)"
  using at_length[of d "bs @ rest"] by (auto simp: at_def ensure_def)

lemma at_ensure1: "at d (b # rest) \<Longrightarrow> ensure d 1"
  using at_ensure[of d "[b]" rest] by simp

lemma advance_advance [simp]: "advance m (advance n d) = advance (n + m) d" and advance_0 [simp]: "advance 0 d = d"
  by (simp_all add: advance_def add.assoc)

lemma advance_facts [simp]: "dbuf (advance n d) = dbuf d" "derr (advance n d) = derr d" "dids (advance n d) = dids d"
  "dcount (advance n d) = dcount d" "dtotal (advance n d) = dtotal d" "dbool_valid (advance n d) = dbool_valid d"
  "dbool (advance n d) = dbool d"
  by (simp_all add: advance_def)

lemma read_varint_leb:
  assumes "at d (leb n @ rest)" "n < 2 ^ (7 * k)" "0 < k"
  shows "read_varint k shift r d = (r OR push_bit shift (of_nat n), advance (length (leb n)) d)"
  using assms
proof (induction n arbitrary: d r shift k rule: leb.induct)
  case (1 n)
  from 1(4) obtain k' where k: "k = Suc k'" by (cases k) auto
  show ?case
  proof (cases "n < 128")
    case True
    then show ?thesis using 1(2) at_ensure1 at_byte by (simp add: k leb_small last_byte)
  next
    case False
    with 1(3) k have "0 < k'" by (cases k') auto
    moreover have "n div 128 < 2 ^ (7 * k')" using 1(3) by (simp add: k power_add less_mult_imp_div_less mult.commute)
    moreover have "at d (cont_byte n # leb (n div 128) @ rest)" using 1(2) False by (simp add: leb_large)
    moreover from this have "at (advance 1 d) (leb (n div 128) @ rest)" using at_advance[of d "[cont_byte n]"] by simp
    ultimately show ?thesis
      using False 1(1)[OF False, of "advance 1 d" k' "shift + 7" "r OR push_bit shift (of_nat (n mod 128))"] at_ensure1 at_byte
      by (simp add: k leb_large more_byte accumulate)
  qed
qed

lemma read_varint_at:
  "at d (leb (unat (v :: u32)) @ rest) \<Longrightarrow> read_varint32 d = (v, advance (length (leb (unat v))) d)"
  "at d (leb (unat (w :: u64)) @ rest) \<Longrightarrow> read_varint64 d = (w, advance (length (leb (unat w))) d)"
  using read_varint_leb[of d "unat v" rest 5 0 "0 :: u32"] read_varint_leb[of d "unat w" rest 10 0 "0 :: u64"]
    unat_lt_exp[of v] unat_lt_exp[of w]
  by (simp_all add: read_varint32_def read_varint64_def)

lemma unzigzag:
  "drop_bit 1 (zigzag_encode32 v) XOR - (zigzag_encode32 v AND 1) = v"
  "drop_bit 1 (zigzag_encode w) XOR - (zigzag_encode w AND 1) = w"
  by (simp_all only: neg_eq_not_plus zigzag_decode32_def[symmetric] zigzag_decode_def[symmetric]
      zigzag_decode32_encode32 zigzag_decode_encode)

lemma read_int_at:
  "at d (leb (unat (zigzag_encode32 v)) @ rest) \<Longrightarrow> read_i32 d = (v, advance (length (leb (unat (zigzag_encode32 v)))) d)"
  "at d (leb (unat (zigzag_encode w)) @ rest) \<Longrightarrow> read_i64 d = (w, advance (length (leb (unat (zigzag_encode w)))) d)"
  by (simp_all only: read_i32_def read_i64_def read_zigzag_i32_def read_zigzag_i64_def read_varint_at Let_def prod.case unzigzag)

lemma read_bytes_at:
  assumes "at d (leb (length s) @ s @ rest)" "length s \<le> MAX_STRING_BYTES"
  shows "read_string d = (s, advance (length (leb (length s)) + length s) d)"
    and "read_binary d = (s, advance (length (leb (length s)) + length s) d)"
proof -
  have n: "unat (of_nat (length s) :: u32) = length s"
    using assms(2) by (simp add: MAX_STRING_BYTES_def unat_of_nat)
  have v: "read_varint32 d = (of_nat (length s), advance (length (leb (length s))) d)"
    using read_varint_at(1)[of d "of_nat (length s)" "s @ rest"] assms(1) by (simp only: n)
  have a: "at (advance (length (leb (length s))) d) (s @ rest)" by (rule at_advance[OF assms(1)])
  then have "take (length s) (drop (dpos (advance (length (leb (length s))) d)) (dbuf d)) = s" by (simp add: at_def)
  then show "read_string d = (s, advance (length (leb (length s)) + length s) d)"
    "read_binary d = (s, advance (length (leb (length s)) + length s) d)"
    using assms(2) at_ensure[OF a] by (simp_all add: read_string_def read_binary_def v n Let_def)
qed

lemma nibbles:
  fixes a b :: u8
  assumes "unat a < 16" "unat b < 16"
  shows "(push_bit 4 a OR b) AND 0x0F = b" "drop_bit 4 (push_bit 4 a OR b) AND 0x0F = a"
proof -
  have m: "(0x0F :: u8) = mask 4" by (simp add: mask_eq_exp_minus_1)
  have z: "bit a i \<Longrightarrow> i < 4" "bit b i \<Longrightarrow> i < 4" for i
    using assms bit_less_exp_word[of a 4 i] bit_less_exp_word[of b 4 i] by (auto simp: not_le[symmetric])
  show "(push_bit 4 a OR b) AND 0x0F = b" unfolding m
    by (rule bit_word_eqI) (auto simp: bit_and_iff bit_or_iff bit_push_bit_iff bit_access dest: z)
  show "drop_bit 4 (push_bit 4 a OR b) AND 0x0F = a" unfolding m
    by (rule bit_word_eqI) (auto simp: bit_and_iff bit_or_iff bit_push_bit_iff bit_drop_bit_eq bit_access dest: z)
qed

lemma small_delta:
  fixes w :: i16
  assumes "0 < sint w" "sint w \<le> 15"
  shows "unat (ucast w :: u8) < 16" "(ucast w :: u8) \<noteq> 0" "(ucast (ucast w :: u8) :: i16) = w"
proof -
  have "uint w = uint (word_of_int (sint w) :: i16)" by simp
  also have "\<dots> = sint w mod 2 ^ 16" by (simp only: uint_word_of_int) simp
  also have "\<dots> = sint w" using assms by (intro mod_pos_pos_trivial) simp_all
  finally have u: "uint w = sint w" by simp
  then have n: "unat w < 16" "unat w \<noteq> 0" using assms by (auto simp: unat_eq_nat_uint)
  have t: "take_bit 8 (unat w) = unat w" using n by (intro take_bit_nat_eq_self) simp
  then have c: "unat (ucast w :: u8) = unat w" by (simp add: unsigned_ucast_eq unsigned_take_bit_eq)
  show "unat (ucast w :: u8) < 16" "(ucast w :: u8) \<noteq> 0" using n c by (auto simp: word_unat_eq_iff)
  show "(ucast (ucast w :: u8) :: i16) = w"
    by (rule word_unat_eq_iff[THEN iffD2]) (simp add: unsigned_ucast_eq unsigned_take_bit_eq c t)
qed

lemma small_type:
  fixes t :: u8
  assumes "unat t < 16"
  shows "t AND 0x0F = t" "drop_bit 4 t = 0"
  using nibbles(1)[of 0 t] nibbles(2)[of 0 t] assms
  by (simp_all add: word_unat_eq_iff unat_drop_bit)

lemma ucast_scast_id: "ucast (scast (fid :: i16) :: u32) = fid"
proof (rule bit_word_eqI)
  fix i assume "i < LENGTH(16)"
  then show "bit (ucast (scast fid :: u32) :: i16) i = bit fid i"
    by (cases "i = 15") (auto simp: bit_access bit_signed_iff min_def)
qed

text \<open>The decoder behind a field header.\<close>

definition enter_field :: "i16 \<Rightarrow> u8 \<Rightarrow> compact_decoder \<Rightarrow> compact_decoder" where
  "enter_field fid t d = d\<lparr>dids := fid # tl (dids d), dbool := (if t = T_TRUE then True else if t = T_FALSE then False else dbool d),
     dbool_valid := (t = T_TRUE \<or> t = T_FALSE \<or> dbool_valid d), dcount := dcount d + 1, dtotal := dtotal d + 1\<rparr>"

lemma read_header_at:
  assumes "at d (header_bytes prev fid t @ rest)" "dids d = prev # ids" "unat t < 16" "t \<noteq> 0"
    and "dcount d < MAX_FIELD_COUNT" "dtotal d < MAX_TOTAL_FIELDS"
  shows "read_field_header d = ((fid, t), enter_field fid t (advance (length (header_bytes prev fid t)) d))"
proof (cases "0 < sint (fid - prev) \<and> sint (fid - prev) \<le> 15")
  case True
  let ?b = "push_bit 4 (ucast (fid - prev)) OR t"
  have h: "header_bytes prev fid t = [?b]" using True by (simp add: header_bytes_def)
  have s: "unat (ucast (fid - prev) :: u8) < 16" "(ucast (fid - prev) :: u8) \<noteq> 0" "(ucast (ucast (fid - prev) :: u8) :: i16) = fid - prev"
    using small_delta[of "fid - prev"] True by simp_all
  note n = nibbles[OF s(1) assms(3)]
  have "?b \<noteq> 0" using n(1) assms(4) by auto
  moreover have "dbuf d ! dpos d = ?b" "ensure d 1" using assms(1) at_byte at_ensure1 unfolding h by (metis append_Cons append_Nil)+
  ultimately show ?thesis using n s assms(2,5,6)
    by (simp add: read_field_header_def h Let_def enter_field_def)
next
  case False
  let ?z = "zigzag_encode32 (scast fid)"
  have h: "header_bytes prev fid t = t # leb (unat ?z)" using False by (simp only: header_bytes_def if_False)
  have b: "dbuf d ! dpos d = t" "ensure d 1" using assms(1) at_byte at_ensure1 unfolding h by (metis append_Cons)+
  have "at (advance 1 d) (leb (unat ?z) @ rest)" using at_advance[of d "[t]"] assms(1) by (simp add: h)
  from read_int_at(1)[OF this] have z: "read_zigzag_i32 (advance 1 d) = (scast fid, advance (1 + length (leb (unat ?z))) d)"
    by (simp add: read_i32_def)
  show ?thesis using assms(2,4-6) b small_type[OF assms(3)]
    by (simp add: read_field_header_def h z[simplified] Let_def ucast_scast_id enter_field_def)
qed

text \<open>A list header for \<open>n\<close> elements.\<close>

definition list_header_bytes :: "u8 \<Rightarrow> nat \<Rightarrow> bytes" where
  "list_header_bytes t n = (if n \<le> 14 then [push_bit 4 (of_nat n) OR t] else (push_bit 4 15 OR t) # leb n)"

lemma write_list_header_bytes:
  assumes "n \<le> MAX_COLLECTION_SIZE"
  shows "write_list_header t (of_nat n) e = Some (append_bytes (list_header_bytes t n) e)"
proof -
  have n: "unat (of_nat n :: u32) = n" using assms by (simp add: MAX_COLLECTION_SIZE_def unat_of_nat)
  then have "uint (of_nat n :: u32) = int n" by (simp only: uint_nat)
  then have s: "sint (of_nat n :: u32) = int n"
    using assms by (simp add: MAX_COLLECTION_SIZE_def sint_uint signed_take_bit_int_eq_self)
  have "ucast (push_bit 4 (of_nat n) :: u32) = (push_bit 4 (of_nat n) :: u8)"
    by (rule bit_word_eqI) (auto simp: bit_access bit_push_bit_iff bit_of_nat_iff)
  moreover have "push_bit 4 (15 :: u8) = 0xF0" by simp
  ultimately show ?thesis
    using s by (simp add: write_list_header_def list_header_bytes_def write_varint_leb n del: push_bit_numeral)
qed

lemma read_list_header_at:
  assumes "at d (list_header_bytes t n @ rest)" "unat t < 16" "n \<le> MAX_COLLECTION_SIZE"
  shows "read_list_header d = ((t, n), advance (length (list_header_bytes t n)) d)"
proof (cases "n \<le> 14")
  case True
  let ?n = "of_nat n :: u8"
  have n: "unat ?n = n" using True by (simp add: unat_of_nat)
  have nib: "(push_bit 4 ?n OR t) AND 0x0F = t" "drop_bit 4 (push_bit 4 ?n OR t) AND 0x0F = ?n"
    by (rule nibbles; use n True assms(2) in simp)+
  have h: "list_header_bytes t n = [push_bit 4 ?n OR t]" using True by (simp only: list_header_bytes_def if_True)
  have b: "dbuf d ! dpos d = push_bit 4 ?n OR t" "ensure d 1"
    using assms(1) at_byte at_ensure1 unfolding h by (metis append_Cons)+
  show ?thesis using b True by (simp only: read_list_header_def Let_def nib n h) simp
next
  case False
  have nib: "(push_bit 4 15 OR t) AND 0x0F = t" "drop_bit 4 (push_bit 4 15 OR t) AND 0x0F = 15"
    by (rule nibbles; use assms(2) in simp)+
  have n: "unat (of_nat n :: u32) = n" using assms(3) by (simp add: MAX_COLLECTION_SIZE_def unat_of_nat)
  have h: "list_header_bytes t n = (push_bit 4 15 OR t) # leb n" using False by (simp only: list_header_bytes_def if_False)
  have b: "dbuf d ! dpos d = push_bit 4 15 OR t" "ensure d 1"
    using assms(1) at_byte at_ensure1 unfolding h by (metis append_Cons)+
  have "at (advance 1 d) (leb (unat (of_nat n :: u32)) @ rest)"
    using at_advance[of d "[push_bit 4 15 OR t]"] assms(1) by (simp add: h n)
  from read_varint_at(1)[OF this] have v: "read_varint32 (advance 1 d) = (of_nat n, advance (1 + length (leb n)) d)"
    by (simp add: n)
  show ?thesis using b assms(3)
    by (simp only: read_list_header_def Let_def nib h v) (simp add: n MAX_COLLECTION_SIZE_def)
qed

section \<open>Skipping\<close>

text \<open>No read leaves the buffer, moves back or changes the bytes.\<close>

definition moves :: "compact_decoder \<Rightarrow> compact_decoder \<Rightarrow> bool" where
  "moves d d' \<longleftrightarrow> dbuf d' = dbuf d \<and> dpos d \<le> dpos d' \<and> (dpos d \<le> length (dbuf d) \<longrightarrow> dpos d' \<le> length (dbuf d))"

lemma moves_refl [simp]: "moves d d"
  by (simp add: moves_def)

lemma moves_trans: "moves a b \<Longrightarrow> moves b c \<Longrightarrow> moves a c"
  by (auto simp: moves_def)

lemma moves_remaining: "moves d d' \<Longrightarrow> remaining d' \<le> remaining d"
  by (auto simp: moves_def remaining_def)

lemma moves_fail [simp]: "moves d (fail d') \<longleftrightarrow> moves d d'"
  by (simp add: moves_def fail_def)

lemma moves_advance: "moves d d' \<Longrightarrow> ensure d' n \<Longrightarrow> moves d (advance n d')"
  by (auto simp: moves_def ensure_def advance_def)

lemma moves_update [simp]:
  "moves d (d'\<lparr>dids := a\<rparr>) \<longleftrightarrow> moves d d'" "moves d (d'\<lparr>dcount := b\<rparr>) \<longleftrightarrow> moves d d'"
  "moves d (d'\<lparr>dtotal := b\<rparr>) \<longleftrightarrow> moves d d'" "moves d (d'\<lparr>dbool := x\<rparr>) \<longleftrightarrow> moves d d'" "moves d (d'\<lparr>dbool_valid := x\<rparr>) \<longleftrightarrow> moves d d'"
  by (simp_all add: moves_def)

lemma moves_varint: "moves d0 d \<Longrightarrow> read_varint k s r d = (v, d') \<Longrightarrow> moves d0 d'"
  by (induction k s r d rule: read_varint.induct) (auto simp: Let_def moves_advance split: if_splits)

lemma moves_reads:
  "read_varint32 d = (v, d') \<Longrightarrow> moves d d'" "read_varint64 d = (w, d') \<Longrightarrow> moves d d'"
  "read_zigzag_i32 d = (v, d') \<Longrightarrow> moves d d'" "read_list_header d = (h, d') \<Longrightarrow> moves d d'"
  by (auto simp: read_varint32_def read_varint64_def read_zigzag_i32_def read_list_header_def Let_def moves_advance
      intro: moves_varint[OF moves_refl] moves_varint[OF moves_advance[OF moves_refl]] split: prod.splits if_splits)

lemma moves_struct [simp]: "moves d (begin_struct d') \<longleftrightarrow> moves d d'" "moves d (end_struct d') \<longleftrightarrow> moves d d'"
  by (simp_all add: begin_struct_def end_struct_def moves_def fail_def)

text \<open>A header that is not the stop marker takes at least one byte.\<close>

lemma moves_header:
  "read_field_header d = (h, d') \<Longrightarrow> moves d d' \<and> (is_stop h \<or> remaining d' < remaining d)"
proof -
  assume r: "read_field_header d = (h, d')"
  show ?thesis
  proof (cases "ensure d 1")
    case False
    then show ?thesis using r by (auto simp: read_field_header_def is_stop_def)
  next
    case True
    let ?z = "read_zigzag_i32 (advance 1 d)"
    have m1: "moves d (advance 1 d)" using True by (simp add: moves_advance)
    have mz: "moves (advance 1 d) (snd ?z)" using moves_reads(3)[of "advance 1 d" "fst ?z" "snd ?z"] by simp
    have less: "remaining (advance 1 d) < remaining d" using True 
      by (cases "length (dbuf d)") (auto simp: remaining_def ensure_def advance_def)
    have "moves (advance 1 d) d'"
      using r mz True by (auto simp: read_field_header_def Let_def split: if_splits prod.splits)
    then show ?thesis
      using moves_trans[OF m1] moves_remaining[of "advance 1 d" d'] less by auto
  qed
qed

lemma moves_skip_bytes [simp]: "moves d d' \<Longrightarrow> moves d (skip_bytes n d')"
  by (simp add: skip_bytes_def moves_advance)

lemma repeat_moves:
  assumes "\<And>d'. remaining d' \<le> R \<Longrightarrow> \<exists>d''. f d' = Some d'' \<and> moves d' d''" "remaining d \<le> R"
  shows "\<exists>d''. repeat_while_good k f d = Some d'' \<and> moves d d''"
  using assms(2)
proof (induction k arbitrary: d)
  case 0
  then show ?case by simp
next
  case (Suc k)
  obtain d1 where d1: "f d = Some d1" "moves d d1" using assms(1)[OF Suc.prems] by blast
  obtain d2 where "repeat_while_good k f d1 = Some d2" "moves d1 d2"
    using Suc.IH[of d1] Suc.prems moves_remaining[OF d1(2)] by (meson order_trans)
  then show ?case using d1 moves_trans[OF d1(2)] by auto
qed

lemma list_header_shorter: "read_list_header d = ((t, n), d') \<Longrightarrow> n = 0 \<or> remaining d' < remaining d"
proof -
  assume r: "read_list_header d = ((t, n), d')"
  show ?thesis
  proof (cases "ensure d 1")
    case False
    then show ?thesis using r by (auto simp: read_list_header_def)
  next
    case True
    have "remaining (advance 1 d) < remaining d" using True
      by (cases "length (dbuf d)") (auto simp: remaining_def ensure_def advance_def)
    moreover have "moves (advance 1 d) d'"
      using r True moves_reads(1)[of "advance 1 d"] by (auto simp: read_list_header_def Let_def split: if_splits prod.splits)
    ultimately show ?thesis using moves_remaining[of "advance 1 d" d'] by linarith
  qed
qed

lemma skip_moves:
  "2 * remaining d + 2 \<le> f \<Longrightarrow> \<exists>d'. skip_field f t d = Some d' \<and> moves d d'"
  "2 * remaining d + 1 \<le> f \<Longrightarrow> \<exists>d'. skip_fields f d = Some d' \<and> moves d d'"
proof (induction f arbitrary: d t)
  case 0
  {
    case 1
    then show ?case by simp
  next
    case 2
    then show ?case by simp
  }
next
  case (Suc f)
  {
    case 1
    have elem: "\<exists>d''. skip_field f u d' = Some d'' \<and> moves d' d''" if "remaining d' < remaining d" for d' u
      by (rule Suc.IH(1)) (use 1 that in linarith)
    let ?T = "t = T_TRUE \<or> t = T_FALSE"
    consider "t \<in> {T_TRUE, T_FALSE, T_I8, T_I16, T_I32, T_I64, T_DOUBLE, T_BINARY}" | "t = T_LIST \<or> t = T_SET" | "t = T_MAP" | "t = T_STRUCT"
      | "t \<notin> {T_TRUE, T_FALSE, T_I8, T_I16, T_I32, T_I64, T_DOUBLE, T_BINARY, T_LIST, T_SET, T_MAP, T_STRUCT}" by blast
    then show ?case
    proof cases
      case a: 1
      have r: "moves d (snd (read_varint32 d))" "moves d (snd (read_varint64 d))"
        using moves_reads(1)[of d "fst (read_varint32 d)"] moves_reads(2)[of d "fst (read_varint64 d)"] by simp_all
      show ?thesis using a r by (auto simp: wire_types split: prod.split)
    next
      case b: 2
      obtain u n d1 where h: "read_list_header d = ((u, n), d1)" by (metis surj_pair)
      have m: "moves d d1" by (rule moves_reads(4)[OF h])
      have "\<exists>d''. repeat_while_good n (\<lambda>d. skip_field f u d) d1 = Some d'' \<and> moves d1 d''"
      proof (cases n)
        case 0
        then show ?thesis by simp
      next
        case (Suc n')
        then have "remaining d1 < remaining d" using list_header_shorter[OF h] by simp
        then show ?thesis using elem by (intro repeat_moves[where R = "remaining d1"]) auto
      qed
      then show ?thesis using b h moves_trans[OF m] by (auto simp: wire_types)
    next
      case c: 3
      obtain n d1 where h: "read_varint32 d = (n, d1)" by fastforce
      have m: "moves d d1" by (rule moves_reads(1)[OF h])
      have "\<exists>d''. repeat_while_good (unat n) (\<lambda>d. case skip_field f k d of None \<Rightarrow> None | Some d' \<Rightarrow> skip_field f v d') (advance 1 d1) = Some d''
          \<and> moves (advance 1 d1) d''" if "ensure d1 1" for k v
      proof (rule repeat_moves[where R = "remaining (advance 1 d1)"])
        have "remaining (advance 1 d1) < remaining d1" using that
          by (cases "length (dbuf d1)") (auto simp: remaining_def ensure_def advance_def)
        then have less: "remaining (advance 1 d1) < remaining d" using moves_remaining[OF m] by linarith
        fix d' assume d': "remaining d' \<le> remaining (advance 1 d1)"
        then obtain d2 where d2: "skip_field f k d' = Some d2" "moves d' d2" using elem less by (meson order_le_less_trans)
        obtain d3 where "skip_field f v d2 = Some d3" "moves d2 d3"
          using elem[of d2 v] moves_remaining[OF d2(2)] d' less by auto
        then show "\<exists>d''. (case skip_field f k d' of None \<Rightarrow> None | Some d' \<Rightarrow> skip_field f v d') = Some d'' \<and> moves d' d''"
          using d2 moves_trans[OF d2(2)] by auto
      qed simp
      note loop = this
      show ?thesis
      proof (cases "ensure d1 1")
        case True
        have "moves d (advance 1 d1)" by (rule moves_advance[OF m True])
        then show ?thesis using loop[OF True] c h m moves_trans by (fastforce simp: wire_types Let_def)
      next
        case False
        then show ?thesis using c h m by (simp add: wire_types Let_def)
      qed
    next
      case e: 4
      have "remaining (begin_struct d) = remaining d" by (simp add: begin_struct_def remaining_def fail_def)
      then obtain d' where "skip_fields f (begin_struct d) = Some d'" "moves (begin_struct d) d'"
        using Suc.IH(2)[of "begin_struct d"] 1 by auto
      then show ?thesis using e moves_trans[of d "begin_struct d" d'] by (simp add: wire_types)
    next
      case 5
      then show ?thesis by simp
    qed
  next
    case 2
    show ?case
    proof (cases "good d")
      case False
      then show ?thesis by simp
    next
      case True
      obtain h d1 where h: "read_field_header d = (h, d1)" by fastforce
      show ?thesis
      proof (cases "is_stop h")
        case True
        then show ?thesis using h moves_header[OF h] \<open>good d\<close> by simp
      next
        case False
        then have m: "moves d d1" "remaining d1 < remaining d" using moves_header[OF h] by auto
        obtain d2 where d2: "skip_field f (snd h) d1 = Some d2" "moves d1 d2"
          using Suc.IH(1)[of d1 "snd h"] 2 m(2) by auto
        obtain d3 where "skip_fields f d2 = Some d3" "moves d2 d3"
          using Suc.IH(2)[of d2] 2 m(2) moves_remaining[OF d2(2)] by auto
        then show ?thesis using True h False d2 moves_trans[OF m(1) moves_trans[OF d2(2)]] by simp
      qed
    qed
  }
qed

lemma skip_enough: "\<exists>d'. skip_field (2 * remaining d + 2) t d = Some d' \<and> skip t d = d' \<and> moves d d'"
proof -
  obtain d' where "skip_field (2 * remaining d + 2) t d = Some d'" "moves d d'"
    using skip_moves(1)[OF order_refl] by blast
  moreover from this have "skip t d = d'" by (simp only: skip_def option.case)
  ultimately show ?thesis by blast
qed

declare skip_field.simps [simp del] skip_fields.simps [simp del]

text \<open>
  Skipping a value of any type ends, whatever the bytes are: \<open>2 * remaining d + 2\<close> calls
  are enough, the position never goes back and never leaves the buffer.
\<close>
theorem skip_terminates:
  "\<exists>d'. skip_field (2 * remaining d + 2) t d = Some d' \<and> skip t d = d' \<and> moves d d'"
  by (rule skip_enough)

lemma moves_skip: "moves d (skip t d)"
  using skip_enough[of d t] by blast

text \<open>A list or set of booleans: the elements take no bytes when they are skipped.\<close>

lemma repeat_bool: "repeat_while_good n (\<lambda>d. skip_field (Suc f) T_TRUE d) d = Some d"
  by (induction n) (simp_all add: skip_field.simps)

lemma run_write_bools: "run (map write_bool bs) e = Some (append_bytes (map (\<lambda>b. if b then 1 else 0) bs) e)"
  by (induction bs arbitrary: e) (simp_all add: write_bool_def)

text \<open>
  The encoder writes each element of a list of booleans as one byte, and \<^verbatim>\<open>read_bool\<close>
  reads one byte per element, but skipping such a list stops right behind its header: the elements are
  then taken for field headers.
\<close>
theorem skip_bool_list_leaves_elements:
  assumes "at d ((push_bit 4 (of_nat (length bs)) OR T_TRUE) # map (\<lambda>b. if b then 1 else 0) bs @ rest)"
    and "length bs \<le> 14"
  shows "skip T_LIST d = advance 1 d
    \<and> run (write_list_header T_TRUE (of_nat (length bs)) # map write_bool bs) encoder_new
      = Some (append_bytes ((push_bit 4 (of_nat (length bs)) OR T_TRUE) # map (\<lambda>b. if b then 1 else 0) bs) encoder_new)"
proof -
  have h: "list_header_bytes T_TRUE (length bs) = [push_bit 4 (of_nat (length bs)) OR T_TRUE]"
    using assms(2) by (simp only: list_header_bytes_def if_True)
  have m: "length bs \<le> MAX_COLLECTION_SIZE" using assms(2) by (simp add: MAX_COLLECTION_SIZE_def)
  have t: "unat T_TRUE < 16" by (simp add: T_TRUE_def)
  have r: "read_list_header d = ((T_TRUE, length bs), advance 1 d)"
    using read_list_header_at[of d T_TRUE "length bs", OF _ _ m] assms(1) by (simp only: h t) simp
  have f: "2 * remaining d + 2 = Suc (Suc (2 * remaining d))" by simp
  have l: "T_LIST \<noteq> T_TRUE" "T_LIST \<noteq> T_FALSE" "T_LIST \<noteq> T_I8" "T_LIST \<noteq> T_I16" "T_LIST \<noteq> T_I32" "T_LIST \<noteq> T_I64"
    "T_LIST \<noteq> T_DOUBLE" "T_LIST \<noteq> T_BINARY" by (simp_all add: wire_types)
  have b: "repeat_while_good (length bs) (skip_field (Suc (2 * remaining d)) T_TRUE) (advance 1 d) = Some (advance 1 d)"
    by (rule repeat_bool)
  have "skip_field (2 * remaining d + 2) T_LIST d = Some (advance 1 d)"
    unfolding f by (subst skip_field.simps(2)) (simp only: l simp_thms if_True if_False r Let_def prod.case b)
  then have "skip T_LIST d = advance 1 d" by (simp only: skip_def option.case)
  then show ?thesis using write_list_header_bytes[OF m] by (simp add: h run_write_bools)
qed

theorem skip_bool_list_leaves_elements_witness:
  "skip T_LIST (decoder_new [0x21, 1, 0, 0]) = advance 1 (decoder_new [0x21, 1, 0, 0])"
  using skip_bool_list_leaves_elements[of "decoder_new [0x21, 1, 0, 0]" "[True, False]" "[0]"]
  by (simp add: at_def decoder_new_def T_TRUE_def)

text \<open>
  The nesting limit counts structs only.  A buffer of \<open>n\<close> list headers, each announcing one
  list, makes \<^verbatim>\<open>skip_field\<close> call itself more than \<open>n\<close> deep: with \<open>n\<close> calls allowed it does not end.
\<close>
theorem skip_nested_lists_unlimited:
  "skip_field n T_LIST (decoder_new (replicate n 0x19)) = None
    \<and> skip_field (2 * n + 2) T_LIST (decoder_new (replicate n 0x19)) \<noteq> None"
proof -
  have "at d (replicate m 0x19) \<Longrightarrow> skip_field m T_LIST d = None" for m d
  proof (induction m arbitrary: d)
    case 0
    then show ?case by (simp add: skip_field.simps)
  next
    case (Suc m)
    have a: "at d (0x19 # replicate m 0x19)" using Suc.prems by simp
    have h: "read_list_header d = ((T_LIST, 1), advance 1 d)"
      using at_ensure1[OF a] at_byte[OF a] by (simp add: read_list_header_def Let_def T_LIST_def)
    have "at (advance 1 d) (replicate m 0x19)" using at_advance[of d "[0x19]"] a by simp
    then have "skip_field m T_LIST (advance 1 d) = None" "good (advance 1 d)"
      by (rule Suc.IH) (use a in \<open>simp add: good_def at_def\<close>)
    then show ?case by (simp add: skip_field.simps(2) h[simplified] wire_types)
  qed
  moreover have "at (decoder_new (replicate n 0x19)) (replicate n 0x19)" by (simp add: at_def decoder_new_def)
  moreover have "remaining (decoder_new (replicate n 0x19 :: bytes)) = n" by (simp add: remaining_def decoder_new_def)
  then have "\<exists>d'. skip_field (2 * n + 2) T_LIST (decoder_new (replicate n 0x19)) = Some d'"
    using skip_enough[of "decoder_new (replicate n 0x19)" T_LIST] by metis
  ultimately show ?thesis by blast
qed

end
