(* ===== verification/ThriftStruct.thy ===== *)
theory ThriftStruct
  imports Thrift
begin

text \<open>
  The shape that every \<^verbatim>\<open>serialize\<close> and \<^verbatim>\<open>deserialize\<close> of \<^verbatim>\<open>include/signet/thrift/types.hpp\<close> has: a
  writer is a list of encoder calls between \<^verbatim>\<open>begin_struct\<close> and \<^verbatim>\<open>end_struct\<close>; a reader is the loop over
  field headers with its \<^verbatim>\<open>switch\<close>, whose cases check the wire type, read one value and store it in the
  object.  The object under construction is a record, a store is the record's update function.  On an
  error the code returns early and every caller drops the object, so only the error is kept.

  The law of one type, \<open>sound\<close>, says that its reader gets back what its writer wrote, wherever the bytes
  stand; \<open>codes\<close> is the same for a list of fields in the middle of the loop.  \<open>safe\<close> says that a reader
  stays inside the buffer and fails only with \<^verbatim>\<open>THRIFT_DECODE_ERROR\<close>.
\<close>

type_synonym ('i, 'v) decoder = "compact_decoder \<Rightarrow> 'i \<Rightarrow> 'v expected \<times> compact_decoder"
type_synonym 'x field_reader = "u8 \<Rightarrow> ('x, 'x) decoder"

section \<open>Writers\<close>

definition opt :: "'v option \<Rightarrow> ('v \<Rightarrow> writer) \<Rightarrow> writer" where
  "opt v w = (case v of None \<Rightarrow> run [] | Some x \<Rightarrow> w x)"

definition put_field :: "i16 \<Rightarrow> u8 \<Rightarrow> writer \<Rightarrow> writer" where
  "put_field fid t w = run [write_field fid t, w]"

definition write_list :: "u8 \<Rightarrow> ('v \<Rightarrow> writer) \<Rightarrow> 'v list \<Rightarrow> writer" where
  "write_list t w xs = run (write_list_header t (of_nat (length xs)) # map w xs)"

definition write_struct :: "writer list \<Rightarrow> writer" where
  "write_struct ws = run ([enc_begin_struct] @ ws @ [write_stop, enc_end_struct])"

definition empty_struct :: writer where
  "empty_struct = run [enc_begin_struct, write_stop, enc_end_struct]"

section \<open>Readers\<close>

definition reader :: "(compact_decoder \<Rightarrow> 'v \<times> compact_decoder) \<Rightarrow> ('i, 'v) decoder" where
  "reader rd d i = (let (v, d') = rd d in (Inr v, d'))"

definition some :: "('i, 'v) decoder \<Rightarrow> ('i, 'v option) decoder" where
  "some de d i = (case de d i of (Inl e, d') \<Rightarrow> (Inl e, d') | (Inr v, d') \<Rightarrow> (Inr (Some v), d'))"

definition skip_struct :: "('i, unit) decoder" where
  "skip_struct d i = (Inr (), skip T_STRUCT d)"

text \<open>\<^verbatim>\<open>vector::resize\<close> and reading into each element.\<close>

definition resize :: "nat \<Rightarrow> 'v \<Rightarrow> 'v list \<Rightarrow> 'v list" where
  "resize n v xs = take n xs @ replicate (n - length xs) v"

fun read_each :: "('v, 'v) decoder \<Rightarrow> compact_decoder \<Rightarrow> 'v list \<Rightarrow> 'v list expected \<times> compact_decoder" where
  "read_each de d [] = (Inr [], d)"
| "read_each de d (x # xs) =
     (case de d x of (Inl e, d') \<Rightarrow> (Inl e, d')
      | (Inr v, d') \<Rightarrow> (case read_each de d' xs of (Inl e, d'') \<Rightarrow> (Inl e, d'') | (Inr vs, d'') \<Rightarrow> (Inr (v # vs), d'')))"

definition list_of :: "nat \<Rightarrow> 'v \<Rightarrow> ('v, 'v) decoder \<Rightarrow> ('v list, 'v list) decoder" where
  "list_of bound v0 de d old =
     (let ((elem_type, n), d') = read_list_header d
      in if n > bound then (Inl THRIFT_DECODE_ERROR, d') else read_each de d' (resize n v0 old))"

text \<open>One case of the \<^verbatim>\<open>switch\<close>: the type check, the value and the store.\<close>

definition field :: "u8 list \<Rightarrow> ('i, 'v) decoder \<Rightarrow> ('x \<Rightarrow> 'i) \<Rightarrow> (('v \<Rightarrow> 'v) \<Rightarrow> 'x \<Rightarrow> 'x) \<Rightarrow> 'x field_reader" where
  "field types de get upd t d x =
     (if t \<notin> set types then (Inl THRIFT_DECODE_ERROR, d)
      else case de d (get x) of (Inl e, d') \<Rightarrow> (Inl e, d') | (Inr v, d') \<Rightarrow> (Inr (upd (\<lambda>_. v) x), d'))"

definition switch :: "(i16 \<times> 'x field_reader) list \<Rightarrow> i16 \<Rightarrow> 'x field_reader" where
  "switch cases fid t d x = (case map_of cases fid of Some f \<Rightarrow> f t d x | None \<Rightarrow> (Inr x, skip t d))"

text \<open>The loop over the fields; every header that is not the stop marker takes at least a byte, so the
  first argument does not run out when it exceeds the number of bytes left (\<open>safe_read_struct\<close>).\<close>

fun struct_loop :: "nat \<Rightarrow> (i16 \<Rightarrow> 'x field_reader) \<Rightarrow> ('x, 'x) decoder" where
  "struct_loop 0 h d x = (Inl INTERNAL_ERROR, d)"
| "struct_loop (Suc f) h d x =
     (let (fh, d1) = read_field_header d in
      if snd fh = T_STOP then (Inr x, d1)
      else if \<not> good d1 then (Inl THRIFT_DECODE_ERROR, d1)
      else case h (fst fh) (snd fh) d1 x of (Inl e, d2) \<Rightarrow> (Inl e, d2) | (Inr x', d2) \<Rightarrow> struct_loop f h d2 x')"

definition read_struct :: "(i16 \<Rightarrow> 'x field_reader) \<Rightarrow> ('x, 'x) decoder" where
  "read_struct h d x =
     (let d1 = begin_struct d in
      if \<not> good d1 then (Inl THRIFT_DECODE_ERROR, d1)
      else case struct_loop (Suc (remaining d1)) h d1 x of
        (Inl e, d2) \<Rightarrow> (Inl e, d2)
      | (Inr x', d2) \<Rightarrow> (let d3 = end_struct d2 in if \<not> good d3 then (Inl THRIFT_DECODE_ERROR, d3) else (Inr x', d3)))"

text \<open>Required fields: the object is paired with the bit mask \<^verbatim>\<open>seen\<close>.\<close>

definition mark :: "nat \<Rightarrow> (('v \<Rightarrow> 'v) \<Rightarrow> 'x \<Rightarrow> 'x) \<Rightarrow> ('v \<Rightarrow> 'v) \<Rightarrow> 'x \<times> u32 \<Rightarrow> 'x \<times> u32" where
  "mark k upd g p = (upd g (fst p), snd p OR push_bit k 1)"

definition keep :: "(('v \<Rightarrow> 'v) \<Rightarrow> 'x \<Rightarrow> 'x) \<Rightarrow> ('v \<Rightarrow> 'v) \<Rightarrow> 'x \<times> u32 \<Rightarrow> 'x \<times> u32" where
  "keep upd g p = (upd g (fst p), snd p)"

definition read_required :: "u32 \<Rightarrow> (i16 \<Rightarrow> ('x \<times> u32) field_reader) \<Rightarrow> ('x, 'x) decoder" where
  "read_required required h d x =
     (case read_struct h d (x, 0) of
        (Inl e, d') \<Rightarrow> (Inl e, d')
      | (Inr (x', seen), d') \<Rightarrow>
          if seen AND required \<noteq> required then (Inl THRIFT_DECODE_ERROR, d') else (Inr x', d'))"

section \<open>Staying in the buffer\<close>

definition safe :: "('i, 'v) decoder \<Rightarrow> bool" where
  "safe de \<longleftrightarrow> (\<forall>d i r d'. de d i = (r, d') \<longrightarrow> moves d d' \<and> (\<forall>e. r = Inl e \<longrightarrow> e = THRIFT_DECODE_ERROR))"

lemma safeD: "safe de \<Longrightarrow> de d i = (r, d') \<Longrightarrow> moves d d'" "safe de \<Longrightarrow> de d i = (Inl e, d') \<Longrightarrow> e = THRIFT_DECODE_ERROR"
  by (auto simp: safe_def)

lemma moves_read: 
  "moves d (snd (read_i32 d))" "moves d (snd (read_i64 d))" "moves d (snd (read_i8 d))" "moves d (snd (read_bool d))"
  "moves d (snd (read_string d))" "moves d (snd (read_binary d))"
  using moves_reads(1)[of d "fst (read_varint32 d)" "snd (read_varint32 d)"]
    moves_reads(2)[of d "fst (read_varint64 d)" "snd (read_varint64 d)"]
  by (auto simp: read_i32_def read_i64_def read_zigzag_i32_def read_zigzag_i64_def read_i8_def read_bool_def
      read_string_def read_binary_def Let_def moves_advance split: prod.split)

lemma safe_reader: "(\<And>d. moves d (snd (rd d))) \<Longrightarrow> safe (reader rd)"
  unfolding safe_def reader_def by (metis (no_types, lifting) Inr_Inl_False case_prod_beta' prod.inject)

lemma safe_some: "safe de \<Longrightarrow> safe (some de)"
  unfolding safe_def some_def by (fastforce split: prod.splits sum.splits)

lemma safe_skip_struct: "safe skip_struct"
  by (simp add: safe_def skip_struct_def moves_skip)

lemma read_each_safe: "safe de \<Longrightarrow> read_each de d xs = (r, d') \<Longrightarrow> moves d d' \<and> (\<forall>e. r = Inl e \<longrightarrow> e = THRIFT_DECODE_ERROR)"
proof (induction xs arbitrary: d r d')
  case Nil
  then show ?case by auto
next
  case (Cons x xs)
  obtain r1 d1 where 1: "de d x = (r1, d1)" by fastforce
  obtain r2 d2 where 2: "read_each de d1 xs = (r2, d2)" by fastforce
  show ?case using Cons.prems 1 2 Cons.IH[OF Cons.prems(1) 2] safeD[OF Cons.prems(1), of d x] moves_trans[of d d1 d2]
    by (auto split: sum.splits)
qed

lemma safe_list_of: "safe de \<Longrightarrow> safe (list_of bound v0 de)"
  unfolding safe_def[of "list_of bound v0 de"] list_of_def Let_def
  by (auto split: prod.splits if_splits dest: moves_reads(4) read_each_safe intro: moves_trans)

definition safe_handler :: "(i16 \<Rightarrow> 'x field_reader) \<Rightarrow> bool" where
  "safe_handler h \<longleftrightarrow> (\<forall>fid t. safe (h fid t))"

lemma safe_field: "safe de \<Longrightarrow> safe (field types de get upd t)"
  unfolding safe_def field_def by (fastforce split: prod.splits sum.splits if_splits)

lemma safe_switch: "(\<And>c t. c \<in> set cases \<Longrightarrow> safe (snd c t)) \<Longrightarrow> safe_handler (switch cases)"
proof -
  assume s: "\<And>c t. c \<in> set cases \<Longrightarrow> safe (snd c t)"
  have "safe (switch cases fid t)" for fid t
  proof (cases "map_of cases fid")
    case None
    then show ?thesis by (simp add: safe_def switch_def moves_skip)
  next
    case (Some f)
    then have "safe (f t)" using s[of "(fid, f)"] by (auto dest: map_of_SomeD)
    then show ?thesis using Some by (simp add: safe_def switch_def)
  qed
  then show ?thesis by (simp add: safe_handler_def)
qed

lemma safe_struct_loop:
  assumes "safe_handler h"
  shows "remaining d < f \<Longrightarrow> struct_loop f h d x = (r, d') \<Longrightarrow> moves d d' \<and> (\<forall>e. r = Inl e \<longrightarrow> e = THRIFT_DECODE_ERROR)"
proof (induction f arbitrary: d x)
  case 0
  then show ?case by simp
next
  case (Suc f)
  obtain fh d1 where 1: "read_field_header d = (fh, d1)" by fastforce
  note m = moves_header[OF 1]
  show ?case
  proof (cases "snd fh = T_STOP \<or> \<not> good d1")
    case True
    then show ?thesis using Suc.prems 1 m by (auto split: if_splits)
  next
    case False
    obtain r2 d2 where 2: "h (fst fh) (snd fh) d1 x = (r2, d2)" by fastforce
    have s: "safe (h (fst fh) (snd fh))" using assms by (simp add: safe_handler_def)
    note m2 = safeD(1)[OF s 2]
    have md: "moves d d2" using m m2 moves_trans by blast
    show ?thesis
    proof (cases r2)
      case (Inl e)
      then show ?thesis using Suc.prems 1 2 False safeD(2)[OF s] md by auto
    next
      case (Inr x')
      have "remaining d2 < f"
        using m False Suc.prems(1) moves_remaining[OF m2] by (auto simp: is_stop_def T_STOP_def)
      moreover have "struct_loop f h d2 x' = (r, d')" using Suc.prems(2) 1 2 False Inr by simp
      ultimately show ?thesis using Suc.IH md moves_trans by blast
    qed
  qed
qed

lemma safe_read_struct: "safe_handler h \<Longrightarrow> safe (read_struct h)"
proof -
  assume h: "safe_handler h"
  have "moves d d' \<and> (\<forall>e. r = Inl e \<longrightarrow> e = THRIFT_DECODE_ERROR)" if "read_struct h d x = (r, d')" for d x r d'
  proof (cases "good (begin_struct d)")
    case False
    then show ?thesis using that by (auto simp: read_struct_def Let_def)
  next
    case True
    obtain r2 d2 where 2: "struct_loop (Suc (remaining (begin_struct d))) h (begin_struct d) x = (r2, d2)" by fastforce
    have "moves (begin_struct d) d2 \<and> (\<forall>e. r2 = Inl e \<longrightarrow> e = THRIFT_DECODE_ERROR)"
      by (rule safe_struct_loop[OF h _ 2]) simp
    then have "moves d d2 \<and> (\<forall>e. r2 = Inl e \<longrightarrow> e = THRIFT_DECODE_ERROR)"
      using moves_trans[of d "begin_struct d" d2] by simp
    then show ?thesis using that True 2 by (auto simp: read_struct_def Let_def simp del: struct_loop.simps split: sum.splits if_splits)
  qed
  then show ?thesis unfolding safe_def by blast
qed

lemma safe_read_required: "safe_handler h \<Longrightarrow> safe (read_required m h)"
  using safe_read_struct[of h] unfolding safe_def read_required_def
  by (fastforce split: prod.splits sum.splits if_splits)

lemmas safe_parts = safe_field safe_some safe_skip_struct safe_list_of safe_reader[OF moves_read(1)] safe_reader[OF moves_read(2)]
  safe_reader[OF moves_read(3)] safe_reader[OF moves_read(4)] safe_reader[OF moves_read(5)] safe_reader[OF moves_read(6)]

declare struct_loop.simps [simp del]

section \<open>Reading back what was written\<close>

definition puts :: "writer \<Rightarrow> bytes \<Rightarrow> bool" where
  "puts w bs \<longleftrightarrow> (\<forall>e. eids e \<noteq> [] \<longrightarrow> w e = Some (append_bytes bs e))"

text \<open>
  \<open>C\<close> bounds both the number of further nesting levels and the value of the field counter behind the
  read; the total of fields read grows by at most one per byte.
\<close>

definition reads :: "nat \<Rightarrow> ('i, 'v) decoder \<Rightarrow> 'i \<Rightarrow> bytes \<Rightarrow> 'v \<Rightarrow> bool" where
  "reads C de i bs v \<longleftrightarrow> (\<forall>d rest.
     at d (bs @ rest) \<and> dids d \<noteq> [] \<and> length (dids d) + C \<le> MAX_NESTING_DEPTH \<and> dtotal d + length bs \<le> MAX_TOTAL_FIELDS \<longrightarrow>
     (\<exists>d'. de d i = (Inr v, d') \<and> at d' rest \<and> dids d' = dids d \<and> dpos d' = dpos d + length bs \<and> dbuf d' = dbuf d
       \<and> dtotal d' \<le> dtotal d + length bs \<and> dcount d' \<le> max (dcount d) C))"

definition sound :: "nat \<Rightarrow> writer \<Rightarrow> ('i, 'v) decoder \<Rightarrow> 'i \<Rightarrow> 'v \<Rightarrow> bool" where
  "sound C w de i v \<longleftrightarrow> (\<exists>bs. puts w bs \<and> reads C de i bs v)"

lemma sound_mono: "sound C w de i v \<Longrightarrow> C \<le> C' \<Longrightarrow> sound C' w de i v"
proof -
  assume s: "sound C w de i v" and c: "C \<le> C'"
  then obtain bs where bs: "puts w bs" "reads C de i bs v" by (auto simp: sound_def)
  have "reads C' de i bs v" unfolding reads_def
  proof (intro allI impI)
    fix d rest
    assume "at d (bs @ rest) \<and> dids d \<noteq> [] \<and> length (dids d) + C' \<le> MAX_NESTING_DEPTH \<and> dtotal d + length bs \<le> MAX_TOTAL_FIELDS"
    with c bs(2)[unfolded reads_def, rule_format, of d rest]
    show "\<exists>d'. de d i = (Inr v, d') \<and> at d' rest \<and> dids d' = dids d \<and> dpos d' = dpos d + length bs \<and> dbuf d' = dbuf d
       \<and> dtotal d' \<le> dtotal d + length bs \<and> dcount d' \<le> max (dcount d) C'" by force
  qed
  with bs(1) show ?thesis by (auto simp: sound_def)
qed

text \<open>Values that one read returns, leaving the decoder just behind them.\<close>

lemma sound_reader:
  assumes "\<And>e. eids e \<noteq> [] \<Longrightarrow> w e = Some (append_bytes bs e)"
    and "\<And>d rest. at d (bs @ rest) \<Longrightarrow> rd d = (v, advance (length bs) d)"
  shows "sound 0 w (reader rd) i v"
proof -
  have "reads 0 (reader rd) i bs v" unfolding reads_def
  proof (intro allI impI, elim conjE)
    fix d rest assume a: "at d (bs @ rest)"
    show "\<exists>d'. reader rd d i = (Inr v, d') \<and> at d' rest \<and> dids d' = dids d \<and> dpos d' = dpos d + length bs \<and> dbuf d' = dbuf d
       \<and> dtotal d' \<le> dtotal d + length bs \<and> dcount d' \<le> max (dcount d) 0"
      by (rule exI[where x = "advance (length bs) d"]) (use at_advance[OF a] assms(2)[OF a] in \<open>simp add: reader_def advance_def\<close>)
  qed
  then show ?thesis using assms(1) by (auto simp: sound_def puts_def)
qed

lemma sound_i32: "sound 0 (write_i32 v) (reader read_i32) i v"
  by (rule sound_reader[OF _ read_int_at(1)]) (simp_all add: write_i32_def write_varint_leb)

lemma sound_i64: "sound 0 (write_i64 v) (reader read_i64) i v"
  by (rule sound_reader[OF _ read_int_at(2)]) (simp_all add: write_i64_def write_varint_leb)

lemma sound_i8: "sound 0 (write_i8 v) (reader read_i8) i v"
proof (rule sound_reader)
  show "write_i8 v e = Some (append_bytes [v] e)" for e by (simp add: write_i8_def)
  show "read_i8 d = (v, advance (length [v]) d)" if "at d ([v] @ rest)" for d rest
    using at_ensure1[of d v rest] at_byte[of d v rest] that by (simp add: read_i8_def)
qed

lemma sound_bytes:
  assumes "length v \<le> MAX_STRING_BYTES"
  shows "sound 0 (write_string v) (reader read_string) i v" "sound 0 (write_binary v) (reader read_binary) i v"
proof -
  have n: "unat (of_nat (length v) :: u32) = length v" using assms by (simp add: MAX_STRING_BYTES_def unat_of_nat)
  show "sound 0 (write_string v) (reader read_string) i v" 
    by (rule sound_reader[where bs = "leb (length v) @ v"])
      (use assms read_bytes_at(1) in \<open>simp_all add: write_string_def write_varint_leb n not_less\<close>)
  show "sound 0 (write_binary v) (reader read_binary) i v" 
    by (rule sound_reader[where bs = "leb (length v) @ v"])
      (use assms read_bytes_at(2) in \<open>simp_all add: write_binary_def write_varint_leb n not_less\<close>)
qed

lemma sound_some: "sound C w de i v \<Longrightarrow> sound C w (some de) i (Some v)"
  unfolding sound_def reads_def some_def by (fastforce split: prod.splits)

subsection \<open>Lists\<close>

lemma read_each_sound:
  assumes "\<And>x. x \<in> set xs \<Longrightarrow> sound C (w x) de v0 x"
  shows "\<exists>bs. (\<forall>e. eids e \<noteq> [] \<longrightarrow> run (map w xs) e = Some (append_bytes bs e))
    \<and> reads C (\<lambda>d _. read_each de d (replicate (length xs) v0)) () bs xs"
  using assms
proof (induction xs)
  case Nil
  show ?case by (rule exI[where x = "[]"]) (simp add: reads_def)
next
  case (Cons x xs)
  obtain b where b: "puts (w x) b" "reads C de v0 b x" using Cons.prems[of x] by (auto simp: sound_def)
  obtain bs where bs: "\<forall>e. eids e \<noteq> [] \<longrightarrow> run (map w xs) e = Some (append_bytes bs e)"
    "reads C (\<lambda>d _. read_each de d (replicate (length xs) v0)) () bs xs"
    using Cons.IH Cons.prems by auto
  have "reads C (\<lambda>d _. read_each de d (replicate (length (x # xs)) v0)) () (b @ bs) (x # xs)" unfolding reads_def
  proof (intro allI impI, elim conjE)
    fix d rest
    assume d: "at d ((b @ bs) @ rest)" "dids d \<noteq> []" "length (dids d) + C \<le> MAX_NESTING_DEPTH"
      "dtotal d + length (b @ bs) \<le> MAX_TOTAL_FIELDS"
    obtain d1 where 1: "de d v0 = (Inr x, d1)" "at d1 (bs @ rest)" "dids d1 = dids d" "dpos d1 = dpos d + length b" "dbuf d1 = dbuf d"
      "dtotal d1 \<le> dtotal d + length b" "dcount d1 \<le> max (dcount d) C"
      using b(2)[unfolded reads_def, rule_format, of d "bs @ rest"] d by auto
    obtain d2 where 2: "read_each de d1 (replicate (length xs) v0) = (Inr xs, d2)" "at d2 rest" "dids d2 = dids d1"
      "dpos d2 = dpos d1 + length bs" "dbuf d2 = dbuf d1" "dtotal d2 \<le> dtotal d1 + length bs" "dcount d2 \<le> max (dcount d1) C"
      using bs(2)[unfolded reads_def, rule_format, of d1 rest] d 1 by auto
    show "\<exists>d'. read_each de d (replicate (length (x # xs)) v0) = (Inr (x # xs), d') \<and> at d' rest \<and> dids d' = dids d
        \<and> dpos d' = dpos d + length (b @ bs) \<and> dbuf d' = dbuf d
        \<and> dtotal d' \<le> dtotal d + length (b @ bs) \<and> dcount d' \<le> max (dcount d) C"
      by (rule exI[where x = d2]) (use 1 2 in simp)
  qed
  moreover have "\<forall>e. eids e \<noteq> [] \<longrightarrow> run (map w (x # xs)) e = Some (append_bytes (b @ bs) e)"
    using b(1) bs(1) by (simp add: puts_def)
  ultimately show ?case by blast
qed

lemma sound_list:
  assumes "\<And>x. x \<in> set xs \<Longrightarrow> sound C (w x) de v0 x" "length xs \<le> bound" "bound \<le> MAX_COLLECTION_SIZE" "unat t < 16"
  shows "sound C (write_list t w xs) (list_of bound v0 de) [] xs"
proof -
  obtain bs where bs: "\<forall>e. eids e \<noteq> [] \<longrightarrow> run (map w xs) e = Some (append_bytes bs e)"
    "reads C (\<lambda>d _. read_each de d (replicate (length xs) v0)) () bs xs"
    using read_each_sound[of xs C w de v0] assms(1) by blast
  let ?h = "list_header_bytes t (length xs)"
  have n: "length xs \<le> MAX_COLLECTION_SIZE" using assms(2,3) by simp
  have "reads C (list_of bound v0 de) [] (?h @ bs) xs" unfolding reads_def
  proof (intro allI impI, elim conjE)
    fix d rest
    assume d: "at d ((?h @ bs) @ rest)" "dids d \<noteq> []" "length (dids d) + C \<le> MAX_NESTING_DEPTH"
      "dtotal d + length (?h @ bs) \<le> MAX_TOTAL_FIELDS"
    let ?d = "advance (length ?h) d"
    have h: "read_list_header d = ((t, length xs), ?d)" using read_list_header_at[of d t "length xs"] d(1) assms(4) n by simp
    have "at ?d (bs @ rest)" using at_advance[of d ?h] d(1) by simp
    then obtain d2 where 2: "read_each de ?d (replicate (length xs) v0) = (Inr xs, d2)" "at d2 rest" "dids d2 = dids ?d"
      "dpos d2 = dpos ?d + length bs" "dbuf d2 = dbuf ?d" "dtotal d2 \<le> dtotal ?d + length bs" "dcount d2 \<le> max (dcount ?d) C"
      using bs(2)[unfolded reads_def, rule_format, of ?d rest] d by auto
    show "\<exists>d'. list_of bound v0 de d [] = (Inr xs, d') \<and> at d' rest \<and> dids d' = dids d
        \<and> dpos d' = dpos d + length (?h @ bs) \<and> dbuf d' = dbuf d
        \<and> dtotal d' \<le> dtotal d + length (?h @ bs) \<and> dcount d' \<le> max (dcount d) C"
      by (rule exI[where x = d2]) (use 2 h assms(2) in \<open>simp add: list_of_def resize_def advance_def\<close>)
  qed
  moreover have "puts (write_list t w xs) (?h @ bs)"
    using bs(1) write_list_header_bytes[OF n] by (simp add: puts_def write_list_def)
  ultimately show ?thesis by (auto simp: sound_def)
qed

subsection \<open>Fields of a struct\<close>

definition writes :: "i16 \<Rightarrow> writer \<Rightarrow> bytes \<Rightarrow> i16 \<Rightarrow> bool" where
  "writes prev w bs prev' \<longleftrightarrow> (\<forall>e ids. eids e = prev # ids \<longrightarrow> w e = Some ((append_bytes bs e)\<lparr>eids := prev' # ids\<rparr>))"

text \<open>The loop \<open>h\<close> reads the bytes of the fields \<open>ws\<close> and turns the object \<open>x\<close> into \<open>x'\<close>.\<close>

definition loops :: "nat \<Rightarrow> (i16 \<Rightarrow> 'x field_reader) \<Rightarrow> nat \<Rightarrow> i16 \<Rightarrow> bytes \<Rightarrow> i16 \<Rightarrow> 'x \<Rightarrow> 'x \<Rightarrow> bool" where
  "loops C h l prev bs prev' x x' \<longleftrightarrow> (\<forall>d rest ids k.
     at d (bs @ rest) \<and> dids d = prev # ids \<and> length (dids d) + C \<le> MAX_NESTING_DEPTH \<and> dtotal d + length bs \<le> MAX_TOTAL_FIELDS
       \<and> dcount d \<le> k \<and> C \<le> k \<and> k + l \<le> MAX_FIELD_COUNT \<longrightarrow>
     (\<exists>n d'. n \<le> length bs \<and> (\<forall>f. struct_loop (n + f) h d x = struct_loop f h d' x') \<and> at d' rest \<and> dids d' = prev' # ids
       \<and> dpos d' = dpos d + length bs \<and> dbuf d' = dbuf d \<and> dtotal d' \<le> dtotal d + length bs \<and> dcount d' \<le> k + l))"

definition codes :: "nat \<Rightarrow> (i16 \<Rightarrow> 'x field_reader) \<Rightarrow> writer list \<Rightarrow> 'x \<Rightarrow> 'x \<Rightarrow> bool" where
  "codes C h ws x x' \<longleftrightarrow> (\<forall>prev. \<exists>bs prev'. writes prev (run ws) bs prev' \<and> loops C h (length ws) prev bs prev' x x')"

lemma append_bytes_ids [simp]: "append_bytes bs (e\<lparr>eids := ids\<rparr>) = (append_bytes bs e)\<lparr>eids := ids\<rparr>"
  by (simp add: append_bytes_def)

lemma run_append: "run (as @ bs) e = (case run as e of None \<Rightarrow> None | Some e' \<Rightarrow> run bs e')"
  by (induction as arbitrary: e) (auto split: option.splits)

lemma loops_Nil: "loops C h l prev [] prev x x"
  unfolding loops_def by (intro allI impI exI[where x = 0] exI, rule conjI[rotated], rule conjI[rotated]) auto

lemma codec_Nil: "codes C h [] x x"
proof -
  have "writes prev (run []) [] prev \<and> loops C h (length []) prev [] prev x x" for prev
    using loops_Nil[of C h _ prev x] by (simp add: writes_def append_bytes_def)
  then show ?thesis unfolding codes_def by blast
qed

lemma loops_append:
  assumes "loops C h l prev bs prev' x y" "loops C h m prev' cs prev'' y z"
  shows "loops C h (l + m) prev (bs @ cs) prev'' x z"
  unfolding loops_def
proof (intro allI impI, elim conjE)
  fix d rest ids k
  assume d: "at d ((bs @ cs) @ rest)" "dids d = prev # ids" "length (dids d) + C \<le> MAX_NESTING_DEPTH"
    "dtotal d + length (bs @ cs) \<le> MAX_TOTAL_FIELDS" "dcount d \<le> k" "C \<le> k" "k + (l + m) \<le> MAX_FIELD_COUNT"
  obtain n1 d1 where 1: "n1 \<le> length bs" "\<forall>f. struct_loop (n1 + f) h d x = struct_loop f h d1 y" "at d1 (cs @ rest)" "dids d1 = prev' # ids"
    "dpos d1 = dpos d + length bs" "dbuf d1 = dbuf d" "dtotal d1 \<le> dtotal d + length bs" "dcount d1 \<le> k + l"
    using assms(1)[unfolded loops_def, rule_format, of d "cs @ rest" ids k] d by auto
  obtain n2 d2 where 2: "n2 \<le> length cs" "\<forall>f. struct_loop (n2 + f) h d1 y = struct_loop f h d2 z" "at d2 rest" "dids d2 = prev'' # ids"
    "dpos d2 = dpos d1 + length cs" "dbuf d2 = dbuf d1" "dtotal d2 \<le> dtotal d1 + length cs" "dcount d2 \<le> k + l + m"
    using assms(2)[unfolded loops_def, rule_format, of d1 rest ids "k + l"] d 1 by auto
  have "struct_loop (n1 + n2 + f) h d x = struct_loop f h d2 z" for f
    using 1(2) 2(2) by (simp only: add.assoc)
  then show "\<exists>n d'. n \<le> length (bs @ cs) \<and> (\<forall>f. struct_loop (n + f) h d x = struct_loop f h d' z) \<and> at d' rest \<and> dids d' = prev'' # ids
       \<and> dpos d' = dpos d + length (bs @ cs) \<and> dbuf d' = dbuf d \<and> dtotal d' \<le> dtotal d + length (bs @ cs) \<and> dcount d' \<le> k + (l + m)"
    by (intro exI[where x = "n1 + n2"] exI[where x = d2]) (use 1 2 in simp)
qed

lemma codec_append: "codes C h ws x y \<Longrightarrow> codes C h vs y z \<Longrightarrow> codes C h (ws @ vs) x z"
proof -
  assume w: "codes C h ws x y" and v: "codes C h vs y z"
  show ?thesis unfolding codes_def
  proof
    fix prev
    obtain bs p where 1: "writes prev (run ws) bs p" "loops C h (length ws) prev bs p x y" using w unfolding codes_def by blast
    obtain cs q where 2: "writes p (run vs) cs q" "loops C h (length vs) p cs q y z" using v unfolding codes_def by blast
    have "writes prev (run (ws @ vs)) (bs @ cs) q" using 1(1) 2(1) by (simp add: writes_def run_append)
    moreover have "loops C h (length (ws @ vs)) prev (bs @ cs) q x z" using loops_append[OF 1(2) 2(2)] by simp
    ultimately show "\<exists>bs prev'. writes prev (run (ws @ vs)) bs prev' \<and> loops C h (length (ws @ vs)) prev bs prev' x z" by blast
  qed
qed

lemma codec_Cons: "codes C h [w] x y \<Longrightarrow> codes C h ws y z \<Longrightarrow> codes C h (w # ws) x z"
  using codec_append[of C h "[w]" x y ws z] by simp

lemma at_enter [simp]: "at (enter_field fid t d) rest \<longleftrightarrow> at d rest"
  by (simp add: enter_field_def at_def)

lemma header_bytes_nonempty [simp]: "header_bytes prev fid t \<noteq> []"
  by (simp add: header_bytes_def)

text \<open>One field in the loop: behind its header the case \<open>f\<close> reads \<open>bs\<close>.\<close>

lemma loops_field:
  assumes cas: "map_of cases fid = Some f" and t: "unat t < 16" "t \<noteq> 0"
    and rd: "\<And>d rest ids. at d (bs @ rest) \<Longrightarrow> dids d = fid # ids \<Longrightarrow> length (dids d) + C \<le> MAX_NESTING_DEPTH
      \<Longrightarrow> dtotal d + length bs \<le> MAX_TOTAL_FIELDS \<Longrightarrow> (t = T_TRUE \<or> t = T_FALSE \<Longrightarrow> dbool_valid d \<and> dbool d = (t = T_TRUE))
      \<Longrightarrow> \<exists>d'. f t d x = (Inr x', d') \<and> at d' rest \<and> dids d' = dids d \<and> dpos d' = dpos d + length bs \<and> dbuf d' = dbuf d
        \<and> dtotal d' \<le> dtotal d + length bs \<and> dcount d' \<le> max (dcount d) C"
  shows "loops C (switch cases) 1 prev (header_bytes prev fid t @ bs) fid x x'"
  unfolding loops_def
proof (intro allI impI, elim conjE)
  fix d rest ids k
  let ?h = "header_bytes prev fid t"
  assume d: "at d ((?h @ bs) @ rest)" "dids d = prev # ids" "length (dids d) + C \<le> MAX_NESTING_DEPTH"
    "dtotal d + length (?h @ bs) \<le> MAX_TOTAL_FIELDS" "dcount d \<le> k" "C \<le> k" "k + 1 \<le> MAX_FIELD_COUNT"
  let ?d = "enter_field fid t (advance (length ?h) d)"
  have l: "0 < length ?h" by simp
  have c: "dcount d < MAX_FIELD_COUNT" "dtotal d < MAX_TOTAL_FIELDS" using d(4-7) l by (simp_all only: length_append)
  have r: "read_field_header d = ((fid, t), ?d)"
    by (rule read_header_at[OF _ d(2) t c]) (use d(1) in simp)
  have a: "at ?d (bs @ rest)" using at_advance[of d ?h] d(1) by simp
  have e: "dids ?d = fid # ids" "dcount ?d = dcount d + 1" "dtotal ?d = dtotal d + 1" "dpos ?d = dpos d + length ?h" "dbuf ?d = dbuf d"
    using d(2) by (simp_all add: enter_field_def advance_def)
  have g: "good ?d" using a by (simp add: at_def good_def)
  have b: "t = T_TRUE \<or> t = T_FALSE \<Longrightarrow> dbool_valid ?d \<and> dbool ?d = (t = T_TRUE)"
    by (auto simp: enter_field_def T_TRUE_def T_FALSE_def)
  have n: "length (dids ?d) + C \<le> MAX_NESTING_DEPTH" using d(2,3) e(1) by simp
  have tot: "dtotal ?d + length bs \<le> MAX_TOTAL_FIELDS" using d(4) l unfolding e(3) length_append by linarith
  obtain d' where 1: "f t ?d x = (Inr x', d')" "at d' rest" "dids d' = dids ?d" "dpos d' = dpos ?d + length bs" "dbuf d' = dbuf ?d"
    "dtotal d' \<le> dtotal ?d + length bs" "dcount d' \<le> max (dcount ?d) C"
    using rd[OF a e(1) n tot b] by blast
  have s: "struct_loop (1 + f) (switch cases) d x = struct_loop f (switch cases) d' x'" for f
    using r g 1(1) t(2) cas by (simp add: switch_def T_STOP_def struct_loop.simps)
  have "1 \<le> length (?h @ bs)" "dpos d' = dpos d + length (?h @ bs)" "dtotal d' \<le> dtotal d + length (?h @ bs)" "dcount d' \<le> k + 1"
    using 1(4,6,7) e(2-4) d(5,6) l unfolding length_append by linarith+
  then show "\<exists>n d'. n \<le> length (?h @ bs) \<and> (\<forall>f. struct_loop (n + f) (switch cases) d x = struct_loop f (switch cases) d' x') \<and> at d' rest
       \<and> dids d' = fid # ids \<and> dpos d' = dpos d + length (?h @ bs) \<and> dbuf d' = dbuf d
       \<and> dtotal d' \<le> dtotal d + length (?h @ bs) \<and> dcount d' \<le> k + 1"
    using 1(2,3,5) e(1,5) s by (intro exI[where x = 1] exI[where x = d']) simp
qed

lemma writes_field:
  "puts w bs \<Longrightarrow> writes prev (put_field fid t w) (header_bytes prev fid t @ bs) fid"
  "writes prev (write_field_bool fid b) (header_bytes prev fid (if b then T_TRUE else T_FALSE)) fid"
  by (auto simp: writes_def puts_def put_field_def write_field_bytes)

lemma codec_single:
  "(\<And>prev. \<exists>bs prev'. writes prev w bs prev' \<and> loops C h 1 prev bs prev' x x') \<Longrightarrow> codes C h [w] x x'"
proof -
  have "run [w] = w" by (simp add: fun_eq_iff split: option.split)
  then show "(\<And>prev. \<exists>bs prev'. writes prev w bs prev' \<and> loops C h 1 prev bs prev' x x') \<Longrightarrow> codes C h [w] x x'"
    by (simp add: codes_def)
qed

lemma codec_field:
  assumes "map_of cases fid = Some (field types de get upd)" "sound C' w de (get x) v" "C' \<le> C"
    and "t \<in> set types" "unat t < 16" "t \<noteq> 0"
  shows "codes C (switch cases) [put_field fid t w] x (upd (\<lambda>_. v) x)"
proof (rule codec_single)
  fix prev
  obtain bs where bs: "puts w bs" "reads C de (get x) bs v" using sound_mono[OF assms(2,3)] by (auto simp: sound_def)
  have "loops C (switch cases) 1 prev (header_bytes prev fid t @ bs) fid x (upd (\<lambda>_. v) x)"
  proof (rule loops_field[OF assms(1,5,6)])
    fix d rest ids
    assume "at d (bs @ rest)" "dids d = fid # ids" "length (dids d) + C \<le> MAX_NESTING_DEPTH" "dtotal d + length bs \<le> MAX_TOTAL_FIELDS"
    then obtain d' where "de d (get x) = (Inr v, d')" "at d' rest \<and> dids d' = dids d \<and> dpos d' = dpos d + length bs \<and> dbuf d' = dbuf d
        \<and> dtotal d' \<le> dtotal d + length bs \<and> dcount d' \<le> max (dcount d) C"
      using bs(2) unfolding reads_def by (metis list.distinct(1))
    then show "\<exists>d'. field types de get upd t d x = (Inr (upd (\<lambda>_. v) x), d') \<and> at d' rest \<and> dids d' = dids d \<and> dpos d' = dpos d + length bs \<and> dbuf d' = dbuf d
        \<and> dtotal d' \<le> dtotal d + length bs \<and> dcount d' \<le> max (dcount d) C"
      using assms(4) by (intro exI[where x = d']) (simp add: field_def)
  qed
  then show "\<exists>bs prev'. writes prev (put_field fid t w) bs prev' \<and> loops C (switch cases) 1 prev bs prev' x (upd (\<lambda>_. v) x)"
    using writes_field(1)[OF bs(1)] by blast
qed

text \<open>A boolean field has its value in the header; \<open>de\<close> is \<^verbatim>\<open>read_bool\<close>, possibly stored as an option.\<close>

lemma codec_bool_gen:
  assumes "map_of cases fid = Some (field [T_TRUE, T_FALSE] de get upd)"
    and de: "\<And>d. dbool_valid d \<Longrightarrow> de d (get x) = (Inr (f (dbool d)), d\<lparr>dbool_valid := False\<rparr>)"
  shows "codes C (switch cases) [write_field_bool fid b] x (upd (\<lambda>_. f b) x)"
proof (rule codec_single)
  fix prev
  let ?t = "if b then T_TRUE else T_FALSE"
  have t: "unat ?t < 16" "?t \<noteq> 0" "?t \<in> set [T_TRUE, T_FALSE]" "(?t = T_TRUE) = b" by (auto simp: T_TRUE_def T_FALSE_def)
  have "loops C (switch cases) 1 prev (header_bytes prev fid ?t @ []) fid x (upd (\<lambda>_. f b) x)"
  proof (rule loops_field[OF assms(1) t(1,2)])
    fix d rest ids
    assume d: "at d ([] @ rest)" "?t = T_TRUE \<or> ?t = T_FALSE \<Longrightarrow> dbool_valid d \<and> dbool d = (?t = T_TRUE)"
    then have "de d (get x) = (Inr (f b), d\<lparr>dbool_valid := False\<rparr>)" using de[of d] t(4) by auto
    then have "field [T_TRUE, T_FALSE] de get upd ?t d x = (Inr (upd (\<lambda>_. f b) x), d\<lparr>dbool_valid := False\<rparr>)"
      using t(3) by (simp only: field_def) simp
    then show "\<exists>d'. field [T_TRUE, T_FALSE] de get upd ?t d x = (Inr (upd (\<lambda>_. f b) x), d') \<and> at d' rest \<and> dids d' = dids d
        \<and> dpos d' = dpos d + length ([] :: bytes) \<and> dbuf d' = dbuf d \<and> dtotal d' \<le> dtotal d + length ([] :: bytes) \<and> dcount d' \<le> max (dcount d) C"
      using d(1) by (intro exI[where x = "d\<lparr>dbool_valid := False\<rparr>"]) (simp add: at_def)
  qed
  then show "\<exists>bs prev'. writes prev (write_field_bool fid b) bs prev' \<and> loops C (switch cases) 1 prev bs prev' x (upd (\<lambda>_. f b) x)"
    using writes_field(2)[of prev fid b] by auto
qed

lemma codec_bool:
  "map_of cases fid = Some (field [T_TRUE, T_FALSE] (reader read_bool) get upd)
    \<Longrightarrow> codes C (switch cases) [write_field_bool fid b] x (upd (\<lambda>_. b) x)"
  by (rule codec_bool_gen[where f = "\<lambda>b. b"], assumption) (simp add: reader_def read_bool_def)

lemma codec_opt_None: "codes C h [opt None w] x x"
proof (rule codec_single)
  fix prev
  have "writes prev (opt None w) [] prev \<and> loops C h 1 prev [] prev x x"
    using loops_Nil[of C h 1 prev x] by (simp add: writes_def append_bytes_def opt_def)
  then show "\<exists>bs prev'. writes prev (opt None w) bs prev' \<and> loops C h 1 prev bs prev' x x" by blast
qed

text \<open>An optional field of an object whose field is still empty.\<close>

lemma codec_opt:
  assumes "map_of cases fid = Some (field types (some de) get upd)" "\<And>v. ov = Some v \<Longrightarrow> sound C' (w v) de (get x) v" "C' \<le> C"
    and "t \<in> set types" "unat t < 16" "t \<noteq> 0" "upd (\<lambda>_. None) x = x"
  shows "codes C (switch cases) [opt ov (\<lambda>v. put_field fid t (w v))] x (upd (\<lambda>_. ov) x)"
proof (cases ov)
  case None
  then show ?thesis using codec_opt_None assms(7) by simp
next
  case (Some v)
  then show ?thesis using codec_field[OF assms(1) sound_some[OF assms(2)] assms(3-6), of v] by (simp add: opt_def)
qed

lemma codec_opt_bool:
  assumes "map_of cases fid = Some (field [T_TRUE, T_FALSE] (some (reader read_bool)) get upd)" "upd (\<lambda>_. None) x = x"
  shows "codes C (switch cases) [opt ov (write_field_bool fid)] x (upd (\<lambda>_. ov) x)"
proof (cases ov)
  case None
  then show ?thesis using codec_opt_None assms(2) by simp
next
  case (Some v)
  have "codes C (switch cases) [write_field_bool fid v] x (upd (\<lambda>_. Some v) x)"
    by (rule codec_bool_gen[OF assms(1)]) (simp add: some_def reader_def read_bool_def)
  then show ?thesis by (simp add: opt_def Some)
qed

subsection \<open>Structs\<close>

lemma stop_at: "at d (0 # rest) \<Longrightarrow> read_field_header d = ((0, 0), advance 1 d)"
  using at_ensure1 at_byte by (simp add: read_field_header_def Let_def)

lemma write_struct_puts: "writes 0 (run ws) bs p \<Longrightarrow> puts (write_struct ws) (bs @ [0])"
  by (simp add: puts_def write_struct_def writes_def run_append enc_begin_struct_def write_stop_def enc_end_struct_def append_bytes_def)

lemma sound_struct:
  assumes "codes C h ws x v" "Suc (C + length ws) \<le> C'"
  shows "sound C' (write_struct ws) (read_struct h) x v"
proof -
  obtain bs p where 1: "writes 0 (run ws) bs p" "loops C h (length ws) 0 bs p x v" using assms(1) unfolding codes_def by blast
  have "reads C' (read_struct h) x (bs @ [0]) v" unfolding reads_def
  proof (intro allI impI, elim conjE)
    fix d rest
    assume d: "at d ((bs @ [0]) @ rest)" "dids d \<noteq> []" "length (dids d) + C' \<le> MAX_NESTING_DEPTH"
      "dtotal d + length (bs @ [0]) \<le> MAX_TOTAL_FIELDS"
    let ?d = "begin_struct d"
    have b: "?d = d\<lparr>dids := 0 # dids d, dcount := 0\<rparr>" using d(3) assms(2) by (simp add: begin_struct_def)
    have a: "at ?d (bs @ 0 # rest)" using d(1) by (simp add: b at_def)
    have g: "good ?d" using a by (simp add: at_def good_def)
    have m: "C + length ws \<le> MAX_FIELD_COUNT" using d(3) assms(2) by (simp add: MAX_NESTING_DEPTH_def MAX_FIELD_COUNT_def)
    obtain n d' where 2: "n \<le> length bs" "\<forall>f. struct_loop (n + f) h ?d x = struct_loop f h d' v" "at d' (0 # rest)" "dids d' = p # dids d"
      "dpos d' = dpos ?d + length bs" "dbuf d' = dbuf ?d" "dtotal d' \<le> dtotal ?d + length bs" "dcount d' \<le> C + length ws"
      using 1(2)[unfolded loops_def, rule_format, of ?d "0 # rest" "dids d" C] a d m assms(2) by (auto simp: b)
    have "length bs < remaining ?d" using at_length[OF a] by (simp add: remaining_def)
    then obtain f where nf: "Suc (remaining ?d) = n + Suc f" using 2(1) by (metis add_Suc_right le_Suc_ex less_imp_le order_trans)
    then have l: "struct_loop (Suc (remaining ?d)) h ?d x = (Inr v, advance 1 d')"
      unfolding nf using 2(2) stop_at[OF 2(3)] by (simp only: struct_loop.simps(2)) (simp add: T_STOP_def)
    let ?e = "d'\<lparr>dpos := dpos d' + 1, dids := dids d\<rparr>"
    have e: "end_struct (advance 1 d') = ?e" using 2(4) by (simp add: end_struct_def advance_def)
    have a': "at ?e rest" using at_advance[of d' "[0]"] 2(3) by (simp add: at_def advance_def)
    then have ge: "good ?e" by (simp add: at_def good_def)
    have "read_struct h d x = (Inr v, ?e)"
      by (simp only: read_struct_def Let_def l prod.case sum.case g e ge if_False not_True_eq_False)
    moreover have "dpos ?e = dpos d + length (bs @ [0])" "dbuf ?e = dbuf d" "dtotal ?e \<le> dtotal d + length (bs @ [0])"
      "dcount ?e \<le> max (dcount d) C'" using 2(5-8) assms(2) by (simp_all add: b)
    ultimately show "\<exists>d'. read_struct h d x = (Inr v, d') \<and> at d' rest \<and> dids d' = dids d \<and> dpos d' = dpos d + length (bs @ [0]) \<and> dbuf d' = dbuf d
       \<and> dtotal d' \<le> dtotal d + length (bs @ [0]) \<and> dcount d' \<le> max (dcount d) C'"
      using a' by (intro exI[where x = ?e]) simp
  qed
  then show ?thesis using write_struct_puts[OF 1(1)] by (auto simp: sound_def)
qed

lemma sound_required:
  assumes "codes C h ws (x, 0) (v, seen)" "Suc (C + length ws) \<le> C'" "seen AND m = m"
  shows "sound C' (write_struct ws) (read_required m h) x v"
proof -
  have "sound C' (write_struct ws) (read_struct h) (x, 0) (v, seen)" by (rule sound_struct[OF assms(1,2)])
  then show ?thesis unfolding sound_def reads_def read_required_def using assms(3) by fastforce
qed

lemma sound_empty_struct: "sound 1 empty_struct skip_struct i ()"
proof -
  have "reads 1 skip_struct i [0] ()" unfolding reads_def
  proof (intro allI impI, elim conjE)
    fix d rest
    assume d: "at d ([0] @ rest)" "dids d \<noteq> []" "length (dids d) + 1 \<le> MAX_NESTING_DEPTH"
    let ?d = "begin_struct d"
    have b: "?d = d\<lparr>dids := 0 # dids d, dcount := 0\<rparr>" using d(3) by (simp add: begin_struct_def)
    have a: "at ?d (0 # rest)" using d(1) by (simp add: b at_def)
    have e: "end_struct (advance 1 ?d) = d\<lparr>dpos := dpos d + 1, dcount := 0\<rparr>" by (simp add: end_struct_def b advance_def)
    have f: "2 * remaining d + 2 = Suc (Suc (2 * remaining d))" by simp
    have "skip_fields (Suc (2 * remaining d)) ?d = Some (advance 1 ?d)"
      using stop_at[OF a] a by (simp add: skip_fields.simps(2) is_stop_def good_def at_def)
    then have "skip_field (2 * remaining d + 2) T_STRUCT d = Some (end_struct (advance 1 ?d))"
      unfolding f by (subst skip_field.simps(2)) (simp add: wire_types)
    then have s: "skip T_STRUCT d = d\<lparr>dpos := dpos d + 1, dcount := 0\<rparr>" by (simp only: skip_def option.case e)
    show "\<exists>d'. skip_struct d i = (Inr (), d') \<and> at d' rest \<and> dids d' = dids d \<and> dpos d' = dpos d + length [0 :: u8] \<and> dbuf d' = dbuf d
       \<and> dtotal d' \<le> dtotal d + length [0 :: u8] \<and> dcount d' \<le> max (dcount d) 1"
      by (intro exI[where x = "skip T_STRUCT d"]) (use at_advance[of d "[0]" rest] d(1) in \<open>simp add: skip_struct_def s at_def advance_def\<close>)
  qed
  moreover have "puts empty_struct [0]"
    by (simp add: puts_def empty_struct_def enc_begin_struct_def write_stop_def enc_end_struct_def append_bytes_def)
  ultimately show ?thesis by (auto simp: sound_def)
qed

subsection \<open>Stepping through the fields of a struct\<close>

text \<open>One rule per kind of field call, for the field at the head of the list.\<close>

abbreviation i8_field where "i8_field upd \<equiv> field [T_I8] (reader read_i8) (\<lambda>_. ()) upd"
abbreviation i32_field where "i32_field upd \<equiv> field [T_I32] (reader read_i32) (\<lambda>_. ()) upd"
abbreviation i64_field where "i64_field upd \<equiv> field [T_I64] (reader read_i64) (\<lambda>_. ()) upd"
abbreviation bool_field where "bool_field upd \<equiv> field [T_TRUE, T_FALSE] (reader read_bool) (\<lambda>_. ()) upd"
abbreviation string_field where "string_field upd \<equiv> field [T_BINARY] (reader read_string) (\<lambda>_. ()) upd"
abbreviation unit_field where "unit_field upd \<equiv> field [T_STRUCT] skip_struct (\<lambda>_. ()) upd"
abbreviation opt_i32_field where "opt_i32_field upd \<equiv> field [T_I32] (some (reader read_i32)) (\<lambda>_. ()) upd"
abbreviation opt_i64_field where "opt_i64_field upd \<equiv> field [T_I64] (some (reader read_i64)) (\<lambda>_. ()) upd"
abbreviation opt_bool_field where "opt_bool_field upd \<equiv> field [T_TRUE, T_FALSE] (some (reader read_bool)) (\<lambda>_. ()) upd"
abbreviation opt_string_field where "opt_string_field upd \<equiv> field [T_BINARY] (some (reader read_string)) (\<lambda>_. ()) upd"
abbreviation opt_binary_field where "opt_binary_field upd \<equiv> field [T_BINARY] (some (reader read_binary)) (\<lambda>_. ()) upd"
abbreviation opt_struct_field where "opt_struct_field v0 de upd \<equiv> field [T_STRUCT] (some de) (\<lambda>_. v0) upd"

lemma type_nibbles [simp]:
  "unat T_I8 < 16" "unat T_I32 < 16" "unat T_I64 < 16" "unat T_BINARY < 16" "unat T_LIST < 16" "unat T_STRUCT < 16"
  "T_I8 \<noteq> 0" "T_I32 \<noteq> 0" "T_I64 \<noteq> 0" "T_BINARY \<noteq> 0" "T_LIST \<noteq> 0" "T_STRUCT \<noteq> 0"
  by (simp_all add: wire_types)

lemma step_field:
  assumes "map_of cases fid = Some (field [t] de get upd)" "sound C' w de (get x) v" "C' \<le> C" "unat t < 16" "t \<noteq> 0"
    and "codes C (switch cases) ws (upd (\<lambda>_. v) x) z"
  shows "codes C (switch cases) (put_field fid t w # ws) x z"
  using codec_Cons[OF codec_field[OF assms(1-3)] assms(6)] assms(4,5) by simp

lemma step_opt:
  assumes "map_of cases fid = Some (field [t] (some de) get upd)" "\<And>v. ov = Some v \<Longrightarrow> sound C' (w v) de (get x) v" "C' \<le> C"
    and "unat t < 16" "t \<noteq> 0" "upd (\<lambda>_. None) x = x" "codes C (switch cases) ws (upd (\<lambda>_. ov) x) z"
  shows "codes C (switch cases) (opt ov (\<lambda>v. put_field fid t (w v)) # ws) x z"
  using codec_Cons[OF codec_opt[OF assms(1-3)] assms(7)] assms(4-6) by simp

lemma steps:
  "map_of cs i = Some (i8_field upd1) \<Longrightarrow> codes C (switch cs) ws (upd1 (\<lambda>_. v1) x) z
    \<Longrightarrow> codes C (switch cs) (put_field i T_I8 (write_i8 v1) # ws) x z"
  "map_of cs i = Some (i32_field upd2) \<Longrightarrow> codes C (switch cs) ws (upd2 (\<lambda>_. v2) x) z
    \<Longrightarrow> codes C (switch cs) (put_field i T_I32 (write_i32 v2) # ws) x z"
  "map_of cs i = Some (i64_field upd3) \<Longrightarrow> codes C (switch cs) ws (upd3 (\<lambda>_. v3) x) z
    \<Longrightarrow> codes C (switch cs) (put_field i T_I64 (write_i64 v3) # ws) x z"
  "map_of cs i = Some (bool_field upd4) \<Longrightarrow> codes C (switch cs) ws (upd4 (\<lambda>_. v4) x) z
    \<Longrightarrow> codes C (switch cs) (write_field_bool i v4 # ws) x z"
  "map_of cs i = Some (unit_field upd5) \<Longrightarrow> 1 \<le> C \<Longrightarrow> codes C (switch cs) ws (upd5 (\<lambda>_. ()) x) z
    \<Longrightarrow> codes C (switch cs) (put_field i T_STRUCT empty_struct # ws) x z"
  by (rule step_field codec_Cons[OF codec_bool] | rule sound_i8 sound_i32 sound_i64 sound_empty_struct | assumption | simp)+

lemma string_steps:
  "map_of cs i = Some (string_field upd1) \<Longrightarrow> length v1 \<le> MAX_STRING_BYTES \<Longrightarrow> codes C (switch cs) ws (upd1 (\<lambda>_. v1) x) z
    \<Longrightarrow> codes C (switch cs) (put_field i T_BINARY (write_string v1) # ws) x z"
  "map_of cs i = Some (opt_string_field upd2) \<Longrightarrow> pred_option (\<lambda>v. length v \<le> MAX_STRING_BYTES) v2 \<and> upd2 (\<lambda>_. None) x = x
    \<Longrightarrow> codes C (switch cs) ws (upd2 (\<lambda>_. v2) x) z \<Longrightarrow> codes C (switch cs) (opt v2 (\<lambda>s. put_field i T_BINARY (write_string s)) # ws) x z"
  "map_of cs i = Some (opt_binary_field upd3) \<Longrightarrow> pred_option (\<lambda>v. length v \<le> MAX_STRING_BYTES) v3 \<and> upd3 (\<lambda>_. None) x = x
    \<Longrightarrow> codes C (switch cs) ws (upd3 (\<lambda>_. v3) x) z \<Longrightarrow> codes C (switch cs) (opt v3 (\<lambda>s. put_field i T_BINARY (write_binary s)) # ws) x z"
  by (rule step_field step_opt | rule sound_bytes | assumption | simp)+

lemma opt_steps:
  "map_of cs i = Some (opt_i32_field upd1) \<Longrightarrow> upd1 (\<lambda>_. None) x = x \<Longrightarrow> codes C (switch cs) ws (upd1 (\<lambda>_. v1) x) z
    \<Longrightarrow> codes C (switch cs) (opt v1 (\<lambda>v. put_field i T_I32 (write_i32 v)) # ws) x z"
  "map_of cs i = Some (opt_i64_field upd2) \<Longrightarrow> upd2 (\<lambda>_. None) x = x \<Longrightarrow> codes C (switch cs) ws (upd2 (\<lambda>_. v2) x) z
    \<Longrightarrow> codes C (switch cs) (opt v2 (\<lambda>v. put_field i T_I64 (write_i64 v)) # ws) x z"
  "map_of cs i = Some (opt_bool_field upd3) \<Longrightarrow> upd3 (\<lambda>_. None) x = x \<Longrightarrow> codes C (switch cs) ws (upd3 (\<lambda>_. v3) x) z
    \<Longrightarrow> codes C (switch cs) (opt v3 (write_field_bool i) # ws) x z"
  by (rule step_opt codec_Cons[OF codec_opt_bool] | rule sound_i32 sound_i64 | assumption | simp)+

lemma step_end: "x = z \<Longrightarrow> codes C h [] x z"
  by (simp add: codec_Nil)

lemma reads_new:
  assumes "reads C de i bs v" "C < MAX_NESTING_DEPTH" "length bs \<le> MAX_TOTAL_FIELDS"
  shows "\<exists>d. de (decoder_new (bs @ rest)) i = (Inr v, d) \<and> dpos d = length bs \<and> good d"
  using assms(1)[unfolded reads_def, rule_format, of "decoder_new (bs @ rest)" rest] assms(2,3)
  by (auto simp: at_def good_def decoder_new_def)

section \<open>The interface of a serialised type\<close>

text \<open>
  What the metadata types promise to the code that embeds them and to the readers and writers of files:
  \<open>init\<close> is the default-constructed object, \<open>ok\<close> the values the encoder can represent.
\<close>

locale thrift_type =
  fixes ser :: "'a \<Rightarrow> writer" and de :: "('a, 'a) decoder" and init :: 'a and ok :: "'a \<Rightarrow> bool" and C :: nat
  assumes sound_type: "ok v \<Longrightarrow> sound C (ser v) de init v"
    and safe_type: "safe de"
    and levels: "C < MAX_NESTING_DEPTH"
begin

lemma encode_decode:
  assumes "ok v"
  shows "\<exists>bs. ser v encoder_new = Some (append_bytes bs encoder_new) \<and>
    (length bs \<le> MAX_TOTAL_FIELDS \<longrightarrow> (\<forall>rest. \<exists>d. de (decoder_new (bs @ rest)) init = (Inr v, d) \<and> dpos d = length bs \<and> good d))"
proof -
  obtain bs where bs: "puts (ser v) bs" "reads C de init bs v" using sound_type[OF assms] by (auto simp: sound_def)
  have "\<exists>d. de (decoder_new (bs @ rest)) init = (Inr v, d) \<and> dpos d = length bs \<and> good d" if "length bs \<le> MAX_TOTAL_FIELDS" for rest
    by (rule reads_new[OF bs(2) levels that])
  then show ?thesis using bs(1) by (intro exI[where x = bs]) (simp add: puts_def encoder_new_def)
qed

lemma encoding_unique:
  assumes "ok v" "ok w" "ser v encoder_new = Some e" "ser w encoder_new = Some e'" "ebuf e' = ebuf e @ rest"
    and "length (ebuf e) \<le> MAX_TOTAL_FIELDS" "length (ebuf e') \<le> MAX_TOTAL_FIELDS"
  shows "v = w \<and> rest = []"
proof -
  obtain bs where 1: "ser v encoder_new = Some (append_bytes bs encoder_new)"
    "length bs \<le> MAX_TOTAL_FIELDS \<longrightarrow> (\<forall>rest. \<exists>d. de (decoder_new (bs @ rest)) init = (Inr v, d) \<and> dpos d = length bs \<and> good d)"
    using encode_decode[OF assms(1)] by blast
  obtain cs where 2: "ser w encoder_new = Some (append_bytes cs encoder_new)"
    "length cs \<le> MAX_TOTAL_FIELDS \<longrightarrow> (\<forall>rest. \<exists>d. de (decoder_new (cs @ rest)) init = (Inr w, d) \<and> dpos d = length cs \<and> good d)"
    using encode_decode[OF assms(2)] by blast
  have b: "bs = ebuf e" "cs = bs @ rest" using 1(1) 2(1) assms(3-5) by (auto simp: append_bytes_def encoder_new_def)
  have l: "length bs \<le> MAX_TOTAL_FIELDS" "length cs \<le> MAX_TOTAL_FIELDS"
    using assms(5-7) by (simp_all only: b)
  obtain d where d: "de (decoder_new (bs @ rest)) init = (Inr v, d)" "dpos d = length bs"
    using 1(2)[rule_format, OF l(1), of rest] by (elim exE conjE)
  obtain d' where "de (decoder_new (cs @ [])) init = (Inr w, d')" "dpos d' = length cs"
    using 2(2)[rule_format, OF l(2), of "[]"] by (elim exE conjE)
  then have "Inr v = (Inr w :: 'a expected)" "length bs = length cs" using d by (simp_all add: b(2))
  then show ?thesis by (simp add: b(2))
qed

lemma decode_total:
  "case de d init of (Inr v, d') \<Rightarrow> moves d d' | (Inl e, d') \<Rightarrow> moves d d' \<and> e = THRIFT_DECODE_ERROR"
proof -
  obtain r d' where "de d init = (r, d')" by fastforce
  then show ?thesis using safeD[OF safe_type, of d init] by (cases r) auto
qed

lemma sound_elements:
  "list_all ok xs \<Longrightarrow> length xs \<le> bound \<Longrightarrow> bound \<le> MAX_COLLECTION_SIZE
    \<Longrightarrow> sound C (write_list T_STRUCT ser xs) (list_of bound init de) [] xs"
  by (rule sound_list) (auto simp: list_all_iff sound_type T_STRUCT_def)

end

end
