(* ===== verification/ParquetTypes.thy ===== *)
theory ParquetTypes
  imports ThriftStruct
begin

text \<open>
  The metadata structs of \<^verbatim>\<open>include/signet/thrift/types.hpp\<close> up to the page headers: the logical types,
  statistics, key-value pairs, schema elements and the headers of pages.  An enumeration that the code
  casts from an \<^verbatim>\<open>int32_t\<close> without a check is a \<open>32 word\<close>; the kind of a union, which the code sets
  from a field number only, is a datatype.  The test \<open>ok\<close> of a type says which objects the encoder can
  represent: strings of at most 64 MB, lists within the reader's bound, a union whose payload fits its kind.
\<close>

section \<open>Logical types\<close>

subsection \<open>TimeUnit\<close>

datatype time_unit_kind = MILLIS | MICROS | NANOS

fun time_unit_id :: "time_unit_kind \<Rightarrow> i16" where
  "time_unit_id MILLIS = 1" | "time_unit_id MICROS = 2" | "time_unit_id NANOS = 3"

record time_unit = tu_kind :: time_unit_kind

definition default_TimeUnit :: time_unit where "default_TimeUnit = \<lparr>tu_kind = MICROS\<rparr>"

definition serialize_TimeUnit :: "time_unit \<Rightarrow> writer" where
  "serialize_TimeUnit u = write_struct [put_field (time_unit_id (tu_kind u)) T_STRUCT empty_struct]"

definition deserialize_TimeUnit :: "(time_unit, time_unit) decoder" where
  "deserialize_TimeUnit = read_struct (switch [
     (1, unit_field (\<lambda>_ u. u\<lparr>tu_kind := MILLIS\<rparr>)),
     (2, unit_field (\<lambda>_ u. u\<lparr>tu_kind := MICROS\<rparr>)),
     (3, unit_field (\<lambda>_ u. u\<lparr>tu_kind := NANOS\<rparr>))])"

interpretation TU: thrift_type serialize_TimeUnit deserialize_TimeUnit default_TimeUnit "\<lambda>_. True" 4
proof
  fix v :: time_unit
  show "sound 4 (serialize_TimeUnit v) deserialize_TimeUnit default_TimeUnit v"
    unfolding serialize_TimeUnit_def deserialize_TimeUnit_def
    by (rule sound_struct[where C = 1], cases "tu_kind v"; simp; rule steps, simp, simp, rule step_end, cases v, simp add: default_TimeUnit_def)
next
  show "safe deserialize_TimeUnit"
    unfolding deserialize_TimeUnit_def by (rule safe_read_struct safe_switch)+ (auto intro!: safe_parts)
qed (simp add: MAX_NESTING_DEPTH_def)

subsection \<open>IntType and DecimalType\<close>

record int_type =
  it_bit_width :: u8
  it_is_signed :: bool

definition default_IntType :: int_type where "default_IntType = \<lparr>it_bit_width = 64, it_is_signed = True\<rparr>"

definition serialize_IntType :: "int_type \<Rightarrow> writer" where
  "serialize_IntType v = write_struct [
     put_field 1 T_I8 (write_i8 (it_bit_width v)),
     write_field_bool 2 (it_is_signed v)]"

definition deserialize_IntType :: "(int_type, int_type) decoder" where
  "deserialize_IntType = read_struct (switch [(1, i8_field it_bit_width_update), (2, bool_field it_is_signed_update)])"

interpretation IT: thrift_type serialize_IntType deserialize_IntType default_IntType "\<lambda>_. True" 4
proof
  fix v :: int_type
  show "sound 4 (serialize_IntType v) deserialize_IntType default_IntType v"
    unfolding serialize_IntType_def deserialize_IntType_def
    by (rule sound_struct[where C = 0], (rule steps, simp)+, rule step_end, cases v, simp_all add: default_IntType_def)
next
  show "safe deserialize_IntType"
    unfolding deserialize_IntType_def by (rule safe_read_struct safe_switch)+ (auto intro!: safe_parts)
qed (simp add: MAX_NESTING_DEPTH_def)

record decimal_type =
  dt_scale :: u32
  dt_precision :: u32

definition default_DecimalType :: decimal_type where "default_DecimalType = \<lparr>dt_scale = 0, dt_precision = 0\<rparr>"

definition serialize_DecimalType :: "decimal_type \<Rightarrow> writer" where
  "serialize_DecimalType v = write_struct [
     put_field 1 T_I32 (write_i32 (dt_scale v)),
     put_field 2 T_I32 (write_i32 (dt_precision v))]"

definition deserialize_DecimalType :: "(decimal_type, decimal_type) decoder" where
  "deserialize_DecimalType = read_struct (switch [(1, i32_field dt_scale_update), (2, i32_field dt_precision_update)])"

interpretation DT: thrift_type serialize_DecimalType deserialize_DecimalType default_DecimalType "\<lambda>_. True" 4
proof
  fix v :: decimal_type
  show "sound 4 (serialize_DecimalType v) deserialize_DecimalType default_DecimalType v"
    unfolding serialize_DecimalType_def deserialize_DecimalType_def
    by (rule sound_struct[where C = 0], (rule steps, simp)+, rule step_end, cases v, simp_all add: default_DecimalType_def)
next
  show "safe deserialize_DecimalType"
    unfolding deserialize_DecimalType_def by (rule safe_read_struct safe_switch)+ (auto intro!: safe_parts)
qed (simp add: MAX_NESTING_DEPTH_def)

subsection \<open>TimestampType\<close>

record timestamp_type =
  ts_is_adjusted_to_utc :: bool
  ts_unit :: time_unit

definition default_TimestampType :: timestamp_type where
  "default_TimestampType = \<lparr>ts_is_adjusted_to_utc = True, ts_unit = default_TimeUnit\<rparr>"

definition serialize_TimestampType :: "timestamp_type \<Rightarrow> writer" where
  "serialize_TimestampType v = write_struct [
     write_field_bool 1 (ts_is_adjusted_to_utc v),
     put_field 2 T_STRUCT (serialize_TimeUnit (ts_unit v))]"

definition deserialize_TimestampType :: "(timestamp_type, timestamp_type) decoder" where
  "deserialize_TimestampType = read_struct (switch [
     (1, bool_field ts_is_adjusted_to_utc_update),
     (2, field [T_STRUCT] deserialize_TimeUnit ts_unit ts_unit_update)])"

interpretation TS: thrift_type serialize_TimestampType deserialize_TimestampType default_TimestampType "\<lambda>_. True" 7
proof
  fix v :: timestamp_type
  show "sound 7 (serialize_TimestampType v) deserialize_TimestampType default_TimestampType v"
    unfolding serialize_TimestampType_def deserialize_TimestampType_def
    by (rule sound_struct[where C = 4], rule steps, simp, rule step_field, simp, simp add: default_TimestampType_def,
        rule TU.sound_type, simp_all, rule step_end, cases v, simp add: default_TimestampType_def)
next
  show "safe deserialize_TimestampType"
    unfolding deserialize_TimestampType_def by (rule safe_read_struct safe_switch)+ (auto intro!: safe_parts TU.safe_type)
qed (simp add: MAX_NESTING_DEPTH_def)

subsection \<open>LogicalTypeUnion\<close>

datatype logical_kind = LT_NONE | LT_STRING | LT_DECIMAL | LT_TIMESTAMP | LT_INT | LT_UUID

record logical_type =
  lt_kind :: logical_kind
  lt_decimal :: "decimal_type option"
  lt_timestamp :: "timestamp_type option"
  lt_integer :: "int_type option"

definition default_LogicalTypeUnion :: logical_type where
  "default_LogicalTypeUnion = \<lparr>lt_kind = LT_NONE, lt_decimal = None, lt_timestamp = None, lt_integer = None\<rparr>"

definition serialize_LogicalTypeUnion :: "logical_type \<Rightarrow> writer" where
  "serialize_LogicalTypeUnion v = write_struct [case lt_kind v of
     LT_STRING \<Rightarrow> put_field 1 T_STRUCT empty_struct
   | LT_DECIMAL \<Rightarrow> opt (lt_decimal v) (\<lambda>x. put_field 5 T_STRUCT (serialize_DecimalType x))
   | LT_TIMESTAMP \<Rightarrow> opt (lt_timestamp v) (\<lambda>x. put_field 9 T_STRUCT (serialize_TimestampType x))
   | LT_INT \<Rightarrow> opt (lt_integer v) (\<lambda>x. put_field 11 T_STRUCT (serialize_IntType x))
   | LT_UUID \<Rightarrow> put_field 15 T_STRUCT empty_struct
   | LT_NONE \<Rightarrow> run []]"

definition deserialize_LogicalTypeUnion :: "(logical_type, logical_type) decoder" where
  "deserialize_LogicalTypeUnion = read_struct (switch [
     (1, unit_field (\<lambda>_ u. u\<lparr>lt_kind := LT_STRING\<rparr>)),
     (5, opt_struct_field default_DecimalType deserialize_DecimalType (\<lambda>g u. lt_decimal_update g (u\<lparr>lt_kind := LT_DECIMAL\<rparr>))),
     (9, opt_struct_field default_TimestampType deserialize_TimestampType (\<lambda>g u. lt_timestamp_update g (u\<lparr>lt_kind := LT_TIMESTAMP\<rparr>))),
     (11, opt_struct_field default_IntType deserialize_IntType (\<lambda>g u. lt_integer_update g (u\<lparr>lt_kind := LT_INT\<rparr>))),
     (15, unit_field (\<lambda>_ u. u\<lparr>lt_kind := LT_UUID\<rparr>))])"

text \<open>The payload of exactly the chosen kind is present.\<close>

definition ok_logical :: "logical_type \<Rightarrow> bool" where
  "ok_logical v \<longleftrightarrow> (lt_decimal v \<noteq> None \<longleftrightarrow> lt_kind v = LT_DECIMAL) \<and> (lt_timestamp v \<noteq> None \<longleftrightarrow> lt_kind v = LT_TIMESTAMP)
     \<and> (lt_integer v \<noteq> None \<longleftrightarrow> lt_kind v = LT_INT)"

lemma codec_no_writer: "codes C h [run []] x x"
  using codec_opt_None[of C h undefined x] by (simp add: opt_def)

interpretation LT: thrift_type serialize_LogicalTypeUnion deserialize_LogicalTypeUnion default_LogicalTypeUnion ok_logical 9
proof
  fix v assume ok: "ok_logical v"
  let ?h = "switch [
     (1, unit_field (\<lambda>_ u. u\<lparr>lt_kind := LT_STRING\<rparr>)),
     (5, opt_struct_field default_DecimalType deserialize_DecimalType (\<lambda>g u. lt_decimal_update g (u\<lparr>lt_kind := LT_DECIMAL\<rparr>))),
     (9, opt_struct_field default_TimestampType deserialize_TimestampType (\<lambda>g u. lt_timestamp_update g (u\<lparr>lt_kind := LT_TIMESTAMP\<rparr>))),
     (11, opt_struct_field default_IntType deserialize_IntType (\<lambda>g u. lt_integer_update g (u\<lparr>lt_kind := LT_INT\<rparr>))),
     (15, unit_field (\<lambda>_ u. u\<lparr>lt_kind := LT_UUID\<rparr>))]"
  let ?z = "\<lambda>k d t i. \<lparr>lt_kind = k, lt_decimal = d, lt_timestamp = t, lt_integer = i\<rparr>"
  note defs = default_LogicalTypeUnion_def
  have "codes 7 ?h [put_field 1 T_STRUCT empty_struct] default_LogicalTypeUnion (?z LT_STRING None None None)"
    "codes 7 ?h [put_field 15 T_STRUCT empty_struct] default_LogicalTypeUnion (?z LT_UUID None None None)"
    by (rule steps, simp, simp, rule step_end, simp add: defs)+
  moreover have "codes 7 ?h [put_field 5 T_STRUCT (serialize_DecimalType a)] default_LogicalTypeUnion (?z LT_DECIMAL (Some a) None None)" for a
    by (rule step_field, simp, rule sound_some, rule DT.sound_type, simp_all, rule step_end, simp add: defs)
  moreover have "codes 7 ?h [put_field 9 T_STRUCT (serialize_TimestampType a)] default_LogicalTypeUnion (?z LT_TIMESTAMP None (Some a) None)" for a
    by (rule step_field, simp, rule sound_some, rule TS.sound_type, simp_all, rule step_end, simp add: defs)
  moreover have "codes 7 ?h [put_field 11 T_STRUCT (serialize_IntType a)] default_LogicalTypeUnion (?z LT_INT None None (Some a))" for a
    by (rule step_field, simp, rule sound_some, rule IT.sound_type, simp_all, rule step_end, simp add: defs)
  moreover have "codes 7 ?h [run []] default_LogicalTypeUnion (?z LT_NONE None None None)"
    using codec_no_writer[of 7 ?h default_LogicalTypeUnion] by (simp add: defs)
  ultimately show "sound 9 (serialize_LogicalTypeUnion v) deserialize_LogicalTypeUnion default_LogicalTypeUnion v"
    unfolding serialize_LogicalTypeUnion_def deserialize_LogicalTypeUnion_def
    using ok by (intro sound_struct[where C = 7]) (cases v; cases "lt_kind v"; auto simp: ok_logical_def opt_def)+
next
  show "safe deserialize_LogicalTypeUnion"
    unfolding deserialize_LogicalTypeUnion_def by (rule safe_read_struct safe_switch)+ (auto intro!: safe_parts DT.safe_type TS.safe_type IT.safe_type)
qed (simp add: MAX_NESTING_DEPTH_def)

section \<open>Statistics and key-value pairs\<close>

record statistics =
  st_max :: "bytes option"
  st_min :: "bytes option"
  st_null_count :: "u64 option"
  st_distinct_count :: "u64 option"
  st_max_value :: "bytes option"
  st_min_value :: "bytes option"

definition default_Statistics :: statistics where
  "default_Statistics = \<lparr>st_max = None, st_min = None, st_null_count = None, st_distinct_count = None,
     st_max_value = None, st_min_value = None\<rparr>"

definition serialize_Statistics :: "statistics \<Rightarrow> writer" where
  "serialize_Statistics v = write_struct [
     opt (st_max v) (\<lambda>s. put_field 1 T_BINARY (write_string s)),
     opt (st_min v) (\<lambda>s. put_field 2 T_BINARY (write_string s)),
     opt (st_null_count v) (\<lambda>n. put_field 3 T_I64 (write_i64 n)),
     opt (st_distinct_count v) (\<lambda>n. put_field 4 T_I64 (write_i64 n)),
     opt (st_max_value v) (\<lambda>s. put_field 5 T_BINARY (write_string s)),
     opt (st_min_value v) (\<lambda>s. put_field 6 T_BINARY (write_string s))]"

definition deserialize_Statistics :: "(statistics, statistics) decoder" where
  "deserialize_Statistics = read_struct (switch [
     (1, opt_string_field st_max_update),
     (2, opt_string_field st_min_update),
     (3, opt_i64_field st_null_count_update),
     (4, opt_i64_field st_distinct_count_update),
     (5, opt_string_field st_max_value_update),
     (6, opt_string_field st_min_value_update)])"

abbreviation short :: "bytes \<Rightarrow> bool" where "short s \<equiv> length s \<le> MAX_STRING_BYTES"

definition ok_statistics :: "statistics \<Rightarrow> bool" where
  "ok_statistics v \<longleftrightarrow> pred_option short (st_max v) \<and> pred_option short (st_min v)
     \<and> pred_option short (st_max_value v) \<and> pred_option short (st_min_value v)"

interpretation ST: thrift_type serialize_Statistics deserialize_Statistics default_Statistics ok_statistics 7
proof
  fix v assume "ok_statistics v"
  then show "sound 7 (serialize_Statistics v) deserialize_Statistics default_Statistics v"
    unfolding serialize_Statistics_def deserialize_Statistics_def ok_statistics_def
    by (intro sound_struct[where C = 0])
      ((rule steps string_steps opt_steps, simp, simp add: default_Statistics_def)+, rule step_end, cases v, simp_all add: default_Statistics_def)
next
  show "safe deserialize_Statistics"
    unfolding deserialize_Statistics_def by (rule safe_read_struct safe_switch)+ (auto intro!: safe_parts)
qed (simp add: MAX_NESTING_DEPTH_def)

record key_value =
  kv_key :: bytes
  kv_value :: "bytes option"

definition default_KeyValue :: key_value where "default_KeyValue = \<lparr>kv_key = [], kv_value = None\<rparr>"

definition serialize_KeyValue :: "key_value \<Rightarrow> writer" where
  "serialize_KeyValue v = write_struct [
     put_field 1 T_BINARY (write_string (kv_key v)),
     opt (kv_value v) (\<lambda>s. put_field 2 T_BINARY (write_string s))]"

definition deserialize_KeyValue :: "(key_value, key_value) decoder" where
  "deserialize_KeyValue = read_required 0x01 (switch [
     (1, string_field (mark 0 kv_key_update)),
     (2, opt_string_field (keep kv_value_update))])"

definition ok_key_value :: "key_value \<Rightarrow> bool" where
  "ok_key_value v \<longleftrightarrow> short (kv_key v) \<and> pred_option short (kv_value v)"

interpretation KV: thrift_type serialize_KeyValue deserialize_KeyValue default_KeyValue ok_key_value 3
proof
  fix v assume "ok_key_value v"
  then show "sound 3 (serialize_KeyValue v) deserialize_KeyValue default_KeyValue v"
    unfolding serialize_KeyValue_def deserialize_KeyValue_def ok_key_value_def
    by (intro sound_required[where C = 0 and seen = 1])
      ((rule string_steps, simp, simp add: default_KeyValue_def mark_def keep_def)+, rule step_end, cases v,
        simp_all add: default_KeyValue_def mark_def keep_def)
next
  show "safe deserialize_KeyValue"
    unfolding deserialize_KeyValue_def by (rule safe_read_required safe_switch)+ (auto intro!: safe_parts)
qed (simp add: MAX_NESTING_DEPTH_def)

section \<open>Schema elements\<close>

record schema_element =
  se_type :: "u32 option"
  se_type_length :: "u32 option"
  se_repetition_type :: "u32 option"
  se_name :: bytes
  se_num_children :: "u32 option"
  se_converted_type :: "u32 option"
  se_scale :: "u32 option"
  se_precision :: "u32 option"
  se_field_id :: "u32 option"
  se_logical_type :: "logical_type option"

definition default_SchemaElement :: schema_element where
  "default_SchemaElement = \<lparr>se_type = None, se_type_length = None, se_repetition_type = None, se_name = [],
     se_num_children = None, se_converted_type = None, se_scale = None, se_precision = None, se_field_id = None, se_logical_type = None\<rparr>"

definition serialize_SchemaElement :: "schema_element \<Rightarrow> writer" where
  "serialize_SchemaElement v = write_struct [
     opt (se_type v) (\<lambda>n. put_field 1 T_I32 (write_i32 n)),
     opt (se_type_length v) (\<lambda>n. put_field 2 T_I32 (write_i32 n)),
     opt (se_repetition_type v) (\<lambda>n. put_field 3 T_I32 (write_i32 n)),
     put_field 4 T_BINARY (write_string (se_name v)),
     opt (se_num_children v) (\<lambda>n. put_field 5 T_I32 (write_i32 n)),
     opt (se_converted_type v) (\<lambda>n. put_field 6 T_I32 (write_i32 n)),
     opt (se_scale v) (\<lambda>n. put_field 7 T_I32 (write_i32 n)),
     opt (se_precision v) (\<lambda>n. put_field 8 T_I32 (write_i32 n)),
     opt (se_field_id v) (\<lambda>n. put_field 9 T_I32 (write_i32 n)),
     opt (se_logical_type v) (\<lambda>x. put_field 10 T_STRUCT (serialize_LogicalTypeUnion x))]"

definition deserialize_SchemaElement :: "(schema_element, schema_element) decoder" where
  "deserialize_SchemaElement = read_struct (switch [
     (1, opt_i32_field se_type_update),
     (2, opt_i32_field se_type_length_update),
     (3, opt_i32_field se_repetition_type_update),
     (4, string_field se_name_update),
     (5, opt_i32_field se_num_children_update),
     (6, opt_i32_field se_converted_type_update),
     (7, opt_i32_field se_scale_update),
     (8, opt_i32_field se_precision_update),
     (9, opt_i32_field se_field_id_update),
     (10, opt_struct_field default_LogicalTypeUnion deserialize_LogicalTypeUnion se_logical_type_update)])"

definition ok_schema :: "schema_element \<Rightarrow> bool" where
  "ok_schema v \<longleftrightarrow> short (se_name v) \<and> pred_option ok_logical (se_logical_type v)"

interpretation SE: thrift_type serialize_SchemaElement deserialize_SchemaElement default_SchemaElement ok_schema 20
proof
  fix v assume "ok_schema v"
  then show "sound 20 (serialize_SchemaElement v) deserialize_SchemaElement default_SchemaElement v"
    unfolding serialize_SchemaElement_def deserialize_SchemaElement_def ok_schema_def
    by (intro sound_struct[where C = 9])
      ((rule steps string_steps opt_steps, simp, simp add: default_SchemaElement_def)+,
        rule step_opt, simp, rule LT.sound_type, simp, simp, simp, simp, simp add: default_SchemaElement_def,
        rule step_end, cases v, simp_all add: default_SchemaElement_def)
next
  show "safe deserialize_SchemaElement"
    unfolding deserialize_SchemaElement_def by (rule safe_read_struct safe_switch)+ (auto intro!: safe_parts LT.safe_type)
qed (simp add: MAX_NESTING_DEPTH_def)

section \<open>Page headers\<close>

definition E_PLAIN :: u32 where "E_PLAIN = 0"
definition E_PLAIN_DICTIONARY :: u32 where "E_PLAIN_DICTIONARY = 2"
definition E_RLE :: u32 where "E_RLE = 3"
definition PAGE_DATA :: u32 where "PAGE_DATA = 0"

record data_page_header =
  ph_num_values :: u32
  ph_encoding :: u32
  ph_definition_level_encoding :: u32
  ph_repetition_level_encoding :: u32
  ph_statistics :: "statistics option"

definition default_DataPageHeader :: data_page_header where
  "default_DataPageHeader = \<lparr>ph_num_values = 0, ph_encoding = E_PLAIN, ph_definition_level_encoding = E_RLE,
     ph_repetition_level_encoding = E_RLE, ph_statistics = None\<rparr>"

definition serialize_DataPageHeader :: "data_page_header \<Rightarrow> writer" where
  "serialize_DataPageHeader v = write_struct [
     put_field 1 T_I32 (write_i32 (ph_num_values v)),
     put_field 2 T_I32 (write_i32 (ph_encoding v)),
     put_field 3 T_I32 (write_i32 (ph_definition_level_encoding v)),
     put_field 4 T_I32 (write_i32 (ph_repetition_level_encoding v)),
     opt (ph_statistics v) (\<lambda>x. put_field 5 T_STRUCT (serialize_Statistics x))]"

definition deserialize_DataPageHeader :: "(data_page_header, data_page_header) decoder" where
  "deserialize_DataPageHeader = read_required 0x0F (switch [
     (1, i32_field (mark 0 ph_num_values_update)),
     (2, i32_field (mark 1 ph_encoding_update)),
     (3, i32_field (mark 2 ph_definition_level_encoding_update)),
     (4, i32_field (mark 3 ph_repetition_level_encoding_update)),
     (5, opt_struct_field default_Statistics deserialize_Statistics (keep ph_statistics_update))])"

definition ok_data_page :: "data_page_header \<Rightarrow> bool" where
  "ok_data_page v \<longleftrightarrow> pred_option ok_statistics (ph_statistics v)"

interpretation DP: thrift_type serialize_DataPageHeader deserialize_DataPageHeader default_DataPageHeader ok_data_page 13
proof
  fix v assume "ok_data_page v"
  then show "sound 13 (serialize_DataPageHeader v) deserialize_DataPageHeader default_DataPageHeader v"
    unfolding serialize_DataPageHeader_def deserialize_DataPageHeader_def ok_data_page_def
    by (intro sound_required[where C = 7 and seen = "0x0F"])
      ((rule steps, simp)+, rule step_opt, simp, rule ST.sound_type, simp, simp, simp, simp, simp add: default_DataPageHeader_def mark_def keep_def,
        rule step_end, cases v, simp_all add: default_DataPageHeader_def mark_def keep_def)
next
  show "safe deserialize_DataPageHeader"
    unfolding deserialize_DataPageHeader_def by (rule safe_read_required safe_switch)+ (auto intro!: safe_parts ST.safe_type)
qed (simp add: MAX_NESTING_DEPTH_def)

record dictionary_page_header =
  di_num_values :: u32
  di_encoding :: u32
  di_is_sorted :: "bool option"

definition default_DictionaryPageHeader :: dictionary_page_header where
  "default_DictionaryPageHeader = \<lparr>di_num_values = 0, di_encoding = E_PLAIN_DICTIONARY, di_is_sorted = None\<rparr>"

definition serialize_DictionaryPageHeader :: "dictionary_page_header \<Rightarrow> writer" where
  "serialize_DictionaryPageHeader v = write_struct [
     put_field 1 T_I32 (write_i32 (di_num_values v)),
     put_field 2 T_I32 (write_i32 (di_encoding v)),
     opt (di_is_sorted v) (write_field_bool 3)]"

definition deserialize_DictionaryPageHeader :: "(dictionary_page_header, dictionary_page_header) decoder" where
  "deserialize_DictionaryPageHeader = read_struct (switch [
     (1, i32_field di_num_values_update),
     (2, i32_field di_encoding_update),
     (3, opt_bool_field di_is_sorted_update)])"

interpretation DI: thrift_type serialize_DictionaryPageHeader deserialize_DictionaryPageHeader default_DictionaryPageHeader "\<lambda>_. True" 4
proof
  fix v :: dictionary_page_header
  show "sound 4 (serialize_DictionaryPageHeader v) deserialize_DictionaryPageHeader default_DictionaryPageHeader v"
    unfolding serialize_DictionaryPageHeader_def deserialize_DictionaryPageHeader_def
    by (intro sound_struct[where C = 0])
      ((rule steps, simp)+, rule opt_steps, simp, simp add: default_DictionaryPageHeader_def,
        rule step_end, cases v, simp_all add: default_DictionaryPageHeader_def)
next
  show "safe deserialize_DictionaryPageHeader"
    unfolding deserialize_DictionaryPageHeader_def by (rule safe_read_struct safe_switch)+ (auto intro!: safe_parts)
qed (simp add: MAX_NESTING_DEPTH_def)

record data_page_header_v2 =
  p2_num_values :: u32
  p2_num_nulls :: u32
  p2_num_rows :: u32
  p2_encoding :: u32
  p2_definition_levels_byte_length :: u32
  p2_repetition_levels_byte_length :: u32
  p2_is_compressed :: "bool option"

definition default_DataPageHeaderV2 :: data_page_header_v2 where
  "default_DataPageHeaderV2 = \<lparr>p2_num_values = 0, p2_num_nulls = 0, p2_num_rows = 0, p2_encoding = E_PLAIN,
     p2_definition_levels_byte_length = 0, p2_repetition_levels_byte_length = 0, p2_is_compressed = None\<rparr>"

definition serialize_DataPageHeaderV2 :: "data_page_header_v2 \<Rightarrow> writer" where
  "serialize_DataPageHeaderV2 v = write_struct [
     put_field 1 T_I32 (write_i32 (p2_num_values v)),
     put_field 2 T_I32 (write_i32 (p2_num_nulls v)),
     put_field 3 T_I32 (write_i32 (p2_num_rows v)),
     put_field 4 T_I32 (write_i32 (p2_encoding v)),
     put_field 5 T_I32 (write_i32 (p2_definition_levels_byte_length v)),
     put_field 6 T_I32 (write_i32 (p2_repetition_levels_byte_length v)),
     opt (p2_is_compressed v) (write_field_bool 7)]"

definition deserialize_DataPageHeaderV2 :: "(data_page_header_v2, data_page_header_v2) decoder" where
  "deserialize_DataPageHeaderV2 = read_struct (switch [
     (1, i32_field p2_num_values_update),
     (2, i32_field p2_num_nulls_update),
     (3, i32_field p2_num_rows_update),
     (4, i32_field p2_encoding_update),
     (5, i32_field p2_definition_levels_byte_length_update),
     (6, i32_field p2_repetition_levels_byte_length_update),
     (7, opt_bool_field p2_is_compressed_update)])"

definition effective_is_compressed :: "data_page_header_v2 \<Rightarrow> bool" where
  "effective_is_compressed v = (case p2_is_compressed v of Some b \<Rightarrow> b | None \<Rightarrow> True)"

interpretation P2: thrift_type serialize_DataPageHeaderV2 deserialize_DataPageHeaderV2 default_DataPageHeaderV2 "\<lambda>_. True" 8
proof
  fix v :: data_page_header_v2
  show "sound 8 (serialize_DataPageHeaderV2 v) deserialize_DataPageHeaderV2 default_DataPageHeaderV2 v"
    unfolding serialize_DataPageHeaderV2_def deserialize_DataPageHeaderV2_def
    by (intro sound_struct[where C = 0])
      ((rule steps, simp)+, rule opt_steps, simp, simp add: default_DataPageHeaderV2_def,
        rule step_end, cases v, simp_all add: default_DataPageHeaderV2_def)
next
  show "safe deserialize_DataPageHeaderV2"
    unfolding deserialize_DataPageHeaderV2_def by (rule safe_read_struct safe_switch)+ (auto intro!: safe_parts)
qed (simp add: MAX_NESTING_DEPTH_def)

record page_header =
  pg_type :: u32
  pg_uncompressed_page_size :: u32
  pg_compressed_page_size :: u32
  pg_crc :: "u32 option"
  pg_data_page_header :: "data_page_header option"
  pg_dictionary_page_header :: "dictionary_page_header option"
  pg_data_page_header_v2 :: "data_page_header_v2 option"

definition default_PageHeader :: page_header where
  "default_PageHeader = \<lparr>pg_type = PAGE_DATA, pg_uncompressed_page_size = 0, pg_compressed_page_size = 0, pg_crc = None,
     pg_data_page_header = None, pg_dictionary_page_header = None, pg_data_page_header_v2 = None\<rparr>"

definition serialize_PageHeader :: "page_header \<Rightarrow> writer" where
  "serialize_PageHeader v = write_struct [
     put_field 1 T_I32 (write_i32 (pg_type v)),
     put_field 2 T_I32 (write_i32 (pg_uncompressed_page_size v)),
     put_field 3 T_I32 (write_i32 (pg_compressed_page_size v)),
     opt (pg_crc v) (\<lambda>n. put_field 4 T_I32 (write_i32 n)),
     opt (pg_data_page_header v) (\<lambda>x. put_field 5 T_STRUCT (serialize_DataPageHeader x)),
     opt (pg_dictionary_page_header v) (\<lambda>x. put_field 7 T_STRUCT (serialize_DictionaryPageHeader x)),
     opt (pg_data_page_header_v2 v) (\<lambda>x. put_field 8 T_STRUCT (serialize_DataPageHeaderV2 x))]"

text \<open>Field 6, the index page header, is skipped like an unknown field.\<close>

definition deserialize_PageHeader :: "(page_header, page_header) decoder" where
  "deserialize_PageHeader = read_struct (switch [
     (1, i32_field pg_type_update),
     (2, i32_field pg_uncompressed_page_size_update),
     (3, i32_field pg_compressed_page_size_update),
     (4, opt_i32_field pg_crc_update),
     (5, opt_struct_field default_DataPageHeader deserialize_DataPageHeader pg_data_page_header_update),
     (7, opt_struct_field default_DictionaryPageHeader deserialize_DictionaryPageHeader pg_dictionary_page_header_update),
     (8, opt_struct_field default_DataPageHeaderV2 deserialize_DataPageHeaderV2 pg_data_page_header_v2_update)])"

definition ok_page_header :: "page_header \<Rightarrow> bool" where
  "ok_page_header v \<longleftrightarrow> pred_option ok_data_page (pg_data_page_header v)"

interpretation PG: thrift_type serialize_PageHeader deserialize_PageHeader default_PageHeader ok_page_header 21
proof
  fix v assume ok: "ok_page_header v"
  show "sound 21 (serialize_PageHeader v) deserialize_PageHeader default_PageHeader v"
    unfolding serialize_PageHeader_def deserialize_PageHeader_def using ok
    by (intro sound_struct[where C = 13])
      ((rule steps, simp)+, rule opt_steps, simp, simp add: default_PageHeader_def,
        rule step_opt, simp, rule DP.sound_type, simp add: ok_page_header_def, simp_all add: default_PageHeader_def,
        rule step_opt, simp, rule DI.sound_type, simp_all,
        rule step_opt, simp, rule P2.sound_type, simp_all, rule step_end, cases v, simp)
next
  show "safe deserialize_PageHeader"
    unfolding deserialize_PageHeader_def by (rule safe_read_struct safe_switch)+ (auto intro!: safe_parts DP.safe_type DI.safe_type P2.safe_type)
qed (simp add: MAX_NESTING_DEPTH_def)

end
