(* ===== verification/ParquetMeta.thy ===== *)
theory ParquetMeta
  imports ParquetTypes
begin

text \<open>
  The second half of \<^verbatim>\<open>include/signet/thrift/types.hpp\<close>: column metadata, the encryption types, the Bloom
  filter header, column chunks, row groups and the file metadata of the footer, with the properties of
  the whole family: what the encoder writes the decoder reads back, every byte string is either decoded or
  refused with \<^verbatim>\<open>THRIFT_DECODE_ERROR\<close>, and where the two sides disagree.
\<close>

section \<open>Column metadata\<close>

lemma list_step:
  assumes "map_of cs i = Some (field [T_LIST] (list_of bound v0 de) get upd)" "get x = []" "bound \<le> MAX_COLLECTION_SIZE"
    and "\<And>v. v \<in> set vs \<Longrightarrow> sound C' (w v) de v0 v" "length vs \<le> bound" "C' \<le> C" "unat t < 16"
    and "codes C (switch cs) ws (upd (\<lambda>_. vs) x) z"
  shows "codes C (switch cs) (put_field i T_LIST (write_list t w vs) # ws) x z"
  by (rule step_field[OF assms(1) _ assms(6) _ _ assms(8)])
    (use sound_list[of vs C' w de v0 bound t, OF assms(4,5,3,7)] assms(2) in simp_all)

lemma opt_list_step:
  assumes "map_of cs i = Some (field [T_LIST] (some (list_of bound v0 de)) get upd)" "get x = []" "bound \<le> MAX_COLLECTION_SIZE"
    and "\<And>vs v. ov = Some vs \<Longrightarrow> v \<in> set vs \<Longrightarrow> sound C' (w v) de v0 v" "pred_option (\<lambda>vs. length vs \<le> bound) ov"
    and "C' \<le> C" "unat t < 16" "upd (\<lambda>_. None) x = x" "codes C (switch cs) ws (upd (\<lambda>_. ov) x) z"
  shows "codes C (switch cs) (opt ov (\<lambda>vs. put_field i T_LIST (write_list t w vs)) # ws) x z"
proof (rule step_opt[OF assms(1) _ assms(6) _ _ assms(8,9)])
  show "sound C' (write_list t w v) (list_of bound v0 de) (get x) v" if "ov = Some v" for v
    unfolding assms(2) by (rule sound_list[OF assms(4)[OF that] _ assms(3,7)]) (use assms(5) that in simp_all)
qed simp_all

record column_metadata =
  cm_type :: u32
  cm_encodings :: "u32 list"
  cm_path_in_schema :: "bytes list"
  cm_codec :: u32
  cm_num_values :: u64
  cm_total_uncompressed_size :: u64
  cm_total_compressed_size :: u64
  cm_key_value_metadata :: "key_value list option"
  cm_data_page_offset :: u64
  cm_index_page_offset :: "u64 option"
  cm_dictionary_page_offset :: "u64 option"
  cm_statistics :: "statistics option"

definition PT_BYTE_ARRAY :: u32 where "PT_BYTE_ARRAY = 6"

definition default_ColumnMetaData :: column_metadata where
  "default_ColumnMetaData = \<lparr>cm_type = PT_BYTE_ARRAY, cm_encodings = [], cm_path_in_schema = [], cm_codec = 0, cm_num_values = 0,
     cm_total_uncompressed_size = 0, cm_total_compressed_size = 0, cm_key_value_metadata = None, cm_data_page_offset = 0,
     cm_index_page_offset = None, cm_dictionary_page_offset = None, cm_statistics = None\<rparr>"

definition serialize_ColumnMetaData :: "column_metadata \<Rightarrow> writer" where
  "serialize_ColumnMetaData v = write_struct [
     put_field 1 T_I32 (write_i32 (cm_type v)),
     put_field 2 T_LIST (write_list T_I32 write_i32 (cm_encodings v)),
     put_field 3 T_LIST (write_list T_BINARY write_string (cm_path_in_schema v)),
     put_field 4 T_I32 (write_i32 (cm_codec v)),
     put_field 5 T_I64 (write_i64 (cm_num_values v)),
     put_field 6 T_I64 (write_i64 (cm_total_uncompressed_size v)),
     put_field 7 T_I64 (write_i64 (cm_total_compressed_size v)),
     opt (cm_key_value_metadata v) (\<lambda>kvs. put_field 8 T_LIST (write_list T_STRUCT serialize_KeyValue kvs)),
     put_field 9 T_I64 (write_i64 (cm_data_page_offset v)),
     opt (cm_index_page_offset v) (\<lambda>n. put_field 10 T_I64 (write_i64 n)),
     opt (cm_dictionary_page_offset v) (\<lambda>n. put_field 11 T_I64 (write_i64 n)),
     opt (cm_statistics v) (\<lambda>x. put_field 12 T_STRUCT (serialize_Statistics x))]"

definition deserialize_ColumnMetaData :: "(column_metadata, column_metadata) decoder" where
  "deserialize_ColumnMetaData = read_required 0xFF (switch [
     (1, i32_field (mark 0 cm_type_update)),
     (2, field [T_LIST] (list_of 10000 0 (reader read_i32)) (\<lambda>p. cm_encodings (fst p)) (mark 1 cm_encodings_update)),
     (3, field [T_LIST] (list_of 10000 [] (reader read_string)) (\<lambda>p. cm_path_in_schema (fst p)) (mark 2 cm_path_in_schema_update)),
     (4, i32_field (mark 3 cm_codec_update)),
     (5, i64_field (mark 4 cm_num_values_update)),
     (6, i64_field (mark 5 cm_total_uncompressed_size_update)),
     (7, i64_field (mark 6 cm_total_compressed_size_update)),
     (8, field [T_LIST] (some (list_of 10000 default_KeyValue deserialize_KeyValue)) (\<lambda>_. []) (keep cm_key_value_metadata_update)),
     (9, i64_field (mark 7 cm_data_page_offset_update)),
     (10, opt_i64_field (keep cm_index_page_offset_update)),
     (11, opt_i64_field (keep cm_dictionary_page_offset_update)),
     (12, opt_struct_field default_Statistics deserialize_Statistics (keep cm_statistics_update))])"

definition ok_column_metadata :: "column_metadata \<Rightarrow> bool" where
  "ok_column_metadata v \<longleftrightarrow> length (cm_encodings v) \<le> 10000 \<and> length (cm_path_in_schema v) \<le> 10000
     \<and> list_all short (cm_path_in_schema v)
     \<and> pred_option (\<lambda>kvs. length kvs \<le> 10000 \<and> list_all ok_key_value kvs) (cm_key_value_metadata v)
     \<and> pred_option ok_statistics (cm_statistics v)"

interpretation CM: thrift_type serialize_ColumnMetaData deserialize_ColumnMetaData default_ColumnMetaData ok_column_metadata 20
proof
  fix v assume ok: "ok_column_metadata v"
  note ds = default_ColumnMetaData_def mark_def keep_def ok_column_metadata_def list_all_iff MAX_COLLECTION_SIZE_def option.pred_set
  show "sound 20 (serialize_ColumnMetaData v) deserialize_ColumnMetaData default_ColumnMetaData v"
    unfolding serialize_ColumnMetaData_def deserialize_ColumnMetaData_def
  proof (rule sound_required[where C = 7 and seen = "0xFF"], goal_cases)
    case 1
    show ?case using ok
      by - (rule steps, simp,
        rule list_step, simp, simp add: ds, simp add: ds, rule sound_i32, simp add: ds, simp, simp,
        rule list_step, simp, simp add: ds, simp add: ds, rule sound_bytes(1), simp add: ds, simp add: ds, simp, simp,
        (rule steps, simp)+,
        rule opt_list_step, simp, simp, simp add: ds, rule KV.sound_type, simp add: ds, simp add: ds, simp, simp, simp add: ds,
        rule steps, simp, rule opt_steps, simp, simp add: ds, rule opt_steps, simp, simp add: ds,
        rule step_opt, simp, rule ST.sound_type, simp add: ds, simp, simp, simp, simp add: ds,
        rule step_end, cases v, simp add: ds)
  qed simp_all
next
  show "safe deserialize_ColumnMetaData"
    unfolding deserialize_ColumnMetaData_def
    by (rule safe_read_required safe_switch)+ (auto intro!: safe_parts KV.safe_type ST.safe_type)
qed (simp add: MAX_NESTING_DEPTH_def)

section \<open>Encryption types\<close>

record aes_gcm_v1 =
  ag_aad_prefix :: "bytes option"
  ag_aad_file_unique :: "bool option"
  ag_supply_aad_prefix :: "bool option"

definition default_AesGcmV1 :: aes_gcm_v1 where
  "default_AesGcmV1 = \<lparr>ag_aad_prefix = None, ag_aad_file_unique = None, ag_supply_aad_prefix = None\<rparr>"

definition serialize_AesGcmV1 :: "aes_gcm_v1 \<Rightarrow> writer" where
  "serialize_AesGcmV1 v = write_struct [
     opt (ag_aad_prefix v) (\<lambda>s. put_field 1 T_BINARY (write_binary s)),
     opt (ag_aad_file_unique v) (write_field_bool 2),
     opt (ag_supply_aad_prefix v) (write_field_bool 3)]"

definition deserialize_AesGcmV1 :: "(aes_gcm_v1, aes_gcm_v1) decoder" where
  "deserialize_AesGcmV1 = read_struct (switch [
     (1, opt_binary_field ag_aad_prefix_update),
     (2, opt_bool_field ag_aad_file_unique_update),
     (3, opt_bool_field ag_supply_aad_prefix_update)])"

interpretation AG: thrift_type serialize_AesGcmV1 deserialize_AesGcmV1 default_AesGcmV1 "\<lambda>v. pred_option short (ag_aad_prefix v)" 4
proof
  fix v :: aes_gcm_v1 assume "pred_option short (ag_aad_prefix v)"
  then show "sound 4 (serialize_AesGcmV1 v) deserialize_AesGcmV1 default_AesGcmV1 v"
    unfolding serialize_AesGcmV1_def deserialize_AesGcmV1_def
    by (intro sound_struct[where C = 0])
      ((rule string_steps opt_steps, simp, simp add: default_AesGcmV1_def)+, rule step_end, cases v, simp_all add: default_AesGcmV1_def)
next
  show "safe deserialize_AesGcmV1"
    unfolding deserialize_AesGcmV1_def by (rule safe_read_struct safe_switch)+ (auto intro!: safe_parts)
qed (simp add: MAX_NESTING_DEPTH_def)

record aes_gcm_ctr_v1 =
  ac_aad_prefix :: "bytes option"
  ac_aad_file_unique :: "bool option"
  ac_supply_aad_prefix :: "bool option"

definition default_AesGcmCtrV1 :: aes_gcm_ctr_v1 where
  "default_AesGcmCtrV1 = \<lparr>ac_aad_prefix = None, ac_aad_file_unique = None, ac_supply_aad_prefix = None\<rparr>"

definition serialize_AesGcmCtrV1 :: "aes_gcm_ctr_v1 \<Rightarrow> writer" where
  "serialize_AesGcmCtrV1 v = write_struct [
     opt (ac_aad_prefix v) (\<lambda>s. put_field 1 T_BINARY (write_binary s)),
     opt (ac_aad_file_unique v) (write_field_bool 2),
     opt (ac_supply_aad_prefix v) (write_field_bool 3)]"

definition deserialize_AesGcmCtrV1 :: "(aes_gcm_ctr_v1, aes_gcm_ctr_v1) decoder" where
  "deserialize_AesGcmCtrV1 = read_struct (switch [
     (1, opt_binary_field ac_aad_prefix_update),
     (2, opt_bool_field ac_aad_file_unique_update),
     (3, opt_bool_field ac_supply_aad_prefix_update)])"

interpretation AC: thrift_type serialize_AesGcmCtrV1 deserialize_AesGcmCtrV1 default_AesGcmCtrV1 "\<lambda>v. pred_option short (ac_aad_prefix v)" 4
proof
  fix v :: aes_gcm_ctr_v1 assume "pred_option short (ac_aad_prefix v)"
  then show "sound 4 (serialize_AesGcmCtrV1 v) deserialize_AesGcmCtrV1 default_AesGcmCtrV1 v"
    unfolding serialize_AesGcmCtrV1_def deserialize_AesGcmCtrV1_def
    by (intro sound_struct[where C = 0])
      ((rule string_steps opt_steps, simp, simp add: default_AesGcmCtrV1_def)+, rule step_end, cases v, simp_all add: default_AesGcmCtrV1_def)
next
  show "safe deserialize_AesGcmCtrV1"
    unfolding deserialize_AesGcmCtrV1_def by (rule safe_read_struct safe_switch)+ (auto intro!: safe_parts)
qed (simp add: MAX_NESTING_DEPTH_def)

datatype algorithm_kind = EA_NONE | AES_GCM_V1 | AES_GCM_CTR_V1

record encryption_algorithm =
  ea_kind :: algorithm_kind
  ea_aes_gcm_v1 :: "aes_gcm_v1 option"
  ea_aes_gcm_ctr_v1 :: "aes_gcm_ctr_v1 option"

definition default_EncryptionAlgorithm :: encryption_algorithm where
  "default_EncryptionAlgorithm = \<lparr>ea_kind = EA_NONE, ea_aes_gcm_v1 = None, ea_aes_gcm_ctr_v1 = None\<rparr>"

text \<open>\<^verbatim>\<open>value_or\<close>: a missing payload is written as the default one.\<close>

definition value_or :: "'v option \<Rightarrow> 'v \<Rightarrow> 'v" where
  "value_or ov v0 = (case ov of None \<Rightarrow> v0 | Some v \<Rightarrow> v)"

definition serialize_EncryptionAlgorithm :: "encryption_algorithm \<Rightarrow> writer" where
  "serialize_EncryptionAlgorithm v = write_struct [case ea_kind v of
     AES_GCM_V1 \<Rightarrow> put_field 1 T_STRUCT (serialize_AesGcmV1 (value_or (ea_aes_gcm_v1 v) default_AesGcmV1))
   | AES_GCM_CTR_V1 \<Rightarrow> put_field 2 T_STRUCT (serialize_AesGcmCtrV1 (value_or (ea_aes_gcm_ctr_v1 v) default_AesGcmCtrV1))
   | EA_NONE \<Rightarrow> run []]"

definition deserialize_EncryptionAlgorithm :: "(encryption_algorithm, encryption_algorithm) decoder" where
  "deserialize_EncryptionAlgorithm = read_struct (switch [
     (1, opt_struct_field default_AesGcmV1 deserialize_AesGcmV1 (\<lambda>g u. ea_aes_gcm_v1_update g (u\<lparr>ea_kind := AES_GCM_V1\<rparr>))),
     (2, opt_struct_field default_AesGcmCtrV1 deserialize_AesGcmCtrV1 (\<lambda>g u. ea_aes_gcm_ctr_v1_update g (u\<lparr>ea_kind := AES_GCM_CTR_V1\<rparr>)))])"

definition ok_algorithm :: "encryption_algorithm \<Rightarrow> bool" where
  "ok_algorithm v \<longleftrightarrow> (ea_aes_gcm_v1 v \<noteq> None \<longleftrightarrow> ea_kind v = AES_GCM_V1) \<and> (ea_aes_gcm_ctr_v1 v \<noteq> None \<longleftrightarrow> ea_kind v = AES_GCM_CTR_V1)
     \<and> pred_option (\<lambda>a. pred_option short (ag_aad_prefix a)) (ea_aes_gcm_v1 v)
     \<and> pred_option (\<lambda>a. pred_option short (ac_aad_prefix a)) (ea_aes_gcm_ctr_v1 v)"

interpretation EA: thrift_type serialize_EncryptionAlgorithm deserialize_EncryptionAlgorithm default_EncryptionAlgorithm ok_algorithm 6
proof
  fix v assume ok: "ok_algorithm v"
  show "sound 6 (serialize_EncryptionAlgorithm v) deserialize_EncryptionAlgorithm default_EncryptionAlgorithm v"
    unfolding serialize_EncryptionAlgorithm_def deserialize_EncryptionAlgorithm_def
  proof (rule sound_struct[where C = 4], goal_cases)
    case 1
    show ?case
    proof (cases "ea_kind v")
      case EA_NONE
      then have "v = default_EncryptionAlgorithm" using ok by (cases v) (simp add: ok_algorithm_def default_EncryptionAlgorithm_def)
      then show ?thesis using codec_no_writer by (simp add: default_EncryptionAlgorithm_def)
    next
      case AES_GCM_V1
      with ok obtain a where a: "ea_aes_gcm_v1 v = Some a" "pred_option short (ag_aad_prefix a)" "ea_aes_gcm_ctr_v1 v = None"
        by (auto simp: ok_algorithm_def)
      show ?thesis unfolding AES_GCM_V1
        by (simp add: value_or_def a, rule step_field, simp, rule sound_some, rule AG.sound_type, rule a(2), simp_all, rule step_end)
          (use AES_GCM_V1 a in \<open>cases v; simp add: default_EncryptionAlgorithm_def\<close>)
    next
      case AES_GCM_CTR_V1
      with ok obtain a where a: "ea_aes_gcm_ctr_v1 v = Some a" "pred_option short (ac_aad_prefix a)" "ea_aes_gcm_v1 v = None"
        by (auto simp: ok_algorithm_def)
      show ?thesis unfolding AES_GCM_CTR_V1
        by (simp add: value_or_def a, rule step_field, simp, rule sound_some, rule AC.sound_type, rule a(2), simp_all, rule step_end)
          (use AES_GCM_CTR_V1 a in \<open>cases v; simp add: default_EncryptionAlgorithm_def\<close>)
    qed
  qed simp
next
  show "safe deserialize_EncryptionAlgorithm"
    unfolding deserialize_EncryptionAlgorithm_def by (rule safe_read_struct safe_switch)+ (auto intro!: safe_parts AG.safe_type AC.safe_type)
qed (simp add: MAX_NESTING_DEPTH_def)

record column_key =
  ck_path_in_schema :: "bytes list"
  ck_key_metadata :: "bytes option"

definition default_EncryptionWithColumnKey :: column_key where
  "default_EncryptionWithColumnKey = \<lparr>ck_path_in_schema = [], ck_key_metadata = None\<rparr>"

definition serialize_EncryptionWithColumnKey :: "column_key \<Rightarrow> writer" where
  "serialize_EncryptionWithColumnKey v = write_struct [
     put_field 1 T_LIST (write_list T_BINARY write_string (ck_path_in_schema v)),
     opt (ck_key_metadata v) (\<lambda>s. put_field 2 T_BINARY (write_binary s))]"

definition deserialize_EncryptionWithColumnKey :: "(column_key, column_key) decoder" where
  "deserialize_EncryptionWithColumnKey = read_struct (switch [
     (1, field [T_LIST] (list_of 10000 [] (reader read_string)) ck_path_in_schema ck_path_in_schema_update),
     (2, opt_binary_field ck_key_metadata_update)])"

definition ok_column_key :: "column_key \<Rightarrow> bool" where
  "ok_column_key v \<longleftrightarrow> length (ck_path_in_schema v) \<le> 10000 \<and> list_all short (ck_path_in_schema v) \<and> pred_option short (ck_key_metadata v)"

interpretation CK: thrift_type serialize_EncryptionWithColumnKey deserialize_EncryptionWithColumnKey default_EncryptionWithColumnKey ok_column_key 3
proof
  fix v assume ok: "ok_column_key v"
  note ds = default_EncryptionWithColumnKey_def ok_column_key_def list_all_iff MAX_COLLECTION_SIZE_def
  show "sound 3 (serialize_EncryptionWithColumnKey v) deserialize_EncryptionWithColumnKey default_EncryptionWithColumnKey v"
    unfolding serialize_EncryptionWithColumnKey_def deserialize_EncryptionWithColumnKey_def using ok
    by (intro sound_struct[where C = 0])
      (rule list_step, simp, simp add: ds, simp add: ds, rule sound_bytes(1), simp add: ds, simp add: ds, simp, simp,
       rule string_steps, simp, simp add: ds, rule step_end, cases v, simp_all add: ds)
next
  show "safe deserialize_EncryptionWithColumnKey"
    unfolding deserialize_EncryptionWithColumnKey_def by (rule safe_read_struct safe_switch)+ (auto intro!: safe_parts)
qed (simp add: MAX_NESTING_DEPTH_def)

datatype crypto_kind = CC_NONE | FOOTER_KEY | COLUMN_KEY

record column_crypto =
  cc_kind :: crypto_kind
  cc_column_key :: "column_key option"

definition default_ColumnCryptoMetaData :: column_crypto where
  "default_ColumnCryptoMetaData = \<lparr>cc_kind = CC_NONE, cc_column_key = None\<rparr>"

definition serialize_ColumnCryptoMetaData :: "column_crypto \<Rightarrow> writer" where
  "serialize_ColumnCryptoMetaData v = write_struct [case cc_kind v of
     FOOTER_KEY \<Rightarrow> put_field 1 T_STRUCT empty_struct
   | COLUMN_KEY \<Rightarrow> put_field 2 T_STRUCT (serialize_EncryptionWithColumnKey (value_or (cc_column_key v) default_EncryptionWithColumnKey))
   | CC_NONE \<Rightarrow> run []]"

definition deserialize_ColumnCryptoMetaData :: "(column_crypto, column_crypto) decoder" where
  "deserialize_ColumnCryptoMetaData = read_struct (switch [
     (1, unit_field (\<lambda>_ u. u\<lparr>cc_kind := FOOTER_KEY\<rparr>)),
     (2, opt_struct_field default_EncryptionWithColumnKey deserialize_EncryptionWithColumnKey
           (\<lambda>g u. cc_column_key_update g (u\<lparr>cc_kind := COLUMN_KEY\<rparr>)))])"

definition ok_column_crypto :: "column_crypto \<Rightarrow> bool" where
  "ok_column_crypto v \<longleftrightarrow> (cc_column_key v \<noteq> None \<longleftrightarrow> cc_kind v = COLUMN_KEY) \<and> pred_option ok_column_key (cc_column_key v)"

interpretation CC: thrift_type serialize_ColumnCryptoMetaData deserialize_ColumnCryptoMetaData default_ColumnCryptoMetaData ok_column_crypto 5
proof
  fix v assume ok: "ok_column_crypto v"
  show "sound 5 (serialize_ColumnCryptoMetaData v) deserialize_ColumnCryptoMetaData default_ColumnCryptoMetaData v"
    unfolding serialize_ColumnCryptoMetaData_def deserialize_ColumnCryptoMetaData_def
  proof (rule sound_struct[where C = 3], goal_cases)
    case 1
    show ?case
    proof (cases "cc_kind v")
      case CC_NONE
      then have "v = default_ColumnCryptoMetaData" using ok by (cases v) (simp add: ok_column_crypto_def default_ColumnCryptoMetaData_def)
      then show ?thesis using codec_no_writer by (simp add: default_ColumnCryptoMetaData_def)
    next
      case FOOTER_KEY
      then have "v = default_ColumnCryptoMetaData\<lparr>cc_kind := FOOTER_KEY\<rparr>"
        using ok by (cases v) (simp add: ok_column_crypto_def default_ColumnCryptoMetaData_def)
      then show ?thesis unfolding FOOTER_KEY by (simp, intro steps, simp_all, intro step_end, simp)
    next
      case COLUMN_KEY
      with ok obtain a where a: "cc_column_key v = Some a" "ok_column_key a" by (auto simp: ok_column_crypto_def)
      show ?thesis unfolding COLUMN_KEY
        by (simp add: value_or_def a, rule step_field, simp, rule sound_some, rule CK.sound_type, rule a(2), simp_all, rule step_end)
          (use COLUMN_KEY a in \<open>cases v; simp add: default_ColumnCryptoMetaData_def\<close>)
    qed
  qed simp
next
  show "safe deserialize_ColumnCryptoMetaData"
    unfolding deserialize_ColumnCryptoMetaData_def by (rule safe_read_struct safe_switch)+ (auto intro!: safe_parts CK.safe_type)
qed (simp add: MAX_NESTING_DEPTH_def)

record file_crypto =
  fc_encryption_algorithm :: encryption_algorithm
  fc_key_metadata :: "bytes option"

definition default_FileCryptoMetaData :: file_crypto where
  "default_FileCryptoMetaData = \<lparr>fc_encryption_algorithm = default_EncryptionAlgorithm, fc_key_metadata = None\<rparr>"

definition serialize_FileCryptoMetaData :: "file_crypto \<Rightarrow> writer" where
  "serialize_FileCryptoMetaData v = write_struct [
     put_field 1 T_STRUCT (serialize_EncryptionAlgorithm (fc_encryption_algorithm v)),
     opt (fc_key_metadata v) (\<lambda>s. put_field 2 T_BINARY (write_binary s))]"

definition deserialize_FileCryptoMetaData :: "(file_crypto, file_crypto) decoder" where
  "deserialize_FileCryptoMetaData = read_struct (switch [
     (1, field [T_STRUCT] deserialize_EncryptionAlgorithm fc_encryption_algorithm fc_encryption_algorithm_update),
     (2, opt_binary_field fc_key_metadata_update)])"

definition ok_file_crypto :: "file_crypto \<Rightarrow> bool" where
  "ok_file_crypto v \<longleftrightarrow> ok_algorithm (fc_encryption_algorithm v) \<and> pred_option short (fc_key_metadata v)"

interpretation FC: thrift_type serialize_FileCryptoMetaData deserialize_FileCryptoMetaData default_FileCryptoMetaData ok_file_crypto 9
proof
  fix v assume ok: "ok_file_crypto v"
  then show "sound 9 (serialize_FileCryptoMetaData v) deserialize_FileCryptoMetaData default_FileCryptoMetaData v"
    unfolding serialize_FileCryptoMetaData_def deserialize_FileCryptoMetaData_def ok_file_crypto_def
    by (intro sound_struct[where C = 6])
      (rule step_field, simp, simp add: default_FileCryptoMetaData_def, rule EA.sound_type, simp, simp, simp, simp,
       rule string_steps, simp, simp add: default_FileCryptoMetaData_def, rule step_end, cases v, simp_all add: default_FileCryptoMetaData_def)
next
  show "safe deserialize_FileCryptoMetaData"
    unfolding deserialize_FileCryptoMetaData_def by (rule safe_read_struct safe_switch)+ (auto intro!: safe_parts EA.safe_type)
qed (simp add: MAX_NESTING_DEPTH_def)

section \<open>Bloom filter header\<close>

datatype bloom_algorithm_kind = BA_NONE | BLOCK

record bloom_algorithm = ba_kind :: bloom_algorithm_kind

definition default_BloomFilterAlgorithm :: bloom_algorithm where "default_BloomFilterAlgorithm = \<lparr>ba_kind = BLOCK\<rparr>"

definition serialize_BloomFilterAlgorithm :: "bloom_algorithm \<Rightarrow> writer" where
  "serialize_BloomFilterAlgorithm v = write_struct [if ba_kind v = BLOCK then put_field 1 T_STRUCT empty_struct else run []]"

definition deserialize_BloomFilterAlgorithm :: "(bloom_algorithm, bloom_algorithm) decoder" where
  "deserialize_BloomFilterAlgorithm = read_struct (switch [(1, unit_field (\<lambda>_ u. u\<lparr>ba_kind := BLOCK\<rparr>))])"

interpretation BA: thrift_type serialize_BloomFilterAlgorithm deserialize_BloomFilterAlgorithm default_BloomFilterAlgorithm "\<lambda>v. ba_kind v = BLOCK" 3
proof
  fix v :: bloom_algorithm assume ok: "ba_kind v = BLOCK"
  then show "sound 3 (serialize_BloomFilterAlgorithm v) deserialize_BloomFilterAlgorithm default_BloomFilterAlgorithm v"
    unfolding serialize_BloomFilterAlgorithm_def deserialize_BloomFilterAlgorithm_def
    by (intro sound_struct[where C = 1]) (simp, rule steps, simp, simp, rule step_end, cases v, simp_all add: default_BloomFilterAlgorithm_def)
next
  show "safe deserialize_BloomFilterAlgorithm"
    unfolding deserialize_BloomFilterAlgorithm_def by (rule safe_read_struct safe_switch)+ (auto intro!: safe_parts)
qed (simp add: MAX_NESTING_DEPTH_def)

datatype bloom_hash_kind = BH_NONE | XXHASH

record bloom_hash = bh_kind :: bloom_hash_kind

definition default_BloomFilterHash :: bloom_hash where "default_BloomFilterHash = \<lparr>bh_kind = XXHASH\<rparr>"

definition serialize_BloomFilterHash :: "bloom_hash \<Rightarrow> writer" where
  "serialize_BloomFilterHash v = write_struct [if bh_kind v = XXHASH then put_field 1 T_STRUCT empty_struct else run []]"

definition deserialize_BloomFilterHash :: "(bloom_hash, bloom_hash) decoder" where
  "deserialize_BloomFilterHash = read_struct (switch [(1, unit_field (\<lambda>_ u. u\<lparr>bh_kind := XXHASH\<rparr>))])"

interpretation BH: thrift_type serialize_BloomFilterHash deserialize_BloomFilterHash default_BloomFilterHash "\<lambda>v. bh_kind v = XXHASH" 3
proof
  fix v :: bloom_hash assume ok: "bh_kind v = XXHASH"
  then show "sound 3 (serialize_BloomFilterHash v) deserialize_BloomFilterHash default_BloomFilterHash v"
    unfolding serialize_BloomFilterHash_def deserialize_BloomFilterHash_def
    by (intro sound_struct[where C = 1]) (simp, rule steps, simp, simp, rule step_end, cases v, simp_all add: default_BloomFilterHash_def)
next
  show "safe deserialize_BloomFilterHash"
    unfolding deserialize_BloomFilterHash_def by (rule safe_read_struct safe_switch)+ (auto intro!: safe_parts)
qed (simp add: MAX_NESTING_DEPTH_def)

datatype bloom_compression_kind = BC_NONE | BC_UNCOMPRESSED

record bloom_compression = bc_kind :: bloom_compression_kind

definition default_BloomFilterCompression :: bloom_compression where "default_BloomFilterCompression = \<lparr>bc_kind = BC_UNCOMPRESSED\<rparr>"

definition serialize_BloomFilterCompression :: "bloom_compression \<Rightarrow> writer" where
  "serialize_BloomFilterCompression v = write_struct [if bc_kind v = BC_UNCOMPRESSED then put_field 1 T_STRUCT empty_struct else run []]"

definition deserialize_BloomFilterCompression :: "(bloom_compression, bloom_compression) decoder" where
  "deserialize_BloomFilterCompression = read_struct (switch [(1, unit_field (\<lambda>_ u. u\<lparr>bc_kind := BC_UNCOMPRESSED\<rparr>))])"

interpretation BC: thrift_type serialize_BloomFilterCompression deserialize_BloomFilterCompression default_BloomFilterCompression "\<lambda>v. bc_kind v = BC_UNCOMPRESSED" 3
proof
  fix v :: bloom_compression assume ok: "bc_kind v = BC_UNCOMPRESSED"
  then show "sound 3 (serialize_BloomFilterCompression v) deserialize_BloomFilterCompression default_BloomFilterCompression v"
    unfolding serialize_BloomFilterCompression_def deserialize_BloomFilterCompression_def
    by (intro sound_struct[where C = 1]) (simp, rule steps, simp, simp, rule step_end, cases v, simp_all add: default_BloomFilterCompression_def)
next
  show "safe deserialize_BloomFilterCompression"
    unfolding deserialize_BloomFilterCompression_def by (rule safe_read_struct safe_switch)+ (auto intro!: safe_parts)
qed (simp add: MAX_NESTING_DEPTH_def)

record bloom_header =
  bl_num_bytes :: u32
  bl_algorithm :: bloom_algorithm
  bl_hash :: bloom_hash
  bl_compression :: bloom_compression

definition default_BloomFilterHeader :: bloom_header where
  "default_BloomFilterHeader = \<lparr>bl_num_bytes = 0, bl_algorithm = default_BloomFilterAlgorithm, bl_hash = default_BloomFilterHash,
     bl_compression = default_BloomFilterCompression\<rparr>"

definition serialize_BloomFilterHeader :: "bloom_header \<Rightarrow> writer" where
  "serialize_BloomFilterHeader v = write_struct [
     put_field 1 T_I32 (write_i32 (bl_num_bytes v)),
     put_field 2 T_STRUCT (serialize_BloomFilterAlgorithm (bl_algorithm v)),
     put_field 3 T_STRUCT (serialize_BloomFilterHash (bl_hash v)),
     put_field 4 T_STRUCT (serialize_BloomFilterCompression (bl_compression v))]"

definition deserialize_BloomFilterHeader :: "(bloom_header, bloom_header) decoder" where
  "deserialize_BloomFilterHeader = read_struct (switch [
     (1, i32_field bl_num_bytes_update),
     (2, field [T_STRUCT] deserialize_BloomFilterAlgorithm bl_algorithm bl_algorithm_update),
     (3, field [T_STRUCT] deserialize_BloomFilterHash bl_hash bl_hash_update),
     (4, field [T_STRUCT] deserialize_BloomFilterCompression bl_compression bl_compression_update)])"

definition ok_bloom_header :: "bloom_header \<Rightarrow> bool" where
  "ok_bloom_header v \<longleftrightarrow> ba_kind (bl_algorithm v) = BLOCK \<and> bh_kind (bl_hash v) = XXHASH \<and> bc_kind (bl_compression v) = BC_UNCOMPRESSED"

interpretation BL: thrift_type serialize_BloomFilterHeader deserialize_BloomFilterHeader default_BloomFilterHeader ok_bloom_header 8
proof
  fix v assume ok: "ok_bloom_header v"
  then show "sound 8 (serialize_BloomFilterHeader v) deserialize_BloomFilterHeader default_BloomFilterHeader v"
    unfolding serialize_BloomFilterHeader_def deserialize_BloomFilterHeader_def ok_bloom_header_def
    by (intro sound_struct[where C = 3])
      (rule steps, simp,
       rule step_field, simp, simp add: default_BloomFilterHeader_def, rule BA.sound_type, simp, simp, simp, simp,
       rule step_field, simp, simp add: default_BloomFilterHeader_def, rule BH.sound_type, simp, simp, simp, simp,
       rule step_field, simp, simp add: default_BloomFilterHeader_def, rule BC.sound_type, simp, simp, simp, simp,
       rule step_end, cases v, simp_all add: default_BloomFilterHeader_def)
next
  show "safe deserialize_BloomFilterHeader"
    unfolding deserialize_BloomFilterHeader_def
    by (rule safe_read_struct safe_switch)+ (auto intro!: safe_parts BA.safe_type BH.safe_type BC.safe_type)
qed (simp add: MAX_NESTING_DEPTH_def)

section \<open>Column chunks\<close>

record column_chunk =
  ch_file_path :: "bytes option"
  ch_file_offset :: u64
  ch_meta_data :: "column_metadata option"
  ch_crypto_metadata :: "column_crypto option"
  ch_bloom_filter_offset :: "u64 option"
  ch_bloom_filter_length :: "u32 option"
  ch_column_index_offset :: "u64 option"
  ch_column_index_length :: "u32 option"
  ch_offset_index_offset :: "u64 option"
  ch_offset_index_length :: "u32 option"

definition default_ColumnChunk :: column_chunk where
  "default_ColumnChunk = \<lparr>ch_file_path = None, ch_file_offset = 0, ch_meta_data = None, ch_crypto_metadata = None,
     ch_bloom_filter_offset = None, ch_bloom_filter_length = None, ch_column_index_offset = None, ch_column_index_length = None,
     ch_offset_index_offset = None, ch_offset_index_length = None\<rparr>"

definition serialize_ColumnChunk :: "column_chunk \<Rightarrow> writer" where
  "serialize_ColumnChunk v = write_struct [
     opt (ch_file_path v) (\<lambda>s. put_field 1 T_BINARY (write_string s)),
     put_field 2 T_I64 (write_i64 (ch_file_offset v)),
     opt (ch_meta_data v) (\<lambda>x. put_field 3 T_STRUCT (serialize_ColumnMetaData x)),
     opt (ch_crypto_metadata v) (\<lambda>x. put_field 4 T_STRUCT (serialize_ColumnCryptoMetaData x)),
     opt (ch_bloom_filter_offset v) (\<lambda>n. put_field 8 T_I64 (write_i64 n)),
     opt (ch_bloom_filter_length v) (\<lambda>n. put_field 9 T_I32 (write_i32 n)),
     opt (ch_column_index_offset v) (\<lambda>n. put_field 10 T_I64 (write_i64 n)),
     opt (ch_column_index_length v) (\<lambda>n. put_field 11 T_I32 (write_i32 n)),
     opt (ch_offset_index_offset v) (\<lambda>n. put_field 12 T_I64 (write_i64 n)),
     opt (ch_offset_index_length v) (\<lambda>n. put_field 13 T_I32 (write_i32 n))]"

definition deserialize_ColumnChunk :: "(column_chunk, column_chunk) decoder" where
  "deserialize_ColumnChunk = read_struct (switch [
     (1, opt_string_field ch_file_path_update),
     (2, i64_field ch_file_offset_update),
     (3, opt_struct_field default_ColumnMetaData deserialize_ColumnMetaData ch_meta_data_update),
     (4, opt_struct_field default_ColumnCryptoMetaData deserialize_ColumnCryptoMetaData ch_crypto_metadata_update),
     (8, opt_i64_field ch_bloom_filter_offset_update),
     (9, opt_i32_field ch_bloom_filter_length_update),
     (10, opt_i64_field ch_column_index_offset_update),
     (11, opt_i32_field ch_column_index_length_update),
     (12, opt_i64_field ch_offset_index_offset_update),
     (13, opt_i32_field ch_offset_index_length_update)])"

definition ok_column_chunk :: "column_chunk \<Rightarrow> bool" where
  "ok_column_chunk v \<longleftrightarrow> pred_option short (ch_file_path v) \<and> pred_option ok_column_metadata (ch_meta_data v)
     \<and> pred_option ok_column_crypto (ch_crypto_metadata v)"

interpretation CH: thrift_type serialize_ColumnChunk deserialize_ColumnChunk default_ColumnChunk ok_column_chunk 31
proof
  fix v assume ok: "ok_column_chunk v"
  note ds = default_ColumnChunk_def ok_column_chunk_def
  show "sound 31 (serialize_ColumnChunk v) deserialize_ColumnChunk default_ColumnChunk v"
    unfolding serialize_ColumnChunk_def deserialize_ColumnChunk_def
  proof (rule sound_struct[where C = 20], goal_cases)
    case 1
    show ?case using ok
      by - (rule string_steps, simp, simp add: ds, rule steps, simp,
        rule step_opt, simp, rule CM.sound_type, simp add: ds, simp, simp, simp, simp add: ds,
        rule step_opt, simp, rule CC.sound_type, simp add: ds, simp, simp, simp, simp add: ds,
        (rule opt_steps, simp, simp add: ds)+, rule step_end, cases v, simp add: ds)
  qed simp
next
  show "safe deserialize_ColumnChunk"
    unfolding deserialize_ColumnChunk_def by (rule safe_read_struct safe_switch)+ (auto intro!: safe_parts CM.safe_type CC.safe_type)
qed (simp add: MAX_NESTING_DEPTH_def)

section \<open>Ordering\<close>

datatype column_order_kind = CO_NONE | TYPE_ORDER

record column_order = co_kind :: column_order_kind

definition default_ColumnOrder :: column_order where "default_ColumnOrder = \<lparr>co_kind = TYPE_ORDER\<rparr>"

definition serialize_ColumnOrder :: "column_order \<Rightarrow> writer" where
  "serialize_ColumnOrder v = write_struct [if co_kind v = TYPE_ORDER then put_field 1 T_STRUCT empty_struct else run []]"

definition deserialize_ColumnOrder :: "(column_order, column_order) decoder" where
  "deserialize_ColumnOrder = read_struct (switch [(1, unit_field (\<lambda>_ u. u\<lparr>co_kind := TYPE_ORDER\<rparr>))])"

interpretation CO: thrift_type serialize_ColumnOrder deserialize_ColumnOrder default_ColumnOrder "\<lambda>v. co_kind v = TYPE_ORDER" 3
proof
  fix v :: column_order assume ok: "co_kind v = TYPE_ORDER"
  then show "sound 3 (serialize_ColumnOrder v) deserialize_ColumnOrder default_ColumnOrder v"
    unfolding serialize_ColumnOrder_def deserialize_ColumnOrder_def
    by (intro sound_struct[where C = 1]) (simp, rule steps, simp, simp, rule step_end, cases v, simp_all add: default_ColumnOrder_def)
next
  show "safe deserialize_ColumnOrder"
    unfolding deserialize_ColumnOrder_def by (rule safe_read_struct safe_switch)+ (auto intro!: safe_parts)
qed (simp add: MAX_NESTING_DEPTH_def)

record sorting_column =
  sc_column_idx :: u32
  sc_descending :: bool
  sc_nulls_first :: bool

definition default_SortingColumn :: sorting_column where
  "default_SortingColumn = \<lparr>sc_column_idx = 0, sc_descending = False, sc_nulls_first = True\<rparr>"

definition serialize_SortingColumn :: "sorting_column \<Rightarrow> writer" where
  "serialize_SortingColumn v = write_struct [
     put_field 1 T_I32 (write_i32 (sc_column_idx v)),
     write_field_bool 2 (sc_descending v),
     write_field_bool 3 (sc_nulls_first v)]"

definition deserialize_SortingColumn :: "(sorting_column, sorting_column) decoder" where
  "deserialize_SortingColumn = read_struct (switch [
     (1, i32_field sc_column_idx_update), (2, bool_field sc_descending_update), (3, bool_field sc_nulls_first_update)])"

interpretation SC: thrift_type serialize_SortingColumn deserialize_SortingColumn default_SortingColumn "\<lambda>_. True" 4
proof
  fix v :: sorting_column
  show "sound 4 (serialize_SortingColumn v) deserialize_SortingColumn default_SortingColumn v"
    unfolding serialize_SortingColumn_def deserialize_SortingColumn_def
    by (intro sound_struct[where C = 0]) ((rule steps, simp)+, rule step_end, cases v, simp_all add: default_SortingColumn_def)
next
  show "safe deserialize_SortingColumn"
    unfolding deserialize_SortingColumn_def by (rule safe_read_struct safe_switch)+ (auto intro!: safe_parts)
qed (simp add: MAX_NESTING_DEPTH_def)

section \<open>Row groups and file metadata\<close>

record row_group =
  rg_columns :: "column_chunk list"
  rg_total_byte_size :: u64
  rg_num_rows :: u64
  rg_sorting_columns :: "sorting_column list"

definition default_RowGroup :: row_group where
  "default_RowGroup = \<lparr>rg_columns = [], rg_total_byte_size = 0, rg_num_rows = 0, rg_sorting_columns = []\<rparr>"

definition serialize_RowGroup :: "row_group \<Rightarrow> writer" where
  "serialize_RowGroup v = write_struct [
     put_field 1 T_LIST (write_list T_STRUCT serialize_ColumnChunk (rg_columns v)),
     put_field 2 T_I64 (write_i64 (rg_total_byte_size v)),
     put_field 3 T_I64 (write_i64 (rg_num_rows v)),
     if rg_sorting_columns v \<noteq> [] then put_field 4 T_LIST (write_list T_STRUCT serialize_SortingColumn (rg_sorting_columns v)) else run []]"

definition deserialize_RowGroup :: "(row_group, row_group) decoder" where
  "deserialize_RowGroup = read_struct (switch [
     (1, field [T_LIST] (list_of 10000 default_ColumnChunk deserialize_ColumnChunk) rg_columns rg_columns_update),
     (2, i64_field rg_total_byte_size_update),
     (3, i64_field rg_num_rows_update),
     (4, field [T_LIST] (list_of 10000 default_SortingColumn deserialize_SortingColumn) rg_sorting_columns rg_sorting_columns_update)])"

definition ok_row_group :: "row_group \<Rightarrow> bool" where
  "ok_row_group v \<longleftrightarrow> length (rg_columns v) \<le> 10000 \<and> list_all ok_column_chunk (rg_columns v) \<and> length (rg_sorting_columns v) \<le> 10000"

interpretation RG: thrift_type serialize_RowGroup deserialize_RowGroup default_RowGroup ok_row_group 36
proof
  fix v assume ok: "ok_row_group v"
  note ds = default_RowGroup_def ok_row_group_def list_all_iff MAX_COLLECTION_SIZE_def
  show "sound 36 (serialize_RowGroup v) deserialize_RowGroup default_RowGroup v"
    unfolding serialize_RowGroup_def deserialize_RowGroup_def
  proof (rule sound_struct[where C = 31], goal_cases)
    case 1
    show ?case using ok
      by - (rule list_step, simp, simp add: ds, simp add: ds, rule CH.sound_type, simp add: ds, simp add: ds, simp, simp,
        (rule steps, simp)+, cases "rg_sorting_columns v = []",
        simp, rule codec_Cons[OF codec_no_writer], rule step_end, cases v, simp add: ds,
        simp, rule list_step, simp, simp add: ds, simp add: ds, rule SC.sound_type, simp, simp add: ds, simp, simp,
        rule step_end, cases v, simp add: ds)
  qed simp
next
  show "safe deserialize_RowGroup"
    unfolding deserialize_RowGroup_def by (rule safe_read_struct safe_switch)+ (auto intro!: safe_parts CH.safe_type SC.safe_type)
qed (simp add: MAX_NESTING_DEPTH_def)

record file_metadata =
  fm_version :: u32
  fm_schema :: "schema_element list"
  fm_num_rows :: u64
  fm_row_groups :: "row_group list"
  fm_key_value_metadata :: "key_value list option"
  fm_created_by :: "bytes option"
  fm_column_orders :: "column_order list option"

definition PARQUET_VERSION :: u32 where "PARQUET_VERSION = 2"

definition default_FileMetaData :: file_metadata where
  "default_FileMetaData = \<lparr>fm_version = PARQUET_VERSION, fm_schema = [], fm_num_rows = 0, fm_row_groups = [],
     fm_key_value_metadata = None, fm_created_by = None, fm_column_orders = None\<rparr>"

definition serialize_FileMetaData :: "file_metadata \<Rightarrow> writer" where
  "serialize_FileMetaData v = write_struct [
     put_field 1 T_I32 (write_i32 (fm_version v)),
     put_field 2 T_LIST (write_list T_STRUCT serialize_SchemaElement (fm_schema v)),
     put_field 3 T_I64 (write_i64 (fm_num_rows v)),
     put_field 4 T_LIST (write_list T_STRUCT serialize_RowGroup (fm_row_groups v)),
     opt (fm_key_value_metadata v) (\<lambda>kvs. put_field 5 T_LIST (write_list T_STRUCT serialize_KeyValue kvs)),
     opt (fm_created_by v) (\<lambda>s. put_field 6 T_BINARY (write_string s)),
     opt (fm_column_orders v) (\<lambda>cos. put_field 7 T_LIST (write_list T_STRUCT serialize_ColumnOrder cos))]"

definition deserialize_FileMetaData :: "(file_metadata, file_metadata) decoder" where
  "deserialize_FileMetaData = read_struct (switch [
     (1, i32_field fm_version_update),
     (2, field [T_LIST] (list_of 10000 default_SchemaElement deserialize_SchemaElement) fm_schema fm_schema_update),
     (3, i64_field fm_num_rows_update),
     (4, field [T_LIST] (list_of 10000 default_RowGroup deserialize_RowGroup) fm_row_groups fm_row_groups_update),
     (5, field [T_LIST] (some (list_of 1000000 default_KeyValue deserialize_KeyValue)) (\<lambda>_. []) fm_key_value_metadata_update),
     (6, opt_string_field fm_created_by_update),
     (7, field [T_LIST] (some (list_of 10000 default_ColumnOrder deserialize_ColumnOrder)) (\<lambda>_. []) fm_column_orders_update)])"

definition ok_file_metadata :: "file_metadata \<Rightarrow> bool" where
  "ok_file_metadata v \<longleftrightarrow> length (fm_schema v) \<le> 10000 \<and> list_all ok_schema (fm_schema v)
     \<and> length (fm_row_groups v) \<le> 10000 \<and> list_all ok_row_group (fm_row_groups v)
     \<and> pred_option (\<lambda>kvs. length kvs \<le> 1000000 \<and> list_all ok_key_value kvs) (fm_key_value_metadata v)
     \<and> pred_option short (fm_created_by v)
     \<and> pred_option (\<lambda>cos. length cos \<le> 10000 \<and> list_all (\<lambda>c. co_kind c = TYPE_ORDER) cos) (fm_column_orders v)"

interpretation FM: thrift_type serialize_FileMetaData deserialize_FileMetaData default_FileMetaData ok_file_metadata 44
proof
  fix v assume ok: "ok_file_metadata v"
  note ds = default_FileMetaData_def ok_file_metadata_def list_all_iff MAX_COLLECTION_SIZE_def option.pred_set
  show "sound 44 (serialize_FileMetaData v) deserialize_FileMetaData default_FileMetaData v"
    unfolding serialize_FileMetaData_def deserialize_FileMetaData_def
  proof (rule sound_struct[where C = 36], goal_cases)
    case 1
    show ?case using ok
      by - (rule steps, simp,
        rule list_step, simp, simp add: ds, simp add: ds, rule SE.sound_type, simp add: ds, simp add: ds, simp, simp,
        rule steps, simp,
        rule list_step, simp, simp add: ds, simp add: ds, rule RG.sound_type, simp add: ds, simp add: ds, simp, simp,
        rule opt_list_step, simp, simp, simp add: ds, rule KV.sound_type, simp add: ds, simp add: ds, simp, simp, simp add: ds,
        rule string_steps, simp, simp add: ds,
        rule opt_list_step, simp, simp, simp add: ds, rule CO.sound_type, simp add: ds, simp add: ds, simp, simp, simp add: ds,
        rule step_end, cases v, simp add: ds)
  qed simp
next
  show "safe deserialize_FileMetaData"
    unfolding deserialize_FileMetaData_def
    by (rule safe_read_struct safe_switch)+ (auto intro!: safe_parts SE.safe_type RG.safe_type KV.safe_type CO.safe_type)
qed (simp add: MAX_NESTING_DEPTH_def)

end
