(* ===== verification/Footer.thy ===== *)
theory Footer
  imports ParquetMeta
begin

text \<open>
  What the metadata family of \<^verbatim>\<open>include/signet/thrift/types.hpp\<close> guarantees to the readers and writers of
  files: round trips, totality on arbitrary bytes, uniqueness of encodings, required fields, and the
  values for which reading does not undo writing.
\<close>

section \<open>Round trips\<close>

text \<open>
  Property C6: a file footer that the encoder writes is read back exactly, with the decoder standing
  right behind it, whatever follows; the encoding may have up to a million bytes, so that the limit on the
  number of fields cannot be reached.
\<close>
theorem file_metadata_roundtrip:
  assumes "ok_file_metadata v"
  shows "\<exists>bs. serialize_FileMetaData v encoder_new = Some (append_bytes bs encoder_new) \<and>
    (length bs \<le> MAX_TOTAL_FIELDS \<longrightarrow> (\<forall>rest. \<exists>d. deserialize_FileMetaData (decoder_new (bs @ rest)) default_FileMetaData = (Inr v, d)
      \<and> dpos d = length bs \<and> good d))"
  by (rule FM.encode_decode[OF assms])

definition sample_footer :: file_metadata where
  "sample_footer = default_FileMetaData\<lparr>
     fm_schema := [default_SchemaElement\<lparr>se_name := [114], se_num_children := Some 1\<rparr>,
       default_SchemaElement\<lparr>se_type := Some 2, se_repetition_type := Some 0, se_name := [116, 115],
         se_logical_type := Some (default_LogicalTypeUnion\<lparr>lt_kind := LT_TIMESTAMP, lt_timestamp := Some default_TimestampType\<rparr>)\<rparr>],
     fm_num_rows := 1,
     fm_row_groups := [default_RowGroup\<lparr>rg_num_rows := 1, rg_columns := [default_ColumnChunk\<lparr>ch_meta_data := Some
       (default_ColumnMetaData\<lparr>cm_encodings := [0, 3], cm_path_in_schema := [[116, 115]],
         cm_statistics := Some (default_Statistics\<lparr>st_null_count := Some 0\<rparr>)\<rparr>)\<rparr>]\<rparr>],
     fm_column_orders := Some [default_ColumnOrder]\<rparr>"

lemma sample_footer_ok: "ok_file_metadata sample_footer"
  by (simp add: sample_footer_def ok_file_metadata_def default_FileMetaData_def ok_schema_def default_SchemaElement_def ok_logical_def
      default_LogicalTypeUnion_def ok_row_group_def default_RowGroup_def ok_column_chunk_def default_ColumnChunk_def ok_column_metadata_def
      default_ColumnMetaData_def ok_statistics_def default_Statistics_def default_ColumnOrder_def MAX_STRING_BYTES_def)

theorem file_metadata_roundtrip_witness:
  "\<exists>bs. serialize_FileMetaData sample_footer encoder_new = Some (append_bytes bs encoder_new) \<and>
    (length bs \<le> MAX_TOTAL_FIELDS \<longrightarrow> (\<exists>d. deserialize_FileMetaData (decoder_new bs) default_FileMetaData = (Inr sample_footer, d)))"
  using file_metadata_roundtrip[OF sample_footer_ok] by (metis append_Nil2)

text \<open>
  Property C9: page headers, the Bloom filter header and the crypto metadata are read back exactly.
\<close>
theorem header_roundtrips:
  assumes "ok_page_header v" "ok_bloom_header w" "ok_file_crypto c"
  shows "(\<exists>bs. serialize_PageHeader v encoder_new = Some (append_bytes bs encoder_new) \<and>
      (length bs \<le> MAX_TOTAL_FIELDS \<longrightarrow> (\<forall>rest. \<exists>d. deserialize_PageHeader (decoder_new (bs @ rest)) default_PageHeader = (Inr v, d)
        \<and> dpos d = length bs \<and> good d)))
    \<and> (\<exists>bs. serialize_BloomFilterHeader w encoder_new = Some (append_bytes bs encoder_new) \<and>
      (length bs \<le> MAX_TOTAL_FIELDS \<longrightarrow> (\<forall>rest. \<exists>d. deserialize_BloomFilterHeader (decoder_new (bs @ rest)) default_BloomFilterHeader = (Inr w, d)
        \<and> dpos d = length bs \<and> good d)))
    \<and> (\<exists>bs. serialize_FileCryptoMetaData c encoder_new = Some (append_bytes bs encoder_new) \<and>
      (length bs \<le> MAX_TOTAL_FIELDS \<longrightarrow> (\<forall>rest. \<exists>d. deserialize_FileCryptoMetaData (decoder_new (bs @ rest)) default_FileCryptoMetaData = (Inr c, d)
        \<and> dpos d = length bs \<and> good d)))"
  by (intro conjI) (rule PG.encode_decode BL.encode_decode FC.encode_decode, rule assms)+

definition sample_page :: page_header where
  "sample_page = default_PageHeader\<lparr>pg_uncompressed_page_size := 100, pg_compressed_page_size := 60, pg_crc := Some 0xDEADBEEF,
     pg_data_page_header := Some (default_DataPageHeader\<lparr>ph_num_values := 25, ph_statistics := Some default_Statistics\<rparr>)\<rparr>"

definition sample_crypto :: file_crypto where
  "sample_crypto = default_FileCryptoMetaData\<lparr>fc_encryption_algorithm := default_EncryptionAlgorithm
     \<lparr>ea_kind := AES_GCM_V1, ea_aes_gcm_v1 := Some (default_AesGcmV1\<lparr>ag_aad_prefix := Some [1, 2, 3]\<rparr>)\<rparr>\<rparr>"

lemma samples_ok: "ok_page_header sample_page" "ok_bloom_header default_BloomFilterHeader" "ok_file_crypto sample_crypto"
  by (simp_all add: sample_page_def default_PageHeader_def ok_page_header_def ok_data_page_def ok_statistics_def default_Statistics_def
      default_DataPageHeader_def ok_bloom_header_def default_BloomFilterHeader_def default_BloomFilterAlgorithm_def
      default_BloomFilterHash_def default_BloomFilterCompression_def sample_crypto_def default_FileCryptoMetaData_def
      ok_file_crypto_def default_EncryptionAlgorithm_def ok_algorithm_def default_AesGcmV1_def MAX_STRING_BYTES_def)

theorem header_roundtrips_witness:
  "\<exists>bs. serialize_PageHeader sample_page encoder_new = Some (append_bytes bs encoder_new) \<and>
    (length bs \<le> MAX_TOTAL_FIELDS \<longrightarrow> (\<exists>d. deserialize_PageHeader (decoder_new (bs @ [1, 2, 3])) default_PageHeader = (Inr sample_page, d)))"
  using header_roundtrips[OF samples_ok] by (elim conjE) metis

text \<open>
  Encodings of page headers are unique and none is a proper prefix of another, so the values
  of a page start where its header ends.
\<close>
theorem page_header_prefix_free:
  assumes "ok_page_header v" "ok_page_header w" "serialize_PageHeader v encoder_new = Some e" "serialize_PageHeader w encoder_new = Some e'"
    and "ebuf e' = ebuf e @ rest" "length (ebuf e) \<le> MAX_TOTAL_FIELDS" "length (ebuf e') \<le> MAX_TOTAL_FIELDS"
  shows "v = w \<and> rest = []"
  by (rule PG.encoding_unique[OF assms])

lemma default_page_encoding:
  "serialize_PageHeader default_PageHeader encoder_new = Some (append_bytes [0x15, 0, 0x15, 0, 0x15, 0, 0] encoder_new)"
  by (simp add: serialize_PageHeader_def write_struct_def default_PageHeader_def PAGE_DATA_def enc_begin_struct_def encoder_new_def
      opt_def write_stop_def enc_end_struct_def put_field_def write_field_bytes header_bytes_def write_i32_def write_varint_leb
      zigzag_encode32_def leb_small append_bytes_def T_I32_def)

theorem page_header_prefix_free_witness:
  "\<exists>e. serialize_PageHeader default_PageHeader encoder_new = Some e \<and> ebuf e = ebuf e @ []"
  using page_header_prefix_free[of default_PageHeader default_PageHeader _ _ "[]"] default_page_encoding by blast

section \<open>Arbitrary bytes\<close>

text \<open>
  Property C8: every byte string is either decoded or refused with \<^verbatim>\<open>THRIFT_DECODE_ERROR\<close>, as a footer
  and as a page header: the loops end and no read leaves the buffer.
\<close>
theorem metadata_decoding_total:
  "(case deserialize_FileMetaData (decoder_new bs) default_FileMetaData of
      (Inr v, d) \<Rightarrow> dpos d \<le> length bs | (Inl e, d) \<Rightarrow> dpos d \<le> length bs \<and> e = THRIFT_DECODE_ERROR)
    \<and> (case deserialize_PageHeader (decoder_new bs) default_PageHeader of
      (Inr v, d) \<Rightarrow> dpos d \<le> length bs | (Inl e, d) \<Rightarrow> dpos d \<le> length bs \<and> e = THRIFT_DECODE_ERROR)"
proof -
  have "moves (decoder_new bs) d \<Longrightarrow> dpos d \<le> length bs" for d by (simp add: moves_def decoder_new_def)
  then show ?thesis using FM.decode_total[of "decoder_new bs"] PG.decode_total[of "decoder_new bs"]
    by (auto split: prod.splits sum.splits)
qed

section \<open>Required fields\<close>

lemma codec_maybe:
  assumes "map_of cs i = Some (i32_field (mark k upd))"
  shows "codes C (switch cs) [opt a (\<lambda>n. put_field i T_I32 (write_i32 n))] (x, s)
    ((case a of None \<Rightarrow> x | Some n \<Rightarrow> upd (\<lambda>_. n) x), s OR (if a = None then 0 else push_bit k 1))"
proof (cases a)
  case None
  then show ?thesis using codec_opt_None by simp
next
  case (Some n)
  have "codes C (switch cs) [put_field i T_I32 (write_i32 n)] (x, s) (upd (\<lambda>_. n) x, s OR push_bit k 1)"
    by (rule steps(2)[OF assms], rule step_end) (simp add: mark_def)
  then show ?thesis by (simp add: Some opt_def)
qed

text \<open>
  Property C10: a data page header in which any of the four required fields is missing is refused.
\<close>
theorem data_page_header_required:
  assumes "a = None \<or> b = None \<or> c = None \<or> e = None"
  shows "\<exists>bs. write_struct [opt a (\<lambda>n. put_field 1 T_I32 (write_i32 n)), opt b (\<lambda>n. put_field 2 T_I32 (write_i32 n)),
      opt c (\<lambda>n. put_field 3 T_I32 (write_i32 n)), opt e (\<lambda>n. put_field 4 T_I32 (write_i32 n))] encoder_new = Some (append_bytes bs encoder_new)
    \<and> (length bs \<le> MAX_TOTAL_FIELDS \<longrightarrow> fst (deserialize_DataPageHeader (decoder_new bs) default_DataPageHeader) = Inl THRIFT_DECODE_ERROR)"
proof -
  let ?h = "switch [
     (1, i32_field (mark 0 ph_num_values_update)),
     (2, i32_field (mark 1 ph_encoding_update)),
     (3, i32_field (mark 2 ph_definition_level_encoding_update)),
     (4, i32_field (mark 3 ph_repetition_level_encoding_update)),
     (5, opt_struct_field default_Statistics deserialize_Statistics (keep ph_statistics_update))]"
  let ?ws = "[opt a (\<lambda>n. put_field 1 T_I32 (write_i32 n)), opt b (\<lambda>n. put_field 2 T_I32 (write_i32 n)),
      opt c (\<lambda>n. put_field 3 T_I32 (write_i32 n)), opt e (\<lambda>n. put_field 4 T_I32 (write_i32 n))]"
  let ?m = "\<lambda>o' k. if o' = None then 0 else push_bit k (1 :: u32)"
  let ?s = "(((0 OR ?m a 0) OR ?m b (Suc 0)) OR ?m c 2) OR ?m e 3"
  have "\<exists>v. codes 0 ?h ?ws (default_DataPageHeader, 0) (v, ?s)"
    by (rule exI, rule codec_Cons, rule codec_maybe, simp, rule codec_Cons, rule codec_maybe, simp,
        rule codec_Cons, rule codec_maybe, simp, rule codec_maybe, simp)
  then obtain v where "codes 0 ?h ?ws (default_DataPageHeader, 0) (v, ?s)" by blast
  then have "sound 5 (write_struct ?ws) (read_struct ?h) (default_DataPageHeader, 0) (v, ?s)"
    by (rule sound_struct) simp
  then obtain bs where bs: "puts (write_struct ?ws) bs" "reads 5 (read_struct ?h) (default_DataPageHeader, 0) bs (v, ?s)"
    by (auto simp: sound_def)
  have s: "?s AND 0x0F \<noteq> 0x0F" using assms by (cases a; cases b; cases c; cases e) simp_all
  have "fst (deserialize_DataPageHeader (decoder_new bs) default_DataPageHeader) = Inl THRIFT_DECODE_ERROR" if len: "length bs \<le> MAX_TOTAL_FIELDS"
  proof -
    obtain d where "read_struct ?h (decoder_new bs) (default_DataPageHeader, 0) = (Inr (v, ?s), d)"
      using reads_new[OF bs(2) _ len, of "[]"] unfolding append_Nil2 MAX_NESTING_DEPTH_def by auto
    then show ?thesis using s by (simp add: deserialize_DataPageHeader_def read_required_def)
  qed
  then show ?thesis using bs(1) by (intro exI[where x = bs]) (simp add: puts_def encoder_new_def)
qed

theorem data_page_header_required_witness:
  "\<exists>bs. write_struct [opt (Some 7) (\<lambda>n. put_field 1 T_I32 (write_i32 n)), opt None (\<lambda>n. put_field 2 T_I32 (write_i32 n)),
      opt (Some 3) (\<lambda>n. put_field 3 T_I32 (write_i32 n)), opt (Some 3) (\<lambda>n. put_field 4 T_I32 (write_i32 n))] encoder_new
      = Some (append_bytes bs encoder_new)
    \<and> (length bs \<le> MAX_TOTAL_FIELDS \<longrightarrow> fst (deserialize_DataPageHeader (decoder_new bs) default_DataPageHeader) = Inl THRIFT_DECODE_ERROR)"
  by (rule data_page_header_required) simp

section \<open>Where reading does not undo writing\<close>

lemma empty_union_bytes: "write_struct [run []] encoder_new = Some (append_bytes [0] encoder_new)"
  by (simp add: write_struct_def enc_begin_struct_def write_stop_def enc_end_struct_def append_bytes_def encoder_new_def)

lemma empty_union_read: "\<exists>d. read_struct h (decoder_new [0]) x = (Inr x, d)"
proof -
  obtain bs where bs: "puts (write_struct [run []]) bs" "reads 2 (read_struct h) x bs x"
    using sound_struct[OF codec_no_writer, of 0 2 h x] by (auto simp: sound_def)
  have "bs = [0]"
    using bs(1)[unfolded puts_def, rule_format, of encoder_new] empty_union_bytes by (simp add: append_bytes_def encoder_new_def)
  then show ?thesis using reads_new[OF bs(2), where rest = "[]"] by (fastforce simp: MAX_NESTING_DEPTH_def MAX_TOTAL_FIELDS_def)
qed

text \<open>
  The kind \<^verbatim>\<open>NONE\<close> of a column order and of the three Bloom filter unions is written as an
  empty union and read back as the default kind.
\<close>
theorem none_kind_becomes_default:
  "serialize_ColumnOrder \<lparr>co_kind = CO_NONE\<rparr> encoder_new = Some (append_bytes [0] encoder_new)
    \<and> fst (deserialize_ColumnOrder (decoder_new [0]) default_ColumnOrder) = Inr \<lparr>co_kind = TYPE_ORDER\<rparr>
    \<and> serialize_BloomFilterAlgorithm \<lparr>ba_kind = BA_NONE\<rparr> encoder_new = Some (append_bytes [0] encoder_new)
    \<and> fst (deserialize_BloomFilterAlgorithm (decoder_new [0]) default_BloomFilterAlgorithm) = Inr \<lparr>ba_kind = BLOCK\<rparr>
    \<and> serialize_BloomFilterHash \<lparr>bh_kind = BH_NONE\<rparr> encoder_new = Some (append_bytes [0] encoder_new)
    \<and> fst (deserialize_BloomFilterHash (decoder_new [0]) default_BloomFilterHash) = Inr \<lparr>bh_kind = XXHASH\<rparr>
    \<and> serialize_BloomFilterCompression \<lparr>bc_kind = BC_NONE\<rparr> encoder_new = Some (append_bytes [0] encoder_new)
    \<and> fst (deserialize_BloomFilterCompression (decoder_new [0]) default_BloomFilterCompression) = Inr \<lparr>bc_kind = BC_UNCOMPRESSED\<rparr>"
proof -
  note r = empty_union_read
  show ?thesis
    unfolding serialize_ColumnOrder_def serialize_BloomFilterAlgorithm_def serialize_BloomFilterHash_def serialize_BloomFilterCompression_def
      deserialize_ColumnOrder_def deserialize_BloomFilterAlgorithm_def deserialize_BloomFilterHash_def deserialize_BloomFilterCompression_def
    using r[of "switch [(1, unit_field (\<lambda>_ u. u\<lparr>co_kind := TYPE_ORDER\<rparr>))]" default_ColumnOrder]
      r[of "switch [(1, unit_field (\<lambda>_ u. u\<lparr>ba_kind := BLOCK\<rparr>))]" default_BloomFilterAlgorithm]
      r[of "switch [(1, unit_field (\<lambda>_ u. u\<lparr>bh_kind := XXHASH\<rparr>))]" default_BloomFilterHash]
      r[of "switch [(1, unit_field (\<lambda>_ u. u\<lparr>bc_kind := BC_UNCOMPRESSED\<rparr>))]" default_BloomFilterCompression]
    by (auto simp: empty_union_bytes default_ColumnOrder_def default_BloomFilterAlgorithm_def default_BloomFilterHash_def
        default_BloomFilterCompression_def)
qed

subsection \<open>Lists beyond the reader's bound\<close>

lemma puts_of_sound: "sound C w de i v \<Longrightarrow> \<exists>bs. puts w bs"
  by (auto simp: sound_def)

lemma puts_map:
  assumes "\<And>v. v \<in> set vs \<Longrightarrow> \<exists>bs. puts (w v) bs"
  shows "\<exists>bs. puts (run (map w vs)) bs"
  using assms
proof (induction vs)
  case Nil
  show ?case by (rule exI[where x = "[]"]) (simp add: puts_def)
next
  case (Cons v vs)
  obtain b where "puts (w v) b" using Cons.prems[of v] by auto
  moreover obtain bs where "puts (run (map w vs)) bs" using Cons.IH Cons.prems by auto
  ultimately have "puts (run (map w (v # vs))) (b @ bs)" by (simp add: puts_def)
  then show ?case by blast
qed

text \<open>The fields before an oversized list are read, its header is refused.\<close>

lemma oversized_list_refused:
  assumes c: "codes C (switch cs) ws x y" and cas: "map_of cs i = Some (field [T_LIST] (list_of bound v0 de) get upd)"
    and big: "bound < length vs" "length vs \<le> MAX_COLLECTION_SIZE" "unat t < 16"
    and elems: "\<And>v. v \<in> set vs \<Longrightarrow> \<exists>b. puts (w v) b" and after: "codes C' h' vs' y' z'"
    and lim: "C + length ws + 2 < MAX_NESTING_DEPTH" "\<And>b p. writes 0 (run ws) b p \<Longrightarrow> length b < MAX_TOTAL_FIELDS"
  shows "\<exists>bs. write_struct (ws @ put_field i T_LIST (write_list t w vs) # vs') encoder_new = Some (append_bytes bs encoder_new)
    \<and> fst (read_struct (switch cs) (decoder_new bs) x) = Inl THRIFT_DECODE_ERROR"
proof -
  obtain b1 p where 1: "writes 0 (run ws) b1 p" "loops C (switch cs) (length ws) 0 b1 p x y" using c unfolding codes_def by blast
  obtain b2 where 2: "puts (run (map w vs)) b2" using puts_map[of vs w] elems by blast
  obtain b3 q where 3: "writes i (run vs') b3 q" using after unfolding codes_def by blast
  let ?h = "header_bytes p i T_LIST" let ?l = "list_header_bytes t (length vs)"
  let ?bs = "b1 @ (?h @ ?l @ b2) @ b3 @ [0]"
  have "puts (write_list t w vs) (?l @ b2)" using 2 write_list_header_bytes[OF big(2)] by (simp add: puts_def write_list_def)
  then have "writes p (put_field i T_LIST (write_list t w vs)) (?h @ ?l @ b2) i" by (rule writes_field(1))
  then have "writes 0 (run (ws @ put_field i T_LIST (write_list t w vs) # vs')) (b1 @ (?h @ ?l @ b2) @ b3) q"
    using 1(1) 3 by (simp add: writes_def run_append)
  then have w: "write_struct (ws @ put_field i T_LIST (write_list t w vs) # vs') encoder_new = Some (append_bytes ?bs encoder_new)"
    using write_struct_puts by (fastforce simp: puts_def encoder_new_def)
  have "fst (read_struct (switch cs) (decoder_new ?bs) x) = Inl THRIFT_DECODE_ERROR"
  proof -
    have len: "length b1 < MAX_TOTAL_FIELDS" by (rule lim(2)[OF 1(1)])
    let ?d = "begin_struct (decoder_new ?bs)"
    have a: "at ?d (b1 @ ?h @ ?l @ b2 @ b3 @ [0])" "dids ?d = [0, 0]" "dtotal ?d = 0" "dcount ?d = 0"
      by (simp_all add: begin_struct_def decoder_new_def at_def MAX_NESTING_DEPTH_def)
    obtain n d1 where d1: "n \<le> length b1" "\<forall>f. struct_loop (n + f) (switch cs) ?d x = struct_loop f (switch cs) d1 y"
        "at d1 (?h @ ?l @ b2 @ b3 @ [0])" "dids d1 = [p, 0]" "dtotal d1 \<le> length b1" "dcount d1 \<le> C + length ws"
      using 1(2)[unfolded loops_def, rule_format, of ?d "?h @ ?l @ b2 @ b3 @ [0]" "[0]" C] a lim(1) len
      by (auto simp: MAX_FIELD_COUNT_def MAX_NESTING_DEPTH_def)
    have hl: "0 < length ?h" by simp
    let ?e = "enter_field i T_LIST (advance (length ?h) d1)"
    have r: "read_field_header d1 = ((i, T_LIST), ?e)"
    proof (rule read_header_at[OF d1(3,4)])
      show "dtotal d1 < MAX_TOTAL_FIELDS" using d1(5) len by simp
      show "dcount d1 < MAX_FIELD_COUNT" using d1(6) lim(1) by (simp add: MAX_FIELD_COUNT_def MAX_NESTING_DEPTH_def)
    qed simp_all
    have e: "at ?e (?l @ b2 @ b3 @ [0])" using at_advance[of d1 ?h] d1(3) by simp
    then have g: "good ?e" by (simp add: at_def good_def)
    have "read_list_header ?e = ((t, length vs), advance (length ?l) ?e)" using read_list_header_at[OF e big(3,2)] .
    then have f: "field [T_LIST] (list_of bound v0 de) get upd T_LIST ?e y = (Inl THRIFT_DECODE_ERROR, advance (length ?l) ?e)"
      using big(1) by (simp add: field_def list_of_def)
    have s: "struct_loop (Suc k) (switch cs) d1 y = (Inl THRIFT_DECODE_ERROR, advance (length ?l) ?e)" for k
      using r g f cas by (simp add: struct_loop.simps switch_def wire_types(1,10))
    have "n \<le> remaining ?d" using at_length[OF a(1)] d1(1) by (simp add: remaining_def)
    then obtain k where "Suc (remaining ?d) = n + Suc k" by (metis add_Suc_right le_Suc_ex)
    then have "struct_loop (Suc (remaining ?d)) (switch cs) ?d x = (Inl THRIFT_DECODE_ERROR, advance (length ?l) ?e)"
      using d1(2) s by metis
    moreover have "good ?d" using a(1) by (simp add: at_def good_def)
    ultimately show ?thesis by (simp add: read_struct_def Let_def)
  qed
  then show ?thesis using w by blast
qed

lemma leb_length: "n < 128 ^ k \<Longrightarrow> 0 < k \<Longrightarrow> length (leb n) \<le> k"
proof (induction n arbitrary: k rule: leb.induct)
  case (1 n)
  show ?case
  proof (cases "n < 128")
    case True
    then show ?thesis using 1(3) by (simp add: leb_small)
  next
    case False
    then obtain k' where k: "k = Suc k'" "0 < k'" using 1(2) by (cases k; cases "k - 1") auto
    then have "n div 128 < 128 ^ k'" using 1(2) by (simp add: less_mult_imp_div_less mult.commute)
    then show ?thesis using 1(1)[of k'] k False by (simp add: leb_large)
  qed
qed

text \<open>
  A footer with more than 10000 schema elements is written without an error and can never be
  read: its decoding ends with \<^verbatim>\<open>THRIFT_DECODE_ERROR\<close>.
\<close>
theorem large_schema_unreadable:
  assumes "10000 < length (fm_schema v)" "length (fm_schema v) \<le> MAX_COLLECTION_SIZE" "list_all ok_schema (fm_schema v)"
    and "ok_file_metadata (v\<lparr>fm_schema := []\<rparr>)"
  shows "\<exists>bs. serialize_FileMetaData v encoder_new = Some (append_bytes bs encoder_new)
    \<and> fst (deserialize_FileMetaData (decoder_new bs) default_FileMetaData) = Inl THRIFT_DECODE_ERROR"
proof -
  let ?cs = "[
     (1, i32_field fm_version_update),
     (2, field [T_LIST] (list_of 10000 default_SchemaElement deserialize_SchemaElement) fm_schema fm_schema_update),
     (3, i64_field fm_num_rows_update),
     (4, field [T_LIST] (list_of 10000 default_RowGroup deserialize_RowGroup) fm_row_groups fm_row_groups_update),
     (5, field [T_LIST] (some (list_of 1000000 default_KeyValue deserialize_KeyValue)) (\<lambda>_. []) fm_key_value_metadata_update),
     (6, opt_string_field fm_created_by_update),
     (7, field [T_LIST] (some (list_of 10000 default_ColumnOrder deserialize_ColumnOrder)) (\<lambda>_. []) fm_column_orders_update)]"
  let ?after = "[put_field 3 T_I64 (write_i64 (fm_num_rows v)),
     put_field 4 T_LIST (write_list T_STRUCT serialize_RowGroup (fm_row_groups v)),
     opt (fm_key_value_metadata v) (\<lambda>kvs. put_field 5 T_LIST (write_list T_STRUCT serialize_KeyValue kvs)),
     opt (fm_created_by v) (\<lambda>s. put_field 6 T_BINARY (write_string s)),
     opt (fm_column_orders v) (\<lambda>cos. put_field 7 T_LIST (write_list T_STRUCT serialize_ColumnOrder cos))]"
  let ?ver = "put_field 1 T_I32 (write_i32 (fm_version v))"
  note ds = default_FileMetaData_def ok_file_metadata_def list_all_iff MAX_COLLECTION_SIZE_def option.pred_set
  have ver: "codes 0 (switch ?cs) [?ver] default_FileMetaData (default_FileMetaData\<lparr>fm_version := fm_version v\<rparr>)"
    by (rule steps, simp, rule step_end, simp)
  have after: "codes 36 (switch ?cs) ?after default_FileMetaData (v\<lparr>fm_version := PARQUET_VERSION, fm_schema := []\<rparr>)"
    using assms(4)
    by - (rule steps, simp,
        rule list_step, simp, simp add: ds, simp add: ds, rule RG.sound_type, simp add: ds, simp add: ds, simp, simp,
        rule opt_list_step, simp, simp, simp add: ds, rule KV.sound_type, simp add: ds, simp add: ds, simp, simp, simp add: ds,
        rule string_steps, simp, simp add: ds,
        rule opt_list_step, simp, simp, simp add: ds, rule CO.sound_type, simp add: ds, simp add: ds, simp, simp, simp add: ds,
        rule step_end, cases v, simp add: ds)
  have short: "length b < MAX_TOTAL_FIELDS" if "writes 0 (run [?ver]) b p" for b p
  proof -
    let ?b = "header_bytes 0 1 T_I32 @ leb (unat (zigzag_encode32 (fm_version v)))"
    have "puts (write_i32 (fm_version v)) (leb (unat (zigzag_encode32 (fm_version v))))"
      by (simp add: puts_def write_i32_def write_varint_leb)
    then have "writes 0 ?ver ?b 1" by (rule writes_field(1))
    then have "b = ?b" using that[unfolded writes_def, rule_format, of encoder_new "[]"]
      by (simp add: writes_def encoder_new_def append_bytes_def)
    moreover have "length (leb (unat (zigzag_encode32 (fm_version v)))) \<le> 5"
      using unat_lt_exp[of "zigzag_encode32 (fm_version v)"] by (intro leb_length) simp_all
    moreover have "length (header_bytes 0 1 T_I32) = 1" by (simp add: header_bytes_def)
    ultimately show ?thesis by (simp add: MAX_TOTAL_FIELDS_def)
  qed
  have "\<exists>bs. write_struct ([?ver] @ put_field 2 T_LIST (write_list T_STRUCT serialize_SchemaElement (fm_schema v)) # ?after) encoder_new
        = Some (append_bytes bs encoder_new)
      \<and> fst (read_struct (switch ?cs) (decoder_new bs) default_FileMetaData) = Inl THRIFT_DECODE_ERROR"
  proof (rule oversized_list_refused[OF ver _ assms(1,2) _ _ after _ short])
    show "\<exists>b. puts (serialize_SchemaElement x) b" if "x \<in> set (fm_schema v)" for x
      using puts_of_sound[OF SE.sound_type] assms(3) that by (auto simp: list_all_iff)
  qed (simp_all add: MAX_NESTING_DEPTH_def)
  then show ?thesis unfolding serialize_FileMetaData_def deserialize_FileMetaData_def by simp
qed

lemma wide_schema_ok: "ok_file_metadata ((default_FileMetaData\<lparr>fm_schema := replicate n default_SchemaElement\<rparr>)\<lparr>fm_schema := []\<rparr>)"
    "list_all ok_schema (replicate n default_SchemaElement)"
  by (simp_all add: ok_file_metadata_def default_FileMetaData_def list_all_iff ok_schema_def default_SchemaElement_def)

theorem large_schema_unreadable_witness:
  "\<exists>bs. serialize_FileMetaData (default_FileMetaData\<lparr>fm_schema := replicate 10001 default_SchemaElement\<rparr>) encoder_new
      = Some (append_bytes bs encoder_new)
    \<and> fst (deserialize_FileMetaData (decoder_new bs) default_FileMetaData) = Inl THRIFT_DECODE_ERROR"
  by (rule large_schema_unreadable[OF _ _ _ wide_schema_ok(1)]) (simp_all add: wide_schema_ok(2) MAX_COLLECTION_SIZE_def del: replicate.simps)

end
