(* ===== verification/Schema.thy ===== *)
theory Schema
  imports ParquetMeta
begin

text \<open>
  The types of \<^verbatim>\<open>include/signet/types.hpp\<close> that name columns and the schema of
  \<^verbatim>\<open>include/signet/schema.hpp\<close>: descriptors, the fluent builder, lookup by name and equality.  An
  enumeration is its \<^verbatim>\<open>int32_t\<close> code, because the reader casts codes from a file without a check;
  a C++ type that parametrises a template is a constructor of \<open>ctype\<close>.
\<close>

section \<open>Enumerations\<close>

definition BOOLEAN :: u32 where "BOOLEAN = 0"
definition INT32 :: u32 where "INT32 = 1"
definition INT64 :: u32 where "INT64 = 2"
definition INT96 :: u32 where "INT96 = 3"
definition FLOAT :: u32 where "FLOAT = 4"
definition DOUBLE :: u32 where "DOUBLE = 5"
definition BYTE_ARRAY :: u32 where "BYTE_ARRAY = 6"
definition FIXED_LEN_BYTE_ARRAY :: u32 where "FIXED_LEN_BYTE_ARRAY = 7"

lemmas physical_types = BOOLEAN_def INT32_def INT64_def INT96_def FLOAT_def DOUBLE_def BYTE_ARRAY_def FIXED_LEN_BYTE_ARRAY_def

definition LOGICAL_NONE :: u32 where "LOGICAL_NONE = 0"
definition LOGICAL_STRING :: u32 where "LOGICAL_STRING = 1"
definition LOGICAL_ENUM :: u32 where "LOGICAL_ENUM = 2"
definition LOGICAL_DATE :: u32 where "LOGICAL_DATE = 4"
definition LOGICAL_TIME_MS :: u32 where "LOGICAL_TIME_MS = 5"
definition LOGICAL_TIME_US :: u32 where "LOGICAL_TIME_US = 6"
definition LOGICAL_TIMESTAMP_MS :: u32 where "LOGICAL_TIMESTAMP_MS = 8"
definition LOGICAL_TIMESTAMP_US :: u32 where "LOGICAL_TIMESTAMP_US = 9"
definition LOGICAL_DECIMAL :: u32 where "LOGICAL_DECIMAL = 11"
definition LOGICAL_JSON :: u32 where "LOGICAL_JSON = 12"
definition LOGICAL_BSON :: u32 where "LOGICAL_BSON = 13"

lemmas logical_types = LOGICAL_NONE_def LOGICAL_STRING_def LOGICAL_ENUM_def LOGICAL_DATE_def LOGICAL_TIME_MS_def LOGICAL_TIME_US_def
  LOGICAL_TIMESTAMP_MS_def LOGICAL_TIMESTAMP_US_def LOGICAL_DECIMAL_def LOGICAL_JSON_def LOGICAL_BSON_def

definition CONVERTED_UTF8 :: u32 where "CONVERTED_UTF8 = 0"
definition CONVERTED_ENUM :: u32 where "CONVERTED_ENUM = 4"
definition CONVERTED_DECIMAL :: u32 where "CONVERTED_DECIMAL = 5"
definition CONVERTED_DATE :: u32 where "CONVERTED_DATE = 6"
definition CONVERTED_TIME_MILLIS :: u32 where "CONVERTED_TIME_MILLIS = 7"
definition CONVERTED_TIME_MICROS :: u32 where "CONVERTED_TIME_MICROS = 8"
definition CONVERTED_TIMESTAMP_MILLIS :: u32 where "CONVERTED_TIMESTAMP_MILLIS = 9"
definition CONVERTED_TIMESTAMP_MICROS :: u32 where "CONVERTED_TIMESTAMP_MICROS = 10"
definition CONVERTED_JSON :: u32 where "CONVERTED_JSON = 19"
definition CONVERTED_BSON :: u32 where "CONVERTED_BSON = 20"

lemmas converted_types = CONVERTED_UTF8_def CONVERTED_ENUM_def CONVERTED_DECIMAL_def CONVERTED_DATE_def CONVERTED_TIME_MILLIS_def
  CONVERTED_TIME_MICROS_def CONVERTED_TIMESTAMP_MILLIS_def CONVERTED_TIMESTAMP_MICROS_def CONVERTED_JSON_def CONVERTED_BSON_def

definition PLAIN :: u32 where "PLAIN = 0"
definition PLAIN_DICTIONARY :: u32 where "PLAIN_DICTIONARY = 2"
definition RLE :: u32 where "RLE = 3"
definition DELTA_BINARY_PACKED :: u32 where "DELTA_BINARY_PACKED = 5"
definition RLE_DICTIONARY :: u32 where "RLE_DICTIONARY = 8"
definition BYTE_STREAM_SPLIT :: u32 where "BYTE_STREAM_SPLIT = 9"

lemmas encodings = PLAIN_def PLAIN_DICTIONARY_def RLE_def DELTA_BINARY_PACKED_def RLE_DICTIONARY_def BYTE_STREAM_SPLIT_def

definition DATA_PAGE :: u32 where "DATA_PAGE = 0"
definition DICTIONARY_PAGE :: u32 where "DICTIONARY_PAGE = 2"
definition DATA_PAGE_V2 :: u32 where "DATA_PAGE_V2 = 3"

lemmas page_types = DATA_PAGE_def DICTIONARY_PAGE_def DATA_PAGE_V2_def

definition REQUIRED :: u32 where "REQUIRED = 0"
definition OPTIONAL :: u32 where "OPTIONAL = 1"

section \<open>Column descriptors\<close>

text \<open>The C++ types with a physical type, \<^verbatim>\<open>parquet_type_of\<close>.\<close>

datatype ctype = CBool | CInt32 | CInt64 | CFloat | CDouble | CString

fun parquet_type_of :: "ctype \<Rightarrow> u32" where
  "parquet_type_of CBool = BOOLEAN"
| "parquet_type_of CInt32 = INT32"
| "parquet_type_of CInt64 = INT64"
| "parquet_type_of CFloat = FLOAT"
| "parquet_type_of CDouble = DOUBLE"
| "parquet_type_of CString = BYTE_ARRAY"

lemma parquet_type_of_inj: "parquet_type_of t = parquet_type_of t' \<longleftrightarrow> t = t'"
  by (cases t; cases t') (simp_all add: physical_types)

record column_descriptor =
  cd_name :: bytes
  cd_physical_type :: u32
  cd_logical_type :: u32
  cd_repetition :: u32
  cd_type_length :: u32
  cd_precision :: u32
  cd_scale :: u32

text \<open>The defaults of \<^verbatim>\<open>ColumnDescriptor\<close>; the lengths are \<^verbatim>\<open>-1\<close>.\<close>

definition column_of :: "bytes \<Rightarrow> u32 \<Rightarrow> column_descriptor" where
  "column_of name pt = \<lparr>cd_name = name, cd_physical_type = pt, cd_logical_type = LOGICAL_NONE, cd_repetition = REQUIRED,
     cd_type_length = - 1, cd_precision = - 1, cd_scale = - 1\<rparr>"

definition default_logical_type :: "ctype \<Rightarrow> u32 \<Rightarrow> u32" where
  "default_logical_type t lt = (if t = CString \<and> lt = LOGICAL_NONE then LOGICAL_STRING else lt)"

text \<open>\<^verbatim>\<open>Column<T>{name, lt}.to_descriptor()\<close>.\<close>

definition to_descriptor :: "ctype \<Rightarrow> bytes \<Rightarrow> u32 \<Rightarrow> column_descriptor" where
  "to_descriptor t name lt = (column_of name (parquet_type_of t))\<lparr>cd_logical_type := default_logical_type t lt\<rparr>"

section \<open>Schemas\<close>

record schema =
  sc_name :: bytes
  sc_columns :: "column_descriptor list"

definition schema_build :: "bytes \<Rightarrow> column_descriptor list \<Rightarrow> schema" where
  "schema_build name cols = \<lparr>sc_name = name, sc_columns = cols\<rparr>"

definition num_columns :: "schema \<Rightarrow> nat" where "num_columns s = length (sc_columns s)"

text \<open>\<open>None\<close> is \<^verbatim>\<open>std::out_of_range\<close>.\<close>

definition schema_column :: "schema \<Rightarrow> nat \<Rightarrow> column_descriptor option" where
  "schema_column s index = (if index \<ge> num_columns s then None else Some (sc_columns s ! index))"

fun find_column_from :: "nat \<Rightarrow> column_descriptor list \<Rightarrow> bytes \<Rightarrow> nat option" where
  "find_column_from i [] name = None"
| "find_column_from i (c # cs) name = (if cd_name c = name then Some i else find_column_from (Suc i) cs name)"

definition find_column :: "schema \<Rightarrow> bytes \<Rightarrow> nat option" where
  "find_column s name = find_column_from 0 (sc_columns s) name"

text \<open>\<^verbatim>\<open>operator==\<close>: the precision and the scale of a decimal column are not compared.\<close>

definition same_column :: "column_descriptor \<Rightarrow> column_descriptor \<Rightarrow> bool" where
  "same_column a b \<longleftrightarrow> \<not> (cd_name a \<noteq> cd_name b \<or> cd_physical_type a \<noteq> cd_physical_type b \<or> cd_logical_type a \<noteq> cd_logical_type b
     \<or> cd_repetition a \<noteq> cd_repetition b \<or> cd_type_length a \<noteq> cd_type_length b)"

definition schema_eq :: "schema \<Rightarrow> schema \<Rightarrow> bool" where
  "schema_eq s t = (if sc_name s \<noteq> sc_name t \<or> length (sc_columns s) \<noteq> length (sc_columns t) then False
     else list_all2 same_column (sc_columns s) (sc_columns t))"

subsection \<open>The builder\<close>

record schema_builder =
  sb_name :: bytes
  sb_columns :: "column_descriptor list"

definition builder :: "bytes \<Rightarrow> schema_builder" where "builder name = \<lparr>sb_name = name, sb_columns = []\<rparr>"

definition add_column :: "ctype \<Rightarrow> bytes \<Rightarrow> u32 \<Rightarrow> u32 \<Rightarrow> schema_builder \<Rightarrow> schema_builder" where
  "add_column t name lt rep b = b\<lparr>sb_columns := sb_columns b @ [(to_descriptor t name lt)\<lparr>cd_repetition := rep\<rparr>]\<rparr>"

definition add_optional_column :: "ctype \<Rightarrow> bytes \<Rightarrow> u32 \<Rightarrow> schema_builder \<Rightarrow> schema_builder" where
  "add_optional_column t name lt b = add_column t name lt OPTIONAL b"

definition raw_column :: "column_descriptor \<Rightarrow> schema_builder \<Rightarrow> schema_builder" where
  "raw_column cd b = b\<lparr>sb_columns := sb_columns b @ [cd]\<rparr>"

text \<open>The loop of \<^verbatim>\<open>build\<close> with its set of names seen; \<open>None\<close> is \<^verbatim>\<open>std::invalid_argument\<close>.\<close>

fun duplicate_name :: "bytes list \<Rightarrow> column_descriptor list \<Rightarrow> bool" where
  "duplicate_name seen [] = False"
| "duplicate_name seen (c # cs) = (if cd_name c \<in> set seen then True else duplicate_name (cd_name c # seen) cs)"

definition builder_build :: "schema_builder \<Rightarrow> schema option" where
  "builder_build b = (if duplicate_name [] (sb_columns b) then None else Some \<lparr>sc_name = sb_name b, sc_columns = sb_columns b\<rparr>)"

section \<open>Names\<close>

lemma duplicate_name_iff: "duplicate_name seen cs \<longleftrightarrow> \<not> (distinct (map cd_name cs) \<and> set (map cd_name cs) \<inter> set seen = {})"
  by (induction cs arbitrary: seen) auto

lemma builder_build_iff:
  "builder_build b = Some s \<longleftrightarrow> distinct (map cd_name (sb_columns b)) \<and> s = \<lparr>sc_name = sb_name b, sc_columns = sb_columns b\<rparr>"
  by (auto simp: builder_build_def duplicate_name_iff)

lemma find_column_from_Some:
  "find_column_from i cs name = Some k \<longleftrightarrow> (\<exists>j < length cs. k = i + j \<and> cd_name (cs ! j) = name \<and> (\<forall>l < j. cd_name (cs ! l) \<noteq> name))"
proof (induction cs arbitrary: i)
  case (Cons c cs)
  show ?case
  proof (cases "cd_name c = name")
    case True
    then show ?thesis by (auto simp: nth_Cons' intro: exI[where x = 0])
  next
    case False
    then have "find_column_from i (c # cs) name = Some k \<longleftrightarrow>
        (\<exists>j < length cs. k = Suc i + j \<and> cd_name (cs ! j) = name \<and> (\<forall>l < j. cd_name (cs ! l) \<noteq> name))" using Cons.IH by simp
    also have "\<dots> \<longleftrightarrow> (\<exists>j < length (c # cs). k = i + j \<and> cd_name ((c # cs) ! j) = name \<and> (\<forall>l < j. cd_name ((c # cs) ! l) \<noteq> name))"
      (is "?L \<longleftrightarrow> ?R")
    proof
      assume ?L
      then obtain j where "j < length cs" "k = Suc i + j" "cd_name (cs ! j) = name" "\<forall>l < j. cd_name (cs ! l) \<noteq> name" by blast
      then show ?R using False by (intro exI[where x = "Suc j"]) (auto simp: less_Suc_eq_0_disj)
    next
      assume ?R
      then obtain j where j: "j < length (c # cs)" "k = i + j" "cd_name ((c # cs) ! j) = name" "\<forall>l < j. cd_name ((c # cs) ! l) \<noteq> name" by blast
      then obtain j' where "j = Suc j'" using False by (cases j) auto
      then show ?L using j by (intro exI[where x = j']) auto
    qed
    finally show ?thesis .
  qed
qed simp

lemma find_column_unique:
  assumes "distinct (map cd_name (sc_columns s))" "i < num_columns s"
  shows "find_column s (cd_name (sc_columns s ! i)) = Some i"
  using assms by (auto simp: find_column_def find_column_from_Some num_columns_def distinct_conv_nth)

end
