(* ===== verification/Statistics.thy ===== *)
theory Statistics
  imports Schema Dictionary
begin

text \<open>
  The statistics of a column chunk, \<^verbatim>\<open>ColumnStatistics\<close> of \<^verbatim>\<open>include/signet/statistics.hpp\<close>: typed updates
  of type-erased minimum and maximum bytes, and their merge.  Integers are words compared by \<^verbatim>\<open>sint\<close>;
  \<^verbatim>\<open>float\<close> and \<^verbatim>\<open>double\<close> are bit patterns compared in the order of IEEE 754.
\<close>

section \<open>Values and comparisons\<close>

datatype cvalue = VBool bool | VInt32 u32 | VInt64 u64 | VFloat u32 | VDouble u64 | VString bytes

fun ctype_of :: "cvalue \<Rightarrow> ctype" where
  "ctype_of (VBool _) = CBool"
| "ctype_of (VInt32 _) = CInt32"
| "ctype_of (VInt64 _) = CInt64"
| "ctype_of (VFloat _) = CFloat"
| "ctype_of (VDouble _) = CDouble"
| "ctype_of (VString _) = CString"

text \<open>\<^verbatim>\<open><\<close> and \<^verbatim>\<open>isnan\<close> on bit patterns: the magnitude, with the sign of the sign bit; the two zeros are equal.\<close>

definition float_nan :: "u32 \<Rightarrow> bool" where
  "float_nan x \<longleftrightarrow> drop_bit 23 x AND 0xFF = 0xFF \<and> x AND 0x7FFFFF \<noteq> 0"

definition float_key :: "u32 \<Rightarrow> int" where
  "float_key x = (if bit x 31 then - uint (x AND 0x7FFFFFFF) else uint x)"

definition float_less :: "u32 \<Rightarrow> u32 \<Rightarrow> bool" where
  "float_less x y \<longleftrightarrow> \<not> float_nan x \<and> \<not> float_nan y \<and> float_key x < float_key y"

definition double_key :: "u64 \<Rightarrow> int" where
  "double_key x = (if bit x 63 then - uint (x AND 0x7FFFFFFFFFFFFFFF) else uint x)"

definition double_less :: "u64 \<Rightarrow> u64 \<Rightarrow> bool" where
  "double_less x y \<longleftrightarrow> \<not> double_nan x \<and> \<not> double_nan y \<and> double_key x < double_key y"

definition int_less :: "'a::len word \<Rightarrow> 'a word \<Rightarrow> bool" where
  "int_less x y \<longleftrightarrow> sint x < sint y"

text \<open>\<^verbatim>\<open>std::vector<uint8_t>\<close> compares lexicographically.\<close>

fun bytes_less :: "bytes \<Rightarrow> bytes \<Rightarrow> bool" where
  "bytes_less _ [] = False"
| "bytes_less [] (_ # _) = True"
| "bytes_less (x # xs) (y # ys) = (if x < y then True else if y < x then False else bytes_less xs ys)"

definition from_le_bytes :: "nat \<Rightarrow> bytes \<Rightarrow> 'a::len word" where
  "from_le_bytes n bytes = (if length bytes \<ge> n then of_le (take n bytes) else 0)"

section \<open>The statistics\<close>

record column_statistics =
  cs_null_count :: nat
  cs_num_values :: nat
  cs_distinct_count :: "nat option"
  cs_min_value :: bytes
  cs_max_value :: bytes
  cs_has_min_max :: bool
  cs_type :: u32

definition statistics_new :: column_statistics where
  "statistics_new = \<lparr>cs_null_count = 0, cs_num_values = 0, cs_distinct_count = None, cs_min_value = [], cs_max_value = [],
     cs_has_min_max = False, cs_type = INT32\<rparr>"

text \<open>\<^verbatim>\<open>reset\<close> keeps the type.\<close>

definition statistics_reset :: "column_statistics \<Rightarrow> column_statistics" where
  "statistics_reset s = s\<lparr>cs_null_count := 0, cs_num_values := 0, cs_distinct_count := None, cs_min_value := [],
     cs_max_value := [], cs_has_min_max := False\<rparr>"

text \<open>\<^verbatim>\<open>update_numeric\<close> and \<^verbatim>\<open>update_float\<close>, by the comparison of the type and its size.\<close>

definition update_numeric :: "('a::len word \<Rightarrow> 'a word \<Rightarrow> bool) \<Rightarrow> nat \<Rightarrow> 'a word \<Rightarrow> column_statistics \<Rightarrow> column_statistics" where
  "update_numeric lt n value s =
     (let bytes = to_le n value in
      if \<not> cs_has_min_max s then s\<lparr>cs_min_value := bytes, cs_max_value := bytes, cs_has_min_max := True\<rparr>
      else let current_min = from_le_bytes n (cs_min_value s); current_max = from_le_bytes n (cs_max_value s);
               s1 = (if lt value current_min then s\<lparr>cs_min_value := bytes\<rparr> else s)
           in if lt current_max value then s1\<lparr>cs_max_value := bytes\<rparr> else s1)"

definition update_string :: "bytes \<Rightarrow> column_statistics \<Rightarrow> column_statistics" where
  "update_string bytes s =
     (if \<not> cs_has_min_max s then s\<lparr>cs_min_value := bytes, cs_max_value := bytes, cs_has_min_max := True\<rparr>
      else let s1 = (if bytes_less bytes (cs_min_value s) then s\<lparr>cs_min_value := bytes\<rparr> else s)
           in if bytes_less (cs_max_value s1) bytes then s1\<lparr>cs_max_value := bytes\<rparr> else s1)"

definition count_value :: "column_statistics \<Rightarrow> column_statistics" where
  "count_value s = s\<lparr>cs_num_values := cs_num_values s + 1\<rparr>"

fun statistics_update :: "cvalue \<Rightarrow> column_statistics \<Rightarrow> column_statistics" where
  "statistics_update (VBool b) s = count_value (update_numeric (<) 1 (if b then 1 else 0 :: u8) s)"
| "statistics_update (VInt32 v) s = count_value (update_numeric int_less 4 v s)"
| "statistics_update (VInt64 v) s = count_value (update_numeric int_less 8 v s)"
| "statistics_update (VFloat v) s = (if float_nan v then s else count_value (update_numeric float_less 4 v s))"
| "statistics_update (VDouble v) s = (if double_nan v then s else count_value (update_numeric double_less 8 v s))"
| "statistics_update (VString v) s = count_value (update_string v s)"

definition update_null :: "column_statistics \<Rightarrow> column_statistics" where
  "update_null s = s\<lparr>cs_null_count := cs_null_count s + 1\<rparr>"

definition set_distinct_count :: "nat \<Rightarrow> column_statistics \<Rightarrow> column_statistics" where
  "set_distinct_count n s = s\<lparr>cs_distinct_count := Some n\<rparr>"

definition set_type :: "u32 \<Rightarrow> column_statistics \<Rightarrow> column_statistics" where
  "set_type t s = s\<lparr>cs_type := t\<rparr>"

subsection \<open>Merging\<close>

text \<open>
  \<^verbatim>\<open>fmin\<close> and \<^verbatim>\<open>fmax\<close> treat a NaN as missing; \<^verbatim>\<open>!=\<close> is true of a NaN.  Which zero they return for two
  zeros of different sign does not matter, the two compare equal.
\<close>

definition float_min :: "('w \<Rightarrow> bool) \<Rightarrow> ('w \<Rightarrow> 'w \<Rightarrow> bool) \<Rightarrow> 'w \<Rightarrow> 'w \<Rightarrow> 'w" where
  "float_min nan lt x y = (if nan x then y else if nan y then x else if lt y x then y else x)"

definition float_max :: "('w \<Rightarrow> bool) \<Rightarrow> ('w \<Rightarrow> 'w \<Rightarrow> bool) \<Rightarrow> 'w \<Rightarrow> 'w \<Rightarrow> 'w" where
  "float_max nan lt x y = (if nan x then y else if nan y then x else if lt x y then y else x)"

definition float_ne :: "('w \<Rightarrow> bool) \<Rightarrow> ('w \<Rightarrow> 'w \<Rightarrow> bool) \<Rightarrow> 'w \<Rightarrow> 'w \<Rightarrow> bool" where
  "float_ne nan lt x y \<longleftrightarrow> nan x \<or> nan y \<or> lt x y \<or> lt y x"

definition typed_merge_int :: "'a::len itself \<Rightarrow> nat \<Rightarrow> bytes \<Rightarrow> bytes \<Rightarrow> column_statistics \<Rightarrow> column_statistics" where
  "typed_merge_int T n other_min other_max s =
     (let cur_min = (from_le_bytes n (cs_min_value s) :: 'a word); cur_max = (from_le_bytes n (cs_max_value s) :: 'a word);
          o_min = from_le_bytes n other_min; o_max = from_le_bytes n other_max;
          s1 = (if int_less o_min cur_min then s\<lparr>cs_min_value := other_min\<rparr> else s)
      in if int_less cur_max o_max then s1\<lparr>cs_max_value := other_max\<rparr> else s1)"

definition typed_merge_float :: "('a::len word \<Rightarrow> bool) \<Rightarrow> ('a word \<Rightarrow> 'a word \<Rightarrow> bool) \<Rightarrow> nat \<Rightarrow> bytes \<Rightarrow> bytes
    \<Rightarrow> column_statistics \<Rightarrow> column_statistics" where
  "typed_merge_float nan lt n other_min other_max s =
     (let cur_min = from_le_bytes n (cs_min_value s); cur_max = from_le_bytes n (cs_max_value s);
          new_min = float_min nan lt cur_min (from_le_bytes n other_min);
          new_max = float_max nan lt cur_max (from_le_bytes n other_max);
          s1 = (if float_ne nan lt new_min cur_min then s\<lparr>cs_min_value := other_min\<rparr> else s)
      in if float_ne nan lt new_max cur_max then s1\<lparr>cs_max_value := other_max\<rparr> else s1)"

definition merge_bytes :: "bytes \<Rightarrow> bytes \<Rightarrow> column_statistics \<Rightarrow> column_statistics" where
  "merge_bytes other_min other_max s =
     (let s1 = (if bytes_less other_min (cs_min_value s) then s\<lparr>cs_min_value := other_min\<rparr> else s)
      in if bytes_less (cs_max_value s1) other_max then s1\<lparr>cs_max_value := other_max\<rparr> else s1)"

definition merge_min_max :: "bytes \<Rightarrow> bytes \<Rightarrow> column_statistics \<Rightarrow> column_statistics" where
  "merge_min_max other_min other_max s =
     (if cs_type s = INT32 then typed_merge_int TYPE(32) 4 other_min other_max s
      else if cs_type s = INT64 then typed_merge_int TYPE(64) 8 other_min other_max s
      else if cs_type s = FLOAT then typed_merge_float float_nan float_less 4 other_min other_max s
      else if cs_type s = DOUBLE then typed_merge_float double_nan double_less 8 other_min other_max s
      else merge_bytes other_min other_max s)"

definition statistics_merge :: "column_statistics \<Rightarrow> column_statistics \<Rightarrow> column_statistics" where
  "statistics_merge other s =
     (if cs_has_min_max s \<and> cs_has_min_max other \<and> cs_type s \<noteq> cs_type other then s
      else let s1 = s\<lparr>cs_null_count := cs_null_count s + cs_null_count other, cs_num_values := cs_num_values s + cs_num_values other\<rparr>;
               s2 = (if cs_has_min_max other then
                       if \<not> cs_has_min_max s1
                       then s1\<lparr>cs_min_value := cs_min_value other, cs_max_value := cs_max_value other, cs_has_min_max := True\<rparr>
                       else merge_min_max (cs_min_value other) (cs_max_value other) s1
                     else s1)
           in if cs_distinct_count s2 \<noteq> None \<or> cs_distinct_count other \<noteq> None then s2\<lparr>cs_distinct_count := None\<rparr> else s2)"

subsection \<open>Typed readings\<close>

text \<open>\<^verbatim>\<open>min_as<T>\<close> and \<^verbatim>\<open>max_as<T>\<close>.\<close>

fun read_value :: "ctype \<Rightarrow> bytes \<Rightarrow> cvalue" where
  "read_value CBool bs = VBool (if bs = [] then False else bs ! 0 \<noteq> 0)"
| "read_value CInt32 bs = VInt32 (from_le_bytes 4 bs)"
| "read_value CInt64 bs = VInt64 (from_le_bytes 8 bs)"
| "read_value CFloat bs = VFloat (from_le_bytes 4 bs)"
| "read_value CDouble bs = VDouble (from_le_bytes 8 bs)"
| "read_value CString bs = VString bs"

definition min_as :: "ctype \<Rightarrow> column_statistics \<Rightarrow> cvalue" where "min_as t s = read_value t (cs_min_value s)"
definition max_as :: "ctype \<Rightarrow> column_statistics \<Rightarrow> cvalue" where "max_as t s = read_value t (cs_max_value s)"

section \<open>Minimum and maximum in any order of values\<close>

text \<open>
  What the updates need of a type: its bytes are read back, and its comparison is a strict weak order on
  the values that are counted.
\<close>

locale ordered_values =
  fixes valid :: "'v \<Rightarrow> bool" and enc :: "'v \<Rightarrow> bytes" and dec :: "bytes \<Rightarrow> 'v" and lt :: "'v \<Rightarrow> 'v \<Rightarrow> bool"
  assumes dec_enc: "valid v \<Longrightarrow> dec (enc v) = v"
    and irrefl: "valid x \<Longrightarrow> \<not> lt x x"
    and asym: "valid x \<Longrightarrow> valid y \<Longrightarrow> lt x y \<Longrightarrow> \<not> lt y x"
    and not_less_trans: "valid x \<Longrightarrow> valid y \<Longrightarrow> valid z \<Longrightarrow> \<not> lt y x \<Longrightarrow> \<not> lt z y \<Longrightarrow> \<not> lt z x"
begin

definition bounds :: "'v list \<Rightarrow> column_statistics \<Rightarrow> bool" where
  "bounds vs s \<longleftrightarrow> (cs_has_min_max s \<longleftrightarrow> vs \<noteq> []) \<and> (vs \<noteq> [] \<longrightarrow>
     (\<exists>a \<in> set vs. cs_min_value s = enc a \<and> (\<forall>v \<in> set vs. \<not> lt v a))
     \<and> (\<exists>b \<in> set vs. cs_max_value s = enc b \<and> (\<forall>v \<in> set vs. \<not> lt b v)))"

definition update_with :: "'v \<Rightarrow> column_statistics \<Rightarrow> column_statistics" where
  "update_with v s =
     (if \<not> cs_has_min_max s then s\<lparr>cs_min_value := enc v, cs_max_value := enc v, cs_has_min_max := True\<rparr>
      else let s1 = (if lt v (dec (cs_min_value s)) then s\<lparr>cs_min_value := enc v\<rparr> else s)
           in if lt (dec (cs_max_value s)) v then s1\<lparr>cs_max_value := enc v\<rparr> else s1)"

definition merge_with :: "column_statistics \<Rightarrow> column_statistics \<Rightarrow> column_statistics" where
  "merge_with t s =
     (let s1 = (if lt (dec (cs_min_value t)) (dec (cs_min_value s)) then s\<lparr>cs_min_value := cs_min_value t\<rparr> else s)
      in if lt (dec (cs_max_value s)) (dec (cs_max_value t)) then s1\<lparr>cs_max_value := cs_max_value t\<rparr> else s1)"

lemma boundsI:
  assumes "cs_has_min_max s" "a \<in> set vs" "cs_min_value s = enc a" "\<And>v. v \<in> set vs \<Longrightarrow> \<not> lt v a"
    and "b \<in> set vs" "cs_max_value s = enc b" "\<And>v. v \<in> set vs \<Longrightarrow> \<not> lt b v"
  shows "bounds vs s"
proof -
  have "\<exists>a \<in> set vs. cs_min_value s = enc a \<and> (\<forall>v \<in> set vs. \<not> lt v a)" using assms(2-4) by blast
  moreover have "\<exists>b \<in> set vs. cs_max_value s = enc b \<and> (\<forall>v \<in> set vs. \<not> lt b v)" using assms(5-7) by blast
  ultimately show ?thesis using assms(1,2) by (auto simp: bounds_def)
qed

lemma bounds_update:
  assumes "bounds vs s" "\<forall>v \<in> set vs. valid v" "valid v"
  shows "bounds (vs @ [v]) (update_with v s)"
proof (cases "vs = []")
  case True
  then show ?thesis using assms irrefl by (simp add: bounds_def update_with_def)
next
  case False
  then obtain a b where a: "a \<in> set vs" "cs_min_value s = enc a" "\<forall>v \<in> set vs. \<not> lt v a"
    and b: "b \<in> set vs" "cs_max_value s = enc b" "\<forall>v \<in> set vs. \<not> lt b v" and h: "cs_has_min_max s"
    using assms(1) by (auto simp: bounds_def)
  let ?a = "if lt v a then v else a" and ?b = "if lt b v then v else b"
  have v: "valid a" "valid b" using a(1) b(1) assms(2) by auto
  show ?thesis
  proof (rule boundsI)
    show "\<not> lt w ?a" "\<not> lt ?b w" if w: "w \<in> set (vs @ [v])" for w
    proof -
      have "valid w" using w assms(2,3) by auto
      then show "\<not> lt w ?a" "\<not> lt ?b w"
        using w a(3) b(3) v assms(3) irrefl asym[of v a] asym[of b v] not_less_trans[of v a w] not_less_trans[of w b v] by auto
    qed
  qed (use a(1) b(1) h in \<open>auto simp: update_with_def a(2) b(2) dec_enc v\<close>)
qed

lemma bounds_merge:
  assumes "bounds us s" "bounds vs t" "us \<noteq> []" "vs \<noteq> []" "\<forall>v \<in> set (us @ vs). valid v"
  shows "bounds (us @ vs) (merge_with t s)"
proof -
  obtain a b where a: "a \<in> set us" "cs_min_value s = enc a" "\<forall>v \<in> set us. \<not> lt v a"
    and b: "b \<in> set us" "cs_max_value s = enc b" "\<forall>v \<in> set us. \<not> lt b v" and h: "cs_has_min_max s"
    using assms(1,3) by (auto simp: bounds_def)
  obtain c d where c: "c \<in> set vs" "cs_min_value t = enc c" "\<forall>v \<in> set vs. \<not> lt v c"
    and d: "d \<in> set vs" "cs_max_value t = enc d" "\<forall>v \<in> set vs. \<not> lt d v"
    using assms(2,4) by (auto simp: bounds_def)
  let ?a = "if lt c a then c else a" and ?b = "if lt b d then d else b"
  have v: "valid a" "valid b" "valid c" "valid d" using a b c d assms(5) by auto
  show ?thesis
  proof (rule boundsI)
    show "\<not> lt w ?a" "\<not> lt ?b w" if w: "w \<in> set (us @ vs)" for w
    proof -
      have "valid w" using w assms(5) by blast
      then show "\<not> lt w ?a" "\<not> lt ?b w"
        using w a(3) b(3) c(3) d(3) v asym[of c a] asym[of b d] not_less_trans[of c a w] not_less_trans[of a c w]
          not_less_trans[of w b d] not_less_trans[of w d b] by auto
    qed
  qed (use a(1) b(1) c(1) d(1) h in \<open>auto simp: merge_with_def a(2) b(2) c(2) d(2) dec_enc v\<close>)
qed

end

section \<open>Statistics of a column\<close>

text \<open>\<open>value_less\<close> compares values of one type; a NaN is not counted.\<close>

fun value_less :: "cvalue \<Rightarrow> cvalue \<Rightarrow> bool" where
  "value_less (VBool a) (VBool b) \<longleftrightarrow> \<not> a \<and> b"
| "value_less (VInt32 a) (VInt32 b) \<longleftrightarrow> int_less a b"
| "value_less (VInt64 a) (VInt64 b) \<longleftrightarrow> int_less a b"
| "value_less (VFloat a) (VFloat b) \<longleftrightarrow> float_less a b"
| "value_less (VDouble a) (VDouble b) \<longleftrightarrow> double_less a b"
| "value_less (VString a) (VString b) \<longleftrightarrow> bytes_less a b"
| "value_less _ _ \<longleftrightarrow> False"

fun counted :: "cvalue \<Rightarrow> bool" where
  "counted (VFloat x) \<longleftrightarrow> \<not> float_nan x"
| "counted (VDouble x) \<longleftrightarrow> \<not> double_nan x"
| "counted _ \<longleftrightarrow> True"

fun value_bytes :: "cvalue \<Rightarrow> bytes" where
  "value_bytes (VBool b) = to_le 1 (if b then 1 else 0 :: u8)"
| "value_bytes (VInt32 v) = to_le 4 v"
| "value_bytes (VInt64 v) = to_le 8 v"
| "value_bytes (VFloat v) = to_le 4 v"
| "value_bytes (VDouble v) = to_le 8 v"
| "value_bytes (VString v) = v"

definition of_type :: "ctype \<Rightarrow> cvalue \<Rightarrow> bool" where
  "of_type t v \<longleftrightarrow> ctype_of v = t \<and> counted v"

lemma from_to_le [simp]: "8 * n = LENGTH('a) \<Longrightarrow> from_le_bytes n (to_le n v) = (v :: 'a::len word)"
  by (simp add: from_le_bytes_def of_le_to_le)

lemma bool_byte: "to_le (Suc 0) (w :: u8) = [w]"
  by (simp add: to_le_def)

lemma from_bool_byte: "from_le_bytes (Suc 0) [w] = (w :: u8)"
  using from_to_le[of 1 w] by (simp add: bool_byte)

lemma read_value_bytes: "read_value (ctype_of v) (value_bytes v) = v"
  by (cases v) (simp_all add: bool_byte)

lemma bytes_less_irrefl: "\<not> bytes_less xs xs"
  by (induction xs) simp_all

lemma bytes_less_asym: "bytes_less xs ys \<Longrightarrow> \<not> bytes_less ys xs"
  by (induction xs ys rule: bytes_less.induct) (auto split: if_splits)

lemma bytes_less_trans: "\<not> bytes_less ys xs \<Longrightarrow> \<not> bytes_less zs ys \<Longrightarrow> \<not> bytes_less zs xs"
proof (induction zs xs arbitrary: ys rule: bytes_less.induct)
  case (3 z zs x xs)
  then show ?case by (cases ys) (auto split: if_splits)
qed (auto elim: bytes_less.elims)

interpretation column_values: ordered_values "of_type t" value_bytes "read_value t" value_less for t
proof
  fix x y z assume v: "of_type t x" "of_type t y" "of_type t z"
  show "read_value t (value_bytes x) = x" using v(1) read_value_bytes[of x] by (simp add: of_type_def)
  show "\<not> value_less x x" by (cases x) (simp_all add: int_less_def float_less_def double_less_def bytes_less_irrefl)
  show "value_less x y \<Longrightarrow> \<not> value_less y x"
    by (cases x; cases y) (auto simp: int_less_def float_less_def double_less_def bytes_less_asym)
  show "\<not> value_less y x \<Longrightarrow> \<not> value_less z y \<Longrightarrow> \<not> value_less z x"
    using v by (cases x; cases y; cases z) (auto simp: of_type_def int_less_def float_less_def double_less_def dest: bytes_less_trans)
qed

lemma of_type_iff:
  "of_type CBool v \<longleftrightarrow> (\<exists>b. v = VBool b)"
  "of_type CInt32 v \<longleftrightarrow> (\<exists>x. v = VInt32 x)"
  "of_type CInt64 v \<longleftrightarrow> (\<exists>x. v = VInt64 x)"
  "of_type CFloat v \<longleftrightarrow> (\<exists>x. v = VFloat x \<and> \<not> float_nan x)"
  "of_type CDouble v \<longleftrightarrow> (\<exists>x. v = VDouble x \<and> \<not> double_nan x)"
  "of_type CString v \<longleftrightarrow> (\<exists>x. v = VString x)"
  by (cases v; auto simp: of_type_def)+

text \<open>The typed updates and merges of the code are those of the order.\<close>

lemma update_value:
  assumes "of_type t v" "column_values.bounds vs s" "\<forall>w \<in> set vs. of_type t w"
  shows "statistics_update v s = count_value (column_values.update_with t v s)"
proof (cases "vs = []")
  case True
  then have "\<not> cs_has_min_max s" using assms(2) by (simp add: column_values.bounds_def)
  then show ?thesis using assms(1)
    by (cases v) (auto simp: column_values.update_with_def update_numeric_def update_string_def of_type_def Let_def)
next
  case False
  then obtain a b where ab: "of_type t a" "of_type t b" "cs_min_value s = value_bytes a" "cs_max_value s = value_bytes b" "cs_has_min_max s"
    using assms(2,3) by (auto simp: column_values.bounds_def)
  note defs = column_values.update_with_def update_numeric_def update_string_def bool_byte from_bool_byte Let_def of_type_iff
  show ?thesis using assms(1) ab by (cases t) (auto simp: defs)
qed

lemma float_min_max_changed:
  assumes "\<not> nan x" "\<not> nan y" "\<not> lt x x" "lt x y \<Longrightarrow> \<not> lt y x" "lt y x \<Longrightarrow> \<not> lt x y"
  shows "float_ne nan lt (float_min nan lt x y) x \<longleftrightarrow> lt y x" "float_ne nan lt (float_max nan lt x y) x \<longleftrightarrow> lt x y"
  using assms by (auto simp: float_min_def float_max_def float_ne_def)

lemma float_merges:
  assumes "\<not> float_nan x" "\<not> float_nan y"
  shows "float_ne float_nan float_less (float_min float_nan float_less x y) x \<longleftrightarrow> float_less y x"
    "float_ne float_nan float_less (float_max float_nan float_less x y) x \<longleftrightarrow> float_less x y"
  by (rule float_min_max_changed; use assms in \<open>simp add: float_less_def\<close>)+

lemma double_merges:
  assumes "\<not> double_nan x" "\<not> double_nan y"
  shows "float_ne double_nan double_less (float_min double_nan double_less x y) x \<longleftrightarrow> double_less y x"
    "float_ne double_nan double_less (float_max double_nan double_less x y) x \<longleftrightarrow> double_less x y"
  by (rule float_min_max_changed; use assms in \<open>simp add: double_less_def\<close>)+

lemma merge_value:
  assumes "column_values.bounds us s" "column_values.bounds vs s'" "us \<noteq> []" "vs \<noteq> []" "\<forall>v \<in> set (us @ vs). of_type t v"
    and "cs_type s = parquet_type_of t"
  shows "merge_min_max (cs_min_value s') (cs_max_value s') s = column_values.merge_with t s' s"
proof -
  obtain a b where ab: "of_type t a" "of_type t b" "cs_min_value s = value_bytes a" "cs_max_value s = value_bytes b"
    using assms(1,3,5) by (auto simp: column_values.bounds_def)
  obtain c d where cd: "of_type t c" "of_type t d" "cs_min_value s' = value_bytes c" "cs_max_value s' = value_bytes d"
    using assms(2,4,5) by (auto simp: column_values.bounds_def)
  note defs = merge_min_max_def column_values.merge_with_def physical_types of_type_iff Let_def
  show ?thesis
  proof (cases t)
    case CBool
    then obtain p q r u where "a = VBool p" "b = VBool q" "c = VBool r" "d = VBool u" using ab cd by (auto simp: of_type_iff)
    then show ?thesis using assms(6) ab cd CBool
      by (cases p; cases q; cases r; cases u) (simp_all add: defs merge_bytes_def bool_byte)
  next
    case CInt32
    then show ?thesis using assms(6) ab cd by (clarsimp simp: defs typed_merge_int_def)
  next
    case CInt64
    then show ?thesis using assms(6) ab cd by (clarsimp simp: defs typed_merge_int_def)
  next
    case CFloat
    then show ?thesis using assms(6) ab cd by (clarsimp simp: defs typed_merge_float_def float_merges)
  next
    case CDouble
    then show ?thesis using assms(6) ab cd by (clarsimp simp: defs typed_merge_float_def double_merges)
  next
    case CString
    then show ?thesis using assms(6) ab cd by (clarsimp simp: defs merge_bytes_def)
  qed
qed

section \<open>Properties\<close>

definition describes :: "ctype \<Rightarrow> cvalue list \<Rightarrow> column_statistics \<Rightarrow> bool" where
  "describes t vs s \<longleftrightarrow>
     cs_num_values s = length (filter counted vs) \<and> (cs_has_min_max s \<longleftrightarrow> filter counted vs \<noteq> []) \<and>
     (cs_has_min_max s \<longrightarrow> min_as t s \<in> set vs \<and> counted (min_as t s) \<and> max_as t s \<in> set vs \<and> counted (max_as t s) \<and>
        (\<forall>v \<in> set vs. counted v \<longrightarrow> \<not> value_less v (min_as t s) \<and> \<not> value_less (max_as t s) v))"

lemma counts [simp]:
  "cs_num_values (count_value s) = Suc (cs_num_values s)" "column_values.bounds vs (count_value s) = column_values.bounds vs s"
  "cs_num_values (column_values.update_with t v s) = cs_num_values s" "cs_type (count_value s) = cs_type s"
  "cs_type (column_values.update_with t v s) = cs_type s"
  by (simp_all add: count_value_def column_values.bounds_def column_values.update_with_def Let_def)

lemma bounds_describes:
  assumes "\<forall>v \<in> set vs. ctype_of v = t" "column_values.bounds (filter counted vs) s" "cs_num_values s = length (filter counted vs)"
  shows "describes t vs s"
  unfolding describes_def min_as_def max_as_def
  using assms read_value_bytes by (auto simp: column_values.bounds_def)

lemma update_bounds:
  assumes "\<forall>v \<in> set vs. ctype_of v = t" "column_values.bounds (filter counted us) s" "\<forall>v \<in> set us. ctype_of v = t"
    and "cs_num_values s = length (filter counted us)"
  shows "column_values.bounds (filter counted (us @ vs)) (fold statistics_update vs s)
    \<and> cs_num_values (fold statistics_update vs s) = length (filter counted (us @ vs)) \<and> cs_type (fold statistics_update vs s) = cs_type s"
  using assms
proof (induction vs arbitrary: us s)
  case (Cons v vs)
  have IH: "column_values.bounds (filter counted ((us @ [v]) @ vs)) (fold statistics_update vs (statistics_update v s))
      \<and> cs_num_values (fold statistics_update vs (statistics_update v s)) = length (filter counted ((us @ [v]) @ vs))
      \<and> cs_type (fold statistics_update vs (statistics_update v s)) = cs_type (statistics_update v s)"
    if "column_values.bounds (filter counted (us @ [v])) (statistics_update v s)"
      "cs_num_values (statistics_update v s) = length (filter counted (us @ [v]))"
    by (rule Cons.IH[OF _ that(1) _ that(2)]) (use Cons.prems in auto)
  show ?case
  proof (cases "counted v")
    case True
    then have v: "of_type t v" "\<forall>w \<in> set (filter counted us). of_type t w" using Cons.prems by (auto simp: of_type_def)
    note u = update_value[OF v(1) Cons.prems(2) v(2)]
    show ?thesis using IH column_values.bounds_update[OF Cons.prems(2) v(2,1)] Cons.prems(4) True by (simp add: u)
  next
    case False
    then have "statistics_update v s = s" by (cases v) auto
    then show ?thesis using IH Cons.prems(2,4) False by simp
  qed
qed simp

lemma new_bounds: "column_values.bounds [] statistics_new"
  by (simp add: column_values.bounds_def statistics_new_def)

lemma fold_bounds:
  assumes "\<forall>v \<in> set vs. ctype_of v = t"
  shows "column_values.bounds (filter counted vs) (fold statistics_update vs statistics_new)
    \<and> cs_num_values (fold statistics_update vs statistics_new) = length (filter counted vs)"
  using update_bounds[OF assms, of "[]" statistics_new] new_bounds by (simp add: statistics_new_def)

lemma set_type_simps [simp]:
  "column_values.bounds vs (set_type u s) = column_values.bounds vs s" "cs_num_values (set_type u s) = cs_num_values s"
  "cs_type (set_type u s) = u" "cs_has_min_max (set_type u s) = cs_has_min_max s"
  by (simp_all add: set_type_def column_values.bounds_def)

lemma merge_simps [simp]:
  "column_values.bounds vs (s\<lparr>cs_distinct_count := d\<rparr>) = column_values.bounds vs s"
  "cs_num_values (column_values.merge_with t s' s) = cs_num_values s"
  by (simp_all add: column_values.bounds_def column_values.merge_with_def Let_def)

lemma merge_bounds:
  assumes "\<forall>v \<in> set (us @ vs). ctype_of v = t"
    and "column_values.bounds (filter counted us) s" "column_values.bounds (filter counted vs) s'"
    and "cs_num_values s = length (filter counted us)" "cs_num_values s' = length (filter counted vs)"
    and "cs_type s = parquet_type_of t" "cs_type s' = parquet_type_of t"
  shows "column_values.bounds (filter counted (us @ vs)) (statistics_merge s' s)
    \<and> cs_num_values (statistics_merge s' s) = length (filter counted (us @ vs))"
proof -
  let ?s = "s\<lparr>cs_null_count := cs_null_count s + cs_null_count s', cs_num_values := cs_num_values s + cs_num_values s'\<rparr>"
  have b: "column_values.bounds (filter counted us) ?s" using assms(2) by (simp add: column_values.bounds_def)
  consider "filter counted vs = []" | "filter counted us = []" "filter counted vs \<noteq> []" | "filter counted us \<noteq> []" "filter counted vs \<noteq> []" by blast
  then show ?thesis
  proof cases
    case 1
    then show ?thesis using assms by (simp add: statistics_merge_def column_values.bounds_def Let_def)
  next
    case 2
    then show ?thesis using assms by (simp add: statistics_merge_def column_values.bounds_def Let_def)
  next
    case 3
    have v: "\<forall>v \<in> set (filter counted us @ filter counted vs). of_type t v" using assms(1) by (auto simp: of_type_def)
    have m: "merge_min_max (cs_min_value s') (cs_max_value s') ?s = column_values.merge_with t s' ?s"
      by (rule merge_value[OF b assms(3) 3 v]) (simp add: assms(6))
    have h: "cs_has_min_max ?s" "cs_has_min_max s'" using 3 b assms(3) by (simp_all add: column_values.bounds_def)
    have "statistics_merge s' s = (if cs_distinct_count (column_values.merge_with t s' ?s) \<noteq> None \<or> cs_distinct_count s' \<noteq> None
        then (column_values.merge_with t s' ?s)\<lparr>cs_distinct_count := None\<rparr> else column_values.merge_with t s' ?s)"
      unfolding m[symmetric] using h assms(6,7) by (simp add: statistics_merge_def Let_def)
    then show ?thesis using column_values.bounds_merge[OF b assms(3) 3 v] assms(4,5) by simp
  qed
qed

text \<open>
  Property C3: the statistics of a column of any type hold the number of its values that are not NaN and,
  if there is one, two of its values as bounds of all of them in the order of the type; merging the statistics of
  two columns of the type they are set to gives those of the columns together.
\<close>
theorem statistics_correct:
  assumes "\<forall>v \<in> set (us @ vs). ctype_of v = t"
  shows "describes t us (fold statistics_update us statistics_new)
    \<and> describes t (us @ vs) (statistics_merge (set_type (parquet_type_of t) (fold statistics_update vs statistics_new))
         (set_type (parquet_type_of t) (fold statistics_update us statistics_new)))"
proof -
  have u: "\<forall>v \<in> set us. ctype_of v = t" and v: "\<forall>v \<in> set vs. ctype_of v = t" using assms by auto
  note b = fold_bounds[OF u] fold_bounds[OF v]
  have "describes t us (fold statistics_update us statistics_new)" using bounds_describes[OF u] b(1) by blast
  moreover have "describes t (us @ vs) (statistics_merge (set_type (parquet_type_of t) (fold statistics_update vs statistics_new))
         (set_type (parquet_type_of t) (fold statistics_update us statistics_new)))"
    using merge_bounds[OF assms] b by (intro bounds_describes[OF assms]) simp_all
  ultimately show ?thesis by blast
qed

theorem statistics_correct_witness:
  "describes CInt32 [VInt32 3, VInt32 (- 7)] (fold statistics_update [VInt32 3, VInt32 (- 7)] statistics_new)
    \<and> min_as CInt32 (fold statistics_update [VInt32 3, VInt32 (- 7)] statistics_new) = VInt32 (- 7)"
  using statistics_correct[of "[VInt32 3, VInt32 (- 7)]" "[]" CInt32]
  by (simp add: min_as_def update_numeric_def statistics_new_def count_value_def int_less_def Let_def)

text \<open>
  Statistics that nobody gave a type, as those of a column writer, are merged as \<^verbatim>\<open>int32_t\<close>: the
  minimum of the \<^verbatim>\<open>double\<close> columns \<open>[1.0]\<close> and \<open>[-1.0]\<close> becomes \<open>1.0\<close>.
\<close>
theorem untyped_merge_wrong:
  fixes one :: u64
  defines "one \<equiv> 0x3FF0000000000000"
  shows "min_as CDouble (statistics_merge (statistics_update (VDouble 0xBFF0000000000000) statistics_new)
      (statistics_update (VDouble one) statistics_new)) = VDouble one
    \<and> value_less (VDouble 0xBFF0000000000000) (VDouble one)"
proof -
  have n: "\<not> double_nan 0xBFF0000000000000" "\<not> double_nan one" by (simp_all add: double_nan_def one_def)
  have le: "take 4 (to_le 8 (0xBFF0000000000000 :: u64)) = [0, 0, 0, 0]" "take 4 (to_le 8 one) = [0, 0, 0, 0]"
    by (simp_all add: to_le_def upt_rec one_def)
  have "min_as CDouble (statistics_merge (statistics_update (VDouble 0xBFF0000000000000) statistics_new)
      (statistics_update (VDouble one) statistics_new)) = VDouble one"
    using n le by (simp add: statistics_merge_def merge_min_max_def typed_merge_int_def update_numeric_def statistics_new_def count_value_def
        min_as_def Let_def from_le_bytes_def int_less_def of_le_to_le)
  moreover have "double_key 0xBFF0000000000000 < double_key one" by (simp add: double_key_def one_def)
  ultimately show ?thesis using n by (simp add: double_less_def)
qed

end
