(* ===== verification/PlainPage.thy ===== *)
theory PlainPage
  imports Statistics ByteStreamSplit
begin

text \<open>
  The PLAIN encoding: \<^verbatim>\<open>ColumnWriter\<close> of \<^verbatim>\<open>include/signet/column_writer.hpp\<close>, which appends values to a
  page buffer and keeps their statistics, and \<^verbatim>\<open>ColumnReader\<close> of \<^verbatim>\<open>include/signet/column_reader.hpp\<close>,
  which reads them back one by one or in batches with every access checked.  A thrown exception is \<open>None\<close>; the
  reader's counters are its \<^verbatim>\<open>int64_t\<close>s as integers, its positions natural numbers.
\<close>

section \<open>The writer\<close>

definition append_le32 :: "bytes \<Rightarrow> u32 \<Rightarrow> bytes" where
  "append_le32 buf v = buf @ [ucast (v AND 0xFF), ucast (drop_bit 8 v AND 0xFF), ucast (drop_bit 16 v AND 0xFF),
     ucast (drop_bit 24 v AND 0xFF)]"

definition append_le64 :: "bytes \<Rightarrow> u64 \<Rightarrow> bytes" where
  "append_le64 buf v = buf @ [ucast (v AND 0xFF), ucast (drop_bit 8 v AND 0xFF), ucast (drop_bit 16 v AND 0xFF),
     ucast (drop_bit 24 v AND 0xFF), ucast (drop_bit 32 v AND 0xFF), ucast (drop_bit 40 v AND 0xFF),
     ucast (drop_bit 48 v AND 0xFF), ucast (drop_bit 56 v AND 0xFF)]"

record column_writer =
  cw_type :: u32
  cw_type_length :: u32
  cw_buf :: bytes
  cw_stats :: column_statistics
  cw_num_values :: nat

definition column_writer_new :: "u32 \<Rightarrow> u32 \<Rightarrow> column_writer" where
  "column_writer_new type type_length =
     \<lparr>cw_type = type, cw_type_length = type_length, cw_buf = [], cw_stats = statistics_new, cw_num_values = 0\<rparr>"

text \<open>The common end of the typed writers: the new buffer, the statistics and the count.\<close>

definition wrote :: "bytes \<Rightarrow> cvalue \<Rightarrow> column_writer \<Rightarrow> column_writer" where
  "wrote buf v w = w\<lparr>cw_buf := buf, cw_stats := statistics_update v (cw_stats w), cw_num_values := cw_num_values w + 1\<rparr>"

definition write_bool :: "bool \<Rightarrow> column_writer \<Rightarrow> column_writer" where
  "write_bool val w =
     (let byte_index = cw_num_values w div 8; bit_offset = cw_num_values w mod 8;
          buf = (if byte_index \<ge> length (cw_buf w) then cw_buf w @ [0] else cw_buf w);
          buf' = (if val then buf[byte_index := buf ! byte_index OR push_bit bit_offset 1] else buf)
      in wrote buf' (VBool val) w)"

definition write_int32 :: "u32 \<Rightarrow> column_writer \<Rightarrow> column_writer" where
  "write_int32 bits w = wrote (append_le32 (cw_buf w) bits) (VInt32 bits) w"
definition write_int64 :: "u64 \<Rightarrow> column_writer \<Rightarrow> column_writer" where
  "write_int64 bits w = wrote (append_le64 (cw_buf w) bits) (VInt64 bits) w"
definition write_float :: "u32 \<Rightarrow> column_writer \<Rightarrow> column_writer" where
  "write_float bits w = wrote (append_le32 (cw_buf w) bits) (VFloat bits) w"
definition write_double :: "u64 \<Rightarrow> column_writer \<Rightarrow> column_writer" where
  "write_double bits w = wrote (append_le64 (cw_buf w) bits) (VDouble bits) w"

definition write_byte_array :: "bytes \<Rightarrow> column_writer \<Rightarrow> column_writer option" where
  "write_byte_array data w =
     (if length data > 2 ^ 32 - 1 then None
      else Some (wrote (append_le32 (cw_buf w) (of_nat (length data)) @ data) (VString data) w))"

definition write_fixed_len_byte_array :: "bytes \<Rightarrow> column_writer \<Rightarrow> column_writer option" where
  "write_fixed_len_byte_array data w =
     (if 0 < sint (cw_type_length w) \<and> int (length data) \<noteq> sint (cw_type_length w) then None
      else Some (wrote (cw_buf w @ data) (VString data) w))"

text \<open>\<^verbatim>\<open>write<T>\<close> and \<^verbatim>\<open>write_batch<T>\<close>.\<close>

fun write_value :: "cvalue \<Rightarrow> column_writer \<Rightarrow> column_writer option" where
  "write_value (VBool b) w = Some (write_bool b w)"
| "write_value (VInt32 v) w = Some (write_int32 v w)"
| "write_value (VInt64 v) w = Some (write_int64 v w)"
| "write_value (VFloat v) w = Some (write_float v w)"
| "write_value (VDouble v) w = Some (write_double v w)"
| "write_value (VString s) w = write_byte_array s w"

fun write_batch :: "cvalue list \<Rightarrow> column_writer \<Rightarrow> column_writer option" where
  "write_batch [] w = Some w"
| "write_batch (v # vs) w = (case write_value v w of None \<Rightarrow> None | Some w' \<Rightarrow> write_batch vs w')"

fun write_fixed_batch :: "bytes list \<Rightarrow> column_writer \<Rightarrow> column_writer option" where
  "write_fixed_batch [] w = Some w"
| "write_fixed_batch (s # ss) w = (case write_fixed_len_byte_array s w of None \<Rightarrow> None | Some w' \<Rightarrow> write_fixed_batch ss w')"

definition column_writer_reset :: "column_writer \<Rightarrow> column_writer" where
  "column_writer_reset w = w\<lparr>cw_buf := [], cw_stats := statistics_reset (cw_stats w), cw_num_values := 0\<rparr>"

definition encoded_size :: "column_writer \<Rightarrow> nat" where
  "encoded_size w = length (cw_buf w)"

section \<open>The reader\<close>

record column_reader =
  cr_type :: u32
  cr_data :: bytes
  cr_pos :: nat
  cr_num_values :: int
  cr_values_read :: int
  cr_type_length :: u32
  cr_bool_bit_offset :: nat

definition column_reader_new :: "u32 \<Rightarrow> bytes \<Rightarrow> int \<Rightarrow> u32 \<Rightarrow> column_reader" where
  "column_reader_new type data num_values type_length =
     \<lparr>cr_type = type, cr_data = data, cr_pos = 0, cr_num_values = num_values, cr_values_read = 0, cr_type_length = type_length,
      cr_bool_bit_offset = 0\<rparr>"

definition read_bool :: "column_reader \<Rightarrow> bool expected \<times> column_reader" where
  "read_bool r =
     (if cr_type r \<noteq> BOOLEAN then (Inl UNSUPPORTED_TYPE, r)
      else if cr_values_read r \<ge> cr_num_values r then (Inl OUT_OF_RANGE, r)
      else let byte_index = cr_bool_bit_offset r div 8; bit_index = cr_bool_bit_offset r mod 8
           in if byte_index \<ge> length (cr_data r) then (Inl CORRUPT_PAGE, r)
              else (Inr (drop_bit bit_index (cr_data r ! byte_index) AND 1 = 1),
                    r\<lparr>cr_bool_bit_offset := cr_bool_bit_offset r + 1, cr_values_read := cr_values_read r + 1\<rparr>))"

text \<open>The four fixed-width readers differ in their type and width.\<close>

definition read_fixed :: "u32 \<Rightarrow> nat \<Rightarrow> column_reader \<Rightarrow> 'a::len word expected \<times> column_reader" where
  "read_fixed type n r =
     (if cr_type r \<noteq> type then (Inl UNSUPPORTED_TYPE, r)
      else if cr_values_read r \<ge> cr_num_values r then (Inl OUT_OF_RANGE, r)
      else if cr_pos r + n > length (cr_data r) then (Inl CORRUPT_PAGE, r)
      else (Inr (of_le (take n (drop (cr_pos r) (cr_data r)))), r\<lparr>cr_pos := cr_pos r + n, cr_values_read := cr_values_read r + 1\<rparr>))"

definition read_int32 :: "column_reader \<Rightarrow> u32 expected \<times> column_reader" where "read_int32 = read_fixed INT32 4"
definition read_int64 :: "column_reader \<Rightarrow> u64 expected \<times> column_reader" where "read_int64 = read_fixed INT64 8"
definition read_float :: "column_reader \<Rightarrow> u32 expected \<times> column_reader" where "read_float = read_fixed FLOAT 4"
definition read_double :: "column_reader \<Rightarrow> u64 expected \<times> column_reader" where "read_double = read_fixed DOUBLE 8"

text \<open>A length prefix and the payload, \<^verbatim>\<open>read_string\<close> and the end of \<^verbatim>\<open>read_bytes\<close>.\<close>

definition read_prefixed :: "column_reader \<Rightarrow> bytes expected \<times> column_reader" where
  "read_prefixed r =
     (if cr_pos r + 4 > length (cr_data r) then (Inl CORRUPT_PAGE, r)
      else let len = unat (of_le (take 4 (drop (cr_pos r) (cr_data r))) :: u32)
           in if len > length (cr_data r) - cr_pos r - 4 then (Inl CORRUPT_PAGE, r)
              else (Inr (take len (drop (cr_pos r + 4) (cr_data r))),
                    r\<lparr>cr_pos := cr_pos r + 4 + len, cr_values_read := cr_values_read r + 1\<rparr>))"

definition read_string_value :: "column_reader \<Rightarrow> bytes expected \<times> column_reader" where
  "read_string_value r =
     (if cr_type r \<noteq> BYTE_ARRAY then (Inl UNSUPPORTED_TYPE, r)
      else if cr_values_read r \<ge> cr_num_values r then (Inl OUT_OF_RANGE, r)
      else read_prefixed r)"

definition read_string_view :: "column_reader \<Rightarrow> bytes expected \<times> column_reader" where
  "read_string_view r =
     (if cr_type r \<noteq> BYTE_ARRAY then (Inl UNSUPPORTED_TYPE, r)
      else if cr_values_read r \<ge> cr_num_values r then (Inl OUT_OF_RANGE, r)
      else read_prefixed r)"

definition read_bytes :: "column_reader \<Rightarrow> bytes expected \<times> column_reader" where
  "read_bytes r =
     (if cr_type r \<noteq> BYTE_ARRAY \<and> cr_type r \<noteq> FIXED_LEN_BYTE_ARRAY then (Inl UNSUPPORTED_TYPE, r)
      else if cr_values_read r \<ge> cr_num_values r then (Inl OUT_OF_RANGE, r)
      else if cr_type r = FIXED_LEN_BYTE_ARRAY then
        if sint (cr_type_length r) \<le> 0 then (Inl SCHEMA_MISMATCH, r)
        else let len = nat (sint (cr_type_length r))
             in if cr_pos r + len > length (cr_data r) then (Inl CORRUPT_PAGE, r)
                else (Inr (take len (drop (cr_pos r) (cr_data r))),
                      r\<lparr>cr_pos := cr_pos r + len, cr_values_read := cr_values_read r + 1\<rparr>)
      else read_prefixed r)"

subsection \<open>Batches\<close>

text \<open>
  A batch has \<^verbatim>\<open>static_cast<int64_t>(count)\<close> values; the end of a fixed-width batch is a \<^verbatim>\<open>size_t\<close> and may
  wrap, which \<open>batch_bounds\<close> excludes for the counts that the file reader passes.
\<close>

fun read_bools :: "nat \<Rightarrow> column_reader \<Rightarrow> bool list expected \<times> column_reader" where
  "read_bools 0 r = (Inr [], r)"
| "read_bools (Suc n) r =
     (let byte_index = cr_bool_bit_offset r div 8; bit_index = cr_bool_bit_offset r mod 8
      in if byte_index \<ge> length (cr_data r) then (Inl CORRUPT_PAGE, r)
         else case read_bools n (r\<lparr>cr_bool_bit_offset := cr_bool_bit_offset r + 1, cr_values_read := cr_values_read r + 1\<rparr>) of
             (Inl e, r') \<Rightarrow> (Inl e, r')
           | (Inr bs, r') \<Rightarrow> (Inr ((drop_bit bit_index (cr_data r ! byte_index) AND 1 = 1) # bs), r'))"

definition int64_of_size :: "nat \<Rightarrow> int" where
  "int64_of_size n = sint (of_nat n :: u64)"

definition read_batch_bool :: "nat \<Rightarrow> column_reader \<Rightarrow> bool list expected \<times> column_reader" where
  "read_batch_bool count r =
     (if cr_type r \<noteq> BOOLEAN then (Inl UNSUPPORTED_TYPE, r)
      else if cr_values_read r + int64_of_size count > cr_num_values r then (Inl OUT_OF_RANGE, r)
      else read_bools count r)"

definition read_batch_fixed :: "u32 \<Rightarrow> nat \<Rightarrow> nat \<Rightarrow> column_reader \<Rightarrow> 'a::len word list expected \<times> column_reader" where
  "read_batch_fixed type n count r =
     (if cr_type r \<noteq> type then (Inl UNSUPPORTED_TYPE, r)
      else if count > SIZE_MAX div n then (Inl OUT_OF_RANGE, r)
      else let total_bytes = count * n
           in if cr_values_read r + int64_of_size count > cr_num_values r then (Inl OUT_OF_RANGE, r)
              else if (cr_pos r + total_bytes) mod 2 ^ 64 > length (cr_data r) then (Inl CORRUPT_PAGE, r)
              else (Inr (from_raw n count (take total_bytes (drop (cr_pos r) (cr_data r)))),
                    r\<lparr>cr_pos := cr_pos r + total_bytes, cr_values_read := cr_values_read r + int64_of_size count\<rparr>))"

definition read_batch_int32 :: "nat \<Rightarrow> column_reader \<Rightarrow> u32 list expected \<times> column_reader" where
  "read_batch_int32 = read_batch_fixed INT32 4"
definition read_batch_int64 :: "nat \<Rightarrow> column_reader \<Rightarrow> u64 list expected \<times> column_reader" where
  "read_batch_int64 = read_batch_fixed INT64 8"
definition read_batch_float :: "nat \<Rightarrow> column_reader \<Rightarrow> u32 list expected \<times> column_reader" where
  "read_batch_float = read_batch_fixed FLOAT 4"
definition read_batch_double :: "nat \<Rightarrow> column_reader \<Rightarrow> u64 list expected \<times> column_reader" where
  "read_batch_double = read_batch_fixed DOUBLE 8"

fun read_strings :: "nat \<Rightarrow> column_reader \<Rightarrow> bytes list expected \<times> column_reader" where
  "read_strings 0 r = (Inr [], r)"
| "read_strings (Suc n) r =
     (if cr_pos r + 4 > length (cr_data r) then (Inl CORRUPT_PAGE, r)
      else let len = unat (of_le (take 4 (drop (cr_pos r) (cr_data r))) :: u32); pos = cr_pos r + 4
           in if pos > length (cr_data r) \<or> len > length (cr_data r) - pos then (Inl CORRUPT_PAGE, r\<lparr>cr_pos := pos\<rparr>)
              else case read_strings n (r\<lparr>cr_pos := pos + len, cr_values_read := cr_values_read r + 1\<rparr>) of
                  (Inl e, r') \<Rightarrow> (Inl e, r')
                | (Inr ss, r') \<Rightarrow> (Inr (take len (drop pos (cr_data r)) # ss), r'))"

definition read_batch_string :: "nat \<Rightarrow> column_reader \<Rightarrow> bytes list expected \<times> column_reader" where
  "read_batch_string count r =
     (if cr_type r \<noteq> BYTE_ARRAY then (Inl UNSUPPORTED_TYPE, r)
      else if cr_values_read r + int64_of_size count > cr_num_values r then (Inl OUT_OF_RANGE, r)
      else read_strings count r)"

subsection \<open>Dispatch on the type\<close>

definition map_expected :: "('v \<Rightarrow> 'w) \<Rightarrow> 'v expected \<times> column_reader \<Rightarrow> 'w expected \<times> column_reader" where
  "map_expected f p = (case fst p of Inl e \<Rightarrow> Inl e | Inr v \<Rightarrow> Inr (f v), snd p)"

fun read_typed :: "ctype \<Rightarrow> column_reader \<Rightarrow> cvalue expected \<times> column_reader" where
  "read_typed CBool r = map_expected VBool (read_bool r)"
| "read_typed CInt32 r = map_expected VInt32 (read_int32 r)"
| "read_typed CInt64 r = map_expected VInt64 (read_int64 r)"
| "read_typed CFloat r = map_expected VFloat (read_float r)"
| "read_typed CDouble r = map_expected VDouble (read_double r)"
| "read_typed CString r = map_expected VString (read_string_value r)"

fun read_batch :: "ctype \<Rightarrow> nat \<Rightarrow> column_reader \<Rightarrow> cvalue list expected \<times> column_reader" where
  "read_batch CBool n r = map_expected (map VBool) (read_batch_bool n r)"
| "read_batch CInt32 n r = map_expected (map VInt32) (read_batch_int32 n r)"
| "read_batch CInt64 n r = map_expected (map VInt64) (read_batch_int64 n r)"
| "read_batch CFloat n r = map_expected (map VFloat) (read_batch_float n r)"
| "read_batch CDouble n r = map_expected (map VDouble) (read_batch_double n r)"
| "read_batch CString n r = map_expected (map VString) (read_batch_string n r)"

fun read_each :: "ctype \<Rightarrow> nat \<Rightarrow> column_reader \<Rightarrow> cvalue list expected \<times> column_reader" where
  "read_each t 0 r = (Inr [], r)"
| "read_each t (Suc n) r =
     (case read_typed t r of
        (Inl e, r') \<Rightarrow> (Inl e, r')
      | (Inr v, r') \<Rightarrow> case read_each t n r' of (Inl e, r'') \<Rightarrow> (Inl e, r'') | (Inr vs, r'') \<Rightarrow> (Inr (v # vs), r''))"

definition values_remaining :: "column_reader \<Rightarrow> int" where "values_remaining r = cr_num_values r - cr_values_read r"
definition has_next :: "column_reader \<Rightarrow> bool" where "has_next r \<longleftrightarrow> cr_values_read r < cr_num_values r"

section \<open>What the writer's buffer holds\<close>

lemma append_le: "append_le32 buf v = buf @ to_le 4 v" "append_le64 buf w = buf @ to_le 8 w"
  unfolding append_le32_def append_le64_def ucast_low_byte by (simp_all add: to_le_def upt_rec)

text \<open>The encoding of a value that is not a Boolean.\<close>

fun plain_value :: "cvalue \<Rightarrow> bytes" where
  "plain_value (VInt32 v) = to_le 4 v"
| "plain_value (VInt64 v) = to_le 8 v"
| "plain_value (VFloat v) = to_le 4 v"
| "plain_value (VDouble v) = to_le 8 v"
| "plain_value (VString s) = to_le 4 (of_nat (length s) :: u32) @ s"
| "plain_value (VBool b) = []"

fun value_short :: "cvalue \<Rightarrow> bool" where
  "value_short (VString s) \<longleftrightarrow> length s < 2 ^ 32"
| "value_short _ \<longleftrightarrow> True"

definition bools_buf :: "bool list \<Rightarrow> bytes \<Rightarrow> bool" where
  "bools_buf bs buf \<longleftrightarrow> length buf = (length bs + 7) div 8 \<and> (\<forall>i. byte_bit buf i \<longleftrightarrow> i < length bs \<and> bs ! i)"

fun the_bool :: "cvalue \<Rightarrow> bool" where "the_bool (VBool b) = b" | "the_bool _ = False"

definition buffer_of :: "ctype \<Rightarrow> cvalue list \<Rightarrow> bytes \<Rightarrow> bool" where
  "buffer_of t vs buf \<longleftrightarrow> (if t = CBool then bools_buf (map the_bool vs) buf else buf = concat (map plain_value vs))"

definition holds :: "ctype \<Rightarrow> cvalue list \<Rightarrow> column_writer \<Rightarrow> bool" where
  "holds t vs w \<longleftrightarrow> (\<forall>v \<in> set vs. ctype_of v = t) \<and> cw_num_values w = length vs
     \<and> cw_stats w = fold statistics_update vs statistics_new \<and> buffer_of t vs (cw_buf w)"

lemma byte_bit_pad: "byte_bit (buf @ [0]) i \<longleftrightarrow> byte_bit buf i"
  by (auto simp: byte_bit_def nth_append less_Suc_eq)

lemma byte_bit_set:
  assumes "k < length buf"
  shows "byte_bit (buf[k := buf ! k OR push_bit j 1]) i \<longleftrightarrow> byte_bit buf i \<or> (j < 8 \<and> i = 8 * k + j)"
proof -
  have "bit (push_bit j (1 :: u8)) (i mod 8) \<longleftrightarrow> j < 8 \<and> i mod 8 = j" by (auto simp: bit_exp_iff)
  moreover have "j < 8 \<Longrightarrow> i = 8 * k + j \<longleftrightarrow> k = i div 8 \<and> i mod 8 = j" by auto
  ultimately show ?thesis using assms
    by (auto simp del: push_bit_of_1 simp: byte_bit_def bit_or_iff nth_list_update)
qed

lemma bools_buf_write:
  assumes "bools_buf bs buf"
  shows "bools_buf (bs @ [b]) (let n = length bs; buf' = (if n div 8 \<ge> length buf then buf @ [0] else buf)
     in if b then buf'[n div 8 := buf' ! (n div 8) OR push_bit (n mod 8) 1] else buf')"
proof -
  let ?n = "length bs" let ?buf = "if ?n div 8 \<ge> length buf then buf @ [0] else buf"
  have l: "length buf = (?n + 7) div 8" and bits: "\<And>i. byte_bit buf i \<longleftrightarrow> i < ?n \<and> bs ! i" using assms by (auto simp: bools_buf_def)
  have "?n div 8 \<le> (?n + 7) div 8" "(?n + 7) div 8 \<le> (?n + 8) div 8" "(?n + 8) div 8 = ?n div 8 + 1" by (simp_all add: div_le_mono)
  then have l': "length ?buf = (?n + 8) div 8" using l by auto
  then have k: "?n div 8 < length ?buf" by simp
  have b': "byte_bit ?buf i \<longleftrightarrow> i < ?n \<and> bs ! i" for i using bits by (simp add: byte_bit_pad)
  have n: "8 * (?n div 8) + ?n mod 8 = ?n" "?n mod 8 < 8" by simp_all
  show ?thesis
    unfolding bools_buf_def Let_def using l' b' byte_bit_set[OF k, of "?n mod 8"] n
    by (auto simp: nth_append less_Suc_eq)
qed

lemma holds_new: "holds t [] (column_writer_new u k)"
  by (simp add: holds_def column_writer_new_def buffer_of_def bools_buf_def byte_bit_def)

lemma holds_wrote:
  assumes "holds t vs w" "ctype_of v = t" "buffer_of t (vs @ [v]) buf"
  shows "holds t (vs @ [v]) (wrote buf v w)"
  using assms by (auto simp: holds_def wrote_def)

lemma write_value_holds:
  assumes "holds t vs w" "ctype_of v = t" "value_short v"
  shows "\<exists>w'. write_value v w = Some w' \<and> holds t (vs @ [v]) w' \<and> cw_type w' = cw_type w \<and> cw_type_length w' = cw_type_length w"
proof -
  have buf: "buffer_of t vs (cw_buf w)" and n: "cw_num_values w = length vs" using assms(1) by (auto simp: holds_def)
  note h = holds_wrote[OF assms(1,2)]
  show ?thesis
  proof (cases v)
    case (VBool b)
    then have "t = CBool" using assms(2) by simp
    with buf have "bools_buf (map the_bool vs) (cw_buf w)" by (simp add: buffer_of_def)
    from bools_buf_write[OF this, of b] h[unfolded VBool] \<open>t = CBool\<close> show ?thesis
      by (simp add: VBool write_bool_def n Let_def buffer_of_def) (simp add: wrote_def)
  next
    case (VString s)
    then show ?thesis using assms(2,3) buf h
      by (auto simp: write_byte_array_def append_le buffer_of_def) (auto simp: wrote_def)
  qed (use assms(2) buf h in \<open>auto simp: write_int32_def write_int64_def write_float_def write_double_def append_le buffer_of_def\<close>,
       auto simp: wrote_def)
qed

lemma write_batch_holds:
  assumes "holds t us w" "\<forall>v \<in> set vs. ctype_of v = t \<and> value_short v"
  shows "\<exists>w'. write_batch vs w = Some w' \<and> holds t (us @ vs) w' \<and> cw_type w' = cw_type w \<and> cw_type_length w' = cw_type_length w"
  using assms
proof (induction vs arbitrary: us w)
  case (Cons v vs)
  then obtain w' where w': "write_value v w = Some w'" "holds t (us @ [v]) w'" "cw_type w' = cw_type w" "cw_type_length w' = cw_type_length w"
    using write_value_holds[of t us w v] by auto
  show ?case using Cons.IH[OF w'(2)] Cons.prems(2) w' by auto
qed simp

section \<open>Reading it back\<close>

text \<open>\<open>stands t vs rest r\<close>: the reader stands before the encodings of \<open>vs\<close>, with \<open>rest\<close> behind them.\<close>

definition stands :: "ctype \<Rightarrow> cvalue list \<Rightarrow> bytes \<Rightarrow> column_reader \<Rightarrow> bool" where
  "stands t vs rest r \<longleftrightarrow> cr_type r = parquet_type_of t \<and> (\<forall>v \<in> set vs. ctype_of v = t \<and> value_short v)
     \<and> cr_values_read r + int (length vs) \<le> cr_num_values r \<and> length vs < 2 ^ 60
     \<and> (if t = CBool then cr_bool_bit_offset r + length vs \<le> 8 * length (cr_data r)
          \<and> (\<forall>i < length vs. byte_bit (cr_data r) (cr_bool_bit_offset r + i) = the_bool (vs ! i))
        else drop (cr_pos r) (cr_data r) = concat (map plain_value vs) @ rest \<and> cr_pos r \<le> length (cr_data r))"

lemma drop_split:
  assumes "drop pos data = xs @ ys" "pos \<le> length data"
  shows "pos + length xs \<le> length data" "take (length xs) (drop pos data) = xs" "drop (pos + length xs) data = ys"
    "n \<le> length xs \<Longrightarrow> take n (drop pos data) = take n xs" "n \<le> length xs \<Longrightarrow> pos + n \<le> length data"
    "length data - pos = length xs + length ys"
proof -
  have l: "length data - pos = length xs + length ys" using assms(1) by (metis length_append length_drop)
  show "pos + length xs \<le> length data" "length data - pos = length xs + length ys" "n \<le> length xs \<Longrightarrow> pos + n \<le> length data"
    using l assms(2) by auto
  show "take (length xs) (drop pos data) = xs" "n \<le> length xs \<Longrightarrow> take n (drop pos data) = take n xs" by (simp_all add: assms(1))
  have "drop (pos + length xs) data = drop (length xs) (drop pos data)" by (simp add: add.commute)
  then show "drop (pos + length xs) data = ys" by (simp add: assms(1))
qed

lemma string_length: "length s < 2 ^ 32 \<Longrightarrow> unat (of_nat (length s) :: u32) = length s"
  by (simp add: unat_of_nat)

lemma bit_of_byte: "drop_bit k (b :: u8) AND 1 = 1 \<longleftrightarrow> bit b k"
  by (simp add: bit_iff_odd_drop_bit and_one_eq odd_iff_mod_2_eq_one)

lemma read_fixed_stands:
  assumes "drop (cr_pos r) (cr_data r) = to_le n (x :: 'a::len word) @ rest" "cr_pos r \<le> length (cr_data r)" "8 * n = LENGTH('a)"
    and "cr_type r = type" "cr_values_read r < cr_num_values r"
  shows "read_fixed type n r = (Inr x, r\<lparr>cr_pos := cr_pos r + n, cr_values_read := cr_values_read r + 1\<rparr>)"
    "drop (cr_pos r + n) (cr_data r) = rest" "cr_pos r + n \<le> length (cr_data r)"
proof -
  have d: "cr_pos r + n \<le> length (cr_data r)" "take n (drop (cr_pos r) (cr_data r)) = to_le n x" "drop (cr_pos r + n) (cr_data r) = rest"
    using drop_split(1-3)[OF assms(1,2)] by simp_all
  then show "read_fixed type n r = (Inr x, r\<lparr>cr_pos := cr_pos r + n, cr_values_read := cr_values_read r + 1\<rparr>)"
    using assms(3-5) by (simp add: read_fixed_def of_le_to_le)
qed (use drop_split(1,3)[OF assms(1,2)] in simp_all)

lemma read_prefixed_stands:
  assumes "drop (cr_pos r) (cr_data r) = (to_le 4 (of_nat (length s) :: u32) @ s) @ rest" "cr_pos r \<le> length (cr_data r)" "length s < 2 ^ 32"
  shows "read_prefixed r = (Inr s, r\<lparr>cr_pos := cr_pos r + 4 + length s, cr_values_read := cr_values_read r + 1\<rparr>)"
    "drop (cr_pos r + 4 + length s) (cr_data r) = rest" "cr_pos r + 4 + length s \<le> length (cr_data r)"
proof -
  note d = drop_split[OF assms(1)[unfolded append_assoc] assms(2)] drop_split[OF assms(1,2)]
  have "drop (cr_pos r + 4) (cr_data r) = s @ rest" using d(3) by simp
  then show "read_prefixed r = (Inr s, r\<lparr>cr_pos := cr_pos r + 4 + length s, cr_values_read := cr_values_read r + 1\<rparr>)"
    using d(1,2,6) string_length[OF assms(3)] by (simp add: read_prefixed_def of_le_to_le Let_def)
  show "drop (cr_pos r + 4 + length s) (cr_data r) = rest" "cr_pos r + 4 + length s \<le> length (cr_data r)"
    using d(7,9) by (simp_all add: add.assoc)
qed

lemma read_typed_stands:
  assumes "stands t (v # vs) rest r"
  shows "\<exists>r'. read_typed t r = (Inr v, r') \<and> stands t vs rest r' \<and> cr_values_read r' = cr_values_read r + 1
     \<and> cr_num_values r' = cr_num_values r \<and> cr_data r' = cr_data r"
proof (cases t)
  case CBool
  then obtain b where b: "v = VBool b" using assms by (cases v) (auto simp: stands_def)
  let ?k = "cr_bool_bit_offset r"
  have "byte_bit (cr_data r) ?k = b" "?k < 8 * length (cr_data r)"
    using assms CBool b by (auto simp: stands_def dest: spec[where x = 0])
  then have "drop_bit (?k mod 8) (cr_data r ! (?k div 8)) AND 1 = 1 \<longleftrightarrow> b" "?k div 8 < length (cr_data r)"
    by (auto simp: byte_bit_def bit_of_byte)
  moreover have "\<forall>i < length vs. byte_bit (cr_data r) (Suc (?k + i)) = the_bool (vs ! i)"
    using assms CBool by (auto simp: stands_def dest: spec[where x = "Suc _"])
  ultimately show ?thesis using assms CBool b
    by (simp add: stands_def read_bool_def map_expected_def Let_def physical_types)
next
  case CString
  then obtain s where s: "v = VString s" "length s < 2 ^ 32" using assms by (cases v) (auto simp: stands_def)
  then show ?thesis using assms CString read_prefixed_stands[of r s]
    by (simp add: stands_def read_string_value_def map_expected_def physical_types)
qed (use assms in \<open>cases v; simp add: stands_def read_int32_def read_int64_def read_float_def read_double_def read_fixed_stands map_expected_def\<close>)+

lemma read_each_stands:
  "stands t vs rest r \<Longrightarrow> \<exists>r'. read_each t (length vs) r = (Inr vs, r') \<and> cr_values_read r' = cr_values_read r + int (length vs)
     \<and> cr_num_values r' = cr_num_values r"
proof (induction vs arbitrary: r)
  case (Cons v vs)
  then obtain r' where r': "read_typed t r = (Inr v, r')" "stands t vs rest r'" "cr_values_read r' = cr_values_read r + 1"
      "cr_num_values r' = cr_num_values r"
    using read_typed_stands by blast
  show ?case using Cons.IH[OF r'(2)] r' by auto
qed simp

lemma read_each_exhausted: "cr_values_read r \<ge> cr_num_values r \<Longrightarrow> fst (read_typed t r) \<in> {Inl OUT_OF_RANGE, Inl UNSUPPORTED_TYPE}"
  by (cases t) (simp_all add: map_expected_def read_bool_def read_int32_def read_int64_def read_float_def read_double_def read_fixed_def
    read_string_value_def)

lemma int64_of_small: "n < 2 ^ 60 \<Longrightarrow> int64_of_size n = int n"
  unfolding int64_of_size_def by (simp add: signed_of_nat signed_take_bit_int_eq_self)

lemma read_bools_stands:
  "stands CBool vs rest r \<Longrightarrow> fst (read_bools (length vs) r) = Inr (map the_bool vs)"
proof (induction vs arbitrary: r)
  case (Cons v vs)
  obtain r' where r': "read_typed CBool r = (Inr v, r')" "stands CBool vs rest r'" using read_typed_stands[OF Cons.prems] by blast
  then have "read_bool r = (Inr (the_bool v), r')"
    by (cases "read_bool r"; cases "fst (read_bool r)") (auto simp: map_expected_def)
  then show ?case using Cons.IH[OF r'(2)]
    by (auto simp: read_bool_def Let_def split: if_splits prod.splits)
qed simp

lemma read_strings_stands:
  "stands CString vs rest r \<Longrightarrow> \<exists>ss. vs = map VString ss \<and> fst (read_strings (length vs) r) = Inr ss"
proof (induction vs arbitrary: r)
  case (Cons v vs)
  obtain r' where r': "read_typed CString r = (Inr v, r')" "stands CString vs rest r'" using read_typed_stands[OF Cons.prems] by blast
  then obtain s where s: "v = VString s" "read_string_value r = (Inr s, r')"
    by (cases "read_string_value r"; cases "fst (read_string_value r)") (auto simp: map_expected_def)
  obtain ss where ss: "vs = map VString ss" "fst (read_strings (length vs) r') = Inr ss" using Cons.IH[OF r'(2)] by blast
  show ?case using s ss
    by (intro exI[where x = "s # ss"])
      (auto simp: read_string_value_def read_prefixed_def Let_def split: if_splits prod.splits)
qed simp

lemma read_batch_fixed_stands:
  assumes "drop (cr_pos r) (cr_data r) = raw_bytes n (xs :: 'a::len word list) @ rest" "cr_pos r \<le> length (cr_data r)" "8 * n = LENGTH('a)"
    and "cr_type r = type" "cr_values_read r + int (length xs) \<le> cr_num_values r" "length xs < 2 ^ 60" "n \<in> {4, 8}"
    and "length (cr_data r) < 2 ^ 64"
  shows "fst (read_batch_fixed type n (length xs) r) = Inr xs"
proof -
  note d = drop_split[OF assms(1,2)]
  have l: "length (raw_bytes n xs) = length xs * n" by simp
  have "cr_pos r + length xs * n \<le> length (cr_data r)" using d(1) l by simp
  then have m: "(cr_pos r + length xs * n) mod 2 ^ 64 \<le> length (cr_data r)" using assms(8) by simp
  have "length xs \<le> SIZE_MAX div n" using assms(6,7) by (auto simp: SIZE_MAX_def)
  moreover have "from_raw n (length xs) (take (length xs * n) (drop (cr_pos r) (cr_data r))) = xs"
    using d(2) l from_raw_bytes[of n xs] assms(3) by simp
  ultimately show ?thesis using assms(4,5) m int64_of_small[OF assms(6)] by (simp add: read_batch_fixed_def Let_def)
qed

lemma ctype_of_iff:
  "ctype_of v = CBool \<longleftrightarrow> (\<exists>b. v = VBool b)" "ctype_of v = CInt32 \<longleftrightarrow> (\<exists>x. v = VInt32 x)" "ctype_of v = CInt64 \<longleftrightarrow> (\<exists>y. v = VInt64 y)"
  "ctype_of v = CFloat \<longleftrightarrow> (\<exists>x. v = VFloat x)" "ctype_of v = CDouble \<longleftrightarrow> (\<exists>y. v = VDouble y)" "ctype_of v = CString \<longleftrightarrow> (\<exists>s. v = VString s)"
  by (cases v; simp)+

lemma words_of:
  "\<forall>v \<in> set vs. ctype_of v = CInt32 \<Longrightarrow> \<exists>xs. vs = map VInt32 xs \<and> concat (map plain_value vs) = raw_bytes 4 xs"
  "\<forall>v \<in> set vs. ctype_of v = CInt64 \<Longrightarrow> \<exists>ys. vs = map VInt64 ys \<and> concat (map plain_value vs) = raw_bytes 8 ys"
  "\<forall>v \<in> set vs. ctype_of v = CFloat \<Longrightarrow> \<exists>xs. vs = map VFloat xs \<and> concat (map plain_value vs) = raw_bytes 4 xs"
  "\<forall>v \<in> set vs. ctype_of v = CDouble \<Longrightarrow> \<exists>ys. vs = map VDouble ys \<and> concat (map plain_value vs) = raw_bytes 8 ys"
  "\<forall>v \<in> set vs. ctype_of v = CBool \<Longrightarrow> \<exists>bs. vs = map VBool bs \<and> bs = map the_bool vs"
proof -
  have c: "(\<forall>v \<in> set vs. ctype_of v = t) \<Longrightarrow> (\<And>v. ctype_of v = t \<Longrightarrow> \<exists>x. v = f x) \<Longrightarrow> \<exists>xs. vs = map f xs" for t f and vs :: "cvalue list"
    by (induction vs) (auto, metis list.simps(9))
  show "\<exists>xs. vs = map VInt32 xs \<and> concat (map plain_value vs) = raw_bytes 4 xs" if "\<forall>v \<in> set vs. ctype_of v = CInt32"
    using c[OF that, of VInt32] by (auto simp: raw_bytes_def comp_def ctype_of_iff)
  show "\<exists>ys. vs = map VInt64 ys \<and> concat (map plain_value vs) = raw_bytes 8 ys" if "\<forall>v \<in> set vs. ctype_of v = CInt64"
    using c[OF that, of VInt64] by (auto simp: raw_bytes_def comp_def ctype_of_iff)
  show "\<exists>xs. vs = map VFloat xs \<and> concat (map plain_value vs) = raw_bytes 4 xs" if "\<forall>v \<in> set vs. ctype_of v = CFloat"
    using c[OF that, of VFloat] by (auto simp: raw_bytes_def comp_def ctype_of_iff)
  show "\<exists>ys. vs = map VDouble ys \<and> concat (map plain_value vs) = raw_bytes 8 ys" if "\<forall>v \<in> set vs. ctype_of v = CDouble"
    using c[OF that, of VDouble] by (auto simp: raw_bytes_def comp_def ctype_of_iff)
  show "\<exists>bs. vs = map VBool bs \<and> bs = map the_bool vs" if "\<forall>v \<in> set vs. ctype_of v = CBool"
    using c[OF that, of VBool] by (auto simp: comp_def ctype_of_iff)
qed

lemma read_batch_stands:
  assumes "stands t vs rest r" "length (cr_data r) < 2 ^ 64"
  shows "fst (read_batch t (length vs) r) = Inr vs"
proof -
  have ty: "\<forall>v \<in> set vs. ctype_of v = t" and c: "cr_values_read r + int64_of_size (length vs) \<le> cr_num_values r"
    and u: "cr_type r = parquet_type_of t" "length vs < 2 ^ 60" "cr_values_read r + int (length vs) \<le> cr_num_values r"
    using assms(1) int64_of_small by (auto simp: stands_def)
  show ?thesis
  proof (cases t)
    case CBool
    then show ?thesis using read_bools_stands[of vs rest r] assms(1) ty c u words_of(5)[of vs]
      by (auto simp: map_expected_def read_batch_bool_def)
  next
    case CString
    then show ?thesis using read_strings_stands[of vs rest r] assms(1) c u by (auto simp: map_expected_def read_batch_string_def)
  next
    case CInt32
    then obtain xs where "vs = map VInt32 xs" "concat (map plain_value vs) = raw_bytes 4 xs" using words_of(1) ty by blast
    then show ?thesis using assms u CInt32 read_batch_fixed_stands[of r 4 xs rest INT32]
      by (simp add: stands_def map_expected_def read_batch_int32_def)
  next
    case CInt64
    then obtain xs where "vs = map VInt64 xs" "concat (map plain_value vs) = raw_bytes 8 xs" using words_of(2) ty by blast
    then show ?thesis using assms u CInt64 read_batch_fixed_stands[of r 8 xs rest INT64]
      by (simp add: stands_def map_expected_def read_batch_int64_def)
  next
    case CFloat
    then obtain xs where "vs = map VFloat xs" "concat (map plain_value vs) = raw_bytes 4 xs" using words_of(3) ty by blast
    then show ?thesis using assms u CFloat read_batch_fixed_stands[of r 4 xs rest FLOAT]
      by (simp add: stands_def map_expected_def read_batch_float_def)
  next
    case CDouble
    then obtain xs where "vs = map VDouble xs" "concat (map plain_value vs) = raw_bytes 8 xs" using words_of(4) ty by blast
    then show ?thesis using assms u CDouble read_batch_fixed_stands[of r 8 xs rest DOUBLE]
      by (simp add: stands_def map_expected_def read_batch_double_def)
  qed
qed

lemma byte_bit_front: "i < 8 * length xs \<Longrightarrow> byte_bit (xs @ ys) i = byte_bit xs i"
  by (auto simp: byte_bit_def nth_append)

lemma buffer_stands:
  assumes "holds t vs w" "\<forall>v \<in> set vs. value_short v" "length vs < 2 ^ 60"
  shows "stands t vs rest (column_reader_new (parquet_type_of t) (cw_buf w @ rest) (int (length vs)) k)"
proof (cases "t = CBool")
  case True
  then have "bools_buf (map the_bool vs) (cw_buf w)" using assms(1) by (simp add: holds_def buffer_of_def)
  then have l: "length (cw_buf w) = (length vs + 7) div 8" and bits: "\<forall>i. byte_bit (cw_buf w) i \<longleftrightarrow> i < length vs \<and> map the_bool vs ! i"
    unfolding bools_buf_def length_map by (rule conjunct1, rule conjunct2)
  have b: "byte_bit (cw_buf w) i \<longleftrightarrow> the_bool (vs ! i)" if "i < length vs" for i using bits that by simp
  have "n \<le> 8 * ((n + 7) div 8)" for n :: nat by linarith
  then have n: "length vs \<le> 8 * length (cw_buf w)" unfolding l .
  have "byte_bit (cw_buf w @ rest) i = the_bool (vs ! i)" if "i < length vs" for i
    using that n byte_bit_front[of i "cw_buf w" rest] b[of i] by simp
  moreover have "\<forall>v \<in> set vs. ctype_of v = t" using assms(1) by (simp add: holds_def)
  ultimately show ?thesis using True assms(2,3) n by (simp add: stands_def column_reader_new_def)
next
  case False
  then have "cw_buf w = concat (map plain_value vs)" "\<forall>v \<in> set vs. ctype_of v = t" using assms(1) by (simp_all add: holds_def buffer_of_def)
  then show ?thesis using False assms(2,3) by (simp add: stands_def column_reader_new_def)
qed

subsection \<open>Fixed-length byte arrays\<close>

fun read_bytes_each :: "nat \<Rightarrow> column_reader \<Rightarrow> bytes list expected \<times> column_reader" where
  "read_bytes_each 0 r = (Inr [], r)"
| "read_bytes_each (Suc n) r =
     (case read_bytes r of
        (Inl e, r') \<Rightarrow> (Inl e, r')
      | (Inr s, r') \<Rightarrow> case read_bytes_each n r' of (Inl e, r'') \<Rightarrow> (Inl e, r'') | (Inr ss, r'') \<Rightarrow> (Inr (s # ss), r''))"

lemma write_fixed_batch_buf:
  "\<forall>s \<in> set ss. int (length s) = sint (cw_type_length w) \<Longrightarrow> \<exists>w'. write_fixed_batch ss w = Some w' \<and> cw_buf w' = cw_buf w @ concat ss
     \<and> cw_num_values w' = cw_num_values w + length ss \<and> cw_type w' = cw_type w \<and> cw_type_length w' = cw_type_length w
     \<and> cw_stats w' = fold statistics_update (map VString ss) (cw_stats w)"
proof (induction ss arbitrary: w)
  case (Cons s ss)
  let ?w = "wrote (cw_buf w @ s) (VString s) w"
  have "write_fixed_len_byte_array s w = Some ?w" "cw_type_length ?w = cw_type_length w" "cw_buf ?w = cw_buf w @ s"
      "cw_num_values ?w = Suc (cw_num_values w)" "cw_type ?w = cw_type w" "cw_stats ?w = statistics_update (VString s) (cw_stats w)"
    using Cons.prems by (simp_all add: write_fixed_len_byte_array_def wrote_def)
  then show ?case using Cons.IH[of ?w] Cons.prems by simp
qed simp

lemma read_fixed_batch:
  assumes "drop (cr_pos r) (cr_data r) = concat ss @ rest" "cr_pos r \<le> length (cr_data r)" "cr_type r = FIXED_LEN_BYTE_ARRAY"
    and "\<forall>s \<in> set ss. int (length s) = sint (cr_type_length r)" "0 < sint (cr_type_length r)"
    and "cr_values_read r + int (length ss) \<le> cr_num_values r"
  shows "fst (read_bytes_each (length ss) r) = Inr ss"
  using assms
proof (induction ss arbitrary: r)
  case (Cons s ss)
  note d = drop_split[of "cr_pos r" "cr_data r" s "concat ss @ rest"]
  have e: "drop (cr_pos r) (cr_data r) = s @ concat ss @ rest" using Cons.prems(1) by simp
  let ?r = "r\<lparr>cr_pos := cr_pos r + length s, cr_values_read := cr_values_read r + 1\<rparr>"
  have "int (length s) = sint (cr_type_length r)" using Cons.prems(4) by simp
  then have "nat (sint (cr_type_length r)) = length s" using nat_int[of "length s"] by simp
  then have "read_bytes r = (Inr s, ?r)" using Cons.prems(3,5,6) d(1,2)[OF e Cons.prems(2)] by (simp add: read_bytes_def)
  moreover have "fst (read_bytes_each (length ss) ?r) = Inr ss"
    using Cons.prems d(1,3)[OF e Cons.prems(2)] by (intro Cons.IH) simp_all
  ultimately show ?case by (auto split: prod.splits)
qed simp

section \<open>Properties\<close>

text \<open>
  Property C2: a page that the column writer fills with values of one type is read back exactly, by one
  batch and one by one, whatever follows the page and whatever the count limits of the statistics are; the reader refuses
  to read beyond the values.  Fixed-length byte arrays of the schema's length are read back as raw bytes.
\<close>
theorem plain_page_roundtrip:
  assumes "\<forall>v \<in> set vs. ctype_of v = t \<and> value_short v" "length vs < 2 ^ 60"
    and "0 < sint k" "\<forall>s \<in> set ss. int (length s) = sint k"
  shows "(\<exists>w. write_batch vs (column_writer_new (parquet_type_of t) k) = Some w \<and> cw_num_values w = length vs \<and>
      (let r = column_reader_new (parquet_type_of t) (cw_buf w @ rest) (int (length vs)) k in
       (length (cw_buf w @ rest) < 2 ^ 64 \<longrightarrow> fst (read_batch t (length vs) r) = Inr vs)
       \<and> (\<exists>r'. read_each t (length vs) r = (Inr vs, r') \<and> values_remaining r' = 0 \<and> \<not> has_next r')))
    \<and> (\<exists>w. write_fixed_batch ss (column_writer_new FIXED_LEN_BYTE_ARRAY k) = Some w
      \<and> fst (read_bytes_each (length ss) (column_reader_new FIXED_LEN_BYTE_ARRAY (cw_buf w @ rest) (int (length ss)) k)) = Inr ss)"
proof (rule conjI)
  obtain w where w: "write_batch vs (column_writer_new (parquet_type_of t) k) = Some w" "holds t vs w"
    using write_batch_holds[OF holds_new assms(1), of "parquet_type_of t" k] by auto
  let ?r = "column_reader_new (parquet_type_of t) (cw_buf w @ rest) (int (length vs)) k"
  have s: "stands t vs rest ?r" by (rule buffer_stands[OF w(2)]) (use assms in auto)
  have "cw_num_values w = length vs" using w(2) by (simp add: holds_def)
  moreover have "\<exists>r'. read_each t (length vs) ?r = (Inr vs, r') \<and> values_remaining r' = 0 \<and> \<not> has_next r'"
    using read_each_stands[OF s] by (auto simp: values_remaining_def has_next_def column_reader_new_def)
  ultimately show "\<exists>w. write_batch vs (column_writer_new (parquet_type_of t) k) = Some w \<and> cw_num_values w = length vs \<and>
      (let r = column_reader_new (parquet_type_of t) (cw_buf w @ rest) (int (length vs)) k in
       (length (cw_buf w @ rest) < 2 ^ 64 \<longrightarrow> fst (read_batch t (length vs) r) = Inr vs)
       \<and> (\<exists>r'. read_each t (length vs) r = (Inr vs, r') \<and> values_remaining r' = 0 \<and> \<not> has_next r'))"
    using w(1) read_batch_stands[OF s] by (auto simp: Let_def column_reader_new_def)
  obtain x where x: "write_fixed_batch ss (column_writer_new FIXED_LEN_BYTE_ARRAY k) = Some x" "cw_buf x = concat ss"
    using write_fixed_batch_buf[of ss "column_writer_new FIXED_LEN_BYTE_ARRAY k"] assms(4) by (auto simp: column_writer_new_def)
  show "\<exists>w. write_fixed_batch ss (column_writer_new FIXED_LEN_BYTE_ARRAY k) = Some w
      \<and> fst (read_bytes_each (length ss) (column_reader_new FIXED_LEN_BYTE_ARRAY (cw_buf w @ rest) (int (length ss)) k)) = Inr ss"
    using x read_fixed_batch[of "column_reader_new FIXED_LEN_BYTE_ARRAY (concat ss @ rest) (int (length ss)) k" ss rest] assms(3,4)
    by (auto simp: column_reader_new_def)
qed

theorem plain_page_roundtrip_witness:
  "\<exists>w. write_batch [VString [104, 105], VString []] (column_writer_new (parquet_type_of CString) 3) = Some w
    \<and> cw_num_values w = 2"
  using plain_page_roundtrip[of "[VString [104, 105], VString []]" CString 3 "[[1, 2, 3]]" "[]"] by auto

end
