(* ===== verification/PageIndex.thy ===== *)
theory PageIndex
  imports Statistics
begin

text \<open>
  The page index of \<^verbatim>\<open>include/signet/column_index.hpp\<close>: page locations, the minimum and maximum of each
  page, their Thrift encodings, the builder that the writer feeds and the filter that selects the pages a
  range of values may touch.  The readers of this file, unlike those of the footer, check neither wire types nor the
  decoder's error flag inside the loop: a failed decoder reports the stop marker, which ends the loop.
\<close>

section \<open>The lenient reader\<close>

text \<open>
  The loop over the fields; a case of the \<^verbatim>\<open>switch\<close> gives the new object and whether it returned from
  the function.  A header that is not the stop marker takes at least one byte, so the first argument, one more than
  the bytes left, is enough.
\<close>

type_synonym 'x case_reader = "u8 \<Rightarrow> compact_decoder \<Rightarrow> 'x \<Rightarrow> 'x \<times> bool \<times> compact_decoder"

fun field_loop :: "nat \<Rightarrow> (i16 \<Rightarrow> 'x case_reader) \<Rightarrow> compact_decoder \<Rightarrow> 'x \<Rightarrow> 'x \<times> bool \<times> compact_decoder" where
  "field_loop 0 h d x = (x, True, fail d)"
| "field_loop (Suc f) h d x =
     (let (fh, d1) = read_field_header d in
      if snd fh = T_STOP then (x, False, d1)
      else case h (fst fh) (snd fh) d1 x of (x', returned, d2) \<Rightarrow> if returned then (x', True, d2) else field_loop f h d2 x')"

declare field_loop.simps [simp del]

definition read_fields :: "(i16 \<Rightarrow> 'x case_reader) \<Rightarrow> compact_decoder \<Rightarrow> 'x \<Rightarrow> 'x \<times> compact_decoder" where
  "read_fields h d x =
     (let d1 = begin_struct d in
      case field_loop (Suc (remaining d1)) h d1 x of (x', returned, d2) \<Rightarrow> (x', if returned then d2 else end_struct d2))"

definition case_of :: "(i16 \<times> 'x case_reader) list \<Rightarrow> i16 \<Rightarrow> 'x case_reader" where
  "case_of cases fid t d x = (case map_of cases fid of Some f \<Rightarrow> f t d x | None \<Rightarrow> (x, False, skip t d))"

definition value_case :: "(compact_decoder \<Rightarrow> 'v \<times> compact_decoder) \<Rightarrow> (('v \<Rightarrow> 'v) \<Rightarrow> 'x \<Rightarrow> 'x) \<Rightarrow> 'x case_reader" where
  "value_case rd upd t d x = (let (v, d') = rd d in (upd (\<lambda>_. v) x, False, d'))"

fun read_elements :: "(compact_decoder \<Rightarrow> 'v \<Rightarrow> 'v \<times> compact_decoder) \<Rightarrow> compact_decoder \<Rightarrow> 'v list \<Rightarrow> 'v list \<times> compact_decoder" where
  "read_elements rd d [] = ([], d)"
| "read_elements rd d (x # xs) = (let (v, d1) = rd d x; (vs, d2) = read_elements rd d1 xs in (v # vs, d2))"

definition MAX_INDEX_ENTRIES :: nat where "MAX_INDEX_ENTRIES = 10000000"

definition list_case :: "'v \<Rightarrow> (compact_decoder \<Rightarrow> 'v \<Rightarrow> 'v \<times> compact_decoder) \<Rightarrow> ('x \<Rightarrow> 'v list) \<Rightarrow> (('v list \<Rightarrow> 'v list) \<Rightarrow> 'x \<Rightarrow> 'x)
    \<Rightarrow> ('x \<Rightarrow> 'x) \<Rightarrow> 'x case_reader" where
  "list_case v0 rd sel upd invalid t d x =
     (let ((elem_type, count), d1) = read_list_header d in
      if count > MAX_INDEX_ENTRIES then (invalid x, True, d1)
      else let (vs, d2) = read_elements rd d1 (resize count v0 (sel x)) in (upd (\<lambda>_. vs) x, False, d2))"

section \<open>The structures\<close>

record page_location =
  pl_offset :: u64
  pl_compressed_page_size :: u32
  pl_first_row_index :: u64

definition default_PageLocation :: page_location where
  "default_PageLocation = \<lparr>pl_offset = 0, pl_compressed_page_size = 0, pl_first_row_index = 0\<rparr>"

definition serialize_PageLocation :: "page_location \<Rightarrow> writer" where
  "serialize_PageLocation v = write_struct [
     put_field 1 T_I64 (write_i64 (pl_offset v)),
     put_field 2 T_I32 (write_i32 (pl_compressed_page_size v)),
     put_field 3 T_I64 (write_i64 (pl_first_row_index v))]"

definition deserialize_PageLocation :: "compact_decoder \<Rightarrow> page_location \<Rightarrow> page_location \<times> compact_decoder" where
  "deserialize_PageLocation = read_fields (case_of [
     (1, value_case read_i64 pl_offset_update),
     (2, value_case read_i32 pl_compressed_page_size_update),
     (3, value_case read_i64 pl_first_row_index_update)])"

record offset_index =
  oi_valid :: bool
  oi_page_locations :: "page_location list"

definition default_OffsetIndex :: offset_index where
  "default_OffsetIndex = \<lparr>oi_valid = True, oi_page_locations = []\<rparr>"

definition serialize_OffsetIndex :: "offset_index \<Rightarrow> writer" where
  "serialize_OffsetIndex v = write_struct [put_field 1 T_LIST (write_list T_STRUCT serialize_PageLocation (oi_page_locations v))]"

definition deserialize_OffsetIndex :: "compact_decoder \<Rightarrow> offset_index \<Rightarrow> offset_index \<times> compact_decoder" where
  "deserialize_OffsetIndex = read_fields (case_of [
     (1, list_case default_PageLocation deserialize_PageLocation oi_page_locations oi_page_locations_update (\<lambda>x. x\<lparr>oi_valid := False\<rparr>))])"

text \<open>\<^verbatim>\<open>BoundaryOrder\<close> is its code: 0 unordered, 1 ascending, 2 descending.\<close>

record column_index =
  ci_valid :: bool
  ci_null_pages :: "bool list"
  ci_min_values :: "bytes list"
  ci_max_values :: "bytes list"
  ci_boundary_order :: u32
  ci_null_counts :: "u64 list"

definition default_ColumnIndex :: column_index where
  "default_ColumnIndex = \<lparr>ci_valid = True, ci_null_pages = [], ci_min_values = [], ci_max_values = [], ci_boundary_order = 0, ci_null_counts = []\<rparr>"

definition serialize_ColumnIndex :: "column_index \<Rightarrow> writer" where
  "serialize_ColumnIndex v = write_struct [
     put_field 1 T_LIST (write_list T_TRUE write_bool (ci_null_pages v)),
     put_field 2 T_LIST (write_list T_BINARY write_string (ci_min_values v)),
     put_field 3 T_LIST (write_list T_BINARY write_string (ci_max_values v)),
     put_field 4 T_I32 (write_i32 (ci_boundary_order v)),
     opt (if ci_null_counts v = [] then None else Some (ci_null_counts v)) (\<lambda>ns. put_field 5 T_LIST (write_list T_I64 write_i64 ns))]"

definition deserialize_ColumnIndex :: "compact_decoder \<Rightarrow> column_index \<Rightarrow> column_index \<times> compact_decoder" where
  "deserialize_ColumnIndex = (let invalid = (\<lambda>x. x\<lparr>ci_valid := False\<rparr>) in read_fields (case_of [
     (1, list_case False (\<lambda>d _. read_bool d) ci_null_pages ci_null_pages_update invalid),
     (2, list_case [] (\<lambda>d _. read_string d) ci_min_values ci_min_values_update invalid),
     (3, list_case [] (\<lambda>d _. read_string d) ci_max_values ci_max_values_update invalid),
     (4, value_case read_i32 ci_boundary_order_update),
     (5, list_case 0 (\<lambda>d _. read_i64 d) ci_null_counts ci_null_counts_update invalid)]))"

section \<open>The filter\<close>

text \<open>\<^verbatim>\<open>typed_compare(a, b) < 0\<close>: by the type when both values have its size, lexicographic otherwise.\<close>

definition typed_less :: "u32 \<Rightarrow> bytes \<Rightarrow> bytes \<Rightarrow> bool" where
  "typed_less pt a b =
     (if pt = INT32 \<and> length a \<ge> 4 \<and> length b \<ge> 4 then int_less (from_le_bytes 4 a :: u32) (from_le_bytes 4 b)
      else if pt = INT64 \<and> length a \<ge> 8 \<and> length b \<ge> 8 then int_less (from_le_bytes 8 a :: u64) (from_le_bytes 8 b)
      else if pt = FLOAT \<and> length a \<ge> 4 \<and> length b \<ge> 4 then float_less (from_le_bytes 4 a) (from_le_bytes 4 b)
      else if pt = DOUBLE \<and> length a \<ge> 8 \<and> length b \<ge> 8 then double_less (from_le_bytes 8 a) (from_le_bytes 8 b)
      else bytes_less a b)"

definition page_selected :: "column_index \<Rightarrow> bytes \<Rightarrow> bytes \<Rightarrow> u32 \<Rightarrow> nat \<Rightarrow> bool" where
  "page_selected ci min_val max_val pt i \<longleftrightarrow>
     (if i < length (ci_null_pages ci) \<and> ci_null_pages ci ! i then False
      else if i < length (ci_max_values ci) \<and> typed_less pt (ci_max_values ci ! i) min_val then False
      else if i < length (ci_min_values ci) \<and> typed_less pt max_val (ci_min_values ci ! i) then False
      else True)"

definition filter_pages :: "column_index \<Rightarrow> bytes \<Rightarrow> bytes \<Rightarrow> u32 \<Rightarrow> nat list" where
  "filter_pages ci min_val max_val pt = filter (page_selected ci min_val max_val pt) [0..<length (ci_min_values ci)]"

section \<open>The builder\<close>

record page_info =
  pi_min_value :: bytes
  pi_max_value :: bytes
  pi_null_page :: bool
  pi_null_count :: u64
  pi_first_row_index :: u64
  pi_offset :: u64
  pi_compressed_size :: u32

definition default_page_info :: page_info where
  "default_page_info = \<lparr>pi_min_value = [], pi_max_value = [], pi_null_page = False, pi_null_count = 0, pi_first_row_index = 0,
     pi_offset = 0, pi_compressed_size = 0\<rparr>"

type_synonym index_builder = "page_info list"

text \<open>\<^verbatim>\<open>pages_.back()\<close>, when there is one.\<close>

definition on_last :: "('v \<Rightarrow> 'v) \<Rightarrow> 'v list \<Rightarrow> 'v list" where
  "on_last f xs = (if xs = [] then xs else butlast xs @ [f (last xs)])"

definition start_page :: "index_builder \<Rightarrow> index_builder" where "start_page b = b @ [default_page_info]"
definition set_min :: "bytes \<Rightarrow> index_builder \<Rightarrow> index_builder" where "set_min v = on_last (\<lambda>p. p\<lparr>pi_min_value := v\<rparr>)"
definition set_max :: "bytes \<Rightarrow> index_builder \<Rightarrow> index_builder" where "set_max v = on_last (\<lambda>p. p\<lparr>pi_max_value := v\<rparr>)"
definition set_null_page :: "bool \<Rightarrow> index_builder \<Rightarrow> index_builder" where "set_null_page v = on_last (\<lambda>p. p\<lparr>pi_null_page := v\<rparr>)"
definition set_null_count :: "u64 \<Rightarrow> index_builder \<Rightarrow> index_builder" where "set_null_count v = on_last (\<lambda>p. p\<lparr>pi_null_count := v\<rparr>)"
definition set_first_row_index :: "u64 \<Rightarrow> index_builder \<Rightarrow> index_builder" where
  "set_first_row_index v = on_last (\<lambda>p. p\<lparr>pi_first_row_index := v\<rparr>)"
definition set_page_location :: "u64 \<Rightarrow> u32 \<Rightarrow> index_builder \<Rightarrow> index_builder" where
  "set_page_location offset sz = on_last (\<lambda>p. p\<lparr>pi_offset := offset, pi_compressed_size := sz\<rparr>)"

text \<open>The loop of \<^verbatim>\<open>detect_boundary_order\<close>: each value is compared with the one before.\<close>

fun boundary_loop :: "u32 \<Rightarrow> bytes \<Rightarrow> bytes list \<Rightarrow> bool \<Rightarrow> bool \<Rightarrow> bool \<times> bool" where
  "boundary_loop pt prev [] ascending descending = (ascending, descending)"
| "boundary_loop pt prev (v # vs) ascending descending =
     (let ascending' = (if typed_less pt v prev then False else ascending);
          descending' = (if typed_less pt prev v then False else descending)
      in if \<not> ascending' \<and> \<not> descending' then (ascending', descending')
         else boundary_loop pt v vs ascending' descending')"

definition detect_boundary_order :: "bytes list \<Rightarrow> u32 \<Rightarrow> u32" where
  "detect_boundary_order values pt =
     (if length values \<le> 1 then 1
      else case boundary_loop pt (hd values) (tl values) True True of
        (ascending, descending) \<Rightarrow> if ascending then 1 else if descending then 2 else 0)"

definition build_column_index :: "u32 \<Rightarrow> index_builder \<Rightarrow> column_index" where
  "build_column_index pt pages =
     default_ColumnIndex\<lparr>ci_null_pages := map pi_null_page pages, ci_min_values := map pi_min_value pages,
       ci_max_values := map pi_max_value pages, ci_null_counts := map pi_null_count pages,
       ci_boundary_order := detect_boundary_order (map pi_min_value pages) pt\<rparr>"

definition build_offset_index :: "index_builder \<Rightarrow> offset_index" where
  "build_offset_index pages =
     default_OffsetIndex\<lparr>oi_page_locations := map (\<lambda>p. \<lparr>pl_offset = pi_offset p, pl_compressed_page_size = pi_compressed_size p,
       pl_first_row_index = pi_first_row_index p\<rparr>) pages\<rparr>"

text \<open>What the writer tells the builder of a column about the page it has written (\<^verbatim>\<open>flush_row_group\<close>).\<close>

definition feed_page :: "column_statistics \<Rightarrow> nat \<Rightarrow> u64 \<Rightarrow> u32 \<Rightarrow> index_builder \<Rightarrow> index_builder" where
  "feed_page s n offset sz b =
     (let b1 = set_page_location offset sz (set_first_row_index 0 (start_page b));
          b2 = (if cs_has_min_max s then set_max (cs_max_value s) (set_min (cs_min_value s) b1) else b1)
      in set_null_count (of_nat (cs_null_count s)) (set_null_page (cs_null_count s = n) b2))"

section \<open>The lenient reader follows the strict one\<close>

text \<open>Where a reader in the style of the footer's succeeds, the lenient one of the same fields gives the same object.\<close>

definition follows :: "(i16 \<Rightarrow> 'x field_reader) \<Rightarrow> (i16 \<Rightarrow> 'x case_reader) \<Rightarrow> bool" where
  "follows h g \<longleftrightarrow> (\<forall>fid t d x x' d'. h fid t d x = (Inr x', d') \<longrightarrow> g fid t d x = (x', False, d'))"

lemma field_loop_follows:
  "follows h g \<Longrightarrow> struct_loop f h d x = (Inr x', d') \<Longrightarrow> field_loop f g d x = (x', False, d')"
proof (induction f arbitrary: d x)
  case 0
  then show ?case by (simp add: struct_loop.simps)
next
  case (Suc f)
  then show ?case
    by (auto simp: struct_loop.simps field_loop.simps follows_def Let_def split: prod.splits if_splits sum.splits)
qed

lemma read_fields_follows:
  "follows h g \<Longrightarrow> read_struct h d x = (Inr x', d') \<Longrightarrow> read_fields g d x = (x', d')"
  using field_loop_follows[of h g "Suc (remaining (begin_struct d))" "begin_struct d" x]
  by (auto simp: read_struct_def read_fields_def Let_def split: if_splits prod.splits sum.splits)

lemma read_elements_follows:
  assumes "\<And>d x v d'. de d x = (Inr v, d') \<Longrightarrow> rd d x = (v, d')"
  shows "read_each de d xs = (Inr vs, d') \<Longrightarrow> read_elements rd d xs = (vs, d')"
proof (induction xs arbitrary: d vs)
  case (Cons x xs)
  then obtain v d1 ws where "de d x = (Inr v, d1)" "read_each de d1 xs = (Inr ws, d')" "vs = v # ws"
    by (auto split: prod.splits sum.splits)
  then show ?case using assms Cons.IH by simp
qed simp

lemma list_case_follows:
  assumes "\<And>d x v d'. de d x = (Inr v, d') \<Longrightarrow> rd d x = (v, d')" "bound \<le> MAX_INDEX_ENTRIES"
    and "field [T_LIST] (list_of bound v0 de) sel upd t d x = (Inr x', d')"
  shows "list_case v0 rd sel upd invalid t d x = (x', False, d')"
proof -
  obtain h d1 where h: "read_list_header d = (h, d1)" by fastforce
  obtain vs where vs: "read_each de d1 (resize (snd h) v0 (sel x)) = (Inr vs, d')" "\<not> bound < snd h" "x' = upd (\<lambda>_. vs) x"
    using assms(3) h by (auto simp: field_def list_of_def Let_def split: if_splits prod.splits sum.splits)
  have "read_elements rd d1 (resize (snd h) v0 (sel x)) = (vs, d')" by (rule read_elements_follows[OF assms(1) vs(1)])
  then show ?thesis using h vs(2,3) assms(2) by (cases h) (simp add: list_case_def)
qed

lemma value_case_follows:
  "field ts (reader rd) sel upd t d x = (Inr x', d') \<Longrightarrow> value_case rd upd t d x = (x', False, d')"
  by (auto simp: field_def reader_def value_case_def split: if_splits prod.splits)

lemma reader_inr: "reader rd d x = (Inr v, d') \<Longrightarrow> rd d = (v, d')"
  by (auto simp: reader_def split: prod.splits)

definition strict_PageLocation :: "(page_location, page_location) decoder" where
  "strict_PageLocation = read_struct (switch [
     (1, i64_field pl_offset_update), (2, i32_field pl_compressed_page_size_update), (3, i64_field pl_first_row_index_update)])"

lemma page_location_follows: "strict_PageLocation d x = (Inr v, d') \<Longrightarrow> deserialize_PageLocation d x = (v, d')"
  unfolding strict_PageLocation_def deserialize_PageLocation_def
  by (rule read_fields_follows)
    (auto simp: follows_def switch_def case_of_def value_case_follows split: option.splits if_splits)

lemma page_location_sound: "sound 5 (serialize_PageLocation v) strict_PageLocation default_PageLocation v"
  unfolding serialize_PageLocation_def strict_PageLocation_def
  by (rule sound_struct[where C = 0], (rule steps, simp)+, rule step_end, cases v, simp_all add: default_PageLocation_def)

definition strict_OffsetIndex :: "(offset_index, offset_index) decoder" where
  "strict_OffsetIndex = read_struct (switch [
     (1, field [T_LIST] (list_of MAX_COLLECTION_SIZE default_PageLocation strict_PageLocation) oi_page_locations oi_page_locations_update)])"

lemma offset_index_follows: "strict_OffsetIndex d x = (Inr v, d') \<Longrightarrow> deserialize_OffsetIndex d x = (v, d')"
  unfolding strict_OffsetIndex_def deserialize_OffsetIndex_def
  by (rule read_fields_follows)
    (auto simp: follows_def switch_def case_of_def MAX_COLLECTION_SIZE_def MAX_INDEX_ENTRIES_def
      intro!: list_case_follows[where de = strict_PageLocation and bound = 1000000] page_location_follows split: option.splits if_splits)

definition ok_offset_index :: "offset_index \<Rightarrow> bool" where
  "ok_offset_index v \<longleftrightarrow> oi_valid v \<and> length (oi_page_locations v) \<le> MAX_COLLECTION_SIZE"

lemma offset_index_sound: "ok_offset_index v \<Longrightarrow> sound 7 (serialize_OffsetIndex v) strict_OffsetIndex default_OffsetIndex v"
  unfolding serialize_OffsetIndex_def strict_OffsetIndex_def
  by (rule sound_struct[where C = 5], rule list_step, simp, simp add: default_OffsetIndex_def, simp, rule page_location_sound,
      simp add: ok_offset_index_def, simp, simp, rule step_end, cases v, simp_all add: default_OffsetIndex_def ok_offset_index_def)

lemma offset_index_decode:
  assumes "ok_offset_index v"
  shows "\<exists>bs. serialize_OffsetIndex v encoder_new = Some (append_bytes bs encoder_new) \<and>
    (length bs \<le> MAX_TOTAL_FIELDS \<longrightarrow> (\<forall>rest. \<exists>d. deserialize_OffsetIndex (decoder_new (bs @ rest)) default_OffsetIndex = (v, d)
       \<and> dpos d = length bs \<and> good d))"
proof -
  obtain bs where bs: "puts (serialize_OffsetIndex v) bs" "reads 7 strict_OffsetIndex default_OffsetIndex bs v"
    using offset_index_sound[OF assms] by (auto simp: sound_def)
  have "\<exists>d. deserialize_OffsetIndex (decoder_new (bs @ rest)) default_OffsetIndex = (v, d) \<and> dpos d = length bs \<and> good d"
    if "length bs \<le> MAX_TOTAL_FIELDS" for rest
    using reads_new[OF bs(2) _ that, of rest] offset_index_follows by (fastforce simp: MAX_NESTING_DEPTH_def)
  then show ?thesis using bs(1) by (intro exI[where x = bs]) (simp add: puts_def encoder_new_def)
qed

subsection \<open>The list of Booleans\<close>

text \<open>A leading field whose value one handler reads, then fields that the strict loop reads.\<close>

lemma leading_field:
  assumes c: "codes C (switch cs) ws y z" and fol: "follows (switch cs) (case_of cases)" and cas: "map_of cases i = Some g"
    and w: "puts w bl" and t: "unat t < 16" "t \<noteq> 0" "t \<noteq> T_TRUE" "t \<noteq> T_FALSE"
    and g: "\<And>d rest. at d (bl @ rest) \<Longrightarrow> \<not> dbool_valid d \<Longrightarrow> g t d x = (y, False, advance (length bl) d)"
    and lim: "C + length ws + 2 \<le> MAX_NESTING_DEPTH" "0 < C"
  shows "\<exists>bs. write_struct (put_field i t w # ws) encoder_new = Some (append_bytes bs encoder_new) \<and>
    (length bs \<le> MAX_TOTAL_FIELDS \<longrightarrow> (\<forall>rest. \<exists>d. read_fields (case_of cases) (decoder_new (bs @ rest)) x = (z, d)
       \<and> dpos d = length bs \<and> good d))"
proof -
  obtain b2 q where 1: "writes i (run ws) b2 q" "loops C (switch cs) (length ws) i b2 q y z" using c unfolding codes_def by blast
  let ?h = "header_bytes 0 i t"
  let ?bs = "(?h @ bl) @ b2 @ [0]"
  have "writes 0 (run (put_field i t w # ws)) ((?h @ bl) @ b2) q"
    using 1(1) writes_field(1)[OF w, of 0 i t] by (simp add: writes_def)
  from write_struct_puts[OF this] have wr: "write_struct (put_field i t w # ws) encoder_new = Some (append_bytes ?bs encoder_new)"
    by (simp add: puts_def encoder_new_def)
  have "\<exists>d. read_fields (case_of cases) (decoder_new (?bs @ rest)) x = (z, d) \<and> dpos d = length ?bs \<and> good d"
    if len: "length ?bs \<le> MAX_TOTAL_FIELDS" for rest
  proof -
    define D where "D = begin_struct (decoder_new (?bs @ rest))"
    have a: "at D (?h @ bl @ b2 @ 0 # rest)" "dids D = 0 # [0]" "dtotal D = 0" "dcount D = 0" "\<not> dbool_valid D" "dpos D = 0"
      by (simp_all add: D_def begin_struct_def decoder_new_def at_def MAX_NESTING_DEPTH_def)
    let ?e = "enter_field i t (advance (length ?h) D)"
    have r: "read_field_header D = ((i, t), ?e)"
      by (rule read_header_at[OF a(1,2) t(1,2)]) (use a(3,4) in \<open>simp_all add: MAX_FIELD_COUNT_def MAX_TOTAL_FIELDS_def\<close>)
    have e: "at ?e (bl @ b2 @ 0 # rest)" "\<not> dbool_valid ?e"
      using at_advance[OF a(1)] a(5) t(3,4) by (simp, simp add: enter_field_def)
    let ?d2 = "advance (length bl) ?e"
    have d2: "at ?d2 (b2 @ 0 # rest)" using at_advance[OF e(1)] .
    have f2: "dids ?d2 = i # [0]" "dtotal ?d2 = 1" "dcount ?d2 = 1" "dpos ?d2 = length ?h + length bl"
      using a by (simp_all add: enter_field_def advance_def)
    obtain n d' where 2: "n \<le> length b2" "\<forall>f. struct_loop (n + f) (switch cs) ?d2 y = struct_loop f (switch cs) d' z" "at d' (0 # rest)"
        "dids d' = q # [0]" "dpos d' = dpos ?d2 + length b2"
      using 1(2)[unfolded loops_def, rule_format, of ?d2 "0 # rest" "[0]" C] d2 f2 lim len header_bytes_nonempty[of 0 i t]
      by (auto simp: MAX_FIELD_COUNT_def MAX_NESTING_DEPTH_def simp del: header_bytes_nonempty)
    have "0 < length ?h" by simp
    then have "length b2 < remaining D" using at_length[OF a(1)] by (simp add: remaining_def)
    then obtain k where k: "remaining D = n + Suc k" using 2(1) by (metis add_Suc_right less_imp_Suc_add add.assoc le_Suc_ex)
    have "struct_loop (remaining D) (switch cs) ?d2 y = (Inr z, advance 1 d')"
      unfolding k by (subst 2(2)[rule_format]) (simp add: struct_loop.simps(2) stop_at[OF 2(3)] T_STOP_def)
    from field_loop_follows[OF fol this]
    have l: "field_loop (Suc (remaining D)) (case_of cases) D x = (z, False, advance 1 d')"
      using r t(2) g[OF e] cas by (simp add: field_loop.simps(2) T_STOP_def case_of_def)
    have "at (end_struct (advance 1 d')) rest" using at_advance[of d' "[0]" rest] 2(3,4) by (simp add: end_struct_def at_def)
    moreover have "dpos (end_struct (advance 1 d')) = length ?bs" using 2(4,5) f2(4) by (simp add: end_struct_def advance_def)
    moreover have "read_fields (case_of cases) (decoder_new (?bs @ rest)) x = (z, end_struct (advance 1 d'))"
      unfolding read_fields_def Let_def D_def[symmetric] l by simp
    ultimately show ?thesis by (simp add: at_def good_def)
  qed
  then show ?thesis using wr by blast
qed

lemma write_bools: "run (map write_bool bs) e = Some (append_bytes (map (\<lambda>b. if b then 1 else 0) bs) e)"
  by (induction bs arbitrary: e) (simp_all add: write_bool_def)

lemma read_bools_at:
  "at d (map (\<lambda>b. if b then 1 else 0) bs @ rest) \<Longrightarrow> \<not> dbool_valid d \<Longrightarrow>
   read_elements (\<lambda>d _. read_bool d) d (replicate (length bs) x) = (bs, advance (length bs) d)"
proof (induction bs arbitrary: d)
  case (Cons b bs)
  let ?b = "if b then 1 else (0 :: u8)"
  have a: "at d ([?b] @ map (\<lambda>b. if b then 1 else 0) bs @ rest)" using Cons.prems(1) by simp
  have "at (advance 1 d) (map (\<lambda>b. if b then 1 else 0) bs @ rest)" using at_advance[OF a] by simp
  from Cons.IH[OF this] Cons.prems(2)
  have "read_elements (\<lambda>d _. read_bool d) (advance 1 d) (replicate (length bs) x) = (bs, advance (Suc (length bs)) d)" by simp
  moreover have "read_bool d = (b, advance 1 d)"
    using at_ensure1[of d ?b] at_byte[of d ?b] a Cons.prems(2) by (simp add: read_bool_def)
  ultimately show ?case by simp
qed simp

definition ok_column_index :: "column_index \<Rightarrow> bool" where
  "ok_column_index v \<longleftrightarrow> ci_valid v \<and> length (ci_null_pages v) \<le> MAX_COLLECTION_SIZE \<and> length (ci_min_values v) \<le> MAX_COLLECTION_SIZE
     \<and> length (ci_max_values v) \<le> MAX_COLLECTION_SIZE \<and> length (ci_null_counts v) \<le> MAX_COLLECTION_SIZE
     \<and> (\<forall>s \<in> set (ci_min_values v) \<union> set (ci_max_values v). length s \<le> MAX_STRING_BYTES)"

lemma column_index_decode:
  assumes "ok_column_index v"
  shows "\<exists>bs. serialize_ColumnIndex v encoder_new = Some (append_bytes bs encoder_new) \<and>
    (length bs \<le> MAX_TOTAL_FIELDS \<longrightarrow> (\<forall>rest. \<exists>d. deserialize_ColumnIndex (decoder_new (bs @ rest)) default_ColumnIndex = (v, d)
       \<and> dpos d = length bs \<and> good d))"
proof -
  let ?cs = "[
     (1, field [] (reader read_i32) ci_boundary_order ci_boundary_order_update),
     (2, field [T_LIST] (list_of MAX_COLLECTION_SIZE [] (reader read_string)) ci_min_values ci_min_values_update),
     (3, field [T_LIST] (list_of MAX_COLLECTION_SIZE [] (reader read_string)) ci_max_values ci_max_values_update),
     (4, i32_field ci_boundary_order_update),
     (5, field [T_LIST] (list_of MAX_COLLECTION_SIZE 0 (reader read_i64)) ci_null_counts ci_null_counts_update)]
     :: (i16 \<times> column_index field_reader) list"
  let ?inv = "\<lambda>x :: column_index. x\<lparr>ci_valid := False\<rparr>"
  let ?cases = "[
     (1, list_case False (\<lambda>d _. read_bool d) ci_null_pages ci_null_pages_update ?inv),
     (2, list_case [] (\<lambda>d _. read_string d) ci_min_values ci_min_values_update ?inv),
     (3, list_case [] (\<lambda>d _. read_string d) ci_max_values ci_max_values_update ?inv),
     (4, value_case read_i32 ci_boundary_order_update),
     (5, list_case 0 (\<lambda>d _. read_i64 d) ci_null_counts ci_null_counts_update ?inv)]"
  let ?y = "default_ColumnIndex\<lparr>ci_null_pages := ci_null_pages v\<rparr>"
  let ?ws = "[put_field 2 T_LIST (write_list T_BINARY write_string (ci_min_values v)),
     put_field 3 T_LIST (write_list T_BINARY write_string (ci_max_values v)), put_field 4 T_I32 (write_i32 (ci_boundary_order v)),
     opt (if ci_null_counts v = [] then None else Some (ci_null_counts v)) (\<lambda>ns. put_field 5 T_LIST (write_list T_I64 write_i64 ns))]"
  have n: "length (ci_null_pages v) \<le> MAX_COLLECTION_SIZE" using assms by (simp add: ok_column_index_def)
  let ?bl = "list_header_bytes T_TRUE (length (ci_null_pages v)) @ map (\<lambda>b. if b then 1 else 0) (ci_null_pages v)"
  have no_field: "field [] de sel upd t d x \<noteq> (Inr x', d')" for de :: "(u32, u32) decoder" and sel upd t d d' and x x' :: column_index
    by (simp add: field_def)
  note ok = assms[unfolded ok_column_index_def MAX_COLLECTION_SIZE_def]
  have e: "codes 1 (switch ?cs) [opt (if ns = [] then None else Some ns) (\<lambda>ns. put_field 5 T_LIST (write_list T_I64 write_i64 ns))] x (x\<lparr>ci_null_counts := ns\<rparr>)"
    if "ci_null_counts x = []" "length ns \<le> MAX_COLLECTION_SIZE" for ns x
  proof (cases "ns = []")
    case True
    then have "x\<lparr>ci_null_counts := ns\<rparr> = x" using that(1) by (cases x) simp
    then show ?thesis using codec_opt_None[of 1 "switch ?cs" _ x] True by simp
  next
    case False
    show ?thesis
      unfolding opt_def using False
      by simp (rule list_step, simp, simp add: that, simp, rule sound_i64, simp add: that, simp, simp add: wire_types, rule step_end, simp)
  qed
  let ?x = "?y\<lparr>ci_min_values := ci_min_values v, ci_max_values := ci_max_values v, ci_boundary_order := ci_boundary_order v\<rparr>"
  have z: "?x\<lparr>ci_null_counts := ci_null_counts v\<rparr> = v" using ok by (cases v) (simp add: default_ColumnIndex_def)
  have last: "codes 1 (switch ?cs) [opt (if ci_null_counts v = [] then None else Some (ci_null_counts v))
      (\<lambda>ns. put_field 5 T_LIST (write_list T_I64 write_i64 ns))] ?x v"
    using e[of ?x "ci_null_counts v", unfolded z] ok by (simp add: default_ColumnIndex_def MAX_COLLECTION_SIZE_def)
  have c: "codes 1 (switch ?cs) ?ws ?y v"
    by (rule list_step, simp, simp add: default_ColumnIndex_def, simp, rule sound_bytes(1), use ok in blast, use ok in \<open>simp add: MAX_COLLECTION_SIZE_def\<close>,
        simp, simp add: wire_types, rule list_step, simp, simp add: default_ColumnIndex_def, simp, rule sound_bytes(1), use ok in blast,
        use ok in \<open>simp add: MAX_COLLECTION_SIZE_def\<close>, simp, simp add: wire_types, rule steps(2), simp, use last in simp)
  have fol: "follows (switch ?cs) (case_of ?cases)"
    unfolding follows_def switch_def case_of_def
    by (auto simp: MAX_INDEX_ENTRIES_def MAX_COLLECTION_SIZE_def value_case_follows no_field
        intro!: list_case_follows[where de = "reader read_string" and bound = 1000000] list_case_follows[where de = "reader read_i64" and bound = 1000000]
        dest: reader_inr split: option.splits if_splits)
  have "\<exists>bs. write_struct (put_field 1 T_LIST (write_list T_TRUE write_bool (ci_null_pages v)) # ?ws) encoder_new = Some (append_bytes bs encoder_new) \<and>
    (length bs \<le> MAX_TOTAL_FIELDS \<longrightarrow> (\<forall>rest. \<exists>d. read_fields (case_of ?cases) (decoder_new (bs @ rest)) default_ColumnIndex = (v, d)
       \<and> dpos d = length bs \<and> good d))"
  proof (rule leading_field[OF c fol])
    show "puts (write_list T_TRUE write_bool (ci_null_pages v)) ?bl"
      by (simp add: puts_def write_list_def write_list_header_bytes[OF n] write_bools)
    fix d rest assume a: "at d (?bl @ rest)" "\<not> dbool_valid d"
    let ?d = "advance (length (list_header_bytes T_TRUE (length (ci_null_pages v)))) d"
    have h: "read_list_header d = ((T_TRUE, length (ci_null_pages v)), ?d)"
      by (rule read_list_header_at[OF _ _ n]) (use a(1) in \<open>simp_all add: T_TRUE_def\<close>)
    have "at ?d (map (\<lambda>b. if b then 1 else 0) (ci_null_pages v) @ rest)" using at_advance a(1) by simp
    from read_bools_at[OF this, of False] h a(2) n
    show "list_case False (\<lambda>d _. read_bool d) ci_null_pages ci_null_pages_update ?inv T_LIST d default_ColumnIndex = (?y, False, advance (length ?bl) d)"
      by (simp add: list_case_def default_ColumnIndex_def resize_def MAX_COLLECTION_SIZE_def MAX_INDEX_ENTRIES_def)
  qed (simp_all add: wire_types MAX_NESTING_DEPTH_def)
  then show ?thesis unfolding serialize_ColumnIndex_def deserialize_ColumnIndex_def Let_def .
qed


section \<open>Properties\<close>

text \<open>
  Property C5: what \<^verbatim>\<open>ColumnIndex::serialize\<close> and \<^verbatim>\<open>OffsetIndex::serialize\<close> write, \<^verbatim>\<open>deserialize\<close> reads back from
  the front of any input, consuming it exactly, without an error and with the object valid.
\<close>
theorem page_index_roundtrip:
  assumes "ok_column_index ci" "ok_offset_index oi"
  shows "\<exists>bs cs. serialize_ColumnIndex ci encoder_new = Some (append_bytes bs encoder_new)
    \<and> serialize_OffsetIndex oi encoder_new = Some (append_bytes cs encoder_new)
    \<and> (length bs \<le> MAX_TOTAL_FIELDS \<longrightarrow> length cs \<le> MAX_TOTAL_FIELDS \<longrightarrow> (\<forall>rest. \<exists>d d'.
        deserialize_ColumnIndex (decoder_new (bs @ rest)) default_ColumnIndex = (ci, d) \<and> dpos d = length bs \<and> good d
        \<and> deserialize_OffsetIndex (decoder_new (cs @ rest)) default_OffsetIndex = (oi, d') \<and> dpos d' = length cs \<and> good d'))"
  using column_index_decode[OF assms(1)] offset_index_decode[OF assms(2)] by blast

theorem page_index_roundtrip_witness:
  "\<exists>bs cs. serialize_ColumnIndex (default_ColumnIndex\<lparr>ci_null_pages := [True, False], ci_min_values := [[], [1]]\<rparr>) encoder_new
      = Some (append_bytes bs encoder_new)
    \<and> serialize_OffsetIndex (default_OffsetIndex\<lparr>oi_page_locations := [default_PageLocation]\<rparr>) encoder_new = Some (append_bytes cs encoder_new)"
  using page_index_roundtrip[of "default_ColumnIndex\<lparr>ci_null_pages := [True, False], ci_min_values := [[], [1]]\<rparr>"
      "default_OffsetIndex\<lparr>oi_page_locations := [default_PageLocation]\<rparr>"]
  by (fastforce simp: ok_column_index_def ok_offset_index_def default_ColumnIndex_def default_OffsetIndex_def MAX_COLLECTION_SIZE_def MAX_STRING_BYTES_def)

subsection \<open>The order of the boundaries\<close>

definition steps_up :: "u32 \<Rightarrow> bytes list \<Rightarrow> bool" where
  "steps_up pt = successively (\<lambda>a b. \<not> typed_less pt b a)"

definition steps_down :: "u32 \<Rightarrow> bytes list \<Rightarrow> bool" where
  "steps_down pt = successively (\<lambda>a b. \<not> typed_less pt a b)"

lemma boundary_loop_spec:
  "boundary_loop pt prev vs a b = (a', b') \<Longrightarrow> (a \<or> b) \<Longrightarrow>
   (a' \<longleftrightarrow> a \<and> steps_up pt (prev # vs)) \<and> (b' \<longleftrightarrow> b \<and> steps_down pt (prev # vs)) \<or> (\<not> a' \<and> \<not> b' \<and> \<not> (a \<and> steps_up pt (prev # vs)) \<and> \<not> (b \<and> steps_down pt (prev # vs)))"
proof (induction vs arbitrary: prev a b)
  case (Cons v vs)
  show ?case
  proof (cases "(if typed_less pt v prev then False else a) \<or> (if typed_less pt prev v then False else b)")
    case True
    then show ?thesis using Cons.IH[OF _ True] Cons.prems by (auto simp: Let_def steps_up_def steps_down_def split: if_splits)
  next
    case False
    then show ?thesis using Cons.prems by (auto simp: steps_up_def steps_down_def split: if_splits)
  qed
qed (auto simp: steps_up_def steps_down_def)

text \<open>
  The boundary order the builder records is ascending exactly when no minimum is below the one before it
  in the order of the type, descending exactly when there are two that are not ascending and no minimum is above the one before it, and
  otherwise unordered.
\<close>
theorem boundary_order_correct:
  "detect_boundary_order vs pt = (if steps_up pt vs then 1 else if steps_down pt vs then 2 else 0)"
proof (cases vs)
  case (Cons v ws)
  then show ?thesis
    using boundary_loop_spec[of pt v ws True True]
    by (cases ws; cases "boundary_loop pt v ws True True") (auto simp: detect_boundary_order_def steps_up_def steps_down_def)
qed (simp add: detect_boundary_order_def steps_up_def)

subsection \<open>No page that matters is left out\<close>

lemma typed_less_value:
  assumes "of_type t a" "of_type t b"
  shows "typed_less (parquet_type_of t) (value_bytes a) (value_bytes b) \<longleftrightarrow> value_less a b"
proof (cases t)
  case CBool
  then obtain p q where "a = VBool p" "b = VBool q" using assms by (auto simp: of_type_iff)
  then show ?thesis using CBool by (cases p; cases q) (simp_all add: typed_less_def physical_types bool_byte)
qed (use assms in \<open>auto simp: of_type_iff typed_less_def physical_types\<close>)

definition page_of :: "column_statistics \<Rightarrow> nat \<Rightarrow> u64 \<Rightarrow> u32 \<Rightarrow> page_info" where
  "page_of s n off sz =
     \<lparr>pi_min_value = (if cs_has_min_max s then cs_min_value s else []), pi_max_value = (if cs_has_min_max s then cs_max_value s else []),
       pi_null_page = (cs_null_count s = n), pi_null_count = of_nat (cs_null_count s), pi_first_row_index = 0, pi_offset = off,
       pi_compressed_size = sz\<rparr>"

lemma feed_page_appends: "feed_page s n off sz = (\<lambda>b. b @ [page_of s n off sz])"
  by (rule ext) (simp add: feed_page_def start_page_def set_min_def set_max_def set_null_page_def set_null_count_def set_first_row_index_def
      set_page_location_def on_last_def page_of_def default_page_info_def Let_def)

lemma fold_appends: "fold (\<lambda>p b. b @ [f p]) ps b = b @ map f ps"
  by (induction ps arbitrary: b) simp_all

lemma null_count_update: "cs_null_count (statistics_update v s) = cs_null_count s"
  by (cases v) (simp_all add: count_value_def update_numeric_def update_string_def Let_def)

lemma null_count_fold: "cs_null_count (fold statistics_update vs s) = cs_null_count s"
  by (induction vs arbitrary: s) (simp_all add: null_count_update)

text \<open>
  Property C4: a column index built from the statistics of the pages of a column never makes \<^verbatim>\<open>filter_pages\<close> drop a page
  in which some value (that is not NaN) lies between the two bounds of the query.
\<close>
theorem page_filter_safe:
  assumes "i < length pages" "pages ! i = (vs, off, sz)" "\<forall>v \<in> set vs. ctype_of v = t"
    and "v \<in> set vs" "counted v" "of_type t lo" "of_type t hi" "\<not> value_less v lo" "\<not> value_less hi v"
  shows "i \<in> set (filter_pages (build_column_index (parquet_type_of t)
      (fold (\<lambda>(vs, off, sz). feed_page (fold statistics_update vs statistics_new) (length vs) off sz) pages []))
      (value_bytes lo) (value_bytes hi) (parquet_type_of t))"
proof -
  let ?s = "fold statistics_update vs statistics_new"
  let ?page = "\<lambda>(vs, off, sz). page_of (fold statistics_update vs statistics_new) (length vs) off sz"
  have built: "fold (\<lambda>(vs, off, sz). feed_page (fold statistics_update vs statistics_new) (length vs) off sz) pages [] = map ?page pages"
    unfolding feed_page_appends using fold_appends[of ?page pages "[]"] by (simp add: case_prod_unfold)
  have v: "of_type t v" "v \<in> set (filter counted vs)" using assms(3-5) by (auto simp: of_type_def)
  obtain a b where a: "of_type t a" "cs_min_value ?s = value_bytes a" "\<not> value_less v a"
    and b: "of_type t b" "cs_max_value ?s = value_bytes b" "\<not> value_less b v" and h: "cs_has_min_max ?s"
  proof -
    have "column_values.bounds (filter counted vs) ?s" using fold_bounds[OF assms(3)] by blast
    moreover have "filter counted vs \<noteq> []" using v(2) by (metis empty_iff list.set(1))
    moreover have "of_type t w" if "w \<in> set (filter counted vs)" for w using that assms(3) by (simp add: of_type_def)
    ultimately show ?thesis using v(2) that unfolding column_values.bounds_def by blast
  qed
  have "\<not> value_less b lo" "\<not> value_less hi a"
    using column_values.not_less_trans[OF assms(6) v(1) b(1)] column_values.not_less_trans[OF a(1) v(1) assms(7)] a(3) b(3) assms(8,9) by blast+
  then have "\<not> typed_less (parquet_type_of t) (value_bytes b) (value_bytes lo)" "\<not> typed_less (parquet_type_of t) (value_bytes hi) (value_bytes a)"
    using a(1) b(1) assms(6,7) by (simp_all add: typed_less_value)
  moreover have "cs_null_count ?s \<noteq> length vs" using assms(4) by (auto simp: null_count_fold statistics_new_def)
  ultimately show ?thesis
    using assms(1,2) h a(2) b(2) unfolding built
    by (simp add: filter_pages_def page_selected_def build_column_index_def default_ColumnIndex_def page_of_def)
qed

theorem page_filter_safe_witness:
  "1 \<in> set (filter_pages (build_column_index INT32 (fold (\<lambda>(vs, off, sz). feed_page (fold statistics_update vs statistics_new) (length vs) off sz)
      [([VInt32 1, VInt32 2], 4, 30), ([VInt32 7, VInt32 (- 3)], 34, 30)] [])) (value_bytes (VInt32 5)) (value_bytes (VInt32 9)) INT32)"
  using page_filter_safe[of 1 "[([VInt32 1, VInt32 2], 4, 30), ([VInt32 7, VInt32 (- 3)], 34, 30)]" "[VInt32 7, VInt32 (- 3)]" 34 30 CInt32 "VInt32 7"
      "VInt32 5" "VInt32 9"]
  by (simp add: of_type_def int_less_def)

end
