(* ===== verification/FileWriter.thy ===== *)
theory FileWriter
  imports PageIndex PlainPage Delta Rle Snappy Bloom Crc32 Footer Decimal "HOL-Library.Extended_Nat"
begin

text \<open>
  \<^verbatim>\<open>ParquetWriter\<close> of \<^verbatim>\<open>include/signet/writer.hpp\<close>, in the build without the commercial tier: options,
  the row and the column interface, the choice of an encoding, data and dictionary pages, Bloom filters and page
  indexes, row groups and the footer.  The stream buffers: \<^verbatim>\<open>write_raw\<close> throws when a write is seen to fail,
  but bytes that were taken may still be lost when the stream is flushed and closed, which nobody looks at.
\<close>

section \<open>Outcomes\<close>

text \<open>An operation returns, returns an \<^verbatim>\<open>Error\<close>, or throws; the object keeps the state it was left in.\<close>

datatype 'a outcome = Returned 'a | Failed error_code | Thrown

type_synonym ('a, 's) step = "'s \<Rightarrow> 'a outcome \<times> 's"

definition ret :: "'a \<Rightarrow> ('a, 's) step" where "ret v s = (Returned v, s)"

fun after :: "'a outcome \<times> 's \<Rightarrow> ('a \<Rightarrow> ('b, 's) step) \<Rightarrow> 'b outcome \<times> 's" where
  "after (Returned v, s) f = f v s"
| "after (Failed e, s) f = (Failed e, s)"
| "after (Thrown, s) f = (Thrown, s)"

fun of_expected :: "'a expected \<Rightarrow> ('a, 's) step" where
  "of_expected (Inl e) s = (Failed e, s)"
| "of_expected (Inr v) s = (Returned v, s)"

section \<open>What lies outside\<close>

text \<open>
  The codecs registered beside Snappy, the floating-point functions of the standard library on texts and
  bit patterns, the number of bytes a Bloom filter needs for a number of values and a false-positive rate
  (\<^verbatim>\<open>ceil(-8 n / log(1 - pow(fpr, 1/8)))\<close>), and the order in which an \<^verbatim>\<open>unordered_set\<close> lists the two
  encodings of a dictionary column.
\<close>

record environment =
  en_registry :: registry
  en_parse_double :: "bytes \<Rightarrow> u64"
  en_parse_float :: "bytes \<Rightarrow> u32"
  en_is_double :: "bytes \<Rightarrow> bool"
  en_double_to_int32 :: "u64 \<Rightarrow> u32"
  en_double_to_int64 :: "u64 \<Rightarrow> u64"
  en_bloom_bytes :: "nat \<Rightarrow> u64 \<Rightarrow> nat"
  en_plain_first :: bool

definition snappy_codec :: codec where
  "snappy_codec = \<lparr>codec_compress = snappy_compress, codec_decompress = snappy_decompress\<rparr>"

definition register_snappy_codec :: "registry \<Rightarrow> registry" where
  "register_snappy_codec r = register_codec r (Some (SNAPPY, snappy_codec))"

text \<open>\<^verbatim>\<open>Compression\<close> as its code.\<close>

fun compression_code :: "compression \<Rightarrow> u32" where
  "compression_code UNCOMPRESSED = 0"
| "compression_code SNAPPY = 1"
| "compression_code GZIP = 2"
| "compression_code LZO = 3"
| "compression_code BROTLI = 4"
| "compression_code LZ4 = 5"
| "compression_code ZSTD = 6"
| "compression_code LZ4_RAW = 7"

section \<open>Options and state\<close>

record writer_options =
  wo_row_group_size :: int
  wo_created_by :: bytes
  wo_file_metadata :: "key_value list"
  wo_default_encoding :: u32
  wo_compression :: compression
  wo_column_encodings :: "(bytes \<times> u32) list"
  wo_auto_encoding :: bool
  wo_auto_compression :: bool
  wo_enable_page_index :: bool
  wo_enable_bloom_filter :: bool
  wo_bloom_filter_fpr :: u64
  wo_bloom_filter_columns :: "bytes list"

definition default_options :: "bytes \<Rightarrow> writer_options" where
  "default_options created_by = \<lparr>wo_row_group_size = 64 * 1024, wo_created_by = created_by, wo_file_metadata = [], wo_default_encoding = PLAIN,
     wo_compression = UNCOMPRESSED, wo_column_encodings = [], wo_auto_encoding = False, wo_auto_compression = False,
     wo_enable_page_index = False, wo_enable_bloom_filter = False, wo_bloom_filter_fpr = 0x3F847AE147AE147B, wo_bloom_filter_columns = []\<rparr>"

text \<open>
  A \<^verbatim>\<open>std::ofstream\<close> on a disk: how many bytes it will still take before a write is seen to fail (\<open>None\<close> once it is
  bad), and how many of all bytes it has taken reach the disk when it is flushed and closed.  Buffering makes the two
  independent.  \<open>\<infinity>\<close> stands for a disk that never fills.
\<close>

record disk =
  dk_takes :: "enat option"
  dk_keeps :: enat

definition ample :: disk where "ample = \<lparr>dk_takes = Some \<infinity>, dk_keeps = \<infinity>\<rparr>"

definition kept_part :: "enat \<Rightarrow> bytes \<Rightarrow> bytes" where
  "kept_part n bs = (case n of enat k \<Rightarrow> take k bs | \<infinity> \<Rightarrow> bs)"

text \<open>\<open>pw_file\<close> is what the stream has taken, in the order it was written.\<close>

record parquet_writer =
  pw_schema :: schema
  pw_options :: writer_options
  pw_file :: bytes
  pw_room :: disk
  pw_file_offset :: nat
  pw_col_writers :: "column_writer list"
  pw_col_row_counts :: "nat list"
  pw_pending_rows :: "bytes list list"
  pw_row_groups :: "row_group list"
  pw_total_rows :: nat
  pw_open :: bool
  pw_bloom_filters :: "bytes option list"
  pw_index_builders :: "index_builder list"

definition PARQUET_MAGIC :: u32 where "PARQUET_MAGIC = 0x31524150"
definition PARQUET_MAGIC_ENCRYPTED :: u32 where "PARQUET_MAGIC_ENCRYPTED = 0x45524150"

definition write_raw :: "bytes \<Rightarrow> (unit, parquet_writer) step" where
  "write_raw data w =
     (case dk_takes (pw_room w) of
        None \<Rightarrow> (Thrown, w)
      | Some n \<Rightarrow> if enat (length data) > n then (Thrown, w\<lparr>pw_file := pw_file w @ data, pw_room := (pw_room w)\<lparr>dk_takes := None\<rparr>\<rparr>)
                  else (Returned (), w\<lparr>pw_file := pw_file w @ data, pw_room := (pw_room w)\<lparr>dk_takes := Some (n - enat (length data))\<rparr>,
                          pw_file_offset := pw_file_offset w + length data\<rparr>))"

text \<open>The file that is on the disk once the stream is closed.\<close>

definition on_disk :: "parquet_writer \<Rightarrow> bytes" where "on_disk w = kept_part (dk_keeps (pw_room w)) (pw_file w)"

definition write_raw_le32 :: "u32 \<Rightarrow> (unit, parquet_writer) step" where
  "write_raw_le32 val = write_raw [ucast (val AND 0xFF), ucast (drop_bit 8 val AND 0xFF), ucast (drop_bit 16 val AND 0xFF),
     ucast (drop_bit 24 val AND 0xFF)]"

definition init_column_writers :: "schema \<Rightarrow> column_writer list" where
  "init_column_writers s = map (\<lambda>cd. column_writer_new (cd_physical_type cd) (cd_type_length cd)) (sc_columns s)"

text \<open>\<^verbatim>\<open>ParquetWriter::open\<close>; \<open>opened\<close> is what the file system answers, \<open>room\<close> the disk.\<close>

definition fresh_writer :: "schema \<Rightarrow> writer_options \<Rightarrow> disk \<Rightarrow> parquet_writer" where
  "fresh_writer s opts room = \<lparr>pw_schema = s, pw_options = opts, pw_file = [], pw_room = room, pw_file_offset = 0, pw_col_writers = [],
     pw_col_row_counts = [], pw_pending_rows = [], pw_row_groups = [], pw_total_rows = 0, pw_open = False, pw_bloom_filters = [],
     pw_index_builders = []\<rparr>"

definition writer_open :: "bool \<Rightarrow> disk \<Rightarrow> schema \<Rightarrow> writer_options \<Rightarrow> unit outcome \<times> parquet_writer" where
  "writer_open opened room s opts =
     (let w = fresh_writer s opts room in
      if \<not> opened then (Failed IO_ERROR, w)
      else after (write_raw_le32 PARQUET_MAGIC w) (\<lambda>_ w1.
        ret () (w1\<lparr>pw_file_offset := 4, pw_col_writers := init_column_writers s, pw_col_row_counts := replicate (num_columns s) 0,
          pw_bloom_filters := (if wo_enable_bloom_filter opts then replicate (num_columns s) None else []),
          pw_index_builders := (if wo_enable_page_index opts then replicate (num_columns s) [] else []),
          pw_open := True\<rparr>)))"

section \<open>Bloom filters\<close>

text \<open>The constructor of the filter; \<open>None\<close> is \<^verbatim>\<open>std::invalid_argument\<close>.  The rate is the bit pattern of a \<^verbatim>\<open>double\<close>.\<close>

definition bloom_new :: "(nat \<Rightarrow> u64 \<Rightarrow> nat) \<Rightarrow> nat \<Rightarrow> u64 \<Rightarrow> bytes option" where
  "bloom_new raw n fpr =
     (let le = (\<lambda>x y. \<not> double_nan x \<and> \<not> double_nan y \<and> double_key x \<le> double_key y);
          n' = (if n = 0 then 1 else n)
      in if le fpr 0 \<or> le 0x3FF0000000000000 fpr then None
         else Some (replicate (min (max (round_up_to_block (raw n' fpr)) kBytesPerBlock) kMaxBytes) 0))"

text \<open>\<^verbatim>\<open>insert_value\<close>, a Boolean as an \<^verbatim>\<open>int32_t\<close>.\<close>

fun bloom_insert_value :: "bytes \<Rightarrow> cvalue \<Rightarrow> bytes" where
  "bloom_insert_value f (VBool b) = insert_int32 f (if b then 1 else 0)"
| "bloom_insert_value f (VInt32 v) = insert_int32 f v"
| "bloom_insert_value f (VInt64 v) = insert_int64 f v"
| "bloom_insert_value f (VFloat v) = insert_int32 f v"
| "bloom_insert_value f (VDouble v) = insert_int64 f v"
| "bloom_insert_value f (VString s) = insert_string f s"

definition bloom_ensure_filter :: "environment \<Rightarrow> nat \<Rightarrow> (bool, parquet_writer) step" where
  "bloom_ensure_filter env c w =
     (if pw_bloom_filters w = [] then ret False w
      else if pw_bloom_filters w ! c \<noteq> None then ret True w
      else let opts = pw_options w; cols = wo_bloom_filter_columns opts
           in if cols \<noteq> [] \<and> cd_name (sc_columns (pw_schema w) ! c) \<notin> set cols then ret False w
              else case bloom_new (en_bloom_bytes env) (nat (max 1 (wo_row_group_size opts))) (wo_bloom_filter_fpr opts) of
                  None \<Rightarrow> (Thrown, w)
                | Some f \<Rightarrow> ret True (w\<lparr>pw_bloom_filters := (pw_bloom_filters w)[c := Some f]\<rparr>))"

definition bloom_add :: "nat \<Rightarrow> cvalue \<Rightarrow> parquet_writer \<Rightarrow> parquet_writer" where
  "bloom_add c v w = w\<lparr>pw_bloom_filters := (pw_bloom_filters w)[c := map_option (\<lambda>f. bloom_insert_value f v) (pw_bloom_filters w ! c)]\<rparr>"

definition bloom_insert_typed :: "environment \<Rightarrow> nat \<Rightarrow> cvalue list \<Rightarrow> (unit, parquet_writer) step" where
  "bloom_insert_typed env c vs w =
     after (bloom_ensure_filter env c w) (\<lambda>active w1. ret () (if active then fold (bloom_add c) vs w1 else w1))"

section \<open>The column interface\<close>

text \<open>The values before one whose writer throws stay in the column.\<close>

fun write_all :: "('v \<Rightarrow> column_writer \<Rightarrow> column_writer option) \<Rightarrow> 'v list \<Rightarrow> column_writer \<Rightarrow> bool \<times> column_writer" where
  "write_all f [] cw = (True, cw)"
| "write_all f (v # vs) cw = (case f v cw of None \<Rightarrow> (False, cw) | Some cw' \<Rightarrow> write_all f vs cw')"

definition set_column :: "nat \<Rightarrow> column_writer \<Rightarrow> parquet_writer \<Rightarrow> parquet_writer" where
  "set_column c cw w = w\<lparr>pw_col_writers := (pw_col_writers w)[c := cw]\<rparr>"

text \<open>The end of both \<^verbatim>\<open>write_column\<close>s: the row count and the Bloom filter.\<close>

definition finish_column :: "environment \<Rightarrow> nat \<Rightarrow> cvalue list \<Rightarrow> bool \<times> column_writer \<Rightarrow> (unit, parquet_writer) step" where
  "finish_column env c vs r w =
     (case r of
        (False, cw) \<Rightarrow> (Thrown, set_column c cw w)
      | (True, cw) \<Rightarrow>
          let w1 = (set_column c cw w)\<lparr>pw_col_row_counts := (pw_col_row_counts w)[c := cw_num_values cw]\<rparr>
          in if pw_bloom_filters w1 \<noteq> [] then bloom_insert_typed env c vs w1 else ret () w1)"

text \<open>The template \<^verbatim>\<open>write_column<T>\<close> and the overload for strings.\<close>

definition write_column_typed :: "environment \<Rightarrow> nat \<Rightarrow> ctype \<Rightarrow> cvalue list \<Rightarrow> (unit, parquet_writer) step" where
  "write_column_typed env c t vs w =
     (if \<not> pw_open w then (Failed IO_ERROR, w)
      else if c \<ge> num_columns (pw_schema w) then (Failed OUT_OF_RANGE, w)
      else if parquet_type_of t \<noteq> cd_physical_type (sc_columns (pw_schema w) ! c) then (Failed INVALID_ARGUMENT, w)
      else finish_column env c vs (write_all write_value vs (pw_col_writers w ! c)) w)"

definition write_column_strings :: "environment \<Rightarrow> nat \<Rightarrow> bytes list \<Rightarrow> (unit, parquet_writer) step" where
  "write_column_strings env c vs w =
     (if \<not> pw_open w then (Failed IO_ERROR, w)
      else if c \<ge> num_columns (pw_schema w) then (Failed OUT_OF_RANGE, w)
      else let pt = cd_physical_type (sc_columns (pw_schema w) ! c)
           in if pt \<noteq> BYTE_ARRAY \<and> pt \<noteq> FIXED_LEN_BYTE_ARRAY then (Failed INVALID_ARGUMENT, w)
              else finish_column env c (map VString vs)
                (if pt = FIXED_LEN_BYTE_ARRAY then write_all write_fixed_len_byte_array vs (pw_col_writers w ! c)
                 else write_all write_value (map VString vs) (pw_col_writers w ! c)) w)"

definition write_column :: "environment \<Rightarrow> nat \<Rightarrow> ctype \<Rightarrow> cvalue list \<Rightarrow> (unit, parquet_writer) step" where
  "write_column env c t vs =
     (if t = CString then write_column_strings env c (map (\<lambda>v. case v of VString s \<Rightarrow> s | _ \<Rightarrow> []) vs)
      else write_column_typed env c t vs)"

section \<open>Pending rows\<close>

text \<open>\<^verbatim>\<open>std::from_chars\<close> of a signed integer: the value and the rest of the text, or an error.\<close>

definition ascii_digit :: "u8 \<Rightarrow> bool" where "ascii_digit b \<longleftrightarrow> 48 \<le> b \<and> b \<le> 57"

definition from_chars :: "nat \<Rightarrow> bytes \<Rightarrow> (int \<times> bytes) option" where
  "from_chars width s =
     (let neg = (s \<noteq> [] \<and> hd s = 45);
          t = (if neg then tl s else s);
          ds = takeWhile ascii_digit t;
          n = foldl (\<lambda>a d. 10 * a + (unat d - 48)) 0 ds;
          v = (if neg then - int n else int n)
      in if ds = [] \<or> v < - (2 ^ (width - 1)) \<or> v \<ge> 2 ^ (width - 1) then None else Some (v, dropWhile ascii_digit t))"

text \<open>The texts \<^verbatim>\<open>true\<close>, \<^verbatim>\<open>TRUE\<close>, \<^verbatim>\<open>True\<close>, \<^verbatim>\<open>1\<close> and their opposites.\<close>

definition true_texts :: "bytes list" where
  "true_texts = [[116, 114, 117, 101], [84, 82, 85, 69], [84, 114, 117, 101], [49]]"

definition false_texts :: "bytes list" where
  "false_texts = [[102, 97, 108, 115, 101], [70, 65, 76, 83, 69], [70, 97, 108, 115, 101], [48]]"

text \<open>The value of a cell, by the type of its column; a text is the value for every other type.\<close>

definition cell_value :: "environment \<Rightarrow> u32 \<Rightarrow> bytes \<Rightarrow> cvalue" where
  "cell_value env pt val =
     (if pt = BOOLEAN then VBool (val \<in> set true_texts)
      else if pt = INT32 then VInt32 (case from_chars 32 val of Some (v, _) \<Rightarrow> word_of_int v | None \<Rightarrow> en_double_to_int32 env (en_parse_double env val))
      else if pt = INT64 then VInt64 (case from_chars 64 val of Some (v, _) \<Rightarrow> word_of_int v | None \<Rightarrow> en_double_to_int64 env (en_parse_double env val))
      else if pt = FLOAT then VFloat (en_parse_float env val)
      else if pt = DOUBLE then VDouble (en_parse_double env val)
      else VString val)"

definition encode_cell :: "environment \<Rightarrow> nat \<Rightarrow> bool \<Rightarrow> bytes \<Rightarrow> (unit, parquet_writer) step" where
  "encode_cell env c bf_active val w =
     (let cd = sc_columns (pw_schema w) ! c; pt = cd_physical_type cd; cw = pw_col_writers w ! c; v = cell_value env pt val
      in if pt = FIXED_LEN_BYTE_ARRAY \<and> sint (cd_type_length cd) > 0 \<and> int (length val) \<noteq> sint (cd_type_length cd)
         then (Failed SCHEMA_MISMATCH, w)
         else case (if pt = FIXED_LEN_BYTE_ARRAY then write_fixed_len_byte_array val cw else write_value v cw) of
             None \<Rightarrow> (Thrown, w)
           | Some cw' \<Rightarrow> let w1 = set_column c cw' w in ret () (if bf_active then bloom_add c v w1 else w1))"

fun encode_cells :: "environment \<Rightarrow> nat \<Rightarrow> bool \<Rightarrow> bytes list list \<Rightarrow> (unit, parquet_writer) step" where
  "encode_cells env c bf_active [] w = ret () w"
| "encode_cells env c bf_active (row # rows) w =
     after (encode_cell env c bf_active (row ! c) w) (\<lambda>_. encode_cells env c bf_active rows)"

fun encode_columns :: "environment \<Rightarrow> nat list \<Rightarrow> (unit, parquet_writer) step" where
  "encode_columns env [] w = ret () w"
| "encode_columns env (c # cs) w =
     after (bloom_ensure_filter env c w) (\<lambda>bf_active w1.
       after (encode_cells env c bf_active (pw_pending_rows w1) w1) (\<lambda>_. encode_columns env cs))"

definition encode_pending_rows :: "environment \<Rightarrow> (unit, parquet_writer) step" where
  "encode_pending_rows env w =
     after (encode_columns env [0..<num_columns (pw_schema w)] w) (\<lambda>_ w1. ret () (w1\<lparr>pw_pending_rows := []\<rparr>))"

section \<open>Encodings\<close>

text \<open>The ratio test of a \<^verbatim>\<open>BYTE_ARRAY\<close> column, \<^verbatim>\<open>distinct / values < 0.40\<close>, is exact for counts below \<open>2^50\<close>.\<close>

definition choose_encoding :: "writer_options \<Rightarrow> column_descriptor \<Rightarrow> column_writer \<Rightarrow> u32" where
  "choose_encoding opts cd cw =
     (let pt = cd_physical_type cd in
      case map_of (wo_column_encodings opts) (cd_name cd) of
        Some e \<Rightarrow> e
      | None \<Rightarrow>
          if wo_auto_encoding opts then
            if pt = INT32 \<or> pt = INT64 then DELTA_BINARY_PACKED
            else if pt = FLOAT \<or> pt = DOUBLE then BYTE_STREAM_SPLIT
            else if pt = BYTE_ARRAY then
              (case cs_distinct_count (cw_stats cw) of
                 Some d \<Rightarrow> if cw_num_values cw > 0 \<and> 5 * d < 2 * cw_num_values cw then RLE_DICTIONARY else PLAIN
               | None \<Rightarrow> PLAIN)
            else if pt = BOOLEAN then RLE
            else PLAIN
          else wo_default_encoding opts)"

text \<open>The values of a fixed width, and the bits, in the PLAIN buffer.\<close>

definition extract_values :: "nat \<Rightarrow> column_writer \<Rightarrow> 'a::len word list" where
  "extract_values n cw = from_raw n (cw_num_values cw) (cw_buf cw)"

definition extract_bools :: "column_writer \<Rightarrow> u32 list" where
  "extract_bools cw = map (\<lambda>i. ucast (drop_bit (i mod 8) (cw_buf cw ! (i div 8)) AND 1)) [0..<cw_num_values cw]"

definition encode_column_data :: "column_writer \<Rightarrow> u32 \<Rightarrow> u32 \<Rightarrow> bytes" where
  "encode_column_data cw encoding pt =
     (if encoding = DELTA_BINARY_PACKED then
        if pt = INT32 then encode_int32 (extract_values 4 cw)
        else if pt = INT64 then encode_int64 (extract_values 8 cw)
        else cw_buf cw
      else if encoding = BYTE_STREAM_SPLIT then
        if pt = FLOAT then encode_float (extract_values 4 cw)
        else if pt = DOUBLE then encode_double (extract_values 8 cw)
        else cw_buf cw
      else if encoding = RLE then
        if pt = BOOLEAN then encode_with_length (extract_bools cw) 1 else cw_buf cw
      else cw_buf cw)"

text \<open>The loop of \<^verbatim>\<open>extract_byte_array_strings\<close> over what is left of the buffer.\<close>

fun extract_strings :: "nat \<Rightarrow> bytes \<Rightarrow> bytes list" where
  "extract_strings 0 buf = []"
| "extract_strings (Suc n) buf =
     (if length buf < 4 then []
      else let len = unat (of_le (take 4 buf) :: u32)
           in if len > length buf - 4 then []
              else take len (drop 4 buf) # extract_strings n (drop (4 + len) buf))"

definition extract_byte_array_strings :: "column_writer \<Rightarrow> bytes list" where
  "extract_byte_array_strings cw = extract_strings (cw_num_values cw) (cw_buf cw)"

section \<open>Pages\<close>

text \<open>A serialised page header; \<open>None\<close> when the encoder throws.\<close>

definition header_of :: "page_header \<Rightarrow> bytes option" where
  "header_of ph = map_option ebuf (serialize_PageHeader ph encoder_new)"

definition page_crc32 :: "bytes \<Rightarrow> u32" where
  "page_crc32 data = foldl (\<lambda>crc b. crc_table ! unat ((crc XOR ucast b) AND 0xFF) XOR drop_bit 8 crc) 0xFFFFFFFF data XOR 0xFFFFFFFF"

definition compress_page :: "registry \<Rightarrow> compression \<Rightarrow> bytes \<Rightarrow> bytes expected" where
  "compress_page r codec data = (if codec \<noteq> UNCOMPRESSED then compress r codec data else Inr data)"

definition data_page_header_for :: "bytes \<Rightarrow> bytes \<Rightarrow> nat \<Rightarrow> u32 \<Rightarrow> page_header" where
  "data_page_header_for plain packed n encoding =
     default_PageHeader\<lparr>pg_type := DATA_PAGE, pg_uncompressed_page_size := of_nat (length plain), pg_compressed_page_size := of_nat (length packed),
       pg_crc := Some (page_crc32 packed),
       pg_data_page_header := Some (default_DataPageHeader\<lparr>ph_num_values := of_nat n, ph_encoding := encoding,
         ph_definition_level_encoding := RLE, ph_repetition_level_encoding := RLE\<rparr>)\<rparr>"

definition dictionary_page_header_for :: "bytes \<Rightarrow> bytes \<Rightarrow> nat \<Rightarrow> page_header" where
  "dictionary_page_header_for plain packed n =
     default_PageHeader\<lparr>pg_type := DICTIONARY_PAGE, pg_uncompressed_page_size := of_nat (length plain),
       pg_compressed_page_size := of_nat (length packed), pg_crc := Some (page_crc32 packed),
       pg_dictionary_page_header := Some (default_DictionaryPageHeader\<lparr>di_num_values := of_nat n, di_encoding := PLAIN_DICTIONARY\<rparr>)\<rparr>"

text \<open>A header and its page; the result is the offset of the header and its length.\<close>

definition write_page :: "page_header \<Rightarrow> bytes \<Rightarrow> (nat \<times> nat, parquet_writer) step" where
  "write_page ph data w =
     (case header_of ph of
        None \<Rightarrow> (Thrown, w)
      | Some h \<Rightarrow> after (write_raw h w) (\<lambda>_ w1. after (write_raw data w1) (\<lambda>_. ret (pw_file_offset w, length h))))"

text \<open>\<^verbatim>\<open>DictColumnResult\<close>, which also serves the other path; the sizes are \<^verbatim>\<open>int64_t\<close>, computed from \<^verbatim>\<open>int32_t\<close> page sizes.\<close>

record pages_info =
  pi_total_uncompressed :: u64
  pi_total_compressed :: u64
  pi_used_encodings :: "u32 list"
  pi_dict_page_offset :: "nat option"
  pi_data_page_offset :: nat
  pi_location_size :: u32

definition page_size :: "nat \<Rightarrow> bytes \<Rightarrow> u64" where
  "page_size hdr data = of_nat hdr + scast (of_nat (length data) :: u32)"

definition INT32_MAX :: nat where "INT32_MAX = 2 ^ 31 - 1"

definition write_plain_column :: "environment \<Rightarrow> column_descriptor \<Rightarrow> column_writer \<Rightarrow> u32 \<Rightarrow> compression \<Rightarrow> (pages_info, parquet_writer) step" where
  "write_plain_column env cd cw encoding codec w =
     (let encoded = encode_column_data cw encoding (cd_physical_type cd) in
      if length encoded > INT32_MAX then (Failed INTERNAL_ERROR, w)
      else case compress_page (en_registry env) codec encoded of
        Inl e \<Rightarrow> (Failed e, w)
      | Inr packed \<Rightarrow>
          if codec \<noteq> UNCOMPRESSED \<and> length packed > INT32_MAX then (Failed INVALID_ARGUMENT, w)
          else after (write_page (data_page_header_for encoded packed (cw_num_values cw) encoding) packed w) (\<lambda>(offset, header).
            ret \<lparr>pi_total_uncompressed = page_size header encoded, pi_total_compressed = page_size header packed, pi_used_encodings = [encoding],
              pi_dict_page_offset = None, pi_data_page_offset = offset,
              pi_location_size = of_nat (length packed) + of_nat header\<rparr>))"

subsection \<open>Dictionary columns\<close>

definition float_eq :: "u32 \<Rightarrow> u32 \<Rightarrow> bool" where
  "float_eq a b \<longleftrightarrow> \<not> float_nan a \<and> \<not> float_nan b \<and> (a = b \<or> a AND 0x7FFFFFFF = 0 \<and> b AND 0x7FFFFFFF = 0)"

text \<open>
  One encoder for all values of a column: its dictionary page (\<open>None\<close> when a value's writer throws), its
  indices page and its size.  The results of \<^verbatim>\<open>put\<close> are ignored.
\<close>

definition dict_pages :: "('v \<Rightarrow> 'v \<Rightarrow> bool) \<Rightarrow> (bytes \<Rightarrow> 'v \<Rightarrow> bytes option) \<Rightarrow> 'v list \<Rightarrow> (bytes \<times> bytes \<times> nat) option" where
  "dict_pages eqv enc vs =
     (let e = snd (put_all eqv dict_encoder_new vs)
      in map_option (\<lambda>page. (page, indices_page e, length (dict_values e))) (dictionary_page enc e))"

definition build_dictionary :: "u32 \<Rightarrow> column_writer \<Rightarrow> (bytes \<times> bytes \<times> nat) option expected" where
  "build_dictionary pt cw =
     (if pt = BYTE_ARRAY then Inr (dict_pages (=) plain_encode_string (extract_byte_array_strings cw))
      else if pt = INT32 then Inr (dict_pages (=) plain_encode_int32 (extract_values 4 cw))
      else if pt = INT64 then Inr (dict_pages (=) plain_encode_int64 (extract_values 8 cw))
      else if pt = FLOAT then Inr (dict_pages float_eq plain_encode_float (extract_values 4 cw))
      else if pt = DOUBLE then Inr (dict_pages double_eq plain_encode_double (extract_values 8 cw))
      else Inl UNSUPPORTED_ENCODING)"

definition dict_encodings :: "environment \<Rightarrow> u32 list" where
  "dict_encodings env = (if en_plain_first env then [PLAIN, RLE_DICTIONARY] else [RLE_DICTIONARY, PLAIN])"

definition write_dictionary_column :: "environment \<Rightarrow> column_descriptor \<Rightarrow> column_writer \<Rightarrow> compression \<Rightarrow> (pages_info, parquet_writer) step" where
  "write_dictionary_column env cd cw codec w =
     (case build_dictionary (cd_physical_type cd) cw of
        Inl e \<Rightarrow> (Failed e, w)
      | Inr None \<Rightarrow> (Thrown, w)
      | Inr (Some (dict, idx, n)) \<Rightarrow>
          after (of_expected (compress_page (en_registry env) codec dict) w) (\<lambda>dict_packed w1.
          after (write_page (dictionary_page_header_for dict dict_packed n) dict_packed w1) (\<lambda>(dict_offset, dict_header) w2.
          after (of_expected (compress_page (en_registry env) codec idx) w2) (\<lambda>idx_packed w3.
          after (write_page (data_page_header_for idx idx_packed (cw_num_values cw) RLE_DICTIONARY) idx_packed w3) (\<lambda>(data_offset, data_header).
            let total = page_size dict_header dict_packed + page_size data_header idx_packed in
            ret \<lparr>pi_total_uncompressed = page_size dict_header dict + page_size data_header idx, pi_total_compressed = total,
              pi_used_encodings = dict_encodings env, pi_dict_page_offset = Some dict_offset, pi_data_page_offset = data_offset,
              pi_location_size = ucast total\<rparr>)))))"

section \<open>Row groups\<close>

text \<open>The Thrift form of the statistics of a column, when it has a minimum and a maximum.\<close>

definition chunk_statistics :: "column_statistics \<Rightarrow> statistics option" where
  "chunk_statistics s =
     (if \<not> cs_has_min_max s then None
      else Some (default_Statistics\<lparr>st_null_count := Some (of_nat (cs_null_count s)), st_min_value := Some (cs_min_value s),
        st_max_value := Some (cs_max_value s), st_min := Some (cs_min_value s), st_max := Some (cs_max_value s),
        st_distinct_count := map_option of_nat (cs_distinct_count s)\<rparr>))"

definition chunk_metadata :: "column_descriptor \<Rightarrow> compression \<Rightarrow> column_writer \<Rightarrow> pages_info \<Rightarrow> column_metadata" where
  "chunk_metadata cd codec cw info =
     default_ColumnMetaData\<lparr>cm_type := cd_physical_type cd, cm_path_in_schema := [cd_name cd], cm_codec := compression_code codec,
       cm_num_values := of_nat (cw_num_values cw), cm_total_uncompressed_size := pi_total_uncompressed info,
       cm_total_compressed_size := pi_total_compressed info, cm_data_page_offset := of_nat (pi_data_page_offset info),
       cm_encodings := pi_used_encodings info, cm_dictionary_page_offset := map_option of_nat (pi_dict_page_offset info),
       cm_statistics := chunk_statistics (cw_stats cw)\<rparr>"

text \<open>Steps 7 and 8; the number is what they add to the row group's size.\<close>

definition write_bloom :: "nat \<Rightarrow> column_chunk \<Rightarrow> (column_chunk \<times> u64, parquet_writer) step" where
  "write_bloom c cc w =
     (if pw_bloom_filters w = [] then ret (cc, 0) w
      else case pw_bloom_filters w ! c of
        None \<Rightarrow> ret (cc, 0) w
      | Some f \<Rightarrow>
          after (write_raw_le32 (of_nat (length f)) w) (\<lambda>_ w1. after (write_raw f w1) (\<lambda>_.
            ret (cc\<lparr>ch_bloom_filter_offset := Some (of_nat (pw_file_offset w)), ch_bloom_filter_length := Some (of_nat (4 + length f))\<rparr>,
                 of_nat (4 + length f)))))"

definition index_bytes :: "writer \<Rightarrow> bytes option" where
  "index_bytes wr = map_option ebuf (wr encoder_new)"

definition write_index :: "nat \<Rightarrow> column_chunk \<Rightarrow> (column_chunk \<times> u64, parquet_writer) step" where
  "write_index c cc w =
     (if pw_index_builders w = [] then ret (cc, 0) w
      else let b = pw_index_builders w ! c in
        case index_bytes (serialize_ColumnIndex (build_column_index (cd_physical_type (sc_columns (pw_schema w) ! c)) b)) of
          None \<Rightarrow> (Thrown, w)
        | Some ci \<Rightarrow>
            after (write_raw ci w) (\<lambda>_ w1.
              case index_bytes (serialize_OffsetIndex (build_offset_index b)) of
                None \<Rightarrow> (Thrown, w1)
              | Some oi \<Rightarrow> after (write_raw oi w1) (\<lambda>_.
                  ret (cc\<lparr>ch_column_index_offset := Some (of_nat (pw_file_offset w)), ch_column_index_length := Some (of_nat (length ci)),
                          ch_offset_index_offset := Some (of_nat (pw_file_offset w1)), ch_offset_index_length := Some (of_nat (length oi))\<rparr>,
                       of_nat (length ci + length oi)))))"

definition feed_index :: "nat \<Rightarrow> column_writer \<Rightarrow> pages_info \<Rightarrow> parquet_writer \<Rightarrow> parquet_writer" where
  "feed_index c cw info w =
     (if pw_index_builders w = [] then w
      else w\<lparr>pw_index_builders := (pw_index_builders w)[c := feed_page (cw_stats cw) (cw_num_values cw) (of_nat (pi_data_page_offset info))
             (pi_location_size info) (pw_index_builders w ! c)]\<rparr>)"

text \<open>The codec of a column: the option, or the choice of \<^verbatim>\<open>auto_select_compression\<close>.\<close>

definition choose_codec :: "environment \<Rightarrow> writer_options \<Rightarrow> compression" where
  "choose_codec env opts = (if wo_auto_compression opts then auto_select_compression (en_registry env) else wo_compression opts)"

definition write_column_chunk :: "environment \<Rightarrow> nat \<Rightarrow> (column_chunk \<times> u64, parquet_writer) step" where
  "write_column_chunk env c w =
     (let cw = pw_col_writers w ! c; cd = sc_columns (pw_schema w) ! c;
          encoding = choose_encoding (pw_options w) cd cw; codec = choose_codec env (pw_options w)
      in after (if encoding = PLAIN_DICTIONARY \<or> encoding = RLE_DICTIONARY then write_dictionary_column env cd cw codec w
                else write_plain_column env cd cw encoding codec w) (\<lambda>info w1.
         after (write_bloom c (default_ColumnChunk\<lparr>ch_file_offset := of_nat (pw_file_offset w),
             ch_meta_data := Some (chunk_metadata cd codec cw info)\<rparr>) (feed_index c cw info w1)) (\<lambda>(cc, bloom) w2.
         after (write_index c cc w2) (\<lambda>(cc', index). ret (cc', bloom + index + pi_total_compressed info)))))"

fun write_column_chunks :: "environment \<Rightarrow> nat list \<Rightarrow> ((column_chunk \<times> u64) list, parquet_writer) step" where
  "write_column_chunks env [] w = ret [] w"
| "write_column_chunks env (c # cs) w =
     after (write_column_chunk env c w) (\<lambda>r w1. after (write_column_chunks env cs w1) (\<lambda>rs. ret (r # rs)))"

text \<open>The codecs that a flush sees: Snappy is registered first.\<close>

definition with_snappy :: "environment \<Rightarrow> environment" where
  "with_snappy env = env\<lparr>en_registry := register_snappy_codec (en_registry env)\<rparr>"

definition reset_columns :: "parquet_writer \<Rightarrow> parquet_writer" where
  "reset_columns w = w\<lparr>pw_col_writers := map column_writer_reset (pw_col_writers w), pw_col_row_counts := map (\<lambda>_. 0) (pw_col_row_counts w),
     pw_bloom_filters := map (map_option bloom_reset) (pw_bloom_filters w), pw_index_builders := map (\<lambda>_. []) (pw_index_builders w)\<rparr>"

definition flush_row_group :: "environment \<Rightarrow> (unit, parquet_writer) step" where
  "flush_row_group env0 w =
     (let env = with_snappy env0 in
      if \<not> pw_open w then (Failed IO_ERROR, w)
      else after (if pw_pending_rows w \<noteq> [] then encode_pending_rows env w else ret () w) (\<lambda>_ w1.
        if \<not> list_ex (\<lambda>cw. cw_num_values cw > 0) (pw_col_writers w1) then ret () w1
        else let n = cw_num_values (hd (pw_col_writers w1)) in
          if list_ex (\<lambda>cw. cw_num_values cw \<noteq> n) (tl (pw_col_writers w1)) then (Failed SCHEMA_MISMATCH, w1)
          else after (write_column_chunks env [0..<length (pw_col_writers w1)] w1) (\<lambda>chunks w2.
            ret () (reset_columns (w2\<lparr>pw_row_groups := pw_row_groups w2 @ [default_RowGroup\<lparr>rg_num_rows := of_nat n,
                rg_columns := map fst chunks, rg_total_byte_size := sum_list (map snd chunks)\<rparr>],
              pw_total_rows := pw_total_rows w2 + n\<rparr>)))))"

definition write_row :: "environment \<Rightarrow> bytes list \<Rightarrow> (unit, parquet_writer) step" where
  "write_row env values w =
     (if \<not> pw_open w then (Failed IO_ERROR, w)
      else if length values \<noteq> num_columns (pw_schema w) then (Failed SCHEMA_MISMATCH, w)
      else let w1 = w\<lparr>pw_pending_rows := pw_pending_rows w @ [values]\<rparr>
           in if int (length (pw_pending_rows w1)) \<ge> wo_row_group_size (pw_options w) then flush_row_group env w1 else ret () w1)"

section \<open>Closing the file\<close>

definition root_element :: "schema \<Rightarrow> schema_element" where
  "root_element s = default_SchemaElement\<lparr>se_name := sc_name s, se_num_children := Some (of_nat (num_columns s))\<rparr>"

definition leaf_element :: "column_descriptor \<Rightarrow> schema_element" where
  "leaf_element cd =
     (let lt = cd_logical_type cd;
          e = default_SchemaElement\<lparr>se_type := Some (cd_physical_type cd), se_name := cd_name cd, se_repetition_type := Some (cd_repetition cd)\<rparr>;
          e1 = (if cd_physical_type cd = FIXED_LEN_BYTE_ARRAY \<and> sint (cd_type_length cd) > 0 then e\<lparr>se_type_length := Some (cd_type_length cd)\<rparr> else e)
      in if lt = LOGICAL_STRING then e1\<lparr>se_converted_type := Some CONVERTED_UTF8\<rparr>
         else if lt = LOGICAL_DATE then e1\<lparr>se_converted_type := Some CONVERTED_DATE\<rparr>
         else if lt = LOGICAL_TIMESTAMP_MS then e1\<lparr>se_converted_type := Some CONVERTED_TIMESTAMP_MILLIS\<rparr>
         else if lt = LOGICAL_TIMESTAMP_US then e1\<lparr>se_converted_type := Some CONVERTED_TIMESTAMP_MICROS\<rparr>
         else if lt = LOGICAL_JSON then e1\<lparr>se_converted_type := Some CONVERTED_JSON\<rparr>
         else if lt = LOGICAL_ENUM then e1\<lparr>se_converted_type := Some CONVERTED_ENUM\<rparr>
         else if lt = LOGICAL_DECIMAL then
           e1\<lparr>se_converted_type := Some CONVERTED_DECIMAL,
              se_precision := (if sint (cd_precision cd) > 0 then Some (cd_precision cd) else se_precision e1),
              se_scale := (if sint (cd_scale cd) \<ge> 0 then Some (cd_scale cd) else se_scale e1)\<rparr>
         else e1)"

definition footer_metadata :: "parquet_writer \<Rightarrow> file_metadata" where
  "footer_metadata w =
     default_FileMetaData\<lparr>fm_version := PARQUET_VERSION, fm_num_rows := of_nat (pw_total_rows w), fm_row_groups := pw_row_groups w,
       fm_created_by := Some (wo_created_by (pw_options w)),
       fm_schema := root_element (pw_schema w) # map leaf_element (sc_columns (pw_schema w)),
       fm_key_value_metadata := (if wo_file_metadata (pw_options w) \<noteq> [] then Some (wo_file_metadata (pw_options w)) else None)\<rparr>"

subsection \<open>Write statistics\<close>

record column_write_stats =
  ws_column_name :: bytes
  ws_physical_type :: u32
  ws_encoding :: u32
  ws_compression :: u32
  ws_uncompressed_bytes :: u64
  ws_compressed_bytes :: u64
  ws_num_values :: u64
  ws_null_count :: u64

text \<open>The two quotients are kept as their operands, \<open>None\<close> being the default.\<close>

record write_stats =
  ws_file_size_bytes :: nat
  ws_total_rows :: nat
  ws_total_row_groups :: nat
  ws_total_uncompressed_bytes :: u64
  ws_total_compressed_bytes :: u64
  ws_compression_ratio :: "(u64 \<times> u64) option"
  ws_bytes_per_row :: "(nat \<times> nat) option"
  ws_columns :: "column_write_stats list"

definition empty_stats :: write_stats where
  "empty_stats = \<lparr>ws_file_size_bytes = 0, ws_total_rows = 0, ws_total_row_groups = 0, ws_total_uncompressed_bytes = 0,
     ws_total_compressed_bytes = 0, ws_compression_ratio = None, ws_bytes_per_row = None, ws_columns = []\<rparr>"

definition column_stats_new :: "column_descriptor \<Rightarrow> column_write_stats" where
  "column_stats_new cd = \<lparr>ws_column_name = cd_name cd, ws_physical_type = cd_physical_type cd, ws_encoding = PLAIN, ws_compression = 0,
     ws_uncompressed_bytes = 0, ws_compressed_bytes = 0, ws_num_values = 0, ws_null_count = 0\<rparr>"

definition add_chunk_stats :: "column_metadata \<Rightarrow> column_write_stats \<Rightarrow> column_write_stats" where
  "add_chunk_stats cmd cs =
     cs\<lparr>ws_uncompressed_bytes := ws_uncompressed_bytes cs + cm_total_uncompressed_size cmd,
       ws_compressed_bytes := ws_compressed_bytes cs + cm_total_compressed_size cmd,
       ws_num_values := ws_num_values cs + cm_num_values cmd, ws_compression := cm_codec cmd,
       ws_encoding := (if cm_encodings cmd \<noteq> [] then hd (cm_encodings cmd) else ws_encoding cs),
       ws_null_count := ws_null_count cs + (case cm_statistics cmd of None \<Rightarrow> 0 | Some st \<Rightarrow>
         case st_null_count st of None \<Rightarrow> 0 | Some n \<Rightarrow> n)\<rparr>"

definition add_group_stats :: "row_group \<Rightarrow> write_stats \<Rightarrow> write_stats" where
  "add_group_stats rg s =
     (let metas = map ch_meta_data (take (length (ws_columns s)) (rg_columns rg)); present = map the (filter (\<lambda>m. m \<noteq> None) metas)
      in s\<lparr>ws_columns := map2 (\<lambda>m cs. case m of None \<Rightarrow> cs | Some cmd \<Rightarrow> add_chunk_stats cmd cs)
             (metas @ replicate (length (ws_columns s) - length metas) None) (ws_columns s),
           ws_total_uncompressed_bytes := ws_total_uncompressed_bytes s + sum_list (map cm_total_uncompressed_size present),
           ws_total_compressed_bytes := ws_total_compressed_bytes s + sum_list (map cm_total_compressed_size present)\<rparr>)"

definition build_write_stats :: "parquet_writer \<Rightarrow> write_stats" where
  "build_write_stats w =
     (let s = fold add_group_stats (pw_row_groups w) (empty_stats\<lparr>ws_file_size_bytes := pw_file_offset w, ws_total_rows := pw_total_rows w,
            ws_total_row_groups := length (pw_row_groups w), ws_columns := map column_stats_new (sc_columns (pw_schema w))\<rparr>)
      in s\<lparr>ws_compression_ratio := (if sint (ws_total_compressed_bytes s) > 0
               then Some (ws_total_uncompressed_bytes s, ws_total_compressed_bytes s) else None),
           ws_bytes_per_row := (if ws_total_rows s > 0 then Some (ws_file_size_bytes s, ws_total_rows s) else None)\<rparr>)"

text \<open>
  Flushing and closing the stream.  Whether that works is not looked at: the object is left the same, and \<open>on_disk\<close> is what
  became of the file.
\<close>

definition close_file :: "parquet_writer \<Rightarrow> parquet_writer" where
  "close_file w = w\<lparr>pw_open := False\<rparr>"

definition writer_close :: "environment \<Rightarrow> (write_stats, parquet_writer) step" where
  "writer_close env w =
     (if \<not> pw_open w then ret empty_stats w
      else if num_columns (pw_schema w) = 0 then (Failed INTERNAL_ERROR, close_file w)
      else case flush_row_group env w of
        (Thrown, w1) \<Rightarrow> (Thrown, w1)
      | (Failed e, w1) \<Rightarrow> (Failed e, close_file w1)
      | (Returned (), w1) \<Rightarrow>
          case serialize_FileMetaData (footer_metadata w1) encoder_new of
            None \<Rightarrow> (Thrown, w1)
          | Some enc \<Rightarrow>
              after (write_raw (ebuf enc) w1) (\<lambda>_ w2.
              after (write_raw_le32 (of_nat (length (ebuf enc))) w2) (\<lambda>_ w3.
              after (write_raw_le32 PARQUET_MAGIC w3) (\<lambda>_ w4. ret (build_write_stats w4) (close_file w4)))))"

text \<open>The destructor; an exception that leaves it ends the program (\<^verbatim>\<open>std::terminate\<close>), the result \<open>Thrown\<close>.\<close>

definition writer_destroy :: "environment \<Rightarrow> (unit, parquet_writer) step" where
  "writer_destroy env w =
     (if pw_open w then (case writer_close env w of (Thrown, w1) \<Rightarrow> (Thrown, w1) | (_, w1) \<Rightarrow> (Returned (), w1)) else (Returned (), w))"

definition rows_written :: "parquet_writer \<Rightarrow> nat" where "rows_written w = pw_total_rows w + length (pw_pending_rows w)"
definition row_groups_written :: "parquet_writer \<Rightarrow> nat" where "row_groups_written w = length (pw_row_groups w)"

section \<open>Conversion of CSV\<close>

text \<open>\<^verbatim>\<open>find_first_not_of\<close> and \<^verbatim>\<open>find_last_not_of\<close> of blank, tab, return and newline.\<close>

definition blank :: "u8 \<Rightarrow> bool" where "blank b \<longleftrightarrow> b \<in> {32, 9, 13, 10}"

definition trim_string :: "bytes \<Rightarrow> bytes" where
  "trim_string s = rev (dropWhile blank (rev (dropWhile blank s)))"

text \<open>The loop of \<^verbatim>\<open>split_csv_line\<close>: the rest of the line, the fields, the field being read, whether inside quotes.\<close>

fun split_loop_csv :: "bytes \<Rightarrow> bytes list \<Rightarrow> bytes \<Rightarrow> bool \<Rightarrow> bytes list" where
  "split_loop_csv [] fs fld in_quotes = fs @ [trim_string fld]"
| "split_loop_csv (ch # s) fs fld in_quotes =
     (if in_quotes then
        if ch = 34 then
          (case s of
             q # s' \<Rightarrow> if q = 34 then split_loop_csv s' fs (fld @ [34]) True else split_loop_csv s fs fld False
           | [] \<Rightarrow> split_loop_csv s fs fld False)
        else split_loop_csv s fs (fld @ [ch]) True
      else if ch = 34 then split_loop_csv s fs fld True
      else if ch = 44 then split_loop_csv s (fs @ [trim_string fld]) [] False
      else if ch = 13 then split_loop_csv s fs fld False
      else split_loop_csv s fs (fld @ [ch]) False)"

definition split_csv_line :: "bytes \<Rightarrow> bytes list" where "split_csv_line line = split_loop_csv line [] [] False"

text \<open>\<^verbatim>\<open>std::getline\<close> until it fails: a last newline does not start another line.\<close>

fun text_lines :: "bytes \<Rightarrow> bytes \<Rightarrow> bytes list" where
  "text_lines acc [] = (if acc = [] then [] else [acc])"
| "text_lines acc (ch # s) = (if ch = 10 then acc # text_lines [] s else text_lines (acc @ [ch]) s)"

definition is_int64 :: "bytes \<Rightarrow> bool" where
  "is_int64 val = (case from_chars 64 val of Some (_, rest) \<Rightarrow> rest = [] | None \<Rightarrow> False)"

definition detect_type :: "environment \<Rightarrow> bytes list \<Rightarrow> u32 \<times> u32" where
  "detect_type env vals =
     (let vs = filter (\<lambda>v. v \<noteq> []) vals in
      if list_all is_int64 vs then (INT64, LOGICAL_NONE)
      else if list_all (en_is_double env) vs then (DOUBLE, LOGICAL_NONE)
      else if list_all (\<lambda>v. v \<in> set true_texts \<or> v \<in> set false_texts) vs then (BOOLEAN, LOGICAL_NONE)
      else (BYTE_ARRAY, LOGICAL_STRING))"

fun write_rows :: "environment \<Rightarrow> bytes list list \<Rightarrow> (unit, parquet_writer) step" where
  "write_rows env [] w = ret () w"
| "write_rows env (r # rs) w = after (write_row env r w) (\<lambda>_. write_rows env rs)"

definition csv_data :: bytes where "csv_data = [99, 115, 118, 95, 100, 97, 116, 97]"

text \<open>
  \<open>csv\<close> is the text of the input, \<open>None\<close> when it cannot be opened.  An early return or an exception destroys the
  writer, which the result shows as the writer's state.
\<close>

definition csv_to_parquet :: "environment \<Rightarrow> bytes option \<Rightarrow> bool \<Rightarrow> disk \<Rightarrow> writer_options \<Rightarrow> unit outcome \<times> parquet_writer option" where
  "csv_to_parquet env csv opened room opts =
     (case csv of None \<Rightarrow> (Failed IO_ERROR, None)
      | Some txt \<Rightarrow>
          case text_lines [] txt of [] \<Rightarrow> (Failed INVALID_FILE, None)
          | header_line # lines \<Rightarrow>
              let col_names = split_csv_line header_line; num_cols = length col_names;
                  rows = map (\<lambda>l. resize num_cols [] (split_csv_line l)) (filter (\<lambda>l. l \<noteq> []) lines)
              in if rows = [] then (Failed INVALID_FILE, None)
                 else let types = map (\<lambda>c. detect_type env (map (\<lambda>r. r ! c) rows)) [0..<num_cols];
                          s = \<lparr>sc_name = csv_data, sc_columns = map2 (\<lambda>name (pt, lt). (column_of name pt)\<lparr>cd_logical_type := lt\<rparr>) col_names types\<rparr>
                      in apsnd Some (after (writer_open opened room s opts) (\<lambda>_ w1.
                           after (write_rows env rows w1) (\<lambda>_ w2. after (writer_close env w2) (\<lambda>_. ret ())))))"

end
