(* ===== verification/FileReader.thy ===== *)
theory FileReader
  imports FileWriter
begin

text \<open>
  \<^verbatim>\<open>ParquetReader\<close> of \<^verbatim>\<open>include/signet/reader.hpp\<close>, in the build without the commercial tier: opening a file,
  reading pages with every size checked, the decoding path of each encoding, whole row groups and files as text,
  statistics, Bloom filters and page indexes.  The file is its bytes.
\<close>

section \<open>State and opening\<close>

record parquet_reader =
  pr_file_data :: bytes
  pr_metadata :: file_metadata
  pr_schema :: schema
  pr_created_by :: bytes

definition converted_type_to_logical :: "u32 \<Rightarrow> u32" where
  "converted_type_to_logical ct =
     (if ct = CONVERTED_UTF8 then LOGICAL_STRING
      else if ct = CONVERTED_ENUM then LOGICAL_ENUM
      else if ct = CONVERTED_DATE then LOGICAL_DATE
      else if ct = CONVERTED_TIME_MILLIS then LOGICAL_TIME_MS
      else if ct = CONVERTED_TIME_MICROS then LOGICAL_TIME_US
      else if ct = CONVERTED_TIMESTAMP_MILLIS then LOGICAL_TIMESTAMP_MS
      else if ct = CONVERTED_TIMESTAMP_MICROS then LOGICAL_TIMESTAMP_US
      else if ct = CONVERTED_DECIMAL then LOGICAL_DECIMAL
      else if ct = CONVERTED_JSON then LOGICAL_JSON
      else if ct = CONVERTED_BSON then LOGICAL_BSON
      else LOGICAL_NONE)"

definition element_column :: "schema_element \<Rightarrow> column_descriptor" where
  "element_column e =
     (let cd = (column_of (se_name e) (value_or (se_type e) BYTE_ARRAY))\<lparr>cd_repetition := value_or (se_repetition_type e) REQUIRED,
            cd_type_length := value_or (se_type_length e) (- 1), cd_precision := value_or (se_precision e) (- 1),
            cd_scale := value_or (se_scale e) (- 1)\<rparr>
      in case se_converted_type e of None \<Rightarrow> cd | Some ct \<Rightarrow> cd\<lparr>cd_logical_type := converted_type_to_logical ct\<rparr>)"

definition metadata_schema :: "file_metadata \<Rightarrow> schema" where
  "metadata_schema m =
     (case fm_schema m of [] \<Rightarrow> \<lparr>sc_name = [], sc_columns = []\<rparr>
      | r0 # elems \<Rightarrow> \<lparr>sc_name = se_name r0, sc_columns = map element_column (filter (\<lambda>e. se_num_children e = None) elems)\<rparr>)"

definition MAX_FILE_SIZE :: nat where "MAX_FILE_SIZE = 4 * 1024 * 1024 * 1024"

text \<open>\<open>None\<close> is a file that cannot be measured, opened or read.\<close>

definition reader_open :: "bytes option \<Rightarrow> parquet_reader expected" where
  "reader_open content =
     (case content of None \<Rightarrow> Inl IO_ERROR
      | Some file \<Rightarrow>
          let sz = length file in
          if sz > MAX_FILE_SIZE then Inl INVALID_ARGUMENT
          else if sz < 12 then Inl INVALID_FILE
          else if (of_le (take 4 file) :: u32) \<noteq> PARQUET_MAGIC then Inl INVALID_FILE
          else let magic_end = of_le (take 4 (drop (sz - 4) file)) :: u32 in
            if magic_end \<noteq> PARQUET_MAGIC \<and> magic_end \<noteq> PARQUET_MAGIC_ENCRYPTED then Inl INVALID_FILE
            else let footer_len = unat (of_le (take 4 (drop (sz - 8) file)) :: u32) in
              if footer_len = 0 \<or> footer_len > sz - 12 then Inl CORRUPT_FOOTER
              else if magic_end = PARQUET_MAGIC_ENCRYPTED then Inl LICENSE_ERROR
              else case fst (deserialize_FileMetaData (decoder_new (take footer_len (drop (sz - 8 - footer_len) file))) default_FileMetaData) of
                Inl e \<Rightarrow> Inl e
              | Inr m \<Rightarrow> Inr \<lparr>pr_file_data = file, pr_metadata = m, pr_schema = metadata_schema m,
                  pr_created_by = value_or (fm_created_by m) []\<rparr>)"

definition num_rows :: "parquet_reader \<Rightarrow> u64" where "num_rows r = fm_num_rows (pr_metadata r)"
definition num_row_groups :: "parquet_reader \<Rightarrow> nat" where "num_row_groups r = length (fm_row_groups (pr_metadata r))"
definition key_value_metadata :: "parquet_reader \<Rightarrow> key_value list" where
  "key_value_metadata r = value_or (fm_key_value_metadata (pr_metadata r)) []"

text \<open>\<^verbatim>\<open>RowGroupInfo\<close> as rows, bytes and index; \<open>None\<close> is \<^verbatim>\<open>std::out_of_range\<close>.\<close>

definition row_group_info :: "parquet_reader \<Rightarrow> nat \<Rightarrow> (u64 \<times> u64 \<times> nat) option" where
  "row_group_info r index =
     (if index \<ge> num_row_groups r then None
      else let rg = fm_row_groups (pr_metadata r) ! index in Some (rg_num_rows rg, rg_total_byte_size rg, index))"

section \<open>Pages\<close>

definition PARQUET_MAX_PAGE_SIZE :: nat where "PARQUET_MAX_PAGE_SIZE = 256 * 1024 * 1024"
definition MAX_VALUES_PER_PAGE :: int where "MAX_VALUES_PER_PAGE = 100000000"

definition validate_page_value_count :: "int \<Rightarrow> nat expected" where
  "validate_page_value_count n = (if n < 0 \<or> n > MAX_VALUES_PER_PAGE then Inl CORRUPT_PAGE else Inr (nat n))"

definition reader_crc32 :: "bytes \<Rightarrow> u32" where
  "reader_crc32 data = foldl (\<lambda>crc b. crc_table ! unat ((crc XOR ucast b) AND 0xFF) XOR drop_bit 8 crc) 0xFFFFFFFF data XOR 0xFFFFFFFF"

text \<open>A codec that is no \<^verbatim>\<open>Compression\<close> has no entry in the registry.\<close>

definition compression_of :: "u32 \<Rightarrow> compression option" where
  "compression_of code = map_of (map (\<lambda>c. (compression_code c, c)) [UNCOMPRESSED, SNAPPY, GZIP, LZO, BROTLI, LZ4, ZSTD, LZ4_RAW]) code"

text \<open>\<^verbatim>\<open>decompress\<close> as the reader uses it: its errors all become one.\<close>

definition decompress_page :: "registry \<Rightarrow> u32 \<Rightarrow> bytes \<Rightarrow> nat \<Rightarrow> bytes expected" where
  "decompress_page r code data n =
     (case compression_of code of
        None \<Rightarrow> Inl UNSUPPORTED_COMPRESSION
      | Some c \<Rightarrow> (case decompress r c data n of Inl e \<Rightarrow> Inl UNSUPPORTED_COMPRESSION | Inr out \<Rightarrow> Inr out))"

text \<open>
  What \<^verbatim>\<open>read_page_at\<close> and \<^verbatim>\<open>make_column_reader\<close> do first: the header at an offset and the bytes of the page,
  with the checksum verified when there is one.
\<close>

definition raw_page_at :: "bytes \<Rightarrow> u64 \<Rightarrow> (bytes \<times> page_header) expected" where
  "raw_page_at file offset =
     (if sint offset < 0 \<or> unat offset \<ge> length file then Inl CORRUPT_PAGE
      else let page_start = drop (unat offset) file in
        case deserialize_PageHeader (decoder_new page_start) default_PageHeader of
          (Inl e, d) \<Rightarrow> Inl e
        | (Inr ph, d) \<Rightarrow>
            if sint (pg_compressed_page_size ph) < 0 then Inl CORRUPT_PAGE
            else let n = unat (pg_compressed_page_size ph); data = take n (drop (dpos d) page_start) in
              if dpos d + n > length page_start then Inl CORRUPT_PAGE
              else case pg_crc ph of
                Some crc \<Rightarrow> if reader_crc32 data \<noteq> crc then Inl CORRUPT_PAGE else Inr (data, ph)
              | None \<Rightarrow> Inr (data, ph))"

text \<open>\<^verbatim>\<open>uncompressed_page_size\<close> is an \<^verbatim>\<open>int32_t\<close> cast to \<^verbatim>\<open>size_t\<close>: a negative size is above the cap.\<close>

definition size_of_int32 :: "u32 \<Rightarrow> nat" where "size_of_int32 n = unat (scast n :: u64)"

definition read_page_at :: "registry \<Rightarrow> bytes \<Rightarrow> u64 \<Rightarrow> u32 \<Rightarrow> (bytes \<times> page_header) expected" where
  "read_page_at reg file offset codec =
     (case raw_page_at file offset of
        Inl e \<Rightarrow> Inl e
      | Inr (data, ph) \<Rightarrow>
          if codec \<noteq> 0 then
            let n = size_of_int32 (pg_uncompressed_page_size ph) in
            if n = 0 \<or> n > PARQUET_MAX_PAGE_SIZE then Inl CORRUPT_PAGE
            else if length data > 0 \<and> n div length data > 1024 then Inl CORRUPT_DATA
            else case decompress_page reg codec data n of Inl e \<Rightarrow> Inl e | Inr out \<Rightarrow> Inr (out, ph)
          else Inr (data, ph))"

definition page_num_values :: "column_metadata \<Rightarrow> page_header \<Rightarrow> int" where
  "page_num_values cm ph =
     (if pg_type ph = DATA_PAGE \<and> pg_data_page_header ph \<noteq> None then sint (ph_num_values (the (pg_data_page_header ph)))
      else if pg_type ph = DATA_PAGE_V2 \<and> pg_data_page_header_v2 ph \<noteq> None then sint (p2_num_values (the (pg_data_page_header_v2 ph)))
      else sint (cm_num_values cm))"

definition element_size :: "u32 \<Rightarrow> u32 \<Rightarrow> nat" where
  "element_size pt type_length =
     (if pt = BOOLEAN then 1
      else if pt = INT32 \<or> pt = FLOAT then 4
      else if pt = INT64 \<or> pt = DOUBLE then 8
      else if pt = FIXED_LEN_BYTE_ARRAY then if sint type_length > 0 then unat type_length else 1
      else 0)"

text \<open>The chunk of a row group and column, with the errors of the indices.\<close>

definition chunk_at :: "parquet_reader \<Rightarrow> nat \<Rightarrow> nat \<Rightarrow> column_chunk expected" where
  "chunk_at r g c =
     (if g \<ge> num_row_groups r then Inl OUT_OF_RANGE
      else let cols = rg_columns (fm_row_groups (pr_metadata r) ! g)
           in if c \<ge> length cols then Inl OUT_OF_RANGE else Inr (cols ! c))"

definition metadata_at :: "parquet_reader \<Rightarrow> nat \<Rightarrow> nat \<Rightarrow> column_metadata expected" where
  "metadata_at r g c =
     (case chunk_at r g c of
        Inl e \<Rightarrow> Inl e
      | Inr chunk \<Rightarrow> (case ch_meta_data chunk of None \<Rightarrow> Inl CORRUPT_PAGE | Some cm \<Rightarrow> Inr cm))"

definition reader_for :: "registry \<Rightarrow> bytes \<Rightarrow> column_metadata \<Rightarrow> u32 \<Rightarrow> (column_reader \<times> int) expected" where
  "reader_for reg file cm type_length =
     (case raw_page_at file (cm_data_page_offset cm) of
        Inl e \<Rightarrow> Inl e
      | Inr (raw, ph) \<Rightarrow>
          let n = size_of_int32 (pg_uncompressed_page_size ph);
              unpacked = (if cm_codec cm \<noteq> 0 then
                  if n = 0 \<or> n > PARQUET_MAX_PAGE_SIZE then Inl CORRUPT_PAGE else decompress_page reg (cm_codec cm) raw n
                else Inr raw)
          in case unpacked of
            Inl e \<Rightarrow> Inl e
          | Inr data \<Rightarrow>
              let num_values = page_num_values cm ph; elem_size = element_size (cm_type cm) type_length in
              if num_values < 0 \<or> num_values > MAX_VALUES_PER_PAGE then Inl CORRUPT_PAGE
              else if elem_size > 0 \<and> (nat num_values * elem_size) mod 2 ^ 64 > 256 * 1024 * 1024 then Inl CORRUPT_DATA
              else Inr (column_reader_new (cm_type cm) data num_values type_length, num_values))"

definition make_column_reader :: "registry \<Rightarrow> parquet_reader \<Rightarrow> nat \<Rightarrow> nat \<Rightarrow> (column_reader \<times> int) expected" where
  "make_column_reader reg r g c =
     (case metadata_at r g c of
        Inl e \<Rightarrow> Inl e
      | Inr cm \<Rightarrow> reader_for reg (pr_file_data r) cm
          (if c < num_columns (pr_schema r) then cd_type_length (sc_columns (pr_schema r) ! c) else - 1))"

section \<open>Decoding paths\<close>

text \<open>A dictionary decoder for values of the type read: entries, then indices.\<close>

definition decode_dictionary :: "ctype \<Rightarrow> bytes \<Rightarrow> nat \<Rightarrow> bytes \<Rightarrow> nat \<Rightarrow> cvalue list expected" where
  "decode_dictionary t dict entries idx n =
     (case t of
        CString \<Rightarrow> map_sum id (map VString) (dict_decode (dict_decoder_new plain_decode_string dict 0 entries) idx n)
      | CInt32 \<Rightarrow> map_sum id (map VInt32) (dict_decode (dict_decoder_new plain_decode_int32 dict 0 entries) idx n)
      | CInt64 \<Rightarrow> map_sum id (map VInt64) (dict_decode (dict_decoder_new plain_decode_int64 dict 0 entries) idx n)
      | CFloat \<Rightarrow> map_sum id (map VFloat) (dict_decode (dict_decoder_new plain_decode_float dict 0 entries) idx n)
      | CDouble \<Rightarrow> map_sum id (map VDouble) (dict_decode (dict_decoder_new plain_decode_double dict 0 entries) idx n)
      | CBool \<Rightarrow> Inl UNSUPPORTED_ENCODING)"

text \<open>Where the data page starts when the metadata has one offset for both pages.\<close>

definition offset_after_dictionary :: "bytes \<Rightarrow> u64 \<Rightarrow> u64 expected" where
  "offset_after_dictionary file dict_offset =
     (case deserialize_PageHeader (decoder_new (drop (unat dict_offset) file)) default_PageHeader of
        (Inl e, d) \<Rightarrow> Inl e
      | (Inr ph, d) \<Rightarrow>
          if sint (pg_compressed_page_size ph) < 0 then Inl CORRUPT_PAGE
          else Inr (dict_offset + of_nat (dpos d) + of_nat (unat (pg_compressed_page_size ph))))"

definition read_column_dict :: "registry \<Rightarrow> bytes \<Rightarrow> column_metadata \<Rightarrow> ctype \<Rightarrow> cvalue list expected" where
  "read_column_dict reg file cm t =
     (let dict_offset = value_or (cm_dictionary_page_offset cm) (cm_data_page_offset cm) in
      case read_page_at reg file dict_offset (cm_codec cm) of
        Inl e \<Rightarrow> Inl e
      | Inr (dict, dict_ph) \<Rightarrow>
          if pg_type dict_ph \<noteq> DICTIONARY_PAGE \<or> pg_dictionary_page_header dict_ph = None then Inl CORRUPT_PAGE
          else let count = sint (di_num_values (the (pg_dictionary_page_header dict_ph))) in
            if count < 0 \<or> count > 10000000 then Inl CORRUPT_PAGE
            else case (if cm_data_page_offset cm = dict_offset then offset_after_dictionary file dict_offset else Inr (cm_data_page_offset cm)) of
              Inl e \<Rightarrow> Inl e
            | Inr data_offset \<Rightarrow>
                case read_page_at reg file data_offset (cm_codec cm) of
                  Inl e \<Rightarrow> Inl e
                | Inr (data, ph) \<Rightarrow>
                    let n = page_num_values cm ph in
                    if n < 0 \<or> n > MAX_VALUES_PER_PAGE then Inl CORRUPT_PAGE
                    else decode_dictionary t dict (nat count) data (nat n))"

text \<open>A single data page of a column and the checked number of its values.\<close>

definition data_page :: "registry \<Rightarrow> bytes \<Rightarrow> column_metadata \<Rightarrow> (bytes \<times> nat) expected" where
  "data_page reg file cm =
     (case read_page_at reg file (cm_data_page_offset cm) (cm_codec cm) of
        Inl e \<Rightarrow> Inl e
      | Inr (data, ph) \<Rightarrow> (case validate_page_value_count (page_num_values cm ph) of Inl e \<Rightarrow> Inl e | Inr n \<Rightarrow> Inr (data, n)))"

definition counted_values :: "nat \<Rightarrow> ('v \<Rightarrow> cvalue) \<Rightarrow> 'v list \<Rightarrow> cvalue list expected" where
  "counted_values n f vs = (if length vs \<noteq> n then Inl CORRUPT_PAGE else Inr (map f vs))"

definition read_column_delta :: "registry \<Rightarrow> bytes \<Rightarrow> column_metadata \<Rightarrow> ctype \<Rightarrow> cvalue list expected" where
  "read_column_delta reg file cm t =
     (case data_page reg file cm of
        Inl e \<Rightarrow> Inl e
      | Inr (data, n) \<Rightarrow>
          if t = CInt32 then counted_values n VInt32 (decode_int32 data n)
          else if t = CInt64 then counted_values n VInt64 (decode_int64 data n)
          else Inl UNSUPPORTED_ENCODING)"

definition read_column_bss :: "registry \<Rightarrow> bytes \<Rightarrow> column_metadata \<Rightarrow> ctype \<Rightarrow> cvalue list expected" where
  "read_column_bss reg file cm t =
     (case data_page reg file cm of
        Inl e \<Rightarrow> Inl e
      | Inr (data, n) \<Rightarrow>
          if t = CFloat then counted_values n VFloat (decode_float data n)
          else if t = CDouble then counted_values n VDouble (decode_double data n)
          else Inl UNSUPPORTED_ENCODING)"

definition read_column_rle_bool :: "registry \<Rightarrow> bytes \<Rightarrow> column_metadata \<Rightarrow> ctype \<Rightarrow> cvalue list expected" where
  "read_column_rle_bool reg file cm t =
     (case data_page reg file cm of
        Inl e \<Rightarrow> Inl e
      | Inr (data, n) \<Rightarrow>
          if t = CBool then Inr (map (\<lambda>i. VBool (i \<noteq> 0)) (take n (decode_with_length data 1 n)))
          else Inl UNSUPPORTED_ENCODING)"

text \<open>The scan of the column's encodings: whether there is a dictionary, and the encoding of the data.\<close>

definition scan_encoding :: "u32 \<Rightarrow> u32 \<Rightarrow> bool \<times> u32 \<Rightarrow> bool \<times> u32" where
  "scan_encoding pt enc acc =
     (fst acc \<or> enc = PLAIN_DICTIONARY \<or> enc = RLE_DICTIONARY,
      if enc = DELTA_BINARY_PACKED then DELTA_BINARY_PACKED
      else if enc = BYTE_STREAM_SPLIT then BYTE_STREAM_SPLIT
      else if enc = RLE \<and> pt = BOOLEAN then RLE
      else snd acc)"

definition read_plain :: "registry \<Rightarrow> bytes \<Rightarrow> column_metadata \<Rightarrow> u32 \<Rightarrow> ctype \<Rightarrow> cvalue list expected" where
  "read_plain reg file cm type_length t =
     (case reader_for reg file cm type_length of
        Inl e \<Rightarrow> Inl e
      | Inr (cr, num_values) \<Rightarrow>
          (case validate_page_value_count num_values of
             Inl e \<Rightarrow> Inl e
           | Inr n \<Rightarrow> if t = CBool then fst (PlainPage.read_each CBool n cr) else fst (read_batch t n cr)))"

definition read_chunk :: "registry \<Rightarrow> bytes \<Rightarrow> column_metadata \<Rightarrow> u32 \<Rightarrow> ctype \<Rightarrow> cvalue list expected" where
  "read_chunk reg file cm type_length t =
     (case fold (scan_encoding (cm_type cm)) (cm_encodings cm) (False, PLAIN) of
        (has_dict, encoding) \<Rightarrow>
          if has_dict then if t \<noteq> CBool then read_column_dict reg file cm t else Inl UNSUPPORTED_ENCODING
          else if encoding = DELTA_BINARY_PACKED then
            if t = CInt32 \<or> t = CInt64 then read_column_delta reg file cm t else Inl UNSUPPORTED_ENCODING
          else if encoding = BYTE_STREAM_SPLIT then
            if t = CFloat \<or> t = CDouble then read_column_bss reg file cm t else Inl UNSUPPORTED_ENCODING
          else if encoding = RLE \<and> cm_type cm = BOOLEAN then
            if t = CBool then read_column_rle_bool reg file cm t else Inl UNSUPPORTED_ENCODING
          else read_plain reg file cm type_length t)"

text \<open>\<^verbatim>\<open>read_column<T>\<close>.\<close>

definition read_column :: "registry \<Rightarrow> parquet_reader \<Rightarrow> ctype \<Rightarrow> nat \<Rightarrow> nat \<Rightarrow> cvalue list expected" where
  "read_column reg r t g c =
     (if g \<ge> num_row_groups r then Inl OUT_OF_RANGE
      else if c \<ge> num_columns (pr_schema r) then Inl OUT_OF_RANGE
      else case metadata_at r g c of
        Inl e \<Rightarrow> Inl e
      | Inr cm \<Rightarrow> read_chunk reg (pr_file_data r) cm (cd_type_length (sc_columns (pr_schema r) ! c)) t)"

section \<open>Values as text\<close>

text \<open>\<^verbatim>\<open>std::to_string\<close> of a \<^verbatim>\<open>float\<close> and a \<^verbatim>\<open>double\<close> are the arguments \<open>ft\<close> and \<open>dt\<close>.\<close>

definition text_of :: "string \<Rightarrow> bytes" where "text_of s = map (\<lambda>c. of_nat (of_char c)) s"

fun value_text :: "(u32 \<Rightarrow> bytes) \<Rightarrow> (u64 \<Rightarrow> bytes) \<Rightarrow> cvalue \<Rightarrow> bytes" where
  "value_text ft dt (VBool b) = text_of (if b then ''true'' else ''false'')"
| "value_text ft dt (VInt32 v) = text_of (int_to_string (sint v))"
| "value_text ft dt (VInt64 v) = text_of (int_to_string (sint v))"
| "value_text ft dt (VFloat v) = ft v"
| "value_text ft dt (VDouble v) = dt v"
| "value_text ft dt (VString s) = s"

definition hex_digit :: "u8 \<Rightarrow> u8" where "hex_digit d = (if d < 10 then 48 + d else 87 + d)"

definition hex_encode :: "bytes \<Rightarrow> bytes" where
  "hex_encode bytes = concat (map (\<lambda>b. [hex_digit (drop_bit 4 b AND 0x0F), hex_digit (b AND 0x0F)]) bytes)"

definition ctype_at :: "u32 \<Rightarrow> ctype option" where
  "ctype_at pt = map_of (map (\<lambda>t. (parquet_type_of t, t)) [CBool, CInt32, CInt64, CFloat, CDouble, CString]) pt"

definition read_column_as_strings :: "registry \<Rightarrow> (u32 \<Rightarrow> bytes) \<Rightarrow> (u64 \<Rightarrow> bytes) \<Rightarrow> parquet_reader \<Rightarrow> nat \<Rightarrow> nat \<Rightarrow> bytes list expected" where
  "read_column_as_strings reg ft dt r g c =
     (if g \<ge> num_row_groups r then Inl OUT_OF_RANGE
      else if c \<ge> num_columns (pr_schema r) then Inl OUT_OF_RANGE
      else let pt = cd_physical_type (sc_columns (pr_schema r) ! c) in
        case ctype_at pt of
          Some t \<Rightarrow> map_sum id (map (value_text ft dt)) (read_column reg r t g c)
        | None \<Rightarrow>
            if pt = FIXED_LEN_BYTE_ARRAY then
              (case make_column_reader reg r g c of
                 Inl e \<Rightarrow> Inl e
               | Inr (cr, num_values) \<Rightarrow> map_sum id (map hex_encode) (fst (read_bytes_each (nat num_values) cr)))
            else Inl UNSUPPORTED_TYPE)"

text \<open>A loop over results that stops at the first error.\<close>

fun collect :: "('k \<Rightarrow> 'v expected) \<Rightarrow> 'k list \<Rightarrow> 'v list expected" where
  "collect f [] = Inr []"
| "collect f (k # ks) = (case f k of Inl e \<Rightarrow> Inl e | Inr v \<Rightarrow> (case collect f ks of Inl e \<Rightarrow> Inl e | Inr vs \<Rightarrow> Inr (v # vs)))"

definition read_row_group :: "registry \<Rightarrow> (u32 \<Rightarrow> bytes) \<Rightarrow> (u64 \<Rightarrow> bytes) \<Rightarrow> parquet_reader \<Rightarrow> nat \<Rightarrow> bytes list list expected" where
  "read_row_group reg ft dt r g = collect (read_column_as_strings reg ft dt r g) [0..<num_columns (pr_schema r)]"

text \<open>The rows of a group's columns: the first column says how many, a shorter one is padded with empty texts.\<close>

definition rows_of :: "nat \<Rightarrow> bytes list list \<Rightarrow> bytes list list" where
  "rows_of n cols =
     (case cols of [] \<Rightarrow> []
      | first # rest \<Rightarrow> map (\<lambda>k. map (\<lambda>c. if k < length (cols ! c) then cols ! c ! k else []) [0..<n]) [0..<length first])"

definition read_all :: "registry \<Rightarrow> (u32 \<Rightarrow> bytes) \<Rightarrow> (u64 \<Rightarrow> bytes) \<Rightarrow> parquet_reader \<Rightarrow> bytes list list expected" where
  "read_all reg ft dt r =
     (let safe_rows = (if sint (num_rows r) < 0 then 0 else sint (num_rows r)) in
      if safe_rows > 1024 * 1024 * 1024 then Inl INVALID_ARGUMENT
      else map_sum id (\<lambda>groups. concat (map (rows_of (num_columns (pr_schema r))) groups))
        (collect (read_row_group reg ft dt r) [0..<num_row_groups r]))"

text \<open>Column projection: the groups in order, in each the columns asked for.\<close>

definition read_columns :: "registry \<Rightarrow> (u32 \<Rightarrow> bytes) \<Rightarrow> (u64 \<Rightarrow> bytes) \<Rightarrow> parquet_reader \<Rightarrow> bytes list \<Rightarrow> bytes list list expected" where
  "read_columns reg ft dt r names =
     (case collect (\<lambda>name. case find_column (pr_schema r) name of None \<Rightarrow> Inl SCHEMA_MISMATCH | Some i \<Rightarrow> Inr i) names of
        Inl e \<Rightarrow> Inl e
      | Inr idx \<Rightarrow>
          map_sum id (\<lambda>groups. map (\<lambda>p. concat (map (\<lambda>cols. cols ! p) groups)) [0..<length idx])
            (collect (\<lambda>g. collect (read_column_as_strings reg ft dt r g) idx) [0..<num_row_groups r]))"

section \<open>Statistics, Bloom filters and page indexes\<close>

definition column_statistics_of :: "parquet_reader \<Rightarrow> nat \<Rightarrow> nat \<Rightarrow> statistics option" where
  "column_statistics_of r g c =
     (case metadata_at r g c of Inl e \<Rightarrow> None | Inr cm \<Rightarrow> cm_statistics cm)"

text \<open>\<open>Inr None\<close> when the filter's constructor throws.\<close>

definition read_bloom_filter :: "parquet_reader \<Rightarrow> nat \<Rightarrow> nat \<Rightarrow> bytes option expected" where
  "read_bloom_filter r g c =
     (case chunk_at r g c of
        Inl e \<Rightarrow> Inl e
      | Inr chunk \<Rightarrow>
          case ch_bloom_filter_offset chunk of
            None \<Rightarrow> Inl INVALID_FILE
          | Some offset \<Rightarrow>
              let file = pr_file_data r in
              if sint offset < 0 \<or> unat offset + 4 > length file then Inl CORRUPT_PAGE
              else let n = unat (of_le (take 4 (drop (unat offset) file)) :: u32); data_start = unat offset + 4 in
                if data_start + n > length file then Inl CORRUPT_PAGE
                else if n = 0 \<or> n mod kBytesPerBlock \<noteq> 0 then Inl CORRUPT_PAGE
                else Inr (from_data (take n (drop data_start file))))"

fun bloom_contains_value :: "bytes \<Rightarrow> cvalue \<Rightarrow> bool" where
  "bloom_contains_value f (VBool b) = might_contain_int32 f (if b then 1 else 0)"
| "bloom_contains_value f (VInt32 v) = might_contain_int32 f v"
| "bloom_contains_value f (VInt64 v) = might_contain_int64 f v"
| "bloom_contains_value f (VFloat v) = might_contain_int32 f v"
| "bloom_contains_value f (VDouble v) = might_contain_int64 f v"
| "bloom_contains_value f (VString s) = might_contain_string f s"

text \<open>\<open>None\<close> is an exception.\<close>

definition bloom_might_contain :: "parquet_reader \<Rightarrow> nat \<Rightarrow> nat \<Rightarrow> cvalue \<Rightarrow> bool option" where
  "bloom_might_contain r g c v =
     (case read_bloom_filter r g c of
        Inl e \<Rightarrow> Some True
      | Inr None \<Rightarrow> None
      | Inr (Some f) \<Rightarrow> Some (bloom_contains_value f v))"

definition index_slice :: "parquet_reader \<Rightarrow> u64 option \<Rightarrow> u32 option \<Rightarrow> bytes expected" where
  "index_slice r offset len =
     (case (offset, len) of
        (Some off, Some n) \<Rightarrow>
          if sint off < 0 \<or> sint n < 0 then Inl CORRUPT_PAGE
          else if unat off > length (pr_file_data r) \<or> unat n > length (pr_file_data r) - unat off then Inl CORRUPT_PAGE
          else Inr (take (unat n) (drop (unat off) (pr_file_data r)))
      | _ \<Rightarrow> Inl INVALID_FILE)"

definition read_column_index :: "parquet_reader \<Rightarrow> nat \<Rightarrow> nat \<Rightarrow> column_index expected" where
  "read_column_index r g c =
     (case chunk_at r g c of
        Inl e \<Rightarrow> Inl e
      | Inr chunk \<Rightarrow>
          case index_slice r (ch_column_index_offset chunk) (ch_column_index_length chunk) of
            Inl e \<Rightarrow> Inl e
          | Inr bs \<Rightarrow> (case deserialize_ColumnIndex (decoder_new bs) default_ColumnIndex of
              (ci, d) \<Rightarrow> if \<not> good d then Inl CORRUPT_PAGE else Inr ci))"

definition read_offset_index :: "parquet_reader \<Rightarrow> nat \<Rightarrow> nat \<Rightarrow> offset_index expected" where
  "read_offset_index r g c =
     (case chunk_at r g c of
        Inl e \<Rightarrow> Inl e
      | Inr chunk \<Rightarrow>
          case index_slice r (ch_offset_index_offset chunk) (ch_offset_index_length chunk) of
            Inl e \<Rightarrow> Inl e
          | Inr bs \<Rightarrow> (case deserialize_OffsetIndex (decoder_new bs) default_OffsetIndex of
              (oi, d) \<Rightarrow> if \<not> good d then Inl CORRUPT_PAGE else Inr oi))"

definition has_page_index :: "parquet_reader \<Rightarrow> nat \<Rightarrow> nat \<Rightarrow> bool" where
  "has_page_index r g c =
     (case chunk_at r g c of Inl e \<Rightarrow> False | Inr chunk \<Rightarrow> ch_column_index_offset chunk \<noteq> None \<and> ch_offset_index_offset chunk \<noteq> None)"

section \<open>File statistics\<close>

record column_file_stats =
  fs_column_name :: bytes
  fs_physical_type :: u32
  fs_logical_type :: u32
  fs_compression :: u32
  fs_uncompressed_bytes :: u64
  fs_compressed_bytes :: u64
  fs_num_values :: u64
  fs_null_count :: u64
  fs_has_bloom_filter :: bool
  fs_has_page_index :: bool

text \<open>The two quotients as their operands, \<open>None\<close> being the default.\<close>

record file_stats =
  fs_file_size_bytes :: nat
  fs_total_rows :: u64
  fs_num_row_groups :: nat
  fs_num_columns :: nat
  fs_created_by :: bytes
  fs_compression_ratio :: "(u64 \<times> u64) option"
  fs_bytes_per_row :: "(nat \<times> u64) option"
  fs_columns :: "column_file_stats list"

definition column_file_stats_new :: "column_descriptor \<Rightarrow> column_file_stats" where
  "column_file_stats_new cd = \<lparr>fs_column_name = cd_name cd, fs_physical_type = cd_physical_type cd, fs_logical_type = cd_logical_type cd,
     fs_compression = 0, fs_uncompressed_bytes = 0, fs_compressed_bytes = 0, fs_num_values = 0, fs_null_count = 0,
     fs_has_bloom_filter = False, fs_has_page_index = False\<rparr>"

definition add_chunk_file_stats :: "column_chunk \<Rightarrow> column_file_stats \<Rightarrow> column_file_stats" where
  "add_chunk_file_stats cc s =
     (case ch_meta_data cc of None \<Rightarrow> s
      | Some cmd \<Rightarrow>
          s\<lparr>fs_uncompressed_bytes := fs_uncompressed_bytes s + cm_total_uncompressed_size cmd,
            fs_compressed_bytes := fs_compressed_bytes s + cm_total_compressed_size cmd,
            fs_num_values := fs_num_values s + cm_num_values cmd, fs_compression := cm_codec cmd,
            fs_null_count := fs_null_count s + (case cm_statistics cmd of None \<Rightarrow> 0 | Some st \<Rightarrow>
              case st_null_count st of None \<Rightarrow> 0 | Some n \<Rightarrow> n),
            fs_has_bloom_filter := (fs_has_bloom_filter s \<or> pred_option (\<lambda>n. sint n \<ge> 0) (ch_bloom_filter_offset cc) \<and> ch_bloom_filter_offset cc \<noteq> None),
            fs_has_page_index := (fs_has_page_index s \<or> pred_option (\<lambda>n. sint n \<ge> 0) (ch_column_index_offset cc) \<and> ch_column_index_offset cc \<noteq> None)\<rparr>)"

definition file_stats :: "parquet_reader \<Rightarrow> file_stats" where
  "file_stats r =
     (let n = num_columns (pr_schema r); groups = fm_row_groups (pr_metadata r);
          chunks = (\<lambda>c. map (\<lambda>rg. rg_columns rg ! c) (filter (\<lambda>rg. c < length (rg_columns rg)) groups));
          metas = concat (map (\<lambda>c. List.map_filter ch_meta_data (chunks c)) [0..<n]);
          uncompressed = sum_list (map cm_total_uncompressed_size metas); compressed = sum_list (map cm_total_compressed_size metas)
      in \<lparr>fs_file_size_bytes = length (pr_file_data r), fs_total_rows = num_rows r, fs_num_row_groups = length groups, fs_num_columns = n,
           fs_created_by = pr_created_by r,
           fs_compression_ratio = (if sint compressed > 0 then Some (uncompressed, compressed) else None),
           fs_bytes_per_row = (if sint (num_rows r) > 0 then Some (length (pr_file_data r), num_rows r) else None),
           fs_columns = map (\<lambda>c. fold add_chunk_file_stats (chunks c) (column_file_stats_new (sc_columns (pr_schema r) ! c))) [0..<n]\<rparr>)"

end
