(* ===== verification/MmapReader.thy ===== *)
theory MmapReader
  imports FileReader
begin

text \<open>
  The memory-mapped readers of \<^verbatim>\<open>include/signet/mmap_reader.hpp\<close>: \<^verbatim>\<open>MmapReader\<close>, a handle on the bytes of a file, and
  \<^verbatim>\<open>MmapParquetReader\<close>, which repeats \<^verbatim>\<open>ParquetReader\<close> with checks of its own: a window of 4096 bytes for page headers, no
  limit on the size of the file, no count of the values of two encodings.  The mapped file is not changed while it is
  mapped.
\<close>

section \<open>The handle\<close>

text \<open>\<open>mh_data\<close> is the mapping, \<open>mh_fd\<close> says that the descriptor is open.\<close>

record mmap_handle =
  mh_data :: "bytes option"
  mh_fd :: bool

definition mmap_closed :: mmap_handle where "mmap_closed = \<lparr>mh_data = None, mh_fd = False\<rparr>"

text \<open>\<open>None\<close> is a file that cannot be opened, measured or mapped.\<close>

definition mmap_open :: "bytes option \<Rightarrow> mmap_handle expected" where
  "mmap_open contents =
     (case contents of None \<Rightarrow> Inl IO_ERROR
      | Some file \<Rightarrow> if length file = 0 then Inl INVALID_FILE else Inr \<lparr>mh_data = Some file, mh_fd = True\<rparr>)"

definition mmap_size :: "mmap_handle \<Rightarrow> nat" where
  "mmap_size h = (case mh_data h of None \<Rightarrow> 0 | Some file \<Rightarrow> length file)"

definition mmap_is_open :: "mmap_handle \<Rightarrow> bool" where "mmap_is_open h \<longleftrightarrow> mh_data h \<noteq> None"

text \<open>The bytes from an offset on; \<open>None\<close> is \<^verbatim>\<open>nullptr\<close>.\<close>

definition data_at :: "mmap_handle \<Rightarrow> nat \<Rightarrow> bytes option" where
  "data_at h offset = (if offset \<ge> mmap_size h then None else map_option (drop offset) (mh_data h))"

definition mmap_close :: "mmap_handle \<Rightarrow> mmap_handle" where
  "mmap_close h = h\<lparr>mh_data := None, mh_fd := False\<rparr>"

text \<open>Moving gives the new handle and what is left of the old one; \<open>same\<close> is assignment to itself.\<close>

definition mmap_move :: "mmap_handle \<Rightarrow> mmap_handle \<times> mmap_handle" where
  "mmap_move other = (other, mmap_closed)"

definition mmap_move_assign :: "bool \<Rightarrow> mmap_handle \<Rightarrow> mmap_handle \<Rightarrow> mmap_handle \<times> mmap_handle" where
  "mmap_move_assign same h other = (if same then (h, h) else (other, mmap_closed))"

section \<open>Opening a Parquet file\<close>

text \<open>The fields are those of \<^verbatim>\<open>ParquetReader\<close>, the bytes being mapped.\<close>

type_synonym mmap_parquet_reader = parquet_reader

definition mmap_parquet_open :: "bytes option \<Rightarrow> mmap_parquet_reader expected" where
  "mmap_parquet_open contents =
     (case mmap_open contents of
        Inl e \<Rightarrow> Inl e
      | Inr h \<Rightarrow>
          let sz = mmap_size h; file = the (mh_data h) in
          if sz < 12 then Inl INVALID_FILE
          else if (of_le (take 4 file) :: u32) \<noteq> PARQUET_MAGIC then Inl INVALID_FILE
          else let magic_end = of_le (take 4 (drop (sz - 4) file)) :: u32 in
            if magic_end \<noteq> PARQUET_MAGIC \<and> magic_end \<noteq> PARQUET_MAGIC_ENCRYPTED then Inl INVALID_FILE
            else if magic_end = PARQUET_MAGIC_ENCRYPTED then Inl ENCRYPTION_ERROR
            else let footer_len = unat (of_le (take 4 (drop (sz - 8) file)) :: u32) in
              if footer_len = 0 \<or> footer_len > sz - 12 then Inl CORRUPT_FOOTER
              else case fst (deserialize_FileMetaData (decoder_new (take footer_len (drop (sz - 8 - footer_len) file))) default_FileMetaData) of
                Inl e \<Rightarrow> Inl e
              | Inr m \<Rightarrow> Inr \<lparr>pr_file_data = file, pr_metadata = m, pr_schema = metadata_schema m,
                  pr_created_by = value_or (fm_created_by m) []\<rparr>)"

section \<open>Pages\<close>

definition kHdrWindow :: nat where "kHdrWindow = 4096"
definition MMAP_MAX_VALUES_PER_PAGE :: int where "MMAP_MAX_VALUES_PER_PAGE = 100000000"
definition MMAP_MAX_PAGE_SIZE :: nat where "MMAP_MAX_PAGE_SIZE = 256 * 1024 * 1024"

definition validate_mmap_page_value_count :: "int \<Rightarrow> nat expected" where
  "validate_mmap_page_value_count n = (if n < 0 \<or> n > MMAP_MAX_VALUES_PER_PAGE then Inl CORRUPT_PAGE else Inr (nat n))"

text \<open>The bytes of a page after its checksum was compared.\<close>

definition mmap_checked :: "page_header \<Rightarrow> bytes \<Rightarrow> bytes expected" where
  "mmap_checked ph data =
     (case pg_crc ph of None \<Rightarrow> Inr data | Some crc \<Rightarrow> if reader_crc32 data \<noteq> crc then Inl CORRUPT_PAGE else Inr data)"

text \<open>The decompression that \<^verbatim>\<open>read_page_at\<close> and \<^verbatim>\<open>make_column_reader\<close> share; \<open>n\<close> is the uncompressed size.\<close>

definition mmap_unpack :: "registry \<Rightarrow> u32 \<Rightarrow> nat \<Rightarrow> bytes \<Rightarrow> bytes expected" where
  "mmap_unpack reg codec n data =
     (if codec \<noteq> 0 then
        if n = 0 \<or> n > MMAP_MAX_PAGE_SIZE then Inl CORRUPT_PAGE
        else if length data > 0 \<and> n div length data > 1024 then Inl CORRUPT_DATA
        else decompress_page reg codec data n
      else Inr data)"

definition mmap_read_page_at :: "registry \<Rightarrow> bytes \<Rightarrow> u64 \<Rightarrow> u32 \<Rightarrow> (bytes \<times> page_header) expected" where
  "mmap_read_page_at reg file offset codec =
     (if sint offset < 0 \<or> unat offset \<ge> length file then Inl CORRUPT_PAGE
      else let mapped_start = drop (unat offset) file in
        case deserialize_PageHeader (decoder_new (take kHdrWindow mapped_start)) default_PageHeader of
          (Inl e, d) \<Rightarrow> Inl e
        | (Inr ph, d) \<Rightarrow>
            if sint (pg_compressed_page_size ph) < 0 \<or> sint (pg_uncompressed_page_size ph) < 0 then Inl CORRUPT_PAGE
            else let n = unat (pg_compressed_page_size ph) in
              if dpos d + n > length mapped_start then Inl CORRUPT_PAGE
              else case mmap_checked ph (take n (drop (dpos d) mapped_start)) of
                Inl e \<Rightarrow> Inl e
              | Inr data \<Rightarrow> (case mmap_unpack reg codec (unat (pg_uncompressed_page_size ph)) data of Inl e \<Rightarrow> Inl e | Inr out \<Rightarrow> Inr (out, ph)))"

definition mmap_reader_for :: "registry \<Rightarrow> bytes \<Rightarrow> column_metadata \<Rightarrow> u32 \<Rightarrow> (column_reader \<times> int) expected" where
  "mmap_reader_for reg file cm type_length =
     (let offset = cm_data_page_offset cm in
      if sint offset < 0 \<or> unat offset \<ge> length file then Inl CORRUPT_PAGE
      else let page_start = drop (unat offset) file in
        case deserialize_PageHeader (decoder_new page_start) default_PageHeader of
          (Inl e, d) \<Rightarrow> Inl e
        | (Inr ph, d) \<Rightarrow>
            if sint (pg_compressed_page_size ph) \<le> 0 then Inl CORRUPT_PAGE
            else let n = unat (pg_compressed_page_size ph) in
              if dpos d + n > length page_start then Inl CORRUPT_PAGE
              else case mmap_checked ph (take n (drop (dpos d) page_start)) of
                Inl e \<Rightarrow> Inl e
              | Inr data \<Rightarrow>
                  case mmap_unpack reg (cm_codec cm) (size_of_int32 (pg_uncompressed_page_size ph)) data of
                    Inl e \<Rightarrow> Inl e
                  | Inr out \<Rightarrow>
                      let num_values = page_num_values cm ph in
                      if num_values < 0 \<or> num_values > MMAP_MAX_VALUES_PER_PAGE then Inl CORRUPT_PAGE
                      else Inr (column_reader_new (cm_type cm) out num_values type_length, num_values))"

definition mmap_make_column_reader :: "registry \<Rightarrow> mmap_parquet_reader \<Rightarrow> nat \<Rightarrow> nat \<Rightarrow> (column_reader \<times> int) expected" where
  "mmap_make_column_reader reg r g c =
     (case metadata_at r g c of
        Inl e \<Rightarrow> Inl e
      | Inr cm \<Rightarrow> mmap_reader_for reg (pr_file_data r) cm
          (if c < num_columns (pr_schema r) then cd_type_length (sc_columns (pr_schema r) ! c) else - 1))"

section \<open>Decoding paths\<close>

definition mmap_offset_after_dictionary :: "bytes \<Rightarrow> u64 \<Rightarrow> u64 expected" where
  "mmap_offset_after_dictionary file dict_offset =
     (case deserialize_PageHeader (decoder_new (drop (unat dict_offset) file)) default_PageHeader of
        (Inl e, d) \<Rightarrow> Inl e
      | (Inr ph, d) \<Rightarrow> Inr (dict_offset + of_nat (dpos d) + scast (pg_compressed_page_size ph)))"

definition mmap_read_column_dict :: "registry \<Rightarrow> bytes \<Rightarrow> column_metadata \<Rightarrow> ctype \<Rightarrow> cvalue list expected" where
  "mmap_read_column_dict reg file cm t =
     (let dict_offset = value_or (cm_dictionary_page_offset cm) (cm_data_page_offset cm) in
      case mmap_read_page_at reg file dict_offset (cm_codec cm) of
        Inl e \<Rightarrow> Inl e
      | Inr (dict, dict_ph) \<Rightarrow>
          if pg_type dict_ph \<noteq> DICTIONARY_PAGE \<or> pg_dictionary_page_header dict_ph = None then Inl CORRUPT_PAGE
          else let count = sint (di_num_values (the (pg_dictionary_page_header dict_ph))) in
            if count < 0 \<or> count > 10000000 then Inl CORRUPT_PAGE
            else case (if cm_data_page_offset cm = dict_offset then mmap_offset_after_dictionary file dict_offset else Inr (cm_data_page_offset cm)) of
              Inl e \<Rightarrow> Inl e
            | Inr data_offset \<Rightarrow>
                case mmap_read_page_at reg file data_offset (cm_codec cm) of
                  Inl e \<Rightarrow> Inl e
                | Inr (data, ph) \<Rightarrow>
                    let n = page_num_values cm ph in
                    if n < 0 \<or> n > 100000000 then Inl CORRUPT_DATA
                    else decode_dictionary t dict (nat count) data (nat n))"

definition mmap_data_page :: "registry \<Rightarrow> bytes \<Rightarrow> column_metadata \<Rightarrow> (bytes \<times> nat) expected" where
  "mmap_data_page reg file cm =
     (case mmap_read_page_at reg file (cm_data_page_offset cm) (cm_codec cm) of
        Inl e \<Rightarrow> Inl e
      | Inr (data, ph) \<Rightarrow> (case validate_mmap_page_value_count (page_num_values cm ph) of Inl e \<Rightarrow> Inl e | Inr n \<Rightarrow> Inr (data, n)))"

definition mmap_read_column_delta :: "registry \<Rightarrow> bytes \<Rightarrow> column_metadata \<Rightarrow> ctype \<Rightarrow> cvalue list expected" where
  "mmap_read_column_delta reg file cm t =
     (case mmap_data_page reg file cm of
        Inl e \<Rightarrow> Inl e
      | Inr (data, n) \<Rightarrow>
          if t = CInt32 then Inr (map VInt32 (decode_int32 data n))
          else if t = CInt64 then Inr (map VInt64 (decode_int64 data n))
          else Inl UNSUPPORTED_ENCODING)"

definition mmap_read_column_bss :: "registry \<Rightarrow> bytes \<Rightarrow> column_metadata \<Rightarrow> ctype \<Rightarrow> cvalue list expected" where
  "mmap_read_column_bss reg file cm t =
     (case mmap_data_page reg file cm of
        Inl e \<Rightarrow> Inl e
      | Inr (data, n) \<Rightarrow>
          if t = CFloat then Inr (map VFloat (decode_float data n))
          else if t = CDouble then Inr (map VDouble (decode_double data n))
          else Inl UNSUPPORTED_ENCODING)"

definition mmap_read_column_rle_bool :: "registry \<Rightarrow> bytes \<Rightarrow> column_metadata \<Rightarrow> cvalue list expected" where
  "mmap_read_column_rle_bool reg file cm =
     (case mmap_data_page reg file cm of
        Inl e \<Rightarrow> Inl e
      | Inr (data, n) \<Rightarrow> Inr (map (\<lambda>i. VBool (i \<noteq> 0)) (take n (decode_with_length data 1 n))))"

definition mmap_read_plain :: "registry \<Rightarrow> bytes \<Rightarrow> column_metadata \<Rightarrow> u32 \<Rightarrow> ctype \<Rightarrow> cvalue list expected" where
  "mmap_read_plain reg file cm type_length t =
     (case mmap_reader_for reg file cm type_length of
        Inl e \<Rightarrow> Inl e
      | Inr (cr, num_values) \<Rightarrow>
          if t = CBool then fst (PlainPage.read_each CBool (nat num_values) cr) else fst (read_batch t (nat num_values) cr))"

definition mmap_read_chunk :: "registry \<Rightarrow> bytes \<Rightarrow> column_metadata \<Rightarrow> u32 \<Rightarrow> ctype \<Rightarrow> cvalue list expected" where
  "mmap_read_chunk reg file cm type_length t =
     (case fold (scan_encoding (cm_type cm)) (cm_encodings cm) (False, PLAIN) of
        (has_dict, encoding) \<Rightarrow>
          if has_dict then if t \<noteq> CBool then mmap_read_column_dict reg file cm t else Inl UNSUPPORTED_ENCODING
          else if encoding = DELTA_BINARY_PACKED then
            if t = CInt32 \<or> t = CInt64 then mmap_read_column_delta reg file cm t else Inl UNSUPPORTED_ENCODING
          else if encoding = BYTE_STREAM_SPLIT then
            if t = CFloat \<or> t = CDouble then mmap_read_column_bss reg file cm t else Inl UNSUPPORTED_ENCODING
          else if encoding = RLE \<and> cm_type cm = BOOLEAN then
            if t = CBool then mmap_read_column_rle_bool reg file cm else Inl UNSUPPORTED_ENCODING
          else mmap_read_plain reg file cm type_length t)"

definition mmap_read_column :: "registry \<Rightarrow> mmap_parquet_reader \<Rightarrow> ctype \<Rightarrow> nat \<Rightarrow> nat \<Rightarrow> cvalue list expected" where
  "mmap_read_column reg r t g c =
     (if g \<ge> num_row_groups r then Inl OUT_OF_RANGE
      else if c \<ge> num_columns (pr_schema r) then Inl OUT_OF_RANGE
      else case metadata_at r g c of
        Inl e \<Rightarrow> Inl e
      | Inr cm \<Rightarrow> mmap_read_chunk reg (pr_file_data r) cm (cd_type_length (sc_columns (pr_schema r) ! c)) t)"

section \<open>Values as text\<close>

definition mmap_read_column_as_strings :: "registry \<Rightarrow> (u32 \<Rightarrow> bytes) \<Rightarrow> (u64 \<Rightarrow> bytes) \<Rightarrow> mmap_parquet_reader \<Rightarrow> nat \<Rightarrow> nat \<Rightarrow> bytes list expected" where
  "mmap_read_column_as_strings reg ft dt r g c =
     (if g \<ge> num_row_groups r then Inl OUT_OF_RANGE
      else if c \<ge> num_columns (pr_schema r) then Inl OUT_OF_RANGE
      else let pt = cd_physical_type (sc_columns (pr_schema r) ! c) in
        case ctype_at pt of
          Some t \<Rightarrow> map_sum id (map (value_text ft dt)) (mmap_read_column reg r t g c)
        | None \<Rightarrow>
            if pt = FIXED_LEN_BYTE_ARRAY then
              (case mmap_make_column_reader reg r g c of
                 Inl e \<Rightarrow> Inl e
               | Inr (cr, num_values) \<Rightarrow> map_sum id (map hex_encode) (fst (read_bytes_each (nat num_values) cr)))
            else Inl UNSUPPORTED_TYPE)"

definition MAX_READ_ALL_ROWS :: int where "MAX_READ_ALL_ROWS = 100000000"

definition mmap_read_all :: "registry \<Rightarrow> (u32 \<Rightarrow> bytes) \<Rightarrow> (u64 \<Rightarrow> bytes) \<Rightarrow> mmap_parquet_reader \<Rightarrow> bytes list list expected" where
  "mmap_read_all reg ft dt r =
     (if sint (num_rows r) < 0 \<or> sint (num_rows r) > MAX_READ_ALL_ROWS then Inl INVALID_ARGUMENT
      else map_sum id (\<lambda>groups. concat (map (rows_of (num_columns (pr_schema r))) groups))
        (collect (\<lambda>g. collect (mmap_read_column_as_strings reg ft dt r g) [0..<num_columns (pr_schema r)]) [0..<num_row_groups r]))"

section \<open>The handle as a state machine\<close>

text \<open>A handle maps a nonempty file exactly when its descriptor is open.\<close>

definition mmap_ok :: "mmap_handle \<Rightarrow> bool" where
  "mmap_ok h \<longleftrightarrow> (mh_fd h \<longleftrightarrow> mmap_is_open h) \<and> mh_data h \<noteq> Some []"

lemma mmap_open_ok: "mmap_open contents = Inr h \<Longrightarrow> mmap_ok h \<and> mmap_is_open h \<and> mh_data h = contents"
  by (auto simp: mmap_open_def mmap_ok_def mmap_is_open_def split: option.splits if_splits)

lemma mmap_ops_ok:
  assumes "mmap_ok h" "mmap_ok h'"
  shows "mmap_ok (mmap_close h)" "mmap_ok (fst (mmap_move h))" "mmap_ok (snd (mmap_move h))"
    "mmap_ok (fst (mmap_move_assign same h h'))" "mmap_ok (snd (mmap_move_assign same h h'))"
  using assms by (simp_all add: mmap_ok_def mmap_close_def mmap_move_def mmap_closed_def mmap_is_open_def mmap_move_assign_def)

lemma mmap_close_idem: "mmap_close (mmap_close h) = mmap_close h" "\<not> mmap_is_open (mmap_close h)" "data_at (mmap_close h) offset = None"
  by (simp_all add: mmap_close_def mmap_is_open_def data_at_def)

lemma data_at_in_bounds: "data_at h offset = Some bs \<Longrightarrow> bs \<noteq> [] \<and> length bs = mmap_size h - offset"
  by (auto simp: data_at_def mmap_size_def split: if_splits)

end
