(* ===== verification/FilePage.thy ===== *)
theory FilePage
  imports MmapReader
begin

text \<open>
  What the writer puts into a column chunk, the reader gets out of it: the pages of the writer stand in the file with
  a header that is read back exactly, the checksum and the size checks accept them, each encoding is undone by the
  path that \<^verbatim>\<open>read_column\<close> chooses for it, and nothing that follows in the file matters.
\<close>

section \<open>Steps that fail only with the disk\<close>

text \<open>
  \<open>works\<close> is the calculus for the writer's steps: an operation returns with its postcondition, or throws because
  the stream has gone bad, which a disk that never fills rules out.
\<close>

definition same_disk :: "parquet_writer \<Rightarrow> parquet_writer \<Rightarrow> bool" where
  "same_disk w w' \<longleftrightarrow> dk_keeps (pw_room w') = dk_keeps (pw_room w)
     \<and> (dk_takes (pw_room w) = Some \<infinity> \<longrightarrow> dk_takes (pw_room w') = Some \<infinity>)"

definition works :: "parquet_writer \<Rightarrow> 'a outcome \<times> parquet_writer \<Rightarrow> ('a \<Rightarrow> parquet_writer \<Rightarrow> bool) \<Rightarrow> bool" where
  "works w p Q \<longleftrightarrow>
     (\<exists>v w'. p = (Returned v, w') \<and> Q v w' \<and> same_disk w w')
     \<or> (fst p = Thrown \<and> dk_takes (pw_room (snd p)) = None \<and> dk_takes (pw_room w) \<noteq> Some \<infinity>)"

lemma works_ret: "Q v w' \<Longrightarrow> pw_room w' = pw_room w \<Longrightarrow> works w (ret v w') Q"
  by (simp add: works_def ret_def same_disk_def)

lemma works_after:
  assumes "works w p Q" "\<And>v w1. Q v w1 \<Longrightarrow> works w1 (f v w1) R"
  shows "works w (after p f) R"
proof (cases "fst p = Thrown \<and> dk_takes (pw_room (snd p)) = None \<and> dk_takes (pw_room w) \<noteq> Some \<infinity>")
  case True
  then show ?thesis by (cases p) (simp add: works_def)
next
  case False
  then obtain v w1 where p: "p = (Returned v, w1)" "Q v w1" "same_disk w w1"
    using assms(1) by (auto simp: works_def)
  show ?thesis using assms(2)[OF p(2)] p(1,3) by (auto simp: works_def same_disk_def)
qed

lemma works_weaken: "works w p Q \<Longrightarrow> (\<And>v w'. Q v w' \<Longrightarrow> R v w') \<Longrightarrow> works w p R"
  by (auto simp: works_def)

lemma works_room: "works w p Q \<Longrightarrow> pw_room w' = pw_room w \<Longrightarrow> works w' p Q"
  by (auto simp: works_def same_disk_def)

lemma kept_whole: "enat (length bs) \<le> n \<Longrightarrow> kept_part n bs = bs" "kept_part \<infinity> bs = bs"
  by (auto simp: kept_part_def split: enat.splits)

text \<open>The writer after bytes were appended, and nothing else changed.\<close>

definition extended :: "parquet_writer \<Rightarrow> bytes \<Rightarrow> parquet_writer \<Rightarrow> bool" where
  "extended w bs w' \<longleftrightarrow>
     (\<exists>r. w' = w\<lparr>pw_file := pw_file w @ bs, pw_room := r, pw_file_offset := pw_file_offset w + length bs\<rparr>)"

lemma extended_trans: "extended w a w1 \<Longrightarrow> extended w1 b w2 \<Longrightarrow> extended w (a @ b) w2"
  by (auto simp: extended_def add.assoc)

lemma extended_file: "extended w bs w' \<Longrightarrow> pw_file w' = pw_file w @ bs \<and> pw_file_offset w' = pw_file_offset w + length bs"
  by (auto simp: extended_def)

lemma works_write_raw: "works w (write_raw data w) (\<lambda>_ w'. extended w data w')"
  by (auto simp: works_def write_raw_def extended_def same_disk_def dest: enat_iless split: option.splits)

lemma write_raw_le32_eq: "write_raw_le32 v = write_raw (to_le 4 v)"
  using append_le(1)[of "[]" v] by (simp add: append_le32_def write_raw_le32_def)

section \<open>The length of a page header\<close>

definition grows :: "nat \<Rightarrow> writer \<Rightarrow> bool" where
  "grows k wr \<longleftrightarrow> (\<forall>e e'. wr e = Some e' \<longrightarrow> length (ebuf e) \<le> length (ebuf e') \<and> length (ebuf e') \<le> length (ebuf e) + k)"

lemma grows_run: "list_all2 grows ks ws \<Longrightarrow> grows (sum_list ks) (run ws)"
proof (induction rule: list_all2_induct)
  case (Cons k ks w ws)
  show ?case unfolding grows_def
  proof (intro allI impI)
    fix e e' assume "run (w # ws) e = Some e'"
    then obtain e1 where "w e = Some e1" "run ws e1 = Some e'" by (auto split: option.splits)
    then show "length (ebuf e) \<le> length (ebuf e') \<and> length (ebuf e') \<le> length (ebuf e) + sum_list (k # ks)"
      using Cons(1,3) by (force simp: grows_def)
  qed
qed (simp add: grows_def)

lemma length_leb_word: "length (leb (unat (v :: u32))) \<le> 5"
  by (rule leb_length) (use unat_lt_exp[of v] in simp_all)

lemma grows_i32: "grows 5 (write_i32 v)"
  using length_leb_word by (auto simp: grows_def write_i32_def write_varint_leb append_bytes_def)

lemma grows_field: "grows 6 (write_field i t)"
  using length_leb_word by (auto simp: grows_def write_field_def write_zigzag_i16_def write_varint_leb append_bytes_def Let_def)

lemma grows_put_field: "grows k w \<Longrightarrow> grows (6 + k) (put_field i t w)"
  unfolding put_field_def using grows_run[of "[6, k]" "[write_field i t, w]"] grows_field by simp

lemma grows_opt: "v \<noteq> None \<longrightarrow> grows k (w (the v)) \<Longrightarrow> grows (if v = None then 0 else k) (opt v w)"
  by (cases v) (auto simp: opt_def grows_def)

lemma grows_struct:
  assumes "list_all2 grows ks ws" "write_struct ws e = Some e'"
  shows "length (ebuf e) < length (ebuf e') \<and> length (ebuf e') \<le> length (ebuf e) + (sum_list ks + 1)"
  using assms(2) grows_run[OF assms(1), unfolded grows_def, rule_format, of "e\<lparr>eids := 0 # eids e\<rparr>"]
  by (auto simp: write_struct_def run_append enc_begin_struct_def write_stop_def enc_end_struct_def append_bytes_def split: option.splits)

lemma grows_struct': "list_all2 grows ks ws \<Longrightarrow> grows (sum_list ks + 1) (write_struct ws)"
  using grows_struct unfolding grows_def[of "sum_list ks + 1"] by (metis less_imp_le)

lemma grows_data_page: "ph_statistics v = None \<Longrightarrow> grows 45 (serialize_DataPageHeader v)"
  unfolding serialize_DataPageHeader_def
  using grows_struct'[of "[11, 11, 11, 11, 0]"] grows_put_field[OF grows_i32] grows_opt[of "ph_statistics v" 0]
  by simp

lemma grows_dictionary_page: "di_is_sorted v = None \<Longrightarrow> grows 23 (serialize_DictionaryPageHeader v)"
  unfolding serialize_DictionaryPageHeader_def
  using grows_struct'[of "[11, 11, 0]"] grows_put_field[OF grows_i32] grows_opt[of "di_is_sorted v" 0]
  by simp

definition simple_header :: "page_header \<Rightarrow> bool" where
  "simple_header ph \<longleftrightarrow> pg_data_page_header_v2 ph = None \<and> pred_option (\<lambda>d. ph_statistics d = None) (pg_data_page_header ph)
     \<and> pred_option (\<lambda>d. di_is_sorted d = None) (pg_dictionary_page_header ph)"

lemma header_length:
  assumes "simple_header ph" "header_of ph = Some h"
  shows "h \<noteq> [] \<and> length h \<le> kHdrWindow"
proof -
  let ?w = "[put_field 1 T_I32 (write_i32 (pg_type ph)), put_field 2 T_I32 (write_i32 (pg_uncompressed_page_size ph)),
     put_field 3 T_I32 (write_i32 (pg_compressed_page_size ph)), opt (pg_crc ph) (\<lambda>n. put_field 4 T_I32 (write_i32 n)),
     opt (pg_data_page_header ph) (\<lambda>x. put_field 5 T_STRUCT (serialize_DataPageHeader x)),
     opt (pg_dictionary_page_header ph) (\<lambda>x. put_field 7 T_STRUCT (serialize_DictionaryPageHeader x)),
     opt (pg_data_page_header_v2 ph) (\<lambda>x. put_field 8 T_STRUCT (serialize_DataPageHeaderV2 x))]"
  let ?k = "[11, 11, 11, if pg_crc ph = None then 0 else 11, if pg_data_page_header ph = None then 0 else 51,
     if pg_dictionary_page_header ph = None then 0 else 29, if pg_data_page_header_v2 ph = None then 0 else 0]"
  have f: "grows 11 (put_field i T_I32 (write_i32 n))" for i n using grows_put_field[OF grows_i32] by simp
  have s: "pg_data_page_header ph = Some d \<Longrightarrow> grows 51 (put_field 5 T_STRUCT (serialize_DataPageHeader d))"
    "pg_dictionary_page_header ph = Some di \<Longrightarrow> grows 29 (put_field 7 T_STRUCT (serialize_DictionaryPageHeader di))" for d di
    using assms(1) grows_put_field[OF grows_data_page] grows_put_field[OF grows_dictionary_page] by (simp_all add: simple_header_def)
  have "list_all2 grows ?k ?w"
    using assms(1) f s
    by (simp only: list.rel_inject list_all2_Nil simp_thms) (intro conjI f grows_opt; auto simp: simple_header_def)
  moreover obtain e where "write_struct ?w encoder_new = Some e" "h = ebuf e"
    using assms(2) by (auto simp: header_of_def serialize_PageHeader_def)
  ultimately show ?thesis using grows_struct[of ?k ?w encoder_new e] by (auto simp: encoder_new_def kHdrWindow_def split: if_splits)
qed

section \<open>A page in a file\<close>

definition page_in :: "bytes \<Rightarrow> nat \<Rightarrow> page_header \<Rightarrow> bytes \<Rightarrow> bool" where
  "page_in file off ph data \<longleftrightarrow> (\<exists>h pre post. header_of ph = Some h \<and> file = pre @ h @ data @ post \<and> length pre = off)"

lemma page_in_append: "page_in file off ph data \<Longrightarrow> page_in (file @ suffix) off ph data"
  unfolding page_in_def by (metis append.assoc)

text \<open>A header as the writer makes it, for the bytes of its page.\<close>

definition heads :: "page_header \<Rightarrow> bytes \<Rightarrow> bool" where
  "heads ph data \<longleftrightarrow> simple_header ph \<and> ok_page_header ph \<and> length data \<le> INT32_MAX
     \<and> pg_compressed_page_size ph = of_nat (length data) \<and> pg_crc ph = Some (page_crc32 data)"

lemma header_written: "ok_page_header ph \<Longrightarrow> \<exists>h. header_of ph = Some h"
  using PG.encode_decode[of ph] by (auto simp: header_of_def)

lemma small_word32: "n \<le> INT32_MAX \<Longrightarrow> unat (of_nat n :: u32) = n \<and> sint (of_nat n :: u32) = int n"
  by (auto simp: INT32_MAX_def unat_of_nat take_bit_eq_mod signed_of_nat signed_take_bit_int_eq_self)

text \<open>The header is read back from the file, and from the window of the memory-mapped reader.\<close>

lemma header_read:
  assumes "page_in file off ph data" "heads ph data"
  shows "off < length file \<and> (\<exists>d d' rest. deserialize_PageHeader (decoder_new (drop off file)) default_PageHeader = (Inr ph, d)
    \<and> deserialize_PageHeader (decoder_new (take kHdrWindow (drop off file))) default_PageHeader = (Inr ph, d') \<and> dpos d' = dpos d
    \<and> drop (dpos d) (drop off file) = data @ rest \<and> dpos d \<le> length (drop off file))"
proof -
  obtain h pre post where f: "header_of ph = Some h" "file = pre @ h @ data @ post" "length pre = off"
    using assms(1) by (auto simp: page_in_def)
  have ok: "ok_page_header ph" and s: "simple_header ph" using assms(2) by (auto simp: heads_def)
  obtain bs where b: "serialize_PageHeader ph encoder_new = Some (append_bytes bs encoder_new)"
    "length bs \<le> MAX_TOTAL_FIELDS \<longrightarrow> (\<forall>rest. \<exists>d. deserialize_PageHeader (decoder_new (bs @ rest)) default_PageHeader = (Inr ph, d)
        \<and> dpos d = length bs \<and> good d)"
    using PG.encode_decode[OF ok] by blast
  have bs: "bs = h" using b(1) f(1) by (simp add: header_of_def append_bytes_def encoder_new_def)
  have h: "h \<noteq> []" "length h \<le> kHdrWindow" using header_length[OF s f(1)] by auto
  then have "length h \<le> MAX_TOTAL_FIELDS" by (simp add: kHdrWindow_def MAX_TOTAL_FIELDS_def)
  then have rd: "\<exists>d. deserialize_PageHeader (decoder_new (h @ rest)) default_PageHeader = (Inr ph, d) \<and> dpos d = length h" for rest
    using b(2) unfolding bs by blast
  obtain d where d: "deserialize_PageHeader (decoder_new (h @ data @ post)) default_PageHeader = (Inr ph, d)" "dpos d = length h"
    using rd by blast
  have dr: "drop off file = h @ data @ post" using f by simp
  have "take kHdrWindow (drop off file) = h @ take (kHdrWindow - length h) (data @ post)" unfolding dr using h(2) by simp
  then obtain d' where "deserialize_PageHeader (decoder_new (take kHdrWindow (drop off file))) default_PageHeader = (Inr ph, d')" "dpos d' = length h"
    using rd by metis
  then show ?thesis using d dr h f(2,3) by auto
qed

text \<open>The reader gets the page back, checksum and bounds included.\<close>

text \<open>What both readers compute of a page: the offset, the sizes and the checksum.\<close>

lemma page_numbers:
  assumes "page_in file off ph data" "heads ph data" "length file \<le> MAX_FILE_SIZE"
  shows "sint (of_nat off :: u64) = int off" "unat (of_nat off :: u64) = off"
    "sint (pg_compressed_page_size ph) = int (length data)" "unat (pg_compressed_page_size ph) = length data" "pg_crc ph = Some (reader_crc32 data)"
proof -
  have "off < 2 ^ 62" using header_read[OF assms(1,2)] assms(3) by (auto simp: MAX_FILE_SIZE_def)
  then show "sint (of_nat off :: u64) = int off" "unat (of_nat off :: u64) = off"
    by (simp_all add: unat_of_nat take_bit_eq_mod signed_of_nat signed_take_bit_int_eq_self)
  show "sint (pg_compressed_page_size ph) = int (length data)" "unat (pg_compressed_page_size ph) = length data" "pg_crc ph = Some (reader_crc32 data)"
    using assms(2) small_word32[of "length data"] by (auto simp: heads_def reader_crc32_def page_crc32_def)
qed

lemma raw_page_at_page:
  assumes "page_in file off ph data" "heads ph data" "length file \<le> MAX_FILE_SIZE"
  shows "raw_page_at file (of_nat off) = Inr (data, ph)"
proof -
  obtain d rest where d: "off < length file" "deserialize_PageHeader (decoder_new (drop off file)) default_PageHeader = (Inr ph, d)"
      "drop (dpos d) (drop off file) = data @ rest" "dpos d \<le> length (drop off file)"
    using header_read[OF assms(1,2)] by blast
  note n = page_numbers[OF assms]
  have "dpos d + length data \<le> length (drop off file)"
    using arg_cong[OF d(3), of length] d(4) by simp
  then show ?thesis unfolding raw_page_at_def using d n by simp
qed

section \<open>Compressed pages\<close>

definition codec_ok :: "registry \<Rightarrow> compression \<Rightarrow> bool" where
  "codec_ok reg c \<longleftrightarrow> c = UNCOMPRESSED \<or> c = SNAPPY \<and> reg SNAPPY = Some snappy_codec"

lemma compression_codes: "compression_of (compression_code c) = Some c" "compression_code c = 0 \<longleftrightarrow> c = UNCOMPRESSED"
  by (cases c; simp add: compression_of_def)+

lemma compress_page_ok:
  assumes "codec_ok reg c" "length data \<le> PARQUET_MAX_PAGE_SIZE"
  shows "\<exists>packed. compress_page reg c data = Inr packed \<and> length packed \<le> INT32_MAX \<and> (c = UNCOMPRESSED \<longrightarrow> packed = data)
    \<and> (c \<noteq> UNCOMPRESSED \<longrightarrow> decompress_page reg (compression_code c) packed (length data) = Inr data \<and> length data \<le> 22 * length packed)"
proof (cases "c = UNCOMPRESSED")
  case True
  then show ?thesis using assms(2) by (simp add: compress_page_def PARQUET_MAX_PAGE_SIZE_def INT32_MAX_def)
next
  case False
  then have c: "c = SNAPPY" "reg SNAPPY = Some snappy_codec" using assms(1) by (auto simp: codec_ok_def)
  have len: "length data \<le> MAX_DECOMPRESS_SIZE" using assms(2) by (simp add: PARQUET_MAX_PAGE_SIZE_def MAX_DECOMPRESS_SIZE_def)
  obtain packed where p: "snappy_compress data = Inr packed"
    using compress_decodes[of data] len by (auto simp: MAX_DECOMPRESS_SIZE_def)
  have r: "compress reg SNAPPY data = Inr packed" using p c by (simp add: compress_def get_codec_def snappy_codec_def)
  have "decompress reg SNAPPY packed (length data) = Inr data"
    using snappy.registry_roundtrip[OF _ r len] c by (simp add: snappy_codec_def MAX_DECOMPRESSION_RATIO_def)
  moreover have "length packed \<le> INT32_MAX"
    using snappy_compress_length[OF p] len by (simp add: INT32_MAX_def MAX_DECOMPRESS_SIZE_def)
  moreover have "length data \<le> 22 * length packed" using snappy.expansion[OF p] .
  ultimately show ?thesis using c r compression_codes(1)[of SNAPPY]
    by (simp add: compress_page_def decompress_page_def del: compression_code.simps)
qed

text \<open>The header \<open>ph\<close> and the bytes \<open>packed\<close> that the writer makes of a page.\<close>

definition packs :: "registry \<Rightarrow> compression \<Rightarrow> bytes \<Rightarrow> page_header \<Rightarrow> bytes \<Rightarrow> bool" where
  "packs reg c data ph packed \<longleftrightarrow> codec_ok reg c \<and> data \<noteq> [] \<and> length data \<le> PARQUET_MAX_PAGE_SIZE \<and> compress_page reg c data = Inr packed
     \<and> heads ph packed \<and> pg_uncompressed_page_size ph = of_nat (length data)"

lemma size_of_small: "n \<le> PARQUET_MAX_PAGE_SIZE \<Longrightarrow> size_of_int32 (of_nat n) = n"
proof -
  assume n: "n \<le> PARQUET_MAX_PAGE_SIZE"
  then have "(scast (of_nat n :: u32) :: u64) = of_nat n"
    using small_word32[of n] by (simp add: scast_eq PARQUET_MAX_PAGE_SIZE_def INT32_MAX_def)
  then show ?thesis using n by (simp add: size_of_int32_def PARQUET_MAX_PAGE_SIZE_def unat_of_nat)
qed

lemma packed_page:
  assumes "packs reg c data ph packed"
  shows "size_of_int32 (pg_uncompressed_page_size ph) = length data" "c = UNCOMPRESSED \<Longrightarrow> packed = data"
    "c \<noteq> UNCOMPRESSED \<Longrightarrow> decompress_page reg (compression_code c) packed (length data) = Inr data \<and> length data \<le> 22 * length packed"
  using assms compress_page_ok[of reg c data] size_of_small[of "length data"] by (auto simp: packs_def)

lemma read_page_at_page:
  assumes "page_in file off ph packed" "packs reg c data ph packed" "length file \<le> MAX_FILE_SIZE"
  shows "read_page_at reg file (of_nat off) (compression_code c) = Inr (data, ph)"
proof -
  have r: "raw_page_at file (of_nat off) = Inr (packed, ph)"
    using raw_page_at_page assms by (simp add: packs_def)
  have d: "data \<noteq> []" "length data \<le> PARQUET_MAX_PAGE_SIZE" using assms(2) by (auto simp: packs_def)
  show ?thesis
  proof (cases "c = UNCOMPRESSED")
    case True
    then show ?thesis using r packed_page(2)[OF assms(2)] by (simp add: read_page_at_def)
  next
    case False
    note p = packed_page(3)[OF assms(2) False]
    have "length data div length packed \<le> 22"
      using p div_le_mono[of "length data" "22 * length packed" "length packed"] by (cases "packed = []") auto
    then show ?thesis using r p False d packed_page(1)[OF assms(2)] by (simp add: read_page_at_def compression_codes(2))
  qed
qed

text \<open>The memory-mapped reader gets the same bytes.\<close>

lemma mmap_unpack_page:
  assumes "packs reg c data ph packed"
  shows "mmap_unpack reg (compression_code c) (length data) packed = Inr data" "packed \<noteq> []"
proof -
  have d: "data \<noteq> []" "length data \<le> PARQUET_MAX_PAGE_SIZE" using assms by (auto simp: packs_def)
  show "packed \<noteq> []" using d(1) packed_page(2,3)[OF assms] by (cases "c = UNCOMPRESSED") auto
  show "mmap_unpack reg (compression_code c) (length data) packed = Inr data"
  proof (cases "c = UNCOMPRESSED")
    case True
    then show ?thesis using packed_page(2)[OF assms] by (simp add: mmap_unpack_def)
  next
    case False
    note p = packed_page(3)[OF assms False]
    have "length data div length packed \<le> 22"
      using p div_le_mono[of "length data" "22 * length packed" "length packed"] by (cases "packed = []") auto
    then show ?thesis using p False d by (simp add: mmap_unpack_def compression_codes(2) MMAP_MAX_PAGE_SIZE_def PARQUET_MAX_PAGE_SIZE_def)
  qed
qed

lemma mmap_page_parts:
  assumes "page_in file off ph packed" "packs reg c data ph packed" "length file \<le> MAX_FILE_SIZE"
  shows "\<exists>d d'. off < length file \<and> deserialize_PageHeader (decoder_new (drop off file)) default_PageHeader = (Inr ph, d)
    \<and> deserialize_PageHeader (decoder_new (take kHdrWindow (drop off file))) default_PageHeader = (Inr ph, d') \<and> dpos d' = dpos d
    \<and> dpos d + length packed \<le> length (drop off file) \<and> mmap_checked ph (take (length packed) (drop (dpos d) (drop off file))) = Inr packed"
proof -
  have h: "heads ph packed" using assms(2) by (simp add: packs_def)
  obtain d d' rest where d: "off < length file" "deserialize_PageHeader (decoder_new (drop off file)) default_PageHeader = (Inr ph, d)"
      "deserialize_PageHeader (decoder_new (take kHdrWindow (drop off file))) default_PageHeader = (Inr ph, d')" "dpos d' = dpos d"
      "drop (dpos d) (drop off file) = packed @ rest" "dpos d \<le> length (drop off file)"
    using header_read[OF assms(1) h] by blast
  have "dpos d + length packed \<le> length (drop off file)" using arg_cong[OF d(5), of length] d(6) by simp
  moreover have "mmap_checked ph (take (length packed) (drop (dpos d) (drop off file))) = Inr packed"
    unfolding d(5) using page_numbers(5)[OF assms(1) h assms(3)] by (simp add: mmap_checked_def)
  ultimately show ?thesis using d(1-4) by blast
qed

lemma mmap_read_page_at_page:
  assumes "page_in file off ph packed" "packs reg c data ph packed" "length file \<le> MAX_FILE_SIZE"
  shows "mmap_read_page_at reg file (of_nat off) (compression_code c) = Inr (data, ph)"
proof -
  have h: "heads ph packed" using assms(2) by (simp add: packs_def)
  obtain d d' where d: "off < length file" "deserialize_PageHeader (decoder_new (drop off file)) default_PageHeader = (Inr ph, d)"
      "deserialize_PageHeader (decoder_new (take kHdrWindow (drop off file))) default_PageHeader = (Inr ph, d')" "dpos d' = dpos d" "dpos d + length packed \<le> length (drop off file)" "mmap_checked ph (take (length packed) (drop (dpos d) (drop off file))) = Inr packed"
    using mmap_page_parts[OF assms] by blast
  note n = page_numbers[OF assms(1) h assms(3)]
  have u: "sint (pg_uncompressed_page_size ph) \<ge> 0" "unat (pg_uncompressed_page_size ph) = length data"
    using assms(2) small_word32[of "length data"] by (auto simp: packs_def PARQUET_MAX_PAGE_SIZE_def INT32_MAX_def)
  show ?thesis unfolding mmap_read_page_at_def Let_def n(2)
    using d n u mmap_unpack_page(1)[OF assms(2)] by simp
qed

text \<open>A data page of \<open>n\<close> values.\<close>

definition counts :: "page_header \<Rightarrow> nat \<Rightarrow> bool" where
  "counts ph n \<longleftrightarrow> n \<le> MAX_BP_VALUES \<and> pg_type ph = DATA_PAGE \<and> (\<exists>dp. pg_data_page_header ph = Some dp \<and> ph_num_values dp = of_nat n)"

lemma page_count: "counts ph n \<Longrightarrow> page_num_values cm ph = int n"
  using small_word32[of n] by (auto simp: counts_def page_num_values_def MAX_BP_VALUES_def INT32_MAX_def)

lemma element_size_8: "element_size (parquet_type_of t) k \<le> 8"
  by (cases t) (simp_all add: element_size_def BOOLEAN_def INT32_def INT64_def FLOAT_def DOUBLE_def BYTE_ARRAY_def FIXED_LEN_BYTE_ARRAY_def)

lemma reader_for_page:
  assumes "page_in file (off) ph packed" "packs reg c data ph packed" "length file \<le> MAX_FILE_SIZE" "counts ph n"
    and "cm_data_page_offset cm = of_nat off" "cm_codec cm = compression_code c" "cm_type cm = parquet_type_of t"
  shows "reader_for reg file cm k = Inr (column_reader_new (parquet_type_of t) data (int n) k, int n)"
proof -
  have r: "raw_page_at file (cm_data_page_offset cm) = Inr (packed, ph)"
    using raw_page_at_page assms(1-3,5) by (simp add: packs_def)
  have d: "data \<noteq> []" "length data \<le> PARQUET_MAX_PAGE_SIZE" using assms(2) by (auto simp: packs_def)
  have n: "n \<le> 32 * 1024 * 1024" using assms(4) by (simp add: counts_def MAX_BP_VALUES_def)
  then have "n * element_size (parquet_type_of t) k \<le> 256 * 1024 * 1024"
    using mult_le_mono[OF n element_size_8[of t k]] by simp
  then have e: "(n * element_size (parquet_type_of t) k) mod 2 ^ 64 \<le> 256 * 1024 * 1024"
    using mod_less_eq_dividend le_trans by blast
  have v: "\<not> (page_num_values cm ph < 0 \<or> page_num_values cm ph > MAX_VALUES_PER_PAGE)" "page_num_values cm ph = int n"
    using page_count[OF assms(4)] n by (auto simp: MAX_VALUES_PER_PAGE_def)
  show ?thesis
  proof (cases "c = UNCOMPRESSED")
    case True
    then have "cm_codec cm = 0" "packed = data" using assms(6) packed_page(2)[OF assms(2)] by (simp_all add: compression_codes(2))
    then show ?thesis unfolding reader_for_def r using v e assms(7) by (simp add: Let_def)
  next
    case False
    then have "cm_codec cm \<noteq> 0" "decompress_page reg (cm_codec cm) packed (length data) = Inr data"
      using assms(6) packed_page(3)[OF assms(2)] by (simp_all add: compression_codes(2))
    then show ?thesis unfolding reader_for_def r using v e d packed_page(1)[OF assms(2)] assms(7) by (simp add: Let_def)
  qed
qed

lemma mmap_reader_for_page:
  assumes "page_in (file) off ph packed" "packs reg c data ph packed" "length file \<le> MAX_FILE_SIZE" "counts ph n"
    and "cm_data_page_offset cm = of_nat off" "cm_codec cm = compression_code c" "cm_type cm = parquet_type_of t"
  shows "mmap_reader_for reg file cm k = Inr (column_reader_new (parquet_type_of t) data (int n) k, int n)"
proof -
  have h: "heads ph packed" using assms(2) by (simp add: packs_def)
  obtain d where d: "off < length file" "deserialize_PageHeader (decoder_new (drop off file)) default_PageHeader = (Inr ph, d)"
      "dpos d + length packed \<le> length (drop off file)" "mmap_checked ph (take (length packed) (drop (dpos d) (drop off file))) = Inr packed"
    using mmap_page_parts[OF assms(1-3)] by blast
  note m = page_numbers[OF assms(1) h assms(3)]
  have v: "page_num_values cm ph = int n" "int n \<le> MMAP_MAX_VALUES_PER_PAGE"
    using page_count[OF assms(4)] assms(4) by (simp_all add: counts_def MAX_BP_VALUES_def MMAP_MAX_VALUES_PER_PAGE_def)
  have "mmap_unpack reg (cm_codec cm) (size_of_int32 (pg_uncompressed_page_size ph)) packed = Inr data"
    using mmap_unpack_page(1)[OF assms(2)] packed_page(1)[OF assms(2)] assms(6) by simp
  then show ?thesis unfolding mmap_reader_for_def Let_def assms(5) m(2)
    using d m v mmap_unpack_page(2)[OF assms(2)] assms(7) by simp
qed

section \<open>Column chunks\<close>

text \<open>What both readers return for a column.\<close>

definition both_read :: "registry \<Rightarrow> bytes \<Rightarrow> column_metadata \<Rightarrow> u32 \<Rightarrow> ctype \<Rightarrow> cvalue list \<Rightarrow> bool" where
  "both_read reg file cm k t out \<longleftrightarrow> read_chunk reg file cm k t = Inr out \<and> mmap_read_chunk reg file cm k t = Inr out"

definition dictionary_encoding :: "u32 \<Rightarrow> bool" where
  "dictionary_encoding enc \<longleftrightarrow> enc = PLAIN_DICTIONARY \<or> enc = RLE_DICTIONARY"

fun the_int64 :: "cvalue \<Rightarrow> u64" where "the_int64 (VInt64 v) = v" | "the_int64 _ = 0"

text \<open>The values that an encoding of the writer can carry for a column of type \<open>t\<close>.\<close>

definition encodable :: "u32 \<Rightarrow> ctype \<Rightarrow> cvalue list \<Rightarrow> bool" where
  "encodable enc t vs \<longleftrightarrow> vs \<noteq> [] \<and> length vs \<le> MAX_BP_VALUES \<and> (\<forall>v \<in> set vs. ctype_of v = t \<and> value_short v)
     \<and> (enc = DELTA_BINARY_PACKED \<longrightarrow> t = CInt32 \<or> t = CInt64 \<and> diffs_fit (map the_int64 vs))
     \<and> (enc = BYTE_STREAM_SPLIT \<longrightarrow> t = CFloat \<or> t = CDouble)
     \<and> (dictionary_encoding enc \<longrightarrow> t \<noteq> CBool \<and> length vs \<le> MAX_DICTIONARY_ENTRIES)"

text \<open>A floating-point dictionary merges \<^verbatim>\<open>0.0\<close> and \<^verbatim>\<open>-0.0\<close>; everything else comes back bit for bit.\<close>

fun same_value :: "cvalue \<Rightarrow> cvalue \<Rightarrow> bool" where
  "same_value (VFloat a) (VFloat b) \<longleftrightarrow> a = b \<or> float_eq a b"
| "same_value (VDouble a) (VDouble b) \<longleftrightarrow> a = b \<or> double_eq a b"
| "same_value a b \<longleftrightarrow> a = b"

definition faithful :: "u32 \<Rightarrow> cvalue list \<Rightarrow> cvalue list \<Rightarrow> bool" where
  "faithful enc out vs \<longleftrightarrow> (if dictionary_encoding enc then list_all2 same_value out vs else out = vs)"

subsection \<open>One data page\<close>

lemma extract_holds:
  assumes "holds t vs cw"
  shows "t = CInt32 \<Longrightarrow> \<exists>xs. vs = map VInt32 xs \<and> extract_values 4 cw = xs"
    "t = CInt64 \<Longrightarrow> \<exists>ys. vs = map VInt64 ys \<and> extract_values 8 cw = ys"
    "t = CFloat \<Longrightarrow> \<exists>xs. vs = map VFloat xs \<and> extract_values 4 cw = xs"
    "t = CDouble \<Longrightarrow> \<exists>ys. vs = map VDouble ys \<and> extract_values 8 cw = ys"
proof -
  have n: "cw_num_values cw = length vs" and b: "buffer_of t vs (cw_buf cw)" and ty: "\<forall>v \<in> set vs. ctype_of v = t"
    using assms by (auto simp: holds_def)
  have w4: "extract_values 4 cw = xs" if "cw_buf cw = raw_bytes 4 xs" "length vs = length xs" for xs :: "u32 list"
    using that n from_raw_bytes[of 4 xs] by (simp add: extract_values_def)
  have w8: "extract_values 8 cw = xs" if "cw_buf cw = raw_bytes 8 xs" "length vs = length xs" for xs :: "u64 list"
    using that n from_raw_bytes[of 8 xs] by (simp add: extract_values_def)
  show "\<exists>xs. vs = map VInt32 xs \<and> extract_values 4 cw = xs" if "t = CInt32"
    using words_of(1)[of vs] ty b w4 that by (auto simp: buffer_of_def)
  show "\<exists>ys. vs = map VInt64 ys \<and> extract_values 8 cw = ys" if "t = CInt64"
    using words_of(2)[of vs] ty b w8 that by (auto simp: buffer_of_def)
  show "\<exists>xs. vs = map VFloat xs \<and> extract_values 4 cw = xs" if "t = CFloat"
    using words_of(3)[of vs] ty b w4 that by (auto simp: buffer_of_def)
  show "\<exists>ys. vs = map VDouble ys \<and> extract_values 8 cw = ys" if "t = CDouble"
    using words_of(4)[of vs] ty b w8 that by (auto simp: buffer_of_def)
qed

lemma extract_bools_holds:
  assumes "holds CBool vs cw"
  shows "vs = map (\<lambda>i. VBool (i \<noteq> 0)) (extract_bools cw) \<and> (\<forall>i \<in> set (extract_bools cw). unat i < 2) \<and> length (extract_bools cw) = length vs"
proof -
  have n: "cw_num_values cw = length vs" and b: "bools_buf (map the_bool vs) (cw_buf cw)" and ty: "\<forall>v \<in> set vs. ctype_of v = CBool"
    using assms by (auto simp: holds_def buffer_of_def)
  have bit: "(ucast (x AND 1 :: u8) :: u32) = (if bit x 0 then 1 else 0)" for x :: u8
    by (simp add: and_one_eq mod_2_eq_odd bit_0)
  have e: "extract_bools cw ! i = (if the_bool (vs ! i) then 1 else 0)" if i: "i < length vs" for i
  proof -
    have "byte_bit (cw_buf cw) i = the_bool (vs ! i)" using b i unfolding bools_buf_def by simp
    moreover have "i div 8 < length (cw_buf cw)" using b i unfolding bools_buf_def by simp
    ultimately have v: "bit (cw_buf cw ! (i div 8)) (i mod 8) = the_bool (vs ! i)" by (simp add: byte_bit_def)
    have "extract_bools cw ! i = ucast (drop_bit (i mod 8) (cw_buf cw ! (i div 8)) AND 1)" using i n by (simp add: extract_bools_def)
    also have "\<dots> = (if bit (drop_bit (i mod 8) (cw_buf cw ! (i div 8))) 0 then 1 else 0)" by (rule bit)
    also have "\<dots> = (if the_bool (vs ! i) then 1 else 0)" using v by (simp only: bit_drop_bit_eq comp_def add_0_right)
    finally show ?thesis .
  qed
  have l: "length (extract_bools cw) = length vs" by (simp add: extract_bools_def n)
  have "VBool (the_bool v) = v" if "v \<in> set vs" for v using ty that by (cases v) auto
  then have "VBool (extract_bools cw ! i \<noteq> 0) = vs ! i" if "i < length vs" for i using e[OF that] nth_mem[OF that] by force
  then have "vs = map (\<lambda>i. VBool (i \<noteq> 0)) (extract_bools cw)" using l by (intro nth_equalityI) auto
  moreover have "\<forall>i \<in> set (extract_bools cw). unat i < 2" using e l by (auto simp: in_set_conv_nth)
  ultimately show ?thesis using l by blast
qed

text \<open>The metadata of a chunk, as far as reading it goes.\<close>

definition describes :: "column_metadata \<Rightarrow> ctype \<Rightarrow> compression \<Rightarrow> u32 list \<Rightarrow> nat \<Rightarrow> nat option \<Rightarrow> bool" where
  "describes cm t c encs off dict \<longleftrightarrow> cm_type cm = parquet_type_of t \<and> cm_codec cm = compression_code c \<and> cm_encodings cm = encs
     \<and> cm_data_page_offset cm = of_nat off \<and> cm_dictionary_page_offset cm = map_option of_nat dict"

lemma encoding_codes:
  "PLAIN = 0" "PLAIN_DICTIONARY = 2" "RLE = 3" "DELTA_BINARY_PACKED = 5" "RLE_DICTIONARY = 8" "BYTE_STREAM_SPLIT = 9"
  by (simp_all add: PLAIN_def PLAIN_DICTIONARY_def RLE_def DELTA_BINARY_PACKED_def RLE_DICTIONARY_def BYTE_STREAM_SPLIT_def)

lemma type_codes:
  "BOOLEAN = 0" "INT32 = 1" "INT64 = 2" "FLOAT = 4" "DOUBLE = 5" "BYTE_ARRAY = 6" "FIXED_LEN_BYTE_ARRAY = 7"
  by (simp_all add: BOOLEAN_def INT32_def INT64_def FLOAT_def DOUBLE_def BYTE_ARRAY_def FIXED_LEN_BYTE_ARRAY_def)

lemma encode_column_cases:
  "encode_column_data cw DELTA_BINARY_PACKED (parquet_type_of CInt32) = encode_int32 (extract_values 4 cw)"
  "encode_column_data cw DELTA_BINARY_PACKED (parquet_type_of CInt64) = encode_int64 (extract_values 8 cw)"
  "encode_column_data cw BYTE_STREAM_SPLIT (parquet_type_of CFloat) = encode_float (extract_values 4 cw)"
  "encode_column_data cw BYTE_STREAM_SPLIT (parquet_type_of CDouble) = encode_double (extract_values 8 cw)"
  "encode_column_data cw RLE (parquet_type_of CBool) = encode_with_length (extract_bools cw) 1"
  by (simp_all add: encode_column_data_def encoding_codes type_codes)

lemma encode_column_plain:
  "enc \<noteq> DELTA_BINARY_PACKED \<Longrightarrow> enc \<noteq> BYTE_STREAM_SPLIT \<Longrightarrow> \<not> (enc = RLE \<and> t = CBool) \<Longrightarrow> encode_column_data cw enc (parquet_type_of t) = cw_buf cw"
  by (cases t) (auto simp: encode_column_data_def type_codes)

lemma read_chunk_cases:
  "cm_encodings cm = [DELTA_BINARY_PACKED] \<Longrightarrow> t = CInt32 \<or> t = CInt64 \<Longrightarrow> read_chunk reg file cm k t = read_column_delta reg file cm t"
  "cm_encodings cm = [BYTE_STREAM_SPLIT] \<Longrightarrow> t = CFloat \<or> t = CDouble \<Longrightarrow> read_chunk reg file cm k t = read_column_bss reg file cm t"
  "cm_encodings cm = [RLE] \<Longrightarrow> cm_type cm = BOOLEAN \<Longrightarrow> read_chunk reg file cm k CBool = read_column_rle_bool reg file cm CBool"
  by (simp_all add: read_chunk_def scan_encoding_def encoding_codes)

lemma mmap_read_chunk_cases:
  "cm_encodings cm = [DELTA_BINARY_PACKED] \<Longrightarrow> t = CInt32 \<or> t = CInt64 \<Longrightarrow> mmap_read_chunk reg file cm k t = mmap_read_column_delta reg file cm t"
  "cm_encodings cm = [BYTE_STREAM_SPLIT] \<Longrightarrow> t = CFloat \<or> t = CDouble \<Longrightarrow> mmap_read_chunk reg file cm k t = mmap_read_column_bss reg file cm t"
  "cm_encodings cm = [RLE] \<Longrightarrow> cm_type cm = BOOLEAN \<Longrightarrow> mmap_read_chunk reg file cm k CBool = mmap_read_column_rle_bool reg file cm"
  by (simp_all add: mmap_read_chunk_def scan_encoding_def encoding_codes)

lemma mmap_read_chunk_plain:
  "cm_encodings cm = [enc] \<Longrightarrow> \<not> dictionary_encoding enc \<Longrightarrow> enc \<noteq> DELTA_BINARY_PACKED \<Longrightarrow> enc \<noteq> BYTE_STREAM_SPLIT
    \<Longrightarrow> \<not> (enc = RLE \<and> cm_type cm = BOOLEAN) \<Longrightarrow> mmap_read_chunk reg file cm k t = mmap_read_plain reg file cm k t"
  by (auto simp: mmap_read_chunk_def scan_encoding_def dictionary_encoding_def encoding_codes)

lemma read_chunk_plain:
  "cm_encodings cm = [enc] \<Longrightarrow> \<not> dictionary_encoding enc \<Longrightarrow> enc \<noteq> DELTA_BINARY_PACKED \<Longrightarrow> enc \<noteq> BYTE_STREAM_SPLIT
    \<Longrightarrow> \<not> (enc = RLE \<and> cm_type cm = BOOLEAN) \<Longrightarrow> read_chunk reg file cm k t = read_plain reg file cm k t"
  by (auto simp: read_chunk_def scan_encoding_def dictionary_encoding_def encoding_codes)

lemma boolean_type: "parquet_type_of t = BOOLEAN \<longleftrightarrow> t = CBool"
  by (cases t) (simp_all add: type_codes)

lemma decode_page:
  assumes cw: "holds t vs cw" and e: "encodable enc t vs"
  shows "enc = DELTA_BINARY_PACKED \<Longrightarrow> t = CInt32 \<and> map VInt32 (decode_int32 (encode_column_data cw enc (parquet_type_of t)) (length vs)) = vs
      \<or> t = CInt64 \<and> map VInt64 (decode_int64 (encode_column_data cw enc (parquet_type_of t)) (length vs)) = vs"
    and "enc = BYTE_STREAM_SPLIT \<Longrightarrow> t = CFloat \<and> map VFloat (decode_float (encode_column_data cw enc (parquet_type_of t)) (length vs)) = vs
      \<or> t = CDouble \<and> map VDouble (decode_double (encode_column_data cw enc (parquet_type_of t)) (length vs)) = vs"
    and "enc = RLE \<Longrightarrow> t = CBool
      \<Longrightarrow> map (\<lambda>i. VBool (i \<noteq> 0)) (decode_with_length (encode_column_data cw enc (parquet_type_of t)) 1 (length vs)) = vs"
proof -
  have len: "length vs \<le> MAX_BP_VALUES" using e unfolding encodable_def by blast
  let ?data = "encode_column_data cw enc (parquet_type_of t)"
  show "t = CInt32 \<and> map VInt32 (decode_int32 ?data (length vs)) = vs \<or> t = CInt64 \<and> map VInt64 (decode_int64 ?data (length vs)) = vs"
    if enc: "enc = DELTA_BINARY_PACKED"
  proof (cases "t = CInt32")
    case t: True
    obtain xs where xs: "vs = map VInt32 xs" "extract_values 4 cw = xs" using extract_holds(1)[OF cw t] by blast
    have "decode_int32 (encode_int32 xs) (length xs) = xs"
      using delta32_roundtrip[of "length xs" xs] len xs by (simp add: MAX_DELTA_VALUES_def MAX_BP_VALUES_def)
    then show ?thesis using xs unfolding enc t encode_column_cases by simp
  next
    case False
    then have t: "t = CInt64" "diffs_fit (map the_int64 vs)" using e enc unfolding encodable_def by blast+
    obtain xs where xs: "vs = map VInt64 xs" "extract_values 8 cw = xs" using extract_holds(2)[OF cw t(1)] by blast
    have "map the_int64 vs = xs" using xs by (simp add: comp_def)
    then have "decode_int64 (encode_int64 xs) (length xs) = xs"
      using delta_decode_encode[of xs "length xs"] t len xs by (simp add: MAX_DELTA_VALUES_def MAX_BP_VALUES_def)
    then show ?thesis using xs unfolding enc t(1) encode_column_cases by simp
  qed
  show "t = CFloat \<and> map VFloat (decode_float ?data (length vs)) = vs \<or> t = CDouble \<and> map VDouble (decode_double ?data (length vs)) = vs"
    if enc: "enc = BYTE_STREAM_SPLIT"
  proof (cases "t = CFloat")
    case t: True
    obtain xs where xs: "vs = map VFloat xs" "extract_values 4 cw = xs" using extract_holds(3)[OF cw t] by blast
    have "decode_float (encode_float xs) (length xs) = xs"
      using split_decode_encode(2)[of xs "[]"] len xs by (simp add: SIZE_MAX_def MAX_BP_VALUES_def)
    then show ?thesis using xs unfolding enc t encode_column_cases by simp
  next
    case False
    then have t: "t = CDouble" using e enc unfolding encodable_def by blast
    obtain xs where xs: "vs = map VDouble xs" "extract_values 8 cw = xs" using extract_holds(4)[OF cw t] by blast
    have "decode_double (encode_double xs) (length xs) = xs"
      using split_decode_encode(1)[of xs "[]"] len xs by (simp add: SIZE_MAX_def MAX_BP_VALUES_def)
    then show ?thesis using xs unfolding enc t encode_column_cases by simp
  qed
  show "map (\<lambda>i. VBool (i \<noteq> 0)) (decode_with_length ?data 1 (length vs)) = vs" if enc: "enc = RLE" "t = CBool"
  proof -
    obtain bs where b: "extract_bools cw = bs" "vs = map (\<lambda>i. VBool (i \<noteq> 0)) bs" "\<forall>i \<in> set bs. unat i < 2"
      using extract_bools_holds[OF cw[unfolded enc]] by metis
    have "decode_with_length (encode_with_length bs 1) 1 (length bs) = bs"
      using encode_decode_with_length[of 1 bs "length bs" "[]"] b len by simp
    then show ?thesis using b unfolding enc encode_column_cases by simp
  qed
qed

lemma counted: "map f xs = vs \<Longrightarrow> counted_values (length vs) f xs = Inr vs"
  by (auto simp: counted_values_def)

lemma read_encoded_chunk:
  assumes page: "page_in file off ph packed" "packs reg c (encode_column_data cw enc (parquet_type_of t)) ph packed" "length file \<le> MAX_FILE_SIZE"
    and n: "counts ph (length vs)" and cm: "describes cm t c [enc] off None"
    and enc: "\<not> dictionary_encoding enc" "encodable enc t vs" and cw: "holds t vs cw"
  shows "both_read reg file cm k t vs"
proof -
  have ty: "\<forall>v \<in> set vs. ctype_of v = t \<and> value_short v" and len: "length vs \<le> MAX_BP_VALUES"
    using enc(2) unfolding encodable_def by blast+
  have o: "cm_data_page_offset cm = of_nat off" "cm_codec cm = compression_code c" "cm_encodings cm = [enc]" "cm_type cm = parquet_type_of t"
    using cm by (auto simp: describes_def)
  let ?data = "encode_column_data cw enc (parquet_type_of t)"
  have "read_page_at reg file (cm_data_page_offset cm) (cm_codec cm) = Inr (?data, ph)"
    using read_page_at_page[OF page] o by simp
  then have dp: "data_page reg file cm = Inr (?data, length vs)"
    using page_count[OF n] len by (simp add: data_page_def validate_page_value_count_def MAX_BP_VALUES_def MAX_VALUES_PER_PAGE_def)
  have "mmap_read_page_at reg file (cm_data_page_offset cm) (cm_codec cm) = Inr (?data, ph)"
    using mmap_read_page_at_page[OF page] o by simp
  then have mdp: "mmap_data_page reg file cm = Inr (?data, length vs)"
    using page_count[OF n] len by (simp add: mmap_data_page_def validate_mmap_page_value_count_def MAX_BP_VALUES_def MMAP_MAX_VALUES_PER_PAGE_def)
  note d = decode_page[OF cw enc(2)]
  consider (delta) "enc = DELTA_BINARY_PACKED" | (bss) "enc = BYTE_STREAM_SPLIT" | (rle) "enc = RLE" "t = CBool"
    | (plain) "enc \<noteq> DELTA_BINARY_PACKED" "enc \<noteq> BYTE_STREAM_SPLIT" "\<not> (enc = RLE \<and> t = CBool)" by blast
  then show ?thesis
  proof cases
    case delta
    then have "read_chunk reg file cm k t = read_column_delta reg file cm t" "mmap_read_chunk reg file cm k t = mmap_read_column_delta reg file cm t"
      using d(1) read_chunk_cases(1) mmap_read_chunk_cases(1) o(3) by blast+
    then show ?thesis using d(1)[OF delta] by (auto simp: both_read_def read_column_delta_def dp counted mmap_read_column_delta_def mdp)
  next
    case bss
    then have "read_chunk reg file cm k t = read_column_bss reg file cm t" "mmap_read_chunk reg file cm k t = mmap_read_column_bss reg file cm t"
      using d(2) read_chunk_cases(2) mmap_read_chunk_cases(2) o(3) by blast+
    then show ?thesis using d(2)[OF bss] by (auto simp: both_read_def read_column_bss_def dp counted mmap_read_column_bss_def mdp)
  next
    case rle
    then have r: "read_chunk reg file cm k t = read_column_rle_bool reg file cm CBool" "mmap_read_chunk reg file cm k t = mmap_read_column_rle_bool reg file cm"
      using read_chunk_cases(3) mmap_read_chunk_cases(3) o boolean_type by simp_all
    have m: "map (\<lambda>i. VBool (i \<noteq> 0)) (decode_with_length ?data 1 (length vs)) = vs" by (rule d(3)[OF rle])
    then have "length (decode_with_length ?data 1 (length vs)) = length vs" by (metis length_map)
    then show ?thesis unfolding both_read_def r read_column_rle_bool_def mmap_read_column_rle_bool_def dp mdp using m by simp
  next
    case plain
    note data = encode_column_plain[OF plain, of cw]
    have l: "length vs < 2 ^ 60" using len by (simp add: MAX_BP_VALUES_def)
    let ?r = "column_reader_new (parquet_type_of t) (cw_buf cw) (int (length vs)) k"
    have st: "stands t vs [] ?r" using buffer_stands[OF cw _ l, of "[]" k] ty by simp
    have dl: "length (cr_data ?r) < 2 ^ 64"
      using page(2) data by (simp add: column_reader_new_def packs_def PARQUET_MAX_PAGE_SIZE_def)
    have "reader_for reg file cm k = Inr (?r, int (length vs))"
      using reader_for_page[OF page n o(1,2,4)] data by simp
    moreover have mr: "mmap_reader_for reg file cm k = Inr (?r, int (length vs))"
      using mmap_reader_for_page[OF page n o(1,2,4)] data by simp
    moreover have rd: "(if t = CBool then fst (PlainPage.read_each CBool (length vs) ?r) else fst (read_batch t (length vs) ?r)) = Inr vs"
      using read_each_stands[OF st] read_batch_stands[OF st dl] by auto
    ultimately have "read_plain reg file cm k t = Inr vs"
      using len by (simp add: read_plain_def validate_page_value_count_def MAX_BP_VALUES_def MAX_VALUES_PER_PAGE_def)
    moreover have "mmap_read_plain reg file cm k t = Inr vs"
      unfolding mmap_read_plain_def mr sum.case prod.case nat_int by (rule rd)
    ultimately show ?thesis using read_chunk_plain[OF o(3) enc(1) plain(1,2)] mmap_read_chunk_plain[OF o(3) enc(1) plain(1,2)] plain(3) o(4) boolean_type
      by (simp add: both_read_def)
  qed
qed

lemma decode_empty:
  "decode_int32 [] n = []" "decode_int64 [] n = []" "0 < n \<Longrightarrow> decode_float [] n = []" "0 < n \<Longrightarrow> decode_double [] n = []"
  "decode_with_length [] w n = []"
  by (simp_all add: decode_int32_def decode_int64_def decode_float_def decode_double_def decode_with_length_def)

lemma encoded_nonempty:
  assumes "holds t vs cw" "encodable enc t vs"
  shows "encode_column_data cw enc (parquet_type_of t) \<noteq> []"
proof
  assume data: "encode_column_data cw enc (parquet_type_of t) = []"
  have vs: "vs \<noteq> []" "0 < length vs" "\<forall>v \<in> set vs. ctype_of v = t" using assms(2) unfolding encodable_def by blast+
  have "cw_buf cw \<noteq> []"
  proof (cases "t = CBool")
    case True
    then have "length (cw_buf cw) = (length vs + 7) div 8" using assms(1) by (simp add: holds_def buffer_of_def bools_buf_def)
    moreover have "1 \<le> (length vs + 7) div 8" using vs(1) by (cases vs) simp_all
    ultimately show ?thesis by (cases "cw_buf cw") auto
  next
    case False
    then have "cw_buf cw = concat (map plain_value vs)" using assms(1) by (simp add: holds_def buffer_of_def)
    moreover obtain v vs' where "vs = v # vs'" using vs(1) by (cases vs) auto
    moreover have "plain_value v \<noteq> []" if "ctype_of v \<noteq> CBool" for v using that by (cases v) (simp_all add: to_le_def)
    ultimately show ?thesis using vs(3) False by auto
  qed
  then have "enc = DELTA_BINARY_PACKED \<or> enc = BYTE_STREAM_SPLIT \<or> enc = RLE \<and> t = CBool"
    using encode_column_plain[of enc t cw] data by auto
  then show False using decode_page[OF assms] vs(1) decode_empty vs(2) unfolding data by auto
qed

subsection \<open>A dictionary page and its indices\<close>

lemma put_all_accepts:
  "length (dict_values e) + length vs \<le> MAX_DICTIONARY_ENTRIES \<Longrightarrow> fst (put_all eqv e vs)"
proof (induction vs arbitrary: e)
  case (Cons v vs)
  obtain e1 where "dict_put eqv e v = (True, e1)" "length (dict_values e1) \<le> Suc (length (dict_values e))"
    using Cons.prems by (cases "find (\<lambda>(k, i). eqv k v) (dict_map e)") (auto simp: dict_put_def Let_def split: prod.splits)
  then show ?case using Cons.IH[of e1] Cons.prems by (auto split: prod.split)
qed simp

context plain_codec begin

lemma dict_pages_read:
  assumes "vs \<noteq> []" "length vs \<le> MAX_DICTIONARY_ENTRIES" "\<forall>v \<in> set vs. valid v" "\<And>v. valid v \<Longrightarrow> the (enc [] v) \<noteq> []"
  shows "\<exists>page idx n out. dict_pages eqv enc vs = Some (page, idx, n) \<and> n \<le> MAX_DICTIONARY_ENTRIES \<and> page \<noteq> [] \<and> idx \<noteq> []
    \<and> dict_decode (dict_decoder_new dec page 0 n) idx (length vs) = Inr out \<and> list_all2 (\<lambda>a b. a = b \<or> eqv a b) out vs"
proof -
  obtain e where e: "put_all eqv dict_encoder_new vs = (True, e)"
    using put_all_accepts[of dict_encoder_new vs eqv] assms(2) by (cases "put_all eqv dict_encoder_new vs") (auto simp: dict_encoder_new_def)
  have inv: "dict_inv eqv e vs" using put_all_inv[OF dict_inv_new e] by simp
  then have ne: "dict_values e \<noteq> []" "length (dict_values e) \<le> MAX_DICTIONARY_ENTRIES"
    using assms(1) by (auto simp: dict_inv_def)
  have v: "\<forall>v \<in> set (dict_values e). valid v" using put_all_values[OF e] assms(3) by (auto simp: dict_encoder_new_def)
  obtain page where p: "dictionary_page enc e = Some page" "dict_decoder_new dec page 0 (length (dict_values e)) = dict_values e"
    using page_roundtrip[OF v] by blast
  have "page \<noteq> []"
    using encode_all[OF v, of "[]"] p(1) ne(1) v assms(4) by (cases "dict_values e") (auto simp: dictionary_page_def)
  moreover have "length vs \<le> MAX_BP_VALUES" using assms(2) by (simp add: MAX_DICTIONARY_ENTRIES_def MAX_BP_VALUES_def)
  then obtain out where "dict_decode (dict_values e) (indices_page e) (length vs) = Inr out" "list_all2 (\<lambda>a b. a = b \<or> eqv a b) out vs"
    using dict_column[OF e] by blast
  moreover have "dict_pages eqv enc vs = Some (page, indices_page e, length (dict_values e))" using e p(1) by (simp add: dict_pages_def)
  moreover have "indices_page e \<noteq> []" by (simp add: indices_page_def Let_def)
  ultimately show ?thesis using p(2) ne(2) by auto
qed

end

lemma extract_strings_plain:
  "\<forall>s \<in> set ss. length s < 2 ^ 32 \<Longrightarrow> extract_strings (length ss) (concat (map plain_value (map VString ss))) = ss"
proof (induction ss)
  case (Cons s ss)
  have "length s < 2 ^ 32" using Cons.prems by simp
  then have "unat (of_nat (length s) :: u32) = length s" by (rule string_length)
  then show ?case using Cons by simp
qed simp

lemma extract_strings_holds:
  assumes "holds CString vs cw" "\<forall>v \<in> set vs. value_short v"
  shows "\<exists>ss. vs = map VString ss \<and> extract_byte_array_strings cw = ss \<and> (\<forall>s \<in> set ss. length s < 2 ^ 32)"
proof -
  have ty: "\<forall>v \<in> set vs. ctype_of v = CString" using assms(1) by (auto simp: holds_def)
  then obtain ss where ss: "vs = map VString ss" by (metis ctype_of_iff(6) ex_map_conv)
  then have s: "\<forall>s \<in> set ss. length s < 2 ^ 32" using assms(2) by auto
  have "cw_num_values cw = length ss" "cw_buf cw = concat (map plain_value (map VString ss))"
    using assms(1) ss by (auto simp: holds_def buffer_of_def)
  then show ?thesis using extract_strings_plain[OF s] ss s by (simp add: extract_byte_array_strings_def)
qed

lemma list_same:
  "list_all2 (\<lambda>a b. a = b \<or> float_eq a b) fs gs \<Longrightarrow> list_all2 same_value (map VFloat fs) (map VFloat gs)"
  "list_all2 (\<lambda>a b. a = b \<or> double_eq a b) ds es \<Longrightarrow> list_all2 same_value (map VDouble ds) (map VDouble es)"
  by (simp_all add: list_all2_map1 list_all2_map2)

lemma list_equal: "list_all2 (\<lambda>a b. a = b \<or> a = b) xs ys \<Longrightarrow> xs = ys"
  by (simp add: list_all2_eq)

lemma list_same_refl: "list_all2 same_value vs vs"
proof -
  have "same_value v v" for v by (cases v) auto
  then show ?thesis by (simp add: list_all2_refl)
qed

lemma build_dictionary_read:
  assumes cw: "holds t vs cw" and enc: "encodable enc t vs" "dictionary_encoding enc"
  shows "\<exists>dict idx n out. build_dictionary (parquet_type_of t) cw = Inr (Some (dict, idx, n)) \<and> n \<le> MAX_DICTIONARY_ENTRIES
    \<and> dict \<noteq> [] \<and> idx \<noteq> [] \<and> decode_dictionary t dict n idx (length vs) = Inr out \<and> list_all2 same_value out vs"
proof -
  have e: "vs \<noteq> []" "\<forall>v \<in> set vs. value_short v" "t \<noteq> CBool" "length vs \<le> MAX_DICTIONARY_ENTRIES"
    using enc unfolding encodable_def by blast+
  consider (s) "t = CString" | (i) "t = CInt32" | (l) "t = CInt64" | (f) "t = CFloat" | (d) "t = CDouble" using e(3) by (cases t) auto
  then show ?thesis
  proof cases
    case s
    obtain ss where ss: "vs = map VString ss" "extract_byte_array_strings cw = ss" "\<forall>s \<in> set ss. length s < 2 ^ 32"
      using extract_strings_holds cw e(2) s by blast
    have "the (plain_encode_string [] v) \<noteq> []" if "short_string v" for v
      using that by (simp add: plain_encode_string_def short_string_def Let_def)
    then obtain page idx n out where "dict_pages (=) plain_encode_string ss = Some (page, idx, n)" "n \<le> MAX_DICTIONARY_ENTRIES"
        "page \<noteq> []" "idx \<noteq> []" "dict_decode (dict_decoder_new plain_decode_string page 0 n) idx (length ss) = Inr out" "out = ss"
      using plain_string.dict_pages_read[of ss "(=)"] e ss list_equal by (fastforce simp: short_string_def)
    then show ?thesis using s ss list_same_refl by (auto simp: build_dictionary_def decode_dictionary_def)
  next
    case i
    obtain xs where xs: "vs = map VInt32 xs" "extract_values 4 cw = xs" using extract_holds(1)[OF cw i] by blast
    have "the (plain_encode_int32 [] v) \<noteq> []" for v by (simp add: plain_encode_le to_le_def)
    then obtain page idx n out where "dict_pages (=) plain_encode_int32 xs = Some (page, idx, n)" "n \<le> MAX_DICTIONARY_ENTRIES"
        "page \<noteq> []" "idx \<noteq> []" "dict_decode (dict_decoder_new plain_decode_int32 page 0 n) idx (length xs) = Inr out" "out = xs"
      using plain_int32.dict_pages_read[of xs "(=)"] e xs list_equal by fastforce
    then show ?thesis using i xs list_same_refl by (auto simp: build_dictionary_def decode_dictionary_def type_codes)
  next
    case l
    obtain xs where xs: "vs = map VInt64 xs" "extract_values 8 cw = xs" using extract_holds(2)[OF cw l] by blast
    have "the (plain_encode_int64 [] v) \<noteq> []" for v by (simp add: plain_encode_le to_le_def)
    then obtain page idx n out where "dict_pages (=) plain_encode_int64 xs = Some (page, idx, n)" "n \<le> MAX_DICTIONARY_ENTRIES"
        "page \<noteq> []" "idx \<noteq> []" "dict_decode (dict_decoder_new plain_decode_int64 page 0 n) idx (length xs) = Inr out" "out = xs"
      using plain_int64.dict_pages_read[of xs "(=)"] e xs list_equal by fastforce
    then show ?thesis using l xs list_same_refl by (auto simp: build_dictionary_def decode_dictionary_def type_codes)
  next
    case f
    obtain xs where xs: "vs = map VFloat xs" "extract_values 4 cw = xs" using extract_holds(3)[OF cw f] by blast
    have "the (plain_encode_float [] v) \<noteq> []" for v by (simp add: plain_encode_le to_le_def)
    then obtain page idx n out where "dict_pages float_eq plain_encode_float xs = Some (page, idx, n)" "n \<le> MAX_DICTIONARY_ENTRIES"
        "page \<noteq> []" "idx \<noteq> []" "dict_decode (dict_decoder_new plain_decode_float page 0 n) idx (length xs) = Inr out"
        "list_all2 same_value (map VFloat out) (map VFloat xs)"
      using plain_float.dict_pages_read[of xs float_eq] e xs list_same(1) by fastforce
    then show ?thesis using f xs by (auto simp: build_dictionary_def decode_dictionary_def type_codes)
  next
    case d
    obtain xs where xs: "vs = map VDouble xs" "extract_values 8 cw = xs" using extract_holds(4)[OF cw d] by blast
    have "the (plain_encode_double [] v) \<noteq> []" for v by (simp add: plain_encode_le to_le_def)
    then obtain page idx n out where "dict_pages double_eq plain_encode_double xs = Some (page, idx, n)" "n \<le> MAX_DICTIONARY_ENTRIES"
        "page \<noteq> []" "idx \<noteq> []" "dict_decode (dict_decoder_new plain_decode_double page 0 n) idx (length xs) = Inr out"
        "list_all2 same_value (map VDouble out) (map VDouble xs)"
      using plain_double.dict_pages_read[of xs double_eq] e xs list_same(2) by fastforce
    then show ?thesis using d xs by (auto simp: build_dictionary_def decode_dictionary_def type_codes)
  qed
qed

lemma read_dictionary_chunk:
  assumes dict: "page_in file doff dph dpacked" "packs reg c dict dph dpacked" "pg_type dph = DICTIONARY_PAGE"
      "pg_dictionary_page_header dph = Some dp" "di_num_values dp = of_nat n" "n \<le> MAX_DICTIONARY_ENTRIES"
    and page: "page_in file off ph packed" "packs reg c idx ph packed" "counts ph m" and len: "length file \<le> MAX_FILE_SIZE"
    and cm: "describes cm t c encs off (Some doff)" "encs \<in> {[PLAIN, RLE_DICTIONARY], [RLE_DICTIONARY, PLAIN]}" "doff < off"
    and out: "decode_dictionary t dict n idx m = Inr out" and t: "t \<noteq> CBool"
  shows "both_read reg file cm k t out"
proof -
  have o: "cm_data_page_offset cm = of_nat off" "cm_codec cm = compression_code c" "cm_encodings cm = encs" "cm_dictionary_page_offset cm = Some (of_nat doff)"
    using cm(1) by (auto simp: describes_def)
  have small: "off < 2 ^ 62" using header_read[OF page(1)] page(2) len by (auto simp: packs_def MAX_FILE_SIZE_def)
  have "(of_nat off :: u64) \<noteq> of_nat doff"
  proof
    assume "(of_nat off :: u64) = of_nat doff"
    then have "unat (of_nat off :: u64) = unat (of_nat doff :: u64)" by (rule arg_cong)
    then show False using small cm(3) by (simp add: unat_of_nat)
  qed
  moreover have "sint (of_nat n :: u32) = int n"
    using dict(6) small_word32[of n] by (simp add: MAX_DICTIONARY_ENTRIES_def INT32_MAX_def)
  moreover have "read_page_at reg file (of_nat doff) (compression_code c) = Inr (dict, dph)" "read_page_at reg file (of_nat off) (compression_code c) = Inr (idx, ph)"
    using read_page_at_page dict(1,2) page(1,2) len by blast+
  moreover have "mmap_read_page_at reg file (of_nat doff) (compression_code c) = Inr (dict, dph)" "mmap_read_page_at reg file (of_nat off) (compression_code c) = Inr (idx, ph)"
    using mmap_read_page_at_page dict(1,2) page(1,2) len by blast+
  moreover have "page_num_values cm ph = int m" "m \<le> MAX_BP_VALUES" using page_count[OF page(3)] page(3) by (simp_all add: counts_def)
  ultimately have "read_column_dict reg file cm t = Inr out" "mmap_read_column_dict reg file cm t = Inr out"
    using o dict(3-6) out by (simp_all add: read_column_dict_def mmap_read_column_dict_def value_or_def Let_def MAX_DICTIONARY_ENTRIES_def MAX_BP_VALUES_def MAX_VALUES_PER_PAGE_def)
  moreover have "fst (fold (scan_encoding (cm_type cm)) (cm_encodings cm) (False, PLAIN))"
    using cm(2) o(3) by (auto simp: scan_encoding_def)
  then obtain e where "fold (scan_encoding (cm_type cm)) (cm_encodings cm) (False, PLAIN) = (True, e)" by (metis (full_types) prod.collapse)
  ultimately show ?thesis using t by (simp add: both_read_def read_chunk_def mmap_read_chunk_def)
qed

end
