(* ===== verification/ChunkRoundtrip.thy ===== *)
theory ChunkRoundtrip
  imports FilePage
begin

text \<open>
  Writing a column chunk and reading it back: whatever the encoding, codec, Bloom filter and page index options, the
  chunk that \<^verbatim>\<open>flush_row_group\<close> writes for a column is read as the values of the column, even when more bytes
  follow in the file.
\<close>

section \<open>What the statistics of a column hold\<close>

text \<open>The strings that the footer must be able to carry.\<close>

fun stat_short :: "cvalue \<Rightarrow> bool" where
  "stat_short (VString s) \<longleftrightarrow> short s"
| "stat_short _ \<longleftrightarrow> True"

definition plain_stats :: "column_statistics \<Rightarrow> bool" where
  "plain_stats s \<longleftrightarrow> short (cs_min_value s) \<and> short (cs_max_value s) \<and> cs_distinct_count s = None \<and> cs_type s = INT32"

lemma plain_stats_new: "plain_stats statistics_new"
  by (simp add: plain_stats_def statistics_new_def)

lemma plain_stats_update: "plain_stats s \<Longrightarrow> stat_short v \<Longrightarrow> plain_stats (statistics_update v s)"
  by (cases v) (auto simp: plain_stats_def update_numeric_def update_string_def count_value_def Let_def MAX_STRING_BYTES_def)

lemma plain_stats_fold: "plain_stats s \<Longrightarrow> \<forall>v \<in> set vs. stat_short v \<Longrightarrow> plain_stats (fold statistics_update vs s)"
  by (induction vs arbitrary: s) (auto simp: plain_stats_update)

lemma column_stats: "holds t vs cw \<Longrightarrow> \<forall>v \<in> set vs. stat_short v \<Longrightarrow> plain_stats (cw_stats cw)"
  using plain_stats_fold[OF plain_stats_new] by (simp add: holds_def)

lemma holds_reset:
  assumes "holds t vs cw" "\<forall>v \<in> set vs. stat_short v"
  shows "holds t [] (column_writer_reset cw)"
proof -
  have "cs_type (cw_stats cw) = INT32" using column_stats[OF assms] by (simp add: plain_stats_def)
  then have "statistics_reset (cw_stats cw) = statistics_new" by (simp add: statistics_reset_def statistics_new_def)
  then show ?thesis using holds_new[of t 0 0] by (simp add: holds_def column_writer_reset_def column_writer_new_def buffer_of_def bools_buf_def byte_bit_def)
qed

section \<open>The buffer depends on the values alone\<close>

lemma bools_buf_unique:
  assumes "bools_buf bs a" "bools_buf bs b"
  shows "a = b"
proof (rule nth_equalityI)
  show l: "length a = length b" using assms by (simp add: bools_buf_def)
  fix k assume k: "k < length a"
  show "a ! k = b ! k"
  proof (rule bit_word_eqI)
    fix j assume j: "j < LENGTH(8)"
    have "byte_bit a (8 * k + j) = byte_bit b (8 * k + j)" using assms unfolding bools_buf_def by blast
    then show "bit (a ! k) j = bit (b ! k) j" using j k l by (simp add: byte_bit_def)
  qed
qed

lemma holds_unique:
  assumes "holds t vs a" "holds t vs b"
  shows "cw_buf a = cw_buf b \<and> cw_num_values a = cw_num_values b \<and> cw_stats a = cw_stats b"
  using assms bools_buf_unique by (auto simp: holds_def buffer_of_def split: if_splits)

text \<open>The column writer after the values were written to a fresh one.\<close>

definition filled :: "ctype \<Rightarrow> cvalue list \<Rightarrow> column_writer" where
  "filled t vs = (case write_batch vs (column_writer_new (parquet_type_of t) 0) of Some cw \<Rightarrow> cw | None \<Rightarrow> column_writer_new (parquet_type_of t) 0)"

lemma holds_filled: "\<forall>v \<in> set vs. ctype_of v = t \<and> value_short v \<Longrightarrow> holds t vs (filled t vs)"
  using write_batch_holds[OF holds_new, of vs t "parquet_type_of t" 0] by (auto simp: filled_def)

lemma encode_filled:
  assumes "holds t vs cw" "\<forall>v \<in> set vs. ctype_of v = t \<and> value_short v"
  shows "encode_column_data cw enc pt = encode_column_data (filled t vs) enc pt" "build_dictionary pt cw = build_dictionary pt (filled t vs)"
  using holds_unique[OF assms(1) holds_filled[OF assms(2)]]
  by (simp_all add: encode_column_data_def extract_values_def extract_bools_def build_dictionary_def extract_byte_array_strings_def)

text \<open>The pages of a column are no larger than the reader allows.\<close>

definition pages_fit :: "u32 \<Rightarrow> ctype \<Rightarrow> cvalue list \<Rightarrow> bool" where
  "pages_fit enc t vs \<longleftrightarrow>
     (if dictionary_encoding enc then
        (case build_dictionary (parquet_type_of t) (filled t vs) of
           Inr (Some (dict, idx, n)) \<Rightarrow> length dict \<le> PARQUET_MAX_PAGE_SIZE \<and> length idx \<le> PARQUET_MAX_PAGE_SIZE
         | _ \<Rightarrow> True)
      else length (encode_column_data (filled t vs) enc (parquet_type_of t)) \<le> PARQUET_MAX_PAGE_SIZE)"

section \<open>Writing a column chunk\<close>

text \<open>A chunk holds values for its readers, whatever is appended to the file.\<close>

definition chunk_holds :: "registry \<Rightarrow> bytes \<Rightarrow> column_chunk \<Rightarrow> u32 \<Rightarrow> ctype \<Rightarrow> cvalue list \<Rightarrow> bool" where
  "chunk_holds reg file cc enc t vs \<longleftrightarrow> ok_column_chunk cc \<and> (\<exists>cm. ch_meta_data cc = Some cm \<and>
     (\<forall>suffix k. length (file @ suffix) \<le> MAX_FILE_SIZE \<longrightarrow> (\<exists>out. both_read reg (file @ suffix) cm k t out \<and> faithful enc out vs)))"

lemma chunk_holds_append: "chunk_holds reg file cc enc t vs \<Longrightarrow> chunk_holds reg (file @ bs) cc enc t vs"
  unfolding chunk_holds_def by (metis append.assoc)

definition in_step :: "parquet_writer \<Rightarrow> bool" where
  "in_step w \<longleftrightarrow> pw_file_offset w = length (pw_file w)"

lemma extended_in_step: "extended w bs w' \<Longrightarrow> in_step w \<Longrightarrow> in_step w'"
  by (auto simp: extended_def in_step_def)

lemma works_write_page:
  assumes "ok_page_header ph" "in_step w"
  shows "works w (write_page ph data w) (\<lambda>(off, hdr) w'. off = pw_file_offset w \<and> 0 < hdr
    \<and> (\<exists>h. header_of ph = Some h \<and> length h = hdr \<and> extended w (h @ data) w') \<and> page_in (pw_file w') off ph data)"
proof -
  obtain h where h: "header_of ph = Some h" using header_written[OF assms(1)] by blast
  have ne: "h \<noteq> []"
    using h by (auto simp: header_of_def serialize_PageHeader_def write_struct_def run_append write_stop_def enc_end_struct_def append_bytes_def
        split: option.splits)
  have w: "write_page ph data w = after (write_raw h w) (\<lambda>_ w1. after (write_raw data w1) (\<lambda>_. ret (pw_file_offset w, length h)))"
    by (simp add: write_page_def h)
  show ?thesis unfolding w
  proof (rule works_after[OF works_write_raw])
    fix v w1 assume 1: "extended w h w1"
    show "works w1 (after (write_raw data w1) (\<lambda>_. ret (pw_file_offset w, length h))) (\<lambda>(off, hdr) w'. off = pw_file_offset w \<and> 0 < hdr
      \<and> (\<exists>h'. header_of ph = Some h' \<and> length h' = hdr \<and> extended w (h' @ data) w') \<and> page_in (pw_file w') off ph data)"
    proof (rule works_after[OF works_write_raw])
      fix v w2 assume "extended w1 data w2"
      then have 2: "extended w (h @ data) w2" using extended_trans[OF 1] by blast
      then have "pw_file w2 = pw_file w @ h @ data @ []" using extended_file by simp
      moreover have "length (pw_file w) = pw_file_offset w" using assms(2) by (simp add: in_step_def)
      ultimately have "page_in (pw_file w2) (pw_file_offset w) ph data" unfolding page_in_def using h by blast
      then show "works w2 (ret (pw_file_offset w, length h) w2) (\<lambda>(off, hdr) w'. off = pw_file_offset w \<and> 0 < hdr
        \<and> (\<exists>h'. header_of ph = Some h' \<and> length h' = hdr \<and> extended w (h' @ data) w') \<and> page_in (pw_file w') off ph data)"
        using h 2 ne by (intro works_ret) auto
    qed
  qed
qed

lemma page_headers:
  assumes "length plain \<le> PARQUET_MAX_PAGE_SIZE" "plain \<noteq> []" "codec_ok reg c" "compress_page reg c plain = Inr packed"
  shows "packs reg c plain (data_page_header_for plain packed n enc) packed"
    "packs reg c plain (dictionary_page_header_for plain packed n) packed"
    "n \<le> MAX_BP_VALUES \<Longrightarrow> counts (data_page_header_for plain packed n enc) n"
    "ok_page_header (data_page_header_for plain packed m enc)" "ok_page_header (dictionary_page_header_for plain packed m)"
proof -
  have l: "length packed \<le> INT32_MAX" using compress_page_ok[OF assms(3,1)] assms(4) by auto
  note d = data_page_header_for_def dictionary_page_header_for_def default_PageHeader_def default_DataPageHeader_def
    default_DictionaryPageHeader_def ok_page_header_def ok_data_page_def
  show "packs reg c plain (data_page_header_for plain packed n enc) packed" "packs reg c plain (dictionary_page_header_for plain packed n) packed"
    using assms l by (simp_all add: packs_def heads_def simple_header_def d)
  show "n \<le> MAX_BP_VALUES \<Longrightarrow> counts (data_page_header_for plain packed n enc) n" by (simp add: counts_def d)
  show "ok_page_header (data_page_header_for plain packed m enc)" "ok_page_header (dictionary_page_header_for plain packed m)" by (simp_all add: d)
qed

text \<open>What the two paths leave: bytes appended, and pages that a chunk's metadata can point to.\<close>

definition pages_hold :: "environment \<Rightarrow> compression \<Rightarrow> u32 \<Rightarrow> ctype \<Rightarrow> cvalue list \<Rightarrow> parquet_writer \<Rightarrow> pages_info \<Rightarrow> parquet_writer \<Rightarrow> bool" where
  "pages_hold env c enc t vs w info w' \<longleftrightarrow> (\<exists>bs. extended w bs w') \<and> length (pi_used_encodings info) \<le> 2 \<and>
     (\<forall>cm suffix k. describes cm t c (pi_used_encodings info) (pi_data_page_offset info) (pi_dict_page_offset info)
        \<and> length (pw_file w' @ suffix) \<le> MAX_FILE_SIZE \<longrightarrow>
        (\<exists>out. both_read (en_registry env) (pw_file w' @ suffix) cm k t out \<and> faithful enc out vs))"

lemma works_write_plain_column:
  assumes cw: "holds t vs cw" and e: "encodable enc t vs" "pages_fit enc t vs" "\<not> dictionary_encoding enc"
    and c: "codec_ok (en_registry env) c" and w: "in_step w" and cd: "cd_physical_type cd = parquet_type_of t"
  shows "works w (write_plain_column env cd cw enc c w) (pages_hold env c enc t vs w)"
proof -
  let ?data = "encode_column_data cw enc (parquet_type_of t)"
  have ty: "\<forall>v \<in> set vs. ctype_of v = t \<and> value_short v" and n: "length vs \<le> MAX_BP_VALUES" using e(1) unfolding encodable_def by blast+
  have len: "length ?data \<le> PARQUET_MAX_PAGE_SIZE" using e(2,3) encode_filled(1)[OF cw ty] by (simp add: pages_fit_def)
  have ne: "?data \<noteq> []" using encoded_nonempty[OF cw e(1)] .
  have cn: "cw_num_values cw = length vs" using cw by (simp add: holds_def)
  obtain packed where p: "compress_page (en_registry env) c ?data = Inr packed" "length packed \<le> INT32_MAX"
    using compress_page_ok[OF c len] by blast
  let ?ph = "data_page_header_for ?data packed (length vs) enc"
  note h = page_headers[OF len ne c p(1)]
  have a: "(length ?data > INT32_MAX) = False" "(c \<noteq> UNCOMPRESSED \<and> length packed > INT32_MAX) = False"
    using len p(2) by (simp_all add: PARQUET_MAX_PAGE_SIZE_def INT32_MAX_def)
  have "write_plain_column env cd cw enc c w = after (write_page ?ph packed w) (\<lambda>(offset, header).
       ret \<lparr>pi_total_uncompressed = page_size header ?data, pi_total_compressed = page_size header packed, pi_used_encodings = [enc],
         pi_dict_page_offset = None, pi_data_page_offset = offset, pi_location_size = of_nat (length packed) + of_nat header\<rparr>)"
    unfolding write_plain_column_def cd cn Let_def by (simp only: p(1) a if_False sum.case)
  also have "works w \<dots> (pages_hold env c enc t vs w)"
  proof (rule works_after[OF works_write_page[OF h(4) w]], clarify)
    fix off hdr w1 h'
    assume 1: "extended w (h' @ packed) w1" and pg: "page_in (pw_file w1) (pw_file_offset w) ?ph packed"
    have "both_read (en_registry env) (pw_file w1 @ suffix) cm k t vs"
      if "describes cm t c [enc] (pw_file_offset w) None" "length (pw_file w1 @ suffix) \<le> MAX_FILE_SIZE" for cm suffix k
      by (rule read_encoded_chunk[OF page_in_append[OF pg] h(1) that(2) h(3)[OF n] that(1) e(3,1) cw])
    then show "works w1 (ret \<lparr>pi_total_uncompressed = page_size (length h') ?data, pi_total_compressed = page_size (length h') packed,
        pi_used_encodings = [enc], pi_dict_page_offset = None, pi_data_page_offset = pw_file_offset w,
        pi_location_size = of_nat (length packed) + of_nat (length h')\<rparr> w1) (pages_hold env c enc t vs w)"
      using 1 e(3) by (intro works_ret) (auto simp: pages_hold_def faithful_def)
  qed
  finally show ?thesis .
qed

lemma works_write_dictionary_column:
  assumes cw: "holds t vs cw" and e: "encodable enc t vs" "pages_fit enc t vs" "dictionary_encoding enc"
    and c: "codec_ok (en_registry env) c" and w: "in_step w" and cd: "cd_physical_type cd = parquet_type_of t"
  shows "works w (write_dictionary_column env cd cw c w) (pages_hold env c enc t vs w)"
proof -
  have ty: "\<forall>v \<in> set vs. ctype_of v = t \<and> value_short v" and m: "length vs \<le> MAX_BP_VALUES" and t: "t \<noteq> CBool"
    using e(1,3) unfolding encodable_def by blast+
  obtain dict idx n out where d: "build_dictionary (parquet_type_of t) cw = Inr (Some (dict, idx, n))" "n \<le> MAX_DICTIONARY_ENTRIES"
      "dict \<noteq> []" "idx \<noteq> []" "decode_dictionary t dict n idx (length vs) = Inr out" "list_all2 same_value out vs"
    using build_dictionary_read[OF cw e(1,3)] by blast
  have len: "length dict \<le> PARQUET_MAX_PAGE_SIZE" "length idx \<le> PARQUET_MAX_PAGE_SIZE"
    using e(2,3) d(1) encode_filled(2)[OF cw ty, of "parquet_type_of t"] by (simp_all add: pages_fit_def)
  have cn: "cw_num_values cw = length vs" using cw by (simp add: holds_def)
  obtain dp where dp: "compress_page (en_registry env) c dict = Inr dp" using compress_page_ok[OF c len(1)] by blast
  obtain ip where ip: "compress_page (en_registry env) c idx = Inr ip" using compress_page_ok[OF c len(2)] by blast
  let ?dph = "dictionary_page_header_for dict dp n" let ?ph = "data_page_header_for idx ip (length vs) RLE_DICTIONARY"
  obtain D where header: "pg_type ?dph = DICTIONARY_PAGE" "pg_dictionary_page_header ?dph = Some D" "di_num_values D = of_nat n"
    by (simp add: dictionary_page_header_for_def default_DictionaryPageHeader_def)
  note dh = page_headers[OF len(1) d(3) c dp] and ih = page_headers[OF len(2) d(4) c ip]
  have fine: "faithful enc out vs" using d(6) e(3) by (simp add: faithful_def)
  have "write_dictionary_column env cd cw c w =
    after (write_page ?dph dp w) (\<lambda>(dict_offset, dict_header) w2. after (write_page ?ph ip w2) (\<lambda>(data_offset, data_header).
      let total = page_size dict_header dp + page_size data_header ip in
      ret \<lparr>pi_total_uncompressed = page_size dict_header dict + page_size data_header idx, pi_total_compressed = total,
        pi_used_encodings = dict_encodings env, pi_dict_page_offset = Some dict_offset, pi_data_page_offset = data_offset,
        pi_location_size = ucast total\<rparr>))"
    unfolding write_dictionary_column_def cd d(1) cn by (simp add: dp ip)
  also have "works w \<dots> (pages_hold env c enc t vs w)"
  proof (rule works_after[OF works_write_page[OF dh(5) w]], clarify)
    fix off hdr w1 h1
    assume 1: "extended w (h1 @ dp) w1" and pg1: "page_in (pw_file w1) (pw_file_offset w) ?dph dp" and pos: "h1 \<noteq> []"
    show "works w1 (after (write_page ?ph ip w1) (\<lambda>(data_offset, data_header).
      let total = page_size (length h1) dp + page_size data_header ip in
      ret \<lparr>pi_total_uncompressed = page_size (length h1) dict + page_size data_header idx, pi_total_compressed = total,
        pi_used_encodings = dict_encodings env, pi_dict_page_offset = Some (pw_file_offset w), pi_data_page_offset = data_offset,
        pi_location_size = ucast total\<rparr>)) (pages_hold env c enc t vs w)"
    proof (rule works_after[OF works_write_page[OF ih(4) extended_in_step[OF 1 w]]], clarify)
      fix off2 hdr2 w2 h2
      assume 2: "extended w1 (h2 @ ip) w2" and pg2: "page_in (pw_file w2) (pw_file_offset w1) ?ph ip"
      have f: "pw_file w2 = pw_file w1 @ h2 @ ip" "pw_file_offset w < pw_file_offset w1"
        using extended_file[OF 2] extended_file[OF 1] pos by auto
      have "both_read (en_registry env) (pw_file w2 @ suffix) cm k t out"
        if "describes cm t c (dict_encodings env) (pw_file_offset w1) (Some (pw_file_offset w))" "length (pw_file w2 @ suffix) \<le> MAX_FILE_SIZE"
        for cm suffix k
      proof -
        have "page_in (pw_file w2 @ suffix) (pw_file_offset w) ?dph dp" using page_in_append[OF pg1] f(1) by simp
        moreover have "dict_encodings env \<in> {[PLAIN, RLE_DICTIONARY], [RLE_DICTIONARY, PLAIN]}" by (simp add: dict_encodings_def)
        ultimately show ?thesis
          using read_dictionary_chunk[OF _ dh(2) header(1-3) d(2) page_in_append[OF pg2] ih(1) ih(3)[OF m] that(2,1) _ f(2) d(5) t] by blast
      qed
      then show "works w2 ((let total = page_size (length h1) dp + page_size (length h2) ip in
          ret \<lparr>pi_total_uncompressed = page_size (length h1) dict + page_size (length h2) idx, pi_total_compressed = total,
            pi_used_encodings = dict_encodings env, pi_dict_page_offset = Some (pw_file_offset w), pi_data_page_offset = pw_file_offset w1,
            pi_location_size = ucast total\<rparr>) w2) (pages_hold env c enc t vs w)"
        using extended_trans[OF 1 2] fine unfolding Let_def by (intro works_ret) (auto simp: pages_hold_def dict_encodings_def intro!: exI[where x = out])
    qed
  qed
  finally show ?thesis .
qed

subsection \<open>Bloom filters and page indexes\<close>

definition later :: "parquet_writer \<Rightarrow> parquet_writer \<Rightarrow> bool" where
  "later w w' \<longleftrightarrow> (\<exists>bs. extended w bs w')"

lemma later_simps: "later w w' \<Longrightarrow> in_step w \<Longrightarrow> in_step w'" "later w w' \<Longrightarrow> later w' w'' \<Longrightarrow> later w w''"
  using extended_in_step extended_trans unfolding later_def by blast+

lemma works_write_raw_later: "works w (write_raw bs w) (\<lambda>_ w'. later w w')"
  by (rule works_weaken[OF works_write_raw]) (auto simp: later_def)

text \<open>The two steps change offsets and lengths of the chunk, which its metadata and the footer do not mind.\<close>

definition same_meta :: "column_chunk \<Rightarrow> column_chunk \<Rightarrow> bool" where
  "same_meta cc cc' \<longleftrightarrow> ch_meta_data cc' = ch_meta_data cc \<and> (ok_column_chunk cc \<longrightarrow> ok_column_chunk cc')"

lemma works_write_bloom: "works w (write_bloom c cc w) (\<lambda>(cc', _) w'. later w w' \<and> same_meta cc cc')"
proof (cases "pw_bloom_filters w = [] \<or> pw_bloom_filters w ! c = None")
  case True
  have "later w w" unfolding later_def extended_def by (intro exI[where x = "[]"] exI[where x = "pw_room w"]) simp
  moreover have "write_bloom c cc w = ret (cc, 0) w" using True by (auto simp: write_bloom_def)
  ultimately show ?thesis by (auto intro!: works_ret simp: same_meta_def)
next
  case False
  then obtain f where "pw_bloom_filters w ! c = Some f" by blast
  then have "write_bloom c cc w = after (write_raw_le32 (of_nat (length f)) w) (\<lambda>_ w1. after (write_raw f w1) (\<lambda>_.
            ret (cc\<lparr>ch_bloom_filter_offset := Some (of_nat (pw_file_offset w)), ch_bloom_filter_length := Some (of_nat (4 + length f))\<rparr>,
                 of_nat (4 + length f))))"
    using False by (simp add: write_bloom_def)
  then show ?thesis unfolding write_raw_le32_eq
    by (simp only:) (rule works_after[OF works_write_raw_later], rule works_after[OF works_write_raw_later], rule works_ret,
        auto simp: same_meta_def ok_column_chunk_def intro: later_simps(2))
qed

definition indexable :: "index_builder \<Rightarrow> bool" where
  "indexable b \<longleftrightarrow> length b \<le> 1 \<and> (\<forall>p \<in> set b. short (pi_min_value p) \<and> short (pi_max_value p))"

lemma index_written:
  assumes "indexable b"
  shows "\<exists>bs. index_bytes (serialize_ColumnIndex (build_column_index pt b)) = Some bs" "\<exists>bs. index_bytes (serialize_OffsetIndex (build_offset_index b)) = Some bs"
proof -
  have "ok_column_index (build_column_index pt b)" "ok_offset_index (build_offset_index b)"
    using assms by (auto simp: indexable_def ok_column_index_def ok_offset_index_def build_column_index_def build_offset_index_def
        default_ColumnIndex_def default_OffsetIndex_def MAX_COLLECTION_SIZE_def)
  then show "\<exists>bs. index_bytes (serialize_ColumnIndex (build_column_index pt b)) = Some bs" "\<exists>bs. index_bytes (serialize_OffsetIndex (build_offset_index b)) = Some bs"
    using column_index_decode[of "build_column_index pt b"] offset_index_decode[of "build_offset_index b"] by (auto simp: index_bytes_def)
qed

lemma works_write_index:
  assumes "pw_index_builders w \<noteq> [] \<longrightarrow> indexable (pw_index_builders w ! c)"
  shows "works w (write_index c cc w) (\<lambda>(cc', _) w'. later w w' \<and> same_meta cc cc')"
proof (cases "pw_index_builders w = []")
  case True
  have "later w w" unfolding later_def extended_def by (intro exI[where x = "[]"] exI[where x = "pw_room w"]) simp
  then show ?thesis using True unfolding write_index_def by (auto intro!: works_ret simp: same_meta_def)
next
  case False
  let ?b = "pw_index_builders w ! c"
  obtain ci where ci: "index_bytes (serialize_ColumnIndex (build_column_index (cd_physical_type (sc_columns (pw_schema w) ! c)) ?b)) = Some ci"
    using index_written(1) assms False by blast
  obtain oi where oi: "index_bytes (serialize_OffsetIndex (build_offset_index ?b)) = Some oi" using index_written(2) assms False by blast
  show ?thesis unfolding write_index_def using False ci oi
    by (simp only: if_False Let_def option.case)
      (rule works_after[OF works_write_raw_later], rule works_after[OF works_write_raw_later], rule works_ret,
        auto simp: same_meta_def ok_column_chunk_def intro: later_simps(2))
qed

subsection \<open>The chunk\<close>

text \<open>The encoding that the options choose for a column; no column has a distinct count, so the values do not matter.\<close>

definition planned :: "writer_options \<Rightarrow> column_descriptor \<Rightarrow> u32" where
  "planned opts cd = choose_encoding opts cd (column_writer_new (cd_physical_type cd) (cd_type_length cd))"

lemma chosen_planned: "plain_stats (cw_stats cw) \<Longrightarrow> choose_encoding opts cd cw = planned opts cd"
  by (simp add: planned_def choose_encoding_def column_writer_new_def plain_stats_def statistics_new_def Let_def cong: option.case_cong)

definition storable :: "writer_options \<Rightarrow> column_descriptor \<Rightarrow> ctype \<Rightarrow> cvalue list \<Rightarrow> bool" where
  "storable opts cd t vs \<longleftrightarrow> encodable (planned opts cd) t vs \<and> pages_fit (planned opts cd) t vs \<and> (\<forall>v \<in> set vs. stat_short v)"

definition column_typed :: "column_descriptor \<Rightarrow> ctype \<Rightarrow> bool" where
  "column_typed cd t \<longleftrightarrow> cd_physical_type cd = parquet_type_of t \<and> short (cd_name cd)"

lemma works_write_pages:
  assumes cw: "holds t vs cw" and s: "storable opts cd t vs" and c: "codec_ok (en_registry env) c" and w: "in_step w" and cd: "column_typed cd t"
  shows "works w (if planned opts cd = PLAIN_DICTIONARY \<or> planned opts cd = RLE_DICTIONARY then write_dictionary_column env cd cw c w
      else write_plain_column env cd cw (planned opts cd) c w) (pages_hold env c (planned opts cd) t vs w)"
proof (cases "dictionary_encoding (planned opts cd)")
  case True
  then show ?thesis using works_write_dictionary_column[OF cw _ _ True c w] s cd
    by (simp add: storable_def column_typed_def dictionary_encoding_def)
next
  case False
  then show ?thesis using works_write_plain_column[OF cw _ _ False c w] s cd
    by (simp add: storable_def column_typed_def dictionary_encoding_def)
qed

text \<open>A step that appends bytes and feeds the page index of one column.\<close>

definition stepped :: "nat set \<Rightarrow> parquet_writer \<Rightarrow> parquet_writer \<Rightarrow> bool" where
  "stepped cs w w' \<longleftrightarrow> (\<exists>ib. later (w\<lparr>pw_index_builders := ib\<rparr>) w' \<and> length ib = length (pw_index_builders w)
     \<and> (\<forall>i. i \<notin> cs \<longrightarrow> ib ! i = pw_index_builders w ! i))"

lemma stepped_file: "stepped cs w w' \<Longrightarrow> \<exists>bs. pw_file w' = pw_file w @ bs"
  by (auto simp: stepped_def later_def extended_def)

lemma stepped_in_step: "stepped cs w w' \<Longrightarrow> in_step w \<Longrightarrow> in_step w'"
  by (auto simp: stepped_def later_def extended_def in_step_def)

lemma stepped_fields:
  assumes "stepped cs w w'"
  shows "pw_schema w' = pw_schema w" "pw_options w' = pw_options w" "pw_col_writers w' = pw_col_writers w" "pw_col_row_counts w' = pw_col_row_counts w"
    "pw_pending_rows w' = pw_pending_rows w" "pw_row_groups w' = pw_row_groups w" "pw_total_rows w' = pw_total_rows w" "pw_open w' = pw_open w"
    "pw_bloom_filters w' = pw_bloom_filters w" "length (pw_index_builders w') = length (pw_index_builders w)"
    "i \<notin> cs \<Longrightarrow> pw_index_builders w' ! i = pw_index_builders w ! i"
  using assms by (auto simp: stepped_def later_def extended_def)

lemma stepped_trans: "stepped cs w w1 \<Longrightarrow> stepped ds w1 w2 \<Longrightarrow> stepped (cs \<union> ds) w w2"
  unfolding stepped_def later_def
proof (elim exE conjE)
  fix ib ib' bs bs'
  assume 1: "extended (w\<lparr>pw_index_builders := ib\<rparr>) bs w1" "length ib = length (pw_index_builders w)"
      "\<forall>i. i \<notin> cs \<longrightarrow> ib ! i = pw_index_builders w ! i"
    and 2: "extended (w1\<lparr>pw_index_builders := ib'\<rparr>) bs' w2" "length ib' = length (pw_index_builders w1)"
      "\<forall>i. i \<notin> ds \<longrightarrow> ib' ! i = pw_index_builders w1 ! i"
  have "extended (w\<lparr>pw_index_builders := ib'\<rparr>) (bs @ bs') w2" "pw_index_builders w1 = ib"
    using 1(1) 2(1) by (auto simp: extended_def add.assoc)
  then show "\<exists>ib. (\<exists>bs. extended (w\<lparr>pw_index_builders := ib\<rparr>) bs w2) \<and> length ib = length (pw_index_builders w)
      \<and> (\<forall>i. i \<notin> cs \<union> ds \<longrightarrow> ib ! i = pw_index_builders w ! i)"
    using 1(2,3) 2(2,3) by (intro exI[where x = ib']) auto
qed

lemma fed_index: "plain_stats s \<Longrightarrow> indexable (feed_page s n off sz [])"
  by (auto simp: feed_page_def Let_def on_last_def start_page_def set_page_location_def set_first_row_index_def set_min_def set_max_def
      set_null_page_def set_null_count_def indexable_def plain_stats_def default_page_info_def MAX_STRING_BYTES_def)

lemma works_write_column_chunk:
  assumes cw: "holds t vs (pw_col_writers w ! c)" and s: "storable (pw_options w) (sc_columns (pw_schema w) ! c) t vs"
    and codec: "codec_ok (en_registry env) (choose_codec env (pw_options w))" and w: "in_step w"
    and cd: "column_typed (sc_columns (pw_schema w) ! c) t"
    and ib: "pw_index_builders w \<noteq> [] \<longrightarrow> c < length (pw_index_builders w) \<and> pw_index_builders w ! c = []"
  shows "works w (write_column_chunk env c w) (\<lambda>(cc, _) w'. stepped {c} w w'
    \<and> chunk_holds (en_registry env) (pw_file w') cc (planned (pw_options w) (sc_columns (pw_schema w) ! c)) t vs)"
proof -
  let ?cw = "pw_col_writers w ! c" let ?cd = "sc_columns (pw_schema w) ! c" let ?codec = "choose_codec env (pw_options w)"
  let ?enc = "planned (pw_options w) ?cd"
  have st: "plain_stats (cw_stats ?cw)" using column_stats[OF cw] s by (simp add: storable_def)
  have enc: "choose_encoding (pw_options w) ?cd ?cw = ?enc" using chosen_planned[OF st] .
  show ?thesis unfolding write_column_chunk_def Let_def enc
  proof (rule works_after[OF works_write_pages[OF cw s codec w cd]])
    fix info w1 assume p: "pages_hold env ?codec ?enc t vs w info w1"
    obtain bs where 1: "extended w bs w1" using p by (auto simp: pages_hold_def)
    let ?cc = "default_ColumnChunk\<lparr>ch_file_offset := of_nat (pw_file_offset w), ch_meta_data := Some (chunk_metadata ?cd ?codec ?cw info)\<rparr>"
    let ?w2 = "feed_index c ?cw info w1"
    have 2: "stepped {c} w ?w2" "pw_room ?w2 = pw_room w1" "pw_file ?w2 = pw_file w1"
    proof -
      have ib: "pw_index_builders w1 = pw_index_builders w" using 1 by (auto simp: extended_def)
      obtain r where w1: "w1 = w\<lparr>pw_file := pw_file w @ bs, pw_room := r, pw_file_offset := pw_file_offset w + length bs\<rparr>"
        using 1 unfolding extended_def by blast
      have "extended (w\<lparr>pw_index_builders := pw_index_builders ?w2\<rparr>) bs ?w2"
        unfolding extended_def w1 by (rule exI[where x = r], cases w) (simp add: feed_index_def)
      moreover have "length (pw_index_builders ?w2) = length (pw_index_builders w)" "\<forall>i. i \<notin> {c} \<longrightarrow> pw_index_builders ?w2 ! i = pw_index_builders w ! i"
        using ib by (auto simp: feed_index_def)
      ultimately show "stepped {c} w ?w2" unfolding stepped_def later_def by blast
      show "pw_room ?w2 = pw_room w1" "pw_file ?w2 = pw_file w1" by (simp_all add: feed_index_def)
    qed
    have 3: "pw_index_builders ?w2 \<noteq> [] \<longrightarrow> indexable (pw_index_builders ?w2 ! c)"
      using 1 ib fed_index[OF st] by (auto simp: feed_index_def extended_def)
    have ok: "ok_column_chunk ?cc"
      using st p cd by (auto simp: ok_column_chunk_def default_ColumnChunk_def chunk_metadata_def default_ColumnMetaData_def ok_column_metadata_def
          chunk_statistics_def ok_statistics_def default_Statistics_def plain_stats_def column_typed_def pages_hold_def)
    have d: "describes (chunk_metadata ?cd ?codec ?cw info) t ?codec (pi_used_encodings info) (pi_data_page_offset info) (pi_dict_page_offset info)"
      using cd by (simp add: describes_def chunk_metadata_def default_ColumnMetaData_def column_typed_def)
    have h: "chunk_holds (en_registry env) (pw_file w1) ?cc ?enc t vs"
      unfolding chunk_holds_def using ok d p by (simp add: pages_hold_def)
    have fin: "stepped {c} w w' \<and> chunk_holds (en_registry env) (pw_file w') cc ?enc t vs" if "later ?w2 w'" "same_meta ?cc cc" for cc w'
    proof -
      note l = that(1)
      have "stepped {} ?w2 w'" using l unfolding stepped_def by (intro exI[where x = "pw_index_builders ?w2"]) simp
      then have "stepped {c} w w'" using stepped_trans[OF 2(1)] by fastforce
      moreover obtain ys where "pw_file w' = pw_file w1 @ ys" using l 2(3) by (auto simp: later_def extended_def)
      then have "chunk_holds (en_registry env) (pw_file w') ?cc ?enc t vs" using chunk_holds_append[OF h] by simp
      then have "chunk_holds (en_registry env) (pw_file w') cc ?enc t vs" using that(2) ok unfolding chunk_holds_def same_meta_def by simp
      ultimately show ?thesis by blast
    qed
    have "works ?w2 (after (write_bloom c ?cc ?w2) (\<lambda>(cc, bloom) w2. after (write_index c cc w2) (\<lambda>(cc', index). ret (cc', bloom + index + pi_total_compressed info))))
      (\<lambda>(cc, _) w'. stepped {c} w w' \<and> chunk_holds (en_registry env) (pw_file w') cc ?enc t vs)"
    proof (rule works_after[OF works_write_bloom], clarify)
      fix cc b w3 assume 4: "later ?w2 w3" "same_meta ?cc cc"
      have i: "pw_index_builders w3 \<noteq> [] \<longrightarrow> indexable (pw_index_builders w3 ! c)" using 3 4(1) by (auto simp: later_def extended_def)
      show "works w3 (after (write_index c cc w3) (\<lambda>(cc', index). ret (cc', b + index + pi_total_compressed info)))
        (\<lambda>(cc, _) w'. stepped {c} w w' \<and> chunk_holds (en_registry env) (pw_file w') cc ?enc t vs)"
      proof (rule works_after[OF works_write_index[OF i]], clarify)
        fix cc' n w4 assume 5: "later w3 w4" "same_meta cc cc'"
        have "later ?w2 w4" "same_meta ?cc cc'" using later_simps(2)[OF 4(1) 5(1)] 4(2) 5(2) by (simp_all add: same_meta_def)
        then show "works w4 (ret (cc', b + n + pi_total_compressed info) w4)
          (\<lambda>(cc, _) w'. stepped {c} w w' \<and> chunk_holds (en_registry env) (pw_file w') cc ?enc t vs)"
          using fin by (intro works_ret) simp_all
      qed
    qed
    then show "works w1 (after (write_bloom c ?cc ?w2) (\<lambda>(cc, bloom) w2. after (write_index c cc w2) (\<lambda>(cc', index). ret (cc', bloom + index + pi_total_compressed info))))
      (\<lambda>(cc, _) w'. stepped {c} w w' \<and> chunk_holds (en_registry env) (pw_file w') cc ?enc t vs)"
      by (rule works_room) (simp add: 2(2))
  qed
qed

lemma works_write_column_chunks:
  assumes "distinct cs" "in_step w" "codec_ok (en_registry env) (choose_codec env (pw_options w))"
    and "\<forall>c \<in> set cs. holds (ts ! c) (vss ! c) (pw_col_writers w ! c) \<and> storable (pw_options w) (sc_columns (pw_schema w) ! c) (ts ! c) (vss ! c)
      \<and> column_typed (sc_columns (pw_schema w) ! c) (ts ! c)
      \<and> (pw_index_builders w \<noteq> [] \<longrightarrow> c < length (pw_index_builders w) \<and> pw_index_builders w ! c = [])"
  shows "works w (write_column_chunks env cs w) (\<lambda>rs w'. stepped (set cs) w w' \<and> list_all2 (\<lambda>c r.
      chunk_holds (en_registry env) (pw_file w') (fst r) (planned (pw_options w) (sc_columns (pw_schema w) ! c)) (ts ! c) (vss ! c)) cs rs)"
  using assms
proof (induction cs arbitrary: w)
  case Nil
  have "stepped {} w w" unfolding stepped_def later_def extended_def
    by (rule exI[where x = "pw_index_builders w"], intro conjI exI[where x = "[]"] exI[where x = "pw_room w"]) simp_all
  then show ?case by (auto intro!: works_ret)
next
  case (Cons c cs)
  let ?P = "\<lambda>w0 w' c (r :: column_chunk \<times> u64). chunk_holds (en_registry env) (pw_file w') (fst r) (planned (pw_options w0) (sc_columns (pw_schema w0) ! c)) (ts ! c) (vss ! c)"
  have 0: "works w (write_column_chunk env c w) (\<lambda>(cc, _) w'. stepped {c} w w'
    \<and> chunk_holds (en_registry env) (pw_file w') cc (planned (pw_options w) (sc_columns (pw_schema w) ! c)) (ts ! c) (vss ! c))"
    using Cons.prems by (intro works_write_column_chunk) auto
  show ?case unfolding write_column_chunks.simps
  proof (rule works_after[OF 0], clarify)
    fix cc n w1 assume 1: "stepped {c} w w1"
      "chunk_holds (en_registry env) (pw_file w1) cc (planned (pw_options w) (sc_columns (pw_schema w) ! c)) (ts ! c) (vss ! c)"
    note f = stepped_fields[OF 1(1)]
    have ib: "pw_index_builders w1 = [] \<longleftrightarrow> pw_index_builders w = []" using f(10) by (metis length_0_conv)
    have ib': "pw_index_builders w1 ! d = pw_index_builders w ! d" if "d \<in> set cs" for d
      using f(11)[of d] that Cons.prems(1) by auto
    have "in_step w1" using stepped_in_step[OF 1(1) Cons.prems(2)] .
    then have 2: "works w1 (write_column_chunks env cs w1) (\<lambda>rs w'. stepped (set cs) w1 w' \<and> list_all2 (?P w1 w') cs rs)"
      using Cons.prems ib by (intro Cons.IH) (auto simp: f(1-10) ib')
    show "works w1 (after (write_column_chunks env cs w1) (\<lambda>rs. ret ((cc, n) # rs)))
      (\<lambda>rs w'. stepped (set (c # cs)) w w' \<and> list_all2 (?P w w') (c # cs) rs)"
    proof (rule works_after[OF 2], clarify)
      fix rs w2 assume 3: "stepped (set cs) w1 w2" "list_all2 (?P w1 w2) cs rs"
      obtain bs where "pw_file w2 = pw_file w1 @ bs" using stepped_file[OF 3(1)] by blast
      then show "works w2 (ret ((cc, n) # rs) w2) (\<lambda>rs w'. stepped (set (c # cs)) w w' \<and> list_all2 (?P w w') (c # cs) rs)"
        using 1(2) 3(2) stepped_trans[OF 1(1) 3(1)] chunk_holds_append f(1,2) by (intro works_ret) simp_all
    qed
  qed
qed

end
