(* ===== verification/FileContent.thy ===== *)
theory FileContent
  imports ChunkRoundtrip
begin

text \<open>
  \<open>content\<close> is the abstraction of a writer: the row groups it has written, the values it buffers and the rows that
  wait.  The operations on columns and rows act on it as they act on lists.
\<close>

section \<open>The content of a writer\<close>

text \<open>The chunks of a row group hold the values of its columns.\<close>

definition group_holds :: "registry \<Rightarrow> bytes \<Rightarrow> writer_options \<Rightarrow> column_descriptor list \<Rightarrow> ctype list \<Rightarrow> row_group \<Rightarrow> cvalue list list \<Rightarrow> bool" where
  "group_holds reg file opts cds ts rg g \<longleftrightarrow> length (rg_columns rg) = length ts \<and> length g = length ts \<and> rg_sorting_columns rg = []
     \<and> rg_num_rows rg = of_nat (length (hd g))
     \<and> (\<forall>c < length ts. chunk_holds reg file (rg_columns rg ! c) (planned opts (cds ! c)) (ts ! c) (g ! c))"

lemma group_holds_append: "group_holds reg file opts cds ts rg g \<Longrightarrow> group_holds reg (file @ bs) opts cds ts rg g"
  by (simp add: group_holds_def chunk_holds_append)

text \<open>A rate that the constructor of a Bloom filter accepts.\<close>

definition rate_ok :: "u64 \<Rightarrow> bool" where "rate_ok fpr \<longleftrightarrow> bloom_new (\<lambda>_ _. 0) 1 fpr \<noteq> None"

lemma rate_ok: "rate_ok fpr \<Longrightarrow> \<exists>f. bloom_new raw n fpr = Some f"
  by (auto simp: rate_ok_def bloom_new_def Let_def split: if_splits)

definition content :: "environment \<Rightarrow> ctype list \<Rightarrow> parquet_writer \<Rightarrow> cvalue list list list \<Rightarrow> cvalue list list \<Rightarrow> bytes list list \<Rightarrow> bool" where
  "content env ts w gs cur rows \<longleftrightarrow> pw_open w \<and> in_step w \<and> (\<exists>body. pw_file w = to_le 4 PARQUET_MAGIC @ body)
     \<and> ts \<noteq> [] \<and> length ts = num_columns (pw_schema w) \<and> length cur = length ts \<and> length (pw_col_writers w) = length ts
     \<and> (\<forall>c < length ts. column_typed (sc_columns (pw_schema w) ! c) (ts ! c) \<and> holds (ts ! c) (cur ! c) (pw_col_writers w ! c)
          \<and> (\<forall>v \<in> set (cur ! c). stat_short v))
     \<and> pw_pending_rows w = rows
     \<and> (pw_bloom_filters w \<noteq> [] \<longrightarrow> rate_ok (wo_bloom_filter_fpr (pw_options w)))
     \<and> (pw_index_builders w \<noteq> [] \<longrightarrow> length (pw_index_builders w) = length ts \<and> (\<forall>c < length ts. pw_index_builders w ! c = []))
     \<and> list_all2 (group_holds (en_registry (with_snappy env)) (pw_file w) (pw_options w) (sc_columns (pw_schema w)) ts) (pw_row_groups w) gs
     \<and> pw_total_rows w = sum_list (map (\<lambda>g. length (hd g)) gs)"

lemma content_bloom:
  "content env ts w gs cur rows \<Longrightarrow> bf = [] \<longleftrightarrow> pw_bloom_filters w = [] \<Longrightarrow> content env ts (w\<lparr>pw_bloom_filters := bf\<rparr>) gs cur rows"
  by (simp add: content_def in_step_def)

text \<open>The options and the schema of a writer never change.\<close>

definition kept :: "parquet_writer \<Rightarrow> parquet_writer \<Rightarrow> bool" where
  "kept w w' \<longleftrightarrow> pw_options w' = pw_options w \<and> pw_schema w' = pw_schema w"

lemma kept_trans: "kept w w1 \<Longrightarrow> kept w1 w2 \<Longrightarrow> kept w w2" by (simp add: kept_def)

subsection \<open>Bloom filters\<close>

definition bloomed :: "parquet_writer \<Rightarrow> parquet_writer \<Rightarrow> bool" where
  "bloomed w w' \<longleftrightarrow> (\<exists>bf. w' = w\<lparr>pw_bloom_filters := bf\<rparr> \<and> (bf = [] \<longleftrightarrow> pw_bloom_filters w = []))"

lemma bloomed_refl: "bloomed w w"
  unfolding bloomed_def by (rule exI[where x = "pw_bloom_filters w"]) simp

lemma bloomed_trans: "bloomed w w1 \<Longrightarrow> bloomed w1 w2 \<Longrightarrow> bloomed w w2"
  unfolding bloomed_def by auto

lemma bloomed_content: "bloomed w w' \<Longrightarrow> content env ts w gs cur rows \<Longrightarrow> content env ts w' gs cur rows \<and> kept w w' \<and> pw_room w' = pw_room w"
  unfolding bloomed_def using content_bloom by (auto simp: kept_def)

lemma works_bloom_ensure:
  assumes "pw_bloom_filters w \<noteq> [] \<longrightarrow> rate_ok (wo_bloom_filter_fpr (pw_options w))"
  shows "works w (bloom_ensure_filter env c w) (\<lambda>_ w'. bloomed w w')"
proof (cases "pw_bloom_filters w = []")
  case True
  then show ?thesis using bloomed_refl by (auto simp: bloom_ensure_filter_def intro: works_ret)
next
  case False
  then obtain f where "bloom_new (en_bloom_bytes env) (nat (max 1 (wo_row_group_size (pw_options w)))) (wo_bloom_filter_fpr (pw_options w)) = Some f"
    using rate_ok assms by blast
  moreover have "bloomed w (w\<lparr>pw_bloom_filters := (pw_bloom_filters w)[c := Some f]\<rparr>)" using False by (auto simp: bloomed_def)
  ultimately show ?thesis using False bloomed_refl[of w] unfolding bloom_ensure_filter_def Let_def by (auto intro!: works_ret)
qed

lemma bloom_add_bloomed: "bloomed w (bloom_add c v w)"
  by (auto simp: bloomed_def bloom_add_def)

lemma bloom_adds_bloomed: "bloomed w (fold (bloom_add c) vs w)"
  by (induction vs arbitrary: w) (auto intro: bloomed_refl bloomed_trans[OF bloom_add_bloomed])

lemma bloomed_room: "bloomed w w' \<Longrightarrow> pw_room w' = pw_room w" by (auto simp: bloomed_def)

lemma works_bloom_insert:
  assumes "pw_bloom_filters w \<noteq> [] \<longrightarrow> rate_ok (wo_bloom_filter_fpr (pw_options w))"
  shows "works w (bloom_insert_typed env c vs w) (\<lambda>_ w'. bloomed w w')"
  unfolding bloom_insert_typed_def
  by (rule works_after[OF works_bloom_ensure[OF assms]], rule works_ret)
    (auto intro: bloomed_trans bloom_adds_bloomed bloomed_room[OF bloom_adds_bloomed])

subsection \<open>Writing values to a column\<close>

lemma stat_value_short: "stat_short v \<Longrightarrow> value_short v"
  by (cases v) (simp_all add: MAX_STRING_BYTES_def)

lemma write_all_batch: "write_batch vs cw = Some cw' \<Longrightarrow> write_all write_value vs cw = (True, cw')"
  by (induction vs arbitrary: cw) (auto split: option.splits)

lemma content_column:
  assumes "content env ts w gs cur rows" "c < length ts" "holds (ts ! c) (cur ! c @ vs) cw" "\<forall>v \<in> set vs. stat_short v"
  shows "content env ts (set_column c cw w) gs (cur[c := cur ! c @ vs]) rows"
  using assms by (auto simp: content_def set_column_def in_step_def nth_list_update)

lemma content_counts: "content env ts w gs cur rows \<Longrightarrow> content env ts (w\<lparr>pw_col_row_counts := ns\<rparr>) gs cur rows"
  by (simp add: content_def in_step_def)

lemma works_finish_column:
  assumes "content env ts w gs cur rows" "c < length ts" "holds (ts ! c) (cur ! c @ vs) cw" "\<forall>v \<in> set vs. stat_short v"
  shows "works w (finish_column env c vs (True, cw) w) (\<lambda>_ w'. content env ts w' gs (cur[c := cur ! c @ vs]) rows \<and> kept w w')"
proof -
  let ?w = "(set_column c cw w)\<lparr>pw_col_row_counts := (pw_col_row_counts w)[c := cw_num_values cw]\<rparr>"
  have 1: "content env ts ?w gs (cur[c := cur ! c @ vs]) rows" using content_counts[OF content_column[OF assms]] .
  have 2: "kept w ?w" "pw_room ?w = pw_room w" by (simp_all add: kept_def set_column_def)
  have 3: "pw_bloom_filters ?w \<noteq> [] \<longrightarrow> rate_ok (wo_bloom_filter_fpr (pw_options ?w))" using 1 unfolding content_def by blast
  have "works ?w (if pw_bloom_filters ?w \<noteq> [] then bloom_insert_typed env c vs ?w else ret () ?w)
    (\<lambda>_ w'. content env ts w' gs (cur[c := cur ! c @ vs]) rows \<and> kept w w')"
  proof (cases "pw_bloom_filters ?w = []")
    case True
    then show ?thesis using 1 2 by (auto intro!: works_ret)
  next
    case False
    then show ?thesis using works_weaken[OF works_bloom_insert[OF 3]] bloomed_content[OF _ 1] 2(1) kept_trans by auto
  qed
  then show ?thesis unfolding finish_column_def Let_def prod.case bool.case by (rule works_room) (simp only: 2)
qed

lemma works_write_column:
  assumes w: "content env ts w gs cur rows" and c: "c < length ts" and vs: "\<forall>v \<in> set vs. ctype_of v = ts ! c \<and> stat_short v"
  shows "works w (write_column env c (ts ! c) vs w) (\<lambda>_ w'. content env ts w' gs (cur[c := cur ! c @ vs]) rows \<and> kept w w')"
proof -
  let ?cw = "pw_col_writers w ! c"
  have 1: "pw_open w" "c < num_columns (pw_schema w)" "cd_physical_type (sc_columns (pw_schema w) ! c) = parquet_type_of (ts ! c)"
    and h: "holds (ts ! c) (cur ! c) ?cw"
    using w c by (auto simp: content_def column_typed_def)
  obtain cw where cw: "write_batch vs ?cw = Some cw" "holds (ts ! c) (cur ! c @ vs) cw"
    using write_batch_holds[OF h, of vs] vs stat_value_short by blast
  have fin: "works w (finish_column env c vs (write_all write_value vs ?cw) w) (\<lambda>_ w'. content env ts w' gs (cur[c := cur ! c @ vs]) rows \<and> kept w w')"
    unfolding write_all_batch[OF cw(1)] using works_finish_column[OF w c cw(2)] vs by blast
  show ?thesis
  proof (cases "ts ! c = CString")
    case True
    then obtain ss where ss: "vs = map VString ss" using vs by (metis ctype_of_iff(6) ex_map_conv)
    then have "map (\<lambda>v. case v of VString s \<Rightarrow> s | _ \<Rightarrow> []) vs = ss" by (simp add: comp_def)
    then show ?thesis using fin 1 True ss by (simp add: write_column_def write_column_strings_def type_codes Let_def)
  next
    case False
    then show ?thesis using fin 1 by (simp add: write_column_def write_column_typed_def)
  qed
qed

subsection \<open>Rows\<close>

definition row_values :: "environment \<Rightarrow> column_descriptor list \<Rightarrow> bytes list list \<Rightarrow> nat \<Rightarrow> cvalue list" where
  "row_values env cds rows c = map (\<lambda>r. cell_value env (cd_physical_type (cds ! c)) (r ! c)) rows"

definition buffered :: "environment \<Rightarrow> column_descriptor list \<Rightarrow> cvalue list list \<Rightarrow> bytes list list \<Rightarrow> cvalue list list" where
  "buffered env cds cur rows = map (\<lambda>c. cur ! c @ row_values env cds rows c) [0..<length cur]"

definition row_ok :: "nat \<Rightarrow> bytes list \<Rightarrow> bool" where
  "row_ok n row \<longleftrightarrow> length row = n \<and> list_all short row"

lemma cell_typed: "short s \<Longrightarrow> ctype_of (cell_value env (parquet_type_of t) s) = t \<and> stat_short (cell_value env (parquet_type_of t) s)"
  by (cases t) (simp_all add: cell_value_def type_codes)

lemma works_encode_cells:
  assumes "content env ts w gs cur rows" "c < length ts" "\<forall>r \<in> set rs. row_ok (length ts) r"
    and "bf \<longrightarrow> pw_bloom_filters w \<noteq> []"
  shows "works w (encode_cells env c bf rs w)
    (\<lambda>_ w'. content env ts w' gs (cur[c := cur ! c @ row_values env (sc_columns (pw_schema w)) rs c]) rows \<and> kept w w')"
  using assms
proof (induction rs arbitrary: w cur)
  case Nil
  then show ?case by (auto simp: row_values_def kept_def intro!: works_ret)
next
  case (Cons r rs)
  let ?pt = "cd_physical_type (sc_columns (pw_schema w) ! c)" let ?v = "cell_value env ?pt (r ! c)"
  have pt: "?pt = parquet_type_of (ts ! c)" and h: "holds (ts ! c) (cur ! c) (pw_col_writers w ! c)" and l: "length cur = length ts"
    using Cons.prems(1,2) by (auto simp: content_def column_typed_def)
  have v: "ctype_of ?v = ts ! c" "stat_short ?v"
    using cell_typed[of "r ! c" env "ts ! c"] Cons.prems(2,3) by (auto simp: pt row_ok_def list_all_length)
  obtain cw where cw: "write_value ?v (pw_col_writers w ! c) = Some cw" "holds (ts ! c) (cur ! c @ [?v]) cw"
    using write_value_holds[OF h v(1)] stat_value_short[OF v(2)] by blast
  have nf: "?pt \<noteq> FIXED_LEN_BYTE_ARRAY" unfolding pt by (cases "ts ! c") (simp_all add: type_codes)
  let ?w1 = "set_column c cw w" let ?w2 = "if bf then bloom_add c ?v ?w1 else ?w1"
  have cell: "encode_cell env c bf (r ! c) w = ret () ?w2" using nf cw(1) by (simp add: encode_cell_def Let_def)
  have "content env ts ?w1 gs (cur[c := cur ! c @ [?v]]) rows" using content_column[OF Cons.prems(1,2) cw(2)] v(2) by simp
  then have 2: "content env ts ?w2 gs (cur[c := cur ! c @ [?v]]) rows" using bloomed_content[OF bloom_add_bloomed] by simp
  have 3: "kept w ?w2" "pw_room ?w2 = pw_room w" "pw_bloom_filters ?w2 = [] \<longleftrightarrow> pw_bloom_filters w = []" "pw_schema ?w2 = pw_schema w"
    by (simp_all add: kept_def set_column_def bloom_add_def)
  have "works ?w2 (encode_cells env c bf rs ?w2) (\<lambda>_ w'. content env ts w' gs ((cur[c := cur ! c @ [?v]])[c := (cur[c := cur ! c @ [?v]]) ! c
      @ row_values env (sc_columns (pw_schema ?w2)) rs c]) rows \<and> kept ?w2 w')"
    using Cons.prems 3(3) by (intro Cons.IH[OF 2]) auto
  then have "works ?w2 (encode_cells env c bf rs ?w2) (\<lambda>_ w'. content env ts w' gs (cur[c := cur ! c @ row_values env (sc_columns (pw_schema w)) (r # rs) c]) rows \<and> kept w w')"
    by (rule works_weaken) (use 3(1,4) kept_trans l Cons.prems(2) in \<open>auto simp: row_values_def\<close>)
  then show ?case unfolding encode_cells.simps cell by (intro works_after[OF works_ret[where Q = "\<lambda>_ w'. w' = ?w2"]]) (simp_all add: 3(2))
qed

lemma works_encode_columns:
  assumes "content env ts w gs cur rows" "distinct cs" "\<forall>c \<in> set cs. c < length ts" "\<forall>r \<in> set rows. row_ok (length ts) r"
  shows "works w (encode_columns env cs w) (\<lambda>_ w'. \<exists>cur'. content env ts w' gs cur' rows \<and> kept w w'
    \<and> (\<forall>c < length ts. cur' ! c = (if c \<in> set cs then cur ! c @ row_values env (sc_columns (pw_schema w)) rows c else cur ! c)))"
  using assms
proof (induction cs arbitrary: w cur)
  case Nil
  then show ?case by (auto simp: kept_def intro!: works_ret)
next
  case (Cons c cs)
  let ?cell = "row_values env (sc_columns (pw_schema w)) rows"
  have rate: "pw_bloom_filters w \<noteq> [] \<longrightarrow> rate_ok (wo_bloom_filter_fpr (pw_options w))" using Cons.prems(1) unfolding content_def by blast
  have b: "works w (bloom_ensure_filter env c w) (\<lambda>bf w'. bloomed w w' \<and> (bf \<longrightarrow> pw_bloom_filters w' \<noteq> []))"
    using works_bloom_ensure[OF rate, of env c]
    by (cases "pw_bloom_filters w = []") (auto simp: works_def bloomed_def bloom_ensure_filter_def ret_def)
  have len: "length cur = length ts" using Cons.prems(1) by (simp add: content_def)
  show ?case unfolding encode_columns.simps
  proof (rule works_after[OF b], elim conjE)
    fix bf w1 assume 1: "bloomed w w1" "bf \<longrightarrow> pw_bloom_filters w1 \<noteq> []"
    have 2: "content env ts w1 gs cur rows" "kept w w1" using bloomed_content[OF 1(1) Cons.prems(1)] by simp_all
    have s: "pw_schema w1 = pw_schema w" "pw_pending_rows w1 = rows" using 2 by (simp_all add: kept_def content_def)
    have 3: "works w1 (encode_cells env c bf (pw_pending_rows w1) w1) (\<lambda>_ w'. content env ts w' gs (cur[c := cur ! c @ ?cell c]) rows \<and> kept w1 w')"
      using works_encode_cells[OF 2(1) _ _ 1(2), of c rows] Cons.prems(3,4) s by simp
    show "works w1 (after (encode_cells env c bf (pw_pending_rows w1) w1) (\<lambda>_. encode_columns env cs)) (\<lambda>_ w'. \<exists>cur'. content env ts w' gs cur' rows \<and> kept w w'
      \<and> (\<forall>d < length ts. cur' ! d = (if d \<in> set (c # cs) then cur ! d @ ?cell d else cur ! d)))"
    proof (rule works_after[OF 3], elim conjE)
      fix u w2 assume 4: "content env ts w2 gs (cur[c := cur ! c @ ?cell c]) rows" "kept w1 w2"
      have s2: "pw_schema w2 = pw_schema w" "kept w w2" using 4(2) 2(2) by (auto simp: kept_def)
      show "works w2 (encode_columns env cs w2) (\<lambda>_ w'. \<exists>cur'. content env ts w' gs cur' rows \<and> kept w w'
        \<and> (\<forall>d < length ts. cur' ! d = (if d \<in> set (c # cs) then cur ! d @ ?cell d else cur ! d)))"
      proof (rule works_weaken[OF Cons.IH[OF 4(1)]], goal_cases)
        case (4 u w3)
        then obtain cur' where "content env ts w3 gs cur' rows" "kept w2 w3"
          "\<forall>d < length ts. cur' ! d = (if d \<in> set cs then cur[c := cur ! c @ ?cell c] ! d @ ?cell d else cur[c := cur ! c @ ?cell c] ! d)"
          unfolding s2 by blast
        then show ?case using Cons.prems(2,3) len s2(2) kept_trans by (intro exI[where x = cur']) (auto simp: nth_list_update)
      qed (use Cons.prems in simp_all)
    qed
  qed
qed

end
