(* ===== verification/FileRoundtrip.thy ===== *)
theory FileRoundtrip
  imports FileContent
begin

text \<open>
  A file that the writer closes is opened by the reader, and every column of every row group holds the values that
  were written to it.
\<close>

lemma content_no_rows: "content env ts w gs cur rows \<Longrightarrow> content env ts (w\<lparr>pw_pending_rows := []\<rparr>) gs cur []"
  by (simp add: content_def in_step_def)

lemma works_encode_pending:
  assumes w: "content env ts w gs cur rows" and rows: "\<forall>r \<in> set rows. row_ok (length ts) r"
  shows "works w (encode_pending_rows env w)
    (\<lambda>_ w'. content env ts w' gs (buffered env (sc_columns (pw_schema w)) cur rows) [] \<and> kept w w')"
proof -
  have n: "num_columns (pw_schema w) = length ts" and len: "length cur = length ts" using w by (simp_all add: content_def)
  let ?new = "\<lambda>c. cur ! c @ row_values env (sc_columns (pw_schema w)) rows c"
  have cs: "distinct [0..<length ts]" "\<forall>c \<in> set [0..<length ts]. c < length ts" by simp_all
  show ?thesis unfolding encode_pending_rows_def n
  proof (rule works_after[OF works_encode_columns[OF w cs rows]], elim exE conjE)
    fix u w1 cur' assume 2: "content env ts w1 gs cur' rows" "kept w w1"
      "\<forall>c < length ts. cur' ! c = (if c \<in> set [0..<length ts] then ?new c else cur ! c)"
    have len': "length cur' = length ts" using 2(1) by (simp add: content_def)
    have "cur' ! c = ?new c" if "c < length ts" for c using 2(3)[rule_format, OF that] that by simp
    then have "cur' = map ?new [0..<length ts]" using len' by (intro nth_equalityI) simp_all
    then have b: "cur' = buffered env (sc_columns (pw_schema w)) cur rows" unfolding buffered_def len .
    let ?w = "w1\<lparr>pw_pending_rows := []\<rparr>"
    have "kept w ?w" "pw_room ?w = pw_room w1" using 2(2) by (simp_all add: kept_def)
    then show "works w1 (ret () ?w) (\<lambda>_ w'. content env ts w' gs (buffered env (sc_columns (pw_schema w)) cur rows) [] \<and> kept w w')"
      using content_no_rows[OF 2(1)[unfolded b]] by (blast intro: works_ret)
  qed
qed

lemma buffered_no_rows: "buffered env cds cur [] = cur"
  by (simp add: buffered_def row_values_def map_nth)

lemma works_encode_pending_rows:
  assumes w: "content env ts w gs cur rows" and rows: "\<forall>r \<in> set rows. row_ok (length ts) r"
  shows "works w (if pw_pending_rows w \<noteq> [] then encode_pending_rows env w else ret () w)
    (\<lambda>_ w'. content env ts w' gs (buffered env (sc_columns (pw_schema w)) cur rows) [] \<and> kept w w')"
proof (cases "rows = []")
  case True
  have p: "pw_pending_rows w = []" using w True by (simp add: content_def)
  have "content env ts w gs cur []" using w unfolding True .
  then have "content env ts w gs cur [] \<and> kept w w" by (simp add: kept_def)
  then show ?thesis unfolding True buffered_no_rows p by (simp add: works_ret)
next
  case False
  then have "pw_pending_rows w \<noteq> []" using w by (simp add: content_def)
  then show ?thesis using works_encode_pending[OF w rows] by (simp only: if_True simp_thms)
qed

subsection \<open>Flushing\<close>

lemma content_group:
  assumes w: "content env ts w gs cur []" and w2: "stepped (set [0..<length ts]) w w2"
    and rs: "list_all2 (\<lambda>c r. chunk_holds (en_registry (with_snappy env)) (pw_file w2) (fst r) (planned (pw_options w) (sc_columns (pw_schema w) ! c)) (ts ! c) (cur ! c))
      [0..<length ts] rs"
    and n: "n = length (hd cur)"
    and w3: "w3 = reset_columns (w2\<lparr>pw_row_groups := pw_row_groups w2 @ [default_RowGroup\<lparr>rg_num_rows := of_nat n,
                rg_columns := map fst rs, rg_total_byte_size := sum_list (map snd rs)\<rparr>], pw_total_rows := pw_total_rows w2 + n\<rparr>)"
  shows "content env ts w3 (gs @ [cur]) (replicate (length ts) []) []"
proof -
  note f = stepped_fields[OF w2]
  obtain bs where bs: "pw_file w2 = pw_file w @ bs" using stepped_file[OF w2] by blast
  have s: "in_step w2" using stepped_in_step[OF w2] w by (simp add: content_def)
  let ?rg = "default_RowGroup\<lparr>rg_num_rows := of_nat n, rg_columns := map fst rs, rg_total_byte_size := sum_list (map snd rs)\<rparr>"
  let ?G = "\<lambda>file. group_holds (en_registry (with_snappy env)) file (pw_options w) (sc_columns (pw_schema w)) ts"
  have len: "length rs = length ts" "length cur = length ts" using list_all2_lengthD[OF rs] w by (simp_all add: content_def)
  have new: "?G (pw_file w2) ?rg cur"
    unfolding group_holds_def
  proof (intro conjI allI impI)
    show "rg_num_rows ?rg = of_nat (length (hd cur))" "length (rg_columns ?rg) = length ts" using n len by simp_all
    show "rg_sorting_columns ?rg = []" by (simp add: default_RowGroup_def)
    fix c assume c: "c < length ts"
    have "rg_columns ?rg ! c = fst (rs ! c)" using c len by simp
    then show "chunk_holds (en_registry (with_snappy env)) (pw_file w2) (rg_columns ?rg ! c) (planned (pw_options w) (sc_columns (pw_schema w) ! c)) (ts ! c) (cur ! c)"
      using list_all2_nthD[OF rs, of c] c by simp
  qed (rule len)
  have "list_all2 (?G (pw_file w)) (pw_row_groups w) gs" using w unfolding content_def by blast
  then have old: "list_all2 (?G (pw_file w2)) (pw_row_groups w) gs"
    unfolding bs by (rule list_all2_mono) (rule group_holds_append)
  have cw: "length (pw_col_writers w) = length ts" and nc: "length ts = num_columns (pw_schema w)" and ne: "ts \<noteq> []" and op: "pw_open w"
    and pend: "pw_pending_rows w = []" and tot: "pw_total_rows w = sum_list (map (\<lambda>g. length (hd g)) gs)"
    and ib: "pw_index_builders w \<noteq> [] \<longrightarrow> length (pw_index_builders w) = length ts"
    and bl: "pw_bloom_filters w \<noteq> [] \<longrightarrow> rate_ok (wo_bloom_filter_fpr (pw_options w))"
    using w unfolding content_def by blast+
  obtain body where body: "pw_file w = to_le 4 PARQUET_MAGIC @ body" using w unfolding content_def by blast
  have column: "column_typed (sc_columns (pw_schema w) ! c) (ts ! c)" "holds (ts ! c) [] (column_writer_reset (pw_col_writers w ! c))"
    if "c < length ts" for c
  proof -
    have h: "holds (ts ! c) (cur ! c) (pw_col_writers w ! c)" "\<forall>v \<in> set (cur ! c). stat_short v"
      using w that unfolding content_def by blast+
    show "column_typed (sc_columns (pw_schema w) ! c) (ts ! c)" using w that unfolding content_def by blast
    show "holds (ts ! c) [] (column_writer_reset (pw_col_writers w ! c))" by (rule holds_reset[OF h])
  qed
  have F: "pw_open w3 = pw_open w" "pw_file w3 = pw_file w2" "pw_file_offset w3 = pw_file_offset w2" "pw_schema w3 = pw_schema w"
    "pw_col_writers w3 = map column_writer_reset (pw_col_writers w)" "pw_pending_rows w3 = pw_pending_rows w" "pw_options w3 = pw_options w"
    "pw_bloom_filters w3 = map (map_option bloom_reset) (pw_bloom_filters w)" "pw_row_groups w3 = pw_row_groups w @ [?rg]"
    "pw_total_rows w3 = pw_total_rows w + n" "pw_index_builders w3 = map (\<lambda>_. []) (pw_index_builders w2)"
    unfolding w3 reset_columns_def using f by simp_all
  have ib2: "length (pw_index_builders w2) = length (pw_index_builders w)" using f(10) .
  show ?thesis unfolding content_def
  proof (intro conjI)
    show "pw_open w3" using op F by simp
    show "in_step w3" using s F(2,3) by (simp add: in_step_def)
    show "\<exists>body. pw_file w3 = to_le 4 PARQUET_MAGIC @ body" unfolding F(2) bs body by (rule exI[where x = "body @ bs"]) simp
    show "ts \<noteq> []" by fact
    show "length ts = num_columns (pw_schema w3)" using nc F(4) by simp
    show "length (replicate (length ts) []) = length ts" by simp
    show "length (pw_col_writers w3) = length ts" using cw F(5) by simp
    show "\<forall>c < length ts. column_typed (sc_columns (pw_schema w3) ! c) (ts ! c) \<and> holds (ts ! c) (replicate (length ts) [] ! c) (pw_col_writers w3 ! c)
        \<and> (\<forall>v \<in> set (replicate (length ts) [] ! c). stat_short v)"
      using column cw unfolding F(4,5) by simp
    show "pw_pending_rows w3 = []" using pend F(6) by simp
    show "pw_bloom_filters w3 \<noteq> [] \<longrightarrow> rate_ok (wo_bloom_filter_fpr (pw_options w3))" using bl unfolding F(7,8) by simp
    show "pw_index_builders w3 \<noteq> [] \<longrightarrow> length (pw_index_builders w3) = length ts \<and> (\<forall>c < length ts. pw_index_builders w3 ! c = [])"
      using ib ib2 unfolding F(11) by (cases "pw_index_builders w = []") auto
    show "list_all2 (group_holds (en_registry (with_snappy env)) (pw_file w3) (pw_options w3) (sc_columns (pw_schema w3)) ts) (pw_row_groups w3) (gs @ [cur])"
      unfolding F(2,4,7,9) by (intro list_all2_appendI old) (simp add: new)
    show "pw_total_rows w3 = sum_list (map (\<lambda>g. length (hd g)) (gs @ [cur]))" using tot F(10) n by simp
  qed
qed

text \<open>What a flush must find: columns of one length, each within the bounds of its encoding.\<close>

definition flushable :: "writer_options \<Rightarrow> column_descriptor list \<Rightarrow> ctype list \<Rightarrow> cvalue list list \<Rightarrow> bool" where
  "flushable opts cds ts cols \<longleftrightarrow> (\<forall>col \<in> set cols. length col = length (hd cols))
     \<and> (hd cols \<noteq> [] \<longrightarrow> (\<forall>c < length ts. storable opts (cds ! c) (ts ! c) (cols ! c)))"

definition codec_fits :: "environment \<Rightarrow> writer_options \<Rightarrow> bool" where
  "codec_fits env opts \<longleftrightarrow> choose_codec (with_snappy env) opts \<in> {UNCOMPRESSED, SNAPPY}"

lemma codec_fits: "codec_fits env opts \<Longrightarrow> codec_ok (en_registry (with_snappy env)) (choose_codec (with_snappy env) opts)"
  by (auto simp: codec_fits_def codec_ok_def with_snappy_def register_snappy_codec_def register_codec_def)

lemma cell_value_snappy: "cell_value (with_snappy env) pt val = cell_value env pt val"
proof -
  have "en_double_to_int32 (with_snappy env) = en_double_to_int32 env" "en_double_to_int64 (with_snappy env) = en_double_to_int64 env"
    "en_parse_double (with_snappy env) = en_parse_double env" "en_parse_float (with_snappy env) = en_parse_float env"
    by (simp_all add: with_snappy_def)
  note e = this
  show ?thesis unfolding cell_value_def e ..
qed

lemma content_snappy: "content (with_snappy env) ts w gs cur rows \<longleftrightarrow> content env ts w gs cur rows"
proof -
  have "en_registry (with_snappy (with_snappy env)) = en_registry (with_snappy env)"
    by (simp add: with_snappy_def register_snappy_codec_def register_codec_def)
  then show ?thesis by (simp add: content_def)
qed

text \<open>The tests of \<^verbatim>\<open>flush_row_group\<close> on the counts of the columns.\<close>

lemma flush_tests:
  assumes w: "content env ts w gs cols rows" and same: "\<forall>col \<in> set cols. length col = length (hd cols)"
  shows "list_ex (\<lambda>cw. 0 < cw_num_values cw) (pw_col_writers w) \<longleftrightarrow> hd cols \<noteq> []" "cw_num_values (hd (pw_col_writers w)) = length (hd cols)"
    "\<not> list_ex (\<lambda>cw. cw_num_values cw \<noteq> length (hd cols)) (tl (pw_col_writers w))"
proof -
  have len: "length (pw_col_writers w) = length ts" "length cols = length ts" "ts \<noteq> []" using w unfolding content_def by blast+
  have "cw_num_values (pw_col_writers w ! c) = length (hd cols)" if "c < length ts" for c
  proof -
    have "holds (ts ! c) (cols ! c) (pw_col_writers w ! c)" using w that unfolding content_def by blast
    then have "cw_num_values (pw_col_writers w ! c) = length (cols ! c)" by (simp add: holds_def)
    then show ?thesis using same that len(2) by simp
  qed
  then have all: "\<forall>cw \<in> set (pw_col_writers w). cw_num_values cw = length (hd cols)" by (simp add: all_set_conv_all_nth len(1))
  obtain a as where a: "pw_col_writers w = a # as" using len(1,3) by (cases "pw_col_writers w") auto
  show "list_ex (\<lambda>cw. 0 < cw_num_values cw) (pw_col_writers w) \<longleftrightarrow> hd cols \<noteq> []" "cw_num_values (hd (pw_col_writers w)) = length (hd cols)"
    "\<not> list_ex (\<lambda>cw. cw_num_values cw \<noteq> length (hd cols)) (tl (pw_col_writers w))"
    using all unfolding a by (auto simp: list_ex_iff)
qed

lemma no_values:
  assumes "\<forall>col \<in> set cols. length col = length (hd cols)" "hd cols = []"
  shows "cols = replicate (length cols) []"
proof -
  have "\<forall>col \<in> set cols. col = []" using assms by simp
  then show ?thesis using replicate_length_same[of cols "[]"] by simp
qed

lemma works_flush_chunks:
  assumes w: "content env ts w gs cols []" and fl: "flushable (pw_options w) (sc_columns (pw_schema w)) ts cols" "hd cols \<noteq> []"
    and codec: "codec_fits env (pw_options w)" and n: "n = length (hd cols)"
  shows "works w (after (write_column_chunks (with_snappy env) [0..<length ts] w) (\<lambda>chunks w2.
      ret () (reset_columns (w2\<lparr>pw_row_groups := pw_row_groups w2 @ [default_RowGroup\<lparr>rg_num_rows := of_nat n,
          rg_columns := map fst chunks, rg_total_byte_size := sum_list (map snd chunks)\<rparr>], pw_total_rows := pw_total_rows w2 + n\<rparr>))))
    (\<lambda>_ w'. kept w w' \<and> content env ts w' (gs @ [cols]) (replicate (length ts) []) [])"
proof -
  have st: "storable (pw_options w) (sc_columns (pw_schema w) ! c) (ts ! c) (cols ! c)" if "c < length ts" for c
    using fl that unfolding flushable_def by blast
  have ch: "\<forall>c \<in> set [0..<length ts]. holds (ts ! c) (cols ! c) (pw_col_writers w ! c) \<and> storable (pw_options w) (sc_columns (pw_schema w) ! c) (ts ! c) (cols ! c)
      \<and> column_typed (sc_columns (pw_schema w) ! c) (ts ! c)
      \<and> (pw_index_builders w \<noteq> [] \<longrightarrow> c < length (pw_index_builders w) \<and> pw_index_builders w ! c = [])"
  proof (intro ballI conjI)
    fix c assume "c \<in> set [0..<length ts]"
    then have c: "c < length ts" by simp
    show "holds (ts ! c) (cols ! c) (pw_col_writers w ! c)" "column_typed (sc_columns (pw_schema w) ! c) (ts ! c)"
      using w c unfolding content_def by blast+
    show "pw_index_builders w \<noteq> [] \<longrightarrow> c < length (pw_index_builders w) \<and> pw_index_builders w ! c = []"
      using w c unfolding content_def by fastforce
  qed (simp add: st)
  have s: "in_step w" using w unfolding content_def by blast
  show ?thesis
  proof (rule works_after[OF works_write_column_chunks[OF _ s codec_fits[OF codec] ch]], simp, elim conjE)
    fix rs :: "(column_chunk \<times> u64) list" and w2
    assume 2: "stepped (set [0..<length ts]) w w2" "list_all2 (\<lambda>c r.
      chunk_holds (en_registry (with_snappy env)) (pw_file w2) (fst r) (planned (pw_options w) (sc_columns (pw_schema w) ! c)) (ts ! c) (cols ! c)) [0..<length ts] rs"
    let ?w3 = "reset_columns (w2\<lparr>pw_row_groups := pw_row_groups w2 @ [default_RowGroup\<lparr>rg_num_rows := of_nat n,
      rg_columns := map fst rs, rg_total_byte_size := sum_list (map snd rs)\<rparr>], pw_total_rows := pw_total_rows w2 + n\<rparr>)"
    have "kept w ?w3" "pw_room ?w3 = pw_room w2" using stepped_fields(1,2)[OF 2(1)] by (simp_all add: kept_def reset_columns_def)
    then show "works w2 (ret () ?w3) (\<lambda>_ w'. kept w w' \<and> content env ts w' (gs @ [cols]) (replicate (length ts) []) [])"
      using content_group[OF w 2 n refl] by (blast intro: works_ret)
  qed
qed

lemma works_flush:
  assumes w: "content env ts w gs cur rows" and rows: "\<forall>r \<in> set rows. row_ok (length ts) r" and codec: "codec_fits env (pw_options w)"
    and cols: "cols = buffered env (sc_columns (pw_schema w)) cur rows" "flushable (pw_options w) (sc_columns (pw_schema w)) ts cols"
  shows "works w (flush_row_group env w) (\<lambda>_ w'. kept w w'
    \<and> content env ts w' (if hd cols = [] then gs else gs @ [cols]) (replicate (length ts) []) [])"
proof -
  have open_w: "pw_open w" using w unfolding content_def by blast
  have e: "buffered (with_snappy env) (sc_columns (pw_schema w)) cur rows = cols"
    by (simp add: cols(1) buffered_def row_values_def cell_value_snappy)
  note p = works_encode_pending_rows[OF iffD2[OF content_snappy w] rows, unfolded e content_snappy]
  let ?Q = "\<lambda>_ w'. kept w w' \<and> content env ts w' (if hd cols = [] then gs else gs @ [cols]) (replicate (length ts) []) []"
  have "works w (after (if pw_pending_rows w \<noteq> [] then encode_pending_rows (with_snappy env) w else ret () w) (\<lambda>_ w1.
        if \<not> list_ex (\<lambda>cw. cw_num_values cw > 0) (pw_col_writers w1) then ret () w1
        else if list_ex (\<lambda>cw. cw_num_values cw \<noteq> cw_num_values (hd (pw_col_writers w1))) (tl (pw_col_writers w1)) then (Failed SCHEMA_MISMATCH, w1)
          else after (write_column_chunks (with_snappy env) [0..<length (pw_col_writers w1)] w1) (\<lambda>chunks w2.
            ret () (reset_columns (w2\<lparr>pw_row_groups := pw_row_groups w2 @ [default_RowGroup\<lparr>rg_num_rows := of_nat (cw_num_values (hd (pw_col_writers w1))),
                rg_columns := map fst chunks, rg_total_byte_size := sum_list (map snd chunks)\<rparr>],
              pw_total_rows := pw_total_rows w2 + cw_num_values (hd (pw_col_writers w1))\<rparr>))))) ?Q"
  proof (rule works_after[OF p], elim conjE)
    fix u w1 assume 1: "content env ts w1 gs cols []" "kept w w1"
    have k: "pw_options w1 = pw_options w" "pw_schema w1 = pw_schema w" using 1(2) by (simp_all add: kept_def)
    have same: "\<forall>col \<in> set cols. length col = length (hd cols)" using cols(2) unfolding flushable_def by blast
    have len: "length (pw_col_writers w1) = length ts" "length cols = length ts" using 1(1) unfolding content_def by blast+
    note t = flush_tests[OF 1(1) same]
    show "works w1 (if \<not> list_ex (\<lambda>cw. cw_num_values cw > 0) (pw_col_writers w1) then ret () w1
        else if list_ex (\<lambda>cw. cw_num_values cw \<noteq> cw_num_values (hd (pw_col_writers w1))) (tl (pw_col_writers w1)) then (Failed SCHEMA_MISMATCH, w1)
          else after (write_column_chunks (with_snappy env) [0..<length (pw_col_writers w1)] w1) (\<lambda>chunks w2.
            ret () (reset_columns (w2\<lparr>pw_row_groups := pw_row_groups w2 @ [default_RowGroup\<lparr>rg_num_rows := of_nat (cw_num_values (hd (pw_col_writers w1))),
                rg_columns := map fst chunks, rg_total_byte_size := sum_list (map snd chunks)\<rparr>],
              pw_total_rows := pw_total_rows w2 + cw_num_values (hd (pw_col_writers w1))\<rparr>)))) ?Q"
    proof (cases "hd cols = []")
      case True
      have c: "cols = replicate (length ts) []" by (rule no_values[OF same True, unfolded len(2)])
      have "content env ts w1 gs (replicate (length ts) []) []" by (rule subst[OF c, where P = "\<lambda>x. content env ts w1 gs x []", OF 1(1)])
      then have "works w1 (ret () w1) ?Q" using True 1(2) by (simp add: works_ret)
      then show ?thesis using t(1) True by (simp only: if_True simp_thms)
    next
      case False
      have f: "flushable (pw_options w1) (sc_columns (pw_schema w1)) ts cols" "codec_fits env (pw_options w1)" unfolding k by (fact cols(2) codec)+
      have "works w1 (after (write_column_chunks (with_snappy env) [0..<length ts] w1) (\<lambda>chunks w2.
            ret () (reset_columns (w2\<lparr>pw_row_groups := pw_row_groups w2 @ [default_RowGroup\<lparr>rg_num_rows := of_nat (length (hd cols)),
                rg_columns := map fst chunks, rg_total_byte_size := sum_list (map snd chunks)\<rparr>],
              pw_total_rows := pw_total_rows w2 + length (hd cols)\<rparr>)))) ?Q"
        by (rule works_weaken[OF works_flush_chunks[OF 1(1) f(1) False f(2) refl]]) (use False kept_trans[OF 1(2)] in simp)
      then show ?thesis unfolding t(2) len(1) using t(1,3) False by (simp only: if_False simp_thms)
    qed
  qed
  then show ?thesis unfolding flush_row_group_def Let_def using open_w by (simp only: if_False simp_thms)
qed

section \<open>A session with the writer\<close>

text \<open>What a client asks between \<^verbatim>\<open>open\<close> and \<^verbatim>\<open>close\<close>.\<close>

datatype request = Put nat "cvalue list" | Row "bytes list" | Flush

fun do_request :: "environment \<Rightarrow> ctype list \<Rightarrow> request \<Rightarrow> (unit, parquet_writer) step" where
  "do_request env ts (Put c vs) = write_column env c (ts ! c) vs"
| "do_request env ts (Row r) = write_row env r"
| "do_request env ts Flush = flush_row_group env"

fun do_requests :: "environment \<Rightarrow> ctype list \<Rightarrow> request list \<Rightarrow> (unit, parquet_writer) step" where
  "do_requests env ts [] w = ret () w"
| "do_requests env ts (q # qs) w = after (do_request env ts q w) (\<lambda>_. do_requests env ts qs)"

definition write_file :: "environment \<Rightarrow> disk \<Rightarrow> schema \<Rightarrow> writer_options \<Rightarrow> ctype list \<Rightarrow> request list \<Rightarrow> write_stats outcome \<times> parquet_writer" where
  "write_file env room s opts ts qs =
     after (writer_open True room s opts) (\<lambda>_ w. after (do_requests env ts qs w) (\<lambda>_. writer_close env))"

subsection \<open>Its abstraction\<close>

text \<open>The row groups, the values of each column since the last of them, and the rows that wait.\<close>

type_synonym table = "cvalue list list list \<times> cvalue list list \<times> bytes list list"

text \<open>What a flush does, and what it needs.\<close>

definition flushed :: "environment \<Rightarrow> column_descriptor list \<Rightarrow> table \<Rightarrow> table" where
  "flushed env cds tb = (case tb of (gs, cur, rows) \<Rightarrow>
     let cols = buffered env cds cur rows in (if hd cols = [] then gs else gs @ [cols], map (\<lambda>_. []) cur, []))"

definition may_flush :: "environment \<Rightarrow> writer_options \<Rightarrow> column_descriptor list \<Rightarrow> ctype list \<Rightarrow> table \<Rightarrow> bool" where
  "may_flush env opts cds ts tb = (case tb of (gs, cur, rows) \<Rightarrow> flushable opts cds ts (buffered env cds cur rows))"

fun requested :: "environment \<Rightarrow> writer_options \<Rightarrow> column_descriptor list \<Rightarrow> request \<Rightarrow> table \<Rightarrow> table" where
  "requested env opts cds (Put c vs) (gs, cur, rows) = (gs, cur[c := cur ! c @ vs], rows)"
| "requested env opts cds (Row r) (gs, cur, rows) =
     (if int (length rows + 1) \<ge> wo_row_group_size opts then flushed env cds (gs, cur, rows @ [r]) else (gs, cur, rows @ [r]))"
| "requested env opts cds Flush tb = flushed env cds tb"

fun request_ok :: "environment \<Rightarrow> writer_options \<Rightarrow> column_descriptor list \<Rightarrow> ctype list \<Rightarrow> request \<Rightarrow> table \<Rightarrow> bool" where
  "request_ok env opts cds ts (Put c vs) tb \<longleftrightarrow> c < length ts \<and> (\<forall>v \<in> set vs. ctype_of v = ts ! c \<and> stat_short v)"
| "request_ok env opts cds ts (Row r) (gs, cur, rows) \<longleftrightarrow> row_ok (length ts) r
     \<and> (int (length rows + 1) \<ge> wo_row_group_size opts \<longrightarrow> may_flush env opts cds ts (gs, cur, rows @ [r]))"
| "request_ok env opts cds ts Flush tb \<longleftrightarrow> may_flush env opts cds ts tb"

fun requests_ok :: "environment \<Rightarrow> writer_options \<Rightarrow> column_descriptor list \<Rightarrow> ctype list \<Rightarrow> request list \<Rightarrow> table \<Rightarrow> bool" where
  "requests_ok env opts cds ts [] tb \<longleftrightarrow> may_flush env opts cds ts tb"
| "requests_ok env opts cds ts (q # qs) tb \<longleftrightarrow> request_ok env opts cds ts q tb \<and> requests_ok env opts cds ts qs (requested env opts cds q tb)"

definition groups_of :: "environment \<Rightarrow> writer_options \<Rightarrow> column_descriptor list \<Rightarrow> request list \<Rightarrow> table \<Rightarrow> cvalue list list list" where
  "groups_of env opts cds qs tb = fst (flushed env cds (fold (requested env opts cds) qs tb))"

text \<open>A writer that is in a state of the abstraction.\<close>

definition stands :: "environment \<Rightarrow> writer_options \<Rightarrow> schema \<Rightarrow> ctype list \<Rightarrow> table \<Rightarrow> parquet_writer \<Rightarrow> bool" where
  "stands env opts s ts tb w = (case tb of (gs, cur, rows) \<Rightarrow>
     content env ts w gs cur rows \<and> (\<forall>r \<in> set rows. row_ok (length ts) r) \<and> pw_options w = opts \<and> pw_schema w = s)"

lemma works_flushed:
  assumes w: "stands env opts s ts tb w" and f: "may_flush env opts (sc_columns s) ts tb" and codec: "codec_fits env opts"
  shows "works w (flush_row_group env w) (\<lambda>_ w'. stands env opts s ts (flushed env (sc_columns s) tb) w')"
proof -
  obtain gs cur rows where tb: "tb = (gs, cur, rows)" by (cases tb) blast
  have c: "content env ts w gs cur rows" "\<forall>r \<in> set rows. row_ok (length ts) r" and k: "pw_options w = opts" "pw_schema w = s"
    using w by (simp_all add: stands_def tb)
  have len: "map (\<lambda>_. []) cur = replicate (length ts) []" using c(1) by (simp add: content_def map_replicate_const)
  let ?cols = "buffered env (sc_columns s) cur rows"
  have "codec_fits env (pw_options w)" "?cols = buffered env (sc_columns (pw_schema w)) cur rows"
    "flushable (pw_options w) (sc_columns (pw_schema w)) ts ?cols"
    using codec f by (simp_all add: k tb may_flush_def)
  note fl = works_flush[OF c this]
  show ?thesis
    by (rule works_weaken[OF fl]) (simp add: stands_def flushed_def tb Let_def len k kept_def)
qed

lemma content_row: "content env ts w gs cur rows \<Longrightarrow> content env ts (w\<lparr>pw_pending_rows := rs\<rparr>) gs cur rs"
  by (simp add: content_def in_step_def)

lemma works_request:
  assumes w: "stands env opts s ts tb w" and q: "request_ok env opts (sc_columns s) ts q tb" and codec: "codec_fits env opts"
  shows "works w (do_request env ts q w) (\<lambda>_ w'. stands env opts s ts (requested env opts (sc_columns s) q tb) w')"
proof -
  obtain gs cur rows where tb: "tb = (gs, cur, rows)" by (cases tb) blast
  have c: "content env ts w gs cur rows" "\<forall>r \<in> set rows. row_ok (length ts) r" and k: "pw_options w = opts" "pw_schema w = s"
    using w by (simp_all add: stands_def tb)
  show ?thesis
  proof (cases q)
    case (Put i vs)
    have "works w (write_column env i (ts ! i) vs w) (\<lambda>_ w'. content env ts w' gs (cur[i := cur ! i @ vs]) rows \<and> kept w w')"
      using q by (intro works_write_column[OF c(1)]) (simp_all add: Put)
    then show ?thesis using c(2) by (auto elim!: works_weaken simp: Put tb stands_def kept_def k)
  next
    case (Row r)
    let ?w = "w\<lparr>pw_pending_rows := rows @ [r]\<rparr>"
    have r: "row_ok (length ts) r" using q by (simp add: Row tb)
    have s: "pw_open w" "num_columns (pw_schema w) = length ts" "pw_pending_rows w = rows" using c(1) by (simp_all add: content_def)
    have st: "stands env opts s ts (gs, cur, rows @ [r]) ?w" using content_row[OF c(1)] c(2) r by (simp add: stands_def k)
    have e: "write_row env r w = (if int (length rows + 1) \<ge> wo_row_group_size opts then flush_row_group env ?w else ret () ?w)"
      using s r by (simp add: write_row_def row_ok_def k)
    show ?thesis
    proof (cases "int (length rows + 1) \<ge> wo_row_group_size opts")
      case True
      then have "may_flush env opts (sc_columns s) ts (gs, cur, rows @ [r])" using q by (simp add: Row tb)
      note works_flushed[OF st this codec]
      then have "works w (flush_row_group env ?w) (\<lambda>_ w'. stands env opts s ts (flushed env (sc_columns s) (gs, cur, rows @ [r])) w')"
        by (rule works_room) simp
      then show ?thesis using True by (simp add: Row tb e)
    next
      case False
      then show ?thesis using st by (simp add: Row tb e works_ret)
    qed
  next
    case Flush
    then show ?thesis using works_flushed[OF w _ codec] q by simp
  qed
qed

lemma works_requests:
  assumes "stands env opts s ts tb w" "requests_ok env opts (sc_columns s) ts qs tb" "codec_fits env opts"
  shows "works w (do_requests env ts qs w) (\<lambda>_ w'. stands env opts s ts (fold (requested env opts (sc_columns s)) qs tb) w'
    \<and> may_flush env opts (sc_columns s) ts (fold (requested env opts (sc_columns s)) qs tb))"
  using assms
proof (induction qs arbitrary: w tb)
  case Nil
  then show ?case by (auto intro: works_ret)
next
  case (Cons q qs)
  have q: "request_ok env opts (sc_columns s) ts q tb" "requests_ok env opts (sc_columns s) ts qs (requested env opts (sc_columns s) q tb)"
    using Cons.prems(2) by simp_all
  show ?case unfolding do_requests.simps fold_simps
    by (rule works_after[OF works_request[OF Cons.prems(1) q(1) Cons.prems(3)]]) (rule Cons.IH[OF _ q(2) Cons.prems(3)])
qed

section \<open>Opening the writer\<close>

text \<open>The schemas and options that a file can be written with; the Bloom filter rate counts when filters are on.\<close>

definition schema_fits :: "schema \<Rightarrow> ctype list \<Rightarrow> bool" where
  "schema_fits s ts \<longleftrightarrow> ts \<noteq> [] \<and> length ts < 10000 \<and> num_columns s = length ts \<and> short (sc_name s)
     \<and> (\<forall>c < length ts. column_typed (sc_columns s ! c) (ts ! c))"

definition options_fit :: "environment \<Rightarrow> writer_options \<Rightarrow> bool" where
  "options_fit env opts \<longleftrightarrow> codec_fits env opts \<and> (wo_enable_bloom_filter opts \<longrightarrow> rate_ok (wo_bloom_filter_fpr opts))
     \<and> short (wo_created_by opts) \<and> length (wo_file_metadata opts) \<le> 1000000 \<and> list_all ok_key_value (wo_file_metadata opts)"

definition nothing_written :: "ctype list \<Rightarrow> table" where
  "nothing_written ts = ([], map (\<lambda>_. []) ts, [])"

lemma works_open:
  assumes s: "schema_fits s ts" and o: "options_fit env opts"
  shows "works (fresh_writer s opts room) (writer_open True room s opts) (\<lambda>_ w. stands env opts s ts (nothing_written ts) w)"
proof -
  have n: "num_columns s = length ts" "ts \<noteq> []" using s by (simp_all add: schema_fits_def)
  have cols: "length (sc_columns s) = length ts" using n(1) by (simp add: num_columns_def)
  have column: "column_typed (sc_columns s ! c) (ts ! c)" if "c < length ts" for c using s that by (simp add: schema_fits_def)
  show ?thesis unfolding writer_open_def Let_def write_raw_le32_eq
  proof (simp only: not_True_eq_False if_False, rule works_after[OF works_write_raw])
    fix u w1 assume 1: "extended (fresh_writer s opts room) (to_le 4 PARQUET_MAGIC) w1"
    then obtain r where w1: "w1 = (fresh_writer s opts room)\<lparr>pw_file := to_le 4 PARQUET_MAGIC, pw_room := r, pw_file_offset := 4\<rparr>"
      by (auto simp: extended_def fresh_writer_def to_le_def)
    let ?w = "w1\<lparr>pw_file_offset := 4, pw_col_writers := init_column_writers s, pw_col_row_counts := replicate (num_columns s) 0,
      pw_bloom_filters := (if wo_enable_bloom_filter opts then replicate (num_columns s) None else []),
      pw_index_builders := (if wo_enable_page_index opts then replicate (num_columns s) [] else []), pw_open := True\<rparr>"
    have "content env ts ?w [] (map (\<lambda>_. []) ts) []" unfolding content_def
    proof (intro conjI)
      show "in_step ?w" by (simp add: in_step_def w1 to_le_def)
      show "\<exists>body. pw_file ?w = to_le 4 PARQUET_MAGIC @ body" by (rule exI[where x = "[]"]) (simp add: w1)
      show "length (pw_col_writers ?w) = length ts" using cols by (simp add: init_column_writers_def)
      show "\<forall>c < length ts. column_typed (sc_columns (pw_schema ?w) ! c) (ts ! c)
        \<and> holds (ts ! c) (map (\<lambda>_. []) ts ! c) (pw_col_writers ?w ! c) \<and> (\<forall>v \<in> set (map (\<lambda>_. []) ts ! c). stat_short v)"
        using column cols by (simp add: w1 fresh_writer_def init_column_writers_def holds_new)
      show "pw_bloom_filters ?w \<noteq> [] \<longrightarrow> rate_ok (wo_bloom_filter_fpr (pw_options ?w))"
        using o by (simp add: w1 fresh_writer_def options_fit_def)
    qed (simp_all add: n w1 fresh_writer_def)
    then show "works w1 (ret () ?w) (\<lambda>_ w. stands env opts s ts (nothing_written ts) w)"
      by (intro works_ret) (simp_all add: stands_def nothing_written_def w1 fresh_writer_def)
  qed
qed

section \<open>Closing the file\<close>

text \<open>A closed file: the bytes of an open one, the footer, its length and the magic number.\<close>

definition closed_over :: "parquet_writer \<Rightarrow> bytes \<Rightarrow> parquet_writer \<Rightarrow> bool" where
  "closed_over w footer w' \<longleftrightarrow> serialize_FileMetaData (footer_metadata w) encoder_new = Some (append_bytes footer encoder_new)
     \<and> pw_file w' = pw_file w @ footer @ to_le 4 (of_nat (length footer) :: u32) @ to_le 4 PARQUET_MAGIC
     \<and> footer_metadata w' = footer_metadata w"

lemma group_ok: "group_holds reg file opts cds ts rg g \<Longrightarrow> length ts \<le> 10000 \<Longrightarrow> ok_row_group rg"
  by (auto simp: group_holds_def ok_row_group_def chunk_holds_def list_all_length)

lemma leaf_ok: "short (cd_name cd) \<Longrightarrow> ok_schema (leaf_element cd)"
  by (simp add: ok_schema_def leaf_element_def Let_def default_SchemaElement_def)

lemma footer_ok:
  assumes st: "stands env opts s ts (gs, cur, []) w" and s: "schema_fits s ts" and o: "options_fit env opts" and n: "length gs \<le> 10000"
  shows "ok_file_metadata (footer_metadata w)"
proof -
  have c: "content env ts w gs cur []" and k: "pw_options w = opts" "pw_schema w = s" using st by (simp_all add: stands_def)
  have g: "list_all2 (group_holds (en_registry (with_snappy env)) (pw_file w) opts (sc_columns s) ts) (pw_row_groups w) gs"
    using c k unfolding content_def by blast
  have ts: "length ts \<le> 10000" "length (sc_columns s) = length ts" "length ts < 10000" using s by (simp_all add: schema_fits_def num_columns_def)
  have groups: "list_all ok_row_group (pw_row_groups w)"
    using g by (auto simp: list_all2_conv_all_nth list_all_length intro: group_ok[OF _ ts(1)])
  have leaves: "list_all ok_schema (map leaf_element (sc_columns s))"
    using s ts(2) by (auto simp: schema_fits_def column_typed_def list_all_length intro!: leaf_ok)
  have root: "ok_schema (root_element s)" using s by (simp add: ok_schema_def root_element_def default_SchemaElement_def schema_fits_def)
  show ?thesis using groups leaves root ts list_all2_lengthD[OF g] n o
    by (simp add: ok_file_metadata_def footer_metadata_def default_FileMetaData_def k options_fit_def)
qed

lemma works_from: "works w1 p Q \<Longrightarrow> same_disk w w1 \<Longrightarrow> works w p Q"
  by (auto simp: works_def same_disk_def)

text \<open>The size that \<^verbatim>\<open>close\<close> reports is that of what the stream took.\<close>

lemma stats_size: "ws_file_size_bytes (build_write_stats w) = pw_file_offset w"
proof -
  have "ws_file_size_bytes (fold add_group_stats gs st) = ws_file_size_bytes st" for gs st
    by (induction gs arbitrary: st) (simp_all add: add_group_stats_def Let_def)
  then show ?thesis by (simp add: build_write_stats_def Let_def)
qed

lemma works_close:
  assumes st: "stands env opts s ts tb w" and f: "may_flush env opts (sc_columns s) ts tb" and s: "schema_fits s ts" and o: "options_fit env opts"
    and n: "length (fst (flushed env (sc_columns s) tb)) \<le> 10000"
  shows "works w (writer_close env w) (\<lambda>v w'. ws_file_size_bytes v = length (pw_file w')
    \<and> (\<exists>w1 footer. stands env opts s ts (flushed env (sc_columns s) tb) w1 \<and> closed_over w1 footer w'))"
proof -
  let ?Q = "\<lambda>v w'. ws_file_size_bytes v = length (pw_file w')
    \<and> (\<exists>w1 footer. stands env opts s ts (flushed env (sc_columns s) tb) w1 \<and> closed_over w1 footer w')"
  obtain gs cur rows where tb: "tb = (gs, cur, rows)" by (cases tb) blast
  have "pw_open w" "pw_schema w = s" using st by (simp_all add: stands_def tb content_def)
  moreover have "num_columns s = length ts" "length ts \<noteq> 0" using s by (simp_all add: schema_fits_def)
  ultimately have "pw_open w" "num_columns (pw_schema w) \<noteq> 0" by simp_all
  then have e: "writer_close env w = (case flush_row_group env w of
        (Thrown, w1) \<Rightarrow> (Thrown, w1)
      | (Failed e, w1) \<Rightarrow> (Failed e, close_file w1)
      | (Returned (), w1) \<Rightarrow>
          case serialize_FileMetaData (footer_metadata w1) encoder_new of
            None \<Rightarrow> (Thrown, w1)
          | Some enc \<Rightarrow>
              after (write_raw (ebuf enc) w1) (\<lambda>_ w2.
              after (write_raw_le32 (of_nat (length (ebuf enc))) w2) (\<lambda>_ w3.
              after (write_raw_le32 PARQUET_MAGIC w3) (\<lambda>_ w4. ret (build_write_stats w4) (close_file w4)))))"
    by (simp add: writer_close_def)
  have codec: "codec_fits env opts" using o by (simp add: options_fit_def)
  have fl: "works w (flush_row_group env w) (\<lambda>_ w'. stands env opts s ts (flushed env (sc_columns s) tb) w')"
    by (rule works_flushed[OF st f codec])
  have tail: "works w1 (case serialize_FileMetaData (footer_metadata w1) encoder_new of
            None \<Rightarrow> (Thrown, w1)
          | Some enc \<Rightarrow>
              after (write_raw (ebuf enc) w1) (\<lambda>_ w2.
              after (write_raw_le32 (of_nat (length (ebuf enc))) w2) (\<lambda>_ w3.
              after (write_raw_le32 PARQUET_MAGIC w3) (\<lambda>_ w4. ret (build_write_stats w4) (close_file w4))))) ?Q"
    if 1: "stands env opts s ts (flushed env (sc_columns s) tb) w1" for w1
  proof -
    obtain gs cur where fd: "flushed env (sc_columns s) tb = (gs, cur, [])" by (cases tb) (auto simp: flushed_def Let_def)
    have "ok_file_metadata (footer_metadata w1)" using footer_ok[OF 1[unfolded fd] s o] n fd by simp
    from FM.encode_decode[OF this] obtain bs where
      bs: "serialize_FileMetaData (footer_metadata w1) encoder_new = Some (append_bytes bs encoder_new)" by blast
    have b: "ebuf (append_bytes bs encoder_new) = bs" by (simp add: append_bytes_def encoder_new_def)
    show ?thesis unfolding bs option.case b write_raw_le32_eq
    proof (rule works_after[OF works_write_raw], rule works_after[OF works_write_raw], rule works_after[OF works_write_raw])
      fix u1 u2 u3 w2 w3 w4
      assume x: "extended w1 bs w2" "extended w2 (to_le 4 (of_nat (length bs) :: u32)) w3" "extended w3 (to_le 4 PARQUET_MAGIC) w4"
      note y = extended_trans[OF extended_trans[OF x(1,2)] x(3)]
      have "closed_over w1 bs (close_file w4)"
        using bs y by (auto simp: closed_over_def close_file_def extended_def footer_metadata_def)
      moreover have "pw_file_offset w1 = length (pw_file w1)" using 1 unfolding fd stands_def content_def by (simp add: in_step_def)
      then have "ws_file_size_bytes (build_write_stats w4) = length (pw_file (close_file w4))"
        using extended_file[OF y] by (simp add: stats_size close_file_def)
      ultimately show "works w4 (ret (build_write_stats w4) (close_file w4)) ?Q"
        using 1 by (intro works_ret) (auto simp: close_file_def)
    qed
  qed
  consider (flushed) w1 where "flush_row_group env w = (Returned (), w1)" "stands env opts s ts (flushed env (sc_columns s) tb) w1"
      "same_disk w w1"
    | (thrown) w1 where "flush_row_group env w = (Thrown, w1)" "dk_takes (pw_room w1) = None" "dk_takes (pw_room w) \<noteq> Some \<infinity>"
    using fl unfolding works_def by (cases "flush_row_group env w") auto
  then show ?thesis
  proof cases
    case flushed
    show ?thesis unfolding e flushed(1) prod.case outcome.case unit.case by (rule works_from[OF tail[OF flushed(2)] flushed(3)])
  next
    case thrown
    then show ?thesis unfolding e thrown(1) by (simp add: works_def)
  qed
qed

section \<open>Reading the file\<close>

lemma leaf_column:
  "se_num_children (leaf_element cd) = None" "cd_name (element_column (leaf_element cd)) = cd_name cd"
  "cd_physical_type (element_column (leaf_element cd)) = cd_physical_type cd" "cd_repetition (element_column (leaf_element cd)) = cd_repetition cd"
  by (simp_all add: leaf_element_def Let_def default_SchemaElement_def element_column_def column_of_def value_or_def)

lemma schema_read:
  "metadata_schema (footer_metadata w) = \<lparr>sc_name = sc_name (pw_schema w), sc_columns = map (\<lambda>cd. element_column (leaf_element cd)) (sc_columns (pw_schema w))\<rparr>"
proof -
  have "filter (\<lambda>e. se_num_children e = None) (map leaf_element cds) = map leaf_element cds" for cds
    by (induction cds) (simp_all add: leaf_column(1))
  then show ?thesis by (simp add: metadata_schema_def footer_metadata_def root_element_def comp_def)
qed

lemma footer_at:
  fixes n :: u32
  assumes "file = a @ footer @ to_le 4 n @ to_le 4 PARQUET_MAGIC" "unat n = length footer"
  shows "take 4 (drop (length file - 4) file) = to_le 4 PARQUET_MAGIC" "take 4 (drop (length file - 8) file) = to_le 4 n"
    "take (unat n) (drop (length file - 8 - unat n) file) = footer" "length file = length a + length footer + 8"
proof -
  have l: "length (to_le 4 n) = 4" "length (to_le 4 PARQUET_MAGIC) = 4" by (simp_all add: to_le_def)
  show len: "length file = length a + length footer + 8" using l by (simp add: assms(1))
  have 4: "length file - 4 = length (a @ footer @ to_le 4 n)" and 8: "length file - 8 = length (a @ footer)"
    and f: "length file - 8 - unat n = length a" using len l assms(2) by simp_all
  show "take 4 (drop (length file - 4) file) = to_le 4 PARQUET_MAGIC" unfolding 4 assms(1) using l by simp
  show "take 4 (drop (length file - 8) file) = to_le 4 n" unfolding 8 assms(1) using l by simp
  show "take (unat n) (drop (length file - 8 - unat n) file) = footer" unfolding f assms by simp
qed

lemma struct_nonempty: "write_struct ws e = Some e' \<Longrightarrow> ebuf e' \<noteq> []"
  by (auto simp: write_struct_def run_append write_stop_def append_bytes_def enc_end_struct_def split: option.splits)

lemma closed_opens:
  assumes c: "closed_over w footer w'" and st: "stands env opts s ts (gs, cur, []) w" and s: "schema_fits s ts" and o: "options_fit env opts"
    and n: "length gs \<le> 10000" and sz: "length footer \<le> MAX_TOTAL_FIELDS" "length (pw_file w') \<le> MAX_FILE_SIZE"
  shows "reader_open (Some (pw_file w')) = Inr \<lparr>pr_file_data = pw_file w', pr_metadata = footer_metadata w,
    pr_schema = metadata_schema (footer_metadata w), pr_created_by = wo_created_by opts\<rparr>"
proof -
  let ?n = "of_nat (length footer) :: u32"
  have un: "unat ?n = length footer" using sz(1) by (simp add: unat_of_nat MAX_TOTAL_FIELDS_def)
  have bytes: "pw_file w' = pw_file w @ footer @ to_le 4 ?n @ to_le 4 PARQUET_MAGIC" using c by (simp add: closed_over_def)
  note at = footer_at[OF bytes un]
  obtain body where body: "pw_file w = to_le 4 PARQUET_MAGIC @ body" using st by (auto simp: stands_def content_def)
  have l4: "length (to_le 4 PARQUET_MAGIC) = 4" by (simp add: to_le_def)
  have first: "take 4 (pw_file w') = to_le 4 PARQUET_MAGIC" unfolding bytes body using l4 by simp
  have k: "pw_options w = opts" using st by (simp add: stands_def)
  have ser: "serialize_FileMetaData (footer_metadata w) encoder_new = Some (append_bytes footer encoder_new)" using c by (simp add: closed_over_def)
  obtain bs where "serialize_FileMetaData (footer_metadata w) encoder_new = Some (append_bytes bs encoder_new)"
    and dec: "length bs \<le> MAX_TOTAL_FIELDS \<longrightarrow> (\<forall>rest. \<exists>d. deserialize_FileMetaData (decoder_new (bs @ rest)) default_FileMetaData = (Inr (footer_metadata w), d)
      \<and> dpos d = length bs \<and> good d)"
    using FM.encode_decode[OF footer_ok[OF st s o n]] by blast
  then have bs: "bs = footer" using ser by (simp add: append_bytes_def encoder_new_def)
  obtain d where d: "deserialize_FileMetaData (decoder_new footer) default_FileMetaData = (Inr (footer_metadata w), d)"
    using dec[unfolded bs] sz(1) by (metis append_Nil2)
  have ne: "footer \<noteq> []"
    using struct_nonempty ser unfolding serialize_FileMetaData_def by (fastforce simp: append_bytes_def encoder_new_def)
  have magic: "PARQUET_MAGIC \<noteq> PARQUET_MAGIC_ENCRYPTED" by (simp add: PARQUET_MAGIC_def PARQUET_MAGIC_ENCRYPTED_def)
  have fits: "\<not> length (pw_file w) + length footer - 4 < length footer" using body l4 by simp
  have big: "length (pw_file w) \<ge> 4" using body l4 by simp
  have cb: "value_or (fm_created_by (footer_metadata w)) [] = wo_created_by opts" by (simp add: footer_metadata_def value_or_def k)
  show ?thesis unfolding reader_open_def Let_def option.case
    using at(1-4) first un sz(2) ne big d cb magic fits by (simp add: of_le_to_le4)
qed

lemma mmap_opens: "reader_open (Some contents) = Inr r \<Longrightarrow> mmap_parquet_open (Some contents) = Inr r"
  by (auto simp: reader_open_def mmap_parquet_open_def mmap_open_def mmap_size_def Let_def split: if_splits)

lemma closed_reads:
  assumes c: "closed_over w footer w'" and st: "stands env opts s ts (gs, cur, []) w" and s: "schema_fits s ts"
    and sz: "length (pw_file w') \<le> MAX_FILE_SIZE"
    and r: "r = \<lparr>pr_file_data = pw_file w', pr_metadata = footer_metadata w, pr_schema = metadata_schema (footer_metadata w), pr_created_by = cb\<rparr>"
    and g: "g < length gs" and i: "i < length ts"
  shows "\<exists>out. read_column (en_registry (with_snappy env)) r (ts ! i) g i = Inr out \<and> mmap_read_column (en_registry (with_snappy env)) r (ts ! i) g i = Inr out
    \<and> faithful (planned opts (sc_columns s ! i)) out (gs ! g ! i)"
proof -
  have k: "pw_options w = opts" "pw_schema w = s" and ct: "content env ts w gs cur []" using st by (simp_all add: stands_def)
  have gl: "list_all2 (group_holds (en_registry (with_snappy env)) (pw_file w) opts (sc_columns s) ts) (pw_row_groups w) gs"
    using ct k unfolding content_def by blast
  have len: "length (pw_row_groups w) = length gs" using list_all2_lengthD[OF gl] .
  have gh: "group_holds (en_registry (with_snappy env)) (pw_file w) opts (sc_columns s) ts (pw_row_groups w ! g) (gs ! g)"
    using list_all2_nthD2[OF gl g] .
  let ?cc = "rg_columns (pw_row_groups w ! g) ! i"
  have ch: "chunk_holds (en_registry (with_snappy env)) (pw_file w) ?cc (planned opts (sc_columns s ! i)) (ts ! i) (gs ! g ! i)"
    and cl: "length (rg_columns (pw_row_groups w ! g)) = length ts"
    using gh i by (simp_all add: group_holds_def)
  obtain cm where cm: "ch_meta_data ?cc = Some cm"
    and rd: "\<forall>suffix k. length (pw_file w @ suffix) \<le> MAX_FILE_SIZE \<longrightarrow>
      (\<exists>out. both_read (en_registry (with_snappy env)) (pw_file w @ suffix) cm k (ts ! i) out \<and> faithful (planned opts (sc_columns s ! i)) out (gs ! g ! i))"
    using ch unfolding chunk_holds_def by blast
  obtain suffix where bytes: "pw_file w' = pw_file w @ suffix" using c unfolding closed_over_def by blast
  have fr: "fm_row_groups (pr_metadata r) = pw_row_groups w" by (simp add: r footer_metadata_def)
  have "num_columns (pr_schema r) = length ts" using s by (simp add: r schema_read k num_columns_def schema_fits_def)
  moreover have "metadata_at r g i = Inr cm" using g i len cl cm by (simp add: metadata_at_def chunk_at_def num_row_groups_def fr)
  moreover have "pr_file_data r = pw_file w'" by (simp add: r)
  ultimately have "read_column (en_registry (with_snappy env)) r (ts ! i) g i
      = read_chunk (en_registry (with_snappy env)) (pw_file w') cm (cd_type_length (sc_columns (pr_schema r) ! i)) (ts ! i)"
    "mmap_read_column (en_registry (with_snappy env)) r (ts ! i) g i
      = mmap_read_chunk (en_registry (with_snappy env)) (pw_file w') cm (cd_type_length (sc_columns (pr_schema r) ! i)) (ts ! i)"
    using g i len by (simp_all add: read_column_def mmap_read_column_def num_row_groups_def fr)
  then show ?thesis using rd[rule_format, of suffix] sz bytes by (simp add: both_read_def)
qed

section \<open>Round trip\<close>

text \<open>The length of the footer that \<^verbatim>\<open>close\<close> writes.\<close>

definition footer_length :: "parquet_writer \<Rightarrow> nat" where
  "footer_length w = (case serialize_FileMetaData (footer_metadata w) encoder_new of None \<Rightarrow> 0 | Some enc \<Rightarrow> length (ebuf enc))"

text \<open>What both readers must find in a file: the row groups of a table, column by column.\<close>

definition file_reads :: "environment \<Rightarrow> writer_options \<Rightarrow> schema \<Rightarrow> ctype list \<Rightarrow> cvalue list list list \<Rightarrow> bytes \<Rightarrow> bool" where
  "file_reads env opts s ts gs contents \<longleftrightarrow> (\<exists>r. reader_open (Some contents) = Inr r \<and> mmap_parquet_open (Some contents) = Inr r \<and> num_row_groups r = length gs
     \<and> num_rows r = of_nat (sum_list (map (\<lambda>g. length (hd g)) gs)) \<and> pr_created_by r = wo_created_by opts
     \<and> map (\<lambda>cd. (cd_name cd, cd_physical_type cd, cd_repetition cd)) (sc_columns (pr_schema r))
       = map (\<lambda>cd. (cd_name cd, cd_physical_type cd, cd_repetition cd)) (sc_columns s)
     \<and> (\<forall>g < length gs. \<forall>c < length ts. \<exists>out. read_column (en_registry (with_snappy env)) r (ts ! c) g c = Inr out
          \<and> mmap_read_column (en_registry (with_snappy env)) r (ts ! c) g c = Inr out \<and> faithful (planned opts (sc_columns s ! c)) out (gs ! g ! c)))"

lemma works_write_file:
  assumes s: "schema_fits s ts" and o: "options_fit env opts" and q: "requests_ok env opts (sc_columns s) ts qs (nothing_written ts)"
    and n: "length (groups_of env opts (sc_columns s) qs (nothing_written ts)) \<le> 10000"
  shows "works (fresh_writer s opts room) (write_file env room s opts ts qs) (\<lambda>v w. ws_file_size_bytes v = length (pw_file w) \<and> (footer_length w \<le> MAX_TOTAL_FIELDS \<longrightarrow>
    length (pw_file w) \<le> MAX_FILE_SIZE \<longrightarrow> file_reads env opts s ts (groups_of env opts (sc_columns s) qs (nothing_written ts)) (pw_file w)))"
  unfolding write_file_def
proof (rule works_after[OF works_open[OF s o]], rule works_after, rule works_requests[OF _ q], assumption, goal_cases)
  case 1
  then show ?case using o by (simp add: options_fit_def)
next
  case (2 u w1 v w2)
  let ?tb = "fold (requested env opts (sc_columns s)) qs (nothing_written ts)"
  have st: "stands env opts s ts ?tb w2" and f: "may_flush env opts (sc_columns s) ts ?tb" using 2(2) by simp_all
  have n': "length (fst (flushed env (sc_columns s) ?tb)) \<le> 10000" using n by (simp add: groups_of_def)
  show ?case
  proof (rule works_weaken[OF works_close[OF st f s o n']], elim exE conjE, rule conjI, assumption, intro impI)
    fix v w' w1 footer assume 3: "stands env opts s ts (flushed env (sc_columns s) ?tb) w1" "closed_over w1 footer w'"
      and sz: "footer_length w' \<le> MAX_TOTAL_FIELDS" "length (pw_file w') \<le> MAX_FILE_SIZE"
    obtain gs cur where fd: "flushed env (sc_columns s) ?tb = (gs, cur, [])" by (cases ?tb) (auto simp: flushed_def Let_def)
    have g: "groups_of env opts (sc_columns s) qs (nothing_written ts) = gs" by (simp add: groups_of_def fd)
    note st1 = 3(1)[unfolded fd]
    have fl: "length footer \<le> MAX_TOTAL_FIELDS" using sz(1) 3(2) by (simp add: footer_length_def closed_over_def append_bytes_def encoder_new_def)
    let ?r = "\<lparr>pr_file_data = pw_file w', pr_metadata = footer_metadata w1, pr_schema = metadata_schema (footer_metadata w1),
      pr_created_by = wo_created_by opts\<rparr>"
    have k: "pw_schema w1 = s" and ct: "content env ts w1 gs cur []" using st1 by (simp_all add: stands_def)
    have tot: "pw_total_rows w1 = sum_list (map (\<lambda>g. length (hd g)) gs)" using ct unfolding content_def by blast
    have lg: "length (pw_row_groups w1) = length gs" using ct unfolding content_def by (blast dest: list_all2_lengthD)
    show "file_reads env opts s ts (groups_of env opts (sc_columns s) qs (nothing_written ts)) (pw_file w')"
      unfolding file_reads_def g
    proof (rule exI[where x = ?r], intro conjI allI impI)
      show rd: "reader_open (Some (pw_file w')) = Inr ?r" by (rule closed_opens[OF 3(2) st1 s o n[unfolded g] fl sz(2)])
      show "mmap_parquet_open (Some (pw_file w')) = Inr ?r" by (rule mmap_opens[OF rd])
      show "num_row_groups ?r = length gs" "num_rows ?r = of_nat (sum_list (map (\<lambda>g. length (hd g)) gs))"
        by (simp_all add: num_row_groups_def num_rows_def footer_metadata_def lg tot)
      show "map (\<lambda>cd. (cd_name cd, cd_physical_type cd, cd_repetition cd)) (sc_columns (pr_schema ?r))
        = map (\<lambda>cd. (cd_name cd, cd_physical_type cd, cd_repetition cd)) (sc_columns s)"
        by (simp add: schema_read k leaf_column)
      show "\<exists>out. read_column (en_registry (with_snappy env)) ?r (ts ! c) g c = Inr out
          \<and> mmap_read_column (en_registry (with_snappy env)) ?r (ts ! c) g c = Inr out \<and> faithful (planned opts (sc_columns s ! c)) out (gs ! g ! c)"
        if "g < length gs" "c < length ts" for g c
        by (rule closed_reads[OF 3(2) st1 s sz(2) refl that])
    qed simp
  qed
qed

section \<open>A small file\<close>

text \<open>One \<^verbatim>\<open>int32\<close> column, a value written to it and a row, evaluated down to the bytes of the file.\<close>

definition small_env :: environment where
  "small_env = \<lparr>en_registry = (\<lambda>_. None), en_parse_double = (\<lambda>_. 0), en_parse_float = (\<lambda>_. 0), en_is_double = (\<lambda>_. False),
     en_double_to_int32 = (\<lambda>_. 0), en_double_to_int64 = (\<lambda>_. 0), en_bloom_bytes = (\<lambda>_ _. 32), en_plain_first = True\<rparr>"

definition small_schema :: schema where
  "small_schema = \<lparr>sc_name = [115], sc_columns = [column_of [97] INT32]\<rparr>"

definition small_requests :: "request list" where
  "small_requests = [Put 0 [VInt32 5], Row [[55]]]"

lemma small_after_cong: "p = q \<Longrightarrow> after p f = after q f" by simp

lemma small_crc_entry: "k < 256 \<Longrightarrow> crc_table ! k = (crc_bit_step ^^ 8) (of_nat k)"
  by (simp add: crc_table_def)

lemma small_eight: "(f ^^ 8) x = f (f (f (f (f (f (f (f x)))))))"
  by (simp add: eval_nat_numeral)
lemma small_four: "[0..<4] = [0, 1, 2, 3]" by (simp add: upt_rec)

lemmas small_type_facts = INT32_def BOOLEAN_def INT64_def FLOAT_def DOUBLE_def BYTE_ARRAY_def FIXED_LEN_BYTE_ARRAY_def LOGICAL_NONE_def LOGICAL_STRING_def
  LOGICAL_DATE_def LOGICAL_TIMESTAMP_MS_def LOGICAL_TIMESTAMP_US_def LOGICAL_JSON_def LOGICAL_ENUM_def LOGICAL_DECIMAL_def REQUIRED_def PARQUET_VERSION_def
  T_I32_def T_STRUCT_def T_LIST_def T_I64_def T_BINARY_def DATA_PAGE_def PARQUET_MAGIC_def MAX_STRING_BYTES_def MAX_COLLECTION_SIZE_def INT32_MAX_def

lemmas small_record_facts = default_SchemaElement_def default_FileMetaData_def default_ColumnChunk_def default_ColumnMetaData_def default_RowGroup_def default_Statistics_def
  default_PageHeader_def default_DataPageHeader_def default_options_def column_of_def column_writer_new_def statistics_new_def fresh_writer_def encoder_new_def

lemmas small_writer_facts = ample_def ret_def write_raw_def write_raw_le32_eq to_le_def small_four num_columns_def init_column_writers_def writer_open_def
  write_column_def write_column_typed_def finish_column_def set_column_def write_int32_def wrote_def update_numeric_def count_value_def from_le_bytes_def int_less_def
  append_le32_def write_row_def flush_row_group_def encode_pending_rows_def bloom_ensure_filter_def encode_cell_def cell_value_def from_chars_def ascii_digit_def
  write_column_chunk_def choose_encoding_def choose_codec_def write_plain_column_def encode_column_data_def compress_page_def write_page_def header_of_def
  data_page_header_for_def page_crc32_def small_crc_entry small_eight crc_bit_step_def crc_poly_def chunk_metadata_def chunk_statistics_def feed_index_def write_bloom_def write_index_def
  reset_columns_def column_writer_reset_def page_size_def statistics_reset_def writer_close_def footer_metadata_def root_element_def leaf_element_def close_file_def footer_length_def

lemmas small_thrift_facts = serialize_FileMetaData_def serialize_SchemaElement_def serialize_RowGroup_def serialize_ColumnChunk_def serialize_ColumnMetaData_def serialize_Statistics_def
  serialize_PageHeader_def serialize_DataPageHeader_def write_struct_def run_append write_stop_def enc_end_struct_def enc_begin_struct_def append_bytes_def put_field_def opt_def
  write_field_def write_i32_def write_i64_def zigzag_encode_i32_def zigzag_encode_i64_def zigzag_encode32_def zigzag_encode_def write_varint.simps write_list_def write_string_def write_list_header_def


lemmas small_facts = encoding_codes small_type_facts small_record_facts small_writer_facts Let_def small_thrift_facts

definition small_writer :: parquet_writer where
  "small_writer = (fresh_writer small_schema (default_options [99]) ample)\<lparr>pw_file := to_le 4 PARQUET_MAGIC, pw_file_offset := 4,
     pw_col_writers := [write_int32 5 (column_writer_new INT32 (- 1))], pw_col_row_counts := [1], pw_pending_rows := [[[55]]], pw_open := True\<rparr>"

lemma small_requested: "after (writer_open True ample small_schema (default_options [99])) (\<lambda>_. do_requests small_env [CInt32] small_requests) = (Returned (), small_writer)"
  unfolding small_schema_def small_requests_def small_writer_def
  by (simp add: small_facts cong: small_after_cong)

definition small_flushed :: parquet_writer where
  "small_flushed = (fresh_writer small_schema (default_options [99]) ample)\<lparr>
     pw_file := [80, 65, 82, 49, 21, 0, 21, 16, 21, 16, 21, 151, 217, 208, 254, 9, 28, 21, 4, 21, 0, 21, 6, 21, 6, 0, 0, 5, 0, 0, 0, 7, 0, 0, 0],
     pw_file_offset := 35, pw_col_writers := [column_writer_reset (write_int32 5 (column_writer_new INT32 (- 1)))], pw_col_row_counts := [0], pw_open := True,
     pw_total_rows := 2,
     pw_row_groups := [default_RowGroup\<lparr>rg_total_byte_size := 31, rg_num_rows := 2, rg_columns := [default_ColumnChunk\<lparr>ch_file_offset := 4,
       ch_meta_data := Some (default_ColumnMetaData\<lparr>cm_type := INT32, cm_path_in_schema := [[97]], cm_num_values := 2, cm_total_uncompressed_size := 31,
         cm_total_compressed_size := 31, cm_data_page_offset := 4, cm_encodings := [PLAIN],
         cm_statistics := Some (default_Statistics\<lparr>st_max := Some [7, 0, 0, 0], st_min := Some [5, 0, 0, 0], st_null_count := Some 0,
           st_max_value := Some [7, 0, 0, 0], st_min_value := Some [5, 0, 0, 0]\<rparr>)\<rparr>)\<rparr>]\<rparr>]\<rparr>"

lemma small_flush: "flush_row_group small_env small_writer = (Returned (), small_flushed)"
  unfolding small_schema_def small_writer_def small_flushed_def
  by (simp add: small_facts cong: small_after_cong)

definition small_footer_bytes :: bytes where
  "small_footer_bytes = [21, 4, 25, 44, 72, 1, 115, 21, 2, 0, 21, 2, 37, 0, 24, 1, 97, 0, 22, 4, 25, 28, 25, 28, 38, 8, 28, 21, 2, 25, 21, 0, 25, 24, 1, 97,
     21, 0, 22, 4, 22, 62, 22, 62, 38, 8, 60, 24, 4, 7, 0, 0, 0, 24, 4, 5, 0, 0, 0, 22, 0, 40, 4, 7, 0, 0, 0, 24, 4, 5, 0, 0, 0, 0, 0, 0,
     22, 62, 22, 4, 0, 40, 1, 99, 0]"

lemma small_footer: "serialize_FileMetaData (footer_metadata small_flushed) encoder_new = Some \<lparr>ebuf = small_footer_bytes, eids = [0]\<rparr>"
  unfolding small_flushed_def small_schema_def small_footer_bytes_def
  by (simp add: small_facts cong: small_after_cong)

definition small_closed :: parquet_writer where
  "small_closed = small_flushed\<lparr>pw_file := pw_file small_flushed @ small_footer_bytes @ to_le 4 (of_nat (length small_footer_bytes) :: u32) @ to_le 4 PARQUET_MAGIC,
     pw_file_offset := 35 + length small_footer_bytes + 8, pw_open := False\<rparr>"

lemma small_closed: "\<exists>stats. writer_close small_env small_writer = (Returned stats, small_closed)"
proof -
  have "pw_open small_writer" "num_columns (pw_schema small_writer) \<noteq> 0" "dk_takes (pw_room small_flushed) = Some \<infinity>" "pw_room small_flushed = ample" "pw_file_offset small_flushed = 35"
    by (simp_all add: small_writer_def small_schema_def num_columns_def fresh_writer_def small_flushed_def ample_def)
  note w = this
  show ?thesis unfolding writer_close_def small_flush prod.case outcome.case unit.case small_footer option.case
    using w by (simp add: write_raw_le32_eq write_raw_def ret_def close_file_def small_closed_def to_le_def ample_def cong: small_after_cong)
qed

lemma small_written: "\<exists>stats. write_file small_env ample small_schema (default_options [99]) [CInt32] small_requests = (Returned stats, small_closed)"
proof -
  have a: "after p (\<lambda>u w. after (f u w) g) = after (after p f) g" for p :: "unit outcome \<times> parquet_writer" and f :: "unit \<Rightarrow> (unit, parquet_writer) step"
    and g :: "unit \<Rightarrow> (write_stats, parquet_writer) step"
    by (cases "(p, f)" rule: after.cases) auto
  show ?thesis unfolding write_file_def a small_requested using small_closed by simp
qed

lemma small_sizes: "footer_length small_closed \<le> MAX_TOTAL_FIELDS" "length (pw_file small_closed) \<le> MAX_FILE_SIZE"
proof -
  have "footer_metadata small_closed = footer_metadata small_flushed" by (simp add: small_closed_def footer_metadata_def)
  then show "footer_length small_closed \<le> MAX_TOTAL_FIELDS"
    by (simp add: footer_length_def small_footer small_footer_bytes_def MAX_TOTAL_FIELDS_def)
  show "length (pw_file small_closed) \<le> MAX_FILE_SIZE"
    by (simp add: small_closed_def small_flushed_def small_footer_bytes_def to_le_def MAX_FILE_SIZE_def)
qed

lemma small_fits: "schema_fits small_schema [CInt32]" "options_fit small_env (default_options [99])"
  by (simp_all add: schema_fits_def small_schema_def column_typed_def column_of_def num_columns_def type_codes MAX_STRING_BYTES_def
      options_fit_def codec_fits_def choose_codec_def default_options_def)

lemma small_table: "buffered small_env (sc_columns small_schema) [[VInt32 5]] [[[55]]] = [[VInt32 5, VInt32 7]]"
  by (simp add: buffered_def row_values_def small_schema_def column_of_def cell_value_def type_codes from_chars_def ascii_digit_def)

lemma small_groups: "groups_of small_env (default_options [99]) (sc_columns small_schema) small_requests (nothing_written [CInt32]) = [[[VInt32 5, VInt32 7]]]"
  using small_table by (simp add: groups_of_def small_requests_def nothing_written_def flushed_def Let_def default_options_def)

lemma small_requests_ok: "requests_ok small_env (default_options [99]) (sc_columns small_schema) [CInt32] small_requests (nothing_written [CInt32])"
proof -
  have "storable (default_options [99]) (column_of [97] INT32) CInt32 [VInt32 5, VInt32 7]"
    by (simp add: storable_def planned_def choose_encoding_def default_options_def encodable_def encoding_codes dictionary_encoding_def pages_fit_def filled_def
      encode_column_data_def column_writer_new_def write_int32_def wrote_def append_le32_def MAX_BP_VALUES_def PARQUET_MAX_PAGE_SIZE_def)
  then have "flushable (default_options [99]) (sc_columns small_schema) [CInt32] [[VInt32 5, VInt32 7]]"
    by (simp add: flushable_def small_schema_def)
  then show ?thesis using small_table
    by (simp add: small_requests_def nothing_written_def default_options_def may_flush_def row_ok_def MAX_STRING_BYTES_def)
qed

section \<open>The property\<close>

text \<open>
  Property C1: a file is read as it was written.  Take a schema of columns of the six types; options whose codec is Snappy
  or none and, with Bloom filters on, whose rate lies between 0 and 1 (encoding per column, dictionary, Bloom filters, page
  indexes and row group size are free), with names and metadata within the limits of the reader's decoder; any sequence of
  column writes, rows and flushes such that, whenever a row group is written, its columns have one length and are within the
  bounds of their encodings (\<open>requests_ok\<close>: overrides that fit the type, differences that fit the delta encoding,
  dictionaries, strings and pages below their caps), in at most 10000 row groups; and any disk.  Writing the file throws,
  which only a write that the disk refuses can cause, or returns.  Then the reported size is that of all bytes handed to the
  stream; the disk has what it kept of them; and when it kept them all and the footer and the file are within the reader's
  limits, the reader and the memory-mapped reader open the file and find the names, types and repetition of the columns, the
  number of rows and every row group, and \<^verbatim>\<open>read_column\<close> of both returns the values of every column (up to the merging of
  equal floating-point values in a dictionary).  Bytes that are lost when the stream is flushed and closed are not reported.
\<close>
theorem file_roundtrip:
  assumes "schema_fits s ts" "options_fit env opts" "requests_ok env opts (sc_columns s) ts qs (nothing_written ts)"
    and "length (groups_of env opts (sc_columns s) qs (nothing_written ts)) \<le> 10000"
  shows "fst (write_file env room s opts ts qs) = Thrown \<and> dk_takes room \<noteq> Some \<infinity>
    \<or> (\<exists>stats w. write_file env room s opts ts qs = (Returned stats, w)
       \<and> ws_file_size_bytes stats = length (pw_file w) \<and> on_disk w = kept_part (dk_keeps room) (pw_file w)
       \<and> (footer_length w \<le> MAX_TOTAL_FIELDS \<longrightarrow> length (pw_file w) \<le> MAX_FILE_SIZE \<longrightarrow> enat (length (pw_file w)) \<le> dk_keeps room \<longrightarrow>
          file_reads env opts s ts (groups_of env opts (sc_columns s) qs (nothing_written ts)) (on_disk w)))"
  using works_write_file[OF assms, of room] by (auto simp: works_def fresh_writer_def same_disk_def on_disk_def kept_whole)

theorem file_roundtrip_witness:
  "\<exists>stats w. write_file small_env ample small_schema (default_options [99]) [CInt32] small_requests = (Returned stats, w)
     \<and> file_reads small_env (default_options [99]) small_schema [CInt32] [[[VInt32 5, VInt32 7]]] (on_disk w)"
proof -
  have n: "length (groups_of small_env (default_options [99]) (sc_columns small_schema) small_requests (nothing_written [CInt32])) \<le> 10000"
    by (simp add: small_groups)
  show ?thesis using file_roundtrip[OF small_fits small_requests_ok n, of ample] small_written small_sizes small_groups by (auto simp: ample_def)
qed

end
