(* ===== verification/FileSafety.thy ===== *)
theory FileSafety
  imports FileRoundtrip
begin

text \<open>
  What holds of files and writers outside the round trip: what the reader has checked of the values it returns, on any
  bytes; encodings that a column cannot have; a writer whose stream has gone
  bad; and that a file is what its disk kept.
\<close>

section \<open>Reading any bytes\<close>

subsection \<open>The type of the values\<close>

lemma read_typed_type: "read_typed t r = (Inr v, r') \<Longrightarrow> ctype_of v = t"
  by (cases t) (auto simp: map_expected_def split: sum.splits)

lemma read_each_type: "PlainPage.read_each t n r = (Inr vs, r') \<Longrightarrow> list_all (\<lambda>v. ctype_of v = t) vs"
  by (induction n arbitrary: r vs r') (auto split: prod.splits sum.splits dest: read_typed_type)

lemma read_batch_type: "fst (read_batch t n r) = Inr vs \<Longrightarrow> list_all (\<lambda>v. ctype_of v = t) vs"
  by (cases t) (auto simp: map_expected_def list_all_iff split: sum.splits)

lemma decode_dictionary_type: "decode_dictionary t dict n idx k = Inr vs \<Longrightarrow> list_all (\<lambda>v. ctype_of v = t) vs"
  by (cases t) (auto simp: decode_dictionary_def list_all_iff map_sum_def split: sum.splits)

lemma counted_type: "counted_values n f xs = Inr vs \<Longrightarrow> (\<And>x. ctype_of (f x) = t) \<Longrightarrow> list_all (\<lambda>v. ctype_of v = t) vs"
  by (auto simp: counted_values_def list_all_iff split: if_splits)

lemma read_chunk_type:
  assumes "read_chunk reg file cm k t = Inr vs"
  shows "list_all (\<lambda>v. ctype_of v = t) vs"
proof -
  have dict: "list_all (\<lambda>v. ctype_of v = t) vs" if "read_column_dict reg file cm t = Inr vs"
    using that by (auto simp: read_column_dict_def Let_def split: sum.splits prod.splits if_splits dest: decode_dictionary_type)
  have delta: "list_all (\<lambda>v. ctype_of v = t) vs" if "read_column_delta reg file cm t = Inr vs"
    using that by (auto simp: read_column_delta_def split: sum.splits prod.splits if_splits elim: counted_type)
  have bss: "list_all (\<lambda>v. ctype_of v = t) vs" if "read_column_bss reg file cm t = Inr vs"
    using that by (auto simp: read_column_bss_def split: sum.splits prod.splits if_splits elim: counted_type)
  have rle: "list_all (\<lambda>v. ctype_of v = t) vs" if "read_column_rle_bool reg file cm t = Inr vs"
    using that by (auto simp: read_column_rle_bool_def list_all_iff split: sum.splits prod.splits if_splits)
  have plain: "list_all (\<lambda>v. ctype_of v = t) vs" if p: "read_plain reg file cm k t = Inr vs"
  proof -
    obtain cr nv n where "(if t = CBool then fst (PlainPage.read_each CBool n cr) else fst (read_batch t n cr)) = Inr vs"
      using p by (auto simp: read_plain_def split: sum.splits prod.splits)
    then show ?thesis using read_each_type[of CBool n cr vs] read_batch_type[of t n cr vs] by (cases "t = CBool") (auto simp: prod_eq_iff)
  qed
  obtain has_dict encoding where f: "fold (scan_encoding (cm_type cm)) (cm_encodings cm) (False, PLAIN) = (has_dict, encoding)" by fastforce
  show ?thesis using assms dict delta bss rle plain unfolding read_chunk_def f prod.case by (auto split: if_splits)
qed

subsection \<open>Checked pages\<close>

text \<open>
  A page that was checked: its header stands at an offset inside the file, its bytes lie behind the header inside the
  file, they have the size and, when the header has one, the checksum of the header, and \<open>data\<close> is what the codec of
  the chunk makes of them, within the cap of a page.
\<close>

definition unpacked :: "registry \<Rightarrow> u32 \<Rightarrow> page_header \<Rightarrow> bytes \<Rightarrow> bytes \<Rightarrow> bool" where
  "unpacked reg codec ph raw data \<longleftrightarrow>
     (if codec = 0 then data = raw
      else let n = size_of_int32 (pg_uncompressed_page_size ph) in 0 < n \<and> n \<le> PARQUET_MAX_PAGE_SIZE \<and> decompress_page reg codec raw n = Inr data)"

definition checked_page :: "registry \<Rightarrow> bytes \<Rightarrow> u32 \<Rightarrow> u64 \<Rightarrow> page_header \<Rightarrow> bytes \<Rightarrow> bool" where
  "checked_page reg file codec offset ph data \<longleftrightarrow> (\<exists>d raw. 0 \<le> sint offset \<and> unat offset < length file
     \<and> deserialize_PageHeader (decoder_new (drop (unat offset) file)) default_PageHeader = (Inr ph, d)
     \<and> unat offset + dpos d + length raw \<le> length file \<and> raw = take (length raw) (drop (unat offset + dpos d) file)
     \<and> int (length raw) = sint (pg_compressed_page_size ph) \<and> (\<forall>crc. pg_crc ph = Some crc \<longrightarrow> crc = crc32 raw)
     \<and> unpacked reg codec ph raw data)"

text \<open>What the decoders make of the data of a page without a dictionary; \<open>k\<close> is the type length of the column, \<open>n\<close> the number of values.\<close>

definition page_values :: "u32 \<Rightarrow> u32 \<Rightarrow> u32 \<Rightarrow> ctype \<Rightarrow> bytes \<Rightarrow> nat \<Rightarrow> cvalue list expected" where
  "page_values encoding pt k t data n =
     (if encoding = DELTA_BINARY_PACKED then
        Inr (if t = CInt32 then map VInt32 (decode_int32 data n) else map VInt64 (decode_int64 data n))
      else if encoding = BYTE_STREAM_SPLIT then
        Inr (if t = CFloat then map VFloat (decode_float data n) else map VDouble (decode_double data n))
      else if encoding = RLE \<and> pt = BOOLEAN then Inr (map (\<lambda>i. VBool (i \<noteq> 0)) (take n (decode_with_length data 1 n)))
      else if t = CBool then fst (PlainPage.read_each CBool n (column_reader_new pt data (int n) k))
      else fst (read_batch t n (column_reader_new pt data (int n) k)))"

lemma reader_crc: "reader_crc32 = crc32"
  by (simp add: reader_crc32_def crc32_def crc_update_def[abs_def] fun_eq_iff)

lemma sint_unat: "0 \<le> sint (v :: u32) \<Longrightarrow> int (unat v) = sint v"
  using sint_lt[of v] uint_sint[of v] by (simp add: take_bit_int_eq_self)

lemma raw_page_checked:
  assumes "raw_page_at file offset = Inr (raw, ph)" "unpacked reg codec ph raw data"
  shows "checked_page reg file codec offset ph data"
proof -
  let ?start = "drop (unat offset) file" and ?n = "unat (pg_compressed_page_size ph)"
  have o: "0 \<le> sint offset" "unat offset < length file" using assms(1) by (auto simp: raw_page_at_def split: if_splits)
  obtain d where d: "deserialize_PageHeader (decoder_new ?start) default_PageHeader = (Inr ph, d)"
    and n: "0 \<le> sint (pg_compressed_page_size ph)" "dpos d + ?n \<le> length ?start" and raw: "raw = take ?n (drop (dpos d) ?start)"
    and crc: "\<forall>crc. pg_crc ph = Some crc \<longrightarrow> crc = reader_crc32 raw"
    using assms(1) o by (auto simp: raw_page_at_def Let_def split: if_splits prod.splits sum.splits option.splits)
  have len: "length raw = ?n" using raw n(2) by simp
  have "raw = take (length raw) (drop (unat offset + dpos d) file)" unfolding len by (simp add: raw add.commute)
  moreover have "int (length raw) = sint (pg_compressed_page_size ph)" unfolding len using n(1) by (rule sint_unat)
  moreover have "unat offset + dpos d + length raw \<le> length file" unfolding len using n(2) o(2) by simp
  ultimately show ?thesis using assms(2) o d crc unfolding checked_page_def reader_crc by blast
qed

lemma read_page_checked:
  assumes "read_page_at reg file offset codec = Inr (data, ph)"
  shows "checked_page reg file codec offset ph data"
proof -
  obtain raw where "raw_page_at file offset = Inr (raw, ph)" "unpacked reg codec ph raw data"
    using assms by (auto simp: read_page_at_def unpacked_def Let_def split: if_splits sum.splits prod.splits)
  then show ?thesis by (rule raw_page_checked)
qed

lemma reader_for_checked:
  assumes "reader_for reg file cm k = Inr (cr, n)"
  obtains data ph where "checked_page reg file (cm_codec cm) (cm_data_page_offset cm) ph data" "n = page_num_values cm ph"
    "0 \<le> n" "n \<le> MAX_VALUES_PER_PAGE" "cr = column_reader_new (cm_type cm) data n k"
proof -
  obtain raw ph data where "raw_page_at file (cm_data_page_offset cm) = Inr (raw, ph)" "unpacked reg (cm_codec cm) ph raw data"
    "n = page_num_values cm ph" "0 \<le> n" "n \<le> MAX_VALUES_PER_PAGE" "cr = column_reader_new (cm_type cm) data n k"
    using assms by (auto simp: reader_for_def unpacked_def Let_def split: if_splits sum.splits prod.splits)
  then show ?thesis using that raw_page_checked by blast
qed

lemma data_page_checked:
  assumes "data_page reg file cm = Inr (data, n)"
  obtains ph where "checked_page reg file (cm_codec cm) (cm_data_page_offset cm) ph data" "int n = page_num_values cm ph"
    "int n \<le> MAX_VALUES_PER_PAGE"
proof -
  obtain ph where p: "read_page_at reg file (cm_data_page_offset cm) (cm_codec cm) = Inr (data, ph)"
    and v: "validate_page_value_count (page_num_values cm ph) = Inr n"
    using assms by (auto simp: data_page_def split: sum.splits prod.splits)
  have "int n = page_num_values cm ph" "int n \<le> MAX_VALUES_PER_PAGE" using v by (auto simp: validate_page_value_count_def split: if_splits)
  then show ?thesis using that read_page_checked[OF p] by blast
qed

text \<open>How many values the decoders deliver.\<close>

lemma counted_length: "counted_values n f xs = Inr vs \<Longrightarrow> vs = map f xs \<and> length vs = n"
  by (auto simp: counted_values_def split: if_splits)

lemma read_each_length: "PlainPage.read_each t n r = (Inr vs, r') \<Longrightarrow> length vs = n"
  by (induction n arbitrary: r vs r') (auto split: prod.splits sum.splits)

lemma read_strings_length: "read_strings n r = (Inr vs, r') \<Longrightarrow> length vs = n"
  by (induction n arbitrary: r vs r') (auto simp: Let_def split: prod.splits sum.splits if_splits)

lemma read_bools_length: "read_bools n r = (Inr vs, r') \<Longrightarrow> length vs = n"
  by (induction n arbitrary: r vs r') (auto simp: Let_def split: prod.splits sum.splits if_splits)

lemma from_raw_length: "length (from_raw k n bs) = n"
  by (simp add: from_raw_def)

lemma read_batch_length: "fst (read_batch t n r) = Inr vs \<Longrightarrow> length vs = n"
proof (induction t)
  case CBool
  then show ?case by (cases "read_bools n r") (auto simp: map_expected_def read_batch_bool_def split: sum.splits if_splits dest: read_bools_length)
next
  case CString
  then show ?case by (cases "read_strings n r") (auto simp: map_expected_def read_batch_string_def split: sum.splits if_splits dest: read_strings_length)
qed (auto simp: map_expected_def read_batch_int32_def read_batch_int64_def read_batch_float_def read_batch_double_def
    read_batch_fixed_def Let_def from_raw_length split: sum.splits if_splits)

lemma lookup_all_length: "lookup_all dict is = Inr vs \<Longrightarrow> length vs = length is"
  by (induction "is" arbitrary: vs) (auto split: if_splits sum.splits)

lemma decode_loop_length: "length (decode_loop n d) \<le> n"
  by (induction n arbitrary: d) (auto split: prod.splits option.splits)


lemma rle_decode_length: "length (rle_decode data bw n) \<le> n" "length (decode_with_length data bw n) \<le> n"
proof -
  show a: "length (rle_decode data bw n) \<le> n" for data by (simp add: rle_decode_def decode_loop_length)
  show "length (decode_with_length data bw n) \<le> n" by (simp add: decode_with_length_def a Let_def)
qed

lemma dict_decode_length: "dict_decode dict idx n = Inr vs \<Longrightarrow> length vs \<le> n"
  using rle_decode_length(1) by (auto simp: dict_decode_def Let_def split: if_splits dest!: lookup_all_length)

lemma decode_dictionary_length: "decode_dictionary t dict count idx n = Inr vs \<Longrightarrow> length vs \<le> n"
  by (cases t) (auto simp: decode_dictionary_def map_sum_def split: sum.splits dest: dict_decode_length)

subsection \<open>What is read\<close>

text \<open>The values of a column whose chunk names a dictionary, and of another column.\<close>

definition dictionary_read :: "registry \<Rightarrow> bytes \<Rightarrow> column_metadata \<Rightarrow> ctype \<Rightarrow> cvalue list \<Rightarrow> bool" where
  "dictionary_read reg file cm t vs \<longleftrightarrow> (let pos = value_or (cm_dictionary_page_offset cm) (cm_data_page_offset cm) in
     \<exists>dict_ph dict entries off ph data. checked_page reg file (cm_codec cm) pos dict_ph dict \<and> pg_type dict_ph = DICTIONARY_PAGE
       \<and> pg_dictionary_page_header dict_ph \<noteq> None
       \<and> int entries = sint (di_num_values (the (pg_dictionary_page_header dict_ph))) \<and> entries \<le> 10000000
       \<and> (if cm_data_page_offset cm = pos then offset_after_dictionary file pos = Inr off else off = cm_data_page_offset cm)
       \<and> checked_page reg file (cm_codec cm) off ph data
       \<and> 0 \<le> page_num_values cm ph \<and> page_num_values cm ph \<le> MAX_VALUES_PER_PAGE
       \<and> decode_dictionary t dict entries data (nat (page_num_values cm ph)) = Inr vs \<and> int (length vs) \<le> page_num_values cm ph)"

definition page_read :: "registry \<Rightarrow> bytes \<Rightarrow> column_metadata \<Rightarrow> u32 \<Rightarrow> ctype \<Rightarrow> u32 \<Rightarrow> cvalue list \<Rightarrow> bool" where
  "page_read reg file cm k t encoding vs \<longleftrightarrow> (\<exists>ph data. checked_page reg file (cm_codec cm) (cm_data_page_offset cm) ph data
       \<and> 0 \<le> page_num_values cm ph \<and> page_num_values cm ph \<le> MAX_VALUES_PER_PAGE
       \<and> page_values encoding (cm_type cm) k t data (nat (page_num_values cm ph)) = Inr vs
       \<and> (if encoding = RLE \<and> cm_type cm = BOOLEAN then int (length vs) \<le> page_num_values cm ph else int (length vs) = page_num_values cm ph))"

lemma dictionary_column_read:
  assumes "read_column_dict reg file cm t = Inr vs"
  shows "dictionary_read reg file cm t vs"
proof -
  let ?at = "value_or (cm_dictionary_page_offset cm) (cm_data_page_offset cm)"
  obtain dict dict_ph off data ph where d: "read_page_at reg file ?at (cm_codec cm) = Inr (dict, dict_ph)"
    and p: "read_page_at reg file off (cm_codec cm) = Inr (data, ph)"
    and off: "(if cm_data_page_offset cm = ?at then offset_after_dictionary file ?at else Inr (cm_data_page_offset cm)) = Inr off"
    and h: "pg_type dict_ph = DICTIONARY_PAGE" "pg_dictionary_page_header dict_ph \<noteq> None"
    and c: "0 \<le> sint (di_num_values (the (pg_dictionary_page_header dict_ph)))" "sint (di_num_values (the (pg_dictionary_page_header dict_ph))) \<le> 10000000"
    and n: "0 \<le> page_num_values cm ph" "page_num_values cm ph \<le> MAX_VALUES_PER_PAGE"
    and v: "decode_dictionary t dict (nat (sint (di_num_values (the (pg_dictionary_page_header dict_ph))))) data (nat (page_num_values cm ph)) = Inr vs"
    using assms unfolding read_column_dict_def Let_def by (auto split: sum.splits prod.splits if_splits)
  have l: "int (length vs) \<le> page_num_values cm ph" using decode_dictionary_length[OF v] n(1) by simp
  show ?thesis unfolding dictionary_read_def Let_def
    by (intro exI[where x = dict_ph] exI[where x = dict] exI[where x = "nat (sint (di_num_values (the (pg_dictionary_page_header dict_ph))))"]
        exI[where x = off] exI[where x = ph] exI[where x = data])
      (use read_page_checked[OF d] read_page_checked[OF p] off h c n v l in \<open>simp split: if_splits\<close>)
qed

lemma encoded_column_read:
  assumes "data_page reg file cm = Inr (data, n)" "page_values encoding (cm_type cm) k t data n = Inr vs"
    and "if encoding = RLE \<and> cm_type cm = BOOLEAN then length vs \<le> n else length vs = n"
  shows "page_read reg file cm k t encoding vs"
proof -
  obtain ph where ph: "checked_page reg file (cm_codec cm) (cm_data_page_offset cm) ph data" "int n = page_num_values cm ph"
    "int n \<le> MAX_VALUES_PER_PAGE" using data_page_checked[OF assms(1)] .
  show ?thesis unfolding page_read_def
    by (intro exI[where x = ph] exI[where x = data]) (use ph assms(2,3) in \<open>simp flip: ph(2) split: if_splits\<close>)
qed

lemma plain_column_read:
  assumes "read_plain reg file cm k t = Inr vs" "encoding \<noteq> DELTA_BINARY_PACKED" "encoding \<noteq> BYTE_STREAM_SPLIT"
    "\<not> (encoding = RLE \<and> cm_type cm = BOOLEAN)"
  shows "page_read reg file cm k t encoding vs"
proof -
  obtain cr m where c: "reader_for reg file cm k = Inr (cr, m)"
    and v: "(if t = CBool then fst (PlainPage.read_each CBool (nat m) cr) else fst (read_batch t (nat m) cr)) = Inr vs"
    using assms(1) unfolding read_plain_def validate_page_value_count_def by (auto split: sum.splits prod.splits if_splits)
  obtain data ph where p: "checked_page reg file (cm_codec cm) (cm_data_page_offset cm) ph data" "m = page_num_values cm ph"
    "0 \<le> m" "m \<le> MAX_VALUES_PER_PAGE" "cr = column_reader_new (cm_type cm) data m k" using reader_for_checked[OF c] .
  have "length vs = nat m"
  proof (cases "t = CBool")
    case True
    then show ?thesis using v by (cases "PlainPage.read_each CBool (nat m) cr") (simp add: read_each_length)
  next
    case False
    then show ?thesis using v by (simp add: read_batch_length)
  qed
  then have l: "int (length vs) = m" using p(3) by simp
  have "page_values encoding (cm_type cm) k t data (nat m)
      = (if t = CBool then fst (PlainPage.read_each CBool (nat m) (column_reader_new (cm_type cm) data (int (nat m)) k))
         else fst (read_batch t (nat m) (column_reader_new (cm_type cm) data (int (nat m)) k)))"
    unfolding page_values_def using assms(2-4) by (simp only: if_False)
  also have "\<dots> = Inr vs" using v unfolding p(5) nat_0_le[OF p(3)] .
  finally have "page_values encoding (cm_type cm) k t data (nat m) = Inr vs" .
  then have "0 \<le> m \<and> m \<le> MAX_VALUES_PER_PAGE \<and> page_values encoding (cm_type cm) k t data (nat m) = Inr vs
      \<and> (if encoding = RLE \<and> cm_type cm = BOOLEAN then int (length vs) \<le> m else int (length vs) = m)"
    using p(3,4) assms(4) l by (simp only: if_False simp_thms)
  then show ?thesis using p(1) unfolding page_read_def p(2) by blast
qed

lemma read_plain_type:
  assumes "read_plain reg file cm k t = Inr vs" "vs \<noteq> []"
  shows "cm_type cm = parquet_type_of t"
proof -
  obtain cr m where c: "reader_for reg file cm k = Inr (cr, m)"
    and v: "(if t = CBool then fst (PlainPage.read_each CBool (nat m) cr) else fst (read_batch t (nat m) cr)) = Inr vs"
    using assms(1) unfolding read_plain_def validate_page_value_count_def by (auto split: sum.splits prod.splits if_splits)
  have "cr_type cr = cm_type cm" using c by (rule reader_for_checked) (simp add: column_reader_new_def)
  moreover have "cr_type cr = parquet_type_of t"
  proof (cases "t = CBool")
    case True
    then show ?thesis using v assms(2) by (cases "nat m") (auto simp: map_expected_def read_bool_def split: if_splits sum.splits prod.splits)
  next
    case False
    then show ?thesis using v by (cases t) (auto simp: map_expected_def read_batch_int32_def read_batch_int64_def read_batch_float_def
        read_batch_double_def read_batch_fixed_def read_batch_string_def split: sum.splits if_splits)
  qed
  ultimately show ?thesis by simp
qed

text \<open>
  What \<^verbatim>\<open>read_column<T>\<close> may have returned: values of \<open>T\<close> out of checked pages, as the encodings of the chunk say.  Only a
  dictionary and the two encodings of a family of types are read without comparing \<open>T\<close> with the type of the column.
\<close>

definition column_read :: "registry \<Rightarrow> bytes \<Rightarrow> column_metadata \<Rightarrow> u32 \<Rightarrow> ctype \<Rightarrow> cvalue list \<Rightarrow> bool" where
  "column_read reg file cm k t vs \<longleftrightarrow> list_all (\<lambda>v. ctype_of v = t) vs \<and> (case fold (scan_encoding (cm_type cm)) (cm_encodings cm) (False, PLAIN) of (has_dict, encoding) \<Rightarrow>
     if has_dict then t \<noteq> CBool \<and> dictionary_read reg file cm t vs
     else page_read reg file cm k t encoding vs
       \<and> (if encoding = DELTA_BINARY_PACKED then t \<in> {CInt32, CInt64} else if encoding = BYTE_STREAM_SPLIT then t \<in> {CFloat, CDouble}
          else vs \<noteq> [] \<longrightarrow> cm_type cm = parquet_type_of t))"

lemma counted_page:
  "read_column_delta reg file cm t = Inr vs \<Longrightarrow> t \<in> {CInt32, CInt64} \<and> page_read reg file cm k t DELTA_BINARY_PACKED vs"
  "read_column_bss reg file cm t = Inr vs \<Longrightarrow> t \<in> {CFloat, CDouble} \<and> page_read reg file cm k t BYTE_STREAM_SPLIT vs"
  by (auto simp: read_column_delta_def read_column_bss_def page_values_def encoding_codes split: sum.splits prod.splits if_splits
      dest!: counted_length intro!: encoded_column_read)

lemma rle_bool_page:
  assumes "read_column_rle_bool reg file cm t = Inr vs" "cm_type cm = BOOLEAN"
  shows "t = CBool \<and> page_read reg file cm k t RLE vs"
  using assms rle_decode_length(2)
  by (auto simp: read_column_rle_bool_def page_values_def encoding_codes split: sum.splits prod.splits if_splits intro!: encoded_column_read)

lemma read_chunk_checked:
  assumes "read_chunk reg file cm k t = Inr vs"
  shows "column_read reg file cm k t vs"
proof -
  obtain has_dict encoding where f: "fold (scan_encoding (cm_type cm)) (cm_encodings cm) (False, PLAIN) = (has_dict, encoding)" by fastforce
  note c = assms[unfolded read_chunk_def f prod.case]
  consider "has_dict" | "\<not> has_dict" "encoding = DELTA_BINARY_PACKED" | "\<not> has_dict" "encoding = BYTE_STREAM_SPLIT"
    | "\<not> has_dict" "encoding = RLE" "cm_type cm = BOOLEAN"
    | "\<not> has_dict" "encoding \<noteq> DELTA_BINARY_PACKED" "encoding \<noteq> BYTE_STREAM_SPLIT" "\<not> (encoding = RLE \<and> cm_type cm = BOOLEAN)" by blast
  then have "if has_dict then t \<noteq> CBool \<and> dictionary_read reg file cm t vs
     else page_read reg file cm k t encoding vs
       \<and> (if encoding = DELTA_BINARY_PACKED then t \<in> {CInt32, CInt64} else if encoding = BYTE_STREAM_SPLIT then t \<in> {CFloat, CDouble}
          else vs \<noteq> [] \<longrightarrow> cm_type cm = parquet_type_of t)" (is ?read)
  proof cases
    case 1
    then show ?thesis using c dictionary_column_read by (simp split: if_splits)
  next
    case 2
    then show ?thesis using c counted_page(1) by (simp split: if_splits)
  next
    case 3
    then show ?thesis using c counted_page(2) by (simp add: encoding_codes split: if_splits)
  next
    case 4
    then show ?thesis using c rle_bool_page[OF _ 4(3)] by (cases t) (simp_all add: encoding_codes type_codes split: if_splits)
  next
    case 5
    then have p: "read_plain reg file cm k t = Inr vs" using c by (simp only: if_False)
    have "page_read reg file cm k t encoding vs" "vs \<noteq> [] \<longrightarrow> cm_type cm = parquet_type_of t"
      using plain_column_read[OF p 5(2-4)] read_plain_type[OF p] by blast+
    then show ?thesis using 5(1-3) by (simp only: if_False simp_thms)
  qed
  then show ?thesis using read_chunk_type[OF assms] unfolding column_read_def f prod.case by (rule conjI[rotated])
qed

text \<open>
  Property C11: whatever \<^verbatim>\<open>read_column<T>\<close> returns without an error, on any bytes, for any index and any metadata, comes out of
  checked pages.  The header of the data page stands inside the file and is a header by the decoder; the bytes of the page
  lie inside the file, are as many as the header says and have its checksum if it has one; what the codec made of them is
  within the cap of a page; the number of values is within its bounds, and that many values are returned (at most that
  many from an RLE or a dictionary page); they are the decoder's of the encodings in the metadata, of type \<open>T\<close>, and
  the type is compared with the column's except for dictionaries and the two encodings of a family of types.  A dictionary
  is read only from a checked \<^verbatim>\<open>DICTIONARY_PAGE\<close> with at most 10000000 entries.
\<close>
theorem read_column_checked:
  assumes "read_column reg r t g c = Inr vs"
  shows "\<exists>cm. metadata_at r g c = Inr cm \<and> column_read reg (pr_file_data r) cm (cd_type_length (sc_columns (pr_schema r) ! c)) t vs"
  using assms read_chunk_checked by (auto simp: read_column_def split: sum.splits if_splits)

theorem read_column_checked_witness:
  "\<exists>r. reader_open (Some (pw_file small_closed)) = Inr r \<and> (\<exists>cm. metadata_at r 0 0 = Inr cm
     \<and> column_read (en_registry (with_snappy small_env)) (pr_file_data r) cm (cd_type_length (sc_columns (pr_schema r) ! 0)) CInt32 [VInt32 5, VInt32 7])"
proof -
  have n: "length (groups_of small_env (default_options [99]) (sc_columns small_schema) small_requests (nothing_written [CInt32])) \<le> 10000"
    by (simp add: small_groups)
  have "file_reads small_env (default_options [99]) small_schema [CInt32] [[[VInt32 5, VInt32 7]]] (pw_file small_closed)"
    using works_write_file[OF small_fits small_requests_ok n, of ample] small_written small_sizes small_groups by (auto simp: works_def)
  then obtain r where "reader_open (Some (pw_file small_closed)) = Inr r"
    "read_column (en_registry (with_snappy small_env)) r CInt32 0 0 = Inr [VInt32 5, VInt32 7]"
    by (auto simp: file_reads_def faithful_def planned_def choose_encoding_def default_options_def encoding_codes dictionary_encoding_def small_schema_def)
  then show ?thesis using read_column_checked by blast
qed

section \<open>Encodings that a column cannot have\<close>

text \<open>
  Property C12: an override by \<^verbatim>\<open>DELTA_BINARY_PACKED\<close> on a column that is no \<^verbatim>\<open>INT32\<close> or \<^verbatim>\<open>INT64\<close>, or by
  \<^verbatim>\<open>BYTE_STREAM_SPLIT\<close> on one that is no \<^verbatim>\<open>FLOAT\<close> or \<^verbatim>\<open>DOUBLE\<close>, is not refused: the page is PLAIN, the metadata
  names the encoding, and \<^verbatim>\<open>read_column\<close> refuses the column, whatever the rest of the file.  (An \<^verbatim>\<open>RLE\<close> override on a
  column that is not Boolean is harmless: the page is PLAIN and is read as PLAIN.)
\<close>
theorem wrong_override_unreadable:
  assumes "enc = DELTA_BINARY_PACKED \<and> t \<notin> {CInt32, CInt64} \<or> enc = BYTE_STREAM_SPLIT \<and> t \<notin> {CFloat, CDouble}"
    and "cd_physical_type cd = parquet_type_of t"
    and "write_plain_column env cd cw enc codec w = (Returned info, w')"
    and "cm_encodings cm = pi_used_encodings info"
  shows "encode_column_data cw enc (cd_physical_type cd) = cw_buf cw \<and> pi_used_encodings info = [enc]
    \<and> read_chunk reg contents cm k t = Inl UNSUPPORTED_ENCODING"
proof -
  have "pi_used_encodings info = [enc]"
    using assms(3) unfolding write_plain_column_def write_page_def write_raw_def Let_def ret_def
    by (auto split: if_splits sum.splits option.splits)
  moreover have "encode_column_data cw enc (cd_physical_type cd) = cw_buf cw"
    using assms(1,2) by (cases t) (auto simp: encode_column_data_def encoding_codes type_codes)
  ultimately show ?thesis using assms(1,4) by (auto simp: read_chunk_def scan_encoding_def encoding_codes)
qed

section \<open>A full disk\<close>

text \<open>Encoding the waiting rows does not touch the stream.\<close>

lemma after_room: "pw_room (snd p) = r \<Longrightarrow> (\<And>v w. pw_room w = r \<Longrightarrow> pw_room (snd (f v w)) = r) \<Longrightarrow> pw_room (snd (after p f)) = r"
  by (cases "(p, f)" rule: after.cases) auto

lemma ensure_room: "pw_room (snd (bloom_ensure_filter env c w)) = pw_room w"
  by (simp add: bloom_ensure_filter_def ret_def Let_def split: option.splits)

lemma cell_room: "pw_room (snd (encode_cell env c b val w)) = pw_room w"
  by (simp add: encode_cell_def Let_def ret_def set_column_def bloom_add_def split: option.splits)

lemma cells_room: "pw_room (snd (encode_cells env c b rows w)) = pw_room w"
proof (induction rows arbitrary: w)
  case (Cons row rows)
  show ?case unfolding encode_cells.simps by (rule after_room) (simp_all add: cell_room Cons.IH)
qed (simp add: ret_def)

lemma columns_room: "pw_room (snd (encode_columns env cs w)) = pw_room w"
proof (induction cs arbitrary: w)
  case (Cons c cs)
  show ?case unfolding encode_columns.simps
    by (rule after_room) (auto simp: ensure_room intro!: after_room simp: cells_room Cons.IH)
qed (simp add: ret_def)

lemma pending_room: "pw_room (snd (encode_pending_rows env w)) = pw_room w"
  unfolding encode_pending_rows_def by (rule after_room) (simp_all add: columns_room ret_def)

text \<open>A stream that has gone bad takes no page.\<close>

definition gives_up :: "'a outcome \<times> parquet_writer \<Rightarrow> bool" where "gives_up p \<longleftrightarrow> (\<forall>v. fst p \<noteq> Returned v)"

lemma gives_up_after: "gives_up p \<Longrightarrow> gives_up (after p f)"
  by (cases "(p, f)" rule: after.cases) (auto simp: gives_up_def)

lemma bad_page: "dk_takes (pw_room w) = None \<Longrightarrow> gives_up (write_page ph data w)"
  by (simp add: gives_up_def write_page_def write_raw_def split: option.splits)

lemma gives_up_simps: "gives_up (Failed e, w)" "gives_up (Thrown, w)" "\<not> gives_up (Returned v, w)"
  by (simp_all add: gives_up_def)

lemma gives_up_expected:
  "(\<And>v. gives_up (f v w)) \<Longrightarrow> gives_up (after (of_expected x w) f)"
  by (cases x) (simp_all add: gives_up_simps)

lemma bad_plain: "dk_takes (pw_room w) = None \<Longrightarrow> gives_up (write_plain_column env cd cw enc codec w)"
  by (simp add: write_plain_column_def Let_def gives_up_simps gives_up_after bad_page split: sum.split)

lemma bad_dictionary: "dk_takes (pw_room w) = None \<Longrightarrow> gives_up (write_dictionary_column env cd cw codec w)"
  by (auto simp: write_dictionary_column_def gives_up_simps split: sum.split option.split intro!: gives_up_expected gives_up_after[OF bad_page])

lemma bad_chunks: "dk_takes (pw_room w) = None \<Longrightarrow> cs \<noteq> [] \<Longrightarrow> gives_up (write_column_chunks env cs w)"
  by (cases cs) (simp_all add: write_column_chunk_def Let_def gives_up_after bad_plain bad_dictionary)

text \<open>So a flush that returns had no value to write.\<close>

lemma bad_flush:
  assumes "pw_open w" "dk_takes (pw_room w) = None" "flush_row_group env w = (Returned u, w')"
  shows "dk_takes (pw_room w') = None"
proof -
  let ?p = "if pw_pending_rows w \<noteq> [] then encode_pending_rows (with_snappy env) w else ret () w"
  have room: "pw_room (snd ?p) = pw_room w" by (simp add: pending_room ret_def)
  obtain w1 where p: "?p = (Returned (), w1)"
    using assms(1,3) unfolding flush_row_group_def Let_def by (cases "fst ?p"; cases ?p) (auto simp: if_distrib split: if_splits)
  have bad: "dk_takes (pw_room w1) = None" using room assms(2) unfolding p by simp
  have f: "(if \<not> list_ex (\<lambda>cw. cw_num_values cw > 0) (pw_col_writers w1) then ret () w1
        else let n = cw_num_values (hd (pw_col_writers w1)) in
          if list_ex (\<lambda>cw. cw_num_values cw \<noteq> n) (tl (pw_col_writers w1)) then (Failed SCHEMA_MISMATCH, w1)
          else after (write_column_chunks (with_snappy env) [0..<length (pw_col_writers w1)] w1) (\<lambda>chunks w2.
            ret () (reset_columns (w2\<lparr>pw_row_groups := pw_row_groups w2 @ [default_RowGroup\<lparr>rg_num_rows := of_nat n,
                rg_columns := map fst chunks, rg_total_byte_size := sum_list (map snd chunks)\<rparr>],
              pw_total_rows := pw_total_rows w2 + n\<rparr>)))) = (Returned u, w')" (is "?f = _")
    using assms(1,3) unfolding flush_row_group_def Let_def p by simp
  show ?thesis
  proof (cases "list_ex (\<lambda>cw. cw_num_values cw > 0) (pw_col_writers w1)")
    case False
    then show ?thesis using f bad by (simp add: ret_def)
  next
    case True
    then have "[0..<length (pw_col_writers w1)] \<noteq> []" by (auto simp: list_ex_iff)
    then have "gives_up ?f" using True bad_chunks[OF bad] by (simp add: Let_def gives_up_simps gives_up_after)
    then show ?thesis unfolding f by (simp add: gives_up_simps)
  qed
qed

lemma destroy_close:
  "pw_open w \<Longrightarrow> fst (writer_destroy env w) = (case fst (writer_close env w) of Thrown \<Rightarrow> Thrown | _ \<Rightarrow> Returned ())"
  by (cases "writer_close env w"; cases "fst (writer_close env w)") (simp_all add: writer_destroy_def)

lemma bad_close:
  assumes "pw_open w" "dk_takes (pw_room w) = None" "num_columns (pw_schema w) \<noteq> 0"
  shows "fst (writer_close env w) = (case fst (flush_row_group env w) of Failed e \<Rightarrow> Failed e | _ \<Rightarrow> Thrown)"
proof -
  obtain out w1 where fl: "flush_row_group env w = (out, w1)" by fastforce
  show ?thesis
  proof (cases out)
    case (Returned u)
    have bad: "dk_takes (pw_room w1) = None" by (rule bad_flush[OF assms(1,2) fl[unfolded Returned]])
    have u: "u = ()" by simp
    show ?thesis unfolding writer_close_def fl Returned u prod.case outcome.case unit.case fst_conv using assms(1,3)
      by (cases "serialize_FileMetaData (footer_metadata w1) encoder_new") (simp_all add: write_raw_def bad)
  qed (simp_all add: writer_close_def fl assms(1,3))
qed

text \<open>
  Property C13: what the destructor of a writer does once its stream has gone bad, for any open writer.  If the schema has no
  column, or flushing what waits fails with an \<^verbatim>\<open>Error\<close> before it reaches the stream, the error is dropped and the
  destructor returns; in every other case, also when no value waits, an exception leaves it, which ends the program.  The
  documentation says that errors are discarded.
\<close>
theorem full_disk_destructor_throws:
  assumes "pw_open w" "dk_takes (pw_room w) = None"
  shows "fst (writer_destroy env w) =
    (if num_columns (pw_schema w) = 0 then Returned () else case fst (flush_row_group env w) of Failed e \<Rightarrow> Returned () | _ \<Rightarrow> Thrown)"
proof (cases "num_columns (pw_schema w) = 0")
  case True
  then show ?thesis using assms(1) by (simp add: destroy_close writer_close_def)
next
  case False
  then show ?thesis using bad_close[OF assms False] by (simp add: destroy_close[OF assms(1)] split: outcome.split)
qed

definition full_writer :: parquet_writer where
  "full_writer = (fresh_writer small_schema (default_options [99]) \<lparr>dk_takes = None, dk_keeps = 0\<rparr>)\<lparr>pw_open := True, pw_col_writers := init_column_writers small_schema\<rparr>"

text \<open>Nothing waits in \<open>full_writer\<close>, and an exception leaves its destructor.\<close>

theorem full_disk_destructor_throws_witness: "fst (writer_destroy small_env full_writer) = Thrown"
proof -
  have f: "flush_row_group small_env full_writer = (Returned (), full_writer)"
    by (simp add: flush_row_group_def full_writer_def fresh_writer_def init_column_writers_def column_writer_new_def small_schema_def ret_def)
  have "num_columns (pw_schema full_writer) \<noteq> 0" by (simp add: full_writer_def fresh_writer_def small_schema_def num_columns_def)
  then show ?thesis using full_disk_destructor_throws[of full_writer small_env] f by (simp add: full_writer_def fresh_writer_def)
qed

theorem wrong_override_unreadable_witness:
  "\<exists>info w'. write_plain_column small_env (column_of [97] DOUBLE) (column_writer_new DOUBLE 0) DELTA_BINARY_PACKED UNCOMPRESSED small_writer = (Returned info, w')
     \<and> read_chunk (en_registry small_env) (pw_file w') (default_ColumnMetaData\<lparr>cm_encodings := pi_used_encodings info\<rparr>) 0 CDouble = Inl UNSUPPORTED_ENCODING"
proof -
  obtain info w' where w: "write_plain_column small_env (column_of [97] DOUBLE) (column_writer_new DOUBLE 0) DELTA_BINARY_PACKED UNCOMPRESSED small_writer = (Returned info, w')"
    unfolding small_writer_def by (simp add: small_facts cong: small_after_cong)
  then show ?thesis
    using wrong_override_unreadable[of DELTA_BINARY_PACKED CDouble "column_of [97] DOUBLE", OF _ _ w] by (auto simp: column_of_def type_codes)
qed

subsection \<open>What the disk keeps\<close>

text \<open>No operation of the writer changes what the disk will keep.\<close>

definition keeps :: "enat \<Rightarrow> 'a outcome \<times> parquet_writer \<Rightarrow> bool" where "keeps n p \<longleftrightarrow> dk_keeps (pw_room (snd p)) = n"

lemma keeps_after: "keeps n p \<Longrightarrow> (\<And>v w. dk_keeps (pw_room w) = n \<Longrightarrow> keeps n (f v w)) \<Longrightarrow> keeps n (after p f)"
  by (cases "(p, f)" rule: after.cases) (auto simp: keeps_def)

lemma keeps_pair [simp]: "keeps n (out, w) \<longleftrightarrow> dk_keeps (pw_room w) = n" "keeps n (ret v w) \<longleftrightarrow> dk_keeps (pw_room w) = n"
  "keeps n (of_expected x w) \<longleftrightarrow> dk_keeps (pw_room w) = n"
  by (simp_all add: keeps_def ret_def) (cases x; simp)

lemma keeps_room: "pw_room (snd p) = pw_room w \<Longrightarrow> dk_keeps (pw_room w) = n \<Longrightarrow> keeps n p"
  by (simp add: keeps_def)

lemma write_raw_keeps: "dk_keeps (pw_room w) = n \<Longrightarrow> keeps n (write_raw data w)"
  by (simp add: write_raw_def split: option.splits)

lemma write_raw_le32_keeps: "dk_keeps (pw_room w) = n \<Longrightarrow> keeps n (write_raw_le32 v w)"
  by (simp add: write_raw_le32_def write_raw_keeps)

lemma write_page_keeps: "dk_keeps (pw_room w) = n \<Longrightarrow> keeps n (write_page ph data w)"
  by (auto simp: write_page_def split: option.splits intro!: keeps_after write_raw_keeps)

lemma plain_keeps: "dk_keeps (pw_room w) = n \<Longrightarrow> keeps n (write_plain_column env cd cw enc codec w)"
  by (auto simp: write_plain_column_def Let_def split: sum.split intro!: keeps_after write_page_keeps)

lemma dictionary_keeps: "dk_keeps (pw_room w) = n \<Longrightarrow> keeps n (write_dictionary_column env cd cw codec w)"
  by (auto simp: write_dictionary_column_def Let_def split: sum.split option.split intro!: keeps_after write_page_keeps)

lemma bloom_keeps: "dk_keeps (pw_room w) = n \<Longrightarrow> keeps n (write_bloom c cc w)"
  by (auto simp: write_bloom_def split: option.split intro!: keeps_after write_raw_keeps write_raw_le32_keeps)

lemma index_keeps: "dk_keeps (pw_room w) = n \<Longrightarrow> keeps n (write_index c cc w)"
  by (auto simp: write_index_def Let_def split: option.split intro!: keeps_after write_raw_keeps)

lemma chunk_keeps: "dk_keeps (pw_room w) = n \<Longrightarrow> keeps n (write_column_chunk env c w)"
  by (auto simp: write_column_chunk_def Let_def feed_index_def
      intro!: keeps_after plain_keeps dictionary_keeps bloom_keeps index_keeps)

lemma chunks_keeps: "dk_keeps (pw_room w) = n \<Longrightarrow> keeps n (write_column_chunks env cs w)"
  by (induction cs arbitrary: w) (auto intro!: keeps_after chunk_keeps)

lemma flush_keeps: "dk_keeps (pw_room w) = n \<Longrightarrow> keeps n (flush_row_group env w)"
  by (auto simp: flush_row_group_def Let_def reset_columns_def intro!: keeps_after chunks_keeps keeps_room[OF pending_room])

lemma row_keeps: "dk_keeps (pw_room w) = n \<Longrightarrow> keeps n (write_row env values w)"
  by (auto simp: write_row_def Let_def intro!: flush_keeps)

lemma close_keeps: "dk_keeps (pw_room w) = n \<Longrightarrow> keeps n (writer_close env w)"
  using flush_keeps[of w n env]
  by (auto simp: writer_close_def close_file_def split: option.split prod.split outcome.split unit.split
      intro!: keeps_after write_raw_keeps write_raw_le32_keeps)

lemma open_keeps: "keeps (dk_keeps room) (writer_open opened room s opts)"
  by (auto simp: writer_open_def Let_def fresh_writer_def intro!: keeps_after write_raw_le32_keeps)

lemma rows_keeps: "dk_keeps (pw_room w) = n \<Longrightarrow> keeps n (do_requests env ts (map Row rows) w)"
  by (induction rows arbitrary: w) (auto intro!: keeps_after row_keeps)

text \<open>So the file of written rows is what the disk kept of it.\<close>

lemma write_file_keeps:
  assumes "write_file env room s opts ts (map Row rows) = (out, w)"
  shows "on_disk w = kept_part (dk_keeps room) (pw_file w)"
proof -
  have "keeps (dk_keeps room) (write_file env room s opts ts (map Row rows))"
    unfolding write_file_def by (intro keeps_after open_keeps rows_keeps close_keeps)
  then show ?thesis unfolding assms by (simp add: on_disk_def)
qed

end
