(* ===== verification/LogRecord.thy ===== *)
theory LogRecord
  imports Prelude
begin

text \<open>
  The records of the decision log and of the inference log, as their \<^verbatim>\<open>serialize\<close> and \<^verbatim>\<open>deserialize\<close> in
  \<^verbatim>\<open>include/signet/ai/decision_log.hpp\<close> and \<^verbatim>\<open>include/signet/ai/inference_log.hpp\<close> have them.  A float is its
  bit pattern, a string its bytes; an enumeration holds one of its enumerators.
\<close>

section \<open>Fields\<close>

text \<open>The helpers of both records; \<^verbatim>\<open>append_float\<close> and \<^verbatim>\<open>append_double\<close> append the bit pattern.\<close>

definition le32 :: "u32 \<Rightarrow> bytes" where
  "le32 v = [ucast v, ucast (drop_bit 8 v), ucast (drop_bit 16 v), ucast (drop_bit 24 v)]"

definition le64 :: "u64 \<Rightarrow> bytes" where
  "le64 v = map (\<lambda>i. ucast (drop_bit (8 * i) v)) [0..<8]"

definition le_string :: "bytes \<Rightarrow> bytes" where
  "le_string s = (let clamped = min (length s) 0xFFFFFFFF in le32 (of_nat clamped) @ take clamped s)"

definition le_floats :: "u32 list \<Rightarrow> bytes" where
  "le_floats fs = le32 (of_nat (length fs)) @ concat (map le32 fs)"

text \<open>A reader takes what is left of the data; when it fails, it may have moved on.\<close>

type_synonym 'a field_reader = "bytes \<Rightarrow> 'a option \<times> bytes"

definition take_le64 :: "u64 field_reader" where
  "take_le64 s = (if length s < 8 then (None, s) else (Some (of_le (take 8 s)), drop 8 s))"

definition take_le32 :: "u32 field_reader" where
  "take_le32 s = (if length s < 4 then (None, s) else (Some (of_le (take 4 s)), drop 4 s))"

definition MAX_STRING_LEN :: nat where "MAX_STRING_LEN = 16 * 1024 * 1024"

definition take_string :: "bytes field_reader" where
  "take_string s =
     (case take_le32 s of (None, s1) \<Rightarrow> (None, s1)
      | (Some len, s1) \<Rightarrow>
          if unat len > MAX_STRING_LEN then (None, s1)
          else if length s1 < unat len then (None, s1)
          else (Some (take (unat len) s1), drop (unat len) s1))"

fun take_each :: "nat \<Rightarrow> u32 list field_reader" where
  "take_each 0 s = (Some [], s)"
| "take_each (Suc n) s =
     (case take_le32 s of (None, s1) \<Rightarrow> (None, s1)
      | (Some f, s1) \<Rightarrow> (case take_each n s1 of (None, s2) \<Rightarrow> (None, s2) | (Some fs, s2) \<Rightarrow> (Some (f # fs), s2)))"

text \<open>The vector of floats, with its count checked against what is left.\<close>

definition take_floats :: "u32 list field_reader" where
  "take_floats s =
     (case take_le32 s of (None, s1) \<Rightarrow> (None, s1)
      | (Some n, s1) \<Rightarrow> if unat n > length s1 div 4 then (None, s1) else take_each (unat n) s1)"

text \<open>A field that must be there, and one that keeps its default when it cannot be read.\<close>

definition must :: "'a field_reader \<Rightarrow> ('a \<Rightarrow> bytes \<Rightarrow> 'b expected) \<Rightarrow> bytes \<Rightarrow> 'b expected" where
  "must rd k s = (case rd s of (None, _) \<Rightarrow> Inl CORRUPT_PAGE | (Some v, s1) \<Rightarrow> k v s1)"

definition may :: "'a field_reader \<Rightarrow> ('a \<Rightarrow> 'c) \<Rightarrow> 'c \<Rightarrow> ('c \<Rightarrow> bytes \<Rightarrow> 'b expected) \<Rightarrow> bytes \<Rightarrow> 'b expected" where
  "may rd f d k s = (case rd s of (None, s1) \<Rightarrow> k d s1 | (Some v, s1) \<Rightarrow> k (f v) s1)"

section \<open>DecisionRecord\<close>

datatype decision_type = SIGNAL | ORDER_NEW | ORDER_CANCEL | ORDER_MODIFY | POSITION_OPEN | POSITION_CLOSE | RISK_OVERRIDE | NO_ACTION

datatype risk_gate_result = PASSED | REJECTED | MODIFIED | THROTTLED

datatype order_type = MARKET | LIMIT | STOP | STOP_LIMIT | PEGGED | ORDER_OTHER

datatype time_in_force = DAY | GTC | IOC | FOK | GTD | TIF_OTHER

datatype buy_sell_indicator = BUY | SELL | SHORT_SELL

fun decision_type_code :: "decision_type \<Rightarrow> u32" where
  "decision_type_code SIGNAL = 0"
| "decision_type_code ORDER_NEW = 1"
| "decision_type_code ORDER_CANCEL = 2"
| "decision_type_code ORDER_MODIFY = 3"
| "decision_type_code POSITION_OPEN = 4"
| "decision_type_code POSITION_CLOSE = 5"
| "decision_type_code RISK_OVERRIDE = 6"
| "decision_type_code NO_ACTION = 7"

fun risk_code :: "risk_gate_result \<Rightarrow> u32" where
  "risk_code PASSED = 0"
| "risk_code REJECTED = 1"
| "risk_code MODIFIED = 2"
| "risk_code THROTTLED = 3"

fun order_type_code :: "order_type \<Rightarrow> u32" where
  "order_type_code MARKET = 0"
| "order_type_code LIMIT = 1"
| "order_type_code STOP = 2"
| "order_type_code STOP_LIMIT = 3"
| "order_type_code PEGGED = 4"
| "order_type_code ORDER_OTHER = 99"

fun time_in_force_code :: "time_in_force \<Rightarrow> u32" where
  "time_in_force_code DAY = 0"
| "time_in_force_code GTC = 1"
| "time_in_force_code IOC = 2"
| "time_in_force_code FOK = 3"
| "time_in_force_code GTD = 4"
| "time_in_force_code TIF_OTHER = 99"

fun buy_sell_code :: "buy_sell_indicator \<Rightarrow> u32" where
  "buy_sell_code BUY = 0"
| "buy_sell_code SELL = 1"
| "buy_sell_code SHORT_SELL = 2"

text \<open>The casts of the reader, with the value that replaces a code that is none.\<close>

definition decision_type_of :: "u32 \<Rightarrow> decision_type" where
  "decision_type_of v =
     (if sint v < 0 \<or> sint v > 7 then SIGNAL
      else [SIGNAL, ORDER_NEW, ORDER_CANCEL, ORDER_MODIFY, POSITION_OPEN, POSITION_CLOSE, RISK_OVERRIDE, NO_ACTION] ! unat v)"

definition risk_of :: "u32 \<Rightarrow> risk_gate_result" where
  "risk_of v = (if sint v < 0 \<or> sint v > 3 then PASSED else [PASSED, REJECTED, MODIFIED, THROTTLED] ! unat v)"

definition order_type_of :: "u32 \<Rightarrow> order_type" where
  "order_type_of v =
     (if v = 99 then ORDER_OTHER else if sint v < 0 \<or> sint v > 4 then MARKET else [MARKET, LIMIT, STOP, STOP_LIMIT, PEGGED] ! unat v)"

definition time_in_force_of :: "u32 \<Rightarrow> time_in_force" where
  "time_in_force_of v =
     (if v = 99 then TIF_OTHER else if sint v < 0 \<or> sint v > 4 then DAY else [DAY, GTC, IOC, FOK, GTD] ! unat v)"

definition buy_sell_of :: "u32 \<Rightarrow> buy_sell_indicator" where
  "buy_sell_of v = (if sint v < 0 \<or> sint v > 2 then BUY else [BUY, SELL, SHORT_SELL] ! unat v)"

record decision_record =
  dr_timestamp_ns :: u64
  dr_strategy_id :: u32
  dr_model_version :: bytes
  dr_decision_type :: decision_type
  dr_input_features :: "u32 list"
  dr_model_output :: u32
  dr_confidence :: u32
  dr_risk_result :: risk_gate_result
  dr_order_id :: bytes
  dr_symbol :: bytes
  dr_price :: u64
  dr_quantity :: u64
  dr_venue :: bytes
  dr_notes :: bytes
  dr_buy_sell :: buy_sell_indicator
  dr_order_type :: order_type
  dr_time_in_force :: time_in_force
  dr_isin :: bytes
  dr_currency :: bytes
  dr_short_selling_flag :: bool
  dr_aggregated_order :: bool
  dr_validity_period_ns :: u64
  dr_parent_order_id :: bytes

definition default_DecisionRecord :: decision_record where
  "default_DecisionRecord = \<lparr>dr_timestamp_ns = 0, dr_strategy_id = 0, dr_model_version = [], dr_decision_type = NO_ACTION,
     dr_input_features = [], dr_model_output = 0, dr_confidence = 0, dr_risk_result = PASSED, dr_order_id = [], dr_symbol = [],
     dr_price = 0, dr_quantity = 0, dr_venue = [], dr_notes = [], dr_buy_sell = BUY, dr_order_type = MARKET, dr_time_in_force = DAY,
     dr_isin = [], dr_currency = [], dr_short_selling_flag = False, dr_aggregated_order = False, dr_validity_period_ns = 0,
     dr_parent_order_id = []\<rparr>"

text \<open>The two halves of \<^verbatim>\<open>serialize\<close>: what every version wrote, and the MiFID II fields.\<close>

definition serialize_decision_core :: "decision_record \<Rightarrow> bytes" where
  "serialize_decision_core r =
     le64 (dr_timestamp_ns r) @ le32 (dr_strategy_id r) @ le_string (dr_model_version r) @ le32 (decision_type_code (dr_decision_type r))
     @ le_floats (dr_input_features r) @ le32 (dr_model_output r) @ le32 (dr_confidence r) @ le32 (risk_code (dr_risk_result r))
     @ le_string (dr_order_id r) @ le_string (dr_symbol r) @ le64 (dr_price r) @ le64 (dr_quantity r) @ le_string (dr_venue r)
     @ le_string (dr_notes r)"

definition serialize_decision_mifid :: "decision_record \<Rightarrow> bytes" where
  "serialize_decision_mifid r =
     le32 (buy_sell_code (dr_buy_sell r)) @ le32 (order_type_code (dr_order_type r)) @ le32 (time_in_force_code (dr_time_in_force r))
     @ le_string (dr_isin r) @ le_string (dr_currency r) @ le32 (if dr_short_selling_flag r then 1 else 0)
     @ le32 (if dr_aggregated_order r then 1 else 0) @ le64 (dr_validity_period_ns r) @ le_string (dr_parent_order_id r)"

definition serialize_decision :: "decision_record \<Rightarrow> bytes" where
  "serialize_decision r = serialize_decision_core r @ serialize_decision_mifid r"

definition deserialize_mifid :: "decision_record \<Rightarrow> bytes \<Rightarrow> decision_record expected" where
  "deserialize_mifid r =
     may take_le32 buy_sell_of (dr_buy_sell r) (\<lambda>bs.
     may take_le32 order_type_of (dr_order_type r) (\<lambda>ot.
     may take_le32 time_in_force_of (dr_time_in_force r) (\<lambda>tif.
     may take_string id (dr_isin r) (\<lambda>isin.
     may take_string id (dr_currency r) (\<lambda>currency.
     may take_le32 (\<lambda>ssf. ssf \<noteq> 0) (dr_short_selling_flag r) (\<lambda>ssf.
     may take_le32 (\<lambda>agg. agg \<noteq> 0) (dr_aggregated_order r) (\<lambda>agg.
     may take_le64 id (dr_validity_period_ns r) (\<lambda>vp.
     may take_string id (dr_parent_order_id r) (\<lambda>parent s.
       Inr (r\<lparr>dr_buy_sell := bs, dr_order_type := ot, dr_time_in_force := tif, dr_isin := isin, dr_currency := currency,
         dr_short_selling_flag := ssf, dr_aggregated_order := agg, dr_validity_period_ns := vp, dr_parent_order_id := parent\<rparr>))))))))))"

definition deserialize_decision :: "bytes \<Rightarrow> decision_record expected" where
  "deserialize_decision =
     must take_le64 (\<lambda>ts. must take_le32 (\<lambda>strategy. must take_string (\<lambda>version. must take_le32 (\<lambda>dt. must take_floats (\<lambda>features.
     must take_le32 (\<lambda>out. must take_le32 (\<lambda>conf. must take_le32 (\<lambda>rr. must take_string (\<lambda>order_id. must take_string (\<lambda>symbol.
     must take_le64 (\<lambda>price. must take_le64 (\<lambda>quantity. must take_string (\<lambda>venue. must take_string (\<lambda>notes s.
       let r = default_DecisionRecord\<lparr>dr_timestamp_ns := ts, dr_strategy_id := strategy, dr_model_version := version,
             dr_decision_type := decision_type_of dt, dr_input_features := features, dr_model_output := out, dr_confidence := conf,
             dr_risk_result := risk_of rr, dr_order_id := order_id, dr_symbol := symbol, dr_price := price, dr_quantity := quantity,
             dr_venue := venue, dr_notes := notes\<rparr>
       in if s \<noteq> [] then deserialize_mifid r s else Inr r))))))))))))))"

section \<open>InferenceRecord\<close>

datatype inference_type = CLASSIFICATION | REGRESSION | EMBEDDING | GENERATION | RANKING | ANOMALY | RECOMMENDATION | CUSTOM

fun inference_type_code :: "inference_type \<Rightarrow> u32" where
  "inference_type_code CLASSIFICATION = 0"
| "inference_type_code REGRESSION = 1"
| "inference_type_code EMBEDDING = 2"
| "inference_type_code GENERATION = 3"
| "inference_type_code RANKING = 4"
| "inference_type_code ANOMALY = 5"
| "inference_type_code RECOMMENDATION = 6"
| "inference_type_code CUSTOM = 255"

definition inference_type_of :: "u32 \<Rightarrow> inference_type" where
  "inference_type_of v =
     (if v = 255 then CUSTOM else if sint v < 0 \<or> sint v > 6 then CLASSIFICATION
      else [CLASSIFICATION, REGRESSION, EMBEDDING, GENERATION, RANKING, ANOMALY, RECOMMENDATION] ! unat v)"

record inference_record =
  ir_timestamp_ns :: u64
  ir_model_id :: bytes
  ir_model_version :: bytes
  ir_inference_type :: inference_type
  ir_input_embedding :: "u32 list"
  ir_input_hash :: bytes
  ir_output_hash :: bytes
  ir_output_score :: u32
  ir_latency_ns :: u64
  ir_batch_size :: u32
  ir_input_tokens :: u32
  ir_output_tokens :: u32
  ir_user_id_hash :: bytes
  ir_session_id :: bytes
  ir_metadata_json :: bytes
  ir_training_dataset_id :: bytes
  ir_training_dataset_size :: u64
  ir_training_data_characteristics :: bytes
  ir_model_training_end_ns :: u64
  ir_model_training_data_cutoff_ns :: u64
  ir_model_retraining_schedule :: bytes

definition default_InferenceRecord :: inference_record where
  "default_InferenceRecord = \<lparr>ir_timestamp_ns = 0, ir_model_id = [], ir_model_version = [], ir_inference_type = CLASSIFICATION,
     ir_input_embedding = [], ir_input_hash = [], ir_output_hash = [], ir_output_score = 0, ir_latency_ns = 0, ir_batch_size = 1,
     ir_input_tokens = 0, ir_output_tokens = 0, ir_user_id_hash = [], ir_session_id = [], ir_metadata_json = [],
     ir_training_dataset_id = [], ir_training_dataset_size = 0, ir_training_data_characteristics = [], ir_model_training_end_ns = 0,
     ir_model_training_data_cutoff_ns = 0, ir_model_retraining_schedule = []\<rparr>"

definition serialize_inference_core :: "inference_record \<Rightarrow> bytes" where
  "serialize_inference_core r =
     le64 (ir_timestamp_ns r) @ le_string (ir_model_id r) @ le_string (ir_model_version r)
     @ le32 (inference_type_code (ir_inference_type r)) @ le_floats (ir_input_embedding r) @ le_string (ir_input_hash r)
     @ le_string (ir_output_hash r) @ le32 (ir_output_score r) @ le64 (ir_latency_ns r) @ le32 (ir_batch_size r)
     @ le32 (ir_input_tokens r) @ le32 (ir_output_tokens r) @ le_string (ir_user_id_hash r) @ le_string (ir_session_id r)
     @ le_string (ir_metadata_json r)"

definition serialize_provenance :: "inference_record \<Rightarrow> bytes" where
  "serialize_provenance r =
     le_string (ir_training_dataset_id r) @ le64 (ir_training_dataset_size r) @ le_string (ir_training_data_characteristics r)"

definition serialize_training :: "inference_record \<Rightarrow> bytes" where
  "serialize_training r =
     le64 (ir_model_training_end_ns r) @ le64 (ir_model_training_data_cutoff_ns r) @ le_string (ir_model_retraining_schedule r)"

definition serialize_inference :: "inference_record \<Rightarrow> bytes" where
  "serialize_inference r = serialize_inference_core r @ serialize_provenance r @ serialize_training r"

definition deserialize_training :: "inference_record \<Rightarrow> bytes \<Rightarrow> inference_record expected" where
  "deserialize_training r s =
     (if s = [] then Inr r
      else must take_le64 (\<lambda>end_ns. must take_le64 (\<lambda>cutoff. must take_string (\<lambda>schedule _.
        Inr (r\<lparr>ir_model_training_end_ns := end_ns, ir_model_training_data_cutoff_ns := cutoff,
          ir_model_retraining_schedule := schedule\<rparr>)))) s)"

definition deserialize_provenance :: "inference_record \<Rightarrow> bytes \<Rightarrow> inference_record expected" where
  "deserialize_provenance r s =
     (if s = [] then deserialize_training r s
      else must take_string (\<lambda>dataset. must take_le64 (\<lambda>n. must take_string (\<lambda>characteristics.
        deserialize_training (r\<lparr>ir_training_dataset_id := dataset, ir_training_dataset_size := n,
          ir_training_data_characteristics := characteristics\<rparr>)))) s)"

definition deserialize_inference :: "bytes \<Rightarrow> inference_record expected" where
  "deserialize_inference =
     must take_le64 (\<lambda>ts. must take_string (\<lambda>model. must take_string (\<lambda>version. must take_le32 (\<lambda>it. must take_floats (\<lambda>embedding.
     must take_string (\<lambda>input_hash. must take_string (\<lambda>output_hash. must take_le32 (\<lambda>score. must take_le64 (\<lambda>latency.
     must take_le32 (\<lambda>batch. must take_le32 (\<lambda>inp. must take_le32 (\<lambda>out. must take_string (\<lambda>user. must take_string (\<lambda>session.
     must take_string (\<lambda>metadata.
       deserialize_provenance (default_InferenceRecord\<lparr>ir_timestamp_ns := ts, ir_model_id := model, ir_model_version := version,
         ir_inference_type := inference_type_of it, ir_input_embedding := embedding, ir_input_hash := input_hash,
         ir_output_hash := output_hash, ir_output_score := score, ir_latency_ns := latency, ir_batch_size := batch,
         ir_input_tokens := inp, ir_output_tokens := out, ir_user_id_hash := user, ir_session_id := session,
         ir_metadata_json := metadata\<rparr>))))))))))))))))"

section \<open>Reading a field back\<close>

named_theorems field_reads

lemma le_to_le: "le32 v = to_le 4 v" "le64 w = to_le 8 w"
  by (simp_all add: le32_def le64_def to_le_def upt_rec)

lemma length_le [simp]: "length (le32 v) = 4" "length (le64 w) = 8"
  by (simp_all add: le_to_le)

text \<open>A reader \<open>rd\<close> that takes exactly \<open>w\<close>, for the value \<open>v\<close>: more is left alone, less is refused.\<close>

definition reads_off :: "'a field_reader \<Rightarrow> bytes \<Rightarrow> 'a \<Rightarrow> bool" where
  "reads_off rd w v \<longleftrightarrow> (\<forall>s. rd (w @ s) = (Some v, s)) \<and> (\<forall>n < length w. fst (rd (take n w)) = None)"

lemma reads_le32 [field_reads]: "reads_off take_le32 (le32 v) v"
  by (simp add: reads_off_def take_le32_def) (simp add: le_to_le of_le_to_le)

lemma reads_le64 [field_reads]: "reads_off take_le64 (le64 v) v"
  by (simp add: reads_off_def take_le64_def) (simp add: le_to_le of_le_to_le)

text \<open>A number that says how much follows.\<close>

lemma reads_counted:
  assumes "\<And>s. rd (le32 m @ s) = (if length s < length w then (None, s) else (Some v, drop (length w) s))"
    and "\<And>s. length s < 4 \<Longrightarrow> fst (rd s) = None"
  shows "reads_off rd (le32 m @ w) v"
  unfolding reads_off_def
proof (intro conjI allI impI)
  show "rd ((le32 m @ w) @ s) = (Some v, s)" for s using assms(1)[of "w @ s"] by simp
  fix n assume "n < length (le32 m @ w)"
  then show "fst (rd (take n (le32 m @ w))) = None"
    using assms(1)[of "take (n - 4) w"] assms(2)[of "take n (le32 m @ w)"] by (cases "n < 4") simp_all
qed

definition text_short :: "bytes \<Rightarrow> bool" where "text_short s \<longleftrightarrow> length s \<le> MAX_STRING_LEN"

lemma take_le32_ok: "take_le32 (le32 v @ s) = (Some v, s)"
  using reads_le32 by (simp add: reads_off_def)

lemma take_le32_short: "length s < 4 \<Longrightarrow> take_le32 s = (None, s)"
  by (simp add: take_le32_def)

lemma le_string_short: "text_short x \<Longrightarrow> le_string x = le32 (of_nat (length x)) @ x"
  by (simp add: le_string_def text_short_def MAX_STRING_LEN_def)

text \<open>The string itself is not known from its length, so its reader is compared byte by byte.\<close>

lemma reads_string [field_reads]: "text_short x \<Longrightarrow> reads_off take_string (le_string x) x"
proof -
  assume x: "text_short x"
  have "unat (of_nat (length x) :: u32) = length x" using x by (simp add: text_short_def MAX_STRING_LEN_def unat_of_nat take_bit_eq_mod)
  then have f: "take_string (le32 (of_nat (length x)) @ s) = (if length s < length x then (None, s) else (Some (take (length x) s), drop (length x) s))" for s
    using x by (simp add: take_string_def take_le32_ok text_short_def)
  have "fst (take_string (take n (le32 (of_nat (length x)) @ x))) = None" if "n < 4 + length x" for n
    using that f[of "take (n - 4) x"] by (cases "n < 4") (auto simp: take_string_def take_le32_short)
  then show ?thesis using f by (simp add: reads_off_def le_string_short[OF x])
qed

lemma take_each_ok: "take_each (length fs) (concat (map le32 fs) @ s) = (Some fs, s)"
  by (induction fs) (simp_all add: take_le32_ok)

lemma length_concat_le32: "length (concat (map le32 fs)) = 4 * length fs"
  by (induction fs) simp_all

lemma reads_floats [field_reads]: "length fs < 2 ^ 32 \<Longrightarrow> reads_off take_floats (le_floats fs) fs"
proof -
  assume "length fs < 2 ^ 32"
  then have u: "unat (of_nat (length fs) :: u32) = length fs" by (simp add: unat_of_nat take_bit_eq_mod)
  let ?w = "concat (map le32 fs)"
  have f: "take_floats (le32 (of_nat (length fs)) @ s) = (if length s < length ?w then (None, s) else take_each (length fs) s)" for s
    by (auto simp: take_floats_def take_le32_ok u length_concat_le32)
  have "fst (take_floats (take n (le32 (of_nat (length fs)) @ ?w))) = None" if "n < 4 + length ?w" for n
    using that f[of "take (n - 4) ?w"] by (cases "n < 4") (auto simp: take_floats_def take_le32_short)
  then show ?thesis using f by (simp add: reads_off_def le_floats_def take_each_ok)
qed

text \<open>A decoder that takes exactly \<open>w\<close> before it goes on as \<open>f\<close>, and refuses every strict prefix of \<open>w\<close>.\<close>

definition decodes :: "(bytes \<Rightarrow> 'b expected) \<Rightarrow> bytes \<Rightarrow> (bytes \<Rightarrow> 'b expected) \<Rightarrow> bool" where
  "decodes d w f \<longleftrightarrow> (\<forall>n s. d (take n (w @ s)) = (if n < length w then Inl CORRUPT_PAGE else f (take (n - length w) s)))"

lemma decodes_must:
  assumes "reads_off rd w v" "decodes (k v) u f"
  shows "decodes (must rd k) (w @ u) f"
  unfolding decodes_def
proof (intro allI)
  fix n s
  show "must rd k (take n ((w @ u) @ s)) = (if n < length (w @ u) then Inl CORRUPT_PAGE else f (take (n - length (w @ u)) s))"
  proof (cases "n < length w")
    case True
    then have "fst (rd (take n w)) = None" using assms(1) by (simp add: reads_off_def)
    then show ?thesis using True by (cases "rd (take n w)") (simp add: must_def)
  next
    case False
    then have "must rd k (take n ((w @ u) @ s)) = k v (take (n - length w) (u @ s))" using assms(1) by (simp add: must_def reads_off_def)
    also have "\<dots> = (if n - length w < length u then Inl CORRUPT_PAGE else f (take (n - length w - length u) s))"
      using assms(2) unfolding decodes_def by blast
    finally show ?thesis using False by (simp only: length_append diff_diff_left) (simp only: less_diff_conv2 not_less add.commute)
  qed
qed

lemma decodes_must_last: "reads_off rd w v \<Longrightarrow> k v = f \<Longrightarrow> decodes (must rd k) w f"
  using decodes_must[of rd w v k "[]" f] by (simp add: decodes_def)

lemma may_read: "reads_off rd w v \<Longrightarrow> k (f v) u = x \<Longrightarrow> may rd f d k (w @ u) = x"
  by (simp add: may_def reads_off_def)

lemma may_read_last: "reads_off rd w v \<Longrightarrow> k (f v) [] = x \<Longrightarrow> may rd f d k w = x"
  using may_read[of rd w v k f "[]" x d] by simp

lemma may_any: "(\<And>v s. \<exists>y. k v s = Inr y \<and> P y) \<Longrightarrow> \<exists>y. may rd f d k s = Inr y \<and> P y"
  by (simp add: may_def split: prod.split option.split)

lemma codes_of [simp]:
  "decision_type_of (decision_type_code dt) = dt" "risk_of (risk_code rr) = rr" "order_type_of (order_type_code ot) = ot"
  "time_in_force_of (time_in_force_code tif) = tif" "buy_sell_of (buy_sell_code bs) = bs" "inference_type_of (inference_type_code it) = it"
  by (cases dt; simp add: decision_type_of_def) (cases rr; simp add: risk_of_def; fail | cases ot; simp add: order_type_of_def; fail
    | cases tif; simp add: time_in_force_of_def; fail | cases bs; simp add: buy_sell_of_def; fail | cases it; simp add: inference_type_of_def; fail)+

section \<open>Decision records\<close>

definition decision_fits :: "decision_record \<Rightarrow> bool" where
  "decision_fits r \<longleftrightarrow> length (dr_input_features r) < 2 ^ 32
     \<and> list_all text_short [dr_model_version r, dr_order_id r, dr_symbol r, dr_venue r, dr_notes r, dr_isin r, dr_currency r, dr_parent_order_id r]"

text \<open>A record without what MiFID II added, and one with it.\<close>

definition without_mifid :: "decision_record \<Rightarrow> decision_record" where
  "without_mifid r = r\<lparr>dr_buy_sell := BUY, dr_order_type := MARKET, dr_time_in_force := DAY, dr_isin := [], dr_currency := [],
     dr_short_selling_flag := False, dr_aggregated_order := False, dr_validity_period_ns := 0, dr_parent_order_id := []\<rparr>"

lemma decision_fields:
  "decision_fits r \<Longrightarrow> length (dr_input_features r) < 2 ^ 32"
  "decision_fits r \<Longrightarrow> text_short (dr_model_version r)" "decision_fits r \<Longrightarrow> text_short (dr_order_id r)"
  "decision_fits r \<Longrightarrow> text_short (dr_symbol r)" "decision_fits r \<Longrightarrow> text_short (dr_venue r)"
  "decision_fits r \<Longrightarrow> text_short (dr_notes r)" "decision_fits r \<Longrightarrow> text_short (dr_isin r)"
  "decision_fits r \<Longrightarrow> text_short (dr_currency r)" "decision_fits r \<Longrightarrow> text_short (dr_parent_order_id r)"
  by (simp_all add: decision_fits_def)

lemma decodes_core:
  assumes "decision_fits r"
  shows "decodes deserialize_decision (serialize_decision_core r)
    (\<lambda>s. if s \<noteq> [] then deserialize_mifid (without_mifid r) s else Inr (without_mifid r))"
  unfolding deserialize_decision_def serialize_decision_core_def
  by (rule decodes_must decodes_must_last field_reads decision_fields[OF assms])+ (cases r, simp add: without_mifid_def default_DecisionRecord_def Let_def cong: if_cong)

lemma deserialize_mifid_full:
  assumes "decision_fits r"
  shows "deserialize_mifid (without_mifid r) (serialize_decision_mifid r) = Inr r"
  unfolding deserialize_mifid_def serialize_decision_mifid_def
  by (rule may_read may_read_last field_reads decision_fields[OF assms])+ (simp add: without_mifid_def)

lemma deserialize_mifid_any: "\<exists>r'. deserialize_mifid r s = Inr r' \<and> without_mifid r' = without_mifid r"
  unfolding deserialize_mifid_def by (rule may_any)+ (simp add: without_mifid_def)

lemma mifid_not_empty: "serialize_decision_mifid r \<noteq> []"
  by (simp add: serialize_decision_mifid_def le32_def)

lemma decision_prefix:
  assumes "decision_fits r"
  shows "deserialize_decision (take n (serialize_decision r)) = (if n < length (serialize_decision_core r) then Inl CORRUPT_PAGE
    else let s = take (n - length (serialize_decision_core r)) (serialize_decision_mifid r) in
      if s \<noteq> [] then deserialize_mifid (without_mifid r) s else Inr (without_mifid r))"
  using decodes_core[OF assms] unfolding decodes_def serialize_decision_def Let_def by blast

lemma decision_decoded: "decision_fits r \<Longrightarrow> deserialize_decision (serialize_decision r) = Inr r"
  using decision_prefix[of r "length (serialize_decision r)"] deserialize_mifid_full mifid_not_empty by (simp add: serialize_decision_def)

lemma serialize_decision_inj: "decision_fits r \<Longrightarrow> decision_fits r' \<Longrightarrow> serialize_decision r = serialize_decision r' \<Longrightarrow> r = r'"
  using decision_decoded by (metis sum.inject(2))

lemma mifid_or_not: "\<exists>r'. (if s \<noteq> [] then deserialize_mifid (without_mifid r) s else Inr (without_mifid r)) = Inr r' \<and> without_mifid r' = without_mifid r"
  using deserialize_mifid_any[of "without_mifid r" s] by (cases s) (simp_all add: without_mifid_def)

text \<open>
  Property C21: \<^verbatim>\<open>DecisionRecord::deserialize\<close> reads back what \<^verbatim>\<open>serialize\<close> wrote.  It refuses a record cut before
  the MiFID II fields; a record cut later it returns with all fields before them, whatever was lost of the rest.
\<close>
theorem decision_record_roundtrip:
  assumes "decision_fits r"
  shows "deserialize_decision (serialize_decision r) = Inr r \<and>
    (if n < length (serialize_decision_core r) then deserialize_decision (take n (serialize_decision r)) = Inl CORRUPT_PAGE
     else \<exists>r'. deserialize_decision (take n (serialize_decision r)) = Inr r' \<and> without_mifid r' = without_mifid r)"
  using decision_prefix[OF assms, of n] decision_decoded[OF assms] mifid_or_not
  by (cases "n < length (serialize_decision_core r)") (simp_all only: if_True if_False simp_thms Let_def)

definition sample_decision :: decision_record where
  "sample_decision = default_DecisionRecord\<lparr>dr_symbol := [66, 84, 67], dr_input_features := [0x3F800000], dr_buy_sell := SELL, dr_isin := [85, 83]\<rparr>"

theorem decision_record_roundtrip_witness:
  "deserialize_decision (serialize_decision sample_decision) = Inr sample_decision
   \<and> deserialize_decision (take 50 (serialize_decision sample_decision)) = Inl CORRUPT_PAGE"
  using decision_record_roundtrip[of sample_decision 50]
  by (simp add: sample_decision_def default_DecisionRecord_def decision_fits_def text_short_def MAX_STRING_LEN_def serialize_decision_core_def
      le_string_def le_floats_def)

section \<open>Inference records\<close>

definition inference_fits :: "inference_record \<Rightarrow> bool" where
  "inference_fits r \<longleftrightarrow> length (ir_input_embedding r) < 2 ^ 32
     \<and> list_all text_short [ir_model_id r, ir_model_version r, ir_input_hash r, ir_output_hash r, ir_user_id_hash r, ir_session_id r,
         ir_metadata_json r, ir_training_dataset_id r, ir_training_data_characteristics r, ir_model_retraining_schedule r]"

lemma inference_fields:
  "inference_fits r \<Longrightarrow> length (ir_input_embedding r) < 2 ^ 32"
  "inference_fits r \<Longrightarrow> text_short (ir_model_id r)" "inference_fits r \<Longrightarrow> text_short (ir_model_version r)"
  "inference_fits r \<Longrightarrow> text_short (ir_input_hash r)" "inference_fits r \<Longrightarrow> text_short (ir_output_hash r)"
  "inference_fits r \<Longrightarrow> text_short (ir_user_id_hash r)" "inference_fits r \<Longrightarrow> text_short (ir_session_id r)"
  "inference_fits r \<Longrightarrow> text_short (ir_metadata_json r)" "inference_fits r \<Longrightarrow> text_short (ir_training_dataset_id r)"
  "inference_fits r \<Longrightarrow> text_short (ir_training_data_characteristics r)" "inference_fits r \<Longrightarrow> text_short (ir_model_retraining_schedule r)"
  by (simp_all add: inference_fits_def)

text \<open>A record without the last, and without the last two groups of fields.\<close>

definition without_training :: "inference_record \<Rightarrow> inference_record" where
  "without_training r = r\<lparr>ir_model_training_end_ns := 0, ir_model_training_data_cutoff_ns := 0, ir_model_retraining_schedule := []\<rparr>"

definition without_provenance :: "inference_record \<Rightarrow> inference_record" where
  "without_provenance r = (without_training r)\<lparr>ir_training_dataset_id := [], ir_training_dataset_size := 0, ir_training_data_characteristics := []\<rparr>"

lemma decodes_inference_core:
  assumes "inference_fits r"
  shows "decodes deserialize_inference (serialize_inference_core r) (deserialize_provenance (without_provenance r))"
  unfolding deserialize_inference_def serialize_inference_core_def
  by (rule decodes_must decodes_must_last field_reads inference_fields[OF assms])+
    (cases r, simp add: without_provenance_def without_training_def default_InferenceRecord_def)

text \<open>A group that may be missing as a whole.\<close>

lemma optional_take:
  assumes "decodes d w f" "w \<noteq> []" "\<And>s. g s = (if s = [] then f' s else d s)"
  shows "g (take n (w @ s)) = (if n = 0 then f' [] else if n < length w then Inl CORRUPT_PAGE else f (take (n - length w) s))"
  using assms unfolding decodes_def by (cases "n = 0") simp_all

lemma provenance_take:
  assumes "inference_fits r"
  shows "deserialize_provenance (without_provenance r) (take n (serialize_provenance r @ s)) =
    (if n = 0 then Inr (without_provenance r) else if n < length (serialize_provenance r) then Inl CORRUPT_PAGE
     else deserialize_training (without_training r) (take (n - length (serialize_provenance r)) s))"
proof -
  have "decodes (must take_string (\<lambda>dataset. must take_le64 (\<lambda>n. must take_string (\<lambda>characteristics.
        deserialize_training ((without_provenance r)\<lparr>ir_training_dataset_id := dataset, ir_training_dataset_size := n,
          ir_training_data_characteristics := characteristics\<rparr>))))) (serialize_provenance r) (deserialize_training (without_training r))"
    unfolding serialize_provenance_def
    by (rule decodes_must decodes_must_last field_reads inference_fields[OF assms])+ (cases r, simp add: without_provenance_def without_training_def)
  moreover have "serialize_provenance r \<noteq> []" by (simp add: serialize_provenance_def le64_def)
  ultimately show ?thesis
    using optional_take[where f' = "\<lambda>s. deserialize_training (without_provenance r) s" and g = "deserialize_provenance (without_provenance r)"]
    by (simp add: deserialize_provenance_def deserialize_training_def)
qed

lemma training_take:
  assumes "inference_fits r"
  shows "deserialize_training (without_training r) (take n (serialize_training r)) =
    (if n = 0 then Inr (without_training r) else if n < length (serialize_training r) then Inl CORRUPT_PAGE else Inr r)"
proof -
  have "decodes (must take_le64 (\<lambda>end_ns. must take_le64 (\<lambda>cutoff. must take_string (\<lambda>schedule _.
        Inr ((without_training r)\<lparr>ir_model_training_end_ns := end_ns, ir_model_training_data_cutoff_ns := cutoff,
          ir_model_retraining_schedule := schedule\<rparr>))))) (serialize_training r) (\<lambda>_. Inr r)"
    unfolding serialize_training_def
    by (rule decodes_must decodes_must_last field_reads inference_fields[OF assms])+ (cases r, simp add: without_training_def)
  moreover have "serialize_training r \<noteq> []" by (simp add: serialize_training_def le64_def)
  ultimately show ?thesis
    using optional_take[where f' = "\<lambda>s. Inr (without_training r)" and g = "deserialize_training (without_training r)" and s = "[]"]
    by (simp add: deserialize_training_def)
qed

lemma between_groups:
  fixes a b c n :: nat
  assumes "b > 0" "c > 0"
  shows "(if n < a then e else if n - a = 0 then x else if n - a < b then e else if n - a - b = 0 then y else if n - a - b < c then e else z)
    = (let core = a; provenance = core + b in if n = core then x else if n = provenance then y else if n < provenance + c then e else z)"
  using assms unfolding Let_def by (auto simp: not_less)

text \<open>
  Property C22: \<^verbatim>\<open>InferenceRecord::deserialize\<close> reads back what \<^verbatim>\<open>serialize\<close> wrote, and refuses it when it is cut
  anywhere but between the groups of fields that the versions of the format added.
\<close>
theorem inference_record_roundtrip:
  assumes "inference_fits r"
  shows "deserialize_inference (take n (serialize_inference r)) =
    (let core = length (serialize_inference_core r); provenance = core + length (serialize_provenance r) in
     if n = core then Inr (without_provenance r)
     else if n = provenance then Inr (without_training r)
     else if n < length (serialize_inference r) then Inl CORRUPT_PAGE
     else Inr r)"
proof -
  let ?k = "n - length (serialize_inference_core r)"
  have len: "length (serialize_inference r) = length (serialize_inference_core r) + length (serialize_provenance r) + length (serialize_training r)"
    by (simp add: serialize_inference_def)
  have "deserialize_inference (take n (serialize_inference r)) = (if n < length (serialize_inference_core r) then Inl CORRUPT_PAGE
      else deserialize_provenance (without_provenance r) (take ?k (serialize_provenance r @ serialize_training r)))"
    using decodes_inference_core[OF assms] unfolding decodes_def serialize_inference_def by blast
  also have "\<dots> = (let core = length (serialize_inference_core r); provenance = core + length (serialize_provenance r) in
      if n = core then Inr (without_provenance r) else if n = provenance then Inr (without_training r)
      else if n < provenance + length (serialize_training r) then Inl CORRUPT_PAGE else Inr r)"
    unfolding provenance_take[OF assms] training_take[OF assms] by (rule between_groups) (simp_all add: serialize_provenance_def serialize_training_def)
  finally show ?thesis by (simp only: Let_def len)
qed

definition sample_inference :: inference_record where
  "sample_inference = default_InferenceRecord\<lparr>ir_model_id := [103, 112, 116], ir_input_embedding := [0x3F800000], ir_training_dataset_size := 7\<rparr>"

theorem inference_record_roundtrip_witness:
  "deserialize_inference (take 40 (serialize_inference sample_inference)) = Inl CORRUPT_PAGE
   \<and> deserialize_inference (take 200 (serialize_inference sample_inference)) = Inr sample_inference"
  using inference_record_roundtrip[of sample_inference 40] inference_record_roundtrip[of sample_inference 200]
  by (simp add: sample_inference_def default_InferenceRecord_def inference_fits_def text_short_def MAX_STRING_LEN_def serialize_inference_def
      serialize_inference_core_def serialize_provenance_def serialize_training_def le_string_def le_floats_def)

end
