(* ===== verification/AuditLog.thy ===== *)
theory AuditLog
  imports LogRecord AuditChain FileSafety
begin

text \<open>
  The writers and readers of the decision log (\<^verbatim>\<open>include/signet/ai/decision_log.hpp\<close>) and of the inference log
  (\<^verbatim>\<open>include/signet/ai/inference_log.hpp\<close>), with the row lineage of \<^verbatim>\<open>include/signet/ai/row_lineage.hpp\<close>.  The two
  headers differ in the record, the schema and the names, which a \<open>log_kind\<close> holds; their code is otherwise the same.
\<close>

section \<open>Row lineage\<close>

record lineage_tracker =
  lt_origin_file :: string
  lt_version :: int
  lt_next_row_id :: int
  lt_prev_hash_hex :: string

record row_lineage =
  rl_row_id :: int
  rl_row_version :: int
  rl_row_origin_file :: string
  rl_row_prev_hash :: string

definition lineage_new :: "string \<Rightarrow> int \<Rightarrow> lineage_tracker" where
  "lineage_new origin version = \<lparr>lt_origin_file = origin, lt_version = version, lt_next_row_id = 0, lt_prev_hash_hex = replicate 64 (CHR ''0'')\<rparr>"

definition lineage_next :: "lineage_tracker \<Rightarrow> bytes \<Rightarrow> row_lineage \<times> lineage_tracker" where
  "lineage_next t row_data =
     (\<lparr>rl_row_id = lt_next_row_id t, rl_row_version = lt_version t, rl_row_origin_file = lt_origin_file t, rl_row_prev_hash = lt_prev_hash_hex t\<rparr>,
      t\<lparr>lt_next_row_id := lt_next_row_id t + 1, lt_prev_hash_hex := hash_to_hex (sha256 (text_of (lt_prev_hash_hex t) @ row_data))\<rparr>)"

definition lineage_reset :: "string \<Rightarrow> int \<Rightarrow> lineage_tracker \<Rightarrow> lineage_tracker" where
  "lineage_reset origin version t = t\<lparr>lt_origin_file := origin, lt_version := version\<rparr>"

section \<open>Values as text\<close>

text \<open>
  The floating-point conversions of the standard library: between \<^verbatim>\<open>float\<close> and \<^verbatim>\<open>double\<close>, the formats \<^verbatim>\<open>%.17g\<close> of a
  \<^verbatim>\<open>double\<close> and \<^verbatim>\<open>%.8g\<close> of a \<^verbatim>\<open>float\<close>, and \<^verbatim>\<open>std::stof\<close> (\<open>None\<close> when it throws).
\<close>

record text_environment =
  tx_widen :: "u32 \<Rightarrow> u64"
  tx_narrow :: "u64 \<Rightarrow> u32"
  tx_g17 :: "u64 \<Rightarrow> bytes"
  tx_g8 :: "u32 \<Rightarrow> bytes"
  tx_stof :: "bytes \<Rightarrow> u32 option"

definition int_text :: "int \<Rightarrow> bytes" where "int_text i = text_of (int_to_string i)"

definition string_of :: "bytes \<Rightarrow> string" where "string_of bs = map (\<lambda>b. char_of (unat b)) bs"

fun join_commas :: "bytes list \<Rightarrow> bytes" where
  "join_commas [] = []"
| "join_commas [s] = s"
| "join_commas (s # t # ts) = s @ 44 # join_commas (t # ts)"

definition features_to_json :: "text_environment \<Rightarrow> u32 list \<Rightarrow> bytes" where
  "features_to_json te fs = (if fs = [] then [91, 93] else 91 # join_commas (map (tx_g8 te) fs) @ [93])"

definition MAX_JSON_ARRAY_ELEMENTS :: nat where "MAX_JSON_ARRAY_ELEMENTS = 1000000"

definition json_blank :: "u8 \<Rightarrow> bool" where "json_blank b \<longleftrightarrow> b = 32 \<or> b = 9"

text \<open>The loop over what is left before the last bracket; \<open>n\<close> numbers have been found.\<close>

function json_loop :: "text_environment \<Rightarrow> nat \<Rightarrow> bytes \<Rightarrow> u32 list" where
  "json_loop te n s =
     (if s = [] \<or> n \<ge> MAX_JSON_ARRAY_ELEMENTS then []
      else let s1 = dropWhile json_blank s in
        if s1 = [] then []
        else let num = rev (dropWhile json_blank (rev (takeWhile (\<lambda>b. b \<noteq> 44) s1)));
                 rest = tl (dropWhile (\<lambda>b. b \<noteq> 44) s1)
             in case (if num = [] then None else tx_stof te num) of
                  None \<Rightarrow> json_loop te n rest
                | Some v \<Rightarrow> v # json_loop te (Suc n) rest)"
  by pat_completeness auto

lemma length_json_rest: "s \<noteq> [] \<Longrightarrow> length (dropWhile P (dropWhile Q s)) - Suc 0 < length s"
  using length_dropWhile_le[of Q s] length_dropWhile_le[of P "dropWhile Q s"] length_greater_0_conv[of s] by linarith

termination json_loop
  by (relation "measure (\<lambda>(te, n, s). length s)") (auto intro: length_json_rest)

declare json_loop.simps [simp del]

definition json_to_features :: "text_environment \<Rightarrow> bytes \<Rightarrow> u32 list" where
  "json_to_features te json =
     (if length json < 2 \<or> hd json \<noteq> 91 \<or> last json \<noteq> 93 then [] else json_loop te 0 (butlast (tl json)))"

section \<open>The two logs\<close>

text \<open>
  The names, the columns of the record with their types, its bytes, its timestamp, the texts of its columns, and the
  record that a reader makes of a row.
\<close>

record 'r log_kind =
  lk_name :: string
  lk_created_by :: string
  lk_record_type :: string
  lk_columns :: "(string \<times> ctype \<times> u32) list"
  lk_serialize :: "'r \<Rightarrow> bytes"
  lk_timestamp :: "'r \<Rightarrow> u64"
  lk_cells :: "'r \<Rightarrow> bytes list"
  lk_restore :: "cvalue list \<Rightarrow> 'r"

definition LOGICAL_TIMESTAMP_NS :: u32 where "LOGICAL_TIMESTAMP_NS = 10"

definition chain_columns :: "(string \<times> ctype \<times> u32) list" where
  "chain_columns = [(''chain_seq'', CInt64, LOGICAL_NONE), (''chain_hash'', CString, LOGICAL_NONE), (''prev_hash'', CString, LOGICAL_NONE)]"

definition lineage_columns :: "(string \<times> ctype \<times> u32) list" where
  "lineage_columns = [(''row_id'', CInt64, LOGICAL_NONE), (''row_version'', CInt32, LOGICAL_NONE),
     (''row_origin_file'', CString, LOGICAL_NONE), (''row_prev_hash'', CString, LOGICAL_NONE)]"

definition all_columns :: "'r log_kind \<Rightarrow> (string \<times> ctype \<times> u32) list" where
  "all_columns k = lk_columns k @ chain_columns @ lineage_columns"

definition log_schema :: "'r log_kind \<Rightarrow> schema" where
  "log_schema k = schema_build (text_of (lk_name k)) (map (\<lambda>(name, t, lt). to_descriptor t (text_of name) lt) (all_columns k))"

definition column_types :: "'r log_kind \<Rightarrow> ctype list" where
  "column_types k = map (\<lambda>(name, t, lt). t) (all_columns k)"

text \<open>The values of the row that \<^verbatim>\<open>read_column\<close> delivered with the type of the column.\<close>

fun as_int32 :: "cvalue \<Rightarrow> u32" where "as_int32 (VInt32 v) = v" | "as_int32 _ = 0"
fun as_int64 :: "cvalue \<Rightarrow> u64" where "as_int64 (VInt64 v) = v" | "as_int64 _ = 0"
fun as_double :: "cvalue \<Rightarrow> u64" where "as_double (VDouble v) = v" | "as_double _ = 0"
fun as_string :: "cvalue \<Rightarrow> bytes" where "as_string (VString s) = s" | "as_string _ = []"

definition decision_columns :: "(string \<times> ctype \<times> u32) list" where
  "decision_columns = [(''timestamp_ns'', CInt64, LOGICAL_TIMESTAMP_NS), (''strategy_id'', CInt32, LOGICAL_NONE),
     (''model_version'', CString, LOGICAL_NONE), (''decision_type'', CInt32, LOGICAL_NONE), (''input_features'', CString, LOGICAL_NONE),
     (''model_output'', CDouble, LOGICAL_NONE), (''confidence'', CDouble, LOGICAL_NONE), (''risk_result'', CInt32, LOGICAL_NONE),
     (''order_id'', CString, LOGICAL_NONE), (''symbol'', CString, LOGICAL_NONE), (''price'', CDouble, LOGICAL_NONE),
     (''quantity'', CDouble, LOGICAL_NONE), (''venue'', CString, LOGICAL_NONE), (''notes'', CString, LOGICAL_NONE)]"

definition decision_cells :: "text_environment \<Rightarrow> decision_record \<Rightarrow> bytes list" where
  "decision_cells te r =
     [int_text (sint (dr_timestamp_ns r)), int_text (sint (dr_strategy_id r)), dr_model_version r,
      int_text (sint (decision_type_code (dr_decision_type r))), features_to_json te (dr_input_features r),
      tx_g17 te (tx_widen te (dr_model_output r)), tx_g17 te (tx_widen te (dr_confidence r)), int_text (sint (risk_code (dr_risk_result r))),
      dr_order_id r, dr_symbol r, tx_g17 te (dr_price r), tx_g17 te (dr_quantity r), dr_venue r, dr_notes r]"

definition decision_of_row :: "text_environment \<Rightarrow> cvalue list \<Rightarrow> decision_record" where
  "decision_of_row te row = default_DecisionRecord\<lparr>dr_timestamp_ns := as_int64 (row ! 0), dr_strategy_id := as_int32 (row ! 1),
     dr_model_version := as_string (row ! 2), dr_decision_type := decision_type_of (as_int32 (row ! 3)),
     dr_input_features := json_to_features te (as_string (row ! 4)), dr_model_output := tx_narrow te (as_double (row ! 5)),
     dr_confidence := tx_narrow te (as_double (row ! 6)), dr_risk_result := risk_of (as_int32 (row ! 7)), dr_order_id := as_string (row ! 8),
     dr_symbol := as_string (row ! 9), dr_price := as_double (row ! 10), dr_quantity := as_double (row ! 11),
     dr_venue := as_string (row ! 12), dr_notes := as_string (row ! 13)\<rparr>"

definition decision_kind :: "text_environment \<Rightarrow> decision_record log_kind" where
  "decision_kind te = \<lparr>lk_name = ''decision_log'', lk_created_by = ''SignetStack signet-forge decision_log v1.0'', lk_record_type = ''decision'',
     lk_columns = decision_columns, lk_serialize = serialize_decision, lk_timestamp = dr_timestamp_ns, lk_cells = decision_cells te,
     lk_restore = decision_of_row te\<rparr>"

definition inference_columns :: "(string \<times> ctype \<times> u32) list" where
  "inference_columns = [(''timestamp_ns'', CInt64, LOGICAL_TIMESTAMP_NS), (''model_id'', CString, LOGICAL_NONE),
     (''model_version'', CString, LOGICAL_NONE), (''inference_type'', CInt32, LOGICAL_NONE), (''input_embedding'', CString, LOGICAL_NONE),
     (''input_hash'', CString, LOGICAL_NONE), (''output_hash'', CString, LOGICAL_NONE), (''output_score'', CDouble, LOGICAL_NONE),
     (''latency_ns'', CInt64, LOGICAL_NONE), (''batch_size'', CInt32, LOGICAL_NONE), (''input_tokens'', CInt32, LOGICAL_NONE),
     (''output_tokens'', CInt32, LOGICAL_NONE), (''user_id_hash'', CString, LOGICAL_NONE), (''session_id'', CString, LOGICAL_NONE),
     (''metadata_json'', CString, LOGICAL_NONE)]"

definition inference_cells :: "text_environment \<Rightarrow> inference_record \<Rightarrow> bytes list" where
  "inference_cells te r =
     [int_text (sint (ir_timestamp_ns r)), ir_model_id r, ir_model_version r, int_text (sint (inference_type_code (ir_inference_type r))),
      features_to_json te (ir_input_embedding r), ir_input_hash r, ir_output_hash r, tx_g17 te (tx_widen te (ir_output_score r)),
      int_text (sint (ir_latency_ns r)), int_text (sint (ir_batch_size r)), int_text (sint (ir_input_tokens r)),
      int_text (sint (ir_output_tokens r)), ir_user_id_hash r, ir_session_id r, ir_metadata_json r]"

definition inference_of_row :: "text_environment \<Rightarrow> cvalue list \<Rightarrow> inference_record" where
  "inference_of_row te row = default_InferenceRecord\<lparr>ir_timestamp_ns := as_int64 (row ! 0), ir_model_id := as_string (row ! 1),
     ir_model_version := as_string (row ! 2), ir_inference_type := inference_type_of (as_int32 (row ! 3)),
     ir_input_embedding := json_to_features te (as_string (row ! 4)), ir_input_hash := as_string (row ! 5),
     ir_output_hash := as_string (row ! 6), ir_output_score := tx_narrow te (as_double (row ! 7)), ir_latency_ns := as_int64 (row ! 8),
     ir_batch_size := as_int32 (row ! 9), ir_input_tokens := as_int32 (row ! 10), ir_output_tokens := as_int32 (row ! 11),
     ir_user_id_hash := as_string (row ! 12), ir_session_id := as_string (row ! 13), ir_metadata_json := as_string (row ! 14)\<rparr>"

definition inference_kind :: "text_environment \<Rightarrow> inference_record log_kind" where
  "inference_kind te = \<lparr>lk_name = ''inference_log'', lk_created_by = ''SignetStack signet-forge inference_log v1.0'', lk_record_type = ''inference'',
     lk_columns = inference_columns, lk_serialize = serialize_inference, lk_timestamp = ir_timestamp_ns, lk_cells = inference_cells te,
     lk_restore = inference_of_row te\<rparr>"

section \<open>The writer\<close>

text \<open>The last three fields are not members: the last value of \<^verbatim>\<open>now_ns\<close>, which the process shares, and the files.\<close>

record 'r log_writer =
  lw_output_dir :: string
  lw_chain_id :: string
  lw_max_records :: nat
  lw_chain :: chain_writer
  lw_records :: "'r list"
  lw_entries :: "chain_entry list"
  lw_data :: "bytes list"
  lw_lineage :: lineage_tracker
  lw_file_path :: string
  lw_total_records :: int
  lw_file_count :: int
  lw_last_ns :: int
  lw_disk :: "string \<rightharpoonup> bytes"

text \<open>The pieces of a path between slashes and backslashes.\<close>

fun path_segments :: "string \<Rightarrow> string \<Rightarrow> string list" where
  "path_segments acc [] = [acc]"
| "path_segments acc (c # s) = (if c = CHR ''/'' \<or> c = CHR 0x5C then acc # path_segments [] s else path_segments (acc @ [c]) s)"

definition alphanumeric :: "char \<Rightarrow> bool" where
  "alphanumeric c = (let n = of_char c :: nat in 48 \<le> n \<and> n \<le> 57 \<or> 65 \<le> n \<and> n \<le> 90 \<or> 97 \<le> n \<and> n \<le> 122)"

text \<open>
  The constructor; \<open>None\<close> is an exception.  The licence gate answers \<open>licence\<close>; a chain without a name takes one from the clock.
\<close>

definition log_writer_new :: "bool \<Rightarrow> int \<Rightarrow> int \<Rightarrow> (string \<rightharpoonup> bytes) \<Rightarrow> string \<Rightarrow> string \<Rightarrow> nat \<Rightarrow> 'r log_writer option" where
  "log_writer_new licence last_ns clock disk dir chain_id max_records =
     (let (ts, last) = (if chain_id = [] then now_ns last_ns clock else (0, last_ns));
          chain = (if chain_id = [] then generate_chain_id ts else chain_id)
      in if \<not> licence then None
         else if dir = [] \<or> ''..'' \<in> set (path_segments [] dir) then None
         else if list_ex (\<lambda>c. \<not> (alphanumeric c \<or> c = CHR ''_'' \<or> c = CHR ''-'')) chain then None
         else Some \<lparr>lw_output_dir = dir, lw_chain_id = chain, lw_max_records = max_records, lw_chain = chain_writer_new, lw_records = [],
           lw_entries = [], lw_data = [], lw_lineage = lineage_new chain 1, lw_file_path = [], lw_total_records = 0, lw_file_count = 0,
           lw_last_ns = last, lw_disk = disk\<rparr>)"

definition log_path :: "'r log_kind \<Rightarrow> string \<Rightarrow> string \<Rightarrow> int \<Rightarrow> int \<Rightarrow> string" where
  "log_path k dir chain_id start_seq end_seq =
     dir @ ''/'' @ lk_name k @ ''_'' @ chain_id @ ''_'' @ int_to_string start_seq @ ''_'' @ int_to_string end_seq @ ''.parquet''"

definition current_metadata :: "'r log_kind \<Rightarrow> 'r log_writer \<Rightarrow> audit_metadata" where
  "current_metadata k w =
     (let m = default_metadata\<lparr>am_chain_id := lw_chain_id w\<rparr>;
          m1 = (if lw_entries w \<noteq> [] then
                  m\<lparr>am_start_sequence := he_sequence_number (hd (lw_entries w)), am_end_sequence := he_sequence_number (last (lw_entries w)),
                    am_first_hash := hash_to_hex (he_entry_hash (hd (lw_entries w))), am_last_hash := hash_to_hex (he_entry_hash (last (lw_entries w))),
                    am_prev_file_hash := hash_to_hex (he_prev_hash (hd (lw_entries w)))\<rparr>
                else if cw_entries (lw_chain w) \<noteq> [] then
                  (let e = last (cw_entries (lw_chain w)) in
                   m\<lparr>am_start_sequence := he_sequence_number e, am_end_sequence := he_sequence_number e,
                     am_first_hash := hash_to_hex (he_entry_hash e), am_last_hash := hash_to_hex (he_entry_hash e)\<rparr>)
                else m)
      in m1\<lparr>am_record_count := int (length (lw_entries w)), am_record_type := lk_record_type k\<rparr>)"

definition log_options :: "'r log_kind \<Rightarrow> audit_metadata \<Rightarrow> writer_options" where
  "log_options k m = (default_options (text_of (lk_created_by k)))\<lparr>wo_file_metadata :=
     map (\<lambda>(key, v). \<lparr>kv_key = text_of key, kv_value = Some (text_of v)\<rparr>) (to_key_values m)\<rparr>"

text \<open>The cells of a row: the record, its place in the chain, its lineage.\<close>

definition log_row :: "'r log_kind \<Rightarrow> 'r \<Rightarrow> chain_entry \<Rightarrow> row_lineage \<Rightarrow> bytes list" where
  "log_row k r e l = lk_cells k r
     @ [int_text (he_sequence_number e), text_of (hash_to_hex (he_entry_hash e)), text_of (hash_to_hex (he_prev_hash e))]
     @ [int_text (rl_row_id l), int_text (rl_row_version l), text_of (rl_row_origin_file l), text_of (rl_row_prev_hash l)]"

text \<open>The loop of \<^verbatim>\<open>flush\<close>: every row takes its lineage before it is written.\<close>

fun write_log_rows :: "'r log_kind \<Rightarrow> environment \<Rightarrow> ('r \<times> chain_entry \<times> bytes) list \<Rightarrow> parquet_writer \<Rightarrow> lineage_tracker
    \<Rightarrow> (unit outcome \<times> parquet_writer) \<times> lineage_tracker" where
  "write_log_rows k env [] w t = (ret () w, t)"
| "write_log_rows k env ((r, e, d) # rest) w t =
     (let (l, t1) = lineage_next t d in
      case write_row env (log_row k r e l) w of
        (Returned _, w1) \<Rightarrow> write_log_rows k env rest w1 t1
      | (o1, w1) \<Rightarrow> ((o1, w1), t1))"

text \<open>Leaving \<^verbatim>\<open>flush\<close> before the file is closed destroys the file's writer, which closes it.\<close>

definition abandon_file :: "environment \<Rightarrow> string \<Rightarrow> unit outcome \<times> parquet_writer \<Rightarrow> 'r log_writer \<Rightarrow> unit outcome \<times> 'r log_writer" where
  "abandon_file env path r s =
     (case writer_destroy env (snd r) of (o1, w1) \<Rightarrow>
        (if o1 = Thrown then Thrown else fst r, s\<lparr>lw_disk := (lw_disk s)(path \<mapsto> on_disk w1)\<rparr>))"

text \<open>
  \<open>opened\<close> and \<open>room\<close> are what the file system answers.  A flush that returns forgets its records although its stream may
  have lost bytes when it was flushed and closed: the file is what the disk kept.
\<close>

definition flush_log :: "'r log_kind \<Rightarrow> environment \<Rightarrow> bool \<Rightarrow> disk \<Rightarrow> (unit, 'r log_writer) step" where
  "flush_log k env opened room s =
     (if lw_records s = [] then ret () s
      else let path = log_path k (lw_output_dir s) (lw_chain_id s) (he_sequence_number (hd (lw_entries s))) (he_sequence_number (last (lw_entries s)));
               s1 = s\<lparr>lw_file_path := path\<rparr>
           in case writer_open opened room (log_schema k) (log_options k (current_metadata k s)) of
                (Failed e, w) \<Rightarrow> (Failed e, s1)
              | (Thrown, w) \<Rightarrow> (Thrown, s1\<lparr>lw_disk := (lw_disk s1)(path \<mapsto> on_disk w)\<rparr>)
              | (Returned _, w) \<Rightarrow>
                  (case write_log_rows k env (zip (lw_records s) (zip (lw_entries s) (lw_data s))) w (lw_lineage s) of
                     ((Returned _, w1), t) \<Rightarrow>
                       (case writer_close env w1 of
                          (Returned stats, w2) \<Rightarrow>
                            ret () (s1\<lparr>lw_lineage := t, lw_disk := (lw_disk s1)(path \<mapsto> on_disk w2), lw_records := [], lw_entries := [], lw_data := [],
                              lw_file_count := lw_file_count s1 + 1\<rparr>)
                        | (Failed e, w2) \<Rightarrow> abandon_file env path (Failed e, w2) (s1\<lparr>lw_lineage := t\<rparr>)
                        | (Thrown, w2) \<Rightarrow> abandon_file env path (Thrown, w2) (s1\<lparr>lw_lineage := t\<rparr>))
                   | (r, t) \<Rightarrow> abandon_file env path r (s1\<lparr>lw_lineage := t\<rparr>)))"

text \<open>\<open>usage\<close> is what the licence gate answers, \<open>clock\<close> the system clock.\<close>

definition log_record :: "'r log_kind \<Rightarrow> environment \<Rightarrow> unit expected \<Rightarrow> int \<Rightarrow> bool \<Rightarrow> disk \<Rightarrow> 'r \<Rightarrow> (chain_entry, 'r log_writer) step" where
  "log_record k env usage clock opened room r s =
     (case usage of Inl e \<Rightarrow> (Failed e, s) | Inr _ \<Rightarrow>
        let data = lk_serialize k r;
            (ts, last_ns) = (if lk_timestamp k r = 0 then now_ns (lw_last_ns s) clock else (sint (lk_timestamp k r), lw_last_ns s));
            (entry, chain) = chain_append (lw_chain s) data ts;
            s1 = s\<lparr>lw_last_ns := last_ns, lw_chain := chain, lw_records := lw_records s @ [r], lw_entries := lw_entries s @ [entry],
                   lw_data := lw_data s @ [data]\<rparr>
        in after (if length (lw_records s1) \<ge> lw_max_records s1 then flush_log k env opened room s1 else ret () s1) (\<lambda>_ s2.
             ret entry (s2\<lparr>lw_total_records := lw_total_records s2 + 1\<rparr>)))"

definition close_log :: "'r log_kind \<Rightarrow> environment \<Rightarrow> bool \<Rightarrow> disk \<Rightarrow> (unit, 'r log_writer) step" where
  "close_log k env opened room s = (if lw_records s \<noteq> [] then flush_log k env opened room s else ret () s)"

text \<open>The decision log first asks the validator that was set, if any.\<close>

definition decision_log :: "text_environment \<Rightarrow> environment \<Rightarrow> (bytes \<Rightarrow> bool) option \<Rightarrow> unit expected \<Rightarrow> int \<Rightarrow> bool \<Rightarrow> disk \<Rightarrow> decision_record
    \<Rightarrow> (chain_entry, decision_record log_writer) step" where
  "decision_log te env validator usage clock opened room r s =
     (if isl usage then log_record (decision_kind te) env usage clock opened room r s
      else if (case validator of None \<Rightarrow> False | Some f \<Rightarrow> \<not> f (dr_symbol r)) then (Failed INVALID_ARGUMENT, s)
      else log_record (decision_kind te) env usage clock opened room r s)"

definition inference_log :: "text_environment \<Rightarrow> environment \<Rightarrow> unit expected \<Rightarrow> int \<Rightarrow> bool \<Rightarrow> disk \<Rightarrow> inference_record
    \<Rightarrow> (chain_entry, inference_record log_writer) step" where
  "inference_log te env usage clock opened room r = log_record (inference_kind te) env usage clock opened room r"

text \<open>What the writer's client may look at, and the row counter of its lineage.\<close>

definition pending_records :: "'r log_writer \<Rightarrow> nat" where "pending_records w = length (lw_records w)"
definition log_total_records :: "'r log_writer \<Rightarrow> int" where "log_total_records w = lw_total_records w"
definition current_file_path :: "'r log_writer \<Rightarrow> string" where "current_file_path w = lw_file_path w"
definition current_row_id :: "lineage_tracker \<Rightarrow> int" where "current_row_id t = lt_next_row_id t"

section \<open>The reader\<close>

text \<open>The columns that are loaded: those of the record and of the chain.\<close>

definition loaded_types :: "'r log_kind \<Rightarrow> ctype list" where
  "loaded_types k = map (\<lambda>(name, t, lt). t) (lk_columns k @ chain_columns)"

definition validate_loaded_columns :: "cvalue list list \<Rightarrow> unit expected" where
  "validate_loaded_columns cols = (if list_ex (\<lambda>col. length col \<noteq> length (hd cols)) cols then Inl CORRUPT_DATA else Inr ())"

definition load_columns :: "'r log_kind \<Rightarrow> registry \<Rightarrow> parquet_reader \<Rightarrow> cvalue list list expected" where
  "load_columns k reg r =
     (let ts = loaded_types k in
      case collect (\<lambda>g. collect (\<lambda>c. read_column reg r (ts ! c) g c) [0..<length ts]) [0..<num_row_groups r] of
        Inl e \<Rightarrow> Inl e
      | Inr groups \<Rightarrow>
          let cols = map (\<lambda>c. concat (map (\<lambda>g. g ! c) groups)) [0..<length ts]
          in map_sum id (\<lambda>_. cols) (validate_loaded_columns cols))"

record log_reader =
  lr_reader :: parquet_reader
  lr_columns :: "cvalue list list"

definition log_reader_open :: "'r log_kind \<Rightarrow> registry \<Rightarrow> unit expected \<Rightarrow> bytes option \<Rightarrow> log_reader expected" where
  "log_reader_open k reg licence contents =
     (case licence of Inl e \<Rightarrow> Inl e | Inr _ \<Rightarrow>
      case reader_open contents of Inl e \<Rightarrow> Inl e | Inr r \<Rightarrow>
      case load_columns k reg r of Inl e \<Rightarrow> Inl e | Inr cols \<Rightarrow> Inr \<lparr>lr_reader = r, lr_columns = cols\<rparr>)"

definition row_at :: "cvalue list list \<Rightarrow> nat \<Rightarrow> cvalue list" where "row_at cols i = map (\<lambda>col. col ! i) cols"

definition log_read_all :: "'r log_kind \<Rightarrow> log_reader \<Rightarrow> 'r list expected" where
  "log_read_all k r =
     (case validate_loaded_columns (lr_columns r) of Inl e \<Rightarrow> Inl e
      | Inr _ \<Rightarrow> Inr (map (\<lambda>i. lk_restore k (row_at (lr_columns r) i)) [0..<length (hd (lr_columns r))]))"

text \<open>A chain entry from a row, its data hash computed from the record of the row.\<close>

definition restored_entry :: "'r log_kind \<Rightarrow> cvalue list \<Rightarrow> chain_entry expected" where
  "restored_entry k row =
     (let n = length (lk_columns k) in
      case hex_to_hash (string_of (as_string (row ! (n + 1)))) of Inl e \<Rightarrow> Inl e | Inr eh \<Rightarrow>
      case hex_to_hash (string_of (as_string (row ! (n + 2)))) of Inl e \<Rightarrow> Inl e | Inr ph \<Rightarrow>
        Inr \<lparr>he_sequence_number = sint (as_int64 (row ! n)), he_timestamp_ns = sint (as_int64 (row ! 0)), he_prev_hash = ph,
          he_data_hash = sha256 (lk_serialize k (lk_restore k row)), he_entry_hash = eh\<rparr>)"

fun restored_entries :: "'r log_kind \<Rightarrow> nat \<Rightarrow> cvalue list list \<Rightarrow> nat + chain_entry list" where
  "restored_entries k i [] = Inr []"
| "restored_entries k i (row # rows) =
     (case restored_entry k row of Inl e \<Rightarrow> Inl i
      | Inr entry \<Rightarrow> map_sum id (\<lambda>es. entry # es) (restored_entries k (Suc i) rows))"

definition verify_columns :: "'r log_kind \<Rightarrow> cvalue list list \<Rightarrow> verification_result" where
  "verify_columns k cols =
     (case validate_loaded_columns cols of Inl e \<Rightarrow> bad_at 0
      | Inr _ \<Rightarrow> (case restored_entries k 0 (map (row_at cols) [0..<length (cols ! length (lk_columns k))]) of
            Inl i \<Rightarrow> bad_at i | Inr es \<Rightarrow> verify_entries es))"

definition log_verify_chain :: "'r log_kind \<Rightarrow> log_reader \<Rightarrow> verification_result" where
  "log_verify_chain k r = verify_columns k (lr_columns r)"

text \<open>One key of the file's metadata; a number that does not parse leaves the field alone.\<close>

definition audit_field :: "key_value \<Rightarrow> audit_metadata \<Rightarrow> audit_metadata" where
  "audit_field kv m =
     (case kv_value kv of None \<Rightarrow> m | Some val \<Rightarrow>
        let key = string_of (kv_key kv); v = string_of val; num = (\<lambda>d. case stoll v of None \<Rightarrow> d | Some i \<Rightarrow> i) in
        if key = ''signetstack.audit.chain_id'' then m\<lparr>am_chain_id := v\<rparr>
        else if key = ''signetstack.audit.first_seq'' then m\<lparr>am_start_sequence := num (am_start_sequence m)\<rparr>
        else if key = ''signetstack.audit.last_seq'' then m\<lparr>am_end_sequence := num (am_end_sequence m)\<rparr>
        else if key = ''signetstack.audit.first_hash'' then m\<lparr>am_first_hash := v\<rparr>
        else if key = ''signetstack.audit.last_hash'' then m\<lparr>am_last_hash := v\<rparr>
        else if key = ''signetstack.audit.prev_file_hash'' then m\<lparr>am_prev_file_hash := v\<rparr>
        else if key = ''signetstack.audit.record_count'' then m\<lparr>am_record_count := num (am_record_count m)\<rparr>
        else if key = ''signetstack.audit.record_type'' then m\<lparr>am_record_type := v\<rparr>
        else m)"

definition log_audit_metadata :: "log_reader \<Rightarrow> audit_metadata" where
  "log_audit_metadata r = fold audit_field (key_value_metadata (lr_reader r)) default_metadata"

definition num_records :: "log_reader \<Rightarrow> int" where "num_records r = sint (num_rows (lr_reader r))"

section \<open>The operations of the inference log\<close>

text \<open>\<^verbatim>\<open>inference_log.hpp\<close> has its own text of every operation; for its record each is the operation above.\<close>

definition embedding_to_json :: "text_environment \<Rightarrow> u32 list \<Rightarrow> bytes" where "embedding_to_json te fs = features_to_json te fs"
definition json_to_embedding :: "text_environment \<Rightarrow> bytes \<Rightarrow> u32 list" where "json_to_embedding te json = json_to_features te json"
definition inference_log_schema :: "text_environment \<Rightarrow> schema" where "inference_log_schema te = log_schema (inference_kind te)"

definition inference_writer_new :: "bool \<Rightarrow> int \<Rightarrow> int \<Rightarrow> (string \<rightharpoonup> bytes) \<Rightarrow> string \<Rightarrow> string \<Rightarrow> nat \<Rightarrow> inference_record log_writer option" where
  "inference_writer_new licence last_ns clock disk dir chain_id max_records = log_writer_new licence last_ns clock disk dir chain_id max_records"

definition inference_metadata :: "text_environment \<Rightarrow> inference_record log_writer \<Rightarrow> audit_metadata" where
  "inference_metadata te w = current_metadata (inference_kind te) w"

definition inference_flush :: "text_environment \<Rightarrow> environment \<Rightarrow> bool \<Rightarrow> disk \<Rightarrow> (unit, inference_record log_writer) step" where
  "inference_flush te env opened room = flush_log (inference_kind te) env opened room"

definition inference_close :: "text_environment \<Rightarrow> environment \<Rightarrow> bool \<Rightarrow> disk \<Rightarrow> (unit, inference_record log_writer) step" where
  "inference_close te env opened room = close_log (inference_kind te) env opened room"

definition inference_reader_open :: "text_environment \<Rightarrow> registry \<Rightarrow> unit expected \<Rightarrow> bytes option \<Rightarrow> log_reader expected" where
  "inference_reader_open te reg licence contents = log_reader_open (inference_kind te) reg licence contents"

definition inference_load_columns :: "text_environment \<Rightarrow> registry \<Rightarrow> parquet_reader \<Rightarrow> cvalue list list expected" where
  "inference_load_columns te reg r = load_columns (inference_kind te) reg r"

definition inference_read_all :: "text_environment \<Rightarrow> log_reader \<Rightarrow> inference_record list expected" where
  "inference_read_all te r = log_read_all (inference_kind te) r"

definition inference_verify_chain :: "text_environment \<Rightarrow> log_reader \<Rightarrow> verification_result" where
  "inference_verify_chain te r = log_verify_chain (inference_kind te) r"

section \<open>What a flush does\<close>

fun log_rows :: "'r log_kind \<Rightarrow> ('r \<times> chain_entry \<times> bytes) list \<Rightarrow> lineage_tracker \<Rightarrow> bytes list list" where
  "log_rows k [] t = []"
| "log_rows k ((r, e, d) # rest) t = log_row k r e (fst (lineage_next t d)) # log_rows k rest (snd (lineage_next t d))"

lemma write_log_rows_requests: "fst (write_log_rows k env items w t) = do_requests env ts (map Row (log_rows k items t)) w"
proof (induction k env items w t rule: write_log_rows.induct)
  case (2 k env r e d rest w t)
  obtain l t1 where l: "lineage_next t d = (l, t1)" by fastforce
  obtain o1 w1 where w: "write_row env (log_row k r e l) w = (o1, w1)" by fastforce
  show ?case using 2[OF l[symmetric] refl] w by (cases o1) (simp_all add: l)
qed simp

lemma log_schema_types: "num_columns (log_schema k) = length (column_types k)"
  by (simp add: num_columns_def log_schema_def schema_build_def column_types_def)

text \<open>
  The metadata of a file, and that a file is what one of the disks \<open>rooms\<close> kept of the complete file of a batch of records
  with their entries.
\<close>

definition batch_metadata :: "'r log_kind \<Rightarrow> string \<Rightarrow> chain_entry list \<Rightarrow> audit_metadata" where
  "batch_metadata k chain es = default_metadata\<lparr>am_chain_id := chain, am_start_sequence := he_sequence_number (hd es),
     am_end_sequence := he_sequence_number (last es), am_first_hash := hash_to_hex (he_entry_hash (hd es)),
     am_last_hash := hash_to_hex (he_entry_hash (last es)), am_prev_file_hash := hash_to_hex (he_prev_hash (hd es)),
     am_record_count := int (length es), am_record_type := lk_record_type k\<rparr>"

definition batch_rows :: "'r log_kind \<Rightarrow> 'r list \<Rightarrow> chain_entry list \<Rightarrow> lineage_tracker \<Rightarrow> bytes list list" where
  "batch_rows k recs es t = log_rows k (zip recs (zip es (map (lk_serialize k) recs))) t"

definition written_batch :: "'r log_kind \<Rightarrow> environment \<Rightarrow> disk set \<Rightarrow> string \<Rightarrow> chain_entry list \<Rightarrow> 'r list \<Rightarrow> bytes \<Rightarrow> bool" where
  "written_batch k env rooms chain es recs contents \<longleftrightarrow> (\<exists>room \<in> rooms. \<exists>t stats w.
     write_file env room (log_schema k) (log_options k (batch_metadata k chain es)) (column_types k) (map Row (batch_rows k recs es t)) = (Returned stats, w)
     \<and> contents = kept_part (dk_keeps room) (pw_file w))"

definition batch_path :: "'r log_kind \<Rightarrow> 'r log_writer \<Rightarrow> string" where
  "batch_path k s = log_path k (lw_output_dir s) (lw_chain_id s) (he_sequence_number (hd (lw_entries s))) (he_sequence_number (last (lw_entries s)))"

lemma current_batch: "lw_entries s \<noteq> [] \<Longrightarrow> current_metadata k s = batch_metadata k (lw_chain_id s) (lw_entries s)"
  by (simp add: current_metadata_def batch_metadata_def Let_def)

text \<open>Whatever happens, a flush leaves the chain alone; it forgets the records only when their file is complete.\<close>

definition same_chain :: "'r log_writer \<Rightarrow> 'r log_writer \<Rightarrow> bool" where
  "same_chain s s' \<longleftrightarrow> lw_output_dir s' = lw_output_dir s \<and> lw_chain_id s' = lw_chain_id s \<and> lw_chain s' = lw_chain s"

definition flush_failed :: "'r log_kind \<Rightarrow> 'r log_writer \<Rightarrow> 'r log_writer \<Rightarrow> bool" where
  "flush_failed k s s' \<longleftrightarrow> same_chain s s' \<and> lw_records s' = lw_records s \<and> lw_entries s' = lw_entries s \<and> lw_data s' = lw_data s
     \<and> lw_file_count s' = lw_file_count s \<and> (lw_disk s' = lw_disk s \<or> (\<exists>c. lw_disk s' = (lw_disk s)(batch_path k s \<mapsto> c)))"

definition flush_wrote :: "'r log_kind \<Rightarrow> environment \<Rightarrow> disk set \<Rightarrow> 'r log_writer \<Rightarrow> 'r log_writer \<Rightarrow> bool" where
  "flush_wrote k env rooms s s' \<longleftrightarrow> same_chain s s' \<and> lw_records s' = [] \<and> lw_entries s' = [] \<and> lw_data s' = []
     \<and> lw_file_count s' = lw_file_count s + 1
     \<and> (\<exists>c. lw_disk s' = (lw_disk s)(batch_path k s \<mapsto> c) \<and> written_batch k env rooms (lw_chain_id s) (lw_entries s) (lw_records s) c)"

definition flush_outcome :: "'r log_kind \<Rightarrow> environment \<Rightarrow> disk set \<Rightarrow> 'r log_writer \<Rightarrow> unit outcome \<times> 'r log_writer \<Rightarrow> bool" where
  "flush_outcome k env rooms s r \<longleftrightarrow> (if fst r = Returned () then flush_wrote k env rooms s (snd r) else flush_failed k s (snd r))"

lemma abandon_outcome:
  assumes "fst r \<noteq> Returned ()" "path = batch_path k s"
  shows "flush_outcome k env rooms s (abandon_file env path r (s\<lparr>lw_file_path := p, lw_lineage := t\<rparr>))"
proof -
  obtain o1 w1 where "writer_destroy env (snd r) = (o1, w1)" by fastforce
  then show ?thesis using assms by (auto simp: flush_outcome_def abandon_file_def flush_failed_def same_chain_def)
qed

lemma flush_log_outcome:
  assumes ne: "lw_records s \<noteq> []" "lw_entries s \<noteq> []" and d: "lw_data s = map (lk_serialize k) (lw_records s)"
    and room: "room \<in> rooms"
  shows "flush_outcome k env rooms s (flush_log k env opened room s)"
proof -
  let ?p = "batch_path k s" and ?s1 = "s\<lparr>lw_file_path := batch_path k s\<rparr>"
  let ?opts = "log_options k (batch_metadata k (lw_chain_id s) (lw_entries s))"
  let ?items = "zip (lw_records s) (zip (lw_entries s) (lw_data s))"
  obtain o1 w where o1: "writer_open opened room (log_schema k) ?opts = (o1, w)" by fastforce
  obtain o2 w1 t where o2: "write_log_rows k env ?items w (lw_lineage s) = ((o2, w1), t)" by (metis surj_pair)
  obtain o3 w2 where o3: "writer_close env w1 = (o3, w2)" by fastforce
  note e = flush_log_def[of k env opened room s, unfolded Let_def current_batch[OF ne(2)] batch_path_def[symmetric] o1 prod.case]
  note a = abandon_outcome[where path = ?p and k = k and s = s, OF _ refl]
  show ?thesis
  proof (cases o1)
    case (Returned u)
    note e1 = e[unfolded Returned outcome.case o2 prod.case]
    show ?thesis
    proof (cases o2)
      case (Returned u')
      note e2 = e1[unfolded Returned outcome.case o3 prod.case]
      show ?thesis
      proof (cases o3)
        case (Returned stats)
        have op: "opened" using o1 \<open>o1 = Returned u\<close> by (auto simp: writer_open_def Let_def split: if_splits)
        have "write_file env room (log_schema k) ?opts (column_types k) (map Row (batch_rows k (lw_records s) (lw_entries s) (lw_lineage s)))
          = (Returned stats, w2)"
          using o1 \<open>o1 = Returned u\<close> op o2 \<open>o2 = Returned u'\<close> o3 Returned
            write_log_rows_requests[of k env ?items w "lw_lineage s" "column_types k", symmetric] d
          by (simp add: write_file_def batch_rows_def)
        note wf = this
        have "on_disk w2 = kept_part (dk_keeps room) (pw_file w2)" by (rule write_file_keeps[OF wf])
        then have "written_batch k env rooms (lw_chain_id s) (lw_entries s) (lw_records s) (on_disk w2)" unfolding written_batch_def using wf room by blast
        then show ?thesis using e2 ne(1) Returned by (auto simp: flush_outcome_def flush_wrote_def same_chain_def ret_def)
      qed (use e2 ne(1) a in simp_all)
    qed (use e1 ne(1) a in simp_all)
  qed (use e ne(1) in \<open>auto simp: flush_outcome_def flush_failed_def same_chain_def\<close>)
qed

section \<open>No record is lost, repeated or moved\<close>

text \<open>The files of batches that begin at entry \<open>n\<close> of the chain.\<close>

fun stored :: "'r log_kind \<Rightarrow> environment \<Rightarrow> disk set \<Rightarrow> string \<Rightarrow> string \<Rightarrow> chain_entry list \<Rightarrow> (string \<rightharpoonup> bytes) \<Rightarrow> nat \<Rightarrow> 'r list list \<Rightarrow> bool" where
  "stored k env rooms dir chain es disk n [] \<longleftrightarrow> True"
| "stored k env rooms dir chain es disk n (b # bs) \<longleftrightarrow> b \<noteq> []
     \<and> (\<exists>contents. disk (log_path k dir chain (int n) (int n + int (length b) - 1)) = Some contents
          \<and> written_batch k env rooms chain (take (length b) (drop n es)) b contents)
     \<and> stored k env rooms dir chain es disk (n + length b) bs"

lemma log_path_start: "log_path k dir chain (int a) x = log_path k dir chain (int b) y \<Longrightarrow> a = b"
proof -
  assume "log_path k dir chain (int a) x = log_path k dir chain (int b) y"
  then have "nat_to_string a @ CHR ''_'' # int_to_string x @ ''.parquet'' = nat_to_string b @ CHR ''_'' # int_to_string y @ ''.parquet''"
    by (simp add: log_path_def int_to_string_nat)
  then have "nat_to_string a = nat_to_string b" 
    using takeWhile_digits[of "nat_to_string a" "int_to_string x @ ''.parquet''"]
      takeWhile_digits[of "nat_to_string b" "int_to_string y @ ''.parquet''"] nat_to_string_digits by metis
  then have "digits_value (nat_to_string a) = digits_value (nat_to_string b)" by simp
  then show "a = b" by (simp only: digits_value_nat)
qed

lemma stored_update:
  "stored k env rooms dir chain es disk n bs \<Longrightarrow> n + length (concat bs) \<le> m
    \<Longrightarrow> stored k env rooms dir chain es (disk(log_path k dir chain (int m) x \<mapsto> c)) n bs"
proof (induction bs arbitrary: n)
  case (Cons b bs)
  then have "n < m" by (cases b) auto
  then have "log_path k dir chain (int n) y \<noteq> log_path k dir chain (int m) x" for y using log_path_start[of k dir chain n y m x] by auto
  then show ?case using Cons by auto
qed simp

lemma stored_append:
  "stored k env rooms dir chain es disk n bs \<Longrightarrow> n + length (concat bs) \<le> length es \<Longrightarrow> stored k env rooms dir chain (es @ es') disk n bs"
proof (induction bs arbitrary: n)
  case (Cons b bs)
  then have "take (length b) (drop n (es @ es')) = take (length b) (drop n es)" by simp
  then show ?case using Cons by auto
qed simp

lemma stored_snoc:
  "stored k env rooms dir chain es disk n bs \<Longrightarrow> b \<noteq> [] \<Longrightarrow> m = n + length (concat bs)
    \<Longrightarrow> disk (log_path k dir chain (int m) (int m + int (length b) - 1)) = Some c
    \<Longrightarrow> written_batch k env rooms chain (take (length b) (drop m es)) b c \<Longrightarrow> stored k env rooms dir chain es disk n (bs @ [b])"
  by (induction bs arbitrary: n) (auto simp: add.assoc)

text \<open>The entries of a chain are numbered from its start.\<close>

lemma entries_numbered: "i < length recs \<Longrightarrow> he_sequence_number (entries_from w recs ! i) = cw_next_seq w + int i"
proof (induction w recs arbitrary: i rule: entries_from.induct)
  case (2 w data ts recs)
  then show ?case by (cases i) (simp_all add: next_entry_facts chain_append_next)
qed simp

definition chain_of :: "'r log_kind \<Rightarrow> 'r list \<Rightarrow> int list \<Rightarrow> chain_writer" where
  "chain_of k recs tss = append_all chain_writer_new (zip (map (lk_serialize k) recs) tss)"

lemma chain_of_entries:
  assumes "length tss = length recs"
  shows "length (cw_entries (chain_of k recs tss)) = length recs"
    "i < length recs \<Longrightarrow> he_sequence_number (cw_entries (chain_of k recs tss) ! i) = int i"
  using assms entries_numbered[of i "zip (map (lk_serialize k) recs) tss" chain_writer_new]
  by (simp_all add: chain_of_def append_all_entries chain_writer_new_def)

lemma append_all_snoc: "append_all w (recs @ [(d, ts)]) = snd (chain_append (append_all w recs) d ts)"
  by (induction w recs rule: append_all.induct) simp_all

lemma chain_of_snoc:
  "length tss = length recs \<Longrightarrow> chain_of k (recs @ [r]) (tss @ [ts]) = snd (chain_append (chain_of k recs tss) (lk_serialize k r) ts)"
  by (simp add: chain_of_def append_all_snoc)

definition log_inv :: "'r log_kind \<Rightarrow> environment \<Rightarrow> disk set \<Rightarrow> 'r list \<Rightarrow> 'r list list \<Rightarrow> 'r log_writer \<Rightarrow> bool" where
  "log_inv k env rooms history batches s \<longleftrightarrow> history = concat batches @ lw_records s
     \<and> (\<exists>tss. length tss = length history \<and> lw_chain s = chain_of k history tss)
     \<and> lw_entries s = drop (length (concat batches)) (cw_entries (lw_chain s))
     \<and> lw_data s = map (lk_serialize k) (lw_records s) \<and> lw_file_count s = int (length batches)
     \<and> stored k env rooms (lw_output_dir s) (lw_chain_id s) (cw_entries (lw_chain s)) (lw_disk s) 0 batches"

lemma inv_path:
  assumes "log_inv k env rooms history batches s" "lw_records s \<noteq> []"
  shows "batch_path k s = log_path k (lw_output_dir s) (lw_chain_id s) (int (length (concat batches)))
      (int (length (concat batches)) + int (length (lw_records s)) - 1)" "lw_entries s \<noteq> []" "length (lw_entries s) = length (lw_records s)"
proof -
  let ?n = "length (concat batches)"
  obtain tss where tss: "length tss = length history" "lw_chain s = chain_of k history tss" and h: "history = concat batches @ lw_records s"
    and es: "lw_entries s = drop ?n (cw_entries (lw_chain s))" using assms(1) unfolding log_inv_def by blast
  note c = chain_of_entries[OF tss(1), where k = k]
  have n: "?n < length history" using h assms(2) by simp
  show l: "length (lw_entries s) = length (lw_records s)" using es tss(2) c(1) h by simp
  then show ne: "lw_entries s \<noteq> []" using assms(2) by auto
  have "hd (lw_entries s) = cw_entries (lw_chain s) ! ?n" using es n tss(2) c(1) by (simp add: hd_drop_conv_nth)
  moreover have "last (lw_entries s) = cw_entries (lw_chain s) ! (length history - 1)"
    using es n tss(2) c(1) ne by (simp add: last_drop last_conv_nth)
  moreover have "int (length history - 1) = int ?n + int (length (lw_records s)) - 1" using h assms(2) by (cases "lw_records s") simp_all
  ultimately show "batch_path k s = log_path k (lw_output_dir s) (lw_chain_id s) (int ?n) (int ?n + int (length (lw_records s)) - 1)"
    using c(2)[where i = ?n] c(2)[where i = "length history - 1"] n tss(2) by (simp add: batch_path_def)
qed

lemma inv_flush:
  assumes inv: "log_inv k env rooms history batches s" and room: "room \<in> rooms"
  shows "\<exists>batches'. log_inv k env rooms history batches' (snd (flush_log k env opened room s))"
proof (cases "lw_records s = []")
  case True
  then show ?thesis using inv by (auto simp: flush_log_def ret_def)
next
  case False
  note p = inv_path[OF inv False]
  obtain r s' where f: "flush_log k env opened room s = (r, s')" by fastforce
  have "flush_outcome k env rooms s (r, s')"
    using flush_log_outcome[where opened = opened and room = room and rooms = rooms, OF False p(2)] inv room f unfolding log_inv_def by metis
  note out = this[unfolded flush_outcome_def fst_conv snd_conv]
  have st: "stored k env rooms (lw_output_dir s) (lw_chain_id s) (cw_entries (lw_chain s)) (lw_disk s) 0 batches" using inv unfolding log_inv_def by blast
  have up: "stored k env rooms (lw_output_dir s) (lw_chain_id s) (cw_entries (lw_chain s)) ((lw_disk s)(batch_path k s \<mapsto> c)) 0 batches" for c
    unfolding p(1) by (rule stored_update[OF st]) simp
  show ?thesis
  proof (cases "r = Returned ()")
    case True
    then have w: "flush_wrote k env rooms s s'" using out by simp
    then obtain c where c: "lw_disk s' = (lw_disk s)(batch_path k s \<mapsto> c)" "written_batch k env rooms (lw_chain_id s) (lw_entries s) (lw_records s) c"
      unfolding flush_wrote_def by blast
    have "take (length (lw_records s)) (drop (length (concat batches)) (cw_entries (lw_chain s))) = lw_entries s"
      using inv p(3) unfolding log_inv_def by simp
    then have "stored k env rooms (lw_output_dir s) (lw_chain_id s) (cw_entries (lw_chain s)) (lw_disk s') 0 (batches @ [lw_records s])"
      using stored_snoc[OF up[of c] False, where m = "length (concat batches)" and c = c] c p(1) by simp
    then have "log_inv k env rooms history (batches @ [lw_records s]) s'"
      using inv w unfolding log_inv_def flush_wrote_def same_chain_def by (auto simp: chain_of_entries)
    then show ?thesis using f by auto
  next
    case False
    then have w: "flush_failed k s s'" using out by simp
    then have "stored k env rooms (lw_output_dir s) (lw_chain_id s) (cw_entries (lw_chain s)) (lw_disk s') 0 batches"
      using st up unfolding flush_failed_def by auto
    then have "log_inv k env rooms history batches s'" using inv w unfolding log_inv_def flush_failed_def same_chain_def by auto
    then show ?thesis using f by auto
  qed
qed

lemma inv_total: "log_inv k env rooms history batches (s\<lparr>lw_total_records := n\<rparr>) = log_inv k env rooms history batches s"
  by (simp add: log_inv_def)

lemma inv_log:
  assumes inv: "log_inv k env rooms history batches s" and room: "room \<in> rooms"
  shows "\<exists>batches'. log_inv k env rooms (history @ (if isl usage then [] else [r])) batches' (snd (log_record k env usage clock opened room r s))"
proof (cases usage)
  case (Inl e)
  then show ?thesis using inv by (auto simp: log_record_def)
next
  case (Inr u)
  define ts_last where "ts_last = (if lk_timestamp k r = 0 then now_ns (lw_last_ns s) clock else (sint (lk_timestamp k r), lw_last_ns s))"
  obtain ts last_ns where t: "ts_last = (ts, last_ns)" by fastforce
  obtain entry chain where c: "chain_append (lw_chain s) (lk_serialize k r) ts = (entry, chain)" by fastforce
  let ?s1 = "s\<lparr>lw_last_ns := last_ns, lw_chain := chain, lw_records := lw_records s @ [r], lw_entries := lw_entries s @ [entry],
                   lw_data := lw_data s @ [lk_serialize k r]\<rparr>"
  obtain tss where tss: "length tss = length history" "lw_chain s = chain_of k history tss" using inv unfolding log_inv_def by blast
  have h: "history = concat batches @ lw_records s" using inv unfolding log_inv_def by blast
  have es: "cw_entries chain = cw_entries (lw_chain s) @ [entry]" using c by (auto simp: chain_append_def Let_def)
  have n: "length (concat batches) \<le> length (cw_entries (lw_chain s))" using chain_of_entries(1)[OF tss(1), where k = k] tss(2) h by simp
  have "chain = chain_of k (history @ [r]) (tss @ [ts])" using chain_of_snoc[OF tss(1), where k = k] tss(2) c by simp
  then have ch: "\<exists>tss. length tss = length (history @ [r]) \<and> chain = chain_of k (history @ [r]) tss"
    using tss(1) by (intro exI[where x = "tss @ [ts]"]) simp
  have "stored k env rooms (lw_output_dir s) (lw_chain_id s) (cw_entries chain) (lw_disk s) 0 batches"
    unfolding es by (rule stored_append) (use inv n in \<open>simp_all add: log_inv_def\<close>)
  then have 1: "log_inv k env rooms (history @ [r]) batches ?s1"
    using inv ch n unfolding log_inv_def by (simp add: es)
  have "snd (log_record k env usage clock opened room r s)
    = snd (after (if length (lw_records ?s1) \<ge> lw_max_records ?s1 then flush_log k env opened room ?s1 else ret () ?s1) (\<lambda>_ s2.
             ret entry (s2\<lparr>lw_total_records := lw_total_records s2 + 1\<rparr>)))"
    unfolding log_record_def Inr sum.case Let_def ts_last_def[symmetric] t prod.case c ..
  moreover obtain x s2 where x: "(if length (lw_records ?s1) \<ge> lw_max_records ?s1 then flush_log k env opened room ?s1 else ret () ?s1) = (x, s2)"
    by fastforce
  moreover obtain batches' where "log_inv k env rooms (history @ [r]) batches' s2"
    using inv_flush[OF 1 room, of opened] 1 x by (auto simp: ret_def split: if_splits)
  ultimately show ?thesis using Inr by (cases x) (auto simp: ret_def inv_total)
qed

text \<open>What a client asks of a log, and what it leaves behind.\<close>

datatype 'r log_request = Log "unit expected" int bool disk 'r | Flush_Log bool disk | Close_Log bool disk

fun log_step :: "'r log_kind \<Rightarrow> environment \<Rightarrow> 'r log_request \<Rightarrow> 'r log_writer \<Rightarrow> 'r log_writer" where
  "log_step k env (Log usage clock opened room r) s = snd (log_record k env usage clock opened room r s)"
| "log_step k env (Flush_Log opened room) s = snd (flush_log k env opened room s)"
| "log_step k env (Close_Log opened room) s = snd (close_log k env opened room s)"

text \<open>The disk that the file system answers to a request.\<close>

fun request_disk :: "'r log_request \<Rightarrow> disk" where
  "request_disk (Log usage clock opened room r) = room"
| "request_disk (Flush_Log opened room) = room"
| "request_disk (Close_Log opened room) = room"

text \<open>The records that the licence gate let in.\<close>

fun accepted :: "'r log_request \<Rightarrow> 'r list" where
  "accepted (Log usage clock opened room r) = (if isl usage then [] else [r])"
| "accepted (Flush_Log opened room) = []"
| "accepted (Close_Log opened room) = []"

lemma inv_steps:
  "log_inv k env rooms history batches s \<Longrightarrow> \<forall>q \<in> set qs. request_disk q \<in> rooms \<Longrightarrow> \<exists>batches'. log_inv k env rooms (history @ concat (map accepted qs)) batches' (fold (log_step k env) qs s)"
proof (induction qs arbitrary: history batches s)
  case Nil
  then show ?case by auto
next
  case (Cons q qs)
  have "\<exists>batches'. log_inv k env rooms (history @ accepted q) batches' (log_step k env q s)"
    using inv_log[OF Cons.prems(1)] inv_flush[OF Cons.prems(1)] Cons.prems by (cases q) (auto simp: close_log_def ret_def)
  then obtain batches' where "log_inv k env rooms (history @ accepted q) batches' (log_step k env q s)" by blast
  then show ?case using Cons.IH[of "history @ accepted q"] Cons.prems(2) by simp
qed

lemma inv_new: "log_writer_new licence last_ns clock disk dir chain_id n = Some s \<Longrightarrow> log_inv k env rooms [] [] s"
  by (auto simp: log_writer_new_def log_inv_def chain_of_def chain_writer_new_def Let_def split: if_splits prod.splits)


text \<open>Numbers as the bytes of their words, which serve as texts here.\<close>

definition sample_text :: text_environment where
  "sample_text = \<lparr>tx_widen = ucast, tx_narrow = ucast, tx_g17 = to_le 8, tx_g8 = (\<lambda>_. [49]), tx_stof = (\<lambda>_. Some 0x3F800000)\<rparr>"

definition sample_env :: environment where "sample_env = small_env\<lparr>en_parse_double := of_le\<rparr>"

definition sample_writer :: "decision_record log_writer" where
  "sample_writer = the (log_writer_new True 0 0 Map.empty ''logs'' ''c1'' 2)"


end
