(* ===== verification/LogVerify.thy ===== *)
theory LogVerify
  imports AuditLog
begin

text \<open>
  What the reader of a log finds: the columns of the rows that its writer stored, the records made of them, and the
  verdict of \<^verbatim>\<open>verify_chain\<close>.  The locale \<open>audit_log\<close> is what the two kinds of log share.
\<close>

section \<open>Numbers and hashes as text\<close>

lemma string_text [simp]: "string_of (text_of s) = s"
proof -
  have "char_of (unat (of_nat (of_char c) :: u8)) = c" for c :: char
    using of_char_mod_256[of c, where ?'a = nat] by (simp add: unat_of_nat take_bit_eq_mod)
  then show ?thesis by (simp add: string_of_def text_of_def comp_def)
qed

lemma digit_text: "is_digit c \<Longrightarrow> ascii_digit (of_nat (of_char c))" "is_digit c \<Longrightarrow> unat (of_nat (of_char c) :: u8) = of_char c"
proof -
  assume "is_digit c"
  then have c: "48 \<le> (of_char c :: nat)" "(of_char c :: nat) \<le> 57" by (simp_all add: is_digit_def)
  then show "unat (of_nat (of_char c) :: u8) = of_char c" by (simp add: unat_of_nat take_bit_eq_mod)
  then show "ascii_digit (of_nat (of_char c))" using c by (simp add: ascii_digit_def word_le_nat_alt)
qed

lemma text_digits_value:
  "\<forall>c \<in> set s. is_digit c \<Longrightarrow> foldl (\<lambda>a d. 10 * a + (unat d - 48)) n (text_of s) = foldl (\<lambda>v c. 10 * v + (of_char c - 48)) n s"
  by (induction s arbitrary: n) (simp_all add: text_of_def digit_text)

lemma from_chars_int: "- (2 ^ (w - 1)) \<le> i \<Longrightarrow> i < 2 ^ (w - 1) \<Longrightarrow> from_chars w (int_text i) = Some (i, [])"
proof -
  assume i: "- (2 ^ (w - 1)) \<le> i" "i < 2 ^ (w - 1)"
  define n where "n = nat \<bar>i\<bar>"
  define ds where "ds = text_of (nat_to_string n)"
  have d: "\<forall>c \<in> set (nat_to_string n). is_digit c" using nat_to_string_digits by blast
  have tw: "takeWhile ascii_digit ds = ds" "dropWhile ascii_digit ds = []"
    using d digit_text(1) by (auto simp: ds_def text_of_def takeWhile_eq_all_conv dropWhile_eq_Nil_conv)
  have v: "foldl (\<lambda>a d. 10 * a + (unat d - 48)) 0 ds = n"
    using text_digits_value[OF d, of 0] digits_value_nat[of n] by (simp add: digits_value_def ds_def)
  have ne: "ds \<noteq> []" by (simp add: ds_def text_of_def)
  have first: "hd ds \<noteq> 45" using tw(1) ne by (cases ds) (auto simp: ascii_digit_def split: if_splits)
  show ?thesis
  proof (cases "i < 0")
    case True
    then have n: "i = - int n" by (simp add: n_def)
    have t: "int_text i = 45 # ds" using True by (simp add: int_text_def int_to_string_def text_of_def ds_def n_def)
    show ?thesis unfolding t from_chars_def using i ne by (simp add: tw v Let_def n)
  next
    case False
    then have n: "i = int n" by (simp add: n_def)
    have t: "int_text i = ds" using False by (simp add: int_text_def int_to_string_def ds_def n_def)
    show ?thesis unfolding t from_chars_def using i ne first by (simp add: tw v Let_def n)
  qed
qed

lemma int_cells:
  "cell_value env INT64 (int_text (sint v)) = VInt64 v" "cell_value env INT32 (int_text (sint x)) = VInt32 x"
  "int64 i \<Longrightarrow> cell_value env INT64 (int_text i) = VInt64 (word_of_int i)"
  "cell_value env BYTE_ARRAY s = VString s" "cell_value env DOUBLE s = VDouble (en_parse_double env s)"
  using from_chars_int[of 64 "sint v"] from_chars_int[of 32 "sint x"] from_chars_int[of 64 i]
    sint_ge[of v] sint_lt[of v] sint_ge[of x] sint_lt[of x]
  by (simp_all add: cell_value_def type_codes int64_def)

section \<open>What both logs share\<close>

text \<open>The values that a reader gets for the texts of a row, the record it makes of them, and the entry it rebuilds.\<close>

definition cell_values :: "environment \<Rightarrow> ctype list \<Rightarrow> bytes list \<Rightarrow> cvalue list" where
  "cell_values env ts row = map2 (\<lambda>t cell. cell_value env (parquet_type_of t) cell) ts row"

definition stored_record :: "'r log_kind \<Rightarrow> environment \<Rightarrow> 'r \<Rightarrow> 'r" where
  "stored_record k env r = lk_restore k (cell_values env (map (\<lambda>(name, t, lt). t) (lk_columns k)) (lk_cells k r))"

definition stored_entry :: "'r log_kind \<Rightarrow> environment \<Rightarrow> 'r \<Rightarrow> chain_entry \<Rightarrow> chain_entry" where
  "stored_entry k env r e = e\<lparr>he_timestamp_ns := sint (lk_timestamp k r), he_data_hash := sha256 (lk_serialize k (stored_record k env r))\<rparr>"

text \<open>The columns that hold the rows.\<close>

definition stored_columns :: "'r log_kind \<Rightarrow> environment \<Rightarrow> bytes list list \<Rightarrow> cvalue list list" where
  "stored_columns k env rows =
     map (\<lambda>c. map (\<lambda>row. cell_value env (parquet_type_of (loaded_types k ! c)) (row ! c)) rows) [0..<length (loaded_types k)]"

definition hashes_ok :: "chain_entry \<Rightarrow> bool" where
  "hashes_ok e \<longleftrightarrow> int64 (he_sequence_number e) \<and> length (he_entry_hash e) = 32 \<and> length (he_prev_hash e) = 32"

lemma entry_update: "he_timestamp_ns e = t \<Longrightarrow> he_data_hash e = h \<Longrightarrow> e\<lparr>he_timestamp_ns := t, he_data_hash := h\<rparr> = e"
  by (cases e) simp

lemma entries_from_nth:
  "i < length recs \<Longrightarrow> he_timestamp_ns (entries_from w recs ! i) = snd (recs ! i) \<and> he_data_hash (entries_from w recs ! i) = sha256 (fst (recs ! i))"
proof (induction w recs arbitrary: i rule: entries_from.induct)
  case (2 w data ts recs)
  then show ?case by (cases i) (simp_all add: next_entry_facts)
qed simp

lemma new_chain_accepted:
  assumes "sorted (map snd recs)"
  shows "verify_entries (entries_from chain_writer_new recs) = \<lparr>vr_valid = True, vr_entries_checked = int (length recs), vr_first_bad_index = -1\<rparr>"
proof -
  have "linked 0 zero_hash None (entries_from chain_writer_new recs)"
    using entries_from_linked[of chain_writer_new 0 None recs] assms by (simp add: chain_writer_new_def)
  then show ?thesis using verify_loop_accepts by (fastforce simp: verify_entries_def)
qed

definition collides :: "bytes \<Rightarrow> bytes \<Rightarrow> bool" where "collides x y \<longleftrightarrow> x \<noteq> y \<and> sha256 x = sha256 y"

text \<open>Chains of the writer: genuine entries, numbered from 0.\<close>

lemma entries_from_hashes:
  assumes "length (cw_last_hash w) = 32" "i < length recs"
  shows "length (he_prev_hash (entries_from w recs ! i)) = 32
    \<and> he_entry_hash (entries_from w recs ! i) = sha256 (preimage (entries_from w recs ! i))"
  using assms
proof (induction w recs arbitrary: i rule: entries_from.induct)
  case (2 w data ts recs)
  then show ?case by (cases i) (simp_all add: next_entry_facts chain_append_next)
qed simp

lemma chain_genuine:
  assumes "length tss = length recs" "i < length recs" "int (length recs) \<le> 2 ^ 63"
  shows "hashes_ok (cw_entries (chain_of k recs tss) ! i)"
    "he_entry_hash (cw_entries (chain_of k recs tss) ! i) = sha256 (preimage (cw_entries (chain_of k recs tss) ! i))"
    "he_data_hash (cw_entries (chain_of k recs tss) ! i) = sha256 (lk_serialize k (recs ! i))"
proof -
  let ?items = "zip (map (lk_serialize k) recs) tss"
  have e: "cw_entries (chain_of k recs tss) = entries_from chain_writer_new ?items"
    by (simp add: chain_of_def append_all_entries chain_writer_new_def)
  have l: "length (cw_last_hash chain_writer_new) = 32" "i < length ?items" using assms by (simp_all add: chain_writer_new_def zero_hash_def)
  note h = entries_from_hashes[OF l, folded e]
  show s: "he_entry_hash (cw_entries (chain_of k recs tss) ! i) = sha256 (preimage (cw_entries (chain_of k recs tss) ! i))" using h by blast
  show "hashes_ok (cw_entries (chain_of k recs tss) ! i)"
    using h chain_of_entries(2)[OF assms(1,2), of k] assms(2,3) unfolding hashes_ok_def int64_def s by simp
  show "he_data_hash (cw_entries (chain_of k recs tss) ! i) = sha256 (lk_serialize k (recs ! i))"
    unfolding e using entries_from_nth[of i ?items chain_writer_new] assms by simp
qed

lemma linked_sorted: "linked i p t es \<Longrightarrow> sorted (map he_timestamp_ns es) \<and> (\<forall>u e. t = Some u \<longrightarrow> e \<in> set es \<longrightarrow> u \<le> he_timestamp_ns e)"
proof (induction i p t es rule: linked.induct)
  case (2 i p t e es)
  then have "sorted (map he_timestamp_ns es)" "\<forall>f \<in> set es. he_timestamp_ns e \<le> he_timestamp_ns f" by auto
  then show ?case using 2(2) by (auto split: option.splits)
qed simp

lemma entries_from_take: "take n (entries_from w items) = entries_from w (take n items)"
proof (induction w items arbitrary: n rule: entries_from.induct)
  case (2 w data ts recs)
  then show ?case by (cases n) simp_all
qed simp

lemma chain_of_take: "take n (cw_entries (chain_of k recs tss)) = cw_entries (chain_of k (take n recs) (take n tss))"
  by (simp add: chain_of_def append_all_entries chain_writer_new_def entries_from_take take_zip take_map)

locale audit_log =
  fixes k :: "'r log_kind"
  assumes cells: "length (lk_cells k r) = length (lk_columns k)"
    and restore: "length vs = length (lk_columns k) \<Longrightarrow> lk_restore k (vs @ ws) = lk_restore k vs"
    and stamp: "\<exists>name lt rest cs. lk_columns k = (name, CInt64, lt) # rest \<and> lk_cells k r = int_text (sint (lk_timestamp k r)) # cs"
begin

lemma loaded_types: "loaded_types k = map (\<lambda>(name, t, lt). t) (lk_columns k) @ [CInt64, CString, CString]"
  by (simp add: loaded_types_def chain_columns_def)

lemma row_values:
  assumes "int64 (he_sequence_number e)"
  shows "cell_values env (loaded_types k) (log_row k r e l) = cell_values env (map (\<lambda>(name, t, lt). t) (lk_columns k)) (lk_cells k r)
    @ [VInt64 (word_of_int (he_sequence_number e)), VString (text_of (hash_to_hex (he_entry_hash e))), VString (text_of (hash_to_hex (he_prev_hash e)))]"
  using cells[of r] int_cells(3)[OF assms] by (simp add: cell_values_def loaded_types log_row_def int_cells)

lemma restored_row:
  assumes "hashes_ok e"
  shows "restored_entry k (cell_values env (loaded_types k) (log_row k r e l)) = Inr (stored_entry k env r e)"
    "lk_restore k (cell_values env (loaded_types k) (log_row k r e l)) = stored_record k env r"
proof -
  let ?vs = "cell_values env (map (\<lambda>(name, t, lt). t) (lk_columns k)) (lk_cells k r)"
  have i: "int64 (he_sequence_number e)" and h: "length (he_entry_hash e) = 32" "length (he_prev_hash e) = 32"
    using assms by (simp_all add: hashes_ok_def)
  have len: "length ?vs = length (lk_columns k)" using cells[of r] by (simp add: cell_values_def)
  show rec: "lk_restore k (cell_values env (loaded_types k) (log_row k r e l)) = stored_record k env r"
    unfolding row_values[OF i] restore[OF len] by (simp add: stored_record_def)
  obtain name lt rest cs where st: "lk_columns k = (name, CInt64, lt) # rest" "lk_cells k r = int_text (sint (lk_timestamp k r)) # cs"
    using stamp by metis
  then have "?vs ! 0 = VInt64 (lk_timestamp k r)" by (simp add: cell_values_def int_cells)
  then have ts: "(?vs @ ws) ! 0 = VInt64 (lk_timestamp k r)" for ws using len st(1) by (cases ?vs) simp_all
  show "restored_entry k (cell_values env (loaded_types k) (log_row k r e l)) = Inr (stored_entry k env r e)"
    unfolding restored_entry_def rec unfolding row_values[OF i] ts using i
    by (simp add: nth_append len hex_hash h stored_entry_def sint_int64)
qed

lemma restored_rows:
  "length recs = length es \<Longrightarrow> length ds = length es \<Longrightarrow> \<forall>e \<in> set es. hashes_ok e
    \<Longrightarrow> restored_entries k i (map (cell_values env (loaded_types k)) (log_rows k (zip recs (zip es ds)) t)) = Inr (map2 (stored_entry k env) recs es)"
  "length recs = length es \<Longrightarrow> length ds = length es \<Longrightarrow> \<forall>e \<in> set es. hashes_ok e
    \<Longrightarrow> map (lk_restore k) (map (cell_values env (loaded_types k)) (log_rows k (zip recs (zip es ds)) t)) = map (stored_record k env) recs"
proof (induction recs es arbitrary: ds i t rule: list_induct2')
  case (4 r recs e es)
  { case 1
    then obtain d ds' where "ds = d # ds'" by (cases ds) simp_all
    then show ?case using 1 4(1)[of ds' "Suc i"] by (simp add: restored_row)
  next
    case 2
    then obtain d ds' where "ds = d # ds'" by (cases ds) simp_all
    then show ?case using 2 4(2)[of ds'] by (simp add: restored_row) }
qed simp_all

lemma length_log_row: "length (loaded_types k) \<le> length (log_row k r e l)"
  using cells[of r] by (simp add: loaded_types log_row_def)

lemma log_rows_long: "row \<in> set (log_rows k items t) \<Longrightarrow> length (loaded_types k) \<le> length row"
  by (induction items arbitrary: t) (auto simp: length_log_row)

lemma length_log_rows: "length (log_rows k items t) = length items"
  by (induction items arbitrary: t) auto

lemma length_batch_rows: "length recs = length es \<Longrightarrow> length (batch_rows k recs es t) = length es"
  by (simp add: batch_rows_def length_log_rows)

lemma loaded_nonempty: "loaded_types k \<noteq> []"
  by (simp add: loaded_types)

lemma row_at_stored:
  assumes "row \<in> set rows \<Longrightarrow> length (loaded_types k) \<le> length row" "row = rows ! i" "i < length rows"
  shows "row_at (stored_columns k env rows) i = cell_values env (loaded_types k) row"
  using assms by (intro nth_equalityI) (simp_all add: row_at_def stored_columns_def cell_values_def)

lemma stored_rows:
  assumes "\<forall>row \<in> set rows. length (loaded_types k) \<le> length row"
  shows "map (row_at (stored_columns k env rows)) [0..<length rows] = map (cell_values env (loaded_types k)) rows"
  using assms row_at_stored by (intro nth_equalityI) (simp_all del: row_at_def)

lemma stored_columns_valid: "validate_loaded_columns (stored_columns k env rows) = Inr ()"
  "length (hd (stored_columns k env rows)) = length rows" "length (stored_columns k env rows ! length (lk_columns k)) = length rows"
proof -
  have len: "\<forall>col \<in> set (stored_columns k env rows). length col = length rows" by (auto simp: stored_columns_def)
  have ne: "stored_columns k env rows \<noteq> []" using loaded_nonempty by (simp add: stored_columns_def)
  show hd: "length (hd (stored_columns k env rows)) = length rows" using len ne by simp
  show "validate_loaded_columns (stored_columns k env rows) = Inr ()" using len hd by (auto simp: validate_loaded_columns_def list_ex_iff)
  have "length (lk_columns k) < length (stored_columns k env rows)" by (simp add: stored_columns_def loaded_types)
  then show "length (stored_columns k env rows ! length (lk_columns k)) = length rows" using len nth_mem by blast
qed

text \<open>What the reader makes of the columns of a batch.\<close>

lemma read_batch_columns:
  assumes "length recs = length es" "\<forall>e \<in> set es. hashes_ok e"
  shows "log_read_all k \<lparr>lr_reader = rd, lr_columns = stored_columns k env (batch_rows k recs es t)\<rparr> = Inr (map (stored_record k env) recs)"
    "verify_columns k (stored_columns k env (batch_rows k recs es t)) = verify_entries (map2 (stored_entry k env) recs es)"
proof -
  let ?rows = "batch_rows k recs es t"
  have long: "\<forall>row \<in> set ?rows. length (loaded_types k) \<le> length row" using log_rows_long by (auto simp: batch_rows_def)
  note rows = stored_rows[OF long, of env]
  note r = restored_rows[OF assms(1) _ assms(2), where ds = "map (lk_serialize k) recs", folded batch_rows_def]
  show "log_read_all k \<lparr>lr_reader = rd, lr_columns = stored_columns k env ?rows\<rparr> = Inr (map (stored_record k env) recs)"
    using r(2)[of env t] assms(1) unfolding log_read_all_def
    by (simp add: stored_columns_valid rows[symmetric] comp_def)
  show "verify_columns k (stored_columns k env ?rows) = verify_entries (map2 (stored_entry k env) recs es)"
    using r(1)[of 0 env t] assms(1) unfolding verify_columns_def
    by (simp add: stored_columns_valid rows)
qed

text \<open>The first file of a chain, from records whose bytes the columns carry.\<close>

definition stamps :: "'r list \<Rightarrow> int list" where "stamps recs = map (\<lambda>r. sint (lk_timestamp k r)) recs"

lemma first_entries: "cw_entries (chain_of k recs tss) = entries_from chain_writer_new (zip (map (lk_serialize k) recs) tss)"
  by (simp add: chain_of_def append_all_entries chain_writer_new_def)

definition carried :: "environment \<Rightarrow> 'r \<Rightarrow> bool" where
  "carried env r \<longleftrightarrow> lk_serialize k (stored_record k env r) = lk_serialize k r"

lemma first_hashes:
  assumes "int (length recs) < 2 ^ 63"
  shows "\<forall>e \<in> set (cw_entries (chain_of k recs (stamps recs))). hashes_ok e"
proof -
  have "list_all (\<lambda>(data, ts). int64 ts) (zip (map (lk_serialize k) recs) (stamps recs))"
    by (auto simp: list_all_iff stamps_def int64_sint dest!: set_zip_rightD)
  then have "list_all entry_ok (cw_entries (chain_of k recs (stamps recs)))"
    unfolding first_entries by (intro entries_from_ok) (use assms in \<open>simp_all add: chain_writer_new_def zero_hash_def stamps_def\<close>)
  then show ?thesis by (auto simp: list_all_iff entry_ok_def hashes_ok_def)
qed

lemma first_stored:
  assumes "\<forall>r \<in> set recs. carried env r"
  shows "map2 (stored_entry k env) recs (cw_entries (chain_of k recs (stamps recs))) = cw_entries (chain_of k recs (stamps recs))"
proof (rule nth_equalityI)
  let ?items = "zip (map (lk_serialize k) recs) (stamps recs)"
  have l: "length ?items = length recs" by (simp add: stamps_def)
  then show "length (map2 (stored_entry k env) recs (cw_entries (chain_of k recs (stamps recs)))) = length (cw_entries (chain_of k recs (stamps recs)))"
    by (simp add: first_entries)
  fix i assume "i < length (map2 (stored_entry k env) recs (cw_entries (chain_of k recs (stamps recs))))"
  then have i: "i < length recs" by simp
  then have "carried env (recs ! i)" using assms by simp
  then have "stored_entry k env (recs ! i) (entries_from chain_writer_new ?items ! i) = entries_from chain_writer_new ?items ! i"
    unfolding stored_entry_def carried_def using entries_from_nth[of i ?items chain_writer_new] i l
    by (intro entry_update) (simp_all add: stamps_def)
  then show "map2 (stored_entry k env) recs (cw_entries (chain_of k recs (stamps recs))) ! i = cw_entries (chain_of k recs (stamps recs)) ! i"
    using i l by (simp add: first_entries)
qed

lemma first_file_accepted:
  assumes "\<forall>r \<in> set recs. carried env r" "sorted (stamps recs)"
  shows "verify_entries (map2 (stored_entry k env) recs (cw_entries (chain_of k recs (stamps recs))))
    = \<lparr>vr_valid = True, vr_entries_checked = int (length recs), vr_first_bad_index = -1\<rparr>"
  unfolding first_stored[OF assms(1)] unfolding first_entries
  using new_chain_accepted[of "zip (map (lk_serialize k) recs) (stamps recs)"] assms(2) by (simp add: stamps_def)

lemma first_batch_accepted:
  assumes recs: "\<forall>r \<in> set recs. stored_record k env r = r" and ts: "sorted (stamps recs)" and n: "int (length recs) < 2 ^ 63"
    and es: "es = cw_entries (chain_of k recs (stamps recs))"
  shows "log_read_all k \<lparr>lr_reader = rd, lr_columns = stored_columns k env (batch_rows k recs es t)\<rparr> = Inr recs"
    "verify_columns k (stored_columns k env (batch_rows k recs es t)) = \<lparr>vr_valid = True, vr_entries_checked = int (length recs), vr_first_bad_index = -1\<rparr>"
proof -
  have len: "length recs = length es" unfolding es first_entries by (simp add: stamps_def)
  note rd = read_batch_columns[OF len first_hashes[OF n, folded es]]
  have "map (stored_record k env) recs = recs" using recs by (simp add: map_idI)
  then show "log_read_all k \<lparr>lr_reader = rd, lr_columns = stored_columns k env (batch_rows k recs es t)\<rparr> = Inr recs" by (simp only: rd(1))
  have c: "\<forall>r \<in> set recs. carried env r" using recs by (simp add: carried_def)
  show "verify_columns k (stored_columns k env (batch_rows k recs es t))
    = \<lparr>vr_valid = True, vr_entries_checked = int (length recs), vr_first_bad_index = -1\<rparr>"
    unfolding rd(2) unfolding es by (rule first_file_accepted[OF c ts])
qed

text \<open>A record that does not come back from its row shows up, unless SHA-256 collides.\<close>

lemma altered_record:
  assumes len: "length recs = length es" and ok: "\<forall>e \<in> set es. hashes_ok e" and i: "i < length recs"
    and e: "he_entry_hash (es ! i) = sha256 (preimage (es ! i))" "he_data_hash (es ! i) = sha256 (lk_serialize k (recs ! i))"
    and v: "vr_valid (verify_columns k (stored_columns k env (batch_rows k recs es t)))"
  shows "collides (preimage (stored_entry k env (recs ! i) (es ! i))) (preimage (es ! i))
    \<or> lk_serialize k (stored_record k env (recs ! i)) = lk_serialize k (recs ! i)
    \<or> collides (lk_serialize k (stored_record k env (recs ! i))) (lk_serialize k (recs ! i))"
proof -
  let ?e = "stored_entry k env (recs ! i) (es ! i)"
  have "linked 0 zero_hash None (map2 (stored_entry k env) recs es)"
    using v unfolding read_batch_columns(2)[OF len ok] verify_entries_linked .
  then have "entry_verify ?e" using linked_nth[of 0 zero_hash None _ i] i len by fastforce
  moreover have h: "hashes_ok (es ! i)" using ok i len by simp
  then have "length (he_entry_hash ?e) = 32" by (simp add: stored_entry_def hashes_ok_def)
  ultimately have "sha256 (preimage ?e) = sha256 (preimage (es ! i))"
    using e(1) by (simp add: entry_verify_iff) (simp add: stored_entry_def)
  moreover have "he_data_hash ?e = he_data_hash (es ! i)" if "preimage ?e = preimage (es ! i)"
    using that h by (simp add: preimage_def stored_entry_def hashes_ok_def write_le64_to_le)
  ultimately show ?thesis using e(2) by (auto simp: collides_def stored_entry_def)
qed

text \<open>What an accepted entry says of its record, unless SHA-256 collides.\<close>

lemma accepted_entry:
  assumes len: "length recs = length es" and ok: "\<forall>e \<in> set es. hashes_ok e \<and> int64 (he_timestamp_ns e)" and i: "i < length recs"
    and e: "he_entry_hash (es ! i) = sha256 (preimage (es ! i))" "he_data_hash (es ! i) = sha256 (lk_serialize k (recs ! i))"
    and v: "vr_valid (verify_entries (map2 (stored_entry k env) recs es))"
    and free: "\<not> collides (preimage (stored_entry k env (recs ! i) (es ! i))) (preimage (es ! i))"
      "\<not> collides (lk_serialize k (stored_record k env (recs ! i))) (lk_serialize k (recs ! i))"
  shows "carried env (recs ! i)" "he_timestamp_ns (es ! i) = sint (lk_timestamp k (recs ! i))" "he_sequence_number (es ! i) = int i"
proof -
  let ?e = "stored_entry k env (recs ! i) (es ! i)"
  have "linked 0 zero_hash None (map2 (stored_entry k env) recs es)" using v unfolding verify_entries_linked .
  from linked_nth[OF this, of i] have n: "he_sequence_number ?e = int i" "entry_verify ?e" using i len by simp_all
  show "he_sequence_number (es ! i) = int i" using n(1) by (simp add: stored_entry_def)
  have h: "hashes_ok (es ! i)" "int64 (he_timestamp_ns (es ! i))" using ok i len by simp_all
  then have "length (he_entry_hash ?e) = 32" by (simp add: stored_entry_def hashes_ok_def)
  then have "sha256 (preimage ?e) = sha256 (preimage (es ! i))" using n(2) e(1) by (simp add: entry_verify_iff) (simp add: stored_entry_def)
  then have p: "preimage ?e = preimage (es ! i)" using free(1) by (auto simp: collides_def)
  have l: "length (he_prev_hash ?e) = length (he_prev_hash (es ! i))" by (simp add: stored_entry_def)
  have d: "he_data_hash ?e = he_data_hash (es ! i)"
    and t: "write_le64 (word_of_int (he_timestamp_ns ?e)) = write_le64 (word_of_int (he_timestamp_ns (es ! i)))"
    using p l unfolding preimage_def by (simp_all add: write_le64_to_le)
  show "carried env (recs ! i)" using d e(2) free(2) by (auto simp: collides_def stored_entry_def carried_def)
  have "(word_of_int (he_timestamp_ns ?e) :: u64) = word_of_int (he_timestamp_ns (es ! i))"
    using t read_write_le(2)[where r = "[]"] by metis
  then have "he_timestamp_ns ?e = he_timestamp_ns (es ! i)" using h(2) by (intro word_of_int64_eq) (simp_all add: stored_entry_def int64_sint)
  then show "he_timestamp_ns (es ! i) = sint (lk_timestamp k (recs ! i))" by (simp add: stored_entry_def)
qed

text \<open>The verdict on a file of \<open>n\<close> records of a log, after \<open>m\<close> others.\<close>

definition carried_file :: "environment \<Rightarrow> nat \<Rightarrow> 'r list \<Rightarrow> int list \<Rightarrow> bool" where
  "carried_file env m recs st \<longleftrightarrow> m = 0 \<and> (\<forall>r \<in> set recs. carried env r) \<and> st = stamps recs \<and> sorted st"

lemma accepted_file:
  assumes "carried_file env 0 (take n history) (take n tss)"
  shows "verify_entries (map2 (stored_entry k env) (take n history) (take n (cw_entries (chain_of k history tss))))
    = \<lparr>vr_valid = True, vr_entries_checked = int (length (take n history)), vr_first_bad_index = -1\<rparr>"
proof -
  have c: "\<forall>r \<in> set (take n history). carried env r" "take n tss = stamps (take n history)" "sorted (take n tss)"
    using assms unfolding carried_file_def by blast+
  show ?thesis unfolding chain_of_take c(2) by (rule first_file_accepted[OF c(1) c(3)[unfolded c(2)]])
qed

lemma file_accepted_only:
  assumes l: "length tss = length history" "int (length history) \<le> 2 ^ 63" "list_all int64 tss" and mn: "m + n \<le> length history" "0 < n"
    and es: "es = take n (drop m (cw_entries (chain_of k history tss)))" and recs: "recs = take n (drop m history)"
    and v: "vr_valid (verify_entries (map2 (stored_entry k env) recs es))"
    and free: "\<forall>i < n. \<not> collides (preimage (stored_entry k env (recs ! i) (es ! i))) (preimage (es ! i))
      \<and> \<not> collides (lk_serialize k (stored_record k env (recs ! i))) (lk_serialize k (recs ! i))"
  shows "carried_file env m recs (take n (drop m tss))"
proof -
  let ?c = "cw_entries (chain_of k history tss)"
  have cl: "length ?c = length history" using chain_of_entries(1)[OF l(1)] .
  have len: "length recs = n" "length es = n" using mn es recs cl by simp_all
  have nth: "es ! i = ?c ! (m + i)" "recs ! i = history ! (m + i)" "m + i < length history" if "i < n" for i
    using that mn es recs cl by simp_all
  note g = chain_genuine[OF l(1) _ l(2), where k = k]
  have ts: "he_timestamp_ns (?c ! j) = tss ! j" if "j < length history" for j
    unfolding first_entries using entries_from_nth[of j "zip (map (lk_serialize k) history) tss" chain_writer_new] that l(1) by simp
  have ok: "\<forall>e \<in> set es. hashes_ok e \<and> int64 (he_timestamp_ns e)"
  proof
    fix e assume "e \<in> set es"
    then obtain i where i: "i < n" "e = es ! i" using len by (auto simp: in_set_conv_nth)
    show "hashes_ok e \<and> int64 (he_timestamp_ns e)"
      unfolding i(2) nth(1)[OF i(1)] using g(1)[OF nth(3)[OF i(1)]] ts[OF nth(3)[OF i(1)]] l(3) l(1) nth(3)[OF i(1)] by (simp add: list_all_length)
  qed
  have a: "carried env (recs ! i)" "he_timestamp_ns (es ! i) = sint (lk_timestamp k (recs ! i))" "he_sequence_number (es ! i) = int i" if i: "i < n" for i
  proof -
    have e: "he_entry_hash (es ! i) = sha256 (preimage (es ! i))" "he_data_hash (es ! i) = sha256 (lk_serialize k (recs ! i))"
      unfolding nth(1,2)[OF i] using g(2,3)[OF nth(3)[OF i]] by simp_all
    have il: "length recs = length es" "i < length recs" using len i by simp_all
    have f: "\<not> collides (preimage (stored_entry k env (recs ! i) (es ! i))) (preimage (es ! i))"
      "\<not> collides (lk_serialize k (stored_record k env (recs ! i))) (lk_serialize k (recs ! i))" using free i by blast+
    show "carried env (recs ! i)" "he_timestamp_ns (es ! i) = sint (lk_timestamp k (recs ! i))" "he_sequence_number (es ! i) = int i"
      using accepted_entry[OF il(1) ok il(2) e v f] by blast+
  qed
  have "he_sequence_number (es ! 0) = int m" unfolding nth(1)[OF mn(2)] using chain_of_entries(2)[OF l(1) nth(3)[OF mn(2)]] by simp
  then have m: "m = 0" using a(3)[OF mn(2)] by simp
  have st: "take n (drop m tss) = stamps recs"
  proof (rule nth_equalityI)
    show "length (take n (drop m tss)) = length (stamps recs)" using len mn l(1) by (simp add: stamps_def)
    fix i assume "i < length (take n (drop m tss))"
    then have i: "i < n" by simp
    have "tss ! (m + i) = sint (lk_timestamp k (recs ! i))" using a(2)[OF i] nth(1)[OF i] ts[OF nth(3)[OF i]] by simp
    then show "take n (drop m tss) ! i = stamps recs ! i" using i len mn l(1) by (simp add: stamps_def)
  qed
  have "sorted (map he_timestamp_ns (map2 (stored_entry k env) recs es))"
    using linked_sorted v unfolding verify_entries_linked by blast
  moreover have "map he_timestamp_ns (map2 (stored_entry k env) recs es) = stamps recs"
    using len by (intro nth_equalityI) (simp_all add: stamps_def stored_entry_def)
  ultimately have "sorted (stamps recs)" by simp
  moreover have "\<forall>r \<in> set recs. carried env r" using a(1) len by (auto simp: in_set_conv_nth)
  ultimately show ?thesis unfolding carried_file_def st using m by blast
qed

end

section \<open>Both logs\<close>

interpretation dlog: audit_log "decision_kind te" for te
proof
  fix vs ws and r
  show "length (lk_cells (decision_kind te) r) = length (lk_columns (decision_kind te))"
    by (simp add: decision_kind_def decision_columns_def decision_cells_def)
  show "lk_restore (decision_kind te) (vs @ ws) = lk_restore (decision_kind te) vs" if "length vs = length (lk_columns (decision_kind te))"
    using that by (simp add: decision_kind_def decision_columns_def decision_of_row_def nth_append)
  show "\<exists>name lt rest cs. lk_columns (decision_kind te) = (name, CInt64, lt) # rest
      \<and> lk_cells (decision_kind te) r = int_text (sint (lk_timestamp (decision_kind te) r)) # cs"
    by (simp add: decision_kind_def decision_columns_def decision_cells_def)
qed

interpretation ilog: audit_log "inference_kind te" for te
proof
  fix vs ws and r
  show "length (lk_cells (inference_kind te) r) = length (lk_columns (inference_kind te))"
    by (simp add: inference_kind_def inference_columns_def inference_cells_def)
  show "lk_restore (inference_kind te) (vs @ ws) = lk_restore (inference_kind te) vs" if "length vs = length (lk_columns (inference_kind te))"
    using that by (simp add: inference_kind_def inference_columns_def inference_of_row_def nth_append)
  show "\<exists>name lt rest cs. lk_columns (inference_kind te) = (name, CInt64, lt) # rest
      \<and> lk_cells (inference_kind te) r = int_text (sint (lk_timestamp (inference_kind te) r)) # cs"
    by (simp add: inference_kind_def inference_columns_def inference_cells_def)
qed

text \<open>What a row keeps of a record.\<close>

lemma stored_decision:
  "stored_record (decision_kind te) env r = (without_mifid r)\<lparr>dr_input_features := json_to_features te (features_to_json te (dr_input_features r)),
     dr_model_output := tx_narrow te (en_parse_double env (tx_g17 te (tx_widen te (dr_model_output r)))),
     dr_confidence := tx_narrow te (en_parse_double env (tx_g17 te (tx_widen te (dr_confidence r)))),
     dr_price := en_parse_double env (tx_g17 te (dr_price r)), dr_quantity := en_parse_double env (tx_g17 te (dr_quantity r))\<rparr>"
  by (cases r) (simp add: stored_record_def decision_kind_def decision_columns_def decision_cells_def cell_values_def int_cells decision_of_row_def
      default_DecisionRecord_def without_mifid_def)

section \<open>The vector of features\<close>

definition plain_text :: "bytes \<Rightarrow> bool" where "plain_text t \<longleftrightarrow> t \<noteq> [] \<and> (\<forall>b \<in> set t. b \<noteq> 44 \<and> \<not> json_blank b)"

text \<open>A number that \<^verbatim>\<open>std::stof\<close> reads back from its text.\<close>

definition float_survives :: "text_environment \<Rightarrow> u32 \<Rightarrow> bool" where
  "float_survives te f \<longleftrightarrow> tx_stof te (tx_g8 te f) = Some f \<and> plain_text (tx_g8 te f)"

lemma json_number:
  assumes "float_survives te f" "n < MAX_JSON_ARRAY_ELEMENTS"
  shows "json_loop te n (tx_g8 te f @ 44 # s) = f # json_loop te (Suc n) s" "json_loop te n (tx_g8 te f) = [f]"
proof -
  let ?t = "tx_g8 te f"
  have t: "tx_stof te ?t = Some f" "?t \<noteq> []" "\<forall>b \<in> set ?t. b \<noteq> 44" "\<forall>b \<in> set ?t. \<not> json_blank b"
    using assms(1) by (auto simp: float_survives_def plain_text_def)
  have blank: "dropWhile json_blank (?t @ u) = ?t @ u" "dropWhile json_blank (rev ?t) = rev ?t" for u
  proof -
    show "dropWhile json_blank (?t @ u) = ?t @ u" using t(2,4) by (cases ?t) simp_all
    show "dropWhile json_blank (rev ?t) = rev ?t" using t(2,4) by (simp add: dropWhile_eq_self_iff hd_rev)
  qed
  have comma: "takeWhile (\<lambda>b. b \<noteq> 44) (?t @ 44 # s) = ?t" "dropWhile (\<lambda>b. b \<noteq> 44) (?t @ 44 # s) = 44 # s"
    "takeWhile (\<lambda>b. b \<noteq> 44) ?t = ?t" "dropWhile (\<lambda>b. b \<noteq> 44) ?t = []"
    using t(3) by (simp_all add: takeWhile_append2 dropWhile_append2 takeWhile_eq_all_conv dropWhile_eq_Nil_conv)
  show "json_loop te n (?t @ 44 # s) = f # json_loop te (Suc n) s"
    using assms(2) t(1,2) by (subst json_loop.simps) (simp add: blank comma Let_def)
  have "json_loop te (Suc n) [] = []" by (subst json_loop.simps) simp
  then show "json_loop te n ?t = [f]"
    using assms(2) t(1,2) blank(1)[of "[]"] by (subst json_loop.simps) (simp add: blank(2) comma Let_def)
qed

lemma json_numbers:
  "list_all (float_survives te) fs \<Longrightarrow> n + length fs \<le> MAX_JSON_ARRAY_ELEMENTS \<Longrightarrow> json_loop te n (join_commas (map (tx_g8 te) fs)) = fs"
proof (induction fs arbitrary: n rule: induct_list012)
  case 1
  show ?case by (subst json_loop.simps) simp
next
  case (2 f)
  then show ?case by (simp add: json_number(2))
next
  case (3 f g fs)
  then show ?case using 3(2)[of "Suc n"] by (simp add: json_number(1))
qed

lemma features_roundtrip:
  assumes "list_all (float_survives te) fs" "length fs \<le> MAX_JSON_ARRAY_ELEMENTS"
  shows "json_to_features te (features_to_json te fs) = fs"
  using json_numbers[of te fs 0] assms by (cases "fs = []") (auto simp: json_to_features_def features_to_json_def json_loop.simps[of te 0 "[]"])

lemma length_json_loop: "length (json_loop te n s) \<le> MAX_JSON_ARRAY_ELEMENTS - n"
proof (induction te n s rule: json_loop.induct)
  case (1 te n s)
  show ?case
    by (subst json_loop.simps) (use 1 in \<open>fastforce simp: Let_def split: option.splits\<close>)
qed

lemma length_json_to_features: "length (json_to_features te s) < 2 ^ 32"
  using length_json_loop[of te 0 "butlast (tl s)"] by (simp add: json_to_features_def MAX_JSON_ARRAY_ELEMENTS_def)

section \<open>The decision log\<close>

text \<open>What the columns of a decision carry: numbers that their texts give back, and no MiFID II field.\<close>

definition decision_survives :: "text_environment \<Rightarrow> environment \<Rightarrow> decision_record \<Rightarrow> bool" where
  "decision_survives te env r \<longleftrightarrow> without_mifid r = r
     \<and> list_all (float_survives te) (dr_input_features r) \<and> length (dr_input_features r) \<le> MAX_JSON_ARRAY_ELEMENTS
     \<and> (\<forall>x \<in> {dr_model_output r, dr_confidence r}. tx_narrow te (en_parse_double env (tx_g17 te (tx_widen te x))) = x)
     \<and> (\<forall>x \<in> {dr_price r, dr_quantity r}. en_parse_double env (tx_g17 te x) = x)"

lemma decision_survives: "decision_survives te env r \<Longrightarrow> stored_record (decision_kind te) env r = r"
  unfolding stored_decision by (cases r) (simp add: decision_survives_def features_roundtrip without_mifid_def)

lemma stored_decision_fits: "decision_fits r \<Longrightarrow> decision_fits (stored_record (decision_kind te) env r)"
  using length_json_to_features[of te] unfolding stored_decision by (simp add: decision_fits_def without_mifid_def text_short_def)


text \<open>
  Property C16: a decision with a MiFID II field that is not the default, in any file of a log, makes \<^verbatim>\<open>verify_chain\<close>
  refuse the file that the writer wrote, unless SHA-256 collides on it: its columns do not carry these fields, its
  hash covers them.
\<close>
theorem mifid_decision_refused:
  assumes "length tss = length history" "int (length history) \<le> 2 ^ 63" "m + n \<le> length history" "i < n"
    and "decision_fits (history ! (m + i))" "without_mifid (history ! (m + i)) \<noteq> history ! (m + i)"
  shows "let k = decision_kind te; recs = take n (drop m history); es = take n (drop m (cw_entries (chain_of k history tss)));
             r = history ! (m + i); e = es ! i
         in \<not> vr_valid (log_verify_chain k \<lparr>lr_reader = rd, lr_columns = stored_columns k env (batch_rows k recs es t)\<rparr>)
          \<or> collides (preimage (stored_entry k env r e)) (preimage e)
          \<or> collides (serialize_decision (stored_record k env r)) (serialize_decision r)"
proof -
  let ?k = "decision_kind te" and ?r = "history ! (m + i)"
  let ?recs = "take n (drop m history)" and ?es = "take n (drop m (cw_entries (chain_of ?k history tss)))"
  note g = chain_genuine[OF assms(1) _ assms(2), where k = ?k]
  have len: "length ?recs = length ?es" by (simp add: chain_of_entries(1)[OF assms(1)])
  have ok: "\<forall>e \<in> set ?es. hashes_ok e"
    using g(1) chain_of_entries(1)[OF assms(1), of ?k] by (auto simp: in_set_conv_nth)
  have nth: "?recs ! i = ?r" "?es ! i = cw_entries (chain_of ?k history tss) ! (m + i)" "i < length ?recs" "m + i < length history"
    using assms(3,4) by (simp_all add: chain_of_entries(1)[OF assms(1)])
  have ser: "lk_serialize ?k = serialize_decision" by (simp add: decision_kind_def)
  have "stored_record ?k env ?r \<noteq> ?r" using assms(6) unfolding stored_decision by (cases ?r) (simp add: without_mifid_def)
  then have "serialize_decision (stored_record ?k env ?r) \<noteq> serialize_decision ?r"
    using serialize_decision_inj[OF stored_decision_fits[OF assms(5)] assms(5)] by blast
  then show ?thesis
    using dlog.altered_record[where te = te and env = env and t = t, OF len ok nth(3)] g(2,3)[OF nth(4)] unfolding nth(1,2) ser Let_def log_verify_chain_def log_reader.simps
    by blast
qed

definition sample_decisions :: "decision_record list" where
  "sample_decisions = [default_DecisionRecord\<lparr>dr_timestamp_ns := 5, dr_symbol := [66, 84, 67], dr_input_features := [0x3F800000]\<rparr>,
     default_DecisionRecord\<lparr>dr_timestamp_ns := 7, dr_price := 0x40590000\<rparr>]"

definition sample_reader :: parquet_reader where
  "sample_reader = \<lparr>pr_file_data = [], pr_metadata = default_FileMetaData, pr_schema = log_schema (decision_kind sample_text), pr_created_by = []\<rparr>"


theorem mifid_decision_refused_witness:
  "let k = decision_kind sample_text; recs = take 1 (drop 0 [sample_decision]); es = take 1 (drop 0 (cw_entries (chain_of k [sample_decision] [5])));
       r = [sample_decision] ! (0 + 0); e = es ! 0
   in \<not> vr_valid (log_verify_chain k \<lparr>lr_reader = sample_reader, lr_columns = stored_columns k sample_env (batch_rows k recs es (lineage_new ''c1'' 1))\<rparr>)
    \<or> collides (preimage (stored_entry k sample_env r e)) (preimage e)
    \<or> collides (serialize_decision (stored_record k sample_env r)) (serialize_decision r)"
  by (rule mifid_decision_refused)
    (simp_all add: sample_decision_def default_DecisionRecord_def decision_fits_def text_short_def MAX_STRING_LEN_def without_mifid_def)

section \<open>The inference log\<close>

lemma stored_inference:
  "stored_record (inference_kind te) env r = (without_provenance r)\<lparr>ir_input_embedding := json_to_features te (features_to_json te (ir_input_embedding r)),
     ir_output_score := tx_narrow te (en_parse_double env (tx_g17 te (tx_widen te (ir_output_score r))))\<rparr>"
  by (cases r) (simp add: stored_record_def inference_kind_def inference_columns_def inference_cells_def cell_values_def int_cells inference_of_row_def
      default_InferenceRecord_def without_provenance_def without_training_def)

definition inference_survives :: "text_environment \<Rightarrow> environment \<Rightarrow> inference_record \<Rightarrow> bool" where
  "inference_survives te env r \<longleftrightarrow> without_provenance r = r
     \<and> list_all (float_survives te) (ir_input_embedding r) \<and> length (ir_input_embedding r) \<le> MAX_JSON_ARRAY_ELEMENTS
     \<and> tx_narrow te (en_parse_double env (tx_g17 te (tx_widen te (ir_output_score r)))) = ir_output_score r"

lemma inference_survives: "inference_survives te env r \<Longrightarrow> stored_record (inference_kind te) env r = r"
  unfolding stored_inference by (cases r) (simp add: inference_survives_def features_roundtrip without_provenance_def without_training_def)

lemma inference_log_verifies:
  assumes "list_all (inference_survives te env) recs" "sorted (map (\<lambda>r. sint (ir_timestamp_ns r)) recs)" "int (length recs) < 2 ^ 63"
  shows "let k = inference_kind te; es = cw_entries (chain_of k recs (map (\<lambda>r. sint (ir_timestamp_ns r)) recs));
             r = \<lparr>lr_reader = rd, lr_columns = stored_columns k env (batch_rows k recs es t)\<rparr>
         in log_read_all k r = Inr recs
          \<and> log_verify_chain k r = \<lparr>vr_valid = True, vr_entries_checked = int (length recs), vr_first_bad_index = -1\<rparr>"
proof -
  have st: "ilog.stamps te recs = map (\<lambda>r. sint (ir_timestamp_ns r)) recs" unfolding ilog.stamps_def by (simp add: inference_kind_def)
  have "\<forall>r \<in> set recs. stored_record (inference_kind te) env r = r" using assms(1) inference_survives by (auto simp: list_all_iff)
  note acc = ilog.first_batch_accepted[where te = te and recs = recs and env = env, unfolded st, OF this assms(2,3) refl]
  show ?thesis unfolding Let_def log_verify_chain_def log_reader.simps by (intro conjI acc)
qed

end
