(* ===== verification/LogFile.thy ===== *)
theory LogFile
  imports LogVerify
begin

text \<open>
  The file that a log writes, read back: rows in a file of PLAIN, uncompressed pages come back as their columns, whatever
  the row groups they were cut into, and the reader of the log loads these columns.
\<close>

section \<open>Rows in PLAIN pages\<close>

text \<open>Rows of texts that fit one page per column.\<close>

definition row_bytes :: "bytes list \<Rightarrow> nat" where "row_bytes row = sum_list (map (\<lambda>cell. length cell + 8) row)"

definition rows_fit :: "nat \<Rightarrow> bytes list list \<Rightarrow> bool" where
  "rows_fit n rows \<longleftrightarrow> (\<forall>row \<in> set rows. row_ok n row) \<and> length rows \<le> MAX_BP_VALUES \<and> sum_list (map row_bytes rows) \<le> PARQUET_MAX_PAGE_SIZE"

definition plain_columns :: "writer_options \<Rightarrow> column_descriptor list \<Rightarrow> ctype list \<Rightarrow> bool" where
  "plain_columns opts cds ts \<longleftrightarrow> CBool \<notin> set ts \<and> (\<forall>c < length ts. column_typed (cds ! c) (ts ! c) \<and> planned opts (cds ! c) = PLAIN)"

lemma cell_size: "t \<noteq> CBool \<Longrightarrow> length (plain_value (cell_value env (parquet_type_of t) cell)) \<le> length cell + 8"
  by (cases t) (simp_all add: cell_value_def type_codes)

lemma column_size:
  assumes "t \<noteq> CBool" "\<forall>row \<in> set rows. c < length row"
  shows "length (concat (map (\<lambda>row. plain_value (cell_value env (parquet_type_of t) (row ! c))) rows)) \<le> sum_list (map row_bytes rows)"
  using assms(2)
proof (induction rows)
  case (Cons row rows)
  have "length (row ! c) + 8 \<le> row_bytes row" using Cons.prems by (simp add: row_bytes_def member_le_sum_list)
  then show ?case using Cons cell_size[OF assms(1), of env "row ! c"] by simp
qed simp

lemma storable_rows:
  assumes fit: "rows_fit (length ts) rows" and p: "plain_columns opts cds ts" and c: "c < length ts" and ne: "rows \<noteq> []"
  shows "storable opts (cds ! c) (ts ! c) (row_values env cds rows c)"
proof -
  let ?vs = "row_values env cds rows c"
  have cd: "cd_physical_type (cds ! c) = parquet_type_of (ts ! c)" "planned opts (cds ! c) = PLAIN" using p c by (auto simp: plain_columns_def column_typed_def)
  have b: "ts ! c \<noteq> CBool" using p nth_mem[OF c] unfolding plain_columns_def by metis
  have row: "row_ok (length ts) row" if "row \<in> set rows" for row using fit that by (simp add: rows_fit_def)
  have typed: "ctype_of v = ts ! c \<and> stat_short v" if v: "v \<in> set ?vs" for v
  proof -
    obtain row where "row \<in> set rows" "v = cell_value env (parquet_type_of (ts ! c)) (row ! c)" using v cd(1) by (auto simp: row_values_def)
    then show ?thesis using row[of row] c cell_typed by (simp add: row_ok_def list_all_length)
  qed
  then have vs: "\<forall>v \<in> set ?vs. ctype_of v = ts ! c \<and> value_short v" using stat_value_short by blast
  have "buffer_of (ts ! c) ?vs (cw_buf (filled (ts ! c) ?vs))" using holds_filled[OF vs] by (simp add: holds_def)
  then have buf: "cw_buf (filled (ts ! c) ?vs) = concat (map plain_value ?vs)" using b by (simp add: buffer_of_def)
  have "length (concat (map plain_value ?vs)) \<le> sum_list (map row_bytes rows)"
    using column_size[OF b, of rows c env] row c cd(1) by (simp add: row_values_def comp_def row_ok_def)
  then have "length (concat (map plain_value ?vs)) \<le> PARQUET_MAX_PAGE_SIZE" using fit by (simp add: rows_fit_def)
  then have "pages_fit PLAIN (ts ! c) ?vs" by (simp add: pages_fit_def dictionary_encoding_def encoding_codes encode_column_data_def buf)
  moreover have "length ?vs = length rows" by (simp add: row_values_def)
  then have "encodable PLAIN (ts ! c) ?vs"
    using vs ne fit unfolding encodable_def by (auto simp: rows_fit_def encoding_codes dictionary_encoding_def)
  ultimately show ?thesis using typed by (simp add: storable_def cd(2))
qed

section \<open>Row groups\<close>

abbreviation no_values :: "ctype list \<Rightarrow> cvalue list list" where "no_values ts \<equiv> map (\<lambda>_. []) ts"

lemma buffered_rows: "buffered env cds (no_values ts) rows = map (row_values env cds rows) [0..<length ts]"
  by (simp add: buffered_def)

lemma may_flush_rows:
  assumes "rows_fit (length ts) rows" "plain_columns opts cds ts" "ts \<noteq> []"
  shows "may_flush env opts cds ts (gs, no_values ts, rows)"
proof -
  have "hd (map (row_values env cds rows) [0..<length ts]) = row_values env cds rows 0" using assms(3) by (simp add: hd_map hd_upt)
  then show ?thesis
    using storable_rows[OF assms(1,2)] by (auto simp: may_flush_def buffered_rows flushable_def row_values_def)
qed

lemma rows_fit_append: "rows_fit n (rows @ rows') \<Longrightarrow> rows_fit n rows \<and> rows_fit n rows'"
  by (auto simp: rows_fit_def)

lemma flushed_rows: "ts \<noteq> [] \<Longrightarrow> rows \<noteq> []
    \<Longrightarrow> flushed env cds (gs, no_values ts, rows) = (gs @ [map (row_values env cds rows) [0..<length ts]], no_values ts, [])"
  by (simp add: flushed_def buffered_rows Let_def hd_map row_values_def)

text \<open>A sequence of rows, with \<open>waiting\<close> rows before it.\<close>

lemma rows_requests:
  assumes "rows_fit (length ts) (waiting @ rows)" "plain_columns opts cds ts" "ts \<noteq> []"
  shows "requests_ok env opts cds ts (map Row rows) (gs, no_values ts, waiting)"
  using assms(1)
proof (induction rows arbitrary: gs waiting)
  case Nil
  then show ?case using may_flush_rows[OF _ assms(2,3)] by simp
next
  case (Cons row rows)
  have f: "rows_fit (length ts) (waiting @ [row])" "rows_fit (length ts) ((waiting @ [row]) @ rows)"
    using Cons.prems rows_fit_append[of _ "waiting @ [row]" rows] by simp_all
  have "rows_fit (length ts) ([] @ rows)" using rows_fit_append[OF f(2)] by simp
  note ih = Cons.IH[OF this] Cons.IH[OF f(2)]
  have "row_ok (length ts) row" using f(1) by (simp add: rows_fit_def)
  then show ?case using may_flush_rows[OF f(1) assms(2,3)] ih flushed_rows[OF assms(3), of "waiting @ [row]"] by simp
qed

definition column_of_groups :: "cvalue list list list \<Rightarrow> nat \<Rightarrow> cvalue list" where
  "column_of_groups gs c = concat (map (\<lambda>g. g ! c) gs)"

lemma rows_groups:
  assumes "ts \<noteq> []" "c < length ts"
  shows "column_of_groups (groups_of env opts cds (map Row rows) (gs, no_values ts, waiting)) c
    = column_of_groups gs c @ row_values env cds (waiting @ rows) c"
proof (induction rows arbitrary: gs waiting)
  case Nil
  then show ?case
    using assms flushed_rows[OF assms(1), of waiting env cds gs]
    by (cases "waiting = []") (simp_all add: groups_of_def column_of_groups_def row_values_def flushed_def buffered_rows hd_map)
next
  case (Cons row rows)
  show ?case
    using Cons.IH assms flushed_rows[OF assms(1), of "waiting @ [row]"]
    by (simp add: groups_of_def column_of_groups_def row_values_def)
qed

lemma count_groups:
  assumes "ts \<noteq> []" "wo_row_group_size opts = int gsize" "0 < gsize" "length waiting < gsize"
  shows "length (groups_of env opts cds (map Row rows) (gs, no_values ts, waiting)) \<le> length gs + (length waiting + length rows) div gsize + 1"
  using assms(4)
proof (induction rows arbitrary: gs waiting)
  case Nil
  then show ?case by (simp add: groups_of_def flushed_def Let_def)
next
  case (Cons row rows)
  show ?case
  proof (cases "length waiting + 1 = gsize")
    case True
    have "(gsize + length rows) div gsize = length rows div gsize + 1" using assms(3) by simp
    moreover have "length waiting + length (row # rows) = gsize + length rows" using True by simp
    ultimately have "(length waiting + length (row # rows)) div gsize = length rows div gsize + 1" by (simp only:)
    then show ?thesis using Cons.IH[of "[]" "gs @ [map (row_values env cds (waiting @ [row])) [0..<length ts]]"] assms True flushed_rows[OF assms(1), of "waiting @ [row]"] by (simp add: groups_of_def)
  next
    case False
    then show ?thesis using Cons.IH[of "waiting @ [row]"] Cons.prems assms by (simp add: groups_of_def)
  qed
qed

section \<open>The file of a log\<close>

definition plain_kind :: "'r log_kind \<Rightarrow> bool" where
  "plain_kind k \<longleftrightarrow> CBool \<notin> set (column_types k) \<and> (\<forall>col \<in> set (all_columns k). short (text_of (fst col))) \<and> short (text_of (lk_name k))
     \<and> length (all_columns k) < 10000"

lemma plain_kinds: "plain_kind (decision_kind te)" "plain_kind (inference_kind te)"
  by (simp_all add: plain_kind_def column_types_def all_columns_def chain_columns_def lineage_columns_def decision_kind_def decision_columns_def
      inference_kind_def inference_columns_def text_of_def MAX_STRING_BYTES_def)

lemma log_column: "c < length (column_types k) \<Longrightarrow> cd_physical_type (sc_columns (log_schema k) ! c) = parquet_type_of (column_types k ! c)
    \<and> cd_name (sc_columns (log_schema k) ! c) = text_of (fst (all_columns k ! c))"
  by (simp add: column_types_def log_schema_def schema_build_def to_descriptor_def column_of_def split: prod.splits)

lemma log_schema_fits: "plain_kind k \<Longrightarrow> schema_fits (log_schema k) (column_types k)"
proof -
  assume p: "plain_kind k"
  have l: "length (column_types k) = length (all_columns k)" by (simp add: column_types_def)
  have "column_types k \<noteq> []" by (simp add: column_types_def all_columns_def chain_columns_def)
  moreover have "sc_name (log_schema k) = text_of (lk_name k)" by (simp add: log_schema_def schema_build_def)
  moreover have "column_typed (sc_columns (log_schema k) ! c) (column_types k ! c)" if "c < length (column_types k)" for c
    using p that nth_mem[of c "all_columns k"] l by (simp add: column_typed_def log_column plain_kind_def)
  ultimately show ?thesis using p l by (simp add: schema_fits_def log_schema_types plain_kind_def)
qed

lemma nothing_rows: "nothing_written ts = ([], no_values ts, [])"
  by (simp add: nothing_written_def)

lemma log_planned: "planned (log_options k m) cd = PLAIN"
  by (simp add: planned_def choose_encoding_def log_options_def default_options_def)

lemma log_columns_plain: "plain_kind k \<Longrightarrow> plain_columns (log_options k m) (sc_columns (log_schema k)) (column_types k)"
  using log_schema_fits[of k] by (simp add: plain_columns_def log_planned schema_fits_def plain_kind_def)

lemma faithful_plain: "faithful PLAIN out vs \<longleftrightarrow> out = vs"
  by (simp add: faithful_def dictionary_encoding_def encoding_codes)

lemma collect_all: "\<forall>x \<in> set xs. f x = Inr (h x) \<Longrightarrow> collect f xs = Inr (map h xs)"
  by (induction xs) simp_all

context audit_log
begin

lemma loaded_prefix: "c < length (loaded_types k) \<Longrightarrow> c < length (column_types k) \<and> column_types k ! c = loaded_types k ! c"
proof -
  assume c: "c < length (loaded_types k)"
  have "column_types k = loaded_types k @ map (\<lambda>(name, t, lt). t) lineage_columns"
    by (simp add: column_types_def all_columns_def loaded_types_def)
  then show ?thesis using c by (simp add: nth_append)
qed

text \<open>The log's reader loads the columns of the rows from the file that the writer closed, within the limits of the file reader.\<close>

lemma log_file_opens:
  assumes plain: "plain_kind k" and o: "options_fit env (log_options k m)" and rows: "rows_fit (length (column_types k)) rows"
    and w: "write_file env room (log_schema k) (log_options k m) (column_types k) (map Row rows) = (Returned stats, w)"
    and lim: "footer_length w \<le> MAX_TOTAL_FIELDS" "length (pw_file w) \<le> MAX_FILE_SIZE"
  shows "\<exists>r. log_reader_open k (en_registry (with_snappy env)) (Inr ()) (Some (pw_file w)) = Inr \<lparr>lr_reader = r, lr_columns = stored_columns k env rows\<rparr>"
proof -
  let ?opts = "log_options k m" and ?s = "log_schema k" and ?ts = "column_types k" and ?reg = "en_registry (with_snappy env)"
  let ?gs = "groups_of env ?opts (sc_columns ?s) (map Row rows) (nothing_written ?ts)"
  have ne: "?ts \<noteq> []" using loaded_prefix[of 0] loaded_nonempty by auto
  note nothing = nothing_rows[of ?ts]
  have q: "requests_ok env ?opts (sc_columns ?s) ?ts (map Row rows) (nothing_written ?ts)"
    by (subst nothing_rows, rule rows_requests) (use rows log_columns_plain[OF plain] ne in simp_all)
  have "wo_row_group_size ?opts = int 65536" by (simp add: log_options_def default_options_def)
  note count = count_groups[OF ne this, of "[]" env "sc_columns ?s" rows "[]", folded nothing, simplified]
  have "length rows div 65536 \<le> 512"
    using div_le_mono[of "length rows" 33554432 65536] rows by (simp add: rows_fit_def MAX_BP_VALUES_def)
  then have n: "length ?gs \<le> 10000" by (subst nothing_rows) (use count in linarith)
  have "file_reads env ?opts ?s ?ts ?gs (pw_file w)"
    using works_write_file[OF log_schema_fits[OF plain] o q n, of room] w lim by (simp add: works_def)
  then obtain r where r: "reader_open (Some (pw_file w)) = Inr r" "num_row_groups r = length ?gs"
    and col: "\<forall>g < length ?gs. \<forall>c < length ?ts. \<exists>out. read_column ?reg r (?ts ! c) g c = Inr out \<and> faithful PLAIN out (?gs ! g ! c)"
    unfolding file_reads_def log_planned by blast
  let ?m = "length (loaded_types k)"
  have cols: "read_column ?reg r (loaded_types k ! c) g c = Inr (?gs ! g ! c)" if "g < length ?gs" "c < ?m" for g c
    using col that(1) loaded_prefix[OF that(2)] faithful_plain by metis
  let ?groups = "map (\<lambda>g. map (\<lambda>c. ?gs ! g ! c) [0..<?m]) [0..<length ?gs]"
  have groups: "collect (\<lambda>g. collect (\<lambda>c. read_column ?reg r (loaded_types k ! c) g c) [0..<?m]) [0..<num_row_groups r] = Inr ?groups"
    unfolding r(2) by (rule collect_all, intro ballI, rule collect_all) (use cols in simp)
  have "concat (map (\<lambda>g. g ! c) ?groups) = map (\<lambda>row. cell_value env (parquet_type_of (loaded_types k ! c)) (row ! c)) rows" if c: "c < ?m" for c
  proof -
    have "map (\<lambda>g. g ! c) ?groups = map (\<lambda>g. g ! c) ?gs" using c by (intro nth_equalityI) simp_all
    moreover have "column_of_groups ?gs c = map (\<lambda>row. cell_value env (parquet_type_of (loaded_types k ! c)) (row ! c)) rows"
      using rows_groups[OF ne, of c env ?opts "sc_columns ?s" rows "[]" "[]"] loaded_prefix[OF c] log_column[of c k]
      by (subst nothing_rows) (simp add: column_of_groups_def row_values_def)
    ultimately show ?thesis by (simp only: column_of_groups_def)
  qed
  then have "map (\<lambda>c. concat (map (\<lambda>g. g ! c) ?groups)) [0..<?m] = stored_columns k env rows"
    unfolding stored_columns_def by (intro map_cong refl) simp
  then have "load_columns k ?reg r = Inr (stored_columns k env rows)"
    unfolding load_columns_def Let_def groups sum.case using stored_columns_valid(1)[of env rows] by (simp only: map_sum.simps id_apply)
  then show ?thesis using r(1) by (simp add: log_reader_open_def)
qed

end

section \<open>From the writer of a log to its reader\<close>

text \<open>
  The first file of a decision log, opened by the log's reader: the records come back and the chain is accepted, under
  the bounds of the file reader, when the disk kept the whole file.
\<close>

lemma decision_file_verifies:
  fixes te :: text_environment and recs :: "decision_record list"
  defines "k \<equiv> decision_kind te" and "tss \<equiv> map (\<lambda>r. sint (dr_timestamp_ns r)) recs"
  assumes recs: "list_all (decision_survives te env) recs" "sorted tss" "int (length recs) < 2 ^ 63"
    and w: "write_file env room (log_schema k) (log_options k m) (column_types k)
        (map Row (batch_rows k recs (cw_entries (chain_of k recs tss)) t)) = (Returned stats, w)"
    and fits: "options_fit env (log_options k m)" "rows_fit (length (column_types k)) (batch_rows k recs (cw_entries (chain_of k recs tss)) t)"
    and lim: "footer_length w \<le> MAX_TOTAL_FIELDS" "length (pw_file w) \<le> MAX_FILE_SIZE"
    and whole: "enat (length (pw_file w)) \<le> dk_keeps room"
  shows "\<exists>r. log_reader_open k (en_registry (with_snappy env)) (Inr ()) (Some (on_disk w)) = Inr r \<and> log_read_all k r = Inr recs
    \<and> log_verify_chain k r = \<lparr>vr_valid = True, vr_entries_checked = int (length recs), vr_first_bad_index = -1\<rparr>"
proof -
  have disk: "on_disk w = pw_file w" unfolding write_file_keeps[OF w] by (rule kept_whole(1)[OF whole])
  obtain rd where open_log: "log_reader_open k (en_registry (with_snappy env)) (Inr ()) (Some (pw_file w))
    = Inr \<lparr>lr_reader = rd, lr_columns = stored_columns k env (batch_rows k recs (cw_entries (chain_of k recs tss)) t)\<rparr>"
    using dlog.log_file_opens[where te = te, folded k_def, OF _ fits w lim] plain_kinds(1)[of te] by (auto simp: k_def)
  have st: "dlog.stamps te recs = tss" unfolding dlog.stamps_def tss_def by (simp add: decision_kind_def)
  have "\<forall>r \<in> set recs. stored_record k env r = r" using recs(1) decision_survives by (auto simp: list_all_iff k_def)
  note acc = dlog.first_batch_accepted[where te = te and recs = recs and env = env, unfolded st, folded k_def, OF this recs(2,3) refl]
  show ?thesis using open_log acc unfolding disk log_verify_chain_def by (metis log_reader.select_convs(2))
qed

end
