(* ===== verification/Spec2Isabelle.thy ===== *)
theory Spec2Isabelle
  imports Rle Delta Dictionary ByteStreamSplit Compression Snappy Xxhash Bloom Sha256 Hkdf Aes AesVector AesCtr AesGcm MpmcRing WalManager AuditChain
    Footer PlainPage PageIndex FileSafety LogFile
begin

text \<open>
  Signet Forge is a header-only C++ library that writes and reads Apache Parquet files, with its own encoders,
  compression codec, Thrift codec, ciphers, write-ahead log and audit chain (\<^verbatim>\<open>src/include/signet/\<close>, below without
  that prefix).  This development models it as functions on explicit states and proves what makes each part
  correct.

  \<^bold>\<open>How the parts fit.\<close>  A writer buffers the values of a column as a PLAIN page with their statistics, re-encodes the
  page, compresses it, puts a Thrift page header with a CRC-32 before it, and ends the file with a Thrift footer that
  describes schema, row groups and column chunks; page indexes and Bloom filters serve readers that want to
  skip data.  A reader undoes these steps, with every size checked.  Beside the file format stand the ciphers
  and hashes of the encryption tier, a hash-chained audit log, a write-ahead log and a lock-free queue.

  \<^bold>\<open>Conventions\<close> (\<open>Prelude\<close>).  A w-bit integer is a \<open>w word\<close>; \<open>sint\<close> and \<open>unat\<close> read it.  A \<^verbatim>\<open>size_t\<close> length or
  index is a natural number, with the guards against wrap-around kept where the code has them.  A byte buffer
  is a list of bytes.  A \<^verbatim>\<open>float\<close> or \<^verbatim>\<open>double\<close> is its IEEE 754 bit pattern, compared by \<open>float_less\<close> and
  \<open>double_less\<close>.  An \<^verbatim>\<open>expected<T>\<close> is a sum of an error code and a value; an operation that fails leaves the
  state it had reached, but a half-filled result object is not modelled.  An enumeration that is read from a file by
  a cast is its 32-bit code.  A thrown exception is \<open>None\<close>.

  \<^bold>\<open>Encodings.\<close>
  \<^item> \<open>Codec\<close>: the interface of self-delimiting fields, a locale with what follows for sequences of fields.
  \<^item> \<open>Varint\<close>: LEB128 and zigzag numbers, in the variants of the RLE, delta, Snappy and Thrift code.
  \<^item> \<open>BitPack\<close>, \<open>Rle\<close> (\<^verbatim>\<open>encoding/rle.hpp\<close>): the run-length and bit-packing hybrid, its encoder as a state machine with
    invariant \<open>enc_inv\<close>, its decoder with \<open>dec_ok\<close>; round trip and bounds on the work done for any input.
  \<^item> \<open>Delta\<close> (\<^verbatim>\<open>encoding/delta.hpp\<close>): blocks and miniblocks; the round trip, and the sequences that do not survive.
  \<^item> \<open>Dictionary\<close> (\<^verbatim>\<open>encoding/dictionary.hpp\<close>): the locale \<open>plain_codec\<close> of value writers, interpreted for all
    five value types; each value is stored once; the column comes back.
  \<^item> \<open>ByteStreamSplit\<close> (\<^verbatim>\<open>encoding/byte_stream_split.hpp\<close>): the byte transposition and its inverse.
  \<^item> \<open>Compression\<close>, \<open>Snappy\<close> (\<^verbatim>\<open>compression/\<close>): the registry, its guards and the locale \<open>compression_codec\<close>; Snappy is
    shown to satisfy it, through the notion of a stream that decodes to an output.

  \<^bold>\<open>Columns.\<close>
  \<^item> \<open>Schema\<close> (\<^verbatim>\<open>types.hpp\<close>, \<^verbatim>\<open>schema.hpp\<close>): codes of the enumerations, descriptors, the builder.
  \<^item> \<open>Statistics\<close> (\<^verbatim>\<open>statistics.hpp\<close>): typed minimum and maximum kept as bytes; the locale \<open>ordered_values\<close> says what an
    order needs, and is interpreted for every value type.
  \<^item> \<open>PlainPage\<close> (\<^verbatim>\<open>column_writer.hpp\<close>, \<^verbatim>\<open>column_reader.hpp\<close>): \<open>holds\<close> says which values a buffer has, \<open>stands\<close>
    which values a reader is about to read; writing extends the one, reading consumes the other.
  \<^item> \<open>PageIndex\<close> (\<^verbatim>\<open>column_index.hpp\<close>): page locations and bounds, their Thrift form, the filter and its builder.
  \<^item> \<open>Xxhash\<close>, \<open>Bloom\<close> (\<^verbatim>\<open>bloom/\<close>): the hash and the filter, refined to a set of bits.

  \<^bold>\<open>Files.\<close>
  \<^item> \<open>FileWriter\<close> (\<^verbatim>\<open>writer.hpp\<close>): the state of \<^verbatim>\<open>ParquetWriter\<close> and its operations as steps that return, return an
    error or throw; the stream is the bytes it was given, how many it takes before a write is seen to fail, and how
    many of them reach the disk when it is flushed and closed, which the writer does not check (\<open>disk\<close>, \<open>on_disk\<close>).
    Codecs other than Snappy, conversions of texts to floating-point numbers and the size formula of a Bloom filter are
    fields of the record \<open>environment\<close>.
  \<^item> \<open>FileReader\<close> (\<^verbatim>\<open>reader.hpp\<close>), \<open>MmapReader\<close> (\<^verbatim>\<open>mmap_reader.hpp\<close>): \<^verbatim>\<open>ParquetReader\<close> and \<^verbatim>\<open>MmapParquetReader\<close> on the
    bytes of a file.
  \<^item> \<open>FilePage\<close>: the calculus \<open>works\<close> (a step returns with its postcondition, or throws because the disk is full), pages
    in a file, and each encoding undone by the path that \<^verbatim>\<open>read_column\<close> chooses; \<open>encodable\<close> states the bounds.
  \<^item> \<open>ChunkRoundtrip\<close>, \<open>FileContent\<close>: column chunks hold what was written, whatever follows in the file; \<open>content\<close>
    abstracts a writer to its row groups, buffered columns and waiting rows.
  \<^item> \<open>FileRoundtrip\<close>, \<open>FileSafety\<close>: any session with a writer refines operations on such tables, and the closed file is
    read back; a small file down to its bytes; the checks behind every value that is read, wrong overrides, a full
    disk.

  \<^bold>\<open>Metadata.\<close>
  \<^item> \<open>Thrift\<close> (\<^verbatim>\<open>thrift/compact.hpp\<close>): encoder and decoder with field stack, sticky error flag and limits.  Skipping has
    the fuel \<open>2 * remaining + 2\<close>, which every nested call has enough of because each level reads a byte.
  \<^item> \<open>ThriftStruct\<close>: writers and readers of structs from lists of fields, the locale \<open>thrift_type\<close> (what is written
    reads back anywhere; every input is decoded or refused), and step rules that make each type a few lines.  A loop
    over fields has fuel for one more turn than there are bytes left, and every turn but the last takes a byte.
  \<^item> \<open>ParquetTypes\<close>, \<open>ParquetMeta\<close>, \<open>Footer\<close> (\<^verbatim>\<open>thrift/types.hpp\<close>): all metadata structs, as interpretations of \<open>thrift_type\<close>,
    and the properties of the family.

  \<^bold>\<open>Cryptography.\<close>
  \<^item> \<open>Sha256\<close>, \<open>Hkdf\<close>, \<open>Aes\<close>, \<open>AesVector\<close>, \<open>AesCtr\<close>, \<open>Ghash\<close>, \<open>AesGcm\<close> (\<^verbatim>\<open>crypto/\<close>): streaming hash against padded fold,
    HMAC and HKDF, the AES-256 block cipher and its inverse, counter mode and its limit, the table-free
    field multiplication against polynomial multiplication, GCM against its standard, and what decryption accepts.

  \<^bold>\<open>Logs and queues.\<close>
  \<^item> \<open>Crc32\<close>, \<open>Wal\<close>, \<open>WalManager\<close> (\<^verbatim>\<open>ai/wal.hpp\<close>): records on a byte-list file; the outcome of each system call is an
    argument.  Sessions, crashes that cut the file anywhere, damage, rolling and pruning of segments.
  \<^item> \<open>Decimal\<close>, \<open>AuditChain\<close> (\<^verbatim>\<open>ai/audit_chain.hpp\<close>): the hash chain; tampering exhibits a SHA-256 collision.
  \<^item> \<open>LogRecord\<close> (\<^verbatim>\<open>ai/decision_log.hpp\<close>, \<^verbatim>\<open>ai/inference_log.hpp\<close>): the two records with \<^verbatim>\<open>serialize\<close> and \<^verbatim>\<open>deserialize\<close>, and
    what reading back a cut record gives.
  \<^item> \<open>AuditLog\<close>: the writers and readers of both logs as definitions over a \<open>log_kind\<close> (record, schema, texts of the
    columns), on top of \<open>AuditChain\<close>, the file writer and reader and the row lineage (\<^verbatim>\<open>ai/row_lineage.hpp\<close>).  The float
    conversions and formats are fields of the record \<open>text_environment\<close>; licence, clock, file system are arguments.
    The invariant \<open>log_inv\<close> ties the chain, the files written and the records that wait to all that was accepted.
  \<^item> \<open>LogVerify\<close>: the locale \<open>audit_log\<close> (what the two kinds promise of their columns), interpreted for both; which
    logs \<^verbatim>\<open>verify_chain\<close> accepts, and which of its own writer's files it refuses.  \<open>LogFile\<close> goes from the closed file
    to the log's reader through \<open>FileRoundtrip\<close>.
  \<^item> \<open>MpmcRing\<close> (\<^verbatim>\<open>ai/mpmc_ring.hpp\<close>): any number of threads as a step relation, one step per atomic access, in a
    sequentially consistent interleaving with unbounded cursors; every run refines a bounded queue.

  \<^bold>\<open>Not modelled.\<close>  The parts named in the manifest with their reasons: bindings to foreign memory layouts,
  floating-point and SIMD arithmetic, operating-system calls, report texts, wrappers around third-party
  libraries, and the commercial encryption tier of the file format.
\<close>

end
